(* ===== verification/Prelude.thy ===== *)
theory Prelude
  imports Main "HOL-Library.Word"
begin

text \<open>
  The shared vocabulary of the development: Go's fixed-width integers as words, the
  sentinel errors of the library as one datatype, the most-significant-bit-first bit
  lists that give the FLAC bitstream its meaning, and the lemmas about them that the
  component theories use.
\<close>

unbundle bit_operations_syntax

section \<open>Integer types and errors\<close>

type_synonym u8 = "8 word"
type_synonym u16 = "16 word"
type_synonym u32 = "32 word"
type_synonym u64 = "64 word"
type_synonym i32 = "32 word"
type_synonym i64 = "64 word"

text \<open>
  The sentinel errors of \<^verbatim>\<open>src/flac.go\<close>, the errors of Go's \<open>io\<close> package that the code
  tests for, the two package-level deferral signals (\<open>rice.ErrResidualRange\<close> and
  \<open>frame.errSubframeOutOfRange\<close>) and the failures of the runtime. An error the code
  builds with \<open>fmt.Errorf("...: %w", e)\<close> is represented by the sentinel \<open>e\<close> it wraps:
  the code only ever inspects errors with \<open>errors.Is\<close>, which looks through the wrapping.
  \<open>ErrIO n\<close> stands for any other error an underlying source or sink reports.
\<close>

datatype err =
    EOF
  | ErrUnexpectedEOF
  | ErrNoProgress
  | ErrIO nat
  | ErrSeekUnsupported
  | ErrMissingStreamInfo
  | ErrCRCMismatch
  | ErrMD5Mismatch
  | ErrUnsupported
  | ErrEncoderClosed
  | ErrTruncatedStream "err option"
  | ErrDecodeLimit
  | ErrSampleOutOfRange
  | ErrInvalidSeek
  | ErrResidualRange
  | ErrSubframeOutOfRange
  | ErrUsage
  | ErrStackOverflow
  | ErrPanic

text \<open>The \<open>defer\<close> blocks that turn a clean end of stream into a truncation.\<close>

definition noEOF :: "err \<Rightarrow> err" where
  "noEOF e = (if e = EOF then ErrUnexpectedEOF else e)"

lemma noEOF_simps [simp]:
  "noEOF EOF = ErrUnexpectedEOF"
  "e \<noteq> EOF \<Longrightarrow> noEOF e = e"
  "noEOF (noEOF e) = noEOF e"
  by (simp_all add: noEOF_def)

lemma noEOF_neq_EOF [simp]: "noEOF e \<noteq> EOF" "EOF \<noteq> noEOF e"
  by (simp_all add: noEOF_def)

section \<open>Bit lists, most significant bit first\<close>

definition bits_msb :: "nat \<Rightarrow> 'a::semiring_bits \<Rightarrow> bool list" where
  "bits_msb n x = map (bit x) (rev [0..<n])"

definition bits_val :: "bool list \<Rightarrow> 'a::comm_semiring_1" where
  "bits_val bs = horner_sum of_bool 2 (rev bs)"

definition byte_bits :: "u8 list \<Rightarrow> bool list" where
  "byte_bits bs = concat (map (bits_msb 8) bs)"

named_theorems bits_simps

lemma length_bits_msb [simp]: "length (bits_msb n x) = n"
  by (simp add: bits_msb_def)

lemma nth_bits_msb: "i < n \<Longrightarrow> bits_msb n x ! i = bit x (n - Suc i)"
  by (simp add: bits_msb_def rev_nth)

lemma bits_msb_0 [simp]: "bits_msb 0 x = []"
  by (simp add: bits_msb_def)

lemma bits_msb_eq_Nil [simp]: "bits_msb n x = [] \<longleftrightarrow> n = 0"
  by (simp add: bits_msb_def)

lemma bits_msb_Suc: "bits_msb (Suc n) x = bit x n # bits_msb n x"
  by (simp add: bits_msb_def)

lemma bits_msb_of_0 [simp]: "bits_msb n (0::'a::semiring_bits) = replicate n False"
  by (induction n) (simp_all add: bits_msb_Suc)

lemma bits_msb_add: "bits_msb (m + n) x = bits_msb m (drop_bit n x) @ bits_msb n x"
  for x :: "'a::semiring_bit_operations"
  by (induction m) (simp_all add: bits_msb_Suc bit_simps add.commute)

lemma bits_msb_cong: "(\<And>i. i < n \<Longrightarrow> bit x i = bit y i) \<Longrightarrow> bits_msb n x = bits_msb n y"
  by (rule nth_equalityI) (simp_all add: nth_bits_msb)

lemma bits_msb_take_bit [simp]: "n \<le> m \<Longrightarrow> bits_msb n (take_bit m x) = bits_msb n x"
  for x :: "'a::semiring_bit_operations"
  by (rule bits_msb_cong) (simp add: bit_simps)

lemma take_bits_msb: "k \<le> n \<Longrightarrow> take k (bits_msb n x) = bits_msb k (drop_bit (n - k) x)"
  for x :: "'a::semiring_bit_operations"
  using bits_msb_add [of k "n - k" x] by simp

lemma drop_bits_msb: "k \<le> n \<Longrightarrow> drop k (bits_msb n x) = bits_msb (n - k) x"
  for x :: "'a::semiring_bit_operations"
  using bits_msb_add [of k "n - k" x] by simp

lemma length_byte_bits [simp]: "length (byte_bits bs) = 8 * length bs"
  by (induction bs) (simp_all add: byte_bits_def)

lemma byte_bits_simps [simp]:
  "byte_bits [] = []"
  "byte_bits (b # bs) = bits_msb 8 b @ byte_bits bs"
  "byte_bits (xs @ ys) = byte_bits xs @ byte_bits ys"
  by (simp_all add: byte_bits_def)

lemma take_byte_bits: "take (8 * n) (byte_bits bs) = byte_bits (take n bs)"
proof (induction n arbitrary: bs)
  case (Suc n)
  then show ?case by (cases bs) simp_all
qed simp

lemma drop_byte_bits: "drop (8 * n) (byte_bits bs) = byte_bits (drop n bs)"
proof (induction n arbitrary: bs)
  case (Suc n)
  then show ?case by (cases bs) simp_all
qed simp

subsection \<open>The value of a bit list\<close>

lemma bits_val_Nil [simp]: "bits_val [] = 0"
  by (simp add: bits_val_def)

lemma bits_val_Cons: "bits_val (b # bs) = of_bool b * 2 ^ length bs + bits_val bs"
  by (simp add: bits_val_def horner_sum_append mult.commute add.commute)

lemma bits_val_append: "bits_val (xs @ ys) = bits_val xs * 2 ^ length ys + bits_val ys"
  by (simp add: bits_val_def horner_sum_append mult.commute add.commute)

lemma bits_val_bits_msb: "bits_val (bits_msb n x) = take_bit n x"
  for x :: "'a::semiring_bit_operations"
  by (simp add: bits_val_def bits_msb_def rev_map [symmetric] horner_sum_bit_eq_take_bit)

lemma of_nat_bits_val [simp]: "of_nat (bits_val bs) = bits_val bs"
  by (induction bs) (simp_all add: bits_val_Cons)

lemma bits_val_less: "bits_val bs < (2::nat) ^ length bs"
proof (induction bs)
  case (Cons b bs)
  have "bits_val (b # bs) < (of_bool b * 2 ^ length bs + 2 ^ length bs :: nat)"
    using Cons.IH by (simp add: bits_val_Cons)
  also have "\<dots> \<le> 2 ^ length (b # bs)" by simp
  finally show ?case .
qed simp

lemma bit_bits_val:
  "bit (bits_val bs :: 'a::semiring_bit_operations) i
     \<longleftrightarrow> possible_bit TYPE('a) i \<and> i < length bs \<and> bs ! (length bs - Suc i)"
  by (auto simp: bits_val_def bit_horner_sum_bit_iff rev_nth)

lemma bits_msb_bits_val: "length bs = n \<Longrightarrow> bits_msb n (bits_val bs :: nat) = bs"
  by (rule nth_equalityI) (auto simp: nth_bits_msb bit_bits_val)

lemma bits_msb_inj:
  "bits_msb n x = bits_msb n y \<Longrightarrow> take_bit n x = take_bit n y"
  for x :: "'a::semiring_bit_operations"
  by (metis bits_val_bits_msb)

lemma bits_msb_ucast8: "bits_msb 8 (ucast v :: u8) = bits_msb 8 v" for v :: "'a::len word"
  by (rule bits_msb_cong) (simp add: bit_simps)

lemma bits_msb_groups:
  "concat (map (\<lambda>i. bits_msb k (drop_bit (k * i) x)) (rev [0..<m])) = bits_msb (k * m) x"
  for x :: "'a::semiring_bit_operations"
proof (induction m)
  case (Suc m)
  then show ?case using bits_msb_add [of k "k * m" x] by (simp add: add.commute)
qed simp

section \<open>Left-aligned 64-bit accumulators\<close>

text \<open>
  Reader and writer keep their pending bits at the top of a 64-bit word, all lower bits
  zero; these lemmas say what shifting a value into such a word does to its bit string.
\<close>

lemma take_acc_or:
  fixes acc v :: u64
  assumes "take_bit (64 - k) acc = 0" "k + n \<le> 64"
  shows "take (k + n) (bits_msb 64 (acc OR push_bit (64 - k - n) (take_bit n v))) = take k (bits_msb 64 acc) @ bits_msb n v"
proof (rule nth_equalityI)
  have low: "\<not> bit acc j" if "j < 64 - k" for j
    by (metis assms(1) bit_0_eq bit_take_bit_iff bot_apply bot_bool_def that)
  fix i assume "i < length (take (k + n) (bits_msb 64 (acc OR push_bit (64 - k - n) (take_bit n v))))"
  then have i: "i < k + n" by (simp add: min_def split: if_splits)
  show "take (k + n) (bits_msb 64 (acc OR push_bit (64 - k - n) (take_bit n v))) ! i =
        (take k (bits_msb 64 acc) @ bits_msb n v) ! i"
  proof (cases "i < k")
    case True
    then show ?thesis using assms(2) by (auto simp: nth_append nth_bits_msb bit_simps)
  next
    case False
    moreover have "63 - i - (64 - k - n) = n - Suc (i - k)" using False i assms(2) by linarith
    ultimately show ?thesis using i assms(2) low [of "63 - i"]
      by (auto simp: nth_append nth_bits_msb bit_simps)
  qed
qed (use assms in simp)

lemma take_bit_push_take: 
  fixes acc v :: u64
  assumes "take_bit (64 - k) acc = 0" "k + n \<le> 64"
  shows "take_bit (64 - (k + n)) (acc OR push_bit (64 - k - n) (take_bit n v)) = 0"
proof (rule bit_word_eqI)
  have low: "\<not> bit acc j" if "j < 64 - k" for j
    by (metis assms(1) bit_0_eq bit_take_bit_iff bot_apply bot_bool_def that)
  fix j :: nat
  show "bit (take_bit (64 - (k + n)) (acc OR push_bit (64 - k - n) (take_bit n v))) j = bit (0::u64) j"
    using low [of j] by (auto simp: bit_simps)
qed

lemma push_take_top: "push_bit (64 - r) (take_bit n v) = push_bit (64 - r) (take_bit r v)"
  if "r \<le> n" "r \<le> 64" for v :: u64
proof (rule bit_word_eqI)
  fix j assume "j < LENGTH(64)"
  then have "j - (64 - r) < r \<longleftrightarrow> j - (64 - r) < n" if "64 - r \<le> j"
    using that \<open>r \<le> n\<close> \<open>r \<le> 64\<close> by auto
  then show "bit (push_bit (64 - r) (take_bit n v)) j = bit (push_bit (64 - r) (take_bit r v)) j"
    by (auto simp: bit_push_bit_iff bit_take_bit_iff)
qed

lemma take_push_top: "take r (bits_msb 64 (push_bit (64 - r) (take_bit r v))) = bits_msb r v"
  if "r \<le> 64" for v :: u64
  using take_acc_or [of 0 0 r v] that by simp

lemma low_push_top: "take_bit (64 - r) (push_bit (64 - r) v) = 0" for v :: u64
  by (rule bit_word_eqI) (auto simp: bit_simps)

section \<open>Writing a run of elements\<close>

text \<open>\<open>copy\<close> of a row into a longer slice at an offset; what lies outside the row stays.\<close>

definition put_row :: "nat \<Rightarrow> 'a list \<Rightarrow> 'a list \<Rightarrow> 'a list" where
  "put_row a row xs = take a xs @ row @ drop (a + length row) xs"

lemma length_put_row: "a + length row \<le> length xs \<Longrightarrow> length (put_row a row xs) = length xs"
  by (simp add: put_row_def)

section \<open>Signed arithmetic that does not overflow\<close>

text \<open>\<open>fits n x\<close>: the integer \<open>x\<close> is representable in \<open>n\<close> bits of two's complement.\<close>

definition fits :: "nat \<Rightarrow> int \<Rightarrow> bool" where
  "fits n x \<longleftrightarrow> 0 < n \<and> - (2 ^ (n - 1)) \<le> x \<and> x < 2 ^ (n - 1)"

lemma sint_add_fits: "fits LENGTH('a) (sint x + sint y) \<Longrightarrow> sint (x + y) = sint x + sint y" for x y :: "'a::len word"
  by (simp add: fits_def sint_word_ariths signed_take_bit_int_eq_self)

lemma sint_diff_fits: "fits LENGTH('a) (sint x - sint y) \<Longrightarrow> sint (x - y) = sint x - sint y" for x y :: "'a::len word"
  by (simp add: fits_def sint_word_ariths signed_take_bit_int_eq_self)

lemma sint_mult_fits: "fits LENGTH('a) (sint x * sint y) \<Longrightarrow> sint (x * y) = sint x * sint y" for x y :: "'a::len word"
  by (simp add: fits_def sint_word_ariths signed_take_bit_int_eq_self)

lemma sint_signed_drop_bit: "sint (signed_drop_bit n x) = sint x div 2 ^ n" for x :: "'a::len word"
  by (simp add: sint_signed_drop_bit_eq drop_bit_eq_div)

lemma sint_fits: "fits LENGTH('a) (sint (x::'a::len word))"
  using sint_greater_eq [of x] sint_less [of x] by (simp add: fits_def)

lemma sint_of_int_fits: "fits LENGTH('a) x \<Longrightarrow> sint (of_int x :: 'a::len word) = x"
  by (simp add: fits_def sint_sbintrunc' signed_take_bit_int_eq_self)

lemma sint_lim:
  assumes "k < LENGTH('a) - 1"
  shows "sint (2 ^ k :: 'a::len word) = 2 ^ k" "sint (- (2 ^ k) :: 'a word) = - (2 ^ k)"
proof -
  have l: "(2::int) ^ k < 2 ^ (LENGTH('a) - 1)" using assms by (intro power_strict_increasing) auto
  have p: "(0::int) < 2 ^ k" by simp
  have f: "fits LENGTH('a) (2 ^ k)" "fits LENGTH('a) (- (2 ^ k))"
    unfolding fits_def by (intro conjI len_gt_0; use l p in linarith)+
  show "sint (2 ^ k :: 'a word) = 2 ^ k" "sint (- (2 ^ k) :: 'a word) = - (2 ^ k)"
    using f [THEN sint_of_int_fits] by simp_all
qed

lemma fits_mono: "fits m x \<Longrightarrow> m \<le> n \<Longrightarrow> fits n x"
proof -
  assume a: "fits m x" "m \<le> n"
  then have "(2::int) ^ (m - 1) \<le> 2 ^ (n - 1)" by (intro power_increasing) auto
  with a show ?thesis unfolding fits_def by linarith
qed

lemma sint_scast_up:
  fixes x :: "'a::len word"
  assumes "LENGTH('a) \<le> LENGTH('b)"
  shows "sint (scast x :: 'b::len word) = sint x"
  using assms by transfer (simp add: min_def)

lemma sint_ucast_down:
  fixes x :: "'a::len word"
  assumes "LENGTH('b) \<le> LENGTH('a)" "fits LENGTH('b) (sint x)"
  shows "sint (ucast x :: 'b::len word) = sint x"
proof -
  have "ucast x = (word_of_int (sint x) :: 'b word)"
    using assms(1) by (intro bit_word_eqI) (auto simp: bit_simps)
  moreover have "signed_take_bit (LENGTH('b) - 1) (sint x) = sint x"
    using assms(2) by (simp add: fits_def signed_take_bit_int_eq_self)
  ultimately show ?thesis by (simp only: sint_sbintrunc')
qed

lemma halve_double:
  fixes x :: "'a::len word"
  assumes "fits (LENGTH('a) - 1) (sint x)"
  shows "signed_drop_bit 1 (x + x) = x"
proof -
  have "2 * 2 ^ (LENGTH('a) - 1 - 1) = (2::int) ^ (LENGTH('a) - 1)"
    using assms by (cases "LENGTH('a) - 1") (simp_all add: fits_def)
  then have "fits LENGTH('a) (sint x + sint x)" using assms by (simp add: fits_def)
  then have "sint (x + x) = sint x + sint x" by (rule sint_add_fits)
  then have "sint (signed_drop_bit 1 (x + x)) = sint x"
    unfolding sint_signed_drop_bit by simp
  then show ?thesis by (simp add: signed_word_eqI)
qed

end
