(* ===== verification/Bitio_Reader.thy ===== *)
theory Bitio_Reader
  imports Prelude
begin

text \<open>
  The bit reader of \<^verbatim>\<open>src/internal/bitio/reader.go\<close>: an owned block buffer filled from an
  \<open>io.Reader\<close>, a left-aligned 64-bit accumulator loaded from the buffer, and a byte tap
  that sees every consumed byte, either byte by byte or in deferred runs. The first half
  transcribes the operations; the second half proves that on a well-formed reader each
  of them consumes the bits of one fixed bit string in order, whatever the sizes of the
  source's reads, and that the tap folds exactly the bytes that were consumed.
\<close>

section \<open>The byte source\<close>

text \<open>
  An \<open>io.Reader\<close> is the list of what its successive \<open>Read\<close> calls deliver: a run of bytes
  and, with the last byte of the run, possibly an error. A call with a shorter buffer
  takes a prefix and leaves the rest of the run for the next call. When nothing is left
  the source reports \<open>io.EOF\<close>.
\<close>

datatype chunk = Chunk "u8 list" "err option"

fun src_read :: "nat \<Rightarrow> chunk list \<Rightarrow> u8 list \<times> err option \<times> chunk list" where
  "src_read k [] = ([], Some EOF, [])"
| "src_read k (Chunk bs e # cs) =
     (if length bs \<le> k then (bs, e, cs) else (take k bs, None, Chunk (drop k bs) e # cs))"

text \<open>
  All the bytes a source still delivers and the error it then ends with; the counter is
  the number of consecutive empty reads already seen, of which \<open>readMore\<close> tolerates 99.
\<close>

definition maxEmptyReads :: nat where "maxEmptyReads = 100"

fun src_bytes :: "nat \<Rightarrow> chunk list \<Rightarrow> u8 list \<times> err" where
  "src_bytes k [] = ([], EOF)"
| "src_bytes k (Chunk bs e # cs) =
     (case e of
        Some x \<Rightarrow> (bs, x)
      | None \<Rightarrow>
          if bs = [] then (if k + 1 \<ge> maxEmptyReads then ([], ErrNoProgress) else src_bytes (k + 1) cs)
          else (bs @ fst (src_bytes 0 cs), snd (src_bytes 0 cs)))"

fun src_len :: "chunk list \<Rightarrow> nat" where
  "src_len [] = 0"
| "src_len (Chunk bs e # cs) = length bs + src_len cs"

lemma src_read_len: "src_read k src = (bs, e, src') \<Longrightarrow> src_len src = length bs + src_len src' \<and> length bs \<le> k"
  by (induction k src rule: src_read.induct) (auto split: if_splits)

definition readBlock :: nat where "readBlock = 8192"
definition minReadBlock :: nat where "minReadBlock = 16"
section \<open>The reader and its operations\<close>

text \<open>
  \<open>'t\<close> is the state of the object installed as tap; \<open>rd_tap\<close> and \<open>rd_rtap\<close> are its
  \<open>TapByte\<close> and \<open>TapBytes\<close> methods.
\<close>

record 't reader =
  rd_src :: "chunk list"
  rd_buf :: "u8 list"
  rd_r :: nat
  rd_w :: nat
  rd_acc :: u64
  rd_nbits :: nat
  rd_tap :: "('t \<Rightarrow> u8 \<Rightarrow> 't) option"
  rd_rtap :: "('t \<Rightarrow> u8 list \<Rightarrow> 't) option"
  rd_tapSt :: 't
  rd_tapCur :: nat
  rd_loaded :: nat
  rd_basePos :: nat
  rd_err :: "err option"

definition fresh_reader :: "chunk list \<Rightarrow> u8 list \<Rightarrow> 't \<Rightarrow> 't reader" where
  "fresh_reader src buf t =
     \<lparr>rd_src = src, rd_buf = buf, rd_r = 0, rd_w = 0, rd_acc = 0, rd_nbits = 0, rd_tap = None,
      rd_rtap = None, rd_tapSt = t, rd_tapCur = 0, rd_loaded = 0, rd_basePos = 0, rd_err = None\<rparr>"

definition NewReaderSize :: "chunk list \<Rightarrow> nat \<Rightarrow> 't \<Rightarrow> 't reader" where
  "NewReaderSize src sz t = fresh_reader src (replicate (max sz minReadBlock) 0) t"

definition NewReader :: "chunk list \<Rightarrow> 't \<Rightarrow> 't reader" where
  "NewReader src t = NewReaderSize src readBlock t"

definition Reset :: "chunk list \<Rightarrow> 't reader \<Rightarrow> 't reader" where
  "Reset src rd =
     (let buf = (if rd_buf rd = [] then replicate readBlock 0 else rd_buf rd)
      in fresh_reader src buf (rd_tapSt rd))"

definition ResetAt :: "chunk list \<Rightarrow> nat \<Rightarrow> 't reader \<Rightarrow> 't reader" where
  "ResetAt src pos rd = (Reset src rd)\<lparr>rd_basePos := pos\<rparr>"

definition consumedBytes :: "'t reader \<Rightarrow> nat" where
  "consumedBytes rd = (8 * rd_r rd - rd_nbits rd) div 8"

definition ByteAligned :: "'t reader \<Rightarrow> bool" where
  "ByteAligned rd \<longleftrightarrow> rd_nbits rd mod 8 = 0"

definition BytesRead :: "'t reader \<Rightarrow> nat" where
  "BytesRead rd = rd_basePos rd + (8 * rd_loaded rd - rd_nbits rd) div 8"

text \<open>
  \<open>SetTapper (Some (tap, rtap, st))\<close> installs a tap whose \<open>TapBytes\<close> is \<open>rtap\<close> when it has one;
  \<open>None\<close> is the \<open>nil\<close> tap.
\<close>

definition SetTapper ::
  "(('t \<Rightarrow> u8 \<Rightarrow> 't) \<times> ('t \<Rightarrow> u8 list \<Rightarrow> 't) option \<times> 't) option \<Rightarrow> 't reader \<Rightarrow> 't reader" where
  "SetTapper t rd =
     (case t of
        None \<Rightarrow> rd\<lparr>rd_tap := None, rd_rtap := None\<rparr>
      | Some (tap, rtap, st) \<Rightarrow>
          rd\<lparr>rd_tapCur := consumedBytes rd, rd_tap := Some tap, rd_rtap := rtap, rd_tapSt := st\<rparr>)"

definition SwitchTapToDeferred :: "'t reader \<Rightarrow> 't reader" where
  "SwitchTapToDeferred rd = (if rd_rtap rd \<noteq> None then rd\<lparr>rd_tap := None\<rparr> else rd)"

definition FlushTap :: "'t reader \<Rightarrow> 't reader" where
  "FlushTap rd =
     (case rd_rtap rd of
        None \<Rightarrow> rd
      | Some g \<Rightarrow>
          let fc = consumedBytes rd
          in if fc > rd_tapCur rd
             then rd\<lparr>rd_tapSt := g (rd_tapSt rd) (take (fc - rd_tapCur rd) (drop (rd_tapCur rd) (rd_buf rd))),
                     rd_tapCur := fc\<rparr>
             else rd)"

definition SetTap :: "('t \<Rightarrow> u8 \<Rightarrow> 't) option \<Rightarrow> 't \<Rightarrow> 't reader \<Rightarrow> 't reader" where
  "SetTap fn st rd =
     (case fn of None \<Rightarrow> SetTapper None rd | Some f \<Rightarrow> SetTapper (Some (f, None, st)) rd)"

definition compact :: "'t reader \<Rightarrow> 't reader" where
  "compact rd =
     (let fc = consumedBytes rd
      in if fc > 0
         then let n = rd_w rd - fc
              in rd\<lparr>rd_buf := take n (drop fc (rd_buf rd)) @ drop n (rd_buf rd),
                    rd_w := n, rd_r := rd_r rd - fc, rd_tapCur := rd_tapCur rd - fc\<rparr>
         else rd)"

function readLoop :: "nat \<Rightarrow> 't reader \<Rightarrow> 't reader" where
  "readLoop empties rd =
     (if rd_w rd < length (rd_buf rd)
      then case src_read (length (rd_buf rd) - rd_w rd) (rd_src rd) of
        (bs, e, src') \<Rightarrow>
          let n = length bs;
              rd1 = rd\<lparr>rd_src := src',
                       rd_buf := take (rd_w rd) (rd_buf rd) @ bs @ drop (rd_w rd + n) (rd_buf rd),
                       rd_w := rd_w rd + n\<rparr>
          in if e \<noteq> None then rd1\<lparr>rd_err := e\<rparr>
             else if n > 0 then rd1
             else if empties + 1 \<ge> maxEmptyReads then rd1\<lparr>rd_err := Some ErrNoProgress\<rparr>
             else readLoop (empties + 1) rd1
      else rd)"
  by pat_completeness auto
termination
  by (relation "measure (\<lambda>(k, rd). maxEmptyReads - k)") auto

declare readLoop.simps [simp del]

definition readMore :: "'t reader \<Rightarrow> 't reader" where
  "readMore rd = (if rd_err rd \<noteq> None then rd else readLoop 0 (compact (FlushTap rd)))"

text \<open>\<open>binary.BigEndian.Uint64\<close>.\<close>

definition be_word64 :: "u8 list \<Rightarrow> u64" where
  "be_word64 bs = foldl (\<lambda>v b. push_bit 8 v OR ucast b) 0 (take 8 bs)"

lemma nbits_FlushTap [simp]: "rd_nbits (FlushTap rd) = rd_nbits rd"
  by (simp add: FlushTap_def Let_def split: option.split)

lemma nbits_compact [simp]: "rd_nbits (compact rd) = rd_nbits rd"
  by (simp add: compact_def Let_def)

text \<open>What one \<open>readLoop\<close> delivers, in terms of the source alone.\<close>

definition received :: "u8 list \<Rightarrow> err option \<Rightarrow> chunk list \<Rightarrow> 't reader \<Rightarrow> 't reader" where
  "received bs e src' rd =
     rd\<lparr>rd_src := src', rd_buf := take (rd_w rd) (rd_buf rd) @ bs @ drop (rd_w rd + length bs) (rd_buf rd),
        rd_w := rd_w rd + length bs, rd_err := e\<rparr>"

definition delivers :: "nat \<Rightarrow> chunk list \<Rightarrow> u8 list \<Rightarrow> err option \<Rightarrow> chunk list \<Rightarrow> bool" where
  "delivers k src bs e src' \<longleftrightarrow> src_len src = length bs + src_len src' \<and>
     (case e of
        None \<Rightarrow> bs \<noteq> [] \<and> src_bytes k src = (bs @ fst (src_bytes 0 src'), snd (src_bytes 0 src'))
      | Some x \<Rightarrow> src_bytes k src = (bs, x))"

lemma src_read_delivers:
  assumes "src_read n src = (bs, e, src')" "0 < n" "bs \<noteq> [] \<or> e \<noteq> None"
  shows "delivers k src bs e src'"
proof (cases src)
  case Nil
  then show ?thesis using assms by (auto simp: delivers_def)
next
  case (Cons c cs)
  obtain b x where "c = Chunk b x" by (cases c)
  with Cons assms show ?thesis
    by (auto simp: delivers_def split: if_splits option.splits)
qed

lemma src_read_empty:
  assumes "src_read n src = ([], None, src')" "0 < n"
  shows "src = Chunk [] None # src'"
  using assms by (induction n src rule: src_read.induct) (auto split: if_splits)

lemma readLoop_ok:
  assumes "rd_err rd = None" "rd_w rd < length (rd_buf rd)" "k < maxEmptyReads"
  shows "\<exists>bs e src'. readLoop k rd = received bs e src' rd \<and> length bs \<le> length (rd_buf rd) - rd_w rd
           \<and> delivers k (rd_src rd) bs e src'"
  using assms
proof (induction k rd rule: readLoop.induct)
  case (1 k rd)
  obtain bs e src' where s: "src_read (length (rd_buf rd) - rd_w rd) (rd_src rd) = (bs, e, src')"
    by (metis prod_cases3)
  have n: "0 < length (rd_buf rd) - rd_w rd" using "1.prems" by simp
  have le: "length bs \<le> length (rd_buf rd) - rd_w rd" using src_read_len [OF s] by simp
  show ?case
  proof (cases "e = None \<and> bs = []")
    case False
    then have "readLoop k rd = received bs e src' rd"
      using "1.prems" s by (subst readLoop.simps) (auto simp: Let_def received_def)
    then show ?thesis using src_read_delivers [OF s n] le False by blast
  next
    case True
    then have src: "rd_src rd = Chunk [] None # src'" using src_read_empty [of _ _ src'] s n by blast
    show ?thesis
    proof (cases "k + 1 \<ge> maxEmptyReads")
      case stop: True
      then have "readLoop k rd = received [] (Some ErrNoProgress) src' rd"
        using "1.prems" s True by (subst readLoop.simps) (auto simp: Let_def received_def)
      moreover have "delivers k (rd_src rd) [] (Some ErrNoProgress) src'"
        using stop by (simp add: src delivers_def)
      ultimately show ?thesis by (metis list.size(3) zero_le)
    next
      case go: False
      let ?rd1 = "rd\<lparr>rd_src := src', rd_buf := take (rd_w rd) (rd_buf rd) @ bs @ drop (rd_w rd + length bs) (rd_buf rd),
                   rd_w := rd_w rd + length bs\<rparr>"
      have step: "readLoop k rd = readLoop (k + 1) ?rd1"
        using "1.prems" s True go by (subst readLoop.simps) (auto simp: Let_def)
      obtain bs2 e2 src2 where i: "readLoop (k + 1) ?rd1 = received bs2 e2 src2 ?rd1"
          "length bs2 \<le> length (rd_buf ?rd1) - rd_w ?rd1" "delivers (k + 1) src' bs2 e2 src2"
        using "1.IH" [OF "1.prems"(2) s [symmetric] refl refl refl] True go "1.prems" by auto
      have "received bs2 e2 src2 ?rd1 = received bs2 e2 src2 rd"
        using True by (simp add: received_def)
      moreover have "delivers k (rd_src rd) bs2 e2 src2"
        using i(3) go by (simp add: src delivers_def split: option.splits)
      ultimately show ?thesis using step i True by auto
    qed
  qed
qed

lemma err_FlushTap [simp]: "rd_err (FlushTap rd) = rd_err rd"
  by (simp add: FlushTap_def Let_def split: option.split)

lemma err_compact [simp]: "rd_err (compact rd) = rd_err rd"
  by (simp add: compact_def Let_def)

lemma readMore_cases:
  fixes rd :: "'t reader"
  defines "rd1 \<equiv> compact (FlushTap rd)"
  shows "rd_err rd \<noteq> None \<and> readMore rd = rd \<or> readMore rd = rd1 \<and> rd_w rd1 \<ge> length (rd_buf rd1) \<and> rd_err rd = None \<or>
    (\<exists>bs e src'. rd_err rd = None \<and> readMore rd = received bs e src' rd1 \<and> length bs \<le> length (rd_buf rd1) - rd_w rd1
        \<and> delivers 0 (rd_src rd1) bs e src')"
proof (cases "rd_err rd = None \<and> rd_w rd1 < length (rd_buf rd1)")
  case True
  then show ?thesis using readLoop_ok [of rd1 0] by (auto simp: readMore_def rd1_def maxEmptyReads_def)
next
  case False
  then show ?thesis by (auto simp: readMore_def rd1_def readLoop.simps)
qed

lemma nbits_readMore [simp]: "rd_nbits (readMore rd) = rd_nbits rd"
  using readMore_cases [of rd] by (auto simp: received_def)

definition loadByte :: "'t reader \<Rightarrow> 't reader" where
  "loadByte rd = rd\<lparr>rd_acc := rd_acc rd OR push_bit (56 - rd_nbits rd) (ucast (rd_buf rd ! rd_r rd)),
                     rd_r := rd_r rd + 1, rd_loaded := rd_loaded rd + 1, rd_nbits := rd_nbits rd + 8\<rparr>"

function fillLoop :: "'t reader \<Rightarrow> 't reader" where
  "fillLoop rd =
     (if rd_nbits rd \<le> 56
      then let rd1 = (if rd_r rd \<ge> rd_w rd then readMore rd else rd)
           in if rd_r rd1 \<ge> rd_w rd1 then rd1 else fillLoop (loadByte rd1)
      else rd)"
  by pat_completeness auto
termination
  by (relation "measure (\<lambda>rd. 64 - rd_nbits rd)") (auto simp: loadByte_def)

declare fillLoop.simps [simp del]

definition fill :: "'t reader \<Rightarrow> 't reader" where
  "fill rd =
     (if rd_nbits rd = 0 \<and> rd_w rd - rd_r rd \<ge> 8
      then rd\<lparr>rd_acc := be_word64 (drop (rd_r rd) (rd_buf rd)), rd_r := rd_r rd + 8,
              rd_loaded := rd_loaded rd + 8, rd_nbits := 64\<rparr>
      else fillLoop rd)"

definition emitTaps :: "nat \<Rightarrow> 't reader \<Rightarrow> 't reader" where
  "emitTaps fc rd =
     (case rd_tap rd of
        None \<Rightarrow> rd
      | Some f \<Rightarrow> rd\<lparr>rd_tapSt := foldl (\<lambda>s i. f s (rd_buf rd ! i)) (rd_tapSt rd) [rd_tapCur rd..<fc],
                     rd_tapCur := max (rd_tapCur rd) fc\<rparr>)"

text \<open>The gate every consuming operation ends with.\<close>

definition tapGate :: "'t reader \<Rightarrow> 't reader" where
  "tapGate rd =
     (if rd_tap rd \<noteq> None \<and> consumedBytes rd > rd_tapCur rd then emitTaps (consumedBytes rd) rd else rd)"

definition takeAcc :: "nat \<Rightarrow> 't reader \<Rightarrow> 't reader" where
  "takeAcc n rd = tapGate (rd\<lparr>rd_acc := push_bit n (rd_acc rd), rd_nbits := rd_nbits rd - n\<rparr>)"

definition dropAcc :: "'t reader \<Rightarrow> 't reader" where
  "dropAcc rd = tapGate (rd\<lparr>rd_acc := 0, rd_nbits := 0\<rparr>)"

text \<open>
  With \<open>got = 0\<close> the code's recursion would never end (the call is the one it is in);
  that branch, which no well-formed reader reaches, is the error \<open>ErrStackOverflow\<close>.
\<close>

function ReadBits :: "nat \<Rightarrow> 't reader \<Rightarrow> (err + u64) \<times> 't reader"
  and readBitsSlow :: "nat \<Rightarrow> 't reader \<Rightarrow> (err + u64) \<times> 't reader" where
  "ReadBits n rd =
     (if n \<le> rd_nbits rd then (Inr (drop_bit (64 - n) (rd_acc rd)), takeAcc n rd)
      else readBitsSlow n rd)"
| "readBitsSlow n rd0 =
     (let rd = fill rd0
      in if n \<le> rd_nbits rd then (Inr (drop_bit (64 - n) (rd_acc rd)), takeAcc n rd)
         else case rd_err rd of
           None \<Rightarrow>
             (let hi = drop_bit (64 - rd_nbits rd) (rd_acc rd);
                  got = rd_nbits rd;
                  rd1 = dropAcc rd
              in if got = 0 then (Inl ErrStackOverflow, rd1)
                 else case ReadBits (n - got) rd1 of
                   (Inl e, rd2) \<Rightarrow> (Inl (if e = EOF then ErrUnexpectedEOF else e), rd2)
                 | (Inr lo, rd2) \<Rightarrow> (Inr (push_bit (n - got) hi OR lo), rd2))
         | Some e \<Rightarrow>
             if rd_nbits rd = 0 then (Inl e, rd)
             else if e = EOF then (Inl ErrUnexpectedEOF, rd)
             else (Inl e, rd))"
  by pat_completeness auto
termination
  by (relation "measure (\<lambda>x. case x of Inl (n, rd) \<Rightarrow> 2 * n + 1 | Inr (n, rd) \<Rightarrow> 2 * n)") auto

declare ReadBits.simps [simp del] readBitsSlow.simps [simp del]

definition ReadSigned :: "nat \<Rightarrow> 't reader \<Rightarrow> (err + i64) \<times> 't reader" where
  "ReadSigned n rd =
     (if n = 0 then (Inr 0, rd)
      else case ReadBits n rd of
        (Inl e, rd1) \<Rightarrow> (Inl e, rd1)
      | (Inr u, rd1) \<Rightarrow> (Inr (signed_drop_bit (64 - n) (push_bit (64 - n) u)), rd1))"

text \<open>\<open>bits.LeadingZeros64\<close>.\<close>

definition lz64 :: "u64 \<Rightarrow> nat" where
  "lz64 v = length (takeWhile Not (bits_msb 64 v))"

text \<open>What is left to read, in bits: the measure of \<open>ReadUnary\<close>'s loop.\<close>

definition rd_left :: "'t reader \<Rightarrow> nat" where
  "rd_left rd = rd_nbits rd + 8 * (rd_w rd - rd_r rd) + 8 * src_len (rd_src rd)"

lemma left_FlushTap: "rd_left (FlushTap rd) = rd_left rd"
  by (simp add: rd_left_def FlushTap_def Let_def split: option.split)

lemma consumedBytes_le: "consumedBytes rd \<le> rd_r rd"
  by (simp add: consumedBytes_def)

lemma left_compact: "rd_left (compact rd) \<le> rd_left rd"
  using consumedBytes_le [of rd] by (auto simp: rd_left_def compact_def Let_def)

lemma left_readMore: "rd_left (readMore rd) \<le> rd_left rd"
proof -
  have "rd_left (received bs e src' rd1) \<le> rd_left rd1" if "delivers 0 (rd_src rd1) bs e src'" for bs e src' and rd1 :: "'a reader"
    using that by (simp add: rd_left_def received_def delivers_def)
  moreover have "rd_left (compact (FlushTap rd)) \<le> rd_left rd"
    using left_compact [of "FlushTap rd"] by (simp add: left_FlushTap)
  ultimately show ?thesis using readMore_cases [of rd] by (fastforce intro: order_trans)
qed

lemma left_loadByte: "rd_r rd < rd_w rd \<Longrightarrow> rd_left (loadByte rd) \<le> rd_left rd"
  by (auto simp: rd_left_def loadByte_def)

lemma left_fillLoop: "rd_left (fillLoop rd) \<le> rd_left rd"
proof (induction rd rule: fillLoop.induct)
  case (1 rd)
  define rd1 where "rd1 = (if rd_r rd \<ge> rd_w rd then readMore rd else rd)"
  have a: "rd_left rd1 \<le> rd_left rd" using left_readMore [of rd] by (simp add: rd1_def)
  show ?case
  proof (cases "rd_nbits rd \<le> 56 \<and> rd_r rd1 < rd_w rd1")
    case True
    then have "rd_left (fillLoop (loadByte rd1)) \<le> rd_left rd"
      using "1.IH" [of rd1] left_loadByte [of rd1] a by (simp add: rd1_def)
    with True show ?thesis by (subst fillLoop.simps) (simp add: Let_def flip: rd1_def)
  next
    case False
    then show ?thesis using a by (subst fillLoop.simps) (auto simp: Let_def simp flip: rd1_def)
  qed
qed

lemma left_fill: "rd_left (fill rd) \<le> rd_left rd"
proof (cases "rd_nbits rd = 0 \<and> rd_w rd - rd_r rd \<ge> 8")
  case True
  then have "8 + (rd_w rd - (rd_r rd + 8)) = rd_w rd - rd_r rd" by arith
  with True show ?thesis by (simp add: fill_def rd_left_def)
next
  case False
  then show ?thesis using left_fillLoop [of rd] by (auto simp: fill_def)
qed

lemma left_tapGate [simp]: "rd_left (tapGate rd) = rd_left rd"
  by (simp add: tapGate_def emitTaps_def rd_left_def split: option.split)

lemma left_dropAcc: "rd_nbits rd \<noteq> 0 \<Longrightarrow> rd_left (dropAcc rd) < rd_left rd"
  by (simp add: dropAcc_def) (simp add: rd_left_def)

function unaryLoop :: "u64 \<Rightarrow> 't reader \<Rightarrow> (err + u64) \<times> 't reader" where
  "unaryLoop zeros rd0 =
     (let rd = (if rd_nbits rd0 = 0 then fill rd0 else rd0)
      in if rd_nbits rd = 0 then (case rd_err rd of Some e \<Rightarrow> (Inl e, rd) | None \<Rightarrow> (Inr 0, rd))
         else
           let lz = lz64 (rd_acc rd)
           in if lz \<ge> rd_nbits rd then unaryLoop (zeros + of_nat (rd_nbits rd)) (dropAcc rd)
              else (Inr (zeros + of_nat lz), takeAcc (lz + 1) rd))"
  by pat_completeness auto
termination
proof (relation "measure (\<lambda>(z, rd). rd_left rd)")
  fix z :: u64 and rd0 rd :: "'a reader" and lz
  assume "rd = (if rd_nbits rd0 = 0 then fill rd0 else rd0)" "rd_nbits rd \<noteq> 0"
  then have "rd_left (dropAcc rd) < rd_left rd0"
    using left_dropAcc [of rd] left_fill [of rd0] by (auto split: if_splits)
  then show "((z + of_nat (rd_nbits rd), dropAcc rd), z, rd0) \<in> measure (\<lambda>(z, rd). rd_left rd)" by simp
qed simp

declare unaryLoop.simps [simp del]

definition ReadUnary :: "'t reader \<Rightarrow> (err + u64) \<times> 't reader" where
  "ReadUnary rd = unaryLoop 0 rd"

definition SkipToByteBoundary :: "'t reader \<Rightarrow> 't reader" where
  "SkipToByteBoundary rd =
     (let rem = rd_nbits rd mod 8 in if rem = 0 then rd else takeAcc rem rd)"

section \<open>The bits and bytes still to be read\<close>

definition rbytes :: "'t reader \<Rightarrow> u8 list" where
  "rbytes rd = drop (consumedBytes rd) (take (rd_w rd) (rd_buf rd))
     @ (if rd_err rd = None then fst (src_bytes 0 (rd_src rd)) else [])"

definition roff :: "'t reader \<Rightarrow> nat" where
  "roff rd = (8 * rd_r rd - rd_nbits rd) mod 8"

definition rend :: "'t reader \<Rightarrow> err" where
  "rend rd = (case rd_err rd of None \<Rightarrow> snd (src_bytes 0 (rd_src rd)) | Some e \<Rightarrow> e)"

definition rbits :: "'t reader \<Rightarrow> bool list" where
  "rbits rd = drop (roff rd) (byte_bits (rbytes rd))"

definition rpos :: "'t reader \<Rightarrow> nat" where
  "rpos rd = 8 * rd_loaded rd - rd_nbits rd"

text \<open>
  The state the tap will have once a deferred run is flushed, and the fold by which the
  installed tap takes in a run of bytes.
\<close>

definition untapped :: "'t reader \<Rightarrow> u8 list" where
  "untapped rd = drop (rd_tapCur rd) (take (consumedBytes rd) (rd_buf rd))"

definition tapf :: "'t reader \<Rightarrow> 't \<Rightarrow> u8 list \<Rightarrow> 't" where
  "tapf rd = (case rd_tap rd of Some f \<Rightarrow> foldl f
              | None \<Rightarrow> (case rd_rtap rd of Some g \<Rightarrow> g | None \<Rightarrow> (\<lambda>s p. s)))"

definition vtap :: "'t reader \<Rightarrow> 't" where
  "vtap rd = (if rd_tap rd = None then tapf rd (rd_tapSt rd) (untapped rd) else rd_tapSt rd)"

definition range_tap :: "('t \<Rightarrow> u8 list \<Rightarrow> 't) \<Rightarrow> bool" where
  "range_tap g \<longleftrightarrow> (\<forall>s. g s [] = s) \<and> (\<forall>s p q. g s (p @ q) = g (g s p) q)"

definition wf_reader :: "'t reader \<Rightarrow> bool" where
  "wf_reader rd \<longleftrightarrow>
     rd_r rd \<le> rd_w rd \<and> rd_w rd \<le> length (rd_buf rd) \<and> minReadBlock \<le> length (rd_buf rd)
   \<and> rd_nbits rd \<le> 64 \<and> rd_nbits rd \<le> 8 * rd_r rd \<and> rd_r rd \<le> rd_loaded rd
   \<and> take_bit (64 - rd_nbits rd) (rd_acc rd) = 0
   \<and> take (rd_nbits rd) (bits_msb 64 (rd_acc rd)) = drop (8 * rd_r rd - rd_nbits rd) (byte_bits (take (rd_r rd) (rd_buf rd)))
   \<and> (rd_tap rd \<noteq> None \<longrightarrow> rd_tapCur rd = consumedBytes rd)
   \<and> (\<forall>g. rd_rtap rd = Some g \<longrightarrow> rd_tapCur rd \<le> consumedBytes rd \<and> range_tap g)"

text \<open>\<open>advance n rd rd'\<close>: \<open>rd'\<close> is \<open>rd\<close> after exactly \<open>n\<close> more bits have been consumed.\<close>

definition advance :: "nat \<Rightarrow> 't reader \<Rightarrow> 't reader \<Rightarrow> bool" where
  "advance n rd rd' \<longleftrightarrow>
     wf_reader rd' \<and> n \<le> length (rbits rd)
   \<and> rbytes rd' = drop ((roff rd + n) div 8) (rbytes rd) \<and> roff rd' = (roff rd + n) mod 8
   \<and> rend rd' = rend rd \<and> rd_tap rd' = rd_tap rd \<and> rd_rtap rd' = rd_rtap rd
   \<and> rd_basePos rd' = rd_basePos rd \<and> rpos rd' = rpos rd + n
   \<and> vtap rd' = tapf rd (vtap rd) (take ((roff rd + n) div 8) (rbytes rd))"

lemma consumed_roff: "8 * consumedBytes rd + roff rd = 8 * rd_r rd - rd_nbits rd"
  by (simp add: consumedBytes_def roff_def)

lemma roff_less [simp]: "roff rd < 8"
  by (simp add: roff_def)

lemma roff_le [simp]: "roff rd \<le> 8"
  by (simp add: less_imp_le)

lemma wf_readerD:
  assumes "wf_reader rd"
  shows "rd_r rd \<le> rd_w rd" "rd_w rd \<le> length (rd_buf rd)" "16 \<le> length (rd_buf rd)" "rd_nbits rd \<le> 64"
    "rd_nbits rd \<le> 8 * rd_r rd" "rd_r rd \<le> rd_loaded rd" "take_bit (64 - rd_nbits rd) (rd_acc rd) = 0"
    "take (rd_nbits rd) (bits_msb 64 (rd_acc rd)) = drop (8 * rd_r rd - rd_nbits rd) (byte_bits (take (rd_r rd) (rd_buf rd)))"
    "rd_tap rd \<noteq> None \<Longrightarrow> rd_tapCur rd = consumedBytes rd"
    "rd_rtap rd = Some g \<Longrightarrow> rd_tapCur rd \<le> consumedBytes rd"
    "rd_rtap rd = Some g \<Longrightarrow> range_tap g"
  using assms by (auto simp: wf_reader_def minReadBlock_def)

lemma range_tapD: "range_tap g \<Longrightarrow> g s [] = s" "range_tap g \<Longrightarrow> g s (p @ q) = g (g s p) q"
  by (simp_all add: range_tap_def)

lemma tapf_cong: "rd_tap rd' = rd_tap rd \<Longrightarrow> rd_rtap rd' = rd_rtap rd \<Longrightarrow> tapf rd' = tapf rd"
  by (simp only: tapf_def)

lemma tapf_laws:
  assumes "wf_reader rd"
  shows "tapf rd s [] = s" "tapf rd s (p @ q) = tapf rd (tapf rd s p) q"
  using wf_readerD(11) [OF assms] by (auto simp: tapf_def range_tapD split: option.splits)

lemma rbits_alt:
  assumes "wf_reader rd"
  shows "rbits rd = drop (8 * rd_r rd - rd_nbits rd) (byte_bits (take (rd_w rd) (rd_buf rd)))
           @ byte_bits (if rd_err rd = None then fst (src_bytes 0 (rd_src rd)) else [])"
proof -
  let ?X = "if rd_err rd = None then fst (src_bytes 0 (rd_src rd)) else []"
  have c: "consumedBytes rd \<le> rd_w rd" using consumedBytes_le [of rd] wf_readerD(1) [OF assms] by simp
  then have "rbytes rd = drop (consumedBytes rd) (take (rd_w rd) (rd_buf rd) @ ?X)"
    using wf_readerD(2) [OF assms] by (simp add: rbytes_def)
  then have "rbits rd = drop (roff rd + 8 * consumedBytes rd) (byte_bits (take (rd_w rd) (rd_buf rd) @ ?X))"
    unfolding rbits_def by (simp only: drop_byte_bits [symmetric] drop_drop)
  moreover have "roff rd + 8 * consumedBytes rd \<le> 8 * rd_w rd"
    using consumed_roff [of rd] wf_readerD(1) [OF assms] by linarith
  ultimately show ?thesis
    using wf_readerD(2) [OF assms] consumed_roff [of rd] by (simp add: add.commute)
qed

lemma rbits_acc:
  assumes "wf_reader rd"
  shows "rd_nbits rd \<le> length (rbits rd)" "take (rd_nbits rd) (rbits rd) = take (rd_nbits rd) (bits_msb 64 (rd_acc rd))"
proof -
  note wf = wf_readerD [OF assms]
  have "take (rd_w rd) (rd_buf rd) = take (rd_r rd) (rd_buf rd) @ drop (rd_r rd) (take (rd_w rd) (rd_buf rd))"
    using wf(1) by (metis append_take_drop_id min.absorb1 take_take)
  then have "byte_bits (take (rd_w rd) (rd_buf rd)) =
      byte_bits (take (rd_r rd) (rd_buf rd)) @ byte_bits (drop (rd_r rd) (take (rd_w rd) (rd_buf rd)))"
    by (metis byte_bits_simps(3))
  then obtain ys where "rbits rd = drop (8 * rd_r rd - rd_nbits rd) (byte_bits (take (rd_r rd) (rd_buf rd))) @ ys"
    using wf(1,2) by (simp add: rbits_alt [OF assms])
  then have eq: "rbits rd = take (rd_nbits rd) (bits_msb 64 (rd_acc rd)) @ ys"
    using wf(8) by simp
  show "rd_nbits rd \<le> length (rbits rd)" using wf(4) by (simp add: eq)
  show "take (rd_nbits rd) (rbits rd) = take (rd_nbits rd) (bits_msb 64 (rd_acc rd))"
    using wf(4) by (simp add: eq)
qed

lemma rbits_exhausted:
  assumes "wf_reader rd" "rd_err rd \<noteq> None" "rd_r rd = rd_w rd"
  shows "length (rbits rd) = rd_nbits rd"
  using wf_readerD(1-5) [OF assms(1)] assms(2,3) by (auto simp: rbits_alt [OF assms(1)])

subsection \<open>Advancing\<close>

lemma advance_rbits: "advance n rd rd' \<Longrightarrow> rbits rd' = drop n (rbits rd)"
proof -
  assume a: "advance n rd rd'"
  have "rbits rd' = drop ((roff rd + n) mod 8) (drop (8 * ((roff rd + n) div 8)) (byte_bits (rbytes rd)))"
    using a by (simp add: rbits_def advance_def drop_byte_bits)
  also have "\<dots> = drop (roff rd + n) (byte_bits (rbytes rd))" by simp
  finally show ?thesis by (simp add: rbits_def add.commute)
qed

lemma advanceD:
  assumes "advance n rd rd'"
  shows "wf_reader rd'" "n \<le> length (rbits rd)" "rend rd' = rend rd" "rd_tap rd' = rd_tap rd"
    "rd_rtap rd' = rd_rtap rd" "rd_basePos rd' = rd_basePos rd" "rpos rd' = rpos rd + n"
    "rbits rd' = drop n (rbits rd)" "tapf rd' = tapf rd"
  using assms advance_rbits [OF assms] tapf_cong [of rd' rd] by (simp_all add: advance_def)

lemma advance_refl: "wf_reader rd \<Longrightarrow> advance 0 rd rd"
  by (simp add: advance_def tapf_laws(1))

lemma carry8: "a div 8 + (a mod 8 + m) div 8 = (a + m) div (8::nat)"
  by presburger

lemma advance_trans:
  assumes "wf_reader rd" "advance n rd rd1" "advance m rd1 rd2"
  shows "advance (n + m) rd rd2"
proof -
  let ?o = "roff rd"
  have 1: "rbytes rd1 = drop ((?o + n) div 8) (rbytes rd)" "roff rd1 = (?o + n) mod 8" "tapf rd1 = tapf rd"
      "vtap rd1 = tapf rd (vtap rd) (take ((?o + n) div 8) (rbytes rd))"
    using assms(2) advanceD(9) [OF assms(2)] by (simp_all add: advance_def)
  have q: "(?o + n) div 8 + (roff rd1 + m) div 8 = (?o + (n + m)) div 8"
    unfolding 1(2) using carry8 [of "?o + n" m] by (simp add: add.assoc)
  have "take ((?o + (n + m)) div 8) (rbytes rd) = take ((?o + n) div 8) (rbytes rd) @ take ((roff rd1 + m) div 8) (rbytes rd1)"
    by (simp add: 1(1) take_add flip: q)
  then have "vtap rd2 = tapf rd (vtap rd) (take ((?o + (n + m)) div 8) (rbytes rd))"
    using assms(3) by (simp add: advance_def 1 tapf_laws(2) [OF assms(1)])
  moreover have "rbytes rd2 = drop ((?o + (n + m)) div 8) (rbytes rd)"
    using assms(3) by (simp add: advance_def 1(1) add.commute [of "(roff rd1 + m) div 8"] q)
  moreover have "roff rd2 = (?o + (n + m)) mod 8"
    using assms(3) by (simp add: advance_def 1(2) mod_simps add.assoc)
  moreover have "n + m \<le> length (rbits rd)"
    using advanceD(2,8) [OF assms(2)] advanceD(2) [OF assms(3)] by simp
  ultimately show ?thesis using assms(2,3) by (simp add: advance_def)
qed

subsection \<open>Refilling consumes nothing\<close>

lemma rend_cong: "rd_err rd' = rd_err rd \<Longrightarrow> rd_src rd' = rd_src rd \<Longrightarrow> rend rd' = rend rd"
  by (simp only: rend_def)

lemma untapped_Nil: "rd_tapCur rd = consumedBytes rd \<Longrightarrow> untapped rd = []"
  by (simp add: untapped_def)

text \<open>A step that leaves positions and contents alone.\<close>

lemma advance_0I:
  assumes "wf_reader rd'" "rbytes rd' = rbytes rd" "roff rd' = roff rd" "rend rd' = rend rd"
    "rd_tap rd' = rd_tap rd" "rd_rtap rd' = rd_rtap rd" "rd_basePos rd' = rd_basePos rd" "rpos rd' = rpos rd"
    "vtap rd' = vtap rd"
  shows "advance 0 rd rd'"
  using assms tapf_laws(1) [OF assms(1)] tapf_cong [OF assms(5,6)] by (simp add: advance_def)

lemma advance_FlushTap:
  assumes "wf_reader rd"
  shows "advance 0 rd (FlushTap rd)" "rd_rtap rd \<noteq> None \<Longrightarrow> rd_tapCur (FlushTap rd) = consumedBytes (FlushTap rd)"
proof -
  note wf = wf_readerD [OF assms]
  show "rd_rtap rd \<noteq> None \<Longrightarrow> rd_tapCur (FlushTap rd) = consumedBytes (FlushTap rd)"
    using wf(10) by (force simp: FlushTap_def Let_def consumedBytes_def split: option.split)
  show "advance 0 rd (FlushTap rd)"
  proof (cases "rd_tap rd = None \<and> rd_rtap rd \<noteq> None \<and> rd_tapCur rd < consumedBytes rd")
    case False
    then have "FlushTap rd = rd" using wf(9,10) by (fastforce simp: FlushTap_def Let_def split: option.split)
    then show ?thesis using advance_refl [OF assms] by simp
  next
    case True
    then obtain g where g: "rd_rtap rd = Some g" by auto
    have eq: "FlushTap rd = rd\<lparr>rd_tapSt := g (rd_tapSt rd) (untapped rd), rd_tapCur := consumedBytes rd\<rparr>"
      using True g by (simp add: FlushTap_def Let_def untapped_def drop_take)
    have c: "consumedBytes (FlushTap rd) = consumedBytes rd" by (simp add: eq consumedBytes_def)
    have u: "untapped (FlushTap rd) = []" by (rule untapped_Nil) (simp add: eq c [unfolded eq])
    show ?thesis
    proof (rule advance_0I)
      show "wf_reader (FlushTap rd)"
        using assms True g c by (simp add: wf_reader_def eq [symmetric]) (simp add: eq)
      show "vtap (FlushTap rd) = vtap rd"
        using True g u wf(11) by (simp add: vtap_def) (simp add: eq tapf_def range_tapD)
      show "rend (FlushTap rd) = rend rd" by (rule rend_cong) (simp_all add: eq)
    qed (use c in \<open>simp_all add: rbytes_def roff_def rpos_def eq\<close>)
  qed
qed

lemma compact_fields:
  assumes "wf_reader rd"
  defines "c \<equiv> consumedBytes rd"
  shows "compact rd = rd\<lparr>rd_buf := take (rd_w rd - c) (drop c (rd_buf rd)) @ drop (rd_w rd - c) (rd_buf rd),
           rd_w := rd_w rd - c, rd_r := rd_r rd - c, rd_tapCur := rd_tapCur rd - c\<rparr>"
    "c \<le> rd_r rd" "8 * (rd_r rd - c) - rd_nbits rd = roff rd" "consumedBytes (compact rd) = 0"
    "rd_nbits rd \<le> 8 * (rd_r rd - c)"
proof -
  note wf = wf_readerD [OF assms(1)]
  show c: "c \<le> rd_r rd" using consumedBytes_le [of rd] by (simp add: c_def)
  show "8 * (rd_r rd - c) - rd_nbits rd = roff rd" "rd_nbits rd \<le> 8 * (rd_r rd - c)"
    using consumed_roff [of rd] wf(5) by (simp_all add: c_def)
  then have "8 * (rd_r rd - c) - rd_nbits rd < 8" using roff_less [of rd] by linarith
  moreover show eq: "compact rd = rd\<lparr>rd_buf := take (rd_w rd - c) (drop c (rd_buf rd)) @ drop (rd_w rd - c) (rd_buf rd),
           rd_w := rd_w rd - c, rd_r := rd_r rd - c, rd_tapCur := rd_tapCur rd - c\<rparr>"
    by (auto simp: compact_def Let_def c_def)
  ultimately show "consumedBytes (compact rd) = 0" by (simp add: eq consumedBytes_def)
qed

lemma advance_compact:
  assumes "wf_reader rd" "rd_rtap rd \<noteq> None \<longrightarrow> rd_tapCur rd = consumedBytes rd"
  shows "advance 0 rd (compact rd)"
proof -
  note wf = wf_readerD [OF assms(1)]
  let ?c = "consumedBytes rd" and ?rd = "compact rd"
  note f = compact_fields [OF assms(1)]
  have buf: "take k (rd_buf ?rd) = take k (drop ?c (rd_buf rd))" if "k \<le> rd_w rd - ?c" for k
  proof -
    have "k \<le> length (take (rd_w rd - ?c) (drop ?c (rd_buf rd)))" using that f(2) wf(1,2) by simp
    then show ?thesis using that by (simp add: f(1) min_absorb1)
  qed
  have r: "take (rd_r ?rd) (rd_buf ?rd) = drop ?c (take (rd_r rd) (rd_buf rd))"
    using buf [of "rd_r rd - ?c"] wf(1) by (simp add: f(1) drop_take)
  have w: "take (rd_w ?rd) (rd_buf ?rd) = drop ?c (take (rd_w rd) (rd_buf rd))"
    using buf [of "rd_w rd - ?c"] by (simp add: f(1) drop_take)
  have len: "length (rd_buf ?rd) = length (rd_buf rd)" using wf(1,2) f(2) by (simp add: f(1))
  have nacc: "rd_nbits ?rd = rd_nbits rd" "rd_acc ?rd = rd_acc rd" "rd_r ?rd = rd_r rd - ?c" "rd_w ?rd = rd_w rd - ?c"
    "rd_tap ?rd = rd_tap rd" "rd_rtap ?rd = rd_rtap rd" "rd_loaded ?rd = rd_loaded rd" "rd_tapCur ?rd = rd_tapCur rd - ?c"
    "rd_err ?rd = rd_err rd" "rd_src ?rd = rd_src rd" "rd_tapSt ?rd = rd_tapSt rd" "rd_basePos ?rd = rd_basePos rd"
    by (simp_all add: f(1))
  have bits: "drop (8 * rd_r rd - rd_nbits rd) (byte_bits (take (rd_r rd) (rd_buf rd)))
      = drop (8 * (rd_r rd - ?c) - rd_nbits rd) (byte_bits (drop ?c (take (rd_r rd) (rd_buf rd))))"
    unfolding f(3) drop_byte_bits [symmetric] using consumed_roff [of rd] by (simp add: add.commute)
  have cur: "rd_tap rd \<noteq> None \<Longrightarrow> rd_tapCur rd - ?c = 0" "rd_rtap rd \<noteq> None \<Longrightarrow> rd_tapCur rd - ?c = 0"
    using assms(2) wf(9) by simp_all
  show ?thesis
  proof (rule advance_0I)
    show "wf_reader ?rd"
      unfolding wf_reader_def r f(4) len nacc r [unfolded nacc] using wf f(5) bits cur by (auto simp: minReadBlock_def)
    show "vtap ?rd = vtap rd"
      using cur assms(2) wf(9) f(4) tapf_cong [of ?rd rd] untapped_Nil [of rd]
      by (cases "rd_rtap rd") (auto simp: vtap_def nacc untapped_def tapf_def)
    show "rbytes ?rd = rbytes rd" by (simp add: rbytes_def f(4) nacc w [unfolded nacc])
    show "roff ?rd = roff rd" using f(3) by (simp add: roff_def nacc)
    show "rend ?rd = rend rd" by (rule rend_cong) (simp_all add: nacc)
    show "rpos ?rd = rpos rd" by (simp add: rpos_def nacc)
    show "rd_tap ?rd = rd_tap rd" by (rule nacc)
    show "rd_rtap ?rd = rd_rtap rd" by (rule nacc)
    show "rd_basePos ?rd = rd_basePos rd" by (rule nacc)
  qed
qed

lemma advance_received:
  assumes wf: "wf_reader rd" and err: "rd_err rd = None" and d: "delivers 0 (rd_src rd) bs e src'"
    and len: "length bs \<le> length (rd_buf rd) - rd_w rd"
  shows "advance 0 rd (received bs e src' rd)"
proof -
  note w = wf_readerD [OF wf]
  let ?rd = "received bs e src' rd"
  have f: "rd_nbits ?rd = rd_nbits rd" "rd_acc ?rd = rd_acc rd" "rd_r ?rd = rd_r rd" "rd_w ?rd = rd_w rd + length bs"
    "rd_tap ?rd = rd_tap rd" "rd_rtap ?rd = rd_rtap rd" "rd_loaded ?rd = rd_loaded rd" "rd_tapCur ?rd = rd_tapCur rd"
    "rd_err ?rd = e" "rd_src ?rd = src'" "rd_tapSt ?rd = rd_tapSt rd" "rd_basePos ?rd = rd_basePos rd"
    "rd_buf ?rd = take (rd_w rd) (rd_buf rd) @ bs @ drop (rd_w rd + length bs) (rd_buf rd)"
    "consumedBytes ?rd = consumedBytes rd"
    by (simp_all add: received_def consumedBytes_def)
  have blen: "length (rd_buf ?rd) = length (rd_buf rd)" using w(2) len by (simp add: f)
  have tk: "take k (rd_buf ?rd) = take k (rd_buf rd)" if "k \<le> rd_w rd" for k
    using that w(2) by (simp add: f min_absorb1)
  have tw: "take (rd_w ?rd) (rd_buf ?rd) = take (rd_w rd) (rd_buf rd) @ bs"
    using w(2) len by (simp add: f)
  have c: "consumedBytes rd \<le> rd_w rd" using consumedBytes_le [of rd] w(1) by simp
  show ?thesis
  proof (rule advance_0I)
    show "wf_reader ?rd"
      unfolding wf_reader_def blen tk [OF w(1), folded f(3)] using w len wf
      by (simp add: f wf_reader_def)
    show "rbytes ?rd = rbytes rd"
      using d c w(2) err unfolding rbytes_def tw f(9,10,14) by (auto simp: delivers_def split: option.splits)
    show "rend ?rd = rend rd"
      using d err unfolding rend_def f(9,10) by (auto simp: delivers_def split: option.splits)
    show "vtap ?rd = vtap rd"
      using tapf_cong [of ?rd rd] by (simp add: vtap_def untapped_def f(1-12,14) tk [OF c])
  qed (simp_all add: f roff_def rpos_def)
qed

lemma readMore_ok:
  assumes wf: "wf_reader rd" and e: "rd_r rd = rd_w rd"
  shows "advance 0 rd (readMore rd)" "rd_r (readMore rd) < rd_w (readMore rd) \<or> rd_err (readMore rd) \<noteq> None"
proof -
  let ?f = "FlushTap rd" and ?c = "compact (FlushTap rd)"
  have af: "advance 0 rd ?f" by (rule advance_FlushTap [OF wf])
  have wff: "wf_reader ?f" by (rule advanceD(1) [OF af])
  have "rd_rtap ?f \<noteq> None \<longrightarrow> rd_tapCur ?f = consumedBytes ?f"
    using advance_FlushTap(2) [OF wf] advanceD(5) [OF af] by simp
  from advance_compact [OF wff this] have ac: "advance 0 ?f ?c" .
  have wfc: "wf_reader ?c" by (rule advanceD(1) [OF ac])
  have a: "advance 0 rd ?c" using advance_trans [OF wf af ac] by simp
  have ef: "rd_r ?f = rd_w ?f" using e by (simp add: FlushTap_def Let_def split: option.split)
  have ec: "rd_r ?c = rd_w ?c" using ef by (simp add: compact_fields(1) [OF wff])
  have "rd_w ?c \<le> 8"
  proof -
    have "consumedBytes ?c = 0" by (rule compact_fields(4) [OF wff])
    then have "8 * rd_r ?c - rd_nbits ?c < 8" by (simp add: consumedBytes_def)
    then show ?thesis using wf_readerD(4) [OF wfc] ec by linarith
  qed
  then have room: "rd_w ?c < length (rd_buf ?c)" using wf_readerD(3) [OF wfc] by simp
  have "advance 0 rd (readMore rd) \<and> (rd_r (readMore rd) < rd_w (readMore rd) \<or> rd_err (readMore rd) \<noteq> None)"
  proof (cases "rd_err rd = None")
    case False
    then show ?thesis using advance_refl [OF wf] by (simp add: readMore_def)
  next
    case True
    then obtain bs x src' where r: "readMore rd = received bs x src' ?c" "length bs \<le> length (rd_buf ?c) - rd_w ?c"
        "delivers 0 (rd_src ?c) bs x src'"
      using readMore_cases [of rd] room by auto
    have "advance 0 ?c (readMore rd)"
      unfolding r(1) by (rule advance_received [OF wfc _ r(3,2)]) (simp add: True)
    then have "advance 0 rd (readMore rd)" using advance_trans [OF wf a] by fastforce
    moreover have "rd_r (readMore rd) < rd_w (readMore rd) \<or> rd_err (readMore rd) \<noteq> None"
      using r(3) ec by (auto simp: r(1) received_def delivers_def split: option.splits)
    ultimately show ?thesis by blast
  qed
  then show "advance 0 rd (readMore rd)" "rd_r (readMore rd) < rd_w (readMore rd) \<or> rd_err (readMore rd) \<noteq> None"
    by simp_all
qed

lemma loadByte_ok:
  assumes wf: "wf_reader rd" and b: "rd_nbits rd \<le> 56" "rd_r rd < rd_w rd"
  shows "advance 0 rd (loadByte rd)"
proof -
  note w = wf_readerD [OF wf]
  let ?rd = "loadByte rd" and ?b = "rd_buf rd ! rd_r rd" and ?n = "rd_nbits rd"
  have acc: "rd_acc ?rd = rd_acc rd OR push_bit (64 - ?n - 8) (take_bit 8 (ucast ?b))"
  proof -
    have "take_bit 8 (ucast ?b :: u64) = ucast ?b"
      by (rule bit_word_eqI) (auto simp: bit_simps dest: bit_imp_le_length)
    moreover have "56 - ?n = 64 - ?n - 8" by simp
    ultimately show ?thesis by (simp add: loadByte_def)
  qed
  have le: "?n + 8 \<le> 64" using b by simp
  have u: "bits_msb 8 (ucast ?b :: u64) = bits_msb 8 ?b" by (rule bits_msb_cong) (simp add: bit_simps)
  have f: "rd_nbits ?rd = ?n + 8" "rd_r ?rd = rd_r rd + 1" "rd_w ?rd = rd_w rd" "rd_loaded ?rd = rd_loaded rd + 1"
    "rd_tap ?rd = rd_tap rd" "rd_rtap ?rd = rd_rtap rd" "rd_tapCur ?rd = rd_tapCur rd"
    "rd_err ?rd = rd_err rd" "rd_src ?rd = rd_src rd" "rd_tapSt ?rd = rd_tapSt rd" "rd_basePos ?rd = rd_basePos rd"
    "rd_buf ?rd = rd_buf rd" "8 * (rd_r rd + 1) - (?n + 8) = 8 * rd_r rd - ?n"
    by (simp_all add: loadByte_def)
  have c: "consumedBytes ?rd = consumedBytes rd" unfolding consumedBytes_def f ..
  have tk: "take (rd_r rd + 1) (rd_buf rd) = take (rd_r rd) (rd_buf rd) @ [?b]"
    using w(2) b(2) by (simp add: take_Suc_conv_app_nth)
  have A: "take_bit (64 - (?n + 8)) (rd_acc ?rd) = 0" "take (?n + 8) (bits_msb 64 (rd_acc ?rd))
      = drop (8 * rd_r rd - ?n) (byte_bits (take (rd_r rd + 1) (rd_buf rd)))"
    using take_bit_push_take [OF w(7) le, of "ucast ?b"] take_acc_or [OF w(7) le, of "ucast ?b"] w(2,8) b(2)
    unfolding acc tk u by (simp_all add: diff_diff_add)
  show ?thesis
  proof (rule advance_0I)
    show "wf_reader ?rd"
      unfolding wf_reader_def f c using w A b wf by (simp add: wf_reader_def)
    show "rend ?rd = rend rd" by (rule rend_cong) (simp_all add: f)
    show "vtap ?rd = vtap rd"
      using tapf_cong [of ?rd rd] by (simp add: vtap_def untapped_def f c)
    show "rpos ?rd = rpos rd" unfolding rpos_def f using w(6) by simp
    show "roff ?rd = roff rd" unfolding roff_def f ..
  qed (simp_all add: f rbytes_def c)
qed

lemma foldl_be_bits:
  assumes "length bs \<le> 8"
  shows "bits_msb (8 * length bs) (foldl (\<lambda>v b. push_bit 8 v OR ucast b) (0::u64) bs) = byte_bits bs"
  using assms
proof (induction bs rule: rev_induct)
  case (snoc b bs)
  let ?v = "foldl (\<lambda>v b. push_bit 8 v OR ucast b) (0::u64) bs"
  have "bits_msb (8 * length bs) (drop_bit 8 (push_bit 8 ?v OR ucast b)) = bits_msb (8 * length bs) ?v"
    using snoc.prems by (intro bits_msb_cong) (auto simp: bit_simps dest: bit_imp_le_length)
  moreover have "bits_msb 8 (push_bit 8 ?v OR ucast b) = bits_msb 8 b"
    by (rule bits_msb_cong) (auto simp: bit_simps)
  ultimately show ?case
    using snoc bits_msb_add [of "8 * length bs" 8 "push_bit 8 ?v OR ucast b"] by (simp add: add.commute)
qed simp

lemma be_word64_bits: "8 \<le> length bs \<Longrightarrow> bits_msb 64 (be_word64 bs) = byte_bits (take 8 bs)"
  using foldl_be_bits [of "take 8 bs"] by (simp add: be_word64_def)

lemma bulk_load_ok:
  assumes wf: "wf_reader rd" and b: "rd_nbits rd = 0" "rd_w rd - rd_r rd \<ge> 8"
  shows "advance 0 rd (rd\<lparr>rd_acc := be_word64 (drop (rd_r rd) (rd_buf rd)), rd_r := rd_r rd + 8,
              rd_loaded := rd_loaded rd + 8, rd_nbits := 64\<rparr>)" (is "advance 0 rd ?rd")
proof -
  note w = wf_readerD [OF wf]
  have c: "consumedBytes ?rd = consumedBytes rd" by (simp add: consumedBytes_def b)
  have "take (rd_r rd + 8) (rd_buf rd) = take (rd_r rd) (rd_buf rd) @ take 8 (drop (rd_r rd) (rd_buf rd))"
    by (rule take_add)
  then have A: "bits_msb 64 (be_word64 (drop (rd_r rd) (rd_buf rd))) = drop (8 * rd_r rd) (byte_bits (take (rd_r rd + 8) (rd_buf rd)))"
    using be_word64_bits [of "drop (rd_r rd) (rd_buf rd)"] w(1,2) b by simp
  show ?thesis
  proof (rule advance_0I)
    show "wf_reader ?rd"
      unfolding wf_reader_def c using w b A wf by (simp add: wf_reader_def)
    show "rend ?rd = rend rd" by (rule rend_cong) simp_all
    show "vtap ?rd = vtap rd" using tapf_cong [of ?rd rd] by (simp add: vtap_def untapped_def c)
    show "roff ?rd = roff rd" by (simp add: roff_def b)
  qed (use b in \<open>simp_all add: rbytes_def c rpos_def\<close>)
qed

text \<open>
  After \<open>fill\<close> the accumulator holds more than 56 bits, or everything there is.
\<close>

definition filled :: "'t reader \<Rightarrow> bool" where
  "filled rd \<longleftrightarrow> 56 < rd_nbits rd \<or> rd_err rd \<noteq> None \<and> rd_nbits rd = length (rbits rd)"

lemma fillLoop_ok: "wf_reader rd \<Longrightarrow> advance 0 rd (fillLoop rd) \<and> filled (fillLoop rd)"
proof (induction rd rule: fillLoop.induct)
  case (1 rd)
  define rd1 where "rd1 = (if rd_r rd \<ge> rd_w rd then readMore rd else rd)"
  have a: "advance 0 rd rd1" "rd_r rd1 < rd_w rd1 \<or> rd_err rd1 \<noteq> None"
    using readMore_ok [OF "1.prems"] advance_refl [OF "1.prems"] wf_readerD(1) [OF "1.prems"]
    by (auto simp: rd1_def)
  note wf1 = advanceD(1) [OF a(1)]
  have nb: "rd_nbits rd1 = rd_nbits rd" by (simp add: rd1_def)
  show ?case
  proof (cases "rd_nbits rd \<le> 56")
    case False
    then show ?thesis using advance_refl [OF "1.prems"] by (simp add: fillLoop.simps [of rd] filled_def)
  next
    case le: True
    show ?thesis
    proof (cases "rd_r rd1 < rd_w rd1")
      case True
      then have l: "advance 0 rd1 (loadByte rd1)" using loadByte_ok [OF wf1] le nb by simp
      have "advance 0 (loadByte rd1) (fillLoop (loadByte rd1)) \<and> filled (fillLoop (loadByte rd1))"
        using "1.IH" [OF le rd1_def] True advanceD(1) [OF l] by simp
      then have "advance 0 rd (fillLoop (loadByte rd1)) \<and> filled (fillLoop (loadByte rd1))"
        using advance_trans [OF "1.prems" a(1) l] advance_trans [OF "1.prems"] by fastforce
      moreover have "fillLoop rd = fillLoop (loadByte rd1)"
        using True le by (simp add: fillLoop.simps [of rd] Let_def flip: rd1_def)
      ultimately show ?thesis by simp
    next
      case False
      then have "filled rd1"
        using rbits_exhausted [OF wf1] a(2) wf_readerD(1) [OF wf1] by (simp add: filled_def)
      moreover have "fillLoop rd = rd1"
        using False le by (simp add: fillLoop.simps [of rd] Let_def flip: rd1_def)
      ultimately show ?thesis using a(1) by simp
    qed
  qed
qed

lemma fill_ok: "advance 0 rd (fill rd)" "filled (fill rd)" if "wf_reader rd"
  using bulk_load_ok [OF that] fillLoop_ok [OF that] by (simp_all add: fill_def filled_def)

subsection \<open>Consuming from the accumulator\<close>

lemma foldl_nth_take:
  "j \<le> length xs \<Longrightarrow> foldl (\<lambda>s i. f s (xs ! i)) s [i..<j] = foldl f s (drop i (take j xs))"
proof (induction j)
  case (Suc j)
  then show ?case
    by (cases "i \<le> j") (simp_all add: take_Suc_conv_app_nth)
qed simp

lemma takeAcc_ok:
  assumes wf: "wf_reader rd" and n: "n \<le> rd_nbits rd"
  shows "advance n rd (takeAcc n rd)"
proof -
  note w = wf_readerD [OF wf]
  let ?m = "rd\<lparr>rd_acc := push_bit n (rd_acc rd), rd_nbits := rd_nbits rd - n\<rparr>"
  let ?rd = "takeAcc n rd" and ?c = "consumedBytes rd"
  define c' where "c' = consumedBytes ?m"
  have rr: "8 * rd_r rd - (rd_nbits rd - n) = 8 * ?c + (roff rd + n)"
    using consumed_roff [of rd] n w(5) by linarith
  then have c': "c' = ?c + (roff rd + n) div 8" by (simp add: c'_def consumedBytes_def)
  have c'r: "c' \<le> rd_r rd" using consumedBytes_le [of ?m] by (simp add: c'_def)
  have f: "rd_nbits ?rd = rd_nbits rd - n" "rd_acc ?rd = push_bit n (rd_acc rd)" "rd_r ?rd = rd_r rd" "rd_w ?rd = rd_w rd"
    "rd_tap ?rd = rd_tap rd" "rd_rtap ?rd = rd_rtap rd" "rd_loaded ?rd = rd_loaded rd"
    "rd_err ?rd = rd_err rd" "rd_src ?rd = rd_src rd" "rd_basePos ?rd = rd_basePos rd" "rd_buf ?rd = rd_buf rd"
    by (auto simp: takeAcc_def tapGate_def emitTaps_def split: option.split)
  have cc: "consumedBytes ?rd = c'" unfolding consumedBytes_def f c'_def by simp
  have tap: "rd_tap rd = None \<Longrightarrow> rd_tapCur ?rd = rd_tapCur rd" "rd_tap rd = None \<Longrightarrow> rd_tapSt ?rd = rd_tapSt rd"
    by (simp_all add: takeAcc_def tapGate_def)
  have tap2: "rd_tapCur ?rd = c'" "rd_tapSt ?rd = foldl h (rd_tapSt rd) (drop ?c (take c' (rd_buf rd)))"
    if "rd_tap rd = Some h" for h
    using that w(1,2,9) c'r c' foldl_nth_take [of c' "rd_buf rd" h "rd_tapSt rd" ?c]
    by (auto simp: takeAcc_def tapGate_def emitTaps_def c'_def [symmetric])
  have run: "take ((roff rd + n) div 8) (rbytes rd) = drop ?c (take c' (rd_buf rd))"
    using c'r w(1,2) unfolding rbytes_def c' by (simp add: drop_take min_absorb1)
  have rb: "rbytes ?rd = drop ((roff rd + n) div 8) (rbytes rd)"
    using c'r w(1,2) unfolding rbytes_def f cc unfolding c' by (simp add: add.commute)
  have A: "take (rd_nbits rd - n) (bits_msb 64 (push_bit n (rd_acc rd)))
      = drop (8 * rd_r rd - (rd_nbits rd - n)) (byte_bits (take (rd_r rd) (rd_buf rd)))"
  proof -
    have "take (rd_nbits rd - n) (bits_msb 64 (push_bit n (rd_acc rd))) = drop n (take (rd_nbits rd) (bits_msb 64 (rd_acc rd)))"
      by (rule nth_equalityI) (use n w(4) in \<open>auto simp: nth_bits_msb bit_simps add.commute\<close>)
    also have "\<dots> = drop (8 * rd_r rd - (rd_nbits rd - n)) (byte_bits (take (rd_r rd) (rd_buf rd)))"
      unfolding w(8) using n w(5) by (simp add: add.commute)
    finally show ?thesis .
  qed
  have Z: "take_bit (64 - (rd_nbits rd - n)) (push_bit n (rd_acc rd)) = 0"
  proof (rule bit_word_eqI)
    have low: "\<not> bit (rd_acc rd) j" if "j < 64 - rd_nbits rd" for j
      using w(7) that by (metis bit_0_eq bit_take_bit_iff bot_apply bot_bool_def)
    fix j show "bit (take_bit (64 - (rd_nbits rd - n)) (push_bit n (rd_acc rd))) j = bit (0::u64) j"
      using low [of "j - n"] n w(4) by (auto simp: bit_simps)
  qed
  have "wf_reader ?rd"
    unfolding wf_reader_def f cc using w A Z n tap tap2 c'r c'
    by (cases "rd_tap rd") (auto simp: minReadBlock_def le_diff_conv intro: le_trans)
  moreover have "vtap ?rd = tapf rd (vtap rd) (take ((roff rd + n) div 8) (rbytes rd))"
  proof (cases "rd_tap rd")
    case (Some h)
    then show ?thesis unfolding run by (simp add: vtap_def f tap2 tapf_def)
  next
    case None
    have "g (rd_tapSt rd) (untapped rd @ drop ?c (take c' (rd_buf rd))) = g (rd_tapSt rd) (untapped ?rd)"
      if "rd_rtap rd = Some g" for g
    proof -
      have "untapped rd @ drop ?c (take c' (rd_buf rd)) = drop (rd_tapCur rd) (take ?c (rd_buf rd) @ drop ?c (take c' (rd_buf rd)))"
        using w(10) [OF that] w(1,2) c'r c' by (simp add: untapped_def min_def)
      also have "take ?c (rd_buf rd) @ drop ?c (take c' (rd_buf rd)) = take c' (rd_buf rd)"
        using c' by (metis append_take_drop_id le_add1 min.absorb1 take_take)
      finally show ?thesis by (simp add: untapped_def cc f tap None)
    qed
    then show ?thesis using None tapf_cong [of ?rd rd] f(5,6) tap w(11) unfolding run
      by (auto simp: vtap_def tapf_def range_tapD split: option.split)
  qed
  moreover have "rend ?rd = rend rd" by (rule rend_cong) (simp_all add: f)
  moreover have "roff ?rd = (roff rd + n) mod 8" unfolding roff_def [of ?rd] f rr by simp
  moreover have "rpos ?rd = rpos rd + n" unfolding rpos_def f using n w(5,6) by linarith
  ultimately show ?thesis using rb f rbits_acc(1) [OF wf] n by (simp add: advance_def)
qed

lemma dropAcc_ok:
  assumes wf: "wf_reader rd"
  shows "advance (rd_nbits rd) rd (dropAcc rd)"
proof -
  have "push_bit (rd_nbits rd) (rd_acc rd) = 0"
  proof (rule bit_word_eqI)
    fix j show "bit (push_bit (rd_nbits rd) (rd_acc rd)) j = bit (0::u64) j" if "j < LENGTH(64)"
      using wf_readerD(4,7) [OF wf] that
      by (auto simp: bit_simps) (metis (no_types, lifting) bit_0_eq bit_take_bit_iff bot_apply bot_bool_def diff_less_mono)
  qed
  then have "dropAcc rd = takeAcc (rd_nbits rd) rd" by (simp add: dropAcc_def takeAcc_def)
  then show ?thesis using takeAcc_ok [OF wf order.refl] by simp
qed

section \<open>What each operation reads\<close>

lemma bits_val_take_acc:
  "bits_val (take n (bits_msb 64 acc)) = drop_bit (64 - n) acc" if "n \<le> 64" for acc :: u64
proof -
  have "take_bit n (drop_bit (64 - n) acc) = drop_bit (64 - n) acc"
  proof (rule bit_word_eqI)
    fix i show "bit (take_bit n (drop_bit (64 - n) acc)) i = bit (drop_bit (64 - n) acc) i"
      using bit_imp_le_length [of acc "64 - n + i"] that by (auto simp: bit_simps)
  qed
  then show ?thesis using that by (simp add: take_bits_msb bits_val_bits_msb)
qed

lemma takeAcc_val:
  assumes "wf_reader rd" "n \<le> rd_nbits rd"
  shows "drop_bit (64 - n) (rd_acc rd) = bits_val (take n (rbits rd))"
proof -
  have "take n (rbits rd) = take n (take (rd_nbits rd) (rbits rd))"
    using assms(2) by (simp add: min_absorb1)
  also have "\<dots> = take n (bits_msb 64 (rd_acc rd))"
    using assms(2) by (simp add: rbits_acc(2) [OF assms(1)] min_absorb1)
  finally show ?thesis
    using assms wf_readerD(4) [OF assms(1)] by (simp add: bits_val_take_acc)
qed

lemma bits_val_join:
  "length ys = k \<Longrightarrow> push_bit k (bits_val xs) OR bits_val ys = (bits_val (xs @ ys) :: u64)"
  by (rule bit_word_eqI) (auto simp: bit_simps bit_bits_val nth_append)

text \<open>
  \<open>ReadBits\<close> on a well-formed reader: the value of the next \<open>n\<close> bits and exactly \<open>n\<close> bits
  consumed, or, when fewer remain, the source's final error, turned into
  \<open>io.ErrUnexpectedEOF\<close> when it is \<open>io.EOF\<close> and some bits were there.
\<close>

definition reads_bits :: "nat \<Rightarrow> 't reader \<Rightarrow> (err + u64) \<times> 't reader \<Rightarrow> bool" where
  "reads_bits n rd out \<longleftrightarrow>
     (if n \<le> length (rbits rd)
      then fst out = Inr (bits_val (take n (rbits rd))) \<and> advance n rd (snd out)
      else fst out = Inl (if rbits rd = [] then rend rd else noEOF (rend rd))
           \<and> (\<exists>k. advance k rd (snd out)))"

lemma reads_bits_fill:
  assumes "wf_reader rd" "advance 0 rd rd1" "reads_bits n rd1 out"
  shows "reads_bits n rd out"
  using assms advance_trans [OF assms(1,2)] advanceD(3,8) [OF assms(2)]
  by (fastforce simp: reads_bits_def split: if_splits)

lemma reads_bits_takeAcc:
  "wf_reader rd \<Longrightarrow> n \<le> rd_nbits rd \<Longrightarrow> reads_bits n rd (Inr (drop_bit (64 - n) (rd_acc rd)), takeAcc n rd)"
  using rbits_acc(1) [of rd] by (simp add: reads_bits_def takeAcc_val takeAcc_ok)

lemma filled_aligned:
  assumes "wf_reader rd" "filled rd" "n \<le> 57 \<or> n \<le> 64 \<and> roff rd = 0" "rd_nbits rd < n"
  shows "rd_err rd \<noteq> None \<and> rd_nbits rd = length (rbits rd)"
proof -
  have "\<not> 56 < rd_nbits rd"
  proof
    assume "56 < rd_nbits rd"
    moreover from this have "roff rd = 0" "rd_nbits rd < 64" using assms(3,4) by auto
    moreover have "roff rd + rd_nbits rd = 8 * (rd_r rd - consumedBytes rd)"
      using consumed_roff [of rd] wf_readerD(5) [OF assms(1)] consumedBytes_le [of rd] by (simp add: algebra_simps)
    ultimately show False by presburger
  qed
  then show ?thesis using assms(2) by (simp add: filled_def)
qed

text \<open>
  A read of up to 57 bits is always served when its bits are there, and so is one of up
  to 64 bits from a byte boundary. A longer unaligned read takes the split path, which
  needs that no error has been recorded yet.
\<close>

definition servable :: "nat \<Rightarrow> 't reader \<Rightarrow> bool" where
  "servable n rd \<longleftrightarrow> n \<le> 57 \<or> n \<le> 64 \<and> (roff rd = 0 \<or> rd_err (fill rd) = None)"

lemma reads_bits_split:
  assumes wf: "wf_reader rd" and got: "rd_nbits rd = got" "got < n" "0 < got" and out: "reads_bits (n - got) (dropAcc rd) (r, rd2)"
  shows "reads_bits n rd (case (r, rd2) of
           (Inl e, rd2) \<Rightarrow> (Inl (if e = EOF then ErrUnexpectedEOF else e), rd2)
         | (Inr lo, rd2) \<Rightarrow> (Inr (push_bit (n - got) (drop_bit (64 - got) (rd_acc rd)) OR lo), rd2))"
proof -
  have d: "advance got rd (dropAcc rd)" using dropAcc_ok [OF wf] got by simp
  note D = advanceD [OF d]
  have hi: "drop_bit (64 - got) (rd_acc rd) = bits_val (take got (rbits rd))"
    using takeAcc_val [OF wf, of got] got by simp
  show ?thesis
  proof (cases "n \<le> length (rbits rd)")
    case True
    then have "r = Inr (bits_val (take (n - got) (drop got (rbits rd))))" "advance (n - got) (dropAcc rd) rd2"
      using out D(8) by (simp_all add: reads_bits_def diff_le_mono)
    moreover have "take got (rbits rd) @ take (n - got) (drop got (rbits rd)) = take n (rbits rd)"
      using got(2) by (simp add: take_add [symmetric])
    ultimately show ?thesis
      using True hi got advance_trans [OF wf d, of "n - got" rd2] by (simp add: reads_bits_def bits_val_join)
  next
    case False
    then have r: "r = Inl (if drop got (rbits rd) = [] then rend rd else noEOF (rend rd))"
        and "\<exists>k. advance k rd rd2"
      using out D advance_trans [OF wf d] by (auto simp: reads_bits_def split: if_splits)
    moreover have "rbits rd = [] \<Longrightarrow> got = 0" using D(2) by simp
    ultimately show ?thesis using False got(3) by (auto simp: reads_bits_def noEOF_def)
  qed
qed

lemma servable_small: "n \<le> 57 \<Longrightarrow> servable n rd"
  by (simp add: servable_def)

lemma ReadBits_reads:
  "wf_reader rd \<Longrightarrow> servable n rd \<Longrightarrow> reads_bits n rd (ReadBits n rd)"
  "wf_reader rd \<Longrightarrow> servable n rd \<Longrightarrow> reads_bits n rd (readBitsSlow n rd)"
proof (induction n rd and n rd rule: ReadBits_readBitsSlow.induct)
  case (1 n rd)
  then show ?case by (simp add: ReadBits.simps [of n rd] reads_bits_takeAcc)
next
  case (2 n rd0)
  define rd where "rd = fill rd0"
  have a: "advance 0 rd0 rd" "filled rd" using fill_ok [OF "2.prems"(1)] by (simp_all add: rd_def)
  note wf = advanceD(1) [OF a(1)]
  have o: "roff rd = roff rd0" using a(1) by (simp add: advance_def)
  have "reads_bits n rd (readBitsSlow n rd0)"
  proof (cases "n \<le> rd_nbits rd")
    case True
    then show ?thesis using reads_bits_takeAcc [OF wf] by (simp add: readBitsSlow.simps [of n rd0] flip: rd_def)
  next
    case short: False
    show ?thesis
    proof (cases "rd_err rd")
      case (Some x)
      then have "length (rbits rd) = rd_nbits rd"
        using filled_aligned [OF wf a(2), of n] "2.prems"(2) short o by (auto simp: servable_def simp flip: rd_def)
      then show ?thesis
        using short Some advance_refl [OF wf]
        by (auto simp: readBitsSlow.simps [of n rd0] reads_bits_def rend_def noEOF_def simp flip: rd_def)
    next
      case None
      then have n: "56 < rd_nbits rd" "n \<le> 64" using a(2) "2.prems"(2) by (auto simp: filled_def servable_def)
      obtain r rd2 where rec: "ReadBits (n - rd_nbits rd) (dropAcc rd) = (r, rd2)" by fastforce
      have "reads_bits (n - rd_nbits rd) (dropAcc rd) (r, rd2)"
        using "2.IH" [OF rd_def short None refl refl refl] n advanceD(1) [OF dropAcc_ok [OF wf]]
        by (simp add: servable_small rec)
      from reads_bits_split [OF wf refl _ _ this] show ?thesis
        using short None n rec by (simp add: readBitsSlow.simps [of n rd0] Let_def flip: rd_def)
    qed
  qed
  then show ?case by (rule reads_bits_fill [OF "2.prems"(1) a(1)])
qed

lemma ReadBits_ok:
  assumes "wf_reader rd" "n \<le> 57" "n \<le> length (rbits rd)"
  obtains rd' where "ReadBits n rd = (Inr (bits_val (take n (rbits rd))), rd')" "advance n rd rd'"
proof
  have "reads_bits n rd (ReadBits n rd)"
    by (rule ReadBits_reads(1) [OF assms(1) servable_small [OF assms(2)]])
  then show "advance n rd (snd (ReadBits n rd))" "ReadBits n rd = (Inr (bits_val (take n (rbits rd))), snd (ReadBits n rd))"
    using assms(3) by (simp_all add: reads_bits_def prod_eq_iff)
qed

text \<open>
  When the bits are not there, the split path of a read of more than 57 bits fails the same
  way as the direct one, whatever error has been recorded and when.
\<close>

lemma ReadBits_short_reads:
  assumes "wf_reader rd0" "n \<le> 64" "length (rbits rd0) < n"
  shows "reads_bits n rd0 (ReadBits n rd0)"
proof -
  define rd where "rd = fill rd0"
  have a: "advance 0 rd0 rd" "filled rd" using fill_ok [OF assms(1)] by (simp_all add: rd_def)
  note wf = advanceD(1) [OF a(1)]
  have len: "length (rbits rd) < n" using advanceD(8) [OF a(1)] assms(3) by simp
  then have short: "rd_nbits rd < n" using rbits_acc(1) [OF wf] by linarith
  have eq: "ReadBits n rd0 = readBitsSlow n rd0"
    using rbits_acc(1) [OF assms(1)] assms(3) by (simp add: ReadBits.simps [of n rd0])
  have "reads_bits n rd (readBitsSlow n rd0)"
  proof (cases "rd_err rd")
    case (Some x)
    have "rd_nbits rd = 0 \<longleftrightarrow> rbits rd = []" using a(2) rbits_acc(1) [OF wf] by (auto simp: filled_def)
    then show ?thesis
      using short len Some advance_refl [OF wf]
      by (auto simp: readBitsSlow.simps [of n rd0] reads_bits_def rend_def noEOF_def simp flip: rd_def)
  next
    case None
    then have n: "56 < rd_nbits rd" using a(2) by (auto simp: filled_def)
    obtain r rd2 where rec: "ReadBits (n - rd_nbits rd) (dropAcc rd) = (r, rd2)" by fastforce
    have "reads_bits (n - rd_nbits rd) (dropAcc rd) (ReadBits (n - rd_nbits rd) (dropAcc rd))"
      by (rule ReadBits_reads(1) [OF advanceD(1) [OF dropAcc_ok [OF wf]] servable_small]) (use n assms(2) in simp)
    then have "reads_bits (n - rd_nbits rd) (dropAcc rd) (r, rd2)" by (simp add: rec)
    from reads_bits_split [OF wf refl short _ this] show ?thesis
      using short None n rec by (simp add: readBitsSlow.simps [of n rd0] Let_def flip: rd_def)
  qed
  then show ?thesis unfolding eq by (rule reads_bits_fill [OF assms(1) a(1)])
qed

definition signed_val :: "bool list \<Rightarrow> i64" where
  "signed_val bs = signed_drop_bit (64 - length bs) (push_bit (64 - length bs) (bits_val bs))"

lemma signed_drop_bit_0: "signed_drop_bit k (0 :: 'a::len word) = 0"
  by (rule bit_word_eqI) (simp add: bit_simps)

lemma ReadSigned_ok:
  assumes "wf_reader rd" "n \<le> 57" "n \<le> length (rbits rd)"
  obtains rd' where "ReadSigned n rd = (Inr (signed_val (take n (rbits rd))), rd')" "advance n rd rd'"
proof (cases "n = 0")
  case True
  then show ?thesis using that [of rd] advance_refl [OF assms(1)]
    by (simp add: ReadSigned_def signed_val_def signed_drop_bit_0)
next
  case False
  obtain rd' where "ReadBits n rd = (Inr (bits_val (take n (rbits rd))), rd')" "advance n rd rd'"
    by (rule ReadBits_ok [OF assms])
  then show ?thesis using that [of rd'] False assms(3)
    by (simp add: ReadSigned_def signed_val_def min_absorb2)
qed

subsection \<open>Unary codes\<close>

lemma lz64_ge:
  assumes "wf_reader rd"
  shows "rd_nbits rd \<le> lz64 (rd_acc rd) \<longleftrightarrow> take (rd_nbits rd) (rbits rd) = replicate (rd_nbits rd) False"
    and "lz64 (rd_acc rd) < rd_nbits rd \<Longrightarrow>
      take (lz64 (rd_acc rd) + 1) (rbits rd) = replicate (lz64 (rd_acc rd)) False @ [True]"
proof -
  let ?n = "rd_nbits rd" and ?b = "bits_msb 64 (rd_acc rd)"
  have n: "?n \<le> length ?b" using wf_readerD(4) [OF assms] by simp
  have "?n \<le> length (takeWhile Not ?b) \<longleftrightarrow> (\<forall>i < ?n. \<not> ?b ! i)"
  proof
    assume "?n \<le> length (takeWhile Not ?b)"
    then show "\<forall>i < ?n. \<not> ?b ! i" by (metis nth_mem order_less_le_trans set_takeWhileD takeWhile_nth)
  next
    assume a: "\<forall>i < ?n. \<not> ?b ! i"
    show "?n \<le> length (takeWhile Not ?b)"
    proof (rule ccontr)
      assume "\<not> ?n \<le> length (takeWhile Not ?b)"
      then have l: "length (takeWhile Not ?b) < ?n" by simp
      then have "\<not> Not (?b ! length (takeWhile Not ?b))"
        using nth_length_takeWhile [of Not ?b] n by simp
      then show False using a l by blast
    qed
  qed
  moreover have "take ?n ?b = replicate ?n False \<longleftrightarrow> (\<forall>i < ?n. \<not> ?b ! i)"
    using n by (auto simp: list_eq_iff_nth_eq)
  ultimately show "?n \<le> lz64 (rd_acc rd) \<longleftrightarrow> take ?n (rbits rd) = replicate ?n False"
    by (simp add: lz64_def rbits_acc(2) [OF assms])
  assume l: "lz64 (rd_acc rd) < ?n"
  let ?l = "lz64 (rd_acc rd)"
  have "take (?l + 1) (rbits rd) = take (?l + 1) (take ?n (rbits rd))"
    using l by (simp add: min_absorb1)
  also have "\<dots> = take (?l + 1) ?b" using l by (simp add: rbits_acc(2) [OF assms] min_absorb1)
  also have "\<dots> = take ?l ?b @ [?b ! ?l]" using l n by (simp add: take_Suc_conv_app_nth)
  also have "take ?l ?b = replicate ?l False"
  proof -
    have "take ?l ?b = takeWhile Not ?b" by (simp add: lz64_def takeWhile_eq_take [symmetric])
    then show ?thesis using set_takeWhileD [of _ Not ?b] by (metis (full_types) lz64_def replicate_length_same)
  qed
  also have "?b ! ?l = True" using nth_length_takeWhile [of Not ?b] l n by (simp add: lz64_def)
  finally show "take (?l + 1) (rbits rd) = replicate ?l False @ [True]" by simp
qed

text \<open>
  The outcome of a unary read that has already counted \<open>z\<close> zeros.
\<close>

definition reads_unary :: "u64 \<Rightarrow> 't reader \<Rightarrow> (err + u64) \<times> 't reader \<Rightarrow> bool" where
  "reads_unary z rd out \<longleftrightarrow>
     (if True \<in> set (rbits rd)
      then let k = length (takeWhile Not (rbits rd))
           in fst out = Inr (z + of_nat k) \<and> advance (k + 1) rd (snd out)
      else fst out = Inl (rend rd) \<and> advance (length (rbits rd)) rd (snd out))"

lemma takeWhile_Not_app:
  "xs = replicate n False @ ys \<Longrightarrow> length (takeWhile Not xs) = n + length (takeWhile Not ys)"
  by (simp add: takeWhile_append)

lemma unaryLoop_ok: "wf_reader rd \<Longrightarrow> reads_unary z rd (unaryLoop z rd)"
proof (induction z rd rule: unaryLoop.induct)
  case (1 z rd0)
  define rd where "rd = (if rd_nbits rd0 = 0 then fill rd0 else rd0)"
  have a: "advance 0 rd0 rd" "rd_nbits rd = 0 \<Longrightarrow> filled rd"
    using fill_ok [OF "1.prems"] advance_refl [OF "1.prems"] by (auto simp: rd_def split: if_splits)
  note A = advanceD [OF a(1)]
  have step: "advance n rd rd' \<Longrightarrow> advance n rd0 rd'" for n rd'
    using advance_trans [OF "1.prems" a(1)] by fastforce
  have rb: "rbits rd0 = rbits rd" "rend rd0 = rend rd" using A(3,8) by simp_all
  show ?case
  proof (cases "rd_nbits rd = 0")
    case True
    then obtain x where "rd_err rd = Some x" "rbits rd = []" using a(2) by (auto simp: filled_def)
    then show ?thesis
      using True a(1) A(3,8) by (simp add: unaryLoop.simps [of z rd0] reads_unary_def rend_def flip: rd_def)
  next
    case nz: False
    let ?n = "rd_nbits rd" and ?l = "lz64 (rd_acc rd)"
    note lz = lz64_ge [OF A(1)]
    show ?thesis
    proof (cases "?n \<le> ?l")
      case True
      then have z: "take ?n (rbits rd) = replicate ?n False" using lz(1) by simp
      have d: "advance ?n rd (dropAcc rd)" by (rule dropAcc_ok [OF A(1)])
      have ih: "reads_unary (z + of_nat ?n) (dropAcc rd) (unaryLoop (z + of_nat ?n) (dropAcc rd))"
        using "1.IH" [OF rd_def nz refl True] advanceD(1) [OF d] by simp
      have split: "rbits rd = replicate ?n False @ rbits (dropAcc rd)"
        using z advanceD(8) [OF d] by (metis append_take_drop_id)
      have eq: "unaryLoop z rd0 = unaryLoop (z + of_nat ?n) (dropAcc rd)"
        using nz True by (simp add: unaryLoop.simps [of z rd0] Let_def flip: rd_def)
      have "True \<in> set (rbits rd) \<longleftrightarrow> True \<in> set (rbits (dropAcc rd))"
        by (subst split) auto
      moreover have "length (takeWhile Not (rbits rd)) = ?n + length (takeWhile Not (rbits (dropAcc rd)))"
        by (rule takeWhile_Not_app [OF split])
      moreover have "length (rbits rd) = ?n + length (rbits (dropAcc rd))"
        by (subst split) simp
      moreover have "advance m (dropAcc rd) rd' \<Longrightarrow> advance (?n + m) rd0 rd'"
          "advance (Suc m) (dropAcc rd) rd' \<Longrightarrow> advance (Suc (?n + m)) rd0 rd'" for m rd'
        using step advance_trans [OF A(1) d] by (blast, metis add_Suc_right)
      ultimately show ?thesis
        using ih advanceD(3) [OF d] unfolding eq
        by (auto simp: reads_unary_def Let_def rb add.assoc split: if_splits)
    next
      case False
      then have t: "take (?l + 1) (rbits rd) = replicate ?l False @ [True]" using lz(2) by simp
      then have sp: "rbits rd = replicate ?l False @ True # drop (?l + 1) (rbits rd)"
        by (metis append_Cons append_Nil append_assoc append_take_drop_id)
      have "length (takeWhile Not (rbits rd)) = ?l" using takeWhile_Not_app [OF sp] by simp
      moreover have "True \<in> set (rbits rd)" by (subst sp) simp
      moreover have "advance (?l + 1) rd0 (takeAcc (?l + 1) rd)"
        by (rule step [OF takeAcc_ok [OF A(1)]]) (use False in simp)
      moreover have "unaryLoop z rd0 = (Inr (z + of_nat ?l), takeAcc (?l + 1) rd)"
        using nz False by (simp add: unaryLoop.simps [of z rd0] Let_def flip: rd_def)
      ultimately show ?thesis by (simp add: reads_unary_def rb)
    qed
  qed
qed

lemma ReadUnary_ok:
  assumes "wf_reader rd" "take (k + 1) (rbits rd) = replicate k False @ [True]"
  obtains rd' where "ReadUnary rd = (Inr (of_nat k), rd')" "advance (k + 1) rd rd'"
proof
  have sp: "rbits rd = replicate k False @ True # drop (k + 1) (rbits rd)"
    using assms(2) by (metis append_Cons append_Nil append_assoc append_take_drop_id)
  then have "length (takeWhile Not (rbits rd)) = k" using takeWhile_Not_app by fastforce
  moreover have "True \<in> set (rbits rd)" by (subst sp) simp
  ultimately show "advance (k + 1) rd (snd (ReadUnary rd))" "ReadUnary rd = (Inr (of_nat k), snd (ReadUnary rd))"
    using unaryLoop_ok [OF assms(1), of 0] by (simp_all add: ReadUnary_def reads_unary_def prod_eq_iff)
qed

lemma SkipToByteBoundary_ok:
  assumes wf: "wf_reader rd"
  shows "advance ((8 - roff rd) mod 8) rd (SkipToByteBoundary rd)"
proof -
  have "roff rd + rd_nbits rd = 8 * (rd_r rd - consumedBytes rd)"
    using consumed_roff [of rd] wf_readerD(5) [OF wf] consumedBytes_le [of rd] by (simp add: algebra_simps)
  then obtain k where k: "roff rd + rd_nbits rd = 8 * k" by blast
  have "(8 - r) mod 8 = n mod 8" if "r + n = 8 * k" "r < 8" for r n :: nat
  proof (cases "r = 0")
    case False
    then have "n = 8 - r + 8 * (k - 1)" using that by (cases k) auto
    then show ?thesis by (simp only: mod_mult_self2)
  qed (use that in simp)
  from this [OF k] have "(8 - roff rd) mod 8 = rd_nbits rd mod 8" by simp
  then show ?thesis
    using takeAcc_ok [OF wf, of "rd_nbits rd mod 8"] advance_refl [OF wf]
    by (auto simp: SkipToByteBoundary_def Let_def)
qed

end
