(* ===== verification/Bitio_Writer.thy ===== *)
theory Bitio_Writer
  imports Prelude
begin

text \<open>
  The bit writer of \<^verbatim>\<open>src/internal/bitio/writer.go\<close>: a 64-bit left-aligned accumulator in
  front of a byte buffer. \<open>wbits\<close> is the bit string a writer stands for; the lemmas of
  the second half show that every operation appends to it exactly the bits it should,
  so that the encoders built on the writer can be read as functions on bit strings.
\<close>

section \<open>The writer and its operations\<close>

record writer =
  wr_buf :: "u8 list"
  wr_acc :: u64
  wr_nbit :: nat

definition NewWriter :: writer where
  "NewWriter = \<lparr>wr_buf = [], wr_acc = 0, wr_nbit = 0\<rparr>"

text \<open>\<open>Grow\<close> reserves capacity only; the contents, all that the model keeps, are unchanged.\<close>

definition Grow :: "int \<Rightarrow> writer \<Rightarrow> writer" where
  "Grow n w = w"

text \<open>\<open>binary.BigEndian.AppendUint64\<close> of the Go standard library.\<close>

definition be_bytes64 :: "u64 \<Rightarrow> u8 list" where
  "be_bytes64 v = map (\<lambda>i. ucast (drop_bit (8 * i) v)) (rev [0..<8])"

definition flushWord :: "writer \<Rightarrow> writer" where
  "flushWord w = w\<lparr>wr_buf := wr_buf w @ be_bytes64 (wr_acc w), wr_acc := 0\<rparr>"

definition WriteBits :: "u64 \<Rightarrow> nat \<Rightarrow> writer \<Rightarrow> writer" where
  "WriteBits v n w =
     (if n = 0 then w
      else
        let v = v AND (push_bit n 1 - 1);
            free = 64 - wr_nbit w
        in if n < free
           then w\<lparr>wr_acc := wr_acc w OR push_bit (free - n) v, wr_nbit := wr_nbit w + n\<rparr>
           else
             let w1 = flushWord (w\<lparr>wr_acc := wr_acc w OR drop_bit (n - free) v\<rparr>);
                 rem = n - free;
                 w2 = w1\<lparr>wr_nbit := rem\<rparr>
             in if rem > 0 then w2\<lparr>wr_acc := push_bit (64 - rem) v\<rparr> else w2)"

function flushFull :: "writer \<Rightarrow> writer" where
  "flushFull w =
     (if 8 \<le> wr_nbit w
      then flushFull (w\<lparr>wr_buf := wr_buf w @ [ucast (drop_bit 56 (wr_acc w))],
                        wr_acc := push_bit 8 (wr_acc w), wr_nbit := wr_nbit w - 8\<rparr>)
      else w)"
  by pat_completeness auto
termination
  by (relation "measure wr_nbit") auto

declare flushFull.simps [simp del]

definition WriteSignedBits :: "i64 \<Rightarrow> nat \<Rightarrow> writer \<Rightarrow> writer" where
  "WriteSignedBits v n w = WriteBits (v AND (push_bit n 1 - 1)) n w"

function WriteUnary :: "u64 \<Rightarrow> writer \<Rightarrow> writer" where
  "WriteUnary q w =
     (if 32 \<le> q then WriteUnary (q - 32) (WriteBits 0 32 w)
      else WriteBits 1 (unat q + 1) w)"
  by pat_completeness auto
termination
proof (relation "measure (\<lambda>(q, w). unat q)")
  fix q :: u64 and w
  assume "32 \<le> q"
  then have "unat (q - 32) < unat q"
    by (simp add: unat_sub word_le_nat_alt)
  then show "((q - 32, WriteBits 0 32 w), q, w) \<in> measure (\<lambda>(q, w). unat q)" by simp
qed simp

declare WriteUnary.simps [simp del]

definition AlignByte :: "writer \<Rightarrow> writer" where
  "AlignByte w =
     (let w1 = flushFull w
      in if wr_nbit w1 > 0
         then \<lparr>wr_buf = wr_buf w1 @ [ucast (drop_bit 56 (wr_acc w1))], wr_acc = 0, wr_nbit = 0\<rparr>
         else w1)"

text \<open>\<open>Bytes\<close> flushes, so it returns the writer as well as the assembled bytes.\<close>

definition Bytes :: "writer \<Rightarrow> u8 list \<times> writer" where
  "Bytes w = (let w1 = flushFull w in (wr_buf w1, w1))"

definition wReset :: "writer \<Rightarrow> writer" where
  "wReset w = w\<lparr>wr_buf := [], wr_acc := 0, wr_nbit := 0\<rparr>"

section \<open>The bit string of a writer\<close>

definition wbits :: "writer \<Rightarrow> bool list" where
  "wbits w = byte_bits (wr_buf w) @ take (wr_nbit w) (bits_msb 64 (wr_acc w))"

definition wf_writer :: "writer \<Rightarrow> bool" where
  "wf_writer w \<longleftrightarrow> wr_nbit w < 64 \<and> take_bit (64 - wr_nbit w) (wr_acc w) = 0"

text \<open>An operation that appends the bits \<open>bs\<close> to any writer.\<close>

definition emits :: "(writer \<Rightarrow> writer) \<Rightarrow> bool list \<Rightarrow> bool" where
  "emits f bs \<longleftrightarrow> (\<forall>w. wf_writer w \<longrightarrow> wf_writer (f w) \<and> wbits (f w) = wbits w @ bs)"

lemma emitsI:
  "(\<And>w. wf_writer w \<Longrightarrow> wf_writer (f w)) \<Longrightarrow>
   (\<And>w. wf_writer w \<Longrightarrow> wbits (f w) = wbits w @ bs) \<Longrightarrow> emits f bs"
  by (simp add: emits_def)

lemma emitsD:
  "emits f bs \<Longrightarrow> wf_writer w \<Longrightarrow> wf_writer (f w)"
  "emits f bs \<Longrightarrow> wf_writer w \<Longrightarrow> wbits (f w) = wbits w @ bs"
  by (simp_all add: emits_def)

lemma emits_id: "emits (\<lambda>w. w) []"
  by (simp add: emits_def)

lemma emits_comp: "emits f bs \<Longrightarrow> emits g cs \<Longrightarrow> emits (\<lambda>w. g (f w)) (bs @ cs)"
  by (simp add: emits_def)

lemma emits_fold:
  "(\<And>x. x \<in> set xs \<Longrightarrow> emits (f x) (enc x)) \<Longrightarrow> emits (fold f xs) (concat (map enc xs))"
proof (induction xs)
  case Nil
  then show ?case by (simp add: emits_def)
next
  case (Cons x xs)
  then have "emits (\<lambda>w. fold f xs (f x w)) (enc x @ concat (map enc xs))"
    by (intro emits_comp) auto
  then show ?case by (simp add: comp_def)
qed

lemma bit_below_acc:
  "wf_writer w \<Longrightarrow> i < 64 - wr_nbit w \<Longrightarrow> \<not> bit (wr_acc w) i"
  by (metis bit_0_eq bit_take_bit_iff bot_apply bot_bool_def wf_writer_def)

lemma wf_NewWriter [simp]: "wf_writer NewWriter"
  by (simp add: wf_writer_def NewWriter_def)

lemma wbits_NewWriter [simp]: "wbits NewWriter = []"
  by (simp add: wbits_def NewWriter_def)

lemma wf_wReset [simp]: "wf_writer (wReset w)"
  by (simp add: wf_writer_def wReset_def)

lemma wbits_wReset [simp]: "wbits (wReset w) = []"
  by (simp add: wbits_def wReset_def)

lemma Grow_id [simp]: "Grow n w = w"
  by (simp add: Grow_def)

section \<open>What each operation appends\<close>

lemma mask64: "v AND (push_bit n 1 - 1) = take_bit n v" for v :: u64
  by (simp add: take_bit_eq_mask mask_eq_decr_exp push_bit_eq_mult)

lemma WriteBits_unfold:
  "WriteBits v n w =
     (if n = 0 then w
      else if n < 64 - wr_nbit w
        then w\<lparr>wr_acc := wr_acc w OR push_bit (64 - wr_nbit w - n) (take_bit n v), wr_nbit := wr_nbit w + n\<rparr>
        else let rem = n - (64 - wr_nbit w);
                 w2 = (flushWord (w\<lparr>wr_acc := wr_acc w OR drop_bit rem (take_bit n v)\<rparr>))\<lparr>wr_nbit := rem\<rparr>
             in if rem > 0 then w2\<lparr>wr_acc := push_bit (64 - rem) (take_bit n v)\<rparr> else w2)"
  unfolding WriteBits_def mask64 Let_def by (rule refl)

lemma byte_bits_be_bytes64: "byte_bits (be_bytes64 v) = bits_msb 64 v"
proof -
  have "byte_bits (be_bytes64 v) = concat (map (\<lambda>i. bits_msb 8 (drop_bit (8 * i) v)) (rev [0..<8]))"
    by (simp add: byte_bits_def be_bytes64_def comp_def bits_msb_ucast8)
  also have "\<dots> = bits_msb 64 v"
    using bits_msb_groups [where k = 8 and m = 8 and x = v] by simp
  finally show ?thesis .
qed

lemma flushWord_wbits:
  "wbits (flushWord w) = byte_bits (wr_buf w) @ bits_msb 64 (wr_acc w) @ replicate (wr_nbit w) False"
  if "wr_nbit w \<le> 64"
  using that by (simp add: wbits_def flushWord_def byte_bits_be_bytes64 min_def)

lemma WriteBits_short:
  assumes "wf_writer w" "n < 64 - wr_nbit w"
  shows "wf_writer (WriteBits v n w) \<and> wbits (WriteBits v n w) = wbits w @ bits_msb n v"
proof (cases "n = 0")
  case False
  have k: "take_bit (64 - wr_nbit w) (wr_acc w) = 0" and le: "wr_nbit w + n \<le> 64"
    using assms by (auto simp: wf_writer_def)
  show ?thesis
    using False assms(2) take_acc_or [OF k le, of v] take_bit_push_take [OF k le, of v]
    by (simp add: WriteBits_unfold wf_writer_def wbits_def add.commute)
qed (use assms in \<open>simp add: WriteBits_def\<close>)

lemma WriteBits_long:
  assumes wf: "wf_writer w" and n: "64 - wr_nbit w \<le> n" "n \<le> 64"
  shows "wf_writer (WriteBits v n w) \<and> wbits (WriteBits v n w) = wbits w @ bits_msb n v"
proof -
  obtain k free rem where wk: "wr_nbit w = k" and free: "64 - wr_nbit w = free" and rem: "n - (64 - wr_nbit w) = rem"
    by blast
  have k: "k < 64" "take_bit free (wr_acc w) = 0" "64 - k = free" "k + free = 64"
    and nn: "n = free + rem" and r: "rem < 64" "0 < free"
    using wf n wk free rem by (auto simp: wf_writer_def)
  have n0: "n \<noteq> 0" "\<not> n < 64 - wr_nbit w" using nn r free by auto
  define acc1 where "acc1 = wr_acc w OR drop_bit rem (take_bit n v)"
  have "drop_bit rem (take_bit n v) = take_bit free (drop_bit rem v)"
    by (simp add: nn drop_bit_take_bit)
  then have "take 64 (bits_msb 64 acc1) = take k (bits_msb 64 (wr_acc w)) @ bits_msb free (drop_bit rem v)"
    using take_acc_or [of k "wr_acc w" free "drop_bit rem v"] k by (simp add: acc1_def)
  then have acc1: "bits_msb 64 acc1 = take k (bits_msb 64 (wr_acc w)) @ bits_msb free (drop_bit rem v)"
    by simp
  have vsplit: "bits_msb n v = bits_msb free (drop_bit rem v) @ bits_msb rem v"
    using bits_msb_add [of free rem v] nn by simp
  have push: "push_bit (64 - rem) (take_bit n v) = push_bit (64 - rem) (take_bit rem v)"
    using push_take_top [of rem n v] nn r by simp
  have eq: "WriteBits v n w =
      (let w2 = (flushWord (w\<lparr>wr_acc := acc1\<rparr>))\<lparr>wr_nbit := rem\<rparr>
       in if rem > 0 then w2\<lparr>wr_acc := push_bit (64 - rem) (take_bit rem v)\<rparr> else w2)"
    unfolding WriteBits_unfold [of v n w] if_not_P [OF n0(1)] if_not_P [OF n0(2)] rem Let_def acc1_def push
    by (rule refl)
  have "wf_writer (WriteBits v n w)"
    using r by (simp add: eq Let_def flushWord_def wf_writer_def low_push_top)
  moreover have "wbits (WriteBits v n w) = wbits w @ bits_msb n v"
  proof (cases "rem > 0")
    case True
    then show ?thesis
      using take_push_top [of rem v] r
      by (simp add: eq Let_def flushWord_def wbits_def byte_bits_be_bytes64 wk vsplit acc1 del: take_bit_push_bit)
  next
    case False
    then have "wbits (WriteBits v n w) = byte_bits (wr_buf w) @ bits_msb 64 acc1"
      unfolding eq Let_def if_not_P [OF False]
      by (simp add: flushWord_def wbits_def byte_bits_be_bytes64)
    also have "\<dots> = wbits w @ bits_msb n v"
      using False unfolding acc1 wbits_def vsplit wk by simp
    finally show ?thesis .
  qed
  ultimately show ?thesis ..
qed

lemma emits_WriteBits: "emits (WriteBits v n) (bits_msb n v)" if "n \<le> 64"
proof (rule emitsI)
  fix w assume w: "wf_writer w"
  show "wf_writer (WriteBits v n w)" "wbits (WriteBits v n w) = wbits w @ bits_msb n v"
    using WriteBits_short [OF w, of n v] WriteBits_long [OF w _ that, of v]
    by (cases "n < 64 - wr_nbit w"; simp)+
qed

lemma emits_WriteSignedBits: "emits (WriteSignedBits v n) (bits_msb n v)" if "n \<le> 64"
proof -
  have "WriteSignedBits v n = WriteBits (take_bit n v) n"
    by (rule ext) (simp only: WriteSignedBits_def mask64)
  then show ?thesis
    using emits_WriteBits [OF that, of "take_bit n v"] bits_msb_take_bit [of n n v] by (simp only: order.refl)
qed

lemma bits_msb_unary: "bits_msb (n + 1) (1::u64) = replicate n False @ [True]"
  by (rule nth_equalityI) (auto simp: nth_bits_msb nth_append bit_simps)

lemma emits_WriteUnary: "emits (WriteUnary q) (replicate (unat q) False @ [True])"
  unfolding emits_def
proof (intro allI impI)
  fix w show "wf_writer (WriteUnary q w) \<and> wbits (WriteUnary q w) = wbits w @ replicate (unat q) False @ [True]"
    if "wf_writer w" using that
  proof (induction q w rule: WriteUnary.induct)
    case (1 q w)
    show ?case
    proof (cases "32 \<le> q")
      case True
      have "wf_writer (WriteBits 0 32 w)" "wbits (WriteBits 0 32 w) = wbits w @ replicate 32 False"
        using emitsD [OF emits_WriteBits [of 32 0] "1.prems"] by simp_all
      moreover have "unat q = 32 + unat (q - 32)"
        using True by (simp add: unat_sub word_le_nat_alt)
      ultimately show ?thesis using True "1.IH"
        by (simp add: WriteUnary.simps [of q w] replicate_add)
    next
      case False
      then have "unat q + 1 \<le> 64" by (simp add: word_le_nat_alt)
      from emitsD [OF emits_WriteBits [OF this, of 1] "1.prems"] False show ?thesis
        by (simp add: WriteUnary.simps [of q w] bits_msb_unary [unfolded One_nat_def add_Suc_right add_0_right])
    qed
  qed
qed

lemma bits_msb_split_top: "bits_msb 64 v = bits_msb 8 (ucast (drop_bit 56 v) :: u8) @ bits_msb 56 v" for v :: u64
  using bits_msb_add [of 8 56 v] by (simp add: bits_msb_ucast8)

lemma bits_msb_shift8: "take n (bits_msb 64 (push_bit 8 v)) = take n (bits_msb 56 v @ replicate 8 False)" for v :: u64
proof -
  have "bits_msb 64 (push_bit 8 v) = bits_msb 56 v @ replicate 8 False"
    by (rule nth_equalityI) (auto simp: nth_append nth_bits_msb bit_simps)
  then show ?thesis by simp
qed

lemma flushFull_ok:
  assumes "wf_writer w"
  shows "wf_writer (flushFull w) \<and> wbits (flushFull w) = wbits w \<and> wr_nbit (flushFull w) = wr_nbit w mod 8"
  using assms
proof (induction w rule: flushFull.induct)
  case (1 w)
  show ?case
  proof (cases "8 \<le> wr_nbit w")
    case True
    let ?w = "w\<lparr>wr_buf := wr_buf w @ [ucast (drop_bit 56 (wr_acc w))], wr_acc := push_bit 8 (wr_acc w), wr_nbit := wr_nbit w - 8\<rparr>"
    have "take_bit (64 - (wr_nbit w - 8)) (push_bit 8 (wr_acc w)) = 0"
    proof (rule bit_word_eqI)
      fix j show "bit (take_bit (64 - (wr_nbit w - 8)) (push_bit 8 (wr_acc w))) j = bit (0::u64) j"
        using bit_below_acc [OF "1.prems", of "j - 8"] True by (auto simp: bit_simps)
    qed
    then have "wf_writer ?w" using "1.prems" by (simp add: wf_writer_def less_imp_diff_less)
    moreover have "wbits ?w = wbits w"
      using True "1.prems" by (simp add: wbits_def bits_msb_split_top [of "wr_acc w"] bits_msb_shift8 wf_writer_def)
    moreover have "(wr_nbit w - 8) mod 8 = wr_nbit w mod 8"
      using True by (metis le_add_diff_inverse2 mod_add_self2)
    ultimately show ?thesis using "1.IH" [OF True] True by (simp add: flushFull.simps [of w])
  next
    case False
    then show ?thesis using "1.prems" by (simp add: flushFull.simps [of w])
  qed
qed

lemma emits_flushFull: "emits flushFull []"
  by (rule emitsI) (simp_all add: flushFull_ok)

definition pad_len :: "nat \<Rightarrow> nat" where
  "pad_len n = (8 - n mod 8) mod 8"

lemma AlignByte_ok:
  assumes "wf_writer w"
  shows "wr_nbit (AlignByte w) = 0 \<and> wf_writer (AlignByte w)
     \<and> wbits (AlignByte w) = wbits w @ replicate (pad_len (length (wbits w))) False"
proof -
  define w1 where "w1 = flushFull w"
  have w1: "wf_writer w1" "wbits w1 = wbits w" "wr_nbit w1 = wr_nbit w mod 8"
    using flushFull_ok [OF assms] by (simp_all add: w1_def)
  have len: "length (wbits w) mod 8 = wr_nbit w1"
    using assms w1(3) by (simp add: wbits_def wf_writer_def)
  show ?thesis
  proof (cases "wr_nbit w1 = 0")
    case True
    then show ?thesis using w1 len by (simp add: AlignByte_def w1_def [symmetric] Let_def pad_len_def)
  next
    case False
    let ?k = "wr_nbit w1"
    have k: "?k < 8" using w1(3) by simp
    have "bits_msb 8 (ucast (drop_bit 56 (wr_acc w1)) :: u8) = take ?k (bits_msb 64 (wr_acc w1)) @ replicate (8 - ?k) False"
    proof (rule nth_equalityI)
      fix i assume "i < length (bits_msb 8 (ucast (drop_bit 56 (wr_acc w1)) :: u8))"
      then show "bits_msb 8 (ucast (drop_bit 56 (wr_acc w1)) :: u8) ! i = (take ?k (bits_msb 64 (wr_acc w1)) @ replicate (8 - ?k) False) ! i"
        using bit_below_acc [OF w1(1), of "63 - i"] k
        by (auto simp: nth_append nth_bits_msb bit_simps)
    qed (use k in simp)
    moreover have "pad_len (length (wbits w)) = 8 - ?k" using len False k by (simp add: pad_len_def)
    ultimately show ?thesis using False w1(2)
      by (simp add: AlignByte_def w1_def [symmetric] Let_def wbits_def wf_writer_def)
  qed
qed

text \<open>On a byte boundary \<open>Bytes\<close> returns exactly the bits written, and leaves them in place.\<close>

lemma Bytes_ok:
  assumes "wf_writer w" "length (wbits w) mod 8 = 0"
  shows "byte_bits (fst (Bytes w)) = wbits w" "wf_writer (snd (Bytes w))" "wbits (snd (Bytes w)) = wbits w"
proof -
  have "wr_nbit w mod 8 = 0"
    using assms by (simp add: wbits_def wf_writer_def min_def split: if_splits)
  then have f: "wf_writer (flushFull w)" "wbits (flushFull w) = wbits w" "wr_nbit (flushFull w) = 0"
    using flushFull_ok [OF assms(1)] by simp_all
  then show "byte_bits (fst (Bytes w)) = wbits w" "wf_writer (snd (Bytes w))" "wbits (snd (Bytes w)) = wbits w"
    by (simp_all add: Bytes_def Let_def wbits_def)
qed

end
