(* ===== verification/Parsing.thy ===== *)
theory Parsing
  imports Bitio_Reader Bitio_Writer
begin

text \<open>
  Decoders as functions of the reader, and what it means for one to parse a bit string.
  A Go function that reads from a \<open>*bitio.Reader\<close> and returns a value or an error is a
  function from readers to an outcome and the reader it leaves behind; the early return
  on \<open>err != nil\<close> is \<open>bindR\<close>. \<open>parses m bs x\<close> says that \<open>m\<close>, run anywhere the next bits are
  \<open>bs\<close>, consumes exactly them and returns \<open>x\<close>; it is the counterpart of \<open>emits\<close> for writers.
  The locale is the interface between the code of one symbol and a loop over symbols.
\<close>

section \<open>Sequencing with early return\<close>

type_synonym ('a, 't) rm = "'t reader \<Rightarrow> (err + 'a) \<times> 't reader"

definition retR :: "'a \<Rightarrow> ('a, 't) rm" where
  "retR x rd = (Inr x, rd)"

definition failR :: "err \<Rightarrow> ('a, 't) rm" where
  "failR e rd = (Inl e, rd)"

definition bindR :: "('a, 't) rm \<Rightarrow> ('a \<Rightarrow> ('b, 't) rm) \<Rightarrow> ('b, 't) rm" where
  "bindR m f rd = (case m rd of (Inl e, rd') \<Rightarrow> (Inl e, rd') | (Inr x, rd') \<Rightarrow> f x rd')"

fun readN :: "nat \<Rightarrow> ('a, 't) rm \<Rightarrow> ('a list, 't) rm" where
  "readN 0 m = retR []"
| "readN (Suc n) m = bindR m (\<lambda>x. bindR (readN n m) (\<lambda>xs. retR (x # xs)))"

definition mapErrR :: "(err \<Rightarrow> err) \<Rightarrow> ('a, 't) rm \<Rightarrow> ('a, 't) rm" where
  "mapErrR g m rd = (case m rd of (Inl e, rd') \<Rightarrow> (Inl (g e), rd') | (Inr x, rd') \<Rightarrow> (Inr x, rd'))"

definition skipR :: "('t reader \<Rightarrow> 't reader) \<Rightarrow> (unit, 't) rm" where
  "skipR f rd = (Inr (), f rd)"

definition getsR :: "('t reader \<Rightarrow> 'a) \<Rightarrow> ('a, 't) rm" where
  "getsR f rd = (Inr (f rd), rd)"

section \<open>Parsing a bit string\<close>

definition at_bits :: "bool list \<Rightarrow> 't reader \<Rightarrow> bool" where
  "at_bits bs rd \<longleftrightarrow> wf_reader rd \<and> take (length bs) (rbits rd) = bs"

definition parses :: "('a, 't) rm \<Rightarrow> bool list \<Rightarrow> 'a \<Rightarrow> bool" where
  "parses m bs x \<longleftrightarrow> (\<forall>rd. at_bits bs rd \<longrightarrow> (\<exists>rd'. m rd = (Inr x, rd') \<and> advance (length bs) rd rd'))"

definition rejects :: "('a, 't) rm \<Rightarrow> bool list \<Rightarrow> err \<Rightarrow> bool" where
  "rejects m bs e \<longleftrightarrow> (\<forall>rd. at_bits bs rd \<longrightarrow> (\<exists>rd' k. m rd = (Inl e, rd') \<and> advance k rd rd'))"

lemma at_bits_wf: "at_bits bs rd \<Longrightarrow> wf_reader rd"
  by (simp add: at_bits_def)

lemma at_bits_len: "at_bits bs rd \<Longrightarrow> length bs \<le> length (rbits rd)"
  unfolding at_bits_def by (metis length_take min.bounded_iff order.refl)

lemma at_bits_appD: "at_bits (bs @ cs) rd \<Longrightarrow> at_bits bs rd"
  unfolding at_bits_def by (metis append_eq_conv_conj length_append min.absorb1 le_add1 take_take)

lemma at_bits_advance: "at_bits (bs @ cs) rd \<Longrightarrow> advance (length bs) rd rd' \<Longrightarrow> at_bits cs rd'"
  unfolding at_bits_def using advanceD(1,8) [of "length bs" rd rd']
  by (metis append_eq_conv_conj diff_add_inverse drop_take length_append)

lemma at_bits_split: "rbits rd = bs @ cs \<Longrightarrow> wf_reader rd \<Longrightarrow> at_bits bs rd"
  by (simp add: at_bits_def)

lemma parsesI:
  "(\<And>rd. at_bits bs rd \<Longrightarrow> \<exists>rd'. m rd = (Inr x, rd') \<and> advance (length bs) rd rd') \<Longrightarrow> parses m bs x"
  by (simp add: parses_def)

lemma parsesE:
  assumes "parses m bs x" "at_bits bs rd"
  obtains rd' where "m rd = (Inr x, rd')" "advance (length bs) rd rd'"
  using assms by (auto simp: parses_def)

lemma parses_ret: "parses (retR x) [] x"
  by (auto simp: parses_def retR_def at_bits_def intro: advance_refl)

lemma parses_gets: "(\<And>rd. at_bits [] rd \<Longrightarrow> f rd = x) \<Longrightarrow> parses (getsR f) [] x"
  by (auto simp: parses_def getsR_def at_bits_def intro: advance_refl)

lemma parses_bind:
  fixes m :: "('a, 't) rm"
  assumes "parses m bs x" "parses (f x) cs y"
  shows "parses (bindR m f) (bs @ cs) y"
proof (rule parsesI)
  fix rd :: "'t reader" assume a: "at_bits (bs @ cs) rd"
  obtain rd1 where 1: "m rd = (Inr x, rd1)" "advance (length bs) rd rd1"
    using parsesE [OF assms(1) at_bits_appD [OF a]] .
  obtain rd2 where 2: "f x rd1 = (Inr y, rd2)" "advance (length cs) rd1 rd2"
    using parsesE [OF assms(2) at_bits_advance [OF a 1(2)]] .
  show "\<exists>rd'. bindR m f rd = (Inr y, rd') \<and> advance (length (bs @ cs)) rd rd'"
    using 1 2 advance_trans [OF at_bits_wf [OF a] 1(2) 2(2)] by (simp add: bindR_def)
qed

lemma parses_bind_ret: "parses m bs x \<Longrightarrow> parses (f x) [] y \<Longrightarrow> parses (bindR m f) bs y"
  using parses_bind [of m bs x f "[]" y] by simp

lemma parses_bind_eq:
  "parses m bs x \<Longrightarrow> parses (f x) cs y \<Longrightarrow> ds = bs @ cs \<Longrightarrow> parses (bindR m f) ds y"
  using parses_bind by simp

lemma parses_mapErr: "parses m bs x \<Longrightarrow> parses (mapErrR g m) bs x"
  by (fastforce simp: parses_def mapErrR_def)

lemma rejects_bind:
  fixes m :: "('a, 't) rm"
  assumes "parses m bs x" "rejects (f x) cs e"
  shows "rejects (bindR m f) (bs @ cs) e"
  unfolding rejects_def
proof (intro allI impI)
  fix rd :: "'t reader" assume a: "at_bits (bs @ cs) rd"
  obtain rd1 where 1: "m rd = (Inr x, rd1)" "advance (length bs) rd rd1"
    using parsesE [OF assms(1) at_bits_appD [OF a]] .
  obtain rd2 k where 2: "f x rd1 = (Inl e, rd2)" "advance k rd1 rd2"
    using assms(2) at_bits_advance [OF a 1(2)] by (auto simp: rejects_def)
  show "\<exists>rd' k. bindR m f rd = (Inl e, rd') \<and> advance k rd rd'"
    using 1 2 advance_trans [OF at_bits_wf [OF a] 1(2) 2(2)] by (auto simp: bindR_def)
qed

lemma rejects_first: "rejects m bs e \<Longrightarrow> rejects (bindR m f) bs e"
  by (fastforce simp: rejects_def bindR_def)

lemma rejects_fail: "rejects (failR e) [] e"
  by (auto simp: rejects_def failR_def at_bits_def intro: advance_refl)

lemma rejects_app: "rejects m bs e \<Longrightarrow> rejects m (bs @ cs) e"
  using at_bits_appD by (fastforce simp: rejects_def)

lemma rejects_mapErr: "rejects m bs e \<Longrightarrow> rejects (mapErrR g m) bs (g e)"
  by (fastforce simp: rejects_def mapErrR_def)

subsection \<open>The reader's operations\<close>

lemma parses_ReadBits: "length bs \<le> 57 \<Longrightarrow> parses (ReadBits (length bs)) bs (bits_val bs)"
proof (rule parsesI)
  fix rd assume l: "length bs \<le> 57" and a: "at_bits bs rd"
  obtain rd' where "ReadBits (length bs) rd = (Inr (bits_val (take (length bs) (rbits rd))), rd')" "advance (length bs) rd rd'"
    using ReadBits_ok [OF at_bits_wf [OF a] l at_bits_len [OF a]] .
  then show "\<exists>rd'. ReadBits (length bs) rd = (Inr (bits_val bs), rd') \<and> advance (length bs) rd rd'"
    using a by (simp add: at_bits_def)
qed

lemma parses_ReadBits_val: "n \<le> 57 \<Longrightarrow> parses (ReadBits n) (bits_msb n v) (take_bit n v)" for v :: u64
  using parses_ReadBits [of "bits_msb n v"] by (simp add: bits_val_bits_msb)

lemma take_bit_of_nat_u64: "v < 2 ^ n \<Longrightarrow> take_bit n (of_nat v :: u64) = of_nat v"
  by (simp add: take_bit_of_nat take_bit_nat_eq_self)

lemma parses_code: "v < 2 ^ n \<Longrightarrow> n \<le> 57 \<Longrightarrow> parses (ReadBits n) (bits_msb n (of_nat v :: u64)) (of_nat v)"
  using parses_ReadBits_val [of n "of_nat v"] by (simp add: take_bit_of_nat_u64)

lemma unat_of_nat_u64: "v < 65536 \<Longrightarrow> unat (of_nat v :: u64) = v"
  by (simp add: unat_of_nat take_bit_nat_eq_self)

lemma signed_val_bits: "fits n (sint v) \<Longrightarrow> n \<le> 64 \<Longrightarrow> signed_val (bits_msb n v) = v" for v :: i64
proof -
  assume a: "fits n (sint v)" "n \<le> 64"
  have "sint (signed_val (bits_msb n v)) = signed_take_bit (n - 1) (sint v)"
  proof (rule bit_eqI)
    fix i
    have n: "0 < n" using a by (simp add: fits_def)
    show "bit (sint (signed_val (bits_msb n v))) i = bit (signed_take_bit (n - 1) (sint v)) i"
    proof -
      consider "i < n - 1" | "i = n - 1" | "n \<le> i" by linarith
      then show ?thesis
        using n a(2) unfolding signed_val_def bit_sint_iff bit_signed_drop_bit_iff bit_push_bit_iff bit_signed_take_bit_iff
        by cases (auto simp: bits_val_bits_msb bit_take_bit_iff bit_sint_iff min_def dest: bit_imp_le_length)
    qed
  qed
  also have "\<dots> = sint v" using a(1) by (simp add: fits_def signed_take_bit_int_eq_self)
  finally show ?thesis by (rule signed_word_eqI)
qed

lemma parses_ReadSigned:
  fixes v :: i64
  assumes "n \<le> 57" "n = 0 \<and> v = 0 \<or> fits n (sint v)"
  shows "parses (ReadSigned n) (bits_msb n v) v"
proof (rule parsesI)
  fix rd assume a: "at_bits (bits_msb n v) rd"
  have l: "n \<le> length (rbits rd)" using at_bits_len [OF a] by simp
  obtain rd' where r: "ReadSigned n rd = (Inr (signed_val (take n (rbits rd))), rd')" "advance n rd rd'"
    using ReadSigned_ok [OF at_bits_wf [OF a] assms(1) l] .
  have "signed_val (take n (rbits rd)) = v"
    using a assms signed_val_bits [of n v]
    by (auto simp: at_bits_def signed_val_def signed_drop_bit_0)
  then show "\<exists>rd'. ReadSigned n rd = (Inr v, rd') \<and> advance (length (bits_msb n v)) rd rd'"
    using r by simp
qed

lemma parses_ReadUnary: "parses ReadUnary (replicate k False @ [True]) (of_nat k)"
proof (rule parsesI)
  fix rd assume a: "at_bits (replicate k False @ [True]) rd"
  obtain rd' where "ReadUnary rd = (Inr (of_nat k), rd')" "advance (k + 1) rd rd'"
    using ReadUnary_ok [OF at_bits_wf [OF a], of k] a by (auto simp: at_bits_def)
  then show "\<exists>rd'. ReadUnary rd = (Inr (of_nat k), rd') \<and> advance (length (replicate k False @ [True])) rd rd'"
    by simp
qed

section \<open>Whatever the input\<close>

text \<open>
  \<open>runs m P\<close>: on any input \<open>m\<close> only moves forward in it, keeping the reader well formed, and
  a value it returns satisfies \<open>P\<close>. It is what holds of a parser on hostile data.
\<close>

definition runs :: "('a, 't) rm \<Rightarrow> ('a \<Rightarrow> bool) \<Rightarrow> bool" where
  "runs m P \<longleftrightarrow> (\<forall>rd. wf_reader rd \<longrightarrow> (\<exists>k. advance k rd (snd (m rd))) \<and> (\<forall>x. fst (m rd) = Inr x \<longrightarrow> P x))"

lemma runsI:
  "(\<And>rd. wf_reader rd \<Longrightarrow> \<exists>k. advance k rd (snd (m rd))) \<Longrightarrow>
   (\<And>rd x. wf_reader rd \<Longrightarrow> fst (m rd) = Inr x \<Longrightarrow> P x) \<Longrightarrow> runs m P"
  by (simp add: runs_def)

lemma runsD:
  assumes "runs m P" "wf_reader rd" "m rd = (r, rd')"
  shows "\<exists>k. advance k rd rd'" "r = Inr x \<Longrightarrow> P x"
  using assms unfolding runs_def by (metis snd_conv, metis fst_conv)

lemma runs_weaken: "runs m P \<Longrightarrow> (\<And>x. P x \<Longrightarrow> Q x) \<Longrightarrow> runs m Q"
  by (auto simp: runs_def)

lemma runs_ret [intro!]: "P x \<Longrightarrow> runs (retR x) P"
  using advance_refl by (auto simp: runs_def retR_def)

lemma runs_fail [intro!]: "runs (failR e) P"
  using advance_refl by (auto simp: runs_def failR_def)

lemma runs_gets: "(\<And>rd. wf_reader rd \<Longrightarrow> P (f rd)) \<Longrightarrow> runs (getsR f) P"
  using advance_refl by (auto simp: runs_def getsR_def)

lemma runs_bind:
  fixes m :: "('a, 't) rm"
  assumes "runs m P" "\<And>x. P x \<Longrightarrow> runs (f x) Q"
  shows "runs (bindR m f) Q"
  unfolding runs_def
proof (intro allI impI)
  fix rd :: "'t reader" assume wf: "wf_reader rd"
  obtain r rd1 where m: "m rd = (r, rd1)" by fastforce
  obtain k where k: "advance k rd rd1" using runsD(1) [OF assms(1) wf m] by blast
  show "(\<exists>k. advance k rd (snd (bindR m f rd))) \<and> (\<forall>x. fst (bindR m f rd) = Inr x \<longrightarrow> Q x)"
  proof (cases r)
    case (Inl e)
    then show ?thesis using k m by (auto simp: bindR_def)
  next
    case (Inr x)
    obtain r2 rd2 where f: "f x rd1 = (r2, rd2)" by fastforce
    have q: "runs (f x) Q" using assms(2) runsD(2) [OF assms(1) wf m Inr] by blast
    note r = runsD [OF q advanceD(1) [OF k] f]
    then show ?thesis using Inr m f advance_trans [OF wf k] by (auto simp: bindR_def)
  qed
qed

lemma runs_mapErr:
  fixes m :: "('a, 't) rm"
  assumes "runs m P"
  shows "runs (mapErrR g m) P"
proof (rule runsI)
  fix rd :: "'t reader" and x assume wf: "wf_reader rd"
  obtain r rd1 where m: "m rd = (r, rd1)" by fastforce
  note d = runsD [OF assms wf m]
  show "\<exists>k. advance k rd (snd (mapErrR g m rd))" using d(1) m by (cases r) (auto simp: mapErrR_def)
  show "P x" if "fst (mapErrR g m rd) = Inr x" using that d(2) m by (cases r) (auto simp: mapErrR_def)
qed

lemma runs_if: "(b \<Longrightarrow> runs m P) \<Longrightarrow> (\<not> b \<Longrightarrow> runs m' P) \<Longrightarrow> runs (if b then m else m') P"
  by simp

lemma runs_readN: "runs m P \<Longrightarrow> runs (readN n m) (\<lambda>xs. length xs = n \<and> (\<forall>x \<in> set xs. P x))"
  by (induction n) (auto intro!: runs_bind)

lemma runs_ReadBits:
  assumes "n \<le> 57"
  shows "runs (ReadBits n) (\<lambda>v. unat v < 2 ^ n)"
proof (rule runsI)
  fix rd :: "'t reader" assume wf: "wf_reader rd"
  have r: "reads_bits n rd (ReadBits n rd)" by (rule ReadBits_reads(1) [OF wf servable_small [OF assms]])
  then show "\<exists>k. advance k rd (snd (ReadBits n rd))" by (auto simp: reads_bits_def split: if_splits)
  show "unat v < 2 ^ n" if "fst (ReadBits n rd) = Inr v" for v
  proof -
    have "v = bits_val (take n (rbits rd))" "n \<le> length (rbits rd)"
      using r that by (auto simp: reads_bits_def split: if_splits)
    moreover have "unat (bits_val bs :: u64) < 2 ^ length bs" if "length bs \<le> 57" for bs
    proof -
      have "unat (of_nat m :: u64) \<le> m" for m by (simp add: unat_of_nat take_bit_nat_less_eq_self)
      from this [of "bits_val bs"] show ?thesis using bits_val_less [of bs] by simp
    qed
    ultimately show ?thesis using assms by (metis length_take min.absorb2)
  qed
qed

lemma runs_ReadUnary: "runs ReadUnary (\<lambda>_. True)"
proof (rule runsI)
  fix rd :: "'t reader" assume "wf_reader rd"
  then have "reads_unary 0 rd (ReadUnary rd)" unfolding ReadUnary_def by (rule unaryLoop_ok)
  then show "\<exists>k. advance k rd (snd (ReadUnary rd))" by (auto simp: reads_unary_def Let_def split: if_splits)
qed simp

lemma div_bounds: "- (a * d) \<le> x \<Longrightarrow> x < a * d \<Longrightarrow> 0 < d \<Longrightarrow> - a \<le> x div d \<and> x div d < a" for a d x :: int
proof -
  assume a: "- (a * d) \<le> x" "x < a * d" "0 < d"
  have "(- a * d) div d \<le> x div d" using a by (intro zdiv_mono1) simp_all
  moreover have "x div d < a"
  proof (rule ccontr)
    assume "\<not> x div d < a"
    then have "a * d \<le> x div d * d" using a(3) by (intro mult_right_mono) simp_all
    moreover have "x div d * d \<le> x" using a(3) pos_mod_sign [of d x] div_mult_mod_eq [of x d] by linarith
    ultimately show False using a(2) by linarith
  qed
  moreover have "- (a * d) div d = - a" using a(3) by (metis less_int_code(1) minus_mult_left nonzero_mult_div_cancel_right)
  ultimately show ?thesis by simp
qed

lemma fits_sign_extend:
  assumes "0 < n" "n \<le> 64"
  shows "fits n (sint (signed_drop_bit (64 - n) (push_bit (64 - n) u) :: i64))"
proof -
  let ?x = "sint (push_bit (64 - n) u)"
  have "(2::int) ^ 63 = 2 ^ (n - 1) * 2 ^ (64 - n)"
    using assms by (simp flip: power_add)
  moreover have "- (2 ^ 63) \<le> ?x" "?x < 2 ^ 63"
    using sint_fits [of "push_bit (64 - n) u"] by (simp_all add: fits_def)
  ultimately have "- (2 ^ (n - 1)) \<le> ?x div 2 ^ (64 - n) \<and> ?x div 2 ^ (64 - n) < 2 ^ (n - 1)"
    by (intro div_bounds) simp_all
  then show ?thesis using assms by (simp add: fits_def sint_signed_drop_bit)
qed

lemma ReadSigned_bind:
  "0 < n \<Longrightarrow> ReadSigned n = bindR (ReadBits n) (\<lambda>u. retR (signed_drop_bit (64 - n) (push_bit (64 - n) u)))"
  by (auto simp: fun_eq_iff ReadSigned_def bindR_def retR_def split: prod.split sum.split)

lemma runs_ReadSigned: "0 < n \<Longrightarrow> n \<le> 57 \<Longrightarrow> runs (ReadSigned n) (\<lambda>v. fits n (sint v))"
  by (auto simp: ReadSigned_bind intro!: runs_bind [OF runs_ReadBits] fits_sign_extend)

section \<open>The code of one symbol and a loop over symbols\<close>

locale symbol_codec =
  fixes valid :: "'x \<Rightarrow> bool" and enc :: "'x \<Rightarrow> bool list" and dec :: "('x, 't) rm"
    and put :: "'x \<Rightarrow> writer \<Rightarrow> writer"
  assumes dec_enc: "valid x \<Longrightarrow> parses dec (enc x) x"
    and put_enc: "valid x \<Longrightarrow> emits (put x) (enc x)"
begin

lemma dec_list: "\<forall>x \<in> set xs. valid x \<Longrightarrow> parses (readN (length xs) dec) (concat (map enc xs)) xs"
proof (induction xs)
  case Nil
  then show ?case by (simp add: parses_ret)
next
  case (Cons x xs)
  have "parses (bindR (readN (length xs) dec) (\<lambda>xs. retR (x # xs))) (concat (map enc xs)) (x # xs)"
    using Cons by (intro parses_bind_ret [where x = xs] parses_ret) simp
  then show ?case using Cons.prems by (auto intro: parses_bind dec_enc)
qed

lemma put_list: "\<forall>x \<in> set xs. valid x \<Longrightarrow> emits (fold put xs) (concat (map enc xs))"
  by (rule emits_fold) (simp add: put_enc)

end

interpretation signed_codec: symbol_codec
  "\<lambda>v. n = 0 \<and> v = 0 \<or> n \<le> 57 \<and> fits n (sint v)" "bits_msb n" "ReadSigned n" "\<lambda>v. WriteSignedBits v n" for n
  by unfold_locales (auto intro: parses_ReadSigned emits_WriteSignedBits)

interpretation byte_codec: symbol_codec
  "\<lambda>v. v = take_bit 8 v" "bits_msb 8" "ReadBits 8" "\<lambda>v. WriteBits v 8"
proof
  fix v :: u64 assume "v = take_bit 8 v"
  then show "parses (ReadBits 8) (bits_msb 8 v) v" using parses_ReadBits_val [of 8 v] by simp
  show "emits (WriteBits v 8) (bits_msb 8 v)" by (rule emits_WriteBits) simp
qed

end
