(* ===== verification/Predictor.thy ===== *)
theory Predictor
  imports Prelude
begin

text \<open>
  What the fixed and LPC predictors share. A predictor computes a value for position \<open>n\<close>
  of a signal from the samples before \<open>n\<close>; the encoder stores the differences from it
  and the decoder adds them back, in place. The locale states the one law both rely on,
  that the prediction at \<open>n\<close> reads nothing at or after \<open>n\<close>, and proves once that encoding and
  restoring are inverses and that the restored signal is the only one satisfying the
  decoder's recurrence. The second half reads an unrolled kernel, which carries the last
  outputs in registers, as the same recurrence over a window of the history.
\<close>

section \<open>In-place restoration and residuals\<close>

definition restore_loop :: "('a list \<Rightarrow> nat \<Rightarrow> 'a) \<Rightarrow> nat \<Rightarrow> 'a::ab_group_add list \<Rightarrow> 'a list" where
  "restore_loop pred order dst = foldl (\<lambda>d n. d[n := d ! n + pred d n]) dst [order..<length dst]"

definition residuals :: "('a list \<Rightarrow> nat \<Rightarrow> 'a) \<Rightarrow> nat \<Rightarrow> 'a::ab_group_add list \<Rightarrow> 'a list" where
  "residuals pred order src = map (\<lambda>n. src ! n - pred src n) [order..<length src]"

text \<open>\<open>ys\<close> is a solution of the decoder's recurrence for the stored values \<open>xs\<close>.\<close>

definition restores :: "('a list \<Rightarrow> nat \<Rightarrow> 'a) \<Rightarrow> nat \<Rightarrow> 'a::ab_group_add list \<Rightarrow> 'a list \<Rightarrow> bool" where
  "restores pred order xs ys \<longleftrightarrow> length ys = length xs
     \<and> (\<forall>n < length xs. ys ! n = (if n < order then xs ! n else xs ! n + pred ys n))"

lemma length_residuals [simp]: "length (residuals pred order src) = length src - order"
  by (simp add: residuals_def)

lemma length_restore_loop [simp]: "length (restore_loop pred order dst) = length dst"
proof -
  have "length (foldl (\<lambda>d n. d[n := d ! n + pred d n]) xs ns) = length xs" for xs ns
    by (induction ns arbitrary: xs) simp_all
  then show ?thesis by (simp add: restore_loop_def)
qed

locale predictor =
  fixes pred :: "'a::ab_group_add list \<Rightarrow> nat \<Rightarrow> 'a" and order :: nat
  assumes causal: "order \<le> n \<Longrightarrow> n < length xs \<Longrightarrow> n < length ys \<Longrightarrow> take n xs = take n ys \<Longrightarrow> pred xs n = pred ys n"
begin

lemma restores_unique:
  assumes "restores pred order xs ys" "restores pred order xs zs"
  shows "ys = zs"
proof -
  have len: "length ys = length xs" "length zs = length xs" using assms by (simp_all add: restores_def)
  have "take n ys = take n zs" if "n \<le> length xs" for n
    using that
  proof (induction n)
    case (Suc n)
    then have n: "n < length xs" "take n ys = take n zs" by simp_all
    have "ys ! n = zs ! n"
    proof (cases "n < order")
      case True
      then show ?thesis using assms n by (simp add: restores_def)
    next
      case False
      then have "pred ys n = pred zs n" using causal [of n ys zs] n len by simp
      then show ?thesis using assms n False by (simp add: restores_def)
    qed
    then show ?case using n len by (simp add: take_Suc_conv_app_nth)
  qed simp
  from this [of "length xs"] show ?thesis using len by simp
qed

lemma restores_loop: "restores pred order xs (restore_loop pred order xs)"
proof -
  define part where "part k = foldl (\<lambda>d n. d[n := d ! n + pred d n]) xs [order..<k]" for k
  have len: "length (part k) = length xs" for k
  proof -
    have "length (foldl (\<lambda>d n. d[n := d ! n + pred d n]) ys ns) = length ys" for ys :: "'a list" and ns
      by (induction ns arbitrary: ys) simp_all
    then show ?thesis by (simp add: part_def)
  qed
  have "\<forall>n < length xs. part k ! n = (if n < order \<or> k \<le> n then xs ! n else xs ! n + pred (part k) n)"
    if "k \<le> length xs" for k
    using that
  proof (induction k)
    case 0
    then show ?case by (simp add: part_def)
  next
    case (Suc k)
    show ?case
    proof (cases "order \<le> k")
      case False
      then show ?thesis by (auto simp: part_def)
    next
      case True
      then have step: "part (Suc k) = (part k)[k := part k ! k + pred (part k) k]" by (simp add: part_def)
      have same: "pred (part (Suc k)) n = pred (part k) n" if "order \<le> n" "n \<le> k" for n
        using that Suc.prems len by (intro causal) (auto simp: step)
      show ?thesis
      proof (intro allI impI)
        fix n assume n: "n < length xs"
        show "part (Suc k) ! n = (if n < order \<or> Suc k \<le> n then xs ! n else xs ! n + pred (part (Suc k)) n)"
        proof (cases "n = k")
          case eq: True
          then have "part (Suc k) ! n = part k ! k + pred (part k) k" using n len by (simp add: step)
          moreover have "part k ! k = xs ! k" using Suc n eq by simp
          ultimately show ?thesis using eq True same [of k] by simp
        next
          case False
          then have "part (Suc k) ! n = part k ! n" by (simp add: step)
          also have "\<dots> = (if n < order \<or> k \<le> n then xs ! n else xs ! n + pred (part k) n)" using Suc n by simp
          finally show ?thesis using False same [of n] by auto
        qed
      qed
    qed
  qed
  from this [of "length xs"] show ?thesis
    unfolding restores_def restore_loop_def part_def [symmetric] by (simp add: len)
qed

lemma restore_loop_eq: "restores pred order xs ys \<Longrightarrow> restore_loop pred order xs = ys"
  using restores_unique restores_loop by blast

lemma restores_residuals: "restores pred order (take order src @ residuals pred order src) src"
  by (auto simp: restores_def residuals_def nth_append min_def)

lemma restore_residuals: "restore_loop pred order (take order src @ residuals pred order src) = src"
  by (rule restore_loop_eq [OF restores_residuals])

lemma residuals_restore: "residuals pred order (restore_loop pred order xs) = drop order xs"
proof (rule nth_equalityI)
  fix i assume "i < length (residuals pred order (restore_loop pred order xs))"
  then have i: "order + i < length xs" by simp
  then show "residuals pred order (restore_loop pred order xs) ! i = drop order xs ! i"
    using restores_loop [of xs] nth_upt [of order i "length xs"] by (simp add: restores_def residuals_def)
qed simp

lemma take_restore: "take order (restore_loop pred order xs) = take order xs"
  using restores_loop [of xs] by (intro nth_equalityI) (simp_all add: restores_def)

end

section \<open>Windows of the history\<close>

text \<open>
  A predictor that reads a window of earlier samples, most recent first: \<open>dot cs h\<close> is the
  sum of products of coefficients and history.
\<close>

fun win_loop :: "('a list \<Rightarrow> 'a) \<Rightarrow> 'a list \<Rightarrow> 'a::ab_group_add list \<Rightarrow> 'a list" where
  "win_loop f h [] = []"
| "win_loop f h (r # rs) = (let v = r + f h in v # win_loop f (v # h) rs)"

lemma length_win_loop [simp]: "length (win_loop f h rs) = length rs"
  by (induction f h rs rule: win_loop.induct) (simp_all add: Let_def)

lemma predictor_win: "predictor (\<lambda>xs n. f (rev (take n xs))) order"
  by unfold_locales simp

lemma win_loop_nth:
  "i < length rs \<Longrightarrow> win_loop f h rs ! i = rs ! i + f (rev (take i (win_loop f h rs)) @ h)"
proof (induction f h rs arbitrary: i rule: win_loop.induct)
  case (2 f h r rs)
  then show ?case by (cases i) (simp_all add: Let_def)
qed simp

lemma restore_win_loop:
  assumes "order \<le> length xs" and pred: "\<And>ys n. order \<le> n \<Longrightarrow> n < length ys \<Longrightarrow> pred ys n = f (rev (take n ys))"
  shows "restore_loop pred order xs = take order xs @ win_loop f (rev (take order xs)) (drop order xs)"
proof -
  have P: "predictor pred order" by unfold_locales (simp add: pred)
  let ?ys = "take order xs @ win_loop f (rev (take order xs)) (drop order xs)"
  have "?ys ! n = xs ! n + pred ?ys n" if "order \<le> n" "n < length xs" for n
    using that assms(1) win_loop_nth [of "n - order" "drop order xs" f "rev (take order xs)"]
    by (simp add: nth_append pred min_def)
  then have "restores pred order xs ?ys"
    using assms(1) by (auto simp: restores_def nth_append)
  then show ?thesis by (rule predictor.restore_loop_eq [OF P])
qed

definition dot :: "'a::comm_ring_1 list \<Rightarrow> 'a list \<Rightarrow> 'a" where
  "dot cs h = sum_list (map2 (*) cs h)"

lemma dot_Nil [simp]: "dot [] h = 0" "dot cs [] = 0"
  by (simp_all add: dot_def)

lemma dot_Cons [simp]: "dot (c # cs) (x # h) = c * x + dot cs h"
  by (simp add: dot_def)

lemma dot_take: "length cs \<le> k \<Longrightarrow> dot cs (take k h) = dot cs h"
proof (induction cs arbitrary: k h)
  case (Cons c cs)
  then show ?case by (cases k; cases h) simp_all
qed simp

text \<open>Reading the stored value from the untouched source instead of the destination.\<close>

lemma restore_loop_src:
  "foldl (\<lambda>out i. out[i := xs ! i + pred out i]) xs [order..<length xs] = restore_loop pred order xs"
proof -
  have "foldl (\<lambda>out i. out[i := xs ! i + pred out i]) xs [order..<k] = foldl (\<lambda>d n. d[n := d ! n + pred d n]) xs [order..<k]
      \<and> (\<forall>i. k \<le> i \<longrightarrow> foldl (\<lambda>d n. d[n := d ! n + pred d n]) xs [order..<k] ! i = xs ! i)" for k
    by (induction k) auto
  then show ?thesis by (simp add: restore_loop_def)
qed

section \<open>The fixed predictors\<close>

text \<open>The binomial predictions of order 0 to 4, over any ring.\<close>

definition fixed_pred :: "nat \<Rightarrow> 'a::comm_ring_1 list \<Rightarrow> nat \<Rightarrow> 'a" where
  "fixed_pred order d n =
     (if order = 1 then d ! (n - 1)
      else if order = 2 then 2 * d ! (n - 1) - d ! (n - 2)
      else if order = 3 then 3 * d ! (n - 1) - 3 * d ! (n - 2) + d ! (n - 3)
      else if order = 4 then 4 * d ! (n - 1) - 6 * d ! (n - 2) + 4 * d ! (n - 3) - d ! (n - 4)
      else 0)"

lemma nth_eq_of_take: "take n xs = take n ys \<Longrightarrow> i < n \<Longrightarrow> xs ! i = ys ! i"
  by (metis nth_take)

interpretation fixed_predictor: predictor "fixed_pred order" order for order
proof
  fix n and xs ys :: "'a list"
  assume "order \<le> n" "n < length xs" "n < length ys" and t: "take n xs = take n ys"
  have e: "xs ! (n - k) = ys ! (n - k)" if "0 < k" "k \<le> order" for k
    by (rule nth_eq_of_take [OF t]) (use that \<open>order \<le> n\<close> in simp)
  show "fixed_pred order xs n = fixed_pred order ys n"
    using e [of 1] e [of 2] e [of 3] e [of 4] by (simp add: fixed_pred_def)
qed

section \<open>Narrowing is a ring homomorphism\<close>

lemma ucast_add_down: "LENGTH('b) \<le> LENGTH('a) \<Longrightarrow> (ucast (x + y :: 'a::len word) :: 'b::len word) = ucast x + ucast y"
  by transfer (metis min.absorb1 take_bit_add take_bit_take_bit)

lemma ucast_mult_down: "LENGTH('b) \<le> LENGTH('a) \<Longrightarrow> (ucast (x * y :: 'a::len word) :: 'b::len word) = ucast x * ucast y"
  by transfer (metis min.absorb1 take_bit_mult take_bit_take_bit)

lemma ucast_minus_down: "LENGTH('b) \<le> LENGTH('a) \<Longrightarrow> (ucast (x - y :: 'a::len word) :: 'b::len word) = ucast x - ucast y"
  by transfer (metis min.absorb1 take_bit_diff take_bit_take_bit)

lemma ucast_scast_down: "LENGTH('b) \<le> LENGTH('a) \<Longrightarrow> (ucast (scast (x::'b::len word) :: 'a::len word) :: 'b word) = x"
  by (rule bit_word_eqI) (auto simp: bit_simps)

lemmas ucast_down = ucast_add_down ucast_mult_down ucast_minus_down ucast_scast_down

end
