(* ===== verification/I32.thy ===== *)
theory I32
  imports Predictor
begin

text \<open>
  The integer kernels of \<^verbatim>\<open>src/internal/i32\<close>, in the pure-Go build (\<^verbatim>\<open>i32_other.go\<close>): stereo
  arithmetic, fixed-predictor differences and their restoration by cumulative sums, the
  quantized-LPC residual and restore kernels with their order-specialised and 32-bit
  variants, the Rice cost sums, and the min/max scan. A slice a kernel writes is an
  argument and the result, so that what it leaves untouched is visible. The lemmas show
  that the decoders invert the encoders, that every specialised restore kernel equals
  the generic loop, and that 32-bit accumulation equals 64-bit accumulation for every
  subframe the decoder can accept.
\<close>

section \<open>Interleaving and stereo arithmetic\<close>

definition interleave2Go :: "i32 list \<Rightarrow> i32 list \<Rightarrow> i32 list \<Rightarrow> i32 list" where
  "interleave2Go dst a b =
     foldl (\<lambda>d i. (d[i * 2 := a ! i])[i * 2 + 1 := b ! i]) dst [0..<length a]"

definition deinterleave2Go :: "i32 list \<Rightarrow> i32 list \<times> i32 list" where
  "deinterleave2Go src =
     (map (\<lambda>i. src ! (i * 2)) [0..<length src div 2], map (\<lambda>i. src ! (i * 2 + 1)) [0..<length src div 2])"

definition Interleave2 :: "i32 list \<Rightarrow> i32 list \<Rightarrow> i32 list \<Rightarrow> i32 list" where
  "Interleave2 dst a b =
     (let n = min (length dst div 2) (min (length a) (length b))
      in if n = 0 then dst
         else interleave2Go (take (n * 2) dst) (take n a) (take n b) @ drop (n * 2) dst)"

definition Deinterleave2 :: "i32 list \<Rightarrow> i32 list \<Rightarrow> i32 list \<Rightarrow> i32 list \<times> i32 list" where
  "Deinterleave2 a b src =
     (let n = min (length src div 2) (min (length a) (length b))
      in if n = 0 then (a, b)
         else case deinterleave2Go (take (n * 2) src) of (x, y) \<Rightarrow> (x @ drop n a, y @ drop n b))"

definition addGo :: "i32 list \<Rightarrow> i32 list \<Rightarrow> i32 list \<Rightarrow> i32 list" where
  "addGo dst a b = map (\<lambda>i. a ! i + b ! i) [0..<length dst]"

definition subGo :: "i32 list \<Rightarrow> i32 list \<Rightarrow> i32 list \<Rightarrow> i32 list" where
  "subGo dst a b = map (\<lambda>i. a ! i - b ! i) [0..<length dst]"

definition Add :: "i32 list \<Rightarrow> i32 list \<Rightarrow> i32 list \<Rightarrow> i32 list" where
  "Add dst a b =
     (let n = min (length dst) (min (length a) (length b))
      in if n = 0 then dst else addGo (take n dst) (take n a) (take n b) @ drop n dst)"

definition Sub :: "i32 list \<Rightarrow> i32 list \<Rightarrow> i32 list \<Rightarrow> i32 list" where
  "Sub dst a b =
     (let n = min (length dst) (min (length a) (length b))
      in if n = 0 then dst else subGo (take n dst) (take n a) (take n b) @ drop n dst)"

definition midSideEncodeGo :: "i32 list \<Rightarrow> i32 list \<Rightarrow> i32 list \<Rightarrow> i32 list \<times> i32 list" where
  "midSideEncodeGo mid left right =
     (map (\<lambda>i. signed_drop_bit 1 (left ! i + right ! i)) [0..<length mid],
      map (\<lambda>i. left ! i - right ! i) [0..<length mid])"

definition midSideDecodeGo :: "i32 list \<Rightarrow> i32 list \<Rightarrow> i32 list \<Rightarrow> i32 list \<times> i32 list" where
  "midSideDecodeGo left mid side =
     (let sum = (\<lambda>i. push_bit 1 (mid ! i) OR (side ! i AND 1))
      in (map (\<lambda>i. signed_drop_bit 1 (sum i + side ! i)) [0..<length left],
          map (\<lambda>i. signed_drop_bit 1 (sum i - side ! i)) [0..<length left]))"

definition MidSideEncode :: "i32 list \<Rightarrow> i32 list \<Rightarrow> i32 list \<Rightarrow> i32 list \<Rightarrow> i32 list \<times> i32 list" where
  "MidSideEncode mid side left right =
     (let n = min (min (length mid) (length side)) (min (length left) (length right))
      in if n = 0 then (mid, side)
         else case midSideEncodeGo (take n mid) (take n left) (take n right) of
           (m, s) \<Rightarrow> (m @ drop n mid, s @ drop n side))"

definition MidSideDecode :: "i32 list \<Rightarrow> i32 list \<Rightarrow> i32 list \<Rightarrow> i32 list \<Rightarrow> i32 list \<times> i32 list" where
  "MidSideDecode left right mid side =
     (let n = min (min (length left) (length right)) (min (length mid) (length side))
      in if n = 0 then (left, right)
         else case midSideDecodeGo (take n left) (take n mid) (take n side) of
           (l, r) \<Rightarrow> (l @ drop n left, r @ drop n right))"

section \<open>Fixed-predictor differences and cumulative sums\<close>

definition fixedCoeffs1 :: "i32 list" where "fixedCoeffs1 = [1, -1]"
definition fixedCoeffs2 :: "i32 list" where "fixedCoeffs2 = [1, -2, 1]"
definition fixedCoeffs3 :: "i32 list" where "fixedCoeffs3 = [1, -3, 3, -1]"
definition fixedCoeffs4 :: "i32 list" where "fixedCoeffs4 = [1, -4, 6, -4, 1]"

text \<open>\<open>dst\<close> and \<open>src\<close> have the same length at every call.\<close>

definition diffGo :: "i32 list \<Rightarrow> i32 list \<Rightarrow> i32 list" where
  "diffGo src c =
     (let order = length c - 1; w = min order (length src)
      in take w src @ map (\<lambda>n. foldl (\<lambda>acc j. acc + c ! j * src ! (n - j)) 0 [0..<length c]) [order..<length src])"

definition DiffK :: "i32 list \<Rightarrow> i32 list \<Rightarrow> i32 list \<Rightarrow> i32 list" where
  "DiffK c dst src =
     (let n = min (length dst) (length src)
      in if n = 0 then dst else diffGo (take n src) c @ drop n dst)"

definition Diff1 :: "i32 list \<Rightarrow> i32 list \<Rightarrow> i32 list" where "Diff1 = DiffK fixedCoeffs1"
definition Diff2 :: "i32 list \<Rightarrow> i32 list \<Rightarrow> i32 list" where "Diff2 = DiffK fixedCoeffs2"
definition Diff3 :: "i32 list \<Rightarrow> i32 list \<Rightarrow> i32 list" where "Diff3 = DiffK fixedCoeffs3"
definition Diff4 :: "i32 list \<Rightarrow> i32 list \<Rightarrow> i32 list" where "Diff4 = DiffK fixedCoeffs4"

definition cumsumGo :: "i32 list \<Rightarrow> i32 list" where
  "cumsumGo a = foldl (\<lambda>a i. a[i := a ! i + a ! (i - 1)]) a [1..<length a]"

text \<open>One backward differencing pass over the first \<open>order\<close> entries.\<close>

definition prefixDiff :: "nat \<Rightarrow> i32 list \<Rightarrow> i32 list" where
  "prefixDiff order dst = foldl (\<lambda>d i. d[i := d ! i - d ! (i - 1)]) dst (rev [1..<order])"

definition restoreI32 :: "i32 list \<Rightarrow> i32 list \<Rightarrow> i32 list \<Rightarrow> i32 list" where
  "restoreI32 dst src c =
     (let order = length c - 1; n = min (length dst) (length src)
      in if n = 0 then dst
         else let d = take n src
              in (if n \<le> order then d else (cumsumGo ^^ order) ((prefixDiff order ^^ order) d)) @ drop n dst)"

definition Restore1 :: "i32 list \<Rightarrow> i32 list \<Rightarrow> i32 list" where "Restore1 dst src = restoreI32 dst src fixedCoeffs1"
definition Restore2 :: "i32 list \<Rightarrow> i32 list \<Rightarrow> i32 list" where "Restore2 dst src = restoreI32 dst src fixedCoeffs2"
definition Restore3 :: "i32 list \<Rightarrow> i32 list \<Rightarrow> i32 list" where "Restore3 dst src = restoreI32 dst src fixedCoeffs3"
definition Restore4 :: "i32 list \<Rightarrow> i32 list \<Rightarrow> i32 list" where "Restore4 dst src = restoreI32 dst src fixedCoeffs4"

section \<open>Rice sums, absolute sums and extremes\<close>

definition zigzag32 :: "i32 \<Rightarrow> u64" where
  "zigzag32 r = ucast (push_bit 1 r XOR signed_drop_bit 31 r)"

definition riceSumsGo :: "nat \<Rightarrow> i32 list \<Rightarrow> u64 list" where
  "riceSumsGo m res =
     foldl (\<lambda>sums r. map (\<lambda>k. sums ! k + drop_bit k (zigzag32 r)) [0..<m]) (replicate m 0) res"

definition zigzagSumGo :: "i32 list \<Rightarrow> u64" where
  "zigzagSumGo res = foldl (\<lambda>s r. s + zigzag32 r) 0 res"

definition ZigzagSum :: "i32 list \<Rightarrow> u64" where "ZigzagSum res = zigzagSumGo res"

definition riceMaxParam :: nat where "riceMaxParam = 14"
definition riceParamCount :: nat where "riceParamCount = riceMaxParam + 1"
definition riceMaxParam5 :: nat where "riceMaxParam5 = 30"

definition RiceSums :: "nat \<Rightarrow> i32 list \<Rightarrow> u64 list" where
  "RiceSums m res =
     (if m = 0 then []
      else if m = riceParamCount then riceSumsGo m res
      else if m < riceParamCount then take m (riceSumsGo riceParamCount res)
      else if m \<le> riceMaxParam5 + 1 then take m (riceSumsGo (riceMaxParam5 + 1) res)
      else riceSumsGo m res)"

definition riceScan :: "u64 list \<Rightarrow> nat \<Rightarrow> nat \<times> u64" where
  "riceScan sums n =
     foldl (\<lambda>(best, bits) k.
              let c = sums ! k + of_nat n * of_nat (k + 1)
              in if c < bits then (k, c) else (best, bits))
       (0, sums ! 0 + of_nat n) [1..<length sums]"

definition i32RiceBestParam :: "i32 list \<Rightarrow> nat \<Rightarrow> nat \<times> u64" where
  "i32RiceBestParam res maxParam =
     (let n = length res
      in if n = 0 then (0, 0)
         else let maxParam = (if maxParam > riceMaxParam5 then riceMaxParam5 else maxParam);
                  sums = (if maxParam < riceParamCount then riceSumsGo riceParamCount res
                          else riceSumsGo (riceMaxParam5 + 1) res)
              in riceScan (take (maxParam + 1) sums) n)"

definition minMaxGo :: "i32 list \<Rightarrow> i32 \<times> i32" where
  "minMaxGo res =
     foldl (\<lambda>(lo, hi) r. (if r <s lo then r else lo, if hi <s r then r else hi))
       (res ! 0, res ! 0) (drop 1 res)"

definition MinMax :: "i32 list \<Rightarrow> i32 \<times> i32" where
  "MinMax res = (if res = [] then (0, 0) else minMaxGo res)"

definition absU64 :: "i64 \<Rightarrow> u64" where
  "absU64 v = (if v <s 0 then - v else v)"

text \<open>
  The cascade of the four previous differences; the first four samples only feed the
  orders that are already defined there.
\<close>

definition fixedAbsSumsGo :: "i32 list \<Rightarrow> u64 list" where
  "fixedAbsSumsGo src =
     (let n = length src; w = min n 4;
          warm = foldl (\<lambda>((s0, s1, s2, s3, s4), p1, p2, p3, p4) i.
                   let e0 = scast (src ! i); e1 = e0 - p1; e2 = e1 - p2; e3 = e2 - p3;
                       e = [e0, e1, e2, e3];
                       add = (\<lambda>s or. if or \<le> i then s + absU64 (e ! or) else s)
                   in ((add s0 0, add s1 1, add s2 2, add s3 3, s4), e0, e1, e2, e3))
                 ((0, 0, 0, 0, 0), 0, 0, 0, 0) [0..<w];
          main = foldl (\<lambda>((s0, s1, s2, s3, s4), p1, p2, p3, p4) i.
                   let e0 = scast (src ! i); e1 = e0 - p1; e2 = e1 - p2; e3 = e2 - p3; e4 = e3 - p4
                   in ((s0 + absU64 e0, s1 + absU64 e1, s2 + absU64 e2, s3 + absU64 e3, s4 + absU64 e4), e0, e1, e2, e3))
                 warm [w..<n]
      in case fst main of (s0, s1, s2, s3, s4) \<Rightarrow> [s0, s1, s2, s3, s4])"

definition i32FixedAbsSums :: "i32 list \<Rightarrow> u64 list" where
  "i32FixedAbsSums src = fixedAbsSumsGo src"

section \<open>Quantized LPC\<close>

definition maxLPCShift :: nat where "maxLPCShift = 63"
definition maxLPCRestoreOrder :: nat where "maxLPCRestoreOrder = 32"
definition maxLPCShiftNarrow :: nat where "maxLPCShiftNarrow = 31"
definition maxScalarKernelOrder :: nat where "maxScalarKernelOrder = 10"
definition maxScalarKernelOrderNarrow :: nat where "maxScalarKernelOrderNarrow = 12"
definition maxScalarRestoreOrder :: nat where "maxScalarRestoreOrder = 7"
definition maxScalarRestoreOrderNarrow :: nat where "maxScalarRestoreOrderNarrow = 7"

definition firstSIMDRestoreOrder :: nat where "firstSIMDRestoreOrder = 0"

text \<open>\<open>acc += int64(c) * int64(x[i-1-j])\<close>, over all coefficients.\<close>

definition lpcSum :: "i32 list \<Rightarrow> i32 list \<Rightarrow> nat \<Rightarrow> i64" where
  "lpcSum coeffs x i = foldl (\<lambda>acc j. acc + scast (coeffs ! j) * scast (x ! (i - 1 - j))) 0 [0..<length coeffs]"

definition lpcResidualEncodeGo :: "i32 list \<Rightarrow> i32 list \<Rightarrow> nat \<Rightarrow> i32 list" where
  "lpcResidualEncodeGo samples coeffs shift =
     (let order = length coeffs; w = min order (length samples)
      in take w samples
         @ map (\<lambda>i. samples ! i - ucast (signed_drop_bit shift (lpcSum coeffs samples i))) [order..<length samples])"

definition LPCResidualEncode :: "i32 list \<Rightarrow> i32 list \<Rightarrow> i32 list \<Rightarrow> nat \<Rightarrow> i32 list" where
  "LPCResidualEncode res samples coeffs shift =
     (let n = min (length res) (length samples); order = length coeffs
      in if n = 0 then res
         else if order = 0 \<or> order \<ge> n then take n samples @ drop n res
         else lpcResidualEncodeGo (take n samples) coeffs (if shift > maxLPCShift then maxLPCShift else shift)
              @ drop n res)"

text \<open>\<open>out\<close> starts as a copy of the residual (the same slice at every call of the decoder).\<close>

definition lpcRestoreGo :: "i32 list \<Rightarrow> i32 list \<Rightarrow> nat \<Rightarrow> i32 list" where
  "lpcRestoreGo residual coeffs shift =
     foldl (\<lambda>out i. out[i := residual ! i + ucast (signed_drop_bit shift (lpcSum coeffs out i))])
       residual [length coeffs..<length residual]"


fun restore1_loop :: "i64 \<Rightarrow> nat \<Rightarrow> i64 \<Rightarrow> i32 list \<Rightarrow> i32 list" where
  "restore1_loop c0 shift x1 [] = []"
| "restore1_loop c0 shift x1 (r # rs) =
     (let acc = c0 * x1;
          v = r + ucast (signed_drop_bit (shift mod 64) acc)
      in v # restore1_loop c0 shift (scast v) rs)"

definition lpcRestore1 :: "i32 list \<Rightarrow> i32 list \<Rightarrow> i32 list \<Rightarrow> nat \<Rightarrow> i32 list" where
  "lpcRestore1 res coeffs hist shift =
     restore1_loop (scast (coeffs ! 0)) shift
       (scast (hist ! 0)) res"


fun restore2_loop :: "i64 \<Rightarrow> i64 \<Rightarrow> nat \<Rightarrow> i64 \<Rightarrow> i64 \<Rightarrow> i32 list \<Rightarrow> i32 list" where
  "restore2_loop c0 c1 shift x1 x2 [] = []"
| "restore2_loop c0 c1 shift x1 x2 (r # rs) =
     (let acc = c1 * x2 + c0 * x1;
          v = r + ucast (signed_drop_bit (shift mod 64) acc)
      in v # restore2_loop c0 c1 shift (scast v) x1 rs)"

definition lpcRestore2 :: "i32 list \<Rightarrow> i32 list \<Rightarrow> i32 list \<Rightarrow> nat \<Rightarrow> i32 list" where
  "lpcRestore2 res coeffs hist shift =
     restore2_loop (scast (coeffs ! 0)) (scast (coeffs ! 1)) shift
       (scast (hist ! 1)) (scast (hist ! 0)) res"


fun restore3_loop :: "i64 \<Rightarrow> i64 \<Rightarrow> i64 \<Rightarrow> nat \<Rightarrow> i64 \<Rightarrow> i64 \<Rightarrow> i64 \<Rightarrow> i32 list \<Rightarrow> i32 list" where
  "restore3_loop c0 c1 c2 shift x1 x2 x3 [] = []"
| "restore3_loop c0 c1 c2 shift x1 x2 x3 (r # rs) =
     (let acc = c2 * x3 + c1 * x2 + c0 * x1;
          v = r + ucast (signed_drop_bit (shift mod 64) acc)
      in v # restore3_loop c0 c1 c2 shift (scast v) x1 x2 rs)"

definition lpcRestore3 :: "i32 list \<Rightarrow> i32 list \<Rightarrow> i32 list \<Rightarrow> nat \<Rightarrow> i32 list" where
  "lpcRestore3 res coeffs hist shift =
     restore3_loop (scast (coeffs ! 0)) (scast (coeffs ! 1)) (scast (coeffs ! 2)) shift
       (scast (hist ! 2)) (scast (hist ! 1)) (scast (hist ! 0)) res"


fun restore4_loop :: "i64 \<Rightarrow> i64 \<Rightarrow> i64 \<Rightarrow> i64 \<Rightarrow> nat \<Rightarrow> i64 \<Rightarrow> i64 \<Rightarrow> i64 \<Rightarrow> i64 \<Rightarrow> i32 list \<Rightarrow> i32 list" where
  "restore4_loop c0 c1 c2 c3 shift x1 x2 x3 x4 [] = []"
| "restore4_loop c0 c1 c2 c3 shift x1 x2 x3 x4 (r # rs) =
     (let acc = c3 * x4 + c2 * x3 + c1 * x2 + c0 * x1;
          v = r + ucast (signed_drop_bit (shift mod 64) acc)
      in v # restore4_loop c0 c1 c2 c3 shift (scast v) x1 x2 x3 rs)"

definition lpcRestore4 :: "i32 list \<Rightarrow> i32 list \<Rightarrow> i32 list \<Rightarrow> nat \<Rightarrow> i32 list" where
  "lpcRestore4 res coeffs hist shift =
     restore4_loop (scast (coeffs ! 0)) (scast (coeffs ! 1)) (scast (coeffs ! 2)) (scast (coeffs ! 3)) shift
       (scast (hist ! 3)) (scast (hist ! 2)) (scast (hist ! 1)) (scast (hist ! 0)) res"


fun restore5_loop :: "i64 \<Rightarrow> i64 \<Rightarrow> i64 \<Rightarrow> i64 \<Rightarrow> i64 \<Rightarrow> nat \<Rightarrow> i64 \<Rightarrow> i64 \<Rightarrow> i64 \<Rightarrow> i64 \<Rightarrow> i64 \<Rightarrow> i32 list \<Rightarrow> i32 list" where
  "restore5_loop c0 c1 c2 c3 c4 shift x1 x2 x3 x4 x5 [] = []"
| "restore5_loop c0 c1 c2 c3 c4 shift x1 x2 x3 x4 x5 (r # rs) =
     (let acc = c4 * x5 + c3 * x4 + c2 * x3 + c1 * x2 + c0 * x1;
          v = r + ucast (signed_drop_bit (shift mod 64) acc)
      in v # restore5_loop c0 c1 c2 c3 c4 shift (scast v) x1 x2 x3 x4 rs)"

definition lpcRestore5 :: "i32 list \<Rightarrow> i32 list \<Rightarrow> i32 list \<Rightarrow> nat \<Rightarrow> i32 list" where
  "lpcRestore5 res coeffs hist shift =
     restore5_loop (scast (coeffs ! 0)) (scast (coeffs ! 1)) (scast (coeffs ! 2)) (scast (coeffs ! 3)) (scast (coeffs ! 4)) shift
       (scast (hist ! 4)) (scast (hist ! 3)) (scast (hist ! 2)) (scast (hist ! 1)) (scast (hist ! 0)) res"


fun restore6_loop :: "i64 \<Rightarrow> i64 \<Rightarrow> i64 \<Rightarrow> i64 \<Rightarrow> i64 \<Rightarrow> i64 \<Rightarrow> nat \<Rightarrow> i64 \<Rightarrow> i64 \<Rightarrow> i64 \<Rightarrow> i64 \<Rightarrow> i64 \<Rightarrow> i64 \<Rightarrow> i32 list \<Rightarrow> i32 list" where
  "restore6_loop c0 c1 c2 c3 c4 c5 shift x1 x2 x3 x4 x5 x6 [] = []"
| "restore6_loop c0 c1 c2 c3 c4 c5 shift x1 x2 x3 x4 x5 x6 (r # rs) =
     (let acc = c5 * x6 + c4 * x5 + c3 * x4 + c2 * x3 + c1 * x2 + c0 * x1;
          v = r + ucast (signed_drop_bit (shift mod 64) acc)
      in v # restore6_loop c0 c1 c2 c3 c4 c5 shift (scast v) x1 x2 x3 x4 x5 rs)"

definition lpcRestore6 :: "i32 list \<Rightarrow> i32 list \<Rightarrow> i32 list \<Rightarrow> nat \<Rightarrow> i32 list" where
  "lpcRestore6 res coeffs hist shift =
     restore6_loop (scast (coeffs ! 0)) (scast (coeffs ! 1)) (scast (coeffs ! 2)) (scast (coeffs ! 3)) (scast (coeffs ! 4)) (scast (coeffs ! 5)) shift
       (scast (hist ! 5)) (scast (hist ! 4)) (scast (hist ! 3)) (scast (hist ! 2)) (scast (hist ! 1)) (scast (hist ! 0)) res"


fun restore7_loop :: "i64 \<Rightarrow> i64 \<Rightarrow> i64 \<Rightarrow> i64 \<Rightarrow> i64 \<Rightarrow> i64 \<Rightarrow> i64 \<Rightarrow> nat \<Rightarrow> i64 \<Rightarrow> i64 \<Rightarrow> i64 \<Rightarrow> i64 \<Rightarrow> i64 \<Rightarrow> i64 \<Rightarrow> i64 \<Rightarrow> i32 list \<Rightarrow> i32 list" where
  "restore7_loop c0 c1 c2 c3 c4 c5 c6 shift x1 x2 x3 x4 x5 x6 x7 [] = []"
| "restore7_loop c0 c1 c2 c3 c4 c5 c6 shift x1 x2 x3 x4 x5 x6 x7 (r # rs) =
     (let acc = c6 * x7 + c5 * x6 + c4 * x5 + c3 * x4 + c2 * x3 + c1 * x2 + c0 * x1;
          v = r + ucast (signed_drop_bit (shift mod 64) acc)
      in v # restore7_loop c0 c1 c2 c3 c4 c5 c6 shift (scast v) x1 x2 x3 x4 x5 x6 rs)"

definition lpcRestore7 :: "i32 list \<Rightarrow> i32 list \<Rightarrow> i32 list \<Rightarrow> nat \<Rightarrow> i32 list" where
  "lpcRestore7 res coeffs hist shift =
     restore7_loop (scast (coeffs ! 0)) (scast (coeffs ! 1)) (scast (coeffs ! 2)) (scast (coeffs ! 3)) (scast (coeffs ! 4)) (scast (coeffs ! 5)) (scast (coeffs ! 6)) shift
       (scast (hist ! 6)) (scast (hist ! 5)) (scast (hist ! 4)) (scast (hist ! 3)) (scast (hist ! 2)) (scast (hist ! 1)) (scast (hist ! 0)) res"


fun restore8_loop :: "i64 \<Rightarrow> i64 \<Rightarrow> i64 \<Rightarrow> i64 \<Rightarrow> i64 \<Rightarrow> i64 \<Rightarrow> i64 \<Rightarrow> i64 \<Rightarrow> nat \<Rightarrow> i64 \<Rightarrow> i64 \<Rightarrow> i64 \<Rightarrow> i64 \<Rightarrow> i64 \<Rightarrow> i64 \<Rightarrow> i64 \<Rightarrow> i64 \<Rightarrow> i32 list \<Rightarrow> i32 list" where
  "restore8_loop c0 c1 c2 c3 c4 c5 c6 c7 shift x1 x2 x3 x4 x5 x6 x7 x8 [] = []"
| "restore8_loop c0 c1 c2 c3 c4 c5 c6 c7 shift x1 x2 x3 x4 x5 x6 x7 x8 (r # rs) =
     (let acc = c7 * x8 + c6 * x7 + c5 * x6 + c4 * x5 + c3 * x4 + c2 * x3 + c1 * x2 + c0 * x1;
          v = r + ucast (signed_drop_bit (shift mod 64) acc)
      in v # restore8_loop c0 c1 c2 c3 c4 c5 c6 c7 shift (scast v) x1 x2 x3 x4 x5 x6 x7 rs)"

definition lpcRestore8 :: "i32 list \<Rightarrow> i32 list \<Rightarrow> i32 list \<Rightarrow> nat \<Rightarrow> i32 list" where
  "lpcRestore8 res coeffs hist shift =
     restore8_loop (scast (coeffs ! 0)) (scast (coeffs ! 1)) (scast (coeffs ! 2)) (scast (coeffs ! 3)) (scast (coeffs ! 4)) (scast (coeffs ! 5)) (scast (coeffs ! 6)) (scast (coeffs ! 7)) shift
       (scast (hist ! 7)) (scast (hist ! 6)) (scast (hist ! 5)) (scast (hist ! 4)) (scast (hist ! 3)) (scast (hist ! 2)) (scast (hist ! 1)) (scast (hist ! 0)) res"


fun restore9_loop :: "i64 \<Rightarrow> i64 \<Rightarrow> i64 \<Rightarrow> i64 \<Rightarrow> i64 \<Rightarrow> i64 \<Rightarrow> i64 \<Rightarrow> i64 \<Rightarrow> i64 \<Rightarrow> nat \<Rightarrow> i64 \<Rightarrow> i64 \<Rightarrow> i64 \<Rightarrow> i64 \<Rightarrow> i64 \<Rightarrow> i64 \<Rightarrow> i64 \<Rightarrow> i64 \<Rightarrow> i64 \<Rightarrow> i32 list \<Rightarrow> i32 list" where
  "restore9_loop c0 c1 c2 c3 c4 c5 c6 c7 c8 shift x1 x2 x3 x4 x5 x6 x7 x8 x9 [] = []"
| "restore9_loop c0 c1 c2 c3 c4 c5 c6 c7 c8 shift x1 x2 x3 x4 x5 x6 x7 x8 x9 (r # rs) =
     (let acc = c8 * x9 + c7 * x8 + c6 * x7 + c5 * x6 + c4 * x5 + c3 * x4 + c2 * x3 + c1 * x2 + c0 * x1;
          v = r + ucast (signed_drop_bit (shift mod 64) acc)
      in v # restore9_loop c0 c1 c2 c3 c4 c5 c6 c7 c8 shift (scast v) x1 x2 x3 x4 x5 x6 x7 x8 rs)"

definition lpcRestore9 :: "i32 list \<Rightarrow> i32 list \<Rightarrow> i32 list \<Rightarrow> nat \<Rightarrow> i32 list" where
  "lpcRestore9 res coeffs hist shift =
     restore9_loop (scast (coeffs ! 0)) (scast (coeffs ! 1)) (scast (coeffs ! 2)) (scast (coeffs ! 3)) (scast (coeffs ! 4)) (scast (coeffs ! 5)) (scast (coeffs ! 6)) (scast (coeffs ! 7)) (scast (coeffs ! 8)) shift
       (scast (hist ! 8)) (scast (hist ! 7)) (scast (hist ! 6)) (scast (hist ! 5)) (scast (hist ! 4)) (scast (hist ! 3)) (scast (hist ! 2)) (scast (hist ! 1)) (scast (hist ! 0)) res"


fun restore10_loop :: "i64 \<Rightarrow> i64 \<Rightarrow> i64 \<Rightarrow> i64 \<Rightarrow> i64 \<Rightarrow> i64 \<Rightarrow> i64 \<Rightarrow> i64 \<Rightarrow> i64 \<Rightarrow> i64 \<Rightarrow> nat \<Rightarrow> i64 \<Rightarrow> i64 \<Rightarrow> i64 \<Rightarrow> i64 \<Rightarrow> i64 \<Rightarrow> i64 \<Rightarrow> i64 \<Rightarrow> i64 \<Rightarrow> i64 \<Rightarrow> i64 \<Rightarrow> i32 list \<Rightarrow> i32 list" where
  "restore10_loop c0 c1 c2 c3 c4 c5 c6 c7 c8 c9 shift x1 x2 x3 x4 x5 x6 x7 x8 x9 x10 [] = []"
| "restore10_loop c0 c1 c2 c3 c4 c5 c6 c7 c8 c9 shift x1 x2 x3 x4 x5 x6 x7 x8 x9 x10 (r # rs) =
     (let acc = c9 * x10 + c8 * x9 + c7 * x8 + c6 * x7 + c5 * x6 + c4 * x5 + c3 * x4 + c2 * x3 + c1 * x2 + c0 * x1;
          v = r + ucast (signed_drop_bit (shift mod 64) acc)
      in v # restore10_loop c0 c1 c2 c3 c4 c5 c6 c7 c8 c9 shift (scast v) x1 x2 x3 x4 x5 x6 x7 x8 x9 rs)"

definition lpcRestore10 :: "i32 list \<Rightarrow> i32 list \<Rightarrow> i32 list \<Rightarrow> nat \<Rightarrow> i32 list" where
  "lpcRestore10 res coeffs hist shift =
     restore10_loop (scast (coeffs ! 0)) (scast (coeffs ! 1)) (scast (coeffs ! 2)) (scast (coeffs ! 3)) (scast (coeffs ! 4)) (scast (coeffs ! 5)) (scast (coeffs ! 6)) (scast (coeffs ! 7)) (scast (coeffs ! 8)) (scast (coeffs ! 9)) shift
       (scast (hist ! 9)) (scast (hist ! 8)) (scast (hist ! 7)) (scast (hist ! 6)) (scast (hist ! 5)) (scast (hist ! 4)) (scast (hist ! 3)) (scast (hist ! 2)) (scast (hist ! 1)) (scast (hist ! 0)) res"


definition lpcRestoreScalar :: "i32 list \<Rightarrow> i32 list \<Rightarrow> nat \<Rightarrow> i32 list" where
  "lpcRestoreScalar residual coeffs shift =
     (let order = length coeffs; n = length residual
      in if order < 1 \<or> order > maxScalarKernelOrder then lpcRestoreGo residual coeffs shift
         else if n \<le> order then residual
         else let shift = min shift maxLPCShift;
                  hist = take order residual;
                  res = drop order residual
              in hist @
                 (if order = 1 then lpcRestore1 res coeffs hist shift
                  else if order = 2 then lpcRestore2 res coeffs hist shift
                  else if order = 3 then lpcRestore3 res coeffs hist shift
                  else if order = 4 then lpcRestore4 res coeffs hist shift
                  else if order = 5 then lpcRestore5 res coeffs hist shift
                  else if order = 6 then lpcRestore6 res coeffs hist shift
                  else if order = 7 then lpcRestore7 res coeffs hist shift
                  else if order = 8 then lpcRestore8 res coeffs hist shift
                  else if order = 9 then lpcRestore9 res coeffs hist shift
                  else if order = 10 then lpcRestore10 res coeffs hist shift
                  else res))"

definition LPCRestore :: "i32 list \<Rightarrow> i32 list \<Rightarrow> nat \<Rightarrow> i32 list" where
  "LPCRestore residual coeffs shift =
     (let n = length residual; order = length coeffs
      in if n = 0 then residual
         else if order = 0 \<or> order \<ge> n then residual
         else let shift = (if shift > maxLPCShift then maxLPCShift else shift)
              in if order \<le> maxScalarRestoreOrder then lpcRestoreScalar residual coeffs shift
                 else lpcRestoreGo residual coeffs shift)"

section \<open>32-bit accumulation\<close>

definition LPCRestoreNarrowSafe :: "i32 list \<Rightarrow> nat \<Rightarrow> nat \<Rightarrow> bool" where
  "LPCRestoreNarrowSafe coeffs bps shift =
     (if bps = 0 \<or> bps > 32 \<or> shift > maxLPCShiftNarrow \<or> length coeffs > maxLPCRestoreOrder then False
      else let a = foldl (\<lambda>a c. a + (let x = scast c; y = - x in if x <s y then y else x)) (0::u64) coeffs
           in if a \<ge> push_bit (32 - bps) 1 then False
              else let maxPred = push_bit (bps - 1) a;
                       shifted = drop_bit shift (maxPred + push_bit shift 1 - 1)
                   in push_bit (bps - 1) 1 + shifted < (push_bit 31 1 :: u64))"

fun narrow1_loop :: "i32 \<Rightarrow> nat \<Rightarrow> i32 \<Rightarrow> i32 list \<Rightarrow> i32 list" where
  "narrow1_loop c0 shift x1 [] = []"
| "narrow1_loop c0 shift x1 (r # rs) =
     (let acc = c0 * x1;
          v = r + signed_drop_bit (shift mod 32) acc
      in v # narrow1_loop c0 shift v rs)"

definition lpcRestoreNarrow1 :: "i32 list \<Rightarrow> i32 list \<Rightarrow> i32 list \<Rightarrow> nat \<Rightarrow> i32 list" where
  "lpcRestoreNarrow1 res coeffs hist shift =
     narrow1_loop (coeffs ! 0) shift
       (hist ! 0) res"

fun narrow2_loop :: "i32 \<Rightarrow> i32 \<Rightarrow> nat \<Rightarrow> i32 \<Rightarrow> i32 \<Rightarrow> i32 list \<Rightarrow> i32 list" where
  "narrow2_loop c0 c1 shift x1 x2 [] = []"
| "narrow2_loop c0 c1 shift x1 x2 (r # rs) =
     (let acc = c1 * x2 + c0 * x1;
          v = r + signed_drop_bit (shift mod 32) acc
      in v # narrow2_loop c0 c1 shift v x1 rs)"

definition lpcRestoreNarrow2 :: "i32 list \<Rightarrow> i32 list \<Rightarrow> i32 list \<Rightarrow> nat \<Rightarrow> i32 list" where
  "lpcRestoreNarrow2 res coeffs hist shift =
     narrow2_loop (coeffs ! 0) (coeffs ! 1) shift
       (hist ! 1) (hist ! 0) res"

fun narrow3_loop :: "i32 \<Rightarrow> i32 \<Rightarrow> i32 \<Rightarrow> nat \<Rightarrow> i32 \<Rightarrow> i32 \<Rightarrow> i32 \<Rightarrow> i32 list \<Rightarrow> i32 list" where
  "narrow3_loop c0 c1 c2 shift x1 x2 x3 [] = []"
| "narrow3_loop c0 c1 c2 shift x1 x2 x3 (r # rs) =
     (let acc = c2 * x3 + c1 * x2 + c0 * x1;
          v = r + signed_drop_bit (shift mod 32) acc
      in v # narrow3_loop c0 c1 c2 shift v x1 x2 rs)"

definition lpcRestoreNarrow3 :: "i32 list \<Rightarrow> i32 list \<Rightarrow> i32 list \<Rightarrow> nat \<Rightarrow> i32 list" where
  "lpcRestoreNarrow3 res coeffs hist shift =
     narrow3_loop (coeffs ! 0) (coeffs ! 1) (coeffs ! 2) shift
       (hist ! 2) (hist ! 1) (hist ! 0) res"

fun narrow4_loop :: "i32 \<Rightarrow> i32 \<Rightarrow> i32 \<Rightarrow> i32 \<Rightarrow> nat \<Rightarrow> i32 \<Rightarrow> i32 \<Rightarrow> i32 \<Rightarrow> i32 \<Rightarrow> i32 list \<Rightarrow> i32 list" where
  "narrow4_loop c0 c1 c2 c3 shift x1 x2 x3 x4 [] = []"
| "narrow4_loop c0 c1 c2 c3 shift x1 x2 x3 x4 (r # rs) =
     (let acc = c3 * x4 + c2 * x3 + c1 * x2 + c0 * x1;
          v = r + signed_drop_bit (shift mod 32) acc
      in v # narrow4_loop c0 c1 c2 c3 shift v x1 x2 x3 rs)"

definition lpcRestoreNarrow4 :: "i32 list \<Rightarrow> i32 list \<Rightarrow> i32 list \<Rightarrow> nat \<Rightarrow> i32 list" where
  "lpcRestoreNarrow4 res coeffs hist shift =
     narrow4_loop (coeffs ! 0) (coeffs ! 1) (coeffs ! 2) (coeffs ! 3) shift
       (hist ! 3) (hist ! 2) (hist ! 1) (hist ! 0) res"

fun narrow5_loop :: "i32 \<Rightarrow> i32 \<Rightarrow> i32 \<Rightarrow> i32 \<Rightarrow> i32 \<Rightarrow> nat \<Rightarrow> i32 \<Rightarrow> i32 \<Rightarrow> i32 \<Rightarrow> i32 \<Rightarrow> i32 \<Rightarrow> i32 list \<Rightarrow> i32 list" where
  "narrow5_loop c0 c1 c2 c3 c4 shift x1 x2 x3 x4 x5 [] = []"
| "narrow5_loop c0 c1 c2 c3 c4 shift x1 x2 x3 x4 x5 (r # rs) =
     (let acc = c4 * x5 + c3 * x4 + c2 * x3 + c1 * x2 + c0 * x1;
          v = r + signed_drop_bit (shift mod 32) acc
      in v # narrow5_loop c0 c1 c2 c3 c4 shift v x1 x2 x3 x4 rs)"

definition lpcRestoreNarrow5 :: "i32 list \<Rightarrow> i32 list \<Rightarrow> i32 list \<Rightarrow> nat \<Rightarrow> i32 list" where
  "lpcRestoreNarrow5 res coeffs hist shift =
     narrow5_loop (coeffs ! 0) (coeffs ! 1) (coeffs ! 2) (coeffs ! 3) (coeffs ! 4) shift
       (hist ! 4) (hist ! 3) (hist ! 2) (hist ! 1) (hist ! 0) res"

fun narrow6_loop :: "i32 \<Rightarrow> i32 \<Rightarrow> i32 \<Rightarrow> i32 \<Rightarrow> i32 \<Rightarrow> i32 \<Rightarrow> nat \<Rightarrow> i32 \<Rightarrow> i32 \<Rightarrow> i32 \<Rightarrow> i32 \<Rightarrow> i32 \<Rightarrow> i32 \<Rightarrow> i32 list \<Rightarrow> i32 list" where
  "narrow6_loop c0 c1 c2 c3 c4 c5 shift x1 x2 x3 x4 x5 x6 [] = []"
| "narrow6_loop c0 c1 c2 c3 c4 c5 shift x1 x2 x3 x4 x5 x6 (r # rs) =
     (let acc = c5 * x6 + c4 * x5 + c3 * x4 + c2 * x3 + c1 * x2 + c0 * x1;
          v = r + signed_drop_bit (shift mod 32) acc
      in v # narrow6_loop c0 c1 c2 c3 c4 c5 shift v x1 x2 x3 x4 x5 rs)"

definition lpcRestoreNarrow6 :: "i32 list \<Rightarrow> i32 list \<Rightarrow> i32 list \<Rightarrow> nat \<Rightarrow> i32 list" where
  "lpcRestoreNarrow6 res coeffs hist shift =
     narrow6_loop (coeffs ! 0) (coeffs ! 1) (coeffs ! 2) (coeffs ! 3) (coeffs ! 4) (coeffs ! 5) shift
       (hist ! 5) (hist ! 4) (hist ! 3) (hist ! 2) (hist ! 1) (hist ! 0) res"

fun narrow7_loop :: "i32 \<Rightarrow> i32 \<Rightarrow> i32 \<Rightarrow> i32 \<Rightarrow> i32 \<Rightarrow> i32 \<Rightarrow> i32 \<Rightarrow> nat \<Rightarrow> i32 \<Rightarrow> i32 \<Rightarrow> i32 \<Rightarrow> i32 \<Rightarrow> i32 \<Rightarrow> i32 \<Rightarrow> i32 \<Rightarrow> i32 list \<Rightarrow> i32 list" where
  "narrow7_loop c0 c1 c2 c3 c4 c5 c6 shift x1 x2 x3 x4 x5 x6 x7 [] = []"
| "narrow7_loop c0 c1 c2 c3 c4 c5 c6 shift x1 x2 x3 x4 x5 x6 x7 (r # rs) =
     (let acc = c6 * x7 + c5 * x6 + c4 * x5 + c3 * x4 + c2 * x3 + c1 * x2 + c0 * x1;
          v = r + signed_drop_bit (shift mod 32) acc
      in v # narrow7_loop c0 c1 c2 c3 c4 c5 c6 shift v x1 x2 x3 x4 x5 x6 rs)"

definition lpcRestoreNarrow7 :: "i32 list \<Rightarrow> i32 list \<Rightarrow> i32 list \<Rightarrow> nat \<Rightarrow> i32 list" where
  "lpcRestoreNarrow7 res coeffs hist shift =
     narrow7_loop (coeffs ! 0) (coeffs ! 1) (coeffs ! 2) (coeffs ! 3) (coeffs ! 4) (coeffs ! 5) (coeffs ! 6) shift
       (hist ! 6) (hist ! 5) (hist ! 4) (hist ! 3) (hist ! 2) (hist ! 1) (hist ! 0) res"

fun narrow8_loop :: "i32 \<Rightarrow> i32 \<Rightarrow> i32 \<Rightarrow> i32 \<Rightarrow> i32 \<Rightarrow> i32 \<Rightarrow> i32 \<Rightarrow> i32 \<Rightarrow> nat \<Rightarrow> i32 \<Rightarrow> i32 \<Rightarrow> i32 \<Rightarrow> i32 \<Rightarrow> i32 \<Rightarrow> i32 \<Rightarrow> i32 \<Rightarrow> i32 \<Rightarrow> i32 list \<Rightarrow> i32 list" where
  "narrow8_loop c0 c1 c2 c3 c4 c5 c6 c7 shift x1 x2 x3 x4 x5 x6 x7 x8 [] = []"
| "narrow8_loop c0 c1 c2 c3 c4 c5 c6 c7 shift x1 x2 x3 x4 x5 x6 x7 x8 (r # rs) =
     (let acc = c7 * x8 + c6 * x7 + c5 * x6 + c4 * x5 + c3 * x4 + c2 * x3 + c1 * x2 + c0 * x1;
          v = r + signed_drop_bit (shift mod 32) acc
      in v # narrow8_loop c0 c1 c2 c3 c4 c5 c6 c7 shift v x1 x2 x3 x4 x5 x6 x7 rs)"

definition lpcRestoreNarrow8 :: "i32 list \<Rightarrow> i32 list \<Rightarrow> i32 list \<Rightarrow> nat \<Rightarrow> i32 list" where
  "lpcRestoreNarrow8 res coeffs hist shift =
     narrow8_loop (coeffs ! 0) (coeffs ! 1) (coeffs ! 2) (coeffs ! 3) (coeffs ! 4) (coeffs ! 5) (coeffs ! 6) (coeffs ! 7) shift
       (hist ! 7) (hist ! 6) (hist ! 5) (hist ! 4) (hist ! 3) (hist ! 2) (hist ! 1) (hist ! 0) res"

fun narrow9_loop :: "i32 \<Rightarrow> i32 \<Rightarrow> i32 \<Rightarrow> i32 \<Rightarrow> i32 \<Rightarrow> i32 \<Rightarrow> i32 \<Rightarrow> i32 \<Rightarrow> i32 \<Rightarrow> nat \<Rightarrow> i32 \<Rightarrow> i32 \<Rightarrow> i32 \<Rightarrow> i32 \<Rightarrow> i32 \<Rightarrow> i32 \<Rightarrow> i32 \<Rightarrow> i32 \<Rightarrow> i32 \<Rightarrow> i32 list \<Rightarrow> i32 list" where
  "narrow9_loop c0 c1 c2 c3 c4 c5 c6 c7 c8 shift x1 x2 x3 x4 x5 x6 x7 x8 x9 [] = []"
| "narrow9_loop c0 c1 c2 c3 c4 c5 c6 c7 c8 shift x1 x2 x3 x4 x5 x6 x7 x8 x9 (r # rs) =
     (let acc = c8 * x9 + c7 * x8 + c6 * x7 + c5 * x6 + c4 * x5 + c3 * x4 + c2 * x3 + c1 * x2 + c0 * x1;
          v = r + signed_drop_bit (shift mod 32) acc
      in v # narrow9_loop c0 c1 c2 c3 c4 c5 c6 c7 c8 shift v x1 x2 x3 x4 x5 x6 x7 x8 rs)"

definition lpcRestoreNarrow9 :: "i32 list \<Rightarrow> i32 list \<Rightarrow> i32 list \<Rightarrow> nat \<Rightarrow> i32 list" where
  "lpcRestoreNarrow9 res coeffs hist shift =
     narrow9_loop (coeffs ! 0) (coeffs ! 1) (coeffs ! 2) (coeffs ! 3) (coeffs ! 4) (coeffs ! 5) (coeffs ! 6) (coeffs ! 7) (coeffs ! 8) shift
       (hist ! 8) (hist ! 7) (hist ! 6) (hist ! 5) (hist ! 4) (hist ! 3) (hist ! 2) (hist ! 1) (hist ! 0) res"

fun narrow10_loop :: "i32 \<Rightarrow> i32 \<Rightarrow> i32 \<Rightarrow> i32 \<Rightarrow> i32 \<Rightarrow> i32 \<Rightarrow> i32 \<Rightarrow> i32 \<Rightarrow> i32 \<Rightarrow> i32 \<Rightarrow> nat \<Rightarrow> i32 \<Rightarrow> i32 \<Rightarrow> i32 \<Rightarrow> i32 \<Rightarrow> i32 \<Rightarrow> i32 \<Rightarrow> i32 \<Rightarrow> i32 \<Rightarrow> i32 \<Rightarrow> i32 \<Rightarrow> i32 list \<Rightarrow> i32 list" where
  "narrow10_loop c0 c1 c2 c3 c4 c5 c6 c7 c8 c9 shift x1 x2 x3 x4 x5 x6 x7 x8 x9 x10 [] = []"
| "narrow10_loop c0 c1 c2 c3 c4 c5 c6 c7 c8 c9 shift x1 x2 x3 x4 x5 x6 x7 x8 x9 x10 (r # rs) =
     (let acc = c9 * x10 + c8 * x9 + c7 * x8 + c6 * x7 + c5 * x6 + c4 * x5 + c3 * x4 + c2 * x3 + c1 * x2 + c0 * x1;
          v = r + signed_drop_bit (shift mod 32) acc
      in v # narrow10_loop c0 c1 c2 c3 c4 c5 c6 c7 c8 c9 shift v x1 x2 x3 x4 x5 x6 x7 x8 x9 rs)"

definition lpcRestoreNarrow10 :: "i32 list \<Rightarrow> i32 list \<Rightarrow> i32 list \<Rightarrow> nat \<Rightarrow> i32 list" where
  "lpcRestoreNarrow10 res coeffs hist shift =
     narrow10_loop (coeffs ! 0) (coeffs ! 1) (coeffs ! 2) (coeffs ! 3) (coeffs ! 4) (coeffs ! 5) (coeffs ! 6) (coeffs ! 7) (coeffs ! 8) (coeffs ! 9) shift
       (hist ! 9) (hist ! 8) (hist ! 7) (hist ! 6) (hist ! 5) (hist ! 4) (hist ! 3) (hist ! 2) (hist ! 1) (hist ! 0) res"

fun narrow11_loop :: "i32 \<Rightarrow> i32 \<Rightarrow> i32 \<Rightarrow> i32 \<Rightarrow> i32 \<Rightarrow> i32 \<Rightarrow> i32 \<Rightarrow> i32 \<Rightarrow> i32 \<Rightarrow> i32 \<Rightarrow> i32 \<Rightarrow> nat \<Rightarrow> i32 \<Rightarrow> i32 \<Rightarrow> i32 \<Rightarrow> i32 \<Rightarrow> i32 \<Rightarrow> i32 \<Rightarrow> i32 \<Rightarrow> i32 \<Rightarrow> i32 \<Rightarrow> i32 \<Rightarrow> i32 \<Rightarrow> i32 list \<Rightarrow> i32 list" where
  "narrow11_loop c0 c1 c2 c3 c4 c5 c6 c7 c8 c9 c10 shift x1 x2 x3 x4 x5 x6 x7 x8 x9 x10 x11 [] = []"
| "narrow11_loop c0 c1 c2 c3 c4 c5 c6 c7 c8 c9 c10 shift x1 x2 x3 x4 x5 x6 x7 x8 x9 x10 x11 (r # rs) =
     (let acc = c10 * x11 + c9 * x10 + c8 * x9 + c7 * x8 + c6 * x7 + c5 * x6 + c4 * x5 + c3 * x4 + c2 * x3 + c1 * x2 + c0 * x1;
          v = r + signed_drop_bit (shift mod 32) acc
      in v # narrow11_loop c0 c1 c2 c3 c4 c5 c6 c7 c8 c9 c10 shift v x1 x2 x3 x4 x5 x6 x7 x8 x9 x10 rs)"

definition lpcRestoreNarrow11 :: "i32 list \<Rightarrow> i32 list \<Rightarrow> i32 list \<Rightarrow> nat \<Rightarrow> i32 list" where
  "lpcRestoreNarrow11 res coeffs hist shift =
     narrow11_loop (coeffs ! 0) (coeffs ! 1) (coeffs ! 2) (coeffs ! 3) (coeffs ! 4) (coeffs ! 5) (coeffs ! 6) (coeffs ! 7) (coeffs ! 8) (coeffs ! 9) (coeffs ! 10) shift
       (hist ! 10) (hist ! 9) (hist ! 8) (hist ! 7) (hist ! 6) (hist ! 5) (hist ! 4) (hist ! 3) (hist ! 2) (hist ! 1) (hist ! 0) res"

fun narrow12_loop :: "i32 \<Rightarrow> i32 \<Rightarrow> i32 \<Rightarrow> i32 \<Rightarrow> i32 \<Rightarrow> i32 \<Rightarrow> i32 \<Rightarrow> i32 \<Rightarrow> i32 \<Rightarrow> i32 \<Rightarrow> i32 \<Rightarrow> i32 \<Rightarrow> nat \<Rightarrow> i32 \<Rightarrow> i32 \<Rightarrow> i32 \<Rightarrow> i32 \<Rightarrow> i32 \<Rightarrow> i32 \<Rightarrow> i32 \<Rightarrow> i32 \<Rightarrow> i32 \<Rightarrow> i32 \<Rightarrow> i32 \<Rightarrow> i32 \<Rightarrow> i32 list \<Rightarrow> i32 list" where
  "narrow12_loop c0 c1 c2 c3 c4 c5 c6 c7 c8 c9 c10 c11 shift x1 x2 x3 x4 x5 x6 x7 x8 x9 x10 x11 x12 [] = []"
| "narrow12_loop c0 c1 c2 c3 c4 c5 c6 c7 c8 c9 c10 c11 shift x1 x2 x3 x4 x5 x6 x7 x8 x9 x10 x11 x12 (r # rs) =
     (let acc = c11 * x12 + c10 * x11 + c9 * x10 + c8 * x9 + c7 * x8 + c6 * x7 + c5 * x6 + c4 * x5 + c3 * x4 + c2 * x3 + c1 * x2 + c0 * x1;
          v = r + signed_drop_bit (shift mod 32) acc
      in v # narrow12_loop c0 c1 c2 c3 c4 c5 c6 c7 c8 c9 c10 c11 shift v x1 x2 x3 x4 x5 x6 x7 x8 x9 x10 x11 rs)"

definition lpcRestoreNarrow12 :: "i32 list \<Rightarrow> i32 list \<Rightarrow> i32 list \<Rightarrow> nat \<Rightarrow> i32 list" where
  "lpcRestoreNarrow12 res coeffs hist shift =
     narrow12_loop (coeffs ! 0) (coeffs ! 1) (coeffs ! 2) (coeffs ! 3) (coeffs ! 4) (coeffs ! 5) (coeffs ! 6) (coeffs ! 7) (coeffs ! 8) (coeffs ! 9) (coeffs ! 10) (coeffs ! 11) shift
       (hist ! 11) (hist ! 10) (hist ! 9) (hist ! 8) (hist ! 7) (hist ! 6) (hist ! 5) (hist ! 4) (hist ! 3) (hist ! 2) (hist ! 1) (hist ! 0) res"

definition lpcRestoreScalarNarrow :: "i32 list \<Rightarrow> i32 list \<Rightarrow> nat \<Rightarrow> i32 list" where
  "lpcRestoreScalarNarrow residual coeffs shift =
     (let order = length coeffs; n = length residual
      in if order < 1 \<or> order > maxScalarKernelOrderNarrow then LPCRestore residual coeffs shift
         else if n \<le> order then residual
         else let shift = min shift maxLPCShiftNarrow;
                  hist = take order residual;
                  res = drop order residual
              in hist @
                 (if order = 1 then lpcRestoreNarrow1 res coeffs hist shift
                  else if order = 2 then lpcRestoreNarrow2 res coeffs hist shift
                  else if order = 3 then lpcRestoreNarrow3 res coeffs hist shift
                  else if order = 4 then lpcRestoreNarrow4 res coeffs hist shift
                  else if order = 5 then lpcRestoreNarrow5 res coeffs hist shift
                  else if order = 6 then lpcRestoreNarrow6 res coeffs hist shift
                  else if order = 7 then lpcRestoreNarrow7 res coeffs hist shift
                  else if order = 8 then lpcRestoreNarrow8 res coeffs hist shift
                  else if order = 9 then lpcRestoreNarrow9 res coeffs hist shift
                  else if order = 10 then lpcRestoreNarrow10 res coeffs hist shift
                  else if order = 11 then lpcRestoreNarrow11 res coeffs hist shift
                  else if order = 12 then lpcRestoreNarrow12 res coeffs hist shift
                  else res))"

text \<open>\<open>rc\<close> is the reversed copy of the coefficients, \<open>w\<close> the forward window of the output.\<close>

definition lpcRestoreGoNarrow :: "i32 list \<Rightarrow> i32 list \<Rightarrow> nat \<Rightarrow> i32 list" where
  "lpcRestoreGoNarrow residual coeffs shift =
     (let order = length coeffs; n = length residual
      in if order < 1 \<or> order > maxLPCRestoreOrder then LPCRestore residual coeffs shift
         else if n \<le> order then residual
         else let shift = min shift maxLPCShiftNarrow;
                  rcs = map (\<lambda>k. coeffs ! (order - 1 - k)) [0..<order]
              in foldl (\<lambda>out i.
                   let w = take order (drop (i - order) out);
                       acc = foldl (\<lambda>acc k. acc + rcs ! k * w ! k) 0 [0..<order]
                   in out[i := residual ! i + signed_drop_bit (shift mod 32) acc])
                   residual [order..<n])"

definition LPCRestoreNarrow :: "i32 list \<Rightarrow> i32 list \<Rightarrow> nat \<Rightarrow> i32 list" where
  "LPCRestoreNarrow residual coeffs shift =
     (let n = length residual; order = length coeffs
      in if n = 0 then residual
         else if order = 0 \<or> order \<ge> n then residual
         else if order \<le> maxScalarRestoreOrderNarrow
              then let shift = min shift maxLPCShiftNarrow
                   in if order \<le> maxScalarKernelOrderNarrow then lpcRestoreScalarNarrow residual coeffs shift
                      else lpcRestoreGoNarrow residual coeffs shift
         else LPCRestore residual coeffs shift)"

section \<open>Stereo arithmetic is inverted\<close>

lemma odd_add_minus: "odd (l - r) \<longleftrightarrow> odd (l + r)" for l r :: "'a::len word"
proof -
  have "l + r = (l - r) + 2 * r" by simp
  then show ?thesis by (metis dvd_triv_left even_add)
qed

lemma midside_sum: "push_bit 1 (signed_drop_bit 1 (l + r)) OR ((l - r) AND 1) = l + r" for l r :: "'a::len word"
proof (rule bit_word_eqI)
  fix n assume n: "n < LENGTH('a)"
  have "bit (push_bit 1 (signed_drop_bit 1 (l + r))) n = (0 < n \<and> bit (l + r) n)"
    using n unfolding bit_push_bit_iff bit_signed_drop_bit_iff by (auto simp: min_def)
  moreover have "bit ((l - r) AND 1) n = (n = 0 \<and> bit (l + r) 0)"
    using odd_add_minus [of l r] by (auto simp: bit_and_iff bit_1_iff bit_0)
  ultimately show "bit (push_bit 1 (signed_drop_bit 1 (l + r)) OR ((l - r) AND 1)) n = bit (l + r) n"
    unfolding bit_or_iff by auto
qed

text \<open>Samples of at most 31 bits leave the room the decoder's doubling needs.\<close>

lemma midside_inverse:
  fixes l r :: "'a::len word"
  assumes "fits (LENGTH('a) - 1) (sint l)" "fits (LENGTH('a) - 1) (sint r)"
  shows "let m = signed_drop_bit 1 (l + r); s = l - r; sum = push_bit 1 m OR (s AND 1)
         in signed_drop_bit 1 (sum + s) = l \<and> signed_drop_bit 1 (sum - s) = r"
proof -
  have "l + r + (l - r) = l + l" "l + r - (l - r) = r + r" by simp_all
  then show ?thesis unfolding Let_def midside_sum by (simp only: halve_double assms simp_thms)
qed

lemma MidSide_roundtrip:
  assumes len: "length left = n" "length right = n" "length mid = n" "length side = n" "length l0 = n" "length r0 = n"
    and fit: "\<forall>x \<in> set left \<union> set right. fits 31 (sint x)"
  shows "(case MidSideEncode mid side left right of (m, s) \<Rightarrow> MidSideDecode l0 r0 m s) = (left, right)"
proof (cases "n = 0")
  case False
  let ?m = "map (\<lambda>i. signed_drop_bit 1 (left ! i + right ! i)) [0..<n]" and ?s = "map (\<lambda>i. left ! i - right ! i) [0..<n]"
  have enc: "MidSideEncode mid side left right = (?m, ?s)"
    using False len by (simp add: MidSideEncode_def midSideEncodeGo_def)
  have el: "signed_drop_bit 1 ((push_bit 1 (?m ! i) OR (?s ! i AND 1)) + ?s ! i) = left ! i"
    "signed_drop_bit 1 ((push_bit 1 (?m ! i) OR (?s ! i AND 1)) - ?s ! i) = right ! i" if "i < n" for i
    using midside_inverse [of "left ! i" "right ! i"] fit len that by (simp_all add: Let_def)
  have dec: "MidSideDecode l0 r0 ?m ?s = midSideDecodeGo l0 ?m ?s"
    using False len by (simp add: MidSideDecode_def split: prod.split)
  have "fst (midSideDecodeGo l0 ?m ?s) = left" "snd (midSideDecodeGo l0 ?m ?s) = right"
    unfolding midSideDecodeGo_def Let_def fst_conv snd_conv using el len
    by (auto intro!: map_upt_eqI simp del: nth_map)
  then show ?thesis unfolding enc prod.case dec by (simp only: prod_eq_iff fst_conv snd_conv simp_thms)
qed (use len in \<open>simp add: MidSideEncode_def MidSideDecode_def\<close>)

lemma Sub_Sub: "length a = n \<Longrightarrow> length b = n \<Longrightarrow> length d = n \<Longrightarrow> length e = n \<Longrightarrow> Sub d a (Sub e a b) = b"
  by (auto simp: Sub_def subGo_def Let_def intro: nth_equalityI)

lemma Add_Sub: "length a = n \<Longrightarrow> length b = n \<Longrightarrow> length d = n \<Longrightarrow> length e = n \<Longrightarrow> Add d b (Sub e a b) = a"
  by (auto simp: Add_def addGo_def Sub_def subGo_def Let_def intro: nth_equalityI)

lemma length_Sub [simp]: "length (Sub d a b) = length d"
  by (simp add: Sub_def subGo_def Let_def)

lemma length_Add [simp]: "length (Add d a b) = length d"
  by (simp add: Add_def addGo_def Let_def)

section \<open>Differences and cumulative sums\<close>

text \<open>The forward difference that keeps the first entry, and its inverse.\<close>

definition fdiff :: "i32 list \<Rightarrow> i32 list" where
  "fdiff xs = map (\<lambda>i. if i = 0 then xs ! 0 else xs ! i - xs ! (i - 1)) [0..<length xs]"

lemma length_fdiff [simp]: "length (fdiff xs) = length xs"
  by (simp add: fdiff_def)

lemma length_fdiff_pow [simp]: "length ((fdiff ^^ k) xs) = length xs"
  by (induction k) simp_all

lemma fdiff_nth: "i < length xs \<Longrightarrow> fdiff xs ! i = (if i = 0 then xs ! 0 else xs ! i - xs ! (i - 1))"
  by (simp add: fdiff_def)

lemma take_fdiff: "take k (fdiff xs) = fdiff (take k xs)"
  by (rule nth_equalityI) (auto simp: fdiff_nth)

lemma take_fdiff_pow: "take k ((fdiff ^^ m) xs) = (fdiff ^^ m) (take k xs)"
  by (induction m) (simp_all add: take_fdiff)

lemma fdiff_inj: "fdiff xs = fdiff ys \<Longrightarrow> xs = ys"
proof (rule nth_equalityI)
  assume eq: "fdiff xs = fdiff ys"
  then show len: "length xs = length ys" by (metis length_fdiff)
  fix i show "i < length xs \<Longrightarrow> xs ! i = ys ! i"
  proof (induction i)
    case 0
    then show ?case using arg_cong [OF eq, of "\<lambda>l. l ! 0"] len by (simp add: fdiff_nth)
  next
    case (Suc i)
    then show ?case using arg_cong [OF eq, of "\<lambda>l. l ! Suc i"] len by (simp add: fdiff_nth)
  qed
qed

lemma fdiff_pow_inj: "(fdiff ^^ k) xs = (fdiff ^^ k) ys \<Longrightarrow> xs = ys"
  by (induction k) (auto dest: fdiff_inj)

interpretation cumsum_predictor: predictor "\<lambda>d n. d ! (n - 1) :: i32" 1
  by unfold_locales (metis One_nat_def Suc_le_eq diff_less nth_take zero_less_one)

lemma cumsumGo_loop: "cumsumGo = restore_loop (\<lambda>d n. d ! (n - 1)) 1"
  by (simp add: fun_eq_iff cumsumGo_def restore_loop_def)

lemma length_cumsumGo [simp]: "length (cumsumGo xs) = length xs"
  by (simp add: cumsumGo_loop)

lemma fdiff_cumsumGo [simp]: "fdiff (cumsumGo xs) = xs"
proof -
  have "restores (\<lambda>d n. d ! (n - 1)) 1 xs (cumsumGo xs)"
    unfolding cumsumGo_loop by (rule cumsum_predictor.restores_loop)
  then show ?thesis by (intro nth_equalityI) (auto simp: fdiff_nth restores_def)
qed

lemma fdiff_cumsumGo_pow: "(fdiff ^^ k) ((cumsumGo ^^ k) xs) = xs"
proof (induction k)
  case (Suc k)
  have "(fdiff ^^ Suc k) ((cumsumGo ^^ Suc k) xs) = (fdiff ^^ k) (fdiff (cumsumGo ((cumsumGo ^^ k) xs)))"
    by (metis comp_apply funpow.simps(2) funpow_Suc_right)
  then show ?case using Suc by simp
qed simp

lemma prefixDiff_fold:
  "k \<le> length d \<Longrightarrow> foldl (\<lambda>d i. d[i := d ! i - d ! (i - 1)]) d (rev [1..<k]) = fdiff (take k d) @ drop k d"
  for d :: "i32 list"
proof (induction k arbitrary: d)
  case (Suc k)
  show ?case
  proof (cases "k = 0")
    case True
    then show ?thesis using Suc.prems by (cases d) (simp_all add: fdiff_def)
  next
    case False
    let ?d = "d[k := d ! k - d ! (k - 1)]"
    have "foldl (\<lambda>d i. d[i := d ! i - d ! (i - 1)]) d (rev [1..<Suc k]) = fdiff (take k ?d) @ drop k ?d"
      using Suc False by simp
    also have "take k ?d = take k d" by simp
    also have "drop k ?d = (d ! k - d ! (k - 1)) # drop (Suc k) d"
      using Suc.prems by (simp add: drop_update_swap Cons_nth_drop_Suc [symmetric])
    also have "fdiff (take (Suc k) d) = fdiff (take k d) @ [d ! k - d ! (k - 1)]"
      using Suc.prems False by (simp add: fdiff_def)
    ultimately show ?thesis by simp
  qed
qed (simp add: fdiff_def)

lemma prefixDiff_pow: "k \<le> length d \<Longrightarrow> (prefixDiff k ^^ m) d = (fdiff ^^ m) (take k d) @ drop k d"
proof (induction m)
  case (Suc m)
  then show ?case
    using prefixDiff_fold [of k "(fdiff ^^ m) (take k d) @ drop k d"] by (simp add: prefixDiff_def)
qed simp

lemma restoreI32_diff:
  assumes "k < length xs" "length c = Suc k"
  defines "ys \<equiv> restoreI32 xs xs c"
  shows "length ys = length xs" "take k ys = take k xs" "drop k ((fdiff ^^ k) ys) = drop k xs"
proof -
  have ys: "ys = (cumsumGo ^^ k) ((fdiff ^^ k) (take k xs) @ drop k xs)"
    using assms by (auto simp: restoreI32_def Let_def prefixDiff_pow)
  have len: "length ((cumsumGo ^^ k) zs) = length zs" for k zs by (induction k) simp_all
  show "length ys = length xs" using assms(1) by (simp add: ys len)
  have d: "(fdiff ^^ k) ys = (fdiff ^^ k) (take k xs) @ drop k xs" by (simp add: ys fdiff_cumsumGo_pow)
  then show "drop k ((fdiff ^^ k) ys) = drop k xs" using assms(1) by simp
  have "(fdiff ^^ k) (take k ys) = (fdiff ^^ k) (take k xs)"
    using d assms(1) by (simp flip: take_fdiff_pow)
  then show "take k ys = take k xs" by (rule fdiff_pow_inj)
qed

lemma fdiff_pow_nth:
  assumes "k \<le> n" "n < length ys" "1 \<le> k" "k \<le> 4"
  shows "(fdiff ^^ k) ys ! n = ys ! n - fixed_pred k ys n"
proof -
  consider "k = 1" | "k = 2" | "k = 3" | "k = 4" using assms by linarith
  then show ?thesis
    using assms by cases (auto simp: numeral_eq_Suc fdiff_nth fixed_pred_def algebra_simps)
qed

lemma restoreI32_fixed:
  assumes "k < length xs" "length c = Suc k" "1 \<le> k" "k \<le> 4"
  shows "restoreI32 xs xs c = restore_loop (fixed_pred k) k xs"
proof -
  let ?ys = "restoreI32 xs xs c"
  note r = restoreI32_diff [OF assms(1,2)]
  have "?ys ! n = xs ! n + fixed_pred k ?ys n" if "k \<le> n" "n < length xs" for n
  proof -
    have "(fdiff ^^ k) ?ys ! n = xs ! n"
      using arg_cong [OF r(3), of "\<lambda>l. l ! (n - k)"] that r(1) by simp
    then show ?thesis using fdiff_pow_nth [of k n ?ys] that assms(3,4) r(1) by (simp add: algebra_simps)
  qed
  moreover have "?ys ! n = xs ! n" if "n < k" for n
    using nth_eq_of_take [OF r(2) that] .
  ultimately have "restores (fixed_pred k) k xs ?ys" using r(1) by (simp add: restores_def)
  then show ?thesis by (rule fixed_predictor.restore_loop_eq [symmetric])
qed

lemma diffGo_fixed:
  assumes "c = [fixedCoeffs1, fixedCoeffs2, fixedCoeffs3, fixedCoeffs4] ! (k - 1)" "1 \<le> k" "k \<le> 4" "k \<le> length src"
  shows "diffGo src c = take k src @ residuals (fixed_pred k) k src"
proof -
  consider "k = 1" | "k = 2" | "k = 3" | "k = 4" using assms by linarith
  then show ?thesis
    using assms
    by cases (simp_all add: diffGo_def residuals_def fixed_pred_def fixedCoeffs1_def fixedCoeffs2_def
        fixedCoeffs3_def fixedCoeffs4_def numeral_eq_Suc algebra_simps)
qed

section \<open>LPC: one recurrence behind every restore kernel\<close>

text \<open>The 64-bit prediction, from the reversed history.\<close>

definition lpc_hist :: "i32 list \<Rightarrow> nat \<Rightarrow> i32 list \<Rightarrow> i32" where
  "lpc_hist coeffs shift h = ucast (signed_drop_bit shift (dot (map scast coeffs) (map scast h) :: i64))"

definition lpc_pred :: "i32 list \<Rightarrow> nat \<Rightarrow> i32 list \<Rightarrow> nat \<Rightarrow> i32" where
  "lpc_pred coeffs shift d n = ucast (signed_drop_bit shift (lpcSum coeffs d n))"

lemma foldl_sum_dot:
  "foldl (\<lambda>acc j. acc + c ! j * g j) (a :: 'a::comm_ring_1) [0..<length c] = a + dot c (map g [0..<length c])"
proof (induction c arbitrary: g rule: rev_induct)
  case (snoc x c)
  have "dot (c @ [x]) (map g [0..<Suc (length c)]) = dot c (map g [0..<length c]) + x * g (length c)"
    by (simp add: dot_def)
  moreover have "foldl (\<lambda>acc j. acc + (c @ [x]) ! j * g j) a [0..<length c] = foldl (\<lambda>acc j. acc + c ! j * g j) a [0..<length c]"
    by (rule foldl_cong) (auto simp: nth_append)
  ultimately show ?case using snoc by (simp add: add.assoc)
qed simp

lemma map_window:
  "k \<le> n \<Longrightarrow> n \<le> length d \<Longrightarrow> map (\<lambda>j. f (d ! (n - 1 - j))) [0..<k] = take k (map f (rev (take n d)))"
  by (rule nth_equalityI) (auto simp: rev_nth)

lemma lpcSum_dot:
  "length coeffs \<le> n \<Longrightarrow> n \<le> length d \<Longrightarrow> lpcSum coeffs d n = dot (map scast coeffs) (map scast (rev (take n d)))"
proof -
  assume a: "length coeffs \<le> n" "n \<le> length d"
  have "lpcSum coeffs d n = foldl (\<lambda>acc j. acc + map scast coeffs ! j * scast (d ! (n - 1 - j))) 0 [0..<length (map scast coeffs :: i64 list)]"
    unfolding lpcSum_def length_map by (rule foldl_cong) auto
  also have "\<dots> = dot (map scast coeffs) (map (\<lambda>j. scast (d ! (n - 1 - j)) :: i64) [0..<length coeffs])"
    unfolding foldl_sum_dot by simp
  also have "\<dots> = dot (map scast coeffs) (map scast (rev (take n d)))"
    unfolding map_window [OF a, where f = scast] by (simp add: dot_take)
  finally show ?thesis .
qed

lemma lpc_pred_hist:
  "length coeffs \<le> n \<Longrightarrow> n \<le> length d \<Longrightarrow> lpc_pred coeffs shift d n = lpc_hist coeffs shift (rev (take n d))"
  by (simp add: lpc_pred_def lpc_hist_def lpcSum_dot)

interpretation lpc_predictor: predictor "lpc_pred coeffs shift" "length coeffs" for coeffs shift
  by unfold_locales (simp add: lpc_pred_hist)

lemma lpcRestoreGo_loop: "lpcRestoreGo residual coeffs shift = restore_loop (lpc_pred coeffs shift) (length coeffs) residual"
  unfolding lpcRestoreGo_def lpc_pred_def [symmetric] by (rule restore_loop_src)

lemma lpcRestoreGo_win:
  "length coeffs \<le> length residual \<Longrightarrow>
   lpcRestoreGo residual coeffs shift = take (length coeffs) residual
     @ win_loop (lpc_hist coeffs shift) (rev (take (length coeffs) residual)) (drop (length coeffs) residual)"
  unfolding lpcRestoreGo_loop by (rule restore_win_loop) (simp_all add: lpc_pred_hist)

lemma lpcResidualEncodeGo_residuals:
  "length coeffs \<le> length samples \<Longrightarrow>
   lpcResidualEncodeGo samples coeffs shift = take (length coeffs) samples @ residuals (lpc_pred coeffs shift) (length coeffs) samples"
  by (simp add: lpcResidualEncodeGo_def residuals_def lpc_pred_def Let_def)

subsection \<open>The order-specialised kernels\<close>

lemma list_nths: "length xs = n \<Longrightarrow> map ((!) xs) [0..<n] = xs"
  by (metis map_nth)

text \<open>The 32-bit prediction, from the reversed history.\<close>

definition narrow_hist :: "i32 list \<Rightarrow> nat \<Rightarrow> i32 list \<Rightarrow> i32" where
  "narrow_hist coeffs shift h = signed_drop_bit shift (dot coeffs h)"



lemma restore1_loop_win:
  "shift < 64 \<Longrightarrow> restore1_loop (scast c0) shift (scast h1) rs
     = win_loop (lpc_hist [c0] shift) (h1 # t) rs"
  by (induction rs arbitrary: h1 t) (simp_all add: Let_def lpc_hist_def ac_simps)

lemma lpcRestore1_win:
  assumes "shift < 64" "length coeffs = 1" "length hist = 1"
  shows "lpcRestore1 res coeffs hist shift = win_loop (lpc_hist coeffs shift) (rev hist) res"
proof -
  have "[coeffs ! 0] = coeffs" "[hist ! 0] = rev hist"
    using assms(2,3) by (auto simp: length_Suc_conv)
  then show ?thesis unfolding lpcRestore1_def restore1_loop_win [OF assms(1), where t = "[]"] by (simp only:)
qed


lemma restore2_loop_win:
  "shift < 64 \<Longrightarrow> restore2_loop (scast c0) (scast c1) shift (scast h1) (scast h2) rs
     = win_loop (lpc_hist [c0, c1] shift) (h1 # h2 # t) rs"
  by (induction rs arbitrary: h1 h2 t) (simp_all add: Let_def lpc_hist_def ac_simps)

lemma lpcRestore2_win:
  assumes "shift < 64" "length coeffs = 2" "length hist = 2"
  shows "lpcRestore2 res coeffs hist shift = win_loop (lpc_hist coeffs shift) (rev hist) res"
proof -
  have "[coeffs ! 0, coeffs ! 1] = coeffs" "[hist ! 1, hist ! 0] = rev hist"
    using list_nths [OF assms(2)] list_nths [OF assms(3), THEN arg_cong [where f = rev]] by (simp_all add: upt_rec numeral_eq_Suc)
  then show ?thesis unfolding lpcRestore2_def restore2_loop_win [OF assms(1), where t = "[]"] by (simp only:)
qed


lemma restore3_loop_win:
  "shift < 64 \<Longrightarrow> restore3_loop (scast c0) (scast c1) (scast c2) shift (scast h1) (scast h2) (scast h3) rs
     = win_loop (lpc_hist [c0, c1, c2] shift) (h1 # h2 # h3 # t) rs"
  by (induction rs arbitrary: h1 h2 h3 t) (simp_all add: Let_def lpc_hist_def ac_simps)

lemma lpcRestore3_win:
  assumes "shift < 64" "length coeffs = 3" "length hist = 3"
  shows "lpcRestore3 res coeffs hist shift = win_loop (lpc_hist coeffs shift) (rev hist) res"
proof -
  have "[coeffs ! 0, coeffs ! 1, coeffs ! 2] = coeffs" "[hist ! 2, hist ! 1, hist ! 0] = rev hist"
    using list_nths [OF assms(2)] list_nths [OF assms(3), THEN arg_cong [where f = rev]] by (simp_all add: upt_rec numeral_eq_Suc)
  then show ?thesis unfolding lpcRestore3_def restore3_loop_win [OF assms(1), where t = "[]"] by (simp only:)
qed


lemma restore4_loop_win:
  "shift < 64 \<Longrightarrow> restore4_loop (scast c0) (scast c1) (scast c2) (scast c3) shift (scast h1) (scast h2) (scast h3) (scast h4) rs
     = win_loop (lpc_hist [c0, c1, c2, c3] shift) (h1 # h2 # h3 # h4 # t) rs"
  by (induction rs arbitrary: h1 h2 h3 h4 t) (simp_all add: Let_def lpc_hist_def ac_simps)

lemma lpcRestore4_win:
  assumes "shift < 64" "length coeffs = 4" "length hist = 4"
  shows "lpcRestore4 res coeffs hist shift = win_loop (lpc_hist coeffs shift) (rev hist) res"
proof -
  have "[coeffs ! 0, coeffs ! 1, coeffs ! 2, coeffs ! 3] = coeffs" "[hist ! 3, hist ! 2, hist ! 1, hist ! 0] = rev hist"
    using list_nths [OF assms(2)] list_nths [OF assms(3), THEN arg_cong [where f = rev]] by (simp_all add: upt_rec numeral_eq_Suc)
  then show ?thesis unfolding lpcRestore4_def restore4_loop_win [OF assms(1), where t = "[]"] by (simp only:)
qed


lemma restore5_loop_win:
  "shift < 64 \<Longrightarrow> restore5_loop (scast c0) (scast c1) (scast c2) (scast c3) (scast c4) shift (scast h1) (scast h2) (scast h3) (scast h4) (scast h5) rs
     = win_loop (lpc_hist [c0, c1, c2, c3, c4] shift) (h1 # h2 # h3 # h4 # h5 # t) rs"
  by (induction rs arbitrary: h1 h2 h3 h4 h5 t) (simp_all add: Let_def lpc_hist_def ac_simps)

lemma lpcRestore5_win:
  assumes "shift < 64" "length coeffs = 5" "length hist = 5"
  shows "lpcRestore5 res coeffs hist shift = win_loop (lpc_hist coeffs shift) (rev hist) res"
proof -
  have "[coeffs ! 0, coeffs ! 1, coeffs ! 2, coeffs ! 3, coeffs ! 4] = coeffs" "[hist ! 4, hist ! 3, hist ! 2, hist ! 1, hist ! 0] = rev hist"
    using list_nths [OF assms(2)] list_nths [OF assms(3), THEN arg_cong [where f = rev]] by (simp_all add: upt_rec numeral_eq_Suc)
  then show ?thesis unfolding lpcRestore5_def restore5_loop_win [OF assms(1), where t = "[]"] by (simp only:)
qed


lemma restore6_loop_win:
  "shift < 64 \<Longrightarrow> restore6_loop (scast c0) (scast c1) (scast c2) (scast c3) (scast c4) (scast c5) shift (scast h1) (scast h2) (scast h3) (scast h4) (scast h5) (scast h6) rs
     = win_loop (lpc_hist [c0, c1, c2, c3, c4, c5] shift) (h1 # h2 # h3 # h4 # h5 # h6 # t) rs"
  by (induction rs arbitrary: h1 h2 h3 h4 h5 h6 t) (simp_all add: Let_def lpc_hist_def ac_simps)

lemma lpcRestore6_win:
  assumes "shift < 64" "length coeffs = 6" "length hist = 6"
  shows "lpcRestore6 res coeffs hist shift = win_loop (lpc_hist coeffs shift) (rev hist) res"
proof -
  have "[coeffs ! 0, coeffs ! 1, coeffs ! 2, coeffs ! 3, coeffs ! 4, coeffs ! 5] = coeffs" "[hist ! 5, hist ! 4, hist ! 3, hist ! 2, hist ! 1, hist ! 0] = rev hist"
    using list_nths [OF assms(2)] list_nths [OF assms(3), THEN arg_cong [where f = rev]] by (simp_all add: upt_rec numeral_eq_Suc)
  then show ?thesis unfolding lpcRestore6_def restore6_loop_win [OF assms(1), where t = "[]"] by (simp only:)
qed


lemma restore7_loop_win:
  "shift < 64 \<Longrightarrow> restore7_loop (scast c0) (scast c1) (scast c2) (scast c3) (scast c4) (scast c5) (scast c6) shift (scast h1) (scast h2) (scast h3) (scast h4) (scast h5) (scast h6) (scast h7) rs
     = win_loop (lpc_hist [c0, c1, c2, c3, c4, c5, c6] shift) (h1 # h2 # h3 # h4 # h5 # h6 # h7 # t) rs"
  by (induction rs arbitrary: h1 h2 h3 h4 h5 h6 h7 t) (simp_all add: Let_def lpc_hist_def ac_simps)

lemma lpcRestore7_win:
  assumes "shift < 64" "length coeffs = 7" "length hist = 7"
  shows "lpcRestore7 res coeffs hist shift = win_loop (lpc_hist coeffs shift) (rev hist) res"
proof -
  have "[coeffs ! 0, coeffs ! 1, coeffs ! 2, coeffs ! 3, coeffs ! 4, coeffs ! 5, coeffs ! 6] = coeffs" "[hist ! 6, hist ! 5, hist ! 4, hist ! 3, hist ! 2, hist ! 1, hist ! 0] = rev hist"
    using list_nths [OF assms(2)] list_nths [OF assms(3), THEN arg_cong [where f = rev]] by (simp_all add: upt_rec numeral_eq_Suc)
  then show ?thesis unfolding lpcRestore7_def restore7_loop_win [OF assms(1), where t = "[]"] by (simp only:)
qed


lemma restore8_loop_win:
  "shift < 64 \<Longrightarrow> restore8_loop (scast c0) (scast c1) (scast c2) (scast c3) (scast c4) (scast c5) (scast c6) (scast c7) shift (scast h1) (scast h2) (scast h3) (scast h4) (scast h5) (scast h6) (scast h7) (scast h8) rs
     = win_loop (lpc_hist [c0, c1, c2, c3, c4, c5, c6, c7] shift) (h1 # h2 # h3 # h4 # h5 # h6 # h7 # h8 # t) rs"
  by (induction rs arbitrary: h1 h2 h3 h4 h5 h6 h7 h8 t) (simp_all add: Let_def lpc_hist_def ac_simps)

lemma lpcRestore8_win:
  assumes "shift < 64" "length coeffs = 8" "length hist = 8"
  shows "lpcRestore8 res coeffs hist shift = win_loop (lpc_hist coeffs shift) (rev hist) res"
proof -
  have "[coeffs ! 0, coeffs ! 1, coeffs ! 2, coeffs ! 3, coeffs ! 4, coeffs ! 5, coeffs ! 6, coeffs ! 7] = coeffs" "[hist ! 7, hist ! 6, hist ! 5, hist ! 4, hist ! 3, hist ! 2, hist ! 1, hist ! 0] = rev hist"
    using list_nths [OF assms(2)] list_nths [OF assms(3), THEN arg_cong [where f = rev]] by (simp_all add: upt_rec numeral_eq_Suc)
  then show ?thesis unfolding lpcRestore8_def restore8_loop_win [OF assms(1), where t = "[]"] by (simp only:)
qed


lemma restore9_loop_win:
  "shift < 64 \<Longrightarrow> restore9_loop (scast c0) (scast c1) (scast c2) (scast c3) (scast c4) (scast c5) (scast c6) (scast c7) (scast c8) shift (scast h1) (scast h2) (scast h3) (scast h4) (scast h5) (scast h6) (scast h7) (scast h8) (scast h9) rs
     = win_loop (lpc_hist [c0, c1, c2, c3, c4, c5, c6, c7, c8] shift) (h1 # h2 # h3 # h4 # h5 # h6 # h7 # h8 # h9 # t) rs"
  by (induction rs arbitrary: h1 h2 h3 h4 h5 h6 h7 h8 h9 t) (simp_all add: Let_def lpc_hist_def ac_simps)

lemma lpcRestore9_win:
  assumes "shift < 64" "length coeffs = 9" "length hist = 9"
  shows "lpcRestore9 res coeffs hist shift = win_loop (lpc_hist coeffs shift) (rev hist) res"
proof -
  have "[coeffs ! 0, coeffs ! 1, coeffs ! 2, coeffs ! 3, coeffs ! 4, coeffs ! 5, coeffs ! 6, coeffs ! 7, coeffs ! 8] = coeffs" "[hist ! 8, hist ! 7, hist ! 6, hist ! 5, hist ! 4, hist ! 3, hist ! 2, hist ! 1, hist ! 0] = rev hist"
    using list_nths [OF assms(2)] list_nths [OF assms(3), THEN arg_cong [where f = rev]] by (simp_all add: upt_rec numeral_eq_Suc)
  then show ?thesis unfolding lpcRestore9_def restore9_loop_win [OF assms(1), where t = "[]"] by (simp only:)
qed


lemma restore10_loop_win:
  "shift < 64 \<Longrightarrow> restore10_loop (scast c0) (scast c1) (scast c2) (scast c3) (scast c4) (scast c5) (scast c6) (scast c7) (scast c8) (scast c9) shift (scast h1) (scast h2) (scast h3) (scast h4) (scast h5) (scast h6) (scast h7) (scast h8) (scast h9) (scast h10) rs
     = win_loop (lpc_hist [c0, c1, c2, c3, c4, c5, c6, c7, c8, c9] shift) (h1 # h2 # h3 # h4 # h5 # h6 # h7 # h8 # h9 # h10 # t) rs"
  by (induction rs arbitrary: h1 h2 h3 h4 h5 h6 h7 h8 h9 h10 t) (simp_all add: Let_def lpc_hist_def ac_simps)

lemma lpcRestore10_win:
  assumes "shift < 64" "length coeffs = 10" "length hist = 10"
  shows "lpcRestore10 res coeffs hist shift = win_loop (lpc_hist coeffs shift) (rev hist) res"
proof -
  have "[coeffs ! 0, coeffs ! 1, coeffs ! 2, coeffs ! 3, coeffs ! 4, coeffs ! 5, coeffs ! 6, coeffs ! 7, coeffs ! 8, coeffs ! 9] = coeffs" "[hist ! 9, hist ! 8, hist ! 7, hist ! 6, hist ! 5, hist ! 4, hist ! 3, hist ! 2, hist ! 1, hist ! 0] = rev hist"
    using list_nths [OF assms(2)] list_nths [OF assms(3), THEN arg_cong [where f = rev]] by (simp_all add: upt_rec numeral_eq_Suc)
  then show ?thesis unfolding lpcRestore10_def restore10_loop_win [OF assms(1), where t = "[]"] by (simp only:)
qed


lemmas lpcRestore_wins = lpcRestore1_win lpcRestore2_win lpcRestore3_win lpcRestore4_win lpcRestore5_win lpcRestore6_win lpcRestore7_win lpcRestore8_win lpcRestore9_win lpcRestore10_win

lemma lpcRestoreScalar_eq:
  assumes "shift \<le> 63" "length coeffs \<le> length residual"
  shows "lpcRestoreScalar residual coeffs shift = lpcRestoreGo residual coeffs shift"
proof (cases "1 \<le> length coeffs \<and> length coeffs \<le> 10 \<and> length coeffs < length residual")
  case False
  then show ?thesis using assms(2) lpcRestoreGo_win [OF assms(2), of shift]
    by (auto simp: lpcRestoreScalar_def maxScalarKernelOrder_def Let_def Suc_le_eq)
next
  case True
  let ?o = "length coeffs" and ?h = "take (length coeffs) residual" and ?r = "drop (length coeffs) residual"
  have h: "length ?h = ?o" using True by simp
  have s: "min shift maxLPCShift = shift" "shift < 64" using assms(1) by (simp_all add: maxLPCShift_def)
  have "?o = 1 \<or> ?o = 2 \<or> ?o = 3 \<or> ?o = 4 \<or> ?o = 5 \<or> ?o = 6 \<or> ?o = 7 \<or> ?o = 8 \<or> ?o = 9 \<or> ?o = 10"
    using True by presburger
  then consider "?o = 1" | "?o = 2" | "?o = 3" | "?o = 4" | "?o = 5" | "?o = 6" | "?o = 7" | "?o = 8" | "?o = 9" | "?o = 10" by blast
  then have "lpcRestoreScalar residual coeffs shift = ?h @ win_loop (lpc_hist coeffs shift) (rev ?h) ?r"
    using True h
    by cases (simp_all add: lpcRestoreScalar_def Let_def maxScalarKernelOrder_def s lpcRestore_wins)
  then show ?thesis using lpcRestoreGo_win [OF assms(2)] by simp
qed

lemma lpcRestoreGo_short: "length residual \<le> length coeffs \<Longrightarrow> lpcRestoreGo residual coeffs shift = residual"
  by (simp add: lpcRestoreGo_def)

theorem LPCRestore_loop:
  assumes "coeffs \<noteq> []"
  shows "LPCRestore residual coeffs shift = restore_loop (lpc_pred coeffs (min shift 63)) (length coeffs) residual"
  using assms lpcRestoreScalar_eq [of "min shift 63" coeffs residual] lpcRestoreGo_short [of residual coeffs]
  by (auto simp: LPCRestore_def Let_def maxLPCShift_def min_def simp flip: lpcRestoreGo_loop)

section \<open>32-bit accumulation is exact where it is used\<close>


lemma narrow1_loop_win:
  "shift < 32 \<Longrightarrow> narrow1_loop c0 shift h1 rs
     = win_loop (narrow_hist [c0] shift) (h1 # t) rs"
  by (induction rs arbitrary: h1 t) (simp_all add: Let_def narrow_hist_def ac_simps)

lemma lpcRestoreNarrow1_win:
  assumes "shift < 32" "length coeffs = 1" "length hist = 1"
  shows "lpcRestoreNarrow1 res coeffs hist shift = win_loop (narrow_hist coeffs shift) (rev hist) res"
proof -
  have "[coeffs ! 0] = coeffs" "[hist ! 0] = rev hist"
    using assms(2,3) by (auto simp: length_Suc_conv)
  then show ?thesis unfolding lpcRestoreNarrow1_def narrow1_loop_win [OF assms(1), where t = "[]"] by (simp only:)
qed


lemma narrow2_loop_win:
  "shift < 32 \<Longrightarrow> narrow2_loop c0 c1 shift h1 h2 rs
     = win_loop (narrow_hist [c0, c1] shift) (h1 # h2 # t) rs"
  by (induction rs arbitrary: h1 h2 t) (simp_all add: Let_def narrow_hist_def ac_simps)

lemma lpcRestoreNarrow2_win:
  assumes "shift < 32" "length coeffs = 2" "length hist = 2"
  shows "lpcRestoreNarrow2 res coeffs hist shift = win_loop (narrow_hist coeffs shift) (rev hist) res"
proof -
  have "[coeffs ! 0, coeffs ! 1] = coeffs" "[hist ! 1, hist ! 0] = rev hist"
    using list_nths [OF assms(2)] list_nths [OF assms(3), THEN arg_cong [where f = rev]] by (simp_all add: upt_rec numeral_eq_Suc)
  then show ?thesis unfolding lpcRestoreNarrow2_def narrow2_loop_win [OF assms(1), where t = "[]"] by (simp only:)
qed


lemma narrow3_loop_win:
  "shift < 32 \<Longrightarrow> narrow3_loop c0 c1 c2 shift h1 h2 h3 rs
     = win_loop (narrow_hist [c0, c1, c2] shift) (h1 # h2 # h3 # t) rs"
  by (induction rs arbitrary: h1 h2 h3 t) (simp_all add: Let_def narrow_hist_def ac_simps)

lemma lpcRestoreNarrow3_win:
  assumes "shift < 32" "length coeffs = 3" "length hist = 3"
  shows "lpcRestoreNarrow3 res coeffs hist shift = win_loop (narrow_hist coeffs shift) (rev hist) res"
proof -
  have "[coeffs ! 0, coeffs ! 1, coeffs ! 2] = coeffs" "[hist ! 2, hist ! 1, hist ! 0] = rev hist"
    using list_nths [OF assms(2)] list_nths [OF assms(3), THEN arg_cong [where f = rev]] by (simp_all add: upt_rec numeral_eq_Suc)
  then show ?thesis unfolding lpcRestoreNarrow3_def narrow3_loop_win [OF assms(1), where t = "[]"] by (simp only:)
qed


lemma narrow4_loop_win:
  "shift < 32 \<Longrightarrow> narrow4_loop c0 c1 c2 c3 shift h1 h2 h3 h4 rs
     = win_loop (narrow_hist [c0, c1, c2, c3] shift) (h1 # h2 # h3 # h4 # t) rs"
  by (induction rs arbitrary: h1 h2 h3 h4 t) (simp_all add: Let_def narrow_hist_def ac_simps)

lemma lpcRestoreNarrow4_win:
  assumes "shift < 32" "length coeffs = 4" "length hist = 4"
  shows "lpcRestoreNarrow4 res coeffs hist shift = win_loop (narrow_hist coeffs shift) (rev hist) res"
proof -
  have "[coeffs ! 0, coeffs ! 1, coeffs ! 2, coeffs ! 3] = coeffs" "[hist ! 3, hist ! 2, hist ! 1, hist ! 0] = rev hist"
    using list_nths [OF assms(2)] list_nths [OF assms(3), THEN arg_cong [where f = rev]] by (simp_all add: upt_rec numeral_eq_Suc)
  then show ?thesis unfolding lpcRestoreNarrow4_def narrow4_loop_win [OF assms(1), where t = "[]"] by (simp only:)
qed


lemma narrow5_loop_win:
  "shift < 32 \<Longrightarrow> narrow5_loop c0 c1 c2 c3 c4 shift h1 h2 h3 h4 h5 rs
     = win_loop (narrow_hist [c0, c1, c2, c3, c4] shift) (h1 # h2 # h3 # h4 # h5 # t) rs"
  by (induction rs arbitrary: h1 h2 h3 h4 h5 t) (simp_all add: Let_def narrow_hist_def ac_simps)

lemma lpcRestoreNarrow5_win:
  assumes "shift < 32" "length coeffs = 5" "length hist = 5"
  shows "lpcRestoreNarrow5 res coeffs hist shift = win_loop (narrow_hist coeffs shift) (rev hist) res"
proof -
  have "[coeffs ! 0, coeffs ! 1, coeffs ! 2, coeffs ! 3, coeffs ! 4] = coeffs" "[hist ! 4, hist ! 3, hist ! 2, hist ! 1, hist ! 0] = rev hist"
    using list_nths [OF assms(2)] list_nths [OF assms(3), THEN arg_cong [where f = rev]] by (simp_all add: upt_rec numeral_eq_Suc)
  then show ?thesis unfolding lpcRestoreNarrow5_def narrow5_loop_win [OF assms(1), where t = "[]"] by (simp only:)
qed


lemma narrow6_loop_win:
  "shift < 32 \<Longrightarrow> narrow6_loop c0 c1 c2 c3 c4 c5 shift h1 h2 h3 h4 h5 h6 rs
     = win_loop (narrow_hist [c0, c1, c2, c3, c4, c5] shift) (h1 # h2 # h3 # h4 # h5 # h6 # t) rs"
  by (induction rs arbitrary: h1 h2 h3 h4 h5 h6 t) (simp_all add: Let_def narrow_hist_def ac_simps)

lemma lpcRestoreNarrow6_win:
  assumes "shift < 32" "length coeffs = 6" "length hist = 6"
  shows "lpcRestoreNarrow6 res coeffs hist shift = win_loop (narrow_hist coeffs shift) (rev hist) res"
proof -
  have "[coeffs ! 0, coeffs ! 1, coeffs ! 2, coeffs ! 3, coeffs ! 4, coeffs ! 5] = coeffs" "[hist ! 5, hist ! 4, hist ! 3, hist ! 2, hist ! 1, hist ! 0] = rev hist"
    using list_nths [OF assms(2)] list_nths [OF assms(3), THEN arg_cong [where f = rev]] by (simp_all add: upt_rec numeral_eq_Suc)
  then show ?thesis unfolding lpcRestoreNarrow6_def narrow6_loop_win [OF assms(1), where t = "[]"] by (simp only:)
qed


lemma narrow7_loop_win:
  "shift < 32 \<Longrightarrow> narrow7_loop c0 c1 c2 c3 c4 c5 c6 shift h1 h2 h3 h4 h5 h6 h7 rs
     = win_loop (narrow_hist [c0, c1, c2, c3, c4, c5, c6] shift) (h1 # h2 # h3 # h4 # h5 # h6 # h7 # t) rs"
  by (induction rs arbitrary: h1 h2 h3 h4 h5 h6 h7 t) (simp_all add: Let_def narrow_hist_def ac_simps)

lemma lpcRestoreNarrow7_win:
  assumes "shift < 32" "length coeffs = 7" "length hist = 7"
  shows "lpcRestoreNarrow7 res coeffs hist shift = win_loop (narrow_hist coeffs shift) (rev hist) res"
proof -
  have "[coeffs ! 0, coeffs ! 1, coeffs ! 2, coeffs ! 3, coeffs ! 4, coeffs ! 5, coeffs ! 6] = coeffs" "[hist ! 6, hist ! 5, hist ! 4, hist ! 3, hist ! 2, hist ! 1, hist ! 0] = rev hist"
    using list_nths [OF assms(2)] list_nths [OF assms(3), THEN arg_cong [where f = rev]] by (simp_all add: upt_rec numeral_eq_Suc)
  then show ?thesis unfolding lpcRestoreNarrow7_def narrow7_loop_win [OF assms(1), where t = "[]"] by (simp only:)
qed


lemma narrow8_loop_win:
  "shift < 32 \<Longrightarrow> narrow8_loop c0 c1 c2 c3 c4 c5 c6 c7 shift h1 h2 h3 h4 h5 h6 h7 h8 rs
     = win_loop (narrow_hist [c0, c1, c2, c3, c4, c5, c6, c7] shift) (h1 # h2 # h3 # h4 # h5 # h6 # h7 # h8 # t) rs"
  by (induction rs arbitrary: h1 h2 h3 h4 h5 h6 h7 h8 t) (simp_all add: Let_def narrow_hist_def ac_simps)

lemma lpcRestoreNarrow8_win:
  assumes "shift < 32" "length coeffs = 8" "length hist = 8"
  shows "lpcRestoreNarrow8 res coeffs hist shift = win_loop (narrow_hist coeffs shift) (rev hist) res"
proof -
  have "[coeffs ! 0, coeffs ! 1, coeffs ! 2, coeffs ! 3, coeffs ! 4, coeffs ! 5, coeffs ! 6, coeffs ! 7] = coeffs" "[hist ! 7, hist ! 6, hist ! 5, hist ! 4, hist ! 3, hist ! 2, hist ! 1, hist ! 0] = rev hist"
    using list_nths [OF assms(2)] list_nths [OF assms(3), THEN arg_cong [where f = rev]] by (simp_all add: upt_rec numeral_eq_Suc)
  then show ?thesis unfolding lpcRestoreNarrow8_def narrow8_loop_win [OF assms(1), where t = "[]"] by (simp only:)
qed


lemma narrow9_loop_win:
  "shift < 32 \<Longrightarrow> narrow9_loop c0 c1 c2 c3 c4 c5 c6 c7 c8 shift h1 h2 h3 h4 h5 h6 h7 h8 h9 rs
     = win_loop (narrow_hist [c0, c1, c2, c3, c4, c5, c6, c7, c8] shift) (h1 # h2 # h3 # h4 # h5 # h6 # h7 # h8 # h9 # t) rs"
  by (induction rs arbitrary: h1 h2 h3 h4 h5 h6 h7 h8 h9 t) (simp_all add: Let_def narrow_hist_def ac_simps)

lemma lpcRestoreNarrow9_win:
  assumes "shift < 32" "length coeffs = 9" "length hist = 9"
  shows "lpcRestoreNarrow9 res coeffs hist shift = win_loop (narrow_hist coeffs shift) (rev hist) res"
proof -
  have "[coeffs ! 0, coeffs ! 1, coeffs ! 2, coeffs ! 3, coeffs ! 4, coeffs ! 5, coeffs ! 6, coeffs ! 7, coeffs ! 8] = coeffs" "[hist ! 8, hist ! 7, hist ! 6, hist ! 5, hist ! 4, hist ! 3, hist ! 2, hist ! 1, hist ! 0] = rev hist"
    using list_nths [OF assms(2)] list_nths [OF assms(3), THEN arg_cong [where f = rev]] by (simp_all add: upt_rec numeral_eq_Suc)
  then show ?thesis unfolding lpcRestoreNarrow9_def narrow9_loop_win [OF assms(1), where t = "[]"] by (simp only:)
qed


lemma narrow10_loop_win:
  "shift < 32 \<Longrightarrow> narrow10_loop c0 c1 c2 c3 c4 c5 c6 c7 c8 c9 shift h1 h2 h3 h4 h5 h6 h7 h8 h9 h10 rs
     = win_loop (narrow_hist [c0, c1, c2, c3, c4, c5, c6, c7, c8, c9] shift) (h1 # h2 # h3 # h4 # h5 # h6 # h7 # h8 # h9 # h10 # t) rs"
  by (induction rs arbitrary: h1 h2 h3 h4 h5 h6 h7 h8 h9 h10 t) (simp_all add: Let_def narrow_hist_def ac_simps)

lemma lpcRestoreNarrow10_win:
  assumes "shift < 32" "length coeffs = 10" "length hist = 10"
  shows "lpcRestoreNarrow10 res coeffs hist shift = win_loop (narrow_hist coeffs shift) (rev hist) res"
proof -
  have "[coeffs ! 0, coeffs ! 1, coeffs ! 2, coeffs ! 3, coeffs ! 4, coeffs ! 5, coeffs ! 6, coeffs ! 7, coeffs ! 8, coeffs ! 9] = coeffs" "[hist ! 9, hist ! 8, hist ! 7, hist ! 6, hist ! 5, hist ! 4, hist ! 3, hist ! 2, hist ! 1, hist ! 0] = rev hist"
    using list_nths [OF assms(2)] list_nths [OF assms(3), THEN arg_cong [where f = rev]] by (simp_all add: upt_rec numeral_eq_Suc)
  then show ?thesis unfolding lpcRestoreNarrow10_def narrow10_loop_win [OF assms(1), where t = "[]"] by (simp only:)
qed


lemma narrow11_loop_win:
  "shift < 32 \<Longrightarrow> narrow11_loop c0 c1 c2 c3 c4 c5 c6 c7 c8 c9 c10 shift h1 h2 h3 h4 h5 h6 h7 h8 h9 h10 h11 rs
     = win_loop (narrow_hist [c0, c1, c2, c3, c4, c5, c6, c7, c8, c9, c10] shift) (h1 # h2 # h3 # h4 # h5 # h6 # h7 # h8 # h9 # h10 # h11 # t) rs"
  by (induction rs arbitrary: h1 h2 h3 h4 h5 h6 h7 h8 h9 h10 h11 t) (simp_all add: Let_def narrow_hist_def ac_simps)

lemma lpcRestoreNarrow11_win:
  assumes "shift < 32" "length coeffs = 11" "length hist = 11"
  shows "lpcRestoreNarrow11 res coeffs hist shift = win_loop (narrow_hist coeffs shift) (rev hist) res"
proof -
  have "[coeffs ! 0, coeffs ! 1, coeffs ! 2, coeffs ! 3, coeffs ! 4, coeffs ! 5, coeffs ! 6, coeffs ! 7, coeffs ! 8, coeffs ! 9, coeffs ! 10] = coeffs" "[hist ! 10, hist ! 9, hist ! 8, hist ! 7, hist ! 6, hist ! 5, hist ! 4, hist ! 3, hist ! 2, hist ! 1, hist ! 0] = rev hist"
    using list_nths [OF assms(2)] list_nths [OF assms(3), THEN arg_cong [where f = rev]] by (simp_all add: upt_rec numeral_eq_Suc)
  then show ?thesis unfolding lpcRestoreNarrow11_def narrow11_loop_win [OF assms(1), where t = "[]"] by (simp only:)
qed


lemma narrow12_loop_win:
  "shift < 32 \<Longrightarrow> narrow12_loop c0 c1 c2 c3 c4 c5 c6 c7 c8 c9 c10 c11 shift h1 h2 h3 h4 h5 h6 h7 h8 h9 h10 h11 h12 rs
     = win_loop (narrow_hist [c0, c1, c2, c3, c4, c5, c6, c7, c8, c9, c10, c11] shift) (h1 # h2 # h3 # h4 # h5 # h6 # h7 # h8 # h9 # h10 # h11 # h12 # t) rs"
  by (induction rs arbitrary: h1 h2 h3 h4 h5 h6 h7 h8 h9 h10 h11 h12 t) (simp_all add: Let_def narrow_hist_def ac_simps)

lemma lpcRestoreNarrow12_win:
  assumes "shift < 32" "length coeffs = 12" "length hist = 12"
  shows "lpcRestoreNarrow12 res coeffs hist shift = win_loop (narrow_hist coeffs shift) (rev hist) res"
proof -
  have "[coeffs ! 0, coeffs ! 1, coeffs ! 2, coeffs ! 3, coeffs ! 4, coeffs ! 5, coeffs ! 6, coeffs ! 7, coeffs ! 8, coeffs ! 9, coeffs ! 10, coeffs ! 11] = coeffs" "[hist ! 11, hist ! 10, hist ! 9, hist ! 8, hist ! 7, hist ! 6, hist ! 5, hist ! 4, hist ! 3, hist ! 2, hist ! 1, hist ! 0] = rev hist"
    using list_nths [OF assms(2)] list_nths [OF assms(3), THEN arg_cong [where f = rev]] by (simp_all add: upt_rec numeral_eq_Suc)
  then show ?thesis unfolding lpcRestoreNarrow12_def narrow12_loop_win [OF assms(1), where t = "[]"] by (simp only:)
qed


lemmas lpcRestoreNarrow_wins = lpcRestoreNarrow1_win lpcRestoreNarrow2_win lpcRestoreNarrow3_win lpcRestoreNarrow4_win lpcRestoreNarrow5_win lpcRestoreNarrow6_win lpcRestoreNarrow7_win lpcRestoreNarrow8_win lpcRestoreNarrow9_win lpcRestoreNarrow10_win lpcRestoreNarrow11_win lpcRestoreNarrow12_win

lemma lpcRestoreScalarNarrow_win:
  assumes "1 \<le> length coeffs" "length coeffs \<le> 12" "length coeffs < length residual"
  shows "lpcRestoreScalarNarrow residual coeffs shift = take (length coeffs) residual
     @ win_loop (narrow_hist coeffs (min shift 31)) (rev (take (length coeffs) residual)) (drop (length coeffs) residual)"
proof -
  let ?o = "length coeffs" and ?h = "take (length coeffs) residual"
  have h: "length ?h = ?o" using assms by simp
  have s: "min shift maxLPCShiftNarrow = min shift 31" "min shift 31 < 32" by (simp_all add: maxLPCShiftNarrow_def)
  have "?o = 1 \<or> ?o = 2 \<or> ?o = 3 \<or> ?o = 4 \<or> ?o = 5 \<or> ?o = 6 \<or> ?o = 7 \<or> ?o = 8 \<or> ?o = 9 \<or> ?o = 10 \<or> ?o = 11 \<or> ?o = 12"
    using assms by presburger
  then consider "?o = 1" | "?o = 2" | "?o = 3" | "?o = 4" | "?o = 5" | "?o = 6" | "?o = 7" | "?o = 8" | "?o = 9"
    | "?o = 10" | "?o = 11" | "?o = 12" by blast
  then show ?thesis
    using assms h
    by cases (simp_all add: lpcRestoreScalarNarrow_def Let_def maxScalarKernelOrderNarrow_def s lpcRestoreNarrow_wins)
qed

lemma narrow_window:
  assumes "length coeffs \<le> n" "n \<le> length d"
  shows "foldl (\<lambda>acc k. acc + map (\<lambda>k. coeffs ! (length coeffs - 1 - k)) [0..<length coeffs] ! k
             * take (length coeffs) (drop (n - length coeffs) d) ! k) 0 [0..<length coeffs]
         = dot coeffs (rev (take n d))" (is "foldl ?f 0 _ = _")
proof -
  let ?o = "length coeffs" and ?w = "take (length coeffs) (drop (n - length coeffs) d)"
  have rc: "map (\<lambda>k. coeffs ! (?o - 1 - k)) [0..<?o] = rev coeffs"
    by (rule nth_equalityI) (auto simp: rev_nth)
  have w: "map (\<lambda>k. ?w ! k) [0..<length (rev coeffs)] = ?w"
    using list_nths [of ?w ?o] assms by simp
  have "rev ?w = take ?o (rev (take n d))"
    using assms by (simp add: take_rev drop_take)
  then have "?w = rev (take ?o (rev (take n d)))" by (metis rev_rev_ident)
  moreover have "foldl ?f 0 [0..<?o] = dot (rev coeffs) ?w"
    using foldl_sum_dot [of "rev coeffs" "\<lambda>k. ?w ! k" 0] w unfolding rc by simp
  moreover have "dot (rev coeffs) (rev h) = dot coeffs h" if "length h = ?o" for h
    using that by (simp add: dot_def zip_rev rev_map [symmetric])
  moreover have "dot coeffs (take ?o (rev (take n d))) = dot coeffs (rev (take n d))"
    by (simp add: dot_take)
  ultimately show ?thesis using assms by simp
qed

lemma lpcRestoreGoNarrow_win:
  assumes "1 \<le> length coeffs" "length coeffs \<le> 32" "length coeffs < length residual"
  shows "lpcRestoreGoNarrow residual coeffs shift = take (length coeffs) residual
     @ win_loop (narrow_hist coeffs (min shift 31)) (rev (take (length coeffs) residual)) (drop (length coeffs) residual)"
proof -
  let ?o = "length coeffs" and ?s = "min shift 31"
  let ?pred = "\<lambda>out i. signed_drop_bit (?s mod 32) (foldl (\<lambda>acc k. acc + map (\<lambda>k. coeffs ! (?o - 1 - k)) [0..<?o] ! k
             * take ?o (drop (i - ?o) out) ! k) 0 [0..<?o])"
  have "lpcRestoreGoNarrow residual coeffs shift = restore_loop ?pred ?o residual"
    using assms restore_loop_src [of residual ?pred ?o]
    by (auto simp: lpcRestoreGoNarrow_def Let_def maxLPCShiftNarrow_def maxLPCRestoreOrder_def)
  also have "\<dots> = take ?o residual @ win_loop (narrow_hist coeffs ?s) (rev (take ?o residual)) (drop ?o residual)"
  proof (rule restore_win_loop)
    fix ys :: "i32 list" and n assume "?o \<le> n" "n < length ys"
    then show "?pred ys n = narrow_hist coeffs ?s (rev (take n ys))"
      using narrow_window [of coeffs n ys] by (simp add: narrow_hist_def)
  qed (use assms in simp)
  finally show ?thesis .
qed

text \<open>An exact integer reading of a sum of products that cannot overflow.\<close>

definition coeff_sum :: "i32 list \<Rightarrow> int" where
  "coeff_sum coeffs = (\<Sum>c \<leftarrow> coeffs. \<bar>sint c\<bar>)"

lemma coeff_sum_nonneg: "0 \<le> coeff_sum cs"
  by (induction cs) (simp_all add: coeff_sum_def)

lemma dot_sint:
  assumes "\<forall>x \<in> set h. \<bar>sint x\<bar> \<le> B" "0 \<le> B" "coeff_sum cs * B < 2 ^ 31"
  shows "sint (dot cs h) = dot (map sint cs) (map sint h) \<and> \<bar>dot (map sint cs) (map sint h)\<bar> \<le> coeff_sum cs * B
     \<and> sint (dot (map scast cs) (map scast h) :: i64) = dot (map sint cs) (map sint h)"
  using assms(1,3)
proof (induction cs arbitrary: h)
  case Nil
  then show ?case by (simp add: coeff_sum_def)
next
  case (Cons c cs)
  have nn: "0 \<le> \<bar>sint c\<bar> * B" "0 \<le> coeff_sum cs * B" using assms(2) coeff_sum_nonneg by simp_all
  have A: "coeff_sum (c # cs) * B = \<bar>sint c\<bar> * B + coeff_sum cs * B" by (simp add: coeff_sum_def algebra_simps)
  show ?case
  proof (cases h)
    case Nil
    then show ?thesis using A nn by simp
  next
    case (Cons x t)
    have ih: "sint (dot cs t) = dot (map sint cs) (map sint t)" "\<bar>dot (map sint cs) (map sint t)\<bar> \<le> coeff_sum cs * B"
      "sint (dot (map scast cs) (map scast t) :: i64) = dot (map sint cs) (map sint t)"
      using Cons.IH [of t] Cons.prems Cons A nn by simp_all
    have p: "\<bar>sint c * sint x\<bar> \<le> \<bar>sint c\<bar> * B"
      using Cons.prems(1) Cons by (simp add: abs_mult mult_left_mono)
    let ?d = "dot (map sint cs) (map sint t)"
    have b: "\<bar>sint c * sint x\<bar> < 2 ^ 31" "\<bar>sint c * sint x + ?d\<bar> < 2 ^ 31" "\<bar>sint c * sint x + ?d\<bar> \<le> coeff_sum (c # cs) * B"
      using p ih(2) A nn Cons.prems(2) by linarith+
    have f: "fits 32 (sint c * sint x)" "fits 32 (sint c * sint x + ?d)" "fits 64 (sint c * sint x)" "fits 64 (sint c * sint x + ?d)"
      using b by (simp_all add: fits_def abs_less_iff)
    have m: "sint (c * x) = sint c * sint x" "sint (scast c * scast x :: i64) = sint c * sint x"
      using f(1) sint_mult_fits [of c x] f(3) sint_mult_fits [of "scast c :: i64" "scast x"]
      by (simp_all add: sint_scast_up)
    show ?thesis
      using f(2,4) b(3) sint_add_fits [of "c * x" "dot cs t"]
        sint_add_fits [of "scast c * scast x :: i64" "dot (map scast cs) (map scast t)"]
      by (simp add: Cons m ih)
  qed
qed

lemma abs64_unat: "unat (let x = scast c; y = - x in if x <s y then y else x :: u64) = nat \<bar>sint c\<bar>" for c :: i32
proof -
  have s: "sint (scast c :: i64) = sint c" by (simp add: sint_scast_up)
  have b: "- (2 ^ 31) \<le> sint c" "sint c < 2 ^ 31" using sint_fits [of c] by (simp_all add: fits_def)
  have m: "sint (- scast c :: i64) = - sint c"
    using sint_diff_fits [of "0::i64" "scast c"] b by (simp add: s fits_def)
  let ?r = "let x = scast c; y = - x in if x <s y then y else x :: u64"
  have "sint ?r = \<bar>sint c\<bar>" by (simp add: Let_def word_sless_alt s m)
  moreover have "\<bar>sint c\<bar> < 2 ^ 64" using b by (simp add: abs_less_iff)
  ultimately have "uint ?r = \<bar>sint c\<bar>" by (simp add: uint_sint take_bit_int_eq_self del: Let_def)
  then show ?thesis by (simp add: unat_eq_nat_uint)
qed

lemma narrow_sum:
  "length cs \<le> 32 \<Longrightarrow> unat (foldl (\<lambda>a c. a + (let x = scast c; y = - x in if x <s y then y else x)) (0::u64) cs) = nat (coeff_sum cs)"
proof -
  have b: "coeff_sum cs \<le> int (length cs) * 2 ^ 31" for cs
  proof (induction cs)
    case (Cons c cs)
    have "\<bar>sint c\<bar> \<le> 2 ^ 31" using sint_fits [of c] by (auto simp: fits_def abs_le_iff)
    with Cons show ?case by (simp add: coeff_sum_def algebra_simps)
  qed (simp add: coeff_sum_def)
  assume "length cs \<le> 32"
  then have "int (length cs) \<le> 32" by simp
  then have "coeff_sum cs < 2 ^ 64" using b [of cs] by simp
  then show ?thesis
  proof (induction cs rule: rev_induct)
    case (snoc c cs)
    have A: "coeff_sum (cs @ [c]) = coeff_sum cs + \<bar>sint c\<bar>" by (simp add: coeff_sum_def)
    then have "coeff_sum cs < 2 ^ 64" using snoc.prems by simp
    with snoc.IH have ih: "unat (foldl (\<lambda>a c. a + (let x = scast c; y = - x in if x <s y then y else x)) (0::u64) cs) = nat (coeff_sum cs)" .
    have nn: "0 \<le> coeff_sum cs + \<bar>sint c\<bar>" using coeff_sum_nonneg [of cs] by simp
    have "nat (coeff_sum cs + \<bar>sint c\<bar>) < 2 ^ 64"
      unfolding nat_less_iff [OF nn] using snoc.prems A by simp
    then have "nat (coeff_sum cs) + nat \<bar>sint c\<bar> < 2 ^ 64"
      using coeff_sum_nonneg [of cs] by (simp add: nat_add_distrib)
    then show ?case
      using coeff_sum_nonneg [of cs] by (simp add: unat_word_ariths ih abs64_unat A nat_add_distrib del: Let_def)
  qed (simp add: coeff_sum_def)
qed

lemma NarrowSafe_bound:
  assumes "LPCRestoreNarrowSafe coeffs bps shift"
  shows "1 \<le> bps" "bps \<le> 32" "shift \<le> 31" "length coeffs \<le> 32" "coeff_sum coeffs * 2 ^ (bps - 1) < 2 ^ 31"
proof -
  show b: "1 \<le> bps" "bps \<le> 32" "shift \<le> 31" and l: "length coeffs \<le> 32"
    using assms by (auto simp: LPCRestoreNarrowSafe_def maxLPCShiftNarrow_def maxLPCRestoreOrder_def split: if_splits)
  let ?a = "foldl (\<lambda>a c. a + (let x = scast c; y = - x in if x <s y then y else x)) (0::u64) coeffs"
  have "?a < push_bit (32 - bps) 1"
    using assms by (auto simp: LPCRestoreNarrowSafe_def Let_def not_le split: if_splits)
  then have "unat ?a < unat (push_bit (32 - bps) 1 :: u64)" by (simp only: word_less_nat_alt)
  moreover have "unat (push_bit (32 - bps) 1 :: u64) = 2 ^ (32 - bps)"
  proof -
    have "push_bit (32 - bps) 1 = (of_nat (2 ^ (32 - bps)) :: u64)" by (simp add: push_bit_eq_mult)
    moreover have "(2::nat) ^ (32 - bps) < 2 ^ LENGTH(64)" by (rule power_strict_increasing) simp_all
    ultimately show ?thesis by (simp only: unat_of_nat mod_less)
  qed
  ultimately have "coeff_sum coeffs < 2 ^ (32 - bps)"
    unfolding narrow_sum [OF l] using coeff_sum_nonneg [of coeffs] by (metis nat_less_numeral_power_cancel_iff)
  then have "coeff_sum coeffs * 2 ^ (bps - 1) < 2 ^ (32 - bps) * 2 ^ (bps - 1)" by simp
  also have "\<dots> = (2::int) ^ 31" using b by (simp flip: power_add)
  finally show "coeff_sum coeffs * 2 ^ (bps - 1) < 2 ^ 31" .
qed

lemma fits_div: "fits n x \<Longrightarrow> fits n (x div 2 ^ k)"
  using zdiv_mono2 [of x 1 "2 ^ k"] zdiv_mono2_neg [of x 1 "2 ^ k"] pos_imp_zdiv_nonneg_iff [of "2 ^ k" x]
  by (cases "0 \<le> x") (auto simp: fits_def)

lemma sint_eqI: "sint x = sint y \<Longrightarrow> x = y"
  by (rule signed_word_eqI)

lemma narrow_hist_eq:
  assumes "LPCRestoreNarrowSafe coeffs bps shift" "\<forall>x \<in> set h. fits bps (sint x)"
  shows "narrow_hist coeffs shift h = lpc_hist coeffs shift h"
proof -
  note b = NarrowSafe_bound [OF assms(1)]
  have "\<forall>x \<in> set h. \<bar>sint x\<bar> \<le> 2 ^ (bps - 1)" using assms(2) by (auto simp: fits_def)
  note d = dot_sint [OF this _ b(5), simplified]
  let ?d = "dot (map sint coeffs) (map sint h)"
  have "fits 32 ?d" using d b(5) by (auto simp: fits_def abs_le_iff)
  then have "fits 32 (?d div 2 ^ shift)" by (rule fits_div)
  then have "sint (lpc_hist coeffs shift h) = ?d div 2 ^ shift"
    unfolding lpc_hist_def using d by (subst sint_ucast_down) (simp_all add: sint_signed_drop_bit)
  moreover have "sint (narrow_hist coeffs shift h) = ?d div 2 ^ shift"
    using d by (simp add: narrow_hist_def sint_signed_drop_bit)
  ultimately show ?thesis by (intro sint_eqI) simp
qed

lemma win_loop_agree:
  assumes "\<And>h. \<forall>x \<in> set h. P x \<Longrightarrow> f h = g h" "\<forall>x \<in> set h. P x"
    "(\<forall>x \<in> set (win_loop f h rs). P x) \<or> (\<forall>x \<in> set (win_loop g h rs). P x)"
  shows "win_loop f h rs = win_loop g h rs"
  using assms(2,3)
proof (induction rs arbitrary: h)
  case (Cons r rs)
  then have "f h = g h" using assms(1) by blast
  then show ?case using Cons.prems by (auto simp: Let_def intro!: Cons.IH)
qed simp

lemma LPCRestoreNarrow_agree:
  assumes safe: "LPCRestoreNarrowSafe coeffs bps shift"
    and warm: "\<forall>x \<in> set (take (length coeffs) residual). fits bps (sint x)"
    and res: "(\<forall>x \<in> set (LPCRestoreNarrow residual coeffs shift). fits bps (sint x))
            \<or> (\<forall>x \<in> set (LPCRestore residual coeffs shift). fits bps (sint x))"
  shows "LPCRestoreNarrow residual coeffs shift = LPCRestore residual coeffs shift"
proof (cases "coeffs \<noteq> [] \<and> length coeffs \<le> 7 \<and> length coeffs < length residual")
  case False
  then show ?thesis
    by (auto simp: LPCRestoreNarrow_def LPCRestore_def Let_def maxScalarRestoreOrderNarrow_def)
next
  case True
  note b = NarrowSafe_bound [OF safe]
  let ?o = "length coeffs"
  have o: "1 \<le> ?o" using True by (simp add: Suc_le_eq)
  have N: "LPCRestoreNarrow residual coeffs shift = take ?o residual
      @ win_loop (narrow_hist coeffs shift) (rev (take ?o residual)) (drop ?o residual)"
    using True o b lpcRestoreScalarNarrow_win [of coeffs residual shift]
    by (simp add: LPCRestoreNarrow_def Let_def maxScalarRestoreOrderNarrow_def maxScalarKernelOrderNarrow_def
        maxLPCShiftNarrow_def min_def)
  have W: "LPCRestore residual coeffs shift = take ?o residual
      @ win_loop (lpc_hist coeffs shift) (rev (take ?o residual)) (drop ?o residual)"
    using True b lpcRestoreGo_win [of coeffs residual shift] LPCRestore_loop [of coeffs residual shift]
    by (simp add: min_def lpcRestoreGo_loop)
  have "win_loop (narrow_hist coeffs shift) (rev (take ?o residual)) (drop ?o residual)
      = win_loop (lpc_hist coeffs shift) (rev (take ?o residual)) (drop ?o residual)"
    by (rule win_loop_agree [where P = "\<lambda>x. fits bps (sint x)"])
      (use narrow_hist_eq [OF safe] warm res N W in auto)
  then show ?thesis by (simp add: N W)
qed

end
