(* ===== verification/Lpc.thy ===== *)
theory Lpc
  imports I32
begin

text \<open>
  The predictors of \<^verbatim>\<open>src/internal/lpc\<close>: the scalar restore loops (\<^verbatim>\<open>lpc.go\<close>), the residual
  computations of both sample widths (\<^verbatim>\<open>encode.go\<close>) and the dispatch to the integer kernels
  (\<^verbatim>\<open>simd.go\<close>). Go's type parameter over \<open>int32\<close> and \<open>int64\<close> is a word length. The lemmas show
  that each restore inverts its residual computation for every signal, coefficient set
  and shift, and that the dispatched 32-bit routes compute what the scalar loops do.
\<close>

section \<open>Scalar restoration\<close>

definition fixedCoeffs :: "i64 list list" where
  "fixedCoeffs = [[], [1], [2, -1], [3, -3, 1], [4, -6, 4, -1]]"

text \<open>\<open>pred += c * int64(x[n-1-i])\<close>, over all coefficients.\<close>

definition predSum :: "i64 list \<Rightarrow> 'a::len word list \<Rightarrow> nat \<Rightarrow> i64" where
  "predSum coeffs x n = foldl (\<lambda>pred i. pred + coeffs ! i * scast (x ! (n - 1 - i))) 0 [0..<length coeffs]"

definition RestoreFixed :: "'a::len word list \<Rightarrow> nat \<Rightarrow> 'a word list" where
  "RestoreFixed dst order =
     (let coeffs = fixedCoeffs ! order
      in foldl (\<lambda>d n. d[n := d ! n + ucast (predSum coeffs d n)]) dst [order..<length dst])"

definition RestoreLPC :: "'a::len word list \<Rightarrow> i32 list \<Rightarrow> nat \<Rightarrow> 'a word list" where
  "RestoreLPC dst coeffs shift =
     foldl (\<lambda>d n. d[n := d ! n + ucast (signed_drop_bit shift (predSum (map scast coeffs) d n))])
       dst [length coeffs..<length dst]"

section \<open>Residuals\<close>

text \<open>\<open>nres\<close> is the length of the destination, \<open>len(src) - order\<close> at every call.\<close>

definition ComputeFixedResiduals :: "nat \<Rightarrow> i32 list \<Rightarrow> nat \<Rightarrow> i32 list" where
  "ComputeFixedResiduals nres src order =
     (if order = 0 then take nres src
      else if order = 1 then map (\<lambda>i. src ! (i + 1) - src ! i) [0..<nres]
      else if order = 2 then
        map (\<lambda>i. src ! (i + 2) - ucast (2 * scast (src ! (i + 1)) - scast (src ! i) :: i64)) [0..<nres]
      else if order = 3 then
        map (\<lambda>i. src ! (i + 3)
               - ucast (3 * scast (src ! (i + 2)) - 3 * scast (src ! (i + 1)) + scast (src ! i) :: i64)) [0..<nres]
      else if order = 4 then
        map (\<lambda>i. src ! (i + 4)
               - ucast (4 * scast (src ! (i + 3)) - 6 * scast (src ! (i + 2)) + 4 * scast (src ! (i + 1))
                        - scast (src ! i) :: i64)) [0..<nres]
      else map (\<lambda>i. src ! (order + i) - ucast (predSum (fixedCoeffs ! order) src (order + i))) [0..<nres])"

definition ComputeFixedResiduals64 :: "nat \<Rightarrow> i64 list \<Rightarrow> nat \<Rightarrow> i64 list" where
  "ComputeFixedResiduals64 nres src order =
     (if order = 0 then take nres src
      else if order = 1 then map (\<lambda>i. src ! (i + 1) - src ! i) [0..<nres]
      else if order = 2 then map (\<lambda>i. src ! (i + 2) - (2 * src ! (i + 1) - src ! i)) [0..<nres]
      else if order = 3 then
        map (\<lambda>i. src ! (i + 3) - (3 * src ! (i + 2) - 3 * src ! (i + 1) + src ! i)) [0..<nres]
      else if order = 4 then
        map (\<lambda>i. src ! (i + 4) - (4 * src ! (i + 3) - 6 * src ! (i + 2) + 4 * src ! (i + 1) - src ! i)) [0..<nres]
      else map (\<lambda>i. src ! (order + i) - predSum (fixedCoeffs ! order) src (order + i)) [0..<nres])"

definition ComputeLPCResiduals :: "nat \<Rightarrow> i32 list \<Rightarrow> i32 list \<Rightarrow> nat \<Rightarrow> nat \<Rightarrow> i32 list" where
  "ComputeLPCResiduals nres src qcoeff shift order =
     map (\<lambda>i. src ! (order + i)
            - ucast (signed_drop_bit shift (predSum (map scast qcoeff) src (order + i)))) [0..<nres]"

definition ComputeLPCResiduals64 :: "nat \<Rightarrow> i64 list \<Rightarrow> i32 list \<Rightarrow> nat \<Rightarrow> nat \<Rightarrow> i64 list" where
  "ComputeLPCResiduals64 nres src qcoeff shift order =
     map (\<lambda>i. src ! (order + i)
            - signed_drop_bit shift (predSum (map scast qcoeff) src (order + i))) [0..<nres]"

definition FixedAbsSums :: "i32 list \<Rightarrow> u64 list" where
  "FixedAbsSums src = i32FixedAbsSums src"

definition FixedAbsSums64 :: "i64 list \<Rightarrow> u64 list" where
  "FixedAbsSums64 src =
     (case foldl (\<lambda>((s0, s1, s2, s3, s4), p1, p2, p3, p4) i.
             let e0 = src ! i; e1 = e0 - p1; e2 = e1 - p2; e3 = e2 - p3; e4 = e3 - p4
             in ((s0 + absU64 e0, if i \<ge> 1 then s1 + absU64 e1 else s1, if i \<ge> 2 then s2 + absU64 e2 else s2,
                  if i \<ge> 3 then s3 + absU64 e3 else s3, if i \<ge> 4 then s4 + absU64 e4 else s4), e0, e1, e2, e3))
           ((0, 0, 0, 0, 0), 0, 0, 0, 0) [0..<length src] of
        ((s0, s1, s2, s3, s4), _) \<Rightarrow> [s0, s1, s2, s3, s4])"

section \<open>Dispatch to the integer kernels\<close>

text \<open>An order the code panics on leaves \<open>None\<close>.\<close>

definition FixedResidualsDiff :: "i32 list \<Rightarrow> i32 list \<Rightarrow> nat \<Rightarrow> i32 list option" where
  "FixedResidualsDiff dst src order =
     (if order = 1 then Some (Diff1 dst src)
      else if order = 2 then Some (Diff2 dst src)
      else if order = 3 then Some (Diff3 dst src)
      else if order = 4 then Some (Diff4 dst src)
      else None)"

definition LPCResidualsEncode :: "i32 list \<Rightarrow> i32 list \<Rightarrow> i32 list \<Rightarrow> nat \<Rightarrow> i32 list" where
  "LPCResidualsEncode dst src qcoeff shift =
     LPCResidualEncode (take (length src) dst) src qcoeff shift @ drop (length src) dst"

definition RestoreFixed32 :: "i32 list \<Rightarrow> nat \<Rightarrow> i32 list option" where
  "RestoreFixed32 dst order =
     (if order = 1 then Some (Restore1 dst dst)
      else if order = 2 then Some (Restore2 dst dst)
      else if order = 3 then Some (Restore3 dst dst)
      else if order = 4 then Some (Restore4 dst dst)
      else None)"

definition RestoreLPC32 :: "i32 list \<Rightarrow> i32 list \<Rightarrow> nat \<Rightarrow> nat \<Rightarrow> i32 list" where
  "RestoreLPC32 dst coeffs shift bps =
     (if bps > 0 \<and> LPCRestoreNarrowSafe coeffs bps shift then LPCRestoreNarrow dst coeffs shift
      else LPCRestore dst coeffs shift)"

section \<open>The fixed predictors of both widths\<close>

lemma ucast_of_int_down: "LENGTH('b) \<le> LENGTH('a) \<Longrightarrow> ucast (of_int k :: 'a::len word) = (of_int k :: 'b::len word)"
  by transfer (simp add: min_def)

lemma ucast_numeral_down:
  assumes "LENGTH('b) \<le> LENGTH('a)"
  shows "ucast (numeral k :: 'a::len word) = (numeral k :: 'b::len word)"
    "ucast (- numeral k :: 'a word) = (- numeral k :: 'b word)" "ucast (- 1 :: 'a word) = (- 1 :: 'b word)"
  using ucast_of_int_down [OF assms, of "numeral k"] ucast_of_int_down [OF assms, of "- numeral k"]
    ucast_of_int_down [OF assms, of "- 1"] by simp_all

lemma predSum_fixed:
  fixes x :: "'a::len word list"
  assumes "order \<le> 4" "LENGTH('a) \<le> 64"
  shows "ucast (predSum (fixedCoeffs ! order) x n) = fixed_pred order x n"
proof -
  have len: "LENGTH('a) \<le> LENGTH(64)" using assms(2) by simp
  note down = ucast_add_down [OF len] ucast_minus_down [OF len] ucast_mult_down [OF len] ucast_scast_down [OF len] ucast_numeral_down [OF len]
  have u: "[0..<1] = [0::nat]" "[0..<2] = [0::nat, 1]" "[0..<3] = [0::nat, 1, 2]" "[0..<4] = [0::nat, 1, 2, 3]"
    by (simp_all add: upt_rec)
  consider "order = 0" | "order = 1" | "order = 2" | "order = 3" | "order = 4" using assms by linarith
  then show ?thesis
    by cases (simp_all add: predSum_def fixedCoeffs_def fixed_pred_def u down del: unsigned_numeral,
        simp_all add: numeral_eq_Suc)
qed

lemma RestoreFixed_loop:
  fixes dst :: "'a::len word list"
  assumes "order \<le> 4" "LENGTH('a) \<le> 64"
  shows "RestoreFixed dst order = restore_loop (fixed_pred order) order dst"
  by (simp add: RestoreFixed_def restore_loop_def Let_def predSum_fixed [OF assms])

lemma ComputeFixedResiduals_eq:
  assumes "order \<le> 4" "nres = length src - order"
  shows "ComputeFixedResiduals nres src order = residuals (fixed_pred order) order src"
proof -
  have len: "LENGTH(32) \<le> LENGTH(64)" by simp
  note down = ucast_add_down [OF len] ucast_minus_down [OF len] ucast_mult_down [OF len] ucast_scast_down [OF len] ucast_numeral_down [OF len]
  have shift: "map f [0..<nres] = map (\<lambda>n. f (n - order)) [order..<length src]" for f :: "nat \<Rightarrow> i32"
    using assms(2) by (auto intro: nth_equalityI)
  consider "order = 0" | "order = 1" | "order = 2" | "order = 3" | "order = 4" using assms by linarith
  then show ?thesis
  proof cases
    case 1
    then show ?thesis using assms(2)
      by (auto simp: ComputeFixedResiduals_def residuals_def fixed_pred_def intro: nth_equalityI)
  qed (simp_all add: ComputeFixedResiduals_def residuals_def fixed_pred_def shift down del: unsigned_numeral,
      auto simp: numeral_eq_Suc algebra_simps Suc_diff_Suc Suc_le_eq)
qed

lemma ComputeFixedResiduals64_eq:
  assumes "order \<le> 4" "nres = length src - order"
  shows "ComputeFixedResiduals64 nres src order = residuals (fixed_pred order) order src"
proof -
  have shift: "map f [0..<nres] = map (\<lambda>n. f (n - order)) [order..<length src]" for f :: "nat \<Rightarrow> i64"
    using assms(2) by (auto intro: nth_equalityI)
  consider "order = 0" | "order = 1" | "order = 2" | "order = 3" | "order = 4" using assms by linarith
  then show ?thesis
  proof cases
    case 1
    then show ?thesis using assms(2)
      by (auto simp: ComputeFixedResiduals64_def residuals_def fixed_pred_def intro: nth_equalityI)
  qed (simp_all add: ComputeFixedResiduals64_def residuals_def fixed_pred_def shift,
      auto simp: numeral_eq_Suc algebra_simps Suc_diff_Suc Suc_le_eq)
qed

text \<open>The fixed predictor of any order up to 4 and either width is inverted by \<open>RestoreFixed\<close>.\<close>

lemma RestoreFixed_residuals:
  fixes src :: "'a::len word list"
  assumes "order \<le> 4" "LENGTH('a) \<le> 64"
  shows "RestoreFixed (take order src @ residuals (fixed_pred order) order src) order = src"
  by (simp add: RestoreFixed_loop [OF assms] fixed_predictor.restore_residuals)

lemma restoreI32_short: "length xs \<le> length c - 1 \<Longrightarrow> restoreI32 xs xs c = xs"
  by (simp add: restoreI32_def Let_def)

lemma restore_loop_short: "length xs \<le> order \<Longrightarrow> restore_loop pred order xs = xs"
  by (simp add: restore_loop_def)

lemma RestoreFixed32_eq:
  assumes "1 \<le> order" "order \<le> 4"
  shows "RestoreFixed32 dst order = Some (RestoreFixed dst order)"
proof -
  have r: "restoreI32 dst dst c = RestoreFixed dst order" if "length c = Suc order" for c
    using that restoreI32_fixed [of order dst c] restoreI32_short [of dst c] assms
      restore_loop_short [of dst order "fixed_pred order"]
    by (cases "order < length dst") (simp_all add: RestoreFixed_loop)
  consider "order = 1" | "order = 2" | "order = 3" | "order = 4" using assms by linarith
  then show ?thesis
    by cases (simp_all add: RestoreFixed32_def Restore1_def Restore2_def Restore3_def Restore4_def
        r fixedCoeffs1_def fixedCoeffs2_def fixedCoeffs3_def fixedCoeffs4_def)
qed

lemma FixedResidualsDiff_eq:
  assumes "1 \<le> order" "order \<le> 4" "order \<le> length src" "length dst = length src"
  shows "FixedResidualsDiff dst src order = Some (take order src @ residuals (fixed_pred order) order src)"
proof -
  have k: "DiffK c dst src = diffGo src c" if "length src \<noteq> 0" for c
    using assms(4) that by (simp add: DiffK_def Let_def)
  have "length src \<noteq> 0" using assms by linarith
  note k = k [OF this]
  consider "order = 1" | "order = 2" | "order = 3" | "order = 4" using assms by linarith
  then show ?thesis
    using assms
    by cases (simp_all add: FixedResidualsDiff_def Diff1_def Diff2_def Diff3_def Diff4_def k diffGo_fixed)
qed

section \<open>Quantized LPC of both widths\<close>

definition lpc_pred64 :: "i32 list \<Rightarrow> nat \<Rightarrow> i64 list \<Rightarrow> nat \<Rightarrow> i64" where
  "lpc_pred64 coeffs shift d n = signed_drop_bit shift (predSum (map scast coeffs) d n)"

lemma predSum_lpcSum: "predSum (map scast coeffs) d n = lpcSum coeffs d n" for d :: "i32 list"
  unfolding predSum_def lpcSum_def length_map by (rule foldl_cong) auto

interpretation lpc64_predictor: predictor "lpc_pred64 coeffs shift" "length coeffs" for coeffs shift
proof
  fix n and xs ys :: "i64 list"
  assume a: "length coeffs \<le> n" "n < length xs" "n < length ys" "take n xs = take n ys"
  have "predSum (map scast coeffs) xs n = predSum (map scast coeffs) ys n"
    unfolding predSum_def
  proof (rule foldl_cong)
    fix acc :: i64 and i assume "i \<in> set [0..<length (map scast coeffs :: i64 list)]"
    then have "xs ! (n - 1 - i) = ys ! (n - 1 - i)" using a by (intro nth_eq_of_take [OF a(4)]) auto
    then show "acc + map scast coeffs ! i * scast (xs ! (n - 1 - i)) = acc + map scast coeffs ! i * scast (ys ! (n - 1 - i))"
      by simp
  qed simp_all
  then show "lpc_pred64 coeffs shift xs n = lpc_pred64 coeffs shift ys n" by (simp add: lpc_pred64_def)
qed

lemma RestoreLPC_loop:
  "RestoreLPC dst coeffs shift = restore_loop (lpc_pred coeffs shift) (length coeffs) dst" for dst :: "i32 list"
  by (simp add: RestoreLPC_def restore_loop_def lpc_pred_def predSum_lpcSum)

lemma RestoreLPC64_loop:
  "RestoreLPC dst coeffs shift = restore_loop (lpc_pred64 coeffs shift) (length coeffs) dst" for dst :: "i64 list"
  by (simp add: RestoreLPC_def restore_loop_def lpc_pred64_def)

lemma ComputeLPCResiduals_eq:
  "nres = length src - length coeffs \<Longrightarrow>
   ComputeLPCResiduals nres src coeffs shift (length coeffs) = residuals (lpc_pred coeffs shift) (length coeffs) src"
  by (auto simp: ComputeLPCResiduals_def residuals_def lpc_pred_def predSum_lpcSum intro: nth_equalityI)

lemma ComputeLPCResiduals64_eq:
  "nres = length src - length coeffs \<Longrightarrow>
   ComputeLPCResiduals64 nres src coeffs shift (length coeffs) = residuals (lpc_pred64 coeffs shift) (length coeffs) src"
  by (auto simp: ComputeLPCResiduals64_def residuals_def lpc_pred64_def intro: nth_equalityI)

lemma LPCResidualsEncode_eq:
  assumes "coeffs \<noteq> []" "length dst = length src" "length coeffs \<le> length src" "shift \<le> 63"
  shows "LPCResidualsEncode dst src coeffs shift
       = take (length coeffs) src @ residuals (lpc_pred coeffs shift) (length coeffs) src"
proof (cases "length coeffs < length src")
  case True
  then show ?thesis using assms lpcResidualEncodeGo_residuals [of coeffs src shift]
    by (auto simp: LPCResidualsEncode_def LPCResidualEncode_def Let_def maxLPCShift_def)
next
  case False
  then show ?thesis using assms
    by (auto simp: LPCResidualsEncode_def LPCResidualEncode_def Let_def residuals_def)
qed

lemma RestoreLPC32_loop:
  assumes "coeffs \<noteq> []" "shift \<le> 63" "\<forall>x \<in> set (take (length coeffs) dst). fits bps (sint x)"
    and "(\<forall>x \<in> set (RestoreLPC32 dst coeffs shift bps). fits bps (sint x))
       \<or> (\<forall>x \<in> set (RestoreLPC dst coeffs shift). fits bps (sint x))"
  shows "RestoreLPC32 dst coeffs shift bps = RestoreLPC dst coeffs shift"
proof -
  have l: "LPCRestore dst coeffs shift = RestoreLPC dst coeffs shift"
    using assms(2) by (simp add: LPCRestore_loop [OF assms(1)] RestoreLPC_loop min_def)
  show ?thesis
    using LPCRestoreNarrow_agree [of coeffs bps shift dst] assms(3,4) l by (auto simp: RestoreLPC32_def)
qed

lemma length_LPCRestore [simp]: "length (LPCRestore dst coeffs shift) = length dst"
  by (cases "coeffs = []") (simp_all add: LPCRestore_loop, simp add: LPCRestore_def Let_def)

end
