(* ===== verification/Rice.thy ===== *)
theory Rice
  imports Parsing Lpc
begin

text \<open>
  The partitioned Rice coder of \<^verbatim>\<open>src/internal/rice\<close>: the decoder of a residual
  (\<^verbatim>\<open>rice.go\<close>), the planner that chooses the partition order and each partition's parameter
  from tables built once and merged upward, and the writer of a planned residual
  (\<^verbatim>\<open>encode.go\<close>), with the estimates of \<^verbatim>\<open>estimate.go\<close>. The lemmas show that what is written
  decodes to the residual it was written from, for every plan whose fields suit the
  residual, that the planner only produces such plans, and that the bit count it
  announces is the number of bits the writer appends.
\<close>

section \<open>Decoding\<close>

definition method4bit :: u64 where "method4bit = 0"
definition method5bit :: u64 where "method5bit = 1"
definition escape4 :: u64 where "escape4 = 0x0F"
definition escape5 :: u64 where "escape5 = 0x1F"

definition highBits :: "u64 \<Rightarrow> nat \<Rightarrow> u64" where
  "highBits q k = drop_bit (32 - k) q"

text \<open>\<open>T(int64(u>>1) ^ -int64(u&1))\<close>.\<close>

definition unzigzag :: "u64 \<Rightarrow> 'a::len word" where
  "unzigzag u = ucast (drop_bit 1 u XOR - (u AND 1))"

definition readRiceSymbol :: "nat \<Rightarrow> (u64 \<times> 'a::len word, 't) rm" where
  "readRiceSymbol k =
     bindR ReadUnary (\<lambda>q. bindR (ReadBits k) (\<lambda>r.
       retR (highBits q k, unzigzag (push_bit k q OR r))))"

definition readRawSample :: "nat \<Rightarrow> ('a::len word, 't) rm" where
  "readRawSample raw = bindR (ReadSigned raw) (\<lambda>v. retR (ucast v))"

text \<open>
  The body of the partition loop: \<open>n\<close> residuals, and what the over-range accumulator
  collects from them.
\<close>

definition readPartition :: "nat \<Rightarrow> u64 \<Rightarrow> nat \<Rightarrow> (u64 \<times> 'a::len word list, 't) rm" where
  "readPartition paramBits escape n =
     bindR (ReadBits paramBits) (\<lambda>param.
       if param = escape
       then bindR (ReadBits 5) (\<lambda>raw. bindR (readN n (readRawSample (unat raw))) (\<lambda>vs. retR (0, vs)))
       else bindR (readN n (readRiceSymbol (unat param))) (\<lambda>qs.
              retR (foldl (\<lambda>over s. over OR fst s) 0 qs, map snd qs)))"

fun readPartitions :: "nat \<Rightarrow> u64 \<Rightarrow> int list \<Rightarrow> (u64 \<times> 'a::len word list, 't) rm" where
  "readPartitions paramBits escape [] = retR (0, [])"
| "readPartitions paramBits escape (n # ns) =
     (if n < 0 then failR ErrUnsupported
      else bindR (readPartition paramBits escape (nat n)) (\<lambda>(over, vs).
             bindR (readPartitions paramBits escape ns) (\<lambda>(over', vs').
               retR (over OR over', vs @ vs'))))"

text \<open>
  \<open>dst[predOrder:blockSize]\<close> is the result; a residual outside the 32-bit range is
  reported only after everything has been read.
\<close>

definition DecodeResidual :: "nat \<Rightarrow> nat \<Rightarrow> ('a::len word list, 't) rm" where
  "DecodeResidual blockSize predOrder =
     bindR (ReadBits 2) (\<lambda>method.
       if method = method4bit \<or> method = method5bit
       then
         let paramBits = (if method = method4bit then 4 else 5);
             escape = (if method = method4bit then escape4 else escape5)
         in bindR (ReadBits 4) (\<lambda>po.
              let partitions = 2 ^ unat po
              in if blockSize mod partitions \<noteq> 0 then failR ErrUnsupported
                 else
                   let partLen = blockSize div partitions
                   in bindR (readPartitions paramBits escape
                               (map (\<lambda>p. int partLen - (if p = 0 then int predOrder else 0)) [0..<partitions]))
                        (\<lambda>(over, vs). if over \<noteq> 0 then failR ErrResidualRange else retR vs))
       else failR ErrUnsupported)"

section \<open>Zigzag folding\<close>

definition zigzag :: "i32 \<Rightarrow> u64" where
  "zigzag r = ucast (push_bit 1 r XOR signed_drop_bit 31 r)"

definition zigzag64 :: "i64 \<Rightarrow> u64" where
  "zigzag64 r = push_bit 1 r XOR signed_drop_bit 63 r"

definition riceZigzagSum :: "i32 list \<Rightarrow> u64" where
  "riceZigzagSum res = ZigzagSum res"

definition ZigzagSum64 :: "i64 list \<Rightarrow> u64" where
  "ZigzagSum64 res = foldl (\<lambda>s r. s + zigzag64 r) 0 res"

text \<open>\<open>bits.Len64\<close>.\<close>

definition len64 :: "u64 \<Rightarrow> nat" where
  "len64 v = 64 - lz64 v"

definition EstimateRiceBits :: "u64 \<Rightarrow> nat \<Rightarrow> int" where
  "EstimateRiceBits zz n =
     (if n = 0 then 0
      else let mean = zz div of_nat n;
               k = (if mean > 0 then len64 mean - 1 else 0)
           in int (n * (1 + k)) + sint (drop_bit k zz))"

section \<open>Planning\<close>

definition maxParam4 :: nat where "maxParam4 = 14"
definition maxParam5 :: nat where "maxParam5 = 30"
definition maxRawBits :: nat where "maxRawBits = 31"
definition maxPartitionOrder :: nat where "maxPartitionOrder = 15"

record PartPlan =
  pp_escape :: bool
  pp_param :: nat
  pp_rawBits :: nat
  pp_payload :: int

text \<open>
  The planner's buffers. A list stands for the whole backing array, so \<open>ensure\<close> either
  allocates zeros or leaves what an earlier call left behind.
\<close>

record Scratch =
  sc_sums :: "u64 list"
  sc_maxU :: "u64 list"
  sc_cur :: "PartPlan list"
  sc_plans :: "PartPlan list"

definition noPlan :: PartPlan where
  "noPlan = \<lparr>pp_escape = False, pp_param = 0, pp_rawBits = 0, pp_payload = 0\<rparr>"

definition ensurePlan :: "nat \<Rightarrow> Scratch \<Rightarrow> Scratch" where
  "ensurePlan parts sc =
     sc\<lparr>sc_maxU := (if length (sc_maxU sc) < parts then replicate parts 0 else sc_maxU sc),
        sc_cur := (if length (sc_cur sc) < parts then replicate parts noPlan else sc_cur sc)\<rparr>"

definition ensureSums :: "nat \<Rightarrow> nat \<Rightarrow> Scratch \<Rightarrow> Scratch" where
  "ensureSums parts ncols sc =
     sc\<lparr>sc_sums := (if length (sc_sums sc) < parts * ncols then replicate (parts * ncols) 0 else sc_sums sc)\<rparr>"

definition ensure :: "nat \<Rightarrow> nat \<Rightarrow> Scratch \<Rightarrow> Scratch" where
  "ensure parts ncols sc = ensureSums parts ncols (ensurePlan parts sc)"

text \<open>The loop over partition orders, left at the first infeasible one.\<close>

function feasibleLoop :: "nat \<Rightarrow> nat \<Rightarrow> nat \<Rightarrow> nat \<Rightarrow> nat \<Rightarrow> nat" where
  "feasibleLoop blockSize predOrder maxPartOrder pmax po =
     (if po \<le> maxPartOrder
      then if blockSize mod 2 ^ po \<noteq> 0 then pmax
           else let partLen = blockSize div 2 ^ po
                in if partLen < predOrder \<or> partLen = 0 then pmax
                   else feasibleLoop blockSize predOrder maxPartOrder po (po + 1)
      else pmax)"
  by pat_completeness auto
termination
  by (relation "measure (\<lambda>(b, q, m, x, po). Suc m - po)") auto

declare feasibleLoop.simps [simp del]

definition feasiblePmax :: "nat \<Rightarrow> nat \<Rightarrow> nat \<Rightarrow> nat" where
  "feasiblePmax blockSize predOrder maxPartOrder =
     feasibleLoop blockSize predOrder (if maxPartOrder > maxPartitionOrder then maxPartitionOrder else maxPartOrder) 0 1"

definition riceBits :: "u64 list \<Rightarrow> nat \<Rightarrow> i64" where
  "riceBits zz k =
     foldl (\<lambda>quotients u. quotients + drop_bit k u) 0 zz + of_nat (length zz) * (1 + of_nat k)"

definition maxInt64 :: i64 where "maxInt64 = drop_bit 1 (- 1)"

text \<open>The windowed search both partition costings share; \<open>cost k\<close> is the bit count for \<open>k\<close>.\<close>

definition scanParams :: "(nat \<Rightarrow> i64) \<Rightarrow> nat \<Rightarrow> nat \<Rightarrow> nat \<times> i64" where
  "scanParams cost lo hi =
     foldl (\<lambda>(best, bestBits) k. if cost k <s bestBits then (k, cost k) else (best, bestBits))
       (0, maxInt64) [lo..<hi + 1]"

definition bestParam :: "u64 list \<Rightarrow> nat \<times> i64" where
  "bestParam zz =
     (let sum = foldl (+) 0 zz;
          n = length zz;
          est = (if n > 0 then len64 (sum div of_nat n) else 0);
          lo = est - 1;
          hi = (if est + 2 > maxParam5 then maxParam5 else est + 2);
          lo = (if lo > hi then hi else lo)
      in scanParams (riceBits zz) lo hi)"

definition escapeOr :: "u64 \<Rightarrow> nat \<Rightarrow> nat \<times> i64 \<Rightarrow> PartPlan" where
  "escapeOr maxU n kb =
     (let raw = len64 maxU; escBits = 5 + raw * n
      in if raw \<le> maxRawBits \<and> of_nat escBits <s snd kb
         then \<lparr>pp_escape = True, pp_param = 0, pp_rawBits = raw, pp_payload = int escBits\<rparr>
         else \<lparr>pp_escape = False, pp_param = fst kb, pp_rawBits = 0, pp_payload = sint (snd kb)\<rparr>)"

definition planPartition :: "u64 list \<Rightarrow> PartPlan" where
  "planPartition zz = escapeOr (foldl (\<lambda>m u. if u > m then u else m) 0 zz) (length zz) (bestParam zz)"

definition riceFallbackPlan :: "Scratch \<Rightarrow> u64 list \<Rightarrow> (nat \<times> PartPlan list \<times> nat \<times> int) \<times> Scratch" where
  "riceFallbackPlan sc zz =
     (let pl = (if zz \<noteq> [] then planPartition zz else noPlan);
          paramBits = (if \<not> pp_escape pl \<and> pp_param pl > maxParam4 then 5 else 4)
      in ((0, [pl], paramBits, 2 + 4 + int paramBits + pp_payload pl), sc\<lparr>sc_plans := [pl]\<rparr>))"

definition partN :: "nat \<Rightarrow> nat \<Rightarrow> nat \<Rightarrow> nat" where
  "partN partLen predOrder p = (if p = 0 then partLen - predOrder else partLen)"

text \<open>
  The three passes over the finest partitions. \<open>idx\<close> is the running start of the
  partition in the residual.
\<close>

definition finestMaxU :: "Scratch \<Rightarrow> i32 list \<Rightarrow> nat \<Rightarrow> nat \<Rightarrow> nat \<Rightarrow> u64 \<times> Scratch" where
  "finestMaxU sc res blockSize predOrder pmax =
     (let P = 2 ^ pmax; partLen = blockSize div 2 ^ pmax;
          (maxU, idx, global) =
            foldl (\<lambda>(maxU, idx, global) p.
                let n = partN partLen predOrder p;
                    mu = (if n > 0 then case MinMax (take n (drop idx res)) of (lo, hi) \<Rightarrow> max (zigzag lo) (zigzag hi)
                          else 0)
                in (maxU[p := mu], idx + n, if mu > global then mu else global))
              (sc_maxU sc, 0, 0) [0..<P];
          global = (if idx < length res
                    then case MinMax (drop idx res) of (lo, hi) \<Rightarrow>
                           let u = max (zigzag lo) (zigzag hi) in if u > global then u else global
                    else global)
      in (global, sc\<lparr>sc_maxU := maxU\<rparr>))"

definition partitionSums :: "nat \<Rightarrow> i32 list \<Rightarrow> u64 list" where
  "partitionSums m res = RiceSums m res"

text \<open>\<open>copy\<close> into \<open>sums[a : a + len(row)]\<close>.\<close>

definition buildFinestSumsInt32 :: "Scratch \<Rightarrow> i32 list \<Rightarrow> nat \<Rightarrow> nat \<Rightarrow> nat \<Rightarrow> nat \<Rightarrow> Scratch" where
  "buildFinestSumsInt32 sc res blockSize predOrder pmax ncols =
     (let P = 2 ^ pmax; partLen = blockSize div 2 ^ pmax;
          (sums, idx) =
            foldl (\<lambda>(sums, idx) p.
                let n = partN partLen predOrder p
                in (put_row (p * ncols) (partitionSums ncols (take n (drop idx res))) sums, idx + n))
              (sc_sums sc, 0) [0..<P]
      in sc\<lparr>sc_sums := sums\<rparr>)"

definition buildFinestTablesInt64 :: "Scratch \<Rightarrow> i64 list \<Rightarrow> nat \<Rightarrow> nat \<Rightarrow> nat \<Rightarrow> nat \<Rightarrow> Scratch" where
  "buildFinestTablesInt64 sc res blockSize predOrder pmax ncols =
     (let P = 2 ^ pmax; partLen = blockSize div 2 ^ pmax;
          (sums, maxU, idx) =
            foldl (\<lambda>(sums, maxU, idx) p.
                let n = partN partLen predOrder p;
                    (row, mu) =
                      foldl (\<lambda>(row, mu) j.
                          let u = zigzag64 (res ! (idx + j))
                          in (map (\<lambda>k. row ! k + drop_bit k u) [0..<ncols], if u > mu then u else mu))
                        (take ncols (drop (p * ncols) sums), 0) [0..<n]
                in (put_row (p * ncols) row sums, maxU[p := mu], idx + n))
              (sc_sums sc, sc_maxU sc, 0) [0..<P]
      in sc\<lparr>sc_sums := sums, sc_maxU := maxU\<rparr>)"

definition mergeUpward :: "u64 list \<Rightarrow> u64 list \<Rightarrow> nat \<Rightarrow> nat \<Rightarrow> u64 list \<times> u64 list" where
  "mergeUpward sums maxU parts ncols =
     foldl (\<lambda>(sums, maxU) p.
         (foldl (\<lambda>s k. s[p * ncols + k := s ! (2 * p * ncols + k) + s ! ((2 * p + 1) * ncols + k)]) sums [0..<ncols],
          maxU[p := max (maxU ! (2 * p + 1)) (maxU ! (2 * p))]))
       (sums, maxU) [0..<parts div 2]"

definition choosePartition :: "u64 list \<Rightarrow> u64 \<Rightarrow> nat \<Rightarrow> nat \<Rightarrow> PartPlan" where
  "choosePartition sums maxU n kHi =
     (let est = (if n > 0 then len64 (sums ! 0 div of_nat n) else 0);
          lo = est - 1;
          hi = (if est + 2 > maxParam5 then maxParam5 else est + 2);
          lo = (if lo > hi then hi else lo);
          hi = (if hi > kHi then kHi else hi)
      in escapeOr maxU n (scanParams (\<lambda>k. sums ! k + of_nat n * (1 + of_nat k)) lo hi))"

text \<open>
  One partition order: the plans of its partitions, the largest Rice parameter among
  them and the sum of their payloads. The loop descends from \<open>pmax\<close>.
\<close>

definition planOrder :: "u64 list \<Rightarrow> u64 list \<Rightarrow> nat \<Rightarrow> nat \<Rightarrow> nat \<Rightarrow> nat \<Rightarrow> nat \<Rightarrow> PartPlan list \<times> nat \<times> int" where
  "planOrder sums maxU blockSize predOrder po kHi ncols =
     foldl (\<lambda>(cur, maxK, sumPayload) p.
         let n = partN (blockSize div 2 ^ po) predOrder p;
             pl = choosePartition (take ncols (drop (p * ncols) sums)) (maxU ! p) n kHi
         in (cur @ [pl], if \<not> pp_escape pl \<and> pp_param pl > maxK then pp_param pl else maxK,
             sumPayload + pp_payload pl))
       ([], 0, 0) [0..<2 ^ po]"

definition planStep :: "nat \<Rightarrow> nat \<Rightarrow> nat \<Rightarrow> nat \<Rightarrow> nat \<Rightarrow> (nat \<times> nat \<times> int) \<times> Scratch \<Rightarrow> (nat \<times> nat \<times> int) \<times> Scratch" where
  "planStep blockSize predOrder kHi ncols po st =
     (case st of ((bestPO, paramBits, totalBits), sc) \<Rightarrow>
       let parts = 2 ^ po;
           (cur, maxK, sumPayload) = planOrder (sc_sums sc) (sc_maxU sc) blockSize predOrder po kHi ncols;
           pb = (if maxK > maxParam4 then 5 else 4);
           tot = 2 + 4 + int (parts * pb) + sumPayload;
           better = (tot \<le> totalBits);
           sc = sc\<lparr>sc_cur := cur @ drop parts (sc_cur sc), sc_plans := (if better then cur else sc_plans sc)\<rparr>;
           best = (if better then (po, pb, tot) else (bestPO, paramBits, totalBits))
       in if po > 0
          then case mergeUpward (sc_sums sc) (sc_maxU sc) parts ncols of
                 (sums, maxU) \<Rightarrow> (best, sc\<lparr>sc_sums := sums, sc_maxU := maxU\<rparr>)
          else (best, sc))"

definition maxInt :: int where "maxInt = 2 ^ 63 - 1"

definition planFromTables ::
  "Scratch \<Rightarrow> nat \<Rightarrow> nat \<Rightarrow> nat \<Rightarrow> nat \<Rightarrow> nat \<Rightarrow> (nat \<times> PartPlan list \<times> nat \<times> int) \<times> Scratch" where
  "planFromTables sc blockSize predOrder pmax kHi ncols =
     (case foldl (\<lambda>st po. planStep blockSize predOrder kHi ncols po st) ((0, 0, maxInt), sc) (rev [0..<pmax + 1]) of
        ((bestPO, paramBits, totalBits), sc) \<Rightarrow> ((bestPO, sc_plans sc, paramBits, totalBits), sc))"

definition PlanResidualInt32 ::
  "i32 list \<Rightarrow> nat \<Rightarrow> nat \<Rightarrow> nat \<Rightarrow> Scratch \<Rightarrow> (nat \<times> PartPlan list \<times> nat \<times> int) \<times> Scratch" where
  "PlanResidualInt32 res blockSize predOrder maxPartOrder sc =
     (let pmax = feasiblePmax blockSize predOrder maxPartOrder
      in if blockSize < predOrder \<or> blockSize = 0 then riceFallbackPlan sc (map zigzag res)
         else
           let P = 2 ^ pmax;
               (globalMaxU, sc) = finestMaxU (ensurePlan P sc) res blockSize predOrder pmax;
               kHi = min (len64 globalMaxU + 2) maxParam5;
               ncols = kHi + 1;
               sc = buildFinestSumsInt32 (ensureSums P ncols sc) res blockSize predOrder pmax ncols
           in planFromTables sc blockSize predOrder pmax kHi ncols)"

definition PlanResidualInt64 ::
  "i64 list \<Rightarrow> nat \<Rightarrow> nat \<Rightarrow> nat \<Rightarrow> Scratch \<Rightarrow> (nat \<times> PartPlan list \<times> nat \<times> int) \<times> Scratch" where
  "PlanResidualInt64 res blockSize predOrder maxPartOrder sc =
     (let pmax = feasiblePmax blockSize predOrder maxPartOrder
      in if blockSize < predOrder \<or> blockSize = 0 then riceFallbackPlan sc (map zigzag64 res)
         else
           let globalMaxU =
                 (if res \<noteq> []
                  then case foldl (\<lambda>(lo, hi) r. (if r <s lo then r else lo, if hi <s r then r else hi)) (res ! 0, res ! 0) res of
                         (lo, hi) \<Rightarrow> max (zigzag64 lo) (zigzag64 hi)
                  else 0);
               kHi = min (len64 globalMaxU + 2) maxParam5;
               ncols = kHi + 1;
               P = 2 ^ pmax;
               sc = ensure P ncols sc;
               sc = sc\<lparr>sc_sums := replicate (P * ncols) 0 @ drop (P * ncols) (sc_sums sc)\<rparr>;
               sc = buildFinestTablesInt64 sc res blockSize predOrder pmax ncols
           in planFromTables sc blockSize predOrder pmax kHi ncols)"

definition CostResidual :: "i32 list \<Rightarrow> nat \<Rightarrow> nat \<Rightarrow> nat \<Rightarrow> Scratch \<Rightarrow> int \<times> Scratch" where
  "CostResidual res blockSize predOrder maxPartOrder sc =
     (case PlanResidualInt32 res blockSize predOrder maxPartOrder sc of ((_, _, _, totalBits), sc) \<Rightarrow> (totalBits, sc))"

definition CostResidual64 :: "i64 list \<Rightarrow> nat \<Rightarrow> nat \<Rightarrow> nat \<Rightarrow> Scratch \<Rightarrow> int \<times> Scratch" where
  "CostResidual64 res blockSize predOrder maxPartOrder sc =
     (case PlanResidualInt64 res blockSize predOrder maxPartOrder sc of ((_, _, _, totalBits), sc) \<Rightarrow> (totalBits, sc))"

section \<open>Writing a planned residual\<close>

definition writeRiceSymbol :: "nat \<Rightarrow> u64 \<Rightarrow> writer \<Rightarrow> writer" where
  "writeRiceSymbol k u bw =
     (let mask = push_bit k 1 - 1; stop = push_bit k 1; maxQ = of_nat (56 - k); q = drop_bit k u
      in if q \<le> maxQ then WriteBits (stop OR (u AND mask)) (unat q + 1 + k) bw
         else WriteBits (u AND mask) k (WriteUnary q bw))"

text \<open>
  The two typed copies of the writer differ in the zigzag function \<open>zz\<close> and the widening
  of a residual to \<open>int64\<close>, \<open>wide\<close>.
\<close>

definition writePartition ::
  "('a \<Rightarrow> u64) \<Rightarrow> ('a \<Rightarrow> i64) \<Rightarrow> nat \<Rightarrow> u64 \<Rightarrow> PartPlan \<Rightarrow> 'a list \<Rightarrow> writer \<Rightarrow> writer" where
  "writePartition zz wide paramBits escapeCode pl part bw =
     (if pp_escape pl
      then fold (\<lambda>r. WriteSignedBits (wide r) (pp_rawBits pl)) part
             (WriteBits (of_nat (pp_rawBits pl)) 5 (WriteBits escapeCode paramBits bw))
      else fold (\<lambda>r. writeRiceSymbol (pp_param pl) (zz r)) part
             (WriteBits (of_nat (pp_param pl)) paramBits bw))"

definition writePlannedWith ::
  "('a \<Rightarrow> u64) \<Rightarrow> ('a \<Rightarrow> i64) \<Rightarrow> 'a list \<Rightarrow> nat \<Rightarrow> nat \<Rightarrow> PartPlan list \<Rightarrow> nat \<Rightarrow> writer \<Rightarrow> int \<times> writer" where
  "writePlannedWith zz wide res predOrder blockSize plans paramBits bw =
     (let method = (if paramBits = 5 then method5bit else method4bit);
          escapeCode = (if paramBits = 5 then escape5 else escape4);
          po = len64 (of_nat (length plans)) - 1;
          bw = WriteBits (of_nat po) 4 (WriteBits method 2 bw);
          partitions = 2 ^ po;
          partLen = blockSize div partitions;
          (bw, written, idx) =
            foldl (\<lambda>(bw, written, idx) p.
                let n = partN partLen predOrder p; pl = plans ! p
                in (writePartition zz wide paramBits escapeCode pl (take n (drop idx res)) bw,
                    written + int paramBits + pp_payload pl, idx + n))
              (bw, 2 + 4, 0) [0..<partitions]
      in (written, bw))"

definition WritePlanned :: "i32 list \<Rightarrow> nat \<Rightarrow> nat \<Rightarrow> PartPlan list \<Rightarrow> nat \<Rightarrow> writer \<Rightarrow> int \<times> writer" where
  "WritePlanned = writePlannedWith zigzag scast"

definition WritePlanned64 :: "i64 list \<Rightarrow> nat \<Rightarrow> nat \<Rightarrow> PartPlan list \<Rightarrow> nat \<Rightarrow> writer \<Rightarrow> int \<times> writer" where
  "WritePlanned64 = writePlannedWith zigzag64 (\<lambda>r. r)"

definition EncodeResidual ::
  "i32 list \<Rightarrow> nat \<Rightarrow> nat \<Rightarrow> nat \<Rightarrow> Scratch \<Rightarrow> writer \<Rightarrow> int \<times> Scratch \<times> writer" where
  "EncodeResidual res blockSize predOrder maxPartOrder sc bw =
     (case PlanResidualInt32 res blockSize predOrder maxPartOrder sc of ((_, plans, paramBits, _), sc) \<Rightarrow>
       case WritePlanned res predOrder blockSize plans paramBits bw of (written, bw) \<Rightarrow> (written, sc, bw))"

definition EncodeResidual64 ::
  "i64 list \<Rightarrow> nat \<Rightarrow> nat \<Rightarrow> nat \<Rightarrow> Scratch \<Rightarrow> writer \<Rightarrow> int \<times> Scratch \<times> writer" where
  "EncodeResidual64 res blockSize predOrder maxPartOrder sc bw =
     (case PlanResidualInt64 res blockSize predOrder maxPartOrder sc of ((_, plans, paramBits, _), sc) \<Rightarrow>
       case WritePlanned64 res predOrder blockSize plans paramBits bw of (written, bw) \<Rightarrow> (written, sc, bw))"

section \<open>The code of one residual\<close>

definition rice_bits :: "nat \<Rightarrow> u64 \<Rightarrow> bool list" where
  "rice_bits k u = replicate (unat (drop_bit k u)) False @ [True] @ bits_msb k u"

lemma u64_le_of_nat: "n < 2 ^ 64 \<Longrightarrow> q \<le> of_nat n \<longleftrightarrow> unat q \<le> n" for q :: u64
  by (simp add: word_le_nat_alt unat_of_nat)

lemma emits_writeRiceSymbol:
  assumes "k \<le> 30"
  shows "emits (writeRiceSymbol k u) (rice_bits k u)"
proof (cases "drop_bit k u \<le> of_nat (56 - k)")
  case False
  have "emits (\<lambda>bw. WriteBits (take_bit k u) k (WriteUnary (drop_bit k u) bw))
      ((replicate (unat (drop_bit k u)) False @ [True]) @ bits_msb k (take_bit k u))"
    using assms by (intro emits_comp [OF emits_WriteUnary] emits_WriteBits) simp
  moreover have "writeRiceSymbol k u = (\<lambda>bw. WriteBits (take_bit k u) k (WriteUnary (drop_bit k u) bw))"
    using False unfolding writeRiceSymbol_def Let_def mask64 by (simp add: fun_eq_iff)
  ultimately show ?thesis by (simp add: rice_bits_def)
next
  case True
  let ?q = "unat (drop_bit k u)" and ?v = "push_bit k 1 OR take_bit k u"
  have q: "?q \<le> 56 - k" using True u64_le_of_nat [of "56 - k" "drop_bit k u"] by simp
  have "drop_bit k ?v = 1"
    using assms by (intro bit_word_eqI) (auto simp: bit_simps)
  moreover have "bits_msb k ?v = bits_msb k u"
    by (rule bits_msb_cong) (auto simp: bit_simps)
  ultimately have "bits_msb (?q + 1 + k) ?v = rice_bits k u"
    unfolding bits_msb_add [of "?q + 1" k] rice_bits_def by (simp only: bits_msb_unary append_assoc)
  moreover have "emits (WriteBits ?v (?q + 1 + k)) (bits_msb (?q + 1 + k) ?v)"
    using q assms by (intro emits_WriteBits) simp
  moreover have "writeRiceSymbol k u = WriteBits ?v (?q + 1 + k)"
    using True unfolding writeRiceSymbol_def Let_def mask64 by (simp add: fun_eq_iff)
  ultimately show ?thesis by simp
qed

lemma parses_readRiceSymbol:
  assumes "k \<le> 30"
  shows "parses (readRiceSymbol k) (rice_bits k u) (drop_bit 32 u, unzigzag u)"
proof -
  have "push_bit k (drop_bit k u) OR take_bit k u = u"
    by (rule bit_word_eqI) (auto simp: bit_simps)
  moreover have "highBits (drop_bit k u) k = drop_bit 32 u"
    using assms by (simp add: highBits_def)
  ultimately have r: "parses (retR (highBits (drop_bit k u) k, unzigzag (push_bit k (drop_bit k u) OR take_bit k u))) []
      (drop_bit 32 u, unzigzag u)" by (simp add: parses_ret)
  have "parses (bindR (ReadBits k) (\<lambda>r. retR (highBits (drop_bit k u) k, unzigzag (push_bit k (drop_bit k u) OR r))))
      (bits_msb k u) (drop_bit 32 u, unzigzag u)"
    using assms by (intro parses_bind_ret [OF parses_ReadBits_val] r) simp
  moreover have "parses ReadUnary (replicate (unat (drop_bit k u)) False @ [True]) (drop_bit k u)"
    using parses_ReadUnary [of "unat (drop_bit k u)"] by simp
  ultimately show ?thesis
    unfolding readRiceSymbol_def rice_bits_def using parses_bind by fastforce
qed

lemma parses_readRawSample:
  fixes v :: i64
  assumes "raw = 0 \<and> v = 0 \<or> raw \<le> 57 \<and> fits raw (sint v)"
  shows "parses (readRawSample raw) (bits_msb raw v) (ucast v)"
  unfolding readRawSample_def
  by (rule parses_bind_ret [OF parses_ReadSigned]) (use assms in \<open>auto intro: parses_ret\<close>)

lemma bit_zigzag_xor:
  fixes r :: "'a::len word"
  shows "bit (push_bit 1 r XOR signed_drop_bit (LENGTH('a) - 1) r) i
     \<longleftrightarrow> i < LENGTH('a) \<and> (if i = 0 then bit r (LENGTH('a) - 1) else bit r (i - 1) \<noteq> bit r (LENGTH('a) - 1))"
proof -
  have "bit (push_bit 1 r) i \<longleftrightarrow> i < LENGTH('a) \<and> 0 < i \<and> bit r (i - 1)"
    unfolding bit_push_bit_iff by (auto dest: bit_imp_le_length)
  moreover have "bit (signed_drop_bit (LENGTH('a) - 1) r) i \<longleftrightarrow> i < LENGTH('a) \<and> bit r (LENGTH('a) - 1)"
    unfolding bit_signed_drop_bit_iff by (cases "i = 0") (auto simp: min_def dest: bit_imp_le_length)
  ultimately show ?thesis unfolding bit_xor_iff by auto
qed

lemma bit_unzigzag:
  "bit (unzigzag u :: 'a::len word) i \<longleftrightarrow> i < LENGTH('a) \<and> i < 64 \<and> (bit u (i + 1) \<noteq> bit u 0)"
proof -
  have "bit (- (u AND 1)) i \<longleftrightarrow> i < 64 \<and> bit u 0"
  proof (cases "bit u 0")
    case True
    then have "u AND 1 = 1" by (simp add: and_one_eq mod_2_eq_odd bit_0)
    then show ?thesis using True by (simp add: bit_minus_1_iff)
  next
    case False
    then have "u AND 1 = 0" by (simp add: and_one_eq mod_2_eq_odd bit_0)
    then show ?thesis using False by simp
  qed
  then show ?thesis
    unfolding unzigzag_def bit_unsigned_iff bit_xor_iff bit_drop_bit_eq comp_apply
    by (auto dest: bit_imp_le_length)
qed

lemma unzigzag_zigzag: "unzigzag (zigzag r) = r"
proof (rule bit_word_eqI)
  fix i assume "i < LENGTH(32)"
  then show "bit (unzigzag (zigzag r) :: i32) i = bit r i"
    using bit_zigzag_xor [of r "i + 1"] bit_zigzag_xor [of r 0]
    by (cases "i = 31") (auto simp: bit_unzigzag zigzag_def bit_simps simp del: push_bit_Suc)
qed

lemma unzigzag_zigzag64: "unzigzag (zigzag64 r) = r"
proof (rule bit_word_eqI)
  fix i assume "i < LENGTH(64)"
  then show "bit (unzigzag (zigzag64 r) :: i64) i = bit r i"
    using bit_zigzag_xor [of r "i + 1"] bit_zigzag_xor [of r 0]
    by (cases "i = 63") (auto simp: bit_unzigzag zigzag64_def simp del: push_bit_Suc dest: bit_imp_le_length)
qed

lemma zigzag_less: "drop_bit 32 (zigzag r) = 0"
  by (rule bit_word_eqI) (auto simp: zigzag_def bit_simps dest: bit_imp_le_length)

section \<open>The code of a partition and of a residual\<close>

text \<open>
  What the writer of either width asks of the zigzag function and the widening it uses:
  that the decoder's de-interleave inverts the one and its narrowing the other, and that
  a value whose fold needs \<open>raw\<close> bits fits \<open>raw\<close> bits as a signed number.
\<close>

locale residual_width =
  fixes zz :: "'a::len word \<Rightarrow> u64" and wide :: "'a word \<Rightarrow> i64"
  assumes unzigzag_zz: "unzigzag (zz r) = r"
    and narrow_wide: "ucast (wide r) = r"
    and raw_fits: "unat (zz r) < 2 ^ raw \<Longrightarrow> raw = 0 \<and> wide r = 0 \<or> fits raw (sint (wide r))"

definition part_ok :: "('a \<Rightarrow> u64) \<Rightarrow> ('a \<Rightarrow> i64) \<Rightarrow> nat \<Rightarrow> PartPlan \<Rightarrow> 'a list \<Rightarrow> bool" where
  "part_ok zz wide paramBits pl part \<longleftrightarrow>
     (if pp_escape pl
      then pp_rawBits pl \<le> 31 \<and> (\<forall>r \<in> set part. unat (zz r) < 2 ^ pp_rawBits pl)
      else pp_param pl \<le> (if paramBits = 5 then 30 else 14))
   \<and> (paramBits = 4 \<or> paramBits = 5)"

definition part_bits :: "('a \<Rightarrow> u64) \<Rightarrow> ('a \<Rightarrow> i64) \<Rightarrow> nat \<Rightarrow> PartPlan \<Rightarrow> 'a list \<Rightarrow> bool list" where
  "part_bits zz wide paramBits pl part =
     (if pp_escape pl
      then bits_msb paramBits (if paramBits = 5 then escape5 else escape4) @ bits_msb 5 (of_nat (pp_rawBits pl) :: u64)
           @ concat (map (\<lambda>r. bits_msb (pp_rawBits pl) (wide r)) part)
      else bits_msb paramBits (of_nat (pp_param pl) :: u64) @ concat (map (\<lambda>r. rice_bits (pp_param pl) (zz r)) part))"

definition over32 :: "('a \<Rightarrow> u64) \<Rightarrow> 'a list \<Rightarrow> u64" where
  "over32 zz part = foldl (\<lambda>over r. over OR drop_bit 32 (zz r)) 0 part"

lemma emits_writePartition:
  assumes "part_ok zz wide paramBits pl part"
  shows "emits (writePartition zz wide paramBits (if paramBits = 5 then escape5 else escape4) pl part)
           (part_bits zz wide paramBits pl part)"
proof -
  have pb: "paramBits \<le> 64" using assms by (auto simp: part_ok_def)
  let ?esc = "if paramBits = 5 then escape5 else escape4"
  show ?thesis
  proof (cases "pp_escape pl")
    case True
    have w: "emits (fold (\<lambda>r. WriteSignedBits (wide r) (pp_rawBits pl)) part)
        (concat (map (\<lambda>r. bits_msb (pp_rawBits pl) (wide r)) part))"
      by (rule emits_fold) (use assms True in \<open>auto simp: part_ok_def intro!: emits_WriteSignedBits\<close>)
    have "emits (\<lambda>bw. fold (\<lambda>r. WriteSignedBits (wide r) (pp_rawBits pl)) part
        (WriteBits (of_nat (pp_rawBits pl)) 5 (WriteBits ?esc paramBits bw))) (part_bits zz wide paramBits pl part)"
      using emits_comp [OF emits_comp [OF emits_WriteBits [OF pb, of ?esc] emits_WriteBits [of 5 "of_nat (pp_rawBits pl)"]] w] True
      by (simp add: part_bits_def)
    then show ?thesis using True by (simp add: writePartition_def [abs_def])
  next
    case False
    have "pp_param pl \<le> 30" using assms False by (auto simp: part_ok_def split: if_splits)
    then have w: "emits (fold (\<lambda>r. writeRiceSymbol (pp_param pl) (zz r)) part)
        (concat (map (\<lambda>r. rice_bits (pp_param pl) (zz r)) part))"
      by (intro emits_fold emits_writeRiceSymbol)
    show ?thesis
      using emits_comp [OF emits_WriteBits [OF pb, of "of_nat (pp_param pl)"] w] False
      by (simp add: part_bits_def writePartition_def [abs_def])
  qed
qed

lemma foldl_map: "foldl f a (map g xs) = foldl (\<lambda>a x. f a (g x)) a xs"
  by (induction xs arbitrary: a) simp_all

lemma parses_readN_map:
  "(\<And>x. x \<in> set xs \<Longrightarrow> parses m (enc x) (f x)) \<Longrightarrow> parses (readN (length xs) m) (concat (map enc xs)) (map f xs)"
proof (induction xs)
  case (Cons x xs)
  have "parses (bindR (readN (length xs) m) (\<lambda>ys. retR (f x # ys))) (concat (map enc xs)) (f x # map f xs)"
    using Cons by (intro parses_bind_ret [where x = "map f xs"] parses_ret) simp
  then show ?case using Cons.prems by (auto intro: parses_bind)
qed (simp add: parses_ret)

context residual_width
begin

lemma parses_readPartition:
  assumes "part_ok zz wide paramBits pl part" "\<forall>r \<in> set part. pp_escape pl \<longrightarrow> drop_bit 32 (zz r) = 0"
  shows "parses (readPartition paramBits (if paramBits = 5 then escape5 else escape4) (length part))
           (part_bits zz wide paramBits pl part) (over32 zz part, part)"
proof -
  let ?esc = "if paramBits = 5 then escape5 else escape4 :: u64"
  have pb: "paramBits = 4 \<or> paramBits = 5" using assms(1) by (auto simp: part_ok_def)
  show ?thesis
  proof (cases "pp_escape pl")
    case True
    let ?raw = "pp_rawBits pl"
    have raw: "?raw \<le> 31" "\<And>r. r \<in> set part \<Longrightarrow> unat (zz r) < 2 ^ ?raw" using assms(1) True by (auto simp: part_ok_def)
    have esc: "take_bit paramBits ?esc = ?esc" using pb by (auto simp: escape4_def escape5_def)
    have "unat (take_bit 5 (of_nat ?raw) :: u64) = ?raw"
      using raw(1) by (simp add: unsigned_take_bit_eq unat_of_nat take_bit_nat_eq_self)
    moreover have "parses (readRawSample ?raw) (bits_msb ?raw (wide r)) r" if "r \<in> set part" for r
    proof -
      have "parses (readRawSample ?raw) (bits_msb ?raw (wide r)) (ucast (wide r) :: 'a word)"
        using raw_fits [OF raw(2) [OF that]] raw(1) by (intro parses_readRawSample) auto
      then show ?thesis by (simp add: narrow_wide)
    qed
    then have "parses (readN (length part) (readRawSample ?raw)) (concat (map (\<lambda>r. bits_msb ?raw (wide r)) part)) (map (\<lambda>r. r) part)"
      by (rule parses_readN_map)
    moreover have "over32 zz part = 0"
    proof -
      have "foldl (\<lambda>over r. over OR drop_bit 32 (zz r)) 0 xs = 0" if "set xs \<subseteq> set part" for xs
        using that assms(2) True by (induction xs) auto
      then show ?thesis by (simp add: over32_def)
    qed
    ultimately show ?thesis
      unfolding readPartition_def part_bits_def using True esc pb
      by (auto intro!: parses_bind [OF parses_ReadBits_val] parses_bind_ret [where x = part] parses_ret)
  next
    case False
    let ?k = "pp_param pl"
    have k: "?k \<le> 30" "?k \<le> (if paramBits = 5 then 30 else 14)" using assms(1) False by (auto simp: part_ok_def split: if_splits)
    have u: "unat (take_bit paramBits (of_nat ?k) :: u64) = ?k"
      using k pb by (auto simp: unsigned_take_bit_eq unat_of_nat take_bit_nat_eq_self)
    moreover have "take_bit paramBits (of_nat ?k) \<noteq> ?esc"
    proof
      assume "take_bit paramBits (of_nat ?k) = ?esc"
      then have "?k = unat ?esc" using u by metis
      then show False using k pb by (auto simp: escape4_def escape5_def)
    qed
    moreover have "parses (readN (length part) (readRiceSymbol ?k)) (concat (map (\<lambda>r. rice_bits ?k (zz r)) part))
        (map (\<lambda>r. (drop_bit 32 (zz r), r)) part)"
    proof (rule parses_readN_map)
      fix r
      have "parses (readRiceSymbol ?k) (rice_bits ?k (zz r)) (drop_bit 32 (zz r), unzigzag (zz r) :: 'a word)"
        by (rule parses_readRiceSymbol [OF k(1)])
      then show "parses (readRiceSymbol ?k) (rice_bits ?k (zz r)) (drop_bit 32 (zz r), r)" by (simp add: unzigzag_zz)
    qed
    ultimately show ?thesis
      unfolding readPartition_def part_bits_def using False pb
      by (auto intro!: parses_bind [OF parses_ReadBits_val] parses_bind_ret [where x = "map (\<lambda>r. (drop_bit 32 (zz r), r)) part"] parses_ret
          simp: over32_def foldl_map comp_def)
  qed
qed

end

text \<open>Cutting a list into consecutive parts of given lengths.\<close>

fun slices :: "nat list \<Rightarrow> 'a list \<Rightarrow> 'a list list" where
  "slices [] xs = []"
| "slices (n # ns) xs = take n xs # slices ns (drop n xs)"

lemma length_slices [simp]: "length (slices ns xs) = length ns"
  by (induction ns xs rule: slices.induct) simp_all

lemma concat_slices: "concat (slices ns xs) = take (sum_list ns) xs"
  by (induction ns xs rule: slices.induct) (simp_all add: take_add)

lemma slices_nth: "i < length ns \<Longrightarrow> slices ns xs ! i = take (ns ! i) (drop (sum_list (take i ns)) xs)"
  by (induction ns xs arbitrary: i rule: slices.induct) (auto simp: nth_Cons' less_Suc_eq_0_disj add.commute split: nat.split)

lemma length_slices_nth:
  "sum_list ns \<le> length xs \<Longrightarrow> i < length ns \<Longrightarrow> length (slices ns xs ! i) = ns ! i"
proof (induction ns xs arbitrary: i rule: slices.induct)
  case (2 n ns xs)
  then show ?case by (cases i) auto
qed simp

definition part_lens :: "nat \<Rightarrow> nat \<Rightarrow> nat \<Rightarrow> nat list" where
  "part_lens blockSize predOrder po = map (partN (blockSize div 2 ^ po) predOrder) [0..<2 ^ po]"

lemma length_part_lens [simp]: "length (part_lens blockSize predOrder po) = 2 ^ po"
  by (simp add: part_lens_def)

lemma part_lens_nth: "p < 2 ^ po \<Longrightarrow> part_lens blockSize predOrder po ! p = partN (blockSize div 2 ^ po) predOrder p"
  by (simp add: part_lens_def)

lemma sum_partN:
  assumes "predOrder \<le> L" "0 < (m::nat)"
  shows "sum_list (map (partN L predOrder) [0..<m]) = m * L - predOrder"
  using assms(2)
proof (induction m)
  case (Suc m)
  show ?case
  proof (cases m)
    case 0
    then show ?thesis by (simp add: partN_def)
  next
    case (Suc k)
    have "predOrder \<le> m * L" using assms(1) Suc by (simp add: trans_le_add1)
    then show ?thesis using Suc.IH Suc by (simp add: partN_def)
  qed
qed simp

lemma sum_part_lens:
  assumes "2 ^ po dvd blockSize" "predOrder \<le> blockSize div 2 ^ po"
  shows "sum_list (part_lens blockSize predOrder po) = blockSize - predOrder"
  using sum_partN [OF assms(2), of "2 ^ po"] assms(1) by (simp add: part_lens_def)

text \<open>
  A plan that suits a residual: its partitions tile the block and each suits the slice it
  codes. \<open>plan_bits\<close> is the code of the whole residual.
\<close>

definition plan_ok ::
  "('a \<Rightarrow> u64) \<Rightarrow> ('a \<Rightarrow> i64) \<Rightarrow> 'a list \<Rightarrow> nat \<Rightarrow> nat \<Rightarrow> PartPlan list \<Rightarrow> nat \<Rightarrow> nat \<Rightarrow> bool" where
  "plan_ok zz wide res predOrder blockSize plans paramBits po \<longleftrightarrow>
     po \<le> 15 \<and> length plans = 2 ^ po \<and> 2 ^ po dvd blockSize \<and> predOrder \<le> blockSize div 2 ^ po
   \<and> length res = blockSize - predOrder \<and> (paramBits = 4 \<or> paramBits = 5)
   \<and> list_all2 (part_ok zz wide paramBits) plans (slices (part_lens blockSize predOrder po) res)"

definition plan_bits ::
  "('a \<Rightarrow> u64) \<Rightarrow> ('a \<Rightarrow> i64) \<Rightarrow> 'a list \<Rightarrow> nat \<Rightarrow> nat \<Rightarrow> PartPlan list \<Rightarrow> nat \<Rightarrow> nat \<Rightarrow> bool list" where
  "plan_bits zz wide res predOrder blockSize plans paramBits po =
     bits_msb 2 (if paramBits = 5 then method5bit else method4bit) @ bits_msb 4 (of_nat po :: u64)
     @ concat (map2 (part_bits zz wide paramBits) plans (slices (part_lens blockSize predOrder po) res))"

lemma len64_pow2: "po < 64 \<Longrightarrow> len64 (of_nat (2 ^ po)) = po + 1"
proof -
  assume po: "po < 64"
  have "bits_msb 64 (of_nat (2 ^ po) :: u64) = replicate (63 - po) False @ True # replicate po False"
    using po by (intro nth_equalityI) (auto simp: nth_bits_msb nth_append nth_Cons' bit_exp_iff)
  then have "lz64 (of_nat (2 ^ po)) = 63 - po" using po by (simp add: lz64_def takeWhile_append)
  then show ?thesis using po by (simp add: len64_def)
qed

text \<open>The write loop, for any tail of the partition list.\<close>

definition write_step ::
  "('a \<Rightarrow> u64) \<Rightarrow> ('a \<Rightarrow> i64) \<Rightarrow> 'a list \<Rightarrow> nat \<Rightarrow> PartPlan list \<Rightarrow> (nat \<Rightarrow> nat) \<Rightarrow> writer \<times> int \<times> nat \<Rightarrow> nat \<Rightarrow> writer \<times> int \<times> nat" where
  "write_step zz wide res paramBits plans ns st p =
     (case st of (bw, written, idx) \<Rightarrow>
        (writePartition zz wide paramBits (if paramBits = 5 then escape5 else escape4) (plans ! p) (take (ns p) (drop idx res)) bw,
         written + int paramBits + pp_payload (plans ! p), idx + ns p))"

lemma write_step_pair:
  "write_step zz wide res paramBits plans ns (bw, written, idx) p =
     (writePartition zz wide paramBits (if paramBits = 5 then escape5 else escape4) (plans ! p) (take (ns p) (drop idx res)) bw,
      written + int paramBits + pp_payload (plans ! p), idx + ns p)"
  by (simp add: write_step_def)

lemma write_step_eq:
  "write_step zz wide res paramBits plans ns = (\<lambda>(bw, written, idx) p.
     (writePartition zz wide paramBits (if paramBits = 5 then escape5 else escape4) (plans ! p) (take (ns p) (drop idx res)) bw,
      written + int paramBits + pp_payload (plans ! p), idx + ns p))"
  by (simp add: fun_eq_iff write_step_pair)

lemma write_loop:
  assumes "\<And>p. p < m \<Longrightarrow> part_ok zz wide paramBits (plans ! p) (take (ns p) (drop (sum_list (map ns [0..<p])) res))"
    and "wf_writer bw"
  shows "\<exists>bw'. foldl (write_step zz wide res paramBits plans ns) (bw, w0, 0) [0..<m]
           = (bw', w0 + (\<Sum>p < m. int paramBits + pp_payload (plans ! p)), sum_list (map ns [0..<m]))
         \<and> wf_writer bw' \<and> wbits bw' = wbits bw
             @ concat (map (\<lambda>p. part_bits zz wide paramBits (plans ! p) (take (ns p) (drop (sum_list (map ns [0..<p])) res))) [0..<m])"
  using assms(1)
proof (induction m)
  case 0
  then show ?case using assms(2) by simp
next
  case (Suc m)
  then obtain bw1 where 1: "foldl (write_step zz wide res paramBits plans ns) (bw, w0, 0) [0..<m]
           = (bw1, w0 + (\<Sum>p < m. int paramBits + pp_payload (plans ! p)), sum_list (map ns [0..<m]))"
      "wf_writer bw1" "wbits bw1 = wbits bw
             @ concat (map (\<lambda>p. part_bits zz wide paramBits (plans ! p) (take (ns p) (drop (sum_list (map ns [0..<p])) res))) [0..<m])"
    by auto
  have "part_ok zz wide paramBits (plans ! m) (take (ns m) (drop (sum_list (map ns [0..<m])) res))"
    using Suc.prems by simp
  from emitsD [OF emits_writePartition [OF this] 1(2)] show ?case
    using 1 by (simp add: write_step_pair)
qed

lemma map2_nth_upt: "length xs = n \<Longrightarrow> length ys = n \<Longrightarrow> map2 f xs ys = map (\<lambda>i. f (xs ! i) (ys ! i)) [0..<n]"
  by (auto intro!: nth_equalityI)

lemma writePlannedWith_ok:
  assumes ok: "plan_ok zz wide res predOrder blockSize plans paramBits po" and wf: "wf_writer bw"
  shows "fst (writePlannedWith zz wide res predOrder blockSize plans paramBits bw)
           = 6 + (\<Sum>pl \<leftarrow> plans. int paramBits + pp_payload pl)"
    and "wf_writer (snd (writePlannedWith zz wide res predOrder blockSize plans paramBits bw))"
    and "wbits (snd (writePlannedWith zz wide res predOrder blockSize plans paramBits bw))
           = wbits bw @ plan_bits zz wide res predOrder blockSize plans paramBits po"
proof -
  let ?ns = "partN (blockSize div 2 ^ po) predOrder" and ?S = "slices (part_lens blockSize predOrder po) res"
  have p: "po \<le> 15" "length plans = 2 ^ po" and all: "list_all2 (part_ok zz wide paramBits) plans ?S"
    using ok by (simp_all add: plan_ok_def)
  have po: "len64 (of_nat (length plans)) - 1 = po" using len64_pow2 [of po] p by simp
  have slice: "?S ! q = take (?ns q) (drop (sum_list (map ?ns [0..<q])) res)" if "q < 2 ^ po" for q
    using that by (simp add: slices_nth part_lens_def take_map)
  have parts: "part_ok zz wide paramBits (plans ! q) (take (?ns q) (drop (sum_list (map ?ns [0..<q])) res))"
    if "q < 2 ^ po" for q
    using list_all2_nthD [OF all, of q] that p slice [OF that] by simp
  define bw0 where "bw0 = WriteBits (of_nat po) 4 (WriteBits (if paramBits = 5 then method5bit else method4bit) 2 bw)"
  have bw0: "wf_writer bw0" "wbits bw0 = wbits bw @ bits_msb 2 (if paramBits = 5 then method5bit else method4bit) @ bits_msb 4 (of_nat po :: u64)"
    using emitsD [OF emits_comp [OF emits_WriteBits [of 2 "if paramBits = 5 then method5bit else method4bit"]
          emits_WriteBits [of 4 "of_nat po"]] wf] by (simp_all add: bw0_def)
  obtain bw' where w: "foldl (write_step zz wide res paramBits plans ?ns) (bw0, 6, 0) [0..<2 ^ po]
           = (bw', 6 + (\<Sum>p < 2 ^ po. int paramBits + pp_payload (plans ! p)), sum_list (map ?ns [0..<2 ^ po]))"
      "wf_writer bw'" "wbits bw' = wbits bw0
             @ concat (map (\<lambda>p. part_bits zz wide paramBits (plans ! p) (take (?ns p) (drop (sum_list (map ?ns [0..<p])) res))) [0..<2 ^ po])"
    using write_loop [where m = "2 ^ po" and ?w0.0 = 6, OF parts bw0(1)] by blast
  have W: "writePlannedWith zz wide res predOrder blockSize plans paramBits bw
      = (6 + (\<Sum>p < 2 ^ po. int paramBits + pp_payload (plans ! p)), bw')"
    using w(1) unfolding writePlannedWith_def Let_def po bw0_def write_step_eq by (simp split del: if_split)
  have "(\<Sum>p < 2 ^ po. int paramBits + pp_payload (plans ! p)) = (\<Sum>pl \<leftarrow> plans. int paramBits + pp_payload pl)"
    using p(2) by (simp add: sum_list_sum_nth atLeast0LessThan)
  then show "fst (writePlannedWith zz wide res predOrder blockSize plans paramBits bw)
           = 6 + (\<Sum>pl \<leftarrow> plans. int paramBits + pp_payload pl)" by (simp add: W)
  show "wf_writer (snd (writePlannedWith zz wide res predOrder blockSize plans paramBits bw))" by (simp add: W w(2))
  have "map2 (part_bits zz wide paramBits) plans ?S
      = map (\<lambda>p. part_bits zz wide paramBits (plans ! p) (take (?ns p) (drop (sum_list (map ?ns [0..<p])) res))) [0..<2 ^ po]"
    using slice p(2) by (simp add: map2_nth_upt)
  then show "wbits (snd (writePlannedWith zz wide res predOrder blockSize plans paramBits bw))
           = wbits bw @ plan_bits zz wide res predOrder blockSize plans paramBits po"
    by (simp add: W w(3) bw0(2) plan_bits_def)
qed

context residual_width
begin

lemma parses_readPartitions:
  assumes "list_all2 (part_ok zz wide paramBits) plans parts" "\<forall>part \<in> set parts. \<forall>r \<in> set part. drop_bit 32 (zz r) = 0"
  shows "parses (readPartitions paramBits (if paramBits = 5 then escape5 else escape4) (map (\<lambda>part. int (length part)) parts)
             :: (u64 \<times> 'a word list, 't) rm)
           (concat (map2 (part_bits zz wide paramBits) plans parts)) (0, concat parts)"
  using assms
proof (induction plans parts rule: list_all2_induct)
  case Nil
  then show ?case by (simp add: parses_ret)
next
  case (Cons pl plans part parts)
  have z: "over32 zz part = 0"
  proof -
    have "foldl (\<lambda>over r. over OR drop_bit 32 (zz r)) 0 xs = 0" if "set xs \<subseteq> set part" for xs
      using that Cons.prems by (induction xs) auto
    then show ?thesis by (simp add: over32_def)
  qed
  have "parses (readPartition paramBits (if paramBits = 5 then escape5 else escape4) (length part))
           (part_bits zz wide paramBits pl part) (0, part)"
    using parses_readPartition [OF Cons.hyps(1)] Cons.prems z by auto
  moreover have "parses (bindR (readPartitions paramBits (if paramBits = 5 then escape5 else escape4) (map (\<lambda>part. int (length part)) parts))
      (\<lambda>(over', vs'). retR (0 OR over', part @ vs')) :: (u64 \<times> 'a word list, 't) rm) (concat (map2 (part_bits zz wide paramBits) plans parts)) (0, part @ concat parts)"
    using Cons.IH Cons.prems by (intro parses_bind_ret [where x = "(0, concat parts)"]) (auto intro: parses_ret)
  ultimately show ?case by (auto intro!: parses_bind [where x = "(0, part)"])
qed

lemma DecodeResidual_plan:
  assumes ok: "plan_ok zz wide res predOrder blockSize plans paramBits po"
    and range: "\<forall>r \<in> set res. drop_bit 32 (zz r) = 0"
  shows "parses (DecodeResidual blockSize predOrder) (plan_bits zz wide res predOrder blockSize plans paramBits po) res"
proof -
  let ?S = "slices (part_lens blockSize predOrder po) res"
  let ?esc = "if paramBits = 5 then escape5 else escape4 :: u64"
  have p: "po \<le> 15" "2 ^ po dvd blockSize" "predOrder \<le> blockSize div 2 ^ po" "length res = blockSize - predOrder"
    "paramBits = 4 \<or> paramBits = 5" and all: "list_all2 (part_ok zz wide paramBits) plans ?S"
    using ok by (simp_all add: plan_ok_def)
  note sum = sum_part_lens [OF p(2,3)]
  have cat: "concat ?S = res" using sum p(4) by (simp add: concat_slices)
  have lens: "map (\<lambda>part. int (length part)) ?S = map (\<lambda>q. int (blockSize div 2 ^ po) - (if q = 0 then int predOrder else 0)) [0..<2 ^ po]"
    by (rule nth_equalityI) (use sum p in \<open>auto simp: length_slices_nth part_lens_nth partN_def of_nat_diff\<close>)
  have "\<forall>part \<in> set ?S. \<forall>r \<in> set part. drop_bit 32 (zz r) = 0"
    using range cat by (metis UN_I set_concat)
  from parses_readPartitions [OF all this]
  have body: "parses (readPartitions paramBits ?esc (map (\<lambda>q. int (blockSize div 2 ^ po) - (if q = 0 then int predOrder else 0)) [0..<2 ^ po]))
      (concat (map2 (part_bits zz wide paramBits) plans ?S)) (0, res)" unfolding lens cat .
  have tail: "parses (bindR (readPartitions paramBits ?esc (map (\<lambda>q. int (blockSize div 2 ^ po) - (if q = 0 then int predOrder else 0)) [0..<2 ^ po]))
      (\<lambda>(over, vs). if over \<noteq> 0 then failR ErrResidualRange else retR vs)) (concat (map2 (part_bits zz wide paramBits) plans ?S)) res"
    by (rule parses_bind_ret [OF body]) (simp add: parses_ret)
  have u: "unat (take_bit 4 (of_nat po) :: u64) = po"
    using p(1) by (simp add: unsigned_take_bit_eq unat_of_nat take_bit_nat_eq_self)
  have m: "take_bit 2 (if paramBits = 5 then method5bit else method4bit) = (if paramBits = 5 then method5bit else method4bit)"
    "method4bit \<noteq> method5bit"
    by (simp_all add: method4bit_def method5bit_def)
  show ?thesis
    unfolding DecodeResidual_def plan_bits_def
    by (rule parses_bind [OF parses_ReadBits_val], simp)
      (use p(2,5) m u tail in \<open>auto simp: Let_def intro!: parses_bind [OF parses_ReadBits_val]\<close>)
qed

end

end
