(* ===== verification/Rice_Plan.thy ===== *)
theory Rice_Plan
  imports Rice
begin

text \<open>
  What the Rice planner of \<^verbatim>\<open>src/internal/rice/encode.go\<close> guarantees: the tables it builds at
  the finest partition order and merges upward hold, at every order, the sums and the
  maximum of each partition's zigzag values, whatever an earlier call left in the scratch;
  the plan it returns suits the residual, and the bit count it announces is the length of
  the code the writer appends.
\<close>

section \<open>Zigzag as a number\<close>

lemma signed_drop_bit_sign:
  fixes r :: "'a::len word"
  shows "signed_drop_bit (LENGTH('a) - 1) r = (if bit r (LENGTH('a) - 1) then - 1 else 0)"
proof (rule bit_word_eqI)
  fix i assume "i < LENGTH('a)"
  then show "bit (signed_drop_bit (LENGTH('a) - 1) r) i = bit (if bit r (LENGTH('a) - 1) then - 1 else 0 :: 'a word) i"
    unfolding bit_signed_drop_bit_iff by (cases "i = 0") (auto simp: min_def bit_minus_1_iff dest: bit_imp_le_length)
qed

lemma bit_sign_iff: "bit r (LENGTH('a) - 1) \<longleftrightarrow> sint r < 0" for r :: "'a::len word"
  by (simp add: bit_last_iff)

lemma uint_zigzag_raw:
  fixes r :: "'a::len word"
  assumes "2 \<le> LENGTH('a)"
  shows "uint (push_bit 1 r XOR signed_drop_bit (LENGTH('a) - 1) r) = (if sint r < 0 then - 2 * sint r - 1 else 2 * sint r)"
proof -
  have range: "- (2 ^ (LENGTH('a) - 1)) \<le> sint r" "sint r < 2 ^ (LENGTH('a) - 1)"
    using sint_greater_eq [of r] sint_less [of r] by auto
  have p: "2 ^ LENGTH('a) = 2 * (2::int) ^ (LENGTH('a) - 1)" using assms by (simp flip: power_Suc)
  have r: "r = word_of_int (sint r)" by simp
  have d: "push_bit 1 r = word_of_int (2 * sint r)"
    by (subst r) (simp only: push_bit_eq_mult wi_hom_mult [symmetric] mult.commute, simp)
  show ?thesis
  proof (cases "sint r < 0")
    case True
    have "push_bit 1 r XOR signed_drop_bit (LENGTH('a) - 1) r = NOT (push_bit 1 r)"
      using True unfolding signed_drop_bit_sign bit_sign_iff by simp
    also have "\<dots> = word_of_int (- 2 * sint r - 1)"
      unfolding d not_eq_complement by (simp add: wi_hom_sub wi_hom_neg)
    finally have E: "push_bit 1 r XOR signed_drop_bit (LENGTH('a) - 1) r = word_of_int (- 2 * sint r - 1)" .
    have "uint (push_bit 1 r XOR signed_drop_bit (LENGTH('a) - 1) r) = (- 2 * sint r - 1) mod 2 ^ LENGTH('a)"
      unfolding E by (rule uint_word_of_int)
    moreover have "(- 2 * sint r - 1) mod 2 ^ LENGTH('a) = - 2 * sint r - 1"
      using True range p by (intro mod_pos_pos_trivial) auto
    ultimately show ?thesis using True by simp
  next
    case False
    have E: "push_bit 1 r XOR signed_drop_bit (LENGTH('a) - 1) r = word_of_int (2 * sint r)"
      using False unfolding signed_drop_bit_sign bit_sign_iff d by simp
    have "uint (push_bit 1 r XOR signed_drop_bit (LENGTH('a) - 1) r) = (2 * sint r) mod 2 ^ LENGTH('a)"
      unfolding E by (rule uint_word_of_int)
    moreover have "(2 * sint r) mod 2 ^ LENGTH('a) = 2 * sint r"
      using False range p by (intro mod_pos_pos_trivial) auto
    ultimately show ?thesis using False by simp
  qed
qed

lemma sint_0_iff: "sint r = 0 \<longleftrightarrow> r = 0" for r :: "'a::len word"
  using sint_eqI [of r 0] by auto

definition zz_int :: "int \<Rightarrow> int" where
  "zz_int x = (if x < 0 then - 2 * x - 1 else 2 * x)"

lemma uint_zigzag64: "uint (zigzag64 r) = zz_int (sint r)"
  using uint_zigzag_raw [of r] by (simp add: zigzag64_def zz_int_def)

lemma uint_zigzag: "uint (zigzag r) = zz_int (sint r)"
proof -
  have "uint (zigzag r) = uint (push_bit 1 r XOR signed_drop_bit 31 r)"
    unfolding zigzag_def using uint_bounded [of "push_bit 1 r XOR signed_drop_bit 31 r"]
    by (simp add: unsigned_ucast_eq take_bit_int_eq_self)
  then show ?thesis using uint_zigzag_raw [of r] by (simp add: zz_int_def)
qed

lemma zigzag32_zigzag: "zigzag32 = zigzag"
  by (simp add: fun_eq_iff zigzag32_def zigzag_def)

lemma zz_int_nonneg [simp]: "0 \<le> zz_int x"
  by (simp add: zz_int_def)

lemma zz_int_extreme: "lo \<le> x \<Longrightarrow> x \<le> hi \<Longrightarrow> zz_int x \<le> max (zz_int lo) (zz_int hi)"
  by (auto simp: zz_int_def)

lemma zz_int_fits: "zz_int x < 2 ^ raw \<Longrightarrow> raw = 0 \<and> x = 0 \<or> fits raw x"
  by (cases raw) (auto simp: zz_int_def fits_def split: if_splits)

interpretation width32: residual_width zigzag scast
proof
  fix r :: i32 and raw
  show "unzigzag (zigzag r) = r" by (rule unzigzag_zigzag)
  show "ucast (scast r :: i64) = r" by (rule ucast_scast_down) simp
  assume "unat (zigzag r) < 2 ^ raw"
  then have "int (unat (zigzag r)) < 2 ^ raw" by (metis of_nat_less_iff of_nat_numeral of_nat_power)
  then have "zz_int (sint r) < 2 ^ raw" by (simp add: uint_zigzag)
  from zz_int_fits [OF this] show "raw = 0 \<and> scast r = (0::i64) \<or> fits raw (sint (scast r :: i64))"
    by (auto simp: sint_scast_up sint_0_iff)
qed

interpretation width64: residual_width zigzag64 "\<lambda>r. r"
proof
  fix r :: i64 and raw
  show "unzigzag (zigzag64 r) = r" by (rule unzigzag_zigzag64)
  show "ucast r = r" by simp
  assume "unat (zigzag64 r) < 2 ^ raw"
  then have "int (unat (zigzag64 r)) < 2 ^ raw" by (metis of_nat_less_iff of_nat_numeral of_nat_power)
  then have "zz_int (sint r) < 2 ^ raw" by (simp add: uint_zigzag64)
  from zz_int_fits [OF this] show "raw = 0 \<and> r = 0 \<or> fits raw (sint r)" by (auto simp: sint_0_iff)
qed

section \<open>The length of a word\<close>

lemma len64_bound: "unat u < 2 ^ len64 u"
proof -
  let ?b = "bits_msb 64 u"
  let ?t = "takeWhile Not ?b"
  have l: "length ?t \<le> 64" using length_takeWhile_le [of Not ?b] by simp
  have z: "\<not> bit u i" if "len64 u \<le> i" "i < 64" for i
  proof -
    have "63 - i < length ?t" using that l by (simp add: len64_def lz64_def)
    moreover from this have "\<not> ?t ! (63 - i)" using nth_mem [of "63 - i" ?t] set_takeWhileD by fastforce
    ultimately have "\<not> ?b ! (63 - i)" by (simp add: takeWhile_nth)
    then show ?thesis using that by (simp add: nth_bits_msb)
  qed
  have "take_bit (len64 u) u = u"
  proof (rule bit_word_eqI)
    fix i assume "i < LENGTH(64)"
    then show "bit (take_bit (len64 u) u) i = bit u i" using z [of i] by (simp add: bit_take_bit_iff) (meson not_less)
  qed
  then have "unat u = unat (take_bit (len64 u) u)" by simp
  also have "\<dots> < 2 ^ len64 u" by (simp add: unsigned_take_bit_eq)
  finally show ?thesis .
qed

lemma len64_least: "unat u < 2 ^ j \<Longrightarrow> len64 u \<le> j"
proof (rule ccontr)
  assume a: "unat u < 2 ^ j" and j: "\<not> len64 u \<le> j"
  let ?b = "bits_msb 64 u" and ?i = "len64 u - 1"
  let ?t = "takeWhile Not ?b"
  have l: "length ?t \<le> 64" using length_takeWhile_le [of Not ?b] by simp
  have i: "len64 u = 64 - length ?t" "length ?t < 64" using j by (simp_all add: len64_def lz64_def)
  then have "?b ! length ?t" using nth_length_takeWhile [of Not ?b] by simp
  then have "bit u ?i" using i by (simp add: nth_bits_msb)
  moreover have "u = take_bit j u"
    using a by (simp add: word_unat_eq_iff unsigned_take_bit_eq take_bit_nat_eq_self)
  ultimately have "?i < j" by (metis bit_take_bit_iff)
  then show False using j by simp
qed

lemma len64_mono: "u \<le> v \<Longrightarrow> len64 u \<le> len64 v"
  using len64_bound [of v] by (intro len64_least) (simp add: word_le_nat_alt)

section \<open>Segments of a residual\<close>

text \<open>
  Partition \<open>p\<close> of length \<open>L\<close> holds the residuals of the samples \<open>p * L\<close> to \<open>(p + 1) * L\<close>,
  less the \<open>predOrder\<close> warmup samples that have none.
\<close>

definition seg :: "nat \<Rightarrow> nat \<Rightarrow> nat \<Rightarrow> 'a list \<Rightarrow> 'a list" where
  "seg predOrder L p res = take ((p + 1) * L - predOrder - (p * L - predOrder)) (drop (p * L - predOrder) res)"

lemma take_drop_split:
  assumes "a \<le> b" "b \<le> c"
  shows "take (c - a) (drop a xs) = take (b - a) (drop a xs) @ take (c - b) (drop b xs)"
proof -
  have "c - a = (b - a) + (c - b)" using assms by simp
  then show ?thesis using assms by (simp only: take_add drop_drop) simp
qed

lemma seg_merge: "seg predOrder (2 * L) p res = seg predOrder L (2 * p) res @ seg predOrder L (2 * p + 1) res"
  unfolding seg_def
  using take_drop_split [of "2 * p * L - predOrder" "(2 * p + 1) * L - predOrder" "(2 * p + 2) * L - predOrder" res]
  by (simp add: algebra_simps diff_le_mono)

lemma take_seg: "take ((p + 1) * L - predOrder) res = take (p * L - predOrder) res @ seg predOrder L p res"
  unfolding seg_def
  using take_drop_split [of 0 "p * L - predOrder" "(p + 1) * L - predOrder" res] by (simp add: diff_le_mono)

lemma seg_partN:
  "predOrder \<le> L \<Longrightarrow> seg predOrder L p res = take (partN L predOrder p) (drop (p * L - predOrder) res)"
  by (cases p) (auto simp: seg_def partN_def)

lemma next_start: "predOrder \<le> L \<Longrightarrow> p * L - predOrder + partN L predOrder p = (p + 1) * L - predOrder"
  by (cases p) (auto simp: partN_def)

lemma length_seg:
  assumes "predOrder \<le> L" "p < parts" "length res = parts * L - predOrder"
  shows "length (seg predOrder L p res) = partN L predOrder p"
proof -
  have "(p + 1) * L \<le> parts * L" using assms(2) by (intro mult_le_mono1) simp
  then show ?thesis using assms next_start [of predOrder L p] by (simp add: seg_partN)
qed

lemma slices_seg:
  assumes "predOrder \<le> blockSize div 2 ^ po"
  shows "slices (part_lens blockSize predOrder po) res = map (\<lambda>p. seg predOrder (blockSize div 2 ^ po) p res) [0..<2 ^ po]"
proof (rule nth_equalityI)
  fix p assume "p < length (slices (part_lens blockSize predOrder po) res)"
  then have p: "p < 2 ^ po" by simp
  have "sum_list (map (partN (blockSize div 2 ^ po) predOrder) [0..<p]) = p * (blockSize div 2 ^ po) - predOrder"
    using sum_partN [OF assms, of p] by (cases p) simp_all
  then show "slices (part_lens blockSize predOrder po) res ! p = map (\<lambda>p. seg predOrder (blockSize div 2 ^ po) p res) [0..<2 ^ po] ! p"
    using p assms by (simp add: slices_nth part_lens_def take_map seg_partN)
qed simp

section \<open>Sums and maxima\<close>

definition zmax :: "('a \<Rightarrow> u64) \<Rightarrow> 'a list \<Rightarrow> u64" where
  "zmax zz xs = foldr (\<lambda>r m. max (zz r) m) xs 0"

definition zsum :: "('a \<Rightarrow> u64) \<Rightarrow> nat \<Rightarrow> 'a list \<Rightarrow> u64" where
  "zsum zz k xs = sum_list (map (\<lambda>r. drop_bit k (zz r)) xs)"

lemma max_0_word [simp]: "max (0::u64) x = x" "max x (0::u64) = x"
  by (auto simp: max_def word_le_nat_alt unat_eq_zero)

lemma zmax_simps [simp]: "zmax zz [] = 0" "zmax zz (r # xs) = max (zz r) (zmax zz xs)"
  by (simp_all add: zmax_def)

lemma zmax_append [simp]: "zmax zz (xs @ ys) = max (zmax zz xs) (zmax zz ys)"
  by (induction xs) (auto simp: max.assoc)

lemma zmax_ge: "r \<in> set xs \<Longrightarrow> zz r \<le> zmax zz xs"
  by (induction xs) (auto simp: le_max_iff_disj)

lemma zmax_le: "(\<And>r. r \<in> set xs \<Longrightarrow> zz r \<le> m) \<Longrightarrow> zmax zz xs \<le> m"
  by (induction xs) auto

lemma zmax_eqI: "(\<And>r. r \<in> set xs \<Longrightarrow> zz r \<le> m) \<Longrightarrow> m \<in> zz ` set xs \<Longrightarrow> zmax zz xs = m"
  using zmax_ge zmax_le by (metis antisym imageE)

lemma zsum_simps [simp]:
  "zsum zz k [] = 0" "zsum zz k (r # xs) = drop_bit k (zz r) + zsum zz k xs"
  "zsum zz k (xs @ ys) = zsum zz k xs + zsum zz k ys"
  by (simp_all add: zsum_def)

lemma unat_zsum:
  assumes "\<forall>r \<in> set xs. unat (zz r) < 2 ^ 32" "length xs \<le> 65535"
  shows "unat (zsum zz k xs) = (\<Sum>r \<leftarrow> xs. unat (drop_bit k (zz r)))"
    and "(\<Sum>r \<leftarrow> xs. unat (drop_bit k (zz r))) \<le> length xs * 2 ^ 32"
proof -
  have d: "unat (drop_bit k (zz r)) \<le> unat (zz r)" for r
    by (subst unat_drop_bit_eq) (simp only: drop_bit_eq_div div_le_dividend)
  have "(\<Sum>r \<leftarrow> xs. unat (drop_bit k (zz r))) \<le> length xs * 2 ^ 32
      \<and> unat (zsum zz k xs) = (\<Sum>r \<leftarrow> xs. unat (drop_bit k (zz r)))"
    using assms
  proof (induction xs)
    case (Cons r xs)
    then have le: "unat (drop_bit k (zz r)) + (\<Sum>r \<leftarrow> xs. unat (drop_bit k (zz r))) \<le> 2 ^ 32 + length xs * 2 ^ 32"
      using d [of r] by (intro add_mono) auto
    moreover have "2 ^ 32 + length xs * 2 ^ 32 < (2::nat) ^ 64" using Cons.prems by simp
    ultimately show ?case using Cons by (simp add: unat_word_ariths)
  qed simp
  then show "unat (zsum zz k xs) = (\<Sum>r \<leftarrow> xs. unat (drop_bit k (zz r)))"
    "(\<Sum>r \<leftarrow> xs. unat (drop_bit k (zz r))) \<le> length xs * 2 ^ 32" by simp_all
qed

section \<open>The tables and their merge\<close>

definition tables_ok ::
  "('a \<Rightarrow> u64) \<Rightarrow> 'a list \<Rightarrow> nat \<Rightarrow> nat \<Rightarrow> nat \<Rightarrow> nat \<Rightarrow> u64 list \<Rightarrow> u64 list \<Rightarrow> bool" where
  "tables_ok zz res predOrder L parts ncols sums maxU \<longleftrightarrow>
     parts * ncols \<le> length sums \<and> parts \<le> length maxU
   \<and> (\<forall>p < parts. maxU ! p = zmax zz (seg predOrder L p res))
   \<and> (\<forall>p < parts. \<forall>k < ncols. sums ! (p * ncols + k) = zsum zz k (seg predOrder L p res))"

definition merge_cell :: "nat \<Rightarrow> nat \<Rightarrow> u64 list \<Rightarrow> nat \<Rightarrow> u64 list" where
  "merge_cell nc p s k = s[p * nc + k := s ! (2 * p * nc + k) + s ! ((2 * p + 1) * nc + k)]"

definition merge_step :: "nat \<Rightarrow> u64 list \<times> u64 list \<Rightarrow> nat \<Rightarrow> u64 list \<times> u64 list" where
  "merge_step nc st p =
     (foldl (merge_cell nc p) (fst st) [0..<nc], (snd st)[p := max (snd st ! (2 * p + 1)) (snd st ! (2 * p))])"

lemma mergeUpward_steps: "mergeUpward sums maxU parts nc = foldl (merge_step nc) (sums, maxU) [0..<parts div 2]"
proof -
  have c: "merge_cell nc p = (\<lambda>s k. s[p * nc + k := s ! (2 * p * nc + k) + s ! ((2 * p + 1) * nc + k)])" for p
    by (simp add: fun_eq_iff merge_cell_def)
  have "merge_step nc = (\<lambda>(sums, maxU) p.
         (foldl (\<lambda>s k. s[p * nc + k := s ! (2 * p * nc + k) + s ! ((2 * p + 1) * nc + k)]) sums [0..<nc],
          maxU[p := max (maxU ! (2 * p + 1)) (maxU ! (2 * p))]))"
    by (simp add: fun_eq_iff merge_step_def c)
  then show ?thesis by (simp add: mergeUpward_def)
qed

lemma merge_row:
  assumes "p * nc + m \<le> length s"
  shows "length (foldl (merge_cell nc p) s [0..<m]) = length s
    \<and> (\<forall>k < m. foldl (merge_cell nc p) s [0..<m] ! (p * nc + k) = s ! (2 * p * nc + k) + s ! ((2 * p + 1) * nc + k))
    \<and> (\<forall>i. i < p * nc \<or> p * nc + m \<le> i \<longrightarrow> foldl (merge_cell nc p) s [0..<m] ! i = s ! i)"
  using assms
proof (induction m)
  case (Suc m)
  let ?t = "foldl (merge_cell nc p) s [0..<m]"
  have IH: "length ?t = length s" "\<And>k. k < m \<Longrightarrow> ?t ! (p * nc + k) = s ! (2 * p * nc + k) + s ! ((2 * p + 1) * nc + k)"
    "\<And>i. i < p * nc \<or> p * nc + m \<le> i \<Longrightarrow> ?t ! i = s ! i"
    using Suc by auto
  have r: "?t ! (2 * p * nc + m) = s ! (2 * p * nc + m)" "?t ! ((2 * p + 1) * nc + m) = s ! ((2 * p + 1) * nc + m)"
    by (rule IH(3), simp add: algebra_simps)+
  have u: "foldl (merge_cell nc p) s [0..<Suc m] = ?t[p * nc + m := s ! (2 * p * nc + m) + s ! ((2 * p + 1) * nc + m)]"
    using r by (simp add: merge_cell_def)
  show ?case
    unfolding u using Suc.prems IH by (auto simp: nth_list_update less_Suc_eq)
qed simp

lemma merge_rows:
  assumes "2 * half * nc \<le> length sums" "2 * half \<le> length maxU" "q \<le> half"
    and "foldl (merge_step nc) (sums, maxU) [0..<q] = (s, m)"
  shows "length s = length sums \<and> length m = length maxU
    \<and> (\<forall>p < q. m ! p = max (maxU ! (2 * p + 1)) (maxU ! (2 * p))) \<and> (\<forall>i \<ge> q. m ! i = maxU ! i)
    \<and> (\<forall>p < q. \<forall>k < nc. s ! (p * nc + k) = sums ! (2 * p * nc + k) + sums ! ((2 * p + 1) * nc + k))
    \<and> (\<forall>i \<ge> q * nc. s ! i = sums ! i)"
  using assms(3,4)
proof (induction q arbitrary: s m)
  case (Suc q)
  obtain s0 m0 where st: "foldl (merge_step nc) (sums, maxU) [0..<q] = (s0, m0)"
    by (cases "foldl (merge_step nc) (sums, maxU) [0..<q]")
  have IH: "length s0 = length sums" "length m0 = length maxU"
    "\<And>p. p < q \<Longrightarrow> m0 ! p = max (maxU ! (2 * p + 1)) (maxU ! (2 * p))" "\<And>i. q \<le> i \<Longrightarrow> m0 ! i = maxU ! i"
    "\<And>p k. p < q \<Longrightarrow> k < nc \<Longrightarrow> s0 ! (p * nc + k) = sums ! (2 * p * nc + k) + sums ! ((2 * p + 1) * nc + k)"
    "\<And>i. q * nc \<le> i \<Longrightarrow> s0 ! i = sums ! i"
    using Suc.IH [OF _ st] Suc.prems by auto
  have "(s, m) = merge_step nc (s0, m0) q" using Suc.prems(2) st by simp
  then have s: "s = foldl (merge_cell nc q) s0 [0..<nc]" and m: "m = m0[q := max (maxU ! (2 * q + 1)) (maxU ! (2 * q))]"
    using IH(4) by (auto simp: merge_step_def)
  have "(q + 1) * nc \<le> 2 * half * nc" using Suc.prems(1) by (intro mult_le_mono1) simp
  then have row: "length s = length s0" "\<And>k. k < nc \<Longrightarrow> s ! (q * nc + k) = s0 ! (2 * q * nc + k) + s0 ! ((2 * q + 1) * nc + k)"
    "\<And>i. i < q * nc \<or> q * nc + nc \<le> i \<Longrightarrow> s ! i = s0 ! i"
    using merge_row [of q nc nc s0] assms(1) IH(1) unfolding s by (auto simp: algebra_simps)
  have src: "s0 ! (2 * q * nc + k) = sums ! (2 * q * nc + k)" "s0 ! ((2 * q + 1) * nc + k) = sums ! ((2 * q + 1) * nc + k)" for k
    by (rule IH(6), simp add: algebra_simps)+
  have old: "s ! (p * nc + k) = s0 ! (p * nc + k)" if "p < q" "k < nc" for p k
  proof -
    have "p * nc + k < Suc p * nc" using that by simp
    also have "\<dots> \<le> q * nc" using that by (intro mult_le_mono1) simp
    finally show ?thesis using row(3) by simp
  qed
  have "q < length maxU" using Suc.prems assms(2) by simp
  then have "\<forall>p < Suc q. m ! p = max (maxU ! (2 * p + 1)) (maxU ! (2 * p))" "\<forall>i \<ge> Suc q. m ! i = maxU ! i" "length m = length maxU"
    using IH unfolding m by (auto simp: less_Suc_eq nth_list_update)
  moreover have "s ! (p * nc + k) = sums ! (2 * p * nc + k) + sums ! ((2 * p + 1) * nc + k)" if "p < Suc q" "k < nc" for p k
    using that row(2) src old IH(5) by (cases "p = q") auto
  moreover have "\<forall>i \<ge> Suc q * nc. s ! i = sums ! i" using row(3) IH(6) by auto
  ultimately show ?case using row(1) IH(1) by auto
qed simp

lemma mergeUpward_ok:
  assumes "tables_ok zz res predOrder L (2 * half) ncols sums maxU"
  shows "case mergeUpward sums maxU (2 * half) ncols of (s, m) \<Rightarrow> tables_ok zz res predOrder (2 * L) half ncols s m"
proof -
  have a: "2 * half * ncols \<le> length sums" "2 * half \<le> length maxU"
    "\<And>p. p < 2 * half \<Longrightarrow> maxU ! p = zmax zz (seg predOrder L p res)"
    "\<And>p k. p < 2 * half \<Longrightarrow> k < ncols \<Longrightarrow> sums ! (p * ncols + k) = zsum zz k (seg predOrder L p res)"
    using assms by (auto simp: tables_ok_def)
  obtain s m where st: "mergeUpward sums maxU (2 * half) ncols = (s, m)" by (cases "mergeUpward sums maxU (2 * half) ncols")
  have st': "length s = length sums" "length m = length maxU"
    "\<And>p. p < half \<Longrightarrow> m ! p = max (maxU ! (2 * p + 1)) (maxU ! (2 * p))"
    "\<And>p k. p < half \<Longrightarrow> k < ncols \<Longrightarrow> s ! (p * ncols + k) = sums ! (2 * p * ncols + k) + sums ! ((2 * p + 1) * ncols + k)"
    using merge_rows [OF a(1,2), of half s m] st by (auto simp: mergeUpward_steps)
  have "m ! p = zmax zz (seg predOrder (2 * L) p res)" if "p < half" for p
    using that st'(3) a(3) [of "2 * p"] a(3) [of "2 * p + 1"] by (simp add: seg_merge max.commute)
  moreover have "s ! (p * ncols + k) = zsum zz k (seg predOrder (2 * L) p res)" if "p < half" "k < ncols" for p k
    using that st'(4) a(4) [of "2 * p" k] a(4) [of "2 * p + 1" k] by (simp add: seg_merge)
  ultimately show ?thesis using st st'(1,2) a(1,2) by (auto simp: tables_ok_def)
qed

section \<open>The finest tables\<close>

lemma foldl_upt_inv:
  assumes "I 0 s" "\<And>i s. i < n \<Longrightarrow> I i s \<Longrightarrow> I (Suc i) (f s i)"
  shows "I n (foldl f s [0..<n])"
  using assms by (induction n) auto

lemma minmax_fold:
  fixes xs :: "'a::len word list"
  assumes "foldl (\<lambda>(lo, hi) r. (if r <s lo then r else lo, if hi <s r then r else hi)) (a, b) xs = (lo, hi)"
    "sint a \<le> sint b"
  shows "lo \<in> insert a (set xs) \<and> hi \<in> insert b (set xs) \<and> sint lo \<le> sint a \<and> sint b \<le> sint hi
    \<and> (\<forall>r \<in> set xs. sint lo \<le> sint r \<and> sint r \<le> sint hi)"
  using assms
proof (induction xs arbitrary: a b)
  case (Cons r xs)
  let ?a = "if r <s a then r else a" and ?b = "if b <s r then r else b"
  have "sint ?a \<le> sint a" "sint b \<le> sint ?b" "sint ?a \<le> sint r" "sint r \<le> sint ?b" "?a \<in> {a, r}" "?b \<in> {b, r}"
    by (auto simp: word_sless_alt)
  moreover from this have "sint ?a \<le> sint ?b" by linarith
  moreover from this have "lo \<in> insert ?a (set xs) \<and> hi \<in> insert ?b (set xs) \<and> sint lo \<le> sint ?a \<and> sint ?b \<le> sint hi
    \<and> (\<forall>r \<in> set xs. sint lo \<le> sint r \<and> sint r \<le> sint hi)"
    using Cons.IH [of ?a ?b] Cons.prems(1) by simp
  ultimately show ?case by auto
qed simp

lemma MinMax_extremes:
  assumes "MinMax res = (lo, hi)" "res \<noteq> []"
  shows "lo \<in> set res" "hi \<in> set res" "\<forall>r \<in> set res. sint lo \<le> sint r \<and> sint r \<le> sint hi"
proof -
  obtain r rs where res: "res = r # rs" using assms(2) by (cases res) auto
  have "foldl (\<lambda>(lo, hi) r. (if r <s lo then r else lo, if hi <s r then r else hi)) (r, r) rs = (lo, hi)"
    using assms(1) res by (simp add: MinMax_def minMaxGo_def)
  from minmax_fold [OF this] show "lo \<in> set res" "hi \<in> set res" "\<forall>r \<in> set res. sint lo \<le> sint r \<and> sint r \<le> sint hi"
    using res by auto
qed

lemma zmax_extremes:
  assumes zz: "\<And>r. uint (zz r) = zz_int (sint r)"
    and "lo \<in> set xs" "hi \<in> set xs" "\<forall>r \<in> set xs. sint lo \<le> sint r \<and> sint r \<le> sint hi"
  shows "max (zz lo) (zz hi) = zmax zz xs"
proof (rule zmax_eqI [symmetric])
  show "max (zz lo) (zz hi) \<in> zz ` set xs" using assms(2,3) by (auto simp: max_def)
  fix r assume "r \<in> set xs"
  then have "zz_int (sint r) \<le> max (zz_int (sint lo)) (zz_int (sint hi))"
    using assms(4) by (intro zz_int_extreme) auto
  then have "zz r \<le> zz lo \<or> zz r \<le> zz hi" by (auto simp: le_max_iff_disj word_le_def zz)
  then show "zz r \<le> max (zz lo) (zz hi)" by (simp add: le_max_iff_disj)
qed

lemma MinMax_zmax: "MinMax part = (lo, hi) \<Longrightarrow> part \<noteq> [] \<Longrightarrow> max (zigzag lo) (zigzag hi) = zmax zigzag part"
  using MinMax_extremes by (intro zmax_extremes uint_zigzag) blast+

definition partMax :: "i32 list \<Rightarrow> u64" where
  "partMax part = (if length part > 0 then case MinMax part of (lo, hi) \<Rightarrow> max (zigzag lo) (zigzag hi) else 0)"

lemma partMax_zmax: "partMax part = zmax zigzag part"
  by (cases "MinMax part") (auto simp: partMax_def MinMax_zmax)

lemma finestMaxU_ok:
  assumes L: "L = blockSize div 2 ^ pmax" "predOrder \<le> L" "2 ^ pmax * L - predOrder = length res"
    and "2 ^ pmax \<le> length (sc_maxU sc)"
  shows "\<exists>maxU. finestMaxU sc res blockSize predOrder pmax = (zmax zigzag res, sc\<lparr>sc_maxU := maxU\<rparr>)
    \<and> length maxU = length (sc_maxU sc) \<and> (\<forall>p < 2 ^ pmax. maxU ! p = zmax zigzag (seg predOrder L p res))"
proof -
  define f where "f = (\<lambda>(maxU, idx, global) p.
                let n = partN L predOrder p;
                    mu = (if n > 0 then case MinMax (take n (drop idx res)) of (lo, hi) \<Rightarrow> max (zigzag lo) (zigzag hi)
                          else 0)
                in (maxU[p := mu], idx + n, if mu > global then mu else global))"
  define I where "I = (\<lambda>q (maxU, idx, global). length maxU = length (sc_maxU sc) \<and> idx = q * L - predOrder
      \<and> global = zmax zigzag (take (q * L - predOrder) res) \<and> (\<forall>p < q. maxU ! p = zmax zigzag (seg predOrder L p res)))"
  have "I (2 ^ pmax) (foldl f (sc_maxU sc, 0, 0) [0..<2 ^ pmax])"
  proof (rule foldl_upt_inv)
    show "I 0 (sc_maxU sc, 0, 0)" by (simp add: I_def)
    fix q st assume q: "q < 2 ^ pmax" and inv: "I q st"
    obtain maxU idx global where st: "st = (maxU, idx, global)" by (cases st)
    have i: "length maxU = length (sc_maxU sc)" "idx = q * L - predOrder" "global = zmax zigzag (take idx res)"
      "\<forall>p < q. maxU ! p = zmax zigzag (seg predOrder L p res)" using inv st by (auto simp: I_def)
    have s: "take (partN L predOrder q) (drop idx res) = seg predOrder L q res" using L(2) i(2) by (simp add: seg_partN)
    have len: "length (seg predOrder L q res) = partN L predOrder q" using L q by (intro length_seg) auto
    have mu: "(if partN L predOrder q > 0 then case MinMax (seg predOrder L q res) of (lo, hi) \<Rightarrow> max (zigzag lo) (zigzag hi)
                          else 0) = zmax zigzag (seg predOrder L q res)"
      using partMax_zmax [of "seg predOrder L q res"] by (simp only: partMax_def len)
    have "f st q = (maxU[q := zmax zigzag (seg predOrder L q res)], (q + 1) * L - predOrder,
        max global (zmax zigzag (seg predOrder L q res)))"
      unfolding f_def st Let_def prod.case s mu using next_start [OF L(2), of q] i(2) by (auto simp: max_def)
    moreover have "q < length maxU" using q i(1) assms(4) by simp
    moreover have "max global (zmax zigzag (seg predOrder L q res)) = zmax zigzag (take (Suc q * L - predOrder) res)"
      using take_seg [of q L predOrder res] i(2,3) by simp
    ultimately show "I (Suc q) (f st q)" using i by (auto simp: I_def nth_list_update less_Suc_eq)
  qed
  then obtain maxU where m: "foldl f (sc_maxU sc, 0, 0) [0..<2 ^ pmax] = (maxU, length res, zmax zigzag res)"
      "length maxU = length (sc_maxU sc)" "\<forall>p < 2 ^ pmax. maxU ! p = zmax zigzag (seg predOrder L p res)"
    using L(3) by (cases "foldl f (sc_maxU sc, 0, 0) [0..<2 ^ pmax]") (auto simp: I_def)
  have "finestMaxU sc res blockSize predOrder pmax = (zmax zigzag res, sc\<lparr>sc_maxU := maxU\<rparr>)"
    unfolding finestMaxU_def Let_def L(1) [symmetric] using m(1) unfolding f_def Let_def by simp
  with m show ?thesis by blast
qed

lemma riceSumsGo_zsum: "riceSumsGo m res = map (\<lambda>k. zsum zigzag k res) [0..<m]"
proof -
  have "foldl (\<lambda>sums r. map (\<lambda>k. sums ! k + drop_bit k (zigzag r)) [0..<m]) (map g [0..<m]) res
      = map (\<lambda>k. g k + zsum zigzag k res) [0..<m]" for g
  proof (induction res arbitrary: g)
    case (Cons r res)
    have "map (\<lambda>k. map g [0..<m] ! k + drop_bit k (zigzag r)) [0..<m] = map (\<lambda>k. g k + drop_bit k (zigzag r)) [0..<m]"
      by simp
    then show ?case using Cons [of "\<lambda>k. g k + drop_bit k (zigzag r)"] by (simp only: foldl_Cons) (simp add: add.assoc)
  qed simp
  from this [of "\<lambda>_. 0"] show ?thesis
    by (simp add: riceSumsGo_def zigzag32_zigzag map_replicate_const)
qed

lemma RiceSums_zsum: "RiceSums m res = map (\<lambda>k. zsum zigzag k res) [0..<m]"
  by (simp add: RiceSums_def riceSumsGo_zsum take_map take_upt riceParamCount_def riceMaxParam_def riceMaxParam5_def del: upt_Suc)

lemma put_row_nth:
  assumes "a + length row \<le> length xs"
  shows "length (put_row a row xs) = length xs" "k < length row \<Longrightarrow> put_row a row xs ! (a + k) = row ! k"
    "i < a \<or> a + length row \<le> i \<and> i < length xs \<Longrightarrow> put_row a row xs ! i = xs ! i"
  using assms by (auto simp: put_row_def nth_append min_def)

text \<open>Writing row \<open>q\<close> keeps the rows before it.\<close>

lemma put_row_rows:
  assumes "length row = nc" "(q + 1) * nc \<le> length xs" "p \<le> q" "k < nc"
  shows "put_row (q * nc) row xs ! (p * nc + k) = (if p = q then row ! k else xs ! (p * nc + k))"
proof (cases "p = q")
  case True
  then show ?thesis using assms put_row_nth(2) [of "q * nc" row xs k] by simp
next
  case False
  have "p * nc + k < Suc p * nc" using assms(4) by simp
  also have "\<dots> \<le> q * nc" using False assms(3) by (intro mult_le_mono1) simp
  finally show ?thesis using False assms put_row_nth(3) [of "q * nc" row xs "p * nc + k"] by simp
qed

lemma buildFinestSumsInt32_ok:
  assumes L: "L = blockSize div 2 ^ pmax" "predOrder \<le> L" "2 ^ pmax * L - predOrder = length res"
    and len: "2 ^ pmax * nc \<le> length (sc_sums sc)"
  shows "\<exists>sums. buildFinestSumsInt32 sc res blockSize predOrder pmax nc = sc\<lparr>sc_sums := sums\<rparr>
    \<and> length sums = length (sc_sums sc) \<and> (\<forall>p < 2 ^ pmax. \<forall>k < nc. sums ! (p * nc + k) = zsum zigzag k (seg predOrder L p res))"
proof -
  define f where "f = (\<lambda>(sums, idx) p.
                let n = partN L predOrder p
                in (put_row (p * nc) (partitionSums nc (take n (drop idx res))) sums, idx + n))"
  define I where "I = (\<lambda>q (sums, idx). length sums = length (sc_sums sc) \<and> idx = q * L - predOrder
      \<and> (\<forall>p < q. \<forall>k < nc. sums ! (p * nc + k) = zsum zigzag k (seg predOrder L p res)))"
  have "I (2 ^ pmax) (foldl f (sc_sums sc, 0) [0..<2 ^ pmax])"
  proof (rule foldl_upt_inv)
    show "I 0 (sc_sums sc, 0)" by (simp add: I_def)
    fix q st assume q: "q < 2 ^ pmax" and inv: "I q st"
    obtain sums idx where st: "st = (sums, idx)" by (cases st)
    have i: "length sums = length (sc_sums sc)" "idx = q * L - predOrder"
      "\<And>p k. p < q \<Longrightarrow> k < nc \<Longrightarrow> sums ! (p * nc + k) = zsum zigzag k (seg predOrder L p res)" using inv st by (auto simp: I_def)
    let ?row = "map (\<lambda>k. zsum zigzag k (seg predOrder L q res)) [0..<nc]"
    have "f st q = (put_row (q * nc) ?row sums, (q + 1) * L - predOrder)"
      using L(2) i(2) next_start [OF L(2), of q] unfolding f_def st Let_def
      by (simp add: partitionSums_def RiceSums_zsum seg_partN)
    moreover have "(q + 1) * nc \<le> 2 ^ pmax * nc" using q by (intro mult_le_mono1) simp
    then have room: "(q + 1) * nc \<le> length sums" using len i(1) by simp
    then have "length (put_row (q * nc) ?row sums) = length sums" by (intro put_row_nth(1)) simp
    moreover have "put_row (q * nc) ?row sums ! (p * nc + k) = zsum zigzag k (seg predOrder L p res)" if "p < Suc q" "k < nc" for p k
      using put_row_rows [OF _ room, of ?row p k] that i(3) by (cases "p = q") auto
    ultimately show "I (Suc q) (f st q)" using i(1) by (auto simp: I_def)
  qed
  then obtain sums where m: "foldl f (sc_sums sc, 0) [0..<2 ^ pmax] = (sums, length res)" "length sums = length (sc_sums sc)"
      "\<forall>p < 2 ^ pmax. \<forall>k < nc. sums ! (p * nc + k) = zsum zigzag k (seg predOrder L p res)"
    using L(3) by (cases "foldl f (sc_sums sc, 0) [0..<2 ^ pmax]") (auto simp: I_def)
  have "buildFinestSumsInt32 sc res blockSize predOrder pmax nc = sc\<lparr>sc_sums := sums\<rparr>"
    unfolding buildFinestSumsInt32_def Let_def L(1) [symmetric] using m(1) unfolding f_def Let_def by simp
  with m show ?thesis by blast
qed

text \<open>
  The 64-bit pass accumulates into rows the caller has cleared and takes the maximum in
  the same loop.
\<close>

definition wide_row :: "nat \<Rightarrow> i64 list \<Rightarrow> u64 list \<times> u64 \<Rightarrow> nat \<Rightarrow> u64 list \<times> u64" where
  "wide_row nc part st j =
     (map (\<lambda>k. fst st ! k + drop_bit k (zigzag64 (part ! j))) [0..<nc],
      if zigzag64 (part ! j) > snd st then zigzag64 (part ! j) else snd st)"

lemma wide_row_fold:
  assumes "n \<le> length part"
  shows "foldl (wide_row nc part) (replicate nc 0, 0) [0..<n]
    = (map (\<lambda>k. zsum zigzag64 k (take n part)) [0..<nc], zmax zigzag64 (take n part))"
  using assms
proof (induction n)
  case (Suc n)
  then show ?case by (auto simp: wide_row_def take_Suc_conv_app_nth max_def)
qed (simp add: map_replicate_const)

lemma buildFinestTablesInt64_ok:
  assumes L: "L = blockSize div 2 ^ pmax" "predOrder \<le> L" "2 ^ pmax * L - predOrder = length res"
    and len: "2 ^ pmax * nc \<le> length (sc_sums sc)" "2 ^ pmax \<le> length (sc_maxU sc)"
    and clear: "\<forall>i < 2 ^ pmax * nc. sc_sums sc ! i = 0"
  shows "\<exists>sums maxU. buildFinestTablesInt64 sc res blockSize predOrder pmax nc = sc\<lparr>sc_sums := sums, sc_maxU := maxU\<rparr>
    \<and> tables_ok zigzag64 res predOrder L (2 ^ pmax) nc sums maxU"
proof -
  define f where "f = (\<lambda>(sums, maxU, idx) p.
                let n = partN L predOrder p;
                    (row, mu) =
                      foldl (\<lambda>(row, mu) j.
                          let u = zigzag64 (res ! (idx + j))
                          in (map (\<lambda>k. row ! k + drop_bit k u) [0..<nc], if u > mu then u else mu))
                        (take nc (drop (p * nc) sums), 0) [0..<n]
                in (put_row (p * nc) row sums, maxU[p := mu], idx + n))"
  define I where "I = (\<lambda>q (sums, maxU, idx). length sums = length (sc_sums sc) \<and> length maxU = length (sc_maxU sc)
      \<and> idx = q * L - predOrder \<and> (\<forall>p < q. maxU ! p = zmax zigzag64 (seg predOrder L p res))
      \<and> (\<forall>p < q. \<forall>k < nc. sums ! (p * nc + k) = zsum zigzag64 k (seg predOrder L p res))
      \<and> (\<forall>i. q * nc \<le> i \<and> i < 2 ^ pmax * nc \<longrightarrow> sums ! i = 0))"
  have "I (2 ^ pmax) (foldl f (sc_sums sc, sc_maxU sc, 0) [0..<2 ^ pmax])"
  proof (rule foldl_upt_inv)
    show "I 0 (sc_sums sc, sc_maxU sc, 0)" using clear by (simp add: I_def)
    fix q st assume q: "q < 2 ^ pmax" and inv: "I q st"
    obtain sums maxU idx where st: "st = (sums, maxU, idx)" by (cases st)
    have i: "length sums = length (sc_sums sc)" "length maxU = length (sc_maxU sc)" "idx = q * L - predOrder"
      "\<forall>p < q. maxU ! p = zmax zigzag64 (seg predOrder L p res)"
      "\<And>p k. p < q \<Longrightarrow> k < nc \<Longrightarrow> sums ! (p * nc + k) = zsum zigzag64 k (seg predOrder L p res)"
      "\<And>i. q * nc \<le> i \<Longrightarrow> i < 2 ^ pmax * nc \<Longrightarrow> sums ! i = 0" using inv st by (auto simp: I_def)
    let ?part = "seg predOrder L q res" and ?n = "partN L predOrder q"
    have plen: "length ?part = ?n" using L q by (intro length_seg) auto
    have room': "(q + 1) * nc \<le> 2 ^ pmax * nc" using q by (intro mult_le_mono1) simp
    then have room: "(q + 1) * nc \<le> length sums" using len(1) i(1) by simp
    have zero: "take nc (drop (q * nc) sums) = replicate nc 0"
      using room room' i(6) by (intro nth_equalityI) (auto simp: algebra_simps)
    have "?part = take ?n (drop idx res)" using L(2) i(3) by (simp add: seg_partN)
    then have nth: "res ! (idx + j) = ?part ! j" if "j < ?n" for j using that plen by simp
    have "foldl (\<lambda>(row, mu) j. let u = zigzag64 (res ! (idx + j))
                          in (map (\<lambda>k. row ! k + drop_bit k u) [0..<nc], if u > mu then u else mu)) (replicate nc 0, 0) [0..<?n]
        = foldl (wide_row nc ?part) (replicate nc 0, 0) [0..<?n]"
      by (rule foldl_cong) (auto simp: wide_row_def nth Let_def)
    then have "f st q = (put_row (q * nc) (map (\<lambda>k. zsum zigzag64 k ?part) [0..<nc]) sums,
        maxU[q := zmax zigzag64 ?part], (q + 1) * L - predOrder)"
      unfolding f_def st prod.case Let_def [of "partN L predOrder q"] zero using wide_row_fold [of ?n ?part nc] plen i(3) next_start [OF L(2), of q]
      by simp
    moreover have "length (put_row (q * nc) (map (\<lambda>k. zsum zigzag64 k ?part) [0..<nc]) sums) = length sums"
      using room by (intro put_row_nth(1)) simp
    moreover have "put_row (q * nc) (map (\<lambda>k. zsum zigzag64 k ?part) [0..<nc]) sums ! (p * nc + k) = zsum zigzag64 k (seg predOrder L p res)"
      if "p < Suc q" "k < nc" for p k
      using put_row_rows [OF _ room, of "map (\<lambda>k. zsum zigzag64 k ?part) [0..<nc]" p k] that i(5) by (cases "p = q") auto
    moreover have "put_row (q * nc) (map (\<lambda>k. zsum zigzag64 k ?part) [0..<nc]) sums ! j = 0" if "Suc q * nc \<le> j" "j < 2 ^ pmax * nc" for j
      using that put_row_nth(3) [of "q * nc" "map (\<lambda>k. zsum zigzag64 k ?part) [0..<nc]" sums j] room i(1,6) len(1) by simp
    moreover have "q < length maxU" using q i(2) len(2) by simp
    ultimately show "I (Suc q) (f st q)" using i(1,2,4) by (auto simp: I_def less_Suc_eq nth_list_update)
  qed
  then obtain sums maxU where m: "foldl f (sc_sums sc, sc_maxU sc, 0) [0..<2 ^ pmax] = (sums, maxU, length res)"
      "tables_ok zigzag64 res predOrder L (2 ^ pmax) nc sums maxU"
    using L(3) len by (cases "foldl f (sc_sums sc, sc_maxU sc, 0) [0..<2 ^ pmax]") (auto simp: I_def tables_ok_def)
  have "buildFinestTablesInt64 sc res blockSize predOrder pmax nc = sc\<lparr>sc_sums := sums, sc_maxU := maxU\<rparr>"
    unfolding buildFinestTablesInt64_def Let_def [of "2 ^ pmax"] Let_def [of "blockSize div 2 ^ pmax"] L(1) [symmetric]
    using m(1) unfolding f_def by simp
  with m show ?thesis by blast
qed

section \<open>The plan of one order\<close>

definition bestPlan :: "('a \<Rightarrow> u64) \<Rightarrow> nat \<Rightarrow> nat \<Rightarrow> 'a list \<Rightarrow> PartPlan" where
  "bestPlan zz kHi nc part = choosePartition (map (\<lambda>k. zsum zz k part) [0..<nc]) (zmax zz part) (length part) kHi"

definition maxK :: "PartPlan list \<Rightarrow> nat" where
  "maxK plans = foldl (\<lambda>m pl. if \<not> pp_escape pl \<and> pp_param pl > m then pp_param pl else m) 0 plans"

lemma maxK_snoc: "maxK (plans @ [pl]) = (if \<not> pp_escape pl \<and> pp_param pl > maxK plans then pp_param pl else maxK plans)"
  by (simp add: maxK_def)

lemma maxK_ge: "pl \<in> set plans \<Longrightarrow> \<not> pp_escape pl \<Longrightarrow> pp_param pl \<le> maxK plans"
  by (induction plans rule: rev_induct) (auto simp: maxK_snoc)

lemma maxK_le: "(\<And>pl. pl \<in> set plans \<Longrightarrow> \<not> pp_escape pl \<Longrightarrow> pp_param pl \<le> m) \<Longrightarrow> maxK plans \<le> m"
  by (induction plans rule: rev_induct) (auto simp: maxK_snoc maxK_def)

definition plans_at :: "('a \<Rightarrow> u64) \<Rightarrow> 'a list \<Rightarrow> nat \<Rightarrow> nat \<Rightarrow> nat \<Rightarrow> nat \<Rightarrow> nat \<Rightarrow> PartPlan list" where
  "plans_at zz res blockSize predOrder kHi nc po =
     map (\<lambda>p. bestPlan zz kHi nc (seg predOrder (blockSize div 2 ^ po) p res)) [0..<2 ^ po]"

lemma length_plans_at [simp]: "length (plans_at zz res blockSize predOrder kHi nc po) = 2 ^ po"
  by (simp add: plans_at_def)

definition width_of :: "PartPlan list \<Rightarrow> nat" where
  "width_of plans = (if maxK plans > 14 then 5 else 4)"

definition cost_of :: "PartPlan list \<Rightarrow> int" where
  "cost_of plans = 6 + int (length plans * width_of plans) + (\<Sum>pl \<leftarrow> plans. pp_payload pl)"

lemma planOrder_ok:
  assumes tab: "tables_ok zz res predOrder L (2 ^ po) nc sums maxU"
    and L: "L = blockSize div 2 ^ po" "predOrder \<le> L" "2 ^ po * L - predOrder = length res"
  shows "planOrder sums maxU blockSize predOrder po kHi nc =
    (plans_at zz res blockSize predOrder kHi nc po, maxK (plans_at zz res blockSize predOrder kHi nc po),
     \<Sum>pl \<leftarrow> plans_at zz res blockSize predOrder kHi nc po. pp_payload pl)"
proof -
  define f where "f = (\<lambda>(cur, maxK, sumPayload) p.
         let n = partN L predOrder p;
             pl = choosePartition (take nc (drop (p * nc) sums)) (maxU ! p) n kHi
         in (cur @ [pl], if \<not> pp_escape pl \<and> pp_param pl > maxK then pp_param pl else maxK,
             sumPayload + pp_payload pl))"
  define g where "g = (\<lambda>q. map (\<lambda>p. bestPlan zz kHi nc (seg predOrder L p res)) [0..<q])"
  have "(\<lambda>q st. st = (g q, maxK (g q), \<Sum>pl \<leftarrow> g q. pp_payload pl)) (2 ^ po) (foldl f ([], 0, 0) [0..<2 ^ po])"
  proof (rule foldl_upt_inv)
    show "([], 0, 0) = (g 0, maxK (g 0), \<Sum>pl \<leftarrow> g 0. pp_payload pl)" by (simp add: g_def maxK_def)
    fix q st assume q: "q < 2 ^ po" and st: "st = (g q, maxK (g q), \<Sum>pl \<leftarrow> g q. pp_payload pl)"
    have "(q + 1) * nc \<le> 2 ^ po * nc" using q by (intro mult_le_mono1) simp
    then have "(q + 1) * nc \<le> length sums" using tab by (simp add: tables_ok_def)
    then have row: "take nc (drop (q * nc) sums) = map (\<lambda>k. zsum zz k (seg predOrder L q res)) [0..<nc]"
      using tab q by (intro nth_equalityI) (auto simp: tables_ok_def)
    have mu: "maxU ! q = zmax zz (seg predOrder L q res)" using tab q by (simp add: tables_ok_def)
    have n: "partN L predOrder q = length (seg predOrder L q res)" using length_seg [OF L(2) q, of res] L(3) by simp
    have pl: "choosePartition (take nc (drop (q * nc) sums)) (maxU ! q) (partN L predOrder q) kHi = bestPlan zz kHi nc (seg predOrder L q res)"
      unfolding bestPlan_def row mu n ..
    show "f st q = (g (Suc q), maxK (g (Suc q)), \<Sum>pl \<leftarrow> g (Suc q). pp_payload pl)"
      unfolding f_def st Let_def prod.case pl by (simp add: g_def maxK_snoc)
  qed
  then show ?thesis
    unfolding planOrder_def plans_at_def L(1) [symmetric] f_def g_def by simp
qed

section \<open>The search over partition orders\<close>

lemma feasibleLoop_ok:
  assumes "\<And>j. j \<le> pmax \<Longrightarrow> 2 ^ j dvd blockSize \<and> predOrder \<le> blockSize div 2 ^ j" "pmax < po" "po \<le> Suc pmax"
    "maxPartOrder \<le> 15" "pmax \<le> 15"
  shows "feasibleLoop blockSize predOrder maxPartOrder pmax po \<le> 15
    \<and> (\<forall>j \<le> feasibleLoop blockSize predOrder maxPartOrder pmax po. 2 ^ j dvd blockSize \<and> predOrder \<le> blockSize div 2 ^ j)"
  using assms
proof (induction blockSize predOrder maxPartOrder pmax po rule: feasibleLoop.induct)
  case (1 blockSize predOrder maxPartOrder pmax po)
  show ?case
  proof (cases "po \<le> maxPartOrder \<and> blockSize mod 2 ^ po = 0 \<and> predOrder \<le> blockSize div 2 ^ po \<and> blockSize div 2 ^ po \<noteq> 0")
    case True
    then have "feasibleLoop blockSize predOrder maxPartOrder pmax po = feasibleLoop blockSize predOrder maxPartOrder po (po + 1)"
      by (subst feasibleLoop.simps) (auto simp: Let_def)
    moreover have j: "2 ^ j dvd blockSize \<and> predOrder \<le> blockSize div 2 ^ j" if "j \<le> po" for j
    proof (cases "j = po")
      case True
      then show ?thesis using \<open>po \<le> maxPartOrder \<and> _\<close> by (simp add: dvd_eq_mod_eq_0)
    next
      case False
      then show ?thesis using 1(2) [of j] that 1(3,4) by simp
    qed
    have "feasibleLoop blockSize predOrder maxPartOrder po (po + 1) \<le> 15
      \<and> (\<forall>j \<le> feasibleLoop blockSize predOrder maxPartOrder po (po + 1). 2 ^ j dvd blockSize \<and> predOrder \<le> blockSize div 2 ^ j)"
      by (rule 1(1) [OF _ _ refl _ j]) (use True 1(5) in simp_all)
    ultimately show ?thesis by simp
  next
    case False
    then have "feasibleLoop blockSize predOrder maxPartOrder pmax po = pmax"
      by (subst feasibleLoop.simps) (auto simp: Let_def)
    then show ?thesis using 1(2,6) by simp
  qed
qed

lemma feasiblePmax_ok:
  assumes "predOrder \<le> blockSize"
  shows "feasiblePmax blockSize predOrder maxPartOrder \<le> 15"
    and "j \<le> feasiblePmax blockSize predOrder maxPartOrder \<Longrightarrow> 2 ^ j dvd blockSize \<and> predOrder \<le> blockSize div 2 ^ j"
  using feasibleLoop_ok [of 0 blockSize predOrder 1 "if maxPartOrder > maxPartitionOrder then maxPartitionOrder else maxPartOrder"] assms
  by (auto simp: feasiblePmax_def maxPartitionOrder_def)

text \<open>Every order the format allows within the limit is among those searched.\<close>

lemma feasibleLoop_max:
  assumes "po = Suc pmax" "j \<le> maxPartOrder" "2 ^ j dvd blockSize" "predOrder \<le> blockSize div 2 ^ j" "0 < blockSize"
  shows "j \<le> feasibleLoop blockSize predOrder maxPartOrder pmax po"
  using assms
proof (induction blockSize predOrder maxPartOrder pmax po rule: feasibleLoop.induct)
  case (1 blockSize predOrder maxPartOrder pmax po)
  show ?case
  proof (cases "po \<le> maxPartOrder \<and> blockSize mod 2 ^ po = 0 \<and> predOrder \<le> blockSize div 2 ^ po \<and> blockSize div 2 ^ po \<noteq> 0")
    case True
    then have "feasibleLoop blockSize predOrder maxPartOrder pmax po = feasibleLoop blockSize predOrder maxPartOrder po (po + 1)"
      by (subst feasibleLoop.simps) (auto simp: Let_def)
    then show ?thesis using 1 True by simp
  next
    case False
    then have stop: "feasibleLoop blockSize predOrder maxPartOrder pmax po = pmax"
      by (subst feasibleLoop.simps) (auto simp: Let_def)
    have "\<not> po \<le> j"
    proof
      assume j: "po \<le> j"
      then have "2 ^ po dvd blockSize" using power_le_dvd [OF 1(4)] by blast
      moreover from this have "blockSize div 2 ^ po \<noteq> 0" using 1(6) by (auto simp: dvd_def)
      moreover have "blockSize div 2 ^ j \<le> blockSize div 2 ^ po" using j by (intro div_le_mono2 power_increasing) simp_all
      ultimately show False using False j 1(3,5) by (auto simp: dvd_eq_mod_eq_0)
    qed
    then show ?thesis using stop 1(2) by simp
  qed
qed

lemma feasiblePmax_max:
  assumes "j \<le> maxPartOrder" "j \<le> 15" "2 ^ j dvd blockSize" "predOrder \<le> blockSize div 2 ^ j" "0 < blockSize"
  shows "j \<le> feasiblePmax blockSize predOrder maxPartOrder"
  using feasibleLoop_max [of 1 0 j "if maxPartOrder > maxPartitionOrder then maxPartitionOrder else maxPartOrder"] assms
  by (simp add: feasiblePmax_def maxPartitionOrder_def)

text \<open>
  What the search returns: an order up to \<open>pmax\<close> with the plans, the parameter width and
  the bit count of that order, none of whose rivals costs less.
\<close>

definition best_order ::
  "('a \<Rightarrow> u64) \<Rightarrow> 'a list \<Rightarrow> nat \<Rightarrow> nat \<Rightarrow> nat \<Rightarrow> nat \<Rightarrow> nat \<Rightarrow> nat \<Rightarrow> nat \<times> PartPlan list \<times> nat \<times> int \<Rightarrow> bool" where
  "best_order zz res blockSize predOrder kHi nc lo pmax r \<longleftrightarrow>
     (case r of (po, plans, paramBits, tot) \<Rightarrow>
        lo \<le> po \<and> po \<le> pmax \<and> plans = plans_at zz res blockSize predOrder kHi nc po
      \<and> paramBits = width_of plans \<and> tot = cost_of plans
      \<and> (\<forall>j. lo \<le> j \<and> j \<le> pmax \<longrightarrow> tot \<le> cost_of (plans_at zz res blockSize predOrder kHi nc j)))"

lemma best_order_least:
  assumes "best_order zz res blockSize predOrder kHi nc lo pmax (po, plans, pb, tot)" "lo \<le> j" "j \<le> pmax"
  shows "tot \<le> cost_of (plans_at zz res blockSize predOrder kHi nc j)"
proof -
  have "\<forall>j. lo \<le> j \<and> j \<le> pmax \<longrightarrow> tot \<le> cost_of (plans_at zz res blockSize predOrder kHi nc j)"
    using assms(1) unfolding best_order_def prod.case by (elim conjE)
  then show ?thesis using assms(2,3) by blast
qed

lemma best_order_new:
  assumes "cost_of (plans_at zz res blockSize predOrder kHi nc po) \<le> tot" "po \<le> pmax"
    and "po < pmax \<Longrightarrow> best_order zz res blockSize predOrder kHi nc (po + 1) pmax (bpo, plans, pb, tot)"
  shows "best_order zz res blockSize predOrder kHi nc po pmax
    (po, plans_at zz res blockSize predOrder kHi nc po, width_of (plans_at zz res blockSize predOrder kHi nc po),
     cost_of (plans_at zz res blockSize predOrder kHi nc po))"
proof -
  have "cost_of (plans_at zz res blockSize predOrder kHi nc po) \<le> cost_of (plans_at zz res blockSize predOrder kHi nc j)"
    if "po \<le> j" "j \<le> pmax" for j
  proof (cases "po = j")
    case False
    then have "tot \<le> cost_of (plans_at zz res blockSize predOrder kHi nc j)"
      using best_order_least [OF assms(3)] that by simp
    then show ?thesis using assms(1) by simp
  qed simp
  then show ?thesis using assms(2) by (simp add: best_order_def)
qed

lemma best_order_old:
  assumes "tot < cost_of (plans_at zz res blockSize predOrder kHi nc po)"
    and "best_order zz res blockSize predOrder kHi nc (po + 1) pmax (bpo, plans, pb, tot)"
  shows "best_order zz res blockSize predOrder kHi nc po pmax (bpo, plans, pb, tot)"
proof -
  have "tot \<le> cost_of (plans_at zz res blockSize predOrder kHi nc j)" if "po \<le> j" "j \<le> pmax" for j
    using assms(1) best_order_least [OF assms(2), of j] that by (cases "po = j") auto
  then show ?thesis using assms(2) by (simp add: best_order_def)
qed

lemma planStep_ok:
  assumes tab: "tables_ok zz res predOrder (blockSize div 2 ^ po) (2 ^ po) nc (sc_sums sc) (sc_maxU sc)"
    and L: "predOrder \<le> blockSize div 2 ^ po" "2 ^ po dvd blockSize" "length res = blockSize - predOrder"
  shows "\<exists>sc'. planStep blockSize predOrder kHi nc po ((bpo, pb, tot), sc) =
      ((if cost_of (plans_at zz res blockSize predOrder kHi nc po) \<le> tot
        then (po, width_of (plans_at zz res blockSize predOrder kHi nc po), cost_of (plans_at zz res blockSize predOrder kHi nc po))
        else (bpo, pb, tot)), sc')
    \<and> sc_plans sc' = (if cost_of (plans_at zz res blockSize predOrder kHi nc po) \<le> tot
        then plans_at zz res blockSize predOrder kHi nc po else sc_plans sc)
    \<and> (0 < po \<longrightarrow> tables_ok zz res predOrder (blockSize div 2 ^ (po - 1)) (2 ^ (po - 1)) nc (sc_sums sc') (sc_maxU sc'))"
proof -
  let ?P = "plans_at zz res blockSize predOrder kHi nc po"
  have len: "2 ^ po * (blockSize div 2 ^ po) - predOrder = length res" using L(2,3) by simp
  note order = planOrder_ok [OF tab refl L(1) len, where kHi = kHi]
  have pb: "(if maxK ?P > maxParam4 then 5 else 4) = width_of ?P"
    by (simp add: width_of_def maxParam4_def)
  have tot': "2 + 4 + int (2 ^ po * width_of ?P) + (\<Sum>pl \<leftarrow> ?P. pp_payload pl) = cost_of ?P"
    by (simp add: cost_of_def)
  show ?thesis
  proof (cases "0 < po")
    case False
    then show ?thesis
      unfolding planStep_def prod.case order Let_def pb tot' by simp
  next
    case True
    then obtain j where po: "po = Suc j" by (cases po) auto
    have L2: "blockSize div 2 ^ j = 2 * (blockSize div 2 ^ po)"
      using L(2) po by (auto simp: dvd_def)
    have P: "(2::nat) ^ po = 2 * 2 ^ j" using po by simp
    obtain s m where sm: "mergeUpward (sc_sums sc) (sc_maxU sc) (2 ^ po) nc = (s, m)"
      by (cases "mergeUpward (sc_sums sc) (sc_maxU sc) (2 ^ po) nc")
    have "tables_ok zz res predOrder (blockSize div 2 ^ j) (2 ^ j) nc s m"
      using mergeUpward_ok [of zz res predOrder "blockSize div 2 ^ po" "2 ^ j" nc "sc_sums sc" "sc_maxU sc"] tab sm
      by (simp only: P [symmetric] L2 prod.case)
    then show ?thesis
      unfolding planStep_def prod.case order Let_def pb tot' using True sm po by simp
  qed
qed

lemma planFromTables_ok:
  assumes tab: "tables_ok zz res predOrder (blockSize div 2 ^ pmax) (2 ^ pmax) nc (sc_sums sc) (sc_maxU sc)"
    and L: "\<And>j. j \<le> pmax \<Longrightarrow> 2 ^ j dvd blockSize \<and> predOrder \<le> blockSize div 2 ^ j" "length res = blockSize - predOrder"
    and small: "cost_of (plans_at zz res blockSize predOrder kHi nc pmax) \<le> maxInt"
  shows "best_order zz res blockSize predOrder kHi nc 0 pmax (fst (planFromTables sc blockSize predOrder pmax kHi nc))"
proof -
  let ?C = "\<lambda>po. cost_of (plans_at zz res blockSize predOrder kHi nc po)"
  define f where "f = (\<lambda>st i. planStep blockSize predOrder kHi nc (pmax - i) st)"
  define I where "I = (\<lambda>i ((bpo, pb, tot), sc :: Scratch).
      (i = 0 \<longrightarrow> tot = maxInt)
    \<and> (0 < i \<longrightarrow> best_order zz res blockSize predOrder kHi nc (pmax + 1 - i) pmax (bpo, sc_plans sc, pb, tot))
    \<and> (i \<le> pmax \<longrightarrow> tables_ok zz res predOrder (blockSize div 2 ^ (pmax - i)) (2 ^ (pmax - i)) nc (sc_sums sc) (sc_maxU sc)))"
  have "rev [0..<pmax + 1] = map (\<lambda>i. pmax - i) [0..<pmax + 1]"
    by (intro nth_equalityI) (auto simp: rev_nth simp del: upt_Suc)
  then have fold: "foldl (\<lambda>st po. planStep blockSize predOrder kHi nc po st) s (rev [0..<pmax + 1]) = foldl f s [0..<pmax + 1]" for s
    by (simp only: foldl_map f_def)
  have "I (pmax + 1) (foldl f ((0, 0, maxInt), sc) [0..<pmax + 1])"
  proof (rule foldl_upt_inv)
    show "I 0 ((0, 0, maxInt), sc)" using tab by (simp add: I_def)
    fix i st assume i: "i < pmax + 1" and inv: "I i st"
    obtain bpo pb tot sc1 where st: "st = ((bpo, pb, tot), sc1)" by (metis prod.collapse)
    have tab1: "tables_ok zz res predOrder (blockSize div 2 ^ (pmax - i)) (2 ^ (pmax - i)) nc (sc_sums sc1) (sc_maxU sc1)"
      using inv i st by (simp add: I_def)
    obtain sc' where s: "f st i = ((if ?C (pmax - i) \<le> tot
          then (pmax - i, width_of (plans_at zz res blockSize predOrder kHi nc (pmax - i)), ?C (pmax - i)) else (bpo, pb, tot)), sc')"
      "sc_plans sc' = (if ?C (pmax - i) \<le> tot then plans_at zz res blockSize predOrder kHi nc (pmax - i) else sc_plans sc1)"
      "0 < pmax - i \<Longrightarrow> tables_ok zz res predOrder (blockSize div 2 ^ (pmax - i - 1)) (2 ^ (pmax - i - 1)) nc (sc_sums sc') (sc_maxU sc')"
      using planStep_ok [OF tab1, where kHi = kHi and bpo = bpo and pb = pb and tot = tot] L(1) [of "pmax - i"] L(2)
      unfolding f_def st by auto
    have next_tab: "Suc i \<le> pmax \<Longrightarrow> tables_ok zz res predOrder (blockSize div 2 ^ (pmax - Suc i)) (2 ^ (pmax - Suc i)) nc (sc_sums sc') (sc_maxU sc')"
      using s(3) by simp
    have tot: "i = 0 \<Longrightarrow> ?C (pmax - i) \<le> tot" using inv st small by (simp add: I_def)
    have old: "0 < i \<Longrightarrow> best_order zz res blockSize predOrder kHi nc (pmax + 1 - i) pmax (bpo, sc_plans sc1, pb, tot)"
      using inv st by (simp add: I_def)
    have n: "pmax + 1 - Suc i = pmax - i" and n': "0 < i \<Longrightarrow> pmax + 1 - i = pmax - i + 1" using i by simp_all
    show "I (Suc i) (f st i)"
    proof (cases "?C (pmax - i) \<le> tot")
      case True
      have "best_order zz res blockSize predOrder kHi nc (pmax - i) pmax
          (pmax - i, sc_plans sc', width_of (plans_at zz res blockSize predOrder kHi nc (pmax - i)), ?C (pmax - i))"
        using best_order_new [OF True, of pmax bpo "sc_plans sc1" pb] s(2) True old n' by simp
      then show ?thesis using s(1) next_tab True n by (simp add: I_def)
    next
      case False
      then have "0 < i" using tot by blast
      then have "best_order zz res blockSize predOrder kHi nc (pmax - i) pmax (bpo, sc_plans sc', pb, tot)"
        using best_order_old [of tot zz res blockSize predOrder kHi nc "pmax - i" pmax bpo "sc_plans sc1" pb] False s(2) old n' by simp
      then show ?thesis using s(1) next_tab False n by (simp add: I_def)
    qed
  qed
  then show ?thesis
    unfolding planFromTables_def fold by (auto simp: I_def split: prod.splits)
qed

section \<open>The plan of one partition\<close>

lemma scan_loop:
  assumes "foldl (\<lambda>(best, bestBits) k. if cost k <s bestBits then (k, cost k) else (best, bestBits)) (b, x) ks = (b', x')"
  shows "(b' = b \<and> x' = x \<or> b' \<in> set ks \<and> x' = cost b') \<and> sint x' \<le> sint x \<and> (\<forall>k \<in> set ks. sint x' \<le> sint (cost k))"
  using assms
proof (induction ks arbitrary: b x)
  case (Cons k ks)
  let ?b = "if cost k <s x then k else b" and ?x = "if cost k <s x then cost k else x"
  have "foldl (\<lambda>(best, bestBits) k. if cost k <s bestBits then (k, cost k) else (best, bestBits)) (?b, ?x) ks = (b', x')"
    using Cons.prems by (simp split: if_splits)
  from Cons.IH [OF this] show ?case by (auto simp: word_sless_alt split: if_splits)
qed simp

text \<open>On a window whose costs all fit, the scan returns a parameter of least cost.\<close>

lemma scanParams_min:
  assumes "lo \<le> hi" "\<And>k. lo \<le> k \<Longrightarrow> k \<le> hi \<Longrightarrow> sint (cost k) < 2 ^ 63 - 1"
  shows "\<exists>k. lo \<le> k \<and> k \<le> hi \<and> scanParams cost lo hi = (k, cost k)
    \<and> (\<forall>j. lo \<le> j \<and> j \<le> hi \<longrightarrow> sint (cost k) \<le> sint (cost j))"
proof -
  obtain b x where s: "scanParams cost lo hi = (b, x)" by (cases "scanParams cost lo hi")
  then have l: "(b = 0 \<and> x = maxInt64 \<or> b \<in> set [lo..<hi + 1] \<and> x = cost b)"
    "\<forall>k \<in> set [lo..<hi + 1]. sint x \<le> sint (cost k)"
    using scan_loop [of cost 0 maxInt64 "[lo..<hi + 1]" b x] by (simp_all add: scanParams_def del: upt_Suc)
  have m: "sint maxInt64 = 2 ^ 63 - 1" by (simp add: maxInt64_def) (simp add: mask_eq_exp_minus_1)
  have "x \<noteq> maxInt64" using l(2) assms m by force
  with l s show ?thesis by auto
qed

lemma scanParams_le: "fst (scanParams cost lo hi) \<le> hi"
proof -
  obtain b x where s: "scanParams cost lo hi = (b, x)" by (cases "scanParams cost lo hi")
  then show ?thesis
    using scan_loop [of cost 0 maxInt64 "[lo..<hi + 1]" b x] by (auto simp: scanParams_def simp del: upt_Suc)
qed

lemma escapeOr_fields:
  "pp_escape (escapeOr maxU n kb) \<Longrightarrow> pp_rawBits (escapeOr maxU n kb) = len64 maxU \<and> len64 maxU \<le> 31
     \<and> pp_payload (escapeOr maxU n kb) = 5 + int (len64 maxU) * int n"
  "\<not> pp_escape (escapeOr maxU n kb) \<Longrightarrow> pp_param (escapeOr maxU n kb) = fst kb \<and> pp_payload (escapeOr maxU n kb) = sint (snd kb)"
  by (auto simp: escapeOr_def Let_def maxRawBits_def split: if_splits)

text \<open>The window of parameters searched for a partition whose sum is \<open>s\<close>.\<close>

definition win_lo :: "u64 \<Rightarrow> nat \<Rightarrow> nat" where
  "win_lo s n = min ((if n > 0 then len64 (s div of_nat n) else 0) - 1) 30"

definition win_hi :: "u64 \<Rightarrow> nat \<Rightarrow> nat" where
  "win_hi s n = min ((if n > 0 then len64 (s div of_nat n) else 0) + 2) 30"

lemma win_lo_hi: "win_lo s n \<le> win_hi s n"
  by (simp add: win_lo_def win_hi_def)

lemma choosePartition_window:
  "choosePartition sums maxU n kHi = escapeOr maxU n
     (scanParams (\<lambda>k. sums ! k + of_nat n * (1 + of_nat k)) (win_lo (sums ! 0) n) (min (win_hi (sums ! 0) n) kHi))"
proof -
  have "(if (if e + 2 > 30 then 30 else e + 2) < e - 1 then (if e + 2 > 30 then 30 else e + 2) else e - 1) = min (e - 1) (30::nat)"
    "(if e + 2 > 30 then 30 else e + 2) = min (e + 2) (30::nat)" "(if h > kHi then kHi else h) = min h kHi" for e h :: nat
    by auto
  then show ?thesis
    by (simp add: choosePartition_def win_lo_def win_hi_def maxParam5_def Let_def)
qed

lemma rice_body_length:
  "length (concat (map (\<lambda>r. rice_bits k (zz r)) part)) = (\<Sum>r \<leftarrow> part. unat (drop_bit k (zz r))) + length part * (1 + k)"
  by (induction part) (auto simp: rice_bits_def)

lemma cost_exact:
  assumes "\<forall>r \<in> set part. unat (zz r) < 2 ^ 32" "length part \<le> 65535" "k \<le> 30"
  shows "sint (zsum zz k part + of_nat (length part) * (1 + of_nat k) :: u64)
       = int (length (concat (map (\<lambda>r. rice_bits k (zz r)) part)))"
    and "length (concat (map (\<lambda>r. rice_bits k (zz r)) part)) \<le> length part * (2 ^ 32 + 31)"
proof -
  note u = unat_zsum [OF assms(1,2), of k]
  let ?n = "length part"
  have b: "?n * (1 + k) \<le> ?n * 31" using assms(3) by (intro mult_le_mono2) simp
  show le: "length (concat (map (\<lambda>r. rice_bits k (zz r)) part)) \<le> ?n * (2 ^ 32 + 31)"
    unfolding rice_body_length using add_mono [OF u(2) b] by (simp only: distrib_left)
  have lt: "?n * (2 ^ 32 + 31) < 2 ^ 63" using assms(2) by simp
  have "zsum zz k part + of_nat ?n * (1 + of_nat k) = of_nat (unat (zsum zz k part) + ?n * (1 + k))"
    by (simp add: distrib_left)
  also have "\<dots> = of_nat (length (concat (map (\<lambda>r. rice_bits k (zz r)) part)))"
    by (simp only: u(1) rice_body_length)
  finally have e: "zsum zz k part + of_nat ?n * (1 + of_nat k) = (of_nat (length (concat (map (\<lambda>r. rice_bits k (zz r)) part))) :: u64)" .
  have "length (concat (map (\<lambda>r. rice_bits k (zz r)) part)) < 2 ^ 63" using le lt by (rule le_less_trans)
  then have "int (length (concat (map (\<lambda>r. rice_bits k (zz r)) part))) < 2 ^ 63"
    by (metis of_nat_less_iff of_nat_numeral of_nat_power)
  then show "sint (zsum zz k part + of_nat ?n * (1 + of_nat k) :: u64) = int (length (concat (map (\<lambda>r. rice_bits k (zz r)) part)))"
    unfolding e by (simp add: signed_of_nat signed_take_bit_int_eq_self_iff)
qed

lemma mean_len:
  assumes "\<forall>r \<in> set part. unat (zz r) < 2 ^ 32" "length part \<le> 65535" "part \<noteq> []"
  shows "len64 (zsum zz 0 part div of_nat (length part)) \<le> len64 (zmax zz part)"
proof (rule len64_mono)
  have "(\<Sum>r \<leftarrow> part. unat (zz r)) \<le> length part * unat (zmax zz part)"
    using sum_list_mono [of part "\<lambda>r. unat (zz r)" "\<lambda>_. unat (zmax zz part)"] zmax_ge [of _ part zz]
    by (simp add: sum_list_triv word_le_nat_alt)
  then have "unat (zsum zz 0 part) div length part \<le> unat (zmax zz part)"
    using unat_zsum(1) [OF assms(1,2), of 0] assms(3) div_le_mono [of _ "length part * unat (zmax zz part)" "length part"] by simp
  then show "zsum zz 0 part div of_nat (length part) \<le> zmax zz part"
    using assms(2) by (simp add: word_le_nat_alt unat_div unat_of_nat take_bit_nat_eq_self)
qed

text \<open>The largest parameter of the window keeps a code near its size in plain binary.\<close>

lemma window_code_length:
  assumes "\<forall>r \<in> set part. unat (zz r) < 2 ^ 32" "length part \<le> 65535" "k = win_hi (zsum zz 0 part) (length part)"
  shows "length (concat (map (\<lambda>r. rice_bits k (zz r)) part)) \<le> 35 * length part"
proof (cases "part = []")
  case False
  let ?n = "length part" and ?S = "\<Sum>r \<leftarrow> part. unat (zz r)"
  define e where "e = len64 (zsum zz 0 part div of_nat ?n)"
  have k: "k = min (e + 2) 30" using assms(3) False by (simp add: win_hi_def e_def)
  have S: "unat (zsum zz 0 part) = ?S" using unat_zsum(1) [OF assms(1,2), of 0] by simp
  have "?S div ?n < 2 ^ e"
    using len64_bound [of "zsum zz 0 part div of_nat ?n"] S assms(2) by (simp add: e_def unat_div unat_of_nat take_bit_nat_eq_self)
  then have mean: "?S \<le> 2 ^ e * ?n" using False by (simp add: div_less_iff_less_mult less_imp_le)
  have "?S \<le> 2 ^ 32 * ?n"
    using sum_list_mono [of part "\<lambda>r. unat (zz r)" "\<lambda>_. 2 ^ 32"] assms(1) by (simp add: sum_list_triv less_imp_le mult.commute)
  then have small: "?S \<le> 2 ^ k * (4 * ?n)"
  proof (cases "e + 2 \<le> 30")
    case True
    have "2 ^ e * ?n \<le> 2 ^ k * (4 * ?n)" using True by (simp add: k power_add)
    with mean show ?thesis by (rule order_trans)
  qed (simp add: k)
  have "2 ^ k * (\<Sum>r \<leftarrow> part. unat (drop_bit k (zz r))) \<le> ?S"
    unfolding sum_list_const_mult [symmetric] by (rule sum_list_mono) (simp only: unat_drop_bit_eq, simp add: drop_bit_eq_div)
  then have "2 ^ k * (\<Sum>r \<leftarrow> part. unat (drop_bit k (zz r))) \<le> 2 ^ k * (4 * ?n)" using small by (rule order_trans)
  then have "(\<Sum>r \<leftarrow> part. unat (drop_bit k (zz r))) \<le> 4 * ?n" by simp
  moreover have "?n * (1 + k) \<le> ?n * 31" by (intro mult_le_mono2) (simp add: k)
  ultimately show ?thesis unfolding rice_body_length by linarith
qed simp

text \<open>
  The choice for one partition: of the parameters in the window, one whose code is shortest,
  against the escape code of the raw width of its maximum.
\<close>

lemma escapeOr_cheap:
  assumes "n \<le> 65535"
  shows "pp_payload (escapeOr maxU n kb) \<le> sint (snd kb)"
    and "len64 maxU \<le> 31 \<Longrightarrow> pp_payload (escapeOr maxU n kb) \<le> 5 + int (len64 maxU) * int n"
proof -
  have esc: "sint (of_nat (5 + len64 maxU * n) :: i64) = 5 + int (len64 maxU) * int n" if "len64 maxU \<le> 31"
  proof -
    have "len64 maxU * n \<le> 31 * 65535" using that assms by (intro mult_le_mono)
    then have "5 + len64 maxU * n < 2 ^ 63" by simp
    then have "int (5 + len64 maxU * n) < 2 ^ 63" by (metis of_nat_less_iff of_nat_numeral of_nat_power)
    then have "sint (of_nat (5 + len64 maxU * n) :: i64) = int (5 + len64 maxU * n)"
      by (subst signed_of_nat) (simp add: signed_take_bit_int_eq_self_iff del: of_nat_add of_nat_mult)
    then show ?thesis by simp
  qed
  show "pp_payload (escapeOr maxU n kb) \<le> sint (snd kb)"
    using esc by (auto simp: escapeOr_def Let_def maxRawBits_def word_sless_alt simp del: of_nat_add of_nat_mult) simp
  show "len64 maxU \<le> 31 \<Longrightarrow> pp_payload (escapeOr maxU n kb) \<le> 5 + int (len64 maxU) * int n"
    using esc by (auto simp: escapeOr_def Let_def maxRawBits_def word_sless_alt simp del: of_nat_add of_nat_mult) simp
qed

lemma bestPlan_choice:
  assumes range: "\<forall>r \<in> set part. unat (zz r) < 2 ^ 32" "length part \<le> 65535"
    and k: "len64 (zmax zz part) + 2 \<le> kHi \<or> kHi = 30" "nc = kHi + 1" "kHi \<le> 30"
  defines "code \<equiv> \<lambda>j. length (concat (map (\<lambda>r. rice_bits j (zz r)) part))"
    and "lo \<equiv> win_lo (zsum zz 0 part) (length part)" and "hi \<equiv> win_hi (zsum zz 0 part) (length part)"
  shows "\<exists>b c. lo \<le> b \<and> b \<le> hi \<and> bestPlan zz kHi nc part = escapeOr (zmax zz part) (length part) (b, c)
    \<and> sint c = int (code b) \<and> (\<forall>j. lo \<le> j \<and> j \<le> hi \<longrightarrow> code b \<le> code j)"
proof -
  let ?s = "zsum zz 0 part" and ?n = "length part"
  let ?cost = "\<lambda>k. map (\<lambda>k. zsum zz k part) [0..<nc] ! k + of_nat ?n * (1 + of_nat k)"
  have s0: "map (\<lambda>k. zsum zz k part) [0..<nc] ! 0 = ?s" using k(2) by (simp del: upt_Suc)
  have "(if ?n > 0 then len64 (?s div of_nat ?n) else 0) \<le> len64 (zmax zz part)"
    using mean_len [OF range] by auto
  then have hi: "min (win_hi ?s ?n) kHi = hi" and "lo \<le> kHi" using k(1,3) by (auto simp: hi_def lo_def win_lo_def win_hi_def)
  then have le: "lo \<le> hi" using win_lo_hi [of ?s ?n] by (simp add: lo_def hi_def)
  have c: "sint (?cost j) = int (code j)" "code j \<le> ?n * (2 ^ 32 + 31)" if "j \<le> hi" for j
  proof -
    have "j \<le> 30" "j < nc" using that k(2,3) hi by (auto simp: hi_def win_hi_def)
    then show "sint (?cost j) = int (code j)" "code j \<le> ?n * (2 ^ 32 + 31)"
      using cost_exact [OF range, of j] by (simp_all add: code_def del: upt_Suc)
  qed
  have bound: "int ?n * (2 ^ 32 + 31) < 2 ^ 63 - 1" using range(2) by simp
  have cle: "sint (?cost j) < 2 ^ 63 - 1" if "j \<le> hi" for j
  proof -
    have "int (code j) \<le> int (?n * (2 ^ 32 + 31))" using c(2) [OF that] by (simp only: of_nat_le_iff)
    also have "\<dots> < 2 ^ 63 - 1" using bound by simp
    finally show ?thesis unfolding c(1) [OF that] .
  qed
  obtain b where b: "lo \<le> b" "b \<le> hi" "scanParams ?cost lo hi = (b, ?cost b)"
      "\<And>j. lo \<le> j \<Longrightarrow> j \<le> hi \<Longrightarrow> sint (?cost b) \<le> sint (?cost j)"
    using scanParams_min [OF le, of ?cost] cle by blast
  have "bestPlan zz kHi nc part = escapeOr (zmax zz part) ?n (b, ?cost b)"
    unfolding bestPlan_def choosePartition_window s0 hi using b(3) unfolding lo_def by simp
  moreover have "code b \<le> code j" if "lo \<le> j" "j \<le> hi" for j
    using b(4) [OF that] c(1) [OF b(2)] c(1) [OF that(2)] by simp
  ultimately show ?thesis using b(1,2) c(1) [OF b(2)] by blast
qed

text \<open>The plan of a partition: suitable, and its payload is the length of its body.\<close>

lemma bestPlan_ok:
  assumes range: "\<forall>r \<in> set part. unat (zz r) < 2 ^ 32" "length part \<le> 65535"
    and k: "len64 (zmax zz part) + 2 \<le> kHi \<or> kHi = 30" "nc = kHi + 1" "kHi \<le> 30"
    and pb: "pb = 4 \<or> pb = 5" "\<not> pp_escape (bestPlan zz kHi nc part) \<longrightarrow> pp_param (bestPlan zz kHi nc part) \<le> (if pb = 5 then 30 else 14)"
  shows "part_ok zz wide pb (bestPlan zz kHi nc part) part"
    and "int (length (part_bits zz wide pb (bestPlan zz kHi nc part) part)) = int pb + pp_payload (bestPlan zz kHi nc part)"
    and "pp_payload (bestPlan zz kHi nc part) \<le> 35 * int (length part)"
proof -
  let ?n = "length part" and ?pl = "bestPlan zz kHi nc part"
  obtain b c where b: "?pl = escapeOr (zmax zz part) ?n (b, c)"
      "sint c = int (length (concat (map (\<lambda>r. rice_bits b (zz r)) part)))"
      "length (concat (map (\<lambda>r. rice_bits b (zz r)) part))
        \<le> length (concat (map (\<lambda>r. rice_bits (win_hi (zsum zz 0 part) ?n) (zz r)) part))"
    using bestPlan_choice [OF range k] win_lo_hi [of "zsum zz 0 part" ?n] by blast
  note esc = escapeOr_fields [of "zmax zz part" ?n "(b, c)", folded b(1)]
  have fitsraw: "unat (zz r) < 2 ^ len64 (zmax zz part)" if "r \<in> set part" for r
    using len64_bound [of "zmax zz part"] zmax_ge [OF that, of zz] by (simp add: word_le_nat_alt)
  show "part_ok zz wide pb ?pl part"
    using esc fitsraw pb by (auto simp: part_ok_def)
  show "int (length (part_bits zz wide pb ?pl part)) = int pb + pp_payload ?pl"
  proof (cases "pp_escape ?pl")
    case True
    then show ?thesis using esc(1) by (simp add: part_bits_def length_concat comp_def sum_list_triv)
  next
    case False
    then show ?thesis using esc(2) b(2) by (simp add: part_bits_def)
  qed
  have "sint c \<le> 35 * int ?n" using b(2,3) window_code_length [OF range refl] by simp
  then show "pp_payload ?pl \<le> 35 * int ?n"
    using escapeOr_cheap(1) [OF range(2), of "zmax zz part" "(b, c)"] b(1) by simp
qed

text \<open>
  The parameters near the mean of the zigzag values, which the planner searches, stated on
  the numbers: the mean below \<open>2 ^ (k + 1)\<close> and not below \<open>2 ^ (k - 3)\<close>, with the limit 30 of
  the format.
\<close>

definition near_mean :: "nat list \<Rightarrow> nat \<Rightarrow> bool" where
  "near_mean us k \<longleftrightarrow>
     (let mean = sum_list us div length us
      in k \<le> 30 \<and> (k = 30 \<or> mean < 2 ^ (k + 1)) \<and> (k \<le> 2 \<or> 2 ^ (k - 3) \<le> mean))"

lemma near_mean_window:
  assumes "\<forall>r \<in> set part. unat (zz r) < 2 ^ 32" "length part \<le> 65535"
  shows "near_mean (map (unat \<circ> zz) part) k \<longleftrightarrow>
    win_lo (zsum zz 0 part) (length part) \<le> k \<and> k \<le> win_hi (zsum zz 0 part) (length part)"
proof (cases "part = []")
  case False
  let ?m = "zsum zz 0 part div of_nat (length part)"
  have m: "unat ?m = sum_list (map (unat \<circ> zz) part) div length part"
    using unat_zsum(1) [OF assms(1,2), of 0] assms(2) by (simp add: unat_div unat_of_nat take_bit_nat_eq_self comp_def)
  have len: "len64 ?m \<le> j \<longleftrightarrow> unat ?m < 2 ^ j" for j
    using len64_least [of ?m j] len64_bound [of ?m] order_less_le_trans [of "unat ?m" "2 ^ len64 ?m" "2 ^ j"]
    by (auto simp: power_increasing)
  have "k \<le> 2 \<or> 2 ^ (k - 3) \<le> unat ?m \<longleftrightarrow> k \<le> len64 ?m + 2"
    using len [of "k - 3"] by (cases "k \<le> 2") auto
  moreover have "k = 30 \<or> unat ?m < 2 ^ (k + 1) \<longleftrightarrow> len64 ?m - 1 \<le> k \<or> k = 30"
    using len [of "k + 1"] by auto
  ultimately show ?thesis
    using False unfolding near_mean_def Let_def length_map m [symmetric] win_lo_def win_hi_def by auto
qed (auto simp: near_mean_def win_lo_def win_hi_def)

text \<open>
  No legal code of the partition is shorter: not the escape of any raw width that holds its
  values, nor a Rice code with a parameter near the mean.
\<close>

lemma bestPlan_least:
  assumes range: "\<forall>r \<in> set part. unat (zz r) < 2 ^ 32" "length part \<le> 65535"
    and k: "len64 (zmax zz part) + 2 \<le> kHi \<or> kHi = 30" "nc = kHi + 1" "kHi \<le> 30"
    and q: "part_ok zz wide w q part" "\<not> pp_escape q \<Longrightarrow> near_mean (map (unat \<circ> zz) part) (pp_param q)"
  shows "int w + pp_payload (bestPlan zz kHi nc part) \<le> int (length (part_bits zz wide w q part))"
proof -
  let ?n = "length part" and ?pl = "bestPlan zz kHi nc part"
  obtain b c where b: "?pl = escapeOr (zmax zz part) ?n (b, c)"
      "sint c = int (length (concat (map (\<lambda>r. rice_bits b (zz r)) part)))"
      "\<And>j. win_lo (zsum zz 0 part) ?n \<le> j \<Longrightarrow> j \<le> win_hi (zsum zz 0 part) ?n \<Longrightarrow>
        length (concat (map (\<lambda>r. rice_bits b (zz r)) part)) \<le> length (concat (map (\<lambda>r. rice_bits j (zz r)) part))"
    using bestPlan_choice [OF range k] by blast
  note cheap = escapeOr_cheap [OF range(2), of "zmax zz part" "(b, c)", folded b(1)]
  show ?thesis
  proof (cases "pp_escape q")
    case True
    then have raw: "pp_rawBits q \<le> 31" "\<forall>r \<in> set part. unat (zz r) < 2 ^ pp_rawBits q" using q(1) by (auto simp: part_ok_def)
    have "unat (zmax zz part) < 2 ^ pp_rawBits q" using raw(2) by (induction part) (auto simp: max_def)
    then have l: "len64 (zmax zz part) \<le> pp_rawBits q" by (rule len64_least)
    then have "int (len64 (zmax zz part)) * int ?n \<le> int (pp_rawBits q) * int ?n" by (intro mult_right_mono) simp_all
    then have "pp_payload ?pl \<le> 5 + int (pp_rawBits q) * int ?n" using cheap(2) l raw(1) by simp
    then show ?thesis using True by (simp add: part_bits_def length_concat comp_def sum_list_triv mult.commute)
  next
    case False
    then have "length (concat (map (\<lambda>r. rice_bits b (zz r)) part)) \<le> length (concat (map (\<lambda>r. rice_bits (pp_param q) (zz r)) part))"
      using near_mean_window [OF range] q(2) b(3) by simp
    then have "pp_payload ?pl \<le> int (length (concat (map (\<lambda>r. rice_bits (pp_param q) (zz r)) part)))"
      using cheap(1) b(2) by simp
    then show ?thesis using False by (simp add: part_bits_def)
  qed
qed

section \<open>What the planner returns\<close>

lemma set_seg: "set (seg predOrder L p res) \<subseteq> set res"
  unfolding seg_def by (rule order_trans [OF set_take_subset set_drop_subset])

lemma length_seg_le: "length (seg predOrder L p res) \<le> length res"
  by (simp add: seg_def)

lemma zmax_seg_le: "zmax zz (seg predOrder L p res) \<le> zmax zz res"
  by (auto intro!: zmax_le zmax_ge dest: subsetD [OF set_seg])

lemma bestPlan_param: "\<not> pp_escape (bestPlan zz kHi nc part) \<Longrightarrow> pp_param (bestPlan zz kHi nc part) \<le> 30"
proof -
  have m: "fst (scanParams cost lo (min (win_hi s n) kHi)) \<le> 30" for cost lo s n
    by (rule order_trans [OF scanParams_le]) (auto simp: win_hi_def)
  assume "\<not> pp_escape (bestPlan zz kHi nc part)"
  then show ?thesis unfolding bestPlan_def choosePartition_window using escapeOr_fields(2) m by simp
qed

lemma plans_at_ok:
  assumes range: "\<forall>r \<in> set res. unat (zz r) < 2 ^ 32" "blockSize \<le> 65535"
    and L: "2 ^ po dvd blockSize" "predOrder \<le> blockSize div 2 ^ po" "length res = blockSize - predOrder" "po \<le> 15"
    and k: "kHi = min (len64 (zmax zz res) + 2) 30" "nc = kHi + 1"
  defines "plans \<equiv> plans_at zz res blockSize predOrder kHi nc po"
  shows "plan_ok zz wide res predOrder blockSize plans (width_of plans) po"
    and "int (length (plan_bits zz wide res predOrder blockSize plans (width_of plans) po)) = cost_of plans"
    and "cost_of plans \<le> maxInt" "po = 0 \<Longrightarrow> cost_of plans \<le> 11 + 35 * int (length res)"
proof -
  let ?seg = "\<lambda>p. seg predOrder (blockSize div 2 ^ po) p res"
  have plans: "plans ! p = bestPlan zz kHi nc (?seg p)" if "p < 2 ^ po" for p
    using that by (simp add: plans_def plans_at_def)
  have len: "2 ^ po * (blockSize div 2 ^ po) - predOrder = length res" using L(1,3) by simp
  have seglen: "length (?seg p) \<le> 65535" if "p < 2 ^ po" for p
    using range(2) L(3) length_seg_le [of predOrder "blockSize div 2 ^ po" p res] by simp
  have segr: "\<forall>r \<in> set (?seg p). unat (zz r) < 2 ^ 32" for p
    using range(1) set_seg [of predOrder "blockSize div 2 ^ po" p res] by blast
  have kk: "len64 (zmax zz (?seg p)) + 2 \<le> kHi \<or> kHi = 30" "kHi \<le> 30" for p
    using k(1) len64_mono [OF zmax_seg_le [of zz predOrder "blockSize div 2 ^ po" p res]] by auto
  have w: "width_of plans = 4 \<or> width_of plans = 5" by (simp add: width_of_def)
  have param: "pp_param (plans ! p) \<le> (if width_of plans = 5 then 30 else 14)" if "p < 2 ^ po" "\<not> pp_escape (plans ! p)" for p
  proof -
    have "plans ! p \<in> set plans" using that(1) by (simp add: plans_def)
    then show ?thesis
      using maxK_ge [of "plans ! p" plans] that bestPlan_param [of zz kHi nc "?seg p"] plans [OF that(1)]
      by (auto simp: width_of_def)
  qed
  note part = bestPlan_ok(1,2) [OF segr seglen kk(1) k(2) kk(2) w, where wide = wide]
    bestPlan_ok(3) [OF segr seglen kk(1) k(2) kk(2) w]
  have ok: "part_ok zz wide (width_of plans) (plans ! p) (?seg p)"
    "int (length (part_bits zz wide (width_of plans) (plans ! p) (?seg p))) = int (width_of plans) + pp_payload (plans ! p)"
    "pp_payload (plans ! p) \<le> 35 * int (length (?seg p))" if "p < 2 ^ po" for p
    using part [OF that] param [OF that] plans [OF that] by simp_all
  have n: "length plans = 2 ^ po" by (simp add: plans_def)
  note sl = slices_seg [OF L(2), of res]
  show "plan_ok zz wide res predOrder blockSize plans (width_of plans) po"
    using n L w ok(1) unfolding plan_ok_def sl by (auto simp: list_all2_conv_all_nth)
  have body: "concat (map2 (part_bits zz wide (width_of plans)) plans (map ?seg [0..<2 ^ po]))
      = concat (map (\<lambda>p. part_bits zz wide (width_of plans) (plans ! p) (?seg p)) [0..<2 ^ po])"
    unfolding map2_nth_upt [OF n, of "map ?seg [0..<2 ^ po]", simplified]
    by (rule arg_cong [where f = concat], rule map_cong) simp_all
  have payload: "(\<Sum>pl \<leftarrow> plans. pp_payload pl) = (\<Sum>p \<leftarrow> [0..<2 ^ po]. pp_payload (plans ! p))"
  proof -
    have "map pp_payload plans = map (\<lambda>p. pp_payload (plans ! p)) [0..<2 ^ po]"
      using n by (intro nth_equalityI) simp_all
    then show ?thesis by simp
  qed
  have "int (length (concat (map (\<lambda>p. part_bits zz wide (width_of plans) (plans ! p) (?seg p)) ps)))
      = int (length ps * width_of plans) + (\<Sum>p \<leftarrow> ps. pp_payload (plans ! p))" if "set ps \<subseteq> {..<2 ^ po}" for ps
    using that ok(2) by (induction ps) (auto simp: algebra_simps)
  from this [of "[0..<2 ^ po]"]
  show cost: "int (length (plan_bits zz wide res predOrder blockSize plans (width_of plans) po)) = cost_of plans"
    unfolding plan_bits_def sl body cost_of_def payload n by (simp add: atLeast_upt)
  have "(\<Sum>p \<leftarrow> [0..<2 ^ po]. pp_payload (plans ! p)) \<le> (\<Sum>p \<leftarrow> [0..<2 ^ po]. 35 * int 65535)"
  proof (rule sum_list_mono)
    fix p assume "p \<in> set [0..<2 ^ po]"
    then have p: "p < 2 ^ po" by simp
    have "35 * int (length (?seg p)) \<le> 35 * int 65535" using seglen [OF p] by simp
    then show "pp_payload (plans ! p) \<le> 35 * int 65535" using ok(3) [OF p] by simp
  qed
  also have "\<dots> = int (2 ^ po) * (35 * int 65535)" by (simp add: sum_list_triv)
  also have "\<dots> \<le> 2 ^ 15 * (35 * int 65535)"
    using L(4) power_increasing [of po 15 "2::int"] by (intro mult_right_mono) simp_all
  finally have pl: "(\<Sum>pl \<leftarrow> plans. pp_payload pl) \<le> 2 ^ 15 * (35 * int 65535)" unfolding payload .
  have "int (2 ^ po * width_of plans) \<le> 2 ^ 15 * 5"
    using L(4) power_increasing [of po 15 "2::int"] w by auto
  then show "cost_of plans \<le> maxInt" using pl unfolding cost_of_def n maxInt_def by simp
  assume "po = 0"
  moreover from this have "(\<Sum>pl \<leftarrow> plans. pp_payload pl) \<le> 35 * int (length res)"
    using ok(3) [of 0] length_seg_le [of predOrder "blockSize div 2 ^ po" 0 res] unfolding payload by simp
  ultimately show "cost_of plans \<le> 11 + 35 * int (length res)" using w unfolding cost_of_def n by auto
qed

text \<open>
  A rival plan of the same order is one the format allows, with parameters near the mean of
  their partitions. The planner's costs at most as much, and with 5-bit parameters, or when
  no value needs more than 4 bits for its parameter, exactly no more; else the width of its
  parameters may cost it one bit a partition.
\<close>

definition near_plan :: "('a \<Rightarrow> u64) \<Rightarrow> 'a list \<Rightarrow> nat \<Rightarrow> nat \<Rightarrow> PartPlan list \<Rightarrow> nat \<Rightarrow> bool" where
  "near_plan zz res predOrder blockSize plans po \<longleftrightarrow>
     (\<forall>p < 2 ^ po. \<not> pp_escape (plans ! p) \<longrightarrow>
        near_mean (map (unat \<circ> zz) (seg predOrder (blockSize div 2 ^ po) p res)) (pp_param (plans ! p)))"

lemma length_plan_bits:
  assumes "length plans = 2 ^ po" "predOrder \<le> blockSize div 2 ^ po"
  shows "length (plan_bits zz wide res predOrder blockSize plans w po) =
    6 + (\<Sum>p \<leftarrow> [0..<2 ^ po]. length (part_bits zz wide w (plans ! p) (seg predOrder (blockSize div 2 ^ po) p res)))"
proof -
  let ?seg = "\<lambda>p. seg predOrder (blockSize div 2 ^ po) p res"
  have "map2 (part_bits zz wide w) plans (map ?seg [0..<2 ^ po]) = map (\<lambda>p. part_bits zz wide w (plans ! p) (?seg p)) [0..<2 ^ po]"
    by (rule nth_equalityI) (use assms(1) in simp_all)
  then show ?thesis
    unfolding plan_bits_def slices_seg [OF assms(2)] by (simp add: length_concat comp_def)
qed

lemma width_of_small:
  assumes "\<forall>r \<in> set res. unat (zz r) < 2 ^ 12" "kHi = min (len64 (zmax zz res) + 2) 30"
  shows "width_of (plans_at zz res blockSize predOrder kHi nc po) = 4"
proof -
  have "unat (zmax zz res) < 2 ^ 12" using assms(1) by (induction res) (auto simp: max_def)
  then have "len64 (zmax zz res) \<le> 12" by (rule len64_least)
  then have k: "kHi \<le> 14" using assms(2) by simp
  have "pp_param (bestPlan zz kHi nc part) \<le> 14" if "\<not> pp_escape (bestPlan zz kHi nc part)" for part
  proof -
    have "fst (scanParams cost lo (min hi kHi)) \<le> 14" for cost lo hi
      using scanParams_le [of cost lo "min hi kHi"] k by simp
    then show ?thesis using that unfolding bestPlan_def choosePartition_window by (simp add: escapeOr_fields(2))
  qed
  then have "maxK (plans_at zz res blockSize predOrder kHi nc po) \<le> 14"
    by (intro maxK_le) (auto simp: plans_at_def)
  then show ?thesis by (simp add: width_of_def)
qed

lemma bestPlan_near:
  assumes range: "\<forall>r \<in> set part. unat (zz r) < 2 ^ 32" "length part \<le> 65535"
    and k: "len64 (zmax zz part) + 2 \<le> kHi \<or> kHi = 30" "nc = kHi + 1" "kHi \<le> 30"
    and "\<not> pp_escape (bestPlan zz kHi nc part)"
  shows "near_mean (map (unat \<circ> zz) part) (pp_param (bestPlan zz kHi nc part))"
  using bestPlan_choice [OF range k] near_mean_window [OF range] escapeOr_fields(2) [of "zmax zz part"] assms(6) by fastforce

lemma plans_at_near:
  assumes "\<forall>r \<in> set res. unat (zz r) < 2 ^ 32" "length res \<le> 65535"
    and k: "kHi = min (len64 (zmax zz res) + 2) 30" "nc = kHi + 1"
  shows "near_plan zz res predOrder blockSize (plans_at zz res blockSize predOrder kHi nc po) po"
  unfolding near_plan_def
proof (intro allI impI)
  fix p assume p: "p < 2 ^ po" and e: "\<not> pp_escape (plans_at zz res blockSize predOrder kHi nc po ! p)"
  let ?seg = "seg predOrder (blockSize div 2 ^ po) p res"
  have "\<forall>r \<in> set ?seg. unat (zz r) < 2 ^ 32" "length ?seg \<le> 65535"
    using assms(1,2) set_seg [of predOrder "blockSize div 2 ^ po" p res]
      length_seg_le [of predOrder "blockSize div 2 ^ po" p res] by auto
  moreover have "len64 (zmax zz ?seg) + 2 \<le> kHi \<or> kHi = 30" "kHi \<le> 30"
    using k(1) len64_mono [OF zmax_seg_le [of zz predOrder "blockSize div 2 ^ po" p res]] by auto
  ultimately show "near_mean (map (unat \<circ> zz) ?seg) (pp_param (plans_at zz res blockSize predOrder kHi nc po ! p))"
    using bestPlan_near [of ?seg zz kHi nc] k(2) p e by (simp add: plans_at_def)
qed

lemma plans_at_least:
  assumes range: "\<forall>r \<in> set res. unat (zz r) < 2 ^ 32" "blockSize \<le> 65535"
    and k: "kHi = min (len64 (zmax zz res) + 2) 30" "nc = kHi + 1"
    and rival: "plan_ok zz wide res predOrder blockSize qs w po" "near_plan zz res predOrder blockSize qs po"
  shows "cost_of (plans_at zz res blockSize predOrder kHi nc po)
    \<le> int (length (plan_bits zz wide res predOrder blockSize qs w po))
      + (if w = 5 \<or> (\<forall>r \<in> set res. unat (zz r) < 2 ^ 12) then 0 else 2 ^ po)"
proof -
  let ?seg = "\<lambda>p. seg predOrder (blockSize div 2 ^ po) p res" and ?P = "plans_at zz res blockSize predOrder kHi nc po"
  have L: "length qs = 2 ^ po" "predOrder \<le> blockSize div 2 ^ po" "length res = blockSize - predOrder" "w = 4 \<or> w = 5"
    and all: "list_all2 (part_ok zz wide w) qs (slices (part_lens blockSize predOrder po) res)"
    using rival(1) by (simp_all add: plan_ok_def)
  have part: "int w + pp_payload (?P ! p) \<le> int (length (part_bits zz wide w (qs ! p) (?seg p)))" if p: "p < 2 ^ po" for p
  proof -
    have "part_ok zz wide w (qs ! p) (?seg p)"
      using list_all2_nthD [OF all, of p] p L(1) by (simp add: slices_seg [OF L(2)])
    moreover have "\<forall>r \<in> set (?seg p). unat (zz r) < 2 ^ 32" "length (?seg p) \<le> 65535"
      using range L(3) set_seg [of predOrder "blockSize div 2 ^ po" p res]
        length_seg_le [of predOrder "blockSize div 2 ^ po" p res] by auto
    moreover have "len64 (zmax zz (?seg p)) + 2 \<le> kHi \<or> kHi = 30" "kHi \<le> 30"
      using k(1) len64_mono [OF zmax_seg_le [of zz predOrder "blockSize div 2 ^ po" p res]] by auto
    moreover have "\<not> pp_escape (qs ! p) \<Longrightarrow> near_mean (map (unat \<circ> zz) (?seg p)) (pp_param (qs ! p))"
      using rival(2) p by (simp add: near_plan_def)
    ultimately show ?thesis using bestPlan_least [of "?seg p" zz kHi nc wide w "qs ! p"] k(2) p by (simp add: plans_at_def)
  qed
  have int_sum: "int (\<Sum>x \<leftarrow> xs. f x) = (\<Sum>x \<leftarrow> xs. int (f x))" for f and xs :: "nat list" by (induction xs) simp_all
  have sum: "map pp_payload ?P = map (\<lambda>p. pp_payload (?P ! p)) [0..<2 ^ po]"
    by (rule nth_equalityI) simp_all
  have "(\<Sum>p \<leftarrow> [0..<2 ^ po]. int w + pp_payload (?P ! p)) \<le> (\<Sum>p \<leftarrow> [0..<2 ^ po]. int (length (part_bits zz wide w (qs ! p) (?seg p))))"
    by (rule sum_list_mono) (use part in simp)
  then have "int (2 ^ po * w) + sum_list (map pp_payload ?P)
      \<le> int (\<Sum>p \<leftarrow> [0..<2 ^ po]. length (part_bits zz wide w (qs ! p) (?seg p)))"
    unfolding sum int_sum by (simp add: sum_list_addf sum_list_triv)
  then have "6 + int (2 ^ po * w) + sum_list (map pp_payload ?P)
      \<le> int (length (plan_bits zz wide res predOrder blockSize qs w po))"
    by (simp add: length_plan_bits [OF L(1,2)])
  moreover have "width_of ?P \<le> w + (if w = 5 \<or> (\<forall>r \<in> set res. unat (zz r) < 2 ^ 12) then 0 else 1)"
    using L(4) width_of_small [OF _ k(1), of blockSize predOrder nc po] by (auto simp: width_of_def)
  then have "int (2 ^ po * width_of ?P) \<le> int (2 ^ po * w) + (if w = 5 \<or> (\<forall>r \<in> set res. unat (zz r) < 2 ^ 12) then 0 else 2 ^ po)"
    using L(4) by (auto simp: width_of_def split: if_splits)
  ultimately show ?thesis by (simp add: cost_of_def)
qed

text \<open>
  The contract of both planners: the plan suits the residual, its announced cost is the
  length of its code, and no feasible order up to the limit has a cheaper plan. A residual costs
  at most 35 bits a sample.
\<close>

definition planned ::
  "('a \<Rightarrow> u64) \<Rightarrow> ('a \<Rightarrow> i64) \<Rightarrow> 'a list \<Rightarrow> nat \<Rightarrow> nat \<Rightarrow> nat \<times> PartPlan list \<times> nat \<times> int \<Rightarrow> bool" where
  "planned zz wide res blockSize predOrder r \<longleftrightarrow>
     (case r of (po, plans, paramBits, tot) \<Rightarrow>
        plan_ok zz wide res predOrder blockSize plans paramBits po
      \<and> tot = int (length (plan_bits zz wide res predOrder blockSize plans paramBits po))
      \<and> tot = 6 + (\<Sum>pl \<leftarrow> plans. int paramBits + pp_payload pl) \<and> tot \<le> 11 + 35 * int (length res))"

lemma planFromTables_planned:
  assumes tab: "tables_ok zz res predOrder (blockSize div 2 ^ pmax) (2 ^ pmax) nc (sc_sums sc) (sc_maxU sc)"
    and pmax: "pmax = feasiblePmax blockSize predOrder maxPartOrder" "predOrder \<le> blockSize"
    and range: "\<forall>r \<in> set res. unat (zz r) < 2 ^ 32" "blockSize \<le> 65535" "length res = blockSize - predOrder"
    and k: "kHi = min (len64 (zmax zz res) + 2) 30" "nc = kHi + 1"
  shows "planned zz wide res blockSize predOrder (fst (planFromTables sc blockSize predOrder pmax kHi nc))"
    and "best_order zz res blockSize predOrder kHi nc 0 pmax (fst (planFromTables sc blockSize predOrder pmax kHi nc))"
proof -
  note f = feasiblePmax_ok [OF pmax(2), where maxPartOrder = maxPartOrder, folded pmax(1)]
  have at: "plan_ok zz wide res predOrder blockSize (plans_at zz res blockSize predOrder kHi nc j) (width_of (plans_at zz res blockSize predOrder kHi nc j)) j
      \<and> int (length (plan_bits zz wide res predOrder blockSize (plans_at zz res blockSize predOrder kHi nc j) (width_of (plans_at zz res blockSize predOrder kHi nc j)) j))
          = cost_of (plans_at zz res blockSize predOrder kHi nc j)
      \<and> cost_of (plans_at zz res blockSize predOrder kHi nc j) \<le> maxInt" if "j \<le> pmax" for j
    using plans_at_ok [OF range(1,2) _ _ range(3) _ k, of j] f(1) f(2) [OF that] that by auto
  show best: "best_order zz res blockSize predOrder kHi nc 0 pmax (fst (planFromTables sc blockSize predOrder pmax kHi nc))"
    by (rule planFromTables_ok [OF tab f(2) range(3)]) (use at in auto)
  obtain po plans pb tot where r: "fst (planFromTables sc blockSize predOrder pmax kHi nc) = (po, plans, pb, tot)"
    by (metis prod.collapse)
  have b: "po \<le> pmax" "plans = plans_at zz res blockSize predOrder kHi nc po" "pb = width_of plans" "tot = cost_of plans"
    using best unfolding r best_order_def prod.case by auto
  have "tot \<le> cost_of (plans_at zz res blockSize predOrder kHi nc 0)" by (rule best_order_least [OF best [unfolded r]]) simp_all
  moreover have "cost_of (plans_at zz res blockSize predOrder kHi nc 0) \<le> 11 + 35 * int (length res)"
    using plans_at_ok(4) [OF range(1,2) _ _ range(3) _ k, of 0] pmax(2) by simp
  ultimately have cheap: "cost_of plans \<le> 11 + 35 * int (length res)" unfolding b(4) by simp
  show "planned zz wide res blockSize predOrder (fst (planFromTables sc blockSize predOrder pmax kHi nc))"
    unfolding r planned_def prod.case b(3,4) using at [OF b(1)] b(2) cheap
    by (simp add: cost_of_def sum_list_addf sum_list_triv)
qed

lemma zigzag_32: "unat (zigzag r) < 2 ^ 32"
proof -
  have "unat (ucast x :: u64) < 2 ^ 32" for x :: i32
  proof -
    have "unat x < 2 ^ 32" using unsigned_less [of x] by simp
    then show ?thesis by (simp add: unsigned_ucast_eq take_bit_nat_eq_self)
  qed
  then show ?thesis unfolding zigzag_def .
qed

lemma planned_tables_size:
  "length (sc_maxU (ensurePlan parts sc)) \<ge> parts"
  "length (sc_sums (ensureSums parts nc sc)) \<ge> parts * nc"
  "sc_maxU (ensureSums parts nc sc) = sc_maxU sc"
  by (simp_all add: ensurePlan_def ensureSums_def)

lemma PlanResidualInt32_tables:
  fixes maxPartOrder :: nat
  assumes "predOrder \<le> blockSize" "0 < blockSize" "length res = blockSize - predOrder"
  defines "pmax \<equiv> feasiblePmax blockSize predOrder maxPartOrder"
    and "kHi \<equiv> min (len64 (zmax zigzag res) + 2) 30"
  shows "\<exists>sc'. PlanResidualInt32 res blockSize predOrder maxPartOrder sc = planFromTables sc' blockSize predOrder pmax kHi (kHi + 1)
    \<and> tables_ok zigzag res predOrder (blockSize div 2 ^ pmax) (2 ^ pmax) (kHi + 1) (sc_sums sc') (sc_maxU sc')"
proof -
  have f: "2 ^ pmax dvd blockSize" "predOrder \<le> blockSize div 2 ^ pmax"
    using feasiblePmax_ok(2) [OF assms(1), of pmax maxPartOrder] by (simp_all add: pmax_def)
  have len: "2 ^ pmax * (blockSize div 2 ^ pmax) - predOrder = length res" using f(1) assms(3) by simp
  obtain maxU where m: "finestMaxU (ensurePlan (2 ^ pmax) sc) res blockSize predOrder pmax
        = (zmax zigzag res, (ensurePlan (2 ^ pmax) sc)\<lparr>sc_maxU := maxU\<rparr>)" "2 ^ pmax \<le> length maxU"
      "\<forall>p < 2 ^ pmax. maxU ! p = zmax zigzag (seg predOrder (blockSize div 2 ^ pmax) p res)"
    using finestMaxU_ok [OF refl f(2) len planned_tables_size(1), of sc] planned_tables_size(1) [of "2 ^ pmax" sc] by auto
  let ?sc = "ensureSums (2 ^ pmax) (kHi + 1) ((ensurePlan (2 ^ pmax) sc)\<lparr>sc_maxU := maxU\<rparr>)"
  obtain sums where s: "buildFinestSumsInt32 ?sc res blockSize predOrder pmax (kHi + 1) = ?sc\<lparr>sc_sums := sums\<rparr>"
      "2 ^ pmax * (kHi + 1) \<le> length sums"
      "\<forall>p < 2 ^ pmax. \<forall>k < kHi + 1. sums ! (p * (kHi + 1) + k) = zsum zigzag k (seg predOrder (blockSize div 2 ^ pmax) p res)"
    using buildFinestSumsInt32_ok [OF refl f(2) len planned_tables_size(2), of "kHi + 1" "(ensurePlan (2 ^ pmax) sc)\<lparr>sc_maxU := maxU\<rparr>"]
      planned_tables_size(2) [of "2 ^ pmax" "kHi + 1" "(ensurePlan (2 ^ pmax) sc)\<lparr>sc_maxU := maxU\<rparr>"] by auto
  have "PlanResidualInt32 res blockSize predOrder maxPartOrder sc = planFromTables (?sc\<lparr>sc_sums := sums\<rparr>) blockSize predOrder pmax kHi (kHi + 1)"
    unfolding PlanResidualInt32_def pmax_def [symmetric] Let_def m(1) prod.case maxParam5_def kHi_def [symmetric] s(1)
    using assms(1,2) by simp
  moreover have "sc_maxU ?sc = maxU" by (simp add: planned_tables_size)
  ultimately show ?thesis using m s by (intro exI [of _ "?sc\<lparr>sc_sums := sums\<rparr>"]) (simp add: tables_ok_def)
qed

lemma PlanResidualInt32_planned:
  assumes "predOrder \<le> blockSize" "0 < blockSize" "blockSize \<le> 65535" "length res = blockSize - predOrder"
  shows "planned zigzag scast res blockSize predOrder (fst (PlanResidualInt32 res blockSize predOrder maxPartOrder sc))"
  using PlanResidualInt32_tables [OF assms(1,2,4), of maxPartOrder sc]
    planFromTables_planned(1) [OF _ refl assms(1) _ assms(3,4) refl refl, of zigzag] zigzag_32 by metis

lemma wide_extremes:
  assumes "res \<noteq> []"
  shows "(case foldl (\<lambda>(lo, hi) r. (if r <s lo then r else lo, if hi <s r then r else hi)) (res ! 0, res ! 0) res of
            (lo, hi) \<Rightarrow> max (zigzag64 lo) (zigzag64 hi)) = zmax zigzag64 res"
proof -
  obtain lo hi where f: "foldl (\<lambda>(lo, hi) r. (if r <s lo then r else lo, if hi <s r then r else hi)) (res ! 0, res ! 0) res = (lo, hi)"
    by (cases "foldl (\<lambda>(lo, hi) r. (if r <s lo then r else lo, if hi <s r then r else hi)) (res ! 0, res ! 0) res")
  have "res ! 0 \<in> set res" using assms by simp
  then show ?thesis
    unfolding f prod.case using minmax_fold [OF f] by (intro zmax_extremes uint_zigzag64) auto
qed

lemma PlanResidualInt64_tables:
  fixes maxPartOrder :: nat
  assumes "predOrder \<le> blockSize" "0 < blockSize" "length res = blockSize - predOrder"
  defines "pmax \<equiv> feasiblePmax blockSize predOrder maxPartOrder"
    and "kHi \<equiv> min (len64 (zmax zigzag64 res) + 2) 30"
  shows "\<exists>sc'. PlanResidualInt64 res blockSize predOrder maxPartOrder sc = planFromTables sc' blockSize predOrder pmax kHi (kHi + 1)
    \<and> tables_ok zigzag64 res predOrder (blockSize div 2 ^ pmax) (2 ^ pmax) (kHi + 1) (sc_sums sc') (sc_maxU sc')"
proof -
  have f: "2 ^ pmax dvd blockSize" "predOrder \<le> blockSize div 2 ^ pmax"
    using feasiblePmax_ok(2) [OF assms(1), of pmax maxPartOrder] by (simp_all add: pmax_def)
  have len: "2 ^ pmax * (blockSize div 2 ^ pmax) - predOrder = length res" using f(1) assms(3) by simp
  have g: "(if res \<noteq> []
                  then case foldl (\<lambda>(lo, hi) r. (if r <s lo then r else lo, if hi <s r then r else hi)) (res ! 0, res ! 0) res of
                         (lo, hi) \<Rightarrow> max (zigzag64 lo) (zigzag64 hi)
                  else 0) = zmax zigzag64 res"
    using wide_extremes [of res] by (cases "res = []") simp_all
  let ?sc0 = "ensure (2 ^ pmax) (kHi + 1) sc"
  let ?sc = "?sc0\<lparr>sc_sums := replicate (2 ^ pmax * (kHi + 1)) 0 @ drop (2 ^ pmax * (kHi + 1)) (sc_sums ?sc0)\<rparr>"
  have sz: "2 ^ pmax * (kHi + 1) \<le> length (sc_sums ?sc)" "2 ^ pmax \<le> length (sc_maxU ?sc)"
    "\<forall>i < 2 ^ pmax * (kHi + 1). sc_sums ?sc ! i = 0"
    using planned_tables_size(1) [of "2 ^ pmax" sc] by (simp_all add: ensure_def planned_tables_size(3) nth_append)
  obtain sums maxU where s: "buildFinestTablesInt64 ?sc res blockSize predOrder pmax (kHi + 1) = ?sc\<lparr>sc_sums := sums, sc_maxU := maxU\<rparr>"
      "tables_ok zigzag64 res predOrder (blockSize div 2 ^ pmax) (2 ^ pmax) (kHi + 1) sums maxU"
    using buildFinestTablesInt64_ok [OF refl f(2) len sz] by blast
  have "PlanResidualInt64 res blockSize predOrder maxPartOrder sc = planFromTables (?sc\<lparr>sc_sums := sums, sc_maxU := maxU\<rparr>) blockSize predOrder pmax kHi (kHi + 1)"
    unfolding PlanResidualInt64_def pmax_def [symmetric] Let_def g maxParam5_def kHi_def [symmetric] s(1)
    using assms(1,2) by simp
  then show ?thesis using s(2) by (intro exI [of _ "?sc\<lparr>sc_sums := sums, sc_maxU := maxU\<rparr>"]) simp
qed

lemma PlanResidualInt64_planned:
  assumes "predOrder \<le> blockSize" "0 < blockSize" "blockSize \<le> 65535" "length res = blockSize - predOrder"
    and "\<forall>r \<in> set res. unat (zigzag64 r) < 2 ^ 32"
  shows "planned zigzag64 (\<lambda>r. r) res blockSize predOrder (fst (PlanResidualInt64 res blockSize predOrder maxPartOrder sc))"
  using PlanResidualInt64_tables [OF assms(1,2,4), of maxPartOrder sc]
    planFromTables_planned(1) [OF _ refl assms(1) assms(5,3,4) refl refl] by metis

lemma zz_high_zero: "unat u < 2 ^ 32 \<Longrightarrow> drop_bit 32 u = 0" for u :: u64
  unfolding word_unat_eq_iff unat_drop_bit_eq by (simp add: drop_bit_eq_div)

text \<open>
  Encoding and decoding compose: the writer appends a code that the decoder of a residual
  reads back, and the count of bits returned, which is the planner's estimate, is exact.
\<close>

lemma EncodeResidual_bits:
  assumes "predOrder \<le> blockSize" "0 < blockSize" "blockSize \<le> 65535" "length res = blockSize - predOrder" "wf_writer bw"
  shows "\<exists>written sc' bw' bs. EncodeResidual res blockSize predOrder maxPartOrder sc bw = (written, sc', bw')
    \<and> wf_writer bw' \<and> wbits bw' = wbits bw @ bs \<and> written = int (length bs)
    \<and> written = fst (CostResidual res blockSize predOrder maxPartOrder sc)
    \<and> parses (DecodeResidual blockSize predOrder :: (i32 list, 't) rm) bs res"
proof -
  obtain po plans pb tot sc' where p: "PlanResidualInt32 res blockSize predOrder maxPartOrder sc = ((po, plans, pb, tot), sc')"
    by (metis prod.collapse)
  let ?bs = "plan_bits zigzag scast res predOrder blockSize plans pb po"
  have pl: "plan_ok zigzag scast res predOrder blockSize plans pb po" "tot = int (length ?bs)"
    "tot = 6 + (\<Sum>pl \<leftarrow> plans. int pb + pp_payload pl)"
    using PlanResidualInt32_planned [OF assms(1-4), of maxPartOrder sc] p by (simp_all add: planned_def)
  note w = writePlannedWith_ok [OF pl(1) assms(5), folded WritePlanned_def]
  obtain written bw' where e: "WritePlanned res predOrder blockSize plans pb bw = (written, bw')"
    by (cases "WritePlanned res predOrder blockSize plans pb bw")
  have "parses (DecodeResidual blockSize predOrder :: (i32 list, 't) rm) ?bs res"
    by (rule width32.DecodeResidual_plan [OF pl(1)]) (auto intro: zz_high_zero zigzag_32)
  then show ?thesis
    using w pl(2,3) unfolding EncodeResidual_def CostResidual_def p prod.case e
    by (intro exI [of _ written] exI [of _ sc'] exI [of _ bw'] exI [of _ ?bs]) simp
qed

lemma EncodeResidual64_bits:
  assumes "predOrder \<le> blockSize" "0 < blockSize" "blockSize \<le> 65535" "length res = blockSize - predOrder" "wf_writer bw"
    and "\<forall>r \<in> set res. unat (zigzag64 r) < 2 ^ 32"
  shows "\<exists>written sc' bw' bs. EncodeResidual64 res blockSize predOrder maxPartOrder sc bw = (written, sc', bw')
    \<and> wf_writer bw' \<and> wbits bw' = wbits bw @ bs \<and> written = int (length bs)
    \<and> written = fst (CostResidual64 res blockSize predOrder maxPartOrder sc)
    \<and> parses (DecodeResidual blockSize predOrder :: (i64 list, 't) rm) bs res"
proof -
  obtain po plans pb tot sc' where p: "PlanResidualInt64 res blockSize predOrder maxPartOrder sc = ((po, plans, pb, tot), sc')"
    by (metis prod.collapse)
  let ?bs = "plan_bits zigzag64 (\<lambda>r. r) res predOrder blockSize plans pb po"
  have pl: "plan_ok zigzag64 (\<lambda>r. r) res predOrder blockSize plans pb po" "tot = int (length ?bs)"
    "tot = 6 + (\<Sum>pl \<leftarrow> plans. int pb + pp_payload pl)"
    using PlanResidualInt64_planned [OF assms(1-4,6), of maxPartOrder sc] p by (simp_all add: planned_def)
  note w = writePlannedWith_ok [OF pl(1) assms(5), folded WritePlanned64_def]
  obtain written bw' where e: "WritePlanned64 res predOrder blockSize plans pb bw = (written, bw')"
    by (cases "WritePlanned64 res predOrder blockSize plans pb bw")
  have "parses (DecodeResidual blockSize predOrder :: (i64 list, 't) rm) ?bs res"
    by (rule width64.DecodeResidual_plan [OF pl(1)]) (use assms(6) in \<open>auto intro: zz_high_zero\<close>)
  then show ?thesis
    using w pl(2,3) unfolding EncodeResidual64_def CostResidual64_def p prod.case e
    by (intro exI [of _ written] exI [of _ sc'] exI [of _ bw'] exI [of _ ?bs]) simp
qed

end
