(* ===== verification/Subframe.thy ===== *)
theory Subframe
  imports Rice_Plan
begin

text \<open>
  Decoding of subframes (\<^verbatim>\<open>src/internal/frame/subframe.go\<close>). The Go code is one generic
  function over \<open>int32\<close> and \<open>int64\<close> samples with three type switches inside; the model is
  one definition over any word length that takes the three switched routines as arguments,
  and its two instances. The samples a subframe restores are the result, returned only
  when the code returns no error. The lemmas show what every accepted subframe guarantees
  on arbitrary input, and that each of the four subframe kinds is read back.
\<close>

section \<open>Reading a subframe\<close>

definition readWastedBits :: "(nat, 't) rm" where
  "readWastedBits =
     bindR (ReadBits 1) (\<lambda>flag.
     if flag = 0 then retR 0
     else bindR ReadUnary (\<lambda>q. if q \<ge> 32 then failR ErrUnsupported else retR (unat q + 1)))"

definition decodeWarmup :: "nat \<Rightarrow> nat \<Rightarrow> nat \<Rightarrow> ('a::len word list, 't) rm" where
  "decodeWarmup n order bps =
     (if order > n then failR ErrUnsupported
      else readN order (bindR (ReadSigned bps) (\<lambda>v. retR (ucast v))))"

definition decodeResidual :: "nat \<Rightarrow> nat \<Rightarrow> ('a::len word list, 't) rm" where
  "decodeResidual n order =
     mapErrR (\<lambda>e. if e = ErrResidualRange then ErrSubframeOutOfRange else e) (DecodeResidual n order)"

text \<open>\<open>inRange\<close> on \<open>int32\<close> samples uses the minimum and maximum, on \<open>int64\<close> samples a scan.\<close>

definition inRange32 :: "i32 list \<Rightarrow> nat \<Rightarrow> bool" where
  "inRange32 s bits =
     (if bits \<ge> 32 then True
      else case MinMax s of (lo, hi) \<Rightarrow>
             let lim = push_bit (bits - 1) 1 in - lim \<le>s lo \<and> hi <s lim)"

definition inRange64 :: "i64 list \<Rightarrow> nat \<Rightarrow> bool" where
  "inRange64 s bits =
     (let lim = push_bit (bits - 1) 1 in list_all (\<lambda>x. \<not> (x <s - lim \<or> lim \<le>s x)) s)"

text \<open>Order 0 is left alone; the orders of fixed predictors are at most 4, so the kernel does not panic.\<close>

definition restoreFixed_i32 :: "i32 list \<Rightarrow> nat \<Rightarrow> i32 list" where
  "restoreFixed_i32 dst order = (if order = 0 then dst else the (RestoreFixed32 dst order))"

definition restoreFixed_i64 :: "i64 list \<Rightarrow> nat \<Rightarrow> i64 list" where
  "restoreFixed_i64 dst order = (if order = 0 then dst else RestoreFixed dst order)"

definition restoreLPC_i32 :: "i32 list \<Rightarrow> i32 list \<Rightarrow> nat \<Rightarrow> nat \<Rightarrow> i32 list" where
  "restoreLPC_i32 dst coeffs shift bps = RestoreLPC32 dst coeffs shift bps"

definition restoreLPC_i64 :: "i64 list \<Rightarrow> i32 list \<Rightarrow> nat \<Rightarrow> nat \<Rightarrow> i64 list" where
  "restoreLPC_i64 dst coeffs shift bps = RestoreLPC dst coeffs shift"

definition decodeLPC ::
  "('a::len word list \<Rightarrow> i32 list \<Rightarrow> nat \<Rightarrow> nat \<Rightarrow> 'a word list) \<Rightarrow> nat \<Rightarrow> nat \<Rightarrow> nat \<Rightarrow> ('a word list, 't) rm" where
  "decodeLPC restoreLPC n order bps =
     bindR (decodeWarmup n order bps) (\<lambda>warm.
     bindR (ReadBits 4) (\<lambda>precCode.
     if precCode = 0x0F then failR ErrUnsupported else
     let precision = unat precCode + 1 in
     bindR (ReadSigned 5) (\<lambda>shiftSigned.
     if shiftSigned <s 0 then failR ErrUnsupported else
     bindR (readN order (bindR (ReadSigned precision) (\<lambda>c. retR (ucast c)))) (\<lambda>coeffs.
     bindR (decodeResidual n order) (\<lambda>res.
     retR (restoreLPC (warm @ res) coeffs (unat shiftSigned) bps))))))"

definition decodeFixed ::
  "('a::len word list \<Rightarrow> nat \<Rightarrow> 'a word list) \<Rightarrow> nat \<Rightarrow> nat \<Rightarrow> nat \<Rightarrow> ('a word list, 't) rm" where
  "decodeFixed restoreFixed n order bps =
     bindR (decodeWarmup n order bps) (\<lambda>warm.
     bindR (decodeResidual n order) (\<lambda>res. retR (restoreFixed (warm @ res) order)))"

definition checkRange ::
  "('a::len word list \<Rightarrow> nat \<Rightarrow> bool) \<Rightarrow> nat \<Rightarrow> nat \<Rightarrow> 'a word list \<Rightarrow> ('a word list, 't) rm" where
  "checkRange inRange order bps dst =
     (if \<not> inRange (drop order dst) bps then failR ErrSubframeOutOfRange else retR dst)"

definition decodeBody ::
  "('a::len word list \<Rightarrow> nat \<Rightarrow> 'a word list) \<Rightarrow> ('a word list \<Rightarrow> i32 list \<Rightarrow> nat \<Rightarrow> nat \<Rightarrow> 'a word list)
   \<Rightarrow> ('a word list \<Rightarrow> nat \<Rightarrow> bool) \<Rightarrow> nat \<Rightarrow> nat \<Rightarrow> u64 \<Rightarrow> ('a word list, 't) rm" where
  "decodeBody restoreFixed restoreLPC inRange n effBps stype =
     (if stype = 0 then bindR (ReadSigned effBps) (\<lambda>v. retR (replicate n (ucast v)))
      else if stype = 1 then readN n (bindR (ReadSigned effBps) (\<lambda>v. retR (ucast v)))
      else if stype \<ge> 8 \<and> stype \<le> 12 then
        let order = unat (stype - 8)
        in bindR (decodeFixed restoreFixed n order effBps) (checkRange inRange order effBps)
      else if stype \<ge> 32 then
        let order = unat (stype - 31)
        in bindR (decodeLPC restoreLPC n order effBps) (checkRange inRange order effBps)
      else failR ErrUnsupported)"

definition decodeSubframeT ::
  "('a::len word list \<Rightarrow> nat \<Rightarrow> 'a word list) \<Rightarrow> ('a word list \<Rightarrow> i32 list \<Rightarrow> nat \<Rightarrow> nat \<Rightarrow> 'a word list)
   \<Rightarrow> ('a word list \<Rightarrow> nat \<Rightarrow> bool) \<Rightarrow> nat \<Rightarrow> nat \<Rightarrow> ('a word list, 't) rm" where
  "decodeSubframeT restoreFixed restoreLPC inRange n bps =
     bindR (ReadBits 1) (\<lambda>pad.
     if pad \<noteq> 0 then failR ErrUnsupported else
     bindR (ReadBits 6) (\<lambda>stype.
     bindR readWastedBits (\<lambda>wasted.
     let effBps = int bps - int wasted in
     if effBps \<le> 0 then failR ErrUnsupported else
     bindR (decodeBody restoreFixed restoreLPC inRange n (nat effBps) stype) (\<lambda>dst.
     retR (if wasted > 0 then map (push_bit wasted) dst else dst)))))"

definition decodeSubframe :: "nat \<Rightarrow> nat \<Rightarrow> (i32 list, 't) rm" where
  "decodeSubframe = decodeSubframeT restoreFixed_i32 restoreLPC_i32 inRange32"

definition decodeSubframe64 :: "nat \<Rightarrow> nat \<Rightarrow> (i64 list, 't) rm" where
  "decodeSubframe64 = decodeSubframeT restoreFixed_i64 restoreLPC_i64 inRange64"

section \<open>The routines of the two widths\<close>

lemma inRange64_iff: "1 \<le> bits \<Longrightarrow> bits < 64 \<Longrightarrow> inRange64 s bits \<longleftrightarrow> (\<forall>x \<in> set s. fits bits (sint x))"
  by (auto simp: inRange64_def Let_def list_all_iff word_sle_eq word_sless_alt sint_lim fits_def not_le not_less Suc_le_eq)

lemma inRange32_iff:
  assumes "1 \<le> bits" "bits \<le> 32"
  shows "inRange32 s bits \<longleftrightarrow> (\<forall>x \<in> set s. fits bits (sint x))"
proof (cases "bits = 32")
  case True
  then show ?thesis using sint_fits [where 'a = 32] by (auto simp: inRange32_def)
next
  case False
  then have b: "bits < LENGTH(32)" using assms by simp
  have lim: "sint (2 ^ (bits - Suc 0) :: i32) = 2 ^ (bits - Suc 0)" "sint (- (2 ^ (bits - Suc 0)) :: i32) = - (2 ^ (bits - Suc 0))"
    using assms(1) b by (simp_all add: sint_lim)
  obtain lo hi where m: "MinMax s = (lo, hi)" by fastforce
  have i: "inRange32 s bits \<longleftrightarrow> - (2 ^ (bits - 1)) \<le> sint lo \<and> sint hi < 2 ^ (bits - 1)"
    using False assms(2) by (simp add: inRange32_def m Let_def word_sle_eq word_sless_alt lim)
  show ?thesis
  proof (cases "s = []")
    case True
    then show ?thesis using m unfolding i by (simp add: MinMax_def)
  next
    case False
    from MinMax_extremes [OF m this] show ?thesis
      unfolding i fits_def using assms(1) by fastforce
  qed
qed

lemma LPCRestore_keeps: "coeffs \<noteq> [] \<Longrightarrow> take (length coeffs) (LPCRestore dst coeffs shift) = take (length coeffs) dst"
  by (simp add: LPCRestore_loop lpc_predictor.take_restore)

lemma LPCRestoreNarrow_keeps:
  assumes "coeffs \<noteq> []"
  shows "length (LPCRestoreNarrow dst coeffs shift) = length dst
    \<and> take (length coeffs) (LPCRestoreNarrow dst coeffs shift) = take (length coeffs) dst"
proof (cases "length coeffs \<le> 7 \<and> length coeffs < length dst")
  case False
  then show ?thesis using assms LPCRestore_keeps [OF assms]
    by (auto simp: LPCRestoreNarrow_def Let_def maxScalarRestoreOrderNarrow_def)
next
  case True
  then show ?thesis using assms lpcRestoreScalarNarrow_win [of coeffs dst "min shift 31"]
    by (simp add: LPCRestoreNarrow_def Let_def maxScalarRestoreOrderNarrow_def maxScalarKernelOrderNarrow_def
        maxLPCShiftNarrow_def Suc_le_eq)
qed

lemma restoreLPC_i32_keeps:
  assumes "coeffs \<noteq> []"
  shows "length (restoreLPC_i32 dst coeffs shift bps) = length dst"
    "take (length coeffs) (restoreLPC_i32 dst coeffs shift bps) = take (length coeffs) dst"
  using LPCRestoreNarrow_keeps [OF assms] LPCRestore_keeps [OF assms]
  by (simp_all add: restoreLPC_i32_def RestoreLPC32_def)

lemma foldl_same: "foldl (\<lambda>d n. d) xs ns = xs"
  by (induction ns) simp_all

lemma restoreFixed_i32_loop: "order \<le> 4 \<Longrightarrow> restoreFixed_i32 dst order = restore_loop (fixed_pred order) order dst"
  by (cases "order = 0")
    (simp_all add: restoreFixed_i32_def RestoreFixed32_eq RestoreFixed_loop,
     simp add: restore_loop_def fixed_pred_def foldl_same)

section \<open>What the subframe code asks of a sample width\<close>

text \<open>
  The contract of the routines behind the type switches: restoring undoes the residuals and
  leaves the warm-up samples alone, and the range check is the one of two's complement.
\<close>

locale subframe_width = residual_width zz wide
  for zz :: "'a::len word \<Rightarrow> u64" and wide :: "'a word \<Rightarrow> i64" +
  fixes restoreFixed :: "'a word list \<Rightarrow> nat \<Rightarrow> 'a word list"
    and restoreLPC :: "'a word list \<Rightarrow> i32 list \<Rightarrow> nat \<Rightarrow> nat \<Rightarrow> 'a word list"
    and inRange :: "'a word list \<Rightarrow> nat \<Rightarrow> bool"
    and lpcPred :: "i32 list \<Rightarrow> nat \<Rightarrow> 'a word list \<Rightarrow> nat \<Rightarrow> 'a word"
  assumes width: "LENGTH('a) \<le> 64"
    and sint_wide: "sint (wide x) = sint x"
    and restoreFixed_keeps: "order \<le> 4 \<Longrightarrow> length (restoreFixed xs order) = length xs \<and> take order (restoreFixed xs order) = take order xs"
    and restoreFixed_residuals: "order \<le> 4 \<Longrightarrow> restoreFixed (take order s @ residuals (fixed_pred order) order s) order = s"
    and restoreLPC_keeps: "cs \<noteq> [] \<Longrightarrow> length (restoreLPC xs cs shift bps) = length xs
          \<and> take (length cs) (restoreLPC xs cs shift bps) = take (length cs) xs"
    and restoreLPC_residuals: "cs \<noteq> [] \<Longrightarrow> shift \<le> 63 \<Longrightarrow> \<forall>x \<in> set s. fits bps (sint x) \<Longrightarrow>
          restoreLPC (take (length cs) s @ residuals (lpcPred cs shift) (length cs) s) cs shift bps = s"
    and inRange_iff: "1 \<le> bits \<Longrightarrow> bits \<le> 57 \<Longrightarrow> bits \<le> LENGTH('a) \<Longrightarrow> inRange xs bits \<longleftrightarrow> (\<forall>x \<in> set xs. fits bits (sint x))"

interpretation sub32: subframe_width zigzag scast restoreFixed_i32 restoreLPC_i32 inRange32 lpc_pred
proof unfold_locales
  fix order :: nat and xs s :: "i32 list" and cs :: "i32 list" and shift bps bits :: nat
  show "LENGTH(32) \<le> 64" by simp
  show "sint (scast x :: i64) = sint x" for x :: i32 by (rule sint_scast_up) simp
  show "length (restoreFixed_i32 xs order) = length xs \<and> take order (restoreFixed_i32 xs order) = take order xs" if "order \<le> 4"
    using that by (simp add: restoreFixed_i32_loop fixed_predictor.take_restore)
  show "restoreFixed_i32 (take order s @ residuals (fixed_pred order) order s) order = s" if "order \<le> 4"
    using that by (simp add: restoreFixed_i32_loop fixed_predictor.restore_residuals)
  show "length (restoreLPC_i32 xs cs shift bps) = length xs
      \<and> take (length cs) (restoreLPC_i32 xs cs shift bps) = take (length cs) xs" if "cs \<noteq> []"
    using restoreLPC_i32_keeps [OF that] by simp
  show "restoreLPC_i32 (take (length cs) s @ residuals (lpc_pred cs shift) (length cs) s) cs shift bps = s"
    if "cs \<noteq> []" "shift \<le> 63" "\<forall>x \<in> set s. fits bps (sint x)"
  proof -
    let ?d = "take (length cs) s @ residuals (lpc_pred cs shift) (length cs) s"
    have r: "RestoreLPC ?d cs shift = s" by (simp add: RestoreLPC_loop lpc_predictor.restore_residuals)
    have "\<forall>x \<in> set (take (length cs) ?d). fits bps (sint x)"
    proof
      fix x assume "x \<in> set (take (length cs) ?d)"
      then have "x \<in> set s" by (cases "length cs \<le> length s") (auto simp: residuals_def dest: in_set_takeD)
      then show "fits bps (sint x)" using that(3) by blast
    qed
    then have "RestoreLPC32 ?d cs shift bps = RestoreLPC ?d cs shift"
      using that r by (intro RestoreLPC32_loop) simp_all
    then show ?thesis using r by (simp add: restoreLPC_i32_def)
  qed
  show "inRange32 xs bits \<longleftrightarrow> (\<forall>x \<in> set xs. fits bits (sint x))" if "1 \<le> bits" "bits \<le> 57" "bits \<le> LENGTH(32)"
    using inRange32_iff that by simp
qed

interpretation sub64: subframe_width zigzag64 "\<lambda>r. r" restoreFixed_i64 restoreLPC_i64 inRange64 lpc_pred64
proof unfold_locales
  fix order :: nat and xs s :: "i64 list" and cs :: "i32 list" and shift bps bits :: nat
  have f: "restoreFixed_i64 xs order = restore_loop (fixed_pred order) order xs" if "order \<le> 4" for xs order
    using that by (cases "order = 0") (simp_all add: restoreFixed_i64_def RestoreFixed_loop,
        simp add: restore_loop_def fixed_pred_def foldl_same)
  show "LENGTH(64) \<le> 64" by simp
  show "sint x = sint x" for x :: i64 by (rule refl)
  show "length (restoreFixed_i64 xs order) = length xs \<and> take order (restoreFixed_i64 xs order) = take order xs" if "order \<le> 4"
    using that by (simp add: f fixed_predictor.take_restore)
  show "restoreFixed_i64 (take order s @ residuals (fixed_pred order) order s) order = s" if "order \<le> 4"
    using that by (simp add: f fixed_predictor.restore_residuals)
  show "length (restoreLPC_i64 xs cs shift bps) = length xs
      \<and> take (length cs) (restoreLPC_i64 xs cs shift bps) = take (length cs) xs" if "cs \<noteq> []"
    by (simp add: restoreLPC_i64_def RestoreLPC64_loop lpc64_predictor.take_restore)
  show "restoreLPC_i64 (take (length cs) s @ residuals (lpc_pred64 cs shift) (length cs) s) cs shift bps = s"
    by (simp add: restoreLPC_i64_def RestoreLPC64_loop lpc64_predictor.restore_residuals)
  show "inRange64 xs bits \<longleftrightarrow> (\<forall>x \<in> set xs. fits bits (sint x))" if "1 \<le> bits" "bits \<le> 57" "bits \<le> LENGTH(64)"
    using inRange64_iff that by simp
qed

section \<open>What an accepted subframe guarantees\<close>

lemma ReadSigned_0: "ReadSigned 0 = retR 0"
  by (simp add: fun_eq_iff ReadSigned_def retR_def)

lemma runs_ReadSigned_any: "n \<le> 57 \<Longrightarrow> runs (ReadSigned n) (\<lambda>_. True)"
proof (cases "n = 0")
  case True
  then show ?thesis by (auto simp: ReadSigned_0)
next
  case False
  then show ?thesis if "n \<le> 57" using that by (auto intro: runs_weaken [OF runs_ReadSigned])
qed

lemma runs_True [intro!]: "runs (retR x) (\<lambda>_. True)" by auto

lemma runs_readPartition:
  assumes "paramBits \<le> 5"
  shows "runs (readPartition paramBits esc n :: (u64 \<times> 'a::len word list, 't) rm) (\<lambda>(over, vs). length vs = n)"
proof -
  have pow: "(2::nat) ^ paramBits \<le> 2 ^ 5" using assms by (rule power_increasing) simp
  have sym: "runs (readRiceSymbol k :: (u64 \<times> 'a word, 't) rm) (\<lambda>_. True)" if "k < 32" for k
    unfolding readRiceSymbol_def using that
    by (intro runs_bind [OF runs_ReadUnary] runs_bind [OF runs_ReadBits]) auto
  have raw: "runs (readRawSample r :: ('a word, 't) rm) (\<lambda>_. True)" if "r < 32" for r
    unfolding readRawSample_def using that by (intro runs_bind [OF runs_ReadSigned_any]) auto
  have raws: "runs (bindR (readN n (readRawSample (unat r))) (\<lambda>vs. retR (0, vs)) :: (u64 \<times> 'a word list, 't) rm) (\<lambda>(over, vs). length vs = n)"
    if "unat r < 2 ^ 5" for r :: u64
    using that by (intro runs_bind [OF runs_readN [OF raw]]) auto
  have syms: "runs (bindR (readN n (readRiceSymbol (unat p))) (\<lambda>qs. retR (foldl (\<lambda>over s. over OR fst s) 0 qs, map snd qs))
      :: (u64 \<times> 'a word list, 't) rm) (\<lambda>(over, vs). length vs = n)" if "unat p < 2 ^ paramBits" for p :: u64
    using that pow by (intro runs_bind [OF runs_readN [OF sym]]) auto
  show ?thesis unfolding readPartition_def
    using assms by (intro runs_bind [OF runs_ReadBits] runs_if) (auto intro: runs_bind [OF runs_ReadBits] raws syms)
qed

lemma runs_readPartitions:
  assumes "paramBits \<le> 5"
  shows "runs (readPartitions paramBits esc ns :: (u64 \<times> 'a::len word list, 't) rm) (\<lambda>(over, vs). int (length vs) = sum_list ns)"
proof (induction ns)
  case (Cons n ns)
  show ?case
    unfolding readPartitions.simps
    by (intro runs_if runs_fail runs_bind [OF runs_readPartition [OF assms]])
      (auto intro!: runs_bind [OF Cons.IH])
qed auto

lemma sum_first: "0 < m \<Longrightarrow> (\<Sum>p \<leftarrow> [0..<m]. int L - (if p = 0 then int k else 0)) = int (m * L) - int k"
proof (induction m)
  case (Suc m)
  then show ?case by (cases "m = 0") (auto simp: algebra_simps)
qed simp

lemma runs_DecodeResidual:
  "runs (DecodeResidual n order :: ('a::len word list, 't) rm) (\<lambda>vs. int (length vs) = int n - int order)"
proof -
  have parts: "runs (bindR (readPartitions pb esc (map (\<lambda>p. int (n div m) - (if p = 0 then int order else 0)) [0..<m]))
        (\<lambda>(over, vs). if over \<noteq> 0 then failR ErrResidualRange else retR vs) :: ('a word list, 't) rm)
      (\<lambda>vs. int (length vs) = int n - int order)" if "pb \<le> 5" "n mod m = 0" "0 < m" for pb esc m
  proof (rule runs_bind [OF runs_readPartitions [OF that(1)]], clarify)
    fix over :: u64 and vs :: "'a word list"
    assume "int (length vs) = (\<Sum>p \<leftarrow> [0..<m]. int (n div m) - (if p = 0 then int order else 0))"
    then have "int (length vs) = int n - int order" using that(2,3) by (simp add: sum_first) (metis mod_0_imp_dvd dvd_mult_div_cancel of_nat_mult)
    then show "runs (if over \<noteq> 0 then failR ErrResidualRange else retR vs :: ('a word list, 't) rm) (\<lambda>vs. int (length vs) = int n - int order)"
      by (auto intro: runs_if)
  qed
  show ?thesis unfolding DecodeResidual_def Let_def
    by (intro runs_bind [OF runs_ReadBits] runs_if runs_fail parts) auto
qed

lemma runs_decodeResidual:
  "runs (decodeResidual n order :: ('a::len word list, 't) rm) (\<lambda>vs. int (length vs) = int n - int order)"
  unfolding decodeResidual_def by (intro runs_mapErr runs_DecodeResidual)

lemma runs_readWastedBits: "runs readWastedBits (\<lambda>w. w \<le> 32)"
  unfolding readWastedBits_def
  by (intro runs_bind [OF runs_ReadBits] runs_if runs_bind [OF runs_ReadUnary] runs_fail runs_ret)
    (auto simp: word_le_nat_alt)

lemma runs_sample:
  assumes "0 < bps" "bps \<le> 57" "bps \<le> LENGTH('a)" "LENGTH('a) \<le> 64"
  shows "runs (bindR (ReadSigned bps) (\<lambda>v. retR (ucast v)) :: ('a::len word, 't) rm) (\<lambda>x. fits bps (sint x))"
proof (rule runs_bind [OF runs_ReadSigned [OF assms(1,2)]], rule runs_ret)
  fix v :: i64 assume v: "fits bps (sint v)"
  then have "sint (ucast v :: 'a word) = sint v" using assms by (intro sint_ucast_down) (auto intro: fits_mono)
  then show "fits bps (sint (ucast v :: 'a word))" using v by simp
qed

lemma fits_shift:
  fixes x :: "'a::len word"
  assumes "fits eff (sint x)" "eff + w \<le> LENGTH('a)"
  shows "fits (eff + w) (sint (push_bit w x))"
proof -
  have "0 < eff" "(2::int) ^ (eff + w - 1) = 2 ^ (eff - 1) * 2 ^ w"
    using assms by (auto simp: fits_def simp flip: power_add)
  then have f: "fits (eff + w) (sint x * 2 ^ w)"
    using assms(1) by (auto simp: fits_def) (metis mult_minus_left mult_right_mono zero_le_numeral zero_le_power)
  have "push_bit w x = of_int (sint x * 2 ^ w)" by (simp add: push_bit_eq_mult)
  then have "sint (push_bit w x) = sint x * 2 ^ w"
    using sint_of_int_fits [OF fits_mono [OF f assms(2)]] by simp
  then show ?thesis using f by simp
qed

context subframe_width
begin

lemma runs_decodeWarmup:
  assumes "0 < bps" "bps \<le> 57" "bps \<le> LENGTH('a)"
  shows "runs (decodeWarmup n order bps :: ('a word list, 't) rm)
    (\<lambda>xs. order \<le> n \<and> length xs = order \<and> (\<forall>x \<in> set xs. fits bps (sint x)))"
  unfolding decodeWarmup_def
  by (intro runs_if runs_fail) (auto intro: runs_weaken [OF runs_readN [OF runs_sample [OF assms width]]])

lemma runs_decodeFixed:
  assumes "0 < bps" "bps \<le> 57" "bps \<le> LENGTH('a)" "order \<le> 4"
  shows "runs (decodeFixed restoreFixed n order bps :: ('a word list, 't) rm)
    (\<lambda>dst. order \<le> n \<and> length dst = n \<and> (\<forall>x \<in> set (take order dst). fits bps (sint x)))"
  unfolding decodeFixed_def
proof (intro runs_bind [OF runs_decodeWarmup [OF assms(1-3)]] runs_bind [OF runs_decodeResidual] runs_ret)
  fix warm res :: "'a word list"
  assume w: "order \<le> n \<and> length warm = order \<and> (\<forall>x \<in> set warm. fits bps (sint x))" "int (length res) = int n - int order"
  then show "order \<le> n \<and> length (restoreFixed (warm @ res) order) = n
      \<and> (\<forall>x \<in> set (take order (restoreFixed (warm @ res) order)). fits bps (sint x))"
    using restoreFixed_keeps [OF assms(4), of "warm @ res"] by simp
qed

lemma runs_decodeLPC:
  assumes "0 < bps" "bps \<le> 57" "bps \<le> LENGTH('a)" "0 < order"
  shows "runs (decodeLPC restoreLPC n order bps :: ('a word list, 't) rm)
    (\<lambda>dst. order \<le> n \<and> length dst = n \<and> (\<forall>x \<in> set (take order dst). fits bps (sint x)))"
  unfolding decodeLPC_def Let_def
proof (intro runs_bind [OF runs_decodeWarmup [OF assms(1-3)]] runs_bind [OF runs_ReadBits] runs_if runs_fail
    runs_bind [OF runs_ReadSigned_any] runs_bind [OF runs_readN] runs_bind [OF runs_decodeResidual] runs_ret)
  fix warm res :: "'a word list" and cs :: "i32 list" and prec :: u64 and shift :: i64
  assume w: "order \<le> n \<and> length warm = order \<and> (\<forall>x \<in> set warm. fits bps (sint x))" "int (length res) = int n - int order"
    and c: "length cs = order \<and> (\<forall>x \<in> set cs. True)"
  then have "cs \<noteq> []" using assms(4) by auto
  then show "order \<le> n \<and> length (restoreLPC (warm @ res) cs (unat shift) bps) = n
      \<and> (\<forall>x \<in> set (take order (restoreLPC (warm @ res) cs (unat shift) bps)). fits bps (sint x))"
    using restoreLPC_keeps [of cs "warm @ res"] w c by auto
qed auto

lemma runs_checkRange:
  assumes "1 \<le> bps" "bps \<le> 57" "bps \<le> LENGTH('a)" "length dst = n" "\<forall>x \<in> set (take order dst). fits bps (sint x)"
  shows "runs (checkRange inRange order bps dst :: ('a word list, 't) rm) (\<lambda>xs. length xs = n \<and> (\<forall>x \<in> set xs. fits bps (sint x)))"
proof -
  have "set dst = set (take order dst) \<union> set (drop order dst)" by (metis append_take_drop_id set_append)
  then show ?thesis unfolding checkRange_def using assms inRange_iff [OF assms(1-3)] by (auto intro!: runs_if)
qed

lemma runs_decodeBody:
  assumes "1 \<le> bps" "bps \<le> 57" "bps \<le> LENGTH('a)" "unat stype < 64"
  shows "runs (decodeBody restoreFixed restoreLPC inRange n bps stype :: ('a word list, 't) rm)
    (\<lambda>xs. length xs = n \<and> (\<forall>x \<in> set xs. fits bps (sint x)))"
proof -
  have b: "0 < bps" using assms(1) by simp
  have const: "runs (bindR (ReadSigned bps) (\<lambda>v. retR (replicate n (ucast v))) :: ('a word list, 't) rm)
      (\<lambda>xs. length xs = n \<and> (\<forall>x \<in> set xs. fits bps (sint x)))"
    by (intro runs_bind [OF runs_ReadSigned [OF b assms(2)]] runs_ret)
      (use assms(3) width in \<open>auto simp: sint_ucast_down fits_mono\<close>)
  have fix4: "unat (stype - 8) \<le> 4" if "8 \<le> stype" "stype \<le> 12"
    using that by (simp add: word_le_nat_alt unat_sub)
  have lpc0: "0 < unat (stype - 31)" if "32 \<le> stype"
    using that by (simp add: word_le_nat_alt unat_sub)
  show ?thesis
    unfolding decodeBody_def Let_def
    by (intro runs_if const runs_readN [OF runs_sample [OF b assms(2,3) width]] runs_fail
        runs_bind [OF runs_decodeFixed [OF b assms(2,3)]] runs_bind [OF runs_decodeLPC [OF b assms(2,3)]])
      (use runs_checkRange [OF assms(1-3)] fix4 lpc0 in auto)
qed

lemma runs_decodeSubframeT:
  assumes "bps \<le> 57" "bps \<le> LENGTH('a)"
  shows "runs (decodeSubframeT restoreFixed restoreLPC inRange n bps :: ('a word list, 't) rm)
    (\<lambda>xs. length xs = n \<and> (\<forall>x \<in> set xs. fits bps (sint x)))"
  unfolding decodeSubframeT_def Let_def
proof (intro runs_bind [OF runs_ReadBits] runs_if runs_fail runs_bind [OF runs_readWastedBits])
  fix stype :: u64 and wasted :: nat
  assume st: "unat stype < 2 ^ 6" and w: "wasted \<le> 32" and e: "\<not> int bps - int wasted \<le> 0"
  have eff: "nat (int bps - int wasted) = bps - wasted" "1 \<le> bps - wasted" "bps - wasted + wasted = bps" using e by simp_all
  show "runs (bindR (decodeBody restoreFixed restoreLPC inRange n (nat (int bps - int wasted)) stype)
      (\<lambda>dst. retR (if wasted > 0 then map (push_bit wasted) dst else dst)) :: ('a word list, 't) rm)
    (\<lambda>xs. length xs = n \<and> (\<forall>x \<in> set xs. fits bps (sint x)))"
    unfolding eff(1)
  proof (intro runs_bind [OF runs_decodeBody] runs_ret)
    fix dst :: "'a word list" assume d: "length dst = n \<and> (\<forall>x \<in> set dst. fits (bps - wasted) (sint x))"
    show "length (if wasted > 0 then map (push_bit wasted) dst else dst) = n
        \<and> (\<forall>x \<in> set (if wasted > 0 then map (push_bit wasted) dst else dst). fits bps (sint x))"
      using d fits_shift [of "bps - wasted" _ wasted] eff assms(2) by auto
  qed (use assms eff st in auto)
qed simp_all

end

section \<open>Reading back what a writer writes\<close>

definition sub_header_bits :: "nat \<Rightarrow> nat \<Rightarrow> bool list" where
  "sub_header_bits typeCode wasted =
     bits_msb 1 (0 :: u64) @ bits_msb 6 (of_nat typeCode :: u64)
     @ (if wasted = 0 then bits_msb 1 (0 :: u64) else bits_msb 1 (1 :: u64) @ replicate (wasted - 1) False @ [True])"

definition sample_bits :: "('a \<Rightarrow> i64) \<Rightarrow> nat \<Rightarrow> 'a list \<Rightarrow> bool list" where
  "sample_bits wide bps xs = concat (map (\<lambda>x. bits_msb bps (wide x)) xs)"

definition lpc_params_bits :: "nat \<Rightarrow> nat \<Rightarrow> i32 list \<Rightarrow> bool list" where
  "lpc_params_bits precision shift cs =
     bits_msb 4 (of_nat (precision - 1) :: u64) @ bits_msb 5 (of_nat shift :: i64) @ sample_bits scast precision cs"

lemma length_sub_header_bits: "length (sub_header_bits t w) = 8 + w"
  by (cases w) (simp_all add: sub_header_bits_def)

lemma length_sample_bits: "length (sample_bits wide bps xs) = length xs * bps"
  by (induction xs) (simp_all add: sample_bits_def)

lemma length_lpc_params_bits: "length (lpc_params_bits precision shift cs) = 9 + length cs * precision"
  by (simp add: lpc_params_bits_def length_sample_bits)

lemma parses_bit: "parses (ReadBits 1) (bits_msb 1 (0 :: u64)) 0" "parses (ReadBits 1) (bits_msb 1 (1 :: u64)) 1"
  using parses_code [of 0 1] parses_code [of 1 1] by simp_all

lemma parses_readWastedBits:
  assumes "w \<le> 32"
  shows "parses (readWastedBits :: (nat, 't) rm) (if w = 0 then bits_msb 1 (0 :: u64) else bits_msb 1 (1 :: u64) @ replicate (w - 1) False @ [True]) w"
proof (cases "w = 0")
  case True
  show ?thesis unfolding readWastedBits_def if_P [OF True]
    by (rule parses_bind_ret [OF parses_bit(1)]) (simp add: True parses_ret)
next
  case False
  have u: "unat (of_nat (w - 1) :: u64) = w - 1" using assms by (intro unat_of_nat_u64) simp
  then have l: "\<not> (32 :: u64) \<le> of_nat (w - 1)" using assms False by (simp add: word_le_nat_alt)
  have "parses (if (32 :: u64) \<le> of_nat (w - 1) then failR ErrUnsupported else retR (unat (of_nat (w - 1) :: u64) + 1) :: (nat, 't) rm) [] w"
    unfolding if_not_P [OF l] u using False by (simp add: parses_ret)
  then have q: "parses (bindR ReadUnary (\<lambda>q. if q \<ge> 32 then failR ErrUnsupported else retR (unat q + 1)) :: (nat, 't) rm)
      (replicate (w - 1) False @ [True]) w"
    by (rule parses_bind_ret [OF parses_ReadUnary])
  show ?thesis unfolding readWastedBits_def if_not_P [OF False]
    by (rule parses_bind [OF parses_bit(2)]) (simp only: one_neq_zero if_False q)
qed

lemma shift_back:
  fixes x :: "'a::len word"
  assumes "take_bit w x = 0"
  shows "push_bit w (signed_drop_bit w x) = x"
proof (rule bit_word_eqI)
  fix i assume i: "i < LENGTH('a)"
  show "bit (push_bit w (signed_drop_bit w x)) i = bit x i"
  proof (cases "i < w")
    case True
    then have "\<not> bit x i" using assms by (metis bit_0_eq bit_take_bit_iff bot_apply bot_bool_def)
    then show ?thesis using True by (simp add: bit_simps)
  next
    case False
    then show ?thesis using i by (auto simp: bit_simps)
  qed
qed

lemma fits_signed_drop:
  assumes "fits (eff + w) (sint x)" "0 < eff"
  shows "fits eff (sint (signed_drop_bit w x))"
proof -
  have "(2::int) ^ (eff + w - 1) = 2 ^ (eff - 1) * 2 ^ w" using assms(2) by (simp flip: power_add)
  then have "- (2 ^ (eff - 1)) \<le> sint x div 2 ^ w \<and> sint x div 2 ^ w < 2 ^ (eff - 1)"
    using assms(1) by (intro div_bounds) (simp_all add: fits_def)
  then show ?thesis using assms(2) by (simp add: fits_def sint_signed_drop_bit)
qed

context subframe_width
begin

lemma parses_samples:
  assumes "bps \<le> 57" "\<forall>x \<in> set xs. fits bps (sint x)"
  shows "parses (readN (length xs) (bindR (ReadSigned bps) (\<lambda>v. retR (ucast v))) :: ('a word list, 't) rm) (sample_bits wide bps xs) xs"
proof -
  have raw: "parses (readRawSample bps :: ('a word, 't) rm) (bits_msb bps (wide x)) x" if "x \<in> set xs" for x
  proof -
    have "parses (readRawSample bps :: ('a word, 't) rm) (bits_msb bps (wide x)) (ucast (wide x))"
      by (rule parses_readRawSample) (use assms that in \<open>simp add: sint_wide\<close>)
    then show ?thesis by (simp only: narrow_wide)
  qed
  from parses_readN_map [where f = "\<lambda>x. x", OF raw] show ?thesis
    by (simp add: sample_bits_def readRawSample_def)
qed

lemma parses_decodeWarmup:
  assumes "bps \<le> 57" "\<forall>x \<in> set s. fits bps (sint x)" "order \<le> length s"
  shows "parses (decodeWarmup (length s) order bps :: ('a word list, 't) rm) (sample_bits wide bps (take order s)) (take order s)"
proof -
  have "\<forall>x \<in> set (take order s). fits bps (sint x)" using assms(2) by (auto dest: in_set_takeD)
  from parses_samples [OF assms(1) this] show ?thesis using assms(3) by (simp add: decodeWarmup_def min_absorb2)
qed

lemma parses_decodeResidual:
  "parses (DecodeResidual n order :: ('b::len word list, 't) rm) bs res \<Longrightarrow> parses (decodeResidual n order :: ('b word list, 't) rm) bs res"
  unfolding decodeResidual_def by (rule parses_mapErr)

lemma checkRange_ok:
  assumes "1 \<le> bps" "bps \<le> 57" "bps \<le> LENGTH('a)" "\<forall>x \<in> set s. fits bps (sint x)"
  shows "parses (checkRange inRange order bps s) [] s"
  using assms inRange_iff [OF assms(1-3)] by (auto simp: checkRange_def parses_ret dest: in_set_dropD)

lemma parses_fixed_body:
  fixes order :: nat
  assumes eff: "1 \<le> eff" "eff \<le> 57" "eff \<le> LENGTH('a)" "\<forall>x \<in> set s. fits eff (sint x)"
    and o: "order \<le> 4" "order \<le> length s"
    and res: "parses (DecodeResidual (length s) order :: ('a word list, 't) rm) bs (residuals (fixed_pred order) order s)"
  shows "parses (decodeBody restoreFixed restoreLPC inRange (length s) eff (of_nat (8 + order)) :: ('a word list, 't) rm)
    (sample_bits wide eff (take order s) @ bs) s"
proof -
  have w: "parses (decodeWarmup (length s) order eff :: ('a word list, 't) rm) (sample_bits wide eff (take order s)) (take order s)"
    by (rule parses_decodeWarmup [OF eff(2,4) o(2)])
  have f: "parses (decodeFixed restoreFixed (length s) order eff :: ('a word list, 't) rm)
      (sample_bits wide eff (take order s) @ bs) s"
    unfolding decodeFixed_def
    by (intro parses_bind [OF w] parses_bind_ret [OF parses_decodeResidual [OF res]])
      (simp add: restoreFixed_residuals [OF o(1)] parses_ret)
  have u: "unat (of_nat (8 + order) :: u64) = 8 + order" using o(1) by (intro unat_of_nat_u64) simp
  then have "(of_nat (8 + order) :: u64) \<noteq> 0" "(of_nat (8 + order) :: u64) \<noteq> 1"
    by (auto simp del: of_nat_add dest!: arg_cong [where f = unat])
  moreover have "8 \<le> (of_nat (8 + order) :: u64)" "(of_nat (8 + order) :: u64) \<le> 12" "unat (of_nat (8 + order) - 8 :: u64) = order"
    using o(1) u by (simp_all add: word_le_nat_alt unat_sub del: of_nat_add)
  ultimately show ?thesis using parses_bind_ret [where f = "checkRange inRange order eff", OF f checkRange_ok [OF eff]]
    by (simp add: decodeBody_def Let_def del: of_nat_add)
qed

lemma parses_lpc_body:
  fixes cs :: "i32 list"
  assumes eff: "1 \<le> eff" "eff \<le> 57" "eff \<le> LENGTH('a)" "\<forall>x \<in> set s. fits eff (sint x)"
    and o: "1 \<le> length cs" "length cs \<le> 32" "length cs \<le> length s"
    and q: "1 \<le> precision" "precision \<le> 15" "shift \<le> 15" "\<forall>c \<in> set cs. fits precision (sint c)"
    and res: "parses (DecodeResidual (length s) (length cs) :: ('a word list, 't) rm) bs (residuals (lpcPred cs shift) (length cs) s)"
  shows "parses (decodeBody restoreFixed restoreLPC inRange (length s) eff (of_nat (31 + length cs)) :: ('a word list, 't) rm)
    (sample_bits wide eff (take (length cs) s) @ lpc_params_bits precision shift cs @ bs) s"
proof -
  let ?o = "length cs"
  have w: "parses (decodeWarmup (length s) ?o eff :: ('a word list, 't) rm) (sample_bits wide eff (take ?o s)) (take ?o s)"
    by (rule parses_decodeWarmup [OF eff(2,4) o(3)])
  have pu: "unat (of_nat (precision - 1) :: u64) = precision - 1" using q(2) by (intro unat_of_nat_u64) simp
  have p: "of_nat (precision - 1) \<noteq> (0x0F :: u64)"
  proof
    assume "of_nat (precision - 1) = (0x0F :: u64)"
    then have "precision - 1 = 15" using pu by simp
    then show False using q(2) by simp
  qed
  have p2: "unat (of_nat (precision - 1) :: u64) + 1 = precision" using pu q(1) by simp
  have sh: "sint (of_nat shift :: i64) = int shift" "unat (of_nat shift :: i64) = shift"
    using q(3) sint_of_int_fits [where 'a = 64, of "int shift"] unat_of_nat_u64 [of shift] by (simp_all add: fits_def)
  then have "fits 5 (sint (of_nat shift :: i64))" "\<not> (of_nat shift :: i64) <s 0"
    using q(3) by (auto simp: fits_def word_sless_alt)
  note s = parses_ReadSigned [of 5 "of_nat shift"] this
  have c: "parses (readN ?o (bindR (ReadSigned precision) (\<lambda>c. retR (ucast c)))) (sample_bits scast precision cs) cs"
    using sub32.parses_samples [of precision cs] q by simp
  have "cs \<noteq> []" using o(1) by auto
  then have r: "restoreLPC (take ?o s @ residuals (lpcPred cs shift) ?o s) cs shift eff = s"
    using q(3) eff(4) by (intro restoreLPC_residuals) auto
  have l: "parses (decodeLPC restoreLPC (length s) ?o eff :: ('a word list, 't) rm)
      (sample_bits wide eff (take ?o s) @ bits_msb 4 (of_nat (precision - 1) :: u64) @ bits_msb 5 (of_nat shift :: i64)
         @ sample_bits scast precision cs @ bs) s"
    unfolding decodeLPC_def Let_def
  proof (intro parses_bind [OF w] parses_bind [OF parses_code])
    show "parses (if of_nat (precision - 1) = (0x0F :: u64) then failR ErrUnsupported
        else bindR (ReadSigned 5) (\<lambda>shiftSigned. if shiftSigned <s 0 then failR ErrUnsupported
          else bindR (readN ?o (bindR (ReadSigned (unat (of_nat (precision - 1) :: u64) + 1)) (\<lambda>c. retR (ucast c))))
            (\<lambda>coeffs. bindR (decodeResidual (length s) ?o)
              (\<lambda>res. retR (restoreLPC (take ?o s @ res) coeffs (unat shiftSigned) eff)))) :: ('a word list, 't) rm)
      (bits_msb 5 (of_nat shift :: i64) @ sample_bits scast precision cs @ bs) s"
      unfolding p2 if_not_P [OF p]
      by (rule parses_bind [OF s(1)])
        (use s(2,3) sh r res in \<open>auto intro!: parses_bind [OF c] parses_bind_ret [OF parses_decodeResidual] parses_ret\<close>)
  qed (use q in auto)
  have u: "unat (of_nat (31 + ?o) :: u64) = 31 + ?o" using o by (intro unat_of_nat_u64) simp
  then have "(of_nat (31 + ?o) :: u64) \<noteq> 0" "(of_nat (31 + ?o) :: u64) \<noteq> 1"
    by (auto simp del: of_nat_add dest!: arg_cong [where f = unat])
  moreover have "\<not> (of_nat (31 + ?o) :: u64) \<le> 12" "32 \<le> (of_nat (31 + ?o) :: u64)" "unat (of_nat (31 + ?o) - 31 :: u64) = ?o"
    using o u by (simp_all add: word_le_nat_alt unat_sub del: of_nat_add)
  ultimately show ?thesis using parses_bind_ret [where f = "checkRange inRange ?o eff", OF l checkRange_ok [OF eff]]
    by (simp add: decodeBody_def Let_def lpc_params_bits_def del: of_nat_add)
qed

lemma parses_subframe:
  assumes body: "parses (decodeBody restoreFixed restoreLPC inRange n eff (of_nat t) :: ('a word list, 't) rm) bs
      (map (signed_drop_bit w) s)"
    and t: "t < 64" "w \<le> 32" "1 \<le> eff" "\<forall>x \<in> set s. take_bit w x = 0"
  shows "parses (decodeSubframeT restoreFixed restoreLPC inRange n (eff + w) :: ('a word list, 't) rm) (sub_header_bits t w @ bs) s"
proof -
  have s: "map (push_bit w) (map (signed_drop_bit w) s) = s" "w = 0 \<Longrightarrow> map (signed_drop_bit w) s = s"
    using t(4) by (auto simp: shift_back comp_def intro!: map_idI)
  have eff: "nat (int (eff + w) - int w) = eff" "\<not> int (eff + w) - int w \<le> 0" using t(3) by simp_all
  have tail: "parses (bindR (decodeBody restoreFixed restoreLPC inRange n (nat (int (eff + w) - int w)) (of_nat t))
      (\<lambda>dst. retR (if w > 0 then map (push_bit w) dst else dst)) :: ('a word list, 't) rm) bs s"
    unfolding eff(1) by (rule parses_bind_ret [OF body]) (use s parses_ret in \<open>auto simp: parses_ret\<close>)
  have rest: "parses (bindR readWastedBits (\<lambda>wasted.
       if int (eff + w) - int wasted \<le> 0 then failR ErrUnsupported
       else bindR (decodeBody restoreFixed restoreLPC inRange n (nat (int (eff + w) - int wasted)) (of_nat t))
         (\<lambda>dst. retR (if wasted > 0 then map (push_bit wasted) dst else dst))) :: ('a word list, 't) rm)
      ((if w = 0 then bits_msb 1 (0 :: u64) else bits_msb 1 (1 :: u64) @ replicate (w - 1) False @ [True]) @ bs) s"
    by (rule parses_bind [OF parses_readWastedBits [OF t(2)]]) (simp only: eff(2) if_False tail)
  have "parses (if (0 :: u64) \<noteq> 0 then failR ErrUnsupported else bindR (ReadBits 6) (\<lambda>stype. bindR readWastedBits (\<lambda>wasted.
       if int (eff + w) - int wasted \<le> 0 then failR ErrUnsupported
       else bindR (decodeBody restoreFixed restoreLPC inRange n (nat (int (eff + w) - int wasted)) stype)
         (\<lambda>dst. retR (if wasted > 0 then map (push_bit wasted) dst else dst)))) :: ('a word list, 't) rm)
      (bits_msb 6 (of_nat t :: u64)
       @ (if w = 0 then bits_msb 1 (0 :: u64) else bits_msb 1 (1 :: u64) @ replicate (w - 1) False @ [True]) @ bs) s"
    unfolding if_not_P [OF iffD2 [OF not_not [of "(0 :: u64) = 0"] refl]]
    by (rule parses_bind [OF parses_code]) (use t(1) rest in simp_all)
  then show ?thesis
    unfolding decodeSubframeT_def sub_header_bits_def Let_def append_assoc by (rule parses_bind [OF parses_bit(1)])
qed

end

end
