(* ===== verification/Analyze.thy ===== *)
theory Analyze
  imports Lpc
begin

text \<open>
  The encoder's linear prediction analysis (\<^verbatim>\<open>src/internal/lpc/analyze.go\<close>): window,
  autocorrelation, Levinson-Durbin recursion, choice of the order and quantization. The
  arithmetic of \<open>float64\<close> and the functions of package \<open>math\<close> are a record of operations the
  definitions take as an argument, as is the autocorrelation kernel of a third-party
  package. The analysis only chooses a predictor, any predictor being lossless; what the
  bitstream needs of it, and what the lemmas show, is that the order, the shift and the
  coefficients it returns fit their fields.
\<close>

section \<open>Floating point\<close>

record 'f float64 =
  fl_int :: "int \<Rightarrow> 'f"
  fl_half :: 'f
  fl_pi :: 'f
  fl_inf :: 'f
  fl_add :: "'f \<Rightarrow> 'f \<Rightarrow> 'f"
  fl_sub :: "'f \<Rightarrow> 'f \<Rightarrow> 'f"
  fl_mul :: "'f \<Rightarrow> 'f \<Rightarrow> 'f"
  fl_div :: "'f \<Rightarrow> 'f \<Rightarrow> 'f"
  fl_neg :: "'f \<Rightarrow> 'f"
  fl_less :: "'f \<Rightarrow> 'f \<Rightarrow> bool"
  fl_le :: "'f \<Rightarrow> 'f \<Rightarrow> bool"
  fl_eq :: "'f \<Rightarrow> 'f \<Rightarrow> bool"
  fl_isNaN :: "'f \<Rightarrow> bool"
  fl_isInf :: "'f \<Rightarrow> bool"
  fl_abs :: "'f \<Rightarrow> 'f"
  fl_round :: "'f \<Rightarrow> 'f"
  fl_cos :: "'f \<Rightarrow> 'f"
  fl_log2 :: "'f \<Rightarrow> 'f"
  fl_frexp :: "'f \<Rightarrow> int"
  fl_pow2 :: "int \<Rightarrow> 'f"
  fl_toInt32 :: "'f \<Rightarrow> i32"
  fl_autocorr :: "'f list \<Rightarrow> nat \<Rightarrow> 'f list"

text \<open>
  \<open>fl_frexp x\<close> is the exponent \<open>math.Frexp\<close> returns, \<open>fl_pow2 n\<close> is \<open>math.Ldexp(1, n)\<close>, and
  \<open>fl_toInt32\<close> the conversion to \<open>int32\<close>, which Go leaves open outside the range of \<open>int32\<close>.
  The facts about binary64 that the quantizer relies on: comparison of finite numbers is a
  strict order, conversions are exact on integers of 32 bits and monotone between them, the
  remainder of a rounding is so small that adding it to a finite number cannot overflow,
  and neither can scaling by a power of two that keeps the product below \<open>2 ^ 15\<close>.
\<close>

definition fl_finite :: "'f float64 \<Rightarrow> 'f \<Rightarrow> bool" where
  "fl_finite F x \<longleftrightarrow> \<not> fl_isNaN F x \<and> \<not> fl_isInf F x"

definition float64_laws :: "'f float64 \<Rightarrow> bool" where
  "float64_laws F \<longleftrightarrow>
     (\<forall>x. fl_finite F x \<longrightarrow> \<not> fl_less F x x \<and> fl_finite F (fl_abs F x) \<and> fl_finite F (fl_round F x))
   \<and> (\<forall>x y z. fl_less F x y \<longrightarrow> fl_less F y z \<longrightarrow> fl_less F x z)
   \<and> (\<forall>n. fits 64 n \<longrightarrow> fl_finite F (fl_int F n))
   \<and> (\<forall>n. fits 32 n \<longrightarrow> sint (fl_toInt32 F (fl_int F n)) = n)
   \<and> (\<forall>x lo hi. fl_finite F x \<longrightarrow> fits 32 lo \<longrightarrow> fits 32 hi \<longrightarrow> \<not> fl_less F (fl_int F hi) x \<longrightarrow> \<not> fl_less F x (fl_int F lo)
        \<longrightarrow> lo \<le> sint (fl_toInt32 F x) \<and> sint (fl_toInt32 F x) \<le> hi)
   \<and> (\<forall>y. fl_finite F y \<longrightarrow> fl_finite F (fl_add F (fl_int F 0) y))
   \<and> (\<forall>x y. fl_finite F x \<longrightarrow> fl_finite F y \<longrightarrow> fl_finite F (fl_add F (fl_sub F x (fl_round F x)) y))
   \<and> (\<forall>c m sh. fl_finite F c \<longrightarrow> fl_finite F m \<longrightarrow> \<not> fl_less F m (fl_abs F c) \<longrightarrow> 0 \<le> sh \<longrightarrow> sh \<le> 15
        \<longrightarrow> sh = 0 \<or> sh + fl_frexp F m \<le> 15 \<longrightarrow> fl_finite F (fl_mul F c (fl_pow2 F sh)))"

section \<open>Windowing and autocorrelation\<close>

definition maxQLPShift :: int where "maxQLPShift = 15"

record 'f lpcScratch =
  ls_maxOrder :: nat
  ls_windowed :: "'f list"
  ls_autoc :: "'f list"
  ls_lpcFlat :: "'f list"
  ls_errByOrder :: "'f list"
  ls_lpcWork :: "'f list"

definition NewScratch :: "'f float64 \<Rightarrow> nat \<Rightarrow> nat \<Rightarrow> 'f lpcScratch" where
  "NewScratch F maxBlock maxOrder =
     \<lparr>ls_maxOrder = maxOrder, ls_windowed = replicate maxBlock (fl_int F 0),
      ls_autoc = replicate (maxOrder + 1) (fl_int F 0),
      ls_lpcFlat = replicate ((maxOrder + 1) * maxOrder) (fl_int F 0),
      ls_errByOrder = replicate (maxOrder + 1) (fl_int F 0),
      ls_lpcWork = replicate maxOrder (fl_int F 0)\<rparr>"

definition TukeyWindow :: "'f float64 \<Rightarrow> nat \<Rightarrow> 'f \<Rightarrow> 'f list" where
  "TukeyWindow F n alpha =
     (let one = fl_int F 1; two = fl_int F 2; nm1 = fl_int F (int n - 1)
      in if n \<le> 1 then replicate n one
         else if fl_le F alpha (fl_int F 0) then replicate n one
         else if fl_le F one alpha then
           map (\<lambda>i. fl_mul F (fl_half F) (fl_sub F one
                  (fl_cos F (fl_div F (fl_mul F (fl_mul F two (fl_pi F)) (fl_int F (int i))) nm1)))) [0..<n]
         else
           let edge = fl_div F (fl_mul F alpha nm1) two;
               upper = fl_mul F nm1 (fl_sub F one (fl_div F alpha two))
           in map (\<lambda>i. let x = fl_int F (int i); u = fl_div F (fl_mul F two x) (fl_mul F alpha nm1)
                 in if fl_less F x edge
                    then fl_mul F (fl_half F) (fl_add F one (fl_cos F (fl_mul F (fl_pi F) (fl_sub F u one))))
                    else if fl_le F x upper then one
                    else fl_mul F (fl_half F) (fl_add F one
                           (fl_cos F (fl_mul F (fl_pi F) (fl_add F (fl_sub F u (fl_div F two alpha)) one))))) [0..<n])"

definition autocorrelateInto :: "'f float64 \<Rightarrow> 'f list \<Rightarrow> 'f list \<Rightarrow> nat \<Rightarrow> 'f list" where
  "autocorrelateInto F autoc x maxLag =
     map (\<lambda>lag. foldl (\<lambda>sum i. fl_add F sum (fl_mul F (x ! i) (x ! (i - lag)))) (fl_int F 0) [lag..<length x])
       [0..<maxLag + 1] @ drop (maxLag + 1) autoc"

definition autocorrelate :: "'f float64 \<Rightarrow> 'f list \<Rightarrow> nat \<Rightarrow> 'f list" where
  "autocorrelate F x maxLag = autocorrelateInto F (replicate (maxLag + 1) (fl_int F 0)) x maxLag"

section \<open>Levinson-Durbin\<close>

definition reflect :: "'f float64 \<Rightarrow> nat \<Rightarrow> 'f \<Rightarrow> 'f list \<Rightarrow> 'f list" where
  "reflect F i r lpc =
     (let lpc = lpc[i := r];
          lpc = foldl (\<lambda>l j. let tmp = l ! j; l = l[j := fl_add F (l ! j) (fl_mul F r (l ! (i - 1 - j)))]
                             in l[i - 1 - j := fl_add F (l ! (i - 1 - j)) (fl_mul F r tmp)]) lpc [0..<i div 2]
      in if i mod 2 = 1
         then lpc[i div 2 := fl_add F (lpc ! (i div 2)) (fl_mul F (lpc ! (i div 2)) r)]
         else lpc)"

fun levinsonLoop ::
  "'f float64 \<Rightarrow> 'f list \<Rightarrow> nat \<Rightarrow> nat \<Rightarrow> nat \<Rightarrow> 'f list \<times> 'f \<times> 'f list \<times> 'f list \<Rightarrow> nat \<times> 'f list \<times> 'f \<times> 'f list \<times> 'f list" where
  "levinsonLoop F autoc stride i 0 st = (i, st)"
| "levinsonLoop F autoc stride i (Suc k) (lpc, err, lpcFlat, errByOrder) =
     (if fl_le F err (fl_int F 0) then (i, lpc, err, lpcFlat, errByOrder)
      else
        let r = foldl (\<lambda>r j. fl_sub F r (fl_mul F (lpc ! j) (autoc ! (i - j)))) (fl_neg F (autoc ! (i + 1))) [0..<i];
            r = fl_div F r err;
            lpc = reflect F i r lpc;
            err = fl_mul F err (fl_sub F (fl_int F 1) (fl_mul F r r));
            order = i + 1
        in levinsonLoop F autoc stride (i + 1) k
             (lpc, err, put_row (order * stride) (map (fl_neg F) (take order lpc)) lpcFlat, errByOrder[order := err]))"

definition levinsonInto ::
  "'f float64 \<Rightarrow> 'f list \<Rightarrow> 'f list \<Rightarrow> 'f list \<Rightarrow> 'f list \<Rightarrow> nat \<Rightarrow> nat \<Rightarrow> nat \<times> 'f list \<times> 'f list \<times> 'f list" where
  "levinsonInto F lpcFlat errByOrder lpcWork autoc maxOrder stride =
     (case levinsonLoop F autoc stride 0 maxOrder (take maxOrder lpcWork, autoc ! 0, lpcFlat, errByOrder[0 := autoc ! 0]) of
        (maxComputed, lpc, err, lpcFlat, errByOrder) \<Rightarrow> (maxComputed, lpcFlat, errByOrder, lpc @ drop maxOrder lpcWork))"

definition levinson :: "'f float64 \<Rightarrow> 'f list \<Rightarrow> nat \<Rightarrow> 'f list list \<times> 'f list \<times> nat" where
  "levinson F autoc maxOrder =
     (let zero = fl_int F 0
      in case levinsonInto F (replicate ((maxOrder + 1) * maxOrder) zero) (replicate (maxOrder + 1) zero)
                (replicate maxOrder zero) autoc maxOrder maxOrder of
           (maxComputed, flat, errByOrder, _) \<Rightarrow>
             (map (\<lambda>k. if 1 \<le> k \<and> k \<le> maxComputed then take k (drop (k * maxOrder) flat) else []) [0..<maxOrder + 1],
              errByOrder, maxComputed))"

section \<open>Quantization and the choice of the order\<close>

definition quantizeStep :: "'f float64 \<Rightarrow> nat \<Rightarrow> 'f \<Rightarrow> 'f \<times> i32 list \<Rightarrow> 'f \<Rightarrow> 'f \<times> i32 list" where
  "quantizeStep F precision scale st c =
     (case st of (errAcc, q) \<Rightarrow>
       let qmax = push_bit (precision - 1) 1 - 1 :: i32;
           qmin = - push_bit (precision - 1) 1 :: i32;
           errAcc = fl_add F errAcc (fl_mul F c scale);
           rounded = fl_round F errAcc;
           v = (if fl_less F (fl_int F (sint qmax)) rounded then fl_int F (sint qmax)
                else if fl_less F rounded (fl_int F (sint qmin)) then fl_int F (sint qmin)
                else rounded)
       in (fl_sub F errAcc rounded, q @ [fl_toInt32 F v]))"

definition quantizeCoefficientsInto ::
  "'f float64 \<Rightarrow> i32 list \<Rightarrow> 'f list \<Rightarrow> nat \<Rightarrow> (nat \<times> nat) option \<times> i32 list" where
  "quantizeCoefficientsInto F qOut lpc precision =
     (if list_ex (\<lambda>c. fl_isNaN F c \<or> fl_isInf F c) lpc then (None, qOut)
      else
        let cmax = foldl (\<lambda>m c. let a = fl_abs F c in if fl_less F m a then a else m) (fl_int F 0) lpc
        in if fl_le F cmax (fl_int F 0) then (None, qOut)
           else
             let shift = max (min (int precision - 1 - fl_frexp F cmax) maxQLPShift) 0;
                 scale = fl_pow2 F shift;
                 q = snd (foldl (quantizeStep F precision scale) (fl_int F 0, []) lpc)
             in (Some (length lpc, nat shift), q @ drop (length lpc) qOut))"

definition quantizeCoefficients :: "'f float64 \<Rightarrow> 'f list \<Rightarrow> nat \<Rightarrow> (i32 list \<times> nat) option" where
  "quantizeCoefficients F lpc precision =
     (case quantizeCoefficientsInto F (replicate (length lpc) 0) lpc precision of
        (None, _) \<Rightarrow> None
      | (Some (qn, sh), q) \<Rightarrow> Some (take qn q, sh))"

fun bestOrderLoop :: "'f float64 \<Rightarrow> 'f list \<Rightarrow> nat \<Rightarrow> nat \<Rightarrow> nat \<Rightarrow> nat \<Rightarrow> nat \<times> 'f \<Rightarrow> nat" where
  "bestOrderLoop F errByOrder blockLen hdr k 0 best = fst best"
| "bestOrderLoop F errByOrder blockLen hdr k (Suc m) best =
     (let e = errByOrder ! k
      in if fl_le F e (fl_int F 0) then k
         else
           let bps = fl_mul F (fl_half F) (fl_log2 F e);
               bps = (if fl_less F bps (fl_int F 0) then fl_int F 0 else bps);
               total = fl_add F (fl_mul F bps (fl_int F (int blockLen - int k))) (fl_int F (int (k * hdr)))
           in bestOrderLoop F errByOrder blockLen hdr (k + 1) m (if fl_less F total (snd best) then (k, total) else best))"

definition estimateBestOrder :: "'f float64 \<Rightarrow> 'f list \<Rightarrow> nat \<Rightarrow> nat \<Rightarrow> nat \<Rightarrow> nat" where
  "estimateBestOrder F errByOrder maxComputed blockLen perOrderHeaderBits =
     bestOrderLoop F errByOrder blockLen perOrderHeaderBits 1 maxComputed (1, fl_inf F)"

definition AnalyzeLPC ::
  "'f float64 \<Rightarrow> 'a::len word list \<Rightarrow> 'f list \<Rightarrow> nat \<Rightarrow> nat \<Rightarrow> nat \<Rightarrow> 'f lpcScratch option \<Rightarrow> i32 list
   \<Rightarrow> (nat \<times> nat \<times> nat) option \<times> 'f lpcScratch option \<times> i32 list" where
  "AnalyzeLPC F samples window maxOrder precision eff scp qOut =
     (if precision < 1 \<or> precision > 15 then (None, scp, qOut)
      else
        let n = length samples; mo = min maxOrder (min (n - 1) 32)
        in if length window \<noteq> n then (None, scp, qOut)
           else if mo < 1 then (None, scp, qOut)
           else case scp of
             None \<Rightarrow> (None, scp, qOut)
           | Some sc \<Rightarrow>
               if ls_maxOrder sc < mo \<or> length qOut < mo \<or> length (ls_windowed sc) < n \<or> length (ls_autoc sc) < mo + 1
                  \<or> length (ls_lpcWork sc) < mo \<or> length (ls_errByOrder sc) < mo + 1
                  \<or> length (ls_lpcFlat sc) < (mo + 1) * ls_maxOrder sc
               then (None, scp, qOut)
               else
                 let windowed = map2 (\<lambda>s w. fl_mul F (fl_int F (sint s)) w) samples window;
                     autoc = fl_autocorr F windowed mo;
                     sc = sc\<lparr>ls_windowed := put_row 0 windowed (ls_windowed sc), ls_autoc := put_row 0 autoc (ls_autoc sc)\<rparr>
                 in if fl_eq F (autoc ! 0) (fl_int F 0) then (None, Some sc, qOut)
                    else case levinsonInto F (ls_lpcFlat sc) (ls_errByOrder sc) (ls_lpcWork sc) autoc mo (ls_maxOrder sc) of
                      (maxComputed, lpcFlat, errByOrder, lpcWork) \<Rightarrow>
                        let sc = sc\<lparr>ls_lpcFlat := lpcFlat, ls_errByOrder := errByOrder, ls_lpcWork := lpcWork\<rparr>
                        in if maxComputed < 1 then (None, Some sc, qOut)
                           else
                             let best = estimateBestOrder F errByOrder maxComputed n (eff + precision);
                                 row = take best (drop (best * ls_maxOrder sc) lpcFlat)
                             in case quantizeCoefficientsInto F qOut row precision of
                                  (None, qOut) \<Rightarrow> (None, Some sc, qOut)
                                | (Some (qn, sh), qOut) \<Rightarrow> (Some (best, sh, qn), Some sc, qOut))"

section \<open>The result fits its fields\<close>

lemma length_reflect [simp]: "length (reflect F i r lpc) = length lpc"
proof -
  have "length (foldl (\<lambda>l j. let tmp = l ! j; l = l[j := fl_add F (l ! j) (fl_mul F r (l ! (i - 1 - j)))]
            in l[i - 1 - j := fl_add F (l ! (i - 1 - j)) (fl_mul F r tmp)]) l ks) = length l" for l ks
    by (induction ks arbitrary: l) (simp_all add: Let_def)
  then show ?thesis by (simp add: reflect_def Let_def)
qed

lemma levinsonLoop_ok:
  assumes "levinsonLoop F autoc stride i k (lpc, err, flat, ebo) = (m, lpc', err', flat', ebo')"
    and "length lpc = i + k" "i + k \<le> stride" "(i + k + 1) * stride \<le> length flat"
  shows "m \<le> i + k \<and> length flat' = length flat"
  using assms
proof (induction F autoc stride i k "(lpc, err, flat, ebo)" arbitrary: lpc err flat ebo rule: levinsonLoop.induct)
  case (2 F autoc stride i k lpc err flat ebo)
  show ?case
  proof (cases "fl_le F err (fl_int F 0)")
    case False
    define r where "r = fl_div F (foldl (\<lambda>r j. fl_sub F r (fl_mul F (lpc ! j) (autoc ! (i - j)))) (fl_neg F (autoc ! (i + 1))) [0..<i]) err"
    define lpc1 where "lpc1 = reflect F i r lpc"
    define err1 where "err1 = fl_mul F err (fl_sub F (fl_int F 1) (fl_mul F r r))"
    define flat1 where "flat1 = put_row ((i + 1) * stride) (map (fl_neg F) (take (i + 1) lpc1)) flat"
    have len: "length lpc1 = (i + 1) + k" using "2.prems"(2) by (simp add: lpc1_def)
    have "(i + 1) * stride + (i + 1) \<le> (i + 1) * stride + stride" using "2.prems"(3) by simp
    also have "\<dots> \<le> (i + Suc k + 1) * stride" by (simp add: add_mult_distrib)
    also have "\<dots> \<le> length flat" by (rule "2.prems"(4))
    finally have f: "length flat1 = length flat" using len by (simp add: flat1_def length_put_row)
    have "levinsonLoop F autoc stride (i + 1) k (lpc1, err1, flat1, ebo[i + 1 := err1]) = (m, lpc', err', flat', ebo')"
      using "2.prems"(1) False by (simp add: Let_def r_def lpc1_def err1_def flat1_def)
    then have "m \<le> (i + 1) + k \<and> length flat' = length flat1"
      by (rule "2.hyps" [OF False refl r_def lpc1_def err1_def refl, folded flat1_def])
        (use len f "2.prems" in auto)
    then show ?thesis using f by simp
  qed (use "2.prems" in simp)
qed simp

lemma bestOrderLoop_range:
  "1 \<le> k \<Longrightarrow> 1 \<le> fst best \<Longrightarrow> fst best < k + m \<Longrightarrow> 
   1 \<le> bestOrderLoop F errs blockLen hdr k m best \<and> bestOrderLoop F errs blockLen hdr k m best < k + m"
proof (induction F errs blockLen hdr k m best rule: bestOrderLoop.induct)
  case (2 F errs blockLen hdr k m best)
  then show ?case by (auto simp: Let_def)
qed simp

lemma estimateBestOrder_range:
  "1 \<le> maxComputed \<Longrightarrow> 1 \<le> estimateBestOrder F errs maxComputed n hdr \<and> estimateBestOrder F errs maxComputed n hdr \<le> maxComputed"
  using bestOrderLoop_range [of 1 "(1, fl_inf F)" maxComputed F errs n hdr] by (simp add: estimateBestOrder_def)

lemma float64_lawsD:
  assumes "float64_laws F"
  shows "fl_finite F x \<Longrightarrow> \<not> fl_less F x x" "fl_finite F x \<Longrightarrow> fl_finite F (fl_abs F x)" "fl_finite F x \<Longrightarrow> fl_finite F (fl_round F x)"
    and "fl_less F x y \<Longrightarrow> fl_less F y z \<Longrightarrow> fl_less F x z" "fits 64 n \<Longrightarrow> fl_finite F (fl_int F n)"
    and "fits 32 n \<Longrightarrow> sint (fl_toInt32 F (fl_int F n)) = n"
    and "fl_finite F x \<Longrightarrow> fits 32 lo \<Longrightarrow> fits 32 hi \<Longrightarrow> \<not> fl_less F (fl_int F hi) x \<Longrightarrow> \<not> fl_less F x (fl_int F lo)
        \<Longrightarrow> lo \<le> sint (fl_toInt32 F x) \<and> sint (fl_toInt32 F x) \<le> hi"
    and "fl_finite F y \<Longrightarrow> fl_finite F (fl_add F (fl_int F 0) y)"
    and "fl_finite F x \<Longrightarrow> fl_finite F y \<Longrightarrow> fl_finite F (fl_add F (fl_sub F x (fl_round F x)) y)"
    and "fl_finite F c \<Longrightarrow> fl_finite F m \<Longrightarrow> \<not> fl_less F m (fl_abs F c) \<Longrightarrow> 0 \<le> sh \<Longrightarrow> sh \<le> 15
        \<Longrightarrow> sh = 0 \<or> sh + fl_frexp F m \<le> 15 \<Longrightarrow> fl_finite F (fl_mul F c (fl_pow2 F sh))"
  using assms unfolding float64_laws_def by blast+

lemma sint_qbounds:
  assumes "1 \<le> p" "p \<le> 15"
  shows "sint (push_bit (p - 1) 1 - 1 :: i32) = 2 ^ (p - 1) - 1" "sint (- push_bit (p - 1) 1 :: i32) = - (2 ^ (p - 1))"
    "fits 32 (2 ^ (p - 1) - 1)" "fits 32 (- (2 ^ (p - 1)))"
proof -
  have x: "fits 32 (x - 1) \<and> fits 32 (- x)" if "0 < x" "x \<le> 2 ^ 14" for x :: int
    using that by (simp add: fits_def)
  have "(2::int) ^ (p - 1) \<le> 2 ^ 14" using assms by (intro power_increasing) auto
  then show f: "fits 32 (2 ^ (p - 1) - 1)" "fits 32 (- (2 ^ (p - 1)))" using x [of "2 ^ (p - 1)"] by simp_all
  have eq: "push_bit (p - 1) 1 - 1 = (of_int (2 ^ (p - 1) - 1) :: i32)" "- push_bit (p - 1) 1 = (of_int (- (2 ^ (p - 1))) :: i32)"
    by (simp_all add: push_bit_eq_mult)
  show "sint (push_bit (p - 1) 1 - 1 :: i32) = 2 ^ (p - 1) - 1" "sint (- push_bit (p - 1) 1 :: i32) = - (2 ^ (p - 1))"
    unfolding eq by (rule sint_of_int_fits, use f in simp)+
qed

text \<open>The running remainder is zero or what a rounding left, so it stays finite.\<close>

definition remainder :: "'f float64 \<Rightarrow> 'f \<Rightarrow> bool" where
  "remainder F e \<longleftrightarrow> e = fl_int F 0 \<or> (\<exists>x. fl_finite F x \<and> e = fl_sub F x (fl_round F x))"

lemma quantizeStep_ok:
  assumes F: "float64_laws F" and p: "1 \<le> p" "p \<le> 15" and e: "remainder F (fst st)"
    and c: "fl_finite F (fl_mul F c scale)"
  shows "\<exists>e q. quantizeStep F p scale st c = (e, snd st @ [q]) \<and> remainder F e \<and> fits p (sint q)"
proof -
  define acc where "acc = fl_add F (fst st) (fl_mul F c scale)"
  define lo hi where "lo = - (2 ^ (p - 1) :: int)" and "hi = 2 ^ (p - 1) - (1 :: int)"
  have acc: "fl_finite F acc" using float64_lawsD(8,9) [OF F] e c by (auto simp: acc_def remainder_def)
  then have r: "fl_finite F (fl_round F acc)" by (rule float64_lawsD(3) [OF F])
  define v where "v = (if fl_less F (fl_int F hi) (fl_round F acc) then fl_int F hi
                       else if fl_less F (fl_round F acc) (fl_int F lo) then fl_int F lo else fl_round F acc)"
  note b = sint_qbounds [OF p, folded lo_def hi_def]
  have lh: "lo \<le> hi" by (simp add: lo_def hi_def)
  consider "v = fl_int F hi" | "v = fl_int F lo"
    | "v = fl_round F acc" "\<not> fl_less F (fl_int F hi) v" "\<not> fl_less F v (fl_int F lo)"
    unfolding v_def by (cases "fl_less F (fl_int F hi) (fl_round F acc)"; cases "fl_less F (fl_round F acc) (fl_int F lo)") simp_all
  then have "lo \<le> sint (fl_toInt32 F v) \<and> sint (fl_toInt32 F v) \<le> hi"
  proof cases
    case 1
    then show ?thesis using float64_lawsD(6) [OF F b(3)] lh by simp
  next
    case 2
    then show ?thesis using float64_lawsD(6) [OF F b(4)] lh by simp
  next
    case 3
    then show ?thesis using float64_lawsD(7) [OF F _ b(4,3)] r by simp
  qed
  then have "fits p (sint (fl_toInt32 F v))" using p(1) by (auto simp: fits_def lo_def hi_def)
  moreover have "quantizeStep F p scale st c = (fl_sub F acc (fl_round F acc), snd st @ [fl_toInt32 F v])"
    using b(1,2) by (cases st) (simp add: quantizeStep_def Let_def acc_def v_def)
  moreover have "remainder F (fl_sub F acc (fl_round F acc))" using acc by (auto simp: remainder_def)
  ultimately show ?thesis by blast
qed

lemma quantize_fold:
  assumes F: "float64_laws F" and p: "1 \<le> p" "p \<le> 15" and c: "\<forall>c \<in> set lpc. fl_finite F (fl_mul F c scale)"
    and "remainder F (fst st)" "\<forall>q \<in> set (snd st). fits p (sint q)"
  shows "length (snd (foldl (quantizeStep F p scale) st lpc)) = length (snd st) + length lpc
    \<and> (\<forall>q \<in> set (snd (foldl (quantizeStep F p scale) st lpc)). fits p (sint q))"
  using c assms(5,6)
proof (induction lpc arbitrary: st)
  case (Cons x lpc)
  obtain e q where s: "quantizeStep F p scale st x = (e, snd st @ [q])" "remainder F e" "fits p (sint q)"
    using quantizeStep_ok [OF F p Cons.prems(2)] Cons.prems(1) by force
  show ?case using Cons.IH [of "(e, snd st @ [q])"] Cons.prems s by auto
qed simp

lemma cmax_fold:
  assumes F: "float64_laws F" and c: "\<forall>c \<in> set lpc. fl_finite F c" and "fl_finite F m"
  shows "fl_finite F (foldl (\<lambda>m c. let a = fl_abs F c in if fl_less F m a then a else m) m lpc)
    \<and> (\<forall>a. \<not> fl_less F m a \<longrightarrow> fl_finite F a \<longrightarrow> \<not> fl_less F (foldl (\<lambda>m c. let a = fl_abs F c in if fl_less F m a then a else m) m lpc) a)
    \<and> (\<forall>c \<in> set lpc. \<not> fl_less F (foldl (\<lambda>m c. let a = fl_abs F c in if fl_less F m a then a else m) m lpc) (fl_abs F c))"
  using c assms(3)
proof (induction lpc arbitrary: m)
  case (Cons x lpc)
  let ?m = "if fl_less F m (fl_abs F x) then fl_abs F x else m"
  have fin: "fl_finite F (fl_abs F x)" "fl_finite F ?m"
    using float64_lawsD(2) [OF F] Cons.prems by auto
  have up: "\<not> fl_less F ?m a" if "\<not> fl_less F m a" for a
    using float64_lawsD(4) [OF F, of m "fl_abs F x" a] that by auto
  have "\<not> fl_less F ?m (fl_abs F x)" using float64_lawsD(1) [OF F fin(1)] by auto
  then show ?case using Cons.IH [of ?m] Cons.prems(1) fin up by (auto simp: Let_def)
qed simp

lemma quantize_ok:
  assumes F: "float64_laws F" and p: "1 \<le> p" "p \<le> 15"
    and q: "quantizeCoefficientsInto F qOut lpc p = (Some (qn, sh), q)"
  shows "qn = length lpc" "sh \<le> 15" "\<forall>c \<in> set (take qn q). fits p (sint c)" "length lpc \<le> length q"
proof -
  define cmax where "cmax = foldl (\<lambda>m c. let a = fl_abs F c in if fl_less F m a then a else m) (fl_int F 0) lpc"
  define shift where "shift = max (min (int p - 1 - fl_frexp F cmax) maxQLPShift) 0"
  define qs where "qs = snd (foldl (quantizeStep F p (fl_pow2 F shift)) (fl_int F 0, []) lpc)"
  have fin: "\<forall>c \<in> set lpc. fl_finite F c" and r: "qn = length lpc" "sh = nat shift" "q = qs @ drop (length lpc) qOut"
    using q by (auto simp: quantizeCoefficientsInto_def Let_def cmax_def shift_def qs_def list_ex_iff fl_finite_def split: if_splits)
  have z: "fl_finite F (fl_int F 0)" by (rule float64_lawsD(5) [OF F]) (simp add: fits_def)
  have m: "fl_finite F cmax" "\<forall>c \<in> set lpc. \<not> fl_less F cmax (fl_abs F c)"
    using cmax_fold [OF F fin z] unfolding cmax_def by blast+
  have s: "0 \<le> shift" "shift \<le> 15" "shift = 0 \<or> shift + fl_frexp F cmax \<le> 15"
    using p(2) by (auto simp: shift_def maxQLPShift_def)
  have "\<forall>c \<in> set lpc. fl_finite F (fl_mul F c (fl_pow2 F shift))"
  proof
    fix c assume "c \<in> set lpc"
    then have c: "fl_finite F c" "\<not> fl_less F cmax (fl_abs F c)" using fin m(2) by simp_all
    show "fl_finite F (fl_mul F c (fl_pow2 F shift))" by (rule float64_lawsD(10) [OF F c(1) m(1) c(2) s])
  qed
  from quantize_fold [OF F p this, of "(fl_int F 0, [])"]
  have "length qs = length lpc" "\<forall>c \<in> set qs. fits p (sint c)"
    unfolding qs_def by (auto simp: remainder_def)
  then show "qn = length lpc" "sh \<le> 15" "\<forall>c \<in> set (take qn q). fits p (sint c)" "length lpc \<le> length q"
    using r s by auto
qed

text \<open>
  What \<open>AnalyzeLPC\<close> returns fits the subframe format: an order from 1 to 32 that leaves at
  least one residual, a shift of at most 15 and coefficients of the given precision.
\<close>

lemma AnalyzeLPC_ok:
  assumes F: "float64_laws F" and A: "AnalyzeLPC F samples window maxOrder precision eff scp qOut = (Some (order, shift, qn), scp', q)"
  shows "1 \<le> order" "order \<le> 32" "order < length samples" "order \<le> maxOrder" "shift \<le> 15" "qn = order" "order \<le> length q"
    "1 \<le> precision" "precision \<le> 15" "\<forall>c \<in> set (take order q). fits precision (sint c)"
proof -
  define n mo where "n = length samples" and "mo = min maxOrder (min (n - 1) 32)"
  have g: "1 \<le> precision" "precision \<le> 15" "1 \<le> mo"
    using A unfolding AnalyzeLPC_def Let_def n_def [symmetric] mo_def [symmetric] by (auto split: if_splits option.splits)
  obtain sc where sc: "scp = Some sc" "mo \<le> ls_maxOrder sc" "mo \<le> length (ls_lpcWork sc)"
      "(mo + 1) * ls_maxOrder sc \<le> length (ls_lpcFlat sc)"
    using A g unfolding AnalyzeLPC_def Let_def n_def [symmetric] mo_def [symmetric] by (auto split: if_splits option.splits)
  define autoc where "autoc = fl_autocorr F (map2 (\<lambda>s w. fl_mul F (fl_int F (sint s)) w) samples window) mo"
  obtain mc flat ebo work where lv: "levinsonInto F (ls_lpcFlat sc) (ls_errByOrder sc) (ls_lpcWork sc) autoc mo (ls_maxOrder sc) = (mc, flat, ebo, work)"
    by (metis prod_cases4)
  define best where "best = estimateBestOrder F ebo mc n (eff + precision)"
  define row where "row = take best (drop (best * ls_maxOrder sc) flat)"
  have r: "1 \<le> mc" "quantizeCoefficientsInto F qOut row precision = (Some (qn, shift), q)" "order = best"
    using A g sc lv
    unfolding AnalyzeLPC_def Let_def n_def [symmetric] mo_def [symmetric] autoc_def best_def row_def
    by (auto split: if_splits option.splits prod.splits)
  obtain lpc err where "levinsonLoop F autoc (ls_maxOrder sc) 0 mo (take mo (ls_lpcWork sc), autoc ! 0, ls_lpcFlat sc, (ls_errByOrder sc)[0 := autoc ! 0])
      = (mc, lpc, err, flat, ebo)"
    using lv unfolding levinsonInto_def by (auto split: prod.splits)
  from levinsonLoop_ok [OF this] have m: "mc \<le> mo" "length flat = length (ls_lpcFlat sc)"
    using sc by auto
  have b: "1 \<le> best" "best \<le> mo"
    using estimateBestOrder_range [OF r(1), of F ebo n "eff + precision"] m(1) unfolding best_def by auto
  have "best * ls_maxOrder sc + best \<le> (mo + 1) * ls_maxOrder sc"
  proof -
    have "best * ls_maxOrder sc \<le> mo * ls_maxOrder sc" by (rule mult_le_mono1 [OF b(2)])
    moreover have "best \<le> ls_maxOrder sc" using b(2) sc(2) by simp
    moreover have "(mo + 1) * ls_maxOrder sc = ls_maxOrder sc + mo * ls_maxOrder sc" by simp
    ultimately show ?thesis by linarith
  qed
  then have "length row = best" using sc(4) m(2) by (simp add: row_def)
  then show "1 \<le> order" "order \<le> 32" "order < length samples" "order \<le> maxOrder" "shift \<le> 15" "qn = order" "order \<le> length q"
    "1 \<le> precision" "precision \<le> 15" "\<forall>c \<in> set (take order q). fits precision (sint c)"
    using quantize_ok [OF F g(1,2) r(2)] b g r(3) unfolding mo_def n_def by auto
qed

end
