(* ===== verification/Subframe_Encode.thy ===== *)
theory Subframe_Encode
  imports Subframe Analyze
begin

text \<open>
  Planning and writing of subframes (\<^verbatim>\<open>src/internal/frame/subframe_encode.go\<close>) over the
  buffers an encoder keeps between frames (\<^verbatim>\<open>workspace.go\<close>) and its parameters
  (\<^verbatim>\<open>params.go\<close>). A buffer is a list; the code takes its \<open>n\<close>-element prefix, growing it when
  it is too short, and what a call writes to it stays there for the next one, so a plan and
  the residuals it was made for reach the writer through the workspace as in the code. The
  parallel 32-bit and 64-bit writers are one definition each, over the conversion to the
  64-bit value written, and its two instances.
\<close>

section \<open>Parameters and workspace\<close>

datatype StereoMode = StereoIndependent | StereoAdaptive | StereoFull

datatype Apodization = ApodTukey05

record Params =
  p_Stereo :: StereoMode
  p_MaxPartitionOrder :: nat
  p_ExhaustiveFixed :: bool
  p_MaxLPCOrder :: nat
  p_LPCPrecision :: nat
  p_Apodization :: Apodization

record candScratch =
  cs_res :: "i32 list"
  cs_res64 :: "i64 list"
  cs_plans :: "PartPlan list"

record 'f Workspace =
  ws_side :: "i32 list"
  ws_mid :: "i32 list"
  ws_side64 :: "i64 list"
  ws_mid64 :: "i64 list"
  ws_l64 :: "i64 list"
  ws_r64 :: "i64 list"
  ws_rice :: Scratch
  ws_lpc :: "'f lpcScratch option"
  ws_lpcCap :: nat
  ws_costRes :: "i32 list"
  ws_costRes64 :: "i64 list"
  ws_shifted32 :: "i32 list"
  ws_shifted64 :: "i64 list"
  ws_apodN :: "nat list"
  ws_apodWin :: "'f list option list"
  ws_cand :: "candScratch list"

definition NewWorkspace :: "'f float64 \<Rightarrow> nat \<Rightarrow> nat \<Rightarrow> nat \<Rightarrow> 'f Workspace" where
  "NewWorkspace F maxBlock channels maxOrder =
     \<lparr>ws_side = replicate maxBlock 0, ws_mid = replicate maxBlock 0,
      ws_side64 = replicate maxBlock 0, ws_mid64 = replicate maxBlock 0,
      ws_l64 = replicate maxBlock 0, ws_r64 = replicate maxBlock 0,
      ws_rice = \<lparr>sc_sums = [], sc_maxU = [], sc_cur = [], sc_plans = []\<rparr>,
      ws_lpc = Some (NewScratch F maxBlock maxOrder), ws_lpcCap = maxBlock,
      ws_costRes = replicate maxBlock 0, ws_costRes64 = replicate maxBlock 0,
      ws_shifted32 = replicate maxBlock 0, ws_shifted64 = replicate maxBlock 0,
      ws_apodN = [0, 0], ws_apodWin = [None, None],
      ws_cand = replicate 4 \<lparr>cs_res = replicate maxBlock 0, cs_res64 = replicate maxBlock 0, cs_plans = []\<rparr>\<rparr>"

definition grown :: "nat \<Rightarrow> 'a::zero list \<Rightarrow> 'a list" where
  "grown n buf = (if length buf < n then replicate n 0 else buf)"

definition ensureRes :: "nat \<Rightarrow> candScratch \<Rightarrow> candScratch" where
  "ensureRes n c = c\<lparr>cs_res := grown n (cs_res c)\<rparr>"

definition ensureRes64 :: "nat \<Rightarrow> candScratch \<Rightarrow> candScratch" where
  "ensureRes64 n c = c\<lparr>cs_res64 := grown n (cs_res64 c)\<rparr>"

definition ensureCostRes :: "nat \<Rightarrow> 'f Workspace \<Rightarrow> 'f Workspace" where
  "ensureCostRes n ws = ws\<lparr>ws_costRes := grown n (ws_costRes ws)\<rparr>"

definition ensureCostRes64 :: "nat \<Rightarrow> 'f Workspace \<Rightarrow> 'f Workspace" where
  "ensureCostRes64 n ws = ws\<lparr>ws_costRes64 := grown n (ws_costRes64 ws)\<rparr>"

definition ensureShifted32 :: "nat \<Rightarrow> 'f Workspace \<Rightarrow> 'f Workspace" where
  "ensureShifted32 n ws = ws\<lparr>ws_shifted32 := grown n (ws_shifted32 ws)\<rparr>"

definition ensureShifted64 :: "nat \<Rightarrow> 'f Workspace \<Rightarrow> 'f Workspace" where
  "ensureShifted64 n ws = ws\<lparr>ws_shifted64 := grown n (ws_shifted64 ws)\<rparr>"

definition ensureSide :: "nat \<Rightarrow> 'f Workspace \<Rightarrow> 'f Workspace" where
  "ensureSide n ws = ws\<lparr>ws_side := grown n (ws_side ws)\<rparr>"

definition ensureMid :: "nat \<Rightarrow> 'f Workspace \<Rightarrow> 'f Workspace" where
  "ensureMid n ws = ws\<lparr>ws_mid := grown n (ws_mid ws)\<rparr>"

definition ensureSide64 :: "nat \<Rightarrow> 'f Workspace \<Rightarrow> 'f Workspace" where
  "ensureSide64 n ws = ws\<lparr>ws_side64 := grown n (ws_side64 ws)\<rparr>"

definition ensureMid64 :: "nat \<Rightarrow> 'f Workspace \<Rightarrow> 'f Workspace" where
  "ensureMid64 n ws = ws\<lparr>ws_mid64 := grown n (ws_mid64 ws)\<rparr>"

definition ensureL64 :: "nat \<Rightarrow> 'f Workspace \<Rightarrow> 'f Workspace" where
  "ensureL64 n ws = ws\<lparr>ws_l64 := grown n (ws_l64 ws)\<rparr>"

definition ensureR64 :: "nat \<Rightarrow> 'f Workspace \<Rightarrow> 'f Workspace" where
  "ensureR64 n ws = ws\<lparr>ws_r64 := grown n (ws_r64 ws)\<rparr>"

definition lpcScratch :: "'f float64 \<Rightarrow> nat \<Rightarrow> 'f Workspace \<Rightarrow> 'f Workspace" where
  "lpcScratch F maxBlock ws =
     (if ws_lpc ws = None \<or> ws_lpcCap ws < maxBlock
      then ws\<lparr>ws_lpc := Some (NewScratch F maxBlock 32), ws_lpcCap := maxBlock\<rparr>
      else ws)"

definition apodizationWindow :: "'f float64 \<Rightarrow> Params \<Rightarrow> nat \<Rightarrow> 'f list option" where
  "apodizationWindow F p n = (if p_MaxLPCOrder p = 0 then None else Some (TukeyWindow F n (fl_half F)))"

definition window :: "'f float64 \<Rightarrow> Params \<Rightarrow> nat \<Rightarrow> 'f Workspace \<Rightarrow> 'f list option \<times> 'f Workspace" where
  "window F p n ws =
     (case find (\<lambda>i. ws_apodN ws ! i = n \<and> ws_apodWin ws ! i \<noteq> None) [0, 1] of
        Some i \<Rightarrow> (ws_apodWin ws ! i, ws)
      | None \<Rightarrow>
          case apodizationWindow F p n of
            None \<Rightarrow> (None, ws)
          | Some w \<Rightarrow>
              let slot = (if ws_apodWin ws ! 0 \<noteq> None \<and> ws_apodN ws ! 0 \<noteq> n then 1 else 0)
              in (Some w, ws\<lparr>ws_apodN := (ws_apodN ws)[slot := n], ws_apodWin := (ws_apodWin ws)[slot := Some w]\<rparr>))"

section \<open>Wasted bits and equal samples\<close>

definition trailingZeros :: "'a::len word \<Rightarrow> nat" where
  "trailingZeros x = length (takeWhile (\<lambda>i. \<not> bit x i) [0..<LENGTH('a)])"

definition wastedBitsW :: "'a::len word list \<Rightarrow> nat" where
  "wastedBitsW s = (let orAll = foldl (OR) 0 s in if orAll = 0 then 0 else trailingZeros orAll)"

definition wastedBits :: "i32 list \<Rightarrow> nat" where
  "wastedBits = wastedBitsW"

definition wastedBits64 :: "i64 list \<Rightarrow> nat" where
  "wastedBits64 = wastedBitsW"

definition allEqualW :: "'a list \<Rightarrow> bool" where
  "allEqualW s \<longleftrightarrow> list_all (\<lambda>i. s ! i = s ! 0) [1..<length s]"

definition allEqual :: "i32 list \<Rightarrow> bool" where
  "allEqual = allEqualW"

definition allEqual64 :: "i64 list \<Rightarrow> bool" where
  "allEqual64 = allEqualW"

definition shiftRight64 :: "i64 list \<Rightarrow> nat \<Rightarrow> i64 list" where
  "shiftRight64 s wasted = (if wasted = 0 then s else map (signed_drop_bit wasted) s)"

section \<open>Choosing a predictor\<close>

record subframePlan =
  sp_kind :: nat
  sp_order :: nat
  sp_wasted :: nat
  sp_bits :: int
  sp_qcoeff :: "i32 list"
  sp_shift :: nat
  sp_cand :: nat
  sp_riceParamBits :: nat

text \<open>A plan with the fields a Go composite literal leaves out at their zero values.\<close>

definition planOf :: "nat \<Rightarrow> nat \<Rightarrow> nat \<Rightarrow> int \<Rightarrow> i32 list \<Rightarrow> nat \<Rightarrow> nat \<Rightarrow> subframePlan" where
  "planOf kind order wasted bits qcoeff shift cand =
     \<lparr>sp_kind = kind, sp_order = order, sp_wasted = wasted, sp_bits = bits, sp_qcoeff = qcoeff,
      sp_shift = shift, sp_cand = cand, sp_riceParamBits = 0\<rparr>"

definition noCoeffs :: "i32 list" where
  "noCoeffs = replicate 32 0"

definition better :: "nat \<times> int \<Rightarrow> nat \<Rightarrow> int \<Rightarrow> nat \<times> int" where
  "better best k b = (if b < snd best then (k, b) else best)"

definition estimateFixed :: "u64 list \<Rightarrow> nat \<Rightarrow> nat \<Rightarrow> nat \<times> int" where
  "estimateFixed sums n maxOrder =
     foldl (\<lambda>best k. better best k (EstimateRiceBits (2 * sums ! k) (n - k))) (0, maxInt) [0..<maxOrder + 1]"

definition chooseFixedOrder :: "'f Workspace \<Rightarrow> i32 list \<Rightarrow> Params \<Rightarrow> (nat \<times> int) \<times> 'f Workspace" where
  "chooseFixedOrder ws shifted p =
     (let n = length shifted; maxOrder = min 4 (n - 1)
      in if n = 0 then ((0, 0), ws)
         else if p_ExhaustiveFixed p then
           foldl (\<lambda>(best, ws) k.
               let (r, ws) =
                     (if k = 0 then (shifted, ws)
                      else let out = the (FixedResidualsDiff (take n (ws_costRes ws)) shifted k)
                           in (drop k out, ws\<lparr>ws_costRes := put_row 0 out (ws_costRes ws)\<rparr>));
                   (b, rice) = CostResidual r n k (p_MaxPartitionOrder p) (ws_rice ws)
               in (better best k b, ws\<lparr>ws_rice := rice\<rparr>))
             ((0, maxInt), ensureCostRes n ws) [0..<maxOrder + 1]
         else (estimateFixed (FixedAbsSums shifted) n maxOrder, ws))"

definition chooseFixedOrder64 :: "'f Workspace \<Rightarrow> i64 list \<Rightarrow> Params \<Rightarrow> (nat \<times> int) \<times> 'f Workspace" where
  "chooseFixedOrder64 ws shifted p =
     (let n = length shifted; maxOrder = min 4 (n - 1)
      in if n = 0 then ((0, 0), ws)
         else if p_ExhaustiveFixed p then
           foldl (\<lambda>(best, ws) k.
               let r = ComputeFixedResiduals64 (n - k) shifted k;
                   (b, rice) = CostResidual64 r n k (p_MaxPartitionOrder p) (ws_rice ws)
               in (better best k b, ws\<lparr>ws_costRes64 := put_row 0 r (ws_costRes64 ws), ws_rice := rice\<rparr>))
             ((0, maxInt), ensureCostRes64 n ws) [0..<maxOrder + 1]
         else (estimateFixed (FixedAbsSums64 shifted) n maxOrder, ws))"

definition chooseLPCPlan ::
  "'f float64 \<Rightarrow> 'f Workspace \<Rightarrow> i32 list \<Rightarrow> nat \<Rightarrow> Params \<Rightarrow> 'f list \<Rightarrow> (nat \<times> i32 list \<times> nat \<times> int) option \<times> 'f Workspace" where
  "chooseLPCPlan F ws shifted eff p win =
     (let n = length shifted; ws = lpcScratch F n ws
      in case AnalyzeLPC F shifted win (p_MaxLPCOrder p) (p_LPCPrecision p) eff (ws_lpc ws) noCoeffs of
           (None, sc, qc) \<Rightarrow> (None, ws\<lparr>ws_lpc := sc\<rparr>)
         | (Some (ord, sh, _), sc, qc) \<Rightarrow>
             let ws = ensureCostRes n (ws\<lparr>ws_lpc := sc\<rparr>);
                 out = LPCResidualsEncode (take n (ws_costRes ws)) shifted (take ord qc) sh;
                 ws = ws\<lparr>ws_costRes := put_row 0 out (ws_costRes ws)\<rparr>;
                 r = drop ord (take n out)
             in if p_ExhaustiveFixed p
                then case CostResidual r n ord (p_MaxPartitionOrder p) (ws_rice ws) of
                       (resBits, rice) \<Rightarrow> (Some (ord, qc, sh, resBits), ws\<lparr>ws_rice := rice\<rparr>)
                else (Some (ord, qc, sh, EstimateRiceBits (riceZigzagSum r) (n - ord)), ws))"

definition chooseLPCPlan64 ::
  "'f float64 \<Rightarrow> 'f Workspace \<Rightarrow> i64 list \<Rightarrow> nat \<Rightarrow> Params \<Rightarrow> 'f list \<Rightarrow> (nat \<times> i32 list \<times> nat \<times> int) option \<times> 'f Workspace" where
  "chooseLPCPlan64 F ws shifted eff p win =
     (let n = length shifted; ws = lpcScratch F n ws
      in case AnalyzeLPC F shifted win (p_MaxLPCOrder p) (p_LPCPrecision p) eff (ws_lpc ws) noCoeffs of
           (None, sc, qc) \<Rightarrow> (None, ws\<lparr>ws_lpc := sc\<rparr>)
         | (Some (ord, sh, _), sc, qc) \<Rightarrow>
             let ws = ensureCostRes64 (n - ord) (ws\<lparr>ws_lpc := sc\<rparr>);
                 res = ComputeLPCResiduals64 (n - ord) shifted (take ord qc) sh ord;
                 ws = ws\<lparr>ws_costRes64 := put_row 0 res (ws_costRes64 ws)\<rparr>
             in if p_ExhaustiveFixed p
                then case CostResidual64 res n ord (p_MaxPartitionOrder p) (ws_rice ws) of
                       (resBits, rice) \<Rightarrow> (Some (ord, qc, sh, resBits), ws\<lparr>ws_rice := rice\<rparr>)
                else (Some (ord, qc, sh, EstimateRiceBits (ZigzagSum64 res) (n - ord)), ws))"

definition residualsInRange :: "i64 list \<Rightarrow> bool" where
  "residualsInRange res \<longleftrightarrow> list_all (\<lambda>r. \<not> (r <s - 2147483647 \<or> 2147483647 <s r)) res"

section \<open>Planning\<close>

text \<open>
  The choice among verbatim, fixed and LPC by the estimated size: fixed and LPC have to be
  strictly smaller than the best so far.
\<close>

definition headerBits :: "nat \<Rightarrow> nat" where
  "headerBits wasted = 1 + 6 + 1 + wasted"

definition lpcBits :: "nat \<Rightarrow> nat \<Rightarrow> nat \<Rightarrow> Params \<Rightarrow> int" where
  "lpcBits hdrBits order eff p = int (hdrBits + order * eff + 4 + 5 + order * p_LPCPrecision p)"

definition pickPlan ::
  "nat \<Rightarrow> nat \<Rightarrow> nat \<Rightarrow> nat \<Rightarrow> Params \<Rightarrow> nat \<times> int \<Rightarrow> (nat \<times> i32 list \<times> nat \<times> int) option \<Rightarrow> subframePlan" where
  "pickPlan idx n wasted eff p fixd lpc =
     (let hdrBits = headerBits wasted;
          verbatimBits = int (hdrBits + n * eff);
          fixedBits = int (hdrBits + fst fixd * eff) + snd fixd;
          best = planOf 1 0 wasted verbatimBits noCoeffs 0 idx;
          best = (if fixedBits < sp_bits best then planOf 2 (fst fixd) wasted fixedBits noCoeffs 0 idx else best)
      in case lpc of
           None \<Rightarrow> best
         | Some (lOrder, qc, shift, lResBits) \<Rightarrow>
             let bits = lpcBits hdrBits lOrder eff p + lResBits
             in if bits < sp_bits best then planOf 3 lOrder wasted bits qc shift idx else best)"

definition constantPlan :: "nat \<Rightarrow> nat \<Rightarrow> subframePlan" where
  "constantPlan idx bps = planOf 0 0 0 (1 + 6 + 1 + int bps) noCoeffs 0 idx"

definition carry ::
  "nat \<Rightarrow> nat \<Rightarrow> Params \<Rightarrow> subframePlan \<Rightarrow> PartPlan list \<Rightarrow> nat \<Rightarrow> int \<Rightarrow> subframePlan" where
  "carry hdrBits eff p best plans paramBits tot =
     best\<lparr>sp_riceParamBits := paramBits,
          sp_bits := (if sp_kind best = 2 then int (hdrBits + sp_order best * eff) + tot
                      else lpcBits hdrBits (sp_order best) eff p + tot)\<rparr>"

definition planSubframe ::
  "'f float64 \<Rightarrow> 'f Workspace \<Rightarrow> nat \<Rightarrow> i32 list \<Rightarrow> nat \<Rightarrow> Params \<Rightarrow> 'f list option \<Rightarrow> subframePlan \<times> 'f Workspace" where
  "planSubframe F ws idx s bps p win =
     (if allEqual s then (constantPlan idx bps, ws)
      else
        let n = length s;
            wasted = (if wastedBits s \<ge> bps then bps - 1 else wastedBits s);
            eff = bps - wasted;
            hdrBits = headerBits wasted;
            (shifted, ws) =
              (if wasted = 0 then (s, ws)
               else let sh = map (signed_drop_bit wasted) s; ws = ensureShifted32 n ws
                    in (sh, ws\<lparr>ws_shifted32 := put_row 0 sh (ws_shifted32 ws)\<rparr>));
            (fixd, ws) = chooseFixedOrder ws shifted p;
            (lpc, ws) =
              (if p_MaxLPCOrder p > 0 \<and> win \<noteq> None then chooseLPCPlan F ws shifted eff p (the win) else (None, ws));
            best = pickPlan idx n wasted eff p fixd lpc
        in if sp_kind best = 2 \<or> sp_kind best = 3 then
             let m = n - sp_order best;
                 c = ensureRes m (ws_cand ws ! idx);
                 res = (if sp_kind best = 2 then ComputeFixedResiduals m shifted (sp_order best)
                        else take m (drop (sp_order best) (ws_costRes ws)))
             in case PlanResidualInt32 res n (sp_order best) (p_MaxPartitionOrder p) (ws_rice ws) of
                  ((_, plans, paramBits, tot), rice) \<Rightarrow>
                    (carry hdrBits eff p best plans paramBits tot,
                     ws\<lparr>ws_rice := rice, ws_cand := (ws_cand ws)[idx := c\<lparr>cs_res := put_row 0 res (cs_res c), cs_plans := plans\<rparr>]\<rparr>)
           else (best, ws))"

definition planSubframe64 ::
  "'f float64 \<Rightarrow> 'f Workspace \<Rightarrow> nat \<Rightarrow> i64 list \<Rightarrow> nat \<Rightarrow> Params \<Rightarrow> 'f list option \<Rightarrow> subframePlan \<times> 'f Workspace" where
  "planSubframe64 F ws idx s bps p win =
     (if allEqual64 s then (constantPlan idx bps, ws)
      else
        let n = length s;
            wasted = (if wastedBits64 s \<ge> bps then bps - 1 else wastedBits64 s);
            eff = bps - wasted;
            hdrBits = headerBits wasted;
            (shifted, ws) =
              (if wasted = 0 then (s, ws)
               else let sh = map (signed_drop_bit wasted) s; ws = ensureShifted64 n ws
                    in (sh, ws\<lparr>ws_shifted64 := put_row 0 sh (ws_shifted64 ws)\<rparr>));
            (fixd, ws) = chooseFixedOrder64 ws shifted p;
            (lpc, ws) =
              (if p_MaxLPCOrder p > 0 \<and> win \<noteq> None then chooseLPCPlan64 F ws shifted eff p (the win) else (None, ws));
            verbatim = planOf 1 0 wasted (int (hdrBits + n * eff)) noCoeffs 0 idx;
            best = pickPlan idx n wasted eff p fixd lpc
        in if sp_kind best = 2 \<or> sp_kind best = 3 then
             let m = n - sp_order best;
                 c = ensureRes64 m (ws_cand ws ! idx);
                 res = (if sp_kind best = 2 then ComputeFixedResiduals64 m shifted (sp_order best)
                        else take m (ws_costRes64 ws));
                 c = c\<lparr>cs_res64 := put_row 0 res (cs_res64 c)\<rparr>
             in if \<not> residualsInRange res then (verbatim, ws\<lparr>ws_cand := (ws_cand ws)[idx := c]\<rparr>)
                else
                  case PlanResidualInt64 res n (sp_order best) (p_MaxPartitionOrder p) (ws_rice ws) of
                    ((_, plans, paramBits, tot), rice) \<Rightarrow>
                      (carry hdrBits eff p best plans paramBits tot,
                       ws\<lparr>ws_rice := rice, ws_cand := (ws_cand ws)[idx := c\<lparr>cs_plans := plans\<rparr>]\<rparr>)
           else (best, ws))"

section \<open>Writing\<close>

definition writeSubframeHeader :: "nat \<Rightarrow> nat \<Rightarrow> writer \<Rightarrow> writer" where
  "writeSubframeHeader typeCode wasted bw =
     (let bw = WriteBits (of_nat typeCode) 6 (WriteBits 0 1 bw)
      in if wasted = 0 then WriteBits 0 1 bw else WriteUnary (of_nat (wasted - 1)) (WriteBits 1 1 bw))"

definition writeConstantW :: "('a::len word \<Rightarrow> i64) \<Rightarrow> 'a word \<Rightarrow> nat \<Rightarrow> nat \<Rightarrow> writer \<Rightarrow> writer" where
  "writeConstantW wide value wasted bps bw =
     WriteSignedBits (wide (signed_drop_bit wasted value)) (bps - wasted) (writeSubframeHeader 0 wasted bw)"

definition writeConstant :: "i32 \<Rightarrow> nat \<Rightarrow> nat \<Rightarrow> writer \<Rightarrow> writer" where
  "writeConstant = writeConstantW scast"

definition writeConstant64 :: "i64 \<Rightarrow> nat \<Rightarrow> nat \<Rightarrow> writer \<Rightarrow> writer" where
  "writeConstant64 = writeConstantW (\<lambda>v. v)"

definition writeSamples :: "('a::len word \<Rightarrow> i64) \<Rightarrow> 'a word list \<Rightarrow> nat \<Rightarrow> nat \<Rightarrow> writer \<Rightarrow> writer" where
  "writeSamples wide s wasted eff = fold (\<lambda>v. WriteSignedBits (wide (signed_drop_bit wasted v)) eff) s"

definition writeVerbatimW :: "('a::len word \<Rightarrow> i64) \<Rightarrow> 'a word list \<Rightarrow> nat \<Rightarrow> nat \<Rightarrow> writer \<Rightarrow> writer" where
  "writeVerbatimW wide s wasted bps bw =
     writeSamples wide s wasted (bps - wasted) (writeSubframeHeader 1 wasted bw)"

definition writeVerbatim :: "i32 list \<Rightarrow> nat \<Rightarrow> nat \<Rightarrow> writer \<Rightarrow> writer" where
  "writeVerbatim = writeVerbatimW scast"

definition writeVerbatim64 :: "i64 list \<Rightarrow> nat \<Rightarrow> nat \<Rightarrow> writer \<Rightarrow> writer" where
  "writeVerbatim64 = writeVerbatimW (\<lambda>v. v)"

definition writeFixedW ::
  "('a::len word \<Rightarrow> u64) \<Rightarrow> ('a word \<Rightarrow> i64) \<Rightarrow> (candScratch \<Rightarrow> 'a word list)
   \<Rightarrow> 'f Workspace \<Rightarrow> 'a word list \<Rightarrow> nat \<Rightarrow> subframePlan \<Rightarrow> writer \<Rightarrow> writer" where
  "writeFixedW zz wide getRes ws s bps plan bw =
     (let order = sp_order plan; eff = bps - sp_wasted plan;
          bw = writeSamples wide (take order s) (sp_wasted plan) eff (writeSubframeHeader (8 + order) (sp_wasted plan) bw);
          c = ws_cand ws ! sp_cand plan
      in snd (writePlannedWith zz wide (take (length s - order) (getRes c)) order (length s) (cs_plans c) (sp_riceParamBits plan) bw))"

definition writeFixed :: "'f Workspace \<Rightarrow> i32 list \<Rightarrow> nat \<Rightarrow> subframePlan \<Rightarrow> writer \<Rightarrow> writer" where
  "writeFixed = writeFixedW zigzag scast cs_res"

definition writeFixed64 :: "'f Workspace \<Rightarrow> i64 list \<Rightarrow> nat \<Rightarrow> subframePlan \<Rightarrow> writer \<Rightarrow> writer" where
  "writeFixed64 = writeFixedW zigzag64 (\<lambda>v. v) cs_res64"

definition writeLPCW ::
  "('a::len word \<Rightarrow> u64) \<Rightarrow> ('a word \<Rightarrow> i64) \<Rightarrow> (candScratch \<Rightarrow> 'a word list)
   \<Rightarrow> 'f Workspace \<Rightarrow> 'a word list \<Rightarrow> nat \<Rightarrow> subframePlan \<Rightarrow> nat \<Rightarrow> writer \<Rightarrow> writer" where
  "writeLPCW zz wide getRes ws s bps plan precision bw =
     (let order = sp_order plan; eff = bps - sp_wasted plan;
          bw = writeSamples wide (take order s) (sp_wasted plan) eff (writeSubframeHeader (31 + order) (sp_wasted plan) bw);
          bw = WriteSignedBits (of_nat (sp_shift plan)) 5 (WriteBits (of_nat (precision - 1)) 4 bw);
          bw = fold (\<lambda>c. WriteSignedBits (scast c) precision) (take order (sp_qcoeff plan)) bw;
          c = ws_cand ws ! sp_cand plan
      in snd (writePlannedWith zz wide (take (length s - order) (getRes c)) order (length s) (cs_plans c) (sp_riceParamBits plan) bw))"

definition writeLPC :: "'f Workspace \<Rightarrow> i32 list \<Rightarrow> nat \<Rightarrow> subframePlan \<Rightarrow> nat \<Rightarrow> writer \<Rightarrow> writer" where
  "writeLPC = writeLPCW zigzag scast cs_res"

definition writeLPC64 :: "'f Workspace \<Rightarrow> i64 list \<Rightarrow> nat \<Rightarrow> subframePlan \<Rightarrow> nat \<Rightarrow> writer \<Rightarrow> writer" where
  "writeLPC64 = writeLPCW zigzag64 (\<lambda>v. v) cs_res64"

definition writeSubframeW ::
  "('a::len word \<Rightarrow> u64) \<Rightarrow> ('a word \<Rightarrow> i64) \<Rightarrow> (candScratch \<Rightarrow> 'a word list)
   \<Rightarrow> 'f Workspace \<Rightarrow> 'a word list \<Rightarrow> nat \<Rightarrow> subframePlan \<Rightarrow> Params \<Rightarrow> writer \<Rightarrow> writer" where
  "writeSubframeW zz wide getRes ws s bps plan p bw =
     (if sp_kind plan = 0 then writeConstantW wide (s ! 0) 0 bps bw
      else if sp_kind plan = 1 then writeVerbatimW wide s (sp_wasted plan) bps bw
      else if sp_kind plan = 3 then writeLPCW zz wide getRes ws s bps plan (p_LPCPrecision p) bw
      else writeFixedW zz wide getRes ws s bps plan bw)"

definition writeSubframe :: "'f Workspace \<Rightarrow> i32 list \<Rightarrow> nat \<Rightarrow> subframePlan \<Rightarrow> Params \<Rightarrow> writer \<Rightarrow> writer" where
  "writeSubframe = writeSubframeW zigzag scast cs_res"

definition writeSubframe64 :: "'f Workspace \<Rightarrow> i64 list \<Rightarrow> nat \<Rightarrow> subframePlan \<Rightarrow> Params \<Rightarrow> writer \<Rightarrow> writer" where
  "writeSubframe64 = writeSubframeW zigzag64 (\<lambda>v. v) cs_res64"

section \<open>What a plan carries to the writer\<close>

lemma length_grown: "n \<le> length (grown n buf)"
  by (simp add: grown_def)

lemma take_put_row_0: "length row \<le> n \<Longrightarrow> take n (put_row 0 row xs) = row @ take (n - length row) (drop (length row) xs)"
  by (simp add: put_row_def)

lemma take_bit_trailingZeros: "take_bit (trailingZeros x) x = 0" for x :: "'a::len word"
proof (rule bit_word_eqI)
  fix i assume i: "i < LENGTH('a)"
  let ?P = "\<lambda>i. \<not> bit x i"
  show "bit (take_bit (trailingZeros x) x) i = bit (0 :: 'a word) i"
  proof (cases "i < trailingZeros x")
    case True
    then have "i < length (takeWhile ?P [0..<LENGTH('a)])" by (simp add: trailingZeros_def)
    then have "?P (takeWhile ?P [0..<LENGTH('a)] ! i)" by (metis nth_mem set_takeWhileD)
    then have "\<not> bit x i" using True i takeWhile_nth [of i ?P "[0..<LENGTH('a)]"] by (simp add: trailingZeros_def)
    then show ?thesis by (simp add: bit_simps)
  qed (simp add: bit_simps)
qed

lemma foldl_or_bit: "bit (foldl (OR) a xs) i \<longleftrightarrow> bit a i \<or> (\<exists>x \<in> set xs. bit x i)" for a :: "'a::len word"
  by (induction xs arbitrary: a) (auto simp: bit_simps)

lemma wastedBitsW_ok:
  fixes s :: "'a::len word list"
  assumes "x \<in> set s" "w \<le> wastedBitsW s"
  shows "take_bit w x = 0"
proof -
  define u where "u = foldl (OR) 0 s"
  have "take_bit (wastedBitsW s) u = 0"
    by (simp add: wastedBitsW_def Let_def take_bit_trailingZeros flip: u_def)
  then have "\<not> bit u i" if "i < wastedBitsW s" for i
    using that by (metis bit_0_eq bit_take_bit_iff bot_apply bot_bool_def)
  then have "\<not> bit x i" if "i < w" for i
    using that assms foldl_or_bit [of 0 s i] by (auto simp: u_def)
  then show ?thesis by (intro bit_word_eqI) (auto simp: bit_simps)
qed

lemma allEqualW_iff: "allEqualW s \<Longrightarrow> s \<noteq> [] \<Longrightarrow> s = replicate (length s) (s ! 0)"
proof (rule nth_equalityI)
  fix i assume a: "allEqualW s" "s \<noteq> []" "i < length s"
  then show "s ! i = replicate (length s) (s ! 0) ! i"
    by (cases "i = 0") (auto simp: allEqualW_def list_all_iff Suc_le_eq)
qed simp

text \<open>
  \<open>carries\<close>: the plan and the workspace together determine a subframe of the samples \<open>s\<close>: the
  wasted bits are zero in every sample, and for a predictor the candidate slot holds its
  residuals of the shifted samples with a partition plan made for them; the plan's size is
  the size of that subframe.
\<close>

definition carries ::
  "('a::len word \<Rightarrow> u64) \<Rightarrow> ('a word \<Rightarrow> i64) \<Rightarrow> (i32 list \<Rightarrow> nat \<Rightarrow> 'a word list \<Rightarrow> nat \<Rightarrow> 'a word) \<Rightarrow> (candScratch \<Rightarrow> 'a word list)
   \<Rightarrow> nat \<Rightarrow> candScratch list \<Rightarrow> 'a word list \<Rightarrow> nat \<Rightarrow> subframePlan \<Rightarrow> bool" where
  "carries zz wide lpcPred getRes precision cand s bps plan \<longleftrightarrow>
     (let n = length s; w = sp_wasted plan; eff = bps - w; sh = map (signed_drop_bit w) s;
          ord = sp_order plan; c = cand ! sp_cand plan; cs = take ord (sp_qcoeff plan);
          res = (if sp_kind plan = 2 then residuals (fixed_pred ord) ord sh else residuals (lpcPred cs (sp_shift plan)) ord sh)
      in if sp_kind plan = 0 then s = replicate n (s ! 0) \<and> sp_bits plan = 8 + int bps
         else w < bps \<and> (\<forall>x \<in> set s. take_bit w x = 0)
            \<and> (if sp_kind plan = 1 then sp_bits plan = 8 + int w + int (n * eff)
               else (\<exists>po. plan_ok zz wide res ord n (cs_plans c) (sp_riceParamBits plan) po
                        \<and> sp_bits plan = 8 + int w + int (ord * eff) + (if sp_kind plan = 2 then 0 else 9 + int (ord * precision))
                             + int (length (plan_bits zz wide res ord n (cs_plans c) (sp_riceParamBits plan) po))
                        \<and> length (plan_bits zz wide res ord n (cs_plans c) (sp_riceParamBits plan) po) \<le> 11 + 35 * length res)
                  \<and> take (n - ord) (getRes c) = res \<and> (\<forall>r \<in> set res. drop_bit 32 (zz r) = 0)
                  \<and> (sp_kind plan = 2 \<and> ord \<le> 4 \<and> ord < n
                     \<or> sp_kind plan = 3 \<and> 1 \<le> ord \<and> ord \<le> 32 \<and> ord < n \<and> length cs = ord \<and> sp_shift plan \<le> 15
                       \<and> 1 \<le> precision \<and> precision \<le> 15 \<and> (\<forall>c \<in> set cs. fits precision (sint c)))))"

lemma emits_writeSubframeHeader:
  assumes "t < 64" "w \<le> 32"
  shows "emits (writeSubframeHeader t w) (sub_header_bits t w)"
proof -
  have u: "unat (of_nat (w - 1) :: u64) = w - 1" using assms by (intro unat_of_nat_u64) simp
  have a: "emits (\<lambda>bw. WriteBits (of_nat t) 6 (WriteBits 0 1 bw)) (bits_msb 1 (0 :: u64) @ bits_msb 6 (of_nat t :: u64))"
    by (intro emits_comp emits_WriteBits) simp_all
  have b: "emits (\<lambda>bw. if w = 0 then WriteBits 0 1 bw else WriteUnary (of_nat (w - 1)) (WriteBits 1 1 bw))
      (if w = 0 then bits_msb 1 (0 :: u64) else bits_msb 1 (1 :: u64) @ replicate (w - 1) False @ [True])"
    using emits_comp [OF emits_WriteBits [of 1 1] emits_WriteUnary [of "of_nat (w - 1)"]] emits_WriteBits [of 1 0] u
    by (cases "w = 0") simp_all
  show ?thesis
    unfolding writeSubframeHeader_def Let_def sub_header_bits_def
    using emits_comp [OF a b] by (simp only: append_assoc)
qed

lemma emits_writeSamples:
  "eff \<le> 64 \<Longrightarrow> emits (writeSamples wide s w eff) (sample_bits wide eff (map (signed_drop_bit w) s))"
  unfolding writeSamples_def sample_bits_def map_map comp_def by (rule emits_fold) (rule emits_WriteSignedBits)

lemma emits_coeffs: "p \<le> 64 \<Longrightarrow> emits (fold (\<lambda>c. WriteSignedBits (scast c) p) cs) (sample_bits scast p cs)"
  unfolding sample_bits_def by (rule emits_fold) (rule emits_WriteSignedBits)

lemma emits_planned:
  assumes "plan_ok zz wide res order n plans pb po"
  shows "emits (\<lambda>bw. snd (writePlannedWith zz wide res order n plans pb bw)) (plan_bits zz wide res order n plans pb po)"
  by (rule emitsI) (rule writePlannedWith_ok(2,3) [OF assms], assumption)+

context subframe_width
begin

lemma write_constant:
  fixes x :: "'a word"
  assumes "1 \<le> bps" "bps \<le> 57" "fits bps (sint x)"
  shows "\<exists>bs. emits (writeConstantW wide x 0 bps) bs \<and> length bs = 8 + bps
    \<and> parses (decodeSubframeT restoreFixed restoreLPC inRange n bps :: ('a word list, 't) rm) bs (replicate n x)"
proof -
  have e: "emits (writeConstantW wide x 0 bps) (sub_header_bits 0 0 @ bits_msb bps (wide x))"
    unfolding writeConstantW_def using assms
    by (intro emits_comp emits_writeSubframeHeader) (simp_all add: emits_WriteSignedBits)
  have r: "parses (ReadSigned bps :: (i64, 't) rm) (bits_msb bps (wide x)) (wide x)"
    by (rule parses_ReadSigned) (use assms in \<open>simp_all add: sint_wide\<close>)
  have b: "parses (decodeBody restoreFixed restoreLPC inRange n bps (of_nat 0) :: ('a word list, 't) rm) (bits_msb bps (wide x))
      (map (signed_drop_bit 0) (replicate n x))"
    unfolding decodeBody_def by (simp, rule parses_bind_ret [OF r]) (simp add: narrow_wide parses_ret)
  from parses_subframe [OF b] e show ?thesis
    using assms by (intro exI [of _ "sub_header_bits 0 0 @ bits_msb bps (wide x)"]) (simp add: length_sub_header_bits)
qed

lemma write_verbatim:
  fixes s :: "'a word list"
  assumes "w < bps" "bps \<le> 33" "\<forall>x \<in> set s. fits bps (sint x)" "\<forall>x \<in> set s. take_bit w x = 0"
  shows "\<exists>bs. emits (writeVerbatimW wide s w bps) bs \<and> length bs = 8 + w + length s * (bps - w)
    \<and> parses (decodeSubframeT restoreFixed restoreLPC inRange (length s) bps :: ('a word list, 't) rm) bs s"
proof -
  let ?sh = "map (signed_drop_bit w) s" and ?eff = "bps - w"
  have sh: "\<forall>x \<in> set ?sh. fits ?eff (sint x)" using assms fits_signed_drop [of ?eff w] by auto
  have e: "emits (writeVerbatimW wide s w bps) (sub_header_bits 1 w @ sample_bits wide ?eff ?sh)"
    unfolding writeVerbatimW_def using assms by (intro emits_comp emits_writeSubframeHeader emits_writeSamples) simp_all
  have b: "parses (decodeBody restoreFixed restoreLPC inRange (length s) ?eff (of_nat 1) :: ('a word list, 't) rm) (sample_bits wide ?eff ?sh) ?sh"
  proof -
    have "parses (readN (length ?sh) (bindR (ReadSigned ?eff) (\<lambda>v. retR (ucast v))) :: ('a word list, 't) rm) (sample_bits wide ?eff ?sh) ?sh"
      by (rule parses_samples [OF _ sh]) (use assms(2) in simp)
    then show ?thesis by (simp add: decodeBody_def)
  qed
  from parses_subframe [OF b] e show ?thesis
    using assms by (intro exI [of _ "sub_header_bits 1 w @ sample_bits wide ?eff ?sh"])
      (simp add: length_sub_header_bits length_sample_bits)
qed

lemma write_carried:
  fixes s :: "'a word list"
  assumes c: "carries zz wide lpcPred getRes (p_LPCPrecision p) (ws_cand ws) s bps plan"
    and s: "1 \<le> bps" "bps \<le> 33" "bps \<le> LENGTH('a)" "\<forall>x \<in> set s. fits bps (sint x)" "s \<noteq> []"
  shows "\<exists>bs. emits (writeSubframeW zz wide getRes ws s bps plan p) bs \<and> int (length bs) = sp_bits plan
    \<and> parses (decodeSubframeT restoreFixed restoreLPC inRange (length s) bps :: ('a word list, 't) rm) bs s"
proof -
  define n w eff sh ord cd cs where "n = length s" and "w = sp_wasted plan" and "eff = bps - w"
    and "sh = map (signed_drop_bit w) s" and "ord = sp_order plan" and "cd = ws_cand ws ! sp_cand plan"
    and "cs = take ord (sp_qcoeff plan)"
  note defs = n_def [symmetric] w_def [symmetric] eff_def [symmetric] sh_def [symmetric] ord_def [symmetric] cd_def [symmetric] cs_def [symmetric]
  note c' = c [unfolded carries_def Let_def defs]
  have shn: "length sh = n" by (simp add: sh_def n_def)
  consider "sp_kind plan = 0" | "sp_kind plan = 1" | "sp_kind plan = 2" | "sp_kind plan = 3" using c' by (auto split: if_splits)
  then show ?thesis
  proof cases
    case 1
    then have eq: "s = replicate n (s ! 0)" "sp_bits plan = 8 + int bps" using c' by simp_all
    have "fits bps (sint (s ! 0))" using s(4,5) by simp
    from write_constant [OF s(1) _ this, of n] show ?thesis
      using s(2) eq 1 unfolding writeSubframeW_def by (auto simp: n_def [symmetric])
  next
    case 2
    then have "w < bps" "\<forall>x \<in> set s. take_bit w x = 0" "sp_bits plan = 8 + int w + int (n * eff)" using c' by simp_all
    from write_verbatim [OF this(1) s(2,4) this(2)] this(3) 2 show ?thesis
      unfolding writeSubframeW_def eff_def by (auto simp: n_def [symmetric] w_def [symmetric])
  next
    case 3
    let ?res = "residuals (fixed_pred ord) ord sh"
    obtain po where p: "plan_ok zz wide ?res ord n (cs_plans cd) (sp_riceParamBits plan) po"
        "sp_bits plan = 8 + int w + int (ord * eff) + int (length (plan_bits zz wide ?res ord n (cs_plans cd) (sp_riceParamBits plan) po))"
      and h: "w < bps" "\<forall>x \<in> set s. take_bit w x = 0" "take (n - ord) (getRes cd) = ?res" "\<forall>r \<in> set ?res. drop_bit 32 (zz r) = 0"
        "ord \<le> 4" "ord < n"
      using c' 3 by auto
    let ?pb = "plan_bits zz wide ?res ord n (cs_plans cd) (sp_riceParamBits plan) po"
    let ?bs = "sub_header_bits (8 + ord) w @ (sample_bits wide eff (take ord sh) @ ?pb)"
    have fit: "\<forall>x \<in> set sh. fits eff (sint x)" using h(1) s(4) fits_signed_drop [of eff w] by (auto simp: sh_def eff_def)
    have e: "emits (writeFixedW zz wide getRes ws s bps plan) ?bs"
      unfolding writeFixedW_def Let_def defs h(3) append_assoc [symmetric]
      using h s(2) emits_writeSamples [of eff wide "take ord s" w]
      by (intro emits_comp emits_planned [OF p(1)] emits_writeSubframeHeader) (simp_all add: sh_def take_map eff_def)
    have r: "parses (DecodeResidual (length sh) ord :: ('a word list, 't) rm) ?pb ?res"
      unfolding shn by (rule DecodeResidual_plan [OF p(1) h(4)])
    have b: "parses (decodeBody restoreFixed restoreLPC inRange n eff (of_nat (8 + ord)) :: ('a word list, 't) rm)
        (sample_bits wide eff (take ord sh) @ ?pb) sh"
      using parses_fixed_body [OF _ _ _ fit h(5) _ r] h s(2,3) by (simp add: shn eff_def del: of_nat_add)
    have "parses (decodeSubframeT restoreFixed restoreLPC inRange n bps :: ('a word list, 't) rm) ?bs s"
      using parses_subframe [OF b [unfolded sh_def]] h s(2) by (simp add: eff_def flip: sh_def)
    moreover have "int (length ?bs) = sp_bits plan"
      using p(2) h(6) by (simp add: length_sub_header_bits length_sample_bits shn)
    ultimately show ?thesis
      using e 3 unfolding writeSubframeW_def by (intro exI [of _ ?bs]) (simp add: n_def [symmetric])
  next
    case 4
    let ?res = "residuals (lpcPred cs (sp_shift plan)) ord sh" and ?pr = "p_LPCPrecision p"
    obtain po where p: "plan_ok zz wide ?res ord n (cs_plans cd) (sp_riceParamBits plan) po"
        "sp_bits plan = 8 + int w + int (ord * eff) + (9 + int (ord * ?pr)) + int (length (plan_bits zz wide ?res ord n (cs_plans cd) (sp_riceParamBits plan) po))"
      and h: "w < bps" "\<forall>x \<in> set s. take_bit w x = 0" "take (n - ord) (getRes cd) = ?res" "\<forall>r \<in> set ?res. drop_bit 32 (zz r) = 0"
        "1 \<le> ord" "ord \<le> 32" "ord < n" "length cs = ord" and q: "1 \<le> ?pr" "?pr \<le> 15" "sp_shift plan \<le> 15" "\<forall>c \<in> set cs. fits ?pr (sint c)"
      using c' 4 by auto
    let ?pb = "plan_bits zz wide ?res ord n (cs_plans cd) (sp_riceParamBits plan) po"
    let ?bs = "sub_header_bits (31 + ord) w @ (sample_bits wide eff (take ord sh) @ lpc_params_bits ?pr (sp_shift plan) cs @ ?pb)"
    have fit: "\<forall>x \<in> set sh. fits eff (sint x)" using h(1) s(4) fits_signed_drop [of eff w] by (auto simp: sh_def eff_def)
    have e: "emits (writeLPCW zz wide getRes ws s bps plan ?pr) ?bs"
      unfolding writeLPCW_def Let_def defs h(3) lpc_params_bits_def append_assoc [symmetric]
      using h q s(2) emits_writeSamples [of eff wide "take ord s" w]
      by (intro emits_comp emits_planned [OF p(1)] emits_writeSubframeHeader emits_WriteBits emits_WriteSignedBits emits_coeffs)
        (simp_all add: sh_def take_map eff_def)
    have r: "parses (DecodeResidual (length sh) (length cs) :: ('a word list, 't) rm) ?pb (residuals (lpcPred cs (sp_shift plan)) (length cs) sh)"
      unfolding shn h(8) by (rule DecodeResidual_plan [OF p(1) h(4)])
    have b: "parses (decodeBody restoreFixed restoreLPC inRange n eff (of_nat (31 + ord)) :: ('a word list, 't) rm)
        (sample_bits wide eff (take ord sh) @ lpc_params_bits ?pr (sp_shift plan) cs @ ?pb) sh"
      using parses_lpc_body [OF _ _ _ fit _ _ _ q r] h s(2,3) by (simp add: shn eff_def del: of_nat_add)
    have "parses (decodeSubframeT restoreFixed restoreLPC inRange n bps :: ('a word list, 't) rm) ?bs s"
      using parses_subframe [OF b [unfolded sh_def]] h s(2) by (simp add: eff_def flip: sh_def)
    moreover have "int (length ?bs) = sp_bits plan"
      using p(2) h(7,8) by (simp add: length_sub_header_bits length_sample_bits length_lpc_params_bits shn)
    ultimately show ?thesis
      using e 4 unfolding writeSubframeW_def by (intro exI [of _ ?bs]) (simp add: n_def [symmetric])
  qed
qed

end

text \<open>A subframe of at most 33-bit samples costs at most 35 bits a sample, and 540 bits more.\<close>

lemma carries_bits:
  assumes "carries zz wide lpcPred getRes precision cand s bps plan" "bps \<le> 33"
  shows "sp_bits plan \<le> 35 * int (length s) + 540"
proof -
  let ?n = "length s" and ?w = "sp_wasted plan" and ?o = "sp_order plan"
  show ?thesis
  proof (cases "sp_kind plan = 0 \<or> sp_kind plan = 1")
    case True
    have "?n * (bps - ?w) \<le> ?n * 33" using assms(2) by (intro mult_le_mono2) simp
    moreover have "sp_bits plan = 8 + int bps \<or> ?w < bps \<and> sp_bits plan = 8 + int ?w + int (?n * (bps - ?w))"
      using assms(1) True unfolding carries_def Let_def by (auto split: if_splits)
    ultimately show ?thesis using assms(2) by (elim disjE) linarith+
  next
    case False
    obtain b where b: "?w < bps" "?o \<le> 32" "?o < ?n" "b \<le> 11 + 35 * (?n - ?o)"
        "sp_bits plan = 8 + int ?w + int (?o * (bps - ?w)) + (if sp_kind plan = 2 then 0 else 9 + int (?o * precision)) + int b"
        "sp_kind plan = 2 \<or> precision \<le> 15"
      using assms(1) False unfolding carries_def Let_def by (cases "sp_kind plan = 2") auto
    have "?o * (bps - ?w) \<le> ?o * 33" using assms(2) by (intro mult_le_mono2) simp
    moreover have "(if sp_kind plan = 2 then 0 else 9 + int (?o * precision)) \<le> 489"
      using b(6) mult_le_mono [OF b(2), of precision 15] by (auto simp del: of_nat_mult)
    ultimately show ?thesis using b(1-5) assms(2) by linarith
  qed
qed

section \<open>Every plan carries its subframe\<close>

lemma planOf_simps [simp]:
  "sp_kind (planOf kind order wasted bits qcoeff shift cand) = kind"
  "sp_order (planOf kind order wasted bits qcoeff shift cand) = order"
  "sp_wasted (planOf kind order wasted bits qcoeff shift cand) = wasted"
  "sp_bits (planOf kind order wasted bits qcoeff shift cand) = bits"
  "sp_qcoeff (planOf kind order wasted bits qcoeff shift cand) = qcoeff"
  "sp_shift (planOf kind order wasted bits qcoeff shift cand) = shift"
  "sp_cand (planOf kind order wasted bits qcoeff shift cand) = cand"
  by (simp_all add: planOf_def)

lemma carry_simps [simp]:
  "sp_kind (carry h eff p best plans pb t) = sp_kind best" "sp_order (carry h eff p best plans pb t) = sp_order best"
  "sp_wasted (carry h eff p best plans pb t) = sp_wasted best" "sp_qcoeff (carry h eff p best plans pb t) = sp_qcoeff best"
  "sp_shift (carry h eff p best plans pb t) = sp_shift best" "sp_cand (carry h eff p best plans pb t) = sp_cand best"
  "sp_riceParamBits (carry h eff p best plans pb t) = pb"
  by (simp_all add: carry_def)

lemma pickPlan_cases:
  assumes "pickPlan idx n w eff p fixd lpc = best"
  shows "sp_wasted best = w" "sp_cand best = idx"
    and "sp_kind best = 1 \<and> sp_bits best = 8 + int w + int (n * eff)
       \<or> sp_kind best = 2 \<and> sp_order best = fst fixd
       \<or> sp_kind best = 3 \<and> (\<exists>rb. lpc = Some (sp_order best, sp_qcoeff best, sp_shift best, rb))"
proof -
  obtain ord qc sh rb where l: "lpc = None \<or> lpc = Some (ord, qc, sh, rb)" by (cases lpc) auto
  then show "sp_wasted best = w" "sp_cand best = idx"
    "sp_kind best = 1 \<and> sp_bits best = 8 + int w + int (n * eff)
       \<or> sp_kind best = 2 \<and> sp_order best = fst fixd
       \<or> sp_kind best = 3 \<and> (\<exists>rb. lpc = Some (sp_order best, sp_qcoeff best, sp_shift best, rb))"
    using assms by (auto simp: pickPlan_def Let_def headerBits_def split: if_splits)
qed

lemma fst_better: "fst best \<le> m \<Longrightarrow> k \<le> m \<Longrightarrow> fst (better best k b) \<le> m"
  by (simp add: better_def)

lemma estimateFixed_le: "fst (estimateFixed sums n m) \<le> m"
  unfolding estimateFixed_def
  by (rule foldl_upt_inv [where I = "\<lambda>_ best. fst best \<le> m"]) (auto intro: fst_better)

lemma chooseFixedOrder_ok:
  assumes "chooseFixedOrder ws s p = (fixd, ws')" "s \<noteq> []"
  shows "fst fixd \<le> 4" "fst fixd < length s" "ws_cand ws' = ws_cand ws"
proof -
  let ?m = "min 4 (length s - 1)"
  have "fst fixd \<le> ?m \<and> ws_cand ws' = ws_cand ws"
  proof (cases "p_ExhaustiveFixed p")
    case True
    define f where "f = (\<lambda>(best, ws :: 'a Workspace) k.
               let (r, ws) =
                     (if k = 0 then (s, ws)
                      else let out = the (FixedResidualsDiff (take (length s) (ws_costRes ws)) s k)
                           in (drop k out, ws\<lparr>ws_costRes := put_row 0 out (ws_costRes ws)\<rparr>));
                   (b, rice) = CostResidual r (length s) k (p_MaxPartitionOrder p) (ws_rice ws)
               in (better best k b, ws\<lparr>ws_rice := rice\<rparr>))"
    have "fst (fst (foldl f ((0, maxInt), ensureCostRes (length s) ws) [0..<?m + 1])) \<le> ?m
        \<and> ws_cand (snd (foldl f ((0, maxInt), ensureCostRes (length s) ws) [0..<?m + 1])) = ws_cand ws"
      by (rule foldl_upt_inv [where I = "\<lambda>_ st. fst (fst st) \<le> ?m \<and> ws_cand (snd st) = ws_cand ws"])
        (auto simp: ensureCostRes_def f_def Let_def better_def split: prod.splits if_splits)
    then show ?thesis using assms True by (simp add: chooseFixedOrder_def Let_def f_def del: upt_Suc)
  next
    case False
    then show ?thesis using assms estimateFixed_le [of "FixedAbsSums s" "length s" ?m] by (auto simp: chooseFixedOrder_def Let_def)
  qed
  then show "fst fixd \<le> 4" "fst fixd < length s" "ws_cand ws' = ws_cand ws"
    using assms(2) by (auto simp: min_def neq_Nil_conv split: if_splits)
qed

lemma chooseFixedOrder64_ok:
  assumes "chooseFixedOrder64 ws s p = (fixd, ws')" "s \<noteq> []"
  shows "fst fixd \<le> 4" "fst fixd < length s" "ws_cand ws' = ws_cand ws"
proof -
  let ?m = "min 4 (length s - 1)"
  have "fst fixd \<le> ?m \<and> ws_cand ws' = ws_cand ws"
  proof (cases "p_ExhaustiveFixed p")
    case True
    define f where "f = (\<lambda>(best, ws :: 'a Workspace) k.
               let r = ComputeFixedResiduals64 (length s - k) s k;
                   (b, rice) = CostResidual64 r (length s) k (p_MaxPartitionOrder p) (ws_rice ws)
               in (better best k b, ws\<lparr>ws_costRes64 := put_row 0 r (ws_costRes64 ws), ws_rice := rice\<rparr>))"
    have "fst (fst (foldl f ((0, maxInt), ensureCostRes64 (length s) ws) [0..<?m + 1])) \<le> ?m
        \<and> ws_cand (snd (foldl f ((0, maxInt), ensureCostRes64 (length s) ws) [0..<?m + 1])) = ws_cand ws"
      by (rule foldl_upt_inv [where I = "\<lambda>_ st. fst (fst st) \<le> ?m \<and> ws_cand (snd st) = ws_cand ws"])
        (auto simp: ensureCostRes64_def f_def Let_def better_def split: prod.splits if_splits)
    then show ?thesis using assms True by (simp add: chooseFixedOrder64_def Let_def f_def del: upt_Suc)
  next
    case False
    then show ?thesis using assms estimateFixed_le [of "FixedAbsSums64 s" "length s" ?m] by (auto simp: chooseFixedOrder64_def Let_def)
  qed
  then show "fst fixd \<le> 4" "fst fixd < length s" "ws_cand ws' = ws_cand ws"
    using assms(2) by (auto simp: min_def neq_Nil_conv split: if_splits)
qed

lemma cand_lpcScratch [simp]: "ws_cand (lpcScratch F n ws) = ws_cand ws"
  by (simp add: lpcScratch_def)

text \<open>What the analysis promises of an accepted predictor, and where its residuals are left.\<close>

definition lpc_choice :: "Params \<Rightarrow> nat \<Rightarrow> (nat \<times> i32 list \<times> nat \<times> int) option \<Rightarrow> (nat \<Rightarrow> i32 list \<Rightarrow> nat \<Rightarrow> bool) \<Rightarrow> bool" where
  "lpc_choice p n r left \<longleftrightarrow>
     (\<forall>ord qc sh rb. r = Some (ord, qc, sh, rb) \<longrightarrow>
        1 \<le> ord \<and> ord \<le> 32 \<and> ord < n \<and> length (take ord qc) = ord \<and> sh \<le> 15 \<and> 1 \<le> p_LPCPrecision p \<and> p_LPCPrecision p \<le> 15
      \<and> (\<forall>c \<in> set (take ord qc). fits (p_LPCPrecision p) (sint c)) \<and> left ord (take ord qc) sh)"

lemma lpc_choice_None [simp]: "lpc_choice p n None left"
  by (simp add: lpc_choice_def)

lemma lpc_choice_Some:
  assumes F: "float64_laws F" and A: "AnalyzeLPC F s win (p_MaxLPCOrder p) (p_LPCPrecision p) eff sc q0 = (Some (ord, sh, qn), sc', qc)"
    and "left ord (take ord qc) sh"
  shows "lpc_choice p (length s) (Some (ord, qc, sh, rb)) left"
  using AnalyzeLPC_ok [OF F A] assms(3) by (simp add: lpc_choice_def)

lemma chooseLPCPlan_ok:
  assumes F: "float64_laws F" and C: "chooseLPCPlan F ws s eff p win = (r, ws')"
  shows "ws_cand ws' = ws_cand ws"
    "lpc_choice p (length s) r (\<lambda>ord cs sh. take (length s - ord) (drop ord (ws_costRes ws')) = residuals (lpc_pred cs sh) ord s)"
proof -
  let ?n = "length s" and ?ws = "lpcScratch F (length s) ws"
  obtain a sc qc where A: "AnalyzeLPC F s win (p_MaxLPCOrder p) (p_LPCPrecision p) eff (ws_lpc ?ws) noCoeffs = (a, sc, qc)"
    by (metis prod_cases3)
  have "ws_cand ws' = ws_cand ws
    \<and> lpc_choice p ?n r (\<lambda>ord cs sh. take (?n - ord) (drop ord (ws_costRes ws')) = residuals (lpc_pred cs sh) ord s)"
  proof (cases a)
    case None
    then show ?thesis using C A by (auto simp: chooseLPCPlan_def Let_def)
  next
    case (Some t)
    obtain ord sh qn where t: "t = (ord, sh, qn)" by (cases t)
    note A' = A [unfolded Some t]
    note ok = AnalyzeLPC_ok [OF F A']
    define buf where "buf = grown ?n (ws_costRes ?ws)"
    define out where "out = LPCResidualsEncode (take ?n buf) s (take ord qc) sh"
    have len: "length (take ord qc) = ord" "length (take ?n buf) = ?n" using ok(7) length_grown [of ?n "ws_costRes ?ws"] by (simp_all add: buf_def)
    have "take ord qc \<noteq> []" using len(1) ok(1) by auto
    then have out: "out = take ord s @ residuals (lpc_pred (take ord qc) sh) ord s"
      unfolding out_def using LPCResidualsEncode_eq [of "take ord qc" "take ?n buf" s sh] len ok by simp
    have left: "take (?n - ord) (drop ord (put_row 0 out buf)) = residuals (lpc_pred (take ord qc) sh) ord s"
      using ok(3) by (simp add: put_row_def out)
    obtain rb ws2 where r: "r = Some (ord, qc, sh, rb)" "ws_cand ws' = ws_cand ws" "ws_costRes ws' = put_row 0 out buf"
      using C A' by (auto simp: chooseLPCPlan_def Let_def ensureCostRes_def buf_def out_def split: if_splits prod.splits)
    then show ?thesis using lpc_choice_Some [OF F A'] left by simp
  qed
  then show "ws_cand ws' = ws_cand ws"
    "lpc_choice p (length s) r (\<lambda>ord cs sh. take (length s - ord) (drop ord (ws_costRes ws')) = residuals (lpc_pred cs sh) ord s)"
    by blast+
qed

lemma chooseLPCPlan64_ok:
  assumes F: "float64_laws F" and C: "chooseLPCPlan64 F ws s eff p win = (r, ws')"
  shows "ws_cand ws' = ws_cand ws"
    "lpc_choice p (length s) r (\<lambda>ord cs sh. take (length s - ord) (ws_costRes64 ws') = residuals (lpc_pred64 cs sh) ord s)"
proof -
  let ?n = "length s" and ?ws = "lpcScratch F (length s) ws"
  obtain a sc qc where A: "AnalyzeLPC F s win (p_MaxLPCOrder p) (p_LPCPrecision p) eff (ws_lpc ?ws) noCoeffs = (a, sc, qc)"
    by (metis prod_cases3)
  have "ws_cand ws' = ws_cand ws
    \<and> lpc_choice p ?n r (\<lambda>ord cs sh. take (?n - ord) (ws_costRes64 ws') = residuals (lpc_pred64 cs sh) ord s)"
  proof (cases a)
    case None
    then show ?thesis using C A by (auto simp: chooseLPCPlan64_def Let_def)
  next
    case (Some t)
    obtain ord sh qn where t: "t = (ord, sh, qn)" by (cases t)
    note A' = A [unfolded Some t]
    note ok = AnalyzeLPC_ok [OF F A']
    define buf where "buf = grown (?n - ord) (ws_costRes64 ?ws)"
    define out where "out = ComputeLPCResiduals64 (?n - ord) s (take ord qc) sh ord"
    have len: "length (take ord qc) = ord" using ok(7) by simp
    have out: "out = residuals (lpc_pred64 (take ord qc) sh) ord s"
      unfolding out_def using ComputeLPCResiduals64_eq [of "?n - ord" s "take ord qc" sh] len by simp
    have left: "take (?n - ord) (put_row 0 out buf) = residuals (lpc_pred64 (take ord qc) sh) ord s"
      by (simp add: put_row_def out)
    obtain rb where r: "r = Some (ord, qc, sh, rb)" "ws_cand ws' = ws_cand ws" "ws_costRes64 ws' = put_row 0 out buf"
      using C A' by (auto simp: chooseLPCPlan64_def Let_def ensureCostRes64_def buf_def out_def split: if_splits prod.splits)
    then show ?thesis using lpc_choice_Some [OF F A'] left by simp
  qed
  then show "ws_cand ws' = ws_cand ws"
    "lpc_choice p (length s) r (\<lambda>ord cs sh. take (length s - ord) (ws_costRes64 ws') = residuals (lpc_pred64 cs sh) ord s)"
    by blast+
qed

lemma signed_drop_bit_by_0: "signed_drop_bit 0 x = x" for x :: "'a::len word"
  by (rule bit_word_eqI) (auto simp: bit_simps)

lemma carries_constant: "s = replicate (length s) (s ! 0) \<Longrightarrow> carries zz wide lpcPred getRes pr cand s bps (constantPlan idx bps)"
  unfolding carries_def constantPlan_def Let_def by simp

lemma carries_verbatim:
  assumes "w < bps" "\<forall>x \<in> set s. take_bit w x = 0" "sp_kind plan = 1" "sp_wasted plan = w"
    "sp_bits plan = 8 + int w + int (length s * (bps - w))"
  shows "carries zz wide lpcPred getRes pr cand s bps plan"
  using assms unfolding carries_def Let_def by simp

lemma carries_fixed:
  assumes "w < bps" "\<forall>x \<in> set s. take_bit w x = 0" "sp_kind best = 2" "sp_wasted best = w" "sp_order best = ord" "ord \<le> 4" "ord < length s"
    and res: "res = residuals (fixed_pred ord) ord (map (signed_drop_bit w) s)" "\<forall>r \<in> set res. drop_bit 32 (zz r) = 0"
    and pl: "planned zz wide res (length s) ord (po, plans, pb, tot)"
    and c: "cand ! sp_cand best = c" "cs_plans c = plans" "take (length s - ord) (getRes c) = res"
  shows "carries zz wide lpcPred getRes pr cand s bps (carry (headerBits w) (bps - w) p best plans pb tot)"
  using assms unfolding carries_def Let_def planned_def
  by (auto simp: carry_def headerBits_def intro!: exI [of _ po])

lemma carries_lpc:
  assumes "w < bps" "\<forall>x \<in> set s. take_bit w x = 0" "sp_kind best = 3" "sp_wasted best = w"
    and ch: "lpc_choice p (length s) (Some (sp_order best, sp_qcoeff best, sp_shift best, rb)) left"
    and res: "res = residuals (lpcPred (take (sp_order best) (sp_qcoeff best)) (sp_shift best)) (sp_order best) (map (signed_drop_bit w) s)"
      "\<forall>r \<in> set res. drop_bit 32 (zz r) = 0"
    and pl: "planned zz wide res (length s) (sp_order best) (po, plans, pb, tot)"
    and c: "cand ! sp_cand best = c" "cs_plans c = plans" "take (length s - sp_order best) (getRes c) = res"
  shows "carries zz wide lpcPred getRes (p_LPCPrecision p) cand s bps (carry (headerBits w) (bps - w) p best plans pb tot)"
proof -
  have b: "sp_bits (carry (headerBits w) (bps - w) p best plans pb tot) =
      8 + int w + int (sp_order best * (bps - w)) + (9 + int (sp_order best * p_LPCPrecision p)) + tot"
    using assms(3) by (simp add: carry_def headerBits_def lpcBits_def)
  show ?thesis
    using assms unfolding carries_def Let_def planned_def lpc_choice_def carry_simps b
    by (auto intro!: exI [of _ po])
qed

lemma wasted_ok:
  fixes s :: "'a::len word list"
  assumes "w = (if wastedBitsW s \<ge> bps then bps - 1 else wastedBitsW s)" "1 \<le> bps"
  shows "w < bps" "\<forall>x \<in> set s. take_bit w x = 0"
  using assms wastedBitsW_ok [of _ s w] by auto

lemma put_row_prefix: "length row = n \<Longrightarrow> take n (put_row 0 row xs) = row"
  by (simp add: put_row_def)

lemma planned_prod:
  assumes "planned zz wide res n k (fst (plan, sc))" "plan = (po, plans, pb, tot)"
  shows "planned zz wide res n k (po, plans, pb, tot)"
  using assms by simp

lemma planSubframe_ok:
  assumes F: "float64_laws F" and P: "planSubframe F ws idx s bps p win = (plan, ws')"
    and s: "s \<noteq> []" "length s \<le> 65535" "1 \<le> bps" and idx: "idx < length (ws_cand ws)"
  shows "carries zigzag scast lpc_pred cs_res (p_LPCPrecision p) (ws_cand ws') s bps plan"
    "sp_cand plan = idx" "\<exists>c. ws_cand ws' = (ws_cand ws)[idx := c]"
proof -
  have "carries zigzag scast lpc_pred cs_res (p_LPCPrecision p) (ws_cand ws') s bps plan
    \<and> sp_cand plan = idx \<and> (\<exists>c. ws_cand ws' = (ws_cand ws)[idx := c])"
  proof (cases "allEqual s")
    case True
    then show ?thesis using P s(1) allEqualW_iff [of s] carries_constant [of s]
      by (auto simp: planSubframe_def allEqual_def constantPlan_def intro!: exI [of _ "ws_cand ws ! idx"])
  next
    case False
    define n w where "n = length s" and "w = (if wastedBits s \<ge> bps then bps - 1 else wastedBits s)"
    define sh where "sh = map (signed_drop_bit w) s"
    note w = wasted_ok [OF w_def [unfolded wastedBits_def] s(3)]
    have shs: "w = 0 \<Longrightarrow> sh = s" by (simp add: sh_def map_idI signed_drop_bit_by_0)
    have n: "length sh = n" "0 < n" "n \<le> 65535" "sh \<noteq> []" using s by (auto simp: sh_def n_def)
    define ws1 where "ws1 = (if w = 0 then ws else (ensureShifted32 n ws)\<lparr>ws_shifted32 := put_row 0 sh (ws_shifted32 (ensureShifted32 n ws))\<rparr>)"
    have shift: "(if w = 0 then (s, ws)
               else let sh = map (signed_drop_bit w) s; ws = ensureShifted32 n ws
                    in (sh, ws\<lparr>ws_shifted32 := put_row 0 sh (ws_shifted32 ws)\<rparr>)) = (sh, ws1)"
      by (simp add: ws1_def Let_def shs flip: sh_def)
    have c1: "ws_cand ws1 = ws_cand ws" by (simp add: ws1_def ensureShifted32_def)
    obtain fixd ws2 where fx: "chooseFixedOrder ws1 sh p = (fixd, ws2)" by fastforce
    note fx' = chooseFixedOrder_ok [OF fx n(4)]
    obtain lpc ws3 where lp: "(if p_MaxLPCOrder p > 0 \<and> win \<noteq> None then chooseLPCPlan F ws2 sh (bps - w) p (the win) else (None, ws2)) = (lpc, ws3)"
      by fastforce
    have lp': "ws_cand ws3 = ws_cand ws2"
        "lpc_choice p n lpc (\<lambda>ord cs k. take (n - ord) (drop ord (ws_costRes ws3)) = residuals (lpc_pred cs k) ord sh)"
      using chooseLPCPlan_ok [OF F, of ws2 sh "bps - w" p "the win" lpc ws3] lp n(1) by (auto split: if_splits)
    have c3: "ws_cand ws3 = ws_cand ws" using c1 fx'(3) lp'(1) by simp
    define best where "best = pickPlan idx n w (bps - w) p fixd lpc"
    note pk = pickPlan_cases [OF best_def [symmetric]]
    define m where "m = n - sp_order best"
    define cd where "cd = ensureRes m (ws_cand ws3 ! idx)"
    define res where "res = (if sp_kind best = 2 then ComputeFixedResiduals m sh (sp_order best)
                             else take m (drop (sp_order best) (ws_costRes ws3)))"
    obtain po plans pb tot rice where R: "PlanResidualInt32 res n (sp_order best) (p_MaxPartitionOrder p) (ws_rice ws3) = ((po, plans, pb, tot), rice)"
      by (metis prod_cases4 surj_pair)
    have eq: "planSubframe F ws idx s bps p win =
        (if sp_kind best = 2 \<or> sp_kind best = 3
         then (carry (headerBits w) (bps - w) p best plans pb tot,
               ws3\<lparr>ws_rice := rice, ws_cand := (ws_cand ws3)[idx := cd\<lparr>cs_res := put_row 0 res (cs_res cd), cs_plans := plans\<rparr>]\<rparr>)
         else (best, ws3))"
      unfolding planSubframe_def Let_def n_def [symmetric] w_def [symmetric] if_not_P [OF False] shift [unfolded Let_def] prod.case fx lp
        best_def [symmetric] m_def [symmetric] cd_def [symmetric] res_def [symmetric] R ..
    have slot: "(ws_cand ws3)[idx := c] ! idx = c" for c using idx c3 by simp
    consider "sp_kind best = 1" "sp_bits best = 8 + int w + int (n * (bps - w))" | "sp_kind best = 2" "sp_order best = fst fixd"
      | rb where "sp_kind best = 3" "lpc = Some (sp_order best, sp_qcoeff best, sp_shift best, rb)"
      using pk(3) by blast
    then show ?thesis
    proof cases
      case 1
      then show ?thesis using P eq carries_verbatim [OF w 1(1) pk(1)] pk(2) c3
        by (auto simp: n_def intro!: exI [of _ "ws_cand ws ! idx"])
    next
      case 2
      have o: "sp_order best \<le> 4" "sp_order best < n" using fx' 2 n(1) by simp_all
      have r: "res = residuals (fixed_pred (sp_order best)) (sp_order best) sh"
        using 2 o n(1) by (simp add: res_def m_def ComputeFixedResiduals_eq)
      have len: "length res = n - sp_order best" by (simp add: r n(1))
      have pl: "planned zigzag scast res n (sp_order best) (po, plans, pb, tot)"
        using PlanResidualInt32_planned [of "sp_order best" n res "p_MaxPartitionOrder p" "ws_rice ws3"] o n len R by simp
      have "carries zigzag scast lpc_pred cs_res (p_LPCPrecision p)
          ((ws_cand ws3)[idx := cd\<lparr>cs_res := put_row 0 res (cs_res cd), cs_plans := plans\<rparr>]) s bps
          (carry (headerBits w) (bps - w) p best plans pb tot)"
        by (rule carries_fixed [OF w 2(1) pk(1) refl o(1) _ r [unfolded sh_def] _ pl [unfolded n_def]])
          (use o len slot pk(2) zigzag_less in \<open>auto simp: n_def put_row_prefix\<close>)
      then show ?thesis using P eq 2(1) pk(2) c3 by auto
    next
      case 3
      note ch = lp'(2) [unfolded 3(2)]
      have o: "1 \<le> sp_order best" "sp_order best < n" using ch by (auto simp: lpc_choice_def)
      have r: "res = residuals (lpc_pred (take (sp_order best) (sp_qcoeff best)) (sp_shift best)) (sp_order best) sh"
        using ch 3(1) by (simp add: res_def m_def lpc_choice_def)
      have len: "length res = n - sp_order best" by (simp add: r n(1))
      have pl: "planned zigzag scast res n (sp_order best) (po, plans, pb, tot)"
        using PlanResidualInt32_planned [of "sp_order best" n res "p_MaxPartitionOrder p" "ws_rice ws3"] o n len R by simp
      have "carries zigzag scast lpc_pred cs_res (p_LPCPrecision p)
          ((ws_cand ws3)[idx := cd\<lparr>cs_res := put_row 0 res (cs_res cd), cs_plans := plans\<rparr>]) s bps
          (carry (headerBits w) (bps - w) p best plans pb tot)"
        by (rule carries_lpc [where lpcPred = lpc_pred, OF w 3(1) pk(1) ch [unfolded n_def] r [unfolded sh_def] _ pl [unfolded n_def]])
          (use o len slot pk(2) zigzag_less in \<open>auto simp: n_def put_row_prefix\<close>)
      then show ?thesis using P eq 3(1) pk(2) c3 by auto
    qed
  qed
  then show "carries zigzag scast lpc_pred cs_res (p_LPCPrecision p) (ws_cand ws') s bps plan"
    "sp_cand plan = idx" "\<exists>c. ws_cand ws' = (ws_cand ws)[idx := c]" by blast+
qed

lemma residualsInRange_zigzag: "residualsInRange res \<Longrightarrow> r \<in> set res \<Longrightarrow> unat (zigzag64 r) < 2 ^ 32"
proof -
  assume "residualsInRange res" "r \<in> set res"
  then have r: "- 2147483647 \<le> sint r" "sint r \<le> 2147483647"
    by (auto simp: residualsInRange_def list_all_iff word_sless_alt)
  then have "zz_int (sint r) < 2 ^ 32" by (simp add: zz_int_def)
  moreover have "int (unat (zigzag64 r)) = zz_int (sint r)" by (simp only: uint_zigzag64 flip: uint_nat)
  ultimately have "int (unat (zigzag64 r)) < int (2 ^ 32)" by simp
  then show ?thesis by (simp only: of_nat_less_iff)
qed

lemma planSubframe64_ok:
  assumes F: "float64_laws F" and P: "planSubframe64 F ws idx s bps p win = (plan, ws')"
    and s: "s \<noteq> []" "length s \<le> 65535" "1 \<le> bps" and idx: "idx < length (ws_cand ws)"
  shows "carries zigzag64 (\<lambda>r. r) lpc_pred64 cs_res64 (p_LPCPrecision p) (ws_cand ws') s bps plan"
    "sp_cand plan = idx" "\<exists>c. ws_cand ws' = (ws_cand ws)[idx := c]"
proof -
  have "carries zigzag64 (\<lambda>r. r) lpc_pred64 cs_res64 (p_LPCPrecision p) (ws_cand ws') s bps plan
    \<and> sp_cand plan = idx \<and> (\<exists>c. ws_cand ws' = (ws_cand ws)[idx := c])"
  proof (cases "allEqual64 s")
    case True
    then show ?thesis using P s(1) allEqualW_iff [of s] carries_constant [of s]
      by (auto simp: planSubframe64_def allEqual64_def constantPlan_def intro!: exI [of _ "ws_cand ws ! idx"])
  next
    case False
    define n w where "n = length s" and "w = (if wastedBits64 s \<ge> bps then bps - 1 else wastedBits64 s)"
    define sh where "sh = map (signed_drop_bit w) s"
    note w = wasted_ok [OF w_def [unfolded wastedBits64_def] s(3)]
    have shs: "w = 0 \<Longrightarrow> sh = s" by (simp add: sh_def map_idI signed_drop_bit_by_0)
    have n: "length sh = n" "0 < n" "n \<le> 65535" "sh \<noteq> []" using s by (auto simp: sh_def n_def)
    define ws1 where "ws1 = (if w = 0 then ws else (ensureShifted64 n ws)\<lparr>ws_shifted64 := put_row 0 sh (ws_shifted64 (ensureShifted64 n ws))\<rparr>)"
    have shift: "(if w = 0 then (s, ws)
               else let sh = map (signed_drop_bit w) s; ws = ensureShifted64 n ws
                    in (sh, ws\<lparr>ws_shifted64 := put_row 0 sh (ws_shifted64 ws)\<rparr>)) = (sh, ws1)"
      by (simp add: ws1_def Let_def shs flip: sh_def)
    have c1: "ws_cand ws1 = ws_cand ws" by (simp add: ws1_def ensureShifted64_def)
    obtain fixd ws2 where fx: "chooseFixedOrder64 ws1 sh p = (fixd, ws2)" by fastforce
    note fx' = chooseFixedOrder64_ok [OF fx n(4)]
    obtain lpc ws3 where lp: "(if p_MaxLPCOrder p > 0 \<and> win \<noteq> None then chooseLPCPlan64 F ws2 sh (bps - w) p (the win) else (None, ws2)) = (lpc, ws3)"
      by fastforce
    have lp': "ws_cand ws3 = ws_cand ws2"
        "lpc_choice p n lpc (\<lambda>ord cs k. take (n - ord) (ws_costRes64 ws3) = residuals (lpc_pred64 cs k) ord sh)"
      using chooseLPCPlan64_ok [OF F, of ws2 sh "bps - w" p "the win" lpc ws3] lp n(1) by (auto split: if_splits)
    have c3: "ws_cand ws3 = ws_cand ws" using c1 fx'(3) lp'(1) by simp
    define best where "best = pickPlan idx n w (bps - w) p fixd lpc"
    note pk = pickPlan_cases [OF best_def [symmetric]]
    define m where "m = n - sp_order best"
    define res where "res = (if sp_kind best = 2 then ComputeFixedResiduals64 m sh (sp_order best) else take m (ws_costRes64 ws3))"
    define cd where "cd = (ensureRes64 m (ws_cand ws3 ! idx))\<lparr>cs_res64 := put_row 0 res (cs_res64 (ensureRes64 m (ws_cand ws3 ! idx)))\<rparr>"
    obtain po plans pb tot rice where R: "PlanResidualInt64 res n (sp_order best) (p_MaxPartitionOrder p) (ws_rice ws3) = ((po, plans, pb, tot), rice)"
      by (metis prod_cases4 surj_pair)
    have eq: "planSubframe64 F ws idx s bps p win =
        (if sp_kind best = 2 \<or> sp_kind best = 3
         then if \<not> residualsInRange res
              then (planOf 1 0 w (int (headerBits w + n * (bps - w))) noCoeffs 0 idx, ws3\<lparr>ws_cand := (ws_cand ws3)[idx := cd]\<rparr>)
              else (carry (headerBits w) (bps - w) p best plans pb tot,
                    ws3\<lparr>ws_rice := rice, ws_cand := (ws_cand ws3)[idx := cd\<lparr>cs_plans := plans\<rparr>]\<rparr>)
         else (best, ws3))"
      unfolding planSubframe64_def Let_def n_def [symmetric] w_def [symmetric] if_not_P [OF False] shift [unfolded Let_def] prod.case fx lp
        best_def [symmetric] m_def [symmetric] res_def [symmetric] cd_def [symmetric] R ..
    have slot: "(ws_cand ws3)[idx := c] ! idx = c" for c using idx c3 by simp
    have cdr: "cs_res64 (cd\<lparr>cs_plans := plans\<rparr>) = put_row 0 res (cs_res64 (ensureRes64 m (ws_cand ws3 ! idx)))" by (simp add: cd_def)
    have verb: ?thesis if "sp_kind best = 2 \<or> sp_kind best = 3" "\<not> residualsInRange res"
    proof -
      have "carries zigzag64 (\<lambda>r. r) lpc_pred64 cs_res64 (p_LPCPrecision p) cand s bps (planOf 1 0 w (int (headerBits w + n * (bps - w))) noCoeffs 0 idx)" for cand
        by (rule carries_verbatim [OF w]) (simp_all add: headerBits_def n_def)
      then show ?thesis using P eq that c3 by auto
    qed
    consider "sp_kind best = 1" "sp_bits best = 8 + int w + int (n * (bps - w))" | "sp_kind best = 2" "sp_order best = fst fixd"
      | rb where "sp_kind best = 3" "lpc = Some (sp_order best, sp_qcoeff best, sp_shift best, rb)"
      using pk(3) by blast
    then show ?thesis
    proof cases
      case 1
      then show ?thesis using P eq carries_verbatim [OF w 1(1) pk(1)] pk(2) c3
        by (auto simp: n_def intro!: exI [of _ "ws_cand ws ! idx"])
    next
      case 2
      have o: "sp_order best \<le> 4" "sp_order best < n" using fx' 2 n(1) by simp_all
      have r: "res = residuals (fixed_pred (sp_order best)) (sp_order best) sh"
        using 2 o n(1) by (simp add: res_def m_def ComputeFixedResiduals64_eq)
      have len: "length res = n - sp_order best" by (simp add: r n(1))
      show ?thesis
      proof (cases "residualsInRange res")
        case True
        note zz = residualsInRange_zigzag [OF True]
        have pl: "planned zigzag64 (\<lambda>r. r) res n (sp_order best) (po, plans, pb, tot)"
          using PlanResidualInt64_planned [of "sp_order best" n res "p_MaxPartitionOrder p" "ws_rice ws3"] o n len R zz by simp
        have "carries zigzag64 (\<lambda>r. r) lpc_pred64 cs_res64 (p_LPCPrecision p) ((ws_cand ws3)[idx := cd\<lparr>cs_plans := plans\<rparr>]) s bps
            (carry (headerBits w) (bps - w) p best plans pb tot)"
          by (rule carries_fixed [OF w 2(1) pk(1) refl o(1) _ r [unfolded sh_def] _ pl [unfolded n_def]])
            (use o len slot pk(2) zz zz_high_zero in \<open>auto simp: n_def put_row_prefix cdr\<close>)
        then show ?thesis using P eq 2(1) pk(2) c3 True by auto
      qed (use 2 verb in simp)
    next
      case 3
      note ch = lp'(2) [unfolded 3(2)]
      have o: "1 \<le> sp_order best" "sp_order best < n" using ch by (auto simp: lpc_choice_def)
      have r: "res = residuals (lpc_pred64 (take (sp_order best) (sp_qcoeff best)) (sp_shift best)) (sp_order best) sh"
        using ch 3(1) by (simp add: res_def m_def lpc_choice_def)
      have len: "length res = n - sp_order best" by (simp add: r n(1))
      show ?thesis
      proof (cases "residualsInRange res")
        case True
        note zz = residualsInRange_zigzag [OF True]
        have pl: "planned zigzag64 (\<lambda>r. r) res n (sp_order best) (po, plans, pb, tot)"
          using PlanResidualInt64_planned [of "sp_order best" n res "p_MaxPartitionOrder p" "ws_rice ws3"] o n len R zz by simp
        have "carries zigzag64 (\<lambda>r. r) lpc_pred64 cs_res64 (p_LPCPrecision p) ((ws_cand ws3)[idx := cd\<lparr>cs_plans := plans\<rparr>]) s bps
            (carry (headerBits w) (bps - w) p best plans pb tot)"
          by (rule carries_lpc [where lpcPred = lpc_pred64, OF w 3(1) pk(1) ch [unfolded n_def] r [unfolded sh_def] _ pl [unfolded n_def]])
            (use o len slot pk(2) zz zz_high_zero in \<open>auto simp: n_def put_row_prefix cdr\<close>)
        then show ?thesis using P eq 3(1) pk(2) c3 True by auto
      qed (use 3 verb in simp)
    qed
  qed
  then show "carries zigzag64 (\<lambda>r. r) lpc_pred64 cs_res64 (p_LPCPrecision p) (ws_cand ws') s bps plan"
    "sp_cand plan = idx" "\<exists>c. ws_cand ws' = (ws_cand ws)[idx := c]" by blast+
qed

text \<open>What a slot carries depends on that slot only.\<close>

lemma carries_slot:
  assumes "carries zz wide lpcPred getRes pr cand s bps plan" "cand' ! sp_cand plan = cand ! sp_cand plan"
  shows "carries zz wide lpcPred getRes pr cand' s bps plan"
  using assms(1) unfolding carries_def Let_def assms(2) .

end
