(* ===== verification/Crc.thy ===== *)
theory Crc
  imports Prelude
begin

text \<open>
  The checksums of \<^verbatim>\<open>src/internal/crc/crc.go\<close>: the table-driven CRC-8 of the frame header
  and CRC-16 of the frame. The lemmas show that the tables compute the bit-serial shift
  register, that the register update is linear and invertible, and from these that any
  change confined to eight (CRC-8) or sixteen (CRC-16) consecutive message bits changes
  the checksum. \<open>Checksum16\<close> calls a package outside the repository: it is a parameter of
  the theories that need it, compared there with \<open>crc16_bytes\<close>, the loop of \<open>Update16\<close>.
\<close>

section \<open>Tables and updates\<close>

fun table8_loop :: "nat \<Rightarrow> u8 \<Rightarrow> u8" where
  "table8_loop 0 c8 = c8"
| "table8_loop (Suc n) c8 =
     table8_loop n (if c8 AND 0x80 \<noteq> 0 then push_bit 1 c8 XOR 0x07 else push_bit 1 c8)"

fun table16_loop :: "nat \<Rightarrow> u16 \<Rightarrow> u16" where
  "table16_loop 0 c16 = c16"
| "table16_loop (Suc n) c16 =
     table16_loop n (if c16 AND 0x8000 \<noteq> 0 then push_bit 1 c16 XOR 0x8005 else push_bit 1 c16)"

definition table8 :: "u8 list" where
  "table8 = map (\<lambda>i. table8_loop 8 (of_nat i)) [0..<256]"

definition table16 :: "u16 list" where
  "table16 = map (\<lambda>i. table16_loop 8 (push_bit 8 (of_nat i))) [0..<256]"

definition Update8 :: "u8 \<Rightarrow> u8 \<Rightarrow> u8" where
  "Update8 crc b = table8 ! unat (crc XOR b)"

definition Update16 :: "u16 \<Rightarrow> u8 \<Rightarrow> u16" where
  "Update16 crc b = push_bit 8 crc XOR table16 ! unat ((ucast (drop_bit 8 crc) :: u8) XOR b)"

definition Checksum8 :: "u8 list \<Rightarrow> u8" where
  "Checksum8 p = foldl Update8 0 p"

definition crc16_bytes :: "u8 list \<Rightarrow> u16" where
  "crc16_bytes p = foldl Update16 0 p"

section \<open>The shift register behind the tables\<close>

text \<open>
  One step of a shift register of any width with generator \<open>p\<close>; a generator of odd value
  makes the step invertible, because the bit shifted out can be read off the lowest bit.
\<close>

definition lfsr :: "'a::len word \<Rightarrow> 'a word \<Rightarrow> 'a word" where
  "lfsr p c = (if bit c (LENGTH('a) - 1) then push_bit 1 c XOR p else push_bit 1 c)"

lemma bit_lfsr:
  "bit (lfsr p c) i \<longleftrightarrow> i < LENGTH('a) \<and> ((0 < i \<and> bit c (i - 1)) \<noteq> (bit c (LENGTH('a) - 1) \<and> bit p i))"
  for p c :: "'a::len word"
proof -
  have "bit (push_bit 1 c) i \<longleftrightarrow> i < LENGTH('a) \<and> 0 < i \<and> bit c (i - 1)"
    unfolding bit_push_bit_iff by (auto dest: bit_imp_le_length)
  then show ?thesis
    unfolding lfsr_def by (auto simp: bit_xor_iff dest: bit_imp_le_length simp del: push_bit_Suc)
qed

lemma lfsr_no_carry: "\<not> bit c (LENGTH('a) - 1) \<Longrightarrow> lfsr p c = push_bit 1 c" for p c :: "'a::len word"
  by (simp add: lfsr_def)

lemma xor_eq_0: "x XOR y = 0 \<Longrightarrow> x = y" for x y :: "'a::len word"
  by (metis xor.assoc xor.left_neutral xor.right_neutral xor_self_eq)

lemma xor_cancel: "c XOR x = c XOR y \<longleftrightarrow> x = y" for c x y :: "'a::len word"
  by (metis xor.assoc xor.left_neutral xor_self_eq)

lemma lfsr_xor: "lfsr p (x XOR y) = lfsr p x XOR lfsr p y"
  by (rule bit_word_eqI) (auto simp: bit_lfsr bit_simps)

lemma lfsr_pow_xor: "(lfsr p ^^ n) (x XOR y) = (lfsr p ^^ n) x XOR (lfsr p ^^ n) y"
  by (induction n) (simp_all add: lfsr_xor)

lemma lfsr_0 [simp]: "lfsr p 0 = 0"
  by (simp add: lfsr_def)

lemma lfsr_pow_0 [simp]: "(lfsr p ^^ n) 0 = 0"
  by (induction n) simp_all

text \<open>
  If the lowest \<open>n\<close> bits come out zero after \<open>n\<close> steps, then no step has shifted out a one.
\<close>

lemma lfsr_pow_low_zero:
  fixes p z :: "'a::len word"
  assumes "bit p 0" "n \<le> LENGTH('a)" "\<And>i. i < n \<Longrightarrow> \<not> bit ((lfsr p ^^ n) z) i"
  shows "(lfsr p ^^ n) z = push_bit n z \<and> (\<forall>i. LENGTH('a) - n \<le> i \<longrightarrow> \<not> bit z i)"
  using assms(2,3)
proof (induction n)
  case 0
  then show ?case by (auto dest: bit_imp_le_length)
next
  case (Suc n)
  let ?y = "(lfsr p ^^ n) z"
  have top: "\<not> bit ?y (LENGTH('a) - 1)"
    using Suc.prems(2) [of 0] assms(1) by (simp add: bit_lfsr)
  have low: "\<not> bit ?y i" if "i < n" for i
    using Suc.prems(1) Suc.prems(2) [of "Suc i"] that top by (simp add: bit_lfsr)
  then have ih: "?y = push_bit n z" "\<And>i. LENGTH('a) - n \<le> i \<Longrightarrow> \<not> bit z i"
    using Suc by auto
  have "\<not> bit z (LENGTH('a) - Suc n)"
    using top Suc.prems(1) by (simp add: ih(1) bit_simps)
  then have "\<not> bit z i" if "LENGTH('a) - Suc n \<le> i" for i
    using ih(2) [of i] that by (cases "i = LENGTH('a) - Suc n") auto
  moreover have "(lfsr p ^^ Suc n) z = push_bit (Suc n) z"
    using top by (simp add: lfsr_def ih(1))
  ultimately show ?case by blast
qed

lemma lfsr_pow_eq_0:
  fixes p z :: "'a::len word"
  assumes "bit p 0" "(lfsr p ^^ n) z = 0"
  shows "z = 0"
proof -
  have "z = 0" if "lfsr p z = 0" for z
  proof -
    have l: "1 \<le> LENGTH('a)" by (simp add: Suc_le_eq)
    then have "lfsr p z = push_bit 1 z \<and> (\<forall>i. LENGTH('a) - 1 \<le> i \<longrightarrow> \<not> bit z i)"
      using lfsr_pow_low_zero [OF assms(1), of 1 z] that by (simp add: l)
    then have "push_bit 1 z = 0" "\<not> bit z (LENGTH('a) - 1)" using that by auto
    then have "\<not> bit z i" for i
    proof (cases "i < LENGTH('a) - 1")
      case True
      then have "bit (push_bit 1 z) (Suc i) = bit z i" unfolding bit_push_bit_iff by auto
      then show ?thesis using \<open>push_bit 1 z = 0\<close> by simp
    next
      case False
      then show ?thesis using \<open>\<not> bit z (LENGTH('a) - 1)\<close>
        by (cases "i = LENGTH('a) - 1") (auto dest: bit_imp_le_length)
    qed
    then show ?thesis by (intro bit_word_eqI) simp
  qed
  then show ?thesis using assms(2) by (induction n) auto
qed

lemma lfsr_pow_inj:
  fixes p x y :: "'a::len word"
  assumes "bit p 0"
  shows "(lfsr p ^^ n) x = (lfsr p ^^ n) y \<longleftrightarrow> x = y"
proof
  assume "(lfsr p ^^ n) x = (lfsr p ^^ n) y"
  then have "(lfsr p ^^ n) (x XOR y) = 0" by (simp add: lfsr_pow_xor)
  then have "x XOR y = 0" by (rule lfsr_pow_eq_0 [OF assms])
  then show "x = y" by (rule xor_eq_0)
qed simp

lemma lfsr_pow_low:
  fixes p z :: "'a::len word"
  assumes "\<And>i. LENGTH('a) - n \<le> i \<Longrightarrow> \<not> bit z i" "n \<le> LENGTH('a)"
  shows "(lfsr p ^^ n) z = push_bit n z"
  using assms
proof (induction n)
  case (Suc n)
  then have "(lfsr p ^^ n) z = push_bit n z" by simp
  moreover have "\<not> bit (push_bit n z) (LENGTH('a) - 1)"
    using Suc.prems(1) [of "LENGTH('a) - Suc n"] Suc.prems(2) by (auto simp: bit_simps)
  ultimately show ?case by (simp add: lfsr_no_carry)
qed simp

section \<open>The table-driven updates are the shift register\<close>

lemma table8_loop_lfsr: "table8_loop n c = (lfsr 7 ^^ n) c"
proof (induction n arbitrary: c)
  case (Suc n)
  have "c AND 0x80 \<noteq> 0 \<longleftrightarrow> bit c 7"
    using and_exp_eq_0_iff_not_bit [of c 7] by simp
  then have "(if c AND 0x80 \<noteq> 0 then push_bit 1 c XOR 7 else push_bit 1 c) = lfsr 7 c"
    by (simp add: lfsr_def)
  then show ?case by (simp only: table8_loop.simps Suc funpow_Suc_right comp_apply)
qed simp

lemma table16_loop_lfsr: "table16_loop n c = (lfsr 0x8005 ^^ n) c"
proof (induction n arbitrary: c)
  case (Suc n)
  have "c AND 0x8000 \<noteq> 0 \<longleftrightarrow> bit c 15"
    using and_exp_eq_0_iff_not_bit [of c 15] by simp
  then have "(if c AND 0x8000 \<noteq> 0 then push_bit 1 c XOR 0x8005 else push_bit 1 c) = lfsr 0x8005 c"
    by (simp add: lfsr_def)
  then show ?case by (simp only: table16_loop.simps Suc funpow_Suc_right comp_apply)
qed simp

lemma Update8_lfsr: "Update8 crc b = (lfsr 7 ^^ 8) (crc XOR b)"
proof -
  have "unat (crc XOR b) < 256" using unsigned_less [of "crc XOR b"] by simp
  then show ?thesis by (simp add: Update8_def table8_def table8_loop_lfsr del: funpow.simps)
qed

lemma Update16_lfsr: "Update16 crc b = (lfsr 0x8005 ^^ 8) (crc XOR push_bit 8 (ucast b))"
proof -
  let ?i = "(ucast (drop_bit 8 crc) :: u8) XOR b"
  have "unat ?i < 256" using unsigned_less [of ?i] by simp
  then have t: "table16 ! unat ?i = (lfsr 0x8005 ^^ 8) (push_bit 8 (ucast ?i))"
    by (simp add: table16_def table16_loop_lfsr del: funpow.simps)
  have low: "(lfsr 0x8005 ^^ 8) (take_bit 8 crc) = push_bit 8 crc"
  proof -
    have "(lfsr 0x8005 ^^ 8) (take_bit 8 crc) = push_bit 8 (take_bit 8 crc)"
      by (rule lfsr_pow_low) (auto simp: bit_simps)
    also have "\<dots> = push_bit 8 crc" by (rule bit_word_eqI) (auto simp: bit_simps)
    finally show ?thesis .
  qed
  have "take_bit 8 crc XOR push_bit 8 (ucast ?i) = crc XOR push_bit 8 (ucast b)"
    by (rule bit_word_eqI) (auto simp: bit_simps dest: bit_imp_le_length)
  then show ?thesis
    unfolding Update16_def t low [symmetric] lfsr_pow_xor [symmetric] by simp
qed

lemma Update8_inj: "Update8 c b = Update8 d b \<longleftrightarrow> c = d"
proof -
  have "bit (7::u8) 0" by simp
  then show ?thesis by (simp add: Update8_lfsr lfsr_pow_inj xor_cancel xor.commute [of _ b] del: funpow.simps)
qed

lemma Update16_inj: "Update16 c b = Update16 d b \<longleftrightarrow> c = d"
proof -
  have "bit (0x8005::u16) 0" by simp
  then show ?thesis
    by (simp add: Update16_lfsr lfsr_pow_inj xor_cancel xor.commute [of _ "push_bit 8 (ucast b)"] del: funpow.simps)
qed

lemma foldl_inj:
  "(\<And>x c d. f c x = f d x \<longleftrightarrow> c = d) \<Longrightarrow> foldl f c xs = foldl f d xs \<longleftrightarrow> c = d"
  by (induction xs arbitrary: c d) simp_all

section \<open>What the checksums detect\<close>

lemma Checksum8_one_byte: "Checksum8 (p @ [b] @ q) = Checksum8 (p @ [b'] @ q) \<longleftrightarrow> b = b'"
proof -
  have "bit (7::u8) 0" by simp
  then have "Update8 c b = Update8 c b' \<longleftrightarrow> b = b'" for c
    using lfsr_pow_inj [of 7 8 "c XOR b" "c XOR b'"] by (simp add: Update8_lfsr xor_cancel del: funpow.simps)
  then show ?thesis by (simp add: Checksum8_def foldl_inj [where f = Update8] Update8_inj)
qed

lemma xor_swap: "a XOR b = c XOR d \<Longrightarrow> a XOR c = b XOR d" for a b c d :: "'a::len word"
proof -
  assume "a XOR b = c XOR d"
  then have "(a XOR b) XOR (b XOR c) = (c XOR d) XOR (b XOR c)" by simp
  moreover have "(a XOR b) XOR (b XOR c) = a XOR c" "(c XOR d) XOR (b XOR c) = b XOR d"
    by (rule bit_word_eqI; auto simp: bit_simps)+
  ultimately show ?thesis by simp
qed

lemma Update16_two_bytes:
  "Update16 (Update16 c a) b = Update16 (Update16 c a') b' \<longleftrightarrow> a = a' \<and> b = b'"
proof
  assume eq: "Update16 (Update16 c a) b = Update16 (Update16 c a') b'"
  have odd: "bit (0x8005::u16) 0" by simp
  have x: "Update16 c a XOR push_bit 8 (ucast b) = Update16 c a' XOR push_bit 8 (ucast b')"
    using eq lfsr_pow_inj [OF odd] by (simp only: Update16_lfsr)
  let ?z = "push_bit 8 (ucast a) XOR push_bit 8 (ucast a') :: u16"
  have "(lfsr 0x8005 ^^ 8) ?z = Update16 c a XOR Update16 c a'"
    unfolding Update16_lfsr lfsr_pow_xor [symmetric]
    by (rule arg_cong [where f = "lfsr 0x8005 ^^ 8"], rule bit_word_eqI) (auto simp: bit_simps)
  also have "\<dots> = push_bit 8 (ucast b) XOR push_bit 8 (ucast b')"
    using x xor_swap by blast
  finally have z: "(lfsr 0x8005 ^^ 8) ?z = push_bit 8 (ucast b) XOR push_bit 8 (ucast b')" .
  have "\<not> bit ?z i" if "8 \<le> i" for i
    using lfsr_pow_low_zero [OF odd, of 8 ?z] that unfolding z by (auto simp: bit_simps)
  then have "?z = 0" by (intro bit_word_eqI) (auto simp: bit_simps)
  then have za: "push_bit 8 (ucast a) = (push_bit 8 (ucast a') :: u16)" by (rule xor_eq_0)
  have zb: "push_bit 8 (ucast b) = (push_bit 8 (ucast b') :: u16)"
    using z unfolding \<open>?z = 0\<close> lfsr_pow_0 by (metis xor_eq_0)
  have "a = a'" if "push_bit 8 (ucast a) = (push_bit 8 (ucast a') :: u16)" for a a' :: u8
  proof (rule bit_word_eqI)
    fix n assume "n < LENGTH(8)"
    moreover have "bit (push_bit 8 (ucast a) :: u16) (n + 8) = bit (push_bit 8 (ucast a') :: u16) (n + 8)"
      using that by simp
    ultimately show "bit a n = bit a' n" by (simp add: bit_simps)
  qed
  then show "a = a' \<and> b = b'" using za zb by blast
qed simp

lemma crc16_two_bytes:
  "crc16_bytes (p @ [a, b] @ q) = crc16_bytes (p @ [a', b'] @ q) \<longleftrightarrow> a = a' \<and> b = b'"
  by (simp add: crc16_bytes_def foldl_inj [where f = Update16] Update16_inj Update16_two_bytes)

text \<open>A message followed by its own checksum leaves the register at zero.\<close>

lemma Checksum8_residue: "Checksum8 (p @ [Checksum8 p]) = 0"
  by (simp add: Checksum8_def Update8_lfsr del: funpow.simps)

lemma crc16_residue:
  "crc16_bytes (p @ [ucast (drop_bit 8 (crc16_bytes p)), ucast (crc16_bytes p)]) = 0"
proof -
  let ?c = "crc16_bytes p"
  have "?c XOR push_bit 8 (ucast (ucast (drop_bit 8 ?c) :: u8)) = take_bit 8 ?c"
    by (rule bit_word_eqI) (auto simp: bit_simps)
  moreover have "(lfsr 0x8005 ^^ 8) (take_bit 8 ?c) = push_bit 8 (take_bit 8 ?c)"
    by (rule lfsr_pow_low) (auto simp: bit_simps)
  ultimately have "Update16 ?c (ucast (drop_bit 8 ?c)) = push_bit 8 (take_bit 8 ?c)"
    by (simp add: Update16_lfsr del: funpow.simps)
  moreover have "push_bit 8 (take_bit 8 ?c) XOR push_bit 8 (ucast (ucast ?c :: u8)) = 0"
    by (rule bit_word_eqI) (auto simp: bit_simps)
  ultimately show ?thesis
    by (simp add: crc16_bytes_def Update16_lfsr [of "push_bit 8 _"] del: funpow.simps)
qed

end
