(* ===== verification/Frame_Header.thy ===== *)
theory Frame_Header
  imports Parsing Crc
begin

text \<open>
  The frame header of \<^verbatim>\<open>src/internal/frame\<close>: its reader (\<^verbatim>\<open>header.go\<close>), its writer
  (\<^verbatim>\<open>header_encode.go\<close>) and the stream properties of \<^verbatim>\<open>src/flac.go\<close> it refers to. The
  lemmas show that the two agree: every header the writer produces for a valid frame is
  read back with the same fields, the CRC-8 included, and with the reader left at the
  byte that follows it.
\<close>

section \<open>Stream and frame properties\<close>

record StreamInfo =
  si_SampleRate :: nat
  si_Channels :: nat
  si_BitDepth :: nat
  si_TotalSamples :: u64
  si_MD5 :: "u8 list"

record header =
  variableBlockSize :: bool
  blockSize :: nat
  sampleRate :: nat
  channelAssignment :: nat
  bitsPerSample :: nat
  number :: u64

definition channels :: "header \<Rightarrow> nat" where
  "channels h = (if channelAssignment h \<in> {8, 9, 10} then 2 else channelAssignment h + 1)"

section \<open>Reading\<close>

definition syncCode :: u64 where "syncCode = 0x3FFE"

definition decodeBlockSize :: "u64 \<Rightarrow> (nat, 't) rm" where
  "decodeBlockSize code =
     (if code = 0 then failR ErrUnsupported
      else if code = 1 then retR 192
      else if 2 \<le> code \<and> code \<le> 5 then retR (576 * 2 ^ unat (code - 2))
      else if code = 6 then bindR (ReadBits 8) (\<lambda>v. retR (unat v + 1))
      else if code = 7 then bindR (ReadBits 16) (\<lambda>v. retR (unat v + 1))
      else retR (256 * 2 ^ unat (code - 8)))"

definition sampleRateTable :: "nat list" where
  "sampleRateTable = [0, 88200, 176400, 192000, 8000, 16000, 22050, 24000, 32000, 44100, 48000, 96000]"

definition decodeSampleRate :: "u64 \<Rightarrow> StreamInfo \<Rightarrow> (nat, 't) rm" where
  "decodeSampleRate code si =
     (if code = 0 then retR (si_SampleRate si)
      else if 1 \<le> code \<and> code \<le> 11 then retR (sampleRateTable ! unat code)
      else if code = 12 then bindR (ReadBits 8) (\<lambda>v. retR (unat v * 1000))
      else if code = 13 then bindR (ReadBits 16) (\<lambda>v. retR (unat v))
      else if code = 14 then bindR (ReadBits 16) (\<lambda>v. retR (unat v * 10))
      else failR ErrUnsupported)"

definition decodeBitsPerSample :: "u64 \<Rightarrow> StreamInfo \<Rightarrow> (nat, 't) rm" where
  "decodeBitsPerSample code si =
     (if code = 0 then retR (si_BitDepth si)
      else if code = 1 then retR 8
      else if code = 2 then retR 12
      else if code = 4 then retR 16
      else if code = 5 then retR 20
      else if code = 6 then retR 24
      else if code = 7 then retR 32
      else failR ErrUnsupported)"

text \<open>The lead byte's count of leading ones, and the continuation bytes.\<close>

definition codedLen :: "u64 \<Rightarrow> nat option" where
  "codedLen b0 =
     (if b0 AND 0xE0 = 0xC0 then Some 2
      else if b0 AND 0xF0 = 0xE0 then Some 3
      else if b0 AND 0xF8 = 0xF0 then Some 4
      else if b0 AND 0xFC = 0xF8 then Some 5
      else if b0 AND 0xFE = 0xFC then Some 6
      else if b0 = 0xFE then Some 7
      else None)"

fun readContinuation :: "nat \<Rightarrow> u64 \<Rightarrow> (u64, 't) rm" where
  "readContinuation 0 val = retR val"
| "readContinuation (Suc n) val =
     bindR (ReadBits 8) (\<lambda>c.
       if c AND 0xC0 \<noteq> 0x80 then failR ErrUnsupported
       else readContinuation n (push_bit 6 val OR (c AND 0x3F)))"

definition readCodedNumber :: "(u64, 't) rm" where
  "readCodedNumber =
     bindR (ReadBits 8) (\<lambda>b0.
       if b0 < 0x80 then retR b0
       else case codedLen b0 of
              None \<Rightarrow> failR ErrUnsupported
            | Some n \<Rightarrow> readContinuation (n - 1) (b0 AND drop_bit n 0x7F))"

text \<open>The fields after the sync code, up to the CRC-8.\<close>

definition readHeaderFields :: "StreamInfo \<Rightarrow> (header, 't) rm" where
  "readHeaderFields si =
     bindR (ReadBits 1) (\<lambda>r.
     if r \<noteq> 0 then failR ErrUnsupported else
     bindR (ReadBits 1) (\<lambda>bs.
     bindR (ReadBits 4) (\<lambda>bsCode.
     bindR (ReadBits 4) (\<lambda>srCode.
     bindR (ReadBits 4) (\<lambda>chCode.
     bindR (ReadBits 3) (\<lambda>bpsCode.
     bindR (ReadBits 1) (\<lambda>r.
     if r \<noteq> 0 then failR ErrUnsupported
     else if chCode \<ge> 11 then failR ErrUnsupported else
     bindR readCodedNumber (\<lambda>num.
     bindR (decodeBlockSize bsCode) (\<lambda>bsize.
     bindR (decodeSampleRate srCode si) (\<lambda>srate.
     bindR (decodeBitsPerSample bpsCode si) (\<lambda>bps.
     retR \<lparr>variableBlockSize = (bs = 1), blockSize = bsize, sampleRate = srate,
           channelAssignment = unat chCode, bitsPerSample = bps, number = num\<rparr>)))))))))))"

text \<open>
  \<open>c8\<close> reads the running CRC-8 out of the tap's state, the \<open>*uint8\<close> the caller passes.
\<close>

definition readHeaderBody :: "('t \<Rightarrow> u8) \<Rightarrow> StreamInfo \<Rightarrow> (header, 't) rm" where
  "readHeaderBody c8 si =
     bindR (ReadBits 14) (\<lambda>sync.
     if sync \<noteq> syncCode then failR ErrUnsupported
     else mapErrR noEOF
       (bindR (readHeaderFields si) (\<lambda>hdr.
        bindR (getsR (\<lambda>rd. c8 (rd_tapSt rd))) (\<lambda>computed.
        bindR (ReadBits 8) (\<lambda>stored.
        if stored \<noteq> ucast computed then failR ErrCRCMismatch else retR hdr)))))"

definition readHeader :: "StreamInfo \<Rightarrow> (header, u8) rm" where
  "readHeader si rd =
     (case readHeaderBody (\<lambda>c8. c8) si (SetTap (Some Update8) 0 rd) of
        (res, rd') \<Rightarrow> (res, SetTap None 0 rd'))"

section \<open>Writing\<close>

text \<open>A non-positive sample rate, which the code answers with a panic, is \<open>None\<close>.\<close>

definition sampleRateCode :: "nat \<Rightarrow> (nat \<times> nat \<times> nat) option" where
  "sampleRateCode sr =
     (if sr = 0 then None
      else if sr = 88200 then Some (1, 0, 0)
      else if sr = 176400 then Some (2, 0, 0)
      else if sr = 192000 then Some (3, 0, 0)
      else if sr = 8000 then Some (4, 0, 0)
      else if sr = 16000 then Some (5, 0, 0)
      else if sr = 22050 then Some (6, 0, 0)
      else if sr = 24000 then Some (7, 0, 0)
      else if sr = 32000 then Some (8, 0, 0)
      else if sr = 44100 then Some (9, 0, 0)
      else if sr = 48000 then Some (10, 0, 0)
      else if sr = 96000 then Some (11, 0, 0)
      else if sr mod 1000 = 0 \<and> sr div 1000 \<le> 0xFF then Some (12, 8, sr div 1000)
      else if sr \<le> 0xFFFF then Some (13, 16, sr)
      else if sr mod 10 = 0 \<and> sr div 10 \<le> 0xFFFF then Some (14, 16, sr div 10)
      else Some (0, 0, 0))"

definition bitDepthCode :: "nat \<Rightarrow> nat" where
  "bitDepthCode bps =
     (if bps = 8 then 1 else if bps = 12 then 2 else if bps = 16 then 4 else if bps = 20 then 5
      else if bps = 24 then 6 else if bps = 32 then 7 else 0)"

definition blockSizeCode :: "nat \<Rightarrow> nat \<times> nat \<times> int" where
  "blockSizeCode bs =
     (if bs = 192 then (1, 0, 0)
      else if bs = 576 then (2, 0, 0)
      else if bs = 1152 then (3, 0, 0)
      else if bs = 2304 then (4, 0, 0)
      else if bs = 4608 then (5, 0, 0)
      else if bs = 256 then (8, 0, 0)
      else if bs = 512 then (9, 0, 0)
      else if bs = 1024 then (10, 0, 0)
      else if bs = 2048 then (11, 0, 0)
      else if bs = 4096 then (12, 0, 0)
      else if bs = 8192 then (13, 0, 0)
      else if bs = 16384 then (14, 0, 0)
      else if bs = 32768 then (15, 0, 0)
      else if int bs - 1 \<le> 0xFF then (6, 8, int bs - 1)
      else (7, 16, int bs - 1))"

definition utf8Len :: "u64 \<Rightarrow> nat" where
  "utf8Len v =
     (if v < 0x800 then 2 else if v < 0x10000 then 3 else if v < 0x200000 then 4
      else if v < 0x4000000 then 5 else if v < 0x80000000 then 6 else 7)"

definition leadByte :: "nat \<Rightarrow> u8 \<Rightarrow> u8" where
  "leadByte n hi = (let lead = push_bit (8 - n) 0xFF in lead OR (hi AND NOT lead))"

definition sixBits :: "u64 \<Rightarrow> nat \<Rightarrow> u8" where
  "sixBits v i = ucast (drop_bit (6 * i) v AND 0x3F)"

definition writeUTF8 :: "u64 \<Rightarrow> writer \<Rightarrow> writer" where
  "writeUTF8 v bw =
     (if v < 0x80 then WriteBits v 8 bw
      else let n = utf8Len v
           in fold (\<lambda>i. WriteBits (ucast (0x80 OR sixBits v i)) 8) (rev [0..<n - 1])
                (WriteBits (ucast (leadByte n (ucast (drop_bit (6 * (n - 1)) v)))) 8 bw))"

definition writeExt :: "nat \<Rightarrow> int \<Rightarrow> writer \<Rightarrow> writer" where
  "writeExt n v bw = (if n > 0 then WriteBits (word_of_int v) n bw else bw)"

definition writeFrameHeader :: "nat \<Rightarrow> nat \<Rightarrow> nat \<Rightarrow> nat \<Rightarrow> u64 \<Rightarrow> writer \<Rightarrow> writer option" where
  "writeFrameHeader bsize chCode srate depth frameNum bw =
     (case Bytes bw of (before, bw) \<Rightarrow>
      case (blockSizeCode bsize, sampleRateCode srate) of
        (_, None) \<Rightarrow> None
      | ((bsCode, bsExtN, bsExtV), Some (srCode, srExtN, srExtV)) \<Rightarrow>
          let bw = WriteBits 0 1 (WriteBits 0 1 (WriteBits syncCode 14 bw));
              bw = WriteBits (of_nat chCode) 4 (WriteBits (of_nat srCode) 4 (WriteBits (of_nat bsCode) 4 bw));
              bw = WriteBits 0 1 (WriteBits (of_nat (bitDepthCode depth)) 3 bw);
              bw = writeExt srExtN (int srExtV) (writeExt bsExtN bsExtV (writeUTF8 frameNum bw))
          in case Bytes bw of (all, bw) \<Rightarrow>
               Some (WriteBits (ucast (Checksum8 (drop (length before) all))) 8 bw))"

section \<open>The coded number\<close>

definition utf8_bits :: "u64 \<Rightarrow> bool list" where
  "utf8_bits v =
     (if v < 0x80 then bits_msb 8 v
      else bits_msb 8 (ucast (leadByte (utf8Len v) (ucast (drop_bit (6 * (utf8Len v - 1)) v))) :: u64)
           @ concat (map (\<lambda>i. bits_msb 8 (ucast (0x80 OR sixBits v i) :: u64)) (rev [0..<utf8Len v - 1])))"

lemma emits_writeUTF8: "emits (writeUTF8 v) (utf8_bits v)"
proof (cases "v < 0x80")
  case True
  then have "writeUTF8 v = WriteBits v 8" by (simp add: writeUTF8_def fun_eq_iff)
  then show ?thesis using True emits_WriteBits [of 8 v] by (simp add: utf8_bits_def)
next
  case False
  have "emits (fold (\<lambda>i. WriteBits (ucast (0x80 OR sixBits v i)) 8) (rev [0..<utf8Len v - 1]))
      (concat (map (\<lambda>i. bits_msb 8 (ucast (0x80 OR sixBits v i) :: u64)) (rev [0..<utf8Len v - 1])))"
    by (rule emits_fold) (simp add: emits_WriteBits)
  from emits_comp [OF emits_WriteBits [of 8 "ucast (leadByte (utf8Len v) (ucast (drop_bit (6 * (utf8Len v - 1)) v)))"] this]
  show ?thesis using False by (simp add: utf8_bits_def writeUTF8_def [abs_def] Let_def)
qed

text \<open>Every lead byte the writer forms is recognised, and gives back its data bits.\<close>

definition lead_cases :: "(nat \<times> nat) list" where
  "lead_cases = concat (map (\<lambda>n. map (Pair n) [0..<2 ^ (7 - n)]) [2..<8])"

lemma lead_cases_ok:
  "list_all (\<lambda>(n, k). let b = ucast (leadByte n (of_nat k)) :: u64 in
     \<not> b < 0x80 \<and> codedLen b = Some n \<and> b AND drop_bit n 0x7F = of_nat k) lead_cases"
  by code_simp

lemma leadByte_ok:
  assumes "2 \<le> n" "n \<le> 7" "k < 2 ^ (7 - n)"
  shows "\<not> (ucast (leadByte n (of_nat k)) :: u64) < 0x80"
    and "codedLen (ucast (leadByte n (of_nat k))) = Some n"
    and "(ucast (leadByte n (of_nat k)) :: u64) AND drop_bit n 0x7F = of_nat k"
proof -
  have "(n, k) \<in> set lead_cases" using assms by (auto simp: lead_cases_def simp del: upt_rec_numeral intro!: bexI [of _ n])
  then show "\<not> (ucast (leadByte n (of_nat k)) :: u64) < 0x80" "codedLen (ucast (leadByte n (of_nat k))) = Some n"
    "(ucast (leadByte n (of_nat k)) :: u64) AND drop_bit n 0x7F = of_nat k"
    using lead_cases_ok by (auto simp: list_all_iff Let_def)
qed

lemma and_63: "x AND 0x3F = take_bit 6 x" for x :: u64
  by (simp add: take_bit_eq_mask mask_eq_exp_minus_1)

lemma continuation_step:
  "push_bit 6 (drop_bit (6 * Suc n) v) OR (drop_bit (6 * n) v AND 0x3F) = drop_bit (6 * n) v" for v :: u64
proof (rule bit_word_eqI)
  fix i assume i: "i < LENGTH(64)"
  have "6 * Suc n + (i - 6) = 6 * n + i" if "6 \<le> i" using that by simp
  then show "bit (push_bit 6 (drop_bit (6 * Suc n) v) OR (drop_bit (6 * n) v AND 0x3F)) i = bit (drop_bit (6 * n) v) i"
    using i unfolding and_63 bit_or_iff bit_push_bit_iff bit_drop_bit_eq bit_take_bit_iff comp_apply
    by (cases "i < 6") auto
qed

lemma sixBits_byte:
  "(ucast (0x80 OR sixBits v i) :: u64) AND 0xC0 = 0x80" "(ucast (0x80 OR sixBits v i) :: u64) AND 0x3F = drop_bit (6 * i) v AND 0x3F"
proof -
  have six: "sixBits v i = ucast (take_bit 6 (drop_bit (6 * i) v))"
    unfolding sixBits_def by (rule arg_cong [where f = ucast]) (simp add: take_bit_eq_mask mask_eq_exp_minus_1)
  have "\<forall>k \<in> set [0..<64]. (ucast ((0x80 :: u8) OR of_nat k) :: u64) AND 0xC0 = 0x80 \<and> (ucast ((0x80::u8) OR of_nat k) :: u64) AND 0x3F = of_nat k"
    by code_simp
  then have all: "(ucast ((0x80 :: u8) OR of_nat k) :: u64) AND 0xC0 = 0x80 \<and> (ucast ((0x80::u8) OR of_nat k) :: u64) AND 0x3F = of_nat k"
    if "k < 64" for k
  proof -
    have "k \<in> set [0..<64]" using that by simp
    with \<open>\<forall>k \<in> set [0..<64]. _\<close> show ?thesis by (rule bspec)
  qed
  define k where "k = unat (take_bit 6 (drop_bit (6 * i) v))"
  have "k < 64" using take_bit_nat_less_exp [of 6] by (simp add: k_def unsigned_take_bit_eq)
  moreover have "sixBits v i = of_nat k" "drop_bit (6 * i) v AND 0x3F = of_nat k"
    by (simp_all add: six k_def and_63)
  ultimately show "(ucast (0x80 OR sixBits v i) :: u64) AND 0xC0 = 0x80" "(ucast (0x80 OR sixBits v i) :: u64) AND 0x3F = drop_bit (6 * i) v AND 0x3F"
    using all by simp_all
qed

lemma parses_byte: "parses (ReadBits 8) (bits_msb 8 (ucast b :: u64)) (ucast b)" for b :: u8
proof -
  have "take_bit 8 (ucast b :: u64) = ucast b"
    by (rule bit_word_eqI) (auto simp: bit_simps dest: bit_imp_le_length)
  then show ?thesis using parses_ReadBits_val [of 8 "ucast b"] by simp
qed

lemma parses_readContinuation:
  "parses (readContinuation n (drop_bit (6 * n) v) :: (u64, 't) rm)
     (concat (map (\<lambda>i. bits_msb 8 (ucast (0x80 OR sixBits v i) :: u64)) (rev [0..<n]))) v"
proof (induction n)
  case 0
  then show ?case by (simp add: parses_ret)
next
  case (Suc n)
  have "parses (bindR (ReadBits 8) (\<lambda>c. if c AND 0xC0 \<noteq> 0x80 then failR ErrUnsupported
       else readContinuation n (push_bit 6 (drop_bit (6 * Suc n) v) OR (c AND 0x3F))) :: (u64, 't) rm)
      (bits_msb 8 (ucast (0x80 OR sixBits v n) :: u64) @ concat (map (\<lambda>i. bits_msb 8 (ucast (0x80 OR sixBits v i) :: u64)) (rev [0..<n]))) v"
    using Suc by (intro parses_bind [OF parses_byte]) (simp only: sixBits_byte continuation_step simp_thms if_False)
  then show ?case by (simp del: mult_Suc_right)
qed

lemma parses_readCodedNumber:
  assumes "unat v < 2 ^ 36"
  shows "parses readCodedNumber (utf8_bits v) v"
proof (cases "v < 0x80")
  case True
  have "take_bit 8 v = v" using True by (simp add: word_less_nat_alt word_unat_eq_iff unsigned_take_bit_eq take_bit_nat_eq_self)
  then have "parses (ReadBits 8) (bits_msb 8 v) v" using parses_ReadBits_val [of 8 v] by simp
  moreover have "utf8_bits v = bits_msb 8 v" using True by (simp add: utf8_bits_def)
  ultimately show ?thesis
    unfolding readCodedNumber_def using True by (auto intro!: parses_bind_ret [where x = v] parses_ret)
next
  case False
  define n where "n = utf8Len v"
  define k where "k = unat (drop_bit (6 * (n - 1)) v)"
  have n: "2 \<le> n" "n \<le> 7" by (auto simp: n_def utf8Len_def)
  have "unat v div 2 ^ (6 * (n - 1)) < 2 ^ (7 - n)"
    using assms unfolding n_def utf8Len_def word_less_nat_alt by (auto simp: div_less_iff_less_mult split: if_splits)
  then have k: "k < 2 ^ (7 - n)"
    unfolding k_def unat_drop_bit_eq by (simp add: drop_bit_eq_div)
  have hi: "ucast (drop_bit (6 * (n - 1)) v) = (of_nat k :: u8)" "drop_bit (6 * (n - 1)) v = of_nat k"
    by (simp_all add: k_def)
  note l = leadByte_ok [OF n k]
  have c: "parses (readContinuation (n - 1) (of_nat k))
      (concat (map (\<lambda>i. bits_msb 8 (ucast (0x80 OR sixBits v i) :: u64)) (rev [0..<n - 1]))) v"
    using parses_readContinuation [of "n - 1" v] by (simp only: hi(2))
  show ?thesis
    unfolding readCodedNumber_def utf8_bits_def n_def [symmetric] hi(1)
    using False l c by (auto intro!: parses_bind [OF parses_byte])
qed

section \<open>The other fields\<close>

definition ext_bits :: "nat \<Rightarrow> int \<Rightarrow> bool list" where
  "ext_bits n v = (if n > 0 then bits_msb n (word_of_int v :: u64) else [])"

lemma emits_writeExt: "n \<le> 64 \<Longrightarrow> emits (writeExt n v) (ext_bits n v)"
  using emits_WriteBits [of n "word_of_int v"] emits_id
  by (cases "n = 0") (simp_all add: writeExt_def [abs_def] ext_bits_def)

lemma parses_ext:
  assumes "n \<le> 57" "v < 2 ^ n"
  shows "parses (ReadBits n) (bits_msb n (word_of_int (int v) :: u64)) (of_nat v)"
proof -
  have "take_bit n (of_nat v :: u64) = of_nat v"
    using assms(2) by (simp add: take_bit_of_nat take_bit_nat_eq_self)
  then show ?thesis using parses_ReadBits_val [OF assms(1), of "word_of_int (int v)"] by simp
qed

lemma parses_ext_ret:
  assumes "v < 2 ^ n" "n \<le> 16" "f v = x"
  shows "parses (bindR (ReadBits n) (\<lambda>w. retR (f (unat w)))) (bits_msb n (word_of_int (int v) :: u64)) x"
proof -
  have "v < 65536" using assms(1) power_increasing [OF assms(2), of "2::nat"] by simp
  then have "unat (of_nat v :: u64) = v" by (rule unat_of_nat_u64)
  then have "parses (retR (f (unat (of_nat v :: u64)))) [] x" using assms(3) parses_ret by metis
  moreover have "parses (ReadBits n) (bits_msb n (word_of_int (int v) :: u64)) (of_nat v)"
    using assms(1,2) by (intro parses_ext) simp_all
  ultimately show ?thesis by (rule parses_bind_ret [rotated])
qed

text \<open>The codes that carry no explicit value.\<close>

lemma direct_sizes:
  "list_all (\<lambda>(c, bs). decodeBlockSize (of_nat c) = (retR bs :: (nat, 't) rm))
     [(1, 192), (2, 576), (3, 1152), (4, 2304), (5, 4608), (8, 256), (9, 512), (10, 1024),
      (11, 2048), (12, 4096), (13, 8192), (14, 16384), (15, 32768)]"
  by (simp add: decodeBlockSize_def)

lemma direct_rates:
  "list_all (\<lambda>(c, sr). decodeSampleRate (of_nat c) si = (retR sr :: (nat, 't) rm))
     [(1, 88200), (2, 176400), (3, 192000), (4, 8000), (5, 16000), (6, 22050), (7, 24000),
      (8, 32000), (9, 44100), (10, 48000), (11, 96000)]"
  by (simp add: decodeSampleRate_def sampleRateTable_def)

lemma blockSizeCode_ok:
  assumes "1 \<le> bs" "bs \<le> 65536" "blockSizeCode bs = (c, n, v)"
  shows "parses (decodeBlockSize (of_nat c) :: (nat, 't) rm) (ext_bits n v) bs" "c < 16" "n = 0 \<or> n = 8 \<or> n = 16"
proof -
  consider (direct) "n = 0" "(c, bs) \<in> set [(1, 192), (2, 576), (3, 1152), (4, 2304), (5, 4608), (8, 256), (9, 512), (10, 1024),
      (11, 2048), (12, 4096), (13, 8192), (14, 16384), (15, 32768)]"
    | (byte) "c = 6" "n = 8" "v = int (bs - 1)" "bs - 1 < 2 ^ 8" | (word) "c = 7" "n = 16" "v = int (bs - 1)"
    using assms by (auto simp: blockSizeCode_def split: if_splits)
  then show "parses (decodeBlockSize (of_nat c) :: (nat, 't) rm) (ext_bits n v) bs"
  proof cases
    case direct
    have "decodeBlockSize (of_nat c) = (retR bs :: (nat, 't) rm)"
      using direct_sizes [unfolded list_all_iff, THEN bspec, OF direct(2)] by simp
    then show ?thesis using direct(1) by (simp add: ext_bits_def parses_ret)
  next
    case byte
    then show ?thesis using parses_ext_ret [of "bs - 1" 8 "\<lambda>v. v + 1" bs] assms(1) by (simp add: decodeBlockSize_def ext_bits_def)
  next
    case word
    have "bs - 1 < 2 ^ 16" using assms(1,2) by simp
    then show ?thesis using word parses_ext_ret [of "bs - 1" 16 "\<lambda>v. v + 1" bs] assms(1) by (simp add: decodeBlockSize_def ext_bits_def)
  qed
  show "c < 16" "n = 0 \<or> n = 8 \<or> n = 16" using assms(3) by (auto simp: blockSizeCode_def split: if_splits)
qed

lemma sampleRateCode_ok:
  assumes "sampleRateCode (si_SampleRate si) = Some (c, n, v)"
  shows "parses (decodeSampleRate (of_nat c) si :: (nat, 't) rm) (ext_bits n (int v)) (si_SampleRate si)" "c < 16" "n = 0 \<or> n = 8 \<or> n = 16"
proof -
  let ?r = "si_SampleRate si"
  consider (direct) "n = 0" "(c, ?r) \<in> set [(1, 88200), (2, 176400), (3, 192000), (4, 8000), (5, 16000), (6, 22050), (7, 24000),
      (8, 32000), (9, 44100), (10, 48000), (11, 96000)]"
    | (khz) "c = 12" "n = 8" "v = ?r div 1000" "?r mod 1000 = 0" "?r div 1000 < 2 ^ 8"
    | (hz) "c = 13" "n = 16" "v = ?r" "?r < 2 ^ 16"
    | (dahz) "c = 14" "n = 16" "v = ?r div 10" "?r mod 10 = 0" "?r div 10 < 2 ^ 16" | (stream) "c = 0" "n = 0"
    using assms by (auto simp: sampleRateCode_def split: if_splits)
  then show "parses (decodeSampleRate (of_nat c) si :: (nat, 't) rm) (ext_bits n (int v)) ?r"
  proof cases
    case direct
    have "decodeSampleRate (of_nat c) si = (retR ?r :: (nat, 't) rm)"
      using direct_rates [unfolded list_all_iff, THEN bspec, OF direct(2)] by simp
    then show ?thesis using direct(1) by (simp add: ext_bits_def parses_ret)
  next
    case khz
    then show ?thesis using parses_ext_ret [of v 8 "\<lambda>v. v * 1000" ?r] by (auto simp: decodeSampleRate_def ext_bits_def)
  next
    case hz
    then show ?thesis using parses_ext_ret [of v 16 "\<lambda>v. v" ?r] by (auto simp: decodeSampleRate_def ext_bits_def)
  next
    case dahz
    then show ?thesis using parses_ext_ret [of v 16 "\<lambda>v. v * 10" ?r] by (auto simp: decodeSampleRate_def ext_bits_def)
  next
    case stream
    then show ?thesis by (simp add: decodeSampleRate_def ext_bits_def parses_ret)
  qed
  show "c < 16" "n = 0 \<or> n = 8 \<or> n = 16" using assms by (auto simp: sampleRateCode_def split: if_splits)
qed

lemma sampleRateCode_total: "0 < sr \<Longrightarrow> \<exists>c n v. sampleRateCode sr = Some (c, n, v)"
  by (auto simp: sampleRateCode_def)

lemma bitDepthCode_ok: "parses (decodeBitsPerSample (of_nat (bitDepthCode (si_BitDepth si))) si) [] (si_BitDepth si)"
  by (auto simp: bitDepthCode_def decodeBitsPerSample_def parses_ret)

lemma bitDepthCode_less: "bitDepthCode bps < 8"
  by (simp add: bitDepthCode_def)

section \<open>The whole header\<close>

definition fields_bits :: "nat \<Rightarrow> nat \<Rightarrow> StreamInfo \<Rightarrow> u64 \<Rightarrow> bool list" where
  "fields_bits bsize chCode si frameNum =
     (case (blockSizeCode bsize, the (sampleRateCode (si_SampleRate si))) of ((bsCode, bsExtN, bsExtV), (srCode, srExtN, srExtV)) \<Rightarrow>
        bits_msb 1 (0 :: u64) @ bits_msb 1 (0 :: u64) @ bits_msb 4 (of_nat bsCode :: u64) @ bits_msb 4 (of_nat srCode :: u64)
      @ bits_msb 4 (of_nat chCode :: u64) @ bits_msb 3 (of_nat (bitDepthCode (si_BitDepth si)) :: u64) @ bits_msb 1 (0 :: u64)
      @ utf8_bits frameNum @ ext_bits bsExtN bsExtV @ ext_bits srExtN (int srExtV))"

lemma parses_zero: "parses (ReadBits 1) (bits_msb 1 (0 :: u64)) 0"
  using parses_code [of 0 1] by simp

lemma parses_readHeaderFields:
  assumes "1 \<le> bsize" "bsize \<le> 65536" "chCode \<le> 10" "0 < si_SampleRate si" "unat frameNum < 2 ^ 36"
  shows "parses (readHeaderFields si) (fields_bits bsize chCode si frameNum)
    \<lparr>variableBlockSize = False, blockSize = bsize, sampleRate = si_SampleRate si, channelAssignment = chCode,
     bitsPerSample = si_BitDepth si, number = frameNum\<rparr>"
proof -
  obtain bsCode bsExtN bsExtV where b: "blockSizeCode bsize = (bsCode, bsExtN, bsExtV)" by (metis prod_cases3)
  obtain srCode srExtN srExtV where s: "sampleRateCode (si_SampleRate si) = Some (srCode, srExtN, srExtV)"
    using sampleRateCode_total [OF assms(4)] by blast
  note bo = blockSizeCode_ok [OF assms(1,2) b] and so = sampleRateCode_ok [OF s]
  have ch: "unat (of_nat chCode :: u64) = chCode" using assms(3) unat_of_nat_u64 [of chCode] by simp
  then have ch': "\<not> (11 :: u64) \<le> of_nat chCode" using assms(3) by (simp add: word_le_nat_alt)
  show ?thesis
    unfolding readHeaderFields_def fields_bits_def b s option.sel prod.case
    apply (rule parses_bind [OF parses_zero], simp only: simp_thms if_False)
    apply (rule parses_bind [OF parses_zero])
    apply (rule parses_bind [OF parses_code], use bo(2) in simp, simp)
    apply (rule parses_bind [OF parses_code], use so(2) in simp, simp)
    apply (rule parses_bind [OF parses_code], use assms(3) in simp, simp)
    apply (rule parses_bind [OF parses_code], use bitDepthCode_less [of "si_BitDepth si"] in simp, simp)
    apply (rule parses_bind [OF parses_zero], simp only: simp_thms if_False ch')
    apply (rule parses_bind [OF parses_readCodedNumber [OF assms(5)]])
    apply (rule parses_bind [OF bo(1)])
    apply (rule parses_bind_ret [OF so(1)])
    apply (rule parses_bind_ret [OF bitDepthCode_ok])
    apply (simp add: ch parses_ret)
    done
qed

lemma length_utf8_bits: "length (utf8_bits v) mod 8 = 0"
proof -
  have "length (concat (map (\<lambda>i. bits_msb 8 (f i :: u64)) xs)) = 8 * length xs" for f and xs :: "nat list"
    by (induction xs) simp_all
  then show ?thesis by (simp add: utf8_bits_def del: length_concat)
qed

lemma length_fields_bits:
  assumes "1 \<le> bsize" "bsize \<le> 65536" "0 < si_SampleRate si"
  shows "length (bits_msb 14 syncCode @ fields_bits bsize chCode si frameNum) mod 8 = 0"
proof -
  obtain bsCode bsExtN bsExtV where b: "blockSizeCode bsize = (bsCode, bsExtN, bsExtV)" by (metis prod_cases3)
  obtain srCode srExtN srExtV where s: "sampleRateCode (si_SampleRate si) = Some (srCode, srExtN, srExtV)"
    using sampleRateCode_total [OF assms(3)] by blast
  have "length (ext_bits bsExtN bsExtV) mod 8 = 0" "length (ext_bits srExtN (int srExtV)) mod 8 = 0"
    using blockSizeCode_ok(3) [OF assms(1,2) b] sampleRateCode_ok(3) [OF s] by (auto simp: ext_bits_def)
  then show ?thesis using length_utf8_bits [of frameNum] by (auto simp: fields_bits_def b s)
qed

text \<open>The bytes of a header before its CRC-8.\<close>

definition header_bytes :: "nat \<Rightarrow> nat \<Rightarrow> StreamInfo \<Rightarrow> u64 \<Rightarrow> u8 list \<Rightarrow> bool" where
  "header_bytes bsize chCode si frameNum bytes \<longleftrightarrow>
     byte_bits bytes = bits_msb 14 syncCode @ fields_bits bsize chCode si frameNum"

lemma writeFrameHeader_ok:
  assumes "1 \<le> bsize" "bsize \<le> 65536" "0 < si_SampleRate si" "wf_writer bw" "length (wbits bw) mod 8 = 0"
  shows "\<exists>bytes bw'. writeFrameHeader bsize chCode (si_SampleRate si) (si_BitDepth si) frameNum bw = Some bw'
    \<and> wf_writer bw' \<and> header_bytes bsize chCode si frameNum bytes
    \<and> wbits bw' = wbits bw @ byte_bits (bytes @ [Checksum8 bytes])"
proof -
  obtain bsCode bsExtN bsExtV where b: "blockSizeCode bsize = (bsCode, bsExtN, bsExtV)" by (metis prod_cases3)
  obtain srCode srExtN srExtV where s: "sampleRateCode (si_SampleRate si) = Some (srCode, srExtN, srExtV)"
    using sampleRateCode_total [OF assms(3)] by blast
  have n: "bsExtN \<le> 64" "srExtN \<le> 64" using blockSizeCode_ok(3) [OF assms(1,2) b] sampleRateCode_ok(3) [OF s] by auto
  define f where "f = (\<lambda>bw. writeExt srExtN (int srExtV) (writeExt bsExtN bsExtV (writeUTF8 frameNum
      (WriteBits 0 1 (WriteBits (of_nat (bitDepthCode (si_BitDepth si))) 3
      (WriteBits (of_nat chCode) 4 (WriteBits (of_nat srCode) 4 (WriteBits (of_nat bsCode) 4
      (WriteBits 0 1 (WriteBits 0 1 (WriteBits syncCode 14 bw)))))))))))"
  have em: "emits f (bits_msb 14 syncCode @ fields_bits bsize chCode si frameNum)"
    using emits_comp [OF emits_comp [OF emits_comp [OF emits_comp [OF emits_comp [OF emits_comp [OF emits_comp [OF emits_comp [OF
      emits_comp [OF emits_comp [OF emits_WriteBits [of 14 syncCode] emits_WriteBits [of 1 0]] emits_WriteBits [of 1 0]]
      emits_WriteBits [of 4 "of_nat bsCode"]] emits_WriteBits [of 4 "of_nat srCode"]] emits_WriteBits [of 4 "of_nat chCode"]]
      emits_WriteBits [of 3 "of_nat (bitDepthCode (si_BitDepth si))"]] emits_WriteBits [of 1 0]] emits_writeUTF8 [of frameNum]]
      emits_writeExt [OF n(1), of bsExtV]] emits_writeExt [OF n(2), of "int srExtV"]]
    by (simp add: f_def fields_bits_def b s)
  note B = Bytes_ok [OF assms(4,5)]
  let ?bw1 = "f (snd (Bytes bw))"
  have bw1: "wf_writer ?bw1" "wbits ?bw1 = wbits bw @ bits_msb 14 syncCode @ fields_bits bsize chCode si frameNum"
    using emitsD [OF em B(2)] B(3) by simp_all
  have al: "length (wbits ?bw1) mod 8 = 0"
    using bw1(2) assms(5) length_fields_bits [OF assms(1-3), of chCode frameNum] by (metis length_append mod_add_eq add_0 mod_0)
  note B1 = Bytes_ok [OF bw1(1) al]
  let ?hdr = "drop (length (fst (Bytes bw))) (fst (Bytes ?bw1))"
  have len: "8 * length (fst (Bytes bw)) = length (wbits bw)" by (simp flip: B(1))
  have h: "byte_bits ?hdr = bits_msb 14 syncCode @ fields_bits bsize chCode si frameNum"
    unfolding drop_byte_bits [symmetric] B1(1) bw1(2) len by simp
  have c: "bits_msb 8 (ucast (Checksum8 ?hdr) :: u64) = bits_msb 8 (Checksum8 ?hdr)"
    by (intro nth_equalityI) (auto simp: nth_bits_msb bit_simps)
  have w: "writeFrameHeader bsize chCode (si_SampleRate si) (si_BitDepth si) frameNum bw
      = Some (WriteBits (ucast (Checksum8 ?hdr)) 8 (snd (Bytes ?bw1)))"
    unfolding writeFrameHeader_def b s f_def by (simp add: Let_def split_beta)
  show ?thesis
    using emitsD [OF emits_WriteBits [of 8 "ucast (Checksum8 ?hdr)"] B1(2)] B1(3) bw1(2) h c w
    by (intro exI [of _ ?hdr] exI [of _ "WriteBits (ucast (Checksum8 ?hdr)) 8 (snd (Bytes ?bw1))"]) (simp add: header_bytes_def)
qed

section \<open>Reading a written header back\<close>

lemma byte_bits_Nil_iff: "byte_bits ys = [] \<longleftrightarrow> ys = []"
proof -
  have "length (byte_bits ys) = 0 \<longleftrightarrow> length ys = 0" by (simp only: length_byte_bits) simp
  then show ?thesis by (simp only: length_0_conv)
qed

lemma byte_bits_inj: "byte_bits xs = byte_bits ys \<longleftrightarrow> xs = ys"
proof (induction xs arbitrary: ys)
  case Nil
  show ?case using byte_bits_Nil_iff [of ys] by auto
next
  case (Cons x xs)
  note IH = Cons.IH
  show ?case
  proof (cases ys)
    case (Cons y ys')
    have "x = y" if "bits_msb 8 x = bits_msb 8 y" using bits_msb_inj [OF that] by (simp add: take_bit_word_eq_self)
    then show ?thesis using Cons IH [of ys'] by auto
  qed (simp add: byte_bits_Nil_iff del: byte_bits_simps(2))
qed

lemma advance_bytes:
  assumes "at_bits (byte_bits bytes @ rest) rd" "roff rd = 0" "advance (8 * length bytes) rd rd'"
  shows "rbytes rd = bytes @ rbytes rd'" "roff rd' = 0" "vtap rd' = tapf rd (vtap rd) bytes"
proof -
  have a: "take (8 * length bytes) (rbits rd) = byte_bits bytes"
    using at_bits_appD [OF assms(1)] by (simp add: at_bits_def)
  have "rbits rd = byte_bits (rbytes rd)"
    using assms(2) by (simp add: rbits_def)
  then have "byte_bits (take (length bytes) (rbytes rd)) = byte_bits bytes" using a by (simp add: take_byte_bits)
  then have t: "take (length bytes) (rbytes rd) = bytes" by (simp add: byte_bits_inj)
  then show "rbytes rd = bytes @ rbytes rd'" "roff rd' = 0" "vtap rd' = tapf rd (vtap rd) bytes"
    using assms(2,3) append_take_drop_id [of "length bytes" "rbytes rd"] by (simp_all add: advance_def)
qed

text \<open>The parser after the fields of a header, with any byte in the place of the checksum.\<close>

lemma readHeaderBody_stored:
  assumes valid: "1 \<le> bsize" "bsize \<le> 65536" "chCode \<le> 10" "0 < si_SampleRate si" "unat frameNum < 2 ^ 36"
    and bytes: "header_bytes bsize chCode si frameNum bytes" "at_bits (byte_bits (bytes @ [c])) rd" "roff rd = 0"
    and tap: "rd_tap rd = Some f" "\<And>s. c8 (foldl f s bytes) = foldl Update8 (c8 s) bytes" "c8 (rd_tapSt rd) = 0"
  shows "\<exists>rd'. readHeaderBody c8 si rd =
      (if c = Checksum8 bytes
       then Inr \<lparr>variableBlockSize = False, blockSize = bsize, sampleRate = si_SampleRate si, channelAssignment = chCode,
            bitsPerSample = si_BitDepth si, number = frameNum\<rparr>
       else Inl ErrCRCMismatch, rd')
    \<and> advance (8 * length (bytes @ [c])) rd rd'"
proof -
  let ?F = "fields_bits bsize chCode si frameNum" and ?C = "bits_msb 8 c"
  let ?h = "\<lparr>variableBlockSize = False, blockSize = bsize, sampleRate = si_SampleRate si, channelAssignment = chCode,
            bitsPerSample = si_BitDepth si, number = frameNum\<rparr>"
  have bits: "byte_bits (bytes @ [c]) = bits_msb 14 syncCode @ ?F @ ?C"
    using bytes(1) by (simp add: header_bytes_def)
  have len: "14 + length ?F = 8 * length bytes"
    using arg_cong [OF bytes(1) [unfolded header_bytes_def], of length] by simp
  note wf = at_bits_wf [OF bytes(2)]
  note at0 = bytes(2) [unfolded bits]
  have sync: "take_bit 14 syncCode = syncCode" by (simp add: syncCode_def)
  obtain rd1 where 1: "ReadBits 14 rd = (Inr syncCode, rd1)" "advance 14 rd rd1"
    using parsesE [OF parses_ReadBits_val [of 14 syncCode] at_bits_appD [OF at0]] sync by auto
  have at1: "at_bits (?F @ ?C) rd1" using at_bits_advance [OF at0] 1(2) by simp
  obtain rd2 where 2: "readHeaderFields si rd1 = (Inr ?h, rd2)" "advance (length ?F) rd1 rd2"
    using parsesE [OF parses_readHeaderFields [OF valid] at_bits_appD [OF at1]] .
  have adv2: "advance (8 * length bytes) rd rd2" using advance_trans [OF wf 1(2) 2(2)] len by simp
  have at2: "at_bits ?C rd2" using at_bits_advance [OF at1 2(2)] .
  have "at_bits (byte_bits bytes @ ?C) rd" using bytes(2) by simp
  from advance_bytes(3) [OF this bytes(3) adv2] have "vtap rd2 = foldl f (rd_tapSt rd) bytes"
    using tap(1) by (simp add: vtap_def tapf_def)
  moreover have "rd_tap rd2 = Some f" using adv2 tap(1) by (simp add: advance_def)
  ultimately have sum: "c8 (rd_tapSt rd2) = Checksum8 bytes"
    using tap(2,3) by (simp add: vtap_def Checksum8_def)
  have C: "?C = bits_msb 8 (ucast c :: u64)"
    by (rule bits_msb_cong) (auto simp: bit_simps dest: bit_imp_le_length)
  obtain rd3 where 3: "ReadBits 8 rd2 = (Inr (ucast c), rd3)" "advance 8 rd2 rd3"
    using parsesE [OF parses_byte at2 [unfolded C]] by auto
  have inj: "(ucast c :: u64) = ucast d \<longleftrightarrow> c = d" for d :: u8
    by (auto simp: word_uint_eq_iff uint_up_ucast is_up)
  have "readHeaderBody c8 si rd = (if c = Checksum8 bytes then Inr ?h else Inl ErrCRCMismatch, rd3)"
    by (simp add: readHeaderBody_def bindR_def 1 mapErrR_def 2 getsR_def sum 3 retR_def failR_def inj)
  moreover have "advance (8 * length (bytes @ [c])) rd rd3"
    using advance_trans [OF wf adv2 3(2)] by (simp add: add.commute)
  ultimately show ?thesis by blast
qed

lemma readHeaderBody_ok:
  assumes valid: "1 \<le> bsize" "bsize \<le> 65536" "chCode \<le> 10" "0 < si_SampleRate si" "unat frameNum < 2 ^ 36"
    and bytes: "header_bytes bsize chCode si frameNum bytes" "at_bits (byte_bits (bytes @ [Checksum8 bytes])) rd" "roff rd = 0"
    and tap: "rd_tap rd = Some f" "\<And>s. c8 (foldl f s bytes) = foldl Update8 (c8 s) bytes" "c8 (rd_tapSt rd) = 0"
  shows "\<exists>rd'. readHeaderBody c8 si rd =
      (Inr \<lparr>variableBlockSize = False, blockSize = bsize, sampleRate = si_SampleRate si, channelAssignment = chCode,
            bitsPerSample = si_BitDepth si, number = frameNum\<rparr>, rd')
    \<and> advance (8 * length (bytes @ [Checksum8 bytes])) rd rd'"
  using readHeaderBody_stored [OF valid bytes tap] by simp

end
