(* ===== verification/Bitio_Setup.thy ===== *)
theory Bitio_Setup
  imports Parsing
begin

text \<open>
  Setting a reader up (\<^verbatim>\<open>src/internal/bitio/reader.go\<close>): new and reset readers stand at the
  first byte of their source, and installing a tap, switching it to deferred runs and
  flushing it move nothing; they only decide what the tap's state will be.
\<close>

section \<open>Fresh readers\<close>

lemma fresh_reader_ok:
  assumes "minReadBlock \<le> length buf"
  shows "wf_reader (fresh_reader src buf t)" "rbytes (fresh_reader src buf t) = fst (src_bytes 0 src)"
    "roff (fresh_reader src buf t) = 0" "rend (fresh_reader src buf t) = snd (src_bytes 0 src)"
    "rpos (fresh_reader src buf t) = 0" "rd_tap (fresh_reader src buf t) = None" "rd_rtap (fresh_reader src buf t) = None"
  using assms
  by (simp_all add: fresh_reader_def wf_reader_def rbytes_def roff_def rend_def rpos_def consumedBytes_def)

lemma NewReaderSize_ok:
  "wf_reader (NewReaderSize src k t)" "rbytes (NewReaderSize src k t) = fst (src_bytes 0 src)"
  "roff (NewReaderSize src k t) = 0" "rend (NewReaderSize src k t) = snd (src_bytes 0 src)" "rpos (NewReaderSize src k t) = 0"
  unfolding NewReaderSize_def by (rule fresh_reader_ok, simp)+

lemma NewReader_ok:
  "wf_reader (NewReader src t)" "rbytes (NewReader src t) = fst (src_bytes 0 src)"
  "roff (NewReader src t) = 0" "rend (NewReader src t) = snd (src_bytes 0 src)" "rpos (NewReader src t) = 0"
  unfolding NewReader_def by (rule NewReaderSize_ok)+

lemma Reset_ok:
  assumes "rd_buf rd = [] \<or> minReadBlock \<le> length (rd_buf rd)"
  shows "wf_reader (Reset src rd)" "rbytes (Reset src rd) = fst (src_bytes 0 src)"
    "roff (Reset src rd) = 0" "rend (Reset src rd) = snd (src_bytes 0 src)" "rpos (Reset src rd) = 0"
proof -
  have "minReadBlock \<le> length (if rd_buf rd = [] then replicate readBlock 0 else rd_buf rd)"
    using assms by (auto simp: minReadBlock_def readBlock_def)
  note f = fresh_reader_ok [OF this]
  show "wf_reader (Reset src rd)" "rbytes (Reset src rd) = fst (src_bytes 0 src)"
    "roff (Reset src rd) = 0" "rend (Reset src rd) = snd (src_bytes 0 src)" "rpos (Reset src rd) = 0"
    unfolding Reset_def Let_def by (rule f)+
qed

lemma rbits_aligned: "roff rd = 0 \<Longrightarrow> rbits rd = byte_bits (rbytes rd)"
  by (simp add: rbits_def)

lemma src_bytes_one: "fst (src_bytes 0 [Chunk bs (Some e)]) = bs" "snd (src_bytes 0 [Chunk bs (Some e)]) = e"
  by simp_all

text \<open>
  All the bytes a source has, the ones behind its first error included. What it delivers to
  a reader is always a prefix of them.
\<close>

fun src_all :: "chunk list \<Rightarrow> u8 list" where
  "src_all [] = []"
| "src_all (Chunk bs e # cs) = bs @ src_all cs"

lemma src_read_src_all: "src_read k src = (bs, e, src') \<Longrightarrow> src_all src = bs @ src_all src'"
  by (induction k src rule: src_read.induct) (auto split: if_splits)

lemma src_bytes_src_all: "\<exists>rest. src_all src = fst (src_bytes k src) @ rest"
  by (induction k src rule: src_bytes.induct) (auto split: option.splits)

section \<open>Taps\<close>

text \<open>What stays when only the tap changes.\<close>

definition same_place :: "'t reader \<Rightarrow> 't reader \<Rightarrow> bool" where
  "same_place rd rd' \<longleftrightarrow> rbytes rd' = rbytes rd \<and> roff rd' = roff rd \<and> rend rd' = rend rd
     \<and> rpos rd' = rpos rd \<and> rd_basePos rd' = rd_basePos rd"

lemma same_place_bits: "same_place rd rd' \<Longrightarrow> rbits rd' = rbits rd"
  by (simp add: same_place_def rbits_def)

lemma SetTapper_Some:
  assumes "wf_reader rd" "\<forall>g. rtap = Some g \<longrightarrow> range_tap g"
  shows "wf_reader (SetTapper (Some (tap, rtap, st)) rd)" "same_place rd (SetTapper (Some (tap, rtap, st)) rd)"
    "vtap (SetTapper (Some (tap, rtap, st)) rd) = st" "rd_tap (SetTapper (Some (tap, rtap, st)) rd) = Some tap"
    "rd_rtap (SetTapper (Some (tap, rtap, st)) rd) = rtap"
  using assms
  by (auto simp: SetTapper_def wf_reader_def same_place_def vtap_def rbytes_def roff_def rend_def rpos_def consumedBytes_def)

lemma SetTapper_None:
  assumes "wf_reader rd"
  shows "wf_reader (SetTapper None rd)" "same_place rd (SetTapper None rd)"
    "rd_tap (SetTapper None rd) = None" "rd_rtap (SetTapper None rd) = None" "rd_tapSt (SetTapper None rd) = rd_tapSt rd"
  using assms
  by (auto simp: SetTapper_def wf_reader_def same_place_def rbytes_def roff_def rend_def rpos_def consumedBytes_def)

lemma SwitchTapToDeferred_ok:
  assumes "wf_reader rd" "rd_tap rd = Some f" "rd_rtap rd = Some g"
  shows "wf_reader (SwitchTapToDeferred rd)" "same_place rd (SwitchTapToDeferred rd)"
    "vtap (SwitchTapToDeferred rd) = vtap rd" "rd_tap (SwitchTapToDeferred rd) = None" "rd_rtap (SwitchTapToDeferred rd) = Some g"
proof -
  have eq: "SwitchTapToDeferred rd = rd\<lparr>rd_tap := None\<rparr>" using assms(3) by (simp add: SwitchTapToDeferred_def)
  have c: "rd_tapCur rd = consumedBytes rd" using wf_readerD(9) [OF assms(1)] assms(2) by simp
  have g: "range_tap g" using wf_readerD(11) [OF assms(1,3)] .
  show "wf_reader (SwitchTapToDeferred rd)" "same_place rd (SwitchTapToDeferred rd)"
    "rd_tap (SwitchTapToDeferred rd) = None" "rd_rtap (SwitchTapToDeferred rd) = Some g"
    using assms by (auto simp: eq wf_reader_def same_place_def rbytes_def roff_def rend_def rpos_def consumedBytes_def)
  have "untapped (SwitchTapToDeferred rd) = []" by (rule untapped_Nil) (simp add: eq c, simp add: consumedBytes_def)
  then show "vtap (SwitchTapToDeferred rd) = vtap rd"
    using assms(2,3) range_tapD(1) [OF g] by (simp add: vtap_def tapf_def) (simp add: eq tapf_def)
qed

text \<open>After a flush the tap's state has everything consumed so far.\<close>

lemma FlushTap_vtap:
  assumes "wf_reader rd" "rd_tap rd = None" "rd_rtap rd = Some g"
  shows "rd_tapSt (FlushTap rd) = vtap rd"
proof -
  note a = advance_FlushTap [OF assms(1)]
  have e: "rd_tap (FlushTap rd) = None" "rd_rtap (FlushTap rd) = Some g" using a(1) assms by (simp_all add: advance_def)
  have "vtap (FlushTap rd) = vtap rd"
    using a(1) tapf_laws(1) [OF assms(1)] roff_less [of rd] by (simp add: advance_def)
  moreover have "untapped (FlushTap rd) = []" using a(2) assms(3) by (intro untapped_Nil) simp
  ultimately show ?thesis
    using e range_tapD(1) [OF wf_readerD(11) [OF advanceD(1) [OF a(1)] e(2)]] by (simp add: vtap_def tapf_def)
qed

section \<open>Reading a byte slice\<close>

text \<open>\<open>bytes.NewReader\<close> delivers the slice and then the end of file.\<close>

definition bytesReader :: "u8 list \<Rightarrow> chunk list" where
  "bytesReader data = [Chunk data None]"

definition reusable :: "'t reader \<Rightarrow> bool" where
  "reusable rd \<longleftrightarrow> rd_buf rd = [] \<or> minReadBlock \<le> length (rd_buf rd)"

lemma reusable_wf: "wf_reader rd \<Longrightarrow> reusable rd"
  by (simp add: reusable_def wf_reader_def)

lemma Reset_bytes:
  assumes "reusable rd" "data \<noteq> []"
  shows "wf_reader (Reset (bytesReader data) rd)" "rbytes (Reset (bytesReader data) rd) = data"
    "roff (Reset (bytesReader data) rd) = 0" "rpos (Reset (bytesReader data) rd) = 0"
    "rd_basePos (Reset (bytesReader data) rd) = 0" "rend (Reset (bytesReader data) rd) = EOF"
  using Reset_ok [of rd "bytesReader data"] assms
  by (simp_all add: reusable_def bytesReader_def Reset_def fresh_reader_def Let_def)

lemma BytesRead_rpos: "BytesRead rd = rd_basePos rd + rpos rd div 8"
  by (simp add: BytesRead_def rpos_def)

lemma bytesReader_bytes [simp]:
  "fst (src_bytes 0 (bytesReader data)) = data" "snd (src_bytes 0 (bytesReader data)) = EOF"
  by (simp_all add: bytesReader_def maxEmptyReads_def)

end
