(* ===== verification/Frame_Decode.thy ===== *)
theory Frame_Decode
  imports Subframe Frame_Header Bitio_Setup
begin

text \<open>
  Decoding one frame, \<^verbatim>\<open>src/internal/frame/frame.go\<close> and \<^verbatim>\<open>decorrelate.go\<close>: the
  CRC tap, the channels of an independent or a stereo frame with the deferred range
  verdict, and \<open>Decode\<close>. The lemmas show what an accepted frame guarantees whatever
  the input: its channels have the frame's length and depth, and the CRC-16 stored behind
  it is the checksum of every byte of the frame. The bulk fold \<open>crc.Checksum16\<close> is
  the routine of a third-party package and a parameter, \<open>cs\<close>. The decoded channels are
  returned as a value: a row that \<open>ensureChannels\<close> reuses is written over as a whole
  by the subframe decoded into it.
\<close>

section \<open>The CRC tap\<close>

record frameCRC =
  fc_c8 :: u8
  fc_scratch :: "u8 list"

definition fcReset :: frameCRC where
  "fcReset = \<lparr>fc_c8 = 0, fc_scratch = []\<rparr>"

definition TapByte :: "frameCRC \<Rightarrow> u8 \<Rightarrow> frameCRC" where
  "TapByte fc b = fc\<lparr>fc_scratch := fc_scratch fc @ [b], fc_c8 := Update8 (fc_c8 fc) b\<rparr>"

definition TapBytes :: "frameCRC \<Rightarrow> u8 list \<Rightarrow> frameCRC" where
  "TapBytes fc p = fc\<lparr>fc_scratch := fc_scratch fc @ p\<rparr>"

definition sum16 :: "(u8 list \<Rightarrow> u16) \<Rightarrow> frameCRC \<Rightarrow> u16" where
  "sum16 cs fc = cs (fc_scratch fc)"

section \<open>Undoing the stereo decorrelation\<close>

definition decorrelateLeftSide :: "i32 list \<Rightarrow> i32 list \<Rightarrow> i32 list \<Rightarrow> i32 list \<times> i32 list" where
  "decorrelateLeftSide left side outR = (left, Sub outR left side)"

definition decorrelateRightSide :: "i32 list \<Rightarrow> i32 list \<Rightarrow> i32 list \<Rightarrow> i32 list \<times> i32 list" where
  "decorrelateRightSide side right outL = (Add outL right side, right)"

definition decorrelateMidSide :: "i32 list \<Rightarrow> i32 list \<Rightarrow> i32 list \<Rightarrow> i32 list \<Rightarrow> i32 list \<times> i32 list" where
  "decorrelateMidSide mid side outL outR = MidSideDecode outL outR mid side"

text \<open>
  The wide variants test each computed sample before it is narrowed; \<open>None\<close> stands for
  their verdict \<open>false\<close>, which leaves the outputs unspecified.
\<close>

definition outside :: "nat \<Rightarrow> i64 \<Rightarrow> bool" where
  "outside bps v = (let lim = push_bit (bps - 1) 1 in v <s - lim \<or> lim \<le>s v)"

definition decorrelateLeftSide64 :: "i64 list \<Rightarrow> i64 list \<Rightarrow> nat \<Rightarrow> (i32 list \<times> i32 list) option" where
  "decorrelateLeftSide64 left side bps =
     (let rs = map2 (\<lambda>l s. l - s) left side
      in if list_ex (outside bps) rs then None else Some (map ucast left, map ucast rs))"

definition decorrelateRightSide64 :: "i64 list \<Rightarrow> i64 list \<Rightarrow> nat \<Rightarrow> (i32 list \<times> i32 list) option" where
  "decorrelateRightSide64 side right bps =
     (let ls = map2 (\<lambda>s r. r + s) side right
      in if list_ex (outside bps) ls then None else Some (map ucast ls, map ucast right))"

definition decorrelateMidSide64 :: "i64 list \<Rightarrow> i64 list \<Rightarrow> nat \<Rightarrow> (i32 list \<times> i32 list) option" where
  "decorrelateMidSide64 mid side bps =
     (let ms = map2 (\<lambda>m s. push_bit 1 m OR (s AND 1)) mid side;
          ls = map2 (\<lambda>m s. signed_drop_bit 1 (m + s)) ms side;
          rs = map2 (\<lambda>m s. signed_drop_bit 1 (m - s)) ms side
      in if list_ex (outside bps) ls \<or> list_ex (outside bps) rs then None else Some (map ucast ls, map ucast rs))"

section \<open>The channels of a frame\<close>

text \<open>
  A subframe out of range does not end the frame: \<open>deferR\<close> turns
  \<open>errSubframeOutOfRange\<close> into the result \<open>None\<close> and passes any other error on.
\<close>

definition deferR :: "('a, 't) rm \<Rightarrow> ('a option, 't) rm" where
  "deferR m rd =
     (case m rd of
        (Inl e, rd') \<Rightarrow> (if e = ErrSubframeOutOfRange then (Inr None, rd') else (Inl e, rd'))
      | (Inr x, rd') \<Rightarrow> (Inr (Some x), rd'))"

definition decodeDeferred :: "(nat \<Rightarrow> nat \<Rightarrow> ('a, 't) rm) \<Rightarrow> nat \<Rightarrow> nat \<Rightarrow> ('a option, 't) rm" where
  "decodeDeferred decode n bps = deferR (decode n bps)"

definition decodePair :: "(nat \<Rightarrow> nat \<Rightarrow> ('a, 't) rm) \<Rightarrow> nat \<Rightarrow> nat \<Rightarrow> nat \<Rightarrow> (('a \<times> 'a) option, 't) rm" where
  "decodePair decode n wa wb =
     bindR (decodeDeferred decode n wa) (\<lambda>a.
     bindR (decodeDeferred decode n wb) (\<lambda>b.
     retR (case (a, b) of (Some x, Some y) \<Rightarrow> Some (x, y) | _ \<Rightarrow> None)))"

definition stereo32 :: "nat \<Rightarrow> nat \<Rightarrow> i32 list \<times> i32 list \<Rightarrow> (i32 list \<times> i32 list) option" where
  "stereo32 assignment bps ab =
     (case ab of (a, b) \<Rightarrow>
       let out = replicate (length a) 0
       in if assignment = 8 then
            (case decorrelateLeftSide a b out of (l, r) \<Rightarrow> if inRange32 r bps then Some (l, r) else None)
          else if assignment = 9 then
            (case decorrelateRightSide a b out of (l, r) \<Rightarrow> if inRange32 l bps then Some (l, r) else None)
          else
            (case decorrelateMidSide a b out out of (l, r) \<Rightarrow>
               if inRange32 l bps \<and> inRange32 r bps then Some (l, r) else None))"

definition stereo64 :: "nat \<Rightarrow> nat \<Rightarrow> i64 list \<times> i64 list \<Rightarrow> (i32 list \<times> i32 list) option" where
  "stereo64 assignment bps ab =
     (case ab of (a, b) \<Rightarrow>
       if assignment = 8 then decorrelateLeftSide64 a b bps
       else if assignment = 9 then decorrelateRightSide64 a b bps
       else decorrelateMidSide64 a b bps)"

definition decodeStereoDecorrelated :: "header \<Rightarrow> ((i32 list \<times> i32 list) option, 't) rm" where
  "decodeStereoDecorrelated hdr =
     (let n = blockSize hdr; bps = bitsPerSample hdr; asg = channelAssignment hdr;
          (wa, wb) = (if asg = 9 then (bps + 1, bps) else (bps, bps + 1))
      in if bps \<ge> 25
         then bindR (decodePair decodeSubframe64 n wa wb) (\<lambda>ab. retR (Option.bind ab (stereo64 asg bps)))
         else bindR (decodePair decodeSubframe n wa wb) (\<lambda>ab. retR (Option.bind ab (stereo32 asg bps))))"

definition decodeIndependent :: "header \<Rightarrow> (i32 list option list, 't) rm" where
  "decodeIndependent hdr =
     (let n = blockSize hdr; bps = bitsPerSample hdr
      in readN (channels hdr)
           (if bps \<ge> 25 then deferR (bindR (decodeSubframe64 n bps) (\<lambda>scratch. retR (map ucast scratch)))
            else deferR (decodeSubframe n bps)))"

definition decodeChannels :: "header \<Rightarrow> (i32 list list option, 't) rm" where
  "decodeChannels hdr =
     (if channelAssignment hdr \<le> 7
      then bindR (decodeIndependent hdr) (\<lambda>cs. retR (if list_ex (\<lambda>c. c = None) cs then None else Some (map the cs)))
      else bindR (decodeStereoDecorrelated hdr) (\<lambda>lr. retR (map_option (\<lambda>(l, r). [l, r]) lr)))"

section \<open>The frame\<close>

record Frame =
  fr_BlockSize :: nat
  fr_SampleRate :: nat
  fr_BitsPerSample :: nat
  fr_Channels :: "i32 list list"
  fr_Number :: u64
  fr_VariableBlockSize :: bool

definition decodeFrameBody :: "(u8 list \<Rightarrow> u16) \<Rightarrow> header \<Rightarrow> (Frame, frameCRC) rm" where
  "decodeFrameBody cs hdr =
     bindR (decodeChannels hdr) (\<lambda>chans.
     bindR (skipR SkipToByteBoundary) (\<lambda>_.
     bindR (skipR FlushTap) (\<lambda>_.
     bindR (getsR (\<lambda>rd. sum16 cs (rd_tapSt rd))) (\<lambda>computed.
     bindR (ReadBits 16) (\<lambda>stored.
     if stored \<noteq> ucast computed then failR ErrCRCMismatch
     else case chans of
            None \<Rightarrow> failR ErrSampleOutOfRange
          | Some ch \<Rightarrow>
              retR \<lparr>fr_BlockSize = blockSize hdr, fr_SampleRate = sampleRate hdr, fr_BitsPerSample = bitsPerSample hdr,
                    fr_Channels = ch, fr_Number = number hdr, fr_VariableBlockSize = variableBlockSize hdr\<rparr>)))))"

definition Decode :: "(u8 list \<Rightarrow> u16) \<Rightarrow> StreamInfo \<Rightarrow> (Frame, frameCRC) rm" where
  "Decode cs si rd =
     (case readHeaderBody fc_c8 si (SetTapper (Some (TapByte, Some TapBytes, fcReset)) rd) of
        (Inl e, rd) \<Rightarrow> (Inl e, SetTapper None rd)
      | (Inr hdr, rd) \<Rightarrow>
          (case mapErrR noEOF (decodeFrameBody cs hdr) (SwitchTapToDeferred rd) of
             (res, rd) \<Rightarrow> (res, SetTapper None rd)))"

section \<open>What the header guarantees\<close>

lemma runs_any: "runs m P \<Longrightarrow> runs m (\<lambda>_. True)"
  by (erule runs_weaken) simp

lemma runs_readContinuation: "runs (readContinuation n v) (\<lambda>_. True)"
proof (induction n arbitrary: v)
  case (Suc n)
  then show ?case by (auto intro!: runs_bind [OF runs_ReadBits] runs_if)
qed auto

lemma runs_readCodedNumber: "runs readCodedNumber (\<lambda>_. True)"
  unfolding readCodedNumber_def
  by (auto intro!: runs_bind [OF runs_ReadBits] runs_if runs_readContinuation split: option.split)

lemma pow2_le: "k \<le> n \<Longrightarrow> (2::nat) ^ k \<le> 2 ^ n"
  by (rule power_increasing) auto

lemma runs_decodeBlockSize:
  assumes "unat code < 16"
  shows "runs (decodeBlockSize code) (\<lambda>n. 1 \<le> n \<and> n \<le> 65536)"
proof -
  have s: "576 * 2 ^ unat (code - 2) \<le> (65536 :: nat)" if "2 \<le> code \<and> code \<le> 5"
  proof -
    have "(2::nat) ^ unat (code - 2) \<le> 2 ^ 3" using that by (intro pow2_le) (auto simp: unat_sub word_le_nat_alt)
    then show ?thesis by simp
  qed
  have l: "256 * 2 ^ unat (code - 8) \<le> (65536 :: nat)" if "8 \<le> code"
  proof -
    have "(2::nat) ^ unat (code - 8) \<le> 2 ^ 8" using that assms by (intro pow2_le) (simp add: unat_sub word_le_nat_alt)
    then show ?thesis by simp
  qed
  have c: "8 \<le> code" if "code \<noteq> 0" "code \<noteq> 1" "\<not> (2 \<le> code \<and> code \<le> 5)" "code \<noteq> 6" "code \<noteq> 7"
  proof (rule ccontr)
    assume "\<not> 8 \<le> code"
    then have "unat code \<in> set [0..<8]" by (simp add: word_le_nat_alt)
    then have "code \<in> of_nat ` set [0..<8]" by (intro image_eqI [of _ _ "unat code"]) simp_all
    then have "code \<in> {0, 1, 2, 3, 4, 5, 6, 7}" by (simp add: upt_rec)
    then show False using that by auto
  qed
  show ?thesis
    unfolding decodeBlockSize_def
  proof (intro runs_if runs_fail runs_ret conjI runs_bind [OF runs_ReadBits])
    show "576 * 2 ^ unat (code - 2) \<le> (65536 :: nat)" if "2 \<le> code \<and> code \<le> 5" using that by (rule s)
    show "256 * 2 ^ unat (code - 8) \<le> (65536 :: nat)"
      if "code \<noteq> 0" "code \<noteq> 1" "\<not> (2 \<le> code \<and> code \<le> 5)" "code \<noteq> 6" "code \<noteq> 7" using that by (intro l c)
  qed simp_all
qed

lemma runs_decodeSampleRate: "runs (decodeSampleRate code si) (\<lambda>_. True)"
  unfolding decodeSampleRate_def by (auto intro!: runs_if runs_bind [OF runs_ReadBits])

definition valid_info :: "StreamInfo \<Rightarrow> bool" where
  "valid_info si \<longleftrightarrow> 1 \<le> si_BitDepth si \<and> si_BitDepth si \<le> 32"

lemma runs_decodeBitsPerSample:
  "valid_info si \<Longrightarrow> runs (decodeBitsPerSample code si) (\<lambda>n. 1 \<le> n \<and> n \<le> 32)"
  unfolding decodeBitsPerSample_def valid_info_def by (auto intro!: runs_if)

definition valid_header :: "header \<Rightarrow> bool" where
  "valid_header h \<longleftrightarrow> 1 \<le> blockSize h \<and> blockSize h \<le> 65536 \<and> channelAssignment h \<le> 10
     \<and> 1 \<le> bitsPerSample h \<and> bitsPerSample h \<le> 32"

lemma runs_readHeaderFields:
  assumes "valid_info si"
  shows "runs (readHeaderFields si) valid_header"
  unfolding readHeaderFields_def
proof (rule runs_bind [OF runs_ReadBits], goal_cases)
  case (2 r1) then show ?case
  proof (intro runs_if runs_fail runs_bind [OF runs_ReadBits], goal_cases)
    case (7 x xa xb xc xd xe) then show ?case
     apply (intro runs_if runs_fail runs_bind [OF runs_readCodedNumber] runs_bind [OF runs_decodeBlockSize]
          runs_bind [OF runs_decodeSampleRate] runs_bind [OF runs_decodeBitsPerSample [OF assms]] runs_ret)
     apply (auto simp: valid_header_def word_le_nat_alt)
     done
  qed simp_all
qed simp

lemma runs_readHeaderBody: "valid_info si \<Longrightarrow> runs (readHeaderBody c8 si) valid_header"
  unfolding readHeaderBody_def
  by (intro runs_bind [OF runs_ReadBits] runs_if runs_fail runs_mapErr runs_bind [OF runs_readHeaderFields]
      runs_bind [OF runs_gets [where P = "\<lambda>_. True"]] runs_ret) auto

section \<open>What the channels guarantee\<close>

definition samples_ok :: "nat \<Rightarrow> nat \<Rightarrow> 'a::len word list \<Rightarrow> bool" where
  "samples_ok n bps xs \<longleftrightarrow> length xs = n \<and> (\<forall>x \<in> set xs. fits bps (sint x))"

lemma runs_deferR:
  fixes m :: "('a, 't) rm"
  assumes "runs m P"
  shows "runs (deferR m) (\<lambda>r. \<forall>x. r = Some x \<longrightarrow> P x)"
proof (rule runsI)
  fix rd :: "'t reader" and x assume wf: "wf_reader rd"
  obtain r rd' where m: "m rd = (r, rd')" by fastforce
  note d = runsD [OF assms wf m]
  show "\<exists>k. advance k rd (snd (deferR m rd))" using d(1) by (cases r) (simp_all add: deferR_def m)
  show "\<forall>y. x = Some y \<longrightarrow> P y" if "fst (deferR m rd) = Inr x"
    using that d(2) by (cases r) (auto simp: deferR_def m split: if_splits)
qed

lemma runs_decodeSubframe: "bps \<le> 32 \<Longrightarrow> runs (decodeSubframe n bps) (samples_ok n bps)"
  unfolding decodeSubframe_def samples_ok_def by (rule sub32.runs_decodeSubframeT) simp_all

lemma runs_decodeSubframe64: "bps \<le> 57 \<Longrightarrow> runs (decodeSubframe64 n bps) (samples_ok n bps)"
  unfolding decodeSubframe64_def samples_ok_def by (rule sub64.runs_decodeSubframeT) simp_all

lemma sint_narrow:
  assumes "fits bps (sint v)" "bps \<le> 32"
  shows "sint (ucast v :: i32) = sint (v :: i64)"
proof -
  have "fits LENGTH(32) (sint v)" using assms fits_mono [of bps "sint v" 32] by simp
  from sint_of_int_fits [OF this] show ?thesis by (simp add: is_down down_cast_same)
qed

lemma samples_ok_narrow:
  "samples_ok n bps xs \<Longrightarrow> bps \<le> 32 \<Longrightarrow> samples_ok n bps (map ucast xs :: i32 list)" for xs :: "i64 list"
  unfolding samples_ok_def by (auto simp: sint_narrow)

lemma runs_decodeIndependent:
  assumes "bitsPerSample hdr \<le> 32"
  shows "runs (decodeIndependent hdr)
    (\<lambda>cs. length cs = channels hdr \<and> (\<forall>c \<in> set cs. \<forall>x. c = Some x \<longrightarrow> samples_ok (blockSize hdr) (bitsPerSample hdr) x))"
  using assms unfolding decodeIndependent_def Let_def
  by (intro runs_readN runs_if runs_deferR runs_bind [OF runs_decodeSubframe64] runs_decodeSubframe runs_ret samples_ok_narrow) simp_all

lemma runs_decodePair:
  assumes "runs (decode n wa) P" "runs (decode n wb) Q"
  shows "runs (decodePair decode n wa wb) (\<lambda>r. \<forall>a b. r = Some (a, b) \<longrightarrow> P a \<and> Q b)"
  unfolding decodePair_def decodeDeferred_def
  by (intro runs_bind [OF runs_deferR [OF assms(1)]] runs_bind [OF runs_deferR [OF assms(2)]] runs_ret)
    (auto split: option.splits)

text \<open>The verdict over the computed channels is the range test at the frame's depth.\<close>

lemma outside_iff: "1 \<le> bps \<Longrightarrow> bps < 64 \<Longrightarrow> outside bps v \<longleftrightarrow> \<not> fits bps (sint v)"
  using inRange64_iff [of bps "[v]"] by (auto simp: inRange64_def outside_def Let_def)

lemma stereo64_ok:
  assumes "stereo64 asg bps (a, b) = Some (l, r)" "samples_ok n wa a" "samples_ok n wb b" "1 \<le> bps" "bps \<le> 32"
    and "asg = 8 \<longrightarrow> wa = bps" "asg = 9 \<longrightarrow> wb = bps"
  shows "samples_ok n bps l \<and> samples_ok n bps r"
proof -
  have len: "length a = n" "length b = n" using assms by (simp_all add: samples_ok_def)
  have "samples_ok n bps (map ucast xs :: i32 list)" if "\<not> list_ex (outside bps) xs" "length xs = n" for xs
    using that assms(4,5) by (intro samples_ok_narrow) (auto simp: samples_ok_def list_ex_iff outside_iff)
  moreover have "samples_ok n bps (map ucast a :: i32 list)" if "asg = 8"
    using that assms by (intro samples_ok_narrow) auto
  moreover have "samples_ok n bps (map ucast b :: i32 list)" if "asg = 9"
    using that assms by (intro samples_ok_narrow) auto
  ultimately show ?thesis
    using assms(1) len
    unfolding stereo64_def decorrelateLeftSide64_def decorrelateRightSide64_def decorrelateMidSide64_def Let_def
    by (auto split: if_splits simp del: map_map)
qed

lemma length_MidSideDecode:
  assumes "MidSideDecode l r m s = (l', r')"
  shows "length l' = length l" "length r' = length r"
  using assms by (auto simp: MidSideDecode_def midSideDecodeGo_def Let_def split: if_splits)

lemma stereo32_ok:
  assumes "stereo32 asg bps (a, b) = Some (l, r)" "samples_ok n wa a" "samples_ok n wb b" "1 \<le> bps" "bps \<le> 32"
    and "asg = 8 \<longrightarrow> wa = bps" "asg = 9 \<longrightarrow> wb = bps"
  shows "samples_ok n bps l \<and> samples_ok n bps r"
  using assms length_MidSideDecode [of "replicate n 0" "replicate n 0" a b l r]
  unfolding stereo32_def decorrelateLeftSide_def decorrelateRightSide_def decorrelateMidSide_def samples_ok_def
  by (auto simp: inRange32_iff Let_def split: if_splits prod.splits)

lemma runs_decodeStereoDecorrelated:
  assumes "1 \<le> bitsPerSample hdr" "bitsPerSample hdr \<le> 32"
  shows "runs (decodeStereoDecorrelated hdr :: ((i32 list \<times> i32 list) option, 't) rm)
    (\<lambda>r. \<forall>l r'. r = Some (l, r') \<longrightarrow> samples_ok (blockSize hdr) (bitsPerSample hdr) l \<and> samples_ok (blockSize hdr) (bitsPerSample hdr) r')"
proof -
  let ?n = "blockSize hdr" and ?b = "bitsPerSample hdr" and ?asg = "channelAssignment hdr"
  define M :: "nat \<Rightarrow> nat \<Rightarrow> ((i32 list \<times> i32 list) option, 't) rm" where "M wa wb =
     (if ?b \<ge> 25 then bindR (decodePair decodeSubframe64 ?n wa wb) (\<lambda>ab. retR (Option.bind ab (stereo64 ?asg ?b)))
      else bindR (decodePair decodeSubframe ?n wa wb) (\<lambda>ab. retR (Option.bind ab (stereo32 ?asg ?b))))" for wa wb
  have M: "decodeStereoDecorrelated hdr = (if ?asg = 9 then M (?b + 1) ?b else M ?b (?b + 1))"
    by (simp add: decodeStereoDecorrelated_def M_def Let_def)
  have m: "runs (M wa wb) (\<lambda>r. \<forall>l r'. r = Some (l, r') \<longrightarrow> samples_ok ?n ?b l \<and> samples_ok ?n ?b r')"
    if w: "wa \<le> ?b + 1" "wb \<le> ?b + 1" "?asg = 8 \<longrightarrow> wa = ?b" "?asg = 9 \<longrightarrow> wb = ?b" for wa wb
    unfolding M_def
  proof (intro runs_if runs_bind [OF runs_decodePair [OF runs_decodeSubframe64 runs_decodeSubframe64]]
      runs_bind [OF runs_decodePair [OF runs_decodeSubframe runs_decodeSubframe]] runs_ret, goal_cases)
    case (3 ab)
    then show ?case using stereo64_ok [OF _ _ _ assms w(3,4)] by (cases ab) (auto simp: Option.bind_eq_Some_conv)
  next
    case (6 ab)
    then show ?case using stereo32_ok [OF _ _ _ assms w(3,4)] by (cases ab) (auto simp: Option.bind_eq_Some_conv)
  qed (use assms w in simp_all)
  show ?thesis unfolding M by (intro runs_if m) simp_all
qed

definition channels_ok :: "header \<Rightarrow> i32 list list \<Rightarrow> bool" where
  "channels_ok hdr chs \<longleftrightarrow> length chs = channels hdr \<and> (\<forall>c \<in> set chs. samples_ok (blockSize hdr) (bitsPerSample hdr) c)"

lemma runs_decodeChannels:
  assumes "valid_header hdr"
  shows "runs (decodeChannels hdr) (\<lambda>r. \<forall>chs. r = Some chs \<longrightarrow> channels_ok hdr chs)"
proof -
  have h: "1 \<le> bitsPerSample hdr" "bitsPerSample hdr \<le> 32" "channelAssignment hdr \<le> 10"
    using assms by (simp_all add: valid_header_def)
  show ?thesis
    unfolding decodeChannels_def
  proof (intro runs_if runs_bind [OF runs_decodeIndependent [OF h(2)]] runs_bind [OF runs_decodeStereoDecorrelated [OF h(1,2)]] runs_ret, goal_cases)
    case (1 cs) then show ?case by (auto simp: channels_ok_def list_ex_iff) (metis option.exhaust_sel)
  next
    case (2 lr)
    then have "channels hdr = 2" using h(3) by (auto simp: channels_def)
    then show ?case using 2 by (auto simp: channels_ok_def)
  qed
qed

section \<open>The tap over a frame\<close>

definition be16 :: "u16 \<Rightarrow> u8 list" where
  "be16 c = [ucast (drop_bit 8 c), ucast c]"

lemma bits_msb_ucast: "n \<le> LENGTH('b) \<Longrightarrow> bits_msb n (ucast x :: 'b::len word) = bits_msb n x" for x :: "'a::len word"
  by (rule nth_equalityI) (auto simp: nth_bits_msb bit_simps)

lemma byte_bits_be16: "byte_bits (be16 c) = bits_msb 16 (ucast c :: u64)"
  using bits_msb_add [of 8 8 c] by (simp add: be16_def bits_msb_ucast)

lemma range_tap_TapBytes: "range_tap TapBytes"
  by (simp add: range_tap_def TapBytes_def)

lemma foldl_TapByte:
  "fc_c8 (foldl TapByte s bytes) = foldl Update8 (fc_c8 s) bytes" "fc_scratch (foldl TapByte s bytes) = fc_scratch s @ bytes"
  by (induction bytes arbitrary: s) (simp_all add: TapByte_def)

text \<open>The reader behind a frame of \<open>n\<close> bytes: at a byte boundary, with no tap.\<close>

definition resumed :: "nat \<Rightarrow> 't reader \<Rightarrow> 't reader \<Rightarrow> bool" where
  "resumed n rd rd' \<longleftrightarrow> wf_reader rd' \<and> rbytes rd' = drop n (rbytes rd) \<and> roff rd' = 0 \<and> rend rd' = rend rd
     \<and> rpos rd' = rpos rd + 8 * n \<and> rd_basePos rd' = rd_basePos rd \<and> rd_tap rd' = None \<and> rd_rtap rd' = None"

definition frameOf :: "header \<Rightarrow> i32 list list \<Rightarrow> Frame" where
  "frameOf hdr ch =
     \<lparr>fr_BlockSize = blockSize hdr, fr_SampleRate = sampleRate hdr, fr_BitsPerSample = bitsPerSample hdr,
      fr_Channels = ch, fr_Number = number hdr, fr_VariableBlockSize = variableBlockSize hdr\<rparr>"

definition verdict :: "header \<Rightarrow> bool \<Rightarrow> i32 list list option \<Rightarrow> err + Frame" where
  "verdict hdr crc_ok chans =
     (if \<not> crc_ok then Inl ErrCRCMismatch
      else case chans of None \<Rightarrow> Inl ErrSampleOutOfRange | Some ch \<Rightarrow> Inr (frameOf hdr ch))"

text \<open>What the end of the body does once the channels are read, for any reader.\<close>

definition decodeFrameEnd :: "(u8 list \<Rightarrow> u16) \<Rightarrow> header \<Rightarrow> i32 list list option \<Rightarrow> (Frame, frameCRC) rm" where
  "decodeFrameEnd cs hdr chans rd =
     (let rd2 = FlushTap (SkipToByteBoundary rd)
      in case ReadBits 16 rd2 of
           (Inl e, rd3) \<Rightarrow> (Inl e, rd3)
         | (Inr stored, rd3) \<Rightarrow> (verdict hdr (stored = ucast (sum16 cs (rd_tapSt rd2))) chans, rd3))"

lemma decodeFrameBody_end:
  "decodeFrameBody cs hdr = bindR (decodeChannels hdr) (decodeFrameEnd cs hdr)"
  unfolding decodeFrameBody_def
proof (intro arg_cong [where f = "bindR _"] ext)
  fix chans :: "i32 list list option" and rd :: "frameCRC reader"
  obtain r rd3 where "ReadBits 16 (FlushTap (SkipToByteBoundary rd)) = (r, rd3)" by fastforce
  then show "bindR (skipR SkipToByteBoundary) (\<lambda>_. bindR (skipR FlushTap) (\<lambda>_.
     bindR (getsR (\<lambda>rd. sum16 cs (rd_tapSt rd))) (\<lambda>computed. bindR (ReadBits 16) (\<lambda>stored.
     if stored \<noteq> ucast computed then failR ErrCRCMismatch
     else case chans of None \<Rightarrow> failR ErrSampleOutOfRange
          | Some ch \<Rightarrow> retR \<lparr>fr_BlockSize = blockSize hdr, fr_SampleRate = sampleRate hdr, fr_BitsPerSample = bitsPerSample hdr,
                    fr_Channels = ch, fr_Number = number hdr, fr_VariableBlockSize = variableBlockSize hdr\<rparr>)))) rd
    = decodeFrameEnd cs hdr chans rd"
    unfolding decodeFrameEnd_def verdict_def frameOf_def Let_def
    by (cases r) (auto simp: bindR_def skipR_def getsR_def retR_def failR_def split: option.split)
qed

lemma advance_skip_flush:
  assumes wf: "wf_reader rd" and tap: "rd_tap rd = None" "rd_rtap rd = Some TapBytes"
  defines "rd2 \<equiv> FlushTap (SkipToByteBoundary rd)" and "k \<equiv> (8 - roff rd) mod 8"
  shows "advance k rd rd2" "roff rd2 = 0"
    "fc_scratch (rd_tapSt rd2) = fc_scratch (vtap rd) @ take ((roff rd + k) div 8) (rbytes rd)"
proof -
  let ?s = "SkipToByteBoundary rd"
  have s: "advance k rd ?s" unfolding k_def by (rule SkipToByteBoundary_ok [OF wf])
  have f: "advance 0 ?s rd2" unfolding rd2_def by (rule advance_FlushTap(1)) (rule advanceD(1) [OF s])
  from advance_trans [OF wf s f] show a: "advance k rd rd2" by simp
  have "roff rd + k = 8 * ((roff rd + k) div 8)" using roff_less [of rd] unfolding k_def by (cases "roff rd = 0") auto
  then show "roff rd2 = 0" using a unfolding advance_def by (metis mod_mult_self1_is_0)
  have "rd_tapSt rd2 = vtap ?s" unfolding rd2_def
    using advanceD [OF s] tap by (intro FlushTap_vtap [of _ TapBytes]) simp_all
  then show "fc_scratch (rd_tapSt rd2) = fc_scratch (vtap rd) @ take ((roff rd + k) div 8) (rbytes rd)"
    using s tap unfolding advance_def by (simp add: tapf_def TapBytes_def)
qed

lemma bits_val_eqD:
  fixes x :: "'a::len word"
  assumes "bits_val bs = x" "length bs = n" "n \<le> LENGTH('a)"
  shows "bs = bits_msb n x"
  using assms by (intro nth_equalityI) (auto simp: nth_bits_msb bit_bits_val)

lemma take16_be16:
  assumes "16 \<le> length (byte_bits bytes)"
  shows "bits_val (take 16 (byte_bits bytes)) = (ucast c :: u64) \<longleftrightarrow> take 2 bytes = be16 c"
proof -
  have t: "take 16 (byte_bits bytes) = byte_bits (take 2 bytes)"
    using take_byte_bits [of 2 bytes] by simp
  have "bits_val (byte_bits (be16 c)) = (ucast c :: u64)"
    by (simp add: byte_bits_be16 bits_val_bits_msb take_bit_word_eq_self flip: unsigned_take_bit_eq)
  moreover have "take 2 bytes = be16 c" if "bits_val (byte_bits (take 2 bytes)) = (ucast c :: u64)"
  proof -
    have "byte_bits (take 2 bytes) = bits_msb 16 (ucast c :: u64)"
      using bits_val_eqD [OF that, of 16] assms by simp
    then show ?thesis by (simp add: byte_bits_inj flip: byte_bits_be16)
  qed
  ultimately show ?thesis unfolding t by auto
qed

text \<open>The end of the body, on any reader: the verdict, or the reader's own error.\<close>

lemma decodeFrameEnd_ok:
  assumes wf: "wf_reader rd" and tap: "rd_tap rd = None" "rd_rtap rd = Some TapBytes"
    and E: "decodeFrameEnd cs hdr chans rd = (r, rd')"
  defines "k \<equiv> (8 - roff rd) mod 8"
  defines "m \<equiv> (roff rd + k) div 8"
  defines "c \<equiv> cs (fc_scratch (vtap rd) @ take m (rbytes rd))"
  shows "if k + 16 \<le> length (rbits rd)
    then r = verdict hdr (take 2 (drop m (rbytes rd)) = be16 c) chans \<and> advance (k + 16) rd rd'
    else (\<exists>e. r = Inl e) \<and> (\<exists>n. advance n rd rd')"
proof -
  define rd2 where "rd2 = FlushTap (SkipToByteBoundary rd)"
  obtain s rd3 where R: "ReadBits 16 rd2 = (s, rd3)" by fastforce
  note a = advance_skip_flush [OF wf tap, folded rd2_def k_def]
  have "reads_bits 16 rd2 (s, rd3)"
    using ReadBits_reads(1) [OF advanceD(1) [OF a(1)] servable_small, of 16] by (simp add: R)
  note s = this [unfolded reads_bits_def fst_conv snd_conv]
  have E': "(r, rd') = (case s of Inl e \<Rightarrow> (Inl e, rd3)
      | Inr stored \<Rightarrow> (verdict hdr (stored = ucast (sum16 cs (rd_tapSt rd2))) chans, rd3))"
    using E by (simp add: decodeFrameEnd_def R flip: rd2_def split: sum.splits)
  have len: "length (rbits rd) = k + length (rbits rd2)" using advanceD(2,8) [OF a(1)] by simp
  have b: "rbits rd2 = byte_bits (rbytes rd2)" "rbytes rd2 = drop m (rbytes rd)"
    using a(1,2) by (simp_all add: rbits_aligned advance_def m_def)
  show ?thesis
  proof (cases "16 \<le> length (rbits rd2)")
    case True
    then have s': "s = Inr (bits_val (take 16 (rbits rd2)))" "advance 16 rd2 rd3" using s by simp_all
    have "sum16 cs (rd_tapSt rd2) = c" unfolding sum16_def c_def m_def a(3) ..
    then have "r = verdict hdr (bits_val (take 16 (rbits rd2)) = (ucast c :: u64)) chans" "rd' = rd3"
      using E' by (simp_all add: s'(1))
    then show ?thesis
      using True advance_trans [OF wf a(1) s'(2)] take16_be16 [of "rbytes rd2" c] by (simp add: len b)
  next
    case False
    then obtain e n where "s = Inl e" "advance n rd2 rd3" using s by auto
    then have "r = Inl e" "advance (k + n) rd rd'" using E' advance_trans [OF wf a(1)] by auto
    then show ?thesis using False by (auto simp: len)
  qed
qed

lemma round_up:
  fixes a L :: nat
  defines "k \<equiv> (8 - a mod 8) mod 8"
  shows "a div 8 + (a mod 8 + k) div 8 = (a + 7) div 8" "a + k = 8 * ((a + 7) div 8)"
    "a mod 8 + k = 8 * ((a mod 8 + k) div 8)"
    "k + 16 \<le> 8 * (L - a div 8) - a mod 8 \<longleftrightarrow> (a + 7) div 8 + 2 \<le> L"
proof -
  define q t where "q = a div 8" and "t = a mod 8"
  have a: "a = 8 * q + t" "t < 8" "a div 8 = q" "a mod 8 = t" by (simp_all add: q_def t_def)
  have k: "k = (if t = 0 then 0 else 8 - t)" using a(2) by (simp add: k_def a(4))
  have d: "(a + 7) div 8 = (if t = 0 then q else q + 1)" unfolding a(1)
  proof (cases "t = 0")
    case False
    then have "(8 * q + t + 7) div 8 = q + 1" using a(2) by presburger
    then show "(8 * q + t + 7) div 8 = (if t = 0 then q else q + 1)" using False by simp
  qed simp
  have e: "(t + k) div 8 = (if t = 0 then 0 else 1)" using a(2) by (simp add: k)
  show "a div 8 + (a mod 8 + k) div 8 = (a + 7) div 8" unfolding a(3,4) d e by simp
  show "a + k = 8 * ((a + 7) div 8)" unfolding d k using a(1,2) by simp
  show "a mod 8 + k = 8 * ((a mod 8 + k) div 8)" unfolding a(4) e k using a(2) by simp
  show "k + 16 \<le> 8 * (L - a div 8) - a mod 8 \<longleftrightarrow> (a + 7) div 8 + 2 \<le> L"
    unfolding a(3,4) d k using a(2) by auto
qed

lemma take_then_drop: "take a xs @ take b (drop a xs) = take (a + b) xs" "drop b (drop a xs) = drop (a + b) xs"
  by (simp_all add: take_add add.commute)

lemma aligned_length: "roff rd = 0 \<Longrightarrow> length (rbits rd) = 8 * length (rbytes rd)"
  by (simp add: rbits_aligned)

text \<open>
  The steps of \<open>Decode\<close> put together: when the header takes \<open>j\<close> bits and the
  channels \<open>n\<close>, the frame is the \<open>N\<close> bytes they round up to, and the two bytes behind
  them decide about it.
\<close>

lemma Decode_steps:
  assumes wf: "wf_reader rd" and o: "roff rd = 0" and D: "Decode cs si rd = (r, rd')"
    and H: "readHeaderBody fc_c8 si (SetTapper (Some (TapByte, Some TapBytes, fcReset)) rd) = (Inr hdr, rd1)"
      "advance j (SetTapper (Some (TapByte, Some TapBytes, fcReset)) rd) rd1"
    and C: "decodeChannels hdr (SwitchTapToDeferred rd1) = (Inr chans, rd2)" "advance n (SwitchTapToDeferred rd1) rd2"
  defines "N \<equiv> (j + n + 7) div 8"
  shows "if N + 2 \<le> length (rbytes rd)
    then r = verdict hdr (take 2 (drop N (rbytes rd)) = be16 (cs (take N (rbytes rd)))) chans \<and> resumed (N + 2) rd rd'
    else \<exists>e. r = Inl e"
proof -
  define rd0 where "rd0 = SetTapper (Some (TapByte, Some TapBytes, fcReset)) rd"
  define rds where "rds = SwitchTapToDeferred rd1"
  note s0 = SetTapper_Some [OF wf, of "Some TapBytes" TapByte fcReset, folded rd0_def]
  have s0': "wf_reader rd0" "same_place rd rd0" "vtap rd0 = fcReset" "rd_tap rd0 = Some TapByte" "rd_rtap rd0 = Some TapBytes"
    using s0 range_tap_TapBytes by simp_all
  note h = H(2) [folded rd0_def]
  have s1: "wf_reader rds" "same_place rd1 rds" "vtap rds = vtap rd1" "rd_tap rds = None" "rd_rtap rds = Some TapBytes"
    unfolding rds_def using SwitchTapToDeferred_ok [OF advanceD(1) [OF h], of TapByte TapBytes] advanceD(4,5) [OF h] s0'(4,5) by simp_all
  note c = C(2) [folded rds_def]
  have p0: "rbytes rd0 = rbytes rd" "roff rd0 = 0" "rend rd0 = rend rd" "rpos rd0 = rpos rd" "rd_basePos rd0 = rd_basePos rd"
    using s0'(2) o by (simp_all add: same_place_def)
  have p1: "rbytes rds = drop (j div 8) (rbytes rd)" "roff rds = j mod 8" "rend rds = rend rd" "rpos rds = rpos rd + j"
      "rd_basePos rds = rd_basePos rd" "fc_scratch (vtap rds) = take (j div 8) (rbytes rd)"
    using h s1(2) p0 by (simp_all add: advance_def same_place_def s1(3) s0'(3,4) tapf_def foldl_TapByte fcReset_def)
  have p2: "rbytes rd2 = drop ((j + n) div 8) (rbytes rd)" "roff rd2 = (j + n) mod 8"
      "fc_scratch (vtap rd2) = take ((j + n) div 8) (rbytes rd)" "rd_tap rd2 = None" "rd_rtap rd2 = Some TapBytes" "wf_reader rd2"
    using c carry8 [of j n] mod_add_left_eq [of j 8 n]
    by (simp_all add: advance_def p1 s1(4,5) tapf_def TapBytes_def take_then_drop add.commute)
  obtain r3 rd3 where E: "decodeFrameEnd cs hdr chans rd2 = (r3, rd3)" by fastforce
  have B: "decodeFrameBody cs hdr rds = (r3, rd3)"
    unfolding decodeFrameBody_end by (simp add: bindR_def C(1) [folded rds_def] E)
  have N: "(j + n) div 8 + ((j + n) mod 8 + (8 - (j + n) mod 8) mod 8) div 8 = N" unfolding N_def by (rule round_up(1))
  note e = decodeFrameEnd_ok [OF p2(6,4,5) E, unfolded p2(1,2,3) take_then_drop N]
  define k where "k = (8 - (j + n) mod 8) mod 8"
  have k: "(j + n) mod 8 + k = 8 * (((j + n) mod 8 + k) div 8)" "j + n + k = 8 * N"
    unfolding k_def N_def by (rule round_up)+
  have l: "k + 16 \<le> length (rbits rd2) \<longleftrightarrow> N + 2 \<le> length (rbytes rd)"
    unfolding k_def N_def by (simp add: rbits_def p2(1,2) round_up(4))
  have "Decode cs si rd = (case r3 of Inl e \<Rightarrow> Inl (noEOF e) | Inr f \<Rightarrow> Inr f, SetTapper None rd3)"
    by (cases r3) (simp_all add: Decode_def H(1) mapErrR_def B [unfolded rds_def])
  then have D': "r = (case r3 of Inl e \<Rightarrow> Inl (noEOF e) | Inr f \<Rightarrow> Inr f)" "rd' = SetTapper None rd3"
    using D by simp_all
  show ?thesis
  proof (cases "N + 2 \<le> length (rbytes rd)")
    case True
    then have "k + 16 \<le> length (rbits rd2)" using l by simp
    note e = e [folded k_def, unfolded if_P [OF this]]
    then have r: "r3 = verdict hdr (take 2 (drop N (rbytes rd)) = be16 (cs (take N (rbytes rd)))) chans"
      and a: "advance (k + 16) rd2 rd3" by blast+
    have "r = r3" unfolding D' r verdict_def by (simp add: noEOF_def split: option.split)
    moreover have "resumed (N + 2) rd rd'"
    proof -
      define M where "M = ((j + n) mod 8 + k) div 8"
      have M: "(j + n) mod 8 + k = 8 * M" "(j + n) div 8 + M = N" using k(1) N by (simp_all add: M_def k_def)
      have x: "(j + n) mod 8 + (k + 16) = 8 * (M + 2)" unfolding add.assoc [symmetric] M(1) by simp
      have q: "(roff rd2 + (k + 16)) div 8 = M + 2" "(roff rd2 + (k + 16)) mod 8 = 0" unfolding p2(2) x by simp_all
      have "rbytes rd3 = drop (M + 2) (rbytes rd2)" "roff rd3 = 0"
        using a unfolding advance_def q by blast+
      then have "rbytes rd3 = drop (N + 2) (rbytes rd)" "roff rd3 = 0"
        unfolding p2(1) take_then_drop by (simp_all flip: M(2) add.assoc)
      moreover have "rend rd3 = rend rd" "rpos rd3 = rpos rd + 8 * (N + 2)" "rd_basePos rd3 = rd_basePos rd"
        using advanceD(3,6,7) [OF a] advanceD(3,6,7) [OF c] p1(3,4,5) k(2) by simp_all
      ultimately show ?thesis
        using SetTapper_None [OF advanceD(1) [OF a]] unfolding D' resumed_def same_place_def by simp
    qed
    ultimately show ?thesis using True r by simp
  next
    case False
    then have "\<not> k + 16 \<le> length (rbits rd2)" using l by simp
    from e [folded k_def, unfolded if_not_P [OF this]] obtain x where "r3 = Inl x" by blast
    then show ?thesis using False unfolding D' by simp
  qed
qed

section \<open>Decoding a well-formed frame\<close>

definition headerOf :: "nat \<Rightarrow> nat \<Rightarrow> StreamInfo \<Rightarrow> u64 \<Rightarrow> header" where
  "headerOf bsize chCode si frameNum =
     \<lparr>variableBlockSize = False, blockSize = bsize, sampleRate = si_SampleRate si, channelAssignment = chCode,
      bitsPerSample = si_BitDepth si, number = frameNum\<rparr>"

lemma be16_inj: "be16 a = be16 b \<longleftrightarrow> a = b"
proof
  assume "be16 a = be16 b"
  then have "bits_msb 16 a = bits_msb 16 b" using byte_bits_be16 [of a] byte_bits_be16 [of b] by (simp add: bits_msb_ucast)
  from bits_msb_inj [OF this] show "a = b" by (simp add: take_bit_word_eq_self)
qed simp

text \<open>
  \<open>frame_bits\<close>: the bytes are a header with its CRC-8, the bits of the channels, and zeros up
  to a byte boundary.
\<close>

definition frame_bits :: "nat \<Rightarrow> nat \<Rightarrow> StreamInfo \<Rightarrow> u64 \<Rightarrow> bool list \<Rightarrow> u8 list \<Rightarrow> bool" where
  "frame_bits bsize chCode si frameNum body bytes \<longleftrightarrow>
     (\<exists>h pad. header_bytes bsize chCode si frameNum h \<and> pad < 8
        \<and> byte_bits bytes = byte_bits (h @ [Checksum8 h]) @ body @ replicate pad False)"

lemma bits_of_bytes:
  assumes "wf_reader rd" "roff rd = 0" "rbytes rd = bytes @ rest"
  shows "at_bits (byte_bits bytes) rd"
  using assms by (simp add: at_bits_def rbits_aligned)

lemma same_place_at: "same_place rd rd' \<Longrightarrow> wf_reader rd' \<Longrightarrow> at_bits bs rd \<Longrightarrow> at_bits bs rd'"
  by (simp add: at_bits_def same_place_bits)

lemma pad_round: "8 * b = x + pad \<Longrightarrow> pad < 8 \<Longrightarrow> (x + 7) div 8 = b" for b x pad :: nat
  by arith

lemma Decode_frame:
  assumes valid: "1 \<le> bsize" "bsize \<le> 65536" "chCode \<le> 10" "0 < si_SampleRate si" "unat frameNum < 2 ^ 36"
    and body: "parses (decodeChannels (headerOf bsize chCode si frameNum) :: (i32 list list option, frameCRC) rm) body chans"
    and F: "frame_bits bsize chCode si frameNum body bytes"
    and rd: "wf_reader rd" "roff rd = 0" "rbytes rd = bytes @ be16 c @ rest"
  shows "\<exists>rd'. Decode cs si rd = (verdict (headerOf bsize chCode si frameNum) (c = cs bytes) chans, rd')
    \<and> resumed (length bytes + 2) rd rd'"
proof -
  let ?hdr = "headerOf bsize chCode si frameNum"
  obtain h pad where h: "header_bytes bsize chCode si frameNum h" and pad: "pad < 8"
    and bytes: "byte_bits bytes = byte_bits (h @ [Checksum8 h]) @ body @ replicate pad False"
    using F unfolding frame_bits_def by blast
  define rd0 where "rd0 = SetTapper (Some (TapByte, Some TapBytes, fcReset)) rd"
  note s0 = SetTapper_Some [OF rd(1), of "Some TapBytes" TapByte fcReset, folded rd0_def]
  have s0': "wf_reader rd0" "same_place rd rd0" "vtap rd0 = fcReset" "rd_tap rd0 = Some TapByte" "rd_rtap rd0 = Some TapBytes"
    using s0 range_tap_TapBytes by simp_all
  have st: "fc_c8 (rd_tapSt rd0) = 0" by (simp add: rd0_def SetTapper_def fcReset_def)
  have "at_bits (byte_bits bytes) rd0"
    by (rule same_place_at [OF s0'(2,1) bits_of_bytes [OF rd]])
  then have at: "at_bits (byte_bits (h @ [Checksum8 h]) @ body @ replicate pad False) rd0" unfolding bytes .
  have o: "roff rd0 = 0" using s0'(2) rd(2) by (simp add: same_place_def)
  obtain rd1 where H: "readHeaderBody fc_c8 si rd0 = (Inr ?hdr, rd1)" "advance (8 * length (h @ [Checksum8 h])) rd0 rd1"
    using readHeaderBody_ok [OF valid h at_bits_appD [OF at] o s0'(4) foldl_TapByte(1) st] unfolding headerOf_def by blast
  define rds where "rds = SwitchTapToDeferred rd1"
  have s1: "wf_reader rds" "same_place rd1 rds"
    unfolding rds_def using SwitchTapToDeferred_ok [OF advanceD(1) [OF H(2)], of TapByte TapBytes] advanceD(4,5) [OF H(2)] s0'(4,5) by simp_all
  have "at_bits (body @ replicate pad False) rds"
    by (rule same_place_at [OF s1(2,1) at_bits_advance [OF at, unfolded length_byte_bits, OF H(2)]])
  from at_bits_appD [OF this] obtain rd2 where C: "decodeChannels ?hdr rds = (Inr chans, rd2)" "advance (length body) rds rd2"
    by (rule parsesE [OF body])
  obtain r rd' where D: "Decode cs si rd = (r, rd')" by fastforce
  have "8 * length bytes = 8 * length (h @ [Checksum8 h]) + length body + pad"
    using arg_cong [OF bytes, of length] by simp
  from pad_round [OF this pad] have N: "(8 * length (h @ [Checksum8 h]) + length body + 7) div 8 = length bytes" .
  have "length bytes + 2 \<le> length (rbytes rd)" "take (length bytes) (rbytes rd) = bytes"
    "take 2 (drop (length bytes) (rbytes rd)) = be16 c"
    unfolding rd(3) by (simp_all add: be16_def)
  note s = Decode_steps [OF rd(1,2) D H [unfolded rd0_def] C [unfolded rds_def], unfolded N, unfolded if_P [OF this(1)] this(2,3) be16_inj]
  show ?thesis using D conjunct1 [OF s] conjunct2 [OF s] by (simp add: eq_commute [of c])
qed

section \<open>Whatever the input\<close>

text \<open>
  An accepted frame: the channels have the block's length and fit the frame's depth, and the
  bytes consumed end with the CRC-16 of all the bytes before it.
\<close>

definition frame_ok :: "Frame \<Rightarrow> bool" where
  "frame_ok f \<longleftrightarrow> 1 \<le> fr_BlockSize f \<and> fr_BlockSize f \<le> 65536 \<and> 1 \<le> fr_BitsPerSample f \<and> fr_BitsPerSample f \<le> 32
     \<and> 1 \<le> length (fr_Channels f) \<and> length (fr_Channels f) \<le> 8
     \<and> (\<forall>c \<in> set (fr_Channels f). samples_ok (fr_BlockSize f) (fr_BitsPerSample f) c)"

lemma frame_ok_frameOf: "valid_header hdr \<Longrightarrow> channels_ok hdr ch \<Longrightarrow> frame_ok (frameOf hdr ch)"
  by (auto simp: frame_ok_def frameOf_def valid_header_def channels_ok_def channels_def)

lemma Decode_errD:
  assumes "Decode cs si rd = (Inr f, rd')" "wf_reader rd" "valid_info si"
  defines "rd0 \<equiv> SetTapper (Some (TapByte, Some TapBytes, fcReset)) rd"
  obtains hdr rd1 j chans rd2 n where "readHeaderBody fc_c8 si rd0 = (Inr hdr, rd1)" "advance j rd0 rd1" "valid_header hdr"
    "decodeChannels hdr (SwitchTapToDeferred rd1) = (Inr chans, rd2)" "advance n (SwitchTapToDeferred rd1) rd2"
    "\<And>chs. chans = Some chs \<Longrightarrow> channels_ok hdr chs"
proof -
  note s0 = SetTapper_Some [OF assms(2), of "Some TapBytes" TapByte fcReset, folded rd0_def]
  have s0': "wf_reader rd0" "rd_tap rd0 = Some TapByte" "rd_rtap rd0 = Some TapBytes"
    using s0 range_tap_TapBytes by simp_all
  obtain x rd1 where H: "readHeaderBody fc_c8 si rd0 = (x, rd1)" by fastforce
  obtain hdr where x: "x = Inr hdr"
    using assms(1) by (cases x) (simp_all add: Decode_def H [unfolded rd0_def])
  obtain j where j: "advance j rd0 rd1" and v: "valid_header hdr"
    using runsD [OF runs_readHeaderBody [OF assms(3)] s0'(1) H] x by blast
  define rds where "rds = SwitchTapToDeferred rd1"
  have s1: "wf_reader rds"
    unfolding rds_def using SwitchTapToDeferred_ok [OF advanceD(1) [OF j], of TapByte TapBytes] advanceD(4,5) [OF j] s0'(2,3) by simp
  obtain y rd2 where C: "decodeChannels hdr rds = (y, rd2)" by fastforce
  have "\<exists>chans. y = Inr chans"
  proof (cases y)
    case (Inl e)
    then have "decodeFrameBody cs hdr rds = (Inl e, rd2)" by (simp add: decodeFrameBody_end bindR_def C)
    then show ?thesis using assms(1) by (simp add: Decode_def H [unfolded rd0_def x] mapErrR_def flip: rds_def)
  qed simp
  then obtain chans where y: "y = Inr chans" by blast
  note c = runsD [OF runs_decodeChannels [OF v] s1 C]
  obtain n where n: "advance n rds rd2" using c(1) by blast
  show ?thesis using that [OF H [unfolded x] j v C [unfolded rds_def y] n [unfolded rds_def]] c(2) [OF y] by blast
qed

lemma Decode_accepts:
  assumes D: "Decode cs si rd = (Inr f, rd')" and rd: "wf_reader rd" "roff rd = 0" and si: "valid_info si"
  shows "frame_ok f" "\<exists>bytes. rbytes rd = bytes @ be16 (cs bytes) @ rbytes rd' \<and> resumed (length bytes + 2) rd rd'"
proof -
  from Decode_errD [OF D rd(1) si] obtain hdr rd1 j chans rd2 n where
    H: "readHeaderBody fc_c8 si (SetTapper (Some (TapByte, Some TapBytes, fcReset)) rd) = (Inr hdr, rd1)"
      "advance j (SetTapper (Some (TapByte, Some TapBytes, fcReset)) rd) rd1" "valid_header hdr"
    and C: "decodeChannels hdr (SwitchTapToDeferred rd1) = (Inr chans, rd2)" "advance n (SwitchTapToDeferred rd1) rd2"
      "\<And>chs. chans = Some chs \<Longrightarrow> channels_ok hdr chs" by blast
  define N where "N = (j + n + 7) div 8"
  note s = Decode_steps [OF rd D H(1,2) C(1,2), folded N_def]
  have N: "N + 2 \<le> length (rbytes rd)" using s by (cases "N + 2 \<le> length (rbytes rd)") auto
  then have v: "Inr f = verdict hdr (take 2 (drop N (rbytes rd)) = be16 (cs (take N (rbytes rd)))) chans"
    and r: "resumed (N + 2) rd rd'" using s by simp_all
  then obtain ch where f: "f = frameOf hdr ch" "chans = Some ch" "take 2 (drop N (rbytes rd)) = be16 (cs (take N (rbytes rd)))"
    by (auto simp: verdict_def split: if_splits option.splits)
  show "frame_ok f" unfolding f(1) by (rule frame_ok_frameOf [OF H(3) C(3) [OF f(2)]])
  have "rbytes rd = take N (rbytes rd) @ take 2 (drop N (rbytes rd)) @ drop (N + 2) (rbytes rd)"
    by (metis append_take_drop_id drop_drop add.commute)
  then show "\<exists>bytes. rbytes rd = bytes @ be16 (cs bytes) @ rbytes rd' \<and> resumed (length bytes + 2) rd rd'"
    using N r f(3) by (intro exI [of _ "take N (rbytes rd)"]) (simp add: resumed_def min_absorb2)
qed

text \<open>A clean end of the stream is reported at a frame boundary only.\<close>

lemma noEOF_not_EOF: "noEOF e \<noteq> EOF"
  by (simp add: noEOF_def)

lemma mapErr_noEOF: "fst (mapErrR noEOF m rd) \<noteq> Inl EOF"
  by (cases "m rd"; cases "fst (m rd)") (auto simp: mapErrR_def noEOF_not_EOF split: prod.splits sum.splits)

lemma mapErr_noEOFD: "mapErrR noEOF m rd = (Inl EOF, rd') \<Longrightarrow> False"
  using mapErr_noEOF [of m rd] by simp

lemma Decode_EOF:
  assumes "wf_reader rd"
  shows "fst (Decode cs si rd) = Inl EOF \<longleftrightarrow> rbits rd = [] \<and> rend rd = EOF"
proof -
  define rd0 where "rd0 = SetTapper (Some (TapByte, Some TapBytes, fcReset)) rd"
  note s0 = SetTapper_Some [OF assms, of "Some TapBytes" TapByte fcReset, folded rd0_def]
  have s0': "wf_reader rd0" "same_place rd rd0" using s0 range_tap_TapBytes by simp_all
  obtain s rd1 where R: "ReadBits 14 rd0 = (s, rd1)" by fastforce
  have r: "reads_bits 14 rd0 (s, rd1)" using ReadBits_reads(1) [OF s0'(1) servable_small, of 14] by (simp add: R)
  have e: "rbits rd0 = rbits rd" "rend rd0 = rend rd" using s0'(2) same_place_bits [OF s0'(2)] by (simp_all add: same_place_def)
  have s: "s = Inl EOF \<longleftrightarrow> rbits rd = [] \<and> rend rd = EOF"
    using r noEOF_not_EOF by (auto simp: reads_bits_def e split: if_splits)
  have "fst (Decode cs si rd) = Inl EOF \<longleftrightarrow> s = Inl EOF"
  proof (cases s)
    case (Inl x)
    then show ?thesis by (simp add: Decode_def readHeaderBody_def bindR_def R [unfolded rd0_def])
  next
    case (Inr w)
    obtain h rdh where H: "readHeaderBody fc_c8 si rd0 = (h, rdh)" by fastforce
    have "h \<noteq> Inl EOF"
      using H unfolding readHeaderBody_def bindR_def [of "ReadBits 14"] R Inr
      by (auto simp: failR_def split: if_splits dest: mapErr_noEOFD)
    then show ?thesis
      using mapErr_noEOF [of "decodeFrameBody cs (projr h)" "SwitchTapToDeferred rdh"] Inr
      by (cases h) (auto simp: Decode_def H [unfolded rd0_def] split: prod.split)
  qed
  then show ?thesis unfolding s .
qed

end
