(* ===== verification/Frame_Encode.thy ===== *)
theory Frame_Encode
  imports Subframe_Encode Frame_Decode
begin

text \<open>
  Encoding one frame, \<^verbatim>\<open>src/internal/frame/encode.go\<close>, and the search for the next
  frame, \<^verbatim>\<open>resync.go\<close>. The lemmas show that a frame is lossless: whatever
  assignment and predictors the encoder picks, and whatever its floating-point analysis
  returns within its laws, \<open>Decode\<close> on the emitted bytes gives the channels back and
  stands right behind them. A header without a code for the sample rate is a panic of
  \<open>writeFrameHeader\<close>, the result \<open>None\<close>. The channels of a block have one length.
\<close>

section \<open>The encoder\<close>

definition frameByteBound :: "nat \<Rightarrow> nat \<Rightarrow> nat \<Rightarrow> nat" where
  "frameByteBound nch bs bps = (nch * bs * (bps + 1) + nch * 8 + 128 + 16 + 8 + 7) div 8"

definition chIndependent2 :: nat where "chIndependent2 = 1"
definition chLeftSide :: nat where "chLeftSide = 8"
definition chRightSide :: nat where "chRightSide = 9"
definition chMidSide :: nat where "chMidSide = 10"

lemmas assignments = chIndependent2_def chLeftSide_def chRightSide_def chMidSide_def

definition finishFrame :: "(u8 list \<Rightarrow> u16) \<Rightarrow> writer \<Rightarrow> writer" where
  "finishFrame cs bw = (case Bytes (AlignByte bw) of (bytes, bw) \<Rightarrow> WriteBits (ucast (cs bytes)) 16 bw)"

text \<open>The side and mid signals of a block, at either width.\<close>

definition sideOf :: "'a::len word list \<Rightarrow> 'a word list \<Rightarrow> 'a word list" where
  "sideOf l r = map2 (\<lambda>a b. a - b) l r"

definition midOf :: "'a::len word list \<Rightarrow> 'a word list \<Rightarrow> 'a word list" where
  "midOf l r = map2 (\<lambda>a b. signed_drop_bit 1 (a + b)) l r"

text \<open>The channel code of the cheapest candidate, with the tie-breaking of the comparisons.\<close>

definition chooseAssignment :: "StereoMode \<Rightarrow> int \<Rightarrow> int \<Rightarrow> int \<Rightarrow> int \<Rightarrow> nat" where
  "chooseAssignment mode bitsL bitsR bitsM bitsS =
     (let indep = bitsL + bitsR; ls = bitsL + bitsS; rs = bitsS + bitsR; ms = bitsM + bitsS
      in if mode = StereoAdaptive then (if ms < indep then chMidSide else chIndependent2)
         else
           let (minCost, chCode) = (if ls < indep then (ls, chLeftSide) else (indep, chIndependent2));
               (minCost, chCode) = (if rs < minCost then (rs, chRightSide) else (minCost, chCode))
           in if ms < minCost then chMidSide else chCode)"

text \<open>The two subframes of the chosen assignment, in stream order.\<close>

definition writeAssigned ::
  "('a list \<Rightarrow> nat \<Rightarrow> subframePlan \<Rightarrow> writer \<Rightarrow> writer) \<Rightarrow> nat \<Rightarrow> nat
   \<Rightarrow> 'a list \<times> subframePlan \<Rightarrow> 'a list \<times> subframePlan \<Rightarrow> 'a list \<times> subframePlan \<Rightarrow> 'a list \<times> subframePlan \<Rightarrow> writer \<Rightarrow> writer" where
  "writeAssigned put chCode bps L R M S bw =
     (let normal = (\<lambda>(s, plan). put s bps plan); wide = (\<lambda>(s, plan). put s (bps + 1) plan)
      in if chCode = chLeftSide then wide S (normal L bw)
         else if chCode = chRightSide then normal R (wide S bw)
         else if chCode = chMidSide then wide S (normal M bw)
         else normal R (normal L bw))"

definition encodeStereo ::
  "'f float64 \<Rightarrow> (u8 list \<Rightarrow> u16) \<Rightarrow> writer \<Rightarrow> 'f Workspace \<Rightarrow> Params \<Rightarrow> nat \<Rightarrow> nat \<Rightarrow> i32 list \<Rightarrow> i32 list \<Rightarrow> u64
   \<Rightarrow> (writer \<times> 'f Workspace) option" where
  "encodeStereo F cs bw ws p srate bps l r frameNum =
     (let bs = length l; side = sideOf l r; mid = midOf l r;
          ws = ensureMid bs (ensureSide bs ws);
          ws = ws\<lparr>ws_side := put_row 0 side (ws_side ws), ws_mid := put_row 0 mid (ws_mid ws)\<rparr>;
          (win, ws) = window F p bs ws;
          (planL, ws) = planSubframe F ws 0 l bps p win;
          (planR, ws) = planSubframe F ws 1 r bps p win;
          (planM, ws) = planSubframe F ws 2 mid bps p win;
          (planS, ws) = planSubframe F ws 3 side (bps + 1) p win;
          chCode = chooseAssignment (p_Stereo p) (sp_bits planL) (sp_bits planR) (sp_bits planM) (sp_bits planS)
      in case writeFrameHeader bs chCode srate bps frameNum bw of
           None \<Rightarrow> None
         | Some bw \<Rightarrow>
             Some (finishFrame cs (writeAssigned (\<lambda>s bps plan. writeSubframe ws s bps plan p) chCode bps
                     (l, planL) (r, planR) (mid, planM) (side, planS) bw), ws))"

definition encodeStereo64 ::
  "'f float64 \<Rightarrow> (u8 list \<Rightarrow> u16) \<Rightarrow> writer \<Rightarrow> 'f Workspace \<Rightarrow> Params \<Rightarrow> nat \<Rightarrow> nat \<Rightarrow> i32 list \<Rightarrow> i32 list \<Rightarrow> u64
   \<Rightarrow> (writer \<times> 'f Workspace) option" where
  "encodeStereo64 F cs bw ws p srate bps l32 r32 frameNum =
     (let bs = length l32; l = map scast l32; r = map scast r32; side = sideOf l r; mid = midOf l r;
          ws = ensureMid64 bs (ensureSide64 bs (ensureR64 bs (ensureL64 bs ws)));
          ws = ws\<lparr>ws_l64 := put_row 0 l (ws_l64 ws), ws_r64 := put_row 0 r (ws_r64 ws),
                  ws_side64 := put_row 0 side (ws_side64 ws), ws_mid64 := put_row 0 mid (ws_mid64 ws)\<rparr>;
          (win, ws) = window F p bs ws;
          (planL, ws) = planSubframe64 F ws 0 l bps p win;
          (planR, ws) = planSubframe64 F ws 1 r bps p win;
          (planM, ws) = planSubframe64 F ws 2 mid bps p win;
          (planS, ws) = planSubframe64 F ws 3 side (bps + 1) p win;
          chCode = chooseAssignment (p_Stereo p) (sp_bits planL) (sp_bits planR) (sp_bits planM) (sp_bits planS)
      in case writeFrameHeader bs chCode srate bps frameNum bw of
           None \<Rightarrow> None
         | Some bw \<Rightarrow>
             Some (finishFrame cs (writeAssigned (\<lambda>s bps plan. writeSubframe64 ws s bps plan p) chCode bps
                     (l, planL) (r, planR) (mid, planM) (side, planS) bw), ws))"

text \<open>One channel of an independent frame: planned into slot 0 and written at once.\<close>

definition encodeChannel ::
  "'f float64 \<Rightarrow> Params \<Rightarrow> nat \<Rightarrow> 'f list option \<Rightarrow> i32 list \<Rightarrow> 'f Workspace \<times> writer \<Rightarrow> 'f Workspace \<times> writer" where
  "encodeChannel F p bps win s st =
     (case st of (ws, bw) \<Rightarrow>
       case planSubframe F ws 0 s bps p win of (plan, ws) \<Rightarrow> (ws, writeSubframe ws s bps plan p bw))"

definition encodeChannel64 ::
  "'f float64 \<Rightarrow> Params \<Rightarrow> nat \<Rightarrow> 'f list option \<Rightarrow> i32 list \<Rightarrow> 'f Workspace \<times> writer \<Rightarrow> 'f Workspace \<times> writer" where
  "encodeChannel64 F p bps win s st =
     (case st of (ws, bw) \<Rightarrow>
       let buf = map scast s; ws = ws\<lparr>ws_l64 := put_row 0 buf (ws_l64 ws)\<rparr>
       in case planSubframe64 F ws 0 buf bps p win of (plan, ws) \<Rightarrow> (ws, writeSubframe64 ws buf bps plan p bw))"

definition encodeIndependent ::
  "'f float64 \<Rightarrow> (u8 list \<Rightarrow> u16) \<Rightarrow> writer \<Rightarrow> 'f Workspace \<Rightarrow> Params \<Rightarrow> nat \<Rightarrow> nat \<Rightarrow> nat \<Rightarrow> i32 list list \<Rightarrow> u64
   \<Rightarrow> (writer \<times> 'f Workspace) option" where
  "encodeIndependent F cs bw ws p srate bps bs chs frameNum =
     (case window F p bs ws of (win, ws) \<Rightarrow>
      case writeFrameHeader bs (length chs - 1) srate bps frameNum bw of
        None \<Rightarrow> None
      | Some bw \<Rightarrow>
          case (if bps \<ge> 25 then fold (encodeChannel64 F p bps win) chs (ensureL64 bs ws, bw)
                else fold (encodeChannel F p bps win) chs (ws, bw)) of
            (ws, bw) \<Rightarrow> Some (finishFrame cs bw, ws))"

definition EncodeFrame ::
  "'f float64 \<Rightarrow> (u8 list \<Rightarrow> u16) \<Rightarrow> writer \<Rightarrow> 'f Workspace \<Rightarrow> Params \<Rightarrow> StreamInfo \<Rightarrow> i32 list list \<Rightarrow> u64
   \<Rightarrow> (u8 list \<times> writer \<times> 'f Workspace) option" where
  "EncodeFrame F cs bw ws p si chs frameNum =
     (let bs = length (chs ! 0); bps = si_BitDepth si; nch = length chs;
          bw = Grow (int (frameByteBound nch bs bps)) (wReset bw)
      in case (if nch = 2 \<and> p_Stereo p \<noteq> StereoIndependent \<and> bps \<le> 24
               then encodeStereo F cs bw ws p (si_SampleRate si) bps (chs ! 0) (chs ! 1) frameNum
               else if nch = 2 \<and> p_Stereo p \<noteq> StereoIndependent \<and> bps \<ge> 25
               then encodeStereo64 F cs bw ws p (si_SampleRate si) bps (chs ! 0) (chs ! 1) frameNum
               else encodeIndependent F cs bw ws p (si_SampleRate si) bps bs chs frameNum) of
           None \<Rightarrow> None
         | Some (bw, ws) \<Rightarrow> (case Bytes bw of (bytes, bw) \<Rightarrow> Some (bytes, bw, ws)))"

section \<open>Finding the next frame\<close>

datatype FindResult = FrameFound | FrameNotFound | FrameTruncated

text \<open>
  The scan over the offsets \<open>i\<close> with \<open>i + 1 < len(data)\<close>; \<open>data\<close> below is what is left
  of the slice.
\<close>

definition syncAt :: "u8 \<Rightarrow> u8 \<Rightarrow> bool" where
  "syncAt a b \<longleftrightarrow> \<not> (a \<noteq> 0xFF \<or> b AND 0xFE \<noteq> 0xF8)"

fun findFrom ::
  "(u8 list \<Rightarrow> u16) \<Rightarrow> StreamInfo \<Rightarrow> nat \<Rightarrow> u8 list \<Rightarrow> frameCRC reader \<Rightarrow> (nat \<times> nat \<times> FindResult \<times> Frame option) \<times> frameCRC reader" where
  "findFrom cs si i (a # b # data) rd =
     (if \<not> syncAt a b then findFrom cs si (i + 1) (b # data) rd
      else case Decode cs si (Reset (bytesReader (a # b # data)) rd) of
        (Inr f, rd) \<Rightarrow> ((i, BytesRead rd, FrameFound, Some f), rd)
      | (Inl e, rd) \<Rightarrow>
          if e = ErrUnexpectedEOF then ((i, 0, FrameTruncated, None), rd)
          else findFrom cs si (i + 1) (b # data) rd)"
| "findFrom cs si i data rd = ((0, 0, FrameNotFound, None), rd)"

definition FindNextFrame ::
  "(u8 list \<Rightarrow> u16) \<Rightarrow> frameCRC reader \<Rightarrow> u8 list \<Rightarrow> StreamInfo \<Rightarrow> (nat \<times> nat \<times> FindResult \<times> Frame option) \<times> frameCRC reader" where
  "FindNextFrame cs rd data si = findFrom cs si 0 data rd"

section \<open>The stereo signals\<close>

lemma length_sideOf [simp]: "length (sideOf l r) = min (length l) (length r)"
  and length_midOf [simp]: "length (midOf l r) = min (length l) (length r)"
  by (simp_all add: sideOf_def midOf_def)

lemma side_fits:
  fixes l r :: "'a::len word list"
  assumes "samples_ok n bps l" "samples_ok n bps r" "bps < LENGTH('a)"
  shows "samples_ok n (bps + 1) (sideOf l r)"
proof -
  have "fits (bps + 1) (sint (a - b))" if "fits bps (sint a)" "fits bps (sint b)" for a b :: "'a word"
  proof -
    have "(2::int) ^ bps = 2 * 2 ^ (bps - 1)" using that by (simp add: fits_def flip: power_Suc)
    then have f: "fits (bps + 1) (sint a - sint b)" using that by (auto simp: fits_def)
    then have "sint (a - b) = sint a - sint b" using assms(3) by (intro sint_diff_fits) (auto intro: fits_mono)
    then show ?thesis using f by simp
  qed
  then show ?thesis
    using assms(1,2) unfolding samples_ok_def sideOf_def by (auto elim!: in_set_zipE)
qed

lemma mid_fits:
  fixes l r :: "'a::len word list"
  assumes "samples_ok n bps l" "samples_ok n bps r" "bps < LENGTH('a)"
  shows "samples_ok n bps (midOf l r)"
proof -
  have "fits bps (sint (signed_drop_bit 1 (a + b)))" if "fits bps (sint a)" "fits bps (sint b)" for a b :: "'a word"
  proof -
    have p: "(2::int) ^ bps = 2 * 2 ^ (bps - 1)" using that by (simp add: fits_def flip: power_Suc)
    then have "fits (bps + 1) (sint a + sint b)" using that by (auto simp: fits_def)
    then have "sint (a + b) = sint a + sint b" using assms(3) by (intro sint_add_fits) (auto intro: fits_mono)
    then have "sint (signed_drop_bit 1 (a + b)) = (sint a + sint b) div 2"
      by (simp add: sint_signed_drop_bit_eq drop_bit_eq_div)
    then show ?thesis using that by (auto simp: fits_def)
  qed
  then show ?thesis
    using assms(1,2) unfolding samples_ok_def midOf_def by (auto elim!: in_set_zipE)
qed

text \<open>The decoder undoes each assignment.\<close>

lemma Sub_map2: "length a = n \<Longrightarrow> length b = n \<Longrightarrow> Sub (replicate n 0) a b = sideOf a b"
  by (auto simp: Sub_def subGo_def sideOf_def Let_def intro!: nth_equalityI)

lemma MidSideEncode_map2:
  "length a = n \<Longrightarrow> length b = n \<Longrightarrow> MidSideEncode (replicate n 0) (replicate n 0) a b = (midOf a b, sideOf a b)"
  by (auto simp: MidSideEncode_def midSideEncodeGo_def sideOf_def midOf_def Let_def intro!: nth_equalityI)

lemma inRange32_samples: "samples_ok n bps s \<Longrightarrow> 1 \<le> bps \<Longrightarrow> bps \<le> 32 \<Longrightarrow> inRange32 s bps"
  by (simp add: inRange32_iff samples_ok_def)

lemma stereo32_inverse:
  assumes "samples_ok n bps l" "samples_ok n bps r" "1 \<le> bps" "bps \<le> 24"
  shows "stereo32 8 bps (l, sideOf l r) = Some (l, r)" "stereo32 9 bps (sideOf l r, r) = Some (l, r)"
    "stereo32 10 bps (midOf l r, sideOf l r) = Some (l, r)"
proof -
  have n: "length l = n" "length r = n" using assms by (simp_all add: samples_ok_def)
  have i: "inRange32 l bps" "inRange32 r bps" using assms by (auto intro: inRange32_samples)
  have f: "\<forall>x \<in> set l \<union> set r. fits 31 (sint x)" using assms by (auto simp: samples_ok_def intro: fits_mono)
  have s: "Sub (replicate n 0) l (sideOf l r) = r" "Add (replicate n 0) r (sideOf l r) = l"
    using Sub_Sub [of l n r "replicate n 0" "replicate n 0"] Add_Sub [of l n r "replicate n 0" "replicate n 0"] n
    by (simp_all add: Sub_map2)
  have m: "MidSideDecode (replicate n 0) (replicate n 0) (midOf l r) (sideOf l r) = (l, r)"
    using MidSide_roundtrip [of l n r "replicate n 0" "replicate n 0" "replicate n 0" "replicate n 0"] n f
    by (simp add: MidSideEncode_map2)
  show "stereo32 8 bps (l, sideOf l r) = Some (l, r)" "stereo32 9 bps (sideOf l r, r) = Some (l, r)"
    "stereo32 10 bps (midOf l r, sideOf l r) = Some (l, r)"
    using n s m i by (simp_all add: stereo32_def decorrelateLeftSide_def decorrelateRightSide_def decorrelateMidSide_def)
qed

lemma not_outside: "samples_ok n bps xs \<Longrightarrow> 1 \<le> bps \<Longrightarrow> bps < 64 \<Longrightarrow> \<not> list_ex (outside bps) xs"
  by (auto simp: samples_ok_def list_ex_iff outside_iff)

lemma stereo64_inverse:
  assumes "samples_ok n bps l" "samples_ok n bps r" "1 \<le> bps" "bps \<le> 32"
  shows "stereo64 8 bps (l, sideOf l r) = Some (map ucast l, map ucast r)"
    "stereo64 9 bps (sideOf l r, r) = Some (map ucast l, map ucast r)"
    "stereo64 10 bps (midOf l r, sideOf l r) = Some (map ucast l, map ucast r)"
proof -
  have n: "length l = n" "length r = n" using assms by (simp_all add: samples_ok_def)
  have f: "\<forall>x \<in> set l \<union> set r. fits 63 (sint x)" using assms by (auto simp: samples_ok_def intro: fits_mono)
  have o: "\<not> list_ex (outside bps) l" "\<not> list_ex (outside bps) r" using assms not_outside [of n bps l] not_outside [of n bps r] by auto
  have s: "map2 (\<lambda>l s. l - s) l (sideOf l r) = r" "map2 (\<lambda>s r. r + s) (sideOf l r) r = l"
    using n by (auto simp: sideOf_def intro!: nth_equalityI)
  define ms where "ms = map2 (\<lambda>m s. push_bit 1 m OR (s AND 1)) (midOf l r) (sideOf l r)"
  have m: "map2 (\<lambda>m s. signed_drop_bit 1 (m + s)) ms (sideOf l r) = l" "map2 (\<lambda>m s. signed_drop_bit 1 (m - s)) ms (sideOf l r) = r"
    using n midside_inverse [of "l ! i" "r ! i" for i] f
    by (auto simp: ms_def sideOf_def midOf_def Let_def intro!: nth_equalityI)
  show "stereo64 8 bps (l, sideOf l r) = Some (map ucast l, map ucast r)"
    "stereo64 9 bps (sideOf l r, r) = Some (map ucast l, map ucast r)"
    using s o by (simp_all add: stereo64_def decorrelateLeftSide64_def decorrelateRightSide64_def)
  show "stereo64 10 bps (midOf l r, sideOf l r) = Some (map ucast l, map ucast r)"
    unfolding stereo64_def decorrelateMidSide64_def Let_def prod.case ms_def [symmetric] m using o by simp
qed

section \<open>Reading back the channels\<close>

lemma parses_deferR: "parses m bs x \<Longrightarrow> parses (deferR m) bs (Some x)"
  unfolding parses_def deferR_def by fastforce

text \<open>
  \<open>carried\<close>: what a planned subframe writes, at most \<open>z\<close> bits, is read back as its samples. It
  holds for every plan the two planners return, at either width.
\<close>

definition carried :: "nat \<Rightarrow> (writer \<Rightarrow> writer) \<Rightarrow> ('a, 't) rm \<Rightarrow> 'a \<Rightarrow> bool" where
  "carried z put get x \<longleftrightarrow> (\<exists>bits. emits put bits \<and> length bits \<le> z \<and> parses get bits x)"

definition subframeBits :: "nat \<Rightarrow> nat" where
  "subframeBits n = 35 * n + 540"

definition four_slots :: "'f Workspace \<Rightarrow> bool" where
  "four_slots ws \<longleftrightarrow> length (ws_cand ws) = 4"

lemma writeSubframe_carried:
  assumes "carries zigzag scast lpc_pred cs_res (p_LPCPrecision p) (ws_cand ws) s bps plan"
    and "samples_ok n bps s" "1 \<le> n" "1 \<le> bps" "bps \<le> 32"
  shows "carried (subframeBits n) (writeSubframe ws s bps plan p) (decodeSubframe n bps :: (i32 list, 't) rm) s"
proof -
  have "s \<noteq> []" "\<forall>x \<in> set s. fits bps (sint x)" "length s = n" using assms by (auto simp: samples_ok_def)
  with sub32.write_carried [OF assms(1)] carries_bits [OF assms(1)] assms(4,5) show ?thesis
    by (fastforce simp: carried_def writeSubframe_def decodeSubframe_def subframeBits_def)
qed

lemma writeSubframe64_carried:
  assumes "carries zigzag64 (\<lambda>r. r) lpc_pred64 cs_res64 (p_LPCPrecision p) (ws_cand ws) s bps plan"
    and "samples_ok n bps s" "1 \<le> n" "1 \<le> bps" "bps \<le> 33"
  shows "carried (subframeBits n) (writeSubframe64 ws s bps plan p) (decodeSubframe64 n bps :: (i64 list, 't) rm) s"
proof -
  have "s \<noteq> []" "\<forall>x \<in> set s. fits bps (sint x)" "length s = n" using assms by (auto simp: samples_ok_def)
  with sub64.write_carried [OF assms(1)] carries_bits [OF assms(1)] assms(4,5) show ?thesis
    by (fastforce simp: carried_def writeSubframe64_def decodeSubframe64_def subframeBits_def)
qed

text \<open>
  What the frame encoder asks of a width: a plan keeps what the writer needs in its own slot,
  a slot that another plan leaves alone stays valid, and what is kept is carried.
\<close>

locale frame_width =
  fixes plan :: "'f float64 \<Rightarrow> 'f Workspace \<Rightarrow> nat \<Rightarrow> 'a list \<Rightarrow> nat \<Rightarrow> Params \<Rightarrow> 'f list option \<Rightarrow> subframePlan \<times> 'f Workspace"
    and put :: "'f Workspace \<Rightarrow> 'a list \<Rightarrow> nat \<Rightarrow> subframePlan \<Rightarrow> Params \<Rightarrow> writer \<Rightarrow> writer"
    and decode :: "nat \<Rightarrow> nat \<Rightarrow> ('a list, frameCRC) rm"
    and kept :: "Params \<Rightarrow> candScratch list \<Rightarrow> 'a list \<Rightarrow> nat \<Rightarrow> subframePlan \<Rightarrow> bool"
    and block :: "nat \<Rightarrow> nat \<Rightarrow> 'a list \<Rightarrow> bool"
    and maxBps :: nat
  assumes plan_kept: "plan F ws idx s bps p win = (pl, ws') \<Longrightarrow> float64_laws F \<Longrightarrow> block n bps s \<Longrightarrow> 1 \<le> n \<Longrightarrow> n \<le> 65535 \<Longrightarrow>
      1 \<le> bps \<Longrightarrow> idx < length (ws_cand ws) \<Longrightarrow>
      kept p (ws_cand ws') s bps pl \<and> sp_cand pl = idx \<and> (\<exists>c. ws_cand ws' = (ws_cand ws)[idx := c])"
    and kept_slot: "kept p cand s bps pl \<Longrightarrow> cand' ! sp_cand pl = cand ! sp_cand pl \<Longrightarrow> kept p cand' s bps pl"
    and kept_carried: "kept p (ws_cand ws) s bps pl \<Longrightarrow> block n bps s \<Longrightarrow> 1 \<le> n \<Longrightarrow> 1 \<le> bps \<Longrightarrow> bps \<le> maxBps \<Longrightarrow>
      carried (subframeBits n) (put ws s bps pl p) (decode n bps) s"
begin

lemma plan_carried:
  assumes "plan F ws idx s bps p win = (pl, ws')" "float64_laws F" "block n bps s" "1 \<le> n" "n \<le> 65535" "1 \<le> bps" "bps \<le> maxBps"
    and ws: "four_slots ws" "idx < 4"
  shows "four_slots ws'" "kept p (ws_cand ws') s bps pl" "sp_cand pl = idx"
    "j \<noteq> idx \<Longrightarrow> ws_cand ws' ! j = ws_cand ws ! j" "carried (subframeBits n) (put ws' s bps pl p) (decode n bps) s"
proof -
  have k: "kept p (ws_cand ws') s bps pl" "sp_cand pl = idx" "\<exists>c. ws_cand ws' = (ws_cand ws)[idx := c]"
    using plan_kept [OF assms(1-6)] ws by (auto simp: four_slots_def)
  then show "four_slots ws'" "kept p (ws_cand ws') s bps pl" "sp_cand pl = idx" "j \<noteq> idx \<Longrightarrow> ws_cand ws' ! j = ws_cand ws ! j"
    using ws by (auto simp: four_slots_def)
  show "carried (subframeBits n) (put ws' s bps pl p) (decode n bps) s" by (rule kept_carried [OF k(1) assms(3,4,6,7)])
qed

text \<open>Four plans in four slots: each is carried once the last one is made.\<close>

lemma four_plans:
  assumes P: "plan F w0 0 l bps p win = (pL, wL)" "plan F wL 1 r bps p win = (pR, wR)"
      "plan F wR 2 m bps p win = (pM, wM)" "plan F wM 3 s (bps + 1) p win = (pS, wS)"
    and F: "float64_laws F" and b: "block n bps l" "block n bps r" "block n bps m" "block n (bps + 1) s"
    and n: "1 \<le> n" "n \<le> 65535" "1 \<le> bps" "bps + 1 \<le> maxBps" and w0: "four_slots w0"
  shows "four_slots wS" "carried (subframeBits n) (put wS l bps pL p) (decode n bps) l" "carried (subframeBits n) (put wS r bps pR p) (decode n bps) r"
    "carried (subframeBits n) (put wS m bps pM p) (decode n bps) m" "carried (subframeBits n) (put wS s (bps + 1) pS p) (decode n (bps + 1)) s"
proof -
  have n': "bps \<le> maxBps" "1 \<le> bps + 1" using n by simp_all
  note L = plan_carried [OF P(1) F b(1) n(1-3) n'(1) w0]
  note R = plan_carried [OF P(2) F b(2) n(1-3) n'(1) L(1)]
  note M = plan_carried [OF P(3) F b(3) n(1-3) n'(1) R(1)]
  note S = plan_carried [OF P(4) F b(4) n(1,2) n'(2) n(4) M(1)]
  show "four_slots wS" "carried (subframeBits n) (put wS s (bps + 1) pS p) (decode n (bps + 1)) s" using S(1,5) by simp_all
  have "ws_cand wS ! 0 = ws_cand wL ! 0" "ws_cand wS ! 1 = ws_cand wR ! 1" "ws_cand wS ! 2 = ws_cand wM ! 2"
    using R(4) M(4) S(4) by simp_all
  then have "kept p (ws_cand wS) l bps pL" "kept p (ws_cand wS) r bps pR" "kept p (ws_cand wS) m bps pM"
    using kept_slot [OF L(2)] kept_slot [OF R(2)] kept_slot [OF M(2)] L(3) R(3) M(3) by simp_all
  then show "carried (subframeBits n) (put wS l bps pL p) (decode n bps) l" "carried (subframeBits n) (put wS r bps pR p) (decode n bps) r"
    "carried (subframeBits n) (put wS m bps pM p) (decode n bps) m"
    using kept_carried b n n'(1) by simp_all
qed

end

interpretation frame32: frame_width planSubframe writeSubframe decodeSubframe
  "\<lambda>p. carries zigzag scast lpc_pred cs_res (p_LPCPrecision p)" samples_ok 32
proof (unfold_locales, goal_cases)
  case (1 F ws idx s bps p win pl ws' n)
  then have "s \<noteq> []" "length s \<le> 65535" by (auto simp: samples_ok_def)
  from planSubframe_ok [OF 1(2,1) this 1(6,7)] show ?case by blast
next
  case (2 p cand s bps pl cand') then show ?case by (rule carries_slot)
next
  case (3 p ws s bps pl n) then show ?case by (rule writeSubframe_carried)
qed

interpretation frame64: frame_width planSubframe64 writeSubframe64 decodeSubframe64
  "\<lambda>p. carries zigzag64 (\<lambda>r. r) lpc_pred64 cs_res64 (p_LPCPrecision p)" samples_ok 33
proof (unfold_locales, goal_cases)
  case (1 F ws idx s bps p win pl ws' n)
  then have "s \<noteq> []" "length s \<le> 65535" by (auto simp: samples_ok_def)
  from planSubframe64_ok [OF 1(2,1) this 1(6,7)] show ?case by blast
next
  case (2 p cand s bps pl cand') then show ?case by (rule carries_slot)
next
  case (3 p ws s bps pl n) then show ?case by (rule writeSubframe64_carried)
qed

subsection \<open>Independent channels\<close>

lemma carried_seq:
  fixes get1 :: "('a, 't) rm" and get2 :: "('b, 't) rm"
  assumes "carried z1 put1 get1 x" "carried z2 put2 get2 y" "f x y = v"
  shows "carried (z1 + z2) (\<lambda>bw. put2 (put1 bw)) (bindR get1 (\<lambda>a. bindR get2 (\<lambda>b. retR (f a b)))) v"
proof -
  obtain b1 b2 where b: "emits put1 b1" "parses get1 b1 x" "emits put2 b2" "parses get2 b2 y" "length b1 \<le> z1" "length b2 \<le> z2"
    using assms by (auto simp: carried_def)
  have "parses (bindR get1 (\<lambda>a. bindR get2 (\<lambda>b. retR (f a b)))) (b1 @ b2) v"
    unfolding assms(3) [symmetric] by (rule parses_bind [OF b(2)]) (rule parses_bind_ret [OF b(4) parses_ret])
  then show ?thesis using emits_comp [OF b(1,3)] b(5,6) by (auto simp: carried_def intro!: exI [of _ "b1 @ b2"])
qed

lemma carried_deferR: "carried z put get x \<Longrightarrow> carried z put (deferR get) (Some x)"
  by (auto simp: carried_def intro: parses_deferR)

lemma carried_map:
  assumes "carried z put (get :: ('a, 't) rm) x" "f x = y"
  shows "carried z put (bindR get (\<lambda>a. retR (f a))) y"
  using assms parses_bind_ret [OF _ parses_ret, of get _ x f] unfolding carried_def by auto

lemma fold_channels:
  assumes step: "\<And>s ws. s \<in> set chs \<Longrightarrow> J ws \<Longrightarrow> \<exists>ws' put. (\<forall>bw. step s (ws, bw) = (ws', put bw)) \<and> J ws' \<and> carried z put (get :: ('b, 't) rm) (g s)"
    and "J ws"
  shows "\<exists>ws' put. (\<forall>bw. fold step chs (ws, bw) = (ws', put bw)) \<and> J ws' \<and> carried (length chs * z) put (readN (length chs) get) (map g chs)"
  using assms
proof (induction chs arbitrary: ws)
  case Nil
  have "carried 0 (\<lambda>bw. bw) (readN 0 get) []" using emits_id by (auto simp: carried_def parses_ret)
  then show ?case using Nil by (auto intro!: exI [of _ "\<lambda>bw. bw"])
next
  case (Cons s chs)
  obtain ws1 put where s: "\<forall>bw. step s (ws, bw) = (ws1, put bw)" "J ws1" "carried z put get (g s)"
    using Cons.prems(1) [of s ws] Cons.prems(2) by auto
  obtain ws' put' where r: "\<forall>bw. fold step chs (ws1, bw) = (ws', put' bw)" "J ws'" "carried (length chs * z) put' (readN (length chs) get) (map g chs)"
    using Cons.IH [OF Cons.prems(1) s(2)] by auto
  have "carried (length (s # chs) * z) (\<lambda>bw. put' (put bw)) (readN (length (s # chs)) get) (map g (s # chs))"
    using carried_seq [OF s(3) r(3) refl, of "(#)"] by simp
  then show ?case using s(1) r(1,2) by (auto intro!: exI [of _ "\<lambda>bw. put' (put bw)"])
qed

lemma encodeChannel_ok:
  assumes F: "float64_laws F" and s: "samples_ok n bps s" "1 \<le> n" "n \<le> 65535" "1 \<le> bps" "bps \<le> 24" and ws: "four_slots ws"
  shows "\<exists>ws' put. (\<forall>bw. encodeChannel F p bps win s (ws, bw) = (ws', put bw)) \<and> four_slots ws'
    \<and> carried (subframeBits n) put (deferR (decodeSubframe n bps) :: (i32 list option, frameCRC) rm) (Some s)"
proof -
  obtain plan ws' where P: "planSubframe F ws 0 s bps p win = (plan, ws')" by fastforce
  have "bps \<le> 32" using s by simp
  note k = frame32.plan_carried [OF P F s(1-4) this ws, simplified]
  show ?thesis using k(1) carried_deferR [OF k(5)] by (auto simp: encodeChannel_def P intro!: exI [of _ "writeSubframe ws' s bps plan p"])
qed

lemma sint_wide32: "sint (scast x :: i64) = sint x" for x :: i32
  by (rule sint_up_scast) (simp add: is_up)

lemma map_narrow_wide: "map ucast (map scast s :: i64 list) = s" for s :: "i32 list"
proof -
  have "ucast (scast x :: i64) = x" for x :: i32
    using sint_narrow [of 32 "scast x"] sint_fits [of x] by (intro signed_word_eqI) (simp add: sint_wide32)
  then show ?thesis by (simp add: comp_def)
qed

lemma samples_ok_wide: "samples_ok n bps s \<Longrightarrow> samples_ok n bps (map scast s :: i64 list)" for s :: "i32 list"
  by (simp add: samples_ok_def sint_wide32)

lemma encodeChannel64_ok:
  assumes F: "float64_laws F" and s: "samples_ok n bps s" "1 \<le> n" "n \<le> 65535" "1 \<le> bps" "bps \<le> 32" and ws: "four_slots ws"
  shows "\<exists>ws' put. (\<forall>bw. encodeChannel64 F p bps win s (ws, bw) = (ws', put bw)) \<and> four_slots ws'
    \<and> carried (subframeBits n) put (deferR (bindR (decodeSubframe64 n bps) (\<lambda>scratch. retR (map ucast scratch))) :: (i32 list option, frameCRC) rm) (Some s)"
proof -
  define buf :: "i64 list" where "buf = map scast s"
  define ws1 where "ws1 = ws\<lparr>ws_l64 := put_row 0 buf (ws_l64 ws)\<rparr>"
  obtain plan ws' where P: "planSubframe64 F ws1 0 buf bps p win = (plan, ws')" by fastforce
  have b: "samples_ok n bps buf" "four_slots ws1" "bps \<le> 33"
    using samples_ok_wide [OF s(1)] ws s(5) by (simp_all add: buf_def ws1_def four_slots_def)
  note k = frame64.plan_carried [OF P F b(1) s(2-4) b(3,2), simplified]
  have "map ucast buf = s" unfolding buf_def by (rule map_narrow_wide)
  from carried_deferR [OF carried_map [where f = "map ucast", OF k(5) this]] k(1) show ?thesis
    unfolding encodeChannel64_def
    by (auto simp: P Let_def simp flip: buf_def ws1_def intro!: exI [of _ "writeSubframe64 ws' buf bps plan p"])
qed

subsection \<open>Stereo\<close>

lemma carried_pair:
  assumes "carried z put1 (decode n wa :: ('a, 't) rm) x" "carried z put2 (decode n wb) y"
  shows "carried (2 * z) (\<lambda>bw. put2 (put1 bw)) (decodePair decode n wa wb) (Some (x, y))"
  unfolding decodePair_def decodeDeferred_def mult_2 by (rule carried_seq [OF assms [THEN carried_deferR]]) simp

lemma carried_two:
  assumes "carried z put1 (get :: ('a, 't) rm) x" "carried z put2 get y"
  shows "carried (2 * z) (\<lambda>bw. put2 (put1 bw)) (readN 2 get) [x, y]"
proof -
  have "readN 2 get = bindR get (\<lambda>a. bindR get (\<lambda>b. retR [a, b]))"
    by (auto simp: numeral_2_eq_2 bindR_def retR_def split: prod.split sum.split intro!: ext)
  then show ?thesis using carried_seq [OF assms refl, of "\<lambda>a b. [a, b]"] by (simp add: mult_2)
qed

lemma decodeChannels_independent:
  assumes "carried z put (decodeIndependent (headerOf n a si k) :: (i32 list option list, 't) rm) (map Some chs)" "a \<le> 7"
  shows "carried z put (decodeChannels (headerOf n a si k) :: (i32 list list option, 't) rm) (Some chs)"
  using assms(2) unfolding decodeChannels_def
  by (simp add: headerOf_def) (rule carried_map [OF assms(1) [unfolded headerOf_def]], simp add: list_ex_iff comp_def)

lemma decodeChannels_stereo:
  assumes "carried z put (decodeStereoDecorrelated (headerOf n a si k) :: ((i32 list \<times> i32 list) option, 't) rm) (Some (l, r))" "8 \<le> a"
  shows "carried z put (decodeChannels (headerOf n a si k) :: (i32 list list option, 't) rm) (Some [l, r])"
  using assms(2) unfolding decodeChannels_def
  by (simp add: headerOf_def) (rule carried_map [OF assms(1) [unfolded headerOf_def]], simp)

lemma chooseAssignment_cases: "chooseAssignment mode bl br bm bs \<in> {1, 8, 9, 10}"
  by (simp add: chooseAssignment_def Let_def assignments)

text \<open>
  The four candidates of a stereo frame: when each is carried at its depth, the chosen pair is
  read back as the channels. \<open>decode\<close> and \<open>undo\<close> are those of the frame's width.
\<close>

lemma stereo_carried:
  fixes decode :: "nat \<Rightarrow> nat \<Rightarrow> ('a list, 't) rm" and put :: "'a list \<Rightarrow> nat \<Rightarrow> subframePlan \<Rightarrow> writer \<Rightarrow> writer"
  assumes c: "carried z (put l b pL) (decode n b) l" "carried z (put r b pR) (decode n b) r"
      "carried z (put m b pM) (decode n b) m" "carried z (put s (b + 1) pS) (decode n (b + 1)) s"
    and ind: "carried (2 * z) (\<lambda>bw. put r b pR (put l b pL bw))
        (decodeIndependent (headerOf n 1 si k) :: (i32 list option list, 't) rm) (map Some [l', r'])"
    and st: "\<And>a wa wb. (wa, wb) = (if a = 9 then (b + 1, b) else (b, b + 1)) \<Longrightarrow>
      decodeStereoDecorrelated (headerOf n a si k) = bindR (decodePair decode n wa wb) (\<lambda>ab. retR (Option.bind ab (undo a)))"
    and inverse: "undo 8 (l, s) = Some (l', r')" "undo 9 (s, r) = Some (l', r')" "undo 10 (m, s) = Some (l', r')"
    and a: "a \<in> {1, 8, 9, 10}"
  shows "carried (2 * z) (writeAssigned put a b (l, pL) (r, pR) (m, pM) (s, pS))
      (decodeChannels (headerOf n a si k) :: (i32 list list option, 't) rm) (Some [l', r'])"
proof -
  note w = writeAssigned_def [abs_def] assignments
  consider "a = 1" | "a = 8" | "a = 9" | "a = 10" using a by auto
  then show ?thesis
  proof cases
    case 1
    from decodeChannels_independent [OF ind] show ?thesis by (simp add: 1 w)
  next
    case 2
    have "carried (2 * z) (\<lambda>bw. put s (b + 1) pS (put l b pL bw))
        (decodeStereoDecorrelated (headerOf n 8 si k) :: ((i32 list \<times> i32 list) option, 't) rm) (Some (l', r'))"
      by (subst st [of b "b + 1"], simp, rule carried_map [OF carried_pair [where decode = decode and n = n, OF c(1,4)]]) (simp add: inverse)
    from decodeChannels_stereo [OF this] show ?thesis by (simp add: 2 w)
  next
    case 3
    have "carried (2 * z) (\<lambda>bw. put r b pR (put s (b + 1) pS bw))
        (decodeStereoDecorrelated (headerOf n 9 si k) :: ((i32 list \<times> i32 list) option, 't) rm) (Some (l', r'))"
      by (subst st [of "b + 1" b], simp, rule carried_map [OF carried_pair [where decode = decode and n = n, OF c(4,2)]]) (simp add: inverse)
    from decodeChannels_stereo [OF this] show ?thesis by (simp add: 3 w)
  next
    case 4
    have "carried (2 * z) (\<lambda>bw. put s (b + 1) pS (put m b pM bw))
        (decodeStereoDecorrelated (headerOf n 10 si k) :: ((i32 list \<times> i32 list) option, 't) rm) (Some (l', r'))"
      by (subst st [of b "b + 1"], simp, rule carried_map [OF carried_pair [where decode = decode and n = n, OF c(3,4)]]) (simp add: inverse)
    from decodeChannels_stereo [OF this] show ?thesis by (simp add: 4 w)
  qed
qed

lemma decodeStereo_width:
  assumes "(wa, wb) = (if a = 9 then (si_BitDepth si + 1, si_BitDepth si) else (si_BitDepth si, si_BitDepth si + 1))"
  shows "si_BitDepth si \<le> 24 \<Longrightarrow> decodeStereoDecorrelated (headerOf n a si k) =
      bindR (decodePair decodeSubframe n wa wb) (\<lambda>ab. retR (Option.bind ab (stereo32 a (si_BitDepth si))))"
    "25 \<le> si_BitDepth si \<Longrightarrow> decodeStereoDecorrelated (headerOf n a si k) =
      bindR (decodePair decodeSubframe64 n wa wb) (\<lambda>ab. retR (Option.bind ab (stereo64 a (si_BitDepth si))))"
  using assms unfolding decodeStereoDecorrelated_def by (simp_all add: headerOf_def Let_def split: if_splits)

lemma decodeIndependent_width:
  assumes "c \<le> 7"
  shows "si_BitDepth si \<le> 24 \<Longrightarrow> decodeIndependent (headerOf n c si k) = readN (c + 1) (deferR (decodeSubframe n (si_BitDepth si)))"
    "25 \<le> si_BitDepth si \<Longrightarrow> decodeIndependent (headerOf n c si k) =
       readN (c + 1) (deferR (bindR (decodeSubframe64 n (si_BitDepth si)) (\<lambda>scratch. retR (map ucast scratch))))"
  using assms by (simp_all add: decodeIndependent_def headerOf_def channels_def Let_def)

lemma decodeIndependent_two:
  shows "si_BitDepth si \<le> 24 \<Longrightarrow> decodeIndependent (headerOf n 1 si k) = readN 2 (deferR (decodeSubframe n (si_BitDepth si)))"
    "25 \<le> si_BitDepth si \<Longrightarrow> decodeIndependent (headerOf n 1 si k) =
       readN 2 (deferR (bindR (decodeSubframe64 n (si_BitDepth si)) (\<lambda>scratch. retR (map ucast scratch))))"
  using decodeIndependent_width [of 1 si n k, unfolded one_add_one] by simp_all

subsection \<open>A frame starts with the sync code\<close>

lemma header_sync:
  assumes "header_bytes n a si k h"
  shows "take 2 h = [0xFF, 0xF8]" "2 \<le> length h"
proof -
  have "byte_bits h = bits_msb 14 syncCode @ fields_bits n a si k" using assms by (simp add: header_bytes_def)
  moreover obtain fs where "fields_bits n a si k = [False, False] @ fs"
    by (cases "blockSizeCode n"; cases "the (sampleRateCode (si_SampleRate si))") (auto simp: fields_bits_def)
  ultimately have h: "byte_bits h = (bits_msb 14 syncCode @ [False, False]) @ fs" by simp
  moreover have s: "bits_msb 14 syncCode @ [False, False] = byte_bits [0xFF, 0xF8]" by code_simp
  ultimately have "byte_bits (take 2 h) = byte_bits [0xFF, 0xF8]"
    using take_byte_bits [of 2 h] by (simp del: byte_bits_simps)
  then show t: "take 2 h = [0xFF, 0xF8]" unfolding byte_bits_inj .
  from arg_cong [OF t, of length] show "2 \<le> length h" by simp
qed

lemma frame_sync:
  assumes "frame_bits n a si k body bytes"
  shows "take 2 bytes = [0xFF, 0xF8]"
proof -
  obtain h pad where h: "header_bytes n a si k h" "byte_bits bytes = byte_bits (h @ [Checksum8 h]) @ body @ replicate pad False"
    using assms by (auto simp: frame_bits_def)
  note hs = header_sync [OF h(1)]
  have "byte_bits (take 2 bytes) = take 16 (byte_bits bytes)" using take_byte_bits [of 2 bytes] by simp
  also have "\<dots> = byte_bits (take 2 h)" unfolding h(2) using hs(2) take_byte_bits [of 2 h] by simp
  finally show ?thesis unfolding byte_bits_inj hs(1) .
qed

section \<open>The whole frame\<close>

lemma header_bytes_length:
  assumes "header_bytes n a si k h" "1 \<le> n" "n \<le> 65536" "0 < si_SampleRate si"
  shows "length h \<le> 15"
proof -
  obtain bc bn bv where b: "blockSizeCode n = (bc, bn, bv)" by (metis prod_cases3)
  obtain sc sn sv where s: "sampleRateCode (si_SampleRate si) = Some (sc, sn, sv)" using sampleRateCode_total [OF assms(4)] by blast
  have "length (concat (map (\<lambda>i. bits_msb 8 (f i :: u64)) xs)) = 8 * length xs" for f and xs :: "nat list"
    by (induction xs) simp_all
  then have "length (utf8_bits k) \<le> 56" by (auto simp: utf8_bits_def utf8Len_def simp del: length_concat)
  moreover have "length (ext_bits bn bv) \<le> 16" "length (ext_bits sn (int sv)) \<le> 16"
    using blockSizeCode_ok(3) [OF assms(2,3) b] sampleRateCode_ok(3) [OF s] by (auto simp: ext_bits_def)
  ultimately have "length (byte_bits h) \<le> 120" using assms(1) by (simp add: header_bytes_def fields_bits_def b s)
  then show ?thesis by simp
qed

text \<open>A frame of \<open>c\<close> channels of \<open>n\<close> samples has at most \<open>frameMax c n\<close> bytes.\<close>

definition frameMax :: "nat \<Rightarrow> nat \<Rightarrow> nat" where
  "frameMax c n = 19 + c * (5 * n + 68)"

lemma frameMax_mono: "c \<le> c' \<Longrightarrow> n \<le> n' \<Longrightarrow> frameMax c n \<le> frameMax c' n'"
  unfolding frameMax_def by (intro add_mono mult_le_mono) simp_all

lemma frameMax_bits: "8 * b \<le> 152 + c * subframeBits n \<Longrightarrow> b \<le> frameMax c n"
proof -
  assume "8 * b \<le> 152 + c * subframeBits n"
  moreover have "c * subframeBits n \<le> c * (8 * (5 * n + 68))" by (intro mult_le_mono2) (simp add: subframeBits_def)
  moreover have "c * (8 * (5 * n + 68)) = 8 * (c * (5 * n + 68))" by simp
  ultimately show ?thesis unfolding frameMax_def by linarith
qed

lemma finishFrame_ok:
  assumes "wf_writer bw"
  shows "\<exists>bytes pad bw'. Bytes (finishFrame cs bw) = (bytes @ be16 (cs bytes), bw') \<and> pad < 8
    \<and> byte_bits bytes = wbits bw @ replicate pad False"
proof -
  define al where "al = AlignByte bw"
  define pad where "pad = pad_len (length (wbits bw))"
  have al: "wf_writer al" "wbits al = wbits bw @ replicate pad False"
    using AlignByte_ok [OF assms] by (simp_all add: al_def pad_def)
  have pad: "pad < 8" "length (wbits al) mod 8 = 0"
    unfolding al(2) by (simp_all add: pad_def pad_len_def mod_add_right_eq flip: add.assoc) presburger
  obtain bytes bw1 where b: "Bytes al = (bytes, bw1)" by fastforce
  with Bytes_ok [OF al(1) pad(2)] have b': "byte_bits bytes = wbits al" "wf_writer bw1" "wbits bw1 = wbits al" by simp_all
  define bw2 where "bw2 = WriteBits (ucast (cs bytes)) 16 bw1"
  have fin: "finishFrame cs bw = bw2" by (simp add: finishFrame_def bw2_def b flip: al_def)
  have w: "wf_writer bw2" "wbits bw2 = byte_bits (bytes @ be16 (cs bytes))"
    using emitsD [OF emits_WriteBits [of 16 "ucast (cs bytes)"] b'(2)] by (simp_all add: bw2_def b' byte_bits_be16)
  have "length (wbits bw2) mod 8 = 0" unfolding w(2) by simp
  from Bytes_ok(1) [OF w(1) this] have "fst (Bytes bw2) = bytes @ be16 (cs bytes)" unfolding w(2) byte_bits_inj .
  then have "Bytes bw2 = (bytes @ be16 (cs bytes), snd (Bytes bw2))" by (simp add: prod_eq_iff)
  then show ?thesis using pad(1) b'(1) al(2) unfolding fin by metis
qed

text \<open>
  \<open>decodes\<close>: wherever a reader stands before these bytes, \<open>Decode\<close> returns the frame and the
  reader goes on behind them; with another CRC-16 in the last two bytes it reports the mismatch.
\<close>

definition decodes :: "(u8 list \<Rightarrow> u16) \<Rightarrow> StreamInfo \<Rightarrow> u8 list \<Rightarrow> Frame \<Rightarrow> bool" where
  "decodes cs si bytes f \<longleftrightarrow>
     (\<exists>b. bytes = b @ be16 (cs b) \<and>
        (\<forall>rd c rest. wf_reader rd \<longrightarrow> roff rd = 0 \<longrightarrow> rbytes rd = b @ be16 c @ rest \<longrightarrow>
          (\<exists>rd'. Decode cs si rd = (if c = cs b then Inr f else Inl ErrCRCMismatch, rd') \<and> resumed (length bytes) rd rd')))"

lemma decodesD:
  assumes "decodes cs si bytes f" "wf_reader rd" "roff rd = 0" "rbytes rd = bytes @ rest"
  shows "\<exists>rd'. Decode cs si rd = (Inr f, rd') \<and> resumed (length bytes) rd rd'"
  using assms unfolding decodes_def by fastforce

definition blockFrame :: "nat \<Rightarrow> StreamInfo \<Rightarrow> u64 \<Rightarrow> i32 list list \<Rightarrow> Frame" where
  "blockFrame n si k chs =
     \<lparr>fr_BlockSize = n, fr_SampleRate = si_SampleRate si, fr_BitsPerSample = si_BitDepth si, fr_Channels = chs,
      fr_Number = k, fr_VariableBlockSize = False\<rparr>"

lemma frameOf_headerOf: "frameOf (headerOf n a si k) chs = blockFrame n si k chs"
  by (simp add: frameOf_def headerOf_def blockFrame_def)

definition frame_args :: "nat \<Rightarrow> StreamInfo \<Rightarrow> u64 \<Rightarrow> bool" where
  "frame_args n si k \<longleftrightarrow> 1 \<le> n \<and> n \<le> 65535 \<and> 0 < si_SampleRate si \<and> 1 \<le> si_BitDepth si \<and> si_BitDepth si \<le> 32 \<and> unat k < 2 ^ 36"

lemma frame_written:
  assumes v: "frame_args n si k" "a \<le> 10" and bw: "wf_writer bw" "wbits bw = []"
    and put: "carried z put (decodeChannels (headerOf n a si k) :: (i32 list list option, frameCRC) rm) (Some chs)"
  shows "\<exists>bw1 bytes bw2. writeFrameHeader n a (si_SampleRate si) (si_BitDepth si) k bw = Some bw1
    \<and> Bytes (finishFrame cs (put bw1)) = (bytes, bw2) \<and> decodes cs si bytes (blockFrame n si k chs) \<and> take 2 bytes = [0xFF, 0xF8]
    \<and> 8 * length bytes \<le> 152 + z"
proof -
  have v': "1 \<le> n" "n \<le> 65536" "0 < si_SampleRate si" "unat k < 2 ^ 36" using v by (simp_all add: frame_args_def)
  obtain h bw1 where H: "writeFrameHeader n a (si_SampleRate si) (si_BitDepth si) k bw = Some bw1" "wf_writer bw1"
      "header_bytes n a si k h" "wbits bw1 = byte_bits (h @ [Checksum8 h])"
    using writeFrameHeader_ok [OF v'(1-3) bw(1), of a k] bw(2) by auto
  obtain body where B: "emits put body" "parses (decodeChannels (headerOf n a si k) :: (i32 list list option, frameCRC) rm) body (Some chs)" "length body \<le> z"
    using put by (auto simp: carried_def)
  note w = emitsD [OF B(1) H(2)]
  obtain bytes pad bw2 where F: "Bytes (finishFrame cs (put bw1)) = (bytes @ be16 (cs bytes), bw2)" "pad < 8"
      "byte_bits bytes = wbits (put bw1) @ replicate pad False"
    using finishFrame_ok [OF w(1)] by blast
  have fb: "frame_bits n a si k body bytes"
    unfolding frame_bits_def F(3) w(2) H(4) using H(3) F(2) by auto
  have "\<exists>rd'. Decode cs si rd = (if c = cs bytes then Inr (blockFrame n si k chs) else Inl ErrCRCMismatch, rd')
      \<and> resumed (length (bytes @ be16 (cs bytes))) rd rd'"
    if rd: "wf_reader rd" "roff rd = 0" "rbytes rd = bytes @ be16 c @ rest" for rd :: "frameCRC reader" and c rest
    using Decode_frame [OF v'(1,2) v(2) v'(3,4) B(2) fb rd, of cs]
    by (simp add: verdict_def frameOf_headerOf be16_def split: if_splits)
  then have "decodes cs si (bytes @ be16 (cs bytes)) (blockFrame n si k chs)" unfolding decodes_def by blast
  moreover have "take 2 (bytes @ be16 (cs bytes)) = [0xFF, 0xF8]"
    using frame_sync [OF fb] by (cases bytes; cases "tl bytes") auto
  moreover have "8 * length (bytes @ be16 (cs bytes)) \<le> 152 + z"
    using arg_cong [OF F(3), of length] F(2) B(3) header_bytes_length [OF H(3) v'(1-3)] by (simp add: w(2) H(4) be16_def)
  ultimately show ?thesis using H(1) F(1) by blast
qed

lemma four_slots_simps [simp]:
  "four_slots (ensureSide n ws) = four_slots ws" "four_slots (ensureMid n ws) = four_slots ws"
  "four_slots (ensureSide64 n ws) = four_slots ws" "four_slots (ensureMid64 n ws) = four_slots ws"
  "four_slots (ensureL64 n ws) = four_slots ws" "four_slots (ensureR64 n ws) = four_slots ws"
  "four_slots (ws\<lparr>ws_side := x\<rparr>) = four_slots ws" "four_slots (ws\<lparr>ws_mid := x\<rparr>) = four_slots ws"
  "four_slots (ws\<lparr>ws_side64 := y\<rparr>) = four_slots ws" "four_slots (ws\<lparr>ws_mid64 := y\<rparr>) = four_slots ws"
  "four_slots (ws\<lparr>ws_l64 := y\<rparr>) = four_slots ws" "four_slots (ws\<lparr>ws_r64 := y\<rparr>) = four_slots ws"
  by (simp_all add: four_slots_def ensureSide_def ensureMid_def ensureSide64_def ensureMid64_def ensureL64_def ensureR64_def)

lemma window_slots:
  assumes "window F p n ws = (win, ws')"
  shows "four_slots ws' = four_slots ws"
  using assms by (auto simp: window_def Let_def four_slots_def split: option.splits)

lemma NewWorkspace_slots: "four_slots (NewWorkspace F maxBlock chans maxOrder)"
  by (simp add: four_slots_def NewWorkspace_def)

lemma encodeIndependent_ok:
  assumes F: "float64_laws F" and v: "frame_args n si k" and ws: "four_slots ws" and bw: "wf_writer bw" "wbits bw = []"
    and chs: "1 \<le> length chs" "length chs \<le> 8" "\<forall>c \<in> set chs. samples_ok n (si_BitDepth si) c"
  shows "\<exists>bw' ws' bytes bw''. encodeIndependent F cs bw ws p (si_SampleRate si) (si_BitDepth si) n chs k = Some (bw', ws')
    \<and> four_slots ws' \<and> Bytes bw' = (bytes, bw'') \<and> decodes cs si bytes (blockFrame n si k chs) \<and> take 2 bytes = [0xFF, 0xF8]
    \<and> length bytes \<le> frameMax (length chs) n"
proof -
  let ?b = "si_BitDepth si" and ?a = "length chs - 1"
  have v': "1 \<le> n" "n \<le> 65535" "1 \<le> ?b" "?b \<le> 32" using v by (simp_all add: frame_args_def)
  obtain win ws1 where W: "window F p n ws = (win, ws1)" by fastforce
  have ws1: "four_slots ws1" using window_slots [OF W] ws by simp
  define step where "step = (if ?b \<ge> 25 then fold (encodeChannel64 F p ?b win) chs else fold (encodeChannel F p ?b win) chs)"
  define ws2 where "ws2 = (if ?b \<ge> 25 then ensureL64 n ws1 else ws1)"
  have ws2: "four_slots ws2" using ws1 by (simp add: ws2_def)
  have a: "?a \<le> 7" "?a + 1 = length chs" using chs by simp_all
  have S: "\<exists>ws' put. (\<forall>bw. step (ws2, bw) = (ws', put bw)) \<and> four_slots ws'
    \<and> carried (length chs * subframeBits n) put (decodeIndependent (headerOf n ?a si k) :: (i32 list option list, frameCRC) rm) (map Some chs)"
  proof (cases "25 \<le> ?b")
    case True
    show ?thesis
      unfolding decodeIndependent_width(2) [OF a(1) True] a(2) step_def if_P [OF True]
      by (rule fold_channels [where J = four_slots, OF encodeChannel64_ok [OF F _ v'] ws2]) (use chs(3) in auto)
  next
    case False
    then have b: "?b \<le> 24" by simp
    show ?thesis
      unfolding decodeIndependent_width(1) [OF a(1) b] a(2) step_def if_not_P [OF False]
      by (rule fold_channels [where J = four_slots, OF encodeChannel_ok [OF F _ v'(1-3) b] ws2]) (use chs(3) in auto)
  qed
  then obtain ws' put where S: "\<forall>bw. step (ws2, bw) = (ws', put bw)" "four_slots ws'"
      "carried (length chs * subframeBits n) put (decodeIndependent (headerOf n ?a si k) :: (i32 list option list, frameCRC) rm) (map Some chs)" by blast
  from frame_written [OF v _ bw decodeChannels_independent [OF S(3) a(1)], of cs] a(1) obtain bw1 bytes bw2 where
    "writeFrameHeader n ?a (si_SampleRate si) ?b k bw = Some bw1" "Bytes (finishFrame cs (put bw1)) = (bytes, bw2)"
    "decodes cs si bytes (blockFrame n si k chs) \<and> take 2 bytes = [0xFF, 0xF8] \<and> length bytes \<le> frameMax (length chs) n" using frameMax_bits by auto
  then show ?thesis
    using S(1,2) by (auto simp: encodeIndependent_def W step_def ws2_def split: if_splits)
qed

lemma encodeStereo_ok:
  assumes F: "float64_laws F" and v: "frame_args n si k" "si_BitDepth si \<le> 24" and ws: "four_slots ws" and bw: "wf_writer bw" "wbits bw = []"
    and lr: "samples_ok n (si_BitDepth si) l" "samples_ok n (si_BitDepth si) r"
  shows "\<exists>bw' ws' bytes bw''. encodeStereo F cs bw ws p (si_SampleRate si) (si_BitDepth si) l r k = Some (bw', ws')
    \<and> four_slots ws' \<and> Bytes bw' = (bytes, bw'') \<and> decodes cs si bytes (blockFrame n si k [l, r]) \<and> take 2 bytes = [0xFF, 0xF8]
    \<and> length bytes \<le> frameMax 2 n"
proof -
  let ?b = "si_BitDepth si"
  have b: "1 \<le> n" "n \<le> 65535" "1 \<le> ?b" "?b + 1 \<le> 32" "length l = n" "?b < LENGTH(32)"
    using v lr by (simp_all add: frame_args_def samples_ok_def)
  define m s where "m = midOf l r" and "s = sideOf l r"
  have ms: "samples_ok n ?b m" "samples_ok n (?b + 1) s"
    unfolding m_def s_def by (rule mid_fits [OF lr b(6)], rule side_fits [OF lr b(6)])
  define ws1 where "ws1 = (ensureMid n (ensureSide n ws))\<lparr>ws_side := put_row 0 s (ws_side (ensureMid n (ensureSide n ws))),
      ws_mid := put_row 0 m (ws_mid (ensureMid n (ensureSide n ws)))\<rparr>"
  obtain win w0 where W: "window F p n ws1 = (win, w0)" by fastforce
  obtain pL wL where PL: "planSubframe F w0 0 l ?b p win = (pL, wL)" by fastforce
  obtain pR wR where PR: "planSubframe F wL 1 r ?b p win = (pR, wR)" by fastforce
  obtain pM wM where PM: "planSubframe F wR 2 m ?b p win = (pM, wM)" by fastforce
  obtain pS wS where PS: "planSubframe F wM 3 s (?b + 1) p win = (pS, wS)" by fastforce
  have w0: "four_slots w0" using window_slots [OF W] ws unfolding ws1_def by simp
  note k = frame32.four_plans [OF PL PR PM PS F lr ms b(1-4) w0]
  define a where "a = chooseAssignment (p_Stereo p) (sp_bits pL) (sp_bits pR) (sp_bits pM) (sp_bits pS)"
  define put where "put = (\<lambda>s bps plan. writeSubframe wS s bps plan p)"
  have ca: "carried (subframeBits n) (put l ?b pL) (decodeSubframe n ?b :: (i32 list, frameCRC) rm) l"
      "carried (subframeBits n) (put r ?b pR) (decodeSubframe n ?b :: (i32 list, frameCRC) rm) r"
      "carried (subframeBits n) (put m ?b pM) (decodeSubframe n ?b :: (i32 list, frameCRC) rm) m"
      "carried (subframeBits n) (put s (?b + 1) pS) (decodeSubframe n (?b + 1) :: (i32 list, frameCRC) rm) s"
    unfolding put_def by (fact k(2-5))+
  have ind: "carried (2 * subframeBits n) (\<lambda>bw. put r ?b pR (put l ?b pL bw)) (decodeIndependent (headerOf n 1 si k) :: (i32 list option list, frameCRC) rm) (map Some [l, r])"
    unfolding decodeIndependent_two(1) [OF v(2)] list.map by (rule carried_two [OF ca(1,2) [THEN carried_deferR]])
  have a: "a \<in> {1, 8, 9, 10}" unfolding a_def by (rule chooseAssignment_cases)
  note inv = stereo32_inverse [OF lr b(3) v(2), folded m_def s_def]
  have C: "carried (2 * subframeBits n) (writeAssigned put a ?b (l, pL) (r, pR) (m, pM) (s, pS))
      (decodeChannels (headerOf n a si k) :: (i32 list list option, frameCRC) rm) (Some [l, r])"
    by (rule stereo_carried [OF ca ind decodeStereo_width(1) [OF _ v(2)] inv a])
  from frame_written [OF v(1) _ bw C, of cs] a obtain bw1 bytes bw2 where
    "writeFrameHeader n a (si_SampleRate si) ?b k bw = Some bw1"
    "Bytes (finishFrame cs (writeAssigned put a ?b (l, pL) (r, pR) (m, pM) (s, pS) bw1)) = (bytes, bw2)"
    "decodes cs si bytes (blockFrame n si k [l, r]) \<and> take 2 bytes = [0xFF, 0xF8] \<and> length bytes \<le> frameMax 2 n" using frameMax_bits [of _ 2] by auto
  then show ?thesis
    unfolding encodeStereo_def Let_def b(5) m_def [symmetric] s_def [symmetric] ws1_def [symmetric] W PL PR PM PS prod.case
      a_def [symmetric] put_def [symmetric] by (simp add: k(1))
qed

lemma encodeStereo64_ok:
  assumes F: "float64_laws F" and v: "frame_args n si k" "25 \<le> si_BitDepth si" and ws: "four_slots ws" and bw: "wf_writer bw" "wbits bw = []"
    and lr: "samples_ok n (si_BitDepth si) l32" "samples_ok n (si_BitDepth si) r32"
  shows "\<exists>bw' ws' bytes bw''. encodeStereo64 F cs bw ws p (si_SampleRate si) (si_BitDepth si) l32 r32 k = Some (bw', ws')
    \<and> four_slots ws' \<and> Bytes bw' = (bytes, bw'') \<and> decodes cs si bytes (blockFrame n si k [l32, r32]) \<and> take 2 bytes = [0xFF, 0xF8]
    \<and> length bytes \<le> frameMax 2 n"
proof -
  let ?b = "si_BitDepth si"
  define l r :: "i64 list" where "l = map scast l32" and "r = map scast r32"
  have lr': "samples_ok n ?b l" "samples_ok n ?b r" unfolding l_def r_def by (rule samples_ok_wide [OF lr(1)], rule samples_ok_wide [OF lr(2)])
  have b: "1 \<le> n" "n \<le> 65535" "1 \<le> ?b" "?b + 1 \<le> 33" "length l32 = n" "?b < LENGTH(64)" "?b \<le> 32"
    using v lr by (simp_all add: frame_args_def samples_ok_def)
  define m s where "m = midOf l r" and "s = sideOf l r"
  have ms: "samples_ok n ?b m" "samples_ok n (?b + 1) s"
    unfolding m_def s_def by (rule mid_fits [OF lr' b(6)], rule side_fits [OF lr' b(6)])
  define wse where "wse = ensureMid64 n (ensureSide64 n (ensureR64 n (ensureL64 n ws)))"
  define ws1 where "ws1 = wse\<lparr>ws_l64 := put_row 0 l (ws_l64 wse), ws_r64 := put_row 0 r (ws_r64 wse),
      ws_side64 := put_row 0 s (ws_side64 wse), ws_mid64 := put_row 0 m (ws_mid64 wse)\<rparr>"
  obtain win w0 where W: "window F p n ws1 = (win, w0)" by fastforce
  obtain pL wL where PL: "planSubframe64 F w0 0 l ?b p win = (pL, wL)" by fastforce
  obtain pR wR where PR: "planSubframe64 F wL 1 r ?b p win = (pR, wR)" by fastforce
  obtain pM wM where PM: "planSubframe64 F wR 2 m ?b p win = (pM, wM)" by fastforce
  obtain pS wS where PS: "planSubframe64 F wM 3 s (?b + 1) p win = (pS, wS)" by fastforce
  have w0: "four_slots w0" using window_slots [OF W] ws unfolding ws1_def wse_def by simp
  note k = frame64.four_plans [OF PL PR PM PS F lr' ms b(1-4) w0]
  define a where "a = chooseAssignment (p_Stereo p) (sp_bits pL) (sp_bits pR) (sp_bits pM) (sp_bits pS)"
  define put where "put = (\<lambda>s bps plan. writeSubframe64 wS s bps plan p)"
  have ca: "carried (subframeBits n) (put l ?b pL) (decodeSubframe64 n ?b :: (i64 list, frameCRC) rm) l"
      "carried (subframeBits n) (put r ?b pR) (decodeSubframe64 n ?b :: (i64 list, frameCRC) rm) r"
      "carried (subframeBits n) (put m ?b pM) (decodeSubframe64 n ?b :: (i64 list, frameCRC) rm) m"
      "carried (subframeBits n) (put s (?b + 1) pS) (decodeSubframe64 n (?b + 1) :: (i64 list, frameCRC) rm) s"
    unfolding put_def by (fact k(2-5))+
  have narrow: "map ucast l = l32" "map ucast r = r32" unfolding l_def r_def by (rule map_narrow_wide)+
  have ind: "carried (2 * subframeBits n) (\<lambda>bw. put r ?b pR (put l ?b pL bw)) (decodeIndependent (headerOf n 1 si k) :: (i32 list option list, frameCRC) rm) (map Some [l32, r32])"
    unfolding decodeIndependent_two(2) [OF v(2)] list.map
    by (rule carried_two [OF carried_deferR [OF carried_map [where f = "map ucast", OF ca(1) narrow(1)]]
        carried_deferR [OF carried_map [where f = "map ucast", OF ca(2) narrow(2)]]])
  have a: "a \<in> {1, 8, 9, 10}" unfolding a_def by (rule chooseAssignment_cases)
  note inv = stereo64_inverse [OF lr' b(3,7), folded m_def s_def, unfolded narrow]
  have C: "carried (2 * subframeBits n) (writeAssigned put a ?b (l, pL) (r, pR) (m, pM) (s, pS))
      (decodeChannels (headerOf n a si k) :: (i32 list list option, frameCRC) rm) (Some [l32, r32])"
    by (rule stereo_carried [OF ca ind decodeStereo_width(2) [OF _ v(2)] inv a])
  from frame_written [OF v(1) _ bw C, of cs] a obtain bw1 bytes bw2 where
    "writeFrameHeader n a (si_SampleRate si) ?b k bw = Some bw1"
    "Bytes (finishFrame cs (writeAssigned put a ?b (l, pL) (r, pR) (m, pM) (s, pS) bw1)) = (bytes, bw2)"
    "decodes cs si bytes (blockFrame n si k [l32, r32]) \<and> take 2 bytes = [0xFF, 0xF8] \<and> length bytes \<le> frameMax 2 n" using frameMax_bits [of _ 2] by auto
  then show ?thesis
    unfolding encodeStereo64_def Let_def b(5) l_def [symmetric] r_def [symmetric] m_def [symmetric] s_def [symmetric] wse_def [symmetric]
      ws1_def [symmetric] W PL PR PM PS prod.case a_def [symmetric] put_def [symmetric] by (simp add: k(1))
qed

text \<open>A block the encoder accepts: up to eight channels of one length and the stream's depth.\<close>

definition block_ok :: "StreamInfo \<Rightarrow> u64 \<Rightarrow> i32 list list \<Rightarrow> bool" where
  "block_ok si k chs \<longleftrightarrow> 1 \<le> length chs \<and> length chs \<le> 8 \<and> frame_args (length (chs ! 0)) si k
     \<and> (\<forall>c \<in> set chs. samples_ok (length (chs ! 0)) (si_BitDepth si) c)"

lemma EncodeFrame_ok:
  assumes F: "float64_laws F" and B: "block_ok si k chs" and ws: "four_slots ws"
  shows "\<exists>bytes bw' ws'. EncodeFrame F cs bw ws p si chs k = Some (bytes, bw', ws') \<and> four_slots ws'
    \<and> decodes cs si bytes (blockFrame (length (chs ! 0)) si k chs) \<and> take 2 bytes = [0xFF, 0xF8] \<and> length bytes \<le> frameMax (length chs) (length (chs ! 0))"
proof -
  let ?n = "length (chs ! 0)"
  have c: "1 \<le> length chs" "length chs \<le> 8" "\<forall>c \<in> set chs. samples_ok ?n (si_BitDepth si) c" and v: "frame_args ?n si k"
    using B by (simp_all add: block_ok_def)
  have two: "chs = [chs ! 0, chs ! 1]" if "length chs = 2"
    using that by (auto simp: length_Suc_conv numeral_2_eq_2)
  have lr: "samples_ok ?n (si_BitDepth si) (chs ! 0)" "samples_ok ?n (si_BitDepth si) (chs ! 1)" if "length chs = 2"
    using c(3) that by simp_all
  note st = encodeStereo_ok [OF F v _ ws wf_wReset [of bw] wbits_wReset [of bw] lr, where cs = cs and p = p]
  note st64 = encodeStereo64_ok [OF F v _ ws wf_wReset [of bw] wbits_wReset [of bw] lr, where cs = cs and p = p]
  note ind = encodeIndependent_ok [OF F v ws wf_wReset [of bw] wbits_wReset [of bw] c, where cs = cs and p = p]
  let ?enc = "if length chs = 2 \<and> p_Stereo p \<noteq> StereoIndependent \<and> si_BitDepth si \<le> 24
    then encodeStereo F cs (wReset bw) ws p (si_SampleRate si) (si_BitDepth si) (chs ! 0) (chs ! 1) k
    else if length chs = 2 \<and> p_Stereo p \<noteq> StereoIndependent \<and> si_BitDepth si \<ge> 25
    then encodeStereo64 F cs (wReset bw) ws p (si_SampleRate si) (si_BitDepth si) (chs ! 0) (chs ! 1) k
    else encodeIndependent F cs (wReset bw) ws p (si_SampleRate si) (si_BitDepth si) ?n chs k"
  have "\<exists>bw' ws' bytes bw''. ?enc = Some (bw', ws') \<and> four_slots ws' \<and> Bytes bw' = (bytes, bw'')
    \<and> decodes cs si bytes (blockFrame ?n si k chs) \<and> take 2 bytes = [0xFF, 0xF8] \<and> length bytes \<le> frameMax (length chs) ?n"
    using st st64 ind two by auto
  then show ?thesis unfolding EncodeFrame_def Let_def Grow_id by auto
qed

section \<open>The search\<close>

lemma Decode_wf:
  assumes wf: "wf_reader rd" and si: "valid_info si"
  shows "wf_reader (snd (Decode cs si rd))"
proof -
  define rd0 where "rd0 = SetTapper (Some (TapByte, Some TapBytes, fcReset)) rd"
  note s0 = SetTapper_Some [OF wf, of "Some TapBytes" TapByte fcReset, folded rd0_def]
  have s0': "wf_reader rd0" "rd_tap rd0 = Some TapByte" "rd_rtap rd0 = Some TapBytes"
    using s0 range_tap_TapBytes by simp_all
  obtain x rd1 where H: "readHeaderBody fc_c8 si rd0 = (x, rd1)" by fastforce
  note h = runsD [OF runs_readHeaderBody [OF si] s0'(1) H]
  obtain j where j: "advance j rd0 rd1" using h(1) by blast
  show ?thesis
  proof (cases x)
    case (Inl e)
    then show ?thesis using SetTapper_None(1) [OF advanceD(1) [OF j]] by (simp add: Decode_def H [unfolded rd0_def])
  next
    case (Inr hdr)
    define rds where "rds = SwitchTapToDeferred rd1"
    have s1: "wf_reader rds" "rd_tap rds = None" "rd_rtap rds = Some TapBytes"
      unfolding rds_def using SwitchTapToDeferred_ok [OF advanceD(1) [OF j], of TapByte TapBytes] advanceD(4,5) [OF j] s0'(2,3) by simp_all
    obtain y rd2 where C: "decodeChannels hdr rds = (y, rd2)" by fastforce
    obtain n where n: "advance n rds rd2" using runsD(1) [OF runs_decodeChannels [OF h(2) [OF Inr]] s1(1) C] by blast
    have "wf_reader (snd (decodeFrameBody cs hdr rds))"
    proof (cases y)
      case (Inr chans)
      obtain r rd3 where E: "decodeFrameEnd cs hdr chans rd2 = (r, rd3)" by fastforce
      have "rd_tap rd2 = None" "rd_rtap rd2 = Some TapBytes" using advanceD(4,5) [OF n] s1 by simp_all
      from decodeFrameEnd_ok [OF advanceD(1) [OF n] this E] have "\<exists>k. advance k rd2 rd3" by (auto split: if_splits)
      then show ?thesis using advanceD(1) by (auto simp: decodeFrameBody_end bindR_def C E Inr)
    qed (use advanceD(1) [OF n] in \<open>simp add: decodeFrameBody_end bindR_def C\<close>)
    then show ?thesis
      using Inr SetTapper_None(1) by (auto simp: Decode_def H [unfolded rd0_def] mapErrR_def split: prod.split sum.split simp flip: rds_def)
  qed
qed

text \<open>What it finds is a frame of the buffer, at the offset and of the length it says.\<close>

lemma findFrom_found:
  assumes "findFrom cs si i data rd = ((start, n, FrameFound, fo), rd')" "reusable rd" "valid_info si"
  shows "\<exists>f bytes rest. fo = Some f \<and> frame_ok f \<and> i \<le> start \<and> drop (start - i) data = bytes @ be16 (cs bytes) @ rest
    \<and> n = length bytes + 2 \<and> start - i \<le> length data"
  using assms
proof (induction cs si i data rd rule: findFrom.induct)
  case (1 cs si i a b data rd)
  define r0 where "r0 = Reset (bytesReader (a # b # data)) rd"
  obtain r rd1 where D: "Decode cs si r0 = (r, rd1)" by fastforce
  note R = Reset_bytes [OF "1.prems"(2), of "a # b # data", folded r0_def, simplified]
  have w: "wf_reader rd1" using Decode_wf [OF R(1) "1.prems"(3), of cs] by (simp add: D)
  have shift: ?case if "\<exists>f bytes rest. fo = Some f \<and> frame_ok f \<and> i + 1 \<le> start \<and> drop (start - (i + 1)) (b # data) = bytes @ be16 (cs bytes) @ rest
      \<and> n = length bytes + 2 \<and> start - (i + 1) \<le> length (b # data)"
  proof -
    from that obtain f bytes rest where f: "fo = Some f" "frame_ok f" "i + 1 \<le> start" "n = length bytes + 2"
      "drop (start - (i + 1)) (b # data) = bytes @ be16 (cs bytes) @ rest" "start - (i + 1) \<le> length (b # data)" by blast
    then have "start - i = Suc (start - (i + 1))" by auto
    then show ?thesis using f by (intro exI [of _ f] exI [of _ bytes] exI [of _ rest]) simp
  qed
  show ?case
  proof (cases "syncAt a b")
    case False
    with 1 shift show ?thesis by simp
  next
    case True
    show ?thesis
    proof (cases r)
      case (Inr f)
      then have e: "start = i" "n = BytesRead rd1" "fo = Some f"
        using "1.prems"(1) True D by (auto simp flip: r0_def)
      note A = Decode_accepts [OF D [unfolded Inr] R(1,3) "1.prems"(3)]
      obtain bytes where B: "a # b # data = bytes @ be16 (cs bytes) @ rbytes rd1" "resumed (length bytes + 2) r0 rd1"
        using A(2) R(2) by auto
      have "BytesRead rd1 = length bytes + 2" using B(2) R(4,5) by (simp add: BytesRead_rpos resumed_def)
      then show ?thesis using A(1) B(1) e by (intro exI [of _ f] exI [of _ bytes] exI [of _ "rbytes rd1"]) simp
    next
      case (Inl x)
      then have "x \<noteq> ErrUnexpectedEOF" "findFrom cs si (i + 1) (b # data) rd1 = ((start, n, FrameFound, fo), rd')"
        using "1.prems"(1) True D by (auto simp flip: r0_def split: if_splits)
      with "1.IH"(2) [OF _ D [unfolded r0_def, symmetric, unfolded Inl] refl] True reusable_wf [OF w] "1.prems"(3) shift
      show ?thesis by (simp add: Inl)
    qed
  qed
qed simp_all

text \<open>The frame behind bytes without a sync pattern is the one it finds.\<close>

lemma findFrom_frame:
  assumes F: "decodes cs si fb f" "take 2 fb = [0xFF, 0xF8]" and rd: "reusable rd"
    and junk: "\<forall>j < length junk. \<not> syncAt ((junk @ fb) ! j) ((junk @ fb) ! Suc j)"
  shows "\<exists>rd'. findFrom cs si i (junk @ fb @ rest) rd = ((i + length junk, length fb, FrameFound, Some f), rd')"
  using junk
proof (induction junk arbitrary: i)
  case Nil
  have fb: "fb = 0xFF # 0xF8 # drop 2 fb" using F(2) append_take_drop_id [of 2 fb] by simp
  define r0 where "r0 = Reset (bytesReader (fb @ rest)) rd"
  have "fb @ rest \<noteq> []" using fb by auto
  note R = Reset_bytes [OF rd this, folded r0_def]
  obtain rd' where D: "Decode cs si r0 = (Inr f, rd')" "resumed (length fb) r0 rd'"
    using decodesD [OF F(1) R(1,3,2)] by blast
  have "BytesRead rd' = length fb" using D(2) R(4,5) by (simp add: BytesRead_rpos resumed_def)
  moreover have "findFrom cs si i (fb @ rest) rd = ((i, BytesRead rd', FrameFound, Some f), rd')"
    using D(1) unfolding r0_def by (subst (asm) fb, subst fb) (simp add: syncAt_def)
  ultimately show ?case by simp
next
  case (Cons x junk)
  obtain y zs where z: "junk @ fb = y # zs" using F(2) by (cases "junk @ fb") auto
  have y: "junk @ fb @ rest = y # (zs @ rest)" "(junk @ fb) ! 0 = y"
    using arg_cong [OF z, of "\<lambda>xs. xs @ rest"] by (simp_all add: z)
  have "\<not> syncAt x y" using Cons.prems [rule_format, of 0] y(2) by simp
  moreover have "\<forall>j < length junk. \<not> syncAt ((junk @ fb) ! j) ((junk @ fb) ! Suc j)"
    using Cons.prems by (auto dest: spec [of _ "Suc j" for j])
  ultimately obtain rd' where "findFrom cs si (i + 1) (y # (zs @ rest)) rd = ((i + 1 + length junk, length fb, FrameFound, Some f), rd')"
    and "\<not> syncAt x y" using Cons.IH [of "i + 1", unfolded y(1)] by blast
  then show ?case unfolding append_Cons y(1) by simp
qed

end
