(* ===== verification/Byte_Order.thy ===== *)
theory Byte_Order
  imports Bitio_Setup
begin

text \<open>
  The fixed-width integers of \<open>encoding/binary\<close>: \<open>PutUint16/32/64\<close> and \<open>Uint16/32/64\<close> of both
  byte orders, at every width.
\<close>

definition le_bytes :: "nat \<Rightarrow> 'a::len word \<Rightarrow> u8 list" where
  "le_bytes k v = map (\<lambda>i. ucast (drop_bit (8 * i) v)) [0..<k]"

definition be_bytes :: "nat \<Rightarrow> 'a::len word \<Rightarrow> u8 list" where
  "be_bytes k v = rev (le_bytes k v)"

fun le_word :: "u8 list \<Rightarrow> 'a::len word" where
  "le_word [] = 0"
| "le_word (b # bs) = ucast b OR push_bit 8 (le_word bs)"

definition be_word :: "u8 list \<Rightarrow> 'a::len word" where
  "be_word bs = le_word (rev bs)"

lemma length_le_bytes [simp]: "length (le_bytes k v) = k"
  by (simp add: le_bytes_def)

lemma length_be_bytes [simp]: "length (be_bytes k v) = k"
  by (simp add: be_bytes_def)

lemma le_bytes_0 [simp]: "le_bytes 0 v = []"
  by (simp add: le_bytes_def)

lemma le_bytes_Suc: "le_bytes (Suc k) v = ucast v # le_bytes k (drop_bit 8 v)"
  by (simp add: le_bytes_def upt_conv_Cons del: upt_Suc)
    (simp add: map_Suc_upt [symmetric] comp_def add.commute del: upt_Suc)

lemma bit_le_word:
  "bit (le_word bs :: 'a::len word) i \<longleftrightarrow> i < LENGTH('a) \<and> i div 8 < length bs \<and> bit (bs ! (i div 8)) (i mod 8)"
proof (induction bs arbitrary: i)
  case (Cons b bs)
  have "i div 8 = Suc ((i - 8) div 8)" "i mod 8 = (i - 8) mod 8" if "8 \<le> i"
    using that by (simp_all add: le_div_geq le_mod_geq)
  then show ?case
    by (cases "i < 8") (auto simp: bit_simps Cons.IH dest: bit_imp_le_length)
qed simp

lemma bit_le_bytes: "j < k \<Longrightarrow> bit (le_bytes k v ! j) i \<longleftrightarrow> i < 8 \<and> bit v (8 * j + i)"
  by (auto simp: le_bytes_def bit_simps)

lemma le_word_le_bytes: "le_word (le_bytes k v) = take_bit (8 * k) v"
proof (rule bit_word_eqI)
  fix n assume "n < LENGTH('a)"
  have "n div 8 < k \<longleftrightarrow> n < 8 * k" by auto
  then show "bit (le_word (le_bytes k v) :: 'a word) n \<longleftrightarrow> bit (take_bit (8 * k) v) n"
    using \<open>n < LENGTH('a)\<close> by (auto simp: bit_le_word bit_le_bytes bit_simps)
qed

lemma le_word_narrow: "le_word (le_bytes k v) = (ucast v :: 'b::len word)" if "LENGTH('b) \<le> 8 * k" for v :: "'a::len word"
proof (rule bit_word_eqI)
  fix n assume "n < LENGTH('b)"
  moreover from this that have "n div 8 < k" by auto
  ultimately show "bit (le_word (le_bytes k v) :: 'b word) n \<longleftrightarrow> bit (ucast v :: 'b word) n"
    by (auto simp: bit_le_word bit_le_bytes bit_simps)
qed

lemma le_bytes_le_word: "le_bytes (length bs) (le_word bs :: 'a::len word) = bs" if "8 * length bs \<le> LENGTH('a)"
proof (intro nth_equalityI bit_word_eqI)
  fix j n assume a: "j < length (le_bytes (length bs) (le_word bs :: 'a word))" "n < LENGTH(8)"
  then have "(8 * j + n) div 8 = j" "(8 * j + n) mod 8 = n" by simp_all
  moreover have "8 * j + n < LENGTH('a)" using a that by simp
  ultimately show "bit (le_bytes (length bs) (le_word bs :: 'a word) ! j) n \<longleftrightarrow> bit (bs ! j) n"
    using a by (simp add: bit_le_bytes bit_le_word)
qed simp

lemma be_word_be_bytes: "be_word (be_bytes k v) = take_bit (8 * k) v"
  by (simp add: be_word_def be_bytes_def le_word_le_bytes)

lemma le_word_full [simp]:
  "le_word (le_bytes 2 v) = (v :: u16)" "le_word (le_bytes 4 w) = (w :: u32)" "le_word (le_bytes 8 x) = (x :: u64)"
  by (simp_all add: le_word_le_bytes take_bit_word_eq_self)

lemma be_word_full [simp]:
  "be_word (be_bytes 2 v) = (v :: u16)" "be_word (be_bytes 4 w) = (w :: u32)" "be_word (be_bytes 8 x) = (x :: u64)"
  by (simp_all add: be_word_be_bytes take_bit_word_eq_self)

text \<open>The writer's \<open>flushWord\<close> and the reader's bulk load use the same eight-byte order.\<close>

lemma be_bytes64_be_bytes: "be_bytes64 v = be_bytes 8 v"
  by (simp add: be_bytes64_def be_bytes_def le_bytes_def rev_map)

text \<open>As bits, a big-endian integer is written most significant bit first.\<close>

lemma byte_bits_be_bytes: "byte_bits (be_bytes k v) = bits_msb (8 * k) v"
proof (induction k arbitrary: v)
  case (Suc k)
  have "bits_msb (8 * Suc k) v = bits_msb (8 * k + 8) v" by (simp add: add.commute)
  also have "\<dots> = bits_msb (8 * k) (drop_bit 8 v) @ bits_msb 8 v" by (rule bits_msb_add)
  finally show ?case
    using Suc.IH [of "drop_bit 8 v"] by (simp add: be_bytes_def le_bytes_Suc bits_msb_ucast8)
qed (simp add: be_bytes_def)

end
