(* ===== verification/Meta.thy ===== *)
theory Meta
  imports Byte_Order Frame_Header
begin

text \<open>
  The metadata section of a stream (\<open>internal/meta\<close>): STREAMINFO, the metadata block header,
  the SEEKTABLE and VORBIS_COMMENT bodies, the stream marker behind an optional ID3v2 tag, and
  the loop over the blocks. Go strings are byte lists; a \<open>bitio.Reader\<close> is the reader of
  \<open>Bitio_Reader\<close>.
\<close>

section \<open>STREAMINFO\<close>

definition StreamInfoBodyLen :: nat where "StreamInfoBodyLen = 34"
definition StreamInfoBodyOffset :: nat where "StreamInfoBodyOffset = 4 + 4"

definition EncodeStreamInfo :: "StreamInfo \<Rightarrow> nat \<Rightarrow> nat \<Rightarrow> nat \<Rightarrow> nat \<Rightarrow> u8 list" where
  "EncodeStreamInfo si minBlock maxBlock minFrame maxFrame =
     (let bw = NewWriter;
          bw = WriteBits (of_nat minBlock) 16 bw;
          bw = WriteBits (of_nat maxBlock) 16 bw;
          bw = WriteBits (of_nat minFrame) 24 bw;
          bw = WriteBits (of_nat maxFrame) 24 bw;
          bw = WriteBits (of_nat (si_SampleRate si)) 20 bw;
          bw = WriteBits (of_int (int (si_Channels si) - 1)) 3 bw;
          bw = WriteBits (of_int (int (si_BitDepth si) - 1)) 5 bw;
          bw = WriteBits (si_TotalSamples si) 36 bw;
          bw = fold (\<lambda>b bw. WriteBits (ucast b) 8 bw) (si_MD5 si) bw
      in fst (Bytes bw))"

definition readByte :: "(u8, 't) rm" where
  "readByte = bindR (ReadBits 8) (\<lambda>b. retR (ucast b))"

definition readStreamInfo :: "(StreamInfo \<times> nat \<times> nat \<times> nat, 't) rm" where
  "readStreamInfo =
     bindR (ReadBits 16) (\<lambda>mnb. bindR (ReadBits 16) (\<lambda>mxb.
     bindR (ReadBits 24) (\<lambda>_. bindR (ReadBits 24) (\<lambda>mxf.
     bindR (ReadBits 20) (\<lambda>rate. bindR (ReadBits 3) (\<lambda>ch.
     bindR (ReadBits 5) (\<lambda>bps. bindR (ReadBits 36) (\<lambda>total.
     if rate = 0 \<or> bps < 3 then failR ErrUnsupported
     else bindR (readN 16 readByte) (\<lambda>md5.
       retR (\<lparr>si_SampleRate = unat rate, si_Channels = unat ch + 1, si_BitDepth = unat bps + 1,
              si_TotalSamples = total, si_MD5 = md5\<rparr>, unat mnb, unat mxb, unat mxf))))))))))"

definition DecodeStreamInfo :: "u8 list \<Rightarrow> err + StreamInfo" where
  "DecodeStreamInfo body =
     (if length body \<noteq> StreamInfoBodyLen then Inl ErrUsage
      else case fst (readStreamInfo (NewReader (bytesReader body) ())) of
             Inl e \<Rightarrow> Inl e
           | Inr (si, _) \<Rightarrow> Inr si)"

section \<open>The block header and the stream marker\<close>

definition typeStreamInfo :: nat where "typeStreamInfo = 0"
definition TypePadding :: nat where "TypePadding = 1"
definition TypeSeekTable :: nat where "TypeSeekTable = 3"
definition TypeVorbisComment :: nat where "TypeVorbisComment = 4"
definition typeInvalid :: nat where "typeInvalid = 127"
definition MaxMetadataBodyLen :: nat where "MaxMetadataBodyLen = 2 ^ 24 - 1"

lemmas block_types = typeStreamInfo_def TypePadding_def TypeSeekTable_def TypeVorbisComment_def typeInvalid_def

definition EncodeBlockHeader :: "bool \<Rightarrow> nat \<Rightarrow> nat \<Rightarrow> u8 list" where
  "EncodeBlockHeader isLast btype len =
     (let b0 = of_nat (btype AND 0x7F); b0 = (if isLast then b0 OR 0x80 else b0)
      in [b0, of_nat (drop_bit 16 len), of_nat (drop_bit 8 len), of_nat len])"

definition readBlockHeader :: "(bool \<times> u64 \<times> u64, 't) rm" where
  "readBlockHeader =
     bindR (ReadBits 1) (\<lambda>lb. bindR (ReadBits 7) (\<lambda>btype. bindR (ReadBits 24) (\<lambda>len.
     retR (lb = 1, btype, len))))"

fun skipBytes :: "nat \<Rightarrow> (unit, 't) rm" where
  "skipBytes 0 = retR ()"
| "skipBytes (Suc n) = bindR (ReadBits 8) (\<lambda>_. skipBytes n)"

definition readBytes :: "nat \<Rightarrow> (u8 list, 't) rm" where
  "readBytes n = mapErrR noEOF (readN n readByte)"

definition markID3 :: "u8 list" where "markID3 = [0x49, 0x44, 0x33]"
definition markFLaC :: "u8 list" where "markFLaC = [0x66, 0x4C, 0x61, 0x43]"

definition id3Size :: "u8 list \<Rightarrow> u64" where
  "id3Size rest =
     (let size = push_bit 21 (ucast (rest ! 2 AND 0x7F)) OR push_bit 14 (ucast (rest ! 3 AND 0x7F))
                   OR push_bit 7 (ucast (rest ! 4 AND 0x7F)) OR ucast (rest ! 5 AND 0x7F)
      in if rest ! 1 AND 0x10 \<noteq> 0 then size + 10 else size)"

definition skipID3v2AndMagic :: "(unit, 't) rm" where
  "skipID3v2AndMagic =
     bindR (readBytes 4) (\<lambda>first4.
     bindR (if take 3 first4 = markID3
            then bindR (readBytes 6) (\<lambda>rest. bindR (skipBytes (unat (id3Size rest))) (\<lambda>_. readBytes 4))
            else retR first4) (\<lambda>first4.
     if first4 \<noteq> markFLaC then failR ErrUnsupported else retR ()))"

section \<open>SEEKTABLE\<close>

record SeekPoint =
  sk_SampleNumber :: u64
  sk_ByteOffset :: u64
  sk_FrameSamples :: u16

definition PlaceholderSampleNumber :: u64 where "PlaceholderSampleNumber = 0xFFFFFFFFFFFFFFFF"
definition SeekPointBytes :: nat where "SeekPointBytes = 18"

definition encodePoint :: "SeekPoint \<Rightarrow> u8 list" where
  "encodePoint p = be_bytes 8 (sk_SampleNumber p) @ be_bytes 8 (sk_ByteOffset p) @ be_bytes 2 (sk_FrameSamples p)"

definition EncodeSeekPoints :: "SeekPoint list \<Rightarrow> u8 list" where
  "EncodeSeekPoints points = concat (map encodePoint points)"

definition SeekTablePlaceholder :: "nat \<Rightarrow> u8 list" where
  "SeekTablePlaceholder n =
     EncodeSeekPoints (replicate n \<lparr>sk_SampleNumber = PlaceholderSampleNumber, sk_ByteOffset = 0, sk_FrameSamples = 0\<rparr>)"

function parsePoints :: "u8 list \<Rightarrow> SeekPoint list" where
  "parsePoints body =
     (if body = [] then []
      else let sn = be_word (take 8 body);
               rest = parsePoints (drop 18 body)
           in if sn = PlaceholderSampleNumber then rest
              else \<lparr>sk_SampleNumber = sn, sk_ByteOffset = be_word (take 8 (drop 8 body)),
                     sk_FrameSamples = be_word (take 2 (drop 16 body))\<rparr> # rest)"
  by pat_completeness auto
termination by (relation "measure length") auto

declare parsePoints.simps [simp del]

definition parseSeekTable :: "u8 list \<Rightarrow> err + SeekPoint list" where
  "parseSeekTable body = (if length body mod SeekPointBytes \<noteq> 0 then Inl ErrUnsupported else Inr (parsePoints body))"

section \<open>VORBIS_COMMENT\<close>

definition lenBytes :: "u8 list \<Rightarrow> u8 list" where
  "lenBytes s = le_bytes 4 (of_nat (length s) :: u32) @ s"

definition EncodeVorbisComment :: "u8 list \<Rightarrow> u8 list list \<Rightarrow> u8 list" where
  "EncodeVorbisComment vendor comments =
     lenBytes vendor @ le_bytes 4 (of_nat (length comments) :: u32) @ concat (map lenBytes comments)"

definition takeU32 :: "u8 list \<Rightarrow> (u32 \<times> u8 list) option" where
  "takeU32 r = (if length r < 4 then None else Some (le_word (take 4 r), drop 4 r))"

definition takeN :: "u32 \<Rightarrow> u8 list \<Rightarrow> (u8 list \<times> u8 list) option" where
  "takeN n r = (if unat n > length r then None else Some (take (unat n) r, drop (unat n) r))"

definition takeString :: "u8 list \<Rightarrow> (u8 list \<times> u8 list) option" where
  "takeString r = (case takeU32 r of None \<Rightarrow> None | Some (n, r) \<Rightarrow> takeN n r)"

fun takeComments :: "nat \<Rightarrow> u8 list \<Rightarrow> u8 list list option" where
  "takeComments 0 r = Some []"
| "takeComments (Suc n) r =
     (case takeString r of
        None \<Rightarrow> None
      | Some (c, r) \<Rightarrow> (case takeComments n r of None \<Rightarrow> None | Some cs \<Rightarrow> Some (c # cs)))"

definition parseVorbisComment :: "u8 list \<Rightarrow> err + (u8 list \<times> u8 list list)" where
  "parseVorbisComment body =
     (case takeString body of
        None \<Rightarrow> Inl ErrUnsupported
      | Some (vendor, r) \<Rightarrow>
          (case takeU32 r of
             None \<Rightarrow> Inl ErrUnsupported
           | Some (count, r) \<Rightarrow>
               if unat count > length r div 4 then Inl ErrUnsupported
               else (case takeComments (unat count) r of
                       None \<Rightarrow> Inl ErrUnsupported
                     | Some comments \<Rightarrow> Inr (vendor, comments))))"

section \<open>The loop over the blocks\<close>

record StreamMeta =
  sm_Info :: StreamInfo
  sm_MinBlock :: nat
  sm_MaxBlock :: nat
  sm_MaxFrame :: nat
  sm_SeekPoints :: "SeekPoint list"
  sm_Vendor :: "u8 list"
  sm_Comments :: "u8 list list"

definition noInfo :: StreamInfo where
  "noInfo = \<lparr>si_SampleRate = 0, si_Channels = 0, si_BitDepth = 0, si_TotalSamples = 0, si_MD5 = replicate 16 0\<rparr>"

definition emptyMeta :: StreamMeta where
  "emptyMeta = \<lparr>sm_Info = noInfo, sm_MinBlock = 0, sm_MaxBlock = 0, sm_MaxFrame = 0, sm_SeekPoints = [], sm_Vendor = [], sm_Comments = []\<rparr>"

text \<open>
  One block of the loop: the body of the \<open>switch\<close>. The state is \<open>haveStreamInfo\<close> and \<open>sm\<close>.
\<close>

definition readOneBlock :: "bool \<Rightarrow> u64 \<Rightarrow> u64 \<Rightarrow> bool \<times> StreamMeta \<Rightarrow> (bool \<times> StreamMeta, 't) rm" where
  "readOneBlock first btype len st =
     (case st of (haveStreamInfo, sm) \<Rightarrow>
       if btype = of_nat typeStreamInfo then
         if \<not> first then failR ErrMissingStreamInfo
         else if len \<noteq> 34 then failR ErrUnsupported
         else bindR readStreamInfo (\<lambda>(si, mnb, mxb, mxf).
                retR (True, sm\<lparr>sm_Info := si, sm_MinBlock := mnb, sm_MaxBlock := mxb, sm_MaxFrame := mxf\<rparr>))
       else if btype = of_nat TypeSeekTable then
         bindR (readBytes (unat len)) (\<lambda>body.
           case parseSeekTable body of
             Inl e \<Rightarrow> failR e
           | Inr pts \<Rightarrow> retR (haveStreamInfo, sm\<lparr>sm_SeekPoints := pts\<rparr>))
       else if btype = of_nat TypeVorbisComment then
         bindR (readBytes (unat len)) (\<lambda>body.
           case parseVorbisComment body of
             Inl e \<Rightarrow> retR (haveStreamInfo, sm)
           | Inr (vendor, comments) \<Rightarrow> retR (haveStreamInfo, sm\<lparr>sm_Vendor := vendor, sm_Comments := comments\<rparr>))
       else bindR (skipBytes (unat len)) (\<lambda>_. retR (haveStreamInfo, sm)))"

text \<open>
  The loop itself. Each round reads a header of 32 bits, so one round per bit still to be read
  is more than enough; the first equation is the loop out of fuel.
\<close>

fun readBlocks :: "nat \<Rightarrow> bool \<Rightarrow> bool \<times> StreamMeta \<Rightarrow> (StreamMeta, 't) rm" where
  "readBlocks 0 first st = failR ErrStackOverflow"
| "readBlocks (Suc fuel) first st =
     bindR readBlockHeader (\<lambda>(isLast, btype, len).
     if btype = of_nat typeInvalid then failR ErrUnsupported
     else if first \<and> btype \<noteq> of_nat typeStreamInfo then failR ErrMissingStreamInfo
     else bindR (readOneBlock first btype len st) (\<lambda>st.
       if isLast then (case st of (haveStreamInfo, sm) \<Rightarrow> if \<not> haveStreamInfo then failR ErrMissingStreamInfo else retR sm)
       else readBlocks fuel False st))"

definition readMetadata :: "(StreamMeta, 't) rm" where
  "readMetadata =
     bindR skipID3v2AndMagic (\<lambda>_.
     bindR (getsR (\<lambda>rd. Suc (length (rbits rd)))) (\<lambda>fuel.
     readBlocks fuel True (False, emptyMeta)))"

definition ReadMetadata :: "(StreamMeta, 't) rm" where
  "ReadMetadata = mapErrR noEOF readMetadata"

section \<open>Bytes\<close>

lemma parses_readByte: "parses readByte (bits_msb 8 b) b"
proof -
  have "parses (ReadBits 8) (bits_msb 8 (ucast b :: u64)) (take_bit 8 (ucast b))" by (rule parses_ReadBits_val) simp
  moreover have "bits_msb 8 (ucast b :: u64) = bits_msb 8 b" by (simp add: bits_msb_def bit_simps)
  moreover have "ucast (take_bit 8 (ucast b :: u64)) = b" by (rule bit_word_eqI) (simp add: bit_simps)
  ultimately show ?thesis
    unfolding readByte_def by (metis parses_bind_ret parses_ret)
qed

interpretation raw_codec: symbol_codec "\<lambda>_. True" "bits_msb 8" readByte "\<lambda>b. WriteBits (ucast b) 8"
proof
  fix b :: u8
  show "parses readByte (bits_msb 8 b) b" by (rule parses_readByte)
  have "bits_msb 8 (ucast b :: u64) = bits_msb 8 b" by (simp add: bits_msb_def bit_simps)
  then show "emits (WriteBits (ucast b) 8) (bits_msb 8 b)" using emits_WriteBits [of 8 "ucast b"] by simp
qed

lemma parses_readN_bytes: "parses (readN (length bs) readByte) (byte_bits bs) bs"
  using raw_codec.dec_list [of bs] by (simp add: byte_bits_def)

lemma parses_readBytes: "length bs = n \<Longrightarrow> parses (readBytes n) (byte_bits bs) bs"
  using parses_mapErr [OF parses_readN_bytes] by (auto simp: readBytes_def)

lemma parses_skipBytes: "length bs = n \<Longrightarrow> parses (skipBytes n) (byte_bits bs) ()"
proof (induction bs arbitrary: n)
  case (Cons b bs)
  have "parses (ReadBits 8) (bits_msb 8 b) (bits_val (bits_msb 8 b))"
    using parses_ReadBits [of "bits_msb 8 b"] by simp
  then show ?case using Cons by (auto intro!: parses_bind)
qed (simp add: parses_ret)

section \<open>STREAMINFO round trip\<close>

definition info_ok :: "StreamInfo \<Rightarrow> bool" where
  "info_ok si \<longleftrightarrow> 0 < si_SampleRate si \<and> si_SampleRate si < 2 ^ 20 \<and> 1 \<le> si_Channels si \<and> si_Channels si \<le> 8
     \<and> 4 \<le> si_BitDepth si \<and> si_BitDepth si \<le> 32 \<and> unat (si_TotalSamples si) < 2 ^ 36 \<and> length (si_MD5 si) = 16"

definition info_bits :: "StreamInfo \<Rightarrow> nat \<Rightarrow> nat \<Rightarrow> nat \<Rightarrow> nat \<Rightarrow> bool list" where
  "info_bits si minBlock maxBlock minFrame maxFrame =
     bits_msb 16 (of_nat minBlock :: u64) @ bits_msb 16 (of_nat maxBlock :: u64)
   @ bits_msb 24 (of_nat minFrame :: u64) @ bits_msb 24 (of_nat maxFrame :: u64)
   @ bits_msb 20 (of_nat (si_SampleRate si) :: u64) @ bits_msb 3 (of_int (int (si_Channels si) - 1) :: u64)
   @ bits_msb 5 (of_int (int (si_BitDepth si) - 1) :: u64) @ bits_msb 36 (si_TotalSamples si)
   @ byte_bits (si_MD5 si)"

lemma byte_bits_EncodeStreamInfo:
  assumes "length (si_MD5 si) = 16"
  shows "byte_bits (EncodeStreamInfo si minBlock maxBlock minFrame maxFrame) = info_bits si minBlock maxBlock minFrame maxFrame"
proof -
  define f where "f = (\<lambda>bw. fold (\<lambda>b bw. WriteBits (ucast b) 8 bw) (si_MD5 si)
     (WriteBits (si_TotalSamples si) 36 (WriteBits (of_int (int (si_BitDepth si) - 1)) 5
     (WriteBits (of_int (int (si_Channels si) - 1)) 3 (WriteBits (of_nat (si_SampleRate si)) 20
     (WriteBits (of_nat maxFrame) 24 (WriteBits (of_nat minFrame) 24
     (WriteBits (of_nat maxBlock) 16 (WriteBits (of_nat minBlock) 16 bw)))))))))"
  have md5: "emits (fold (\<lambda>b bw. WriteBits (ucast b) 8 bw) (si_MD5 si)) (byte_bits (si_MD5 si))"
    using raw_codec.put_list [of "si_MD5 si"] by (simp add: byte_bits_def)
  have "emits f (((((((( bits_msb 16 (of_nat minBlock :: u64) @ bits_msb 16 (of_nat maxBlock :: u64))
   @ bits_msb 24 (of_nat minFrame :: u64)) @ bits_msb 24 (of_nat maxFrame :: u64))
   @ bits_msb 20 (of_nat (si_SampleRate si) :: u64)) @ bits_msb 3 (of_int (int (si_Channels si) - 1) :: u64))
   @ bits_msb 5 (of_int (int (si_BitDepth si) - 1) :: u64)) @ bits_msb 36 (si_TotalSamples si))
   @ byte_bits (si_MD5 si))"
    unfolding f_def by (intro emits_comp [OF _ md5] emits_comp [OF _ emits_WriteBits] emits_WriteBits) simp_all
  then have e: "wf_writer (f NewWriter)" "wbits (f NewWriter) = info_bits si minBlock maxBlock minFrame maxFrame"
    by (simp_all add: emitsD info_bits_def)
  have "length (wbits (f NewWriter)) mod 8 = 0" by (simp add: e(2) info_bits_def assms)
  from Bytes_ok(1) [OF e(1) this] have "byte_bits (fst (Bytes (f NewWriter))) = info_bits si minBlock maxBlock minFrame maxFrame"
    unfolding e(2) .
  then show ?thesis unfolding EncodeStreamInfo_def Let_def f_def .
qed

lemma length_info_bits: "length (si_MD5 si) = 16 \<Longrightarrow> length (info_bits si a b c d) = 272"
  by (simp add: info_bits_def)

lemma length_EncodeStreamInfo:
  assumes "length (si_MD5 si) = 16"
  shows "length (EncodeStreamInfo si a b c d) = 34"
  using arg_cong [OF byte_bits_EncodeStreamInfo [OF assms], of length] length_info_bits [OF assms] by simp

lemma parses_nat: "v < 2 ^ n \<Longrightarrow> n \<le> 57 \<Longrightarrow> parses (ReadBits n) (bits_msb n (of_nat v :: u64)) (of_nat v)"
  by (rule parses_code)

lemma unat_small: "v < 2 ^ n \<Longrightarrow> n \<le> 57 \<Longrightarrow> unat (of_nat v :: u64) = v"
proof -
  assume a: "v < 2 ^ n" "n \<le> 57"
  have "(2::nat) ^ n \<le> 2 ^ 57" using a(2) by (rule power_increasing) simp
  then have "v < 2 ^ 64" using a(1) by simp
  then show ?thesis by (simp add: unat_of_nat take_bit_nat_eq_self)
qed

lemma pred_of_int: "1 \<le> v \<Longrightarrow> (of_int (int v - 1) :: u64) = of_nat (v - 1)"
  by (simp add: of_nat_diff)

lemma unat_take24: "unat (take_bit 24 (of_nat v :: u64)) = v mod 2 ^ 24"
proof -
  have "unat (take_bit 24 (of_nat v :: u64)) = take_bit 24 (unat (of_nat v :: u64))"
    by (rule unsigned_take_bit_eq)
  also have "\<dots> = (v mod 2 ^ 64) mod 2 ^ 24" by (simp only: take_bit_eq_mod unat_of_nat) simp
  also have "\<dots> = v mod 2 ^ 24" by (rule mod_mod_cancel) simp
  finally show ?thesis .
qed

text \<open>A frame size too large for its field is read back modulo the field.\<close>

lemma parses_readStreamInfo_any:
  assumes "info_ok si" "minBlock < 2 ^ 16" "maxBlock < 2 ^ 16"
  shows "parses readStreamInfo (byte_bits (EncodeStreamInfo si minBlock maxBlock minFrame maxFrame)) (si, minBlock, maxBlock, maxFrame mod 2 ^ 24)"
proof -
  have b: "si_SampleRate si < 2 ^ 20" "si_Channels si - 1 < 2 ^ 3" "si_BitDepth si - 1 < 2 ^ 5" "1 \<le> si_Channels si" "1 \<le> si_BitDepth si"
    and md5: "length (si_MD5 si) = 16"
    using assms(1) by (auto simp: info_ok_def)
  have u: "unat (of_nat minBlock :: u64) = minBlock" "unat (of_nat maxBlock :: u64) = maxBlock" "unat (take_bit 24 (of_nat maxFrame :: u64)) = maxFrame mod 2 ^ 24"
    "unat (of_nat (si_SampleRate si) :: u64) = si_SampleRate si" "unat (of_nat (si_Channels si - 1) :: u64) = si_Channels si - 1"
    "unat (of_nat (si_BitDepth si - 1) :: u64) = si_BitDepth si - 1"
    by (rule unat_small [OF assms(2)], simp, rule unat_small [OF assms(3)], simp, rule unat_take24,
        rule unat_small [OF b(1)], simp, rule unat_small [OF b(2)], simp, rule unat_small [OF b(3)], simp)
  have t: "take_bit 36 (si_TotalSamples si) = si_TotalSamples si"
    using take_bit_of_nat_u64 [of "unat (si_TotalSamples si)" 36] assms(1) by (simp add: info_ok_def)
  have r: "(of_nat (si_SampleRate si) :: u64) \<noteq> 0" "\<not> (of_nat (si_BitDepth si - 1) :: u64) < 3"
    using assms(1) u(4,6) by (auto simp: info_ok_def word_less_nat_alt dest: arg_cong [of _ _ unat])
  have eta: "\<lparr>si_SampleRate = si_SampleRate si, si_Channels = si_Channels si, si_BitDepth = si_BitDepth si,
      si_TotalSamples = si_TotalSamples si, si_MD5 = si_MD5 si\<rparr> = si" by simp
  show ?thesis
    unfolding byte_bits_EncodeStreamInfo [OF md5] info_bits_def readStreamInfo_def pred_of_int [OF b(4)] pred_of_int [OF b(5)]
    by (rule parses_bind [OF parses_nat [OF assms(2)]], simp, rule parses_bind [OF parses_nat [OF assms(3)]], simp,
        rule parses_bind [OF parses_ReadBits_val], simp, rule parses_bind [OF parses_ReadBits_val], simp,
        rule parses_bind [OF parses_nat [OF b(1)]], simp, rule parses_bind [OF parses_nat [OF b(2)]], simp,
        rule parses_bind [OF parses_nat [OF b(3)]], simp, rule parses_bind [OF parses_ReadBits_val], simp,
        simp only: r if_False simp_thms, rule parses_bind_ret [OF parses_readN_bytes [of "si_MD5 si", unfolded md5]])
      (simp only: u t le_add_diff_inverse2 [OF b(4)] le_add_diff_inverse2 [OF b(5)] eta parses_ret)
qed

lemma parses_readStreamInfo:
  assumes "info_ok si" "minBlock < 2 ^ 16" "maxBlock < 2 ^ 16" "maxFrame < 2 ^ 24"
  shows "parses readStreamInfo (byte_bits (EncodeStreamInfo si minBlock maxBlock minFrame maxFrame)) (si, minBlock, maxBlock, maxFrame)"
  using parses_readStreamInfo_any [OF assms(1-3), of minFrame maxFrame] assms(4) by simp

lemma DecodeStreamInfo_EncodeStreamInfo_any:
  assumes "info_ok si" "minBlock < 2 ^ 16" "maxBlock < 2 ^ 16"
  shows "DecodeStreamInfo (EncodeStreamInfo si minBlock maxBlock minFrame maxFrame) = Inr si"
proof -
  let ?body = "EncodeStreamInfo si minBlock maxBlock minFrame maxFrame"
  let ?rd = "NewReader (bytesReader ?body) ()"
  have l: "length ?body = 34" using assms(1) by (simp add: info_ok_def length_EncodeStreamInfo)
  have "at_bits (byte_bits ?body) ?rd"
    by (rule at_bits_split [of _ _ "[]"]) (simp_all add: NewReader_ok rbits_aligned)
  from parsesE [OF parses_readStreamInfo_any [OF assms] this] obtain rd'
    where "readStreamInfo ?rd = (Inr (si, minBlock, maxBlock, maxFrame mod 2 ^ 24), rd')" .
  then show ?thesis by (simp add: DecodeStreamInfo_def l StreamInfoBodyLen_def)
qed

lemma DecodeStreamInfo_EncodeStreamInfo:
  assumes "info_ok si" "minBlock < 2 ^ 16" "maxBlock < 2 ^ 16" "maxFrame < 2 ^ 24"
  shows "DecodeStreamInfo (EncodeStreamInfo si minBlock maxBlock minFrame maxFrame) = Inr si"
  by (rule DecodeStreamInfo_EncodeStreamInfo_any [OF assms(1-3)])

section \<open>Whatever the section holds\<close>

lemma runs_readByte: "runs readByte (\<lambda>_. True)"
  unfolding readByte_def by (rule runs_bind [OF runs_ReadBits]) auto

lemma runs_readBytes: "runs (readBytes n) (\<lambda>bs. length bs = n)"
  unfolding readBytes_def by (rule runs_mapErr, rule runs_weaken [OF runs_readN [OF runs_readByte]]) simp

lemma runs_skipBytes: "runs (skipBytes n) (\<lambda>_. True)"
proof (induction n)
  case (Suc n)
  then show ?case by (auto intro: runs_bind [OF runs_ReadBits])
qed auto

lemma runs_readStreamInfo: "runs readStreamInfo (\<lambda>(si, minBlock, maxBlock, maxFrame).
    info_ok si \<and> minBlock < 2 ^ 16 \<and> maxBlock < 2 ^ 16 \<and> maxFrame < 2 ^ 24)"
proof -
  have r: "rate \<noteq> 0 \<Longrightarrow> 0 < unat rate" "\<not> bps < 3 \<Longrightarrow> 3 \<le> unat bps" for rate bps :: u64
    by (simp_all add: word_less_nat_alt unat_gt_0)
  show ?thesis
    unfolding readStreamInfo_def
    by (intro runs_bind [OF runs_ReadBits] runs_if runs_fail runs_bind [OF runs_readN [OF runs_readByte]] runs_ret)
      (auto simp: info_ok_def dest!: r)
qed

lemma runs_readBlockHeader: "runs readBlockHeader (\<lambda>(isLast, btype, len). unat btype < 128 \<and> unat len < 2 ^ 24)"
  unfolding readBlockHeader_def
  by (intro runs_bind [OF runs_ReadBits] runs_ret) auto

lemma runs_skipID3v2AndMagic: "runs skipID3v2AndMagic (\<lambda>_. True)"
  unfolding skipID3v2AndMagic_def
  by (intro runs_bind [OF runs_readBytes] runs_bind [where P = "\<lambda>_. True"] runs_if runs_fail runs_ret runs_skipBytes
        runs_weaken [OF runs_readBytes]) auto

section \<open>Block headers and bodies\<close>

lemma bit_of_nat_word: "bit (of_nat n :: 'a::len word) i \<longleftrightarrow> i < LENGTH('a) \<and> bit n i"
  by transfer (simp add: bit_take_bit_iff bit_of_nat_iff)

lemma bits_msb_of_nat: "bits_msb n (of_nat v :: 'a::len word) = bits_msb n (of_nat v :: 'b::len word)"
  if "n \<le> LENGTH('a)" "n \<le> LENGTH('b)"
  using that by (simp add: bits_msb_def bit_of_nat_word)

definition blockHeader_bits :: "bool \<Rightarrow> nat \<Rightarrow> nat \<Rightarrow> bool list" where
  "blockHeader_bits isLast btype len =
     [isLast] @ bits_msb 7 (of_nat btype :: u64) @ bits_msb 24 (of_nat len :: u64)"

lemma first_byte_bits:
  fixes w :: u8
  assumes "w = of_nat (btype AND 0x7F)"
  shows "bits_msb 8 (if isLast then w OR 0x80 else w) = isLast # bits_msb 7 (of_nat btype :: u64)"
proof -
  have "(0x80 :: int) = 2 ^ 7" by simp
  then have h: "bit (0x80 :: int) i \<longleftrightarrow> i = 7" for i by (simp only: bit_exp_iff) auto
  have m: "(0x7F :: nat) = mask 7" by (simp add: mask_eq_exp_minus_1)
  have w: "bit w i \<longleftrightarrow> i < 7 \<and> bit btype i" for i
    by (simp only: assms m bit_of_nat_word bit_and_iff bit_mask_iff) (auto simp: possible_bit_def)
  show ?thesis
    unfolding bits_msb_Suc [of 7, simplified] by (auto simp: bits_msb_def bit_or_iff bit_of_nat_word w h)
qed

lemma byte_bits_EncodeBlockHeader: "byte_bits (EncodeBlockHeader isLast btype len) = blockHeader_bits isLast btype len"
proof -
  have shift: "bits_msb 8 (of_nat (drop_bit k len) :: u8) = bits_msb 8 (drop_bit k (of_nat len :: u64))" if "k \<le> 16" for k
    using that by (auto simp: bits_msb_def bit_simps bit_of_nat_word)
  have "bits_msb 24 (of_nat len :: u64) = bits_msb 8 (of_nat (drop_bit 16 len) :: u8) @ bits_msb 8 (of_nat (drop_bit 8 len) :: u8)
      @ bits_msb 8 (of_nat (drop_bit 0 len) :: u8)"
    using bits_msb_groups [of 8 "of_nat len :: u64" 3]
    by (simp add: numeral_3_eq_3 shift shift [of 0, simplified])
  then show ?thesis
    by (simp add: EncodeBlockHeader_def Let_def blockHeader_bits_def first_byte_bits [OF refl])
qed

lemma length_EncodeBlockHeader [simp]: "length (EncodeBlockHeader isLast btype len) = 4"
  by (simp add: EncodeBlockHeader_def Let_def)

lemma parses_readBlockHeader:
  assumes "btype < 128" "len < 2 ^ 24"
  shows "parses readBlockHeader (byte_bits (EncodeBlockHeader isLast btype len)) (isLast, of_nat btype, of_nat len)"
proof -
  have one: "parses (ReadBits 1) [isLast] (of_bool isLast)"
    using parses_ReadBits [of "[isLast]"] by (simp add: bits_val_Cons)
  have "btype < 2 ^ 7" using assms(1) by simp
  then show ?thesis
    unfolding byte_bits_EncodeBlockHeader blockHeader_bits_def readBlockHeader_def
    by (intro parses_bind [OF one] parses_bind [OF parses_nat] parses_bind_ret [OF parses_nat] assms(2))
      (auto intro: parses_ret simp: parses_ret)
qed

lemma length_encodePoint [simp]: "length (encodePoint p) = 18"
  by (simp add: encodePoint_def)

lemma length_EncodeSeekPoints [simp]: "length (EncodeSeekPoints pts) = 18 * length pts"
  by (induction pts) (simp_all add: EncodeSeekPoints_def)

lemma parsePoints_Nil [simp]: "parsePoints [] = []"
  by (simp add: parsePoints.simps)

lemma parsePoints_point:
  "parsePoints (encodePoint p @ body) =
     (if sk_SampleNumber p = PlaceholderSampleNumber then parsePoints body else p # parsePoints body)"
proof -
  have e: "encodePoint p \<noteq> []" by (metis length_encodePoint list.size(3) zero_neq_numeral)
  have d: "take 8 (encodePoint p @ body) = be_bytes 8 (sk_SampleNumber p)" "drop 18 (encodePoint p @ body) = body"
    "take 8 (drop 8 (encodePoint p @ body)) = be_bytes 8 (sk_ByteOffset p)"
    "take 2 (drop 16 (encodePoint p @ body)) = be_bytes 2 (sk_FrameSamples p)"
    by (simp_all add: encodePoint_def)
  show ?thesis
    unfolding parsePoints.simps [of "encodePoint p @ body"] d be_word_full using e by simp
qed

lemma parseSeekTable_EncodeSeekPoints:
  "parseSeekTable (EncodeSeekPoints pts) = Inr (filter (\<lambda>p. sk_SampleNumber p \<noteq> PlaceholderSampleNumber) pts)"
proof -
  have "parsePoints (EncodeSeekPoints pts) = filter (\<lambda>p. sk_SampleNumber p \<noteq> PlaceholderSampleNumber) pts"
    by (induction pts) (simp_all add: EncodeSeekPoints_def parsePoints_point)
  then show ?thesis by (simp add: parseSeekTable_def SeekPointBytes_def)
qed

lemma parseSeekTable_placeholder: "parseSeekTable (SeekTablePlaceholder n) = Inr []"
  by (simp add: SeekTablePlaceholder_def parseSeekTable_EncodeSeekPoints)

lemma takeU32_le_bytes: "takeU32 (le_bytes 4 (v :: u32) @ r) = Some (v, r)"
  by (simp add: takeU32_def)

lemma takeString_lenBytes:
  assumes "length s < 2 ^ 32"
  shows "takeString (lenBytes s @ r) = Some (s, r)"
proof -
  have "unat (of_nat (length s) :: u32) = length s" using assms by (simp add: unat_of_nat take_bit_nat_eq_self)
  then show ?thesis by (simp add: takeString_def lenBytes_def takeU32_le_bytes takeN_def)
qed

lemma takeComments_lenBytes:
  "\<forall>c \<in> set cs. length c < 2 ^ 32 \<Longrightarrow> takeComments (length cs) (concat (map lenBytes cs) @ r) = Some cs"
  by (induction cs) (simp_all add: takeString_lenBytes [simplified])

lemma length_lenBytes: "length (lenBytes s) = 4 + length s"
  by (simp add: lenBytes_def)

lemma count_fits: "4 * length cs \<le> length (concat (map lenBytes cs))"
  by (induction cs) (simp_all add: length_lenBytes)

lemma parseVorbisComment_Encode:
  assumes "length vendor < 2 ^ 32" "length cs < 2 ^ 32" "\<forall>c \<in> set cs. length c < 2 ^ 32"
  shows "parseVorbisComment (EncodeVorbisComment vendor cs @ pad) = Inr (vendor, cs)"
proof -
  have u: "unat (of_nat (length cs) :: u32) = length cs" using assms(2) by (simp add: unat_of_nat take_bit_nat_eq_self)
  have "\<not> length cs > length (concat (map lenBytes cs) @ pad) div 4"
    using count_fits [of cs] by (simp add: not_less less_eq_div_iff_mult_less_eq)
  then show ?thesis
    using takeString_lenBytes [OF assms(1)] takeComments_lenBytes [OF assms(3)]
    by (simp add: parseVorbisComment_def EncodeVorbisComment_def takeU32_le_bytes u)
qed

section \<open>The metadata section as typed blocks\<close>

text \<open>
  What the loop computes, without bits: the section is a list of blocks, each a type and a body,
  and every block updates the metadata found so far. Only a malformed SEEKTABLE is an error.
\<close>

type_synonym block = "nat \<times> u8 list"

fun applyBlock :: "block \<Rightarrow> StreamMeta \<Rightarrow> StreamMeta option" where
  "applyBlock (btype, body) sm =
     (if btype = TypeSeekTable then
        (case parseSeekTable body of Inl e \<Rightarrow> None | Inr pts \<Rightarrow> Some (sm\<lparr>sm_SeekPoints := pts\<rparr>))
      else if btype = TypeVorbisComment then
        (case parseVorbisComment body of
           Inl e \<Rightarrow> Some sm
         | Inr (vendor, comments) \<Rightarrow> Some (sm\<lparr>sm_Vendor := vendor, sm_Comments := comments\<rparr>))
      else Some sm)"

fun applyBlocks :: "block list \<Rightarrow> StreamMeta \<Rightarrow> StreamMeta option" where
  "applyBlocks [] sm = Some sm"
| "applyBlocks (b # bs) sm = Option.bind (applyBlock b sm) (applyBlocks bs)"

definition metaBlock :: "bool \<Rightarrow> block \<Rightarrow> u8 list" where
  "metaBlock isLast b = EncodeBlockHeader isLast (fst b) (length (snd b)) @ snd b"

fun metaBlocks :: "block list \<Rightarrow> u8 list" where
  "metaBlocks [] = []"
| "metaBlocks (b # bs) = metaBlock (bs = []) b @ metaBlocks bs"

definition infoMeta :: "StreamInfo \<Rightarrow> nat \<Rightarrow> nat \<Rightarrow> nat \<Rightarrow> StreamMeta" where
  "infoMeta si minBlock maxBlock maxFrame =
     emptyMeta\<lparr>sm_Info := si, sm_MinBlock := minBlock, sm_MaxBlock := maxBlock, sm_MaxFrame := maxFrame\<rparr>"

definition plain_block :: "block \<Rightarrow> bool" where
  "plain_block b \<longleftrightarrow> fst b \<noteq> typeStreamInfo \<and> fst b < typeInvalid \<and> length (snd b) \<le> MaxMetadataBodyLen"

lemma of_nat_type: "t < 128 \<Longrightarrow> u < 128 \<Longrightarrow> (of_nat t :: u64) = of_nat u \<longleftrightarrow> t = u"
  by (simp add: word_of_nat_eq_iff take_bit_nat_eq_self)

lemma unat_len: "n \<le> MaxMetadataBodyLen \<Longrightarrow> unat (of_nat n :: u64) = n"
  by (rule unat_small [where n = 24]) (simp_all add: MaxMetadataBodyLen_def)

lemma readOneBlock_eq:
  assumes "plain_block (t, body)"
  shows "readOneBlock first (of_nat t) (of_nat (length body)) (have_si, sm) =
     (if t = TypeSeekTable then
        bindR (readBytes (length body)) (\<lambda>body. case parseSeekTable body of Inl e \<Rightarrow> failR e
           | Inr pts \<Rightarrow> retR (have_si, sm\<lparr>sm_SeekPoints := pts\<rparr>))
      else if t = TypeVorbisComment then
        bindR (readBytes (length body)) (\<lambda>body. case parseVorbisComment body of Inl e \<Rightarrow> retR (have_si, sm)
           | Inr (vendor, comments) \<Rightarrow> retR (have_si, sm\<lparr>sm_Vendor := vendor, sm_Comments := comments\<rparr>))
      else bindR (skipBytes (length body)) (\<lambda>_. retR (have_si, sm)))"
proof -
  have "unat (of_nat (length body) :: u64) = length body" using assms by (intro unat_len) (simp add: plain_block_def)
  moreover have "(of_nat t :: u64) = of_nat u \<longleftrightarrow> t = u" if "u \<in> {typeStreamInfo, TypeSeekTable, TypeVorbisComment}" for u
    using assms that by (intro of_nat_type) (auto simp: plain_block_def block_types)
  moreover have "t \<noteq> typeStreamInfo" using assms by (simp add: plain_block_def)
  ultimately show ?thesis by (simp add: readOneBlock_def)
qed

lemma parses_readOneBlock:
  assumes "plain_block b" "applyBlock b sm = Some sm'"
  shows "parses (readOneBlock first (of_nat (fst b)) (of_nat (length (snd b))) (have_si, sm)) (byte_bits (snd b)) (have_si, sm')"
proof (cases b)
  case (Pair t body)
  then show ?thesis
    using assms unfolding Pair fst_conv snd_conv
    by (subst readOneBlock_eq)
      (auto intro!: parses_bind_ret [OF parses_readBytes] parses_bind_ret [OF parses_skipBytes] parses_ret
        split: if_splits sum.splits prod.splits)
qed

lemma rejects_readOneBlock:
  assumes "plain_block b" "applyBlock b sm = None"
  shows "rejects (readOneBlock first (of_nat (fst b)) (of_nat (length (snd b))) (have_si, sm)) (byte_bits (snd b)) ErrUnsupported"
proof (cases b)
  case (Pair t body)
  have s: "parseSeekTable body = Inl e \<Longrightarrow> e = ErrUnsupported" for e
    by (auto simp: parseSeekTable_def split: if_splits)
  show ?thesis
    using assms s unfolding Pair fst_conv snd_conv
    by (subst readOneBlock_eq)
      (auto intro!: rejects_bind [OF parses_readBytes, where cs = "[]", simplified] rejects_fail
        split: if_splits sum.splits prod.splits)
qed

lemma parses_readBlocks:
  assumes "bs \<noteq> []" "\<forall>b \<in> set bs. plain_block b" "applyBlocks bs sm = Some sm'" "length bs \<le> fuel"
  shows "parses (readBlocks fuel False (True, sm) :: (StreamMeta, 't) rm) (byte_bits (metaBlocks bs)) sm'"
  using assms
proof (induction bs arbitrary: fuel sm)
  case (Cons b bs)
  obtain sm1 where sm1: "applyBlock b sm = Some sm1" "applyBlocks bs sm1 = Some sm'"
    using Cons.prems(3) by (auto simp: bind_eq_Some_conv)
  obtain fuel' where f: "fuel = Suc fuel'" "length bs \<le> fuel'" using Cons.prems(4) by (cases fuel) auto
  have b: "plain_block b" "fst b < 128" "length (snd b) < 2 ^ 24" "(of_nat (fst b) :: u64) \<noteq> of_nat typeInvalid"
    using Cons.prems(2) of_nat_type [of "fst b" typeInvalid] by (auto simp: plain_block_def block_types MaxMetadataBodyLen_def)
  have rest: "parses (if bs = [] then (if \<not> True then failR ErrMissingStreamInfo else retR sm1) else readBlocks fuel' False (True, sm1) :: (StreamMeta, 't) rm)
      (byte_bits (metaBlocks bs)) sm'"
    using Cons.IH [of sm1 fuel'] Cons.prems(2) sm1(2) f(2) by (auto intro: parses_ret)
  show ?case
    unfolding f(1) readBlocks.simps metaBlocks.simps metaBlock_def byte_bits_simps append_assoc
    by (rule parses_bind [OF parses_readBlockHeader [OF b(2,3)]])
      (use b(4) rest in \<open>auto intro!: parses_bind [OF parses_readOneBlock [OF b(1) sm1(1)]] split del: if_split\<close>)
qed simp

text \<open>A stream up to its first frame: an optional ID3v2 tag, the marker, STREAMINFO and further blocks.\<close>

text \<open>An ID3v2 tag: the size \<open>n\<close> stands in four bytes of seven bits, and flag bit 4 announces a footer of ten bytes.\<close>

definition syncsafe :: "nat \<Rightarrow> u8 list" where
  "syncsafe n = map (\<lambda>k. of_nat (n div 128 ^ k mod 128)) [3, 2, 1, 0]"

definition id3_tag :: "u8 list \<Rightarrow> bool" where
  "id3_tag tag \<longleftrightarrow> (\<exists>v r fl n body. tag = markID3 @ [v] @ ([r, fl] @ syncsafe n) @ body \<and> n < 2 ^ 28
     \<and> length body = (if bit fl 4 then n + 10 else n))"

lemma syncsafe_digit: "k \<le> 3 \<Longrightarrow> ucast ((of_nat (n div 128 ^ k mod 128) :: u8) AND 0x7F) = (take_bit 7 (drop_bit (7 * k) (of_nat n)) :: u64)"
proof (rule bit_word_eqI)
  fix i assume "k \<le> 3" "i < LENGTH(64)"
  have d: "n div 128 ^ k mod 128 = take_bit 7 (drop_bit (7 * k) n)"
    by (simp add: take_bit_eq_mod drop_bit_eq_div power_mult)
  have m: "(0x7F :: u8) = mask 7" by (simp add: mask_numeral)
  show "bit (ucast ((of_nat (n div 128 ^ k mod 128) :: u8) AND 0x7F) :: u64) i = bit (take_bit 7 (drop_bit (7 * k) (of_nat n)) :: u64) i"
    unfolding d m using \<open>k \<le> 3\<close> \<open>i < LENGTH(64)\<close>
    by (auto simp: bit_simps simp del: of_nat_take_bit of_nat_drop_bit)
qed

lemma syncsafe_join:
  "push_bit 21 (take_bit 7 (drop_bit 21 w)) OR push_bit 14 (take_bit 7 (drop_bit 14 w))
     OR push_bit 7 (take_bit 7 (drop_bit 7 w)) OR take_bit 7 w = take_bit 28 w" for w :: u64
proof (rule bit_word_eqI)
  fix i assume "i < LENGTH(64)"
  consider "i < 7" | "7 \<le> i" "i < 14" | "14 \<le> i" "i < 21" | "21 \<le> i" "i < 28" | "28 \<le> i" by linarith
  then show "bit (push_bit 21 (take_bit 7 (drop_bit 21 w)) OR push_bit 14 (take_bit 7 (drop_bit 14 w))
     OR push_bit 7 (take_bit 7 (drop_bit 7 w)) OR take_bit 7 w) i = bit (take_bit 28 w) i"
    using \<open>i < LENGTH(64)\<close> by cases (auto simp: bit_simps)
qed

lemma id3Size_syncsafe:
  assumes "n < 2 ^ 28"
  shows "unat (id3Size ([r, fl] @ syncsafe n)) = (if bit fl 4 then n + 10 else n)"
proof -
  have f: "fl AND 0x10 \<noteq> 0 \<longleftrightarrow> bit fl 4" using and_exp_eq_0_iff_not_bit [of fl 4] by simp
  have s: "[r, fl] @ syncsafe n = [r, fl, of_nat (n div 128 ^ 3 mod 128), of_nat (n div 128 ^ 2 mod 128),
      of_nat (n div 128 ^ 1 mod 128), of_nat (n div 128 ^ 0 mod 128)]"
    by (simp only: syncsafe_def list.map append.simps)
  have g: "[x0, x1, x2, x3, x4, x5] ! 1 = x1" "[x0, x1, x2, x3, x4, x5] ! 2 = x2" "[x0, x1, x2, x3, x4, x5] ! 3 = x3"
    "[x0, x1, x2, x3, x4, x5] ! 4 = x4" "[x0, x1, x2, x3, x4, x5] ! 5 = x5" for x0 x1 x2 x3 x4 x5 :: u8
    by simp_all
  have d: "7 * 3 = (21 :: nat)" "7 * 2 = (14 :: nat)" "7 * 1 = (7 :: nat)" "drop_bit (7 * 0) w = w" for w :: u64 by simp_all
  have k: "3 \<le> (3 :: nat)" "2 \<le> (3 :: nat)" "1 \<le> (3 :: nat)" "0 \<le> (3 :: nat)" by simp_all
  have "id3Size ([r, fl] @ syncsafe n) = (let w = take_bit 28 (of_nat n) in if bit fl 4 then w + 10 else w)"
    unfolding id3Size_def Let_def s g f syncsafe_digit [OF k(1)] syncsafe_digit [OF k(2)] syncsafe_digit [OF k(3)] syncsafe_digit [OF k(4)] d
      syncsafe_join ..
  moreover have "take_bit 28 (of_nat n :: u64) = of_nat n"
    using assms by (metis of_nat_take_bit take_bit_nat_eq_self)
  moreover have "of_nat n + 10 = (of_nat (n + 10) :: u64)" by simp
  ultimately have "id3Size ([r, fl] @ syncsafe n) = of_nat (if bit fl 4 then n + 10 else n)" by simp
  moreover have "unat (of_nat m :: u64) = m" if "m < 2 ^ 28 + 10" for m using that by (simp add: unat_of_nat)
  ultimately show ?thesis using assms by simp
qed

definition streamHeader :: "StreamInfo \<Rightarrow> nat \<Rightarrow> nat \<Rightarrow> nat \<Rightarrow> nat \<Rightarrow> block list \<Rightarrow> u8 list" where
  "streamHeader si minBlock maxBlock minFrame maxFrame bs =
     markFLaC @ metaBlock (bs = []) (typeStreamInfo, EncodeStreamInfo si minBlock maxBlock minFrame maxFrame) @ metaBlocks bs"

lemma parses_marker: "parses skipID3v2AndMagic (byte_bits markFLaC) ()"
proof -
  have "parses (readBytes 4) (byte_bits markFLaC) markFLaC" by (rule parses_readBytes) (simp add: markFLaC_def)
  then show ?thesis
    unfolding skipID3v2AndMagic_def
    by (rule parses_bind_ret)
      (auto intro!: parses_bind_ret [OF parses_ret] parses_ret simp: markFLaC_def markID3_def)
qed

lemma parses_id3:
  assumes "id3_tag tag"
  shows "parses skipID3v2AndMagic (byte_bits (tag @ markFLaC)) ()"
proof -
  obtain v r fl n body where g: "tag = markID3 @ [v] @ ([r, fl] @ syncsafe n) @ body" "n < 2 ^ 28" "length body = (if bit fl 4 then n + 10 else n)"
    using assms unfolding id3_tag_def by blast
  define rest where "rest = [r, fl] @ syncsafe n"
  have t: "tag = (markID3 @ [v]) @ rest @ body" "length rest = 6" "length body = unat (id3Size rest)"
    using g id3Size_syncsafe [OF g(2), of r fl] by (simp_all add: rest_def syncsafe_def)
  have p: "length (markID3 @ [v]) = 4" "length markFLaC = 4" "take 3 (markID3 @ [v]) = markID3"
    by (simp_all add: markID3_def markFLaC_def)
  have b: "byte_bits (tag @ markFLaC) = byte_bits (markID3 @ [v]) @ byte_bits rest @ byte_bits body @ byte_bits markFLaC"
    by (simp add: t(1))
  have inner: "parses (bindR (readBytes 6) (\<lambda>rest. bindR (skipBytes (unat (id3Size rest))) (\<lambda>_. readBytes 4)))
      (byte_bits rest @ byte_bits body @ byte_bits markFLaC) markFLaC"
    by (intro parses_bind [OF parses_readBytes [OF t(2)]] parses_bind [OF parses_skipBytes [OF t(3)]] parses_readBytes p(2))
  show ?thesis
    unfolding skipID3v2AndMagic_def b
    by (rule parses_bind [OF parses_readBytes [OF p(1)]], simp only: p(3) if_True simp_thms)
      (rule parses_bind_ret [OF inner], simp add: parses_ret)
qed

lemma parses_skipID3v2AndMagic:
  assumes "tag = [] \<or> id3_tag tag"
  shows "parses skipID3v2AndMagic (byte_bits (tag @ markFLaC)) ()"
proof (cases "id3_tag tag")
  case True
  then show ?thesis by (rule parses_id3)
next
  case False
  then have "tag = []" using assms by simp
  then show ?thesis using parses_marker by simp
qed

lemma parses_first_block:
  assumes "info_ok si" "minBlock < 2 ^ 16" "maxBlock < 2 ^ 16" "maxFrame < 2 ^ 24"
    and bs: "\<forall>b \<in> set bs. plain_block b" "applyBlocks bs (infoMeta si minBlock maxBlock maxFrame) = Some sm" "length bs < fuel"
  shows "parses (readBlocks fuel True (False, emptyMeta) :: (StreamMeta, 't) rm)
    (byte_bits (metaBlock (bs = []) (typeStreamInfo, EncodeStreamInfo si minBlock maxBlock minFrame maxFrame) @ metaBlocks bs)) sm"
proof -
  let ?body = "EncodeStreamInfo si minBlock maxBlock minFrame maxFrame"
  have l: "length ?body = 34" using assms(1) by (simp add: info_ok_def length_EncodeStreamInfo)
  obtain fuel' where f: "fuel = Suc fuel'" "length bs \<le> fuel'" using bs(3) by (cases fuel) auto
  have rest: "parses (if bs = [] then (if \<not> True then failR ErrMissingStreamInfo else retR (infoMeta si minBlock maxBlock maxFrame))
        else readBlocks fuel' False (True, infoMeta si minBlock maxBlock maxFrame) :: (StreamMeta, 't) rm)
      (byte_bits (metaBlocks bs)) sm"
    using parses_readBlocks [OF _ bs(1,2) f(2)] bs(2) by (auto intro: parses_ret)
  have block: "parses (readOneBlock True (of_nat typeStreamInfo) 34 (False, emptyMeta)) (byte_bits ?body) (True, infoMeta si minBlock maxBlock maxFrame)"
    unfolding readOneBlock_def
    by (simp, rule parses_bind_ret [OF parses_readStreamInfo [OF assms(1-4)]]) (simp add: infoMeta_def parses_ret)
  have head: "parses readBlockHeader (byte_bits (EncodeBlockHeader (bs = []) typeStreamInfo 34)) (bs = [], of_nat typeStreamInfo, 34)"
    using parses_readBlockHeader [of typeStreamInfo 34 "bs = []"] by (simp add: typeStreamInfo_def)
  have t: "(of_nat typeStreamInfo :: u64) \<noteq> of_nat typeInvalid" by (simp add: block_types)
  show ?thesis
    unfolding f(1) readBlocks.simps metaBlock_def byte_bits_simps append_assoc fst_conv snd_conv l
    by (rule parses_bind [OF head])
      (simp only: prod.case t if_False simp_thms, rule parses_bind [OF block], simp only: prod.case rest)
qed

text \<open>
  The fuel is one round per bit: a round that is not the last consumes at least the header.
\<close>

lemma parses_ReadMetadata:
  assumes "info_ok si" "minBlock < 2 ^ 16" "maxBlock < 2 ^ 16" "maxFrame < 2 ^ 24" "tag = [] \<or> id3_tag tag"
    and bs: "\<forall>b \<in> set bs. plain_block b" "applyBlocks bs (infoMeta si minBlock maxBlock maxFrame) = Some sm"
  shows "parses (ReadMetadata :: (StreamMeta, 't) rm) (byte_bits (tag @ streamHeader si minBlock maxBlock minFrame maxFrame bs)) sm"
proof -
  let ?blocks = "metaBlock (bs = []) (typeStreamInfo, EncodeStreamInfo si minBlock maxBlock minFrame maxFrame) @ metaBlocks bs"
  have n: "length bs \<le> length (byte_bits (metaBlocks bs))" by (induction bs) (auto simp: metaBlock_def)
  have "parses (bindR (getsR (\<lambda>rd. Suc (length (rbits rd)))) (\<lambda>fuel. readBlocks fuel True (False, emptyMeta)) :: (StreamMeta, 't) rm)
      (byte_bits ?blocks) sm"
  proof (rule parsesI)
    fix rd :: "'t reader"
    assume rd: "at_bits (byte_bits ?blocks) rd"
    have "length bs < Suc (length (rbits rd))" using n at_bits_len [OF rd] by simp
    from parsesE [OF parses_first_block [OF assms(1-4) bs this] rd]
    show "\<exists>rd'. bindR (getsR (\<lambda>rd. Suc (length (rbits rd)))) (\<lambda>fuel. readBlocks fuel True (False, emptyMeta)) rd = (Inr sm, rd')
        \<and> advance (length (byte_bits ?blocks)) rd rd'"
      by (auto simp: bindR_def getsR_def)
  qed
  then have "parses (readMetadata :: (StreamMeta, 't) rm) (byte_bits (tag @ markFLaC) @ byte_bits ?blocks) sm"
    unfolding readMetadata_def by (rule parses_bind [OF parses_skipID3v2AndMagic [OF assms(5)]])
  moreover have "byte_bits (tag @ streamHeader si minBlock maxBlock minFrame maxFrame bs) = byte_bits (tag @ markFLaC) @ byte_bits ?blocks"
    by (simp add: streamHeader_def)
  ultimately show ?thesis unfolding ReadMetadata_def by (simp only: parses_mapErr)
qed

section \<open>What a reader of any stream gets\<close>

definition meta_ok :: "StreamMeta \<Rightarrow> bool" where
  "meta_ok sm \<longleftrightarrow> info_ok (sm_Info sm) \<and> sm_MinBlock sm < 2 ^ 16 \<and> sm_MaxBlock sm < 2 ^ 16 \<and> sm_MaxFrame sm < 2 ^ 24
     \<and> (\<forall>p \<in> set (sm_SeekPoints sm). sk_SampleNumber p \<noteq> PlaceholderSampleNumber)"

definition state_ok :: "bool \<times> StreamMeta \<Rightarrow> bool" where
  "state_ok st \<longleftrightarrow> (\<forall>p \<in> set (sm_SeekPoints (snd st)). sk_SampleNumber p \<noteq> PlaceholderSampleNumber) \<and> (fst st \<longrightarrow> meta_ok (snd st))"

lemma parsePoints_real: "p \<in> set (parsePoints body) \<Longrightarrow> sk_SampleNumber p \<noteq> PlaceholderSampleNumber"
proof (induction body rule: parsePoints.induct)
  case (1 body)
  show ?case
  proof (cases "body = []")
    case False
    then show ?thesis using 1 by (subst (asm) parsePoints.simps) (auto simp: Let_def split: if_splits)
  qed (use 1 in simp)
qed

lemma runs_seekBlock:
  "state_ok (have_si, sm) \<Longrightarrow> runs (case parseSeekTable body of Inl e \<Rightarrow> failR e
     | Inr pts \<Rightarrow> retR (have_si, sm\<lparr>sm_SeekPoints := pts\<rparr>)) state_ok"
  using parsePoints_real [of _ body]
  by (auto simp: state_ok_def meta_ok_def parseSeekTable_def split: sum.split)

lemma runs_commentBlock:
  "state_ok (have_si, sm) \<Longrightarrow> runs (case parseVorbisComment body of Inl e \<Rightarrow> retR (have_si, sm)
     | Inr (vendor, comments) \<Rightarrow> retR (have_si, sm\<lparr>sm_Vendor := vendor, sm_Comments := comments\<rparr>)) state_ok"
  by (auto simp: state_ok_def meta_ok_def split: sum.split)

lemma runs_readOneBlock:
  assumes "state_ok st"
  shows "runs (readOneBlock first btype len st) state_ok"
proof (cases st)
  case (Pair have_si sm)
  have ok: "state_ok (have_si, sm)" using assms Pair by simp
  show ?thesis
    unfolding readOneBlock_def Pair prod.case
    by (intro runs_if runs_fail runs_bind [OF runs_readStreamInfo] runs_bind [OF runs_readBytes]
          runs_bind [OF runs_skipBytes] runs_seekBlock runs_commentBlock runs_ret ok)
      (use ok in \<open>auto simp: state_ok_def meta_ok_def\<close>)
qed

lemma runs_readBlocks: "state_ok st \<Longrightarrow> runs (readBlocks fuel first st) meta_ok"
proof (induction fuel arbitrary: first st)
  case (Suc fuel)
  show ?case
    unfolding readBlocks.simps case_prod_beta'
    by (intro runs_bind [OF runs_readBlockHeader] runs_if runs_fail runs_bind [OF runs_readOneBlock [OF Suc.prems]] Suc.IH runs_ret)
      (auto simp: state_ok_def)
qed auto

lemma runs_ReadMetadata: "runs ReadMetadata meta_ok"
proof -
  have "state_ok (False, emptyMeta)" by (simp add: state_ok_def emptyMeta_def)
  then show ?thesis
    unfolding ReadMetadata_def readMetadata_def
    by (intro runs_mapErr runs_bind [OF runs_skipID3v2AndMagic] runs_bind [OF runs_gets [where P = "\<lambda>_. True"]] runs_readBlocks TrueI)
qed

text \<open>Running out of input inside the section is never the clean end of a stream.\<close>

lemma ReadMetadata_not_EOF: "fst (ReadMetadata rd) \<noteq> Inl EOF"
  by (auto simp: ReadMetadata_def mapErrR_def split: prod.split sum.split)

text \<open>The fuel of \<open>readMetadata\<close> never runs out: any larger amount gives the same result.\<close>

lemma ReadBits_progress:
  assumes "wf_reader rd" "ReadBits 1 rd = (Inr v, rd')"
  shows "length (rbits rd') < length (rbits rd)"
proof -
  have "reads_bits 1 rd (ReadBits 1 rd)" by (rule ReadBits_reads(1) [OF assms(1) servable_small]) simp
  then have "1 \<le> length (rbits rd)" "advance 1 rd rd'" using assms(2) by (auto simp: reads_bits_def split: if_splits)
  then show ?thesis using advance_rbits [of 1 rd rd'] by simp
qed

lemma advance_shorter: "advance k rd rd' \<Longrightarrow> length (rbits rd') \<le> length (rbits rd)"
  using advance_rbits [of k rd rd'] by simp

lemma header_progress:
  assumes wf: "wf_reader rd" and h: "readBlockHeader rd = (Inr x, rd')"
  shows "wf_reader rd'" "length (rbits rd') < length (rbits rd)"
proof -
  obtain v rd1 where r1: "ReadBits 1 rd = (Inr v, rd1)"
    using h by (auto simp: readBlockHeader_def bindR_def split: prod.splits sum.splits)
  have w1: "wf_reader rd1" using runsD(1) [OF runs_ReadBits wf r1] by (auto dest: advanceD(1))
  have tail: "runs (bindR (ReadBits 7) (\<lambda>btype. bindR (ReadBits 24) (\<lambda>len. retR (v = 1, btype, len)))) (\<lambda>_. True)"
    by (intro runs_bind [OF runs_ReadBits] runs_ret) auto
  have "bindR (ReadBits 7) (\<lambda>btype. bindR (ReadBits 24) (\<lambda>len. retR (v = 1, btype, len))) rd1 = (Inr x, rd')"
    using h unfolding readBlockHeader_def by (subst (asm) bindR_def) (simp add: r1 [simplified])
  from runsD(1) [OF tail w1 this] obtain k where k: "advance k rd1 rd'" by blast
  show "wf_reader rd'" using advanceD(1) [OF k] .
  show "length (rbits rd') < length (rbits rd)"
    using ReadBits_progress [OF wf r1] advance_shorter [OF k] by simp
qed

lemma runs_readOneBlock_any: "runs (readOneBlock first btype len st) (\<lambda>_. True)"
  unfolding readOneBlock_def case_prod_beta'
  by (intro runs_if runs_fail runs_bind [OF runs_readStreamInfo] runs_bind [OF runs_readBytes]
        runs_bind [OF runs_skipBytes] runs_ret TrueI) (auto split: sum.split)

lemma readBlocks_fuel:
  assumes "wf_reader rd" "length (rbits rd) < fuel" "length (rbits rd) < fuel'"
  shows "readBlocks fuel first st rd = readBlocks fuel' first st rd"
  using assms
proof (induction fuel arbitrary: fuel' first st rd)
  case (Suc n)
  obtain m where m: "fuel' = Suc m" using Suc.prems(3) by (cases fuel') auto
  show ?case
  proof (cases "readBlockHeader rd")
    case (Pair r rd1)
    show ?thesis
    proof (cases r)
      case (Inr x)
      obtain isLast btype len where x: "x = (isLast, btype, len)" by (cases x)
      note P = header_progress [OF Suc.prems(1) Pair [unfolded Inr]]
      have "readBlocks n False st2 rd2 = readBlocks m False st2 rd2"
        if "readOneBlock first btype len st rd1 = (Inr st2, rd2)" for st2 rd2
      proof -
        from runsD(1) [OF runs_readOneBlock_any P(1) that] obtain k where k: "advance k rd1 rd2" by blast
        show ?thesis
          using Suc.IH [OF advanceD(1) [OF k]] advance_shorter [OF k] P(2) Suc.prems(2,3) by (simp add: m)
      qed
      then show ?thesis
        by (auto simp: m bindR_def Pair Inr x split: prod.split sum.split)
    qed (simp add: m bindR_def Pair)
  qed
qed simp

section \<open>The loop as the code has it\<close>

text \<open>
  \<open>readMetadata\<close> loops until it returns; it counts no rounds. \<open>readBlocksLoop\<close> is that loop, whose
  value is \<open>None\<close> when it does not end, and \<open>readMetadataLoop\<close> the function around it.
\<close>

partial_function (option) readBlocksLoop ::
  "bool \<Rightarrow> bool \<times> StreamMeta \<Rightarrow> 't reader \<Rightarrow> ((err + StreamMeta) \<times> 't reader) option" where
  "readBlocksLoop first st rd =
     (case readBlockHeader rd of
        (Inl e, rd) \<Rightarrow> Some (Inl e, rd)
      | (Inr (isLast, btype, len), rd) \<Rightarrow>
          if btype = of_nat typeInvalid then Some (Inl ErrUnsupported, rd)
          else if first \<and> btype \<noteq> of_nat typeStreamInfo then Some (Inl ErrMissingStreamInfo, rd)
          else (case readOneBlock first btype len st rd of
                  (Inl e, rd) \<Rightarrow> Some (Inl e, rd)
                | (Inr (haveStreamInfo, sm), rd) \<Rightarrow>
                    if isLast then Some (if \<not> haveStreamInfo then Inl ErrMissingStreamInfo else Inr sm, rd)
                    else readBlocksLoop False (haveStreamInfo, sm) rd))"

definition readMetadataLoop :: "'t reader \<Rightarrow> ((err + StreamMeta) \<times> 't reader) option" where
  "readMetadataLoop rd =
     (case skipID3v2AndMagic rd of
        (Inl e, rd) \<Rightarrow> Some (Inl e, rd)
      | (Inr _, rd) \<Rightarrow> readBlocksLoop True (False, emptyMeta) rd)"

lemma readBlocksLoop_fuel:
  assumes "wf_reader rd" "length (rbits rd) < fuel"
  shows "readBlocksLoop first st rd = Some (readBlocks fuel first st rd)"
  using assms
proof (induction fuel arbitrary: first st rd)
  case (Suc n)
  obtain r rd1 where H: "readBlockHeader rd = (r, rd1)" by fastforce
  show ?case
  proof (cases r)
    case (Inr x)
    obtain isLast btype len where x: "x = (isLast, btype, len)" by (cases x)
    note P = header_progress [OF Suc.prems(1) H [unfolded Inr]]
    obtain r2 rd2 where B: "readOneBlock first btype len st rd1 = (r2, rd2)" by fastforce
    from runsD(1) [OF runs_readOneBlock_any P(1) B] obtain k where k: "advance k rd1 rd2" by blast
    have "readBlocksLoop False st2 rd2 = Some (readBlocks n False st2 rd2)" for st2
      using Suc.IH [OF advanceD(1) [OF k]] advance_shorter [OF k] P(2) Suc.prems(2) by simp
    then show ?thesis
      by (subst readBlocksLoop.simps) (auto simp: bindR_def retR_def failR_def H Inr x B split: sum.split)
  qed (subst readBlocksLoop.simps, simp add: bindR_def H)
qed simp

lemma readMetadataLoop_fuel:
  assumes "wf_reader rd"
  shows "readMetadataLoop rd = Some (readMetadata rd)"
proof -
  obtain r rd1 where S: "skipID3v2AndMagic rd = (r, rd1)" by fastforce
  from runsD(1) [OF runs_skipID3v2AndMagic assms S] obtain k where "advance k rd rd1" by blast
  then have "readBlocksLoop True (False, emptyMeta) rd1 = Some (readBlocks (Suc (length (rbits rd1))) True (False, emptyMeta) rd1)"
    by (intro readBlocksLoop_fuel) (auto dest: advanceD(1))
  then show ?thesis
    by (auto simp: readMetadataLoop_def readMetadata_def bindR_def getsR_def S split: sum.split)
qed

end
