(* ===== verification/Frame_Prefix.thy ===== *)
theory Frame_Prefix
  imports Frame_Encode
begin

text \<open>
  Decoding a frame whose bytes are cut off (\<open>internal/frame\<close> on a prefix of its input): a decoder
  that does not run into the end of its input does the same when more input follows. So a
  frame decoded from a window of a file is the frame at that place of the file, and every proper
  prefix of a frame ends with the error that says so.
\<close>

section \<open>The same place in a longer input\<close>

text \<open>
  An input may end with an error of its own: then a decoder that runs into it reports some error. The
  two by which the internal packages put a subframe off are not exported: no source can return them.
\<close>

definition internalErr :: "err \<Rightarrow> bool" where
  "internalErr e \<longleftrightarrow> e = ErrResidualRange \<or> e = ErrSubframeOutOfRange"

lemma EOF_external [simp]: "\<not> internalErr EOF"
  by (simp add: internalErr_def)

definition prefixOf :: "err \<Rightarrow> ('t \<Rightarrow> u8 \<Rightarrow> 't) option \<Rightarrow> ('t \<Rightarrow> u8 list \<Rightarrow> 't) option \<Rightarrow> u8 list \<Rightarrow> 't reader \<Rightarrow> 't reader \<Rightarrow> bool" where
  "prefixOf E t u X rd rd2 \<longleftrightarrow> wf_reader rd \<and> wf_reader rd2 \<and> rend rd = E \<and> \<not> internalErr E \<and> rbytes rd2 = rbytes rd @ X \<and> roff rd2 = roff rd
     \<and> rd_tap rd = t \<and> rd_tap rd2 = t \<and> rd_rtap rd = u \<and> rd_rtap rd2 = u \<and> vtap rd2 = vtap rd"

lemma prefixOf_wf: "prefixOf E t u X rd rd2 \<Longrightarrow> wf_reader rd" "prefixOf E t u X rd rd2 \<Longrightarrow> wf_reader rd2"
  by (simp_all add: prefixOf_def)

lemma prefixOf_bits: "prefixOf E t u X rd rd2 \<Longrightarrow> rbits rd2 = rbits rd @ byte_bits X"
proof -
  assume p: "prefixOf E t u X rd rd2"
  have "(8 - roff rd) mod 8 \<le> 8 * length (rbytes rd) - roff rd"
    using SkipToByteBoundary_ok [OF prefixOf_wf(1) [OF p]] by (simp add: advance_def rbits_def)
  then have "roff rd \<le> 8 * length (rbytes rd)" 
  proof (cases "roff rd = 0")
    case False
    then have "(8 - roff rd) mod 8 = 8 - roff rd" "0 < 8 - roff rd" using roff_less [of rd] by auto
    then have "0 < 8 * length (rbytes rd) - roff rd" using \<open>(8 - roff rd) mod 8 \<le> 8 * length (rbytes rd) - roff rd\<close> by linarith
    then show ?thesis by simp
  qed simp
  then have "roff rd \<le> length (byte_bits (rbytes rd))" by simp
  then show ?thesis using p by (simp add: prefixOf_def rbits_def)
qed

lemma prefixOf_advance:
  assumes p: "prefixOf E t u X rd rd2" and a: "advance n rd rd'" "advance n rd2 rd2'"
  shows "prefixOf E t u X rd' rd2'"
proof -
  let ?k = "(roff rd + n) div 8"
  have "n \<le> length (rbits rd)" using a(1) by (simp add: advance_def)
  then have "n \<le> 8 * length (rbytes rd) - roff rd" by (simp add: rbits_def)
  then have k: "?k \<le> length (rbytes rd)" using roff_less [of rd] by arith
  have "rd_tap rd2 = rd_tap rd" "rd_rtap rd2 = rd_rtap rd" using p by (auto simp: prefixOf_def)
  then have t: "tapf rd2 = tapf rd" unfolding tapf_def by (simp only:)
  show ?thesis using p a k unfolding prefixOf_def advance_def t by simp
qed

text \<open>The errors that say the input has ended.\<close>

definition cutErr :: "err \<Rightarrow> bool" where "cutErr e \<longleftrightarrow> e = EOF \<or> e = ErrUnexpectedEOF"

definition cutAt :: "err \<Rightarrow> err \<Rightarrow> bool" where
  "cutAt E e \<longleftrightarrow> \<not> internalErr e \<and> (E = EOF \<longrightarrow> cutErr e)"

definition steady :: "err \<Rightarrow> ('t \<Rightarrow> u8 \<Rightarrow> 't) option \<Rightarrow> ('t \<Rightarrow> u8 list \<Rightarrow> 't) option \<Rightarrow> ('a, 't) rm \<Rightarrow> bool" where
  "steady E t u m \<longleftrightarrow> (\<forall>X rd rd2. prefixOf E t u X rd rd2 \<longrightarrow>
     (\<exists>e. fst (m rd) = Inl e \<and> cutAt E e) \<or> fst (m rd2) = fst (m rd) \<and> prefixOf E t u X (snd (m rd)) (snd (m rd2)))"

lemma steadyI:
  "(\<And>X rd rd2. prefixOf E t u X rd rd2 \<Longrightarrow>
     (\<exists>e. fst (m rd) = Inl e \<and> cutAt E e) \<or> fst (m rd2) = fst (m rd) \<and> prefixOf E t u X (snd (m rd)) (snd (m rd2))) \<Longrightarrow> steady E t u m"
  by (simp add: steady_def)

lemma steadyD:
  assumes "steady E t u m" "prefixOf E t u X rd rd2" "m rd = (r, rd')"
  obtains e where "r = Inl e" "cutAt E e" | rd2' where "m rd2 = (r, rd2')" "prefixOf E t u X rd' rd2'"
  using assms unfolding steady_def by (metis fst_conv prod.collapse snd_conv)

lemma steady_ret [intro]: "steady E t u (retR x)"
  by (simp add: steady_def retR_def)

lemma steady_fail [intro]: "steady E t u (failR e)"
  by (simp add: steady_def failR_def)

lemma steady_if [intro]: "(c \<Longrightarrow> steady E t u m) \<Longrightarrow> (\<not> c \<Longrightarrow> steady E t u m') \<Longrightarrow> steady E t u (if c then m else m')"
  by simp

lemma steady_bind_when:
  assumes m: "steady E t u m" and f: "\<And>x rd rd'. wf_reader rd \<Longrightarrow> m rd = (Inr x, rd') \<Longrightarrow> steady E t u (f x)"
  shows "steady E t u (bindR m f)"
proof (rule steadyI)
  fix X rd rd2 assume p: "prefixOf E t u X rd rd2"
  obtain r rd1 where r: "m rd = (r, rd1)" by fastforce
  show "(\<exists>e. fst (bindR m f rd) = Inl e \<and> cutAt E e)
    \<or> fst (bindR m f rd2) = fst (bindR m f rd) \<and> prefixOf E t u X (snd (bindR m f rd)) (snd (bindR m f rd2))"
    using m p r
  proof (cases rule: steadyD)
    case (1 e)
    then show ?thesis by (simp add: bindR_def r)
  next
    case (2 rd21)
    show ?thesis
    proof (cases r)
      case (Inl e)
      then show ?thesis using 2 by (simp add: bindR_def r)
    next
      case (Inr x)
      have s: "steady E t u (f x)" by (rule f [OF prefixOf_wf(1) [OF p] r [unfolded Inr]])
      obtain r2 rd3 where r2: "f x rd1 = (r2, rd3)" by fastforce
      show ?thesis using s 2(2) r2 by (cases rule: steadyD) (use 2(1) r r2 Inr in \<open>auto simp: bindR_def\<close>)
    qed
  qed
qed

lemma steady_bind: "steady E t u m \<Longrightarrow> (\<And>x. steady E t u (f x)) \<Longrightarrow> steady E t u (bindR m f)"
  by (rule steady_bind_when)

lemma steady_bindP: "steady E t u m \<Longrightarrow> runs m P \<Longrightarrow> (\<And>x. P x \<Longrightarrow> steady E t u (f x)) \<Longrightarrow> steady E t u (bindR m f)"
  by (rule steady_bind_when) (auto dest: runsD(2))

lemma steady_mapErr:
  assumes "steady E t u m" "\<And>e. cutAt E e \<Longrightarrow> cutAt E (g e)"
  shows "steady E t u (mapErrR g m)"
proof (rule steadyI)
  fix X rd rd2 assume p: "prefixOf E t u X rd rd2"
  obtain r rd1 where r: "m rd = (r, rd1)" by fastforce
  show "(\<exists>e. fst (mapErrR g m rd) = Inl e \<and> cutAt E e)
    \<or> fst (mapErrR g m rd2) = fst (mapErrR g m rd) \<and> prefixOf E t u X (snd (mapErrR g m rd)) (snd (mapErrR g m rd2))"
    using assms(1) p r by (cases rule: steadyD) (use assms(2) r in \<open>auto simp: mapErrR_def split: sum.split\<close>)
qed

lemma steady_deferR:
  assumes "steady E t u m"
  shows "steady E t u (deferR m)"
proof (rule steadyI)
  fix X rd rd2 assume p: "prefixOf E t u X rd rd2"
  obtain r rd1 where r: "m rd = (r, rd1)" by fastforce
  show "(\<exists>e. fst (deferR m rd) = Inl e \<and> cutAt E e)
    \<or> fst (deferR m rd2) = fst (deferR m rd) \<and> prefixOf E t u X (snd (deferR m rd)) (snd (deferR m rd2))"
    using assms(1) p r by (cases rule: steadyD) (use r in \<open>auto simp: deferR_def cutAt_def cutErr_def internalErr_def split: sum.split\<close>)
qed

lemma steady_readN: "steady E t u m \<Longrightarrow> steady E t u (readN n m)"
  by (induction n) (auto intro!: steady_bind)

text \<open>The reader's operations.\<close>

lemma steady_ReadBits:
  assumes "n \<le> 57"
  shows "steady E t u (ReadBits n)"
proof (rule steadyI)
  fix X rd rd2 assume p: "prefixOf E t u X rd rd2"
  note w = prefixOf_wf [OF p]
  note r = ReadBits_reads(1) [OF w(1) servable_small [OF assms]] ReadBits_reads(1) [OF w(2) servable_small [OF assms]]
  show "(\<exists>e. fst (ReadBits n rd) = Inl e \<and> cutAt E e)
    \<or> fst (ReadBits n rd2) = fst (ReadBits n rd) \<and> prefixOf E t u X (snd (ReadBits n rd)) (snd (ReadBits n rd2))"
  proof (cases "n \<le> length (rbits rd)")
    case True
    then have a: "advance n rd (snd (ReadBits n rd))" "advance n rd2 (snd (ReadBits n rd2))" "fst (ReadBits n rd2) = fst (ReadBits n rd)"
      using r by (simp_all add: reads_bits_def prefixOf_bits [OF p])
    then show ?thesis using prefixOf_advance [OF p a(1,2)] by simp
  next
    case False
    have "rend rd = E" "\<not> internalErr E" using p by (simp_all add: prefixOf_def)
    then show ?thesis using r(1) False by (simp add: reads_bits_def cutAt_def cutErr_def internalErr_def noEOF_def)
  qed
qed

lemma steady_ReadUnary: "steady E t u ReadUnary"
proof (rule steadyI)
  fix X rd rd2 assume p: "prefixOf E t u X rd rd2"
  note w = prefixOf_wf [OF p]
  have r: "reads_unary 0 rd (ReadUnary rd)" "reads_unary 0 rd2 (ReadUnary rd2)"
    using w unfolding ReadUnary_def by (auto intro: unaryLoop_ok)
  show "(\<exists>e. fst (ReadUnary rd) = Inl e \<and> cutAt E e)
    \<or> fst (ReadUnary rd2) = fst (ReadUnary rd) \<and> prefixOf E t u X (snd (ReadUnary rd)) (snd (ReadUnary rd2))"
  proof (cases "True \<in> set (rbits rd)")
    case True
    then have "takeWhile Not (rbits rd2) = takeWhile Not (rbits rd)"
      unfolding prefixOf_bits [OF p] using takeWhile_append1 [of True "rbits rd" Not] by simp
    then have "fst (ReadUnary rd2) = fst (ReadUnary rd)" and "\<exists>n. advance n rd (snd (ReadUnary rd)) \<and> advance n rd2 (snd (ReadUnary rd2))"
      using r True by (auto simp: reads_unary_def Let_def prefixOf_bits [OF p])
    then show ?thesis using prefixOf_advance [OF p] by blast
  next
    case False
    have "rend rd = E" "\<not> internalErr E" using p by (simp_all add: prefixOf_def)
    then show ?thesis using r(1) False by (simp add: reads_unary_def cutAt_def cutErr_def internalErr_def)
  qed
qed

lemma steady_ReadSigned: "n \<le> 57 \<Longrightarrow> steady E t u (ReadSigned n :: (i64, 'a) rm)"
proof (cases "n = 0")
  case True
  have r: "(ReadSigned 0 :: (i64, 'a) rm) = retR 0" by (simp add: fun_eq_iff ReadSigned_def retR_def)
  show ?thesis unfolding True r ..
next
  case False
  assume "n \<le> 57"
  then show ?thesis using False by (auto simp: ReadSigned_bind intro!: steady_bind [OF steady_ReadBits])
qed

section \<open>Every part of a frame\<close>

lemma steady_cut [intro]: "steady E t u m \<Longrightarrow> steady E t u (mapErrR noEOF m)"
  by (rule steady_mapErr) (auto simp: cutAt_def cutErr_def internalErr_def noEOF_def)

lemma steady_sample: "k \<le> 57 \<Longrightarrow> steady E t u (bindR (ReadSigned k) (\<lambda>v. retR (f v)))"
  by (intro steady_bind [OF steady_ReadSigned] steady_ret)

lemma steady_readPartition:
  assumes "pb \<le> 5"
  shows "steady E t u (readPartition pb esc n)"
proof -
  have pow: "(2::nat) ^ pb \<le> 2 ^ 5" using assms by (rule power_increasing) simp
  have sym: "steady E t u (readRiceSymbol k)" if "k < 32" for k
    unfolding readRiceSymbol_def using that by (intro steady_bind [OF steady_ReadUnary] steady_bind [OF steady_ReadBits] steady_ret) simp
  show ?thesis
    unfolding readPartition_def readRawSample_def
    by (intro steady_bindP [OF steady_ReadBits runs_ReadBits] steady_if steady_bind [OF steady_readN] steady_ret steady_sample sym)
      (use assms pow in auto)
qed

lemma steady_readPartitions: "pb \<le> 5 \<Longrightarrow> steady E t u (readPartitions pb esc ns)"
  by (induction ns) (auto intro!: steady_bind steady_readPartition split: prod.split)

lemma steady_decodeResidual: "steady E t u (decodeResidual n order)"
  unfolding decodeResidual_def DecodeResidual_def Let_def
  by (intro steady_mapErr steady_bind [OF steady_ReadBits] steady_if steady_fail steady_bind [OF steady_readPartitions])
    (auto simp: cutAt_def cutErr_def internalErr_def split: prod.split)

lemma steady_readWastedBits: "steady E t u readWastedBits"
  unfolding readWastedBits_def by (intro steady_bind [OF steady_ReadBits] steady_bind [OF steady_ReadUnary] steady_if steady_ret steady_fail) simp

lemma steady_decodeWarmup: "bps \<le> 57 \<Longrightarrow> steady E t u (decodeWarmup n order bps)"
  unfolding decodeWarmup_def by (intro steady_if steady_fail steady_readN steady_sample)

lemma steady_decodeFixed: "bps \<le> 57 \<Longrightarrow> steady E t u (decodeFixed restore n order bps)"
  unfolding decodeFixed_def by (intro steady_bind [OF steady_decodeWarmup] steady_bind [OF steady_decodeResidual] steady_ret)

lemma steady_decodeLPC: "bps \<le> 57 \<Longrightarrow> steady E t u (decodeLPC restore n order bps)"
  unfolding decodeLPC_def Let_def
  by (intro steady_bind [OF steady_decodeWarmup] steady_bindP [OF steady_ReadBits runs_ReadBits] steady_if steady_fail
      steady_bind [OF steady_ReadSigned] steady_bind [OF steady_readN] steady_sample steady_bind [OF steady_decodeResidual] steady_ret) simp_all

lemma steady_decodeBody: "bps \<le> 57 \<Longrightarrow> steady E t u (decodeBody restoreFixed restoreLPC inRange n bps stype)"
  unfolding decodeBody_def checkRange_def Let_def
  by (intro steady_if steady_sample steady_readN steady_bind [OF steady_decodeFixed] steady_bind [OF steady_decodeLPC] steady_fail steady_ret)

lemma steady_decodeSubframeT: "bps \<le> 57 \<Longrightarrow> steady E t u (decodeSubframeT restoreFixed restoreLPC inRange n bps)"
  unfolding decodeSubframeT_def Let_def
  by (intro steady_bind [OF steady_ReadBits] steady_if steady_fail steady_bind [OF steady_readWastedBits]
      steady_bind [OF steady_decodeBody] steady_ret) auto

lemma steady_decodeIndependent: "bitsPerSample hdr \<le> 32 \<Longrightarrow> steady E t u (decodeIndependent hdr)"
  unfolding decodeIndependent_def decodeSubframe_def decodeSubframe64_def Let_def
  by (intro steady_readN steady_if steady_deferR steady_bind [OF steady_decodeSubframeT] steady_decodeSubframeT steady_ret) auto

lemma steady_decodePair:
  "steady E t u (decode n wa) \<Longrightarrow> steady E t u (decode n wb) \<Longrightarrow> steady E t u (decodePair decode n wa wb)"
  unfolding decodePair_def decodeDeferred_def
  by (rule steady_bind [OF steady_deferR], assumption, rule steady_bind [OF steady_deferR], assumption, rule steady_ret)

lemma steady_decodeChannels:
  assumes "valid_header hdr"
  shows "steady E t u (decodeChannels hdr)"
proof -
  have b: "bitsPerSample hdr \<le> 32" using assms by (simp add: valid_header_def)
  have "steady E t u (decodeStereoDecorrelated hdr)"
    unfolding decodeStereoDecorrelated_def decodeSubframe_def decodeSubframe64_def Let_def case_prod_beta
    using b by (intro steady_if steady_bind [OF steady_decodePair] steady_decodeSubframeT steady_ret) auto
  then show ?thesis
    unfolding decodeChannels_def by (intro steady_if steady_bind [OF steady_decodeIndependent [OF b]] steady_bind steady_ret)
qed

lemma steady_readContinuation: "steady E t u (readContinuation n v)"
  by (induction n arbitrary: v) (auto intro!: steady_bind [OF steady_ReadBits])

lemma steady_readHeaderFields: "steady E t u (readHeaderFields si)"
proof -
  have "steady E t u readCodedNumber"
    unfolding readCodedNumber_def
    by (intro steady_bind [OF steady_ReadBits] steady_if steady_ret) (auto intro: steady_readContinuation split: option.split)
  moreover have "steady E t u (decodeBlockSize c)" for c
    unfolding decodeBlockSize_def by (intro steady_if steady_ret steady_fail steady_bind [OF steady_ReadBits]) simp_all
  moreover have "steady E t u (decodeSampleRate c si)" for c
    unfolding decodeSampleRate_def by (intro steady_if steady_ret steady_fail steady_bind [OF steady_ReadBits]) simp_all
  moreover have "steady E t u (decodeBitsPerSample c si)" for c
    unfolding decodeBitsPerSample_def by (intro steady_if steady_ret steady_fail)
  ultimately show ?thesis
    unfolding readHeaderFields_def
    by (intro steady_bind [OF steady_ReadBits] steady_if steady_fail steady_bind steady_ret) simp_all
qed

text \<open>The checksums come out of the tap's state, which is the same at the same place.\<close>

lemma steady_tapState: "steady E (Some f) u (getsR (\<lambda>rd. g (rd_tapSt rd)))"
  by (auto simp: steady_def getsR_def prefixOf_def vtap_def)

lemma steady_readHeaderBody: "steady E (Some f) u (readHeaderBody c8 si)"
  unfolding readHeaderBody_def
  by (intro steady_bind [OF steady_ReadBits] steady_if steady_fail steady_cut steady_bind [OF steady_readHeaderFields]
      steady_bind [OF steady_tapState] steady_ret) simp_all

lemma steady_decodeFrameEnd: "steady E None (Some TapBytes) (decodeFrameEnd cs hdr chans)"
proof (rule steadyI)
  fix X and rd rd2 :: "frameCRC reader" assume p: "prefixOf E None (Some TapBytes) X rd rd2"
  let ?f = "\<lambda>rd. FlushTap (SkipToByteBoundary rd)"
  have o: "roff rd2 = roff rd" using p by (simp add: prefixOf_def)
  have t: "wf_reader rd" "rd_tap rd = None" "rd_rtap rd = Some TapBytes" "wf_reader rd2" "rd_tap rd2 = None" "rd_rtap rd2 = Some TapBytes"
    using p by (simp_all add: prefixOf_def)
  have st: "rd_tapSt (?f r) = vtap (?f r)" if "wf_reader r" "rd_tap r = None" "rd_rtap r = Some TapBytes" for r :: "frameCRC reader"
  proof -
    have s: "wf_reader (SkipToByteBoundary r)" "rd_tap (SkipToByteBoundary r) = None" "rd_rtap (SkipToByteBoundary r) = Some TapBytes"
      using SkipToByteBoundary_ok [OF that(1)] that(2,3) by (simp_all add: advance_def)
    note fl = advance_FlushTap(1) [OF s(1)]
    have "vtap (?f r) = vtap (SkipToByteBoundary r)"
      using fl tapf_laws(1) [OF s(1)] roff_less [of "SkipToByteBoundary r"] by (simp add: advance_def)
    then show ?thesis using FlushTap_vtap [OF s] by simp
  qed
  have q: "prefixOf E None (Some TapBytes) X (?f rd) (?f rd2)"
    using prefixOf_advance [OF p advance_skip_flush(1) [OF t(1-3)] advance_skip_flush(1) [OF t(4-6), unfolded o]] .
  have e: "rd_tapSt (?f rd2) = rd_tapSt (?f rd)" using q st [OF t(1-3)] st [OF t(4-6)] by (simp add: prefixOf_def)
  have "steady E None (Some TapBytes) (ReadBits 16 :: (u64, frameCRC) rm)" by (rule steady_ReadBits) simp
  moreover obtain r rd3 where R: "ReadBits 16 (?f rd) = (r, rd3)" by fastforce
  ultimately show "(\<exists>e. fst (decodeFrameEnd cs hdr chans rd) = Inl e \<and> cutAt E e)
    \<or> fst (decodeFrameEnd cs hdr chans rd2) = fst (decodeFrameEnd cs hdr chans rd)
      \<and> prefixOf E None (Some TapBytes) X (snd (decodeFrameEnd cs hdr chans rd)) (snd (decodeFrameEnd cs hdr chans rd2))"
    using q by (elim steadyD) (auto simp: decodeFrameEnd_def Let_def e split: sum.split)
qed

lemma steady_decodeFrameBody: "valid_header hdr \<Longrightarrow> steady E None (Some TapBytes) (decodeFrameBody cs hdr)"
  unfolding decodeFrameBody_end by (intro steady_bind [OF steady_decodeChannels] steady_decodeFrameEnd)

section \<open>Frames\<close>

lemma Decode_prefix:
  assumes rd: "wf_reader rd" "roff rd = 0" "rend rd = E" "\<not> internalErr E" and rd2: "wf_reader rd2" "roff rd2 = 0" "rbytes rd2 = rbytes rd @ X"
    and si: "valid_info si" and D: "Decode cs si rd = (r, rd')"
  shows "(\<exists>e. r = Inl e \<and> cutAt E e) \<or> (\<exists>rd2'. Decode cs si rd2 = (r, rd2') \<and> rbytes rd2' = rbytes rd' @ X)"
proof -
  let ?set = "SetTapper (Some (TapByte, Some TapBytes, fcReset)) :: frameCRC reader \<Rightarrow> frameCRC reader"
  have s: "wf_reader (?set r)" "same_place r (?set r)" "vtap (?set r) = fcReset" "rd_tap (?set r) = Some TapByte" "rd_rtap (?set r) = Some TapBytes"
    if "wf_reader r" for r
    using SetTapper_Some [OF that, of "Some TapBytes" TapByte fcReset] range_tap_TapBytes by simp_all
  have p0: "prefixOf E (Some TapByte) (Some TapBytes) X (?set rd) (?set rd2)"
    using s [OF rd(1)] s [OF rd2(1)] rd rd2 by (simp add: prefixOf_def same_place_def)
  have none: "rbytes (SetTapper None r) = rbytes r" if "wf_reader r" for r :: "frameCRC reader"
    using SetTapper_None(2) [OF that] by (simp add: same_place_def)
  obtain h rd1 where H: "readHeaderBody fc_c8 si (?set rd) = (h, rd1)" by fastforce
  from steady_readHeaderBody p0 H show ?thesis
  proof (cases rule: steadyD)
    case (1 e)
    then show ?thesis using D H by (auto simp: Decode_def)
  next
    case (2 rd21)
    note w = prefixOf_wf [OF 2(2)]
    show ?thesis
    proof (cases h)
      case (Inl e)
      then show ?thesis using D H 2 none [OF w(1)] none [OF w(2)] by (auto simp: Decode_def prefixOf_def)
    next
      case (Inr hdr)
      have v: "valid_header hdr" using runsD(2) [OF runs_readHeaderBody [OF si] prefixOf_wf(1) [OF p0] H Inr] .
      have sw: "wf_reader (SwitchTapToDeferred r)" "same_place r (SwitchTapToDeferred r)" "vtap (SwitchTapToDeferred r) = vtap r"
        "rd_tap (SwitchTapToDeferred r) = None" "rd_rtap (SwitchTapToDeferred r) = Some TapBytes"
        if "wf_reader r" "rd_tap r = Some TapByte" "rd_rtap r = Some TapBytes" for r :: "frameCRC reader"
        using SwitchTapToDeferred_ok [OF that] by simp_all
      have "prefixOf E None (Some TapBytes) X (SwitchTapToDeferred rd1) (SwitchTapToDeferred rd21)"
        using 2(2) sw [of rd1] sw [of rd21] w by (simp add: prefixOf_def same_place_def)
      moreover obtain y rd3 where B: "mapErrR noEOF (decodeFrameBody cs hdr) (SwitchTapToDeferred rd1) = (y, rd3)" by fastforce
      moreover have "steady E None (Some TapBytes) (mapErrR noEOF (decodeFrameBody cs hdr))" by (rule steady_cut [OF steady_decodeFrameBody [OF v]])
      ultimately show ?thesis
      proof (elim steadyD)
        fix e assume "y = Inl e" "cutAt E e"
        moreover have "r = y" using D H Inr B by (simp add: Decode_def)
        ultimately show ?thesis by blast
      next
        fix rd23 assume f: "mapErrR noEOF (decodeFrameBody cs hdr) (SwitchTapToDeferred rd21) = (y, rd23)"
          "prefixOf E None (Some TapBytes) X rd3 rd23"
        then show ?thesis
          using D H Inr B 2(1) none [OF prefixOf_wf(1) [OF f(2)]] none [OF prefixOf_wf(2) [OF f(2)]] by (simp add: Decode_def prefixOf_def)
      qed
    qed
  qed
qed

text \<open>A proper prefix of a frame.\<close>

lemma decodes_cut:
  assumes F: "decodes cs si (p @ X) f" "p \<noteq> []" "X \<noteq> []" "valid_info si"
    and rd: "wf_reader rd" "roff rd = 0" "rend rd = EOF" "rbytes rd = p"
  shows "fst (Decode cs si rd) = Inl ErrUnexpectedEOF"
proof -
  obtain r rd' where D: "Decode cs si rd = (r, rd')" by fastforce
  define z :: "frameCRC reader" where "z = NewReader (bytesReader (p @ X)) fcReset"
  have z: "wf_reader z" "roff z = 0" "rbytes z = rbytes rd @ X" unfolding z_def by (simp_all add: NewReader_ok rd(4))
  obtain z' where Z: "Decode cs si z = (Inr f, z')" "resumed (length (p @ X)) z z'"
    using decodesD [OF F(1) z(1,2), of "[]"] z(3) rd(4) by auto
  have over: "rbytes z' = []" using Z(2) z(3) rd(4) by (simp add: resumed_def)
  from Decode_prefix [OF rd(1-3) EOF_external z F(4) D] have "\<exists>e. r = Inl e \<and> cutErr e" using Z(1) over F(3) by (auto simp: cutAt_def)
  then obtain e where e: "r = Inl e" "cutErr e" by blast
  have "rbits rd \<noteq> []" using aligned_length [OF rd(2)] rd(4) F(2) by auto
  then have "r \<noteq> Inl EOF" using Decode_EOF [OF rd(1), of cs si] D by simp
  then show ?thesis using e D by (auto simp: cutErr_def)
qed

text \<open>A frame found in a window is the frame at that place of the whole input.\<close>

lemma Decode_window:
  assumes D: "Decode cs si rd = (Inr f, rd')" and rd: "wf_reader rd" "roff rd = 0" "\<not> internalErr (rend rd)"
    and rd2: "wf_reader rd2" "roff rd2 = 0" "rbytes rd2 = rbytes rd @ X" and si: "valid_info si"
  shows "fst (Decode cs si rd2) = Inr f"
  using Decode_prefix [OF rd(1,2) refl rd(3) rd2 si D] by auto

lemma Reset_reusable:
  assumes "reusable rd" "data \<noteq> []"
  shows "wf_reader (Reset (bytesReader data) rd)" "rbytes (Reset (bytesReader data) rd) = data"
    "roff (Reset (bytesReader data) rd) = 0" "rend (Reset (bytesReader data) rd) = EOF"
    "rpos (Reset (bytesReader data) rd) = 0" "rd_basePos (Reset (bytesReader data) rd) = 0"
  using Reset_bytes [OF assms] by simp_all

lemma findFrom_decodes:
  assumes "findFrom cs si i data rd = ((start, n, FrameFound, fo), rd')" "reusable rd" "valid_info si"
    and "wf_reader rd2" "roff rd2 = 0" "rbytes rd2 = drop (start - i) data @ X"
  shows "\<exists>f rd2'. fo = Some f \<and> Decode cs si rd2 = (Inr f, rd2') \<and> length (rbytes rd2) = n + length (rbytes rd2')
    \<and> 1 < length (drop (start - i) data) \<and> i \<le> start"
  using assms
proof (induction cs si i data rd rule: findFrom.induct)
  case (1 cs si i a b data rd)
  define r0 where "r0 = Reset (bytesReader (a # b # data)) rd"
  obtain r rd1 where D: "Decode cs si r0 = (r, rd1)" by fastforce
  note R = Reset_reusable [OF "1.prems"(2), of "a # b # data", folded r0_def, simplified]
  have w: "reusable rd1" using Decode_wf [OF R(1) "1.prems"(3), of cs] by (simp add: D reusable_wf)
  have later: ?case if f: "findFrom cs si (i + 1) (b # data) rd1' = ((start, n, FrameFound, fo), rd')" "reusable rd1'"
    and IH: "findFrom cs si (i + 1) (b # data) rd1' = ((start, n, FrameFound, fo), rd') \<Longrightarrow> reusable rd1' \<Longrightarrow> valid_info si
      \<Longrightarrow> wf_reader rd2 \<Longrightarrow> roff rd2 = 0 \<Longrightarrow> rbytes rd2 = drop (start - (i + 1)) (b # data) @ X
      \<Longrightarrow> \<exists>f rd2'. fo = Some f \<and> Decode cs si rd2 = (Inr f, rd2') \<and> length (rbytes rd2) = n + length (rbytes rd2')
        \<and> 1 < length (drop (start - (i + 1)) (b # data)) \<and> i + 1 \<le> start" for rd1'
  proof -
    have "i + 1 \<le> start" using findFrom_found [OF f "1.prems"(3)] by blast
    then have "start - i = Suc (start - (i + 1))" by simp
    then have "drop (start - i) (a # b # data) = drop (start - (i + 1)) (b # data)" by (simp only: drop_Suc_Cons)
    then show ?thesis using IH [OF f "1.prems"(3-5)] "1.prems"(6) by auto
  qed
  show ?case
  proof (cases "syncAt a b")
    case False
    then show ?thesis using later [of rd] "1.prems"(1,2) "1.IH"(1) by simp
  next
    case True
    show ?thesis
    proof (cases r)
      case (Inr f)
      then have e: "start = i" "fo = Some f" "n = BytesRead rd1" using "1.prems"(1) True D by (auto simp flip: r0_def)
      have x: "rbytes rd2 = rbytes r0 @ X" using "1.prems"(6) e(1) R(2) by simp
      from Decode_prefix [OF R(1,3,4) EOF_external "1.prems"(4,5) x "1.prems"(3) D [unfolded Inr]] obtain rd2' where
        2: "Decode cs si rd2 = (Inr f, rd2')" "rbytes rd2' = rbytes rd1 @ X" by auto
      obtain bytes where B: "rbytes r0 = bytes @ be16 (cs bytes) @ rbytes rd1" "resumed (length bytes + 2) r0 rd1"
        using Decode_accepts(2) [OF D [unfolded Inr] R(1,3) "1.prems"(3)] by blast
      have "BytesRead rd1 = length bytes + 2" using B(2) R(5,6) by (simp add: BytesRead_rpos resumed_def)
      moreover have "length (rbytes r0) = length bytes + 2 + length (rbytes rd1)" by (subst B(1)) (simp add: be16_def)
      ultimately have "length (rbytes rd2) = n + length (rbytes rd2')" using e(3) x 2(2) by simp
      then show ?thesis using 2(1) e R(2) by auto
    next
      case (Inl x)
      then have x: "x \<noteq> ErrUnexpectedEOF" and g: "findFrom cs si (i + 1) (b # data) rd1 = ((start, n, FrameFound, fo), rd')"
        using "1.prems"(1) True D by (auto simp flip: r0_def split: if_splits)
      show ?thesis by (rule later [OF g w]) (rule "1.IH"(2) [OF _ D [unfolded r0_def, symmetric, unfolded Inl] refl x], use True in auto)
    qed
  qed
qed simp_all

text \<open>A window that cuts a frame off behind its sync code reports it.\<close>

lemma findFrom_cut:
  assumes F: "decodes cs si (p @ X) f" "take 2 p = [0xFF, 0xF8]" "X \<noteq> []" "valid_info si" and rd: "reusable rd"
  shows "\<exists>rd'. findFrom cs si i p rd = ((i, 0, FrameTruncated, None), rd') \<and> reusable rd'"
proof -
  have p: "p = 0xFF # 0xF8 # drop 2 p" using F(2) append_take_drop_id [of 2 p] by simp
  then have ne: "p \<noteq> []" by auto
  note R = Reset_reusable [OF rd ne]
  obtain r rd' where D: "Decode cs si (Reset (bytesReader p) rd) = (r, rd')" by fastforce
  have "r = Inl ErrUnexpectedEOF" using decodes_cut [OF F(1) ne F(3,4) R(1,3,4,2)] D by simp
  moreover have "reusable rd'" using Decode_wf [OF R(1) F(4), of cs] D by (simp add: reusable_wf)
  ultimately show ?thesis using D by (subst p, subst (asm) (2) p) (simp add: syncAt_def)
qed

end
