(* ===== verification/Meta_Prefix.thy ===== *)
theory Meta_Prefix
  imports Meta Frame_Prefix
begin

text \<open>
  The metadata section cut off (\<^verbatim>\<open>src/internal/meta\<close> on a prefix of its input): every reader of
  \<open>readMetadata\<close> does the same when more input follows, so each proper prefix of a section that
  is accepted ends with \<open>io.ErrUnexpectedEOF\<close>; and a section that is accepted is a whole number
  of bytes.
\<close>

section \<open>The readers of a section on a longer input\<close>

lemma steady_readByte: "steady E t u readByte"
  unfolding readByte_def by (intro steady_bind [OF steady_ReadBits] steady_ret) simp

lemma steady_readBytes: "steady E t u (readBytes n)"
  unfolding readBytes_def by (intro steady_cut steady_readN steady_readByte)

lemma steady_skipBytes: "steady E t u (skipBytes n)"
  by (induction n) (auto intro!: steady_bind [OF steady_ReadBits])

lemma steady_skipID3v2AndMagic: "steady E t u skipID3v2AndMagic"
  unfolding skipID3v2AndMagic_def
  by (intro steady_bind [OF steady_readBytes] steady_bind [OF steady_skipBytes] steady_bind steady_if steady_readBytes
      steady_ret steady_fail)

lemma steady_readStreamInfo: "steady E t u readStreamInfo"
  unfolding readStreamInfo_def
  by (intro steady_bind [OF steady_ReadBits] steady_bind [OF steady_readN [OF steady_readByte]] steady_if steady_ret steady_fail) simp_all

lemma steady_readBlockHeader: "steady E t u readBlockHeader"
  unfolding readBlockHeader_def by (intro steady_bind [OF steady_ReadBits] steady_ret) simp_all

lemma steady_readOneBlock: "steady E t u (readOneBlock first btype len st)"
  unfolding readOneBlock_def case_prod_beta'
  by (intro steady_if steady_fail steady_bind [OF steady_readStreamInfo] steady_bind [OF steady_readBytes]
      steady_bind [OF steady_skipBytes] steady_ret) (auto split: sum.split)

lemma steady_readBlocks: "steady E t u (readBlocks fuel first st)"
proof (induction fuel arbitrary: first st)
  case (Suc fuel)
  show ?case
    unfolding readBlocks.simps case_prod_beta'
    by (intro steady_bind [OF steady_readBlockHeader] steady_bind [OF steady_readOneBlock] steady_if steady_fail steady_ret Suc.IH)
qed auto

text \<open>With the same fuel for both inputs the whole of \<open>readMetadata\<close> is one such reader.\<close>

definition readMetadataWith :: "nat \<Rightarrow> (StreamMeta, 't) rm" where
  "readMetadataWith fuel = bindR skipID3v2AndMagic (\<lambda>_. readBlocks fuel True (False, emptyMeta))"

lemma readMetadata_with:
  assumes "wf_reader rd" "length (rbits rd) < fuel"
  shows "readMetadata rd = readMetadataWith fuel rd"
proof -
  obtain r rd1 where S: "skipID3v2AndMagic rd = (r, rd1)" by fastforce
  from runsD(1) [OF runs_skipID3v2AndMagic assms(1) S] obtain k where k: "advance k rd rd1" by blast
  have "readBlocks (Suc (length (rbits rd1))) True (False, emptyMeta) rd1 = readBlocks fuel True (False, emptyMeta) rd1"
    by (rule readBlocks_fuel [OF advanceD(1) [OF k]]) (use advance_shorter [OF k] assms(2) in simp_all)
  then show ?thesis
    by (auto simp: readMetadata_def readMetadataWith_def bindR_def getsR_def S split: sum.split)
qed

lemma ReadMetadata_prefix:
  assumes p: "prefixOf EOF t u X rd rd2" and R: "ReadMetadata rd = (r, rd')"
  shows "r = Inl ErrUnexpectedEOF \<or> (\<exists>rd2'. ReadMetadata rd2 = (r, rd2') \<and> prefixOf EOF t u X rd' rd2')"
proof -
  define F where "F = Suc (length (rbits rd2))"
  have len: "length (rbits rd) < F" "length (rbits rd2) < F" by (simp_all add: F_def prefixOf_bits [OF p])
  have eq: "ReadMetadata rd = mapErrR noEOF (readMetadataWith F) rd" "ReadMetadata rd2 = mapErrR noEOF (readMetadataWith F) rd2"
    using readMetadata_with [OF prefixOf_wf(1) [OF p] len(1)] readMetadata_with [OF prefixOf_wf(2) [OF p] len(2)]
    by (simp_all add: ReadMetadata_def mapErrR_def)
  have "steady EOF t u (mapErrR noEOF (readMetadataWith F))"
    unfolding readMetadataWith_def by (intro steady_cut steady_bind [OF steady_skipID3v2AndMagic] steady_readBlocks)
  from this p R [unfolded eq(1)] show ?thesis
  proof (cases rule: steadyD)
    case (1 e)
    then show ?thesis using ReadMetadata_not_EOF [of rd] R by (auto simp: cutAt_def cutErr_def internalErr_def)
  next
    case (2 rd2')
    then show ?thesis using eq(2) by simp
  qed
qed

section \<open>A section is a whole number of bytes\<close>

definition takesBits :: "nat \<Rightarrow> ('a, 't) rm \<Rightarrow> bool" where
  "takesBits c m \<longleftrightarrow> (\<forall>rd x rd'. wf_reader rd \<longrightarrow> m rd = (Inr x, rd') \<longrightarrow> (\<exists>k. k mod 8 = c mod 8 \<and> advance k rd rd'))"

lemma takesBits_ret: "takesBits 0 (retR x)"
  by (auto simp: takesBits_def retR_def intro: exI [of _ 0] advance_refl)

lemma takesBits_fail: "takesBits c (failR e)"
  by (simp add: takesBits_def failR_def)

lemma takesBits_if: "(b \<Longrightarrow> takesBits c m) \<Longrightarrow> (\<not> b \<Longrightarrow> takesBits c m') \<Longrightarrow> takesBits c (if b then m else m')"
  by simp

lemma takesBits_ReadBits: "n \<le> 57 \<Longrightarrow> takesBits n (ReadBits n)"
  unfolding takesBits_def
proof (intro allI impI)
  fix rd :: "'a reader" and x rd' assume n: "n \<le> 57" and wf: "wf_reader rd" and R: "ReadBits n rd = (Inr x, rd')"
  have "reads_bits n rd (Inr x, rd')" using ReadBits_reads(1) [OF wf servable_small [OF n]] R by simp
  then show "\<exists>k. k mod 8 = n mod 8 \<and> advance k rd rd'" by (auto simp: reads_bits_def split: if_splits)
qed

lemma takesBits_bind:
  assumes m: "takesBits a m" and f: "\<And>x. takesBits b (f x)"
  shows "takesBits (a + b) (bindR m f)"
  unfolding takesBits_def
proof (intro allI impI)
  fix rd y rd2 assume wf: "wf_reader rd" and B: "bindR m f rd = (Inr y, rd2)"
  obtain x rd1 where x: "m rd = (Inr x, rd1)" "f x rd1 = (Inr y, rd2)"
    using B by (auto simp: bindR_def split: prod.splits sum.splits)
  obtain k where k: "k mod 8 = a mod 8" "advance k rd rd1" using m wf x(1) unfolding takesBits_def by blast
  obtain l where l: "l mod 8 = b mod 8" "advance l rd1 rd2" using f x(2) advanceD(1) [OF k(2)] unfolding takesBits_def by blast
  have "(k + l) mod 8 = (a + b) mod 8" using k(1) l(1) by (metis mod_add_eq)
  then show "\<exists>k. k mod 8 = (a + b) mod 8 \<and> advance k rd rd2" using advance_trans [OF wf k(2) l(2)] by blast
qed

lemma takesBits_bytes: "takesBits 0 m \<Longrightarrow> (\<And>x. takesBits 0 (f x)) \<Longrightarrow> takesBits 0 (bindR m f)"
  using takesBits_bind [of 0 m 0 f] by simp

lemma takesBits_mod: "takesBits a m \<Longrightarrow> a mod 8 = c mod 8 \<Longrightarrow> takesBits c m"
  by (simp add: takesBits_def)

lemma takesBits_mapErr: "takesBits c m \<Longrightarrow> takesBits c (mapErrR g m)"
  by (auto simp: takesBits_def mapErrR_def split: prod.splits sum.splits)

lemma takesBits_readN: "takesBits 0 m \<Longrightarrow> takesBits 0 (readN n m)"
  by (induction n) (auto intro!: takesBits_bytes takesBits_ret)

lemma takesBits_byte: "takesBits 0 (ReadBits 8)"
  by (rule takesBits_mod [OF takesBits_ReadBits]) simp_all

lemma takesBits_readBytes: "takesBits 0 (readBytes n)"
  unfolding readBytes_def readByte_def by (intro takesBits_mapErr takesBits_readN takesBits_bytes [OF takesBits_byte] takesBits_ret)

lemma takesBits_skipBytes: "takesBits 0 (skipBytes n)"
  by (induction n) (auto intro!: takesBits_bytes [OF takesBits_byte] takesBits_ret)

lemma takesBits_readStreamInfo: "takesBits 0 readStreamInfo"
proof -
  have "takesBits 0 (readN 16 readByte)"
    unfolding readByte_def by (intro takesBits_readN takesBits_bytes [OF takesBits_byte] takesBits_ret)
  then have "takesBits (16 + (16 + (24 + (24 + (20 + (3 + (5 + (36 + 0)))))))) readStreamInfo"
    unfolding readStreamInfo_def
    by (intro takesBits_bind [OF takesBits_ReadBits] takesBits_if takesBits_fail takesBits_bytes takesBits_ret) simp_all
  then show ?thesis by (rule takesBits_mod) simp
qed

lemma takesBits_readBlockHeader: "takesBits 0 readBlockHeader"
proof -
  have "takesBits (1 + (7 + (24 + 0))) readBlockHeader"
    unfolding readBlockHeader_def by (intro takesBits_bind [OF takesBits_ReadBits] takesBits_ret) simp_all
  then show ?thesis by (rule takesBits_mod) simp
qed

lemma takesBits_readBlocks: "takesBits 0 (readBlocks fuel first st)"
proof (induction fuel arbitrary: first st)
  case (Suc fuel)
  have "takesBits 0 (readOneBlock first btype len st)" for btype len
    unfolding readOneBlock_def case_prod_beta'
    by (intro takesBits_if takesBits_fail takesBits_bytes [OF takesBits_readStreamInfo] takesBits_bytes [OF takesBits_readBytes]
        takesBits_bytes [OF takesBits_skipBytes] takesBits_ret) (auto intro: takesBits_ret takesBits_fail split: sum.split)
  then show ?case
    unfolding readBlocks.simps case_prod_beta'
    by (intro takesBits_bytes [OF takesBits_readBlockHeader] takesBits_bytes takesBits_if takesBits_fail takesBits_ret Suc.IH)
qed (simp add: takesBits_fail)

lemma takesBits_readMetadataWith: "takesBits 0 (readMetadataWith fuel)"
  unfolding readMetadataWith_def skipID3v2AndMagic_def
  by (intro takesBits_bytes takesBits_readBytes takesBits_skipBytes takesBits_if takesBits_fail takesBits_ret takesBits_readBlocks)

section \<open>Sections cut off\<close>

lemma ReadMetadata_section:
  assumes R: "ReadMetadata rd = (Inr sm, rd')" and rd: "wf_reader rd" "roff rd = 0"
  shows "roff rd' = 0" "\<exists>sec. rbytes rd = sec @ rbytes rd'"
proof -
  have "readMetadataWith (Suc (length (rbits rd))) rd = (Inr sm, rd')"
    using R readMetadata_with [OF rd(1), of "Suc (length (rbits rd))"]
    by (auto simp: ReadMetadata_def mapErrR_def split: prod.splits sum.splits)
  then obtain k where k: "k mod 8 = 0" "advance k rd rd'"
    using takesBits_readMetadataWith rd(1) unfolding takesBits_def by fastforce
  show "roff rd' = 0" using k rd(2) by (simp add: advance_def)
  have "rbytes rd' = drop (k div 8) (rbytes rd)" using k(2) rd(2) by (simp add: advance_def)
  then show "\<exists>sec. rbytes rd = sec @ rbytes rd'" by (metis append_take_drop_id)
qed

lemma ReadMetadata_cut:
  assumes R: "ReadMetadata (NewReader src t) = (Inr sm, rd')" and sec: "fst (src_bytes 0 src) = p @ X @ rbytes rd'" "X \<noteq> []"
    and cut: "src_bytes 0 src2 = (p, EOF)"
  shows "fst (ReadMetadata (NewReader src2 t)) = Inl ErrUnexpectedEOF"
proof -
  have tap: "rd_tap (NewReader s t) = None" "rd_rtap (NewReader s t) = None" "vtap (NewReader s t) = t" for s
    by (simp_all add: NewReader_def NewReaderSize_def fresh_reader_def vtap_def tapf_def)
  have p: "prefixOf EOF None None (X @ rbytes rd') (NewReader src2 t) (NewReader src t)"
    using sec(1) cut by (simp add: prefixOf_def NewReader_ok tap)
  obtain r rd2 where R2: "ReadMetadata (NewReader src2 t) = (r, rd2)" by fastforce
  from ReadMetadata_prefix [OF p R2] show ?thesis
  proof
    assume "\<exists>rd2'. ReadMetadata (NewReader src t) = (r, rd2') \<and> prefixOf EOF None None (X @ rbytes rd') rd2 rd2'"
    then have "rbytes rd' = rbytes rd2 @ X @ rbytes rd'" using R by (auto simp: prefixOf_def)
    then have "length (rbytes rd') = length (rbytes rd2) + length X + length (rbytes rd')" by (metis length_append add.assoc)
    then show ?thesis using sec(2) by simp
  qed (simp add: R2)
qed

end
