(* ===== verification/Pcm_Config.thy ===== *)
theory Pcm_Config
  imports Meta Subframe_Encode
begin

text \<open>
  What the encoders of package \<open>pcm\<close> share: \<open>Config\<close> and its validation, the parameters of a
  compression level, the VORBIS_COMMENT block with the checks on tags (\<open>pcm/encoder.go\<close>,
  \<open>pcm/pcm.go\<close>), the block size advertised up front and the running bounds of block and frame
  sizes. Go strings are byte lists.
\<close>

section \<open>Configuration\<close>

record Tag =
  tg_Name :: "u8 list"
  tg_Value :: "u8 list"

record Config =
  cf_SampleRate :: int
  cf_BitDepth :: int
  cf_Channels :: int
  cf_CompressionLevel :: int
  cf_SeekTableInterval :: int
  cf_SeekTableMaxPoints :: int
  cf_TotalSamples :: u64
  cf_SkipMD5 :: bool
  cf_Tags :: "Tag list"
  cf_Vendor :: "u8 list"

definition encoderBlockSize :: nat where "encoderBlockSize = 4096"
definition maxTotalSamples :: u64 where "maxTotalSamples = push_bit 36 1 - 1"
definition MaxSampleRate :: int where "MaxSampleRate = 655350"
definition minStreamInfoBlockSize :: nat where "minStreamInfoBlockSize = 16"

definition validateConfig :: "Config \<Rightarrow> err option" where
  "validateConfig cfg =
     (if cf_SampleRate cfg \<le> 0 \<or> cf_SampleRate cfg > MaxSampleRate \<or> cf_Channels cfg < 1 \<or> cf_Channels cfg > 8 then Some ErrUsage
      else if cf_BitDepth cfg < 4 \<or> cf_BitDepth cfg > 32 then Some ErrUsage
      else if cf_TotalSamples cfg > maxTotalSamples then Some ErrUsage
      else None)"

definition upfrontBlockSize :: "bool \<Rightarrow> Config \<Rightarrow> nat" where
  "upfrontBlockSize seekable cfg =
     (if seekable then 0
      else let blk = encoderBlockSize;
               blk = (if cf_TotalSamples cfg > 0 then unat (min (cf_TotalSamples cfg) (of_nat encoderBlockSize)) else blk)
           in max blk minStreamInfoBlockSize)"

definition paramsForLevel :: "int \<Rightarrow> Params" where
  "paramsForLevel level =
     (let level = (if level < 0 then 0 else level);
          level = (if level > 8 then 8 else level);
          table = [(StereoIndependent, 3, False, 0, 0), (StereoAdaptive, 3, False, 0, 0), (StereoFull, 3, False, 0, 0),
                   (StereoFull, 4, False, 6, 15), (StereoFull, 4, False, 8, 15), (StereoFull, 5, False, 8, 15),
                   (StereoFull, 6, False, 8, 15), (StereoFull, 6, False, 12, 15), (StereoFull, 6, False, 12, 15)]
      in case table ! nat level of (stereo, maxPart, exFixed, maxLPC, prec) \<Rightarrow>
           \<lparr>p_Stereo = stereo, p_MaxPartitionOrder = maxPart, p_ExhaustiveFixed = exFixed, p_MaxLPCOrder = maxLPC,
            p_LPCPrecision = prec, p_Apodization = ApodTukey05\<rparr>)"

text \<open>\<open>bytesPS\<close> and the STREAMINFO of the constructors.\<close>

definition cfgBytesPS :: "Config \<Rightarrow> nat" where
  "cfgBytesPS cfg = nat ((cf_BitDepth cfg + 7) div 8)"

definition cfgInfo :: "Config \<Rightarrow> StreamInfo" where
  "cfgInfo cfg =
     \<lparr>si_SampleRate = nat (cf_SampleRate cfg), si_Channels = nat (cf_Channels cfg), si_BitDepth = nat (cf_BitDepth cfg),
      si_TotalSamples = cf_TotalSamples cfg, si_MD5 = replicate 16 0\<rparr>"

section \<open>UTF-8\<close>

text \<open>
  \<open>utf8.DecodeRune\<close>: the rune at the start of a string and its width; an invalid encoding is the
  replacement character of width 1.
\<close>

definition runeError :: nat where "runeError = 0xFFFD"

definition continuation :: "nat \<Rightarrow> bool" where
  "continuation b \<longleftrightarrow> 0x80 \<le> b \<and> b \<le> 0xBF"

fun decodeRune :: "nat list \<Rightarrow> nat \<times> nat" where
  "decodeRune [] = (runeError, 0)"
| "decodeRune (b0 # r) =
     (if b0 < 0x80 then (b0, 1)
      else if 0xC2 \<le> b0 \<and> b0 \<le> 0xDF then
        (case r of
           b1 # _ \<Rightarrow> if continuation b1 then ((b0 mod 32) * 64 + b1 mod 64, 2) else (runeError, 1)
         | [] \<Rightarrow> (runeError, 1))
      else if 0xE0 \<le> b0 \<and> b0 \<le> 0xEF then
        (case r of
           b1 # b2 # _ \<Rightarrow>
             if (if b0 = 0xE0 then 0xA0 else 0x80) \<le> b1 \<and> b1 \<le> (if b0 = 0xED then 0x9F else 0xBF) \<and> continuation b2
             then ((b0 mod 16) * 4096 + (b1 mod 64) * 64 + b2 mod 64, 3) else (runeError, 1)
         | _ \<Rightarrow> (runeError, 1))
      else if 0xF0 \<le> b0 \<and> b0 \<le> 0xF4 then
        (case r of
           b1 # b2 # b3 # _ \<Rightarrow>
             if (if b0 = 0xF0 then 0x90 else 0x80) \<le> b1 \<and> b1 \<le> (if b0 = 0xF4 then 0x8F else 0xBF) \<and> continuation b2 \<and> continuation b3
             then ((b0 mod 8) * 262144 + (b1 mod 64) * 4096 + (b2 mod 64) * 64 + b3 mod 64, 4) else (runeError, 1)
         | _ \<Rightarrow> (runeError, 1))
      else (runeError, 1))"

function runes :: "u8 list \<Rightarrow> (nat \<times> nat) list" where
  "runes s = (if s = [] then [] else let (c, width) = decodeRune (map unat s) in (c, width) # runes (drop (max 1 width) s))"
  by pat_completeness auto
termination by (relation "measure length") auto

declare runes.simps [simp del]

definition validString :: "u8 list \<Rightarrow> bool" where
  "validString s = list_all (\<lambda>(c, width). \<not> (c = runeError \<and> width = 1)) (runes s)"

section \<open>Tags\<close>

definition defaultVendor :: "u8 list" where
  "defaultVendor = [0x67, 0x6F, 0x2D, 0x66, 0x6C, 0x61, 0x63, 0x20, 0x31, 0x2E, 0x34, 0x2E, 0x30]"

definition wantVorbisComment :: "Config \<Rightarrow> bool" where
  "wantVorbisComment cfg \<longleftrightarrow> length (cf_Tags cfg) > 0 \<or> cf_Vendor cfg \<noteq> []"

definition validateTagName :: "u8 list \<Rightarrow> err option" where
  "validateTagName name =
     (if name = [] then Some ErrUsage
      else if list_ex (\<lambda>(c, width). c < 0x20 \<or> c > 0x7D \<or> c = 0x3D) (runes name) then Some ErrUsage
      else None)"

fun tagComments :: "Tag list \<Rightarrow> err + u8 list list" where
  "tagComments [] = Inr []"
| "tagComments (t # ts) =
     (case validateTagName (tg_Name t) of
        Some e \<Rightarrow> Inl e
      | None \<Rightarrow>
          if \<not> validString (tg_Value t) then Inl ErrUsage
          else (case tagComments ts of
                  Inl e \<Rightarrow> Inl e
                | Inr cs \<Rightarrow> Inr ((tg_Name t @ [0x3D] @ tg_Value t) # cs)))"

definition commentVendor :: "Config \<Rightarrow> u8 list" where
  "commentVendor cfg = (if cf_Vendor cfg = [] then defaultVendor else cf_Vendor cfg)"

definition commentSize :: "u8 list \<Rightarrow> u8 list list \<Rightarrow> nat" where
  "commentSize vendor comments = 4 + length vendor + 4 + sum_list (map (\<lambda>c. 4 + length c) comments)"

definition buildVorbisComment :: "Config \<Rightarrow> err + u8 list" where
  "buildVorbisComment cfg =
     (let vendor = commentVendor cfg
      in if \<not> validString vendor then Inl ErrUsage
         else case tagComments (cf_Tags cfg) of
                Inl e \<Rightarrow> Inl e
              | Inr comments \<Rightarrow>
                  if commentSize vendor comments > MaxMetadataBodyLen then Inl ErrUsage
                  else Inr (EncodeVorbisComment vendor comments))"

text \<open>\<open>strings.Cut\<close> at the first \<open>=\<close>, as \<open>Decoder.Tags\<close> does for each comment.\<close>

definition cutTag :: "u8 list \<Rightarrow> Tag" where
  "cutTag c =
     \<lparr>tg_Name = takeWhile (\<lambda>b. b \<noteq> 0x3D) c, tg_Value = drop 1 (dropWhile (\<lambda>b. b \<noteq> 0x3D) c)\<rparr>"

section \<open>Running size bounds\<close>

record frameSizes =
  fz_wrote :: bool
  fz_minBlock :: nat
  fz_maxBlock :: nat
  fz_minFrame :: nat
  fz_maxFrame :: nat

definition noSizes :: frameSizes where
  "noSizes = \<lparr>fz_wrote = False, fz_minBlock = 0, fz_maxBlock = 0, fz_minFrame = 0, fz_maxFrame = 0\<rparr>"

definition foldSizes :: "nat \<Rightarrow> nat \<Rightarrow> bool \<Rightarrow> frameSizes \<Rightarrow> frameSizes" where
  "foldSizes sz n final z =
     (if \<not> fz_wrote z then \<lparr>fz_wrote = True, fz_minBlock = n, fz_maxBlock = n, fz_minFrame = sz, fz_maxFrame = sz\<rparr>
      else
        let z = z\<lparr>fz_minFrame := min (fz_minFrame z) sz, fz_maxFrame := max (fz_maxFrame z) sz\<rparr>
        in if \<not> final then z\<lparr>fz_minBlock := min (fz_minBlock z) n, fz_maxBlock := max (fz_maxBlock z) n\<rparr> else z)"

section \<open>What validation guarantees\<close>

lemma validateConfig_None:
  "validateConfig cfg = None \<longleftrightarrow> 0 < cf_SampleRate cfg \<and> cf_SampleRate cfg \<le> MaxSampleRate \<and> 1 \<le> cf_Channels cfg
     \<and> cf_Channels cfg \<le> 8 \<and> 4 \<le> cf_BitDepth cfg \<and> cf_BitDepth cfg \<le> 32 \<and> cf_TotalSamples cfg \<le> maxTotalSamples"
  by (auto simp: validateConfig_def)

lemma unat_maxTotal: "t \<le> maxTotalSamples \<longleftrightarrow> unat t < 2 ^ 36"
  by (auto simp: maxTotalSamples_def word_le_nat_alt)

lemma info_ok_cfgInfo:
  assumes "validateConfig cfg = None"
  shows "info_ok (cfgInfo cfg)"
  using assms by (auto simp: validateConfig_None info_ok_def cfgInfo_def MaxSampleRate_def unat_maxTotal nat_less_iff)

lemma cfgBytesPS_bounds:
  assumes "validateConfig cfg = None"
  shows "1 \<le> cfgBytesPS cfg" "cfgBytesPS cfg \<le> 4" "si_BitDepth (cfgInfo cfg) \<le> 8 * cfgBytesPS cfg"
    "cfgBytesPS cfg = (si_BitDepth (cfgInfo cfg) + 7) div 8"
proof -
  have b: "4 \<le> cf_BitDepth cfg" "cf_BitDepth cfg \<le> 32" using assms by (auto simp: validateConfig_None)
  show e: "cfgBytesPS cfg = (si_BitDepth (cfgInfo cfg) + 7) div 8"
    using b by (simp add: cfgBytesPS_def cfgInfo_def nat_div_distrib nat_add_distrib)
  have rounding: "1 \<le> (d + 7) div 8 \<and> (d + 7) div 8 \<le> 4 \<and> d \<le> 8 * ((d + 7) div 8)" if "4 \<le> d" "d \<le> 32" for d :: nat
    using that by presburger
  have "4 \<le> si_BitDepth (cfgInfo cfg)" "si_BitDepth (cfgInfo cfg) \<le> 32" using b by (simp_all add: cfgInfo_def)
  then show "1 \<le> cfgBytesPS cfg" "cfgBytesPS cfg \<le> 4" "si_BitDepth (cfgInfo cfg) \<le> 8 * cfgBytesPS cfg"
    using rounding unfolding e by simp_all
qed

text \<open>The block size advertised up front is legal and bounds every block that will be written.\<close>

lemma upfrontBlockSize_bounds:
  "16 \<le> upfrontBlockSize False cfg" "upfrontBlockSize False cfg \<le> 4096"
  "n \<le> 4096 \<Longrightarrow> cf_TotalSamples cfg = 0 \<or> n \<le> unat (cf_TotalSamples cfg) \<Longrightarrow> n \<le> upfrontBlockSize False cfg"
proof -
  have "unat (min (cf_TotalSamples cfg) (word_of_nat 4096)) = min (unat (cf_TotalSamples cfg)) 4096"
    by (simp add: min_def word_le_nat_alt)
  then show "16 \<le> upfrontBlockSize False cfg" "upfrontBlockSize False cfg \<le> 4096"
    "n \<le> 4096 \<Longrightarrow> cf_TotalSamples cfg = 0 \<or> n \<le> unat (cf_TotalSamples cfg) \<Longrightarrow> n \<le> upfrontBlockSize False cfg"
    by (auto simp: upfrontBlockSize_def Let_def encoderBlockSize_def minStreamInfoBlockSize_def word_less_nat_alt)
qed

section \<open>Tags come back\<close>

text \<open>A byte that is not ASCII starts no rune below \<open>0x80\<close>: an accepted name is ASCII without \<open>=\<close>.\<close>

lemma lead_bits:
  fixes b :: nat
  shows "0xC2 \<le> b \<Longrightarrow> b \<le> 0xDF \<Longrightarrow> 2 \<le> b mod 32" "0xE0 < b \<Longrightarrow> b \<le> 0xEF \<Longrightarrow> 1 \<le> b mod 16"
    "0xF0 < b \<Longrightarrow> b \<le> 0xF4 \<Longrightarrow> 1 \<le> b mod 8" "0xA0 \<le> b \<Longrightarrow> b \<le> 0xBF \<Longrightarrow> 32 \<le> b mod 64"
    "0x90 \<le> b \<Longrightarrow> b \<le> 0xBF \<Longrightarrow> 16 \<le> b mod 64"
proof -
  have m: "b mod n = b - q" if "q \<le> b" "b - q < n" "n dvd q" for n q
    using that by (intro mod_nat_eqI) simp_all
  show "0xC2 \<le> b \<Longrightarrow> b \<le> 0xDF \<Longrightarrow> 2 \<le> b mod 32" using m [of 192 32] by simp
  show "0xE0 < b \<Longrightarrow> b \<le> 0xEF \<Longrightarrow> 1 \<le> b mod 16" using m [of 224 16] by simp
  show "0xF0 < b \<Longrightarrow> b \<le> 0xF4 \<Longrightarrow> 1 \<le> b mod 8" using m [of 240 8] by simp
  show "0xA0 \<le> b \<Longrightarrow> b \<le> 0xBF \<Longrightarrow> 32 \<le> b mod 64" "0x90 \<le> b \<Longrightarrow> b \<le> 0xBF \<Longrightarrow> 16 \<le> b mod 64"
    using m [of 128 64] by simp_all
qed

lemma decodeRune_ascii:
  assumes "decodeRune (b0 # r) = (c, width)" "c \<le> 0x7D"
  shows "c = b0 \<and> width = 1"
proof (rule ccontr)
  assume "\<not> (c = b0 \<and> width = 1)"
  then have n: "\<not> b0 < 0x80" using assms(1) by auto
  have "0x80 \<le> c"
    using assms(1) n lead_bits(1-3) [of b0] lead_bits(4,5) [of "hd r"]
    by (auto simp: runeError_def split: if_splits list.splits)
  then show False using assms(2) by simp
qed

lemma decodeRune_small: "b0 < 0x80 \<Longrightarrow> decodeRune (b0 # r) = (b0, 1)"
  by simp

lemma ascii_runes:
  assumes "\<forall>(c, width) \<in> set (runes s). c \<le> 0x7D \<and> c \<noteq> 0x3D"
  shows "0x3D \<notin> set s"
  using assms
proof (induction s rule: runes.induct)
  case (1 s)
  show ?case
  proof (cases s)
    case (Cons b r)
    obtain c width where d: "decodeRune (map unat (b # r)) = (c, width)" by fastforce
    have c: "c \<le> 0x7D" "c \<noteq> 0x3D" "\<forall>(c, width) \<in> set (runes (drop (max 1 width) s)). c \<le> 0x7D \<and> c \<noteq> 0x3D"
      using "1.prems" unfolding Cons runes.simps [of "b # r"] d by simp_all
    have b: "c = unat b" "width = 1" using decodeRune_ascii [OF d [unfolded list.map] c(1)] by simp_all
    have "0x3D \<notin> set (drop (max 1 width) s)"
      using "1.IH" [of "(c, width)" c width] c(3) d Cons by (simp del: decodeRune.simps)
    moreover have "b \<noteq> 0x3D" using c(2) b(1) by auto
    ultimately show ?thesis using Cons b(2) by simp
  qed simp
qed

lemma validateTagName_None: "validateTagName name = None \<Longrightarrow> name \<noteq> [] \<and> 0x3D \<notin> set name"
  using ascii_runes [of name] by (force simp: validateTagName_def list_ex_iff split: if_splits)

lemma cutTag_comment:
  assumes "0x3D \<notin> set name"
  shows "cutTag (name @ [0x3D] @ value) = \<lparr>tg_Name = name, tg_Value = value\<rparr>"
proof -
  have "\<forall>b \<in> set name. b \<noteq> 0x3D" using assms by auto
  then show ?thesis by (simp add: cutTag_def takeWhile_append2 dropWhile_append2)
qed

lemma cut_tagComments: "tagComments ts = Inr cs \<Longrightarrow> map cutTag cs = ts"
proof (induction ts arbitrary: cs)
  case (Cons t ts)
  then show ?case
    by (auto simp: validateTagName_None cutTag_comment [simplified] split: option.splits if_splits sum.splits)
qed simp

lemma length_EncodeVorbisComment: "length (EncodeVorbisComment vendor cs) = commentSize vendor cs"
proof -
  have "length (concat (map lenBytes cs)) = sum_list (map (\<lambda>c. 4 + length c) cs)"
    by (induction cs) (simp_all add: length_lenBytes)
  then show ?thesis by (simp add: EncodeVorbisComment_def commentSize_def length_lenBytes)
qed

lemma member_sum: "c \<in> set cs \<Longrightarrow> 4 + length c \<le> sum_list (map (\<lambda>c. 4 + length c) cs)"
  by (induction cs) auto

lemma count_sum: "4 * length cs \<le> sum_list (map (\<lambda>c. 4 + length c) cs)"
  by (induction cs) simp_all

lemma buildVorbisComment_ok:
  assumes "buildVorbisComment cfg = Inr body"
  shows "length body \<le> MaxMetadataBodyLen"
    "\<exists>cs. parseVorbisComment body = Inr (commentVendor cfg, cs) \<and> map cutTag cs = cf_Tags cfg"
proof -
  obtain cs where cs: "tagComments (cf_Tags cfg) = Inr cs" "commentSize (commentVendor cfg) cs \<le> MaxMetadataBodyLen"
    "body = EncodeVorbisComment (commentVendor cfg) cs"
    using assms by (auto simp: buildVorbisComment_def Let_def split: if_splits sum.splits)
  show "length body \<le> MaxMetadataBodyLen" using cs(2) by (simp add: cs(3) length_EncodeVorbisComment)
  have "length (commentVendor cfg) < 2 ^ 32" "length cs < 2 ^ 32" "\<forall>c \<in> set cs. length c < 2 ^ 32"
    using cs(2) count_sum [of cs] member_sum [of _ cs] by (fastforce simp: commentSize_def MaxMetadataBodyLen_def)+
  from parseVorbisComment_Encode [OF this, of "[]"]
  show "\<exists>cs. parseVorbisComment body = Inr (commentVendor cfg, cs) \<and> map cutTag cs = cf_Tags cfg"
    using cut_tagComments [OF cs(1)] by (simp add: cs(3))
qed

end
