(* ===== verification/Pcm_Pack.thy ===== *)
theory Pcm_Pack
  imports Byte_Order Frame_Decode
begin

text \<open>
  Interleaved little-endian PCM (\<open>pcm/pack.go\<close>, \<open>appendPacked\<close> of \<open>pcm/decoder.go\<close> and
  \<open>pcm/convert.go\<close>): the unpacking of a block into channel rows, its widened 16-bit paths, the
  packing of a decoded frame and the rescaling of its samples. Rows are returned as values; the
  code writes every element of the rows it is given.
\<close>

section \<open>Unpacking\<close>

definition sampleAt :: "nat \<Rightarrow> u8 list \<Rightarrow> nat \<Rightarrow> i32" where
  "sampleAt bytesPS src idx =
     (if bytesPS = 1 then scast (src ! idx)
      else if bytesPS = 2 then scast (ucast (src ! idx) OR push_bit 8 (ucast (src ! (idx + 1))) :: u16)
      else if bytesPS = 3 then
        let u = ucast (src ! idx) OR push_bit 8 (ucast (src ! (idx + 1))) OR push_bit 16 (ucast (src ! (idx + 2))) :: u32
        in if u AND 0x800000 \<noteq> 0 then u OR 0xFF000000 else u
      else ucast (src ! idx) OR push_bit 8 (ucast (src ! (idx + 1))) OR push_bit 16 (ucast (src ! (idx + 2)))
         OR push_bit 24 (ucast (src ! (idx + 3))))"

text \<open>The running byte index of the nested loops is the width times the number of samples read so far.\<close>

definition deinterleaveSamplesGeneric :: "u8 list \<Rightarrow> nat \<Rightarrow> nat \<Rightarrow> nat \<Rightarrow> i32 list list" where
  "deinterleaveSamplesGeneric src count nch bytesPS =
     map (\<lambda>c. map (\<lambda>i. sampleAt bytesPS src (bytesPS * (nch * i + c))) [0..<count]) [0..<nch]"

function deinterleave16Mono :: "u8 list \<Rightarrow> nat \<Rightarrow> i32 list" where
  "deinterleave16Mono src n =
     (if 4 \<le> n then
        let w = le_word (take 8 src) :: u64
        in scast (ucast w :: u16) # scast (ucast (drop_bit 16 w) :: u16) # scast (ucast (drop_bit 32 w) :: u16)
           # scast (ucast (drop_bit 48 w) :: u16) # deinterleave16Mono (drop 8 src) (n - 4)
      else if 0 < n then scast (le_word (take 2 src) :: u16) # deinterleave16Mono (drop 2 src) (n - 1)
      else [])"
  by pat_completeness auto
termination by (relation "measure snd") auto

declare deinterleave16Mono.simps [simp del]

function deinterleave16Stereo :: "u8 list \<Rightarrow> nat \<Rightarrow> i32 list \<times> i32 list" where
  "deinterleave16Stereo src n =
     (if 2 \<le> n then
        let w = le_word (take 8 src) :: u64
        in case deinterleave16Stereo (drop 8 src) (n - 2) of (left, right) \<Rightarrow>
             (scast (ucast w :: u16) # scast (ucast (drop_bit 32 w) :: u16) # left,
              scast (ucast (drop_bit 16 w) :: u16) # scast (ucast (drop_bit 48 w) :: u16) # right)
      else if 0 < n then
        let w = le_word (take 4 src) :: u32
        in case deinterleave16Stereo (drop 4 src) (n - 1) of (left, right) \<Rightarrow>
             (scast (ucast w :: u16) # left, scast (ucast (drop_bit 16 w) :: u16) # right)
      else ([], []))"
  by pat_completeness auto
termination by (relation "measure snd") auto

declare deinterleave16Stereo.simps [simp del]

definition deinterleaveSamples :: "u8 list \<Rightarrow> nat \<Rightarrow> nat \<Rightarrow> nat \<Rightarrow> i32 list list" where
  "deinterleaveSamples src count nch bytesPS =
     (if bytesPS = 2 \<and> nch = 1 then [deinterleave16Mono src count]
      else if bytesPS = 2 \<and> nch = 2 then (case deinterleave16Stereo src count of (left, right) \<Rightarrow> [left, right])
      else deinterleaveSamplesGeneric src count nch bytesPS)"

section \<open>Packing\<close>

function packLE16Mono :: "i32 list \<Rightarrow> nat \<Rightarrow> u8 list" where
  "packLE16Mono src n =
     (if 4 \<le> n then
        let w = ucast (ucast (src ! 0) :: u16) OR push_bit 16 (ucast (ucast (src ! 1) :: u16))
              OR push_bit 32 (ucast (ucast (src ! 2) :: u16)) OR push_bit 48 (ucast (ucast (src ! 3) :: u16)) :: u64
        in le_bytes 8 w @ packLE16Mono (drop 4 src) (n - 4)
      else if 0 < n then le_bytes 2 (ucast (src ! 0) :: u16) @ packLE16Mono (drop 1 src) (n - 1)
      else [])"
  by pat_completeness auto
termination by (relation "measure snd") auto

declare packLE16Mono.simps [simp del]

function packLE16Stereo :: "i32 list \<Rightarrow> i32 list \<Rightarrow> nat \<Rightarrow> u8 list" where
  "packLE16Stereo left right n =
     (if 2 \<le> n then
        let w = ucast (ucast (left ! 0) :: u16) OR push_bit 16 (ucast (ucast (right ! 0) :: u16))
              OR push_bit 32 (ucast (ucast (left ! 1) :: u16)) OR push_bit 48 (ucast (ucast (right ! 1) :: u16)) :: u64
        in le_bytes 8 w @ packLE16Stereo (drop 2 left) (drop 2 right) (n - 2)
      else if 0 < n then
        le_bytes 4 (ucast (ucast (left ! 0) :: u16) OR push_bit 16 (ucast (ucast (right ! 0) :: u16)) :: u32)
        @ packLE16Stereo (drop 1 left) (drop 1 right) (n - 1)
      else [])"
  by pat_completeness auto
termination by (relation "measure (\<lambda>(_, _, n). n)") auto

declare packLE16Stereo.simps [simp del]

definition packSample :: "nat \<Rightarrow> i32 \<Rightarrow> u8 list" where
  "packSample bytesPS v =
     (if bytesPS = 1 then [ucast v]
      else if bytesPS = 2 then (let v = ucast v :: u16 in [ucast v, ucast (drop_bit 8 v)])
      else if bytesPS = 3 then [ucast v, ucast (drop_bit 8 v), ucast (drop_bit 16 v)]
      else if bytesPS = 4 then [ucast v, ucast (drop_bit 8 v), ucast (drop_bit 16 v), ucast (drop_bit 24 v)]
      else map (\<lambda>b. ucast (drop_bit (b * 8) v)) [0..<bytesPS])"

definition packScalar :: "Frame \<Rightarrow> nat \<Rightarrow> u8 list" where
  "packScalar fr bytesPS =
     concat (map (\<lambda>i. concat (map (\<lambda>ch. packSample bytesPS (fr_Channels fr ! ch ! i)) [0..<length (fr_Channels fr)]))
       [0..<fr_BlockSize fr])"

definition appendPacked :: "u8 list \<Rightarrow> Frame \<Rightarrow> nat \<Rightarrow> u8 list" where
  "appendPacked dst fr bytesPS =
     (let nch = length (fr_Channels fr)
      in dst @ (if bytesPS = 2 \<and> nch = 1 then packLE16Mono (fr_Channels fr ! 0) (fr_BlockSize fr)
                else if bytesPS = 2 \<and> nch = 2 then packLE16Stereo (fr_Channels fr ! 0) (fr_Channels fr ! 1) (fr_BlockSize fr)
                else packScalar fr bytesPS))"

section \<open>Rescaling\<close>

definition shiftSamples :: "Frame \<Rightarrow> int \<Rightarrow> Frame" where
  "shiftSamples fr shift =
     (let f = (if shift > 0 then push_bit (nat shift) else signed_drop_bit (nat (- shift)))
      in fr\<lparr>fr_Channels := map (\<lambda>c. map f (take (fr_BlockSize fr) c) @ drop (fr_BlockSize fr) c) (fr_Channels fr)\<rparr>)"

section \<open>One sample\<close>

lemma packSample_le_bytes: "packSample k v = le_bytes k v"
proof -
  have "ucast (ucast v :: u16) = (ucast v :: u8)" "ucast (drop_bit 8 (ucast v :: u16)) = (ucast (drop_bit 8 v) :: u8)"
    by (rule bit_word_eqI; simp add: bit_simps)+
  then show ?thesis
    by (simp add: packSample_def Let_def le_bytes_def mult.commute eval_nat_numeral)
qed

definition sample_val :: "u8 list \<Rightarrow> i32" where
  "sample_val bs = signed_drop_bit (32 - 8 * length bs) (push_bit (32 - 8 * length bs) (le_word bs))"

lemma bit_sample_val:
  assumes "1 \<le> length bs" "length bs \<le> 4"
  shows "bit (sample_val bs) i \<longleftrightarrow> i < 32 \<and> bit (le_word bs :: i32) (min i (8 * length bs - 1))"
  using assms by (auto simp: sample_val_def bit_simps min_def)

lemma fits_bit:
  fixes v :: "'a::len word"
  assumes "fits n (sint v)" "i < LENGTH('a)"
  shows "bit v (min i (n - 1)) \<longleftrightarrow> bit v i"
proof -
  have s: "signed_take_bit (n - 1) (sint v) = sint v" using assms(1) by (simp add: fits_def signed_take_bit_int_eq_self)
  have "bit (signed_take_bit (n - 1) (sint v)) i \<longleftrightarrow> bit (sint v) (min i (n - 1))"
    by (simp add: bit_signed_take_bit_iff min.commute)
  then have "bit (sint v) i \<longleftrightarrow> bit (sint v) (min i (n - 1))" unfolding s .
  moreover have "bit (sint v) j \<longleftrightarrow> bit v j" if "j < LENGTH('a)" for j
    using that by (auto simp: bit_sint_iff min_def not_le dest: bit_imp_le_length intro: arg_cong [of _ _ "bit v", THEN iffD1])
  ultimately show ?thesis using assms(2) by (metis min.strict_coboundedI1)
qed

lemma sample_val_le_bytes:
  assumes "1 \<le> k" "k \<le> 4" "fits (8 * k) (sint v)"
  shows "sample_val (le_bytes k v) = v"
proof (rule bit_word_eqI)
  fix i assume "i < LENGTH(32)"
  then show "bit (sample_val (le_bytes k v)) i \<longleftrightarrow> bit v i"
    using assms fits_bit [OF assms(3), of i]
    by (auto simp: bit_sample_val le_word_le_bytes bit_take_bit_iff min_def split: if_splits)
qed

lemma le_bytes_sample_val:
  assumes "1 \<le> length bs" "length bs \<le> 4"
  shows "le_bytes (length bs) (sample_val bs) = bs"
proof (intro nth_equalityI bit_word_eqI)
  fix j n assume a: "j < length (le_bytes (length bs) (sample_val bs))" "n < LENGTH(8)"
  then have j: "(8 * j + n) div 8 = j" "(8 * j + n) mod 8 = n" "8 * j + n < 8 * length bs" "8 * j + n \<le> 8 * length bs - 1" by simp_all
  then show "bit (le_bytes (length bs) (sample_val bs) ! j) n \<longleftrightarrow> bit (bs ! j) n"
    using a assms by (simp add: bit_le_bytes bit_sample_val min_def bit_le_word)
qed simp

lemma sample_val_fits:
  assumes "1 \<le> length bs" "length bs \<le> 4"
  shows "fits (8 * length bs) (sint (sample_val bs))"
proof -
  let ?u = "push_bit (32 - 8 * length bs) (le_word bs :: i32)"
  have "- (2 ^ 31) \<le> sint ?u" "sint ?u < 2 ^ 31" using sint_fits [of ?u] by (simp_all add: fits_def)
  moreover have "(2 :: int) ^ 31 = 2 ^ (8 * length bs - 1) * 2 ^ (32 - 8 * length bs)"
    using assms by (simp flip: power_add)
  ultimately have "- (2 ^ (8 * length bs - 1)) \<le> sint ?u div 2 ^ (32 - 8 * length bs)"
    "sint ?u div 2 ^ (32 - 8 * length bs) < 2 ^ (8 * length bs - 1)"
    using div_bounds [of "2 ^ (8 * length bs - 1)" "2 ^ (32 - 8 * length bs)" "sint ?u"] by simp_all
  then show ?thesis using assms by (auto simp: fits_def sample_val_def sint_signed_drop_bit)
qed

text \<open>Setting the top byte when bit 23 is set is the sign extension from 24 bits.\<close>

lemma sext24:
  fixes u :: i32
  assumes "drop_bit 24 u = 0"
  shows "(if u AND 0x800000 \<noteq> 0 then u OR 0xFF000000 else u) = signed_take_bit 23 u"
proof -
  have h: "bit u i \<Longrightarrow> i < 24" for i
    using assms bit_drop_bit_eq [of 24 u, THEN fun_cong, of "i - 24"] by (cases "i < 24") simp_all
  have "(0x800000 :: i32) = 2 ^ 23" by simp
  then have c: "u AND 0x800000 \<noteq> 0 \<longleftrightarrow> bit u 23" by (simp only: and_exp_eq_0_iff_not_bit not_not)
  have f: "(0xFF000000 :: i32) = push_bit 24 (mask 8)" by (simp add: mask_eq_exp_minus_1)
  show ?thesis
    unfolding c f
    by (rule bit_word_eqI, simp only: bit_signed_take_bit_iff, unfold if_distrib [of "\<lambda>w. bit w _"] bit_or_iff bit_push_bit_iff bit_mask_iff)
      (auto simp: min_def possible_bit_word le_less dest: h)
qed

text \<open>A load of the right width, sign-extended, is the value of its bytes.\<close>

lemma scast_le_word:
  assumes "LENGTH('a) = 8 * length bs" "1 \<le> length bs" "length bs \<le> 4"
  shows "scast (le_word bs :: 'a::len word) = sample_val bs"
proof (rule bit_word_eqI)
  fix i assume "i < LENGTH(32)"
  then show "bit (scast (le_word bs :: 'a word) :: i32) i \<longleftrightarrow> bit (sample_val bs) i"
    using assms by (auto simp: bit_sample_val bit_le_word bit_signed_iff min_def)
qed

lemma sign24_le_word: "signed_take_bit 23 (le_word [a, b, c] :: i32) = sample_val [a, b, c]"
  by (rule bit_word_eqI) (auto simp: bit_sample_val bit_signed_take_bit_iff min_def simp del: le_word.simps)

lemma sampleAt_val:
  assumes "1 \<le> k" "k \<le> 4" "idx + k \<le> length src"
  shows "sampleAt k src idx = sample_val (take k (drop idx src))"
proof -
  have t: "take (Suc n) (drop i src) = src ! i # take n (drop (Suc i) src)" if "i < length src" for i n
    using that by (simp add: Cons_nth_drop_Suc [symmetric])
  have m: "push_bit 8 (push_bit 8 x) = push_bit 16 x" "push_bit 8 (push_bit 16 x) = push_bit 24 x" for x :: i32
    by simp_all
  consider "k = 1" | "k = 2" | "k = 3" | "k = 4" using assms(1,2) by linarith
  then show ?thesis
  proof cases
    case 1
    then show ?thesis
      using assms(3) scast_le_word [where 'a = 8, of "[src ! idx]"] by (simp add: t sampleAt_def)
  next
    case 2
    then show ?thesis
      using assms(3) scast_le_word [where 'a = 16, of "[src ! idx, src ! (idx + 1)]"]
      by (simp add: t numeral_2_eq_2 sampleAt_def)
  next
    case 3
    have z: "drop_bit 24 (le_word [a, b, c] :: i32) = 0" for a b c
      by (rule bit_word_eqI) (auto simp: bit_drop_bit_eq bit_le_word simp del: le_word.simps)
    have l: "le_word [a, b, c] = (ucast a OR push_bit 8 (ucast b) OR push_bit 16 (ucast c) :: i32)" for a b c
      by (simp add: push_bit_or m or.assoc)
    have "sampleAt k src idx = signed_take_bit 23 (le_word [src ! idx, src ! (idx + 1), src ! (idx + 2)])"
      using sext24 [OF z, of "src ! idx" "src ! (idx + 1)" "src ! (idx + 2)"]
      unfolding l sampleAt_def Let_def 3 by (simp split del: if_split)
    then show ?thesis using 3 assms(3) by (simp add: t numeral_3_eq_3 sign24_le_word del: le_word.simps)
  next
    case 4
    have "sampleAt k src idx = (le_word [src ! idx, src ! (idx + 1), src ! (idx + 2), src ! (idx + 3)] :: i32)"
      by (simp add: sampleAt_def 4 push_bit_or m or.assoc)
    also have "\<dots> = sample_val [src ! idx, src ! (idx + 1), src ! (idx + 2), src ! (idx + 3)]"
      using scast_le_word [where 'a = 32, of "[src ! idx, src ! (idx + 1), src ! (idx + 2), src ! (idx + 3)]"]
      by (simp del: le_word.simps)
    finally show ?thesis using 4 assms(3) by (simp add: t eval_nat_numeral)
  qed
qed

section \<open>Blocks of samples\<close>

lemma take_concat_block:
  assumes "\<And>i. i < n \<Longrightarrow> length (f i) = m" "j < n"
  shows "take m (drop (m * j) (concat (map f [0..<n]))) = f j"
proof -
  have len: "length (concat (map f [0..<k])) = m * k" if "k \<le> n" for k
    using that by (induction k) (simp_all add: assms(1))
  have "[0..<n] = [0..<j] @ j # [Suc j..<n]" using assms(2) by (metis upt_add_eq_append le0 less_imp_le_nat le_add_diff_inverse upt_conv_Cons)
  then have "concat (map f [0..<n]) = concat (map f [0..<j]) @ f j @ concat (map f [Suc j..<n])" by simp
  then show ?thesis using len [of j] assms by simp
qed

lemma length_concat_const: "(\<And>i. i < n \<Longrightarrow> length (f i) = m) \<Longrightarrow> length (concat (map f [0..<n])) = m * n"
  by (induction n) simp_all

lemma concat_take_drop: "concat (map (\<lambda>i. take m (drop (m * i) xs)) [0..<n]) = take (m * n) xs"
proof (induction n)
  case (Suc n)
  have "take (m * Suc n) xs = take (m * n) xs @ take m (drop (m * n) xs)"
    using take_add [of "m * n" m xs] by (simp add: add.commute)
  then show ?case using Suc by simp
qed simp

text \<open>The bytes of one inter-channel sample, and of a block of them, over rows of samples.\<close>

definition packRows :: "nat \<Rightarrow> i32 list list \<Rightarrow> nat \<Rightarrow> u8 list" where
  "packRows k chs n = concat (map (\<lambda>i. concat (map (\<lambda>c. le_bytes k (chs ! c ! i)) [0..<length chs])) [0..<n])"

lemma packScalar_rows: "packScalar fr k = packRows k (fr_Channels fr) (fr_BlockSize fr)"
  by (simp add: packScalar_def packRows_def packSample_le_bytes)

lemma length_packRows: "length (packRows k chs n) = k * length chs * n"
  unfolding packRows_def by (simp add: length_concat_const)

lemma packRows_at:
  assumes "i < n" "c < length chs"
  shows "take k (drop (k * (length chs * i + c)) (packRows k chs n)) = le_bytes k (chs ! c ! i)"
proof -
  let ?row = "concat (map (\<lambda>c. le_bytes k (chs ! c ! i)) [0..<length chs])"
  have "take (k * length chs) (drop (k * length chs * i) (packRows k chs n)) = ?row"
    unfolding packRows_def by (rule take_concat_block) (use assms(1) in \<open>simp_all add: length_concat_const\<close>)
  then have "take k (drop (k * c) (take (k * length chs) (drop (k * length chs * i) (packRows k chs n)))) = le_bytes k (chs ! c ! i)"
    using take_concat_block [of "length chs" "\<lambda>c. le_bytes k (chs ! c ! i)" k c] assms(2) by simp
  moreover have "k * c + k \<le> k * length chs" using assms(2) by (metis Suc_leI add.commute mult_Suc_right mult_le_mono2)
  then have "min k (k * length chs - k * c) = k" by simp
  ultimately show ?thesis by (simp add: drop_take algebra_simps)
qed

definition rows_ok :: "nat \<Rightarrow> nat \<Rightarrow> nat \<Rightarrow> i32 list list \<Rightarrow> bool" where
  "rows_ok bits n nch chs \<longleftrightarrow> length chs = nch \<and> (\<forall>c \<in> set chs. length c = n \<and> (\<forall>x \<in> set c. fits bits (sint x)))"

lemma index_bound:
  fixes i :: nat
  assumes "i < n" "c < nch"
  shows "k * (nch * i + c) + k \<le> k * nch * n"
proof -
  have "nch * i + c + 1 \<le> nch * (i + 1)" using assms(2) by simp
  also have "\<dots> \<le> nch * n" using assms(1) by (intro mult_le_mono2) simp
  finally have "k * (nch * i + c + 1) \<le> k * (nch * n)" by (rule mult_le_mono2)
  then show ?thesis by (simp add: algebra_simps)
qed

text \<open>Unpacking gives rows whose samples fit the width, and packing and unpacking are inverse.\<close>

lemma generic_rows:
  assumes "1 \<le> k" "k \<le> 4" "length src = k * nch * n"
  shows "deinterleaveSamplesGeneric src n nch k =
    map (\<lambda>c. map (\<lambda>i. sample_val (take k (drop (k * (nch * i + c)) src))) [0..<n]) [0..<nch]"
  unfolding deinterleaveSamplesGeneric_def
  using index_bound [of _ n _ nch k] assms by (auto intro!: sampleAt_val)

lemma rows_ok_generic:
  assumes "1 \<le> k" "k \<le> 4" "length src = k * nch * n"
  shows "rows_ok (8 * k) n nch (deinterleaveSamplesGeneric src n nch k)"
proof -
  have "fits (8 * k) (sint (sample_val (take k (drop (k * (nch * i + c)) src))))" if "i < n" "c < nch" for i c
  proof -
    have "length (take k (drop (k * (nch * i + c)) src)) = k" using index_bound [OF that, of k] assms(3) by simp
    then show ?thesis using sample_val_fits [of "take k (drop (k * (nch * i + c)) src)"] assms(1,2) by simp
  qed
  then show ?thesis by (auto simp: rows_ok_def generic_rows [OF assms])
qed

lemma packRows_generic:
  assumes "1 \<le> k" "k \<le> 4" "length src = k * nch * n"
  shows "packRows k (deinterleaveSamplesGeneric src n nch k) n = src"
proof -
  have row: "le_bytes k (deinterleaveSamplesGeneric src n nch k ! c ! i) = take k (drop (k * c) (drop (k * nch * i) src))"
    if "i < n" "c < nch" for i c
  proof -
    have "length (take k (drop (k * (nch * i + c)) src)) = k" using index_bound [OF that, of k] assms(3) by simp
    then show ?thesis
      using le_bytes_sample_val [of "take k (drop (k * (nch * i + c)) src)"] that assms(1,2)
      by (simp add: generic_rows [OF assms] algebra_simps)
  qed
  have "packRows k (deinterleaveSamplesGeneric src n nch k) n
      = concat (map (\<lambda>i. concat (map (\<lambda>c. take k (drop (k * c) (drop (k * nch * i) src))) [0..<nch])) [0..<n])"
  proof -
    have "length (deinterleaveSamplesGeneric src n nch k) = nch" by (simp add: deinterleaveSamplesGeneric_def)
    then show ?thesis unfolding packRows_def by (intro arg_cong [of _ _ concat] map_cong refl) (simp_all add: row)
  qed
  also have "\<dots> = src" using assms(3) by (simp only: concat_take_drop) simp
  finally show ?thesis .
qed

lemma generic_packRows:
  assumes "1 \<le> k" "k \<le> 4" "rows_ok (8 * k) n nch chs"
  shows "deinterleaveSamplesGeneric (packRows k chs n) n nch k = chs"
proof -
  have l: "length chs = nch" "\<And>c. c < nch \<Longrightarrow> length (chs ! c) = n"
    "\<And>c i. c < nch \<Longrightarrow> i < n \<Longrightarrow> fits (8 * k) (sint (chs ! c ! i))"
    using assms(3) by (auto simp: rows_ok_def dest: nth_mem)
  have "length (packRows k chs n) = k * nch * n" by (simp add: length_packRows l(1))
  from generic_rows [OF assms(1,2) this] show ?thesis
    using packRows_at [of _ n _ chs k] assms(1,2) by (auto intro!: nth_equalityI simp: l sample_val_le_bytes)
qed

section \<open>The widened paths\<close>

lemma le_word_part:
  assumes "LENGTH('b) = 8 * m" "j + m \<le> length bs" "8 * length bs \<le> LENGTH('a)"
  shows "ucast (drop_bit (8 * j) (le_word bs :: 'a::len word)) = (le_word (take m (drop j bs)) :: 'b::len word)"
proof (rule bit_word_eqI)
  fix i assume "i < LENGTH('b)"
  then have "i div 8 < m" "(8 * j + i) div 8 = j + i div 8" "(8 * j + i) mod 8 = i mod 8" using assms(1) by auto
  moreover from this have "8 * j + i < LENGTH('a)" using assms \<open>i < LENGTH('b)\<close> by linarith
  ultimately show "bit (ucast (drop_bit (8 * j) (le_word bs :: 'a word)) :: 'b word) i
      \<longleftrightarrow> bit (le_word (take m (drop j bs)) :: 'b word) i"
    using \<open>i < LENGTH('b)\<close> assms(2) by (simp add: bit_simps bit_le_word)
qed

lemma load16:
  assumes "j + 2 \<le> length bs" "8 * length bs \<le> LENGTH('a)"
  shows "scast (ucast (drop_bit (8 * j) (le_word bs :: 'a::len word)) :: u16) = sample_val (take 2 (drop j bs))"
  using assms scast_le_word [where 'a = 16, of "take 2 (drop j bs)"]
  by (subst le_word_part [where m = 2]) simp_all

lemma load16_64:
  assumes "length bs = 8"
  shows "scast (ucast (le_word bs :: u64) :: u16) = sample_val (take 2 bs)"
    "scast (ucast (drop_bit 16 (le_word bs :: u64)) :: u16) = sample_val (take 2 (drop 2 bs))"
    "scast (ucast (drop_bit 32 (le_word bs :: u64)) :: u16) = sample_val (take 2 (drop 4 bs))"
    "scast (ucast (drop_bit 48 (le_word bs :: u64)) :: u16) = sample_val (take 2 (drop 6 bs))"
  using load16 [where 'a = 64, of 0 bs] load16 [where 'a = 64, of 2 bs] load16 [where 'a = 64, of 4 bs]
    load16 [where 'a = 64, of 6 bs] assms by simp_all

lemma load16_32:
  assumes "length bs = 4"
  shows "scast (ucast (le_word bs :: u32) :: u16) = sample_val (take 2 bs)"
    "scast (ucast (drop_bit 16 (le_word bs :: u32)) :: u16) = sample_val (take 2 (drop 2 bs))"
  using load16 [where 'a = 32, of 0 bs] load16 [where 'a = 32, of 2 bs] assms by simp_all

lemma load16_16: "length bs = 2 \<Longrightarrow> scast (le_word bs :: u16) = sample_val bs"
  using scast_le_word [where 'a = 16, of bs] by simp

lemma upt_shift: "k \<le> n \<Longrightarrow> [0..<n] = [0..<k] @ map (\<lambda>i. i + k) [0..<n - k]"
  using upt_add_eq_append [of 0 k "n - k"] by (simp add: map_add_upt)

lemma mono16:
  "2 * n \<le> length src \<Longrightarrow> deinterleave16Mono src n = map (\<lambda>i. sample_val (take 2 (drop (2 * i) src))) [0..<n]"
proof (induction n arbitrary: src rule: less_induct)
  case (less n)
  have up: "[0..<n] = [0, 1, 2, 3] @ map (\<lambda>i. i + 4) [0..<n - 4]" if "4 \<le> n"
    using upt_shift [OF that] by (simp add: upt_rec)
  have up1: "[0..<n] = [0] @ map (\<lambda>i. i + 1) [0..<n - 1]" if "0 < n"
    using upt_shift [of 1 n] that by (simp add: upt_rec)
  show ?case
  proof (cases "4 \<le> n")
    case True
    have l: "length (take 8 src) = 8" using True less.prems by simp
    have "deinterleave16Mono src n = sample_val (take 2 src) # sample_val (take 2 (drop 2 src)) # sample_val (take 2 (drop 4 src))
        # sample_val (take 2 (drop 6 src)) # deinterleave16Mono (drop 8 src) (n - 4)"
      using True load16_64 [OF l] by (simp add: deinterleave16Mono.simps [of src n] Let_def drop_take)
    also have "deinterleave16Mono (drop 8 src) (n - 4) = map (\<lambda>i. sample_val (take 2 (drop (2 * i) (drop 8 src)))) [0..<n - 4]"
      using less.prems True by (intro less.IH) simp_all
    finally show ?thesis unfolding up [OF True] by (simp add: comp_def)
  next
    case False
    show ?thesis
    proof (cases "n = 0")
      case False
      have l: "length (take 2 src) = 2" using False less.prems by simp
      have "deinterleave16Mono src n = sample_val (take 2 src) # deinterleave16Mono (drop 2 src) (n - 1)"
        using \<open>\<not> 4 \<le> n\<close> False load16_16 [OF l] by (simp add: deinterleave16Mono.simps [of src n])
      also have "deinterleave16Mono (drop 2 src) (n - 1) = map (\<lambda>i. sample_val (take 2 (drop (2 * i) (drop 2 src)))) [0..<n - 1]"
        using less.prems False by (intro less.IH) simp_all
      finally show ?thesis unfolding up1 [OF False [simplified]] by (simp add: comp_def)
    qed (simp add: deinterleave16Mono.simps [of src 0])
  qed
qed

lemma stereo16:
  "4 * n \<le> length src \<Longrightarrow> deinterleave16Stereo src n =
     (map (\<lambda>i. sample_val (take 2 (drop (4 * i) src))) [0..<n], map (\<lambda>i. sample_val (take 2 (drop (4 * i + 2) src))) [0..<n])"
proof (induction n arbitrary: src rule: less_induct)
  case (less n)
  consider "2 \<le> n" | "n = 1" | "n = 0" by linarith
  then show ?case
  proof cases
    case 1
    have l: "length (take 8 src) = 8" using 1 less.prems by simp
    have "deinterleave16Stereo (drop 8 src) (n - 2) = (map (\<lambda>i. sample_val (take 2 (drop (4 * i) (drop 8 src)))) [0..<n - 2],
        map (\<lambda>i. sample_val (take 2 (drop (4 * i + 2) (drop 8 src)))) [0..<n - 2])"
      using less.prems 1 by (intro less.IH) simp_all
    moreover have "[0..<n] = [0, 1] @ map (\<lambda>i. i + 2) [0..<n - 2]" using upt_shift [OF 1] by (simp add: upt_rec)
    ultimately show ?thesis
      using 1 load16_64 [OF l]
      by (simp add: deinterleave16Stereo.simps [of src n] Let_def drop_take comp_def add.commute
          flip: numeral_2_eq_2)
  next
    case 2
    have l: "length (take 4 src) = 4" using 2 less.prems by simp
    show ?thesis
      using 2 load16_32 [OF l]
      by (simp add: deinterleave16Stereo.simps [of src "Suc 0"] deinterleave16Stereo.simps [of "drop 4 src" 0] Let_def drop_take
          flip: numeral_2_eq_2)
  qed (simp add: deinterleave16Stereo.simps [of src 0])
qed

lemma le_bytes_ucast: "8 * k \<le> LENGTH('b) \<Longrightarrow> le_bytes k (ucast v :: 'b::len word) = le_bytes k v" for v :: "'a::len word"
  by (intro nth_equalityI bit_word_eqI) (auto simp: bit_le_bytes bit_simps)

lemma le_bytes_join:
  fixes x y :: "'a::len word"
  assumes "drop_bit (8 * m) x = 0" "8 * (m + k) \<le> LENGTH('a)"
  shows "le_bytes (m + k) (x OR push_bit (8 * m) y) = le_bytes m x @ le_bytes k y"
proof (intro nth_equalityI bit_word_eqI)
  fix j n assume a: "j < length (le_bytes (m + k) (x OR push_bit (8 * m) y))" "n < LENGTH(8)"
  then have "8 * j + n < LENGTH('a)" using assms(2) by simp
  moreover have "8 * m \<le> 8 * j + n \<Longrightarrow> \<not> bit x (8 * j + n)"
    using assms(1) bit_drop_bit_eq [of "8 * m" x, THEN fun_cong, of "8 * j + n - 8 * m"] by simp
  moreover have "8 * m \<le> 8 * j + n \<longleftrightarrow> m \<le> j" using a(2) by auto
  moreover have "m \<le> j \<Longrightarrow> 8 * j + n - 8 * m = 8 * (j - m) + n" by simp
  ultimately show "bit (le_bytes (m + k) (x OR push_bit (8 * m) y) ! j) n \<longleftrightarrow> bit ((le_bytes m x @ le_bytes k y) ! j) n"
    using a by (auto simp: nth_append bit_le_bytes bit_or_iff bit_push_bit_iff possible_bit_word)
qed simp

lemma u16_bounded: "16 \<le> k \<Longrightarrow> drop_bit k (ucast (x :: u16) :: 'a::len word) = 0"
  by (rule bit_word_eqI) (auto simp: bit_simps dest: bit_imp_le_length)

lemma le_bytes_pair:
  "le_bytes 4 (ucast (ucast a :: u16) OR push_bit 16 (ucast (ucast b :: u16)) :: u32) = le_bytes 2 a @ le_bytes 2 b" for a b :: i32
  using le_bytes_join [of 2 "ucast (ucast a :: u16) :: u32" 2 "ucast (ucast b :: u16)"] by (simp add: le_bytes_ucast u16_bounded)

lemma le_bytes_quad:
  fixes a b c d :: i32
  defines "w \<equiv> ucast (ucast a :: u16) OR push_bit 16 (ucast (ucast b :: u16)) OR push_bit 32 (ucast (ucast c :: u16))
      OR push_bit 48 (ucast (ucast d :: u16)) :: u64"
  shows "le_bytes 8 w = le_bytes 2 a @ le_bytes 2 b @ le_bytes 2 c @ le_bytes 2 d"
proof -
  define A B C D where "A = (ucast (ucast a :: u16) :: u64)" and "B = (ucast (ucast b :: u16) :: u64)"
    and "C = (ucast (ucast c :: u16) :: u64)" and "D = (ucast (ucast d :: u16) :: u64)"
  have w: "w = A OR push_bit 16 (B OR push_bit 16 (C OR push_bit 16 D))"
    by (simp add: w_def A_def B_def C_def D_def push_bit_or)
  have z: "drop_bit 16 A = 0" "drop_bit 16 B = 0" "drop_bit 16 C = 0"
    by (simp_all add: A_def B_def C_def u16_bounded)
  have "le_bytes 8 w = le_bytes 2 A @ le_bytes 2 B @ le_bytes 2 C @ le_bytes 2 D"
    unfolding w using le_bytes_join [of 2 A 6] le_bytes_join [of 2 B 4] le_bytes_join [of 2 C 2] z by (simp del: push_bit_or)
  then show ?thesis by (simp add: A_def B_def C_def D_def le_bytes_ucast)
qed

lemma pack_mono16: "packLE16Mono src n = concat (map (\<lambda>i. le_bytes 2 (src ! i)) [0..<n])" if "n \<le> length src"
  using that
proof (induction n arbitrary: src rule: less_induct)
  case (less n)
  have step: "concat (map (\<lambda>i. le_bytes 2 (src ! i)) [0..<n]) =
      concat (map (\<lambda>i. le_bytes 2 (src ! i)) [0..<k]) @ packLE16Mono (drop k src) (n - k)" if "0 < k" "k \<le> n" for k
    using that less.prems less.IH [of "n - k" "drop k src"] by (simp add: upt_shift [OF that(2)] comp_def add.commute)
  consider "4 \<le> n" | "0 < n" "\<not> 4 \<le> n" | "n = 0" by linarith
  then show ?case
  proof cases
    case 1
    have "concat (map (\<lambda>i. le_bytes 2 (src ! i)) [0..<4]) = le_bytes 2 (src ! 0) @ le_bytes 2 (src ! 1) @ le_bytes 2 (src ! 2) @ le_bytes 2 (src ! 3)"
      by (simp add: upt_rec numeral_2_eq_2 numeral_3_eq_3)
    then show ?thesis
      using 1 step [of 4] by (simp add: packLE16Mono.simps [of src n] Let_def le_bytes_quad)
  next
    case 2
    then show ?thesis using step [of 1] by (simp add: packLE16Mono.simps [of src n] le_bytes_ucast)
  qed (simp add: packLE16Mono.simps [of src 0])
qed

lemma pack_stereo16:
  "packLE16Stereo left right n = concat (map (\<lambda>i. le_bytes 2 (left ! i) @ le_bytes 2 (right ! i)) [0..<n])"
  if "n \<le> length left" "n \<le> length right"
  using that
proof (induction n arbitrary: left right rule: less_induct)
  case (less n)
  have step: "concat (map (\<lambda>i. le_bytes 2 (left ! i) @ le_bytes 2 (right ! i)) [0..<n]) =
      concat (map (\<lambda>i. le_bytes 2 (left ! i) @ le_bytes 2 (right ! i)) [0..<k]) @ packLE16Stereo (drop k left) (drop k right) (n - k)"
    if "0 < k" "k \<le> n" for k
    using that less.prems less.IH [of "n - k" "drop k left" "drop k right"]
    by (simp add: upt_shift [OF that(2)] comp_def add.commute)
  consider "2 \<le> n" | "0 < n" "\<not> 2 \<le> n" | "n = 0" by linarith
  then show ?case
  proof cases
    case 1
    have "concat (map (\<lambda>i. le_bytes 2 (left ! i) @ le_bytes 2 (right ! i)) [0..<2])
        = le_bytes 2 (left ! 0) @ le_bytes 2 (right ! 0) @ le_bytes 2 (left ! 1) @ le_bytes 2 (right ! 1)"
      by (simp add: upt_rec)
    then show ?thesis
      using 1 step [of 2] by (simp add: packLE16Stereo.simps [of left right n] Let_def le_bytes_quad)
  next
    case 2
    then show ?thesis using step [of 1] by (simp add: packLE16Stereo.simps [of left right n] Let_def le_bytes_pair)
  qed (simp add: packLE16Stereo.simps [of left right 0])
qed

section \<open>The dispatch on width and channel count\<close>

lemma deinterleaveSamples_generic:
  assumes "1 \<le> k" "k \<le> 4" "length src = k * nch * n"
  shows "deinterleaveSamples src n nch k = deinterleaveSamplesGeneric src n nch k"
proof (cases "k = 2 \<and> (nch = 1 \<or> nch = 2)")
  case True
  have two: "2 * (2 * i) = 4 * i" "2 * (2 * i + 1) = 4 * i + 2" for i :: nat by simp_all
  have u: "[0..<2] = [0, Suc 0]" by (simp add: upt_rec)
  show ?thesis
    using True assms(3) mono16 [of n src] stereo16 [of n src] generic_rows [OF assms]
    by (auto simp: deinterleaveSamples_def two u)
qed (auto simp: deinterleaveSamples_def)

definition frame_rows :: "Frame \<Rightarrow> bool" where
  "frame_rows fr \<longleftrightarrow> (\<forall>c \<in> set (fr_Channels fr). length c = fr_BlockSize fr)"

lemma appendPacked_rows:
  assumes "frame_rows fr"
  shows "appendPacked dst fr k = dst @ packRows k (fr_Channels fr) (fr_BlockSize fr)"
proof (cases "k = 2 \<and> length (fr_Channels fr) \<in> {1, 2}")
  case True
  then consider c where "fr_Channels fr = [c]" | l r where "fr_Channels fr = [l, r]"
    by (auto simp: length_Suc_conv numeral_2_eq_2)
  then show ?thesis
  proof cases
    case (1 c)
    then show ?thesis
      using True assms by (simp add: appendPacked_def frame_rows_def packRows_def pack_mono16)
  next
    case (2 l r)
    then show ?thesis
      using True assms by (simp add: appendPacked_def frame_rows_def packRows_def pack_stereo16)
  qed
next
  case False
  then show ?thesis by (auto simp: appendPacked_def packScalar_rows Let_def)
qed

lemma deinterleaveSamples_packRows:
  "1 \<le> k \<Longrightarrow> k \<le> 4 \<Longrightarrow> rows_ok (8 * k) n nch chs \<Longrightarrow> deinterleaveSamples (packRows k chs n) n nch k = chs"
  using deinterleaveSamples_generic [of k "packRows k chs n" nch n] generic_packRows [of k n nch chs]
  by (simp add: length_packRows rows_ok_def)

lemma packRows_deinterleaveSamples:
  "1 \<le> k \<Longrightarrow> k \<le> 4 \<Longrightarrow> length src = k * nch * n \<Longrightarrow> packRows k (deinterleaveSamples src n nch k) n = src"
  by (simp add: deinterleaveSamples_generic packRows_generic)

lemma rows_ok_deinterleaveSamples:
  "1 \<le> k \<Longrightarrow> k \<le> 4 \<Longrightarrow> length src = k * nch * n \<Longrightarrow> rows_ok (8 * k) n nch (deinterleaveSamples src n nch k)"
  by (simp add: deinterleaveSamples_generic rows_ok_generic)

section \<open>Conversion of the bit depth\<close>

text \<open>Widening is exact: narrowing again by the same amount gives the samples back.\<close>

lemma push_drop_fits:
  fixes v :: i32
  assumes "fits b (sint v)" "b + s \<le> 32"
  shows "signed_drop_bit s (push_bit s v) = v" "sint (push_bit s v) = sint v * 2 ^ s"
proof -
  have b: "1 \<le> b" "- (2 ^ (b - 1)) \<le> sint v" "sint v < 2 ^ (b - 1)" using assms(1) by (simp_all add: fits_def)
  have "- (2 ^ (b - 1)) * 2 ^ s \<le> sint v * 2 ^ s" "sint v * 2 ^ s < 2 ^ (b - 1) * 2 ^ s"
    by (rule mult_right_mono [OF b(2)], simp) (use b(3) in simp)
  moreover have "(2 :: int) ^ (b - 1 + s) \<le> 2 ^ 31" by (rule power_increasing) (use assms(2) b(1) in simp_all)
  then have "(2 :: int) ^ (b - 1) * 2 ^ s \<le> 2 ^ 31" by (simp only: power_add)
  ultimately have "- (2 ^ 31) \<le> sint v * 2 ^ s" "sint v * 2 ^ s < 2 ^ 31" by linarith+
  then have "fits 32 (sint v * 2 ^ s)" by (simp add: fits_def)
  moreover have "push_bit s v = of_int (sint v * 2 ^ s)" by (simp add: push_bit_eq_mult)
  ultimately show p: "sint (push_bit s v) = sint v * 2 ^ s" using sint_of_int_fits [of "sint v * 2 ^ s", where 'a = 32] by simp
  have "sint (signed_drop_bit s (push_bit s v)) = sint v" by (simp add: sint_signed_drop_bit p)
  then show "signed_drop_bit s (push_bit s v) = v" by (rule signed_word_eqI)
qed

lemma shift_fits:
  assumes "fits b (sint (v :: i32))" "1 \<le> b'" "b' \<le> 32"
  shows "fits b' (sint (if int b' - int b > 0 then push_bit (nat (int b' - int b)) v else signed_drop_bit (nat (- (int b' - int b))) v))"
proof (cases "b < b'")
  case True
  have b: "1 \<le> b" using assms(1) by (simp add: fits_def)
  have "(2 :: int) ^ (b - 1) * 2 ^ (b' - b) = 2 ^ (b' - 1)" using True b by (simp flip: power_add)
  moreover have "- (2 ^ (b - 1)) * 2 ^ (b' - b) \<le> sint v * 2 ^ (b' - b)" "sint v * 2 ^ (b' - b) < 2 ^ (b - 1) * 2 ^ (b' - b)"
    by (rule mult_right_mono) (use assms(1) in \<open>simp_all add: fits_def\<close>)
  ultimately show ?thesis
    using True push_drop_fits(2) [OF assms(1), of "b' - b"] assms(2,3) by (simp add: fits_def nat_diff_distrib flip: of_nat_diff)
next
  case False
  have "(2 :: int) ^ (b - 1) = 2 ^ (b' - 1) * 2 ^ (b - b')" using False assms(2) by (simp flip: power_add)
  then have "- (2 ^ (b' - 1) * 2 ^ (b - b')) \<le> sint v" "sint v < 2 ^ (b' - 1) * 2 ^ (b - b')"
    using assms(1) by (simp_all add: fits_def)
  then show ?thesis
    using False div_bounds [of "2 ^ (b' - 1)" "2 ^ (b - b')" "sint v"] assms(2)
    by (simp add: fits_def sint_signed_drop_bit nat_diff_distrib flip: of_nat_diff)
qed

end
