(* ===== verification/Pcm_Blocks.thy ===== *)
theory Pcm_Blocks
  imports Prelude
begin

text \<open>
  The cutting of a byte stream into blocks that \<open>Encoder.Write\<close> and \<open>FrameEncoder.Write\<close> share:
  bytes short of a block are kept, the block straddling two calls is joined, every further whole
  block is passed on as it is. \<open>step\<close> passes on one block and may fail.
\<close>

section \<open>The loop\<close>

type_synonym 'st block_step = "u8 list \<Rightarrow> 'st \<Rightarrow> err option \<times> 'st"

function wholeBlocks :: "'st block_step \<Rightarrow> nat \<Rightarrow> u8 list \<Rightarrow> nat \<Rightarrow> 'st \<Rightarrow> err option \<times> u8 list \<times> nat \<times> 'st" where
  "wholeBlocks step sz p emitted st =
     (if sz = 0 \<or> length p < sz then (None, p, emitted, st)
      else case step (take sz p) st of
             (Some e, st) \<Rightarrow> (Some e, p, emitted, st)
           | (None, st) \<Rightarrow> wholeBlocks step sz (drop sz p) (emitted + 1) st)"
  by pat_completeness auto
termination by (relation "measure (\<lambda>(_, _, p, _, _). length p)") auto

declare wholeBlocks.simps [simp del]

text \<open>
  The result: the error, the new leftover, the number of blocks passed on and the new state. A
  failure in the joined block leaves the leftover as it was; a later one leaves it empty.
\<close>

definition joinBlocks :: "'st block_step \<Rightarrow> nat \<Rightarrow> u8 list \<Rightarrow> u8 list \<Rightarrow> 'st \<Rightarrow> err option \<times> u8 list \<times> nat \<times> 'st" where
  "joinBlocks step sz leftover p st =
     (let stash = (\<lambda>(err, rest, emitted, st). (err, if err = None then rest else [], emitted, st))
      in if length leftover > 0 then
           (let need = sz - length leftover
            in if length p < need then (None, leftover @ p, 0, st)
               else case step (leftover @ take need p) st of
                      (Some e, st) \<Rightarrow> (Some e, leftover, 0, st)
                    | (None, st) \<Rightarrow> stash (wholeBlocks step sz (drop need p) 1 st))
         else stash (wholeBlocks step sz p 0 st))"

section \<open>A step that takes whole blocks\<close>

text \<open>
  What the loop is used for: \<open>rel B st\<close> says that \<open>st\<close> has taken in exactly the bytes \<open>B\<close> as
  whole blocks, and \<open>adm\<close> which streams the step is able to take.
\<close>

locale block_stream =
  fixes step :: "'st block_step" and sz :: nat and rel :: "u8 list \<Rightarrow> 'st \<Rightarrow> bool" and adm :: "u8 list \<Rightarrow> bool"
  assumes step_rel: "rel B st \<Longrightarrow> sz dvd length B \<Longrightarrow> length b = sz \<Longrightarrow> adm (B @ b) \<Longrightarrow>
      \<exists>st'. step b st = (None, st') \<and> rel (B @ b) st'"
    and sz_pos: "rel B st \<Longrightarrow> 0 < sz"
    and adm_prefix: "adm (B @ b) \<Longrightarrow> adm B"
begin

definition stands :: "u8 list \<Rightarrow> u8 list \<Rightarrow> u8 list \<Rightarrow> 'st \<Rightarrow> bool" where
  "stands bytes B l st \<longleftrightarrow> rel B st \<and> bytes = B @ l \<and> sz dvd length B \<and> length l < sz"

lemma whole:
  assumes "rel B st" "sz dvd length B" "adm (B @ p)"
  shows "\<exists>B' l' k st'. wholeBlocks step sz p n st = (None, l', n + k, st') \<and> stands (B @ p) B' l' st'
    \<and> length B' = length B + sz * k"
  using assms
proof (induction "length p" arbitrary: B p n st rule: less_induct)
  case less
  note pos = sz_pos [OF less.prems(1)]
  show ?case
  proof (cases "length p < sz")
    case True
    then have "wholeBlocks step sz p n st = (None, p, n, st)" by (subst wholeBlocks.simps) simp
    then show ?thesis
      using less.prems True by (intro exI [of _ B] exI [of _ p] exI [of _ 0] exI [of _ st]) (simp add: stands_def)
  next
    case False
    then have l: "length (take sz p) = sz" and s: "B @ p = (B @ take sz p) @ drop sz p" by simp_all
    have "adm (B @ take sz p)" using less.prems(3) unfolding s by (rule adm_prefix)
    from step_rel [OF less.prems(1,2) l this] obtain st1 where
      st1: "step (take sz p) st = (None, st1)" "rel (B @ take sz p) st1" by blast
    have d: "sz dvd length (B @ take sz p)" using less.prems(2) l by simp
    have a: "adm ((B @ take sz p) @ drop sz p)" using less.prems(3) by simp
    have "length (drop sz p) < length p" using False pos by simp
    from less.hyps [OF this st1(2) d a, of "n + 1"] obtain B' l' k st' where
      "wholeBlocks step sz (drop sz p) (n + 1) st1 = (None, l', n + 1 + k, st')"
      "stands ((B @ take sz p) @ drop sz p) B' l' st'" "length B' = length (B @ take sz p) + sz * k" by blast
    moreover have "wholeBlocks step sz p n st = wholeBlocks step sz (drop sz p) (n + 1) st1"
      using False pos st1(1) by (subst wholeBlocks.simps) simp
    ultimately show ?thesis
      using l by (intro exI [of _ B'] exI [of _ l'] exI [of _ "Suc k"] exI [of _ st']) simp
  qed
qed

end

section \<open>Where the calls were split leaves no trace\<close>

lemma wholeBlocks_offset:
  "wholeBlocks step sz p (n + m) st = (case wholeBlocks step sz p n st of (err, l, k, st') \<Rightarrow> (err, l, k + m, st'))"
proof (induction "length p" arbitrary: p n st rule: less_induct)
  case less
  show ?case
  proof (cases "sz = 0 \<or> length p < sz")
    case False
    then have "length (drop sz p) < length p" by auto
    from less.hyps [OF this, of "Suc n"] show ?thesis
      using False by (subst (1 2) wholeBlocks.simps) (auto split: prod.split option.split)
  qed (simp add: wholeBlocks.simps [of step sz p])
qed

lemma wholeBlocks_short: "length p < sz \<Longrightarrow> wholeBlocks step sz p n st = (None, p, n, st)"
  by (subst wholeBlocks.simps) simp

lemma wholeBlocks_step:
  assumes "length b = sz" "0 < sz"
  shows "wholeBlocks step sz (b @ q) n st =
    (case step b st of (Some e, st) \<Rightarrow> (Some e, b @ q, n, st) | (None, st) \<Rightarrow> wholeBlocks step sz q (n + 1) st)"
proof -
  have z: "(sz = 0) = False" using assms(2) by simp
  have d: "take sz (b @ q) = b" "drop sz (b @ q) = q" "\<not> length (b @ q) < sz" using assms by simp_all
  show ?thesis using d(3) by (subst wholeBlocks.simps, unfold d z) (simp only: if_False simp_thms)
qed

lemma wholeBlocks_append:
  assumes "0 < sz" "wholeBlocks step sz p n st = (None, l, m, st1)"
  shows "length l < sz \<and> wholeBlocks step sz (p @ q) n st = wholeBlocks step sz (l @ q) m st1"
  using assms(2)
proof (induction "length p" arbitrary: p n st rule: less_induct)
  case less
  show ?case
  proof (cases "length p < sz")
    case True
    then show ?thesis using less.prems by (simp add: wholeBlocks_short)
  next
    case False
    define b r where "b = take sz p" and "r = drop sz p"
    have b: "p = b @ r" "length b = sz" "length r < length p" using False assms(1) by (simp_all add: b_def r_def)
    obtain st2 where s: "step b st = (None, st2)" "wholeBlocks step sz r (n + 1) st2 = (None, l, m, st1)"
      using less.prems unfolding b(1) wholeBlocks_step [OF b(2) assms(1)] by (auto split: prod.splits option.splits)
    from less.hyps [OF b(3) s(2)] show ?thesis
      unfolding b(1) append_assoc wholeBlocks_step [OF b(2) assms(1)] s(1) by simp
  qed
qed

lemma wholeBlocks_error:
  assumes "0 < sz" "fst (wholeBlocks step sz p n st) \<noteq> None"
  shows "fst (wholeBlocks step sz (p @ q) n st) \<noteq> None"
  using assms(2)
proof (induction "length p" arbitrary: p n st rule: less_induct)
  case less
  have "\<not> length p < sz" using less.prems by (auto simp: wholeBlocks_short)
  define b r where "b = take sz p" and "r = drop sz p"
  have b: "p = b @ r" "length b = sz" "length r < length p"
    using \<open>\<not> length p < sz\<close> assms(1) by (simp_all add: b_def r_def)
  show ?case
    using less.prems less.hyps [OF b(3)]
    unfolding b(1) append_assoc wholeBlocks_step [OF b(2) assms(1)] by (auto split: prod.splits option.splits)
qed

lemma joinBlocks_whole:
  assumes "length l < sz" "wholeBlocks step sz (l @ q) 0 st = (None, l', k, st')"
  shows "joinBlocks step sz l q st = (None, l', k, st')"
proof (cases "l = [] \<or> length (l @ q) < sz")
  case True
  then show ?thesis using assms by (auto simp: joinBlocks_def wholeBlocks_short Let_def)
next
  case False
  define b r where "b = l @ take (sz - length l) q" and "r = drop (sz - length l) q"
  have b: "l @ q = b @ r" "length b = sz" "0 < sz" using False assms(1) by (auto simp: b_def r_def)
  have w: "wholeBlocks step sz (b @ r) 0 st = (None, l', k, st')" using assms(2) b(1) by simp
  then obtain st1 where s: "step b st = (None, st1)" "wholeBlocks step sz r 1 st1 = (None, l', k, st')"
    unfolding wholeBlocks_step [OF b(2,3)] by (auto split: prod.splits option.splits)
  moreover have "\<not> length q < sz - length l" using False by auto
  ultimately show ?thesis using False by (simp add: joinBlocks_def b_def r_def Let_def)
qed

text \<open>A client's calls one after another, the leftover handed from each to the next.\<close>

fun joinAll :: "'st block_step \<Rightarrow> nat \<Rightarrow> u8 list list \<Rightarrow> u8 list \<Rightarrow> 'st \<Rightarrow> err option \<times> u8 list \<times> nat \<times> 'st" where
  "joinAll step sz [] l st = (None, l, 0, st)"
| "joinAll step sz (p # ps) l st =
     (case joinBlocks step sz l p st of
        (Some e, l, k, st) \<Rightarrow> (Some e, l, k, st)
      | (None, l, k, st) \<Rightarrow> (case joinAll step sz ps l st of (err, l, k', st) \<Rightarrow> (err, l, k + k', st)))"

lemma joinAll_whole:
  assumes "length l < sz" "wholeBlocks step sz (l @ concat ps) 0 st = (None, l', k, st')"
  shows "joinAll step sz ps l st = (None, l', k, st')"
  using assms(1,2)
proof (induction ps arbitrary: l st k)
  case Nil
  then show ?case by (simp add: wholeBlocks_short)
next
  case (Cons p ps)
  have pos: "0 < sz" using Cons.prems(1) by auto
  obtain err l1 k1 st1 where w: "wholeBlocks step sz (l @ p) 0 st = (err, l1, k1, st1)" by (metis prod_cases4)
  have err: "err = None"
  proof (rule ccontr)
    assume "err \<noteq> None"
    then have "fst (wholeBlocks step sz ((l @ p) @ concat ps) 0 st) \<noteq> None"
      using wholeBlocks_error [OF pos, of step "l @ p"] w by (metis fst_conv)
    then show False using Cons.prems(2) by simp
  qed
  note A = wholeBlocks_append [OF pos w [unfolded err], of "concat ps"]
  have "wholeBlocks step sz (l1 @ concat ps) k1 st1 = (None, l', k, st')"
    using A Cons.prems(2) by simp
  then obtain k2 where k2: "wholeBlocks step sz (l1 @ concat ps) 0 st1 = (None, l', k2, st')" "k = k2 + k1"
    using wholeBlocks_offset [of step sz "l1 @ concat ps" 0 k1 st1] by (auto split: prod.splits)
  have "joinBlocks step sz l p st = (None, l1, k1, st1)"
    using joinBlocks_whole [OF Cons.prems(1) w [unfolded err]] .
  then show ?case using Cons.IH [OF _ k2(1)] A k2(2) by simp
qed


section \<open>States the step does not tell apart\<close>

lemma wholeBlocks_map:
  assumes "\<And>b st. step b (g st) = (case step b st of (r, st') \<Rightarrow> (r, g st'))"
  shows "wholeBlocks step sz p n (g st) = (case wholeBlocks step sz p n st of (err, l, k, st') \<Rightarrow> (err, l, k, g st'))"
proof (induction "length p" arbitrary: p n st rule: less_induct)
  case less
  show ?case
  proof (cases "sz = 0 \<or> length p < sz")
    case False
    then have "length (drop sz p) < length p" by auto
    from less.hyps [OF this] show ?thesis
      using False by (subst (1 2) wholeBlocks.simps) (auto simp: assms split: prod.split option.split)
  qed (simp add: wholeBlocks.simps [of step sz p])
qed

lemma joinBlocks_map:
  assumes "\<And>b st. step b (g st) = (case step b st of (r, st') \<Rightarrow> (r, g st'))"
  shows "joinBlocks step sz l p (g st) = (case joinBlocks step sz l p st of (err, l, k, st') \<Rightarrow> (err, l, k, g st'))"
  by (auto simp: joinBlocks_def Let_def assms wholeBlocks_map [where step = step and g = g, OF assms] split: prod.split option.split)

lemma wholeBlocks_keeps:
  assumes "\<And>b st. f (snd (step b st)) = f st"
  shows "f (snd (snd (snd (wholeBlocks step sz p n st)))) = f st"
proof (induction "length p" arbitrary: p n st rule: less_induct)
  case less
  show ?case
  proof (cases "sz = 0 \<or> length p < sz")
    case False
    then have "length (drop sz p) < length p" by auto
    from less.hyps [OF this] show ?thesis
      using False assms [of "take sz p" st] by (subst wholeBlocks.simps) (auto split: prod.split option.split)
  qed (simp add: wholeBlocks.simps [of step sz p])
qed

lemma joinBlocks_keeps:
  assumes "\<And>b st. f (snd (step b st)) = f st"
  shows "f (snd (snd (snd (joinBlocks step sz l p st)))) = f st"
proof -
  have w: "f st3 = f st0" if "wholeBlocks step sz q n st0 = (err, r, k, st3)" for q n st0 err r k st3
    using wholeBlocks_keeps [where step = step and f = f, OF assms, of sz q n st0] that by simp
  have s: "f st1 = f st0" if "step b st0 = (r, st1)" for b st0 r st1 using assms [of b st0] that by simp
  show ?thesis by (auto simp: joinBlocks_def Let_def split: prod.split option.split dest!: w s)
qed

lemma wholeBlocks_rest:
  assumes "wholeBlocks step sz p n st = (err, l, m, st')"
  shows "\<exists>j. length p = sz * j + length l"
  using assms
proof (induction "length p" arbitrary: p n st rule: less_induct)
  case less
  show ?case
  proof (cases "sz = 0 \<or> length p < sz")
    case True
    then show ?thesis using less.prems by (auto simp: wholeBlocks.simps [of step sz p])
  next
    case False
    then have z: "0 < sz" and b: "p = take sz p @ drop sz p" "length (take sz p) = sz" "length (drop sz p) < length p" by auto
    show ?thesis
    proof (cases "fst (step (take sz p) st)")
      case None
      then obtain st1 where "wholeBlocks step sz (drop sz p) (n + 1) st1 = (err, l, m, st')"
        using less.prems wholeBlocks_step [OF b(2) z, of step "drop sz p" n st] b(1) by (auto split: prod.splits)
      from less.hyps [OF b(3) this] obtain j where "length (drop sz p) = sz * j + length l" by blast
      then have "length p = sz * Suc j + length l" using False by simp linarith
      then show ?thesis by blast
    next
      case (Some e)
      then have "l = p"
        using less.prems wholeBlocks_step [OF b(2) z, of step "drop sz p" n st] b(1) by (auto split: prod.splits)
      then show ?thesis by (intro exI [of _ 0]) simp
    qed
  qed
qed

end
