(* ===== verification/Pcm_Frames.thy ===== *)
theory Pcm_Frames
  imports Pcm_Config Pcm_Pack Pcm_Blocks Frame_Encode
begin

text \<open>
  Frames for containers (\<open>pcm/frameio.go\<close>): \<open>FrameEncoder\<close>, whole buffer or incremental, and
  \<open>FrameDecoder\<close>, with the encoder state \<open>Encoder\<close> shares (\<open>pcm/encoder.go\<close>). The running MD5 is
  the list of bytes hashed so far and the digest a parameter; a run-time panic is \<open>ErrPanic\<close>; the
  caller's \<open>emit\<close> is a function on the caller's own state.
\<close>

section \<open>The encoder state\<close>

record 'f encState =
  es_cfg :: Config
  es_si :: StreamInfo
  es_params :: Params
  es_bytesPS :: nat
  es_frameLen :: nat
  es_bw :: writer
  es_work :: "'f Workspace"
  es_md5 :: "u8 list"
  es_skipHash :: bool
  es_frameNum :: u64
  es_total :: u64
  es_sizes :: frameSizes

text \<open>
  The part of \<open>emitBlock\<close> and \<open>emitFrame\<close> before the frame is handed over, and the part after it
  was accepted.
\<close>

definition encodeChunk ::
  "'f float64 \<Rightarrow> (u8 list \<Rightarrow> u16) \<Rightarrow> u8 list \<Rightarrow> nat \<Rightarrow> ('f, 'z) encState_scheme \<Rightarrow> (u8 list \<times> ('f, 'z) encState_scheme) option" where
  "encodeChunk F cs chunk n es =
     (let chs = deinterleaveSamples chunk n (nat (cf_Channels (es_cfg es))) (es_bytesPS es)
      in case EncodeFrame F cs (es_bw es) (es_work es) (es_params es) (es_si es) chs (es_frameNum es) of
           None \<Rightarrow> None
         | Some (buf, bw, work) \<Rightarrow> Some (buf, es\<lparr>es_bw := bw, es_work := work\<rparr>))"

definition hashChunk :: "u8 list \<Rightarrow> ('f, 'z) encState_scheme \<Rightarrow> ('f, 'z) encState_scheme" where
  "hashChunk chunk es = (if \<not> es_skipHash es then es\<lparr>es_md5 := es_md5 es @ chunk\<rparr> else es)"

definition countFrame :: "nat \<Rightarrow> nat \<Rightarrow> bool \<Rightarrow> ('f, 'z) encState_scheme \<Rightarrow> ('f, 'z) encState_scheme" where
  "countFrame sz n final es =
     es\<lparr>es_frameNum := es_frameNum es + 1, es_total := es_total es + of_nat n, es_sizes := foldSizes sz n final (es_sizes es)\<rparr>"

section \<open>FrameEncoder\<close>

record 'f FrameEncoder = "'f encState" +
  fe_leftover :: "u8 list"
  fe_started :: bool
  fe_done :: bool

type_synonym 'c emitter = "u8 list \<Rightarrow> nat \<Rightarrow> 'c \<Rightarrow> err option \<times> 'c"

definition NewFrameEncoder :: "'f float64 \<Rightarrow> Config \<Rightarrow> err + 'f FrameEncoder" where
  "NewFrameEncoder F cfg =
     (case validateConfig cfg of
        Some e \<Rightarrow> Inl e
      | None \<Rightarrow>
          let params = paramsForLevel (cf_CompressionLevel cfg)
          in Inr \<lparr>es_cfg = cfg, es_si = cfgInfo cfg, es_params = params, es_bytesPS = cfgBytesPS cfg,
                  es_frameLen = cfgBytesPS cfg * nat (cf_Channels cfg), es_bw = NewWriter,
                  es_work = NewWorkspace F encoderBlockSize (nat (cf_Channels cfg)) (p_MaxLPCOrder params),
                  es_md5 = [], es_skipHash = cf_SkipMD5 cfg, es_frameNum = 0, es_total = 0, es_sizes = noSizes,
                  fe_leftover = [], fe_started = False, fe_done = False\<rparr>)"

definition emitFrame ::
  "'f float64 \<Rightarrow> (u8 list \<Rightarrow> u16) \<Rightarrow> 'c emitter \<Rightarrow> u8 list \<Rightarrow> nat \<Rightarrow> bool
   \<Rightarrow> 'f FrameEncoder \<times> 'c \<Rightarrow> err option \<times> 'f FrameEncoder \<times> 'c" where
  "emitFrame F cs emit chunk n final st =
     (case st of (e, c) \<Rightarrow>
       case encodeChunk F cs chunk n e of
         None \<Rightarrow> (Some ErrPanic, e, c)
       | Some (buf, e) \<Rightarrow>
           (case emit buf n c of
              (Some err, c) \<Rightarrow> (Some err, e, c)
            | (None, c) \<Rightarrow> (None, countFrame (length buf) n final (hashChunk chunk e), c)))"

text \<open>The loop of \<open>EncodeInterleaved\<close>; a block of no bytes cannot be, \<open>frameLen\<close> being positive.\<close>

function encodeBlocks ::
  "'f float64 \<Rightarrow> (u8 list \<Rightarrow> u16) \<Rightarrow> 'c emitter \<Rightarrow> nat \<Rightarrow> u8 list
   \<Rightarrow> 'f FrameEncoder \<times> 'c \<Rightarrow> err option \<times> 'f FrameEncoder \<times> 'c" where
  "encodeBlocks F cs emit blockBytes pcm st =
     (if pcm = [] \<or> blockBytes = 0 then (None, st)
      else
        let chunk = take blockBytes pcm; n = length chunk div es_frameLen (fst st); final = (length pcm \<le> blockBytes)
        in case emitFrame F cs emit chunk n final st of
             (Some e, st) \<Rightarrow> (Some e, st)
           | (None, st) \<Rightarrow> encodeBlocks F cs emit blockBytes (drop blockBytes pcm) st)"
  by pat_completeness auto
termination by (relation "measure (\<lambda>(_, _, _, _, pcm, _). length pcm)") auto

declare encodeBlocks.simps [simp del]

definition declaredTotal :: "('f, 'z) encState_scheme \<Rightarrow> err option" where
  "declaredTotal e =
     (if cf_TotalSamples (es_cfg e) > 0 \<and> es_total e \<noteq> cf_TotalSamples (es_cfg e) then Some ErrUsage else None)"

definition feEncodeInterleaved ::
  "'f float64 \<Rightarrow> (u8 list \<Rightarrow> u16) \<Rightarrow> u8 list \<Rightarrow> 'c emitter \<Rightarrow> 'f FrameEncoder \<times> 'c \<Rightarrow> err option \<times> 'f FrameEncoder \<times> 'c" where
  "feEncodeInterleaved F cs pcm emit st =
     (case st of (e, c) \<Rightarrow>
       if fe_done e \<or> fe_started e then (Some ErrUsage, e, c)
       else
         let e = e\<lparr>fe_done := True\<rparr>
         in if length pcm mod es_frameLen e \<noteq> 0 then (Some ErrUsage, e, c)
            else case encodeBlocks F cs emit (encoderBlockSize * es_frameLen e) pcm (e, c) of
                   (Some err, e, c) \<Rightarrow> (Some err, e, c)
                 | (None, e, c) \<Rightarrow> (declaredTotal e, e, c))"

text \<open>A \<open>nil\<close> callback is \<open>None\<close>.\<close>

definition feWrite ::
  "'f float64 \<Rightarrow> (u8 list \<Rightarrow> u16) \<Rightarrow> u8 list \<Rightarrow> 'c emitter option \<Rightarrow> 'f FrameEncoder \<times> 'c
   \<Rightarrow> nat \<times> err option \<times> 'f FrameEncoder \<times> 'c" where
  "feWrite F cs p emit st =
     (case st of (e, c) \<Rightarrow>
       if fe_done e then (0, Some ErrUsage, e, c)
       else case emit of
         None \<Rightarrow> (0, Some ErrUsage, e, c)
       | Some emit \<Rightarrow>
           let e = e\<lparr>fe_started := True\<rparr>
           in case joinBlocks (\<lambda>chunk. emitFrame F cs emit chunk encoderBlockSize False) (encoderBlockSize * es_frameLen e)
                     (fe_leftover e) p (e, c) of
                (err, leftover, framesEmitted, e, c) \<Rightarrow> (framesEmitted, err, e\<lparr>fe_leftover := leftover\<rparr>, c))"

definition feFinalize ::
  "'f float64 \<Rightarrow> (u8 list \<Rightarrow> u16) \<Rightarrow> 'c emitter option \<Rightarrow> 'f FrameEncoder \<times> 'c \<Rightarrow> err option \<times> 'f FrameEncoder \<times> 'c" where
  "feFinalize F cs emit st =
     (case st of (e, c) \<Rightarrow>
       if fe_done e then (Some ErrUsage, e, c)
       else if \<not> fe_started e then (Some ErrUsage, e, c)
       else case emit of
         None \<Rightarrow> (Some ErrUsage, e, c)
       | Some emit \<Rightarrow>
           let e = e\<lparr>fe_done := True\<rparr>; leftover = fe_leftover e;
               finish = (\<lambda>(e, c). let e = e\<lparr>fe_leftover := []\<rparr> in (declaredTotal e, e, c))
           in if length leftover > 0 then
                (if length leftover mod es_frameLen e \<noteq> 0 then (Some ErrUsage, e, c)
                 else case emitFrame F cs emit leftover (length leftover div es_frameLen e) True (e, c) of
                        (Some err, e, c) \<Rightarrow> (Some err, e, c)
                      | (None, e, c) \<Rightarrow> finish (e, c))
              else finish (e, c))"

definition streamInfoParams :: "(u8 list \<Rightarrow> u8 list) \<Rightarrow> 'f FrameEncoder \<Rightarrow> StreamInfo \<times> nat \<times> nat \<times> nat \<times> nat" where
  "streamInfoParams md5 e =
     (let si = es_si e; total = cf_TotalSamples (es_cfg e); z = es_sizes e
      in if \<not> fe_done e then
           (let blk = encoderBlockSize;
                blk = (if total > 0 then unat (min total (of_nat encoderBlockSize)) else blk);
                blk = max blk minStreamInfoBlockSize
            in (si, blk, blk, 0, 0))
         else
           (let si = si\<lparr>si_TotalSamples := es_total e\<rparr>;
                si = (if \<not> es_skipHash e then si\<lparr>si_MD5 := md5 (es_md5 e)\<rparr> else si)
            in if \<not> fz_wrote z then (si, minStreamInfoBlockSize, minStreamInfoBlockSize, 0, 0)
               else (si, max (fz_minBlock z) minStreamInfoBlockSize, max (fz_maxBlock z) minStreamInfoBlockSize,
                     fz_minFrame z, fz_maxFrame z)))"

definition StreamInfoBytes :: "(u8 list \<Rightarrow> u8 list) \<Rightarrow> 'f FrameEncoder \<Rightarrow> u8 list" where
  "StreamInfoBytes md5 e =
     (case streamInfoParams md5 e of (si, minB, maxB, minF, maxF) \<Rightarrow> EncodeStreamInfo si minB maxB minF maxF)"

definition feStreamInfo :: "(u8 list \<Rightarrow> u8 list) \<Rightarrow> 'f FrameEncoder \<Rightarrow> StreamInfo" where
  "feStreamInfo md5 e = fst (streamInfoParams md5 e)"

section \<open>FrameDecoder\<close>

text \<open>
  \<open>frame\<close> and \<open>out\<close> are overwritten by every call before they are read; the zero value of
  \<open>bitio.Reader\<close> has no buffer.
\<close>

record FrameDecoder =
  fd_si :: StreamInfo
  fd_bytesPS :: nat
  fd_br :: "frameCRC reader"

definition zeroReader :: "frameCRC reader" where
  "zeroReader = fresh_reader [] [] fcReset"

definition NewFrameDecoder :: "u8 list \<Rightarrow> err + FrameDecoder" where
  "NewFrameDecoder streamInfo =
     (case DecodeStreamInfo streamInfo of
        Inl e \<Rightarrow> Inl e
      | Inr si \<Rightarrow> Inr \<lparr>fd_si = si, fd_bytesPS = (si_BitDepth si + 7) div 8, fd_br = zeroReader\<rparr>)"

definition frameCut :: "err \<Rightarrow> err" where
  "frameCut e = (if e = EOF \<or> e = ErrUnexpectedEOF then ErrTruncatedStream (Some e) else e)"

definition DecodeInterleaved :: "(u8 list \<Rightarrow> u16) \<Rightarrow> u8 list \<Rightarrow> FrameDecoder \<Rightarrow> (err + u8 list \<times> nat) \<times> FrameDecoder" where
  "DecodeInterleaved cs f d =
     (let si = fd_si d
      in case Decode cs si (Reset (bytesReader f) (fd_br d)) of
           (Inl e, br) \<Rightarrow> (Inl (frameCut e), d\<lparr>fd_br := br\<rparr>)
         | (Inr fr, br) \<Rightarrow>
             (if length (fr_Channels fr) \<noteq> si_Channels si \<or> fr_SampleRate fr \<noteq> si_SampleRate si \<or> fr_BitsPerSample fr \<noteq> si_BitDepth si
              then Inl ErrUsage else Inr (appendPacked [] fr (fd_bytesPS d), fr_BlockSize fr),
              d\<lparr>fd_br := br\<rparr>))"

text \<open>A demuxer: the frames of a container, one after another.\<close>

fun decodeFrames :: "(u8 list \<Rightarrow> u16) \<Rightarrow> FrameDecoder \<Rightarrow> u8 list list \<Rightarrow> (err + u8 list) \<times> FrameDecoder" where
  "decodeFrames cs d [] = (Inr [], d)"
| "decodeFrames cs d (f # fs) =
     (case DecodeInterleaved cs f d of
        (Inl e, d) \<Rightarrow> (Inl e, d)
      | (Inr (pcm, _), d) \<Rightarrow> (case decodeFrames cs d fs of (Inl e, d) \<Rightarrow> (Inl e, d) | (Inr rest, d) \<Rightarrow> (Inr (pcm @ rest), d)))"

section \<open>What a frame carries\<close>

text \<open>Decoding looks at the sample rate and the depth of STREAMINFO only.\<close>

lemma Decode_cong:
  assumes "si_SampleRate si = si_SampleRate si'" "si_BitDepth si = si_BitDepth si'"
  shows "Decode cs si = Decode cs si'"
proof -
  have "(readHeaderFields si :: (header, frameCRC) rm) = readHeaderFields si'"
    unfolding readHeaderFields_def decodeSampleRate_def decodeBitsPerSample_def assms ..
  then show ?thesis by (intro ext) (simp add: Decode_def readHeaderBody_def cong: if_cong)
qed

lemma decodes_cong:
  assumes "si_SampleRate si = si_SampleRate si'" "si_BitDepth si = si_BitDepth si'"
  shows "decodes cs si = decodes cs si'"
  by (intro ext) (simp add: decodes_def Decode_cong [OF assms])

lemma blockFrame_cong:
  assumes "si_SampleRate si = si_SampleRate si'" "si_BitDepth si = si_BitDepth si'"
  shows "blockFrame n si = blockFrame n si'"
  by (intro ext) (simp add: blockFrame_def assms)

definition sampleBytes :: "Config \<Rightarrow> nat" where
  "sampleBytes cfg = cfgBytesPS cfg * nat (cf_Channels cfg)"

definition samplesFit :: "nat \<Rightarrow> nat \<Rightarrow> u8 list \<Rightarrow> bool" where
  "samplesFit bits k B = list_all (\<lambda>i. fits bits (sint (sample_val (take k (drop (k * i) B))))) [0..<length B div k]"

text \<open>The input an encoder is made for: samples of the declared depth, fewer than \<open>2 ^ 36\<close> of them.\<close>

definition encodable :: "Config \<Rightarrow> u8 list \<Rightarrow> bool" where
  "encodable cfg B \<longleftrightarrow> samplesFit (si_BitDepth (cfgInfo cfg)) (cfgBytesPS cfg) B \<and> length B div sampleBytes cfg < 2 ^ 36"

lemma item_bound: "i < L div k \<Longrightarrow> k * i + k \<le> L" for i k L :: nat
proof -
  assume "i < L div k"
  then have "k * Suc i \<le> k * (L div k)" by (intro mult_le_mono2) simp
  also have "\<dots> \<le> L" by simp
  finally show ?thesis by simp
qed

lemma samplesFitD:
  assumes "samplesFit bits k B" "k * i + k \<le> length B" "1 \<le> k"
  shows "fits bits (sint (sample_val (take k (drop (k * i) B))))"
proof -
  have "k * (i + 1) div k \<le> length B div k" using assms(2) by (intro div_le_mono) simp
  then have "i < length B div k" using assms(3) by (simp add: nonzero_mult_div_cancel_left del: mult_Suc_right)
  then show ?thesis using assms(1) by (simp add: samplesFit_def list_all_iff)
qed

lemma samplesFit_prefix:
  assumes "samplesFit bits k (B @ b)" "1 \<le> k"
  shows "samplesFit bits k B"
proof -
  have "fits bits (sint (sample_val (take k (drop (k * i) B))))" if "i < length B div k" for i
  proof -
    have "k * i + k \<le> length B" using that by (rule item_bound)
    then show ?thesis using samplesFitD [OF assms(1), of i] assms(2) by simp
  qed
  then show ?thesis by (simp add: samplesFit_def list_all_iff)
qed

lemma samplesFit_suffix:
  assumes "samplesFit bits k (B @ b)" "k dvd length B" "1 \<le> k"
  shows "samplesFit bits k b"
proof -
  obtain m where m: "length B = k * m" using assms(2) by blast
  have "fits bits (sint (sample_val (take k (drop (k * i) b))))" if "i < length b div k" for i
  proof -
    have "k * i + k \<le> length b" using that by (rule item_bound)
    then have "k * (m + i) + k \<le> length (B @ b)" using m by (simp add: distrib_left)
    from samplesFitD [OF assms(1) this assms(3)] show ?thesis by (simp add: m distrib_left)
  qed
  then show ?thesis by (simp add: samplesFit_def list_all_iff)
qed

text \<open>At a depth of whole bytes every input fits.\<close>

lemma samplesFit_bytes:
  assumes "1 \<le> k" "k \<le> 4"
  shows "samplesFit (8 * k) k B"
proof -
  have "fits (8 * k) (sint (sample_val (take k (drop (k * i) B))))" if "i < length B div k" for i
  proof -
    have "k * i + k \<le> length B" using that by (rule item_bound)
    then have "length (take k (drop (k * i) B)) = k" by simp
    then show ?thesis using sample_val_fits [of "take k (drop (k * i) B)"] assms by simp
  qed
  then show ?thesis by (simp add: samplesFit_def list_all_iff)
qed

lemma rows_ok_fit:
  assumes "1 \<le> k" "k \<le> 4" "length b = k * nch * n" "samplesFit bits k b"
  shows "rows_ok bits n nch (deinterleaveSamples b n nch k)"
proof -
  have "fits bits (sint (sample_val (take k (drop (k * (nch * i + c)) b))))" if "i < n" "c < nch" for i c
    using samplesFitD [OF assms(4) _ assms(1), of "nch * i + c"] index_bound [OF that, of k] assms(3) by simp
  then show ?thesis
    by (auto simp: rows_ok_def deinterleaveSamples_generic [OF assms(1-3)] generic_rows [OF assms(1-3)])
qed

lemma samples_ok_rows: "rows_ok bits n nch chs \<Longrightarrow> c \<in> set chs \<Longrightarrow> samples_ok n bits c"
  by (simp add: rows_ok_def samples_ok_def)

text \<open>The frame of a chunk, and what a decoder that knows the format makes of it.\<close>

definition chunkFrame :: "Config \<Rightarrow> nat \<Rightarrow> nat \<Rightarrow> u8 list \<Rightarrow> Frame" where
  "chunkFrame cfg i n chunk =
     blockFrame n (cfgInfo cfg) (of_nat i) (deinterleaveSamples chunk n (nat (cf_Channels cfg)) (cfgBytesPS cfg))"

lemma chunkFrame_packed:
  assumes "validateConfig cfg = None" "length chunk = sampleBytes cfg * n"
  shows "appendPacked [] (chunkFrame cfg i n chunk) (cfgBytesPS cfg) = chunk"
    "length (fr_Channels (chunkFrame cfg i n chunk)) = nat (cf_Channels cfg)"
proof -
  let ?k = "cfgBytesPS cfg" and ?nch = "nat (cf_Channels cfg)"
  have k: "1 \<le> ?k" "?k \<le> 4" using cfgBytesPS_bounds [OF assms(1)] by simp_all
  have l: "length chunk = ?k * ?nch * n" using assms(2) by (simp add: sampleBytes_def)
  have r: "rows_ok (8 * ?k) n ?nch (deinterleaveSamples chunk n ?nch ?k)" using rows_ok_deinterleaveSamples [OF k l] .
  then show "length (fr_Channels (chunkFrame cfg i n chunk)) = ?nch"
    by (simp add: chunkFrame_def blockFrame_def rows_ok_def)
  have "frame_rows (chunkFrame cfg i n chunk)"
    using r by (simp add: frame_rows_def chunkFrame_def blockFrame_def rows_ok_def)
  from appendPacked_rows [OF this, of "[]"] show "appendPacked [] (chunkFrame cfg i n chunk) ?k = chunk"
    using packRows_deinterleaveSamples [OF k l] by (simp add: chunkFrame_def blockFrame_def)
qed

section \<open>One chunk is encoded\<close>

definition sameFormat :: "StreamInfo \<Rightarrow> StreamInfo \<Rightarrow> bool" where
  "sameFormat a b \<longleftrightarrow> si_SampleRate a = si_SampleRate b \<and> si_Channels a = si_Channels b \<and> si_BitDepth a = si_BitDepth b"

definition encoderFor :: "Config \<Rightarrow> ('f, 'z) encState_scheme \<Rightarrow> bool" where
  "encoderFor cfg e \<longleftrightarrow> validateConfig cfg = None \<and> es_cfg e = cfg \<and> sameFormat (es_si e) (cfgInfo cfg)
     \<and> es_bytesPS e = cfgBytesPS cfg \<and> es_frameLen e = sampleBytes cfg \<and> four_slots (es_work e)"

lemma sampleBytes_pos: "validateConfig cfg = None \<Longrightarrow> 1 \<le> sampleBytes cfg"
  using cfgBytesPS_bounds [of cfg] by (auto simp: sampleBytes_def validateConfig_None Suc_le_eq)

lemma encodeChunk_ok:
  assumes F: "float64_laws F" and e: "encoderFor cfg e" "unat (es_frameNum e) < 2 ^ 36"
    and chunk: "length chunk = sampleBytes cfg * n" "1 \<le> n" "n \<le> 65535"
      "samplesFit (si_BitDepth (cfgInfo cfg)) (cfgBytesPS cfg) chunk"
  shows "\<exists>buf bw work. encodeChunk F cs chunk n e = Some (buf, e\<lparr>es_bw := bw, es_work := work\<rparr>) \<and> four_slots work
    \<and> decodes cs (cfgInfo cfg) buf (chunkFrame cfg (unat (es_frameNum e)) n chunk) \<and> take 2 buf = [0xFF, 0xF8]
    \<and> length buf \<le> frameMax (nat (cf_Channels cfg)) n"
proof -
  let ?k = "cfgBytesPS cfg" and ?nch = "nat (cf_Channels cfg)"
  have v: "validateConfig cfg = None" and si: "sameFormat (es_si e) (cfgInfo cfg)" using e(1) by (simp_all add: encoderFor_def)
  have k: "1 \<le> ?k" "?k \<le> 4" using cfgBytesPS_bounds [OF v] by simp_all
  have l: "length chunk = ?k * ?nch * n" using chunk(1) by (simp add: sampleBytes_def)
  define chs where "chs = deinterleaveSamples chunk n ?nch ?k"
  have r: "rows_ok (si_BitDepth (cfgInfo cfg)) n ?nch chs" unfolding chs_def by (rule rows_ok_fit [OF k l chunk(4)])
  have nch: "1 \<le> ?nch" "?nch \<le> 8" using v by (auto simp: validateConfig_None)
  then have n: "length (chs ! 0) = n" using r by (simp add: rows_ok_def)
  have fm: "length chs = ?nch" using r by (simp add: rows_ok_def)
  have "info_ok (cfgInfo cfg)" by (rule info_ok_cfgInfo [OF v])
  then have "block_ok (es_si e) (es_frameNum e) chs"
    using r nch si e(2) chunk(2,3) samples_ok_rows [OF r]
    by (auto simp: block_ok_def frame_args_def n rows_ok_def sameFormat_def info_ok_def)
  from EncodeFrame_ok [OF F this, of "es_work e" cs "es_bw e" "es_params e"] obtain buf bw work where
    "EncodeFrame F cs (es_bw e) (es_work e) (es_params e) (es_si e) chs (es_frameNum e) = Some (buf, bw, work)"
    "four_slots work" "decodes cs (es_si e) buf (blockFrame n (es_si e) (es_frameNum e) chs)" "take 2 buf = [0xFF, 0xF8]"
    "length buf \<le> frameMax ?nch n"
    using e(1) fm unfolding n by (auto simp: encoderFor_def)
  moreover have "decodes cs (es_si e) = decodes cs (cfgInfo cfg)" "blockFrame n (es_si e) = blockFrame n (cfgInfo cfg)"
    using si by (auto simp: sameFormat_def intro: decodes_cong blockFrame_cong)
  ultimately show ?thesis
    using e(1) by (auto simp: encodeChunk_def chs_def encoderFor_def chunkFrame_def)
qed

section \<open>The frames of a stream\<close>

text \<open>
  \<open>c\<close> lists the frames handed over and their block sizes, \<open>B\<close> the bytes they stand for: the \<open>i\<close>th
  frame decodes to the \<open>i\<close>th chunk and carries the number \<open>i\<close>; all blocks but the last are full.
\<close>

definition fullBlocks :: "(u8 list \<times> nat) list \<Rightarrow> bool" where
  "fullBlocks c \<longleftrightarrow> list_all (\<lambda>(buf, n). n = encoderBlockSize) c"

lemma fullBlocks_simps [simp]: "fullBlocks []" "fullBlocks (c @ [(buf, encoderBlockSize)]) = fullBlocks c"
  by (simp_all add: fullBlocks_def)

definition frameShape :: "Config \<Rightarrow> nat \<Rightarrow> u8 list \<Rightarrow> bool" where
  "frameShape cfg n buf \<longleftrightarrow> take 2 buf = [0xFF, 0xF8] \<and> length buf \<le> frameMax (nat (cf_Channels cfg)) n"

inductive framed :: "(u8 list \<Rightarrow> u16) \<Rightarrow> Config \<Rightarrow> (u8 list \<times> nat) list \<Rightarrow> u8 list \<Rightarrow> bool" for cs cfg where
  framed_none: "framed cs cfg [] []"
| framed_next: "framed cs cfg c B \<Longrightarrow> length b = sampleBytes cfg * n \<Longrightarrow> 1 \<le> n \<Longrightarrow> n \<le> encoderBlockSize
    \<Longrightarrow> decodes cs (cfgInfo cfg) buf (chunkFrame cfg (length c) n b) \<Longrightarrow> frameShape cfg n buf \<Longrightarrow> fullBlocks c
    \<Longrightarrow> framed cs cfg (c @ [(buf, n)]) (B @ b)"

lemma framed_length: "framed cs cfg c B \<Longrightarrow> sampleBytes cfg * length c \<le> length B \<and> sampleBytes cfg dvd length B"
proof (induction rule: framed.induct)
  case (framed_next c B b n buf)
  have "sampleBytes cfg * 1 \<le> sampleBytes cfg * n" using framed_next.hyps(3) by (rule mult_le_mono2)
  then have "sampleBytes cfg + sampleBytes cfg * length c \<le> length B + sampleBytes cfg * n"
    using framed_next.IH by linarith
  then show ?case using framed_next.IH framed_next.hyps(2) by simp
qed simp

definition collect :: "(u8 list \<times> nat) list emitter" where
  "collect buf n c = (None, c @ [(buf, n)])"

section \<open>The invariant of an encoder\<close>

text \<open>Size bounds: what they bound, and that full blocks only were counted.\<close>

definition sizesBound :: "frameSizes \<Rightarrow> (u8 list \<times> nat) list \<Rightarrow> bool" where
  "sizesBound z c \<longleftrightarrow> (fz_wrote z \<longleftrightarrow> c \<noteq> []) \<and>
     list_all (\<lambda>(buf, n). fz_minFrame z \<le> length buf \<and> length buf \<le> fz_maxFrame z \<and> n \<le> fz_maxBlock z) c
     \<and> fz_minBlock z = fz_maxBlock z \<and> fz_maxBlock z \<le> encoderBlockSize"

definition nominal :: "frameSizes \<Rightarrow> bool" where
  "nominal z \<longleftrightarrow> fz_wrote z \<longrightarrow> fz_minBlock z = encoderBlockSize \<and> fz_maxBlock z = encoderBlockSize"

lemma foldSizes_full: "nominal z \<Longrightarrow> foldSizes sz encoderBlockSize True z = foldSizes sz encoderBlockSize False z"
  by (cases z) (auto simp: foldSizes_def nominal_def)

lemma nominal_foldSizes: "nominal z \<Longrightarrow> nominal (foldSizes sz encoderBlockSize final z)"
  by (auto simp: foldSizes_def nominal_def Let_def)

lemma nominal_none [simp]: "nominal noSizes"
  by (simp add: nominal_def noSizes_def)

lemma sizesBound_none [simp]: "sizesBound noSizes []"
  by (simp add: sizesBound_def noSizes_def)

lemma sizesBound_foldSizes:
  assumes "sizesBound z c" "nominal z" "n \<le> encoderBlockSize" "final \<or> n = encoderBlockSize"
  shows "sizesBound (foldSizes (length buf) n final z) (c @ [(buf, n)])"
proof (cases "fz_wrote z")
  case True
  then show ?thesis
    using assms by (auto simp: sizesBound_def nominal_def foldSizes_def Let_def list_all_iff min.coboundedI1 max.coboundedI1)
next
  case False
  then show ?thesis using assms by (auto simp: sizesBound_def foldSizes_def)
qed

definition took :: "'f float64 \<Rightarrow> (u8 list \<Rightarrow> u16) \<Rightarrow> Config \<Rightarrow> u8 list \<Rightarrow> ('f, 'z) encState_scheme \<times> (u8 list \<times> nat) list \<Rightarrow> bool" where
  "took F cs cfg B st \<longleftrightarrow> (case st of (e, c) \<Rightarrow>
     float64_laws F \<and> encoderFor cfg e \<and> framed cs cfg c B \<and> unat (es_frameNum e) = length c
     \<and> es_total e = of_nat (length B div sampleBytes cfg) \<and> es_md5 e = (if es_skipHash e then [] else B)
     \<and> sizesBound (es_sizes e) c)"

lemma samplesFit_nil [simp]: "1 \<le> k \<Longrightarrow> samplesFit bits k []"
  by (simp add: samplesFit_def)

lemma encodable_prefix: "validateConfig cfg = None \<Longrightarrow> encodable cfg (B @ b) \<Longrightarrow> encodable cfg B"
  using samplesFit_prefix [of _ "cfgBytesPS cfg" B b] cfgBytesPS_bounds(1) [of cfg] div_le_mono [of "length B" "length (B @ b)" "sampleBytes cfg"]
  by (auto simp: encodable_def)

lemma encodable_suffix:
  assumes "validateConfig cfg = None" "encodable cfg (B @ b)" "sampleBytes cfg dvd length B"
  shows "samplesFit (si_BitDepth (cfgInfo cfg)) (cfgBytesPS cfg) b"
proof -
  have "cfgBytesPS cfg dvd length B" using assms(3) by (auto simp: sampleBytes_def dvd_def)
  then show ?thesis
    using samplesFit_suffix assms(2) cfgBytesPS_bounds(1) [OF assms(1)] by (auto simp: encodable_def)
qed

text \<open>What encoding and counting one more chunk makes of the invariant.\<close>

lemma took_next:
  assumes T: "took F cs cfg B (e, c)" and b: "length b = sampleBytes cfg * n" "1 \<le> n" "n \<le> encoderBlockSize"
    and final: "nominal (es_sizes e) \<and> fullBlocks c" "final \<or> n = encoderBlockSize" and adm: "encodable cfg (B @ b)"
  shows "\<exists>buf bw work. let e1 = e\<lparr>es_bw := bw, es_work := work\<rparr> in encodeChunk F cs b n e = Some (buf, e1)
    \<and> took F cs cfg (B @ b) (countFrame (length buf) n final (hashChunk b e1), c @ [(buf, n)])"
proof -
  have v: "validateConfig cfg = None" and E: "encoderFor cfg e" and Fr: "framed cs cfg c B"
    and N: "unat (es_frameNum e) = length c" and F: "float64_laws F"
    using T by (auto simp: took_def encoderFor_def)
  note sb = sampleBytes_pos [OF v]
  have c: "length c * sampleBytes cfg \<le> length B" using framed_length [OF Fr] by (simp add: mult.commute)
  have "length c \<le> length B div sampleBytes cfg" using c sb by (simp add: less_eq_div_iff_mult_less_eq)
  also have "\<dots> < 2 ^ 36" using encodable_prefix [OF v adm] by (simp add: encodable_def)
  finally have lt: "length c < 2 ^ 36" .
  have fit: "samplesFit (si_BitDepth (cfgInfo cfg)) (cfgBytesPS cfg) b"
    using encodable_suffix [OF v adm] framed_length [OF Fr] by simp
  have "n \<le> 65535" using b(3) by (simp add: encoderBlockSize_def)
  from encodeChunk_ok [OF F E _ b(1,2) this fit, of cs] N lt obtain buf bw work where
    buf: "encodeChunk F cs b n e = Some (buf, e\<lparr>es_bw := bw, es_work := work\<rparr>)" "four_slots work"
    "decodes cs (cfgInfo cfg) buf (chunkFrame cfg (length c) n b)" "take 2 buf = [0xFF, 0xF8]" "length buf \<le> frameMax (nat (cf_Channels cfg)) n" by auto
  then have shape: "frameShape cfg n buf" by (simp add: frameShape_def)
  have N1: "unat (es_frameNum e + 1) = Suc (length c)"
    using N lt by (simp add: unat_word_ariths unat_plus_if_size word_size)
  have "length (B @ b) div sampleBytes cfg = length B div sampleBytes cfg + n"
    using sb by (simp add: b(1))
  then have tot: "es_total e + of_nat n = of_nat (length (B @ b) div sampleBytes cfg)"
    using T by (simp add: took_def)
  have sz: "sizesBound (foldSizes (length buf) n final (es_sizes e)) (c @ [(buf, n)])"
    using T final b(3) by (intro sizesBound_foldSizes) (auto simp: took_def)
  show ?thesis
    using T buf N1 tot sz framed_next [OF Fr b buf(3) shape conjunct2 [OF final(1)]]
    by (intro exI [of _ buf] exI [of _ bw] exI [of _ work])
      (auto simp: took_def countFrame_def hashChunk_def encoderFor_def Let_def)
qed

section \<open>Blocks of a whole buffer\<close>

text \<open>Encoding a chunk leaves the calling protocol's fields alone and does not look at them.\<close>

definition control :: "u8 list \<Rightarrow> bool \<Rightarrow> bool \<Rightarrow> 'f FrameEncoder \<Rightarrow> 'f FrameEncoder" where
  "control l s d e = e\<lparr>fe_leftover := l, fe_started := s, fe_done := d\<rparr>"

lemma control_control [simp]: "control l s d (control l' s' d' e) = control l s d e"
  by (simp add: control_def)

lemma control_simps [simp]:
  "fe_leftover (control l s d e) = l" "fe_started (control l s d e) = s" "fe_done (control l s d e) = d"
  "es_frameLen (control l s d e) = es_frameLen e" "es_cfg (control l s d e) = es_cfg e" "es_total (control l s d e) = es_total e"
  "es_sizes (control l s d e) = es_sizes e"
  by (simp_all add: control_def)

lemma fe_updates:
  "(control l s d e)\<lparr>fe_leftover := x\<rparr> = control x s d e" "(control l s d e)\<lparr>fe_started := b\<rparr> = control l b d e"
  "(control l s d e)\<lparr>fe_done := b\<rparr> = control l s b e"
  by (simp_all add: control_def)

lemma declaredTotal_control [simp]: "declaredTotal (control l s d e) = declaredTotal e"
  by (simp add: declaredTotal_def)

lemma encodeChunk_control:
  "encodeChunk F cs chunk n (control l s d e) = map_option (\<lambda>(buf, e). (buf, control l s d e)) (encodeChunk F cs chunk n e)"
  by (simp add: encodeChunk_def control_def Let_def split: option.split prod.split)

lemma countFrame_control:
  "countFrame sz n final (hashChunk chunk (control l s d e)) = control l s d (countFrame sz n final (hashChunk chunk e))"
  by (simp add: countFrame_def hashChunk_def control_def)

lemma emitFrame_control:
  "emitFrame F cs emit chunk n final (control l s d e, c) =
    (case emitFrame F cs emit chunk n final (e, c) of (err, e, c) \<Rightarrow> (err, control l s d e, c))"
  by (auto simp: emitFrame_def encodeChunk_control countFrame_control split: option.split prod.split)

definition full_step ::
  "'f float64 \<Rightarrow> (u8 list \<Rightarrow> u16) \<Rightarrow> 'c emitter \<Rightarrow> ('f FrameEncoder \<times> 'c) block_step" where
  "full_step F cs emit chunk = emitFrame F cs emit chunk encoderBlockSize False"

lemma encodeChunk_keeps:
  assumes "encodeChunk F cs chunk n e = Some (buf, e')"
  shows "\<exists>bw work. e' = e\<lparr>es_bw := bw, es_work := work\<rparr>"
  using assms by (auto simp: encodeChunk_def Let_def split: option.splits)

lemma counted_simps [simp]:
  "es_frameLen (countFrame sz n final (hashChunk chunk e)) = es_frameLen e" "es_cfg (countFrame sz n final (hashChunk chunk e)) = es_cfg e"
  "es_sizes (countFrame sz n final (hashChunk chunk e)) = foldSizes sz n final (es_sizes e)"
  by (simp_all add: countFrame_def hashChunk_def)

lemma counted_control:
  "fe_leftover (countFrame sz n final (hashChunk chunk e)) = fe_leftover e"
  "fe_started (countFrame sz n final (hashChunk chunk e)) = fe_started e"
  "fe_done (countFrame sz n final (hashChunk chunk e)) = fe_done e"
  by (simp_all add: countFrame_def hashChunk_def)

lemma emitFrame_keeps:
  assumes "emitFrame F cs emit chunk n final (e, c) = (r, e', c')"
  shows "es_frameLen e' = es_frameLen e" "es_cfg e' = es_cfg e"
    "fe_leftover e' = fe_leftover e \<and> fe_started e' = fe_started e \<and> fe_done e' = fe_done e"
    "nominal (es_sizes e) \<Longrightarrow> n = encoderBlockSize \<Longrightarrow> nominal (es_sizes e')"
  using assms
  by (auto simp: emitFrame_def nominal_foldSizes counted_control dest!: encodeChunk_keeps split: option.splits prod.splits)

lemma emitFrame_last:
  assumes "nominal (es_sizes e)"
  shows "emitFrame F cs emit chunk encoderBlockSize True (e, c) = full_step F cs emit chunk (e, c)"
proof -
  have z: "es_sizes e' = es_sizes e" if "encodeChunk F cs chunk encoderBlockSize e = Some (buf, e')" for buf e'
    using that by (auto simp: encodeChunk_def Let_def split: option.splits)
  have "countFrame (length buf) encoderBlockSize True (hashChunk chunk e') = countFrame (length buf) encoderBlockSize False (hashChunk chunk e')"
    if "encodeChunk F cs chunk encoderBlockSize e = Some (buf, e')" for buf e'
    using z [OF that] foldSizes_full [OF assms] by (simp add: countFrame_def hashChunk_def)
  then show ?thesis by (auto simp: full_step_def emitFrame_def split: option.split prod.split)
qed

text \<open>The loop of \<open>EncodeInterleaved\<close> is the loop of \<open>Write\<close> and the flush of \<open>Finalize\<close>.\<close>

definition flush ::
  "'f float64 \<Rightarrow> (u8 list \<Rightarrow> u16) \<Rightarrow> 'c emitter \<Rightarrow> u8 list \<Rightarrow> 'f FrameEncoder \<times> 'c \<Rightarrow> err option \<times> 'f FrameEncoder \<times> 'c" where
  "flush F cs emit l st =
     (if length l > 0 then emitFrame F cs emit l (length l div es_frameLen (fst st)) True st else (None, st))"

lemma encodeBlocks_whole:
  assumes "0 < es_frameLen e" "nominal (es_sizes e)" "sz = encoderBlockSize * es_frameLen e"
  shows "encodeBlocks F cs emit sz pcm (e, c) =
    (case wholeBlocks (full_step F cs emit) sz pcm k (e, c) of
       (Some err, _, _, st) \<Rightarrow> (Some err, st) | (None, l, _, st) \<Rightarrow> flush F cs emit l st)"
  using assms
proof (induction "length pcm" arbitrary: pcm e c k rule: less_induct)
  case less
  have pos: "0 < sz" using less.prems by (simp add: encoderBlockSize_def)
  consider "pcm = []" | "pcm \<noteq> []" "length pcm < sz" | "sz \<le> length pcm" by linarith
  then show ?case
  proof cases
    case 1
    then show ?thesis using pos by (simp add: encodeBlocks.simps [of F cs emit sz "[]"] wholeBlocks_short flush_def)
  next
    case 2
    then have "encodeBlocks F cs emit sz pcm (e, c) = emitFrame F cs emit pcm (length pcm div es_frameLen e) True (e, c)"
      by (subst encodeBlocks.simps) (auto simp: encodeBlocks.simps [of F cs emit sz "[]"] Let_def split: prod.split option.split)
    then show ?thesis using 2 by (simp add: wholeBlocks_short flush_def)
  next
    case 3
    define b r where "b = take sz pcm" and "r = drop sz pcm"
    have b: "pcm = b @ r" "length b = sz" "length r < length pcm" using 3 pos by (simp_all add: b_def r_def)
    have n: "length b div es_frameLen e = encoderBlockSize" using less.prems by (simp add: b(2))
    obtain err e' c' where s: "full_step F cs emit b (e, c) = (err, e', c')" by (metis prod_cases3)
    have E: "encodeBlocks F cs emit sz pcm (e, c) =
        (case full_step F cs emit b (e, c) of (Some e, st) \<Rightarrow> (Some e, st) | (None, st) \<Rightarrow> encodeBlocks F cs emit sz r st)"
      using 3 pos n emitFrame_last [OF less.prems(2), of F cs emit b c]
      by (subst encodeBlocks.simps, cases "length pcm = sz")
        (auto simp: Let_def b_def [symmetric] r_def full_step_def split: prod.split option.split)
    have "0 < es_frameLen e'" "nominal (es_sizes e')" "sz = encoderBlockSize * es_frameLen e'"
      using emitFrame_keeps [OF s [unfolded full_step_def]] less.prems by simp_all
    note IH = less.hyps [OF b(3) this, of c' "k + 1"]
    show ?thesis
      unfolding E s unfolding b(1) wholeBlocks_step [OF b(2) pos] s using IH by (simp split: option.split)
  qed
qed

section \<open>A whole buffer is encoded\<close>

definition tookWhole :: "'f float64 \<Rightarrow> (u8 list \<Rightarrow> u16) \<Rightarrow> Config \<Rightarrow> u8 list \<Rightarrow> 'f FrameEncoder \<times> (u8 list \<times> nat) list \<Rightarrow> bool" where
  "tookWhole F cs cfg B st \<longleftrightarrow> took F cs cfg B st \<and> nominal (es_sizes (fst st)) \<and> fullBlocks (snd st)"

definition admissible :: "Config \<Rightarrow> u8 list \<Rightarrow> bool" where
  "admissible cfg B \<longleftrightarrow> validateConfig cfg = None \<and> encodable cfg B"

lemma took_valid: "took F cs cfg B st \<Longrightarrow> validateConfig cfg = None \<and> es_frameLen (fst st) = sampleBytes cfg"
  by (auto simp: took_def encoderFor_def split: prod.splits)

lemma took_emitFrame:
  assumes "took F cs cfg B (e, c)" "length b = sampleBytes cfg * n" "1 \<le> n" "n \<le> encoderBlockSize"
    and "nominal (es_sizes e) \<and> fullBlocks c" "final \<or> n = encoderBlockSize" "encodable cfg (B @ b)"
  shows "\<exists>e' buf. emitFrame F cs collect b n final (e, c) = (None, e', c @ [(buf, n)]) \<and> took F cs cfg (B @ b) (e', c @ [(buf, n)])"
proof -
  from took_next [OF assms] obtain buf e1 where
    "encodeChunk F cs b n e = Some (buf, e1)" "took F cs cfg (B @ b) (countFrame (length buf) n final (hashChunk b e1), c @ [(buf, n)])"
    by (auto simp: Let_def)
  then show ?thesis by (simp add: emitFrame_def collect_def)
qed

lemma full_step_took:
  assumes "tookWhole F cs cfg B st" "length b = encoderBlockSize * sampleBytes cfg" "admissible cfg (B @ b)"
  shows "\<exists>st'. full_step F cs collect b st = (None, st') \<and> tookWhole F cs cfg (B @ b) st'"
proof (cases st)
  case (Pair e c)
  have "took F cs cfg B (e, c)" "nominal (es_sizes e)" "fullBlocks c" using assms(1) Pair by (simp_all add: tookWhole_def)
  with took_emitFrame [of F cs cfg B e c b encoderBlockSize False] assms(2,3) obtain e' buf where
    "emitFrame F cs collect b encoderBlockSize False (e, c) = (None, e', c @ [(buf, encoderBlockSize)])"
    "took F cs cfg (B @ b) (e', c @ [(buf, encoderBlockSize)])"
    by (auto simp: admissible_def encoderBlockSize_def mult.commute)
  moreover from emitFrame_keeps(4) [OF this(1) \<open>nominal (es_sizes e)\<close>] have "nominal (es_sizes e')" by simp
  ultimately show ?thesis using \<open>fullBlocks c\<close> by (simp add: Pair full_step_def tookWhole_def)
qed

interpretation fe: block_stream "full_step F cs collect" "encoderBlockSize * sampleBytes cfg" "tookWhole F cs cfg" "admissible cfg" for F cs cfg
proof
  show "\<exists>st'. full_step F cs collect b st = (None, st') \<and> tookWhole F cs cfg (B @ b) st'"
    if "tookWhole F cs cfg B st" "length b = encoderBlockSize * sampleBytes cfg" "admissible cfg (B @ b)" for B b st
    using full_step_took that .
  show "0 < encoderBlockSize * sampleBytes cfg" if "tookWhole F cs cfg B st" for B st
    using that took_valid [of F cs cfg B st] sampleBytes_pos [of cfg] by (auto simp: tookWhole_def encoderBlockSize_def)
  show "admissible cfg B" if "admissible cfg (B @ b)" for B b
    using that encodable_prefix by (auto simp: admissible_def)
qed

lemma NewFrameEncoder_fields:
  assumes "NewFrameEncoder F cfg = Inr e"
  shows "validateConfig cfg = None" "es_cfg e = cfg" "es_frameLen e = sampleBytes cfg" "nominal (es_sizes e)"
    "control [] False False e = e"
  using assms by (auto simp: NewFrameEncoder_def sampleBytes_def control_def Let_def split: option.splits)

lemma NewFrameEncoder_took:
  assumes "NewFrameEncoder F cfg = Inr e" "float64_laws F"
  shows "tookWhole F cs cfg [] (e, [])"
  using assms
  by (auto simp: NewFrameEncoder_def tookWhole_def took_def encoderFor_def sameFormat_def sampleBytes_def framed_none 
      four_slots_def NewWorkspace_def Let_def split: option.splits)

lemma took_final:
  assumes "took F cs cfg B (e, c)" "cf_TotalSamples cfg = 0 \<or> cf_TotalSamples cfg = of_nat (length B div sampleBytes cfg)"
  shows "declaredTotal e = None"
  using assms by (auto simp: took_def declaredTotal_def encoderFor_def)

lemma tail_samples:
  assumes "l \<noteq> []" "length l < encoderBlockSize * k" "k dvd length l" "1 \<le> k"
  obtains n where "length l = k * n" "1 \<le> n" "n \<le> encoderBlockSize" "length l div k = n"
proof -
  obtain n where n: "length l = k * n" using assms(3) by blast
  have "1 \<le> n" using assms(1) n by (cases n) simp_all
  moreover have "n \<le> encoderBlockSize" using assms(2) unfolding n by (simp add: mult.commute [of encoderBlockSize])
  moreover have "length l div k = n" using n assms(4) by simp
  ultimately show ?thesis using that n by blast
qed

lemma flush_took:
  assumes T: "tookWhole F cs cfg B (e, c)" and l: "length l < encoderBlockSize * sampleBytes cfg" "sampleBytes cfg dvd length l"
    and adm: "encodable cfg (B @ l)"
  shows "\<exists>e' c'. flush F cs collect l (e, c) = (None, e', c') \<and> took F cs cfg (B @ l) (e', c')"
proof (cases "l = []")
  case True
  then show ?thesis using T by (simp add: flush_def tookWhole_def)
next
  case False
  have v: "es_frameLen e = sampleBytes cfg" "validateConfig cfg = None"
    using T took_valid [of F cs cfg B "(e, c)"] by (auto simp: tookWhole_def)
  obtain n where n: "length l = sampleBytes cfg * n" "1 \<le> n" "n \<le> encoderBlockSize" "length l div sampleBytes cfg = n"
    using tail_samples [OF False l sampleBytes_pos [OF v(2)]] .
  then show ?thesis
    using took_emitFrame [of F cs cfg B e c l n True] T n adm False v(1) by (auto simp: flush_def tookWhole_def)
qed

text \<open>\<open>wholeRun\<close>: every whole block, then the flush.\<close>

definition wholeRun ::
  "'f float64 \<Rightarrow> (u8 list \<Rightarrow> u16) \<Rightarrow> 'c emitter \<Rightarrow> nat \<Rightarrow> u8 list \<Rightarrow> 'f FrameEncoder \<times> 'c \<Rightarrow> err option \<times> 'f FrameEncoder \<times> 'c" where
  "wholeRun F cs emit sz pcm st =
    (case wholeBlocks (full_step F cs emit) sz pcm 0 st of
       (Some err, _, _, st) \<Rightarrow> (Some err, st) | (None, l, _, st) \<Rightarrow> flush F cs emit l st)"

lemma wholeRun_took:
  assumes T: "tookWhole F cs cfg [] (e0, c0)" and pcm: "encodable cfg pcm" "sampleBytes cfg dvd length pcm"
  shows "\<exists>e c. wholeRun F cs collect (encoderBlockSize * sampleBytes cfg) pcm (e0, c0) = (None, e, c) \<and> took F cs cfg pcm (e, c)"
proof -
  let ?sz = "encoderBlockSize * sampleBytes cfg"
  have v: "validateConfig cfg = None" using T took_valid [of F cs cfg "[]" "(e0, c0)"] by (simp add: tookWhole_def)
  then have "admissible cfg ([] @ pcm)" using pcm(1) by (simp add: admissible_def)
  from fe.whole [OF T _ this, of 0] obtain B l k e1 c1 where
    w: "wholeBlocks (full_step F cs collect) ?sz pcm 0 (e0, c0) = (None, l, k, e1, c1)" and
    s: "fe.stands cfg F cs pcm B l (e1, c1)" by auto
  have s': "tookWhole F cs cfg B (e1, c1)" "pcm = B @ l" "length l < ?sz" using s by (auto simp: fe.stands_def)
  have "sampleBytes cfg dvd length B" using s'(1) framed_length by (auto simp: tookWhole_def took_def)
  then have "sampleBytes cfg dvd length l" using pcm(2) unfolding s'(2) by (simp add: dvd_add_right_iff)
  from flush_took [OF s'(1,3) this] pcm(1) show ?thesis unfolding wholeRun_def w by (simp add: s'(2))
qed

section \<open>One buffer or many writes\<close>

lemma full_step_control:
  "full_step F cs emit b ((\<lambda>(e, c). (control l s d e, c)) st) =
    (case full_step F cs emit b st of (r, st') \<Rightarrow> (r, (\<lambda>(e, c). (control l s d e, c)) st'))"
  by (cases st) (simp add: full_step_def emitFrame_control split: prod.split)

lemma wholeBlocks_control:
  "wholeBlocks (full_step F cs emit) sz p n (control l s d e, c) =
    (case wholeBlocks (full_step F cs emit) sz p n (e, c) of (err, r, k, e, c) \<Rightarrow> (err, r, k, control l s d e, c))"
  using wholeBlocks_map [of "full_step F cs emit" "\<lambda>(e, c). (control l s d e, c)", OF full_step_control, of sz p n "(e, c)"]
  by (simp split: prod.splits)

lemma joinBlocks_control:
  "joinBlocks (full_step F cs emit) sz r p (control l s d e, c) =
    (case joinBlocks (full_step F cs emit) sz r p (e, c) of (err, r, k, e, c) \<Rightarrow> (err, r, k, control l s d e, c))"
  using joinBlocks_map [of "full_step F cs emit" "\<lambda>(e, c). (control l s d e, c)", OF full_step_control, of sz r p "(e, c)"]
  by (simp split: prod.splits)

lemma flush_control:
  "flush F cs emit r (control l s d e, c) = (case flush F cs emit r (e, c) of (err, e, c) \<Rightarrow> (err, control l s d e, c))"
  by (simp add: flush_def emitFrame_control)

lemma wholeRun_control:
  "wholeRun F cs emit sz p (control l s d e, c) = (case wholeRun F cs emit sz p (e, c) of (err, e, c) \<Rightarrow> (err, control l s d e, c))"
  by (simp add: wholeRun_def wholeBlocks_control flush_control split: prod.split option.split)

lemma feEncodeInterleaved_run:
  assumes e0: "NewFrameEncoder F cfg = Inr e0" and pcm: "sampleBytes cfg dvd length pcm"
  shows "feEncodeInterleaved F cs pcm emit (e0, c0) =
    (case wholeRun F cs emit (encoderBlockSize * sampleBytes cfg) pcm (e0, c0) of
       (Some err, e, c) \<Rightarrow> (Some err, control [] False True e, c)
     | (None, e, c) \<Rightarrow> (declaredTotal e, control [] False True e, c))"
proof -
  let ?sz = "encoderBlockSize * sampleBytes cfg" and ?e = "control [] False True e0"
  note f = NewFrameEncoder_fields [OF e0]
  have e: "e0\<lparr>fe_done := True\<rparr> = ?e" "\<not> fe_done e0" "\<not> fe_started e0"
    using fe_updates(3) [where e = e0] f(5) control_simps(2,3) [of "[]" False False e0] by metis+
  have "encodeBlocks F cs emit ?sz pcm (?e, c0) = wholeRun F cs emit ?sz pcm (?e, c0)"
    using encodeBlocks_whole [of ?e ?sz F cs emit pcm c0 0] f(3,4) sampleBytes_pos [OF f(1)] by (simp add: wholeRun_def)
  then show ?thesis
    using pcm f(3) unfolding feEncodeInterleaved_def
    by (simp add: e Let_def wholeRun_control split: prod.split option.split)
qed

text \<open>A client's writes, up to the first that fails.\<close>

fun feWriteAll ::
  "'f float64 \<Rightarrow> (u8 list \<Rightarrow> u16) \<Rightarrow> 'c emitter \<Rightarrow> u8 list list \<Rightarrow> 'f FrameEncoder \<times> 'c \<Rightarrow> err option \<times> 'f FrameEncoder \<times> 'c" where
  "feWriteAll F cs emit [] st = (None, st)"
| "feWriteAll F cs emit (p # ps) st =
     (case feWrite F cs p (Some emit) st of
        (_, Some err, st) \<Rightarrow> (Some err, st)
      | (_, None, st) \<Rightarrow> feWriteAll F cs emit ps st)"

lemma feWrite_join:
  "feWrite F cs p (Some emit) (control l s False e, c) =
    (case joinBlocks (full_step F cs emit) (encoderBlockSize * es_frameLen e) l p (e, c) of
       (err, l, k, e, c) \<Rightarrow> (k, err, control l True False e, c))"
proof -
  have "(\<lambda>chunk. emitFrame F cs emit chunk encoderBlockSize False) = full_step F cs emit"
    by (simp add: full_step_def fun_eq_iff)
  then show ?thesis by (simp add: feWrite_def Let_def fe_updates joinBlocks_control split: prod.split)
qed

lemma joinBlocks_frameLen:
  "joinBlocks (full_step F cs emit) sz l p (e, c) = (err, l', k, e', c') \<Longrightarrow> es_frameLen e' = es_frameLen e"
proof -
  assume j: "joinBlocks (full_step F cs emit) sz l p (e, c) = (err, l', k, e', c')"
  have "es_frameLen (fst (snd (full_step F cs emit b st))) = es_frameLen (fst st)" for b and st :: "'a FrameEncoder \<times> 'b"
    using emitFrame_keeps(1) [of F cs emit b encoderBlockSize False "fst st" "snd st"] by (cases "full_step F cs emit b st") (simp add: full_step_def)
  from joinBlocks_keeps [where f = "\<lambda>st. es_frameLen (fst st)" and step = "full_step F cs emit" and sz = sz and l = l and p = p and st = "(e, c)", OF this] j
  show ?thesis by simp
qed

lemma feWriteAll_join:
  assumes "joinAll (full_step F cs emit) (encoderBlockSize * es_frameLen e) ps l (e, c) = (None, l', k, e', c')"
  shows "feWriteAll F cs emit ps (control l s False e, c) = (None, control l' (s \<or> ps \<noteq> []) False e', c')"
  using assms
proof (induction ps arbitrary: l s e c k)
  case (Cons p ps)
  obtain l1 k1 e1 c1 where j: "joinBlocks (full_step F cs emit) (encoderBlockSize * es_frameLen e) l p (e, c) = (None, l1, k1, e1, c1)"
    using Cons.prems by (auto split: prod.splits option.splits)
  then obtain k2 where "joinAll (full_step F cs emit) (encoderBlockSize * es_frameLen e1) ps l1 (e1, c1) = (None, l', k2, e', c')"
    using Cons.prems joinBlocks_frameLen [OF j] by (auto split: prod.splits)
  from Cons.IH [OF this, of True] show ?case by (simp add: feWrite_join j)
qed simp

text \<open>
  Writing a stream in any pieces and finalizing it does what one call of \<open>EncodeInterleaved\<close> does:
  the callback sees the same frames, and the state left behind is the same.
\<close>

lemma feFinalize_run:
  "feFinalize F cs (Some emit) (control l True False e, c) =
    (if l \<noteq> [] \<and> length l mod es_frameLen e \<noteq> 0 then (Some ErrUsage, control l True True e, c)
     else case flush F cs emit l (e, c) of
       (Some err, e, c) \<Rightarrow> (Some err, control l True True e, c)
     | (None, e, c) \<Rightarrow> (declaredTotal e, control [] True True e, c))"
  by (simp add: feFinalize_def Let_def fe_updates flush_def emitFrame_control split: prod.split option.split)

lemma incremental_run:
  assumes e0: "NewFrameEncoder F cfg = Inr e0" and pcm: "sampleBytes cfg dvd length (concat ps)" "ps \<noteq> []"
    and run: "wholeRun F cs emit (encoderBlockSize * sampleBytes cfg) (concat ps) (e0, c0) = (None, e, c)"
  shows "\<exists>e1 c1. feWriteAll F cs emit ps (e0, c0) = (None, e1, c1)
    \<and> feFinalize F cs (Some emit) (e1, c1) = (declaredTotal e, control [] True True e, c)"
proof -
  let ?sz = "encoderBlockSize * sampleBytes cfg"
  note f = NewFrameEncoder_fields [OF e0]
  have pos: "0 < ?sz" using sampleBytes_pos [OF f(1)] by (simp add: encoderBlockSize_def)
  from run obtain l k e1 c1 where
    w: "wholeBlocks (full_step F cs emit) ?sz (concat ps) 0 (e0, c0) = (None, l, k, e1, c1)" and
    fl: "flush F cs emit l (e1, c1) = (None, e, c)"
    by (auto simp: wholeRun_def split: prod.splits option.splits)
  have "joinAll (full_step F cs emit) ?sz ps [] (e0, c0) = (None, l, k, e1, c1)"
    by (rule joinAll_whole) (use pos w in simp_all)
  then have W: "feWriteAll F cs emit ps (e0, c0) = (None, control l True False e1, c1)"
    using feWriteAll_join [of F cs emit e0 ps "[]" c0 l k e1 c1 False] f(3,5) pcm(2) by simp
  have "es_frameLen e1 = sampleBytes cfg"
    using joinBlocks_frameLen [OF joinBlocks_whole [of "[]" ?sz "full_step F cs emit" "concat ps" "(e0, c0)" l k "(e1, c1)"]]
      w pos f(3) by simp
  moreover from wholeBlocks_rest [OF w] obtain j where "length (concat ps) = ?sz * j + length l" by blast
  then have "sampleBytes cfg dvd length l" using pcm(1) by (simp add: dvd_add_right_iff)
  ultimately have "es_frameLen e1 = sampleBytes cfg" "sampleBytes cfg dvd length l" by simp_all
  then have "\<not> (l \<noteq> [] \<and> length l mod es_frameLen e1 \<noteq> 0)" by simp
  then have "feFinalize F cs (Some emit) (control l True False e1, c1) = (declaredTotal e, control [] True True e, c)"
    unfolding feFinalize_run by (auto simp: fl)
  with W show ?thesis by blast
qed

section \<open>The frames decode to the input\<close>

text \<open>The state of a decoder set up for the format of \<open>cfg\<close>, and the frames it then decodes.\<close>

definition decoderFor :: "Config \<Rightarrow> FrameDecoder \<Rightarrow> bool" where
  "decoderFor cfg d \<longleftrightarrow> sameFormat (fd_si d) (cfgInfo cfg) \<and> fd_bytesPS d = cfgBytesPS cfg \<and> reusable (fd_br d)"

lemma DecodeInterleaved_ok:
  assumes "validateConfig cfg = None" "decoderFor cfg d" "decodes cs (cfgInfo cfg) buf (chunkFrame cfg i n b)"
    and "length b = sampleBytes cfg * n"
  shows "\<exists>d'. DecodeInterleaved cs buf d = (Inr (b, n), d') \<and> decoderFor cfg d'"
proof -
  let ?rd = "Reset (bytesReader buf) (fd_br d)" and ?fr = "chunkFrame cfg i n b"
  have si: "sameFormat (fd_si d) (cfgInfo cfg)" and br: "reusable (fd_br d)" using assms(2) by (simp_all add: decoderFor_def)
  have D: "Decode cs (fd_si d) = Decode cs (cfgInfo cfg)" using si by (intro Decode_cong) (simp_all add: sameFormat_def)
  have "buf \<noteq> []" using assms(3) by (auto simp: decodes_def be16_def)
  note rd = Reset_bytes [OF br this]
  from decodesD [OF assms(3) rd(1,3), of "[]"] rd(2) obtain rd' where
    d: "Decode cs (cfgInfo cfg) ?rd = (Inr ?fr, rd')" "resumed (length buf) ?rd rd'" by auto
  have "length (fr_Channels ?fr) = si_Channels (fd_si d)" "fr_SampleRate ?fr = si_SampleRate (fd_si d)"
    "fr_BitsPerSample ?fr = si_BitDepth (fd_si d)" "fr_BlockSize ?fr = n"
    using chunkFrame_packed(2) [OF assms(1,4), of i] si
    by (simp_all add: chunkFrame_def blockFrame_def sameFormat_def cfgInfo_def)
  moreover have "reusable rd'" using d(2) by (simp add: resumed_def reusable_wf)
  ultimately show ?thesis
    using assms(2) chunkFrame_packed(1) [OF assms(1,4), of i] d(1)
    by (simp add: DecodeInterleaved_def D decoderFor_def Let_def)
qed

lemma decodeFrames_append:
  "decodeFrames cs d (fs @ gs) =
    (case decodeFrames cs d fs of
       (Inl e, d) \<Rightarrow> (Inl e, d)
     | (Inr a, d) \<Rightarrow> (case decodeFrames cs d gs of (Inl e, d) \<Rightarrow> (Inl e, d) | (Inr b, d) \<Rightarrow> (Inr (a @ b), d)))"
  by (induction fs arbitrary: d) (auto split: prod.split sum.split)

lemma decodeFrames_framed:
  assumes "framed cs cfg c B" "validateConfig cfg = None" "decoderFor cfg d"
  shows "\<exists>d'. decodeFrames cs d (map fst c) = (Inr B, d') \<and> decoderFor cfg d'"
  using assms
proof (induction rule: framed.induct)
  case (framed_next c B b n buf)
  then obtain d1 where 1: "decodeFrames cs d (map fst c) = (Inr B, d1)" "decoderFor cfg d1" by blast
  from DecodeInterleaved_ok [OF framed_next.prems(1) 1(2) framed_next.hyps(5,2)] obtain d2 where
    "DecodeInterleaved cs buf d1 = (Inr (b, n), d2)" "decoderFor cfg d2" by blast
  then show ?case by (simp add: decodeFrames_append 1)
qed simp

section \<open>STREAMINFO of the frames\<close>

definition measuredInfo :: "(u8 list \<Rightarrow> u8 list) \<Rightarrow> Config \<Rightarrow> bool \<Rightarrow> u8 list \<Rightarrow> StreamInfo" where
  "measuredInfo md5 cfg skip B =
     (cfgInfo cfg)\<lparr>si_TotalSamples := of_nat (length B div sampleBytes cfg), si_MD5 := (if skip then replicate 16 0 else md5 B)\<rparr>"

lemma streamInfoParams_done:
  assumes T: "took F cs cfg B (e, c)" and d: "fe_done e" and si: "es_si e = cfgInfo cfg"
  shows "\<exists>hi fl fh. streamInfoParams md5 e = (measuredInfo md5 cfg (es_skipHash e) B, hi, hi, fl, fh)
    \<and> 16 \<le> hi \<and> hi \<le> 4096 \<and> list_all (\<lambda>(buf, n). n \<le> hi \<and> fl \<le> length buf \<and> length buf \<le> fh) c"
proof -
  let ?z = "es_sizes e"
  have z: "sizesBound ?z c" using T by (simp add: took_def)
  have "(if \<not> es_skipHash e then es_si e\<lparr>si_TotalSamples := es_total e, si_MD5 := md5 (es_md5 e)\<rparr> else es_si e\<lparr>si_TotalSamples := es_total e\<rparr>)
      = measuredInfo md5 cfg (es_skipHash e) B"
    using T by (auto simp: measuredInfo_def took_def si cfgInfo_def)
  then have p: "streamInfoParams md5 e = (if \<not> fz_wrote ?z then (measuredInfo md5 cfg (es_skipHash e) B, 16, 16, 0, 0)
      else (measuredInfo md5 cfg (es_skipHash e) B, max (fz_minBlock ?z) 16, max (fz_maxBlock ?z) 16, fz_minFrame ?z, fz_maxFrame ?z))"
    using d by (auto simp: streamInfoParams_def Let_def minStreamInfoBlockSize_def)
  show ?thesis
  proof (cases "fz_wrote ?z")
    case True
    have "fz_minBlock ?z = fz_maxBlock ?z" using z by (simp add: sizesBound_def)
    then show ?thesis using z True unfolding p
      by (intro exI [of _ "max (fz_maxBlock ?z) 16"] exI [of _ "fz_minFrame ?z"] exI [of _ "fz_maxFrame ?z"])
        (auto simp: sizesBound_def encoderBlockSize_def list_all_iff max.coboundedI1)
  next
    case False
    then have "c = []" using z by (simp add: sizesBound_def)
    then show ?thesis using False unfolding p by (intro exI [of _ 16] exI [of _ 0]) simp
  qed
qed

section \<open>The codec box and the frames together\<close>

lemma took_control [simp]: "took F cs cfg B (control l s d e, c) = took F cs cfg B (e, c)"
  by (simp add: took_def encoderFor_def control_def)

lemma streamInfoParams_control: "streamInfoParams md5 (control l s True e) = streamInfoParams md5 (control [] False True e)"
  by (simp add: streamInfoParams_def control_def Let_def)

lemma encodeChunk_si: "encodeChunk F cs chunk n e = Some (buf, e') \<Longrightarrow> es_si e' = es_si e \<and> es_skipHash e' = es_skipHash e"
  by (drule encodeChunk_keeps) auto

lemma emitFrame_si:
  "emitFrame F cs emit chunk n final (e, c) = (r, e', c') \<Longrightarrow> es_si e' = es_si e \<and> es_skipHash e' = es_skipHash e"
  by (auto simp: emitFrame_def countFrame_def hashChunk_def dest!: encodeChunk_si split: option.splits prod.splits if_splits)

lemma wholeRun_si:
  assumes "wholeRun F cs emit sz pcm (e0, c0) = (r, e, c)"
  shows "es_si e = es_si e0" "es_skipHash e = es_skipHash e0"
proof -
  let ?f = "\<lambda>st. (es_si (fst st), es_skipHash (fst st))"
  have step: "?f (snd (emitFrame F cs emit b n fin st)) = ?f st" for b n fin and st :: "'a FrameEncoder \<times> 'b"
    using emitFrame_si [of F cs emit b n fin "fst st" "snd st"] by (cases "emitFrame F cs emit b n fin st") simp
  have "?f (snd (full_step F cs emit b st)) = ?f st" for b and st :: "'a FrameEncoder \<times> 'b"
    unfolding full_step_def by (rule step)
  from wholeBlocks_keeps [where f = ?f and step = "full_step F cs emit", OF this]
  have w: "?f (snd (snd (snd (wholeBlocks (full_step F cs emit) sz pcm 0 (e0, c0))))) = ?f (e0, c0)" .
  have "?f (snd (flush F cs emit l st)) = ?f st" for l and st :: "'a FrameEncoder \<times> 'b"
    by (simp only: flush_def step if_distrib [of snd] snd_conv split: if_split) simp
  then have "?f (snd (wholeRun F cs emit sz pcm (e0, c0))) = ?f (e0, c0)"
    using w by (auto simp: wholeRun_def split: prod.split option.split)
  then show "es_si e = es_si e0" "es_skipHash e = es_skipHash e0" using assms by simp_all
qed

lemma frames_decode:
  assumes e0: "NewFrameEncoder F cfg = Inr e0" and F: "float64_laws F" and md5: "\<And>bs. length (md5 bs) = 16"
    and pcm: "encodable cfg pcm" "sampleBytes cfg dvd length pcm"
      "cf_TotalSamples cfg = 0 \<or> cf_TotalSamples cfg = of_nat (length pcm div sampleBytes cfg)"
  shows "\<exists>e c d. feEncodeInterleaved F cs pcm collect (e0, []) = (None, e, c)
    \<and> feStreamInfo md5 e = measuredInfo md5 cfg (cf_SkipMD5 cfg) pcm
    \<and> NewFrameDecoder (StreamInfoBytes md5 e) = Inr d \<and> fd_si d = feStreamInfo md5 e
    \<and> fst (decodeFrames cs d (map fst c)) = Inr pcm"
proof -
  note v = NewFrameEncoder_fields(1) [OF e0]
  from wholeRun_took [OF NewFrameEncoder_took [OF e0 F] pcm(1,2), of cs] obtain e c where
    w: "wholeRun F cs collect (encoderBlockSize * sampleBytes cfg) pcm (e0, []) = (None, e, c)" and T: "took F cs cfg pcm (e, c)" by blast
  let ?e = "control [] False True e" and ?si = "measuredInfo md5 cfg (cf_SkipMD5 cfg) pcm"
  have run: "feEncodeInterleaved F cs pcm collect (e0, []) = (None, ?e, c)"
    using w took_final [OF T] pcm(3) by (simp add: feEncodeInterleaved_run [OF e0 pcm(2)])
  have si: "es_si ?e = cfgInfo cfg" "es_skipHash ?e = cf_SkipMD5 cfg"
    using wholeRun_si [OF w] e0 by (auto simp: control_def NewFrameEncoder_def Let_def split: option.splits)
  from streamInfoParams_done [of F cs cfg pcm ?e c md5] T si obtain hi fl fh where
    p: "streamInfoParams md5 ?e = (?si, hi, hi, fl, fh)" "hi \<le> 4096" by auto
  have "info_ok ?si"
    using info_ok_cfgInfo [OF v] pcm(1) md5 by (auto simp: info_ok_def measuredInfo_def encodable_def unat_of_nat)
  then have "DecodeStreamInfo (StreamInfoBytes md5 ?e) = Inr ?si"
    unfolding StreamInfoBytes_def p prod.case by (rule DecodeStreamInfo_EncodeStreamInfo_any) (use p(2) in simp_all)
  then have d: "NewFrameDecoder (StreamInfoBytes md5 ?e) =
      Inr \<lparr>fd_si = ?si, fd_bytesPS = (si_BitDepth ?si + 7) div 8, fd_br = zeroReader\<rparr>" by (simp add: NewFrameDecoder_def)
  have "decoderFor cfg \<lparr>fd_si = ?si, fd_bytesPS = (si_BitDepth ?si + 7) div 8, fd_br = zeroReader\<rparr>"
    using cfgBytesPS_bounds(4) [OF v]
    by (simp add: decoderFor_def sameFormat_def measuredInfo_def zeroReader_def reusable_def fresh_reader_def)
  moreover have "framed cs cfg c pcm" using T by (simp add: took_def)
  ultimately obtain d' where "decodeFrames cs \<lparr>fd_si = ?si, fd_bytesPS = (si_BitDepth ?si + 7) div 8, fd_br = zeroReader\<rparr> (map fst c) = (Inr pcm, d')"
    using decodeFrames_framed [OF _ v] by blast
  then show ?thesis using d run p(1) by (auto simp: feStreamInfo_def)
qed

lemma writes_as_one:
  assumes e0: "NewFrameEncoder F cfg = Inr e0" and ps: "ps \<noteq> []"
    and one: "feEncodeInterleaved F cs (concat ps) emit (e0, c0) = (None, e, c)"
  shows "\<exists>e1 c1 e2. feWriteAll F cs emit ps (e0, c0) = (None, e1, c1)
    \<and> feFinalize F cs (Some emit) (e1, c1) = (None, e2, c) \<and> StreamInfoBytes md5 e2 = StreamInfoBytes md5 e"
proof -
  note f = NewFrameEncoder_fields [OF e0]
  have "sampleBytes cfg dvd length (concat ps)"
    using one f(3) by (auto simp: feEncodeInterleaved_def Let_def mod_eq_0_iff_dvd split: if_splits)
  note d = this
  from one obtain e' where w: "wholeRun F cs emit (encoderBlockSize * sampleBytes cfg) (concat ps) (e0, c0) = (None, e', c)"
    and e': "e = control [] False True e'" "declaredTotal e' = None"
    by (auto simp: feEncodeInterleaved_run [OF e0 d] split: prod.splits option.splits)
  from incremental_run [OF e0 d ps w] e' show ?thesis
    by (auto simp: StreamInfoBytes_def streamInfoParams_control [of md5 "[]" True e'])
qed

end
