(* ===== verification/Pcm_Decoder.thy ===== *)
theory Pcm_Decoder
  imports Pcm_Frames Meta_Prefix
begin

text \<open>
  The stream decoder (\<open>pcm/decoder.go\<close>, \<open>pcm/decode_oneshot.go\<close>) without its seeks, which are in
  \<open>Pcm_Seek\<close>. A source is what its reads deliver and, when it can seek, how it answers: \<open>sk_base\<close>
  and \<open>sk_end\<close> are its position before the first read and its length, \<open>sk_restore\<close> what comes of
  the seek back after measuring, and \<open>sk_at b\<close> what the reads after \<open>Seek(b, io.SeekStart)\<close> deliver.
  The digest \<open>md5\<close> is a parameter; the running hash is the list of the bytes hashed so far. Byte
  positions, \<open>int64\<close> in the code, are natural numbers.
\<close>

section \<open>The decoder\<close>

record seeker =
  sk_base :: "err + nat"
  sk_resume :: "err + nat"
  sk_end :: "err + nat"
  sk_restore :: "err option"
  sk_at :: "nat \<Rightarrow> err + chunk list"

record source =
  so_reads :: "chunk list"
  so_seeker :: "seeker option"

record Decoder =
  de_br :: "frameCRC reader option"
  de_info :: StreamInfo
  de_seekable :: bool
  de_audioStart :: nat
  de_streamEnd :: nat
  de_nominalBlock :: nat
  de_maxFrame :: nat
  de_seekPoints :: "SeekPoint list"
  de_vendor :: "u8 list"
  de_comments :: "u8 list list"
  de_resyncR :: "frameCRC reader"
  de_pending :: "u8 list"
  de_bytesPS :: nat
  de_md5 :: "u8 list"
  de_decoded :: u64
  de_seeked :: bool
  de_skipMD5 :: bool
  de_convertTo :: int
  de_convertSet :: bool
  de_outBits :: nat
  de_done :: bool
  de_err :: "err option"

datatype DecoderOption = SkipMD5Verification | WithConvertTo int

definition streamReadBlock :: nat where "streamReadBlock = push_bit 10 64"

definition zeroMD5 :: "u8 list" where "zeroMD5 = replicate 16 0"

definition zeroInfo :: StreamInfo where
  "zeroInfo = \<lparr>si_SampleRate = 0, si_Channels = 0, si_BitDepth = 0, si_TotalSamples = 0, si_MD5 = zeroMD5\<rparr>"

definition zeroDecoder :: Decoder where
  "zeroDecoder = \<lparr>de_br = None, de_info = zeroInfo, de_seekable = False, de_audioStart = 0, de_streamEnd = 0,
     de_nominalBlock = 0, de_maxFrame = 0, de_seekPoints = [], de_vendor = [], de_comments = [], de_resyncR = zeroReader,
     de_pending = [], de_bytesPS = 0, de_md5 = [], de_decoded = 0, de_seeked = False, de_skipMD5 = False, de_convertTo = 0,
     de_convertSet = False, de_outBits = 0, de_done = False, de_err = None\<rparr>"

text \<open>What \<open>clearStream\<close> leaves alone: the readers and the hash.\<close>

definition clearStream :: "Decoder \<Rightarrow> Decoder" where
  "clearStream d = zeroDecoder\<lparr>de_br := de_br d, de_resyncR := de_resyncR d, de_md5 := de_md5 d\<rparr>"

definition applyOption :: "DecoderOption \<Rightarrow> Decoder \<Rightarrow> Decoder" where
  "applyOption opt d =
     (case opt of SkipMD5Verification \<Rightarrow> d\<lparr>de_skipMD5 := True\<rparr> | WithConvertTo b \<Rightarrow> d\<lparr>de_convertTo := b, de_convertSet := True\<rparr>)"

definition applyOptions :: "DecoderOption list \<Rightarrow> Decoder \<Rightarrow> err option \<times> Decoder" where
  "applyOptions opts d =
     (let d = fold applyOption opts d; d = d\<lparr>de_outBits := si_BitDepth (de_info d)\<rparr>
      in if de_convertSet d then
           (if de_convertTo d \<notin> set [8, 16, 24, 32] then (Some ErrUnsupported, (clearStream d)\<lparr>de_err := Some ErrUnsupported\<rparr>)
            else (None, d\<lparr>de_outBits := nat (de_convertTo d)\<rparr>))
         else (None, d))"

text \<open>The seekability of a source, measured once its metadata is read.\<close>

definition measureSource :: "seeker \<Rightarrow> nat \<Rightarrow> StreamMeta \<Rightarrow> Decoder \<Rightarrow> err option \<times> Decoder" where
  "measureSource s base sm d =
     (case (sk_resume s, sk_end s) of
        (Inr _, Inr streamEnd) \<Rightarrow>
          (case sk_restore s of
             Some rerr \<Rightarrow> (Some rerr, d\<lparr>de_err := Some rerr\<rparr>)
           | None \<Rightarrow> (None, d\<lparr>de_seekable := True, de_audioStart := base + (case de_br d of Some br \<Rightarrow> BytesRead br | None \<Rightarrow> 0),
                            de_streamEnd := streamEnd, de_nominalBlock := sm_MaxBlock sm, de_maxFrame := sm_MaxFrame sm,
                            de_seekPoints := sm_SeekPoints sm\<rparr>))
      | _ \<Rightarrow> (None, d))"

definition initDecoder :: "source option \<Rightarrow> Decoder \<Rightarrow> err option \<times> Decoder" where
  "initDecoder r d =
     (case r of
        None \<Rightarrow> (Some ErrUsage, d)
      | Some r \<Rightarrow>
          let seekable = (case so_seeker r of None \<Rightarrow> None
                          | Some s \<Rightarrow> (case sk_base s of Inl _ \<Rightarrow> None | Inr base \<Rightarrow> Some (s, base)));
              br = (case de_br d of None \<Rightarrow> NewReaderSize (so_reads r) streamReadBlock fcReset | Some br \<Rightarrow> Reset (so_reads r) br);
              d = clearStream (d\<lparr>de_md5 := []\<rparr>)
          in case ReadMetadata br of
               (Inl e, br) \<Rightarrow> (Some e, d\<lparr>de_br := Some br, de_err := Some e\<rparr>)
             | (Inr sm, br) \<Rightarrow>
                 let d = d\<lparr>de_br := Some br\<rparr>
                 in case (case seekable of None \<Rightarrow> (None, d) | Some (s, base) \<Rightarrow> measureSource s base sm d) of
                      (Some e, d) \<Rightarrow> (Some e, d)
                    | (None, d) \<Rightarrow>
                        (None, d\<lparr>de_info := sm_Info sm, de_bytesPS := (si_BitDepth (sm_Info sm) + 7) div 8,
                                 de_vendor := sm_Vendor sm, de_comments := sm_Comments sm\<rparr>))"

definition resetDecoder :: "source option \<Rightarrow> DecoderOption list \<Rightarrow> Decoder \<Rightarrow> err option \<times> Decoder" where
  "resetDecoder r opts d = (case initDecoder r d of (Some e, d) \<Rightarrow> (Some e, d) | (None, d) \<Rightarrow> applyOptions opts d)"

definition NewDecoder :: "source option \<Rightarrow> DecoderOption list \<Rightarrow> err + Decoder" where
  "NewDecoder r opts =
     (case initDecoder r zeroDecoder of
        (Some e, _) \<Rightarrow> Inl e
      | (None, d) \<Rightarrow> (case applyOptions opts d of (Some e, _) \<Rightarrow> Inl e | (None, d) \<Rightarrow> Inr d))"

definition decTags :: "Decoder \<Rightarrow> Tag list" where
  "decTags d = map cutTag (de_comments d)"

section \<open>Decoding frames\<close>

text \<open>\<open>packFrame\<close>: the bytes of a frame at the output width, and the decoder that hashed its native ones.\<close>

definition packFrame :: "bool \<Rightarrow> Frame \<Rightarrow> Decoder \<Rightarrow> u8 list \<times> Decoder" where
  "packFrame hashNative fr d =
     (let shift = int (de_outBits d) - int (si_BitDepth (de_info d));
          native = appendPacked [] fr (de_bytesPS d);
          d = (if hashNative then d\<lparr>de_md5 := de_md5 d @ native\<rparr> else d)
      in (if shift \<noteq> 0 then appendPacked [] (shiftSamples fr shift) ((de_outBits d + 7) div 8) else native, d))"

definition decFinish :: "(u8 list \<Rightarrow> u8 list) \<Rightarrow> Decoder \<Rightarrow> err \<times> Decoder" where
  "decFinish md5 d =
     (let d = d\<lparr>de_done := True\<rparr>; info = de_info d
      in if \<not> de_seeked d then
           (if \<not> de_skipMD5 d \<and> si_MD5 info \<noteq> zeroMD5 then
              (if md5 (de_md5 d) \<noteq> si_MD5 info then (ErrMD5Mismatch, d\<lparr>de_err := Some ErrMD5Mismatch\<rparr>) else (EOF, d))
            else if si_TotalSamples info \<noteq> 0 \<and> de_decoded d < si_TotalSamples info then
              (ErrTruncatedStream None, d\<lparr>de_err := Some (ErrTruncatedStream None)\<rparr>)
            else (EOF, d))
         else (EOF, d))"

text \<open>A decoder without a reader panics: here and below \<open>None\<close> stands for a panic, and for a loop that never ends.\<close>

definition decodeNextFrame :: "(u8 list \<Rightarrow> u16) \<Rightarrow> (u8 list \<Rightarrow> u8 list) \<Rightarrow> Decoder \<Rightarrow> (err option \<times> Decoder) option" where
  "decodeNextFrame cs md5 d =
     (if de_done d then Some (Some EOF, d)
      else case de_br d of
        None \<Rightarrow> None
      | Some br \<Rightarrow>
          Some (case Decode cs (de_info d) br of
             (Inl err, br) \<Rightarrow>
               let d = d\<lparr>de_br := Some br\<rparr>
               in if err = EOF then (case decFinish md5 d of (e, d) \<Rightarrow> (Some e, d))
                  else let err = (if err = ErrUnexpectedEOF then ErrTruncatedStream (Some err) else err)
                       in (Some err, d\<lparr>de_err := Some err\<rparr>)
           | (Inr fr, br) \<Rightarrow>
               let d = d\<lparr>de_br := Some br, de_decoded := de_decoded d + of_nat (fr_BlockSize fr)\<rparr>
               in case packFrame (\<not> de_seeked d \<and> \<not> de_skipMD5 d) fr d of (buf, d) \<Rightarrow> (None, d\<lparr>de_pending := buf\<rparr>)))"

section \<open>Read and WriteTo\<close>

text \<open>
  Both loop until a frame yields bytes or the stream ends. That they return is a theorem below:
  every decoded frame takes bytes from the source.
\<close>

partial_function (option) fillPending ::
  "(u8 list \<Rightarrow> u16) \<Rightarrow> (u8 list \<Rightarrow> u8 list) \<Rightarrow> Decoder \<Rightarrow> (err option \<times> Decoder) option" where
  "fillPending cs md5 d =
     (if de_pending d \<noteq> [] then Some (None, d)
      else case decodeNextFrame cs md5 d of
        None \<Rightarrow> None
      | Some (Some err, d) \<Rightarrow> Some (Some err, d)
      | Some (None, d) \<Rightarrow> fillPending cs md5 d)"

definition decRead ::
  "(u8 list \<Rightarrow> u16) \<Rightarrow> (u8 list \<Rightarrow> u8 list) \<Rightarrow> nat \<Rightarrow> Decoder \<Rightarrow> (u8 list \<times> err option \<times> Decoder) option" where
  "decRead cs md5 k d =
     (if k = 0 then Some ([], None, d)
      else case de_err d of
        Some e \<Rightarrow> Some ([], Some e, d)
      | None \<Rightarrow>
          (case fillPending cs md5 d of
             None \<Rightarrow> None
           | Some (Some err, d) \<Rightarrow> Some ([], Some err, d)
           | Some (None, d) \<Rightarrow> Some (take k (de_pending d), None, d\<lparr>de_pending := drop k (de_pending d)\<rparr>)))"

text \<open>
  An \<open>io.Writer\<close>: the number of bytes taken, the error, the state it is left in. Its contract is that it
  takes no more than it was given; one that claims more makes the slice of what is pending panic.
\<close>

type_synonym 's byteWriter = "u8 list \<Rightarrow> 's \<Rightarrow> nat \<times> err option \<times> 's"

definition takesAtMost :: "'s byteWriter \<Rightarrow> bool" where
  "takesAtMost w \<longleftrightarrow> (\<forall>p s. fst (w p s) \<le> length p)"

lemma takesAtMostD: "takesAtMost w \<Longrightarrow> w p s = (n, e, s') \<Longrightarrow> n \<le> length p"
  unfolding takesAtMost_def by (metis fst_conv)

partial_function (option) drainTo ::
  "(u8 list \<Rightarrow> u16) \<Rightarrow> (u8 list \<Rightarrow> u8 list) \<Rightarrow> 's byteWriter \<Rightarrow> nat \<Rightarrow> Decoder \<Rightarrow> 's \<Rightarrow> (nat \<times> err option \<times> Decoder \<times> 's) option" where
  "drainTo cs md5 w taken d s =
     (case decodeNextFrame cs md5 d of
        None \<Rightarrow> None
      | Some (Some err, d) \<Rightarrow> Some (taken, if err = EOF then None else Some err, d, s)
      | Some (None, d) \<Rightarrow>
          (case w (de_pending d) s of
             (n, werr, s) \<Rightarrow>
               if length (de_pending d) < n then None
               else
                 let d = d\<lparr>de_pending := drop n (de_pending d)\<rparr>
                 in if werr \<noteq> None then Some (taken + n, werr, d, s) else drainTo cs md5 w (taken + n) d s))"

definition decWriteTo ::
  "(u8 list \<Rightarrow> u16) \<Rightarrow> (u8 list \<Rightarrow> u8 list) \<Rightarrow> 's byteWriter \<Rightarrow> Decoder \<Rightarrow> 's \<Rightarrow> (nat \<times> err option \<times> Decoder \<times> 's) option" where
  "decWriteTo cs md5 w d s =
     (case de_err d of
        Some e \<Rightarrow> Some (0, Some e, d, s)
      | None \<Rightarrow>
          if de_pending d \<noteq> [] then
            (case w (de_pending d) s of
               (n, werr, s) \<Rightarrow>
                 if length (de_pending d) < n then None
                 else
                   let d = d\<lparr>de_pending := drop n (de_pending d)\<rparr>
                   in if werr \<noteq> None then Some (n, werr, d, s) else drainTo cs md5 w n d s)
          else drainTo cs md5 w 0 d s)"

section \<open>The one-shot decoder\<close>

definition DefaultMaxDecodedBytes :: int where "DefaultMaxDecodedBytes = push_bit 30 1"
definition maxPreSize :: i64 where "maxPreSize = push_bit 20 32"

definition presizeHint :: "StreamInfo \<Rightarrow> int \<Rightarrow> int" where
  "presizeHint info maxBytes =
     (if si_TotalSamples info = 0 \<or> si_Channels info \<le> 0 \<or> si_BitDepth info \<le> 0 then 0
      else
        let bytesPerSample = (si_BitDepth info + 7) div 8;
            hint = (ucast (si_TotalSamples info) :: i64) * of_nat (si_Channels info) * of_nat bytesPerSample
        in if sint hint \<le> 0 then 0
           else
             let hint = (if sint hint > sint maxPreSize then maxPreSize else hint);
                 hint = (if maxBytes > 0 \<and> sint hint > maxBytes then of_int maxBytes else hint)
             in sint hint)"

record cappedWriter =
  cw_buf :: "u8 list"
  cw_n :: int
  cw_max :: int

definition cappedWrite :: "cappedWriter byteWriter" where
  "cappedWrite p c =
     (if cw_max c > 0 \<and> cw_n c > cw_max c - int (length p) then (0, Some ErrDecodeLimit, c)
      else (length p, None, c\<lparr>cw_buf := cw_buf c @ p, cw_n := cw_n c + int (length p)\<rparr>))"

definition DecodeInterleavedLimit ::
  "(u8 list \<Rightarrow> u16) \<Rightarrow> (u8 list \<Rightarrow> u8 list) \<Rightarrow> source option \<Rightarrow> int \<Rightarrow> DecoderOption list \<Rightarrow> ((err + u8 list) \<times> StreamInfo) option" where
  "DecodeInterleavedLimit cs md5 r maxBytes opts =
     (case NewDecoder r opts of
        Inl e \<Rightarrow> Some (Inl e, zeroInfo)
      | Inr d \<Rightarrow>
          (case decWriteTo cs md5 cappedWrite d \<lparr>cw_buf = [], cw_n = 0, cw_max = maxBytes\<rparr> of
             None \<Rightarrow> None
           | Some (_, Some e, _, _) \<Rightarrow> Some (Inl e, de_info d)
           | Some (_, None, _, c) \<Rightarrow> Some (Inr (cw_buf c), de_info d)))"

definition decodeOneShot ::
  "(u8 list \<Rightarrow> u16) \<Rightarrow> (u8 list \<Rightarrow> u8 list) \<Rightarrow> source option \<Rightarrow> DecoderOption list \<Rightarrow> ((err + u8 list) \<times> StreamInfo) option" where
  "decodeOneShot cs md5 r opts = DecodeInterleavedLimit cs md5 r DefaultMaxDecodedBytes opts"

section \<open>Every decoded frame takes bytes from the source\<close>

text \<open>A frame that decodes takes at least the two bytes of its CRC.\<close>

lemma Decode_progress:
  assumes "Decode cs si rd = (Inr f, rd')" "wf_reader rd" "roff rd = 0" "valid_info si"
  shows "wf_reader rd'" "roff rd' = 0" "length (rbytes rd') < length (rbytes rd)" "frame_ok f"
proof -
  obtain bytes where b: "rbytes rd = bytes @ be16 (cs bytes) @ rbytes rd'" and r: "resumed (length bytes + 2) rd rd'"
    using Decode_accepts(2) [OF assms] by blast
  show "length (rbytes rd') < length (rbytes rd)" by (subst b) (simp add: be16_def)
qed (use Decode_accepts [OF assms] in \<open>auto simp: resumed_def\<close>)

section \<open>A decoder between two frames\<close>

definition openDecoder :: "Decoder \<Rightarrow> bool" where
  "openDecoder d \<longleftrightarrow> (\<exists>br. de_br d = Some br \<and> wf_reader br \<and> roff br = 0) \<and> valid_info (de_info d)"

definition bytesLeft :: "Decoder \<Rightarrow> nat" where
  "bytesLeft d = (case de_br d of None \<Rightarrow> 0 | Some br \<Rightarrow> length (rbytes br))"

lemma packFrame_fields:
  assumes "packFrame h fr d = (buf, d')"
  shows "d' = (if h then d\<lparr>de_md5 := de_md5 d @ appendPacked [] fr (de_bytesPS d)\<rparr> else d)"
  using assms by (auto simp: packFrame_def Let_def split: if_splits)

lemma decodeNextFrame_open:
  assumes d: "openDecoder d" and n: "decodeNextFrame cs md5 d = Some (None, d')"
  shows "openDecoder d'" "bytesLeft d' < bytesLeft d"
proof -
  obtain br where br: "de_br d = Some br" "wf_reader br" "roff br = 0" and v: "valid_info (de_info d)"
    using d by (auto simp: openDecoder_def)
  obtain fr br' where D: "Decode cs (de_info d) br = (Inr fr, br')"
    and d': "d' = (let d = d\<lparr>de_br := Some br', de_decoded := de_decoded d + of_nat (fr_BlockSize fr)\<rparr>
      in case packFrame (\<not> de_seeked d \<and> \<not> de_skipMD5 d) fr d of (buf, d) \<Rightarrow> d\<lparr>de_pending := buf\<rparr>)"
    using n br(1) by (auto simp: decodeNextFrame_def Let_def split: if_splits prod.splits sum.splits)
  note p = Decode_progress [OF D br(2,3) v]
  obtain buf d1 where P: "packFrame (\<not> de_seeked d \<and> \<not> de_skipMD5 d) fr (d\<lparr>de_br := Some br', de_decoded := de_decoded d + of_nat (fr_BlockSize fr)\<rparr>) = (buf, d1)"
    by fastforce
  have "d' = d1\<lparr>de_pending := buf\<rparr>" using d' by (simp add: Let_def P)
  moreover have "de_br d1 = Some br'" "de_info d1 = de_info d" using packFrame_fields [OF P] by simp_all
  ultimately have "de_br d' = Some br'" "de_info d' = de_info d" by simp_all
  then show "openDecoder d'" "bytesLeft d' < bytesLeft d" using p br v by (auto simp: openDecoder_def bytesLeft_def)
qed

lemma pending_open [simp]:
  "openDecoder (d\<lparr>de_pending := p\<rparr>) = openDecoder d" "bytesLeft (d\<lparr>de_pending := p\<rparr>) = bytesLeft d"
  by (simp_all add: openDecoder_def bytesLeft_def)

lemma decodeNextFrame_returns: "openDecoder d \<Longrightarrow> \<exists>e d'. decodeNextFrame cs md5 d = Some (e, d')"
  by (cases "decodeNextFrame cs md5 d") (auto simp: openDecoder_def decodeNextFrame_def split: if_splits)

text \<open>So both loops return, whatever the source holds and whatever the writer does within its contract.\<close>

lemma fillPending_returns: "openDecoder d \<Longrightarrow> \<exists>r. fillPending cs md5 d = Some r"
proof (induction "bytesLeft d" arbitrary: d rule: less_induct)
  case less
  obtain r d' where n: "decodeNextFrame cs md5 d = Some (r, d')" using decodeNextFrame_returns [OF less.prems] by blast
  show ?case
  proof (cases r)
    case None
    from less.hyps [OF decodeNextFrame_open(2,1) [OF less.prems n [unfolded None]]] show ?thesis
      by (subst fillPending.simps) (simp add: n None)
  qed (subst fillPending.simps, simp add: n)
qed

lemma drainTo_returns:
  assumes "takesAtMost w"
  shows "openDecoder d \<Longrightarrow> \<exists>r. drainTo cs md5 w taken d s = Some r"
proof (induction "bytesLeft d" arbitrary: d taken s rule: less_induct)
  case less
  obtain r d' where n: "decodeNextFrame cs md5 d = Some (r, d')" using decodeNextFrame_returns [OF less.prems] by blast
  show ?case
  proof (cases r)
    case None
    note o = decodeNextFrame_open [OF less.prems n [unfolded None]]
    obtain k werr s' where w: "w (de_pending d') s = (k, werr, s')" by (cases "w (de_pending d') s") auto
    have "\<not> length (de_pending d') < k" using takesAtMostD [OF assms w] by simp
    with less.hyps [of "d'\<lparr>de_pending := drop k (de_pending d')\<rparr>" "taken + k" s'] o show ?thesis
      by (subst drainTo.simps) (simp add: n None w Let_def)
  qed (subst drainTo.simps, simp add: n)
qed

text \<open>A decoder that was built or reset stands right behind the metadata.\<close>

lemma reader_for:
  assumes "\<forall>br. de_br d = Some br \<longrightarrow> reusable br"
    and rd: "rd = (case de_br d of None \<Rightarrow> NewReaderSize src streamReadBlock fcReset | Some br \<Rightarrow> Reset src br)"
  shows "wf_reader rd" "rbytes rd = fst (src_bytes 0 src)" "roff rd = 0" "rend rd = snd (src_bytes 0 src)" "rpos rd = 0" "rd_basePos rd = 0"
  using NewReaderSize_ok [of src streamReadBlock fcReset] Reset_ok [of "the (de_br d)" src] assms(1)
  by (auto simp: rd reusable_def NewReaderSize_def Reset_def fresh_reader_def Let_def split: option.split)

lemma measureSource_keeps:
  assumes "measureSource s base sm d = (r, d')"
  shows "de_br d' = de_br d" "de_md5 d' = de_md5 d" "de_pending d' = de_pending d" "de_done d' = de_done d" "de_seeked d' = de_seeked d"
    "r = None \<Longrightarrow> de_err d' = de_err d" "de_convertSet d' = de_convertSet d" "de_skipMD5 d' = de_skipMD5 d" "de_decoded d' = de_decoded d"
  using assms by (auto simp: measureSource_def split: sum.splits option.splits)

lemma initDecoder_open:
  assumes d: "\<forall>br. de_br d = Some br \<longrightarrow> reusable br" and i: "initDecoder r d = (None, d')"
  shows "openDecoder d'" "de_err d' = None" "de_done d' = False" "de_seeked d' = False" "de_md5 d' = []" "de_pending d' = []"
    "de_skipMD5 d' = False" "de_convertSet d' = False" "de_decoded d' = 0" "info_ok (de_info d')"
    "de_bytesPS d' = (si_BitDepth (de_info d') + 7) div 8"
proof -
  obtain src where r: "r = Some src" using i by (auto simp: initDecoder_def split: option.splits)
  let ?rd = "case de_br d of None \<Rightarrow> NewReaderSize (so_reads src) streamReadBlock fcReset | Some br \<Rightarrow> Reset (so_reads src) br"
  note rd = reader_for [OF d refl, of "so_reads src"]
  obtain sm br where M: "ReadMetadata ?rd = (Inr sm, br)"
    using i by (cases "ReadMetadata ?rd"; cases "fst (ReadMetadata ?rd)") (auto simp: r initDecoder_def Let_def)
  have ok: "meta_ok sm" using runsD(2) [OF runs_ReadMetadata rd(1) M] by simp
  have br: "wf_reader br" "roff br = 0"
    using runsD(1) [OF runs_ReadMetadata rd(1) M] ReadMetadata_section(1) [OF M rd(1,3)] by (auto dest: advanceD(1))
  let ?d = "(clearStream (d\<lparr>de_md5 := []\<rparr>))\<lparr>de_br := Some br\<rparr>"
  obtain d1 where d1: "d' = d1\<lparr>de_info := sm_Info sm, de_bytesPS := (si_BitDepth (sm_Info sm) + 7) div 8,
      de_vendor := sm_Vendor sm, de_comments := sm_Comments sm\<rparr>"
    and q: "d1 = ?d \<or> (\<exists>s base. measureSource s base sm ?d = (None, d1))"
    using i M by (auto simp: r initDecoder_def Let_def split: option.splits sum.splits prod.splits)
  have f: "de_br d1 = Some br" "de_md5 d1 = []" "de_pending d1 = []" "de_done d1 = False" "de_seeked d1 = False" "de_err d1 = None"
    "de_skipMD5 d1 = False" "de_convertSet d1 = False" "de_decoded d1 = 0"
    using q measureSource_keeps [of _ _ sm ?d None d1] by (auto simp: clearStream_def zeroDecoder_def)
  have i: "info_ok (sm_Info sm)" "valid_info (sm_Info sm)" using ok by (auto simp: meta_ok_def info_ok_def valid_info_def)
  show "openDecoder d'" using br f(1) i by (simp add: openDecoder_def d1)
  show "de_err d' = None" "de_done d' = False" "de_seeked d' = False" "de_md5 d' = []" "de_pending d' = []"
    "de_skipMD5 d' = False" "de_convertSet d' = False" "de_decoded d' = 0" "info_ok (de_info d')"
    "de_bytesPS d' = (si_BitDepth (de_info d') + 7) div 8" by (simp_all add: d1 f i)
qed

section \<open>The bytes a decoder hands out\<close>

text \<open>
  Interleaved PCM as a list of samples of \<open>k\<close> bytes; \<open>convertPcm\<close> rescales each of them from the
  depth of the stream to the output depth.
\<close>

definition pcmSamples :: "nat \<Rightarrow> u8 list \<Rightarrow> i32 list" where
  "pcmSamples k B = map (\<lambda>i. sample_val (take k (drop (k * i) B))) [0..<length B div k]"

definition rescale :: "int \<Rightarrow> i32 \<Rightarrow> i32" where
  "rescale shift = (if shift > 0 then push_bit (nat shift) else signed_drop_bit (nat (- shift)))"

definition convertPcm :: "nat \<Rightarrow> nat \<Rightarrow> nat \<Rightarrow> u8 list \<Rightarrow> u8 list" where
  "convertPcm k depth out B =
     (if out = depth then B else concat (map (\<lambda>v. le_bytes ((out + 7) div 8) (rescale (int out - int depth) v)) (pcmSamples k B)))"

lemma pcmSamples_append:
  assumes "0 < k" "length A = k * n"
  shows "pcmSamples k (A @ B) = pcmSamples k A @ pcmSamples k B"
proof (rule nth_equalityI)
  have l: "(k * n + length B) div k = n + length B div k" using assms(1) by simp
  show "length (pcmSamples k (A @ B)) = length (pcmSamples k A @ pcmSamples k B)"
    using assms l by (simp add: pcmSamples_def)
  fix i assume "i < length (pcmSamples k (A @ B))"
  then have i: "i < n + length B div k" using assms l by (simp add: pcmSamples_def)
  show "pcmSamples k (A @ B) ! i = (pcmSamples k A @ pcmSamples k B) ! i"
  proof (cases "i < n")
    case True
    then have "k + k * i \<le> k * n" using mult_le_mono2 [of "Suc i" n k] by simp
    then show ?thesis using True i l assms by (simp add: pcmSamples_def nth_append)
  next
    case False
    then have "drop (k * i) (A @ B) = drop (k * (i - n)) B" using assms(2) by (simp add: diff_mult_distrib2)
    then show ?thesis using False i l assms by (simp add: pcmSamples_def nth_append)
  qed
qed

lemma convertPcm_append:
  "0 < k \<Longrightarrow> k dvd length A \<Longrightarrow> convertPcm k depth out (A @ B) = convertPcm k depth out A @ convertPcm k depth out B"
  by (auto simp: convertPcm_def pcmSamples_append elim!: dvdE)

lemma convertPcm_Nil [simp]: "convertPcm k depth out [] = []"
  by (simp add: convertPcm_def pcmSamples_def)

text \<open>The samples of a block, row by row of its channels.\<close>

lemma concat_map_grid: "concat (map (\<lambda>i. map (\<lambda>c. f (m * i + c)) [0..<m]) [0..<n]) = map f [0..<m * n]" for m n :: nat
proof (induction n)
  case (Suc n)
  have "[0..<m * Suc n] = [0..<m * n] @ map (\<lambda>c. m * n + c) [0..<m]"
    using upt_add_eq_append [of 0 "m * n" m] map_add_upt [of "m * n" m] by (simp add: add.commute)
  then show ?case using Suc by simp
qed simp

lemma packRows_samples:
  assumes "1 \<le> k" "k \<le> 4" "length b = k * nch * n"
  shows "packRows k' (map (map f) (deinterleaveSamples b n nch k)) n = concat (map (\<lambda>v. le_bytes k' (f v)) (pcmSamples k b))"
proof -
  let ?s = "\<lambda>j. sample_val (take k (drop (k * j) b))"
  have n: "length b div k = nch * n" using assms by (simp add: mult.assoc)
  have r: "deinterleaveSamples b n nch k = map (\<lambda>c. map (\<lambda>i. ?s (nch * i + c)) [0..<n]) [0..<nch]"
    unfolding deinterleaveSamples_generic [OF assms] by (rule generic_rows [OF assms])
  have "packRows k' (map (map f) (deinterleaveSamples b n nch k)) n
      = concat (map (\<lambda>i. concat (map (\<lambda>c. le_bytes k' (f (?s (nch * i + c)))) [0..<nch])) [0..<n])"
    unfolding packRows_def r by (intro arg_cong [of _ _ concat] map_cong refl) simp_all
  also have "\<dots> = concat (concat (map (\<lambda>i. map (\<lambda>c. le_bytes k' (f (?s (nch * i + c)))) [0..<nch]) [0..<n]))"
    by (induction n) simp_all
  also have "\<dots> = concat (map (\<lambda>j. le_bytes k' (f (?s j))) [0..<nch * n])"
    unfolding concat_map_grid [where f = "\<lambda>j. le_bytes k' (f (?s j))"] ..
  finally show ?thesis unfolding pcmSamples_def n by (simp add: o_def)
qed

lemma shiftSamples_rows:
  assumes "frame_rows fr"
  shows "shiftSamples fr s = fr\<lparr>fr_Channels := map (map (rescale s)) (fr_Channels fr)\<rparr>" "frame_rows (shiftSamples fr s)"
proof -
  have "map (\<lambda>c. map (rescale s) (take (fr_BlockSize fr) c) @ drop (fr_BlockSize fr) c) (fr_Channels fr) = map (map (rescale s)) (fr_Channels fr)"
    by (rule map_cong) (use assms in \<open>auto simp: frame_rows_def\<close>)
  then show *: "shiftSamples fr s = fr\<lparr>fr_Channels := map (map (rescale s)) (fr_Channels fr)\<rparr>"
    unfolding shiftSamples_def Let_def rescale_def [symmetric] by simp
  show "frame_rows (shiftSamples fr s)" using assms unfolding * by (auto simp: frame_rows_def)
qed

lemma packFrame_chunk:
  assumes "validateConfig cfg = None" "length b = sampleBytes cfg * n"
    and "si_BitDepth (de_info d) = si_BitDepth (cfgInfo cfg)" "de_bytesPS d = cfgBytesPS cfg"
  shows "packFrame h (chunkFrame cfg i n b) d =
    (convertPcm (cfgBytesPS cfg) (si_BitDepth (cfgInfo cfg)) (de_outBits d) b, if h then d\<lparr>de_md5 := de_md5 d @ b\<rparr> else d)"
proof -
  let ?k = "cfgBytesPS cfg" and ?nch = "nat (cf_Channels cfg)" and ?fr = "chunkFrame cfg i n b"
  let ?s = "int (de_outBits d) - int (si_BitDepth (cfgInfo cfg))"
  have k: "1 \<le> ?k" "?k \<le> 4" using cfgBytesPS_bounds [OF assms(1)] by simp_all
  have l: "length b = ?k * ?nch * n" using assms(2) by (simp add: sampleBytes_def)
  have "rows_ok (8 * ?k) n ?nch (deinterleaveSamples b n ?nch ?k)" using rows_ok_deinterleaveSamples [OF k l] .
  then have fr: "frame_rows ?fr" by (simp add: frame_rows_def chunkFrame_def blockFrame_def rows_ok_def)
  have "appendPacked [] (shiftSamples ?fr ?s) ((de_outBits d + 7) div 8)
      = concat (map (\<lambda>v. le_bytes ((de_outBits d + 7) div 8) (rescale ?s v)) (pcmSamples ?k b))"
    unfolding appendPacked_rows [OF shiftSamples_rows(2) [OF fr]] unfolding shiftSamples_rows(1) [OF fr]
    by (simp add: chunkFrame_def blockFrame_def packRows_samples [OF k l])
  then show ?thesis
    using chunkFrame_packed(1) [OF assms(1,2), of i] assms(3,4) by (simp add: packFrame_def convertPcm_def Let_def)
qed

section \<open>The frames still to come\<close>

fun framesFrom :: "(u8 list \<Rightarrow> u16) \<Rightarrow> Config \<Rightarrow> nat \<Rightarrow> (u8 list \<times> nat) list \<Rightarrow> u8 list \<Rightarrow> bool" where
  "framesFrom cs cfg i [] B \<longleftrightarrow> B = []"
| "framesFrom cs cfg i ((buf, n) # c) B \<longleftrightarrow>
     length (take (sampleBytes cfg * n) B) = sampleBytes cfg * n \<and> 1 \<le> n \<and> n \<le> encoderBlockSize \<and> frameShape cfg n buf
     \<and> decodes cs (cfgInfo cfg) buf (chunkFrame cfg i n (take (sampleBytes cfg * n) B)) \<and> (c \<noteq> [] \<longrightarrow> n = encoderBlockSize)
     \<and> framesFrom cs cfg (Suc i) c (drop (sampleBytes cfg * n) B)"

lemma framesFrom_snoc:
  assumes "framesFrom cs cfg i c B" "length b = sampleBytes cfg * n" "1 \<le> n" "n \<le> encoderBlockSize"
    "decodes cs (cfgInfo cfg) buf (chunkFrame cfg (i + length c) n b)" "frameShape cfg n buf" "fullBlocks c"
  shows "framesFrom cs cfg i (c @ [(buf, n)]) (B @ b)"
  using assms
proof (induction c arbitrary: i B)
  case (Cons f c)
  obtain fb m where f: "f = (fb, m)" by (cases f)
  have l: "sampleBytes cfg * m \<le> length B" using Cons.prems(1) by (simp add: f min_def split: if_splits)
  have full: "m = encoderBlockSize" "fullBlocks c" using Cons.prems(7) by (simp_all add: fullBlocks_def f)
  have "framesFrom cs cfg (Suc i) (c @ [(buf, n)]) (drop (sampleBytes cfg * m) B @ b)"
    using Cons.prems full by (intro Cons.IH) (simp_all add: f)
  then show ?case using Cons.prems(1) l full(1) by (simp add: f)
qed simp

lemma framed_framesFrom: "framed cs cfg c B \<Longrightarrow> framesFrom cs cfg 0 c B"
  by (induction rule: framed.induct) (auto intro!: framesFrom_snoc)

lemma framesFrom_length: "framesFrom cs cfg i c B \<Longrightarrow> sampleBytes cfg dvd length B"
proof (induction cs cfg i c B rule: framesFrom.induct)
  case (2 cs cfg i buf n c B)
  then have "sampleBytes cfg dvd length (drop (sampleBytes cfg * n) B)" by simp
  moreover have "length B = sampleBytes cfg * n + length (drop (sampleBytes cfg * n) B)"
    using 2(2) by (simp add: min_def split: if_splits)
  ultimately show ?case by (metis dvd_add dvd_triv_left)
qed simp

lemma framesFrom_take: "framesFrom cs cfg i c B \<Longrightarrow> framesFrom cs cfg i (take k c) (take (sampleBytes cfg * sum_list (map snd (take k c))) B)"
proof (induction cs cfg i c B arbitrary: k rule: framesFrom.induct)
  case (2 cs cfg i buf n c B)
  show ?case
  proof (cases k)
    case (Suc m)
    have "framesFrom cs cfg (Suc i) (take m c) (take (sampleBytes cfg * sum_list (map snd (take m c))) (drop (sampleBytes cfg * n) B))"
      using 2 by simp
    then show ?thesis
      using 2(2) by (auto simp: Suc distrib_left drop_take min_def split: if_splits)
  qed simp
qed simp

section \<open>Frame after frame\<close>

definition standsBefore :: "(u8 list \<Rightarrow> u16) \<Rightarrow> Config \<Rightarrow> nat \<Rightarrow> (u8 list \<times> nat) list \<Rightarrow> u8 list \<Rightarrow> Decoder \<Rightarrow> bool" where
  "standsBefore cs cfg i c B d \<longleftrightarrow> validateConfig cfg = None \<and> sameFormat (de_info d) (cfgInfo cfg) \<and> de_bytesPS d = cfgBytesPS cfg
     \<and> \<not> de_done d \<and> 1 \<le> de_outBits d \<and> framesFrom cs cfg i c B
     \<and> (\<exists>br. de_br d = Some br \<and> wf_reader br \<and> roff br = 0 \<and> rbytes br = concat (map fst c) \<and> rend br = EOF)"

definition outPcm :: "Config \<Rightarrow> Decoder \<Rightarrow> u8 list \<Rightarrow> u8 list" where
  "outPcm cfg d B = convertPcm (cfgBytesPS cfg) (si_BitDepth (cfgInfo cfg)) (de_outBits d) B"

definition hashing :: "Decoder \<Rightarrow> bool" where "hashing d \<longleftrightarrow> \<not> de_seeked d \<and> \<not> de_skipMD5 d"

text \<open>The decoder behind blocks of \<open>m\<close> samples in all.\<close>

definition behind :: "Decoder \<Rightarrow> u8 list \<Rightarrow> nat \<Rightarrow> frameCRC reader \<Rightarrow> u8 list \<Rightarrow> Decoder" where
  "behind d B m br p =
     d\<lparr>de_br := Some br, de_decoded := de_decoded d + of_nat m, de_md5 := (if hashing d then de_md5 d @ B else de_md5 d), de_pending := p\<rparr>"

lemma behind_fields [simp]:
  "de_info (behind d B m br p) = de_info d" "de_outBits (behind d B m br p) = de_outBits d" "de_err (behind d B m br p) = de_err d"
  "de_pending (behind d B m br p) = p" "hashing (behind d B m br p) = hashing d" "(behind d B m br p)\<lparr>de_pending := q\<rparr> = behind d B m br q"
  "de_seeked (behind d B m br p) = de_seeked d" "de_done (behind d B m br p) = de_done d" "outPcm cfg (behind d B m br p) = outPcm cfg d"
  "de_br (behind d B m br p) = Some br" "de_bytesPS (behind d B m br p) = de_bytesPS d"
  by (simp_all add: behind_def hashing_def outPcm_def fun_eq_iff)

lemma behind_behind [simp]: "behind (behind d B m br p) B' m' br' p' = behind d (B @ B') (m + m') br' p'"
  by (simp add: behind_def hashing_def add.assoc)

lemma outPcm_append: "validateConfig cfg = None \<Longrightarrow> length A = sampleBytes cfg * n \<Longrightarrow> outPcm cfg d (A @ B) = outPcm cfg d A @ outPcm cfg d B"
  unfolding outPcm_def using cfgBytesPS_bounds(1) [of cfg] by (intro convertPcm_append) (simp_all add: sampleBytes_def mult.assoc)

lemma outPcm_Nil [simp]: "outPcm cfg d [] = []"
  by (simp add: outPcm_def)

lemma outPcm_pending [simp]: "outPcm cfg (d\<lparr>de_pending := p\<rparr>) = outPcm cfg d"
  by (simp add: outPcm_def fun_eq_iff)

lemma outPcm_nonempty:
  assumes "validateConfig cfg = None" "length b = sampleBytes cfg * n" "1 \<le> n" "1 \<le> de_outBits d"
  shows "outPcm cfg d b \<noteq> []"
proof -
  have k: "1 \<le> cfgBytesPS cfg" using cfgBytesPS_bounds [OF assms(1)] by simp
  have "1 * 1 \<le> sampleBytes cfg * n" using sampleBytes_pos [OF assms(1)] assms(3) by (rule mult_le_mono)
  then have b: "b \<noteq> []" "0 < length b div cfgBytesPS cfg"
    using assms(2) k by (auto simp: sampleBytes_def mult.assoc div_greater_zero_iff dvd_imp_le)
  have "0 < (de_outBits d + 7) div 8" using assms(4) by simp
  then have "\<exists>x. x \<in> set (map (\<lambda>v. le_bytes ((de_outBits d + 7) div 8) (rescale s v)) (pcmSamples (cfgBytesPS cfg) b)) \<and> x \<noteq> []" for s
    using b(2) by (intro exI [of _ "le_bytes ((de_outBits d + 7) div 8) (rescale s (pcmSamples (cfgBytesPS cfg) b ! 0))"])
      (auto simp: pcmSamples_def simp flip: length_greater_0_conv intro!: image_eqI [of _ _ 0])
  then show ?thesis unfolding outPcm_def convertPcm_def using b(1) by (auto simp: concat_eq_Nil_conv)
qed

lemma next_frame:
  assumes d: "standsBefore cs cfg i ((buf, n) # c) B d"
  defines "b \<equiv> take (sampleBytes cfg * n) B"
  shows "\<exists>br. decodeNextFrame cs md5 d = Some (None, behind d b n br (outPcm cfg d b))
    \<and> (\<forall>p. standsBefore cs cfg (Suc i) c (drop (sampleBytes cfg * n) B) (behind d b n br p))"
proof -
  obtain br where br: "de_br d = Some br" "wf_reader br" "roff br = 0" "rbytes br = buf @ concat (map fst c)" "rend br = EOF"
    using d by (auto simp: standsBefore_def)
  have v: "validateConfig cfg = None" and si: "sameFormat (de_info d) (cfgInfo cfg)" and w: "de_bytesPS d = cfgBytesPS cfg"
    and nd: "\<not> de_done d" and l: "length b = sampleBytes cfg * n"
    and fr: "decodes cs (cfgInfo cfg) buf (chunkFrame cfg i n b)" "framesFrom cs cfg (Suc i) c (drop (sampleBytes cfg * n) B)"
    using d by (simp_all add: standsBefore_def b_def)
  have D: "Decode cs (de_info d) = Decode cs (cfgInfo cfg)" using si by (intro Decode_cong) (simp_all add: sameFormat_def)
  from decodesD [OF fr(1) br(2,3,4)] obtain br' where
    br': "Decode cs (cfgInfo cfg) br = (Inr (chunkFrame cfg i n b), br')" "resumed (length buf) br br'" by blast
  have bits: "si_BitDepth (de_info d) = si_BitDepth (cfgInfo cfg)" using si by (simp add: sameFormat_def)
  have "decodeNextFrame cs md5 d = Some (None, behind d b n br' (outPcm cfg d b))"
    using packFrame_chunk [OF v l, of "d\<lparr>de_br := Some br', de_decoded := de_decoded d + of_nat n\<rparr>" "hashing d" i] bits w
    by (simp add: decodeNextFrame_def nd br(1) D br'(1) Let_def outPcm_def behind_def hashing_def chunkFrame_def blockFrame_def)
  moreover have "rbytes br' = concat (map fst c)" "rend br' = EOF" "wf_reader br'" "roff br' = 0" using br'(2) br by (simp_all add: resumed_def)
  then have "standsBefore cs cfg (Suc i) c (drop (sampleBytes cfg * n) B) (behind d b n br' p)" for p
    using d fr(2) by (simp add: standsBefore_def)
  ultimately show ?thesis by blast
qed

lemma last_frame:
  assumes "standsBefore cs cfg i [] B d"
  shows "\<exists>br. decodeNextFrame cs md5 d = Some (case decFinish md5 (behind d [] 0 br (de_pending d)) of (e, d) \<Rightarrow> (Some e, d))"
proof -
  obtain br where br: "de_br d = Some br" "wf_reader br" "roff br = 0" "rbytes br = []" "rend br = EOF" and nd: "\<not> de_done d"
    using assms by (auto simp: standsBefore_def)
  have "rbits br = []" using br by (simp add: rbits_def)
  then have "fst (Decode cs (de_info d) br) = Inl EOF" using Decode_EOF [OF br(2)] br(5) by simp
  then obtain br' where "Decode cs (de_info d) br = (Inl EOF, br')" by (cases "Decode cs (de_info d) br") auto
  then show ?thesis by (intro exI [of _ br']) (simp add: decodeNextFrame_def br(1) nd behind_def)
qed

text \<open>What the end of the stream is reported as.\<close>

definition verdictOf :: "(u8 list \<Rightarrow> u8 list) \<Rightarrow> Decoder \<Rightarrow> u8 list \<Rightarrow> nat \<Rightarrow> err" where
  "verdictOf md5 d B m =
     (let info = de_info d
      in if de_seeked d then EOF
         else if \<not> de_skipMD5 d \<and> si_MD5 info \<noteq> zeroMD5 then (if md5 (de_md5 d @ B) = si_MD5 info then EOF else ErrMD5Mismatch)
         else if si_TotalSamples info \<noteq> 0 \<and> de_decoded d + of_nat m < si_TotalSamples info then ErrTruncatedStream None else EOF)"

lemma decFinish_behind:
  "decFinish md5 (behind d B m br p) =
    (verdictOf md5 d B m, (behind d B m br p)\<lparr>de_done := True, de_err := (if verdictOf md5 d B m = EOF then de_err d else Some (verdictOf md5 d B m))\<rparr>)"
  by (simp add: decFinish_def behind_def verdictOf_def hashing_def Let_def)

section \<open>Draining into a writer\<close>

text \<open>
  What \<open>WriteTo\<close> needs of a writer: as long as the contents stay allowed it takes everything.
\<close>

locale taker =
  fixes w :: "'s byteWriter" and contents :: "'s \<Rightarrow> u8 list" and allowed :: "u8 list \<Rightarrow> bool" and ready :: "'s \<Rightarrow> bool"
  assumes take_all: "ready s \<Longrightarrow> allowed (contents s @ p) \<Longrightarrow>
      \<exists>s'. w p s = (length p, None, s') \<and> contents s' = contents s @ p \<and> ready s'"
    and allowed_prefix: "allowed (A @ B) \<Longrightarrow> allowed A"
    and took_all: "ready s \<Longrightarrow> w p s = (n, None, s') \<Longrightarrow> contents s' = contents s @ p \<and> n = length p \<and> ready s'"
begin

lemma drain:
  assumes "standsBefore cs cfg i c B d" "ready s" "allowed (contents s @ outPcm cfg d B)" "de_pending d = []"
  shows "\<exists>br s'. drainTo cs md5 w t d s =
      (case decFinish md5 (behind d B (length B div sampleBytes cfg) br []) of
         (e, d') \<Rightarrow> Some (t + length (outPcm cfg d B), if e = EOF then None else Some e, d', s'))
    \<and> ready s' \<and> contents s' = contents s @ outPcm cfg d B"
  using assms
proof (induction c arbitrary: i B d s t)
  case Nil
  have B: "B = []" using Nil.prems(1) by (simp add: standsBefore_def)
  from last_frame [OF Nil.prems(1)] obtain br where
    "decodeNextFrame cs md5 d = Some (case decFinish md5 (behind d [] 0 br []) of (e, d) \<Rightarrow> (Some e, d))" using Nil.prems(4) by auto
  then show ?case
    using Nil.prems by (intro exI [of _ br] exI [of _ s]) (subst drainTo.simps, simp add: B split: prod.split)
next
  case (Cons f c)
  obtain buf n where f: "f = (buf, n)" by (cases f)
  let ?b = "take (sampleBytes cfg * n) B" and ?B = "drop (sampleBytes cfg * n) B"
  from next_frame [OF Cons.prems(1) [unfolded f], of md5] obtain br where
    nf: "decodeNextFrame cs md5 d = Some (None, behind d ?b n br (outPcm cfg d ?b))"
    and at: "standsBefore cs cfg (Suc i) c ?B (behind d ?b n br [])" by blast
  have v: "validateConfig cfg = None" and l: "length ?b = sampleBytes cfg * n" using Cons.prems(1) by (simp_all add: f standsBefore_def)
  have out: "outPcm cfg d B = outPcm cfg d ?b @ outPcm cfg d ?B" using outPcm_append [OF v l, of d ?B] by simp
  have "allowed (contents s @ outPcm cfg d ?b)" using Cons.prems(3) allowed_prefix [of "contents s @ outPcm cfg d ?b"] by (simp add: out)
  from take_all [OF Cons.prems(2) this] obtain s1 where
    s1: "w (outPcm cfg d ?b) s = (length (outPcm cfg d ?b), None, s1)" "contents s1 = contents s @ outPcm cfg d ?b" "ready s1" by blast
  have a: "allowed (contents s1 @ outPcm cfg (behind d ?b n br []) ?B)" using Cons.prems(3) by (simp add: s1(2) out)
  from Cons.IH [OF at s1(3) a, of "t + length (outPcm cfg d ?b)"] obtain br' s' where
    r: "drainTo cs md5 w (t + length (outPcm cfg d ?b)) (behind d ?b n br []) s1 =
        (case decFinish md5 (behind d (?b @ ?B) (n + length ?B div sampleBytes cfg) br' []) of
           (e, d') \<Rightarrow> Some (t + length (outPcm cfg d ?b) + length (outPcm cfg d ?B), if e = EOF then None else Some e, d', s'))"
      "ready s'" "contents s' = contents s1 @ outPcm cfg d ?B" by auto
  define q where "q = length ?B"
  have "length B = sampleBytes cfg * n + q" using l by (simp add: q_def min_def split: if_splits)
  then have m: "length B div sampleBytes cfg = n + length ?B div sampleBytes cfg"
    using sampleBytes_pos [OF v] unfolding q_def [symmetric] by simp
  have step: "drainTo cs md5 w t d s = drainTo cs md5 w (t + length (outPcm cfg d ?b)) (behind d ?b n br []) s1"
    by (subst drainTo.simps) (simp add: nf s1(1) Let_def)
  show ?case
    unfolding step r(1) using r(2,3) s1(2) by (intro exI [of _ br'] exI [of _ s']) (simp add: m out add.assoc)
qed

end

interpretation capped: taker cappedWrite cw_buf "\<lambda>B. m \<le> 0 \<or> int (length B) \<le> m"
  "\<lambda>c. cw_max c = m \<and> cw_n c = int (length (cw_buf c))" for m
  by unfold_locales (auto simp: cappedWrite_def split: if_splits)

section \<open>Reading piece by piece\<close>

text \<open>\<open>serves\<close>: what a decoder will still hand out, to the clean end of the stream.\<close>

definition serves :: "(u8 list \<Rightarrow> u16) \<Rightarrow> (u8 list \<Rightarrow> u8 list) \<Rightarrow> Config \<Rightarrow> Decoder \<Rightarrow> u8 list \<Rightarrow> bool" where
  "serves cs md5 cfg d rest \<longleftrightarrow> de_err d = None \<and>
     (de_done d \<and> de_pending d = rest
      \<or> (\<exists>i c B. standsBefore cs cfg i c B d \<and> rest = de_pending d @ outPcm cfg d B \<and> verdictOf md5 d B (length B div sampleBytes cfg) = EOF))"

fun readMany :: "(u8 list \<Rightarrow> u16) \<Rightarrow> (u8 list \<Rightarrow> u8 list) \<Rightarrow> nat list \<Rightarrow> Decoder \<Rightarrow> (u8 list \<times> err option \<times> Decoder) option" where
  "readMany cs md5 [] d = Some ([], None, d)"
| "readMany cs md5 (k # ks) d =
     (case decRead cs md5 k d of
        None \<Rightarrow> None
      | Some (got, Some e, d) \<Rightarrow> Some (got, Some e, d)
      | Some (got, None, d) \<Rightarrow> (case readMany cs md5 ks d of None \<Rightarrow> None | Some (others, e, d) \<Rightarrow> Some (got @ others, e, d)))"

lemma verdict_pending [simp]: "verdictOf md5 (d\<lparr>de_pending := p\<rparr>) = verdictOf md5 d"
  by (simp add: verdictOf_def fun_eq_iff cong: if_cong)

lemma servesI:
  "de_err d = None \<Longrightarrow> standsBefore cs cfg i c B d \<Longrightarrow> rest = de_pending d @ outPcm cfg d B
    \<Longrightarrow> verdictOf md5 d B (length B div sampleBytes cfg) = EOF \<Longrightarrow> serves cs md5 cfg d rest"
  unfolding serves_def by blast

lemma serves_pending:
  assumes "serves cs md5 cfg d rest" "de_pending d = got @ p"
  shows "\<exists>r. rest = got @ r \<and> serves cs md5 cfg (d\<lparr>de_pending := p\<rparr>) r"
proof (cases "de_done d \<and> de_pending d = rest")
  case True
  then have "rest = got @ p \<and> serves cs md5 cfg (d\<lparr>de_pending := p\<rparr>) p" using assms by (simp add: serves_def)
  then show ?thesis by blast
next
  case False
  then obtain i c B where B: "standsBefore cs cfg i c B d" "rest = de_pending d @ outPcm cfg d B"
    "verdictOf md5 d B (length B div sampleBytes cfg) = EOF" using assms(1) by (auto simp: serves_def)
  have "standsBefore cs cfg i c B (d\<lparr>de_pending := p\<rparr>)" using B(1) by (simp add: standsBefore_def)
  moreover have "verdictOf md5 (d\<lparr>de_pending := p\<rparr>) B (length B div sampleBytes cfg) = EOF" using B(3) by simp
  ultimately have "serves cs md5 cfg (d\<lparr>de_pending := p\<rparr>) (p @ outPcm cfg d B)"
    using assms(1) by (intro servesI) (simp_all add: serves_def)
  then show ?thesis using B(2) assms(2) by simp
qed

lemma verdict_behind:
  "hashing d \<or> de_seeked d \<or> de_skipMD5 d \<Longrightarrow> verdictOf md5 (behind d b n br p) B m = verdictOf md5 d (b @ B) (n + m)"
  by (auto simp: verdictOf_def behind_def hashing_def Let_def add.assoc)

lemma fillPending_serves:
  assumes "serves cs md5 cfg d rest"
  shows "\<exists>d'. fillPending cs md5 d = Some (if rest = [] then Some EOF else None, d') \<and> serves cs md5 cfg d' rest
    \<and> (rest \<noteq> [] \<longrightarrow> de_pending d' \<noteq> [])"
proof -
  consider (pending) "de_pending d \<noteq> []" | (over) "de_pending d = []" "de_done d" "rest = []"
    | (frames) i c B where "de_pending d = []" "standsBefore cs cfg i c B d" "rest = outPcm cfg d B"
        "verdictOf md5 d B (length B div sampleBytes cfg) = EOF"
    using assms by (auto simp: serves_def)
  then show ?thesis
  proof cases
    case pending
    then have "rest \<noteq> []" using assms by (auto simp: serves_def)
    then show ?thesis using pending assms by (subst fillPending.simps) simp
  next
    case over
    then show ?thesis using assms by (subst fillPending.simps) (simp add: decodeNextFrame_def)
  next
    case frames
    show ?thesis
    proof (cases c)
      case Nil
      then have B: "B = []" using frames(2) by (simp add: standsBefore_def)
      from last_frame [OF frames(2) [unfolded Nil], of md5] obtain br where
        l: "decodeNextFrame cs md5 d = Some (case decFinish md5 (behind d [] 0 br []) of (e, d) \<Rightarrow> (Some e, d))" using frames(1) by auto
      have "verdictOf md5 d [] 0 = EOF" using frames(4) B by simp
      then have "decodeNextFrame cs md5 d = Some (Some EOF, (behind d [] 0 br [])\<lparr>de_done := True, de_err := de_err d\<rparr>)"
        unfolding l decFinish_behind by simp
      then show ?thesis using frames B assms by (subst fillPending.simps) (simp add: serves_def)
    next
      case (Cons f fs)
      obtain buf n where f: "f = (buf, n)" by (cases f)
      let ?b = "take (sampleBytes cfg * n) B" and ?B = "drop (sampleBytes cfg * n) B"
      from next_frame [OF frames(2) [unfolded Cons f], of md5] obtain br where
        nf: "decodeNextFrame cs md5 d = Some (None, behind d ?b n br (outPcm cfg d ?b))"
        and at: "standsBefore cs cfg (Suc i) fs ?B (behind d ?b n br (outPcm cfg d ?b))" by blast
      have v: "validateConfig cfg = None" and l: "length ?b = sampleBytes cfg * n" and n: "1 \<le> n" "1 \<le> de_outBits d"
        using frames(2) by (simp_all add: Cons f standsBefore_def)
      have ne: "outPcm cfg d ?b \<noteq> []" by (rule outPcm_nonempty [OF v l n])
      have out: "rest = outPcm cfg d ?b @ outPcm cfg d ?B" using outPcm_append [OF v l, of d ?B] frames(3) by simp
      define q where "q = length ?B"
      have "length B = sampleBytes cfg * n + q" using l by (simp add: q_def min_def split: if_splits)
      then have m: "length B div sampleBytes cfg = n + length ?B div sampleBytes cfg"
        using sampleBytes_pos [OF v] unfolding q_def [symmetric] by simp
      have "verdictOf md5 (behind d ?b n br (outPcm cfg d ?b)) ?B (length ?B div sampleBytes cfg) = EOF"
        using frames(4) by (subst verdict_behind) (auto simp: hashing_def m)
      note end_ok = this
      have "de_err d = None" using assms by (simp add: serves_def)
      then have "serves cs md5 cfg (behind d ?b n br (outPcm cfg d ?b)) rest"
        by (intro servesI [OF _ at _ end_ok]) (simp_all add: out)
      moreover have "fillPending cs md5 d = Some (None, behind d ?b n br (outPcm cfg d ?b))"
        using frames(1) ne by (subst fillPending.simps, simp add: nf) (subst fillPending.simps, simp)
      ultimately show ?thesis using ne out by auto
    qed
  qed
qed

lemma decRead_serves:
  assumes "serves cs md5 cfg d rest" "0 < k"
  shows "\<exists>got rest' d'. decRead cs md5 k d = Some (got, if rest = [] then Some EOF else None, d')
    \<and> serves cs md5 cfg d' rest' \<and> rest = got @ rest' \<and> length got \<le> k \<and> (rest \<noteq> [] \<longrightarrow> got \<noteq> [])"
proof -
  have e: "de_err d = None" using assms(1) by (simp add: serves_def)
  from fillPending_serves [OF assms(1)] obtain d1 where
    f: "fillPending cs md5 d = Some (if rest = [] then Some EOF else None, d1)" "serves cs md5 cfg d1 rest" "rest \<noteq> [] \<longrightarrow> de_pending d1 \<noteq> []"
    by blast
  show ?thesis
  proof (cases "rest = []")
    case True
    then have "decRead cs md5 k d = Some ([], Some EOF, d1)" using assms(2) e f(1) by (simp add: decRead_def)
    then show ?thesis using True f(2) by fastforce
  next
    case False
    let ?p = "de_pending d1"
    from serves_pending [OF f(2), of "take k ?p" "drop k ?p"] obtain r where
      r: "rest = take k ?p @ r" "serves cs md5 cfg (d1\<lparr>de_pending := drop k ?p\<rparr>) r" by auto
    have "decRead cs md5 k d = Some (take k ?p, if rest = [] then Some EOF else None, d1\<lparr>de_pending := drop k ?p\<rparr>)"
      using assms(2) e f(1) False by (simp add: decRead_def)
    moreover have "rest \<noteq> [] \<longrightarrow> take k ?p \<noteq> []" "length (take k ?p) \<le> k" using f(3) False assms(2) by simp_all
    ultimately show ?thesis using r by blast
  qed
qed

lemma readMany_serves:
  assumes "serves cs md5 cfg d rest" "list_all (\<lambda>k. 0 < k) ks"
  shows "\<exists>got rest' e d'. readMany cs md5 ks d = Some (got, e, d') \<and> rest = got @ rest' \<and> serves cs md5 cfg d' rest'
    \<and> (e = None \<or> e = Some EOF \<and> rest' = []) \<and> (length rest < length ks \<longrightarrow> e = Some EOF)"
  using assms
proof (induction ks arbitrary: d rest)
  case (Cons k ks)
  have k: "0 < k" "list_all (\<lambda>k. 0 < k) ks" using Cons.prems(2) by simp_all
  from decRead_serves [OF Cons.prems(1) k(1)] obtain got r d1 where
    1: "decRead cs md5 k d = Some (got, if rest = [] then Some EOF else None, d1)" "serves cs md5 cfg d1 r" "rest = got @ r"
      "rest \<noteq> [] \<longrightarrow> got \<noteq> []" by blast
  show ?case
  proof (cases "rest = []")
    case True
    then have "readMany cs md5 (k # ks) d = Some (got, Some EOF, d1)" using 1(1) by simp
    then show ?thesis using 1(2,3) True by blast
  next
    case False
    from Cons.IH [OF 1(2) k(2)] obtain others r' e d' where
      2: "readMany cs md5 ks d1 = Some (others, e, d')" "r = others @ r'" "serves cs md5 cfg d' r'" "e = None \<or> e = Some EOF \<and> r' = []"
        "length r < length ks \<longrightarrow> e = Some EOF" by blast
    have "length r < length rest" using 1(3,4) False by simp
    then have "length rest < length (k # ks) \<longrightarrow> e = Some EOF" using 2(5) by auto
    moreover have "readMany cs md5 (k # ks) d = Some (got @ others, e, d')" using 1(1) 2(1) False by simp
    moreover have "rest = (got @ others) @ r'" using 1(3) 2(2) by simp
    ultimately show ?thesis using 2(3,4) by blast
  qed
qed auto

text \<open>More calls than there are bytes deliver all of them, whatever the sizes of their buffers.\<close>

definition readsAs :: "(u8 list \<Rightarrow> u16) \<Rightarrow> (u8 list \<Rightarrow> u8 list) \<Rightarrow> Decoder \<Rightarrow> u8 list \<Rightarrow> bool" where
  "readsAs cs md5 d bytes \<longleftrightarrow>
     (\<forall>ks. list_all (\<lambda>k. 0 < k) ks \<longrightarrow> length bytes < length ks \<longrightarrow> (\<exists>d'. readMany cs md5 ks d = Some (bytes, Some EOF, d')))"

lemma serves_reads: "serves cs md5 cfg d rest \<Longrightarrow> readsAs cs md5 d rest"
  unfolding readsAs_def using readMany_serves [of cs md5 cfg d rest] by fastforce

section \<open>Opening a stream\<close>

definition measurable :: "source \<Rightarrow> bool" where
  "measurable src \<longleftrightarrow> (case so_seeker src of None \<Rightarrow> True | Some s \<Rightarrow> sk_restore s = None)"

lemma measureSource_same:
  assumes "measureSource s base sm d = (r, d')"
  shows "de_info d' = de_info d" "de_outBits d' = de_outBits d" "sk_restore s = None \<Longrightarrow> r = None"
  using assms by (auto simp: measureSource_def split: sum.splits option.splits)

lemma initDecoder_stream:
  assumes d: "\<forall>br. de_br d = Some br \<longrightarrow> reusable br" and src: "src_bytes 0 (so_reads src) = (hdr @ A, EOF)" "measurable src"
    and p: "parses (ReadMetadata :: (StreamMeta, frameCRC) rm) (byte_bits hdr) sm"
  shows "\<exists>d' br. initDecoder (Some src) d = (None, d') \<and> de_br d' = Some br \<and> wf_reader br \<and> roff br = 0 \<and> rbytes br = A \<and> rend br = EOF
    \<and> BytesRead br = length hdr \<and> de_info d' = sm_Info sm \<and> de_comments d' = sm_Comments sm \<and> de_vendor d' = sm_Vendor sm
    \<and> (\<forall>s base e x. so_seeker src = Some s \<longrightarrow> sk_base s = Inr base \<longrightarrow> sk_resume s = Inr x \<longrightarrow> sk_end s = Inr e \<longrightarrow>
        de_seekable d' \<and> de_audioStart d' = base + length hdr \<and> de_streamEnd d' = e \<and> de_nominalBlock d' = sm_MaxBlock sm
        \<and> de_maxFrame d' = sm_MaxFrame sm \<and> de_seekPoints d' = sm_SeekPoints sm)"
proof -
  define rd where "rd = (case de_br d of None \<Rightarrow> NewReaderSize (so_reads src) streamReadBlock fcReset | Some br \<Rightarrow> Reset (so_reads src) br)"
  note R = reader_for [OF d rd_def, unfolded src(1) fst_conv snd_conv]
  have "at_bits (byte_bits hdr) rd" using R(1,2,3) by (intro at_bits_split [of _ _ "byte_bits A"]) (simp_all add: rbits_def)
  from parsesE [OF p this] obtain br where M: "ReadMetadata rd = (Inr sm, br)" and a: "advance (length (byte_bits hdr)) rd br" .
  have br: "wf_reader br" "roff br = 0" "rbytes br = A" "rend br = EOF" "BytesRead br = length hdr"
    using a R by (auto simp: advance_def BytesRead_rpos)
  define d0 where "d0 = (clearStream (d\<lparr>de_md5 := []\<rparr>))\<lparr>de_br := Some br\<rparr>"
  define seek where "seek = (case so_seeker src of None \<Rightarrow> None
                          | Some s \<Rightarrow> (case sk_base s of Inl _ \<Rightarrow> None | Inr base \<Rightarrow> Some (s, base)))"
  have "\<exists>d1. (case seek of None \<Rightarrow> (None, d0) | Some (s, base) \<Rightarrow> measureSource s base sm d0) = (None, d1)"
  proof (cases seek)
    case (Some sb)
    obtain s base where sb: "sb = (s, base)" by (cases sb)
    have "sk_restore s = None" using src(2) Some by (auto simp: sb seek_def measurable_def split: option.splits sum.splits)
    moreover obtain r d1 where "measureSource s base sm d0 = (r, d1)" by fastforce
    ultimately show ?thesis using measureSource_same(3) [of s base sm d0 r d1] by (simp add: Some sb)
  qed simp
  then obtain d1 where d1: "(case seek of None \<Rightarrow> (None, d0) | Some (s, base) \<Rightarrow> measureSource s base sm d0) = (None, d1)" by blast
  let ?d = "d1\<lparr>de_info := sm_Info sm, de_bytesPS := (si_BitDepth (sm_Info sm) + 7) div 8, de_vendor := sm_Vendor sm, de_comments := sm_Comments sm\<rparr>"
  have i: "initDecoder (Some src) d = (None, ?d)"
    unfolding initDecoder_def option.case rd_def [symmetric] Let_def M sum.case prod.case d0_def [symmetric] seek_def [symmetric] d1 ..
  have "de_br d1 = Some br" using d1 measureSource_keeps(1) [of _ _ sm d0 None d1] by (auto simp: d0_def split: option.splits prod.splits)
  moreover have "de_seekable d1 \<and> de_audioStart d1 = base + length hdr \<and> de_streamEnd d1 = e \<and> de_nominalBlock d1 = sm_MaxBlock sm
        \<and> de_maxFrame d1 = sm_MaxFrame sm \<and> de_seekPoints d1 = sm_SeekPoints sm"
    if "so_seeker src = Some s" "sk_base s = Inr base" "sk_resume s = Inr x" "sk_end s = Inr e" for s base x e
    using d1 src(2) that br(5) by (auto simp: seek_def measurable_def measureSource_def d0_def)
  ultimately show ?thesis using br i by (intro exI [of _ ?d] exI [of _ br]) auto
qed

text \<open>The depth the options ask for, if they are valid.\<close>

definition lastConvert :: "DecoderOption list \<Rightarrow> int option" where
  "lastConvert opts = fold (\<lambda>opt t. case opt of SkipMD5Verification \<Rightarrow> t | WithConvertTo b \<Rightarrow> Some b) opts None"

definition outDepth :: "DecoderOption list \<Rightarrow> nat \<Rightarrow> nat option" where
  "outDepth opts depth =
     (case lastConvert opts of None \<Rightarrow> Some depth | Some b \<Rightarrow> if b \<in> set [8, 16, 24, 32] then Some (nat b) else None)"

lemma fold_options:
  "\<exists>t. fold applyOption opts d = d\<lparr>de_skipMD5 := (de_skipMD5 d \<or> SkipMD5Verification \<in> set opts), de_convertTo := t,
      de_convertSet := (fold (\<lambda>opt t. case opt of SkipMD5Verification \<Rightarrow> t | WithConvertTo b \<Rightarrow> Some b) opts u \<noteq> None)\<rparr>
    \<and> (\<forall>b. fold (\<lambda>opt t. case opt of SkipMD5Verification \<Rightarrow> t | WithConvertTo b \<Rightarrow> Some b) opts u = Some b \<longrightarrow> t = b)"
  if "de_convertSet d = (u \<noteq> None)" "\<forall>b. u = Some b \<longrightarrow> de_convertTo d = b"
  using that
proof (induction opts arbitrary: d u)
  case Nil
  then show ?case by (intro exI [of _ "de_convertTo d"]) simp
next
  case (Cons opt opts)
  show ?case
  proof (cases opt)
    case SkipMD5Verification
    have "de_convertSet (d\<lparr>de_skipMD5 := True\<rparr>) = (u \<noteq> None)" "\<forall>b. u = Some b \<longrightarrow> de_convertTo (d\<lparr>de_skipMD5 := True\<rparr>) = b"
      using Cons.prems by simp_all
    from Cons.IH [OF this] show ?thesis by (simp add: SkipMD5Verification applyOption_def)
  next
    case (WithConvertTo b)
    have "de_convertSet (d\<lparr>de_convertTo := b, de_convertSet := True\<rparr>) = (Some b \<noteq> None)"
      "\<forall>x. Some b = Some x \<longrightarrow> de_convertTo (d\<lparr>de_convertTo := b, de_convertSet := True\<rparr>) = x" by simp_all
    from Cons.IH [OF this] show ?thesis by (simp add: WithConvertTo applyOption_def)
  qed
qed

lemma applyOptions_out:
  assumes "de_convertSet d = False"
  shows "\<exists>t s. applyOptions opts d =
     (case outDepth opts (si_BitDepth (de_info d)) of
        None \<Rightarrow> (Some ErrUnsupported, (clearStream d)\<lparr>de_err := Some ErrUnsupported\<rparr>)
      | Some b \<Rightarrow> (None, d\<lparr>de_skipMD5 := (de_skipMD5 d \<or> SkipMD5Verification \<in> set opts), de_convertTo := t, de_convertSet := s, de_outBits := b\<rparr>))"
proof -
  from fold_options [of d None opts] assms obtain t where
    t: "fold applyOption opts d = d\<lparr>de_skipMD5 := (de_skipMD5 d \<or> SkipMD5Verification \<in> set opts), de_convertTo := t,
        de_convertSet := (lastConvert opts \<noteq> None)\<rparr>" "\<forall>b. lastConvert opts = Some b \<longrightarrow> t = b"
    unfolding lastConvert_def by auto
  show ?thesis
  proof (cases "lastConvert opts")
    case None
    then show ?thesis
      by (intro exI [of _ t] exI [of _ False]) (simp add: applyOptions_def t(1) outDepth_def Let_def)
  next
    case (Some b)
    then have "t = b" using t(2) by simp
    then show ?thesis
      using Some by (intro exI [of _ t] exI [of _ True]) (simp add: applyOptions_def t(1) outDepth_def Let_def clearStream_def)
  qed
qed

lemma open_stream:
  assumes d: "\<forall>br. de_br d = Some br \<longrightarrow> reusable br" and src: "src_bytes 0 (so_reads src) = (hdr @ concat (map fst c), EOF)" "measurable src"
    and p: "parses (ReadMetadata :: (StreamMeta, frameCRC) rm) (byte_bits hdr) sm"
    and fr: "framesFrom cs cfg 0 c B" "validateConfig cfg = None" "sameFormat (sm_Info sm) (cfgInfo cfg)"
    and opts: "outDepth opts (si_BitDepth (cfgInfo cfg)) = Some out"
  shows "\<exists>d'. resetDecoder (Some src) opts d = (None, d') \<and> standsBefore cs cfg 0 c B d' \<and> de_err d' = None \<and> de_pending d' = []
    \<and> de_outBits d' = out \<and> de_info d' = sm_Info sm \<and> de_comments d' = sm_Comments sm \<and> de_md5 d' = [] \<and> de_decoded d' = 0
    \<and> de_seeked d' = False \<and> de_skipMD5 d' = (SkipMD5Verification \<in> set opts)
    \<and> (\<forall>s base e x. so_seeker src = Some s \<longrightarrow> sk_base s = Inr base \<longrightarrow> sk_resume s = Inr x \<longrightarrow> sk_end s = Inr e \<longrightarrow>
        de_seekable d' \<and> de_audioStart d' = base + length hdr \<and> de_streamEnd d' = e \<and> de_nominalBlock d' = sm_MaxBlock sm
        \<and> de_maxFrame d' = sm_MaxFrame sm \<and> de_seekPoints d' = sm_SeekPoints sm)"
proof -
  from initDecoder_stream [OF d src p] obtain d1 br where
    i: "initDecoder (Some src) d = (None, d1)" and br: "de_br d1 = Some br" "wf_reader br" "roff br = 0" "rbytes br = concat (map fst c)" "rend br = EOF"
    and f: "de_info d1 = sm_Info sm" "de_comments d1 = sm_Comments sm"
    and sk: "\<forall>s base e x. so_seeker src = Some s \<longrightarrow> sk_base s = Inr base \<longrightarrow> sk_resume s = Inr x \<longrightarrow> sk_end s = Inr e \<longrightarrow>
        de_seekable d1 \<and> de_audioStart d1 = base + length hdr \<and> de_streamEnd d1 = e \<and> de_nominalBlock d1 = sm_MaxBlock sm
        \<and> de_maxFrame d1 = sm_MaxFrame sm \<and> de_seekPoints d1 = sm_SeekPoints sm" by blast
  note o = initDecoder_open [OF d i]
  have depth: "si_BitDepth (de_info d1) = si_BitDepth (cfgInfo cfg)" using fr(3) f(1) by (simp add: sameFormat_def)
  from applyOptions_out [OF o(8), of opts] obtain t s where
    a: "applyOptions opts d1 = (None, d1\<lparr>de_skipMD5 := (SkipMD5Verification \<in> set opts), de_convertTo := t, de_convertSet := s, de_outBits := out\<rparr>)"
    using opts o(7) by (auto simp: depth)
  have "si_BitDepth (cfgInfo cfg) = nat (cf_BitDepth cfg)" by (simp add: cfgInfo_def)
  then have "(si_BitDepth (sm_Info sm) + 7) div 8 = cfgBytesPS cfg"
    using depth f(1) fr(2) by (auto simp: cfgBytesPS_def validateConfig_None nat_add_distrib nat_div_distrib)
  moreover have "1 \<le> out"
    using opts fr(2) by (auto simp: outDepth_def cfgInfo_def validateConfig_None split: option.splits if_splits)
  ultimately show ?thesis
    using i a o br f fr sk by (simp add: resetDecoder_def standsBefore_def)
qed

lemma NewDecoder_reset: "NewDecoder r opts = (case resetDecoder r opts zeroDecoder of (Some e, _) \<Rightarrow> Inl e | (None, d) \<Rightarrow> Inr d)"
  by (auto simp: NewDecoder_def resetDecoder_def split: prod.splits option.splits)

lemma zeroDecoder_br [simp]: "de_br zeroDecoder = None"
  by (simp add: zeroDecoder_def)

lemma resetDecoder_open:
  assumes d: "\<forall>br. de_br d = Some br \<longrightarrow> reusable br" and r: "resetDecoder r opts d = (None, d')"
  shows "openDecoder d'" "de_err d' = None" "de_seeked d' = False" "de_md5 d' = []" "de_pending d' = []"
    "de_skipMD5 d' = (SkipMD5Verification \<in> set opts)" "outDepth opts (si_BitDepth (de_info d')) = Some (de_outBits d')"
    "de_decoded d' = 0" "de_bytesPS d' = (si_BitDepth (de_info d') + 7) div 8" "info_ok (de_info d')" "de_done d' = False"
proof -
  obtain d1 where i: "initDecoder r d = (None, d1)" and a: "applyOptions opts d1 = (None, d')"
    using r by (auto simp: resetDecoder_def split: prod.splits option.splits)
  note o = initDecoder_open [OF d i]
  from applyOptions_out [OF o(8), of opts] obtain t s where
    ts: "applyOptions opts d1 = (case outDepth opts (si_BitDepth (de_info d1)) of
        None \<Rightarrow> (Some ErrUnsupported, (clearStream d1)\<lparr>de_err := Some ErrUnsupported\<rparr>)
      | Some b \<Rightarrow> (None, d1\<lparr>de_skipMD5 := (de_skipMD5 d1 \<or> SkipMD5Verification \<in> set opts), de_convertTo := t, de_convertSet := s, de_outBits := b\<rparr>))"
    by blast
  obtain b where d': "d' = d1\<lparr>de_skipMD5 := (SkipMD5Verification \<in> set opts), de_convertTo := t, de_convertSet := s, de_outBits := b\<rparr>"
    "outDepth opts (si_BitDepth (de_info d1)) = Some b"
    using a o(7) unfolding ts by (cases "outDepth opts (si_BitDepth (de_info d1))") (simp, fastforce)
  show "openDecoder d'" "de_err d' = None" "de_seeked d' = False" "de_md5 d' = []" "de_pending d' = []"
    "de_skipMD5 d' = (SkipMD5Verification \<in> set opts)" "outDepth opts (si_BitDepth (de_info d')) = Some (de_outBits d')"
    "de_decoded d' = 0" "de_bytesPS d' = (si_BitDepth (de_info d') + 7) div 8" "info_ok (de_info d')" "de_done d' = False"
    using o d'(2) unfolding d'(1) by (simp_all add: openDecoder_def)
qed

section \<open>The one-shot decoder is total and checks what it returns\<close>

lemma decWriteTo_returns:
  assumes "openDecoder d" "takesAtMost w"
  shows "\<exists>r. decWriteTo cs md5 w d s = Some r"
proof -
  obtain k werr s1 where w: "w (de_pending d) s = (k, werr, s1)" by (cases "w (de_pending d) s") auto
  have "\<exists>r. drainTo cs md5 w k (d\<lparr>de_pending := drop k (de_pending d)\<rparr>) s1 = Some r" "\<exists>r. drainTo cs md5 w 0 d s = Some r"
    by (rule drainTo_returns [OF assms(2)], simp add: assms(1))+
  then show ?thesis using takesAtMostD [OF assms(2) w] by (auto simp: decWriteTo_def w Let_def split: option.split)
qed

lemma cappedWrite_takes: "takesAtMost cappedWrite"
  by (simp add: takesAtMost_def cappedWrite_def)

lemma decRead_returns: "openDecoder d \<Longrightarrow> \<exists>r. decRead cs md5 k d = Some r"
  using fillPending_returns [of d cs md5] by (auto simp: decRead_def split: option.split)

lemma DecodeInterleavedLimit_returns: "\<exists>r. DecodeInterleavedLimit cs md5 r0 m opts = Some r"
proof (cases "NewDecoder r0 opts")
  case (Inr d)
  have "\<forall>br. de_br zeroDecoder = Some br \<longrightarrow> reusable br" by simp
  moreover have "resetDecoder r0 opts zeroDecoder = (None, d)" using Inr by (auto simp: NewDecoder_reset split: prod.splits option.splits)
  ultimately have "openDecoder d" by (rule resetDecoder_open)
  from decWriteTo_returns [OF this cappedWrite_takes] show ?thesis by (auto simp: DecodeInterleavedLimit_def Inr split: option.split)
qed (simp add: DecodeInterleavedLimit_def)

text \<open>Without a conversion a frame's bytes are the ones that were hashed.\<close>

lemma decodeNextFrame_native:
  assumes "decodeNextFrame cs md5 d = Some (None, d')" "hashing d" "de_outBits d = si_BitDepth (de_info d)"
  shows "de_md5 d' = de_md5 d @ de_pending d'" "hashing d'" "de_info d' = de_info d" "de_outBits d' = de_outBits d"
  using assms by (auto simp: decodeNextFrame_def packFrame_def hashing_def Let_def split: if_splits option.splits sum.splits prod.splits)

lemma decodeNextFrame_end:
  assumes "decodeNextFrame cs md5 d = Some (Some EOF, d')" "hashing d" "\<not> de_done d"
  shows "si_MD5 (de_info d) = zeroMD5 \<or> md5 (de_md5 d) = si_MD5 (de_info d)"
  using assms by (auto simp: decodeNextFrame_def decFinish_def hashing_def Let_def split: if_splits option.splits sum.splits prod.splits)

lemma decodeNextFrame_done: "decodeNextFrame cs md5 d = Some (None, d') \<Longrightarrow> de_done d' = de_done d \<and> \<not> de_done d"
  by (auto simp: decodeNextFrame_def packFrame_def Let_def split: if_splits option.splits sum.splits prod.splits)

context taker
begin

lemma drain_checked:
  assumes "openDecoder d" "hashing d" "de_outBits d = si_BitDepth (de_info d)" "\<not> de_done d" "ready s"
    and "drainTo cs md5 w t d s = Some (n, None, d', s')"
  shows "\<exists>out. contents s' = contents s @ out \<and> n = t + length out \<and> ready s'
    \<and> (si_MD5 (de_info d) = zeroMD5 \<or> md5 (de_md5 d @ out) = si_MD5 (de_info d))"
  using assms
proof (induction "bytesLeft d" arbitrary: d s t rule: less_induct)
  case less
  obtain r d1 where nf: "decodeNextFrame cs md5 d = Some (r, d1)" using decodeNextFrame_returns [OF less.prems(1)] by blast
  show ?case
  proof (cases r)
    case None
    note nf = nf [unfolded None]
    obtain k werr s1 where w: "w (de_pending d1) s = (k, werr, s1)" by (cases "w (de_pending d1) s") auto
    let ?d = "d1\<lparr>de_pending := drop k (de_pending d1)\<rparr>"
    have run: "(if werr \<noteq> None then Some (t + k, werr, ?d, s1) else drainTo cs md5 w (t + k) ?d s1) = Some (n, None, d', s')"
      using less.prems(6) by (subst (asm) drainTo.simps) (simp add: nf w Let_def split: if_splits)
    then have e: "werr = None" by (auto split: if_splits)
    note t1 = took_all [OF less.prems(5) w [unfolded e]]
    note o = decodeNextFrame_open [OF less.prems(1) nf] and h = decodeNextFrame_native [OF nf less.prems(2,3)]
    have "hashing ?d" "de_outBits ?d = si_BitDepth (de_info ?d)" "\<not> de_done ?d" "bytesLeft ?d < bytesLeft d" "openDecoder ?d"
      using o h decodeNextFrame_done [OF nf] less.prems(3) by (simp_all add: hashing_def)
    with less.hyps [of ?d s1 "t + k"] run e t1 obtain out where
      "contents s' = contents s1 @ out" "n = t + k + length out" "ready s'"
      "si_MD5 (de_info d1) = zeroMD5 \<or> md5 (de_md5 d1 @ out) = si_MD5 (de_info d1)" by auto
    then show ?thesis using t1 h by (intro exI [of _ "de_pending d1 @ out"]) simp
  next
    case (Some err)
    have r: "err = EOF" "s' = s" "n = t" using less.prems(6) by (subst (asm) drainTo.simps, auto simp: nf Some split: if_splits)+
    then show ?thesis
      using decodeNextFrame_end [of cs md5 d d1] nf Some less.prems(2,4,5) by (intro exI [of _ "[]"]) auto
  qed
qed

end

lemma DecodeInterleavedLimit_checked:
  assumes "DecodeInterleavedLimit cs md5 r m opts = Some (Inr out, info)"
    and "SkipMD5Verification \<notin> set opts" "outDepth opts (si_BitDepth info) = Some (si_BitDepth info)" "si_MD5 info \<noteq> zeroMD5"
  shows "md5 out = si_MD5 info"
proof -
  let ?c = "\<lparr>cw_buf = [], cw_n = 0, cw_max = m\<rparr>"
  obtain d where N: "NewDecoder r opts = Inr d" and info: "de_info d = info" and "\<exists>n d' c. decWriteTo cs md5 cappedWrite d ?c = Some (n, None, d', c) \<and> cw_buf c = out"
    using assms(1) by (auto simp: DecodeInterleavedLimit_def split: sum.splits option.splits)
  then obtain n d' c where W: "decWriteTo cs md5 cappedWrite d ?c = Some (n, None, d', c)" "cw_buf c = out" by blast
  have z: "\<forall>br. de_br zeroDecoder = Some br \<longrightarrow> reusable br" by simp
  have "resetDecoder r opts zeroDecoder = (None, d)" using N by (auto simp: NewDecoder_reset split: prod.splits option.splits)
  note o = resetDecoder_open [OF z this]
  have D: "drainTo cs md5 cappedWrite 0 d ?c = Some (n, None, d', c)" using W(1) o(2,5) by (simp add: decWriteTo_def)
  have h: "hashing d" "de_outBits d = si_BitDepth (de_info d)" using o(3,6,7) assms(2,3) info by (simp_all add: hashing_def)
  have "\<not> de_done d" "cw_max ?c = m \<and> cw_n ?c = int (length (cw_buf ?c))" using o(11) by simp_all
  from capped.drain_checked [OF o(1) h this D] obtain b where
    "cw_buf c = b" "si_MD5 (de_info d) = zeroMD5 \<or> md5 (de_md5 d @ b) = si_MD5 (de_info d)" by auto
  then show ?thesis using W(2) o(4) info assms(4) by simp
qed

text \<open>What the one-shot decoder makes of a stream of frames.\<close>

lemma DecodeInterleavedLimit_stream:
  assumes src: "src_bytes 0 (so_reads src) = (hdr @ concat (map fst c), EOF)" "measurable src"
    and p: "parses (ReadMetadata :: (StreamMeta, frameCRC) rm) (byte_bits hdr) sm"
    and fr: "framesFrom cs cfg 0 c B" "validateConfig cfg = None" "sameFormat (sm_Info sm) (cfgInfo cfg)"
    and opts: "outDepth opts (si_BitDepth (cfgInfo cfg)) = Some out"
  defines "pcm \<equiv> convertPcm (cfgBytesPS cfg) (si_BitDepth (cfgInfo cfg)) out B"
  assumes m: "m \<le> 0 \<or> int (length pcm) \<le> m"
  shows "\<exists>d. NewDecoder (Some src) opts = Inr d \<and> decTags d = map cutTag (sm_Comments sm)
    \<and> DecodeInterleavedLimit cs md5 (Some src) m opts =
        Some (if verdictOf md5 d B (length B div sampleBytes cfg) = EOF then Inr pcm else Inl (verdictOf md5 d B (length B div sampleBytes cfg)), sm_Info sm)
    \<and> de_info d = sm_Info sm \<and> de_md5 d = [] \<and> de_decoded d = 0 \<and> de_seeked d = False \<and> de_skipMD5 d = (SkipMD5Verification \<in> set opts)
    \<and> standsBefore cs cfg 0 c B d \<and> de_outBits d = out \<and> de_err d = None \<and> de_pending d = []"
proof -
  let ?c = "\<lparr>cw_buf = [], cw_n = 0, cw_max = m\<rparr>" and ?n = "length B div sampleBytes cfg"
  have "\<forall>br. de_br zeroDecoder = Some br \<longrightarrow> reusable br" by simp
  from open_stream [OF this src p fr opts] obtain d where
    r: "resetDecoder (Some src) opts zeroDecoder = (None, d)" and d: "standsBefore cs cfg 0 c B d" "de_err d = None" "de_pending d = []"
      "de_outBits d = out" "de_info d = sm_Info sm" "de_comments d = sm_Comments sm" "de_md5 d = []" "de_decoded d = 0"
      "de_seeked d = False" "de_skipMD5 d = (SkipMD5Verification \<in> set opts)" by blast
  have N: "NewDecoder (Some src) opts = Inr d" by (simp add: NewDecoder_reset r)
  have out: "outPcm cfg d B = pcm" by (simp add: outPcm_def pcm_def d(4))
  have "cw_max ?c = m \<and> cw_n ?c = int (length (cw_buf ?c))" "m \<le> 0 \<or> int (length (cw_buf ?c @ outPcm cfg d B)) \<le> m"
    using m by (simp_all add: out)
  from capped.drain [OF d(1) this d(3), of md5 0] obtain br s' where
    "drainTo cs md5 cappedWrite 0 d ?c = (case decFinish md5 (behind d B ?n br []) of
       (e, d') \<Rightarrow> Some (0 + length (outPcm cfg d B), if e = EOF then None else Some e, d', s'))" "cw_buf s' = outPcm cfg d B" by auto
  then have "DecodeInterleavedLimit cs md5 (Some src) m opts =
      Some (if verdictOf md5 d B ?n = EOF then Inr pcm else Inl (verdictOf md5 d B ?n), sm_Info sm)"
    unfolding decFinish_behind by (simp add: DecodeInterleavedLimit_def N decWriteTo_def d(2,3,5) out)
  then show ?thesis using N d by (simp add: decTags_def)
qed

end
