(* ===== verification/Pcm_Seek.thy ===== *)
theory Pcm_Seek
  imports Pcm_Decoder
begin

text \<open>
  Seeking (\<open>SeekToSample\<close> and what it calls in \<open>pcm/decoder.go\<close>). The source answers through
  \<open>sk_at\<close>, fixed for the length of one call: a later call may find another source, which is how a
  failed seek is retried. Sample and byte positions, \<open>int64\<close> in the code, stay below \<open>2 ^ 63\<close>:
  frame numbers are below \<open>2 ^ 36\<close> and block sizes at most 65536.
\<close>

section \<open>Reading a window\<close>

text \<open>\<open>io.ReadFull\<close>.\<close>

fun readFull :: "nat \<Rightarrow> chunk list \<Rightarrow> u8 list \<times> err option" where
  "readFull n [] = ([], if n = 0 then None else Some EOF)"
| "readFull n (Chunk bs e # cs) =
     (if n = 0 then ([], None)
      else if n \<le> length bs then (take n bs, None)
      else case e of
        Some x \<Rightarrow> (bs, Some (if bs \<noteq> [] \<and> x = EOF then ErrUnexpectedEOF else x))
      | None \<Rightarrow> (case readFull (n - length bs) cs of
                   (rest, x) \<Rightarrow> (bs @ rest, if bs \<noteq> [] \<and> x = Some EOF then Some ErrUnexpectedEOF else x)))"

lemma readFull_length: "length (fst (readFull n cs)) \<le> n"
  by (induction n cs rule: readFull.induct) (auto split: option.split prod.split)

lemma readFull_full: "readFull n cs = (bs, None) \<Longrightarrow> length bs = n"
  by (induction n cs arbitrary: bs rule: readFull.induct) (auto split: option.splits prod.splits if_splits)

definition probeChunkDefault :: nat where "probeChunkDefault = push_bit 18 1"
definition maxProbeWindow :: nat where "maxProbeWindow = push_bit 24 1"

section \<open>Probing\<close>

text \<open>
  One round of \<open>probe\<close>'s loop either ends it, or goes on with a larger window or a later base; the
  frame is the one \<open>probeFrame\<close> holds. The window is at least \<open>probeChunkDefault\<close> from the first
  round on; the guard on it states the part of that the loop needs to make progress.
\<close>

datatype probeResult = ProbeFound nat nat Frame | ProbeCut | ProbeNone | ProbeErr err

datatype probeStep = Answer probeResult | Again nat nat

definition probeOnce ::
  "(u8 list \<Rightarrow> u16) \<Rightarrow> (nat \<Rightarrow> err + chunk list) \<Rightarrow> nat \<Rightarrow> StreamInfo \<Rightarrow> nat \<Rightarrow> nat \<Rightarrow> frameCRC reader \<Rightarrow> probeStep \<times> frameCRC reader" where
  "probeOnce cs seek streamEnd info b win rd =
     (let n = min (streamEnd - b) win
      in case seek b of
           Inl err \<Rightarrow> (Answer (ProbeErr err), rd)
         | Inr src \<Rightarrow>
             (case readFull n src of
                (buf, rerr) \<Rightarrow>
                  if rerr \<noteq> None \<and> rerr \<noteq> Some ErrUnexpectedEOF \<and> rerr \<noteq> Some EOF then (Answer (ProbeErr (the rerr)), rd)
                  else
                    let rn = length buf; atEnd = (b + rn \<ge> streamEnd \<or> rn < n)
                    in case FindNextFrame cs rd buf info of
                         ((s, consumed, FrameFound, fr), rd) \<Rightarrow> (Answer (ProbeFound (b + s) (b + s + consumed) (the fr)), rd)
                       | ((s, consumed, FrameTruncated, fr), rd) \<Rightarrow>
                           (if atEnd then Answer ProbeCut
                            else if win \<ge> maxProbeWindow then Answer ProbeNone
                            else Again b (min (win * 2) maxProbeWindow), rd)
                       | ((s, consumed, FrameNotFound, fr), rd) \<Rightarrow>
                           (if atEnd then Answer ProbeNone else Again (b + rn - 1) win, rd)))"

lemma probeOnce_Again:
  assumes "probeOnce cs seek streamEnd info b win rd = (Again b' win', rd')" "b < streamEnd" "2 \<le> win"
  shows "b \<le> b'" "2 \<le> win'" "b < b' \<and> win' = win \<or> b' = b \<and> win < win' \<and> win' \<le> maxProbeWindow"
proof -
  obtain src buf rerr where r: "seek b = Inr src" "readFull (min (streamEnd - b) win) src = (buf, rerr)"
    using assms(1) by (cases "seek b"; cases "readFull (min (streamEnd - b) win) (projr (seek b))") (auto simp: probeOnce_def Let_def)
  have l: "length buf \<le> min (streamEnd - b) win" using readFull_length [of "min (streamEnd - b) win" src] r(2) by simp
  obtain s c res fr rd1 where F: "FindNextFrame cs rd buf info = ((s, c, res, fr), rd1)" by (metis surj_pair)
  have "b < b' \<and> win' = win \<or> b' = b \<and> win < win' \<and> win' \<le> maxProbeWindow"
    using assms l by (cases res) (auto simp: probeOnce_def Let_def r F split: if_splits)
  then show "b < b' \<and> win' = win \<or> b' = b \<and> win < win' \<and> win' \<le> maxProbeWindow" .
  then show "b \<le> b'" "2 \<le> win'" using assms(3) by auto
qed

function probeFrom ::
  "(u8 list \<Rightarrow> u16) \<Rightarrow> (nat \<Rightarrow> err + chunk list) \<Rightarrow> nat \<Rightarrow> StreamInfo \<Rightarrow> nat \<Rightarrow> nat \<Rightarrow> frameCRC reader \<Rightarrow> probeResult \<times> frameCRC reader" where
  "probeFrom cs seek streamEnd info b win rd =
     (if b < streamEnd \<and> 2 \<le> win then
        (case probeOnce cs seek streamEnd info b win rd of
           (Answer res, rd) \<Rightarrow> (res, rd)
         | (Again b win, rd) \<Rightarrow> probeFrom cs seek streamEnd info b win rd)
      else (ProbeNone, rd))"
  by pat_completeness auto
termination
proof (relation "measures [\<lambda>(cs, seek, streamEnd, info, b, win, rd). streamEnd - b,
    \<lambda>(cs, seek, streamEnd, info, b, win, rd). maxProbeWindow - win]", goal_cases)
  case (2 cs seek streamEnd info b win rd st rd' b' win')
  then show ?case using probeOnce_Again [of cs seek streamEnd info b win rd b' win' rd'] by auto
qed simp

declare probeFrom.simps [simp del]

text \<open>\<open>probe\<close>: only \<open>resyncR\<close> changes in the decoder.\<close>

definition probe :: "(u8 list \<Rightarrow> u16) \<Rightarrow> (nat \<Rightarrow> err + chunk list) \<Rightarrow> nat \<Rightarrow> Decoder \<Rightarrow> probeResult \<times> Decoder" where
  "probe cs seek b d =
     (let win = min (max (2 * de_maxFrame d) probeChunkDefault) maxProbeWindow
      in case probeFrom cs seek (de_streamEnd d) (de_info d) b win (de_resyncR d) of
           (res, rd) \<Rightarrow> (res, d\<lparr>de_resyncR := rd\<rparr>))"

section \<open>The search\<close>

definition firstSample :: "Decoder \<Rightarrow> Frame \<Rightarrow> nat" where
  "firstSample d fr = (if fr_VariableBlockSize fr then unat (fr_Number fr) else unat (fr_Number fr) * de_nominalBlock d)"

definition linearWindow :: nat where "linearWindow = push_bit 16 1"

definition errSeekFrameCut :: err where "errSeekFrameCut = ErrTruncatedStream (Some ErrUnexpectedEOF)"

text \<open>
  The result of \<open>searchFrame\<close>: the frame's offset and first sample, the end sample of a source
  that ends before the target (\<open>landStart < 0\<close> in the code), or an error.
\<close>

datatype landing = Landing nat nat | PastEnd nat | SearchErr err

text \<open>The binary search ends with a landing, or with the offset to scan from.\<close>

partial_function (option) narrowFrames ::
  "(u8 list \<Rightarrow> u16) \<Rightarrow> (nat \<Rightarrow> err + chunk list) \<Rightarrow> nat \<Rightarrow> nat \<Rightarrow> nat \<Rightarrow> Decoder \<Rightarrow> ((landing + nat) \<times> Decoder) option" where
  "narrowFrames cs seek target lo hi d =
     (if hi - lo > linearWindow then
        let mid = lo + (hi - lo) div 2
        in case probe cs seek mid d of
             (ProbeErr e, d) \<Rightarrow> Some (Inl (SearchErr e), d)
           | (ProbeCut, d) \<Rightarrow> narrowFrames cs seek target lo mid d
           | (ProbeNone, d) \<Rightarrow> narrowFrames cs seek target lo mid d
           | (ProbeFound start stop fr, d) \<Rightarrow>
               let f = firstSample d fr
               in if f > target then narrowFrames cs seek target lo (if start \<ge> hi then mid else start) d
                  else if target \<ge> f + fr_BlockSize fr then narrowFrames cs seek target stop hi d
                  else Some (Inl (Landing start f), d)
      else Some (Inr lo, d))"

partial_function (option) scanFrames ::
  "(u8 list \<Rightarrow> u16) \<Rightarrow> (nat \<Rightarrow> err + chunk list) \<Rightarrow> nat \<Rightarrow> nat \<Rightarrow> nat \<Rightarrow> Decoder \<Rightarrow> (landing \<times> Decoder) option" where
  "scanFrames cs seek target b endSample d =
     (case probe cs seek b d of
        (ProbeErr e, d) \<Rightarrow> Some (SearchErr e, d)
      | (ProbeCut, d) \<Rightarrow> Some (SearchErr errSeekFrameCut, d)
      | (ProbeNone, d) \<Rightarrow> Some (PastEnd endSample, d)
      | (ProbeFound start stop fr, d) \<Rightarrow>
          let f = firstSample d fr; endSample = f + fr_BlockSize fr
          in if f \<le> target \<and> target < endSample then Some (Landing start f, d)
             else if f > target then Some (Landing start f, d)
             else scanFrames cs seek target stop endSample d)"

definition searchFrame ::
  "(u8 list \<Rightarrow> u16) \<Rightarrow> (nat \<Rightarrow> err + chunk list) \<Rightarrow> nat \<Rightarrow> nat \<Rightarrow> nat \<Rightarrow> Decoder \<Rightarrow> (landing \<times> Decoder) option" where
  "searchFrame cs seek target lo hi d =
     (case narrowFrames cs seek target lo hi d of
        None \<Rightarrow> None
      | Some (Inl r, d) \<Rightarrow> Some (r, d)
      | Some (Inr b, d) \<Rightarrow> scanFrames cs seek target b 0 d)"

definition ensureNominalBlock :: "(u8 list \<Rightarrow> u16) \<Rightarrow> (nat \<Rightarrow> err + chunk list) \<Rightarrow> Decoder \<Rightarrow> err option \<times> Decoder" where
  "ensureNominalBlock cs seek d =
     (case probe cs seek (de_audioStart d) d of
        (ProbeErr e, d) \<Rightarrow> (Some e, d)
      | (ProbeFound _ _ fr, d) \<Rightarrow> (None, if \<not> fr_VariableBlockSize fr then d\<lparr>de_nominalBlock := fr_BlockSize fr\<rparr> else d)
      | (_, d) \<Rightarrow> (None, d))"

section \<open>Landing\<close>

text \<open>Dropping more bytes than the frame has packed is a panic of the slice, and no result.\<close>

definition landAt ::
  "(u8 list \<Rightarrow> u16) \<Rightarrow> (nat \<Rightarrow> err + chunk list) \<Rightarrow> nat \<Rightarrow> nat \<Rightarrow> nat \<Rightarrow> Decoder \<Rightarrow> ((err + nat) \<times> Decoder) option" where
  "landAt cs seek landStart target fs d =
     (case seek landStart of
        Inl err \<Rightarrow> Some (Inl err, d)
      | Inr src \<Rightarrow>
          let br = (case de_br d of None \<Rightarrow> NewReaderSize src streamReadBlock fcReset | Some br \<Rightarrow> br);
              d = d\<lparr>de_br := Some (ResetAt src landStart br), de_seeked := True, de_done := False, de_err := None\<rparr>
          in case Decode cs (de_info d) (ResetAt src landStart br) of
               (Inl err, br) \<Rightarrow> Some (Inl err, d\<lparr>de_br := Some br\<rparr>)
             | (Inr fr, br) \<Rightarrow>
                 (case packFrame False fr (d\<lparr>de_br := Some br\<rparr>) of
                    (buf, d) \<Rightarrow>
                      let target = max target fs;
                          skip = (target - fs) * length (fr_Channels fr) * ((de_outBits d + 7) div 8)
                      in if skip > length buf then None else Some (Inr target, d\<lparr>de_pending := drop skip buf\<rparr>)))"

definition seekToEnd :: "int \<Rightarrow> Decoder \<Rightarrow> (err + int) \<times> Decoder" where
  "seekToEnd n d = (Inr n, d\<lparr>de_seeked := True, de_done := True, de_pending := [], de_err := None\<rparr>)"

definition seekFailed :: "err \<Rightarrow> Decoder \<Rightarrow> (err + int) \<times> Decoder" where
  "seekFailed err d = (Inl err, d\<lparr>de_err := Some err, de_pending := [], de_br := None\<rparr>)"

definition narrowPoint :: "nat \<Rightarrow> nat \<Rightarrow> int \<Rightarrow> SeekPoint \<Rightarrow> nat \<times> nat \<Rightarrow> nat \<times> nat" where
  "narrowPoint audioStart streamEnd target p bounds =
     (if sint (sk_ByteOffset p) < 0 \<or> sint (sk_ByteOffset p) > int streamEnd - int audioStart then bounds
      else
        let off = audioStart + nat (sint (sk_ByteOffset p))
        in (if sint (sk_SampleNumber p) \<le> target \<and> off > fst bounds then off else fst bounds,
            if sint (sk_SampleNumber p) > target \<and> off < snd bounds then off else snd bounds))"

definition narrowBySeekTable :: "int \<Rightarrow> nat \<Rightarrow> nat \<Rightarrow> Decoder \<Rightarrow> nat \<times> nat" where
  "narrowBySeekTable target lo hi d = fold (narrowPoint (de_audioStart d) (de_streamEnd d) target) (de_seekPoints d) (lo, hi)"

definition seekBounds :: "int \<Rightarrow> Decoder \<Rightarrow> nat \<times> nat" where
  "seekBounds sampleIndex d =
     (if length (de_seekPoints d) > 0 then narrowBySeekTable sampleIndex (de_audioStart d) (de_streamEnd d) d
      else (de_audioStart d, de_streamEnd d))"

definition seekFrom ::
  "(u8 list \<Rightarrow> u16) \<Rightarrow> (nat \<Rightarrow> err + chunk list) \<Rightarrow> int \<Rightarrow> int \<Rightarrow> Decoder \<Rightarrow> ((err + int) \<times> Decoder) option" where
  "seekFrom cs seek count sampleIndex d =
     (case seekBounds sampleIndex d of
        (lo, hi) \<Rightarrow>
          (case searchFrame cs seek (nat sampleIndex) lo hi d of
             None \<Rightarrow> None
           | Some (SearchErr err, d) \<Rightarrow> Some (seekFailed err d)
           | Some (PastEnd endSample, d) \<Rightarrow> Some (seekToEnd (int endSample) d)
           | Some (Landing landStart fs, d) \<Rightarrow>
               (case landAt cs seek landStart (nat sampleIndex) fs d of
                  None \<Rightarrow> None
                | Some (Inl err, d) \<Rightarrow> Some (seekFailed err d)
                | Some (Inr landed, d) \<Rightarrow> Some (Inr (if count > 0 \<and> int landed > count then count else int landed), d))))"

definition SeekToSample ::
  "(u8 list \<Rightarrow> u16) \<Rightarrow> (nat \<Rightarrow> err + chunk list) \<Rightarrow> int \<Rightarrow> Decoder \<Rightarrow> ((err + int) \<times> Decoder) option" where
  "SeekToSample cs seek sampleIndex d =
     (let count = sint (si_TotalSamples (de_info d))
      in if \<not> de_seekable d then Some (Inl ErrSeekUnsupported, d)
         else if sampleIndex < 0 then Some (Inl ErrInvalidSeek, d)
         else if count > 0 \<and> sampleIndex \<ge> count then Some (seekToEnd count d)
         else
           case (if de_nominalBlock d \<le> 0 then ensureNominalBlock cs seek d else (None, d)) of
             (Some err, d) \<Rightarrow> Some (seekFailed err d)
           | (None, d) \<Rightarrow> seekFrom cs seek count sampleIndex d)"

section \<open>A search that overruns the stream\<close>

text \<open>
  A binary search whose probe meets the last frame of the stream, with the target behind it, has
  nothing left to scan: the end of the stream is reported as sample 0.
\<close>

lemma search_overrun:
  assumes "linearWindow < de_streamEnd d - lo" "probe cs seek (lo + (de_streamEnd d - lo) div 2) d = (ProbeFound start (de_streamEnd d) fr, d')"
    and "firstSample d' fr + fr_BlockSize fr \<le> target"
  shows "searchFrame cs seek target lo (de_streamEnd d) d = Some (PastEnd 0, d')"
proof -
  have e: "de_streamEnd d' = de_streamEnd d" using assms(2) by (auto simp: probe_def Let_def split: prod.splits)
  have r: "narrowFrames cs seek target (de_streamEnd d) (de_streamEnd d) d' = Some (Inr (de_streamEnd d), d')" by (subst narrowFrames.simps) simp
  have "\<not> firstSample d' fr > target" using assms(3) by simp
  then have "narrowFrames cs seek target lo (de_streamEnd d) d = Some (Inr (de_streamEnd d), d')"
    using assms r by (subst narrowFrames.simps) (simp add: Let_def)
  moreover have "probe cs seek (de_streamEnd d) d' = (ProbeNone, d')" using e by (simp add: probe_def Let_def probeFrom.simps)
  then have "scanFrames cs seek target (de_streamEnd d) 0 d' = Some (PastEnd 0, d')" by (subst scanFrames.simps) simp
  ultimately show ?thesis by (simp add: searchFrame_def)
qed

section \<open>Every search ends\<close>

lemma findFrom_reusable:
  assumes "findFrom cs si i data rd = (r, rd')" "reusable rd" "valid_info si"
  shows "reusable rd'"
  using assms
proof (induction cs si i data rd arbitrary: r rd' rule: findFrom.induct)
  case (1 cs si i a b data rd)
  obtain x rd1 where D: "Decode cs si (Reset (bytesReader (a # b # data)) rd) = (x, rd1)" by fastforce
  have "wf_reader (Reset (bytesReader (a # b # data)) rd)" by (rule Reset_bytes [OF "1.prems"(2)]) simp
  from Decode_wf [OF this "1.prems"(3), of cs] have w: "reusable rd1" by (simp add: D reusable_wf)
  show ?case
  proof (cases "syncAt a b")
    case False
    with 1 show ?thesis by simp
  next
    case True
    show ?thesis
    proof (cases x)
      case (Inr f)
      then show ?thesis using "1.prems"(1) True D w by simp
    next
      case (Inl e)
      show ?thesis
        using "1.prems"(1) True w "1.IH"(2) [OF _ D [symmetric, unfolded Inl] refl _ _ w "1.prems"(3)]
        by (auto simp: D Inl split: if_splits)
    qed
  qed
qed simp_all

definition probeReady :: "Decoder \<Rightarrow> bool" where
  "probeReady d \<longleftrightarrow> reusable (de_resyncR d) \<and> valid_info (de_info d)"

lemma probeOnce_reusable:
  assumes "probeOnce cs seek streamEnd info b win rd = (st, rd')" "reusable rd" "valid_info info"
  shows "reusable rd'"
proof -
  obtain buf rerr where r: "readFull (min (streamEnd - b) win) (projr (seek b)) = (buf, rerr)" by fastforce
  obtain s c res fr rd1 where F: "FindNextFrame cs rd buf info = ((s, c, res, fr), rd1)" by (metis surj_pair)
  have "reusable rd1" using findFrom_reusable F assms(2,3) by (auto simp: FindNextFrame_def)
  then show ?thesis using assms r F by (cases "seek b"; cases res) (auto simp: probeOnce_def Let_def split: if_splits)
qed

lemma probeOnce_found:
  assumes "probeOnce cs seek streamEnd info b win rd = (Answer (ProbeFound start stop fr), rd')" "reusable rd" "valid_info info"
  shows "b \<le> start" "start < stop" "frame_ok fr"
proof -
  obtain src buf rerr where r: "seek b = Inr src" "readFull (min (streamEnd - b) win) src = (buf, rerr)"
    using assms(1) by (cases "seek b"; cases "readFull (min (streamEnd - b) win) (projr (seek b))") (auto simp: probeOnce_def Let_def)
  obtain s c res fo rd1 where F: "FindNextFrame cs rd buf info = ((s, c, res, fo), rd1)" by (metis surj_pair)
  have e: "res = FrameFound" "start = b + s" "stop = b + s + c" "fr = the fo"
    using assms(1) by (cases res; auto simp: probeOnce_def Let_def r F split: if_splits)+
  have "\<exists>f. fo = Some f \<and> frame_ok f \<and> 0 < c" using findFrom_found [OF F [unfolded FindNextFrame_def e(1)] assms(2,3)] by auto
  then show "b \<le> start" "start < stop" "frame_ok fr" using e by auto
qed

lemma probeFrom_ok:
  assumes "probeFrom cs seek streamEnd info b win rd = (res, rd')" "reusable rd" "valid_info info"
  shows "reusable rd' \<and> (\<forall>start stop fr. res = ProbeFound start stop fr \<longrightarrow> b \<le> start \<and> b < streamEnd \<and> start < stop \<and> frame_ok fr)"
  using assms
proof (induction cs seek streamEnd info b win rd rule: probeFrom.induct)
  case (1 cs seek streamEnd info b win rd)
  show ?case
  proof (cases "b < streamEnd \<and> 2 \<le> win")
    case False
    then have "res = ProbeNone" "rd' = rd" using "1.prems"(1) by (subst (asm) probeFrom.simps, simp only: if_False prod.inject)+
    then show ?thesis using "1.prems"(2) by simp
  next
    case True
    obtain st rd1 where o: "probeOnce cs seek streamEnd info b win rd = (st, rd1)" by fastforce
    note w = probeOnce_reusable [OF o "1.prems"(2,3)]
    show ?thesis
    proof (cases st)
      case (Answer r)
      then have r: "res = r" "rd' = rd1" using "1.prems"(1) True o by (subst (asm) probeFrom.simps, simp)+
      then show ?thesis using probeOnce_found [of cs seek streamEnd info b win rd] o Answer "1.prems"(2,3) True w by auto
    next
      case (Again b1 win1)
      then have "probeFrom cs seek streamEnd info b1 win1 rd1 = (res, rd')" using "1.prems"(1) True o by (subst (asm) probeFrom.simps) simp
      with "1.IH" [OF True o [symmetric] Again _ w "1.prems"(3)] probeOnce_Again(1) [OF o [unfolded Again]] True
      show ?thesis by fastforce
    qed
  qed
qed

lemma probe_ok:
  assumes "probe cs seek b d = (res, d')" "probeReady d"
  shows "probeReady d'" "\<exists>rd. d' = d\<lparr>de_resyncR := rd\<rparr>"
    "res = ProbeFound start stop fr \<Longrightarrow> b \<le> start \<and> b < de_streamEnd d \<and> start < stop \<and> frame_ok fr"
proof -
  let ?win = "min (max (2 * de_maxFrame d) probeChunkDefault) maxProbeWindow"
  obtain r rd where P: "probeFrom cs seek (de_streamEnd d) (de_info d) b ?win (de_resyncR d) = (r, rd)" by fastforce
  have e: "res = r" "d' = d\<lparr>de_resyncR := rd\<rparr>" using assms(1) by (simp_all add: probe_def P Let_def)
  note p = probeFrom_ok [OF P] assms(2)
  show "\<exists>rd. d' = d\<lparr>de_resyncR := rd\<rparr>" using e by blast
  show "probeReady d'" "res = ProbeFound start stop fr \<Longrightarrow> b \<le> start \<and> b < de_streamEnd d \<and> start < stop \<and> frame_ok fr"
    using p e by (auto simp: probeReady_def)
qed

lemma narrowFrames_returns: "probeReady d \<Longrightarrow> \<exists>r d'. narrowFrames cs seek target lo hi d = Some (r, d') \<and> probeReady d' \<and> (\<exists>rd. d' = d\<lparr>de_resyncR := rd\<rparr>)"
proof (induction "hi - lo" arbitrary: lo hi d rule: less_induct)
  case less
  have self: "\<exists>rd. d = d\<lparr>de_resyncR := rd\<rparr>" by (rule exI [of _ "de_resyncR d"]) simp
  show ?case
  proof (cases "hi - lo > linearWindow")
    case False
    then show ?thesis using less.prems self by (subst narrowFrames.simps) simp
  next
    case True
    then have big: "1 < hi - lo" by (simp add: linearWindow_def)
    define mid where "mid = lo + (hi - lo) div 2"
    have mid: "lo < mid" "mid < hi" using big by (simp_all add: mid_def) 
    obtain res d1 where P: "probe cs seek mid d = (res, d1)" by fastforce
    note p = probe_ok [OF P less.prems]
    have step: "\<exists>r d'. narrowFrames cs seek target lo' hi' d1 = Some (r, d') \<and> probeReady d' \<and> (\<exists>rd. d' = d\<lparr>de_resyncR := rd\<rparr>)"
      if "hi' - lo' < hi - lo" for lo' hi'
      using less.hyps [OF that p(1)] p(2) by fastforce
    have unfolded: "narrowFrames cs seek target lo hi d = (case res of
         ProbeErr e \<Rightarrow> Some (Inl (SearchErr e), d1)
       | ProbeCut \<Rightarrow> narrowFrames cs seek target lo mid d1
       | ProbeNone \<Rightarrow> narrowFrames cs seek target lo mid d1
       | ProbeFound start stop fr \<Rightarrow>
           let f = firstSample d1 fr
           in if f > target then narrowFrames cs seek target lo (if start \<ge> hi then mid else start) d1
              else if target \<ge> f + fr_BlockSize fr then narrowFrames cs seek target stop hi d1
              else Some (Inl (Landing start f), d1))"
      by (subst narrowFrames.simps) (simp add: True P Let_def flip: mid_def split: probeResult.split)
    have less: "mid - lo < hi - lo" using mid by simp
    show ?thesis
    proof (cases res)
      case (ProbeFound start stop fr)
      have b: "lo < start" "lo < stop" using p(3) [OF ProbeFound] mid by simp_all
      then have "hi - stop < hi - lo" "(if start \<ge> hi then mid else start) - lo < hi - lo" using mid by auto
      from step [OF this(1)] step [OF this(2)] p(1,2) show ?thesis by (simp add: unfolded ProbeFound Let_def)
    qed (use step [OF less] p(1,2) in \<open>simp_all add: unfolded\<close>)
  qed
qed

lemma scanFrames_returns:
  "probeReady d \<Longrightarrow> \<exists>r d'. scanFrames cs seek target b last_end d = Some (r, d') \<and> probeReady d' \<and> (\<exists>rd. d' = d\<lparr>de_resyncR := rd\<rparr>)"
proof (induction "de_streamEnd d - b" arbitrary: b last_end d rule: less_induct)
  case less
  obtain res d1 where P: "probe cs seek b d = (res, d1)" by fastforce
  note p = probe_ok [OF P less.prems]
  show ?case
  proof (cases res)
    case (ProbeFound start stop fr)
    then have b: "b < stop" "b < de_streamEnd d" "de_streamEnd d1 = de_streamEnd d" using p(2,3) by auto
    then have "de_streamEnd d1 - stop < de_streamEnd d - b" by simp
    from less.hyps [OF this p(1), of "firstSample d1 fr + fr_BlockSize fr"] p(1,2) show ?thesis
      by (subst scanFrames.simps) (auto simp: P ProbeFound Let_def)
  qed (use p(1,2) in \<open>subst scanFrames.simps, simp add: P\<close>)+
qed

lemma searchFrame_returns:
  "probeReady d \<Longrightarrow> \<exists>r d'. searchFrame cs seek target lo hi d = Some (r, d') \<and> probeReady d' \<and> (\<exists>rd. d' = d\<lparr>de_resyncR := rd\<rparr>)"
  using narrowFrames_returns [of d cs seek target lo hi] scanFrames_returns [of _ cs seek target _ 0]
  by (fastforce simp: searchFrame_def split: sum.split)

lemma ensureNominalBlock_ready:
  assumes "ensureNominalBlock cs seek d = (e, d')" "probeReady d"
  shows "probeReady d'"
proof -
  obtain res d1 where P: "probe cs seek (de_audioStart d) d = (res, d1)" by fastforce
  have "d' = d1 \<or> (\<exists>k. d' = d1\<lparr>de_nominalBlock := k\<rparr>)"
    using assms(1) by (cases res) (auto simp: ensureNominalBlock_def P split: if_splits)
  then show ?thesis using probe_ok(1) [OF P assms(2)] by (auto simp: probeReady_def)
qed

end
