(* ===== verification/Pcm_Session.thy ===== *)
theory Pcm_Session
  imports Frame_Prefix Pcm_Seek
begin

text \<open>
  A decoder over its whole life (\<open>pcm/decoder.go\<close>): the invariant that reading, draining, seeking and
  rebinding keep in any order, and what a seek does to a file, whatever the file holds. A file is its
  bytes, and a seekable source of it delivers them from the offset it is sought to. A seek that lands
  decodes, at the offset it chose, the very frame its probe found.
\<close>

section \<open>A file that can be sought\<close>

definition servesFile :: "(nat \<Rightarrow> err + chunk list) \<Rightarrow> u8 list \<Rightarrow> bool" where
  "servesFile seek file \<longleftrightarrow> (\<forall>b \<le> length file. \<exists>src. seek b = Inr src \<and> src_bytes 0 src = (drop b file, EOF))"

lemma servesFileD: "servesFile seek file \<Longrightarrow> b \<le> length file \<Longrightarrow> \<exists>src. seek b = Inr src \<and> src_bytes 0 src = (drop b file, EOF)"
  by (simp add: servesFile_def)

lemma readFull_bytes:
  "src_bytes k src = (data, EOF) \<Longrightarrow> fst (readFull n src) = take n data \<and> (\<forall>e. snd (readFull n src) = Some e \<longrightarrow> cutErr e)"
proof (induction n src arbitrary: k data rule: readFull.induct)
  case (1 n)
  then show ?case by (auto simp: cutErr_def)
next
  case (2 n bs e cs)
  show ?case
  proof (cases e)
    case (Some x)
    then show ?thesis using 2(2) by (auto simp: cutErr_def)
  next
    case None
    obtain k' rest where r: "src_bytes k' cs = (rest, EOF)" "data = bs @ rest"
      using 2(2) None by (cases "bs = []") (auto split: if_splits simp: prod_eq_iff)
    show ?thesis
    proof (cases "n = 0 \<or> n \<le> length bs")
      case True
      then show ?thesis using r(2) None by auto
    next
      case False
      then have n: "n \<noteq> 0" "\<not> n \<le> length bs" by simp_all
      from "2.IH" [OF n None r(1)] show ?thesis
        using n r(2) None by (auto simp: cutErr_def split: prod.split)
    qed
  qed
qed

lemma probeOnce_file:
  assumes "servesFile seek file" "b \<le> length file"
  shows "probeOnce cs seek (length file) info b win rd =
    (case FindNextFrame cs rd (take win (drop b file)) info of
       ((s, consumed, FrameFound, fr), rd) \<Rightarrow> (Answer (ProbeFound (b + s) (b + s + consumed) (the fr)), rd)
     | ((s, consumed, FrameTruncated, fr), rd) \<Rightarrow>
         (if length file \<le> b + win then Answer ProbeCut
          else if win \<ge> maxProbeWindow then Answer ProbeNone
          else Again b (min (win * 2) maxProbeWindow), rd)
     | ((s, consumed, FrameNotFound, fr), rd) \<Rightarrow>
         (if length file \<le> b + win then Answer ProbeNone else Again (b + win - 1) win, rd))"
proof -
  obtain src where s: "seek b = Inr src" "src_bytes 0 src = (drop b file, EOF)" using servesFileD [OF assms] by blast
  let ?n = "min (length file - b) win"
  obtain buf rerr where r: "readFull ?n src = (buf, rerr)" by fastforce
  have b: "buf = take win (drop b file)" and e: "\<not> (rerr \<noteq> None \<and> rerr \<noteq> Some ErrUnexpectedEOF \<and> rerr \<noteq> Some EOF)"
    using readFull_bytes [OF s(2), of ?n] r by (auto simp: cutErr_def min_def)
  have l: "length buf = ?n" by (simp add: b min.commute)
  then have a: "(b + length buf \<ge> length file \<or> length buf < ?n) = (length file \<le> b + win)" using assms(2) by (auto simp: min_def)
  obtain st len res fr rd' where F: "FindNextFrame cs rd buf info = ((st, len, res, fr), rd')" by (metis surj_pair)
  have "\<not> length file \<le> b + win \<Longrightarrow> length buf = win" using l by simp
  then show ?thesis
    using e a unfolding probeOnce_def Let_def s(1) sum.case r prod.case if_not_P [OF e] F [unfolded b] F a b [symmetric]
    by (cases res) auto
qed

text \<open>What a probe finds in a file is the frame at that place of the file.\<close>

lemma FindNextFrame_in_file:
  assumes "FindNextFrame cs rd (take win (drop b file)) si = ((s, n, FrameFound, fo), rd')" "reusable rd" "valid_info si"
    and "wf_reader rd2" "roff rd2 = 0" "rbytes rd2 = drop (b + s) file"
  shows "\<exists>f rd2'. fo = Some f \<and> Decode cs si rd2 = (Inr f, rd2') \<and> length (rbytes rd2) = n + length (rbytes rd2') \<and> b + s < length file"
proof -
  let ?w = "take win (drop b file)" and ?r = "drop win (drop b file)"
  have "drop (b + s) file = drop s (?w @ ?r)" by (subst append_take_drop_id) (simp add: add.commute)
  then have "rbytes rd2 = drop (s - 0) ?w @ drop (s - length ?w) ?r" using assms(6) by (simp only: drop_append diff_zero)
  from findFrom_decodes [OF assms(1) [unfolded FindNextFrame_def] assms(2-5) this] show ?thesis by auto
qed

lemma probeFrom_in_file:
  assumes "probeFrom cs seek (length file) info b win rd = (ProbeFound start stop fr, rd')" "servesFile seek file" "reusable rd" "valid_info info"
    and "wf_reader rd2" "roff rd2 = 0" "rbytes rd2 = drop start file"
  shows "\<exists>rd2'. Decode cs info rd2 = (Inr fr, rd2') \<and> start + length (rbytes rd2) = stop + length (rbytes rd2') \<and> start < length file"
  using assms
proof (induction cs seek "length file" info b win rd rule: probeFrom.induct)
  case (1 cs seek info b win rd)
  show ?case
  proof (cases "b < length file \<and> 2 \<le> win")
    case False
    then have "probeFrom cs seek (length file) info b win rd = (ProbeNone, rd)" by (subst probeFrom.simps) (simp only: if_False)
    then show ?thesis using "1.prems"(1) by simp
  next
    case True
    obtain st rd1 where o: "probeOnce cs seek (length file) info b win rd = (st, rd1)" by fastforce
    have b: "b \<le> length file" using True by simp
    show ?thesis
    proof (cases st)
      case (Again b1 win1)
      then have "probeFrom cs seek (length file) info b1 win1 rd1 = (ProbeFound start stop fr, rd')"
        using "1.prems"(1) True o by (subst (asm) probeFrom.simps) simp
      from "1.hyps" [OF True o [symmetric] Again this "1.prems"(2) probeOnce_reusable [OF o "1.prems"(3,4)] "1.prems"(4-7)] show ?thesis .
    next
      case (Answer r)
      then have r: "r = ProbeFound start stop fr" using "1.prems"(1) True o by (subst (asm) probeFrom.simps) simp
      obtain s len res fo rd3 where F: "FindNextFrame cs rd (take win (drop b file)) info = ((s, len, res, fo), rd3)" by (metis surj_pair)
      have "res = FrameFound" "start = b + s" "fr = the fo" "stop = b + s + len"
        using o Answer r unfolding probeOnce_file [OF "1.prems"(2) b] F by (cases res; auto split: if_splits)+
      with FindNextFrame_in_file [OF F [unfolded this(1)] "1.prems"(3-6)] "1.prems"(7) show ?thesis by auto
    qed
  qed
qed

lemma probe_in_file:
  assumes "probe cs seek b d = (ProbeFound start stop fr, d')" "probeReady d" "servesFile seek file" "de_streamEnd d = length file"
    and "wf_reader rd2" "roff rd2 = 0" "rbytes rd2 = drop start file"
  shows "\<exists>rd2'. Decode cs (de_info d) rd2 = (Inr fr, rd2') \<and> start + length (rbytes rd2) = stop + length (rbytes rd2')" "start < length file"
proof -
  let ?win = "min (max (2 * de_maxFrame d) probeChunkDefault) maxProbeWindow"
  obtain rd where "probeFrom cs seek (length file) (de_info d) b ?win (de_resyncR d) = (ProbeFound start stop fr, rd)"
    using assms(1,4) by (auto simp: probe_def Let_def split: prod.splits)
  from probeFrom_in_file [OF this assms(3) _ _ assms(5-7)] assms(2)
  show "\<exists>rd2'. Decode cs (de_info d) rd2 = (Inr fr, rd2') \<and> start + length (rbytes rd2) = stop + length (rbytes rd2')" "start < length file"
    by (auto simp: probeReady_def)
qed

section \<open>What a search answers\<close>

text \<open>
  Probes change the scratch reader only. \<open>probed cs seek d P\<close>: some probe of a decoder that differs from
  \<open>d\<close> in nothing else found a frame as \<open>P\<close> says.
\<close>

definition probed :: "(u8 list \<Rightarrow> u16) \<Rightarrow> (nat \<Rightarrow> err + chunk list) \<Rightarrow> Decoder \<Rightarrow> (nat \<Rightarrow> nat \<Rightarrow> Frame \<Rightarrow> bool) \<Rightarrow> bool" where
  "probed cs seek d P \<longleftrightarrow> (\<exists>b rd start stop fr d'. probeReady (d\<lparr>de_resyncR := rd\<rparr>)
     \<and> probe cs seek b (d\<lparr>de_resyncR := rd\<rparr>) = (ProbeFound start stop fr, d') \<and> P start stop fr)"

lemma firstSample_resync [simp]: "firstSample (d\<lparr>de_resyncR := rd\<rparr>) fr = firstSample d fr"
  by (simp add: firstSample_def)

lemma resync_same: "probed cs seek (d\<lparr>de_resyncR := rd\<rparr>) P = probed cs seek d P"
  by (simp add: probed_def)

lemma probedI:
  "probe cs seek b d = (ProbeFound start stop fr, d') \<Longrightarrow> probeReady d \<Longrightarrow> P start stop fr \<Longrightarrow> probed cs seek d P"
  unfolding probed_def by (intro exI [of _ b] exI [of _ "de_resyncR d"] exI [of _ start] exI [of _ stop] exI [of _ fr] exI [of _ d']) simp

lemma probed_mono: "probed cs seek d P \<Longrightarrow> (\<And>a b fr. P a b fr \<Longrightarrow> P' a b fr) \<Longrightarrow> probed cs seek d P'"
  unfolding probed_def by blast

text \<open>What the binary search may answer, \<open>Q\<close> being what is to hold of an offset to scan from.\<close>

definition answers ::
  "(u8 list \<Rightarrow> u16) \<Rightarrow> (nat \<Rightarrow> err + chunk list) \<Rightarrow> nat \<Rightarrow> (nat \<Rightarrow> bool) \<Rightarrow> Decoder \<Rightarrow> landing + nat \<Rightarrow> bool" where
  "answers cs seek target Q d r \<longleftrightarrow> (\<forall>b. r = Inr b \<longrightarrow> Q b) \<and> (\<forall>n. r \<noteq> Inl (PastEnd n))
     \<and> (\<forall>start f. r = Inl (Landing start f) \<longrightarrow>
          probed cs seek d (\<lambda>a b fr. a = start \<and> f = firstSample d fr \<and> f \<le> target \<and> target < f + fr_BlockSize fr))
     \<and> (\<forall>e. r = Inl (SearchErr e) \<longrightarrow> (\<exists>b rd d'. probeReady (d\<lparr>de_resyncR := rd\<rparr>) \<and> probe cs seek b (d\<lparr>de_resyncR := rd\<rparr>) = (ProbeErr e, d')))"

lemma answers_resync: "answers cs seek target Q (d\<lparr>de_resyncR := rd\<rparr>) = answers cs seek target Q d"
  by (simp add: answers_def resync_same fun_eq_iff)

text \<open>Whatever holds of the first lower bound and of the end of every frame at or before the target, holds of the offset to scan from.\<close>

lemma narrowFrames_answer:
  assumes "narrowFrames cs seek target lo hi d = Some (r, d')" "probeReady d" "Q lo"
    and "\<And>start stop fr. probed cs seek d (\<lambda>a b f. a = start \<and> b = stop \<and> f = fr) \<Longrightarrow> firstSample d fr + fr_BlockSize fr \<le> target \<Longrightarrow> Q stop"
  shows "answers cs seek target Q d r"
  using assms
proof (induction "hi - lo" arbitrary: lo hi d rule: less_induct)
  case less
  show ?case
  proof (cases "hi - lo > linearWindow")
    case False
    then show ?thesis using less.prems(1,3) by (subst (asm) narrowFrames.simps) (auto simp: answers_def)
  next
    case True
    define mid where "mid = lo + (hi - lo) div 2"
    have mid: "lo < mid" "mid < hi" using True by (auto simp: mid_def linearWindow_def)
    obtain res d1 where P: "probe cs seek mid d = (res, d1)" by fastforce
    note p = probe_ok [OF P less.prems(2)]
    obtain rd where d1: "d1 = d\<lparr>de_resyncR := rd\<rparr>" using p(2) by blast
    have on: "answers cs seek target Q d r"
      if "narrowFrames cs seek target lo' hi' d1 = Some (r, d')" "hi' - lo' < hi - lo" "Q lo'" for lo' hi'
      using less.hyps [OF that(2,1) p(1) that(3)] less.prems(4) by (simp add: d1 resync_same answers_resync)
    have run: "(case res of
         ProbeErr e \<Rightarrow> Some (Inl (SearchErr e), d1)
       | ProbeCut \<Rightarrow> narrowFrames cs seek target lo mid d1
       | ProbeNone \<Rightarrow> narrowFrames cs seek target lo mid d1
       | ProbeFound start stop fr \<Rightarrow>
           let f = firstSample d1 fr
           in if f > target then narrowFrames cs seek target lo (if start \<ge> hi then mid else start) d1
              else if target \<ge> f + fr_BlockSize fr then narrowFrames cs seek target stop hi d1
              else Some (Inl (Landing start f), d1)) = Some (r, d')"
      using less.prems(1) by (subst (asm) narrowFrames.simps) (simp add: True P Let_def flip: mid_def split: probeResult.splits)
    show ?thesis
    proof (cases res)
      case (ProbeFound start stop fr)
      note P = P [unfolded ProbeFound]
      have b: "lo < start" "lo < stop" using p(3) [OF ProbeFound] mid by simp_all
      have f: "firstSample d1 fr = firstSample d fr" by (simp add: d1)
      consider "firstSample d fr > target" | "firstSample d fr + fr_BlockSize fr \<le> target"
        | "firstSample d fr \<le> target" "target < firstSample d fr + fr_BlockSize fr" by linarith
      then show ?thesis
      proof cases
        case 1
        moreover have "(if start \<ge> hi then mid else start) - lo < hi - lo" using b(1) mid by auto
        ultimately show ?thesis using on [of lo "if start \<ge> hi then mid else start"] run less.prems(3) by (simp add: ProbeFound f)
      next
        case 2
        then have "Q stop" by (intro less.prems(4) probedI [OF P less.prems(2)]) auto
        then show ?thesis using on [of stop hi] run b mid 2 by (auto simp: ProbeFound f)
      next
        case 3
        then have "r = Inl (Landing start (firstSample d fr))" using run by (simp add: ProbeFound f Let_def)
        then show ?thesis using 3 by (auto simp: answers_def intro!: probedI [OF P less.prems(2)])
      qed
    next
      case (ProbeErr e)
      then have "r = Inl (SearchErr e)" using run by simp
      then show ?thesis using P ProbeErr less.prems(2) by (auto simp: answers_def intro!: exI [of _ mid] exI [of _ "de_resyncR d"])
    qed (use on [of lo mid] run mid less.prems(3) in auto)
  qed
qed

lemma scanFrames_answer:
  assumes "scanFrames cs seek target b last_end d = Some (Landing start f, d')" "probeReady d"
  shows "probed cs seek d (\<lambda>a b fr. a = start \<and> f = firstSample d fr \<and> target < f + fr_BlockSize fr)"
  using assms
proof (induction "de_streamEnd d - b" arbitrary: b last_end d rule: less_induct)
  case less
  obtain res d1 where P: "probe cs seek b d = (res, d1)" by fastforce
  note p = probe_ok [OF P less.prems(2)]
  obtain rd where d1: "d1 = d\<lparr>de_resyncR := rd\<rparr>" using p(2) by blast
  have run: "(case res of
        ProbeErr e \<Rightarrow> Some (SearchErr e, d1)
      | ProbeCut \<Rightarrow> Some (SearchErr errSeekFrameCut, d1)
      | ProbeNone \<Rightarrow> Some (PastEnd last_end, d1)
      | ProbeFound start stop fr \<Rightarrow>
          let f = firstSample d1 fr; endSample = f + fr_BlockSize fr
          in if f \<le> target \<and> target < endSample then Some (Landing start f, d1)
             else if f > target then Some (Landing start f, d1)
             else scanFrames cs seek target stop endSample d1) = Some (Landing start f, d')"
    using less.prems(1) by (subst (asm) scanFrames.simps) (simp add: P)
  show ?case
  proof (cases res)
    case (ProbeFound s stop fr)
    note P = P [unfolded ProbeFound]
    have F: "firstSample d1 fr = firstSample d fr" by (simp add: d1)
    show ?thesis
    proof (cases "target < firstSample d fr + fr_BlockSize fr")
      case True
      then have "start = s" "f = firstSample d fr" using run by (auto simp: ProbeFound F Let_def split: if_splits)
      then show ?thesis using True by (intro probedI [OF P less.prems(2)]) simp
    next
      case False
      then have "scanFrames cs seek target stop (firstSample d fr + fr_BlockSize fr) d1 = Some (Landing start f, d')"
        using run by (auto simp: ProbeFound F Let_def split: if_splits)
      moreover have "de_streamEnd d1 - stop < de_streamEnd d - b" using p(3) [OF ProbeFound] by (auto simp: d1)
      ultimately show ?thesis using less.hyps [of d1 stop] p(1) by (simp add: d1 resync_same)
    qed
  qed (use run in simp_all)
qed

lemma searchFrame_landing:
  assumes "searchFrame cs seek target lo hi d = Some (Landing start f, d')" "probeReady d"
  shows "probed cs seek d (\<lambda>a b fr. a = start \<and> f = firstSample d fr \<and> target < f + fr_BlockSize fr)"
proof -
  obtain r d1 where n: "narrowFrames cs seek target lo hi d = Some (r, d1)" "probeReady d1" "\<exists>rd. d1 = d\<lparr>de_resyncR := rd\<rparr>"
    using narrowFrames_returns [OF assms(2)] by blast
  show ?thesis
  proof (cases r)
    case (Inl x)
    then have "x = Landing start f" using assms(1) n(1) by (simp add: searchFrame_def)
    then show ?thesis using narrowFrames_answer [OF n(1) assms(2), of "\<lambda>_. True"] Inl by (auto simp: answers_def elim: probed_mono)
  next
    case (Inr b)
    then have "scanFrames cs seek target b 0 d1 = Some (Landing start f, d')" using assms(1) n(1) by (simp add: searchFrame_def)
    from scanFrames_answer [OF this n(2)] n(3) show ?thesis by (auto simp: resync_same)
  qed
qed

section \<open>Decoders that can be used\<close>

lemma ResetAt_ok:
  assumes "reusable br"
  shows "wf_reader (ResetAt src pos br)" "roff (ResetAt src pos br) = 0" "rbytes (ResetAt src pos br) = fst (src_bytes 0 src)"
    "rend (ResetAt src pos br) = snd (src_bytes 0 src)"
proof -
  note r = Reset_ok [of br src, OF assms [unfolded reusable_def]]
  have c: "consumedBytes (ResetAt src pos br) = consumedBytes (Reset src br)" by (simp add: ResetAt_def consumedBytes_def)
  show "wf_reader (ResetAt src pos br)" using r(1) unfolding wf_reader_def c by (simp add: ResetAt_def)
  show "rbytes (ResetAt src pos br) = fst (src_bytes 0 src)" using r(2) unfolding rbytes_def c by (simp add: ResetAt_def cong: if_cong)
  show "roff (ResetAt src pos br) = 0" using r(3) by (simp add: ResetAt_def roff_def)
  show "rend (ResetAt src pos br) = snd (src_bytes 0 src)" using r(4) by (simp add: ResetAt_def rend_def split: option.splits)
qed

text \<open>
  The invariant of a decoder between two calls: its readers are in order, and while it is neither failed
  nor at its end it has one, which stands at the first byte of a frame or behind the last.
\<close>

definition usable :: "Decoder \<Rightarrow> bool" where
  "usable d \<longleftrightarrow> reusable (de_resyncR d) \<and> (\<forall>br. de_br d = Some br \<longrightarrow> wf_reader br)
     \<and> (de_err d = None \<or> de_seekable d \<longrightarrow> valid_info (de_info d) \<and> de_bytesPS d = (si_BitDepth (de_info d) + 7) div 8)
     \<and> (de_err d = None \<and> \<not> de_done d \<longrightarrow> (\<exists>br. de_br d = Some br \<and> roff br = 0))"

lemma usable_open: "usable d \<Longrightarrow> de_err d = None \<Longrightarrow> \<not> de_done d \<Longrightarrow> openDecoder d"
  by (auto simp: usable_def openDecoder_def)

lemma usable_ready: "usable d \<Longrightarrow> de_seekable d \<Longrightarrow> probeReady d"
  by (simp add: usable_def probeReady_def)

lemma usable_pending [simp]: "usable (d\<lparr>de_pending := p\<rparr>) = usable d"
  by (simp add: usable_def)

lemma usable_resync: "usable d \<Longrightarrow> reusable rd \<Longrightarrow> usable (d\<lparr>de_resyncR := rd\<rparr>)"
  by (simp add: usable_def)

lemma packFrame_usable: "packFrame h fr d = (buf, d') \<Longrightarrow> usable d \<Longrightarrow> usable d' \<and> de_err d' = de_err d \<and> de_done d' = de_done d"
  by (drule packFrame_fields) (auto simp: usable_def)

lemma decFinish_usable: "decFinish md5 d = (e, d') \<Longrightarrow> usable (d\<lparr>de_done := True\<rparr>) \<Longrightarrow> usable d' \<and> de_done d'"
  by (auto simp: decFinish_def Let_def usable_def split: if_splits)

lemma decodeNextFrame_some: "usable d \<Longrightarrow> de_err d = None \<Longrightarrow> \<exists>e d'. decodeNextFrame cs md5 d = Some (e, d')"
  using decodeNextFrame_returns [OF usable_open, of d cs md5] by (cases "de_done d") (auto simp: decodeNextFrame_def)

lemma decodeNextFrame_usable:
  assumes "decodeNextFrame cs md5 d = Some (e, d')" "usable d" "de_err d = None"
  shows "usable d'" "e = None \<Longrightarrow> de_err d' = None"
proof -
  have "usable d' \<and> (e = None \<longrightarrow> de_err d' = None)"
  proof (cases "de_done d")
    case True
    then show ?thesis using assms by (simp add: decodeNextFrame_def)
  next
    case False
    obtain br where br: "de_br d = Some br" "roff br = 0" "wf_reader br" "valid_info (de_info d)"
      using assms(2,3) False by (auto simp: usable_def)
    obtain x br' where D: "Decode cs (de_info d) br = (x, br')" by fastforce
    have w: "wf_reader br'" using Decode_wf [OF br(3,4), of cs] D by simp
    show ?thesis
    proof (cases x)
      case (Inl err)
      have "usable (d\<lparr>de_br := Some br', de_done := True\<rparr>)" "usable (d\<lparr>de_br := Some br', de_err := Some q\<rparr>)" for q
        using assms(2,3) w by (auto simp: usable_def)
      then show ?thesis
        using assms(1) False br(1) D Inl decFinish_usable [of md5 "d\<lparr>de_br := Some br'\<rparr>"]
        by (auto simp: decodeNextFrame_def Let_def split: if_splits prod.splits)
    next
      case (Inr fr)
      have r: "roff br' = 0" using Decode_progress(2) [OF D [unfolded Inr] br(3,2,4)] .
      define d1 where "d1 = d\<lparr>de_br := Some br', de_decoded := de_decoded d + of_nat (fr_BlockSize fr)\<rparr>"
      have u: "usable d1" "de_err d1 = None" using assms(2,3) w r by (auto simp: usable_def d1_def)
      obtain buf d2 where P: "packFrame (\<not> de_seeked d1 \<and> \<not> de_skipMD5 d1) fr d1 = (buf, d2)" by fastforce
      have "d' = d2\<lparr>de_pending := buf\<rparr>" "e = None"
        using assms(1) False br(1) D Inr P by (simp_all add: decodeNextFrame_def Let_def d1_def)
      then show ?thesis using packFrame_usable [OF P u(1)] u(2) by simp
    qed
  qed
  then show "e = None \<Longrightarrow> de_err d' = None" "usable d'" by simp_all
qed

lemma fillPending_usable:
  assumes "usable d" "de_err d = None"
  shows "\<exists>e d'. fillPending cs md5 d = Some (e, d') \<and> usable d'"
  using assms
proof (induction "bytesLeft d" arbitrary: d rule: less_induct)
  case less
  obtain r d1 where n: "decodeNextFrame cs md5 d = Some (r, d1)" using decodeNextFrame_some [OF less.prems] by blast
  note u = decodeNextFrame_usable [OF n less.prems]
  show ?case
  proof (cases "de_pending d = [] \<and> r = None")
    case True
    then have "\<not> de_done d" using n by (auto simp: decodeNextFrame_def)
    then have "bytesLeft d1 < bytesLeft d" using decodeNextFrame_open(2) [OF usable_open [OF less.prems] n [unfolded True [THEN conjunct2]]] by simp
    from less.hyps [OF this u(1) u(2)] True show ?thesis by (subst fillPending.simps) (simp add: n)
  next
    case False
    then show ?thesis using less.prems u by (subst fillPending.simps) (auto simp: n split: option.split)
  qed
qed

text \<open>A drain returns when the writer keeps its contract, and whatever it does, what it leaves is usable.\<close>

lemma drainTo_usable:
  assumes "usable d" "de_err d = None"
  shows "(\<forall>m e d' s'. drainTo cs md5 w taken d s = Some (m, e, d', s') \<longrightarrow> usable d') \<and> (takesAtMost w \<longrightarrow> (\<exists>r. drainTo cs md5 w taken d s = Some r))"
  using assms
proof (induction "bytesLeft d" arbitrary: d taken s rule: less_induct)
  case less
  obtain r d1 where n: "decodeNextFrame cs md5 d = Some (r, d1)" using decodeNextFrame_some [OF less.prems] by blast
  note u = decodeNextFrame_usable [OF n less.prems]
  show ?case
  proof (cases r)
    case None
    obtain k werr s' where w: "w (de_pending d1) s = (k, werr, s')" by (cases "w (de_pending d1) s") auto
    have "\<not> de_done d" using n None by (auto simp: decodeNextFrame_def)
    then have "bytesLeft (d1\<lparr>de_pending := drop k (de_pending d1)\<rparr>) < bytesLeft d"
      using decodeNextFrame_open(2) [OF usable_open [OF less.prems] n [unfolded None]] by simp
    from less.hyps [OF this, of "taken + k" s'] u None takesAtMostD [where w = w, OF _ w] show ?thesis
      by (subst (1 2) drainTo.simps) (auto simp: n w Let_def split: if_splits)
  next
    case (Some e)
    then show ?thesis using u by (subst (1 2) drainTo.simps) (simp add: n)
  qed
qed

lemma decRead_usable:
  assumes "usable d"
  shows "\<exists>out e d'. decRead cs md5 k d = Some (out, e, d') \<and> usable d'"
  using fillPending_usable [OF assms, of cs md5] assms by (cases "de_err d") (auto simp: decRead_def split: option.split)

lemma decWriteTo_usable:
  assumes "usable d"
  shows "decWriteTo cs md5 w d s = Some (n, e, d', s') \<Longrightarrow> usable d'" "takesAtMost w \<Longrightarrow> \<exists>r. decWriteTo cs md5 w d s = Some r"
proof -
  have "(\<forall>n e d' s'. decWriteTo cs md5 w d s = Some (n, e, d', s') \<longrightarrow> usable d') \<and> (takesAtMost w \<longrightarrow> (\<exists>r. decWriteTo cs md5 w d s = Some r))"
  proof (cases "de_err d")
    case None
    obtain k werr s1 where w: "w (de_pending d) s = (k, werr, s1)" by (cases "w (de_pending d) s") auto
    have "usable (d\<lparr>de_pending := drop k (de_pending d)\<rparr>)" "de_err (d\<lparr>de_pending := drop k (de_pending d)\<rparr>) = None" using assms None by simp_all
    from drainTo_usable [OF this, of cs md5 w k s1] drainTo_usable [OF assms None, of cs md5 w 0 s] takesAtMostD [where w = w, OF _ w] show ?thesis
      using assms None by (auto simp: decWriteTo_def w Let_def split: if_splits)
  qed (use assms in \<open>simp add: decWriteTo_def\<close>)
  then show "decWriteTo cs md5 w d s = Some (n, e, d', s') \<Longrightarrow> usable d'" "takesAtMost w \<Longrightarrow> \<exists>r. decWriteTo cs md5 w d s = Some r" by blast+
qed

lemma landAt_usable:
  assumes "landAt cs seek start target fs d = Some (r, d')" "usable d" "de_seekable d"
  shows "\<forall>br. de_br d' = Some br \<longrightarrow> wf_reader br" "r = Inr n \<Longrightarrow> usable d'" "de_resyncR d' = de_resyncR d" "de_info d' = de_info d"
    "de_seekable d' = de_seekable d" "de_bytesPS d' = de_bytesPS d"
proof -
  have "(\<forall>br. de_br d' = Some br \<longrightarrow> wf_reader br) \<and> (r = Inr n \<longrightarrow> usable d') \<and> de_resyncR d' = de_resyncR d \<and> de_info d' = de_info d
    \<and> de_seekable d' = de_seekable d \<and> de_bytesPS d' = de_bytesPS d"
  proof (cases "seek start")
    case (Inl e)
    then show ?thesis using assms by (auto simp: landAt_def usable_def)
  next
    case (Inr src)
    define br where "br = (case de_br d of None \<Rightarrow> NewReaderSize src streamReadBlock fcReset | Some br \<Rightarrow> br)"
    have "reusable br" using assms(2) reusable_wf NewReaderSize_ok(1) [of src streamReadBlock fcReset]
      by (auto simp: br_def usable_def split: option.split)
    then have w: "wf_reader (ResetAt src start br)" "roff (ResetAt src start br) = 0"
      by (simp_all add: ResetAt_ok)
    have v: "valid_info (de_info d)" using assms(2,3) by (simp add: usable_def)
    obtain x br' where D: "Decode cs (de_info d) (ResetAt src start br) = (x, br')" by fastforce
    have w': "wf_reader br'" using Decode_wf [OF w(1) v, of cs] D by simp
    show ?thesis
    proof (cases x)
      case (Inl e)
      then show ?thesis
        using assms(1) w' unfolding landAt_def \<open>seek start = Inr src\<close> sum.case br_def [symmetric] Let_def by (simp add: D Inl) auto
    next
      case (Inr fr)
      define d1 where "d1 = d\<lparr>de_seeked := True, de_done := False, de_err := None, de_br := Some br'\<rparr>"
      have u: "usable d1" using assms(2,3) w' Decode_progress(2) [OF D [unfolded Inr] w v] by (auto simp: usable_def d1_def)
      obtain buf d2 where P: "packFrame False fr d1 = (buf, d2)" by fastforce
      have d2: "d2 = d1" using packFrame_fields [OF P] by simp
      have "d' = d1 \<or> (\<exists>p. d' = d1\<lparr>de_pending := p\<rparr>)"
        using assms(1) P d2 unfolding landAt_def \<open>seek start = Inr src\<close> sum.case br_def [symmetric] Let_def d1_def
        by (simp add: D Inr) (auto split: if_splits)
      then have "usable d'" "de_resyncR d' = de_resyncR d" "de_info d' = de_info d" "de_seekable d' = de_seekable d" "de_bytesPS d' = de_bytesPS d"
        using u by (auto simp: d1_def)
      then show ?thesis by (auto simp: usable_def)
    qed
  qed
  then show "\<forall>br. de_br d' = Some br \<longrightarrow> wf_reader br" "r = Inr n \<Longrightarrow> usable d'" "de_resyncR d' = de_resyncR d" "de_info d' = de_info d"
    "de_seekable d' = de_seekable d" "de_bytesPS d' = de_bytesPS d" by simp_all
qed

lemma seekFailed_usable:
  "reusable (de_resyncR d) \<Longrightarrow> de_seekable d \<longrightarrow> valid_info (de_info d) \<and> de_bytesPS d = (si_BitDepth (de_info d) + 7) div 8
    \<Longrightarrow> usable (snd (seekFailed err d))"
  by (simp add: seekFailed_def usable_def)

lemma ensureNominalBlock_keeps:
  assumes "(if de_nominalBlock d \<le> 0 then ensureNominalBlock cs seek d else (None, d)) = (e, d1)" "usable d" "de_seekable d"
  shows "usable d1" "de_seekable d1"
proof -
  obtain res d0 where P: "probe cs seek (de_audioStart d) d = (res, d0)" by fastforce
  note p = probe_ok(1,2) [OF P usable_ready [OF assms(2,3)]]
  have "usable d0" "de_seekable d0" using p usable_resync [OF assms(2)] assms(3) by (auto simp: probeReady_def)
  moreover have "d1 = d \<or> d1 = d0 \<or> (\<exists>k. d1 = d0\<lparr>de_nominalBlock := k\<rparr>)"
    using assms(1) by (cases res) (auto simp: ensureNominalBlock_def P split: if_splits)
  ultimately show "usable d1" "de_seekable d1" using assms(2,3) by (auto simp: usable_def)
qed

lemma seekFrom_usable:
  assumes "seekFrom cs seek count i d = Some (r, d')" "usable d" "de_seekable d"
  shows "usable d'"
proof -
  have en: "usable (snd (seekToEnd m d1))" if "usable d1" "de_seekable d1" for m d1
    using that by (simp add: seekToEnd_def usable_def)
  have fail: "usable (snd (seekFailed e d1))" if "usable d1" for e d1
    by (rule seekFailed_usable) (use that in \<open>auto simp: usable_def\<close>)
  obtain lo hi where b: "seekBounds i d = (lo, hi)" by fastforce
  from searchFrame_returns [OF usable_ready [OF assms(2,3)], of cs seek "nat i" lo hi] obtain x d2 rd where
    s: "searchFrame cs seek (nat i) lo hi d = Some (x, d2)" "probeReady d2" "d2 = d\<lparr>de_resyncR := rd\<rparr>" by blast
  have d2: "usable d2" "de_seekable d2" using usable_resync [OF assms(2), of rd] assms(3) s(2) by (simp_all add: s(3) probeReady_def)
  show ?thesis
  proof (cases x)
    case (Landing start f)
    obtain y d3 where L: "landAt cs seek start (nat i) f d2 = Some (y, d3)"
      using assms(1) by (auto simp: seekFrom_def b s(1) Landing split: option.splits)
    note l = landAt_usable [OF L d2]
    have "usable (snd (seekFailed e d3))" for e
      by (rule seekFailed_usable) (use l d2 in \<open>auto simp: usable_def\<close>)
    then show ?thesis using l(2) assms(1) by (cases y) (auto simp: seekFrom_def b s(1) Landing L seekFailed_def)
  qed (use en [OF d2] fail [OF d2(1)] assms(1) in \<open>auto simp: seekFrom_def b s(1) seekToEnd_def seekFailed_def\<close>)
qed

lemma SeekToSample_usable:
  assumes "SeekToSample cs seek i d = Some (r, d')" "usable d"
  shows "usable d'"
proof (cases "de_seekable d")
  case False
  then show ?thesis using assms by (simp add: SeekToSample_def Let_def)
next
  case True
  obtain r1 d1 where n: "(if de_nominalBlock d \<le> 0 then ensureNominalBlock cs seek d else (None, d)) = (r1, d1)" by fastforce
  note d1 = ensureNominalBlock_keeps [OF n assms(2) True]
  have fail: "usable (snd (seekFailed e d1))" for e
    by (rule seekFailed_usable) (use d1 in \<open>auto simp: usable_def\<close>)
  have en: "usable (snd (seekToEnd m d))" for m using assms(2) True by (simp add: seekToEnd_def usable_def)
  show ?thesis
    using assms n fail en seekFrom_usable [of cs seek "sint (si_TotalSamples (de_info d))" i d1 r d'] d1
    by (auto simp: SeekToSample_def Let_def True seekToEnd_def seekFailed_def split: if_splits option.splits)
qed

text \<open>A decoder that was set up is usable, and so is one whose set-up failed: the error stays in it.\<close>

definition rebindable :: "Decoder \<Rightarrow> bool" where
  "rebindable d \<longleftrightarrow> reusable (de_resyncR d) \<and> (\<forall>br. de_br d = Some br \<longrightarrow> reusable br)"

lemma usable_rebindable: "usable d \<Longrightarrow> rebindable d"
  by (auto simp: usable_def rebindable_def intro: reusable_wf)

lemma rebindable_zero: "rebindable zeroDecoder"
  by (simp add: rebindable_def zeroDecoder_def zeroReader_def reusable_def fresh_reader_def)

lemma initDecoder_resync:
  assumes "initDecoder (Some src) d = (e, d')"
  shows "de_resyncR d' = de_resyncR d" "e \<noteq> None \<Longrightarrow> de_err d' = e \<and> \<not> de_seekable d'"
  using assms
  by (auto simp: initDecoder_def clearStream_def zeroDecoder_def measureSource_def Let_def split: option.splits sum.splits prod.splits)

lemma initDecoder_br:
  assumes "rebindable d" "initDecoder (Some src) d = (e, d')"
  shows "\<forall>br. de_br d' = Some br \<longrightarrow> wf_reader br"
proof -
  let ?rd = "case de_br d of None \<Rightarrow> NewReaderSize (so_reads src) streamReadBlock fcReset | Some br \<Rightarrow> Reset (so_reads src) br"
  have "\<forall>br. de_br d = Some br \<longrightarrow> reusable br" using assms(1) by (simp add: rebindable_def)
  note rd = reader_for [OF this refl, of "so_reads src"]
  obtain x br where M: "ReadMetadata ?rd = (x, br)" by fastforce
  have "wf_reader br" using runsD(1) [OF runs_ReadMetadata rd(1) M] advanceD(1) by blast
  moreover have "de_br d' = Some br"
    using assms(2) unfolding initDecoder_def option.case Let_def M
    by (auto split: sum.splits option.splits prod.splits dest: measureSource_keeps(1))
  ultimately show ?thesis by simp
qed

lemma resetDecoder_usable:
  assumes d: "rebindable d" and r: "resetDecoder (Some src) opts d = (e, d')"
  shows "usable d'" "de_err d' = e"
proof -
  obtain e1 d1 where i: "initDecoder (Some src) d = (e1, d1)" by fastforce
  note s = initDecoder_resync [OF i] and b = initDecoder_br [OF d i]
  have "usable d' \<and> de_err d' = e"
  proof (cases e1)
    case (Some x)
    then have "e = Some x" "d' = d1" using r i by (simp_all add: resetDecoder_def)
    then show ?thesis using s b Some d by (simp add: usable_def rebindable_def)
  next
    case None
    have br: "\<forall>br. de_br d = Some br \<longrightarrow> reusable br" using d by (simp add: rebindable_def)
    note o = initDecoder_open [OF br i [unfolded None]]
    from applyOptions_out [OF o(8), of opts] obtain t u where
      a: "applyOptions opts d1 = (case outDepth opts (si_BitDepth (de_info d1)) of
        None \<Rightarrow> (Some ErrUnsupported, (clearStream d1)\<lparr>de_err := Some ErrUnsupported\<rparr>)
      | Some b \<Rightarrow> (None, d1\<lparr>de_skipMD5 := (de_skipMD5 d1 \<or> SkipMD5Verification \<in> set opts), de_convertTo := t, de_convertSet := u, de_outBits := b\<rparr>))"
      by blast
    have r': "(e, d') = applyOptions opts d1" using r i None by (simp add: resetDecoder_def)
    show ?thesis
    proof (cases "outDepth opts (si_BitDepth (de_info d1))")
      case None
      then have "e = Some ErrUnsupported" "d' = (clearStream d1)\<lparr>de_err := Some ErrUnsupported\<rparr>" using r' a by simp_all
      then show ?thesis using s(1) b d by (simp add: usable_def clearStream_def zeroDecoder_def rebindable_def)
    next
      case (Some k)
      then have "e = None" and d': "d' = d1\<lparr>de_skipMD5 := (de_skipMD5 d1 \<or> SkipMD5Verification \<in> set opts), de_convertTo := t, de_convertSet := u, de_outBits := k\<rparr>"
        using r' a by simp_all
      then show ?thesis using s(1) b d o(1,2,11) by (auto simp: usable_def openDecoder_def rebindable_def)
    qed
  qed
  then show "usable d'" "de_err d' = e" by simp_all
qed

lemma NewDecoder_usable: "NewDecoder (Some src) opts = Inr d \<Longrightarrow> usable d"
  using resetDecoder_usable(1) [OF rebindable_zero, of src opts]
  by (auto simp: NewDecoder_reset split: prod.splits option.splits)

text \<open>
  The decoders a client can arrive at: by reading, draining into a writer, seeking and rebinding, in any order
  and whatever the calls answer. The source may answer differently in every seek.
\<close>

inductive session ::
  "(u8 list \<Rightarrow> u16) \<Rightarrow> (u8 list \<Rightarrow> u8 list) \<Rightarrow> 's byteWriter \<Rightarrow> Decoder \<Rightarrow> Decoder \<Rightarrow> bool" for cs md5 w d where
  session_start: "session cs md5 w d d"
| session_read: "session cs md5 w d d1 \<Longrightarrow> decRead cs md5 k d1 = Some (out, e, d2) \<Longrightarrow> session cs md5 w d d2"
| session_write: "session cs md5 w d d1 \<Longrightarrow> decWriteTo cs md5 w d1 s = Some (n, e, d2, s2) \<Longrightarrow> session cs md5 w d d2"
| session_seek: "session cs md5 w d d1 \<Longrightarrow> SeekToSample cs seek i d1 = Some (r, d2) \<Longrightarrow> session cs md5 w d d2"
| session_reset: "session cs md5 w d d1 \<Longrightarrow> resetDecoder src opts d1 = (x, d2) \<Longrightarrow> session cs md5 w d d2"

lemma session_usable: "session cs md5 w d d' \<Longrightarrow> usable d \<Longrightarrow> usable d'"
proof (induction rule: session.induct)
  case (session_read d1 k out e d2)
  then show ?case using decRead_usable [of d1 cs md5 k] by auto
next
  case (session_write d1 s n e d2 s2)
  then show ?case using decWriteTo_usable(1) [of d1 cs md5 w s] by auto
next
  case (session_seek d1 seek i r d2)
  then show ?case using SeekToSample_usable [of cs seek i d1] by auto
next
  case (session_reset d1 src opts x d2)
  then show ?case
    using resetDecoder_usable(1) [OF usable_rebindable, of d1]
    by (cases src) (auto simp: resetDecoder_def initDecoder_def)
qed

section \<open>Seeking in any file\<close>

lemma packFrame_length:
  assumes "packFrame h fr d = (buf, d')" "frame_rows fr" "de_bytesPS d = (si_BitDepth (de_info d) + 7) div 8"
  shows "length buf = fr_BlockSize fr * length (fr_Channels fr) * ((de_outBits d + 7) div 8)"
proof -
  have l: "length (appendPacked [] x k) = fr_BlockSize x * length (fr_Channels x) * k" if "frame_rows x" for x k
    unfolding appendPacked_rows [OF that] by (simp add: packRows_def length_concat sum_list_triv o_def)
  have "frame_rows (shiftSamples fr s)" "fr_BlockSize (shiftSamples fr s) = fr_BlockSize fr"
    "length (fr_Channels (shiftSamples fr s)) = length (fr_Channels fr)" for s
    using shiftSamples_rows [OF assms(2), of s] by simp_all
  then show ?thesis using assms(1,3) l [OF assms(2)] by (auto simp: packFrame_def Let_def l split: if_splits)
qed

text \<open>The frame at the offset a probe found is decoded there, and holds the samples to drop.\<close>

lemma landAt_file:
  assumes u: "usable d" "de_seekable d" and srv: "servesFile seek file" "start < length file"
    and fr: "\<And>rd. wf_reader rd \<Longrightarrow> roff rd = 0 \<Longrightarrow> rbytes rd = drop start file \<Longrightarrow> fst (Decode cs (de_info d) rd) = Inr fr"
    and t: "target < fs + fr_BlockSize fr"
  shows "\<exists>buf br br'. packFrame False fr d = (buf, d) \<and> reusable br
    \<and> landAt cs seek start target fs d = Some (Inr (max target fs), d\<lparr>de_br := Some br', de_seeked := True, de_done := False, de_err := None,
        de_pending := drop ((max target fs - fs) * length (fr_Channels fr) * ((de_outBits d + 7) div 8)) buf\<rparr>)
    \<and> (\<exists>src. src_bytes 0 src = (drop start file, EOF) \<and> Decode cs (de_info d) (ResetAt src start br) = (Inr fr, br'))"
proof -
  obtain src where s: "seek start = Inr src" "src_bytes 0 src = (drop start file, EOF)" using servesFileD [OF srv(1), of start] srv(2) by auto
  define br where "br = (case de_br d of None \<Rightarrow> NewReaderSize src streamReadBlock fcReset | Some br \<Rightarrow> br)"
  have rb: "reusable br" using u(1) reusable_wf NewReaderSize_ok(1) [of src streamReadBlock fcReset]
    by (auto simp: br_def usable_def split: option.split)
  note r = ResetAt_ok [OF rb, of src start]
  obtain br' where D: "Decode cs (de_info d) (ResetAt src start br) = (Inr fr, br')"
    using fr [OF r(1,2)] r(3) s(2) by (cases "Decode cs (de_info d) (ResetAt src start br)") auto
  have v: "valid_info (de_info d)" "de_bytesPS d = (si_BitDepth (de_info d) + 7) div 8" using u by (simp_all add: usable_def)
  have "frame_ok fr" using Decode_accepts(1) [OF D r(1,2) v(1)] .
  then have rows: "frame_rows fr" by (auto simp: frame_rows_def frame_ok_def samples_ok_def)
  define d1 where "d1 = d\<lparr>de_seeked := True, de_done := False, de_err := None, de_br := Some br'\<rparr>"
  obtain buf d0 where P0: "packFrame False fr d = (buf, d0)" by fastforce
  have d0: "d0 = d" using packFrame_fields [OF P0] by simp
  have P: "packFrame False fr d1 = (buf, d1)" using P0 d0 by (auto simp: packFrame_def d1_def Let_def)
  have "(max target fs - fs) \<le> fr_BlockSize fr" using t by (auto simp: max_def)
  then have "(max target fs - fs) * length (fr_Channels fr) * ((de_outBits d + 7) div 8) \<le> length buf"
    unfolding packFrame_length [OF P0 rows v(2)] by (intro mult_le_mono1)
  moreover have "de_outBits d1 = de_outBits d" by (simp add: d1_def)
  ultimately have "landAt cs seek start target fs d = Some (Inr (max target fs),
      d1\<lparr>de_pending := drop ((max target fs - fs) * length (fr_Channels fr) * ((de_outBits d + 7) div 8)) buf\<rparr>)"
    unfolding landAt_def s(1) sum.case br_def [symmetric] Let_def using P by (simp add: D d1_def)
  then show ?thesis using P0 d0 rb D s(2) unfolding d1_def by (intro exI [of _ buf] exI [of _ br] exI [of _ br']) auto
qed

lemma probed_file:
  assumes "probed cs seek d (\<lambda>a b fr. a = start \<and> P b fr)" "servesFile seek file" "de_streamEnd d = length file"
  obtains fr stop where "start < length file" "P stop fr"
    "\<And>rd. wf_reader rd \<Longrightarrow> roff rd = 0 \<Longrightarrow> rbytes rd = drop start file
      \<Longrightarrow> \<exists>rd'. Decode cs (de_info d) rd = (Inr fr, rd') \<and> start + length (rbytes rd) = stop + length (rbytes rd')"
proof -
  obtain b z stop fr d' where p: "probeReady (d\<lparr>de_resyncR := z\<rparr>)" "probe cs seek b (d\<lparr>de_resyncR := z\<rparr>) = (ProbeFound start stop fr, d')" "P stop fr"
    using assms(1) unfolding probed_def by blast
  have e: "de_streamEnd (d\<lparr>de_resyncR := z\<rparr>) = length file" using assms(3) by simp
  define r0 :: "frameCRC reader" where "r0 = NewReader (bytesReader (drop start file)) fcReset"
  have r0: "wf_reader r0" "roff r0 = 0" "rbytes r0 = drop start file" unfolding r0_def by (simp_all add: NewReader_ok)
  show thesis
    using that [OF probe_in_file(2) [OF p(2,1) assms(2) e r0] p(3)] probe_in_file(1) [OF p(2,1) assms(2) e] by simp
qed

end
