(* ===== verification/Pcm_Outcome.thy ===== *)
theory Pcm_Outcome
  imports Pcm_Session
begin

text \<open>
  What a seek can come to (\<open>SeekToSample\<close> and what it calls in \<open>pcm/decoder.go\<close>): over a file whose reads
  may fail it returns, so the slice of the packed frame never panics; over a readable file it answers a
  sample, or reports a frame that is cut off, and then the file ends inside a frame.
\<close>

section \<open>Frames that are cut off\<close>

text \<open>
  \<open>cutFrameAt cs si file q\<close>: at the offset \<open>q\<close> of the file stands a sync code, and a decoder that starts
  there runs into the end of the file.
\<close>

definition cutFrameAt :: "(u8 list \<Rightarrow> u16) \<Rightarrow> StreamInfo \<Rightarrow> u8 list \<Rightarrow> nat \<Rightarrow> bool" where
  "cutFrameAt cs si file q \<longleftrightarrow> q + 1 < length file \<and> syncAt (file ! q) (file ! (q + 1))
     \<and> fst (Decode cs si (NewReader (bytesReader (drop q file)) fcReset)) = Inl ErrUnexpectedEOF"

text \<open>How a decoder runs into the end of its input does not depend on the reader's history.\<close>

lemma Decode_cut_same:
  assumes "fst (Decode cs si rd) = Inl ErrUnexpectedEOF" "valid_info si"
    and rd: "wf_reader rd" "roff rd = 0" "rbytes rd = data" and ne: "data \<noteq> []"
  shows "fst (Decode cs si (NewReader (bytesReader data) fcReset)) = Inl ErrUnexpectedEOF"
proof -
  define z :: "frameCRC reader" where "z = NewReader (bytesReader data) fcReset"
  have z: "wf_reader z" "roff z = 0" "rend z = EOF" "rbytes rd = rbytes z @ []" "rbytes z \<noteq> []"
    using ne by (simp_all add: z_def NewReader_ok rd(3))
  then have b: "rbits z \<noteq> []" using aligned_length [OF z(2)] by auto
  obtain r z' where D: "Decode cs si z = (r, z')" by fastforce
  have "r \<noteq> Inl EOF" using Decode_EOF [OF z(1), of cs si] b D by simp
  then have "r = Inl ErrUnexpectedEOF"
    using Decode_prefix [OF z(1-3) EOF_external rd(1,2) z(4) assms(2) D] assms(1) by (auto simp: cutAt_def cutErr_def)
  then show ?thesis using D by (simp add: z_def)
qed

lemma findFrom_truncated:
  assumes "findFrom cs si i data rd = ((s, n, FrameTruncated, fo), rd')" "reusable rd" "valid_info si"
  shows "i \<le> s \<and> cutFrameAt cs si data (s - i)"
  using assms
proof (induction cs si i data rd rule: findFrom.induct)
  case (1 cs si i a b data rd)
  obtain x rd1 where D: "Decode cs si (Reset (bytesReader (a # b # data)) rd) = (x, rd1)" by fastforce
  note R = Reset_reusable [OF "1.prems"(2), of "a # b # data", simplified]
  have w: "reusable rd1" using Decode_wf [OF R(1) "1.prems"(3), of cs] by (simp add: D reusable_wf)
  have later: ?case if "i + 1 \<le> s \<and> cutFrameAt cs si (b # data) (s - (i + 1))"
  proof -
    have "s - i = Suc (s - (i + 1))" using that by arith
    then show ?thesis using that by (simp add: cutFrameAt_def)
  qed
  show ?case
  proof (cases "syncAt a b")
    case False
    then show ?thesis using "1.prems" by (intro later "1.IH"(1)) simp_all
  next
    case True
    show ?thesis
    proof (cases "x = Inl ErrUnexpectedEOF")
      case e: True
      then have "s = i" using "1.prems"(1) True D by simp
      moreover have "fst (Decode cs si (Reset (bytesReader (a # b # data)) rd)) = Inl ErrUnexpectedEOF" using D e by simp
      from Decode_cut_same [OF this "1.prems"(3) R(1,3,2)] have "cutFrameAt cs si (a # b # data) 0" using True by (simp add: cutFrameAt_def)
      ultimately show ?thesis by simp
    next
      case False
      then obtain e where e: "x = Inl e" "e \<noteq> ErrUnexpectedEOF" using "1.prems"(1) True D by (cases x) auto
      show ?thesis
        by (rule later, rule "1.IH"(2) [OF _ D [symmetric, unfolded e] refl e(2) _ w "1.prems"(3)]) (use "1.prems"(1) True D e in simp_all)
    qed
  qed
qed simp_all

lemma cutFrameAt_drop: "cutFrameAt cs si (drop b file) q \<Longrightarrow> cutFrameAt cs si file (b + q)"
  by (cases "b \<le> length file") (auto simp: cutFrameAt_def add.commute [of q])

section \<open>Seeking in a readable file\<close>

text \<open>A probe never fails in it, and one that reports a frame cut off has found it.\<close>

lemma probeFrom_answers:
  assumes "servesFile seek file" "reusable rd" "valid_info info" "probeFrom cs seek (length file) info b win rd = (res, rd')"
  shows "res \<noteq> ProbeErr e" "res = ProbeCut \<Longrightarrow> \<exists>q \<ge> b. cutFrameAt cs info file q"
proof -
  have "res \<noteq> ProbeErr e \<and> (res = ProbeCut \<longrightarrow> (\<exists>q \<ge> b. cutFrameAt cs info file q))"
    using assms
  proof (induction cs seek "length file" info b win rd rule: probeFrom.induct)
    case (1 cs seek info b win rd)
    show ?case
    proof (cases "b < length file \<and> 2 \<le> win")
      case False
      then have "probeFrom cs seek (length file) info b win rd = (ProbeNone, rd)" by (subst probeFrom.simps) (simp only: if_False)
      then show ?thesis using "1.prems"(4) by simp
    next
      case True
      then have b: "b \<le> length file" by simp
      obtain st rd1 where o: "probeOnce cs seek (length file) info b win rd = (st, rd1)" by fastforce
      show ?thesis
      proof (cases st)
        case (Again b1 win1)
        have "probeFrom cs seek (length file) info b1 win1 rd1 = (res, rd')"
          using "1.prems"(4) True o Again by (subst (asm) probeFrom.simps) simp
        from "1.hyps" [OF True o [symmetric] Again "1.prems"(1) probeOnce_reusable [OF o "1.prems"(2,3)] "1.prems"(3) this]
          probeOnce_Again(1) [OF o [unfolded Again]] True show ?thesis by (meson order_trans)
      next
        case (Answer x)
        obtain s len fres fo rd3 where F: "FindNextFrame cs rd (take win (drop b file)) info = ((s, len, fres, fo), rd3)" by (metis surj_pair)
        note p = o [unfolded Answer probeOnce_file [OF "1.prems"(1) b] F]
        have x: "x = res" using "1.prems"(4) True o Answer by (subst (asm) probeFrom.simps) simp
        have "\<exists>q \<ge> b. cutFrameAt cs info file q" if "x = ProbeCut"
        proof -
          have r: "fres = FrameTruncated" "length file \<le> b + win" using p that by (cases fres; auto split: if_splits)+
          have "take win (drop b file) = drop b file" using r(2) by simp
          from findFrom_truncated [OF F [unfolded FindNextFrame_def this r(1)] "1.prems"(2,3)] show ?thesis
            by (intro exI [of _ "b + s"]) (simp add: cutFrameAt_drop)
        qed
        moreover have "x \<noteq> ProbeErr e" using p by (cases fres) (auto split: if_splits)
        ultimately show ?thesis using x by blast
      qed
    qed
  qed
  then show "res \<noteq> ProbeErr e" "res = ProbeCut \<Longrightarrow> \<exists>q \<ge> b. cutFrameAt cs info file q" by simp_all
qed

lemma probe_answers:
  assumes "servesFile seek file" "de_streamEnd d = length file" "probeReady d" "probe cs seek b d = (res, d')"
  shows "res \<noteq> ProbeErr e" "res = ProbeCut \<Longrightarrow> \<exists>q \<ge> b. cutFrameAt cs (de_info d) file q"
  using probeFrom_answers [OF assms(1), of "de_resyncR d" "de_info d" cs b] assms(2-)
  by (auto simp: probe_def Let_def probeReady_def split: prod.splits)

text \<open>The searches only move on: what the binary search leaves to the scan is not before its lower bound.\<close>

lemma narrowFrames_from:
  assumes "narrowFrames cs seek target lo hi d = Some (Inr b, d')" "probeReady d"
  shows "lo \<le> b"
  using assms
proof (induction "hi - lo" arbitrary: lo hi d rule: less_induct)
  case less
  show ?case
  proof (cases "hi - lo > linearWindow")
    case False
    then show ?thesis using less.prems(1) by (subst (asm) narrowFrames.simps) simp
  next
    case True
    define mid where "mid = lo + (hi - lo) div 2"
    have mid: "lo < mid" "mid < hi" using True by (auto simp: mid_def linearWindow_def)
    obtain res d1 where P: "probe cs seek mid d = (res, d1)" by fastforce
    note p = probe_ok [OF P less.prems(2)]
    have on: "lo \<le> b" if "narrowFrames cs seek target lo' hi' d1 = Some (Inr b, d')" "hi' - lo' < hi - lo" "lo \<le> lo'" for lo' hi'
      using less.hyps [OF that(2,1) p(1)] that(3) by simp
    have run: "(case res of
         ProbeErr e \<Rightarrow> Some (Inl (SearchErr e), d1)
       | ProbeCut \<Rightarrow> narrowFrames cs seek target lo mid d1
       | ProbeNone \<Rightarrow> narrowFrames cs seek target lo mid d1
       | ProbeFound start stop fr \<Rightarrow>
           let f = firstSample d1 fr
           in if f > target then narrowFrames cs seek target lo (if start \<ge> hi then mid else start) d1
              else if target \<ge> f + fr_BlockSize fr then narrowFrames cs seek target stop hi d1
              else Some (Inl (Landing start f), d1)) = Some (Inr b, d')"
      using less.prems(1) by (subst (asm) narrowFrames.simps) (simp add: True P Let_def flip: mid_def split: probeResult.splits)
    show ?thesis
    proof (cases res)
      case (ProbeFound start stop fr)
      have b: "lo < start" "lo < stop" using p(3) [OF ProbeFound] mid by simp_all
      then have "hi - stop < hi - lo" "(if start \<ge> hi then mid else start) - lo < hi - lo" using mid by auto
      then show ?thesis using on [of lo "if start \<ge> hi then mid else start"] on [of stop hi] run b
        by (auto simp: ProbeFound Let_def split: if_splits)
    qed (use on [of lo mid] run mid in auto)
  qed
qed

lemma seekBounds_from: "seekBounds i d = (lo, hi) \<Longrightarrow> de_audioStart d \<le> lo"
proof -
  assume b: "seekBounds i d = (lo, hi)"
  have step: "a \<le> fst (narrowPoint a e i p c)" if "a \<le> fst c" for a e p c
    using that by (auto simp: narrowPoint_def Let_def)
  have "a \<le> fst (fold (narrowPoint a e i) ps c)" if "a \<le> fst c" for a e ps c
    using that by (induction ps arbitrary: c) (simp_all add: step)
  then have "de_audioStart d \<le> fst (seekBounds i d)" by (simp add: seekBounds_def narrowBySeekTable_def)
  then show ?thesis by (simp add: b)
qed

lemma scanFrames_error:
  assumes "servesFile seek file" "de_streamEnd d = length file" "probeReady d" "scanFrames cs seek target b last_end d = Some (SearchErr e, d')"
  shows "e = errSeekFrameCut \<and> (\<exists>q \<ge> b. cutFrameAt cs (de_info d) file q)"
  using assms(2-)
proof (induction "de_streamEnd d - b" arbitrary: b last_end d rule: less_induct)
  case less
  obtain res d1 where P: "probe cs seek b d = (res, d1)" by fastforce
  note p = probe_ok [OF P less.prems(2)] and a = probe_answers [OF assms(1) less.prems(1,2) P]
  obtain rd where d1: "d1 = d\<lparr>de_resyncR := rd\<rparr>" using p(2) by blast
  have run: "(case res of
        ProbeErr e \<Rightarrow> Some (SearchErr e, d1)
      | ProbeCut \<Rightarrow> Some (SearchErr errSeekFrameCut, d1)
      | ProbeNone \<Rightarrow> Some (PastEnd last_end, d1)
      | ProbeFound start stop fr \<Rightarrow>
          let f = firstSample d1 fr; endSample = f + fr_BlockSize fr
          in if f \<le> target \<and> target < endSample then Some (Landing start f, d1)
             else if f > target then Some (Landing start f, d1)
             else scanFrames cs seek target stop endSample d1) = Some (SearchErr e, d')"
    using less.prems(3) by (subst (asm) scanFrames.simps) (simp add: P)
  show ?case
  proof (cases res)
    case (ProbeErr x)
    then show ?thesis using a(1) by blast
  next
    case ProbeCut
    then show ?thesis using a(2) run by simp
  next
    case (ProbeFound s stop fr)
    have b: "b < stop" "de_streamEnd d1 - stop < de_streamEnd d - b" using p(3) [OF ProbeFound] by (auto simp: d1)
    moreover have "scanFrames cs seek target stop (firstSample d1 fr + fr_BlockSize fr) d1 = Some (SearchErr e, d')"
      using run by (auto simp: ProbeFound Let_def split: if_splits)
    ultimately have "e = errSeekFrameCut \<and> (\<exists>q \<ge> stop. cutFrameAt cs (de_info d) file q)"
      using less.hyps [of d1 stop] less.prems(1) p(1) by (simp add: d1)
    then show ?thesis using b(1) by (meson less_imp_le order_trans)
  qed (use run in simp_all)
qed

lemma searchFrame_error:
  assumes srv: "servesFile seek file" "de_streamEnd d = length file" and r: "probeReady d"
    and s: "searchFrame cs seek target lo hi d = Some (SearchErr e, d')"
  shows "e = errSeekFrameCut \<and> (\<exists>q \<ge> lo. cutFrameAt cs (de_info d) file q)"
proof -
  obtain x d1 rd where n: "narrowFrames cs seek target lo hi d = Some (x, d1)" "probeReady d1" "d1 = d\<lparr>de_resyncR := rd\<rparr>"
    using narrowFrames_returns [OF r] by blast
  show ?thesis
  proof (cases x)
    case (Inl y)
    then have "y = SearchErr e" using s n(1) by (simp add: searchFrame_def)
    then obtain b z d2 where P: "probe cs seek b (d\<lparr>de_resyncR := z\<rparr>) = (ProbeErr e, d2)" "probeReady (d\<lparr>de_resyncR := z\<rparr>)"
      using narrowFrames_answer [OF n(1) r, of "\<lambda>_. True"] Inl by (auto simp: answers_def)
    then show ?thesis using probe_answers(1) [OF srv(1) _ P(2,1), of e] srv(2) by simp
  next
    case (Inr b)
    then have "scanFrames cs seek target b 0 d1 = Some (SearchErr e, d')" using s n(1) by (simp add: searchFrame_def)
    moreover have "lo \<le> b" using narrowFrames_from [OF n(1) [unfolded Inr] r] .
    ultimately show ?thesis using scanFrames_error [OF srv(1) _ n(2)] srv(2) n(3) order_trans by fastforce
  qed
qed

text \<open>
  What a seek to a target that is not refused comes to: a sample, or, with nothing pending, the error of
  a frame that the file cuts off behind its metadata.
\<close>

definition seekAnswer :: "(u8 list \<Rightarrow> u16) \<Rightarrow> u8 list \<Rightarrow> Decoder \<Rightarrow> err + int \<Rightarrow> Decoder \<Rightarrow> bool" where
  "seekAnswer cs file d r d' \<longleftrightarrow> (\<exists>n. r = Inr n \<and> de_err d' = None)
     \<or> r = Inl errSeekFrameCut \<and> de_err d' = Some errSeekFrameCut \<and> de_pending d' = []
       \<and> (\<exists>q \<ge> de_audioStart d. cutFrameAt cs (de_info d) file q)"

lemma seekFrom_outcome:
  assumes u: "usable d" "de_seekable d" and srv: "servesFile seek file" "de_streamEnd d = length file"
  shows "\<exists>r d'. seekFrom cs seek count i d = Some (r, d') \<and> seekAnswer cs file d r d'"
proof -
  note ready = usable_ready [OF u]
  obtain lo hi where b: "seekBounds i d = (lo, hi)" by fastforce
  from searchFrame_returns [OF ready, of cs seek "nat i" lo hi] obtain x d2 rd where
    F: "searchFrame cs seek (nat i) lo hi d = Some (x, d2)" "probeReady d2" "d2 = d\<lparr>de_resyncR := rd\<rparr>" by blast
  show ?thesis
  proof (cases x)
    case (SearchErr e)
    then have "e = errSeekFrameCut" "\<exists>q \<ge> lo. cutFrameAt cs (de_info d) file q"
      using searchFrame_error [OF srv ready, of cs "nat i" lo hi] F(1) by simp_all
    moreover have "de_audioStart d \<le> lo" using seekBounds_from [OF b] .
    ultimately show ?thesis using order_trans by (fastforce simp: seekFrom_def b F(1) SearchErr seekFailed_def seekAnswer_def)
  next
    case (PastEnd n)
    then show ?thesis by (simp add: seekFrom_def b F(1) seekToEnd_def seekAnswer_def)
  next
    case (Landing start f)
    from searchFrame_landing [OF F(1) [unfolded Landing] ready]
    have "probed cs seek d (\<lambda>a b fr. a = start \<and> (f = firstSample d fr \<and> nat i < f + fr_BlockSize fr))" .
    from probed_file [OF this srv] obtain fr where
      fr: "start < length file" "nat i < f + fr_BlockSize fr"
        "\<And>rd. wf_reader rd \<Longrightarrow> roff rd = 0 \<Longrightarrow> rbytes rd = drop start file \<Longrightarrow> fst (Decode cs (de_info d) rd) = Inr fr"
      by (metis fst_conv)
    have u2: "usable d2" "de_seekable d2" "de_info d2 = de_info d" using usable_resync [OF u(1), of rd] u(2) F(2,3) by (auto simp: probeReady_def)
    from landAt_file [OF u2(1,2) srv(1) fr(1) _ fr(2), of cs] fr(3) obtain d3 where
      "landAt cs seek start (nat i) f d2 = Some (Inr (max (nat i) f), d3)" "de_err d3 = None" unfolding u2(3) by fastforce
    then show ?thesis by (simp add: seekFrom_def b F(1) Landing seekAnswer_def)
  qed
qed

lemma SeekToSample_outcome:
  assumes u: "usable d" "de_seekable d" and srv: "servesFile seek file" "de_streamEnd d = length file"
    and i: "0 \<le> i" "\<not> (sint (si_TotalSamples (de_info d)) > 0 \<and> i \<ge> sint (si_TotalSamples (de_info d)))"
  shows "\<exists>r d'. SeekToSample cs seek i d = Some (r, d') \<and> seekAnswer cs file d r d'"
proof -
  obtain r1 d1 where n: "(if de_nominalBlock d \<le> 0 then ensureNominalBlock cs seek d else (None, d)) = (r1, d1)" by fastforce
  note k = ensureNominalBlock_keeps [OF n u]
  obtain res d0 where P: "probe cs seek (de_audioStart d) d = (res, d0)" by fastforce
  note p = probe_ok(1,2) [OF P usable_ready [OF u]]
  have "\<not> (\<exists>e. res = ProbeErr e)" using P probe_answers(1) [OF srv usable_ready [OF u]] by blast
  then have "r1 = None \<and> (d1 = d \<or> d1 = d0 \<or> (\<exists>k. d1 = d0\<lparr>de_nominalBlock := k\<rparr>))"
    using n by (cases res) (auto simp: ensureNominalBlock_def P split: if_splits)
  then have d1: "r1 = None" "de_streamEnd d1 = length file" "de_info d1 = de_info d" "de_audioStart d1 = de_audioStart d"
    using p(2) srv(2) by auto
  from seekFrom_outcome [OF k srv(1) d1(2), of cs "sint (si_TotalSamples (de_info d))" i] obtain r d' where
    "seekFrom cs seek (sint (si_TotalSamples (de_info d))) i d1 = Some (r, d')" "seekAnswer cs file d1 r d'" by blast
  then show ?thesis using n i u(2) d1 by (auto simp: SeekToSample_def Let_def seekAnswer_def)
qed

section \<open>A seek never panics\<close>

text \<open>
  A file whose reads may fail: a seek may be refused, and what is read from an offset are bytes of the file
  from there, up to an end that may come early or with any error. That much is needed, since a landing
  drops as many samples as the frame had that the probe found: it has to be there again.
\<close>

definition deliversFile :: "(nat \<Rightarrow> err + chunk list) \<Rightarrow> u8 list \<Rightarrow> bool" where
  "deliversFile seek file \<longleftrightarrow> (\<forall>b src. seek b = Inr src \<longrightarrow> (\<exists>rest. drop b file = src_all src @ rest) \<and> \<not> internalErr (snd (src_bytes 0 src)))"

lemma readFull_prefix: "\<exists>rest. src_all src = fst (readFull n src) @ rest"
proof (induction n src rule: readFull.induct)
  case (2 n bs e cs)
  then show ?case
    by (cases e; cases "n = 0"; cases "n \<le> length bs") (auto split: prod.split simp: prod_eq_iff intro: exI [of _ "drop n bs @ src_all cs"])
qed simp

lemma deliversFile_window:
  assumes "deliversFile seek file" "seek b = Inr src"
  obtains rest where "drop b file = fst (readFull n src) @ rest"
  using assms readFull_prefix [of src n] unfolding deliversFile_def by (metis append_assoc)

lemma deliversFile_bytes:
  assumes "deliversFile seek file" "seek b = Inr src"
  obtains rest where "drop b file = fst (src_bytes 0 src) @ rest"
  using assms src_bytes_src_all [of src 0] unfolding deliversFile_def by (metis append_assoc)

text \<open>The frame a probe found is decoded from any reader of the file at its offset.\<close>

lemma probeOnce_decodes:
  assumes "probeOnce cs seek streamEnd info b win rd = (Answer (ProbeFound start stop fr), rd')" "deliversFile seek file" "reusable rd" "valid_info info"
    and "wf_reader rd2" "roff rd2 = 0" "rbytes rd2 = drop start file"
  shows "fst (Decode cs info rd2) = Inr fr"
proof -
  let ?n = "min (streamEnd - b) win"
  obtain src where s: "seek b = Inr src" using assms(1) by (cases "seek b") (auto simp: probeOnce_def Let_def)
  obtain buf rerr where r: "readFull ?n src = (buf, rerr)" by fastforce
  obtain st len res fo rd3 where F: "FindNextFrame cs rd buf info = ((st, len, res, fo), rd3)" by (metis surj_pair)
  have e: "res = FrameFound" "start = b + st" "fr = the fo"
    using assms(1) by (cases res; auto simp: probeOnce_def Let_def s r F split: if_splits)+
  obtain rest where d: "drop b file = buf @ rest" using deliversFile_window [OF assms(2) s, of ?n] r by auto
  have "drop start file = drop st (drop b file)" by (simp add: e(2) add.commute)
  then have "rbytes rd2 = drop (st - 0) buf @ drop (st - length buf) rest" using assms(7) by (simp add: d)
  from findFrom_decodes [OF F [unfolded FindNextFrame_def e(1)] assms(3-6) this] show ?thesis using e(3) by auto
qed

lemma probeFrom_decodes:
  assumes "probeFrom cs seek streamEnd info b win rd = (ProbeFound start stop fr, rd')" "deliversFile seek file" "reusable rd" "valid_info info"
    and "wf_reader rd2" "roff rd2 = 0" "rbytes rd2 = drop start file"
  shows "fst (Decode cs info rd2) = Inr fr"
  using assms
proof (induction cs seek streamEnd info b win rd rule: probeFrom.induct)
  case (1 cs seek streamEnd info b win rd)
  show ?case
  proof (cases "b < streamEnd \<and> 2 \<le> win")
    case False
    then have "probeFrom cs seek streamEnd info b win rd = (ProbeNone, rd)" by (subst probeFrom.simps) (simp only: if_False)
    then show ?thesis using "1.prems"(1) by simp
  next
    case True
    obtain st rd1 where o: "probeOnce cs seek streamEnd info b win rd = (st, rd1)" by fastforce
    show ?thesis
    proof (cases st)
      case (Again b1 win1)
      then have "probeFrom cs seek streamEnd info b1 win1 rd1 = (ProbeFound start stop fr, rd')"
        using "1.prems"(1) True o by (subst (asm) probeFrom.simps) simp
      from "1.IH" [OF True o [symmetric] Again this "1.prems"(2) probeOnce_reusable [OF o "1.prems"(3,4)] "1.prems"(4-7)] show ?thesis .
    next
      case (Answer r)
      then have "r = ProbeFound start stop fr" using "1.prems"(1) True o by (subst (asm) probeFrom.simps) simp
      then show ?thesis using probeOnce_decodes [OF _ "1.prems"(2-7)] o Answer by blast
    qed
  qed
qed

lemma probed_decodes:
  assumes "probed cs seek d (\<lambda>a b fr. a = start \<and> P b fr)" "deliversFile seek file"
  obtains fr stop where "P stop fr" "\<And>rd. wf_reader rd \<Longrightarrow> roff rd = 0 \<Longrightarrow> rbytes rd = drop start file \<Longrightarrow> fst (Decode cs (de_info d) rd) = Inr fr"
proof -
  obtain b z stop fr d' where p: "probeReady (d\<lparr>de_resyncR := z\<rparr>)" "probe cs seek b (d\<lparr>de_resyncR := z\<rparr>) = (ProbeFound start stop fr, d')" "P stop fr"
    using assms(1) unfolding probed_def by blast
  let ?win = "min (max (2 * de_maxFrame d) probeChunkDefault) maxProbeWindow"
  obtain rd' where "probeFrom cs seek (de_streamEnd d) (de_info d) b ?win z = (ProbeFound start stop fr, rd')"
    using p(2) by (auto simp: probe_def Let_def split: prod.splits)
  from probeFrom_decodes [OF this assms(2)] p(1) show thesis by (intro that [OF p(3)]) (simp add: probeReady_def)
qed

lemma landAt_returns:
  assumes u: "usable d" "de_seekable d" and srv: "deliversFile seek file"
    and fr: "\<And>rd. wf_reader rd \<Longrightarrow> roff rd = 0 \<Longrightarrow> rbytes rd = drop start file \<Longrightarrow> fst (Decode cs (de_info d) rd) = Inr fr"
    and t: "target < fs + fr_BlockSize fr"
  shows "\<exists>r d'. landAt cs seek start target fs d = Some (r, d')"
proof (cases "seek start")
  case (Inl e)
  then show ?thesis by (simp add: landAt_def)
next
  case (Inr src)
  define br where "br = (case de_br d of None \<Rightarrow> NewReaderSize src streamReadBlock fcReset | Some br \<Rightarrow> br)"
  have "reusable br" using u(1) reusable_wf NewReaderSize_ok(1) [of src streamReadBlock fcReset]
    by (auto simp: br_def usable_def split: option.split)
  note r = ResetAt_ok [OF this, of src start]
  have v: "valid_info (de_info d)" "de_bytesPS d = (si_BitDepth (de_info d) + 7) div 8" using u by (simp_all add: usable_def)
  obtain x br' where D: "Decode cs (de_info d) (ResetAt src start br) = (x, br')" by fastforce
  show ?thesis
  proof (cases x)
    case (Inl e)
    then show ?thesis unfolding landAt_def Inr sum.case br_def [symmetric] Let_def by (simp add: D)
  next
    case (Inr fr')
    obtain rest where d: "drop start file = fst (src_bytes 0 src) @ rest" using deliversFile_bytes [OF srv \<open>seek start = Inr src\<close>] .
    define z :: "frameCRC reader" where "z = NewReader (bytesReader (drop start file)) fcReset"
    have z: "wf_reader z" "roff z = 0" "rbytes z = rbytes (ResetAt src start br) @ rest" unfolding z_def by (simp_all add: NewReader_ok r(3) d)
    have "\<not> internalErr (rend (ResetAt src start br))" using srv \<open>seek start = Inr src\<close> unfolding r(4) deliversFile_def by blast
    from Decode_window [OF D [unfolded Inr] r(1,2) this z v(1)] fr [OF z(1,2)] have f: "fr' = fr" by (simp add: z(3) r(3) d)
    have "frame_ok fr" using Decode_accepts(1) [OF D [unfolded Inr f] r(1,2) v(1)] .
    then have rows: "frame_rows fr" by (auto simp: frame_rows_def frame_ok_def samples_ok_def)
    define d1 where "d1 = d\<lparr>de_seeked := True, de_done := False, de_err := None, de_br := Some br'\<rparr>"
    obtain buf d2 where P: "packFrame False fr d1 = (buf, d2)" by fastforce
    have "(max target fs - fs) \<le> fr_BlockSize fr" using t by (auto simp: max_def)
    moreover have "de_bytesPS d1 = (si_BitDepth (de_info d1) + 7) div 8" using v(2) by (simp add: d1_def)
    ultimately have "(max target fs - fs) * length (fr_Channels fr) * ((de_outBits d1 + 7) div 8) \<le> length buf"
      by (subst packFrame_length [OF P rows]) (assumption, intro mult_le_mono1)
    moreover have "d2 = d1" using packFrame_fields [OF P] by simp
    ultimately show ?thesis
      unfolding landAt_def \<open>seek start = Inr src\<close> sum.case br_def [symmetric] Let_def using P by (simp add: D Inr f d1_def)
  qed
qed

lemma seekFrom_returns:
  assumes "usable d" "de_seekable d" "deliversFile seek file"
  shows "\<exists>r d'. seekFrom cs seek count i d = Some (r, d')"
proof -
  obtain lo hi where b: "seekBounds i d = (lo, hi)" by fastforce
  note ready = usable_ready [OF assms(1,2)]
  from searchFrame_returns [OF ready, of cs seek "nat i" lo hi] obtain x d2 rd where
    F: "searchFrame cs seek (nat i) lo hi d = Some (x, d2)" "probeReady d2" "d2 = d\<lparr>de_resyncR := rd\<rparr>" by blast
  show ?thesis
  proof (cases x)
    case (Landing start f)
    from searchFrame_landing [OF F(1) [unfolded Landing] ready]
    have "probed cs seek d (\<lambda>a b fr. a = start \<and> (f = firstSample d fr \<and> nat i < f + fr_BlockSize fr))" .
    from probed_decodes [OF this assms(3)] obtain fr where
      fr: "nat i < f + fr_BlockSize fr" "\<And>rd. wf_reader rd \<Longrightarrow> roff rd = 0 \<Longrightarrow> rbytes rd = drop start file \<Longrightarrow> fst (Decode cs (de_info d) rd) = Inr fr"
      by blast
    have u2: "usable d2" "de_seekable d2" "de_info d2 = de_info d"
      using usable_resync [OF assms(1), of rd] assms(2) F(2,3) by (auto simp: probeReady_def)
    from landAt_returns [OF u2(1,2) assms(3) _ fr(1), of start cs] fr(2) obtain y d3 where
      "landAt cs seek start (nat i) f d2 = Some (y, d3)" unfolding u2(3) by blast
    then show ?thesis by (cases y) (simp_all add: seekFrom_def b F(1) Landing seekFailed_def)
  qed (simp_all add: seekFrom_def b F(1) seekFailed_def seekToEnd_def)
qed

lemma SeekToSample_returns:
  assumes "usable d" "deliversFile seek file"
  shows "\<exists>r d'. SeekToSample cs seek i d = Some (r, d')"
proof (cases "de_seekable d")
  case True
  obtain r1 d1 where n: "(if de_nominalBlock d \<le> 0 then ensureNominalBlock cs seek d else (None, d)) = (r1, d1)" by fastforce
  note d1 = ensureNominalBlock_keeps [OF n assms(1) True]
  from seekFrom_returns [OF d1 assms(2), of cs "sint (si_TotalSamples (de_info d))" i] n show ?thesis
    by (cases r1) (auto simp: SeekToSample_def Let_def True seekToEnd_def seekFailed_def)
qed (simp add: SeekToSample_def Let_def)

end
