(* ===== verification/Pcm_Encoder.thy ===== *)
theory Pcm_Encoder
  imports Pcm_Frames "HOL-Library.Signed_Division"
begin

text \<open>
  The stream encoder (\<open>pcm/encoder.go\<close>, \<open>pcm/encode_oneshot.go\<close>, \<open>WriteStreamHeaderEx\<close> of
  \<open>internal/meta/encode.go\<close>). The sink is a parameter: what its \<open>Write\<close> and \<open>Seek\<close> do to a
  state of its own. A plain \<open>io.Writer\<close> has no \<open>Seek\<close>. The boundaries of seek points, \<open>int64\<close> in
  the code, are unbounded here: they exceed the sample number by at most one interval.
\<close>

section \<open>Sinks\<close>

datatype seekTo = SeekStart nat | SeekEnd

record 's sink =
  snk_write :: "u8 list \<Rightarrow> 's \<Rightarrow> err option \<times> 's"
  snk_seek :: "(seekTo \<Rightarrow> 's \<Rightarrow> err option \<times> 's) option"

definition seekable :: "'s sink \<Rightarrow> bool" where
  "seekable w \<longleftrightarrow> snk_seek w \<noteq> None"

text \<open>A run of writes and seeks that stops at the first error.\<close>

datatype sinkOp = OpWrite "u8 list" | OpSeek seekTo

fun doOp :: "'s sink \<Rightarrow> sinkOp \<Rightarrow> 's \<Rightarrow> err option \<times> 's" where
  "doOp w (OpWrite b) s = snk_write w b s"
| "doOp w (OpSeek t) s = (case snk_seek w of Some seek \<Rightarrow> seek t s | None \<Rightarrow> (Some ErrPanic, s))"

fun runOps :: "'s sink \<Rightarrow> sinkOp list \<Rightarrow> 's \<Rightarrow> err option \<times> 's" where
  "runOps w [] s = (None, s)"
| "runOps w (x # xs) s = (case doOp w x s of (Some e, s) \<Rightarrow> (Some e, s) | (None, s) \<Rightarrow> runOps w xs s)"

section \<open>The encoder\<close>

record 'f Encoder = "'f encState" +
  en_seekable :: bool
  en_leftover :: "u8 list"
  en_seekInterval :: int
  en_seekMaxPoints :: int
  en_seekBodyOff :: nat
  en_audioBytes :: nat
  en_points :: "SeekPoint list"
  en_nextBoundary :: int
  en_closed :: bool

definition defaultSeekMaxPoints :: int where "defaultSeekMaxPoints = 4096"
definition maxSeekPoints :: int where "maxSeekPoints = (2 ^ 24 - 1) div int SeekPointBytes"

definition streamStart :: "u8 list \<Rightarrow> bool \<Rightarrow> sinkOp" where
  "streamStart body isLast = OpWrite (markFLaC @ EncodeBlockHeader isLast typeStreamInfo (length body) @ body)"

definition commentOps :: "u8 list option \<Rightarrow> bool \<Rightarrow> sinkOp list" where
  "commentOps vcBody isLast =
     (case vcBody of
        None \<Rightarrow> []
      | Some b \<Rightarrow> [OpWrite (EncodeBlockHeader isLast TypeVorbisComment (length b)), OpWrite b])"

definition seekMaxPointsFor :: "Config \<Rightarrow> int" where
  "seekMaxPointsFor cfg =
     (let n = cf_SeekTableMaxPoints cfg; n = (if n \<le> 0 then defaultSeekMaxPoints else n) in min n maxSeekPoints)"

definition writeInitialMetadata :: "'s sink \<Rightarrow> 'f Encoder \<times> 's \<Rightarrow> err option \<times> 'f Encoder \<times> 's" where
  "writeInitialMetadata w st =
     (case st of (e, s) \<Rightarrow>
       let cfg = es_cfg e
       in case (if wantVorbisComment cfg then map_sum id Some (buildVorbisComment cfg) else Inr None) of
            Inl err \<Rightarrow> (Some err, e, s)
          | Inr vcBody \<Rightarrow>
              if cf_SeekTableInterval cfg > 0 then
                (if \<not> en_seekable e then (Some ErrUsage, e, s)
                 else
                   let e = e\<lparr>en_seekInterval := cf_SeekTableInterval cfg, en_seekMaxPoints := seekMaxPointsFor cfg,
                             en_nextBoundary := cf_SeekTableInterval cfg\<rparr>;
                       siBody = EncodeStreamInfo (es_si e) 0 0 0 0;
                       stBody = SeekTablePlaceholder (nat (en_seekMaxPoints e));
                       vcLen = (case vcBody of None \<Rightarrow> 0 | Some b \<Rightarrow> 4 + length b)
                   in case runOps w ([streamStart siBody False] @ commentOps vcBody False
                               @ [OpWrite (EncodeBlockHeader False TypeSeekTable (length stBody))]) s of
                        (Some err, s) \<Rightarrow> (Some err, e, s)
                      | (None, s) \<Rightarrow>
                          let e = e\<lparr>en_seekBodyOff := StreamInfoBodyOffset + StreamInfoBodyLen + vcLen + 4\<rparr>
                          in case runOps w [OpWrite stBody, OpWrite (EncodeBlockHeader True TypePadding 0)] s of
                               (err, s) \<Rightarrow> (err, e, s))
              else
                let blk = upfrontBlockSize (en_seekable e) cfg;
                    siBody = EncodeStreamInfo (es_si e) blk blk 0 0
                in case runOps w (streamStart siBody (vcBody = None) # commentOps vcBody True) s of
                     (err, s) \<Rightarrow> (err, e, s))"

text \<open>
  \<open>init\<close>: \<open>prev\<close> is the encoder before, \<open>None\<close> a zero value. The workspace of a previous stream of
  the same shape is used again.
\<close>

definition initEncoder ::
  "'f float64 \<Rightarrow> 's sink option \<Rightarrow> Config \<Rightarrow> u8 list option \<Rightarrow> 'f Encoder option \<times> 's \<Rightarrow> err option \<times> 'f Encoder option \<times> 's" where
  "initEncoder F w cfg knownMD5 st =
     (case st of (prev, s) \<Rightarrow>
       case w of
         None \<Rightarrow> (Some ErrUsage, prev, s)
       | Some w \<Rightarrow>
       case validateConfig cfg of
         Some err \<Rightarrow> (Some err, prev, s)
       | None \<Rightarrow>
           let params = paramsForLevel (cf_CompressionLevel cfg);
               fresh = NewWorkspace F encoderBlockSize (nat (cf_Channels cfg)) (p_MaxLPCOrder params);
               work = (case prev of
                         None \<Rightarrow> fresh
                       | Some p \<Rightarrow> if cf_Channels (es_cfg p) = cf_Channels cfg \<and> p_MaxLPCOrder (es_params p) = p_MaxLPCOrder params
                                  then es_work p else fresh);
               si = (case knownMD5 of None \<Rightarrow> cfgInfo cfg | Some m \<Rightarrow> (cfgInfo cfg)\<lparr>si_MD5 := m\<rparr>);
               e = \<lparr>es_cfg = cfg, es_si = si, es_params = params, es_bytesPS = cfgBytesPS cfg,
                    es_frameLen = cfgBytesPS cfg * nat (cf_Channels cfg),
                    es_bw = (case prev of None \<Rightarrow> NewWriter | Some p \<Rightarrow> wReset (es_bw p)), es_work = work,
                    es_md5 = [], es_skipHash = (knownMD5 \<noteq> None \<or> cf_SkipMD5 cfg), es_frameNum = 0, es_total = 0,
                    es_sizes = noSizes, en_seekable = seekable w, en_leftover = [], en_seekInterval = 0, en_seekMaxPoints = 0,
                    en_seekBodyOff = 0, en_audioBytes = 0, en_points = [], en_nextBoundary = 0, en_closed = False\<rparr>
           in case writeInitialMetadata w (e, s) of (err, e, s) \<Rightarrow> (err, Some e, s))"

text \<open>\<open>NewEncoder\<close>, and \<open>Reset\<close> of an encoder that may be a zero value.\<close>

definition NewEncoder :: "'f float64 \<Rightarrow> 's sink option \<Rightarrow> Config \<Rightarrow> 's \<Rightarrow> (err + 'f Encoder) \<times> 's" where
  "NewEncoder F w cfg s =
     (case initEncoder F w cfg None (None, s) of
        (Some err, _, s) \<Rightarrow> (Inl err, s)
      | (None, Some e, s) \<Rightarrow> (Inr e, s)
      | (None, None, s) \<Rightarrow> (Inl ErrPanic, s))"

definition resetEncoder ::
  "'f float64 \<Rightarrow> 's sink option \<Rightarrow> Config \<Rightarrow> 'f Encoder option \<times> 's \<Rightarrow> err option \<times> 'f Encoder option \<times> 's" where
  "resetEncoder F w cfg st = initEncoder F w cfg None st"

definition recordPoint :: "nat \<Rightarrow> 'f Encoder \<Rightarrow> 'f Encoder" where
  "recordPoint n e =
     (let firstSample = es_total e; frameOffset = en_audioBytes e; due = (sint firstSample \<ge> en_nextBoundary e)
      in if en_seekInterval e > 0 \<and> int (length (en_points e)) < en_seekMaxPoints e \<and> (frameOffset = 0 \<or> due) then
           let e = e\<lparr>en_points := en_points e @ [\<lparr>sk_SampleNumber = firstSample, sk_ByteOffset = of_nat frameOffset,
                                                    sk_FrameSamples = of_nat n\<rparr>]\<rparr>
           in if due then
                e\<lparr>en_nextBoundary := en_nextBoundary e
                    + ((sint firstSample - en_nextBoundary e) div en_seekInterval e + 1) * en_seekInterval e\<rparr>
              else e
         else e)"

definition emitBlock ::
  "'f float64 \<Rightarrow> (u8 list \<Rightarrow> u16) \<Rightarrow> 's sink \<Rightarrow> u8 list \<Rightarrow> nat \<Rightarrow> bool
   \<Rightarrow> 'f Encoder \<times> 's \<Rightarrow> err option \<times> 'f Encoder \<times> 's" where
  "emitBlock F cs w chunk n final st =
     (case st of (e, s) \<Rightarrow>
       case encodeChunk F cs chunk n e of
         None \<Rightarrow> (Some ErrPanic, e, s)
       | Some (buf, e) \<Rightarrow>
           (case snk_write w buf s of
              (Some err, s) \<Rightarrow> (Some err, e, s)
            | (None, s) \<Rightarrow>
                let e = recordPoint n (hashChunk chunk e);
                    e = e\<lparr>en_audioBytes := en_audioBytes e + length buf\<rparr>
                in (None, countFrame (length buf) n final e, s)))"

text \<open>The count of \<open>Write\<close>: on a failure, the bytes of \<open>p\<close> in the blocks already handed over.\<close>

definition enWrite ::
  "'f float64 \<Rightarrow> (u8 list \<Rightarrow> u16) \<Rightarrow> 's sink \<Rightarrow> u8 list \<Rightarrow> 'f Encoder \<times> 's \<Rightarrow> nat \<times> err option \<times> 'f Encoder \<times> 's" where
  "enWrite F cs w p st =
     (case st of (e, s) \<Rightarrow>
       if en_closed e then (0, Some ErrEncoderClosed, e, s)
       else
         let blockBytes = encoderBlockSize * es_frameLen e; l = en_leftover e
         in case joinBlocks (\<lambda>chunk. emitBlock F cs w chunk encoderBlockSize False) blockBytes l p (e, s) of
              (err, leftover, k, e, s) \<Rightarrow>
                (if err = None then length p
                 else if length l > 0 then (if k = 0 then 0 else blockBytes - length l + (k - 1) * blockBytes)
                 else k * blockBytes,
                 err, e\<lparr>en_leftover := leftover\<rparr>, s))"

text \<open>What \<open>Close\<close> does to a seekable sink once the last block is out.\<close>

definition finalInfo :: "(u8 list \<Rightarrow> u8 list) \<Rightarrow> 'f Encoder \<Rightarrow> StreamInfo" where
  "finalInfo md5 e =
     (let si = (es_si e)\<lparr>si_TotalSamples := es_total e\<rparr>
      in if \<not> es_skipHash e then si\<lparr>si_MD5 := md5 (es_md5 e)\<rparr> else si)"

definition patchOps :: "(u8 list \<Rightarrow> u8 list) \<Rightarrow> 'f Encoder \<Rightarrow> sinkOp list" where
  "patchOps md5 e =
     (let z = es_sizes e;
          body = EncodeStreamInfo (finalInfo md5 e) (max (fz_minBlock z) minStreamInfoBlockSize)
                   (max (fz_maxBlock z) minStreamInfoBlockSize) (fz_minFrame z) (fz_maxFrame z);
          used = length (en_points e); off = en_seekBodyOff e
      in [OpSeek (SeekStart StreamInfoBodyOffset), OpWrite body]
         @ (if en_seekInterval e > 0 then
              [OpSeek (SeekStart off), OpWrite (EncodeSeekPoints (en_points e))]
              @ (if int used < en_seekMaxPoints e then
                   [OpSeek (SeekStart (off - 4)), OpWrite (EncodeBlockHeader False TypeSeekTable (used * SeekPointBytes)),
                    OpSeek (SeekStart (off + used * SeekPointBytes)),
                    OpWrite (EncodeBlockHeader True TypePadding ((nat (en_seekMaxPoints e) - used) * SeekPointBytes))]
                 else [])
            else [])
         @ [OpSeek SeekEnd])"

definition enClose ::
  "'f float64 \<Rightarrow> (u8 list \<Rightarrow> u16) \<Rightarrow> (u8 list \<Rightarrow> u8 list) \<Rightarrow> 's sink \<Rightarrow> 'f Encoder \<times> 's \<Rightarrow> err option \<times> 'f Encoder \<times> 's" where
  "enClose F cs md5 w st =
     (case st of (e, s) \<Rightarrow>
       if en_closed e then (None, e, s)
       else
         let e = e\<lparr>en_closed := True\<rparr>; leftover = en_leftover e;
             finish = (\<lambda>(e, s).
               let e = e\<lparr>en_leftover := []\<rparr>
               in case declaredTotal e of
                    Some err \<Rightarrow> (Some err, e, s)
                  | None \<Rightarrow>
                      if \<not> en_seekable e then (None, e, s)
                      else case runOps w (patchOps md5 e) s of (err, s) \<Rightarrow> (err, e, s))
         in if length leftover > 0 then
              (if length leftover mod es_frameLen e \<noteq> 0 then (Some ErrUsage, e, s)
               else case emitBlock F cs w leftover (length leftover div es_frameLen e) True (e, s) of
                      (Some err, st) \<Rightarrow> (Some err, st)
                    | (None, st) \<Rightarrow> finish st)
            else finish (e, s))"

text \<open>
  \<open>EncodeInterleaved\<close> of the package: \<open>prev\<close> is the encoder the pool hands out. The width is the
  truncated quotient of Go, for a depth that was not validated yet.
\<close>

definition oneShotConfig :: "(u8 list \<Rightarrow> u8 list) \<Rightarrow> Config \<Rightarrow> u8 list \<Rightarrow> err + Config \<times> u8 list option" where
  "oneShotConfig md5 cfg pcm =
     (let frameLen = ((cf_BitDepth cfg + 7) sdiv 8) * cf_Channels cfg
      in if frameLen > 0 then
           if int (length pcm) mod frameLen \<noteq> 0 then Inl ErrUsage
           else if int (length pcm) div frameLen > uint maxTotalSamples then Inl ErrUsage
           else Inr (cfg\<lparr>cf_TotalSamples := of_int (int (length pcm) div frameLen)\<rparr>,
                     if cf_SkipMD5 cfg then None else Some (md5 pcm))
         else Inr (cfg, None))"

definition EncodeInterleaved ::
  "'f float64 \<Rightarrow> (u8 list \<Rightarrow> u16) \<Rightarrow> (u8 list \<Rightarrow> u8 list) \<Rightarrow> 's sink option \<Rightarrow> Config \<Rightarrow> u8 list
   \<Rightarrow> 'f Encoder option \<times> 's \<Rightarrow> err option \<times> 'f Encoder option \<times> 's" where
  "EncodeInterleaved F cs md5 w cfg pcm st =
     (case oneShotConfig md5 cfg pcm of
        Inl err \<Rightarrow> (Some err, st)
      | Inr (cfg, knownMD5) \<Rightarrow>
          (case initEncoder F w cfg knownMD5 st of
             (Some err, st) \<Rightarrow> (Some err, st)
           | (None, prev, s) \<Rightarrow>
               (case enWrite F cs (the w) pcm (the prev, s) of
                  (_, Some err, e, s) \<Rightarrow> (Some err, Some e, s)
                | (_, None, st) \<Rightarrow> (case enClose F cs md5 (the w) st of (err, e, s) \<Rightarrow> (err, Some e, s)))))"

section \<open>Sinks that take what they are given\<close>

text \<open>
  What the encoder needs of any sink: a write at the end appends. A seekable one can also go
  back, overwrite bytes that are there, and return to the end.
\<close>

locale appender =
  fixes w :: "'s sink" and contents :: "'s \<Rightarrow> u8 list" and at_end :: "'s \<Rightarrow> bool"
  assumes append_end: "at_end s \<Longrightarrow> \<exists>s'. snk_write w b s = (None, s') \<and> contents s' = contents s @ b \<and> at_end s'"
begin

lemma runOps_writes:
  assumes "at_end s"
  shows "\<exists>s'. runOps w (map OpWrite bs) s = (None, s') \<and> contents s' = contents s @ concat bs \<and> at_end s'"
  using assms
proof (induction bs arbitrary: s)
  case (Cons b bs)
  from append_end [OF Cons.prems, of b] obtain s1 where
    s1: "snk_write w b s = (None, s1)" "contents s1 = contents s @ b" "at_end s1" by blast
  from Cons.IH [OF s1(3)] show ?case by (auto simp: s1)
qed simp

end

locale patcher = appender +
  fixes place :: "'s \<Rightarrow> nat"
  assumes seek_start: "\<exists>seek s'. snk_seek w = Some seek \<and> seek (SeekStart n) s = (None, s') \<and> contents s' = contents s \<and> place s' = n"
    and overwrite: "place s + length b \<le> length (contents s) \<Longrightarrow>
      \<exists>s'. snk_write w b s = (None, s') \<and> contents s' = take (place s) (contents s) @ b @ drop (place s + length b) (contents s)"
    and seek_end: "\<exists>seek s'. snk_seek w = Some seek \<and> seek SeekEnd s = (None, s') \<and> contents s' = contents s \<and> at_end s'"
begin

lemma patch:
  assumes "n + length b \<le> length (contents s)"
  shows "\<exists>s'. runOps w (OpSeek (SeekStart n) # OpWrite b # ops) s = runOps w ops s'
    \<and> contents s' = take n (contents s) @ b @ drop (n + length b) (contents s)"
proof -
  from seek_start [of n s] obtain seek s1 where
    s1: "snk_seek w = Some seek" "seek (SeekStart n) s = (None, s1)" "contents s1 = contents s" "place s1 = n" by blast
  from overwrite [of s1 b] s1 assms obtain s2 where
    "snk_write w b s1 = (None, s2)" "contents s2 = take n (contents s) @ b @ drop (n + length b) (contents s)" by auto
  then show ?thesis using s1 by (intro exI [of _ s2]) simp
qed

lemma to_end: "\<exists>s'. runOps w [OpSeek SeekEnd] s = (None, s') \<and> contents s' = contents s \<and> at_end s'"
  using seek_end [of s] by auto

end

text \<open>A memory buffer, and a file of any length with a position.\<close>

definition bufferSink :: "u8 list sink" where
  "bufferSink = \<lparr>snk_write = (\<lambda>b s. (None, s @ b)), snk_seek = None\<rparr>"

interpretation buffer: appender bufferSink "\<lambda>s. s" "\<lambda>_. True"
  by unfold_locales (simp add: bufferSink_def)

record fileState =
  fl_data :: "u8 list"
  fl_pos :: nat

definition fileWrite :: "u8 list \<Rightarrow> fileState \<Rightarrow> err option \<times> fileState" where
  "fileWrite b f =
     (None, \<lparr>fl_data = take (fl_pos f) (fl_data f) @ replicate (fl_pos f - length (fl_data f)) 0 @ b @ drop (fl_pos f + length b) (fl_data f),
             fl_pos = fl_pos f + length b\<rparr>)"

fun fileSeek :: "seekTo \<Rightarrow> fileState \<Rightarrow> err option \<times> fileState" where
  "fileSeek (SeekStart n) f = (None, f\<lparr>fl_pos := n\<rparr>)"
| "fileSeek SeekEnd f = (None, f\<lparr>fl_pos := length (fl_data f)\<rparr>)"

definition fileSink :: "fileState sink" where
  "fileSink = \<lparr>snk_write = fileWrite, snk_seek = Some fileSeek\<rparr>"

interpretation disk: patcher fileSink fl_data "\<lambda>f. fl_pos f = length (fl_data f)" fl_pos
  by unfold_locales (simp_all add: fileSink_def fileWrite_def)

section \<open>The invariant\<close>

lemma took_updates [simp]:
  "took F cs cfg B (e\<lparr>en_leftover := x1\<rparr>, c) = took F cs cfg B (e, c)"
  "took F cs cfg B (e\<lparr>en_points := x2\<rparr>, c) = took F cs cfg B (e, c)"
  "took F cs cfg B (e\<lparr>en_nextBoundary := x3\<rparr>, c) = took F cs cfg B (e, c)"
  "took F cs cfg B (e\<lparr>en_audioBytes := x4\<rparr>, c) = took F cs cfg B (e, c)"
  "took F cs cfg B (e\<lparr>en_closed := x5\<rparr>, c) = took F cs cfg B (e, c)"
  by (simp_all add: took_def encoderFor_def)

text \<open>
  \<open>starts c\<close>: where the frames \<open>c\<close> begin, as sample number, byte offset and block size. Every seek
  point is one of them, and the sample numbers grow.
\<close>

definition frameStart :: "(u8 list \<times> nat) list \<Rightarrow> nat \<Rightarrow> SeekPoint" where
  "frameStart c i =
     \<lparr>sk_SampleNumber = of_nat (sum_list (map snd (take i c))), sk_ByteOffset = of_nat (length (concat (map fst (take i c)))),
      sk_FrameSamples = of_nat (snd (c ! i))\<rparr>"

definition pointsAt :: "(u8 list \<times> nat) list \<Rightarrow> SeekPoint list \<Rightarrow> bool" where
  "pointsAt c ps \<longleftrightarrow> (\<exists>is. sorted_wrt (<) is \<and> (\<forall>i \<in> set is. i < length c) \<and> ps = map (frameStart c) is)"

lemma frameStart_append: "i < length c \<Longrightarrow> frameStart (c @ d) i = frameStart c i"
  by (simp add: frameStart_def nth_append)

lemma pointsAt_grow:
  assumes "pointsAt c ps"
  shows "pointsAt (c @ [f]) ps" "pointsAt (c @ [f]) (ps @ [frameStart (c @ [f]) (length c)])"
proof -
  obtain "is" where i: "sorted_wrt (<) is" "\<forall>i \<in> set is. i < length c" "ps = map (frameStart c) is"
    using assms by (auto simp: pointsAt_def)
  have m: "map (frameStart c) is = map (frameStart (c @ [f])) is" using i(2) by (simp add: frameStart_append)
  show "pointsAt (c @ [f]) ps"
    unfolding pointsAt_def i(3) m using i(1,2) by (intro exI [of _ "is"]) auto
  show "pointsAt (c @ [f]) (ps @ [frameStart (c @ [f]) (length c)])"
    unfolding pointsAt_def i(3) m using i(1,2) by (intro exI [of _ "is @ [length c]"]) (auto simp: sorted_wrt_append)
qed

lemma framed_samples: "framed cs cfg c B \<Longrightarrow> length B = sampleBytes cfg * sum_list (map snd c)"
  by (induction rule: framed.induct) (simp_all add: distrib_left)

lemma framed_first: "framed cs cfg c B \<Longrightarrow> c = f # fs \<Longrightarrow> fs \<noteq> [] \<Longrightarrow> snd f = encoderBlockSize"
  by (induction arbitrary: f fs rule: framed.induct) (auto simp: fullBlocks_def append_eq_Cons_conv list_all_iff split: prod.splits)

definition enTook ::
  "('s \<Rightarrow> u8 list) \<Rightarrow> ('s \<Rightarrow> bool) \<Rightarrow> u8 list \<Rightarrow> (u8 list \<times> nat) list
   \<Rightarrow> 'f float64 \<Rightarrow> (u8 list \<Rightarrow> u16) \<Rightarrow> Config \<Rightarrow> u8 list \<Rightarrow> 'f Encoder \<times> 's \<Rightarrow> bool" where
  "enTook contents at_end H c F cs cfg B st \<longleftrightarrow> (case st of (e, s) \<Rightarrow>
     took F cs cfg B (e, c) \<and> contents s = H @ concat (map fst c) \<and> at_end s
     \<and> en_audioBytes e = length (concat (map fst c)) \<and> pointsAt c (en_points e)
     \<and> (en_seekInterval e > 0 \<longrightarrow> int (length (en_points e)) \<le> en_seekMaxPoints e))"

text \<open>What a block leaves alone.\<close>

definition sameSetup :: "'f Encoder \<Rightarrow> 'f Encoder \<Rightarrow> bool" where
  "sameSetup e e' \<longleftrightarrow> es_cfg e' = es_cfg e \<and> es_si e' = es_si e \<and> es_skipHash e' = es_skipHash e \<and> es_frameLen e' = es_frameLen e
     \<and> en_seekable e' = en_seekable e \<and> en_seekInterval e' = en_seekInterval e \<and> en_seekMaxPoints e' = en_seekMaxPoints e
     \<and> en_seekBodyOff e' = en_seekBodyOff e \<and> en_closed e' = en_closed e"

lemma recordPoint_sets: "\<exists>ps nb. recordPoint n e = e\<lparr>en_points := ps, en_nextBoundary := nb\<rparr>"
proof -
  have self: "e = e\<lparr>en_points := en_points e, en_nextBoundary := en_nextBoundary e\<rparr>" by simp
  show ?thesis
  proof (cases "en_seekInterval e > 0 \<and> int (length (en_points e)) < en_seekMaxPoints e
      \<and> (en_audioBytes e = 0 \<or> en_nextBoundary e \<le> sint (es_total e))")
    case False
    then have "recordPoint n e = e" by (auto simp: recordPoint_def Let_def)
    then show ?thesis using self by metis
  next
    case True
    then show ?thesis
      by (cases "en_nextBoundary e \<le> sint (es_total e)"; cases e) (auto simp: recordPoint_def Let_def)
  qed
qed

lemma recordPoint_pointsAt:
  assumes "pointsAt c (en_points e)" "es_total e = of_nat (sum_list (map snd c))" "en_audioBytes e = length (concat (map fst c))"
    and "en_seekInterval e > 0 \<longrightarrow> int (length (en_points e)) \<le> en_seekMaxPoints e"
  shows "pointsAt (c @ [(buf, n)]) (en_points (recordPoint n e))
    \<and> (en_seekInterval e > 0 \<longrightarrow> int (length (en_points (recordPoint n e))) \<le> en_seekMaxPoints e)"
proof -
  have "frameStart (c @ [(buf, n)]) (length c) =
      \<lparr>sk_SampleNumber = es_total e, sk_ByteOffset = of_nat (en_audioBytes e), sk_FrameSamples = of_nat n\<rparr>"
    by (simp add: frameStart_def assms(2,3))
  then show ?thesis
    using pointsAt_grow [OF assms(1), of "(buf, n)"] assms(4) by (auto simp: recordPoint_def Let_def)
qed

definition enStep ::
  "'f float64 \<Rightarrow> (u8 list \<Rightarrow> u16) \<Rightarrow> 's sink \<Rightarrow> ('f Encoder \<times> 's) block_step" where
  "enStep F cs w chunk = emitBlock F cs w chunk encoderBlockSize False"

definition enWhole ::
  "('s \<Rightarrow> u8 list) \<Rightarrow> ('s \<Rightarrow> bool) \<Rightarrow> u8 list \<Rightarrow> 'f Encoder
   \<Rightarrow> 'f float64 \<Rightarrow> (u8 list \<Rightarrow> u16) \<Rightarrow> Config \<Rightarrow> u8 list \<Rightarrow> 'f Encoder \<times> 's \<Rightarrow> bool" where
  "enWhole contents at_end H e0 F cs cfg B st \<longleftrightarrow>
     (\<exists>c. enTook contents at_end H c F cs cfg B st \<and> fullBlocks c) \<and> nominal (es_sizes (fst st)) \<and> sameSetup e0 (fst st)"

lemma sameSetup_trans: "sameSetup a b \<Longrightarrow> sameSetup b c \<Longrightarrow> sameSetup a c"
  by (simp add: sameSetup_def)

context appender
begin

lemma emitBlock_took:
  assumes T: "enTook contents at_end H c F cs cfg B (e, s)" and b: "length b = sampleBytes cfg * n" "1 \<le> n" "n \<le> encoderBlockSize"
    and final: "nominal (es_sizes e) \<and> fullBlocks c" "final \<or> n = encoderBlockSize" and adm: "encodable cfg (B @ b)"
  shows "\<exists>e' s' buf. emitBlock F cs w b n final (e, s) = (None, e', s') \<and> enTook contents at_end H (c @ [(buf, n)]) F cs cfg (B @ b) (e', s')
    \<and> sameSetup e e' \<and> (n = encoderBlockSize \<longrightarrow> nominal (es_sizes e'))"
proof -
  have t: "took F cs cfg B (e, c)" "contents s = H @ concat (map fst c)" "at_end s" "en_audioBytes e = length (concat (map fst c))"
    "pointsAt c (en_points e)" "en_seekInterval e > 0 \<longrightarrow> int (length (en_points e)) \<le> en_seekMaxPoints e"
    using T by (simp_all add: enTook_def)
  have fr: "framed cs cfg c B" "es_total e = of_nat (length B div sampleBytes cfg)" "1 \<le> sampleBytes cfg"
    using t(1) took_valid [OF t(1)] sampleBytes_pos by (simp_all add: took_def)
  then have tot: "es_total e = of_nat (sum_list (map snd c))" using framed_samples [OF fr(1)] by simp
  from took_next [OF t(1) b final adm] obtain buf bw work where
    enc: "encodeChunk F cs b n e = Some (buf, e\<lparr>es_bw := bw, es_work := work\<rparr>)" and
    nx: "took F cs cfg (B @ b) (countFrame (length buf) n final (hashChunk b (e\<lparr>es_bw := bw, es_work := work\<rparr>)), c @ [(buf, n)])"
    by (auto simp: Let_def)
  define e1 where "e1 = hashChunk b (e\<lparr>es_bw := bw, es_work := work\<rparr>)"
  have e1: "en_points e1 = en_points e" "es_total e1 = es_total e" "en_audioBytes e1 = en_audioBytes e"
    "en_seekInterval e1 = en_seekInterval e" "en_seekMaxPoints e1 = en_seekMaxPoints e" "es_sizes e1 = es_sizes e" "sameSetup e e1"
    by (simp_all add: e1_def hashChunk_def sameSetup_def)
  from append_end [OF t(3), of buf] obtain s' where
    s': "snk_write w buf s = (None, s')" "contents s' = contents s @ buf" "at_end s'" by blast
  obtain ps nb where r: "recordPoint n e1 = e1\<lparr>en_points := ps, en_nextBoundary := nb\<rparr>" using recordPoint_sets by blast
  define e' where "e' = countFrame (length buf) n final ((recordPoint n e1)\<lparr>en_audioBytes := en_audioBytes e + length buf\<rparr>)"
  have E: "emitBlock F cs w b n final (e, s) = (None, e', s')"
    using enc s'(1) by (simp add: emitBlock_def e1_def [symmetric] e'_def Let_def r e1)
  have ps: "pointsAt (c @ [(buf, n)]) ps" "en_seekInterval e > 0 \<longrightarrow> int (length ps) \<le> en_seekMaxPoints e"
    using recordPoint_pointsAt [of c e1 buf n] t(4-6) tot by (simp_all add: r e1)
  have "e' = (countFrame (length buf) n final e1)\<lparr>en_points := ps, en_nextBoundary := nb, en_audioBytes := en_audioBytes e + length buf\<rparr>"
    by (simp add: e'_def r countFrame_def)
  then have "took F cs cfg (B @ b) (e', c @ [(buf, n)])" using nx by (simp add: e1_def)
  moreover have "en_points e' = ps" "en_audioBytes e' = en_audioBytes e + length buf" "sameSetup e e'" "es_sizes e' = foldSizes (length buf) n final (es_sizes e)"
    using e1 by (simp_all add: e'_def r countFrame_def sameSetup_def)
  ultimately show ?thesis
    using E ps s' t nominal_foldSizes [OF conjunct1 [OF final(1)]]
    by (intro exI [of _ e'] exI [of _ s'] exI [of _ buf]) (auto simp: enTook_def sameSetup_def)
qed

lemma enStep_whole:
  assumes R: "enWhole contents at_end H e0 F cs cfg B st" and b: "length b = encoderBlockSize * sampleBytes cfg" and adm: "admissible cfg (B @ b)"
  shows "\<exists>st'. enStep F cs w b st = (None, st') \<and> enWhole contents at_end H e0 F cs cfg (B @ b) st'"
proof (cases st)
  case (Pair e s)
  obtain c where c: "enTook contents at_end H c F cs cfg B (e, s)" "fullBlocks c" using R by (auto simp: enWhole_def Pair)
  have "length b = sampleBytes cfg * encoderBlockSize" "1 \<le> encoderBlockSize" using b by (simp_all add: encoderBlockSize_def)
  from emitBlock_took [OF c(1) this, of False] R adm c(2) obtain e' s' buf where
    "emitBlock F cs w b encoderBlockSize False (e, s) = (None, e', s')" "enTook contents at_end H (c @ [(buf, encoderBlockSize)]) F cs cfg (B @ b) (e', s')"
    "sameSetup e e'" "nominal (es_sizes e')"
    by (auto simp: enWhole_def Pair admissible_def)
  then show ?thesis
    using R sameSetup_trans c(2) by (fastforce simp: enWhole_def Pair enStep_def)
qed

sublocale blocks: block_stream "enStep F cs w" "encoderBlockSize * sampleBytes cfg" "enWhole contents at_end H e0 F cs cfg" "admissible cfg"
  for F cs cfg H e0
proof
  show "\<exists>st'. enStep F cs w b st = (None, st') \<and> enWhole contents at_end H e0 F cs cfg (B @ b) st'"
    if "enWhole contents at_end H e0 F cs cfg B st" "length b = encoderBlockSize * sampleBytes cfg" "admissible cfg (B @ b)" for B b st
    using enStep_whole that .
  show "0 < encoderBlockSize * sampleBytes cfg" if "enWhole contents at_end H e0 F cs cfg B st" for B st
  proof -
    note R = that
    obtain c where "took F cs cfg B (fst st, c)" using R by (cases st) (auto simp: enWhole_def enTook_def)
    then show ?thesis using took_valid sampleBytes_pos [of cfg] by (fastforce simp: encoderBlockSize_def)
  qed
  show "admissible cfg B" if "admissible cfg (B @ b)" for B b
    using that encodable_prefix by (auto simp: admissible_def)
qed

end

section \<open>Writing and closing\<close>

definition enOpen ::
  "('s \<Rightarrow> u8 list) \<Rightarrow> ('s \<Rightarrow> bool) \<Rightarrow> u8 list \<Rightarrow> 'f Encoder
   \<Rightarrow> 'f float64 \<Rightarrow> (u8 list \<Rightarrow> u16) \<Rightarrow> Config \<Rightarrow> u8 list \<Rightarrow> 'f Encoder \<times> 's \<Rightarrow> bool" where
  "enOpen contents at_end H e0 F cs cfg bytes st \<longleftrightarrow>
     (\<exists>B. enWhole contents at_end H e0 F cs cfg B st \<and> bytes = B @ en_leftover (fst st)
        \<and> encoderBlockSize * sampleBytes cfg dvd length B \<and> length (en_leftover (fst st)) < encoderBlockSize * sampleBytes cfg)"

lemma enTook_updates [simp]:
  "enTook contents at_end H c F cs cfg B (e\<lparr>en_leftover := l\<rparr>, s) = enTook contents at_end H c F cs cfg B (e, s)"
  "enTook contents at_end H c F cs cfg B (e\<lparr>en_closed := d\<rparr>, s) = enTook contents at_end H c F cs cfg B (e, s)"
  by (simp_all add: enTook_def)

lemma enWhole_leftover [simp]:
  "enWhole contents at_end H e0 F cs cfg B (e\<lparr>en_leftover := l\<rparr>, s) = enWhole contents at_end H e0 F cs cfg B (e, s)"
  by (simp add: enWhole_def sameSetup_def)

lemma enWhole_frameLen:
  assumes "enWhole contents at_end H e0 F cs cfg B (e, s)"
  shows "es_frameLen e = sampleBytes cfg" "validateConfig cfg = None" "sampleBytes cfg dvd length B"
proof -
  obtain c where T: "took F cs cfg B (e, c)" using assms by (auto simp: enWhole_def enTook_def)
  show "es_frameLen e = sampleBytes cfg" "validateConfig cfg = None" using took_valid [OF T] by simp_all
  show "sampleBytes cfg dvd length B" using T framed_length by (auto simp: took_def)
qed

context appender
begin

lemma enWrite_open:
  assumes R: "enOpen contents at_end H e0 F cs cfg bytes (e, s)" and open_: "\<not> en_closed e0" and adm: "admissible cfg (bytes @ p)"
  shows "\<exists>e' s'. enWrite F cs w p (e, s) = (length p, None, e', s') \<and> enOpen contents at_end H e0 F cs cfg (bytes @ p) (e', s')"
proof -
  let ?sz = "encoderBlockSize * sampleBytes cfg" and ?l = "en_leftover e"
  obtain B where B: "enWhole contents at_end H e0 F cs cfg B (e, s)" "bytes = B @ ?l" "?sz dvd length B" "length ?l < ?sz"
    using R by (auto simp: enOpen_def)
  have "admissible cfg (B @ (?l @ p))" using adm B(2) by simp
  from blocks.whole [OF B(1,3) this, of 0] obtain B' l' k st' where
    w: "wholeBlocks (enStep F cs w) ?sz (?l @ p) 0 (e, s) = (None, l', k, st')" and
    st: "blocks.stands cfg H e0 F cs (B @ ?l @ p) B' l' st'" by auto
  obtain e' s' where e': "st' = (e', s')" by (cases st')
  have j: "joinBlocks (enStep F cs w) ?sz ?l p (e, s) = (None, l', k, e', s')"
    using joinBlocks_whole [OF B(4) w] by (simp add: e')
  have "enWhole contents at_end H e0 F cs cfg B' (e', s')" "B @ ?l @ p = B' @ l'" "?sz dvd length B'" "length l' < ?sz"
    using st by (simp_all add: blocks.stands_def e')
  then have O: "enOpen contents at_end H e0 F cs cfg (bytes @ p) (e'\<lparr>en_leftover := l'\<rparr>, s')"
    by (auto simp: enOpen_def B(2))
  have "\<not> en_closed e" using B(1) open_ by (simp add: enWhole_def sameSetup_def)
  moreover have "(\<lambda>chunk. emitBlock F cs w chunk encoderBlockSize False) = enStep F cs w" by (simp add: enStep_def fun_eq_iff)
  ultimately have "enWrite F cs w p (e, s) = (length p, None, e'\<lparr>en_leftover := l'\<rparr>, s')"
    using j enWhole_frameLen(1) [OF B(1)] by (simp add: enWrite_def Let_def)
  with O show ?thesis by blast
qed

lemma enClose_open:
  assumes R: "enOpen contents at_end H e0 F cs cfg bytes (e, s)" and open_: "\<not> en_closed e0"
    and bytes: "encodable cfg bytes" "sampleBytes cfg dvd length bytes"
      "cf_TotalSamples cfg = 0 \<or> cf_TotalSamples cfg = of_nat (length bytes div sampleBytes cfg)"
  shows "\<exists>e1 s1 c. enTook contents at_end H c F cs cfg bytes (e1, s1) \<and> sameSetup (e0\<lparr>en_closed := True\<rparr>) e1
    \<and> enClose F cs md5 w (e, s) =
        (if \<not> en_seekable e0 then (None, e1, s1) else case runOps w (patchOps md5 e1) s1 of (err, s2) \<Rightarrow> (err, e1, s2))"
proof -
  let ?sz = "encoderBlockSize * sampleBytes cfg" and ?l = "en_leftover e" and ?e = "e\<lparr>en_closed := True\<rparr>"
  obtain B where B: "enWhole contents at_end H e0 F cs cfg B (e, s)" "bytes = B @ ?l" "?sz dvd length B" "length ?l < ?sz"
    using R by (auto simp: enOpen_def)
  then obtain c where c: "enTook contents at_end H c F cs cfg B (e, s)" "nominal (es_sizes e) \<and> fullBlocks c" "sameSetup e0 e" by (auto simp: enWhole_def)
  note fl = enWhole_frameLen [OF B(1)]
  have same: "sameSetup (e0\<lparr>en_closed := True\<rparr>) ?e" "\<not> en_closed e" using c(3) open_ by (simp_all add: sameSetup_def)
  have ending: "declaredTotal (e1\<lparr>en_leftover := []\<rparr>) = None" if "took F cs cfg bytes (e1, c1)" for e1 c1
    using took_final [of F cs cfg bytes "e1\<lparr>en_leftover := []\<rparr>" c1] that bytes(3) by simp
  have dvd: "sampleBytes cfg dvd length ?l" using bytes(2) fl(3) unfolding B(2) by (simp add: dvd_add_right_iff)
  show ?thesis
  proof (cases "?l = []")
    case True
    let ?e1 = "?e\<lparr>en_leftover := []\<rparr>"
    have T: "enTook contents at_end H c F cs cfg bytes (?e1, s)" using c(1) B(2) True by simp
    moreover have "sameSetup (e0\<lparr>en_closed := True\<rparr>) ?e1" using same(1) by (simp add: sameSetup_def)
    moreover have "declaredTotal ?e1 = None" using ending [of ?e c] T by (simp add: enTook_def)
    ultimately show ?thesis
      using same True c(3) unfolding enClose_def
      by (intro exI [of _ ?e1] exI [of _ s] exI [of _ c]) (simp add: Let_def sameSetup_def)
  next
    case False
    obtain n where n: "length ?l = sampleBytes cfg * n" "1 \<le> n" "n \<le> encoderBlockSize" "length ?l div sampleBytes cfg = n"
      using tail_samples [OF False B(4) dvd sampleBytes_pos [OF fl(2)]] .
    have "enTook contents at_end H c F cs cfg B (?e, s)" "nominal (es_sizes ?e) \<and> fullBlocks c" "encodable cfg (B @ ?l)"
      using c bytes(1) B(2) by simp_all
    from emitBlock_took [OF this(1) n(1-3) this(2) _ this(3), of True] obtain e1 s1 buf where
      e1: "emitBlock F cs w ?l n True (?e, s) = (None, e1, s1)"
        "enTook contents at_end H (c @ [(buf, n)]) F cs cfg bytes (e1, s1)" "sameSetup ?e e1"
      by (auto simp: B(2) [symmetric])
    let ?e1 = "e1\<lparr>en_leftover := []\<rparr>"
    have "declaredTotal ?e1 = None" using ending [of e1 "c @ [(buf, n)]"] e1(2) by (simp add: enTook_def)
    moreover have "sameSetup (e0\<lparr>en_closed := True\<rparr>) ?e1" using sameSetup_trans [OF same(1) e1(3)] by (simp add: sameSetup_def)
    ultimately show ?thesis
      using e1 same False dvd fl(1) n(4) c(3) unfolding enClose_def
      by (intro exI [of _ ?e1] exI [of _ s1] exI [of _ "c @ [(buf, n)]"]) (simp add: Let_def sameSetup_def mod_eq_0_iff_dvd)
  qed
qed

end

section \<open>The metadata written up front\<close>

definition commentBody :: "Config \<Rightarrow> u8 list option" where
  "commentBody cfg =
     (if wantVorbisComment cfg then (case buildVorbisComment cfg of Inr b \<Rightarrow> Some b | Inl _ \<Rightarrow> None) else None)"

definition commentBlocks :: "Config \<Rightarrow> block list" where
  "commentBlocks cfg = (case commentBody cfg of None \<Rightarrow> [] | Some b \<Rightarrow> [(TypeVorbisComment, b)])"

text \<open>What \<open>init\<close> accepts beyond a valid configuration.\<close>

definition metadataOk :: "Config \<Rightarrow> 's sink \<Rightarrow> bool" where
  "metadataOk cfg w \<longleftrightarrow>
     (wantVorbisComment cfg \<longrightarrow> (\<exists>b. buildVorbisComment cfg = Inr b)) \<and> (cf_SeekTableInterval cfg > 0 \<longrightarrow> seekable w)"

definition upfrontStream :: "bool \<Rightarrow> Config \<Rightarrow> StreamInfo \<Rightarrow> u8 list" where
  "upfrontStream skb cfg si =
     (if cf_SeekTableInterval cfg > 0 then
        streamHeader si 0 0 0 0 (commentBlocks cfg @ [(TypeSeekTable, SeekTablePlaceholder (nat (seekMaxPointsFor cfg))), (TypePadding, [])])
      else let blk = upfrontBlockSize skb cfg in streamHeader si blk blk 0 0 (commentBlocks cfg))"

lemma commentOps_writes:
  "commentOps vc isLast =
    map OpWrite (case vc of None \<Rightarrow> [] | Some b \<Rightarrow> [EncodeBlockHeader isLast TypeVorbisComment (length b), b])"
  by (simp add: commentOps_def split: option.split)

lemma metaBlocks_append: "bs \<noteq> [] \<Longrightarrow> metaBlocks (as @ bs) = concat (map (metaBlock False) as) @ metaBlocks bs"
  by (induction as) simp_all

lemma seekMaxPoints_bounds: "1 \<le> seekMaxPointsFor cfg" "seekMaxPointsFor cfg \<le> maxSeekPoints"
  by (simp_all add: seekMaxPointsFor_def maxSeekPoints_def defaultSeekMaxPoints_def SeekPointBytes_def Let_def)

definition seekSetup :: "Config \<Rightarrow> int \<Rightarrow> 'f Encoder \<Rightarrow> 'f Encoder" where
  "seekSetup cfg d e =
     e\<lparr>en_seekInterval := (if cf_SeekTableInterval cfg > 0 then cf_SeekTableInterval cfg else 0),
       en_seekMaxPoints := (if cf_SeekTableInterval cfg > 0 then seekMaxPointsFor cfg else 0), en_nextBoundary := d,
       en_seekBodyOff := (if cf_SeekTableInterval cfg > 0
         then StreamInfoBodyOffset + StreamInfoBodyLen + length (concat (map (metaBlock False) (commentBlocks cfg))) + 4 else 0)\<rparr>"

text \<open>The encoder \<open>init\<close> leaves behind.\<close>

definition startedAs :: "Config \<Rightarrow> StreamInfo \<Rightarrow> bool \<Rightarrow> bool \<Rightarrow> 'f Encoder \<Rightarrow> bool" where
  "startedAs cfg si skip skb e \<longleftrightarrow> es_cfg e = cfg \<and> es_si e = si \<and> es_skipHash e = skip \<and> en_seekable e = skb \<and> \<not> en_closed e
     \<and> en_seekInterval e = (if cf_SeekTableInterval cfg > 0 then cf_SeekTableInterval cfg else 0)
     \<and> en_seekMaxPoints e = (if cf_SeekTableInterval cfg > 0 then seekMaxPointsFor cfg else 0)
     \<and> en_seekBodyOff e = (if cf_SeekTableInterval cfg > 0
          then StreamInfoBodyOffset + StreamInfoBodyLen + length (concat (map (metaBlock False) (commentBlocks cfg))) + 4 else 0)"

definition startInfo :: "Config \<Rightarrow> u8 list option \<Rightarrow> StreamInfo" where
  "startInfo cfg knownMD5 = (case knownMD5 of None \<Rightarrow> cfgInfo cfg | Some m \<Rightarrow> (cfgInfo cfg)\<lparr>si_MD5 := m\<rparr>)"

context appender
begin

lemma writeInitialMetadata_ok:
  assumes s: "at_end s" and ok: "metadataOk cfg w" and e: "es_cfg e = cfg" "en_seekable e = seekable w"
    "en_seekInterval e = 0" "en_seekMaxPoints e = 0" "en_seekBodyOff e = 0" "en_nextBoundary e = 0"
  shows "\<exists>e0 s0. writeInitialMetadata w (e, s) = (None, e0, s0) \<and> at_end s0 \<and> contents s0 = contents s @ upfrontStream (seekable w) cfg (es_si e)
    \<and> (\<exists>d. e0 = seekSetup cfg d e)"
proof -
  let ?si = "es_si e" and ?vc = "commentBody cfg" and ?I = "cf_SeekTableInterval cfg" and ?N = "nat (seekMaxPointsFor cfg)"
  have vc: "(if wantVorbisComment cfg then map_sum id Some (buildVorbisComment cfg) else Inr None) = Inr ?vc"
    using ok by (auto simp: commentBody_def metadataOk_def)
  have len: "(case ?vc of None \<Rightarrow> 0 | Some b \<Rightarrow> 4 + length b) = length (concat (map (metaBlock False) (commentBlocks cfg)))"
    by (simp add: commentBlocks_def metaBlock_def EncodeBlockHeader_def Let_def split: option.split)
  show ?thesis
  proof (cases "?I > 0")
    case True
    let ?st = "SeekTablePlaceholder ?N" and ?body = "EncodeStreamInfo ?si 0 0 0 0"
    let ?ws = "(markFLaC @ EncodeBlockHeader False typeStreamInfo (length ?body) @ ?body)
        # (case ?vc of None \<Rightarrow> [] | Some b \<Rightarrow> [EncodeBlockHeader False TypeVorbisComment (length b), b])
        @ [EncodeBlockHeader False TypeSeekTable (length ?st)]"
    have ops: "[streamStart ?body False] @ commentOps ?vc False @ [OpWrite (EncodeBlockHeader False TypeSeekTable (length ?st))] = map OpWrite ?ws"
      by (simp add: streamStart_def commentOps_writes)
    from runOps_writes [OF s, of ?ws] obtain s1 where
      s1: "runOps w (map OpWrite ?ws) s = (None, s1)" "contents s1 = contents s @ concat ?ws" "at_end s1" by blast
    from runOps_writes [OF s1(3), of "[?st, EncodeBlockHeader True TypePadding 0]"] obtain s2 where
      s2: "runOps w [OpWrite ?st, OpWrite (EncodeBlockHeader True TypePadding 0)] s1 = (None, s2)"
        "contents s2 = contents s1 @ ?st @ EncodeBlockHeader True TypePadding 0" "at_end s2" by auto
    have "concat ?ws @ ?st @ EncodeBlockHeader True TypePadding 0 = upfrontStream (seekable w) cfg ?si"
      using True by (simp add: upfrontStream_def streamHeader_def metaBlocks_append commentBlocks_def metaBlock_def split: option.split)
    then have c: "contents s2 = contents s @ upfrontStream (seekable w) cfg ?si" using s1(2) s2(2) by simp
    have skb: "seekable w" using ok True by (simp add: metadataOk_def)
    let ?e1 = "e\<lparr>en_seekInterval := ?I, en_seekMaxPoints := seekMaxPointsFor cfg, en_nextBoundary := ?I\<rparr>"
    let ?off = "StreamInfoBodyOffset + StreamInfoBodyLen + length (concat (map (metaBlock False) (commentBlocks cfg))) + 4"
    have f: "en_seekable e" "es_si ?e1 = ?si" "en_seekMaxPoints ?e1 = seekMaxPointsFor cfg" using e(2) skb by simp_all
    have r: "runOps w ([streamStart ?body False] @ commentOps ?vc False @ [OpWrite (EncodeBlockHeader False TypeSeekTable (length ?st))]) s = (None, s1)"
      unfolding ops by (rule s1(1))
    have "writeInitialMetadata w (e, s) = (None, ?e1\<lparr>en_seekBodyOff := ?off\<rparr>, s2)"
      unfolding writeInitialMetadata_def prod.case Let_def e(1) vc sum.case f r option.case s2(1) len
      by (simp only: True f(1) if_True not_True_eq_False if_False)
    moreover have "?e1\<lparr>en_seekBodyOff := ?off\<rparr> = seekSetup cfg ?I e" using True by (simp add: seekSetup_def)
    ultimately show ?thesis using s2(3) c by metis
  next
    case False
    let ?blk = "upfrontBlockSize (seekable w) cfg" and ?last = "?vc = None"
    let ?body = "EncodeStreamInfo ?si ?blk ?blk 0 0"
    let ?ws = "(markFLaC @ EncodeBlockHeader ?last typeStreamInfo (length ?body) @ ?body)
        # (case ?vc of None \<Rightarrow> [] | Some b \<Rightarrow> [EncodeBlockHeader True TypeVorbisComment (length b), b])"
    have ops: "streamStart ?body ?last # commentOps ?vc True = map OpWrite ?ws"
      by (simp add: streamStart_def commentOps_writes)
    from runOps_writes [OF s, of ?ws] obtain s1 where
      s1: "runOps w (map OpWrite ?ws) s = (None, s1)" "contents s1 = contents s @ concat ?ws" "at_end s1" by blast
    have "concat ?ws = upfrontStream (seekable w) cfg ?si"
      using False by (simp add: upfrontStream_def streamHeader_def Let_def commentBlocks_def metaBlock_def split: option.split)
    then have c: "contents s1 = contents s @ upfrontStream (seekable w) cfg ?si" using s1(2) by simp
    have "writeInitialMetadata w (e, s) = (None, e, s1)"
      unfolding writeInitialMetadata_def prod.case Let_def e(1) vc sum.case e(2) ops s1(1)
      by (simp only: False if_False prod.case)
    moreover have "e = seekSetup cfg 0 e" using e False by (simp add: seekSetup_def)
    ultimately show ?thesis using s1(3) c by metis
  qed
qed

end

section \<open>A new stream\<close>

definition reusableEncoder :: "'f Encoder option \<Rightarrow> bool" where
  "reusableEncoder prev \<longleftrightarrow> (case prev of None \<Rightarrow> True | Some p \<Rightarrow> four_slots (es_work p))"

lemma seekSetup_fields [simp]:
  "took F cs cfg B (seekSetup cfg' d e, c) = took F cs cfg B (e, c)" "en_leftover (seekSetup cfg' d e) = en_leftover e"
  "en_audioBytes (seekSetup cfg' d e) = en_audioBytes e" "en_points (seekSetup cfg' d e) = en_points e" "es_sizes (seekSetup cfg' d e) = es_sizes e"
  "es_cfg (seekSetup cfg' d e) = es_cfg e" "es_si (seekSetup cfg' d e) = es_si e" "es_skipHash (seekSetup cfg' d e) = es_skipHash e"
  "en_seekable (seekSetup cfg' d e) = en_seekable e" "en_closed (seekSetup cfg' d e) = en_closed e"
  by (simp_all add: seekSetup_def took_def encoderFor_def)

context appender
begin

lemma initEncoder_ok:
  assumes v: "validateConfig cfg = None" and prev: "reusableEncoder prev" and s: "at_end s" and ok: "metadataOk cfg w"
    and F: "float64_laws F"
  shows "\<exists>e0 s0. initEncoder F (Some w) cfg knownMD5 (prev, s) = (None, Some e0, s0)
    \<and> startedAs cfg (startInfo cfg knownMD5) (knownMD5 \<noteq> None \<or> cf_SkipMD5 cfg) (seekable w) e0
    \<and> enOpen contents at_end (contents s @ upfrontStream (seekable w) cfg (startInfo cfg knownMD5)) e0 F cs cfg [] (e0, s0)"
proof -
  let ?params = "paramsForLevel (cf_CompressionLevel cfg)" and ?si = "startInfo cfg knownMD5"
  let ?fresh = "NewWorkspace F encoderBlockSize (nat (cf_Channels cfg)) (p_MaxLPCOrder ?params)"
  let ?work = "case prev of None \<Rightarrow> ?fresh | Some p \<Rightarrow>
      if cf_Channels (es_cfg p) = cf_Channels cfg \<and> p_MaxLPCOrder (es_params p) = p_MaxLPCOrder ?params then es_work p else ?fresh"
  define e where "e = \<lparr>es_cfg = cfg, es_si = ?si, es_params = ?params, es_bytesPS = cfgBytesPS cfg,
      es_frameLen = cfgBytesPS cfg * nat (cf_Channels cfg), es_bw = (case prev of None \<Rightarrow> NewWriter | Some p \<Rightarrow> wReset (es_bw p)),
      es_work = ?work, es_md5 = [], es_skipHash = (knownMD5 \<noteq> None \<or> cf_SkipMD5 cfg), es_frameNum = 0, es_total = 0,
      es_sizes = noSizes, en_seekable = seekable w, en_leftover = [], en_seekInterval = 0, en_seekMaxPoints = 0,
      en_seekBodyOff = 0, en_audioBytes = 0, en_points = [], en_nextBoundary = 0, en_closed = False\<rparr>"
  have f: "es_cfg e = cfg" "es_si e = ?si" "es_skipHash e = (knownMD5 \<noteq> None \<or> cf_SkipMD5 cfg)" "en_seekable e = seekable w"
    "en_closed e = False" "en_leftover e = []" "en_audioBytes e = 0" "en_points e = []" "es_sizes e = noSizes"
    "en_seekInterval e = 0" "en_seekMaxPoints e = 0" "en_seekBodyOff e = 0" "en_nextBoundary e = 0"
    by (simp_all add: e_def)
  have "four_slots ?fresh" by (simp add: four_slots_def NewWorkspace_def)
  then have "four_slots ?work" using prev by (auto simp: reusableEncoder_def split: option.split)
  then have T: "took F cs cfg [] (e, [])"
    using F v by (simp add: took_def encoderFor_def e_def sameFormat_def startInfo_def sampleBytes_def framed_none split: option.split)
  from writeInitialMetadata_ok [OF s ok f(1,4,10-13)] obtain s0 d where
    m: "writeInitialMetadata w (e, s) = (None, seekSetup cfg d e, s0)" "at_end s0"
      "contents s0 = contents s @ upfrontStream (seekable w) cfg ?si"
    by (auto simp: f(2))
  have "initEncoder F (Some w) cfg knownMD5 (prev, s) = (None, Some (seekSetup cfg d e), s0)"
    unfolding initEncoder_def Let_def prod.case option.case v startInfo_def [symmetric] e_def [symmetric] m(1) ..
  moreover have "startedAs cfg ?si (knownMD5 \<noteq> None \<or> cf_SkipMD5 cfg) (seekable w) (seekSetup cfg d e)"
    by (simp add: startedAs_def f) (simp add: seekSetup_def)
  moreover have "enTook contents at_end (contents s @ upfrontStream (seekable w) cfg ?si) [] F cs cfg [] (seekSetup cfg d e, s0)"
    using T m(2,3) seekMaxPoints_bounds(1) [of cfg] f
    by (simp add: enTook_def pointsAt_def) (simp add: seekSetup_def)
  then have "enOpen contents at_end (contents s @ upfrontStream (seekable w) cfg ?si) (seekSetup cfg d e) F cs cfg [] (seekSetup cfg d e, s0)"
    using f sampleBytes_pos [OF v] by (auto simp: enOpen_def enWhole_def sameSetup_def encoderBlockSize_def)
  ultimately show ?thesis by blast
qed

end

section \<open>The header a seekable sink ends up with\<close>

definition tableBlocks :: "'f Encoder \<Rightarrow> u8 list \<Rightarrow> block list" where
  "tableBlocks e pad =
     (if en_seekInterval e > 0 then [(TypeSeekTable, EncodeSeekPoints (en_points e)), (TypePadding, pad)] else [])"

definition finalStream :: "(u8 list \<Rightarrow> u8 list) \<Rightarrow> 'f Encoder \<Rightarrow> u8 list \<Rightarrow> u8 list" where
  "finalStream md5 e pad =
     (let z = es_sizes e
      in streamHeader (finalInfo md5 e) (max (fz_minBlock z) minStreamInfoBlockSize) (max (fz_maxBlock z) minStreamInfoBlockSize)
           (fz_minFrame z) (fz_maxFrame z) (commentBlocks (es_cfg e) @ tableBlocks e pad))"

lemma length_SeekTablePlaceholder [simp]: "length (SeekTablePlaceholder n) = 18 * n"
  by (simp add: SeekTablePlaceholder_def)

lemma metaBlock_len: "length a = length b \<Longrightarrow> metaBlock isLast (t, a) = EncodeBlockHeader isLast t (length b) @ a"
  by (simp add: metaBlock_def)

context patcher
begin

lemma patch_mid:
  assumes "contents s = X @ Y @ Z" "length X = n" "length Y = length b"
  shows "\<exists>s'. runOps w (OpSeek (SeekStart n) # OpWrite b # ops) s = runOps w ops s' \<and> contents s' = X @ b @ Z"
  using patch [of n b s ops] assms by simp

text \<open>\<open>V\<close> is the marker and the blocks before the seek table; \<open>P\<close> its placeholder.\<close>

lemma patch_table:
  assumes s: "contents s = V @ EncodeBlockHeader False TypeSeekTable (length P) @ P @ EncodeBlockHeader True TypePadding 0 @ A"
    and off: "off = length V + 4" and P: "length P = 18 * N" and used: "length ps \<le> N"
  shows "\<exists>s' pad. runOps w ([OpSeek (SeekStart off), OpWrite (EncodeSeekPoints ps)]
      @ (if length ps < N then
           [OpSeek (SeekStart (off - 4)), OpWrite (EncodeBlockHeader False TypeSeekTable (length ps * SeekPointBytes)),
            OpSeek (SeekStart (off + length ps * SeekPointBytes)),
            OpWrite (EncodeBlockHeader True TypePadding ((N - length ps) * SeekPointBytes))]
         else []) @ ops) s = runOps w ops s'
    \<and> contents s' = V @ metaBlock False (TypeSeekTable, EncodeSeekPoints ps) @ metaBlock True (TypePadding, pad) @ A
    \<and> length pad = (N - length ps) * SeekPointBytes"
proof -
  let ?u = "18 * length ps" and ?E = "EncodeSeekPoints ps" and ?h = "EncodeBlockHeader False TypeSeekTable (length P)"
    and ?ph = "EncodeBlockHeader True TypePadding 0"
  have le: "?u \<le> length P" using used by (simp add: P)
  have "contents s = (V @ ?h) @ take ?u P @ (drop ?u P @ ?ph @ A)" using s by simp
  note p1 = patch_mid [OF this, of off ?E]
  have "length (V @ ?h) = off" "length (take ?u P) = length ?E" using off le by simp_all
  from p1 [OF this] obtain s1 where
    s1: "\<And>rest. \<exists>s'. runOps w (OpSeek (SeekStart off) # OpWrite ?E # rest) s = runOps w rest s' \<and> contents s' = (V @ ?h) @ ?E @ (drop ?u P @ ?ph @ A)"
    by blast
  show ?thesis
  proof (cases "length ps < N")
    case False
    then have eq: "length ps = N" using used by simp
    from s1 [of ops] obtain s2 where
      s2: "runOps w (OpSeek (SeekStart off) # OpWrite ?E # ops) s = runOps w ops s2" "contents s2 = (V @ ?h) @ ?E @ (drop ?u P @ ?ph @ A)" by blast
    have "contents s2 = V @ metaBlock False (TypeSeekTable, ?E) @ metaBlock True (TypePadding, []) @ A"
      using s2(2) by (simp add: metaBlock_def P eq)
    then show ?thesis using s2(1) eq by (intro exI [of _ s2] exI [of _ "[]"]) simp
  next
    case True
    let ?h2 = "EncodeBlockHeader False TypeSeekTable (length ps * SeekPointBytes)"
      and ?ph2 = "EncodeBlockHeader True TypePadding ((N - length ps) * SeekPointBytes)"
    let ?tail = "drop ?u P @ ?ph"
    let ?rest2 = "OpSeek (SeekStart (off + length ps * SeekPointBytes)) # OpWrite ?ph2 # ops"
    from s1 [of "OpSeek (SeekStart (off - 4)) # OpWrite ?h2 # ?rest2"] obtain sa where
      sa: "runOps w (OpSeek (SeekStart off) # OpWrite ?E # OpSeek (SeekStart (off - 4)) # OpWrite ?h2 # ?rest2) s
          = runOps w (OpSeek (SeekStart (off - 4)) # OpWrite ?h2 # ?rest2) sa"
        "contents sa = V @ ?h @ (?E @ ?tail @ A)" by auto
    from patch_mid [OF sa(2), of "off - 4" ?h2 ?rest2] off obtain sb where
      sb: "runOps w (OpSeek (SeekStart (off - 4)) # OpWrite ?h2 # ?rest2) sa = runOps w ?rest2 sb" "contents sb = V @ ?h2 @ (?E @ ?tail @ A)" by auto
    define tail where "tail = ?tail"
    have l: "length tail = 18 * (N - length ps) + 4" using le by (simp add: tail_def P right_diff_distrib')
    have "contents sb = V @ ?h2 @ ?E @ tail @ A" using sb(2) by (simp add: tail_def)
    then have "contents sb = (V @ ?h2 @ ?E) @ take 4 tail @ (drop 4 tail @ A)" by (metis append.assoc append_take_drop_id)
    from patch_mid [OF this, of "off + length ps * SeekPointBytes" ?ph2 ops] l off obtain sc where
      sc: "runOps w ?rest2 sb = runOps w ops sc" "contents sc = (V @ ?h2 @ ?E) @ ?ph2 @ (drop 4 tail @ A)"
      by (auto simp: SeekPointBytes_def)
    have "contents sc = V @ metaBlock False (TypeSeekTable, ?E) @ metaBlock True (TypePadding, drop 4 tail) @ A"
      using sc(2) l by (simp add: metaBlock_def SeekPointBytes_def mult.commute)
    then show ?thesis
      using sa(1) sb(1) sc(1) l True by (intro exI [of _ sc] exI [of _ "drop 4 tail"]) (simp add: SeekPointBytes_def mult.commute)
  qed
qed

end

lemma EncodeStreamInfo_mod:
  assumes "length (si_MD5 si) = 16"
  shows "EncodeStreamInfo si a b (c mod 2 ^ 24) (d mod 2 ^ 24) = EncodeStreamInfo si a b c d"
proof -
  have "bits_msb 24 (of_nat (x mod 2 ^ 24) :: u64) = bits_msb 24 (of_nat x :: u64)" for x
  proof (rule nth_equalityI)
    fix i assume "i < length (bits_msb 24 (of_nat (x mod 2 ^ 24) :: u64))"
    then have i: "i < 24" by simp
    have "bit (of_nat (x mod 2 ^ 24) :: u64) (23 - i) \<longleftrightarrow> bit (of_nat x :: u64) (23 - i)"
      using i unfolding take_bit_eq_mod [symmetric] by (simp only: bit_of_nat_iff bit_take_bit_iff) auto
    then show "bits_msb 24 (of_nat (x mod 2 ^ 24) :: u64) ! i = bits_msb 24 (of_nat x :: u64) ! i" using i by (simp add: nth_bits_msb)
  qed simp
  then have "byte_bits (EncodeStreamInfo si a b (c mod 2 ^ 24) (d mod 2 ^ 24)) = byte_bits (EncodeStreamInfo si a b c d)"
    unfolding byte_bits_EncodeStreamInfo [OF assms] info_bits_def by simp
  then show ?thesis by (rule byte_bits_inj [THEN iffD1])
qed

lemma streamHeader_mod:
  "length (si_MD5 si) = 16 \<Longrightarrow> streamHeader si a b c d bs = streamHeader si a b (c mod 2 ^ 24) (d mod 2 ^ 24) bs"
  by (simp only: streamHeader_def EncodeStreamInfo_mod)

context patcher
begin

lemma patchOps_ok:
  assumes e: "es_cfg e = cfg" "en_seekInterval e = (if cf_SeekTableInterval cfg > 0 then cf_SeekTableInterval cfg else 0)"
      "en_seekMaxPoints e = (if cf_SeekTableInterval cfg > 0 then seekMaxPointsFor cfg else 0)"
      "en_seekBodyOff e = (if cf_SeekTableInterval cfg > 0
         then StreamInfoBodyOffset + StreamInfoBodyLen + length (concat (map (metaBlock False) (commentBlocks cfg))) + 4 else 0)"
      "en_seekInterval e > 0 \<longrightarrow> int (length (en_points e)) \<le> en_seekMaxPoints e"
    and md5: "length (si_MD5 si) = 16" "length (si_MD5 (finalInfo md5 e)) = 16"
    and s: "contents s = upfrontStream skb cfg si @ A"
  shows "\<exists>s' pad. runOps w (patchOps md5 e) s = (None, s') \<and> contents s' = finalStream md5 e pad @ A \<and> at_end s'
    \<and> length pad \<le> MaxMetadataBodyLen"
proof -
  define N where "N = nat (seekMaxPointsFor cfg)"
  let ?I = "cf_SeekTableInterval cfg" and ?z = "es_sizes e" and ?off = "en_seekBodyOff e" and ?ps = "en_points e"
  let ?body = "EncodeStreamInfo (finalInfo md5 e) (max (fz_minBlock ?z) minStreamInfoBlockSize)
      (max (fz_maxBlock ?z) minStreamInfoBlockSize) (fz_minFrame ?z) (fz_maxFrame ?z)"
  let ?vb = "concat (map (metaBlock False) (commentBlocks cfg))"
  have lb: "length ?body = 34" using length_EncodeStreamInfo [OF md5(2)] .
  define table where "table = (if ?I > 0 then [OpSeek (SeekStart ?off), OpWrite (EncodeSeekPoints ?ps)]
      @ (if length ?ps < N then
           [OpSeek (SeekStart (?off - 4)), OpWrite (EncodeBlockHeader False TypeSeekTable (length ?ps * SeekPointBytes)),
            OpSeek (SeekStart (?off + length ?ps * SeekPointBytes)),
            OpWrite (EncodeBlockHeader True TypePadding ((N - length ?ps) * SeekPointBytes))]
         else []) else [])"
  have lt: "int (length ?ps) < seekMaxPointsFor cfg \<longleftrightarrow> length ?ps < N" using seekMaxPoints_bounds [of cfg] by (simp add: N_def zless_nat_eq_int_zless)
  have ops: "patchOps md5 e = OpSeek (SeekStart StreamInfoBodyOffset) # OpWrite ?body # table @ [OpSeek SeekEnd]"
    by (simp add: patchOps_def Let_def table_def e lt N_def)
  show ?thesis
  proof (cases "?I > 0")
    case False
    let ?blk = "upfrontBlockSize skb cfg" and ?last = "commentBlocks cfg = []"
    have "contents s = (markFLaC @ EncodeBlockHeader ?last typeStreamInfo 34) @ EncodeStreamInfo si ?blk ?blk 0 0 @ metaBlocks (commentBlocks cfg) @ A"
      using s False by (simp add: upfrontStream_def Let_def streamHeader_def metaBlock_def length_EncodeStreamInfo [OF md5(1)])
    from patch_mid [OF this, of StreamInfoBodyOffset ?body "[OpSeek SeekEnd]"] obtain s1 where
      s1: "runOps w (OpSeek (SeekStart StreamInfoBodyOffset) # OpWrite ?body # [OpSeek SeekEnd]) s = runOps w [OpSeek SeekEnd] s1"
        "contents s1 = finalStream md5 e [] @ A"
      using False lb length_EncodeStreamInfo [OF md5(1)]
      by (auto simp: StreamInfoBodyOffset_def markFLaC_def finalStream_def Let_def tableBlocks_def e streamHeader_def metaBlock_def)
    from to_end [of s1] obtain s2 where "runOps w [OpSeek SeekEnd] s1 = (None, s2)" "contents s2 = contents s1" "at_end s2" by blast
    then show ?thesis using s1 False by (intro exI [of _ s2] exI [of _ "[]"]) (simp add: ops table_def)
  next
    case True
    let ?P = "SeekTablePlaceholder N"
    have c: "contents s = (markFLaC @ EncodeBlockHeader False typeStreamInfo 34) @ EncodeStreamInfo si 0 0 0 0
        @ (?vb @ EncodeBlockHeader False TypeSeekTable (length ?P) @ ?P @ EncodeBlockHeader True TypePadding 0 @ A)"
      using s True
      by (simp add: upfrontStream_def streamHeader_def metaBlocks_append metaBlock_def length_EncodeStreamInfo [OF md5(1)] N_def)
    let ?rest = "table @ [OpSeek SeekEnd]"
    define V where "V = markFLaC @ metaBlock False (typeStreamInfo, ?body) @ ?vb"
    from patch_mid [OF c, of StreamInfoBodyOffset ?body ?rest] obtain s1 where
      s1: "runOps w (OpSeek (SeekStart StreamInfoBodyOffset) # OpWrite ?body # ?rest) s = runOps w ?rest s1"
        "contents s1 = V @ EncodeBlockHeader False TypeSeekTable (length ?P) @ ?P @ EncodeBlockHeader True TypePadding 0 @ A"
      using lb length_EncodeStreamInfo [OF md5(1)] by (auto simp: StreamInfoBodyOffset_def markFLaC_def V_def metaBlock_def)
    have off: "?off = length V + 4"
      using True lb by (simp add: e V_def metaBlock_def markFLaC_def StreamInfoBodyOffset_def StreamInfoBodyLen_def)
    have used: "length ?ps \<le> N" using e(2,3,5) True seekMaxPoints_bounds(1) [of cfg] by (simp add: N_def)
    from patch_table [OF s1(2) off _ used, of "[OpSeek SeekEnd]"] True obtain s2 pad where
      s2: "runOps w ?rest s1 = runOps w [OpSeek SeekEnd] s2" "length pad = (N - length ?ps) * SeekPointBytes"
        "contents s2 = V @ metaBlock False (TypeSeekTable, EncodeSeekPoints ?ps) @ metaBlock True (TypePadding, pad) @ A"
      by (auto simp: table_def)
    have "contents s2 = finalStream md5 e pad @ A"
      using s2(3) True by (simp add: finalStream_def Let_def streamHeader_def metaBlocks_append tableBlocks_def V_def e)
    moreover have "length pad \<le> MaxMetadataBodyLen"
    proof -
      have "int N \<le> maxSeekPoints" using seekMaxPoints_bounds [of cfg] by (simp add: N_def)
      then have "N \<le> 932067" by (simp add: maxSeekPoints_def SeekPointBytes_def)
      then show ?thesis unfolding s2(2) by (simp add: MaxMetadataBodyLen_def SeekPointBytes_def)
    qed
    moreover from to_end [of s2] obtain s3 where "runOps w [OpSeek SeekEnd] s2 = (None, s3)" "contents s3 = contents s2" "at_end s3" by blast
    ultimately show ?thesis using s1(1) s2(1) by (intro exI [of _ s3] exI [of _ pad]) (simp add: ops)
  qed
qed

end

section \<open>The stream a decoder finds\<close>

text \<open>
  \<open>data\<close> is a header that is read as \<open>sm\<close>, followed by the frames of \<open>bytes\<close>; the seek points are
  starts of frames and the tags those of the configuration.
\<close>

definition streamOf :: "(u8 list \<Rightarrow> u16) \<Rightarrow> Config \<Rightarrow> StreamInfo \<Rightarrow> u8 list \<Rightarrow> StreamMeta \<Rightarrow> u8 list \<Rightarrow> bool" where
  "streamOf cs cfg si bytes sm data \<longleftrightarrow>
     (\<exists>hdr c. data = hdr @ concat (map fst c) \<and> length hdr \<le> 2 ^ 26 \<and> framed cs cfg c bytes
        \<and> parses (ReadMetadata :: (StreamMeta, frameCRC) rm) (byte_bits hdr) sm
        \<and> sm_Info sm = si \<and> pointsAt c (sm_SeekPoints sm) \<and> map cutTag (sm_Comments sm) = cf_Tags cfg
        \<and> 16 \<le> sm_MaxBlock sm \<and> sm_MaxBlock sm \<le> encoderBlockSize \<and> sm_MinBlock sm = sm_MaxBlock sm
        \<and> (length c \<le> 1 \<or> sm_MaxBlock sm = encoderBlockSize))"

definition commentMeta :: "Config \<Rightarrow> StreamMeta \<Rightarrow> StreamMeta \<Rightarrow> bool" where
  "commentMeta cfg sm sm' \<longleftrightarrow> (\<exists>v cs. sm' = sm\<lparr>sm_Vendor := v, sm_Comments := cs\<rparr> \<and> map cutTag cs = cf_Tags cfg)"

lemma comment_blocks:
  assumes "metadataOk cfg w" "sm_Comments sm = []"
  shows "\<exists>sm'. applyBlocks (commentBlocks cfg @ bs) sm = applyBlocks bs sm' \<and> commentMeta cfg sm sm'"
    "\<forall>b \<in> set (commentBlocks cfg). plain_block b"
proof -
  show "\<exists>sm'. applyBlocks (commentBlocks cfg @ bs) sm = applyBlocks bs sm' \<and> commentMeta cfg sm sm'"
  proof (cases "wantVorbisComment cfg")
    case True
    then obtain b where b: "buildVorbisComment cfg = Inr b" using assms(1) by (auto simp: metadataOk_def)
    from buildVorbisComment_ok(2) [OF b] obtain cs where "parseVorbisComment b = Inr (commentVendor cfg, cs)" "map cutTag cs = cf_Tags cfg" by blast
    then show ?thesis
      using b True by (auto simp: commentBlocks_def commentBody_def block_types commentMeta_def)
  next
    case False
    then have "cf_Tags cfg = []" by (simp add: wantVorbisComment_def)
    moreover have "sm = sm\<lparr>sm_Vendor := sm_Vendor sm, sm_Comments := []\<rparr>" using assms(2) by simp
    ultimately have "commentMeta cfg sm sm" unfolding commentMeta_def by (metis list.map(1))
    then show ?thesis using False by (intro exI [of _ sm]) (simp add: commentBlocks_def commentBody_def)
  qed
  show "\<forall>b \<in> set (commentBlocks cfg). plain_block b"
    using buildVorbisComment_ok(1) [of cfg]
    by (auto simp: commentBlocks_def commentBody_def plain_block_def block_types split: sum.splits if_splits option.splits)
qed

lemma pointsAt_small:
  assumes "pointsAt c ps" "sum_list (map snd c) < 2 ^ 36"
  shows "filter (\<lambda>p. sk_SampleNumber p \<noteq> PlaceholderSampleNumber) ps = ps"
proof -
  have "sk_SampleNumber (frameStart c i) \<noteq> PlaceholderSampleNumber" for i
  proof -
    have "sum_list (map snd (take i c)) + sum_list (map snd (drop i c)) = sum_list (map snd c)"
      by (metis append_take_drop_id map_append sum_list_append)
    then have "sum_list (map snd (take i c)) < 2 ^ 36" using assms(2) by linarith
    then have "unat (of_nat (sum_list (map snd (take i c))) :: u64) < 2 ^ 36" by (simp add: unat_of_nat)
    then show ?thesis by (auto simp: frameStart_def PlaceholderSampleNumber_def)
  qed
  then show ?thesis using assms(1) by (auto simp: pointsAt_def filter_id_conv)
qed

lemma parses_header:
  assumes "info_ok si" "lo < 2 ^ 16" "hi < 2 ^ 16" "\<forall>b \<in> set bs. plain_block b"
    and "applyBlocks bs (infoMeta si lo hi (fh mod 2 ^ 24)) = Some sm"
  shows "parses (ReadMetadata :: (StreamMeta, 't) rm) (byte_bits (streamHeader si lo hi fl fh bs)) sm"
proof -
  have "length (si_MD5 si) = 16" using assms(1) by (simp add: info_ok_def)
  then show ?thesis
    using parses_ReadMetadata [OF assms(1-3) _ _ assms(4,5), where 't = 't and tag = "[]" and minFrame = "fl mod 2 ^ 24"] streamHeader_mod [of si lo hi fl fh bs] by simp
qed

text \<open>Three blocks behind STREAMINFO are at most 48 MiB.\<close>

lemma length_streamHeader:
  assumes "length (si_MD5 si) = 16" "\<forall>b \<in> set bs. plain_block b" "length bs \<le> 3"
  shows "length (streamHeader si lo hi fl fh bs) \<le> 2 ^ 26"
proof -
  have "length (metaBlocks bs) \<le> length bs * (4 + MaxMetadataBodyLen)"
    using assms(2) by (induction bs) (auto simp: plain_block_def metaBlock_def split: prod.splits)
  also have "\<dots> \<le> 3 * (4 + MaxMetadataBodyLen)" using assms(3) by (intro mult_le_mono1)
  finally show ?thesis using length_EncodeStreamInfo [OF assms(1)]
    by (simp add: streamHeader_def metaBlock_def markFLaC_def MaxMetadataBodyLen_def)
qed

lemma commentBlocks_one: "length (commentBlocks cfg) \<le> 1"
  by (simp add: commentBlocks_def split: option.split)

lemma streamOf_final:
  assumes T: "enTook contents at_end H c F cs cfg bytes (e, s)" and ok: "metadataOk cfg w" and adm: "encodable cfg bytes"
    and si: "info_ok (finalInfo md5 e)" and pad: "length pad \<le> MaxMetadataBodyLen"
    and N: "en_seekMaxPoints e \<le> maxSeekPoints"
  shows "\<exists>sm. streamOf cs cfg (finalInfo md5 e) bytes sm (finalStream md5 e pad @ concat (map fst c))"
proof -
  let ?z = "es_sizes e" and ?ps = "en_points e"
  let ?lo = "max (fz_minBlock ?z) minStreamInfoBlockSize" and ?hi = "max (fz_maxBlock ?z) minStreamInfoBlockSize"
  have t: "framed cs cfg c bytes" "sizesBound ?z c" "pointsAt c ?ps" "es_cfg e = cfg" "validateConfig cfg = None"
    "en_seekInterval e > 0 \<longrightarrow> int (length ?ps) \<le> en_seekMaxPoints e"
    using T by (simp_all add: enTook_def took_def encoderFor_def)
  have z: "?lo = ?hi" "?hi \<le> encoderBlockSize" "16 \<le> ?hi" "?hi < 2 ^ 16"
    using t(2) by (simp_all add: sizesBound_def minStreamInfoBlockSize_def encoderBlockSize_def)
  have "sum_list (map snd c) < 2 ^ 36"
    using framed_samples [OF t(1)] adm sampleBytes_pos [OF t(5)] by (simp add: encodable_def)
  note pts = pointsAt_small [OF t(3) this]
  have blk: "length c \<le> 1 \<or> ?hi = encoderBlockSize"
  proof (cases "length c \<le> 1")
    case False
    then obtain f fs where fs: "c = f # fs" "fs \<noteq> []" by (cases c) auto
    then have "snd f = encoderBlockSize" using framed_first [OF t(1)] by simp
    then have "encoderBlockSize \<le> fz_maxBlock ?z" using t(2) by (auto simp: sizesBound_def fs(1) split: prod.splits)
    then show ?thesis using z(2) by simp
  qed simp
  let ?sm0 = "infoMeta (finalInfo md5 e) ?lo ?hi (fz_maxFrame ?z mod 2 ^ 24)"
  have "sm_Comments ?sm0 = []" "sm_SeekPoints ?sm0 = []" by (simp_all add: infoMeta_def emptyMeta_def)
  note sm0 = this
  from comment_blocks(1) [OF ok sm0(1), of "tableBlocks e pad"] obtain sm1 where
    sm1: "applyBlocks (commentBlocks cfg @ tableBlocks e pad) ?sm0 = applyBlocks (tableBlocks e pad) sm1" "commentMeta cfg ?sm0 sm1" by blast
  have sp: "sm_SeekPoints sm1 = []" using sm1(2) sm0(2) by (auto simp: commentMeta_def)
  define sm where "sm = (if en_seekInterval e > 0 then sm1\<lparr>sm_SeekPoints := ?ps\<rparr> else sm1)"
  have a: "applyBlocks (commentBlocks cfg @ tableBlocks e pad) ?sm0 = Some sm"
    unfolding sm1(1) by (simp add: tableBlocks_def sm_def block_types parseSeekTable_EncodeSeekPoints pts)
  have "en_seekInterval e > 0 \<Longrightarrow> 18 * length ?ps \<le> MaxMetadataBodyLen"
    using t(6) N by (simp add: maxSeekPoints_def SeekPointBytes_def MaxMetadataBodyLen_def)
  then have pl: "\<forall>b \<in> set (commentBlocks cfg @ tableBlocks e pad). plain_block b"
    using comment_blocks(2) [OF ok sm0(1)] pad by (auto simp: tableBlocks_def plain_block_def block_types)
  have "?lo < 2 ^ 16" using z by simp
  from parses_header [OF si this z(4) pl a, where 't = frameCRC and fl = "fz_minFrame ?z"]
  have p: "parses (ReadMetadata :: (StreamMeta, frameCRC) rm) (byte_bits (finalStream md5 e pad)) sm" by (simp add: finalStream_def Let_def t(4))
  have "sm_Info sm = finalInfo md5 e" "sm_MaxBlock sm = ?hi" "sm_MinBlock sm = ?lo" "map cutTag (sm_Comments sm) = cf_Tags cfg"
    "pointsAt c (sm_SeekPoints sm)"
    using sm1(2) sp t(3) by (auto simp: sm_def commentMeta_def infoMeta_def pointsAt_def)
  moreover have "length (finalStream md5 e pad) \<le> 2 ^ 26"
    unfolding finalStream_def Let_def t(4) using si pl commentBlocks_one [of cfg]
    by (intro length_streamHeader) (auto simp: info_ok_def tableBlocks_def)
  ultimately show ?thesis
    using p t(1) z blk unfolding streamOf_def by (intro exI [of _ sm] exI [of _ "finalStream md5 e pad"] exI [of _ c]) simp
qed

lemma streamOf_upfront:
  assumes fr: "framed cs cfg c bytes" and ok: "metadataOk cfg w" and si: "info_ok si" and I: "\<not> cf_SeekTableInterval cfg > 0"
    and v: "validateConfig cfg = None" and tot: "cf_TotalSamples cfg = 0 \<or> cf_TotalSamples cfg = of_nat (length bytes div sampleBytes cfg)"
    and adm: "encodable cfg bytes"
  shows "\<exists>sm. streamOf cs cfg si bytes sm (upfrontStream False cfg si @ concat (map fst c))"
proof -
  let ?blk = "upfrontBlockSize False cfg"
  have z: "16 \<le> ?blk" "?blk \<le> encoderBlockSize" "?blk < 2 ^ 16" using upfrontBlockSize_bounds(1,2) [of cfg] by (simp_all add: encoderBlockSize_def)
  have full: "length c \<le> 1 \<or> ?blk = encoderBlockSize"
  proof (cases "length c \<le> 1")
    case False
    then obtain f fs where fs: "c = f # fs" "fs \<noteq> []" by (cases c) auto
    then have "snd f = encoderBlockSize" using framed_first [OF fr] by simp
    then have "encoderBlockSize \<le> sum_list (map snd c)" by (simp add: fs(1))
    then have "encoderBlockSize \<le> length bytes div sampleBytes cfg" using framed_samples [OF fr] sampleBytes_pos [OF v] by simp
    moreover have "length bytes div sampleBytes cfg < 2 ^ 36" using adm by (simp add: encodable_def)
    ultimately show ?thesis using tot upfrontBlockSize_bounds(2) [of cfg] upfrontBlockSize_bounds(3) [of 4096 cfg]
      by (auto simp: unat_of_nat encoderBlockSize_def)
  qed simp
  let ?sm0 = "infoMeta si ?blk ?blk (0 mod 2 ^ 24)"
  have "sm_Comments ?sm0 = []" by (simp add: infoMeta_def emptyMeta_def)
  note cb = comment_blocks(1) [OF ok this, of "[]"] comment_blocks(2) [OF ok this]
  from cb(1) obtain sm where sm: "applyBlocks (commentBlocks cfg) ?sm0 = Some sm" "commentMeta cfg ?sm0 sm" by auto
  from parses_header [OF si z(3,3) cb(2) sm(1), where 't = frameCRC and fl = 0]
  have "parses (ReadMetadata :: (StreamMeta, frameCRC) rm) (byte_bits (upfrontStream False cfg si)) sm" using I by (simp add: upfrontStream_def Let_def)
  moreover have "sm_Info sm = si" "sm_MaxBlock sm = ?blk" "sm_MinBlock sm = ?blk" "map cutTag (sm_Comments sm) = cf_Tags cfg" "pointsAt c (sm_SeekPoints sm)"
    using sm(2) by (auto simp: commentMeta_def infoMeta_def emptyMeta_def pointsAt_def)
  moreover have "length (upfrontStream False cfg si) \<le> 2 ^ 26"
    using length_streamHeader [OF _ cb(2), of si] I si commentBlocks_one [of cfg] by (simp add: upfrontStream_def Let_def info_ok_def)
  ultimately show ?thesis
    using fr z full unfolding streamOf_def by (intro exI [of _ sm] exI [of _ "upfrontStream False cfg si"] exI [of _ c]) simp
qed

section \<open>Whole streams\<close>

fun enWriteAll ::
  "'f float64 \<Rightarrow> (u8 list \<Rightarrow> u16) \<Rightarrow> 's sink \<Rightarrow> u8 list list \<Rightarrow> 'f Encoder \<times> 's \<Rightarrow> err option \<times> 'f Encoder \<times> 's" where
  "enWriteAll F cs w [] st = (None, st)"
| "enWriteAll F cs w (p # ps) st =
     (case enWrite F cs w p st of
        (_, Some err, st) \<Rightarrow> (Some err, st)
      | (_, None, st) \<Rightarrow> enWriteAll F cs w ps st)"

definition encodedInfo :: "(u8 list \<Rightarrow> u8 list) \<Rightarrow> Config \<Rightarrow> u8 list option \<Rightarrow> u8 list \<Rightarrow> StreamInfo" where
  "encodedInfo md5 cfg knownMD5 B =
     (cfgInfo cfg)\<lparr>si_TotalSamples := of_nat (length B div sampleBytes cfg),
       si_MD5 := (case knownMD5 of Some m \<Rightarrow> m | None \<Rightarrow> if cf_SkipMD5 cfg then replicate 16 0 else md5 B)\<rparr>"

definition encoderInput :: "'f float64 \<Rightarrow> Config \<Rightarrow> 's sink \<Rightarrow> u8 list option \<Rightarrow> u8 list \<Rightarrow> bool" where
  "encoderInput F cfg w knownMD5 bytes \<longleftrightarrow> validateConfig cfg = None \<and> metadataOk cfg w \<and> float64_laws F
     \<and> encodable cfg bytes \<and> sampleBytes cfg dvd length bytes
     \<and> (cf_TotalSamples cfg = 0 \<or> cf_TotalSamples cfg = of_nat (length bytes div sampleBytes cfg))
     \<and> (\<forall>m. knownMD5 = Some m \<longrightarrow> length m = 16)"

lemma finalInfo_encoded:
  assumes "took F cs cfg B (e, c)" "es_si e = startInfo cfg knownMD5" "es_skipHash e = (knownMD5 \<noteq> None \<or> cf_SkipMD5 cfg)"
  shows "finalInfo md5 e = encodedInfo md5 cfg knownMD5 B"
  using assms by (auto simp: finalInfo_def encodedInfo_def took_def startInfo_def cfgInfo_def Let_def split: option.splits)

lemma info_ok_encoded:
  assumes "encoderInput F cfg w knownMD5 B" "\<forall>bs. length (md5 bs) = 16"
  shows "info_ok (encodedInfo md5 cfg knownMD5 B)" "info_ok (startInfo cfg knownMD5)"
  using assms info_ok_cfgInfo [of cfg]
  by (auto simp: encoderInput_def encodedInfo_def startInfo_def info_ok_def encodable_def unat_of_nat split: option.splits)

context appender
begin

lemma enWriteAll_open:
  assumes "enOpen contents at_end H e0 F cs cfg bytes (e, s)" "\<not> en_closed e0" "admissible cfg (bytes @ concat ps)"
  shows "\<exists>e' s'. enWriteAll F cs w ps (e, s) = (None, e', s') \<and> enOpen contents at_end H e0 F cs cfg (bytes @ concat ps) (e', s')"
  using assms
proof (induction ps arbitrary: bytes e s)
  case (Cons p ps)
  have "admissible cfg (bytes @ p)"
    using Cons.prems(3) encodable_prefix [of cfg "bytes @ p" "concat ps"] by (auto simp: admissible_def)
  from enWrite_open [OF Cons.prems(1,2) this] obtain e1 s1 where
    1: "enWrite F cs w p (e, s) = (length p, None, e1, s1)" "enOpen contents at_end H e0 F cs cfg (bytes @ p) (e1, s1)" by blast
  from Cons.IH [OF 1(2) Cons.prems(2)] Cons.prems(3) show ?case by (simp add: 1(1))
qed simp

lemma run_stream:
  assumes I: "encoderInput F cfg w knownMD5 (concat ps)" and prev: "reusableEncoder prev" and s: "at_end s" "contents s = []"
  shows "\<exists>e0 s0 e1 s1 e2 s2 c. initEncoder F (Some w) cfg knownMD5 (prev, s) = (None, Some e0, s0)
    \<and> enWriteAll F cs w ps (e0, s0) = (None, e1, s1)
    \<and> enTook contents at_end (upfrontStream (seekable w) cfg (startInfo cfg knownMD5)) c F cs cfg (concat ps) (e2, s2)
    \<and> startedAs cfg (startInfo cfg knownMD5) (knownMD5 \<noteq> None \<or> cf_SkipMD5 cfg) (seekable w) (e2\<lparr>en_closed := False\<rparr>)
    \<and> enClose F cs md5 w (e1, s1) =
        (if \<not> seekable w then (None, e2, s2) else case runOps w (patchOps md5 e2) s2 of (err, s) \<Rightarrow> (err, e2, s))"
proof -
  let ?H = "upfrontStream (seekable w) cfg (startInfo cfg knownMD5)"
  have i: "validateConfig cfg = None" "metadataOk cfg w" "float64_laws F" "encodable cfg (concat ps)" "sampleBytes cfg dvd length (concat ps)"
    "cf_TotalSamples cfg = 0 \<or> cf_TotalSamples cfg = of_nat (length (concat ps) div sampleBytes cfg)"
    using I by (simp_all add: encoderInput_def)
  from initEncoder_ok [OF i(1) prev s(1) i(2,3)] s(2) obtain e0 s0 where
    0: "initEncoder F (Some w) cfg knownMD5 (prev, s) = (None, Some e0, s0)"
      "startedAs cfg (startInfo cfg knownMD5) (knownMD5 \<noteq> None \<or> cf_SkipMD5 cfg) (seekable w) e0"
      "enOpen contents at_end ?H e0 F cs cfg [] (e0, s0)" by fastforce
  have open_: "\<not> en_closed e0" "en_seekable e0 = seekable w" using 0(2) by (simp_all add: startedAs_def)
  have "admissible cfg ([] @ concat ps)" using i by (simp add: admissible_def)
  from enWriteAll_open [OF 0(3) open_(1) this] obtain e1 s1 where
    1: "enWriteAll F cs w ps (e0, s0) = (None, e1, s1)" "enOpen contents at_end ?H e0 F cs cfg (concat ps) (e1, s1)" by auto
  from enClose_open [OF 1(2) open_(1) i(4-6), of md5] obtain e2 s2 c where
    2: "enTook contents at_end ?H c F cs cfg (concat ps) (e2, s2)" "sameSetup (e0\<lparr>en_closed := True\<rparr>) e2"
      "enClose F cs md5 w (e1, s1) = (if \<not> seekable w then (None, e2, s2) else case runOps w (patchOps md5 e2) s2 of (err, s) \<Rightarrow> (err, e2, s))"
    unfolding open_(2) by blast
  have "startedAs cfg (startInfo cfg knownMD5) (knownMD5 \<noteq> None \<or> cf_SkipMD5 cfg) (seekable w) (e2\<lparr>en_closed := False\<rparr>)"
    using 0(2) 2(2) by (simp add: startedAs_def sameSetup_def)
  then show ?thesis using 0(1) 1(1) 2 by blast
qed

lemma stream_upfront:
  assumes I: "encoderInput F cfg w knownMD5 (concat ps)" and prev: "reusableEncoder prev" and s: "at_end s" "contents s = []"
    and md5: "\<forall>bs. length (md5 bs) = 16" and w: "\<not> seekable w"
  shows "\<exists>e0 s0 e1 s1 e2 s2 sm. initEncoder F (Some w) cfg knownMD5 (prev, s) = (None, Some e0, s0)
    \<and> enWriteAll F cs w ps (e0, s0) = (None, e1, s1) \<and> enClose F cs md5 w (e1, s1) = (None, e2, s2)
    \<and> streamOf cs cfg (startInfo cfg knownMD5) (concat ps) sm (contents s2) \<and> reusableEncoder (Some e2)"
proof -
  from run_stream [OF I prev s, of cs md5] w obtain e0 s0 e1 s1 e2 s2 c where
    r: "initEncoder F (Some w) cfg knownMD5 (prev, s) = (None, Some e0, s0)" "enWriteAll F cs w ps (e0, s0) = (None, e1, s1)"
      "enTook contents at_end (upfrontStream False cfg (startInfo cfg knownMD5)) c F cs cfg (concat ps) (e2, s2)"
      "enClose F cs md5 w (e1, s1) = (None, e2, s2)" by auto
  have fr: "framed cs cfg c (concat ps)" "contents s2 = upfrontStream False cfg (startInfo cfg knownMD5) @ concat (map fst c)"
    "reusableEncoder (Some e2)"
    using r(3) by (simp_all add: enTook_def took_def encoderFor_def reusableEncoder_def)
  have "metadataOk cfg w" "\<not> cf_SeekTableInterval cfg > 0" using I w by (auto simp: encoderInput_def metadataOk_def)
  moreover have "validateConfig cfg = None" "encodable cfg (concat ps)"
    "cf_TotalSamples cfg = 0 \<or> cf_TotalSamples cfg = of_nat (length (concat ps) div sampleBytes cfg)"
    using I by (simp_all add: encoderInput_def)
  ultimately obtain sm where "streamOf cs cfg (startInfo cfg knownMD5) (concat ps) sm (contents s2)"
    using streamOf_upfront [OF fr(1) _ info_ok_encoded(2) [OF I md5]] fr(2) by metis
  then show ?thesis using r fr(3) by blast
qed

end

context patcher
begin

lemma stream_patched:
  assumes I: "encoderInput F cfg w knownMD5 (concat ps)" and prev: "reusableEncoder prev" and s: "at_end s" "contents s = []"
    and md5: "\<forall>bs. length (md5 bs) = 16"
  shows "\<exists>e0 s0 e1 s1 e2 s2 sm. initEncoder F (Some w) cfg knownMD5 (prev, s) = (None, Some e0, s0)
    \<and> enWriteAll F cs w ps (e0, s0) = (None, e1, s1) \<and> enClose F cs md5 w (e1, s1) = (None, e2, s2)
    \<and> streamOf cs cfg (encodedInfo md5 cfg knownMD5 (concat ps)) (concat ps) sm (contents s2) \<and> reusableEncoder (Some e2)"
proof -
  have w: "seekable w" using seek_end by (auto simp: seekable_def)
  from run_stream [OF I prev s, of cs md5] w obtain e0 s0 e1 s1 e2 s2 c where
    r: "initEncoder F (Some w) cfg knownMD5 (prev, s) = (None, Some e0, s0)" "enWriteAll F cs w ps (e0, s0) = (None, e1, s1)"
      "enTook contents at_end (upfrontStream True cfg (startInfo cfg knownMD5)) c F cs cfg (concat ps) (e2, s2)"
      "startedAs cfg (startInfo cfg knownMD5) (knownMD5 \<noteq> None \<or> cf_SkipMD5 cfg) True (e2\<lparr>en_closed := False\<rparr>)"
      "enClose F cs md5 w (e1, s1) = (case runOps w (patchOps md5 e2) s2 of (err, s) \<Rightarrow> (err, e2, s))" by auto
  have T: "took F cs cfg (concat ps) (e2, c)" "contents s2 = upfrontStream True cfg (startInfo cfg knownMD5) @ concat (map fst c)"
    "reusableEncoder (Some e2)" "en_seekInterval e2 > 0 \<longrightarrow> int (length (en_points e2)) \<le> en_seekMaxPoints e2"
    using r(3) by (simp_all add: enTook_def took_def encoderFor_def reusableEncoder_def)
  have st: "es_cfg e2 = cfg" "es_si e2 = startInfo cfg knownMD5" "es_skipHash e2 = (knownMD5 \<noteq> None \<or> cf_SkipMD5 cfg)"
    "en_seekInterval e2 = (if cf_SeekTableInterval cfg > 0 then cf_SeekTableInterval cfg else 0)"
    "en_seekMaxPoints e2 = (if cf_SeekTableInterval cfg > 0 then seekMaxPointsFor cfg else 0)"
    "en_seekBodyOff e2 = (if cf_SeekTableInterval cfg > 0
       then StreamInfoBodyOffset + StreamInfoBodyLen + length (concat (map (metaBlock False) (commentBlocks cfg))) + 4 else 0)"
    using r(4) by (simp_all add: startedAs_def)
  have fi: "finalInfo md5 e2 = encodedInfo md5 cfg knownMD5 (concat ps)" by (rule finalInfo_encoded [OF T(1) st(2,3)])
  note ok = info_ok_encoded [OF I md5]
  have "length (si_MD5 (startInfo cfg knownMD5)) = 16" "length (si_MD5 (finalInfo md5 e2)) = 16" using ok fi by (simp_all add: info_ok_def)
  from patchOps_ok [OF st(1,4-6) T(4) this T(2)] obtain s3 pad where
    p: "runOps w (patchOps md5 e2) s2 = (None, s3)" "contents s3 = finalStream md5 e2 pad @ concat (map fst c)" "length pad \<le> MaxMetadataBodyLen"
    by blast
  have N: "en_seekMaxPoints e2 \<le> maxSeekPoints"
    using st(5) seekMaxPoints_bounds(2) [of cfg] by (simp add: maxSeekPoints_def SeekPointBytes_def)
  have "metadataOk cfg w" "encodable cfg (concat ps)" using I by (simp_all add: encoderInput_def)
  from streamOf_final [OF r(3) this _ p(3) N, of md5] ok(1) fi obtain sm where
    "streamOf cs cfg (encodedInfo md5 cfg knownMD5 (concat ps)) (concat ps) sm (contents s3)" by (auto simp: p(2))
  moreover have "enClose F cs md5 w (e1, s1) = (None, e2, s3)" using r(5) p(1) by simp
  ultimately show ?thesis using r(1,2) T(3) by blast
qed

end

section \<open>The one-shot encoder\<close>

text \<open>The declared total plays no part in what a frame carries.\<close>

lemma total_simps [simp]:
  "cfgBytesPS (cfg\<lparr>cf_TotalSamples := t\<rparr>) = cfgBytesPS cfg" "sampleBytes (cfg\<lparr>cf_TotalSamples := t\<rparr>) = sampleBytes cfg"
  "encodable (cfg\<lparr>cf_TotalSamples := t\<rparr>) B = encodable cfg B" "wantVorbisComment (cfg\<lparr>cf_TotalSamples := t\<rparr>) = wantVorbisComment cfg"
  "chunkFrame (cfg\<lparr>cf_TotalSamples := t\<rparr>) = chunkFrame cfg"
  by (simp_all add: sampleBytes_def cfgBytesPS_def encodable_def cfgInfo_def wantVorbisComment_def chunkFrame_def blockFrame_def fun_eq_iff)

lemma total_comment [simp]: "buildVorbisComment (cfg\<lparr>cf_TotalSamples := t\<rparr>) = buildVorbisComment cfg"
proof -
  have "cf_Vendor (cfg\<lparr>cf_TotalSamples := t\<rparr>) = cf_Vendor cfg" "cf_Tags (cfg\<lparr>cf_TotalSamples := t\<rparr>) = cf_Tags cfg"
    "wantVorbisComment (cfg\<lparr>cf_TotalSamples := t\<rparr>) = wantVorbisComment cfg" by simp_all
  then show ?thesis unfolding buildVorbisComment_def commentVendor_def by (simp only:)
qed

lemma total_metadata [simp]: "metadataOk (cfg\<lparr>cf_TotalSamples := t\<rparr>) w = metadataOk cfg w"
  by (simp add: metadataOk_def)

lemma total_decodes [simp]: "decodes cs (cfgInfo (cfg\<lparr>cf_TotalSamples := t\<rparr>)) = decodes cs (cfgInfo cfg)"
  by (rule decodes_cong) (simp_all add: cfgInfo_def)

lemma framed_total: "framed cs cfg c B \<Longrightarrow> framed cs (cfg\<lparr>cf_TotalSamples := t\<rparr>) c B"
proof (induction rule: framed.induct)
  case (framed_next c B b n buf)
  show ?case by (rule framed.framed_next [OF framed_next.IH]) (use framed_next.hyps in \<open>simp_all add: frameShape_def\<close>)
qed (rule framed_none)

lemma framed_total_iff [simp]: "framed cs (cfg\<lparr>cf_TotalSamples := t\<rparr>) c B \<longleftrightarrow> framed cs cfg c B"
  using framed_total [of cs "cfg\<lparr>cf_TotalSamples := t\<rparr>" c B "cf_TotalSamples cfg"] framed_total [of cs cfg c B t] by auto

lemma oneShotConfig_ok:
  assumes v: "validateConfig (cfg\<lparr>cf_TotalSamples := 0\<rparr>) = None" and pcm: "encodable cfg pcm" "sampleBytes cfg dvd length pcm"
  shows "oneShotConfig md5 cfg pcm =
    Inr (cfg\<lparr>cf_TotalSamples := of_nat (length pcm div sampleBytes cfg)\<rparr>, if cf_SkipMD5 cfg then None else Some (md5 pcm))"
proof -
  have b: "4 \<le> cf_BitDepth cfg" "1 \<le> cf_Channels cfg" using v by (auto simp: validateConfig_None)
  then have "(cf_BitDepth cfg + 7) sdiv 8 * cf_Channels cfg = int (sampleBytes cfg)"
    by (simp add: sampleBytes_def cfgBytesPS_def signed_divide_int_def sgn_if)
  moreover have "length pcm div sampleBytes cfg < 2 ^ 36" using pcm(1) by (simp add: encodable_def)
  then have "\<not> int (length pcm) div int (sampleBytes cfg) > uint maxTotalSamples"
    by (simp add: maxTotalSamples_def flip: zdiv_int)
  ultimately show ?thesis
    using pcm(2) sampleBytes_pos [OF v]
    by (simp add: oneShotConfig_def Let_def flip: zdiv_int zmod_int)
qed

definition oneShotInput :: "'f float64 \<Rightarrow> Config \<Rightarrow> 's sink \<Rightarrow> u8 list \<Rightarrow> bool" where
  "oneShotInput F cfg w pcm \<longleftrightarrow> validateConfig (cfg\<lparr>cf_TotalSamples := 0\<rparr>) = None \<and> metadataOk cfg w \<and> float64_laws F
     \<and> encodable cfg pcm \<and> sampleBytes cfg dvd length pcm"

lemma oneShot_encoderInput:
  assumes "oneShotInput F cfg w pcm" "\<forall>bs. length (md5 bs) = 16"
  defines "cfg' \<equiv> cfg\<lparr>cf_TotalSamples := of_nat (length pcm div sampleBytes cfg)\<rparr>"
    and "known \<equiv> if cf_SkipMD5 cfg then None else Some (md5 pcm)"
  shows "encoderInput F cfg' w known pcm" "startInfo cfg' known = encodedInfo md5 cfg' known pcm"
    "encodedInfo md5 cfg' known pcm = measuredInfo md5 cfg (cf_SkipMD5 cfg) pcm" "oneShotConfig md5 cfg pcm = Inr (cfg', known)"
proof -
  have n: "length pcm div sampleBytes cfg < 2 ^ 36" using assms(1) by (simp add: oneShotInput_def encodable_def)
  then have "(of_nat (length pcm div sampleBytes cfg) :: u64) \<le> maxTotalSamples"
    unfolding unat_maxTotal by (simp add: unat_of_nat)
  then have v: "validateConfig cfg' = None" using assms(1) by (simp add: oneShotInput_def validateConfig_None cfg'_def)
  have same: "sampleBytes cfg' = sampleBytes cfg" "encodable cfg' pcm = encodable cfg pcm" "metadataOk cfg' w = metadataOk cfg w"
    by (simp_all add: cfg'_def)
  show "encoderInput F cfg' w known pcm"
    using assms(1,2) v unfolding encoderInput_def same by (simp add: oneShotInput_def cfg'_def known_def)
  show "startInfo cfg' known = encodedInfo md5 cfg' known pcm"
    unfolding startInfo_def encodedInfo_def same by (simp add: cfg'_def known_def cfgInfo_def)
  show "encodedInfo md5 cfg' known pcm = measuredInfo md5 cfg (cf_SkipMD5 cfg) pcm"
    unfolding measuredInfo_def encodedInfo_def same by (simp add: cfg'_def known_def cfgInfo_def)
  show "oneShotConfig md5 cfg pcm = Inr (cfg', known)"
    using oneShotConfig_ok [of cfg pcm md5] assms(1) by (simp add: oneShotInput_def cfg'_def known_def)
qed

lemma streamOf_total [simp]: "streamOf cs (cfg\<lparr>cf_TotalSamples := t\<rparr>) si bytes sm data = streamOf cs cfg si bytes sm data"
  by (simp add: streamOf_def)

lemma EncodeInterleaved_run:
  assumes "oneShotConfig md5 cfg pcm = Inr (cfg', known)" "initEncoder F (Some w) cfg' known (prev, s) = (None, Some e0, s0)"
    and "enWriteAll F cs w [pcm] (e0, s0) = (None, e1, s1)" "enClose F cs md5 w (e1, s1) = (None, e2, s2)"
  shows "EncodeInterleaved F cs md5 (Some w) cfg pcm (prev, s) = (None, Some e2, s2)"
  using assms by (auto simp: EncodeInterleaved_def split: prod.splits option.splits)

context appender
begin

lemma oneshot_upfront:
  assumes I: "oneShotInput F cfg w pcm" and prev: "reusableEncoder prev" and s: "at_end s" "contents s = []"
    and md5: "\<forall>bs. length (md5 bs) = 16" and w: "\<not> seekable w"
  shows "\<exists>e2 s2 sm. EncodeInterleaved F cs md5 (Some w) cfg pcm (prev, s) = (None, Some e2, s2)
    \<and> streamOf cs cfg (measuredInfo md5 cfg (cf_SkipMD5 cfg) pcm) pcm sm (contents s2) \<and> reusableEncoder (Some e2)"
proof -
  let ?cfg = "cfg\<lparr>cf_TotalSamples := of_nat (length pcm div sampleBytes cfg)\<rparr>" and ?known = "if cf_SkipMD5 cfg then None else Some (md5 pcm)"
  note o = oneShot_encoderInput [OF I md5]
  from stream_upfront [where ps = "[pcm]", simplified concat.simps append_Nil2, OF o(1) prev s md5 w, of cs] obtain e0 s0 e1 s1 e2 s2 sm where
    r: "initEncoder F (Some w) ?cfg ?known (prev, s) = (None, Some e0, s0)" "enWriteAll F cs w [pcm] (e0, s0) = (None, e1, s1)"
      "enClose F cs md5 w (e1, s1) = (None, e2, s2)" "streamOf cs ?cfg (startInfo ?cfg ?known) pcm sm (contents s2)" "reusableEncoder (Some e2)"
    by blast
  from EncodeInterleaved_run [OF o(4) r(1-3)] r(4,5) show ?thesis unfolding o(2,3) streamOf_total by blast
qed

end

context patcher
begin

lemma oneshot_patched:
  assumes I: "oneShotInput F cfg w pcm" and prev: "reusableEncoder prev" and s: "at_end s" "contents s = []"
    and md5: "\<forall>bs. length (md5 bs) = 16"
  shows "\<exists>e2 s2 sm. EncodeInterleaved F cs md5 (Some w) cfg pcm (prev, s) = (None, Some e2, s2)
    \<and> streamOf cs cfg (measuredInfo md5 cfg (cf_SkipMD5 cfg) pcm) pcm sm (contents s2) \<and> reusableEncoder (Some e2)"
proof -
  let ?cfg = "cfg\<lparr>cf_TotalSamples := of_nat (length pcm div sampleBytes cfg)\<rparr>" and ?known = "if cf_SkipMD5 cfg then None else Some (md5 pcm)"
  note o = oneShot_encoderInput [OF I md5]
  from stream_patched [where ps = "[pcm]", simplified concat.simps append_Nil2, OF o(1) prev s md5, of cs] obtain e0 s0 e1 s1 e2 s2 sm where
    r: "initEncoder F (Some w) ?cfg ?known (prev, s) = (None, Some e0, s0)" "enWriteAll F cs w [pcm] (e0, s0) = (None, e1, s1)"
      "enClose F cs md5 w (e1, s1) = (None, e2, s2)" "streamOf cs ?cfg (encodedInfo md5 ?cfg ?known pcm) pcm sm (contents s2)" "reusableEncoder (Some e2)"
    by blast
  from EncodeInterleaved_run [OF o(4) r(1-3)] r(4,5) show ?thesis unfolding o(3) streamOf_total by blast
qed

end

end
