(* ===== verification/Pcm_Stream.thy ===== *)
theory Pcm_Stream
  imports Pcm_Encoder Pcm_Decoder
begin

text \<open>
  Encoder and decoder together: what a decoder makes of a stream that an encoder wrote, whole or
  cut off behind a frame.
\<close>

section \<open>Streams and their decoders\<close>

text \<open>What STREAMINFO may say of the bytes \<open>B\<close>: unknown fields, or the right ones.\<close>

definition infoFor :: "(u8 list \<Rightarrow> u8 list) \<Rightarrow> Config \<Rightarrow> u8 list \<Rightarrow> StreamInfo \<Rightarrow> bool" where
  "infoFor md5 cfg B si \<longleftrightarrow> sameFormat si (cfgInfo cfg) \<and> (si_TotalSamples si = 0 \<or> si_TotalSamples si = of_nat (length B div sampleBytes cfg))
     \<and> (si_MD5 si = zeroMD5 \<or> si_MD5 si = md5 B)"

lemma infoFor_encoded:
  assumes "encoderInput F cfg w known B" "known = None \<or> known = Some (md5 B)"
  shows "infoFor md5 cfg B (encodedInfo md5 cfg known B)" "infoFor md5 cfg B (startInfo cfg known)"
  using assms
  by (auto simp: infoFor_def encodedInfo_def startInfo_def encoderInput_def sameFormat_def cfgInfo_def zeroMD5_def split: option.splits)

lemma infoFor_measured: "infoFor md5 cfg B (measuredInfo md5 cfg (cf_SkipMD5 cfg) B)"
  by (simp add: infoFor_def measuredInfo_def sameFormat_def zeroMD5_def)

lemma verdict_complete:
  assumes "infoFor md5 cfg B (de_info d)" "de_md5 d = []" "de_decoded d = 0"
  shows "verdictOf md5 d B (length B div sampleBytes cfg) = EOF"
  using assms by (auto simp: verdictOf_def infoFor_def Let_def)

lemma streamOf_parts:
  assumes "streamOf cs cfg si B sm data"
  obtains hdr c where "data = hdr @ concat (map fst c)" "framesFrom cs cfg 0 c B" "sm_Info sm = si"
    "parses (ReadMetadata :: (StreamMeta, frameCRC) rm) (byte_bits hdr) sm" "map cutTag (sm_Comments sm) = cf_Tags cfg"
    "framed cs cfg c B" "pointsAt c (sm_SeekPoints sm)" "16 \<le> sm_MaxBlock sm" "sm_MaxBlock sm \<le> encoderBlockSize"
    "length c \<le> 1 \<or> sm_MaxBlock sm = encoderBlockSize" "length hdr \<le> 2 ^ 26"
  using assms framed_framesFrom by (auto simp: streamOf_def)

lemma streamOf_decoded:
  assumes S: "streamOf cs cfg si B sm data" and v: "validateConfig cfg = None" and si: "infoFor md5 cfg B si"
    and src: "src_bytes 0 (so_reads src) = (data, EOF)" "measurable src"
    and opts: "outDepth opts (si_BitDepth (cfgInfo cfg)) = Some out"
    and m: "m \<le> 0 \<or> int (length (convertPcm (cfgBytesPS cfg) (si_BitDepth (cfgInfo cfg)) out B)) \<le> m"
  shows "DecodeInterleavedLimit cs md5 (Some src) m opts = Some (Inr (convertPcm (cfgBytesPS cfg) (si_BitDepth (cfgInfo cfg)) out B), si)"
    "\<exists>d. NewDecoder (Some src) opts = Inr d \<and> de_info d = si \<and> decTags d = cf_Tags cfg
      \<and> serves cs md5 cfg d (convertPcm (cfgBytesPS cfg) (si_BitDepth (cfgInfo cfg)) out B)"
proof -
  obtain hdr c where s: "data = hdr @ concat (map fst c)" "framesFrom cs cfg 0 c B" "sm_Info sm = si"
    "parses (ReadMetadata :: (StreamMeta, frameCRC) rm) (byte_bits hdr) sm" "map cutTag (sm_Comments sm) = cf_Tags cfg"
    using streamOf_parts [OF S] by metis
  have f: "sameFormat (sm_Info sm) (cfgInfo cfg)" using si s(3) by (simp add: infoFor_def)
  from DecodeInterleavedLimit_stream [OF src(1) [unfolded s(1)] src(2) s(4,2) v f opts m, of md5] obtain d where
    d: "NewDecoder (Some src) opts = Inr d" "decTags d = cf_Tags cfg" "de_info d = si" "de_md5 d = []" "de_decoded d = 0"
      "standsBefore cs cfg 0 c B d" "de_outBits d = out" "de_err d = None" "de_pending d = []"
    and r: "DecodeInterleavedLimit cs md5 (Some src) m opts = Some (if verdictOf md5 d B (length B div sampleBytes cfg) = EOF
        then Inr (convertPcm (cfgBytesPS cfg) (si_BitDepth (cfgInfo cfg)) out B) else Inl (verdictOf md5 d B (length B div sampleBytes cfg)), si)"
    using s(3,5) by auto
  have V: "verdictOf md5 d B (length B div sampleBytes cfg) = EOF" using verdict_complete si d(3-5) by simp
  then show "DecodeInterleavedLimit cs md5 (Some src) m opts = Some (Inr (convertPcm (cfgBytesPS cfg) (si_BitDepth (cfgInfo cfg)) out B), si)"
    using r by simp
  have "serves cs md5 cfg d (convertPcm (cfgBytesPS cfg) (si_BitDepth (cfgInfo cfg)) out B)"
    by (rule servesI [OF d(8) d(6) _ V]) (simp add: d(7,9) outPcm_def)
  then show "\<exists>d. NewDecoder (Some src) opts = Inr d \<and> de_info d = si \<and> decTags d = cf_Tags cfg
      \<and> serves cs md5 cfg d (convertPcm (cfgBytesPS cfg) (si_BitDepth (cfgInfo cfg)) out B)" using d by blast
qed

text \<open>Nothing to convert: the bytes themselves.\<close>

lemma native_depth:
  assumes "lastConvert opts = None \<or> lastConvert opts = Some (int depth) \<and> depth \<in> set [8, 16, 24, 32]"
  shows "outDepth opts depth = Some depth" "convertPcm k depth depth B = B"
  using assms by (auto simp: outDepth_def convertPcm_def)

text \<open>A stream cut behind its first \<open>k\<close> frames.\<close>

lemma streamOf_cut:
  fixes md5 :: "u8 list \<Rightarrow> u8 list"
  assumes S: "streamOf cs cfg si B sm data" and v: "validateConfig cfg = None" and si: "sameFormat si (cfgInfo cfg)"
    and tot: "si_TotalSamples si = of_nat (length B div sampleBytes cfg)" "length B div sampleBytes cfg < 2 ^ 36"
    and skip: "SkipMD5Verification \<in> set opts \<or> si_MD5 si = zeroMD5" and opts: "outDepth opts (si_BitDepth (cfgInfo cfg)) = Some out"
  obtains hdr c where "data = hdr @ concat (map fst c)" "framesFrom cs cfg 0 c B" "sm_Info sm = si"
    "parses (ReadMetadata :: (StreamMeta, frameCRC) rm) (byte_bits hdr) sm" "framed cs cfg c B"
    "\<And>k src. k < length c \<Longrightarrow> src_bytes 0 (so_reads src) = (hdr @ concat (map fst (take k c)), EOF) \<Longrightarrow> measurable src
      \<Longrightarrow> DecodeInterleavedLimit cs md5 (Some src) 0 opts = Some (Inl (ErrTruncatedStream None), si)"
proof -
  obtain hdr c where s: "data = hdr @ concat (map fst c)" "framesFrom cs cfg 0 c B" "sm_Info sm = si"
    "parses (ReadMetadata :: (StreamMeta, frameCRC) rm) (byte_bits hdr) sm" "framed cs cfg c B"
    using streamOf_parts [OF S] by metis
  have "DecodeInterleavedLimit cs md5 (Some src) 0 opts = Some (Inl (ErrTruncatedStream None), si)"
    if k: "k < length c" and src: "src_bytes 0 (so_reads src) = (hdr @ concat (map fst (take k c)), EOF)" "measurable src" for k src
  proof -
    let ?n = "sum_list (map snd (take k c))"
    let ?B = "take (sampleBytes cfg * ?n) B" 
    have f: "sameFormat (sm_Info sm) (cfgInfo cfg)" using si s(3) by simp
    note L = framed_samples [OF s(5)]
    have "length c = length (take k c) + length (drop k c)" "drop k c \<noteq> []" using k by simp_all
    moreover have "\<forall>x \<in> set c. 1 \<le> snd x" using s(5) by (induction rule: framed.induct) auto
    ultimately have "1 \<le> sum_list (map snd (drop k c))"
      using in_set_dropD [of "hd (drop k c)" k c] by (cases "drop k c") (fastforce simp: Suc_le_eq)+
    moreover have "sum_list (map snd c) = ?n + sum_list (map snd (drop k c))"
      by (metis append_take_drop_id map_append sum_list_append)
    ultimately have n: "?n < sum_list (map snd c)" "length B div sampleBytes cfg = sum_list (map snd c)"
      using L sampleBytes_pos [OF v] by simp_all
    then have "length ?B div sampleBytes cfg = ?n" using L sampleBytes_pos [OF v] by (simp add: min_absorb1)
    moreover have "(of_nat ?n :: u64) < of_nat (sum_list (map snd c))"
      using n tot(2) by (simp add: word_less_nat_alt unat_of_nat)
    ultimately have lt: "(of_nat (length ?B div sampleBytes cfg) :: u64) < si_TotalSamples si" unfolding tot(1) n(2) by simp
    then have "si_TotalSamples si \<noteq> 0" by (auto simp: word_less_nat_alt)
    with lt have "verdictOf md5 d ?B (length ?B div sampleBytes cfg) = ErrTruncatedStream None"
      if "de_info d = si" "de_seeked d = False" "de_skipMD5 d = (SkipMD5Verification \<in> set opts)" "de_decoded d = 0" for d
      unfolding verdictOf_def that Let_def using skip by auto
    then show ?thesis
      using DecodeInterleavedLimit_stream [OF src s(4) framesFrom_take [OF s(2)] v f opts, of 0 md5] s(3) by auto
  qed
  then show thesis using that s by blast
qed

section \<open>A stream from the first byte to the last\<close>

text \<open>What a client does: set the encoder up, write the input in pieces, close.\<close>

definition encodeStream ::
  "'f float64 \<Rightarrow> (u8 list \<Rightarrow> u16) \<Rightarrow> (u8 list \<Rightarrow> u8 list) \<Rightarrow> 's sink \<Rightarrow> Config \<Rightarrow> u8 list list
   \<Rightarrow> 'f Encoder option \<times> 's \<Rightarrow> err option \<times> 'f Encoder option \<times> 's" where
  "encodeStream F cs md5 w cfg ps st =
     (case resetEncoder F (Some w) cfg st of
        (None, Some e, s) \<Rightarrow>
          (case enWriteAll F cs w ps (e, s) of
             (None, e, s) \<Rightarrow> (case enClose F cs md5 w (e, s) of (err, e, s) \<Rightarrow> (err, Some e, s))
           | (Some err, e, s) \<Rightarrow> (Some err, Some e, s))
      | r \<Rightarrow> r)"

lemma encodeStream_run:
  assumes "initEncoder F (Some w) cfg None (prev, s) = (None, Some e0, s0)"
    and "enWriteAll F cs w ps (e0, s0) = (None, e1, s1)" "enClose F cs md5 w (e1, s1) = (None, e2, s2)"
  shows "encodeStream F cs md5 w cfg ps (prev, s) = (None, Some e2, s2)"
  using assms by (simp add: encodeStream_def resetEncoder_def)

definition emptyFile :: fileState where "emptyFile = \<lparr>fl_data = [], fl_pos = 0\<rparr>"

lemma disk_stream:
  assumes "encoderInput F cfg fileSink None (concat ps)" "reusableEncoder prev" "\<forall>bs. length (md5 bs) = 16"
  shows "\<exists>e f sm. encodeStream F cs md5 fileSink cfg ps (prev, emptyFile) = (None, Some e, f) \<and> reusableEncoder (Some e)
    \<and> streamOf cs cfg (encodedInfo md5 cfg None (concat ps)) (concat ps) sm (fl_data f)"
proof -
  have f: "fl_pos emptyFile = length (fl_data emptyFile)" "fl_data emptyFile = []" by (simp_all add: emptyFile_def)
  from disk.stream_patched [OF assms(1,2) f assms(3), of cs] show ?thesis by (blast intro: encodeStream_run)
qed

lemma buffer_stream:
  assumes "encoderInput F cfg bufferSink None (concat ps)" "reusableEncoder prev" "\<forall>bs. length (md5 bs) = 16"
  shows "\<exists>e data sm. encodeStream F cs md5 bufferSink cfg ps (prev, []) = (None, Some e, data) \<and> reusableEncoder (Some e)
    \<and> streamOf cs cfg (cfgInfo cfg) (concat ps) sm data"
proof -
  have "\<not> seekable bufferSink" by (simp add: seekable_def bufferSink_def)
  from buffer.stream_upfront [OF assms(1,2) _ _ assms(3) this, of "[]" cs] show ?thesis
    by (auto simp: startInfo_def intro: encodeStream_run)
qed

end
