(* ===== verification/Pcm_Landing.thy ===== *)
theory Pcm_Landing
  imports Pcm_Outcome Pcm_Stream
begin

text \<open>
  Seeking in a file an encoder wrote. Every offset the search keeps as its lower bound is the
  start of a frame at or before the target, so the scan from there reaches the frame that holds the
  target, and the decoder serves the PCM from the target on. The binary search relies on what it finds
  being frames of the file; a stream of at most \<open>linearWindow\<close> bytes is scanned without it.
\<close>

section \<open>Where the frames of a file stand\<close>

definition frameOff :: "u8 list \<Rightarrow> (u8 list \<times> nat) list \<Rightarrow> nat \<Rightarrow> nat" where
  "frameOff pre c k = length pre + length (concat (map fst (take k c)))"

definition sampleOff :: "(u8 list \<times> nat) list \<Rightarrow> nat \<Rightarrow> nat" where
  "sampleOff c k = sum_list (map snd (take k c))"

definition fileFrame :: "Config \<Rightarrow> (u8 list \<times> nat) list \<Rightarrow> u8 list \<Rightarrow> nat \<Rightarrow> Frame" where
  "fileFrame cfg c B k =
     chunkFrame cfg k (snd (c ! k)) (take (sampleBytes cfg * snd (c ! k)) (drop (sampleBytes cfg * sampleOff c k) B))"

lemma offsets_Suc:
  assumes "k < length c"
  shows "frameOff pre c (Suc k) = frameOff pre c k + length (fst (c ! k))" "sampleOff c (Suc k) = sampleOff c k + snd (c ! k)"
  using assms by (simp_all add: frameOff_def sampleOff_def take_Suc_conv_app_nth)

lemma offsets_all: "frameOff pre c (length c) = length (pre @ concat (map fst c))" "sampleOff c (length c) = sum_list (map snd c)"
  by (simp_all add: frameOff_def sampleOff_def)

lemma drop_to_frame: "drop (frameOff pre c k) (pre @ concat (map fst c)) = concat (map fst (drop k c))"
proof -
  have "concat (map fst c) = concat (map fst (take k c)) @ concat (map fst (drop k c))"
    by (metis append_take_drop_id concat_append map_append)
  then show ?thesis by (simp add: frameOff_def)
qed

lemma framesFrom_drop:
  "framesFrom cs cfg i c B \<Longrightarrow> k \<le> length c \<Longrightarrow> framesFrom cs cfg (i + k) (drop k c) (drop (sampleBytes cfg * sampleOff c k) B)"
proof (induction cs cfg i c B arbitrary: k rule: framesFrom.induct)
  case (2 cs cfg i buf n c B)
  show ?case
  proof (cases k)
    case 0
    then show ?thesis using "2.prems"(1) by (simp only: sampleOff_def) simp
  next
    case (Suc m)
    have "framesFrom cs cfg (Suc i + m) (drop m c) (drop (sampleBytes cfg * sampleOff c m) (drop (sampleBytes cfg * n) B))"
      using 2 Suc by simp
    then show ?thesis by (simp add: Suc sampleOff_def algebra_simps)
  qed
qed (simp add: sampleOff_def)

text \<open>The frames of a stream, each at its place.\<close>

definition frameFile :: "(u8 list \<Rightarrow> u16) \<Rightarrow> Config \<Rightarrow> (u8 list \<times> nat) list \<Rightarrow> u8 list \<Rightarrow> bool" where
  "frameFile cs cfg c B \<longleftrightarrow> framesFrom cs cfg 0 c B \<and> validateConfig cfg = None"

lemma nth_frame:
  assumes "frameFile cs cfg c B" "k < length c"
  shows "decodes cs (cfgInfo cfg) (fst (c ! k)) (fileFrame cfg c B k)" "take 2 (fst (c ! k)) = [0xFF, 0xF8]" "1 \<le> snd (c ! k)"
    "Suc k < length c \<Longrightarrow> snd (c ! k) = encoderBlockSize"
    "length (take (sampleBytes cfg * snd (c ! k)) (drop (sampleBytes cfg * sampleOff c k) B)) = sampleBytes cfg * snd (c ! k)"
    "snd (c ! k) \<le> encoderBlockSize" "length (fst (c ! k)) \<le> frameMax (nat (cf_Channels cfg)) (snd (c ! k))"
proof -
  have d: "drop k c = (fst (c ! k), snd (c ! k)) # drop (Suc k) c" using assms by (simp add: Cons_nth_drop_Suc)
  have "framesFrom cs cfg (0 + k) (drop k c) (drop (sampleBytes cfg * sampleOff c k) B)"
    using framesFrom_drop [of cs cfg 0 c B k] assms by (simp add: frameFile_def)
  note f = this [unfolded d framesFrom.simps add_0, folded fileFrame_def]
  then show "decodes cs (cfgInfo cfg) (fst (c ! k)) (fileFrame cfg c B k)" "take 2 (fst (c ! k)) = [0xFF, 0xF8]" "1 \<le> snd (c ! k)"
    "Suc k < length c \<Longrightarrow> snd (c ! k) = encoderBlockSize"
    "length (take (sampleBytes cfg * snd (c ! k)) (drop (sampleBytes cfg * sampleOff c k) B)) = sampleBytes cfg * snd (c ! k)"
    "snd (c ! k) \<le> encoderBlockSize" "length (fst (c ! k)) \<le> frameMax (nat (cf_Channels cfg)) (snd (c ! k))"
    by (blast, simp add: frameShape_def, blast, simp_all) (use f in \<open>auto simp: frameShape_def\<close>)
qed

text \<open>All blocks but the last are of one size.\<close>

lemma samples_before: "frameFile cs cfg c B \<Longrightarrow> k < length c \<Longrightarrow> sampleOff c k = k * encoderBlockSize"
proof (induction k)
  case (Suc k)
  then show ?case using nth_frame(4) [of cs cfg c B k] by (simp add: offsets_Suc)
qed (simp add: sampleOff_def)

lemma offsets_mono: "j \<le> k \<Longrightarrow> sampleOff c j \<le> sampleOff c k"
  using take_add [of j "k - j" c] by (simp add: sampleOff_def)

lemma offsets_less:
  assumes "frameFile cs cfg c B" "j < k" "k \<le> length c"
  shows "sampleOff c j < sampleOff c k"
  using nth_frame(3) [OF assms(1), of j] offsets_Suc(2) [of j c] offsets_mono [of "Suc j" k c] assms(2,3) by simp

lemma frame_of_sample: "t < sampleOff c n \<Longrightarrow> n \<le> length c \<Longrightarrow> \<exists>k < n. sampleOff c k \<le> t \<and> t < sampleOff c (Suc k)"
proof (induction n)
  case (Suc n)
  then show ?case by (cases "t < sampleOff c n") (auto simp: less_Suc_eq not_less)
qed (simp add: sampleOff_def)

lemma frames_count: "frameFile cs cfg c B \<Longrightarrow> k \<le> length c \<Longrightarrow> k \<le> sampleOff c k"
proof (induction k)
  case (Suc k)
  then show ?case using nth_frame(3) [of cs cfg c B k] by (simp add: offsets_Suc)
qed simp

lemma all_samples:
  assumes F: "frameFile cs cfg c B"
  shows "length B = sampleBytes cfg * sampleOff c (length c)" "sampleOff c (length c) = length B div sampleBytes cfg"
proof -
  have "framesFrom cs cfg (0 + length c) [] (drop (sampleBytes cfg * sampleOff c (length c)) B)"
    using framesFrom_drop [of cs cfg 0 c B "length c"] F by (simp add: frameFile_def)
  then have "length B \<le> sampleBytes cfg * sampleOff c (length c)" by simp
  moreover have "sampleBytes cfg * sampleOff c k \<le> length B" if "k \<le> length c" for k
    using that
  proof (induction k)
    case (Suc k)
    have "length (drop (sampleBytes cfg * sampleOff c k) B) \<ge> sampleBytes cfg * snd (c ! k)"
      using nth_frame(5) [OF F, of k] Suc.prems by simp
    then show ?case using Suc offsets_Suc [of k c] by (simp add: algebra_simps)
  qed (simp add: sampleOff_def)
  ultimately show "length B = sampleBytes cfg * sampleOff c (length c)" by (simp add: le_antisym)
  then show "sampleOff c (length c) = length B div sampleBytes cfg" using sampleBytes_pos [of cfg] F by (simp add: frameFile_def)
qed

text \<open>A frame fits the largest probe window, and a whole file has a bounded size.\<close>

lemma frame_in_window:
  assumes "frameFile cs cfg c B" "k < length c"
  shows "length (fst (c ! k)) \<le> maxProbeWindow"
proof -
  have "nat (cf_Channels cfg) \<le> 8" using assms(1) by (auto simp: frameFile_def validateConfig_None)
  then have "frameMax (nat (cf_Channels cfg)) (snd (c ! k)) \<le> frameMax 8 encoderBlockSize" using nth_frame(6) [OF assms] by (intro frameMax_mono)
  moreover have "frameMax 8 encoderBlockSize \<le> maxProbeWindow" by (simp add: frameMax_def encoderBlockSize_def maxProbeWindow_def)
  ultimately show ?thesis using nth_frame(7) [OF assms] by (meson order_trans)
qed

definition audioMax :: "Config \<Rightarrow> nat \<Rightarrow> nat" where
  "audioMax cfg n = n * (19 + 73 * nat (cf_Channels cfg))"

lemma audio_size: "framesFrom cs cfg i c B \<Longrightarrow> length (concat (map fst c)) \<le> audioMax cfg (sampleOff c (length c))"
proof (induction cs cfg i c B rule: framesFrom.induct)
  case (2 cs cfg i buf n c B)
  have "1 \<le> n" "length buf \<le> frameMax (nat (cf_Channels cfg)) n" using "2.prems" by (simp_all add: frameShape_def)
  then have "1 * (19 + 68 * nat (cf_Channels cfg)) + n * (5 * nat (cf_Channels cfg)) \<le> n * (19 + 68 * nat (cf_Channels cfg)) + n * (5 * nat (cf_Channels cfg))"
    by (intro add_mono mult_le_mono1) simp_all
  then have "length buf \<le> n * (19 + 73 * nat (cf_Channels cfg))"
    using \<open>length buf \<le> _\<close> by (simp add: frameMax_def algebra_simps)
  moreover have "length (concat (map fst c)) \<le> audioMax cfg (sampleOff c (length c))" using 2 by simp
  ultimately show ?case by (simp add: audioMax_def sampleOff_def distrib_right)
qed (simp add: audioMax_def)

section \<open>The decoder of a file\<close>

definition fileOf :: "u8 list \<Rightarrow> (u8 list \<times> nat) list \<Rightarrow> u8 list" where
  "fileOf pre c = pre @ concat (map fst c)"

definition boundTo :: "Config \<Rightarrow> (u8 list \<times> nat) list \<Rightarrow> u8 list \<Rightarrow> Decoder \<Rightarrow> bool" where
  "boundTo cfg c pre d \<longleftrightarrow> de_seekable d \<and> sameFormat (de_info d) (cfgInfo cfg) \<and> de_bytesPS d = cfgBytesPS cfg \<and> 1 \<le> de_outBits d
     \<and> de_audioStart d = length pre \<and> de_streamEnd d = length (fileOf pre c)
     \<and> 0 < de_nominalBlock d \<and> (length c \<le> 1 \<or> de_nominalBlock d = encoderBlockSize) \<and> pointsAt c (de_seekPoints d)"

text \<open>The bounds on the sizes: positions are \<open>int64\<close>, and a stream has fewer than \<open>2 ^ 36\<close> samples.\<close>

definition fileSizes :: "(u8 list \<times> nat) list \<Rightarrow> u8 list \<Rightarrow> bool" where
  "fileSizes c pre \<longleftrightarrow> length (fileOf pre c) < 2 ^ 63 \<and> sampleOff c (length c) < 2 ^ 36"

lemma boundTo_resync [simp]: "boundTo cfg c pre (d\<lparr>de_resyncR := rd\<rparr>) = boundTo cfg c pre d"
  by (simp add: boundTo_def)

lemma frameOff_le: "k \<le> length c \<Longrightarrow> frameOff pre c k \<le> length (fileOf pre c)"
proof -
  have "concat (map fst c) = concat (map fst (take k c)) @ concat (map fst (drop k c))"
    by (metis append_take_drop_id concat_append map_append)
  then show ?thesis by (simp add: frameOff_def fileOf_def)
qed

lemma firstSample_file:
  assumes F: "frameFile cs cfg c B" and d: "boundTo cfg c pre d" and z: "fileSizes c pre" and k: "k < length c"
  shows "firstSample d (fileFrame cfg c B k) = sampleOff c k" "fr_BlockSize (fileFrame cfg c B k) = snd (c ! k)"
proof -
  have "k < 2 ^ 36" using frames_count [OF F, of "length c"] z k by (simp add: fileSizes_def)
  then have "unat (of_nat k :: u64) = k" by (simp add: unat_of_nat)
  moreover have "k * de_nominalBlock d = sampleOff c k"
    using samples_before [OF F k] d k by (cases "length c \<le> 1") (auto simp: boundTo_def)
  ultimately show "firstSample d (fileFrame cfg c B k) = sampleOff c k" "fr_BlockSize (fileFrame cfg c B k) = snd (c ! k)"
    by (simp_all add: firstSample_def fileFrame_def chunkFrame_def blockFrame_def)
qed

section \<open>Probes\<close>

lemma decodes_info: "sameFormat si (cfgInfo cfg) \<Longrightarrow> decodes cs si = decodes cs (cfgInfo cfg)"
  by (rule decodes_cong) (simp_all add: sameFormat_def)

lemma probeFrom_frame:
  assumes F: "frameFile cs cfg c B" and si: "sameFormat info (cfgInfo cfg)" "valid_info info" and k: "k < length c"
    and l: "length (fst (c ! k)) \<le> maxProbeWindow" and srv: "servesFile seek (fileOf pre c)"
    and w: "2 \<le> win" "win \<le> maxProbeWindow" and rd: "reusable rd"
  shows "fst (probeFrom cs seek (length (fileOf pre c)) info (frameOff pre c k) win rd)
    = ProbeFound (frameOff pre c k) (frameOff pre c (Suc k)) (fileFrame cfg c B k)"
  using w rd
proof (induction "maxProbeWindow - win" arbitrary: win rd rule: less_induct)
  case less
  let ?b = "frameOff pre c k" and ?fb = "fst (c ! k)" and ?e = "length (fileOf pre c)"
  have rest: "drop ?b (fileOf pre c) = ?fb @ concat (map fst (drop (Suc k) c))"
    unfolding fileOf_def drop_to_frame using k by (simp add: Cons_nth_drop_Suc [symmetric])
  note fb = nth_frame(1,2) [OF F k]
  have "length ?fb \<noteq> 0" using fb(2) by auto
  then have b: "?b < ?e" using frameOff_le [of "Suc k" c pre] offsets_Suc(1) [OF k, of pre] k by linarith
  have D: "decodes cs info ?fb (fileFrame cfg c B k)" using fb(1) unfolding decodes_info [OF si(1)] .
  have step: "probeFrom cs seek ?e info ?b win rd = (case probeOnce cs seek ?e info ?b win rd of
       (Answer res, rd) \<Rightarrow> (res, rd) | (Again b win, rd) \<Rightarrow> probeFrom cs seek ?e info b win rd)"
    using b less.prems(1) by (subst probeFrom.simps) simp
  note once = probeOnce_file [OF srv less_imp_le [OF b], of cs info win rd, unfolded rest]
  show ?case
  proof (cases "length ?fb \<le> win")
    case True
    then have "take win (?fb @ concat (map fst (drop (Suc k) c))) = [] @ ?fb @ take (win - length ?fb) (concat (map fst (drop (Suc k) c)))" by simp
    then obtain rd' where "FindNextFrame cs rd (take win (?fb @ concat (map fst (drop (Suc k) c)))) info
        = ((0, length ?fb, FrameFound, Some (fileFrame cfg c B k)), rd')"
      using findFrom_frame [OF D fb(2) less.prems(3), of "[]" 0 "take (win - length ?fb) (concat (map fst (drop (Suc k) c)))"]
      unfolding FindNextFrame_def by auto
    then show ?thesis unfolding step once using offsets_Suc(1) [OF k] by simp
  next
    case False
    define p where "p = take win ?fb"
    have p: "take win (?fb @ concat (map fst (drop (Suc k) c))) = p" "decodes cs info (p @ drop win ?fb) (fileFrame cfg c B k)"
      "take 2 p = [0xFF, 0xF8]" "drop win ?fb \<noteq> []"
      using False D fb(2) less.prems(1) by (simp_all add: p_def min_absorb1)
    obtain rd' where f: "FindNextFrame cs rd p info = ((0, 0, FrameTruncated, None), rd')" "reusable rd'"
      using findFrom_cut [OF p(2-4) si(2) less.prems(3), of 0] unfolding FindNextFrame_def by blast
    have "\<not> ?e \<le> ?b + win" using False frameOff_le [of "Suc k" c pre] offsets_Suc(1) [OF k, of pre] k by simp
    moreover have "\<not> win \<ge> maxProbeWindow" using False l by simp
    ultimately have "probeFrom cs seek ?e info ?b win rd = probeFrom cs seek ?e info ?b (min (win * 2) maxProbeWindow) rd'"
      unfolding step once p(1) f(1) by simp
    moreover have "2 \<le> min (win * 2) maxProbeWindow" "maxProbeWindow - min (win * 2) maxProbeWindow < maxProbeWindow - win"
      using less.prems(1) \<open>\<not> win \<ge> maxProbeWindow\<close> by (auto simp: min_def maxProbeWindow_def)
    ultimately show ?thesis using less.hyps [of "min (win * 2) maxProbeWindow" rd'] f(2) by simp
  qed
qed

lemma probe_frame:
  assumes F: "frameFile cs cfg c B" and d: "boundTo cfg c pre d" "probeReady d" and z: "fileSizes c pre" and k: "k < length c"
    and srv: "servesFile seek (fileOf pre c)"
  obtains rd where "reusable rd"
    "probe cs seek (frameOff pre c k) d = (ProbeFound (frameOff pre c k) (frameOff pre c (Suc k)) (fileFrame cfg c B k), d\<lparr>de_resyncR := rd\<rparr>)"
proof -
  define win where "win = min (max (2 * de_maxFrame d) probeChunkDefault) maxProbeWindow"
  have w: "2 \<le> win" "win \<le> maxProbeWindow" by (auto simp: win_def probeChunkDefault_def maxProbeWindow_def)
  have l: "length (fst (c ! k)) \<le> maxProbeWindow" by (rule frame_in_window [OF F k])
  have i: "sameFormat (de_info d) (cfgInfo cfg)" "valid_info (de_info d)" "reusable (de_resyncR d)" "de_streamEnd d = length (fileOf pre c)"
    using d by (simp_all add: boundTo_def probeReady_def)
  obtain res rd where P: "probeFrom cs seek (de_streamEnd d) (de_info d) (frameOff pre c k) win (de_resyncR d) = (res, rd)" by fastforce
  have "res = ProbeFound (frameOff pre c k) (frameOff pre c (Suc k)) (fileFrame cfg c B k)"
    using probeFrom_frame [OF F i(1,2) k l srv w i(3)] P i(4) by simp
  moreover have "reusable rd" using probeFrom_ok [OF P i(3,2)] by simp
  ultimately show thesis using that [of rd] P by (simp add: probe_def Let_def flip: win_def)
qed

lemma probe_end: "de_streamEnd d \<le> b \<Longrightarrow> probe cs seek b d = (ProbeNone, d)"
  by (simp add: probe_def Let_def probeFrom.simps)

section \<open>The scan\<close>

lemma scan_file:
  assumes F: "frameFile cs cfg c B" and z: "fileSizes c pre" and srv: "servesFile seek (fileOf pre c)"
    and d: "boundTo cfg c pre d" "probeReady d" and j: "j \<le> length c" "sampleOff c j \<le> target"
  shows "\<exists>rd. reusable rd \<and> (if target < sampleOff c (length c)
      then \<exists>k < length c. sampleOff c k \<le> target \<and> target < sampleOff c (Suc k)
        \<and> scanFrames cs seek target (frameOff pre c j) last_end d = Some (Landing (frameOff pre c k) (sampleOff c k), d\<lparr>de_resyncR := rd\<rparr>)
      else scanFrames cs seek target (frameOff pre c j) last_end d =
        Some (PastEnd (if j < length c then sampleOff c (length c) else last_end), d\<lparr>de_resyncR := rd\<rparr>))"
  using d j
proof (induction "length c - j" arbitrary: j d last_end)
  case 0
  then have j: "j = length c" by simp
  have e: "de_streamEnd d \<le> frameOff pre c j" using 0 by (simp add: boundTo_def fileOf_def offsets_all j)
  have "scanFrames cs seek target (frameOff pre c j) last_end d = Some (PastEnd last_end, d)"
    by (subst scanFrames.simps) (simp add: probe_end [OF e])
  moreover have "\<not> target < sampleOff c (length c)" "reusable (de_resyncR d)" using 0 j by (simp_all add: probeReady_def)
  ultimately show ?case using j by (intro exI [of _ "de_resyncR d"]) simp
next
  case (Suc m)
  then have j: "j < length c" "Suc j \<le> length c" "m = length c - Suc j" by simp_all
  from probe_frame [OF F Suc.prems(1,2) z j(1) srv] obtain rd where
    P: "reusable rd" "probe cs seek (frameOff pre c j) d = (ProbeFound (frameOff pre c j) (frameOff pre c (Suc j)) (fileFrame cfg c B j), d\<lparr>de_resyncR := rd\<rparr>)" .
  note f = firstSample_file [OF F Suc.prems(1) z j(1)] offsets_Suc(2) [OF j(1)]
  let ?d = "d\<lparr>de_resyncR := rd\<rparr>"
  show ?case
  proof (cases "target < sampleOff c (Suc j)")
    case True
    then have "scanFrames cs seek target (frameOff pre c j) last_end d = Some (Landing (frameOff pre c j) (sampleOff c j), ?d)"
      using Suc.prems(4) by (subst scanFrames.simps) (simp add: P(2) f Let_def)
    moreover have "target < sampleOff c (length c)" using True offsets_mono [of "Suc j" "length c" c] j by simp
    ultimately show ?thesis using P(1) True Suc.prems(4) j(1) by (intro exI [of _ rd]) auto
  next
    case False
    have "scanFrames cs seek target (frameOff pre c j) last_end d = scanFrames cs seek target (frameOff pre c (Suc j)) (sampleOff c (Suc j)) ?d"
      using False Suc.prems(4) by (subst scanFrames.simps) (simp add: P(2) f Let_def)
    moreover have "boundTo cfg c pre ?d" "probeReady ?d" using Suc.prems(1,2) P(1) by (simp_all add: probeReady_def)
    moreover have "(if Suc j < length c then sampleOff c (length c) else sampleOff c (Suc j)) = sampleOff c (length c)"
      using j by (cases "Suc j = length c") auto
    ultimately show ?thesis
      using Suc.hyps(1) [OF j(3), of ?d "sampleOff c (Suc j)"] False j by auto
  qed
qed

section \<open>The search\<close>

text \<open>Only the frames of the file decode in it: no damage and no chance match of both checksums.\<close>

definition onlyFrames :: "(u8 list \<Rightarrow> u16) \<Rightarrow> StreamInfo \<Rightarrow> (u8 list \<times> nat) list \<Rightarrow> u8 list \<Rightarrow> bool" where
  "onlyFrames cs si c pre \<longleftrightarrow> (\<forall>p rd f rd'. wf_reader rd \<longrightarrow> roff rd = 0 \<longrightarrow> rbytes rd = drop p (fileOf pre c) \<longrightarrow> p < length (fileOf pre c)
     \<longrightarrow> Decode cs si rd = (Inr f, rd') \<longrightarrow> (\<exists>k < length c. p = frameOff pre c k))"

lemma probed_frames:
  assumes F: "frameFile cs cfg c B" and only: "onlyFrames cs (de_info d) c pre" and d: "boundTo cfg c pre d"
    and srv: "servesFile seek (fileOf pre c)" and P: "probed cs seek d (\<lambda>a b fr. a = start \<and> P b fr)"
  shows "\<exists>k < length c. start = frameOff pre c k \<and> P (frameOff pre c (Suc k)) (fileFrame cfg c B k)"
proof -
  have e: "de_streamEnd d = length (fileOf pre c)" and i: "sameFormat (de_info d) (cfgInfo cfg)" using d by (simp_all add: boundTo_def)
  from probed_file [OF P srv e] obtain fr stop where
    s: "start < length (fileOf pre c)" "P stop fr"
      "\<And>rd. wf_reader rd \<Longrightarrow> roff rd = 0 \<Longrightarrow> rbytes rd = drop start (fileOf pre c)
        \<Longrightarrow> \<exists>rd'. Decode cs (de_info d) rd = (Inr fr, rd') \<and> start + length (rbytes rd) = stop + length (rbytes rd')" by blast
  define r0 :: "frameCRC reader" where "r0 = NewReader (bytesReader (drop start (fileOf pre c))) fcReset"
  have r0: "wf_reader r0" "roff r0 = 0" "rbytes r0 = drop start (fileOf pre c)" unfolding r0_def by (simp_all add: NewReader_ok)
  from s(3) [OF r0] obtain rd' where D: "Decode cs (de_info d) r0 = (Inr fr, rd')" "start + length (rbytes r0) = stop + length (rbytes rd')" by blast
  from only D(1) r0 s(1) obtain k where k: "k < length c" "start = frameOff pre c k" unfolding onlyFrames_def by blast
  have rest: "rbytes r0 = fst (c ! k) @ concat (map fst (drop (Suc k) c))"
    unfolding r0(3) k(2) fileOf_def drop_to_frame using k(1) by (simp add: Cons_nth_drop_Suc [symmetric])
  have "decodes cs (de_info d) (fst (c ! k)) (fileFrame cfg c B k)" using nth_frame(1) [OF F k(1)] unfolding decodes_info [OF i] .
  from decodesD [OF this r0(1,2) rest] obtain rd2 where
    "Decode cs (de_info d) r0 = (Inr (fileFrame cfg c B k), rd2)" "resumed (length (fst (c ! k))) r0 rd2" by blast
  then have "fr = fileFrame cfg c B k" "length (rbytes r0) = length (fst (c ! k)) + length (rbytes rd')" using D(1) rest by (simp_all add: resumed_def)
  then have "fr = fileFrame cfg c B k" "stop = frameOff pre c (Suc k)" using D(2) k(2) offsets_Suc(1) [OF k(1), of pre] by simp_all
  then show ?thesis using k s(2) by blast
qed

definition scannable :: "(u8 list \<Rightarrow> u16) \<Rightarrow> StreamInfo \<Rightarrow> (u8 list \<times> nat) list \<Rightarrow> u8 list \<Rightarrow> bool" where
  "scannable cs si c pre \<longleftrightarrow> length (concat (map fst c)) \<le> linearWindow \<or> onlyFrames cs si c pre"

lemma search_file:
  assumes F: "frameFile cs cfg c B" and z: "fileSizes c pre" and srv: "servesFile seek (fileOf pre c)"
    and d: "boundTo cfg c pre d" "probeReady d" and j: "j \<le> length c" "sampleOff c j \<le> target"
    and hi: "hi \<le> length (fileOf pre c)" and only: "scannable cs (de_info d) c pre" and t: "target < sampleOff c (length c)"
  shows "\<exists>rd. \<exists>k < length c. reusable rd \<and> sampleOff c k \<le> target \<and> target < sampleOff c (Suc k)
    \<and> searchFrame cs seek target (frameOff pre c j) hi d = Some (Landing (frameOff pre c k) (sampleOff c k), d\<lparr>de_resyncR := rd\<rparr>)"
proof -
  define Q where "Q = (\<lambda>b. \<exists>j \<le> length c. b = frameOff pre c j \<and> sampleOff c j \<le> target)"
  obtain r d1 rd where n: "narrowFrames cs seek target (frameOff pre c j) hi d = Some (r, d1)" "probeReady d1" "d1 = d\<lparr>de_resyncR := rd\<rparr>"
    using narrowFrames_returns [OF d(2)] by blast
  have scan: ?thesis if rb: "r = Inr b" and q: "Q b" for b
  proof -
    obtain i where i: "i \<le> length c" "b = frameOff pre c i" "sampleOff c i \<le> target" using q by (auto simp: Q_def)
    have "boundTo cfg c pre d1" using d(1) n(3) by simp
    from scan_file [OF F z srv this n(2) i(1,3), of 0] t obtain z k where
      "reusable z" "k < length c" "sampleOff c k \<le> target" "target < sampleOff c (Suc k)"
      "scanFrames cs seek target (frameOff pre c i) 0 d1 = Some (Landing (frameOff pre c k) (sampleOff c k), d1\<lparr>de_resyncR := z\<rparr>)" by auto
    moreover have "d1\<lparr>de_resyncR := z\<rparr> = d\<lparr>de_resyncR := z\<rparr>" by (simp add: n(3))
    ultimately show ?thesis using n(1) rb i(2) by (auto simp: searchFrame_def)
  qed
  show ?thesis
  proof (cases "hi - frameOff pre c j \<le> linearWindow")
    case True
    then have "r = Inr (frameOff pre c j)" using n(1) by (subst (asm) narrowFrames.simps) simp
    then show ?thesis using scan j by (auto simp: Q_def)
  next
    case False
    have "length pre \<le> frameOff pre c j" by (simp add: frameOff_def)
    then have "\<not> length (concat (map fst c)) \<le> linearWindow" using False hi by (simp add: fileOf_def)
    then have only: "onlyFrames cs (de_info d) c pre" using only by (simp add: scannable_def)
    have "Q stop" if p: "probed cs seek d (\<lambda>a b f. a = start \<and> b = stop \<and> f = fr)" and l: "firstSample d fr + fr_BlockSize fr \<le> target" for start stop fr
    proof -
      obtain k where "k < length c" "stop = frameOff pre c (Suc k)" "fr = fileFrame cfg c B k" using probed_frames [OF F only d(1) srv p] by blast
      then show ?thesis using l firstSample_file [OF F d(1) z] offsets_Suc(2) [of k c] unfolding Q_def by (intro exI [of _ "Suc k"]) simp
    qed
    moreover have "Q (frameOff pre c j)" using j by (auto simp: Q_def)
    ultimately have a: "answers cs seek target Q d r" using narrowFrames_answer [OF n(1) d(2), of Q] by blast
    show ?thesis
    proof (cases r)
      case (Inr b)
      then show ?thesis using scan a by (simp add: answers_def)
    next
      case (Inl x)
      show ?thesis
      proof (cases x)
        case (Landing start f)
        then have "probed cs seek d (\<lambda>a b fr. a = start \<and> (f = firstSample d fr \<and> f \<le> target \<and> target < f + fr_BlockSize fr))"
          using a Inl by (simp add: answers_def)
        from probed_frames [OF F only d(1) srv this] obtain k where
          "k < length c" "start = frameOff pre c k" "f = sampleOff c k" "sampleOff c k \<le> target" "target < sampleOff c (Suc k)"
          using firstSample_file [OF F d(1) z] offsets_Suc(2) by metis
        then show ?thesis using n Inl Landing by (auto simp: searchFrame_def probeReady_def)
      next
        case (PastEnd m)
        then show ?thesis using a Inl by (simp add: answers_def)
      next
        case (SearchErr e)
        then obtain b z d' where P: "probe cs seek b (d\<lparr>de_resyncR := z\<rparr>) = (ProbeErr e, d')" "probeReady (d\<lparr>de_resyncR := z\<rparr>)"
          using a Inl by (auto simp: answers_def)
        then show ?thesis using probe_answers(1) [OF srv _ P(2,1), of e] d(1) by (simp add: boundTo_def)
      qed
    qed
  qed
qed

text \<open>The seek table only ever moves the bounds to frames: the lower one to one at or before the target.\<close>

lemma seekBounds_file:
  assumes d: "boundTo cfg c pre d" and z: "fileSizes c pre"
  shows "\<exists>j hi. seekBounds (int t) d = (frameOff pre c j, hi) \<and> j \<le> length c \<and> sampleOff c j \<le> t \<and> hi \<le> length (fileOf pre c)"
proof -
  define ok where "ok = (\<lambda>b :: nat \<times> nat. \<exists>j \<le> length c. fst b = frameOff pre c j \<and> sampleOff c j \<le> t \<and> snd b \<le> length (fileOf pre c))"
  have start: "ok (de_audioStart d, de_streamEnd d)"
    using d by (auto simp: ok_def boundTo_def frameOff_def sampleOff_def intro!: exI [of _ 0])
  have step: "ok (narrowPoint (de_audioStart d) (de_streamEnd d) (int t) (frameStart c i) b)" if b: "ok b" and i: "i < length c" for b i
  proof -
    let ?o = "length (concat (map fst (take i c)))"
    have o: "frameOff pre c i = length pre + ?o" "frameOff pre c i \<le> length (fileOf pre c)" using frameOff_le [of i c pre] i by (simp_all add: frameOff_def)
    have "?o < 2 ^ 63" "sampleOff c i < 2 ^ 63" using o z offsets_mono [of i "length c" c] i by (auto simp: fileSizes_def)
    then have "sint (of_nat ?o :: u64) = int ?o" "sint (of_nat (sampleOff c i) :: u64) = int (sampleOff c i)"
      by (simp_all add: signed_of_nat signed_take_bit_int_eq_self)
    then have n: "narrowPoint (de_audioStart d) (de_streamEnd d) (int t) (frameStart c i) b =
        (if sampleOff c i \<le> t \<and> frameOff pre c i > fst b then frameOff pre c i else fst b,
         if sampleOff c i > t \<and> frameOff pre c i < snd b then frameOff pre c i else snd b)"
      using o d by (auto simp: narrowPoint_def Let_def frameStart_def boundTo_def sampleOff_def [symmetric])
    obtain j where j: "j \<le> length c" "fst b = frameOff pre c j" "sampleOff c j \<le> t" "snd b \<le> length (fileOf pre c)"
      using b by (auto simp: ok_def)
    let ?j = "if sampleOff c i \<le> t \<and> frameOff pre c i > fst b then i else j"
    show ?thesis unfolding ok_def n using j i o(2) by (intro exI [of _ ?j]) auto
  qed
  have fold: "ok (fold (narrowPoint (de_audioStart d) (de_streamEnd d) (int t)) (map (frameStart c) is) b)" if "ok b" "\<forall>i \<in> set is. i < length c" for b "is"
    using that by (induction "is" arbitrary: b) (simp_all add: step)
  obtain "is" where "de_seekPoints d = map (frameStart c) is" "\<forall>i \<in> set is. i < length c" using d by (auto simp: boundTo_def pointsAt_def)
  then have "ok (seekBounds (int t) d)" using fold start by (auto simp: seekBounds_def narrowBySeekTable_def)
  then show ?thesis by (cases "seekBounds (int t) d") (auto simp: ok_def)
qed

section \<open>Landing in a file\<close>

lemma length_convertPcm:
  assumes "validateConfig cfg = None" "length A = sampleBytes cfg * n"
  shows "length (convertPcm (cfgBytesPS cfg) (si_BitDepth (cfgInfo cfg)) out A) = n * (nat (cf_Channels cfg) * ((out + 7) div 8))"
proof -
  have k: "cfgBytesPS cfg = (si_BitDepth (cfgInfo cfg) + 7) div 8" "1 \<le> cfgBytesPS cfg"
    using assms(1) cfgBytesPS_bounds [OF assms(1)] by (auto simp: cfgBytesPS_def cfgInfo_def validateConfig_None nat_add_distrib nat_div_distrib)
  have l: "length A = cfgBytesPS cfg * (nat (cf_Channels cfg) * n)" using assms(2) by (simp add: sampleBytes_def mult.assoc)
  then have "length A div cfgBytesPS cfg = nat (cf_Channels cfg) * n" using k(2) by simp
  then show ?thesis
    using l k(1) by (auto simp: convertPcm_def pcmSamples_def length_concat sum_list_triv o_def)
qed

lemma drop_in_middle:
  assumes "length X \<le> t" "t \<le> length X + length Y"
  shows "drop t (X @ Y @ Z) = drop (t - length X) Y @ Z"
  using assms by simp

lemma convertPcm_at:
  fixes out :: nat
  assumes F: "frameFile cs cfg c B" and k: "k < length c" and t: "sampleOff c k \<le> t" "t \<le> sampleOff c (Suc k)"
  defines "C \<equiv> convertPcm (cfgBytesPS cfg) (si_BitDepth (cfgInfo cfg)) out" and "u \<equiv> nat (cf_Channels cfg) * ((out + 7) div 8)"
    and "b \<equiv> take (sampleBytes cfg * snd (c ! k)) (drop (sampleBytes cfg * sampleOff c k) B)"
  shows "drop (t * u) (C B) = drop ((t - sampleOff c k) * u) (C b) @ C (drop (sampleBytes cfg * sampleOff c (Suc k)) B)"
proof -
  have v: "validateConfig cfg = None" using F by (simp add: frameFile_def)
  have l: "length b = sampleBytes cfg * snd (c ! k)" unfolding b_def by (rule nth_frame(5) [OF F k])
  have "sampleBytes cfg * sampleOff c k \<le> length B" using all_samples(1) [OF F] offsets_mono [of k "length c" c] k by simp
  then have a: "length (take (sampleBytes cfg * sampleOff c k) B) = sampleBytes cfg * sampleOff c k" by simp
  have "B = take (sampleBytes cfg * sampleOff c k) B @ b @ drop (sampleBytes cfg * sampleOff c (Suc k)) B"
    unfolding b_def offsets_Suc(2) [OF k] distrib_left by (metis append_take_drop_id drop_drop add.commute)
  moreover have dv: "cfgBytesPS cfg dvd sampleBytes cfg * m" for m by (simp add: sampleBytes_def)
  have "C (take (sampleBytes cfg * sampleOff c k) B @ b @ x) = C (take (sampleBytes cfg * sampleOff c k) B) @ C b @ C x" for x
    unfolding C_def using cfgBytesPS_bounds(1) [OF v] a l dv by (simp add: convertPcm_append)
  ultimately have "C B = C (take (sampleBytes cfg * sampleOff c k) B) @ C b @ C (drop (sampleBytes cfg * sampleOff c (Suc k)) B)" by metis
  moreover have "length (C (take (sampleBytes cfg * sampleOff c k) B)) = sampleOff c k * u" "length (C b) = snd (c ! k) * u"
    unfolding C_def u_def by (rule length_convertPcm [OF v a], rule length_convertPcm [OF v l])
  moreover have "sampleOff c k * u \<le> t * u" "t * u \<le> (sampleOff c k + snd (c ! k)) * u"
    using t offsets_Suc(2) [OF k] by (intro mult_le_mono1, simp)+
  ultimately show ?thesis by (simp add: drop_in_middle diff_mult_distrib distrib_right)
qed

lemma seek_lands:
  assumes F: "frameFile cs cfg c B" and z: "fileSizes c pre" and srv: "servesFile seek (fileOf pre c)"
    and d: "boundTo cfg c pre d" "usable d" and only: "scannable cs (de_info d) c pre" and t: "t < sampleOff c (length c)"
    and tot: "si_TotalSamples (de_info d) = 0 \<or> si_TotalSamples (de_info d) = of_nat (sampleOff c (length c))"
  shows "\<exists>d'. SeekToSample cs seek (int t) d = Some (Inr (int t), d') \<and> boundTo cfg c pre d' \<and> usable d' \<and> de_outBits d' = de_outBits d
    \<and> de_info d' = de_info d
    \<and> serves cs md5 cfg d' (drop (t * (nat (cf_Channels cfg) * ((de_outBits d + 7) div 8)))
        (convertPcm (cfgBytesPS cfg) (si_BitDepth (cfgInfo cfg)) (de_outBits d) B))"
proof -
  have sk: "de_seekable d" "0 < de_nominalBlock d" "sameFormat (de_info d) (cfgInfo cfg)" "de_bytesPS d = cfgBytesPS cfg" "1 \<le> de_outBits d"
    using d(1) by (simp_all add: boundTo_def)
  have v: "validateConfig cfg = None" using F by (simp add: frameFile_def)
  note ready = usable_ready [OF d(2) sk(1)]
  from seekBounds_file [OF d(1) z, of t] obtain j hi where
    b: "seekBounds (int t) d = (frameOff pre c j, hi)" "j \<le> length c" "sampleOff c j \<le> t" "hi \<le> length (fileOf pre c)" by blast
  from search_file [OF F z srv d(1) ready b(2-4) only t] obtain rd k where
    k: "k < length c" "reusable rd" "sampleOff c k \<le> t" "t < sampleOff c (Suc k)"
      "searchFrame cs seek t (frameOff pre c j) hi d = Some (Landing (frameOff pre c k) (sampleOff c k), d\<lparr>de_resyncR := rd\<rparr>)" by blast
  let ?d = "d\<lparr>de_resyncR := rd\<rparr>" and ?fr = "fileFrame cfg c B k" and ?off = "frameOff pre c k"
  have u: "usable ?d" "de_seekable ?d" using usable_resync [OF d(2) k(2)] sk(1) by simp_all
  have rest: "drop ?off (fileOf pre c) = fst (c ! k) @ concat (map fst (drop (Suc k) c))"
    unfolding fileOf_def drop_to_frame using k(1) by (simp add: Cons_nth_drop_Suc [symmetric])
  have D: "decodes cs (de_info ?d) (fst (c ! k)) ?fr" using nth_frame(1) [OF F k(1)] decodes_info [OF sk(3)] by simp
  have "fst (c ! k) \<noteq> []" using nth_frame(2) [OF F k(1)] by auto
  then have in_file: "?off < length (fileOf pre c)" using rest by (metis append_is_Nil_conv drop_eq_Nil not_le)
  have dec: "fst (Decode cs (de_info ?d) r) = Inr ?fr" if "wf_reader r" "roff r = 0" "rbytes r = drop ?off (fileOf pre c)" for r
    using decodesD [OF D that(1,2)] that(3) rest by auto
  have bs: "fr_BlockSize ?fr = snd (c ! k)" "length (fr_Channels ?fr) = nat (cf_Channels cfg)"
    using firstSample_file(2) [OF F d(1) z k(1)] rows_ok_deinterleaveSamples [of "cfgBytesPS cfg"] cfgBytesPS_bounds [OF v]
      nth_frame(5) [OF F k(1)] by (simp_all add: fileFrame_def chunkFrame_def blockFrame_def sampleBytes_def rows_ok_def mult.assoc)
  have lt: "t < sampleOff c k + fr_BlockSize ?fr" using k(4) bs(1) offsets_Suc(2) [OF k(1)] by simp
  let ?b = "take (sampleBytes cfg * snd (c ! k)) (drop (sampleBytes cfg * sampleOff c k) B)"
  have m: "max t (sampleOff c k) = t" using k(3) by simp
  from landAt_file [OF u srv in_file dec lt, unfolded bs(2) m] obtain buf br br' src where
    L: "packFrame False ?fr ?d = (buf, ?d)" "reusable br"
      "landAt cs seek ?off t (sampleOff c k) ?d = Some (Inr t, ?d\<lparr>de_br := Some br', de_seeked := True, de_done := False, de_err := None,
        de_pending := drop ((t - sampleOff c k) * nat (cf_Channels cfg) * ((de_outBits ?d + 7) div 8)) buf\<rparr>)"
      "src_bytes 0 src = (drop ?off (fileOf pre c), EOF)" "Decode cs (de_info ?d) (ResetAt src ?off br) = (Inr ?fr, br')"
    by blast
  define d' where "d' = ?d\<lparr>de_br := Some br', de_seeked := True, de_done := False, de_err := None,
        de_pending := drop ((t - sampleOff c k) * nat (cf_Channels cfg) * ((de_outBits d + 7) div 8)) buf\<rparr>"
  have buf: "buf = outPcm cfg d ?b"
    using packFrame_chunk [OF v nth_frame(5) [OF F k(1)], of ?d False k] L(1) sk(3,4)
    by (simp add: fileFrame_def sameFormat_def outPcm_def)
  note r = ResetAt_ok [OF L(2), of src ?off, unfolded L(4) fst_conv snd_conv rest]
  have br': "wf_reader br'" "roff br' = 0" "rbytes br' = concat (map fst (drop (Suc k) c))" "rend br' = EOF"
    using decodesD [OF D r(1-3)] L(5) r by (auto simp: resumed_def)
  have "framesFrom cs cfg (0 + Suc k) (drop (Suc k) c) (drop (sampleBytes cfg * sampleOff c (Suc k)) B)"
    using framesFrom_drop [of cs cfg 0 c B "Suc k"] F k(1) by (simp add: frameFile_def)
  then have at: "standsBefore cs cfg (Suc k) (drop (Suc k) c) (drop (sampleBytes cfg * sampleOff c (Suc k)) B) d'"
    using br' v sk(3-5) by (simp add: standsBefore_def d'_def)
  have out: "outPcm cfg d' = outPcm cfg d" by (simp add: outPcm_def d'_def fun_eq_iff)
  have "drop (t * (nat (cf_Channels cfg) * ((de_outBits d + 7) div 8))) (outPcm cfg d B)
      = de_pending d' @ outPcm cfg d' (drop (sampleBytes cfg * sampleOff c (Suc k)) B)"
    using convertPcm_at [OF F k(1,3) less_imp_le [OF k(4)], of "de_outBits d"] unfolding out
    by (simp add: d'_def buf outPcm_def mult.assoc)
  then have S: "serves cs md5 cfg d' (drop (t * (nat (cf_Channels cfg) * ((de_outBits d + 7) div 8))) (outPcm cfg d B))"
    by (intro servesI [OF _ at]) (simp_all add: d'_def verdictOf_def)
  have count: "sint (si_TotalSamples (de_info d)) = 0 \<or> sint (si_TotalSamples (de_info d)) = int (sampleOff c (length c))"
    using tot z by (auto simp: fileSizes_def signed_of_nat signed_take_bit_int_eq_self)
  have "seekFrom cs seek (sint (si_TotalSamples (de_info d))) (int t) d = Some (Inr (int t), d')"
    using count t by (auto simp: seekFrom_def b(1) k(5) L(3) d'_def)
  then have R: "SeekToSample cs seek (int t) d = Some (Inr (int t), d')" using sk(1,2) count t by (auto simp: SeekToSample_def Let_def)
  have "boundTo cfg c pre d'" "de_outBits d' = de_outBits d" "de_info d' = de_info d" using d(1) by (simp_all add: boundTo_def d'_def)
  moreover have "usable d'" using SeekToSample_usable [OF _ d(2), of cs seek "int t"] R by blast
  ultimately show ?thesis using R S unfolding outPcm_def by blast
qed


section \<open>Seeking in an encoded file\<close>

definition fileSource :: "source \<Rightarrow> u8 list \<Rightarrow> bool" where
  "fileSource src data \<longleftrightarrow> src_bytes 0 (so_reads src) = (data, EOF) \<and>
     (\<exists>s x. so_seeker src = Some s \<and> sk_base s = Inr 0 \<and> sk_resume s = Inr x \<and> sk_end s = Inr (length data) \<and> sk_restore s = None
        \<and> servesFile (sk_at s) data)"

definition seekIn :: "source \<Rightarrow> nat \<Rightarrow> err + chunk list" where
  "seekIn src = sk_at (the (so_seeker src))"

lemma file_sizes:
  assumes "frameFile cs cfg c B" "length hdr \<le> 2 ^ 26" "encodable cfg B"
  shows "fileSizes c hdr"
proof -
  let ?n = "sampleOff c (length c)"
  have n: "?n < 2 ^ 36" using assms(1,3) all_samples(2) [OF assms(1)] by (simp add: encodable_def)
  have "nat (cf_Channels cfg) \<le> 8" using assms(1) by (auto simp: frameFile_def validateConfig_None)
  then have "audioMax cfg ?n \<le> 2 ^ 36 * 603" unfolding audioMax_def using n by (intro mult_le_mono) simp_all
  then show ?thesis using n assms(2) audio_size [of cs cfg 0 c B] assms(1) by (simp add: fileSizes_def fileOf_def frameFile_def)
qed

lemma open_file:
  assumes S: "streamOf cs cfg si B sm data" and v: "validateConfig cfg = None" and si: "sameFormat si (cfgInfo cfg)"
    and adm: "encodable cfg B"
  obtains hdr c where "data = fileOf hdr c" "framed cs cfg c B" "frameFile cs cfg c B" "fileSizes c hdr"
    "\<And>src opts out. fileSource src data \<Longrightarrow> outDepth opts (si_BitDepth (cfgInfo cfg)) = Some out
      \<Longrightarrow> \<exists>d. NewDecoder (Some src) opts = Inr d \<and> boundTo cfg c hdr d \<and> usable d \<and> de_info d = si \<and> de_outBits d = out"
proof -
  obtain hdr c where s: "data = hdr @ concat (map fst c)" "framesFrom cs cfg 0 c B" "sm_Info sm = si"
    "parses (ReadMetadata :: (StreamMeta, frameCRC) rm) (byte_bits hdr) sm" "framed cs cfg c B"
    "pointsAt c (sm_SeekPoints sm)" "16 \<le> sm_MaxBlock sm" "length c \<le> 1 \<or> sm_MaxBlock sm = encoderBlockSize" "length hdr \<le> 2 ^ 26"
    using streamOf_parts [OF S] by metis
  have F: "frameFile cs cfg c B" using s(2) v by (simp add: frameFile_def)
  have "\<exists>d. NewDecoder (Some src) opts = Inr d \<and> boundTo cfg c hdr d \<and> usable d \<and> de_info d = si \<and> de_outBits d = out"
    if src: "fileSource src data" and opts: "outDepth opts (si_BitDepth (cfgInfo cfg)) = Some out" for src opts out
  proof -
    obtain sk x where k: "so_seeker src = Some sk" "sk_base sk = Inr 0" "sk_resume sk = Inr x" "sk_end sk = Inr (length data)" "sk_restore sk = None"
      and r: "src_bytes 0 (so_reads src) = (hdr @ concat (map fst c), EOF)"
      using src s(1) by (auto simp: fileSource_def)
    have m: "measurable src" using k by (simp add: measurable_def)
    have f: "sameFormat (sm_Info sm) (cfgInfo cfg)" using si s(3) by simp
    have z: "\<forall>br. de_br zeroDecoder = Some br \<longrightarrow> reusable br" by (simp add: zeroDecoder_def)
    from open_stream [OF z r m s(4,2) v f opts] obtain d where
      d: "resetDecoder (Some src) opts zeroDecoder = (None, d)" "standsBefore cs cfg 0 c B d" "de_outBits d = out" "de_info d = si"
      and sk: "de_seekable d \<and> de_audioStart d = 0 + length hdr \<and> de_streamEnd d = length data \<and> de_nominalBlock d = sm_MaxBlock sm
        \<and> de_maxFrame d = sm_MaxFrame sm \<and> de_seekPoints d = sm_SeekPoints sm"
      using k s(3) by blast
    have N: "NewDecoder (Some src) opts = Inr d" by (simp add: NewDecoder_reset d(1))
    have "boundTo cfg c hdr d" using sk d(2) s(1,6-8) by (simp add: boundTo_def standsBefore_def fileOf_def)
    then show ?thesis using N NewDecoder_usable [OF N] d(3,4) by blast
  qed
  then show thesis using that [of hdr c] s(1,5) F file_sizes [OF F s(9) adm] by (simp add: fileOf_def)
qed

lemma seek_file:
  assumes S: "streamOf cs cfg si B sm data" and v: "validateConfig cfg = None" and si: "sameFormat si (cfgInfo cfg)"
    and adm: "encodable cfg B" and tot: "si_TotalSamples si = 0 \<or> si_TotalSamples si = of_nat (length B div sampleBytes cfg)"
  shows "\<exists>hdr c. data = fileOf hdr c \<and> framed cs cfg c B
    \<and> (\<forall>src opts out t. fileSource src data \<longrightarrow> outDepth opts (si_BitDepth (cfgInfo cfg)) = Some out \<longrightarrow> t < length B div sampleBytes cfg
        \<longrightarrow> audioMax cfg (length B div sampleBytes cfg) \<le> linearWindow \<or> onlyFrames cs si c hdr
        \<longrightarrow> (\<exists>d d'. NewDecoder (Some src) opts = Inr d \<and> SeekToSample cs (seekIn src) (int t) d = Some (Inr (int t), d')
             \<and> readsAs cs md5 d' (drop (t * (nat (cf_Channels cfg) * ((out + 7) div 8)))
                 (convertPcm (cfgBytesPS cfg) (si_BitDepth (cfgInfo cfg)) out B))))"
proof -
  from open_file [OF S v si adm] obtain hdr c where
    f: "data = fileOf hdr c" "framed cs cfg c B" "frameFile cs cfg c B" "fileSizes c hdr"
    and op: "\<And>src opts out. fileSource src data \<Longrightarrow> outDepth opts (si_BitDepth (cfgInfo cfg)) = Some out
      \<Longrightarrow> \<exists>d. NewDecoder (Some src) opts = Inr d \<and> boundTo cfg c hdr d \<and> usable d \<and> de_info d = si \<and> de_outBits d = out" by blast
  have n: "sampleOff c (length c) = length B div sampleBytes cfg" by (rule all_samples(2) [OF f(3)])
  have "\<exists>d d'. NewDecoder (Some src) opts = Inr d \<and> SeekToSample cs (seekIn src) (int t) d = Some (Inr (int t), d')
       \<and> readsAs cs md5 d' (drop (t * (nat (cf_Channels cfg) * ((out + 7) div 8))) (convertPcm (cfgBytesPS cfg) (si_BitDepth (cfgInfo cfg)) out B))"
    if a: "fileSource src data" "outDepth opts (si_BitDepth (cfgInfo cfg)) = Some out" "t < length B div sampleBytes cfg"
      "audioMax cfg (length B div sampleBytes cfg) \<le> linearWindow \<or> onlyFrames cs si c hdr" for src opts out t
  proof -
    from op [OF a(1,2)] obtain d where d: "NewDecoder (Some src) opts = Inr d" "boundTo cfg c hdr d" "usable d" "de_info d = si" "de_outBits d = out" by blast
    have srv: "servesFile (seekIn src) (fileOf hdr c)" using a(1) by (auto simp: fileSource_def seekIn_def f(1))
    have "framesFrom cs cfg 0 c B" using f(3) by (simp add: frameFile_def)
    from audio_size [OF this] have "scannable cs (de_info d) c hdr" using a(4) by (auto simp: scannable_def d(4) n)
    moreover have "t < sampleOff c (length c)" using a(3) n by simp
    moreover have "si_TotalSamples (de_info d) = 0 \<or> si_TotalSamples (de_info d) = of_nat (sampleOff c (length c))" using tot by (simp add: d(4) n)
    ultimately show ?thesis
      using seek_lands [OF f(3,4) srv d(2,3), of t md5] serves_reads d(1) unfolding d(5) by blast
  qed
  then show ?thesis using f(1,2) by blast
qed

end
