(* ===== verification/Pcm_Cut.thy ===== *)
theory Pcm_Cut
  imports Pcm_Landing
begin

text \<open>
  Streams that end inside a frame: the frames before are decoded, and then the decoder reports a
  truncated stream, whatever STREAMINFO says.
\<close>

definition cutBefore :: "(u8 list \<Rightarrow> u16) \<Rightarrow> Config \<Rightarrow> nat \<Rightarrow> (u8 list \<times> nat) list \<Rightarrow> u8 list \<Rightarrow> u8 list \<Rightarrow> Decoder \<Rightarrow> bool" where
  "cutBefore cs cfg i c p B d \<longleftrightarrow> validateConfig cfg = None \<and> sameFormat (de_info d) (cfgInfo cfg) \<and> de_bytesPS d = cfgBytesPS cfg
     \<and> \<not> de_done d \<and> framesFrom cs cfg i c B
     \<and> (\<exists>br. de_br d = Some br \<and> wf_reader br \<and> roff br = 0 \<and> rbytes br = concat (map fst c) @ p \<and> rend br = EOF)"

lemma open_cut:
  assumes src: "src_bytes 0 (so_reads src) = (hdr @ concat (map fst c) @ p, EOF)" "measurable src"
    and h: "parses (ReadMetadata :: (StreamMeta, frameCRC) rm) (byte_bits hdr) sm"
    and fr: "framesFrom cs cfg 0 c B" "validateConfig cfg = None" "sameFormat (sm_Info sm) (cfgInfo cfg)"
    and opts: "outDepth opts (si_BitDepth (cfgInfo cfg)) = Some out"
  shows "\<exists>d. NewDecoder (Some src) opts = Inr d \<and> cutBefore cs cfg 0 c p B d \<and> de_err d = None \<and> de_pending d = [] \<and> de_info d = sm_Info sm"
proof -
  have "\<forall>br. de_br zeroDecoder = Some br \<longrightarrow> reusable br" by simp
  from initDecoder_stream [OF this src h] obtain d1 br where
    i: "initDecoder (Some src) zeroDecoder = (None, d1)"
      "de_br d1 = Some br" "wf_reader br" "roff br = 0" "rbytes br = concat (map fst c) @ p" "rend br = EOF" "de_info d1 = sm_Info sm" by blast
  note o = initDecoder_open [OF _ i(1)]
  have depth: "si_BitDepth (de_info d1) = si_BitDepth (cfgInfo cfg)" using fr(3) i(7) by (simp add: sameFormat_def)
  from applyOptions_out [of d1 opts] o(8) obtain t s where
    a: "applyOptions opts d1 = (None, d1\<lparr>de_skipMD5 := (SkipMD5Verification \<in> set opts), de_convertTo := t, de_convertSet := s, de_outBits := out\<rparr>)"
    using opts o(7) by (auto simp: depth)
  have "si_BitDepth (cfgInfo cfg) = nat (cf_BitDepth cfg)" by (simp add: cfgInfo_def)
  then have "(si_BitDepth (sm_Info sm) + 7) div 8 = cfgBytesPS cfg"
    using depth i(7) fr(2) by (auto simp: cfgBytesPS_def validateConfig_None nat_add_distrib nat_div_distrib)
  then show ?thesis using i a o fr by (simp add: NewDecoder_def cutBefore_def)
qed

text \<open>A whole frame is decoded, what is left of a frame is an error.\<close>

lemma next_before_cut:
  assumes d: "cutBefore cs cfg i ((buf, n) # c) p B d"
  shows "\<exists>d'. decodeNextFrame cs md5 d = Some (None, d') \<and> (\<forall>q. cutBefore cs cfg (Suc i) c p (drop (sampleBytes cfg * n) B) (d'\<lparr>de_pending := q\<rparr>))"
proof -
  obtain br where br: "de_br d = Some br" "wf_reader br" "roff br = 0" "rbytes br = buf @ concat (map fst c) @ p" "rend br = EOF"
    using d by (auto simp: cutBefore_def)
  have si: "sameFormat (de_info d) (cfgInfo cfg)" and nd: "\<not> de_done d"
    and fr: "decodes cs (cfgInfo cfg) buf (chunkFrame cfg i n (take (sampleBytes cfg * n) B))" "framesFrom cs cfg (Suc i) c (drop (sampleBytes cfg * n) B)"
    using d by (simp_all add: cutBefore_def)
  from decodesD [OF fr(1) br(2,3,4)] obtain br' where
    br': "Decode cs (cfgInfo cfg) br = (Inr (chunkFrame cfg i n (take (sampleBytes cfg * n) B)), br')" "resumed (length buf) br br'" by blast
  have D: "Decode cs (de_info d) = Decode cs (cfgInfo cfg)" using si by (intro Decode_cong) (simp_all add: sameFormat_def)
  have r: "rbytes br' = concat (map fst c) @ p" "rend br' = EOF" "wf_reader br'" "roff br' = 0" using br'(2) br by (simp_all add: resumed_def)
  obtain d' where n: "decodeNextFrame cs md5 d = Some (None, d')" "de_br d' = Some br'" "de_info d' = de_info d" "de_bytesPS d' = de_bytesPS d" "de_done d' = de_done d"
    by (simp add: decodeNextFrame_def nd br(1) D br'(1) packFrame_def Let_def)
  then show ?thesis using d fr(2) r by (simp add: cutBefore_def)
qed

lemma at_the_cut:
  assumes d: "cutBefore cs cfg i [] p B d" and p: "decodes cs (cfgInfo cfg) (p @ X) f" "p \<noteq> []" "X \<noteq> []"
  shows "\<exists>d'. decodeNextFrame cs md5 d = Some (Some (ErrTruncatedStream (Some ErrUnexpectedEOF)), d')"
proof -
  obtain br where br: "de_br d = Some br" "wf_reader br" "roff br = 0" "rend br = EOF" "rbytes br = p" using d by (auto simp: cutBefore_def)
  have si: "sameFormat (de_info d) (cfgInfo cfg)" "\<not> de_done d" "validateConfig cfg = None" using d by (simp_all add: cutBefore_def)
  have v: "valid_info (cfgInfo cfg)" using info_ok_cfgInfo [OF si(3)] by (simp add: info_ok_def valid_info_def)
  have "Decode cs (de_info d) = Decode cs (cfgInfo cfg)" using si(1) by (intro Decode_cong) (simp_all add: sameFormat_def)
  then have "fst (Decode cs (de_info d) br) = Inl ErrUnexpectedEOF" using decodes_cut [OF p v br(2-5)] by simp
  then show ?thesis using si(2) br(1) by (auto simp: decodeNextFrame_def Let_def split: prod.split)
qed

lemma drain_cut:
  assumes "cutBefore cs cfg i c p B d" "decodes cs (cfgInfo cfg) (p @ X) f" "p \<noteq> []" "X \<noteq> []" "cw_max s \<le> 0"
  shows "\<exists>n d' s'. drainTo cs md5 cappedWrite t d s = Some (n, Some (ErrTruncatedStream (Some ErrUnexpectedEOF)), d', s')"
  using assms
proof (induction c arbitrary: i B d s t)
  case Nil
  then show ?case using at_the_cut [OF Nil.prems(1-4), of md5] by (subst drainTo.simps) auto
next
  case (Cons fr c)
  obtain buf n where fr: "fr = (buf, n)" by (cases fr)
  from next_before_cut [OF Cons.prems(1) [unfolded fr], of md5] obtain d1 where
    d1: "decodeNextFrame cs md5 d = Some (None, d1)" "\<And>q. cutBefore cs cfg (Suc i) c p (drop (sampleBytes cfg * n) B) (d1\<lparr>de_pending := q\<rparr>)" by blast
  obtain k s1 where w: "cappedWrite (de_pending d1) s = (k, None, s1)" "cw_max s1 \<le> 0" "k = length (de_pending d1)" using Cons.prems(5) by (auto simp: cappedWrite_def)
  have "drainTo cs md5 cappedWrite t d s = drainTo cs md5 cappedWrite (t + k) (d1\<lparr>de_pending := drop k (de_pending d1)\<rparr>) s1"
    by (subst drainTo.simps) (simp add: d1(1) w(1,3) Let_def)
  then show ?case using Cons.IH [OF d1(2) Cons.prems(2-4) w(2)] by simp
qed

text \<open>A stream cut off anywhere behind its header, between or inside frames.\<close>

lemma cut_position:
  assumes "q < length (concat (map fst c))"
  shows "\<exists>k < length c. \<exists>p X. take q (concat (map fst c)) = concat (map fst (take k c)) @ p \<and> fst (c ! k) = p @ X \<and> X \<noteq> []"
  using assms
proof (induction c arbitrary: q)
  case (Cons f c)
  show ?case
  proof (cases "q < length (fst f)")
    case True
    then show ?thesis by (intro exI [of _ 0]) (auto intro!: exI [of _ "take q (fst f)"] exI [of _ "drop q (fst f)"])
  next
    case False
    then have "q - length (fst f) < length (concat (map fst c))" using Cons.prems by simp
    from Cons.IH [OF this] obtain k p X where
      "k < length c" "take (q - length (fst f)) (concat (map fst c)) = concat (map fst (take k c)) @ p" "fst (c ! k) = p @ X" "X \<noteq> []" by blast
    then show ?thesis using False by (intro exI [of _ "Suc k"]) auto
  qed
qed simp

lemma stream_cut:
  assumes S: "streamOf cs cfg si B sm data" and v: "validateConfig cfg = None" and si: "sameFormat si (cfgInfo cfg)"
    and tot: "si_TotalSamples si = of_nat (length B div sampleBytes cfg)" "length B div sampleBytes cfg < 2 ^ 36"
    and skip: "SkipMD5Verification \<in> set opts \<or> si_MD5 si = zeroMD5" and opts: "outDepth opts (si_BitDepth (cfgInfo cfg)) = Some out"
  shows "\<exists>hdr audio. data = hdr @ audio \<and> (B \<noteq> [] \<longrightarrow> audio \<noteq> []) \<and> (\<forall>q src. q < length audio \<longrightarrow> src_bytes 0 (so_reads src) = (hdr @ take q audio, EOF) \<longrightarrow> measurable src
    \<longrightarrow> (\<exists>e. DecodeInterleavedLimit cs md5 (Some src) 0 opts = Some (Inl (ErrTruncatedStream e), si)))"
proof -
  obtain hdr c where s: "data = hdr @ concat (map fst c)" "framesFrom cs cfg 0 c B" "sm_Info sm = si"
    "parses (ReadMetadata :: (StreamMeta, frameCRC) rm) (byte_bits hdr) sm" "framed cs cfg c B"
    and at: "\<And>k src. k < length c \<Longrightarrow> src_bytes 0 (so_reads src) = (hdr @ concat (map fst (take k c)), EOF) \<Longrightarrow> measurable src
      \<Longrightarrow> DecodeInterleavedLimit cs md5 (Some src) 0 opts = Some (Inl (ErrTruncatedStream None), si)"
    by (rule streamOf_cut [where ?md5.0 = md5, OF S v si tot skip opts]) blast
  have "\<exists>e. DecodeInterleavedLimit cs md5 (Some src) 0 opts = Some (Inl (ErrTruncatedStream e), si)"
    if q: "q < length (concat (map fst c))" and src: "src_bytes 0 (so_reads src) = (hdr @ take q (concat (map fst c)), EOF)" "measurable src" for q src
  proof -
    from cut_position [OF q] obtain k p X where
      k: "k < length c" "take q (concat (map fst c)) = concat (map fst (take k c)) @ p" "fst (c ! k) = p @ X" "X \<noteq> []" by blast
    show ?thesis
    proof (cases "p = []")
      case True
      then show ?thesis using at [OF k(1) _ src(2)] src(1) k(2) by auto
    next
      case False
      have F: "frameFile cs cfg c B" using s(2) v by (simp add: frameFile_def)
      have f: "sameFormat (sm_Info sm) (cfgInfo cfg)" using si s(3) by simp
      from open_cut [OF src(1) [unfolded k(2)] src(2) s(4) framesFrom_take [OF s(2)] v f opts] obtain d where
        d: "NewDecoder (Some src) opts = Inr d" "cutBefore cs cfg 0 (take k c) p (take (sampleBytes cfg * sum_list (map snd (take k c))) B) d"
          "de_err d = None" "de_pending d = []" "de_info d = si" using s(3) by auto
      have "cw_max \<lparr>cw_buf = [], cw_n = 0, cw_max = 0\<rparr> \<le> 0" by simp
      from drain_cut [OF d(2) nth_frame(1) [OF F k(1), unfolded k(3)] False k(4) this, of md5 0] obtain n d' s' where
        "drainTo cs md5 cappedWrite 0 d \<lparr>cw_buf = [], cw_n = 0, cw_max = 0\<rparr> = Some (n, Some (ErrTruncatedStream (Some ErrUnexpectedEOF)), d', s')" by blast
      then show ?thesis by (simp add: DecodeInterleavedLimit_def d decWriteTo_def)
    qed
  qed
  moreover have "B \<noteq> [] \<longrightarrow> concat (map fst c) \<noteq> []" using s(2) by (cases c) (auto simp: frameShape_def)
  ultimately show ?thesis using s(1) by blast
qed

end
