(* ===== verification/Wav.thy ===== *)
theory Wav
  imports Pcm_Stream
begin

text \<open>
  The converter from WAV (\<open>cmd/wav2flac/main.go\<close>): reading the header of a RIFF/WAVE file and
  running the stream encoder over its data chunk. The input is an \<open>io.Reader\<close> that is nothing more
  (\<open>io.Copy\<close> reads it in pieces of 32 KiB), the output a sink. Flags, the opening and closing of
  files and the messages are not modelled.
\<close>

section \<open>Reading\<close>

text \<open>\<open>io.ReadFull\<close> with what is left of the source; \<open>readFull\<close> is its result alone.\<close>

fun readFullRest :: "nat \<Rightarrow> chunk list \<Rightarrow> u8 list \<times> err option \<times> chunk list" where
  "readFullRest n [] = ([], if n = 0 then None else Some EOF, [])"
| "readFullRest n (Chunk bs e # cs) =
     (if n = 0 then ([], None, Chunk bs e # cs)
      else if n < length bs then (take n bs, None, Chunk (drop n bs) e # cs)
      else if n = length bs then (bs, None, cs)
      else case e of
        Some x \<Rightarrow> (bs, Some (if bs \<noteq> [] \<and> x = EOF then ErrUnexpectedEOF else x), cs)
      | None \<Rightarrow> (case readFullRest (n - length bs) cs of
                   (rest, x, cs) \<Rightarrow> (bs @ rest, if bs \<noteq> [] \<and> x = Some EOF then Some ErrUnexpectedEOF else x, cs)))"

text \<open>\<open>io.CopyN(io.Discard, r, n)\<close>: \<open>io.Discard\<close> reads 8 KiB at a time.\<close>

definition discardBlock :: nat where "discardBlock = 8192"

function discardN :: "nat \<Rightarrow> chunk list \<Rightarrow> err option \<times> chunk list" where
  "discardN n src =
     (if n = 0 then (None, src)
      else case src_read (min discardBlock n) src of
        (bs, None, src) \<Rightarrow> discardN (n - length bs) src
      | (bs, Some x, src) \<Rightarrow> (if length bs = n then None else Some x, src))"
  by pat_completeness auto

text \<open>\<open>io.LimitReader\<close> where there is a limit.\<close>

definition limitRead :: "nat option \<Rightarrow> nat \<Rightarrow> chunk list \<Rightarrow> u8 list \<times> err option \<times> chunk list" where
  "limitRead lim k src = (case lim of None \<Rightarrow> src_read k src | Some n \<Rightarrow> if n = 0 then ([], Some EOF, src) else src_read (min k n) src)"

text \<open>A read ends the source, or leaves less of it.\<close>

lemma src_read_less:
  "src_read k src = (bs, None, src') \<Longrightarrow> 0 < k \<Longrightarrow> src_len src' + length src' < src_len src + length src"
  by (induction k src rule: src_read.induct) (auto split: if_splits)

lemma limitRead_less:
  "limitRead lim k src = (bs, None, src') \<Longrightarrow> 0 < k \<Longrightarrow> src_len src' + length src' < src_len src + length src"
  by (auto simp: limitRead_def split: option.splits if_splits dest!: src_read_less)

termination discardN
  by (relation "measure (\<lambda>(n, src). src_len src + length src)") (auto simp: discardBlock_def dest: src_read_less [OF sym])

declare discardN.simps [simp del]

section \<open>The WAV header\<close>

definition wavFormatPCM :: u16 where "wavFormatPCM = 0x0001"
definition wavFormatExtensible :: u16 where "wavFormatExtensible = 0xFFFE"

record wavFormat =
  wf_channels :: int
  wf_sampleRate :: int
  wf_bitsPerSample :: int
  wf_dataLen :: int

definition noFormat :: wavFormat where
  "noFormat = \<lparr>wf_channels = 0, wf_sampleRate = 0, wf_bitsPerSample = 0, wf_dataLen = 0\<rparr>"

definition idRIFF :: "u8 list" where "idRIFF = [0x52, 0x49, 0x46, 0x46]"
definition idWAVE :: "u8 list" where "idWAVE = [0x57, 0x41, 0x56, 0x45]"
definition idFmt :: "u8 list" where "idFmt = [0x66, 0x6D, 0x74, 0x20]"
definition idData :: "u8 list" where "idData = [0x64, 0x61, 0x74, 0x61]"

text \<open>\<open>b[i:j]\<close> as a little-endian number.\<close>

definition leField :: "nat \<Rightarrow> nat \<Rightarrow> u8 list \<Rightarrow> 'a::len word" where
  "leField i j b = le_word (take (j - i) (drop i b))"

definition formatOf :: "u8 list \<Rightarrow> wavFormat \<Rightarrow> wavFormat" where
  "formatOf b f =
     f\<lparr>wf_channels := uint (leField 2 4 b :: u16), wf_sampleRate := uint (leField 4 8 b :: u32),
       wf_bitsPerSample := uint (leField 14 16 b :: u16)\<rparr>"

definition supportedFormat :: "u8 list \<Rightarrow> bool" where
  "supportedFormat b \<longleftrightarrow> leField 0 2 b = wavFormatPCM \<or> leField 0 2 b = wavFormatExtensible"

definition dataLenOf :: "u32 \<Rightarrow> int" where
  "dataLenOf sz = (if sz = 0 \<or> sz = 0xFFFFFFFF then - 1 else uint sz)"

text \<open>The case \<open>"fmt "\<close>, and every chunk of no interest.\<close>

definition fmtChunk :: "nat \<Rightarrow> wavFormat \<Rightarrow> chunk list \<Rightarrow> err option \<times> wavFormat \<times> chunk list" where
  "fmtChunk sz f src =
     (if sz < 16 then (Some ErrUsage, f, src)
      else case readFullRest sz src of
        (_, Some e, src) \<Rightarrow> (Some e, f, src)
      | (b, None, src) \<Rightarrow>
          if \<not> supportedFormat b then (Some ErrUsage, f, src)
          else if sz mod 2 = 1 then (case discardN 1 src of (e, src) \<Rightarrow> (e, formatOf b f, src))
          else (None, formatOf b f, src))"

definition skipChunk :: "nat \<Rightarrow> chunk list \<Rightarrow> err option \<times> chunk list" where
  "skipChunk sz src =
     (case discardN sz src of
        (Some e, src) \<Rightarrow> (Some e, src)
      | (None, src) \<Rightarrow> if sz mod 2 = 1 then discardN 1 src else (None, src))"

lemma readFullRest_len: "readFullRest n src = (bs, e, src') \<Longrightarrow> src_len src = length bs + src_len src' \<and> (e = None \<longrightarrow> length bs = n)"
proof (induction n src arbitrary: bs e src' rule: readFullRest.induct)
  case (2 n b x cs)
  show ?case
  proof (cases "n = 0 \<or> n \<le> length b \<or> x \<noteq> None")
    case True
    then show ?thesis using 2(2) by (auto split: if_splits option.splits)
  next
    case False
    obtain r y s where r: "readFullRest (n - length b) cs = (r, y, s)" by (metis prod_cases3)
    have "src_len cs = length r + src_len s \<and> (y = None \<longrightarrow> length r = n - length b)"
      using "2.IH" [OF _ _ _ _ r] False by auto
    then show ?thesis using 2(2) False r by (auto split: if_splits)
  qed
qed (auto split: if_splits)

lemma discardN_len: "src_len (snd (discardN n src)) \<le> src_len src"
proof (induction n src rule: discardN.induct)
  case (1 n src)
  then show ?case
    using src_read_len [of "min discardBlock n" src]
    by (subst discardN.simps) (fastforce split: prod.splits option.splits)
qed

lemma skipChunk_len: "src_len (snd (skipChunk n src)) \<le> src_len src"
  using discardN_len [of n src] discardN_len [of 1 "snd (discardN n src)"]
  by (auto simp: skipChunk_def split: prod.splits option.splits)

lemma fmtChunk_len: "src_len (snd (snd (fmtChunk n f src))) \<le> src_len src"
proof -
  obtain b e s where r: "readFullRest n src = (b, e, s)" by (metis prod_cases3)
  show ?thesis using readFullRest_len [OF r] discardN_len [of 1 s]
    by (auto simp: fmtChunk_def r split: prod.splits option.splits)
qed

function wavChunks :: "wavFormat \<Rightarrow> bool \<Rightarrow> chunk list \<Rightarrow> err option \<times> wavFormat \<times> chunk list" where
  "wavChunks f haveFmt src =
     (case readFullRest 8 src of
        (_, Some e, src) \<Rightarrow> (Some e, f, src)
      | (h, None, src) \<Rightarrow>
          let ident = take 4 h; sz = leField 4 8 h :: u32
          in if ident = idFmt then
               (case fmtChunk (unat sz) f src of
                  (Some e, f, src) \<Rightarrow> (Some e, f, src)
                | (None, f, src) \<Rightarrow> wavChunks f True src)
             else if ident = idData then
               (if \<not> haveFmt then (Some ErrUsage, f, src)
                else (None, f\<lparr>wf_dataLen := dataLenOf sz\<rparr>, src))
             else
               (case skipChunk (unat sz) src of
                  (Some e, src) \<Rightarrow> (Some e, f, src)
                | (None, src) \<Rightarrow> wavChunks f haveFmt src))"
  by pat_completeness auto

termination
proof (relation "measure (\<lambda>(f, haveFmt, src). src_len src)", goal_cases)
  case (2 f haveFmt src h x e s ident sz y e' f' s')
  then show ?case using fmtChunk_len [of "unat sz" f s] readFullRest_len [of 8 src h e s] by (auto simp: prod_eq_iff)
next
  case (3 f haveFmt src h x e s ident sz y s')
  then show ?case using skipChunk_len [of "unat sz" s] readFullRest_len [of 8 src h e s] by (auto simp: prod_eq_iff)
qed simp

declare wavChunks.simps [simp del]

definition readWAVHeader :: "chunk list \<Rightarrow> err option \<times> wavFormat \<times> chunk list" where
  "readWAVHeader src =
     (case readFullRest 12 src of
        (_, Some e, src) \<Rightarrow> (Some e, noFormat, src)
      | (riff, None, src) \<Rightarrow>
          if take 4 riff \<noteq> idRIFF \<or> drop 8 riff \<noteq> idWAVE then (Some ErrUsage, noFormat, src)
          else wavChunks noFormat False src)"

section \<open>Encoding\<close>

text \<open>
  The loop of \<open>io.Copy\<close> into the encoder. A write without an error takes all it is given, so the
  test for a short write never fires.
\<close>

definition copyBlock :: nat where "copyBlock = 32 * 1024"

function copyToEncoder ::
  "'f float64 \<Rightarrow> (u8 list \<Rightarrow> u16) \<Rightarrow> 's sink \<Rightarrow> nat option \<Rightarrow> chunk list \<Rightarrow> 'f Encoder \<times> 's \<Rightarrow> err option \<times> 'f Encoder \<times> 's" where
  "copyToEncoder F cs w lim src st =
     (case limitRead lim copyBlock src of
        (bs, e, src) \<Rightarrow>
          (case (if bs = [] then (None, st) else snd (enWrite F cs w bs st)) of
             (Some err, st) \<Rightarrow> (Some err, st)
           | (None, st) \<Rightarrow>
               (case e of
                  None \<Rightarrow> copyToEncoder F cs w (map_option (\<lambda>n. n - length bs) lim) src st
                | Some x \<Rightarrow> (if x = EOF then None else Some x, st))))"
  by pat_completeness auto

termination
  by (relation "measure (\<lambda>(F, cs, w, lim, src, st). src_len src + length src)")
    (auto simp: copyBlock_def dest: limitRead_less [OF sym])

declare copyToEncoder.simps [simp del]

definition wavConfig :: "int \<Rightarrow> wavFormat \<Rightarrow> Config" where
  "wavConfig level f =
     \<lparr>cf_SampleRate = wf_sampleRate f, cf_BitDepth = wf_bitsPerSample f, cf_Channels = wf_channels f,
      cf_CompressionLevel = level, cf_SeekTableInterval = 0, cf_SeekTableMaxPoints = 0, cf_TotalSamples = 0,
      cf_SkipMD5 = False, cf_Tags = [], cf_Vendor = []\<rparr>"

definition encodeWAV ::
  "'f float64 \<Rightarrow> (u8 list \<Rightarrow> u16) \<Rightarrow> (u8 list \<Rightarrow> u8 list) \<Rightarrow> int \<Rightarrow> 's sink \<Rightarrow> chunk list \<Rightarrow> 's \<Rightarrow> err option \<times> wavFormat \<times> 's" where
  "encodeWAV F cs md5 level w src s =
     (case readWAVHeader src of
        (Some err, f, src) \<Rightarrow> (Some err, f, s)
      | (None, f, src) \<Rightarrow>
          (case NewEncoder F (Some w) (wavConfig level f) s of
             (Inl err, s) \<Rightarrow> (Some err, f, s)
           | (Inr enc, s) \<Rightarrow>
               (case copyToEncoder F cs w (if wf_dataLen f \<ge> 0 then Some (nat (wf_dataLen f)) else None) src (enc, s) of
                  (Some err, enc, s) \<Rightarrow> (Some err, f, s)
                | (None, enc, s) \<Rightarrow> (case enClose F cs md5 w (enc, s) of (err, enc, s) \<Rightarrow> (err, f, s)))))"

section \<open>The bytes of a source\<close>

text \<open>
  The sources that deliver all their bytes: the only error is \<open>io.EOF\<close>, at
  the end.
\<close>

fun endsClean :: "chunk list \<Rightarrow> bool" where
  "endsClean [] = True"
| "endsClean (Chunk bs e # cs) = (case e of None \<Rightarrow> endsClean cs | Some x \<Rightarrow> x = EOF \<and> cs = [])"

lemma src_read_all:
  assumes "src_read k src = (bs, e, src')"
  shows "src_all src = bs @ src_all src'" "endsClean src \<Longrightarrow> endsClean src'"
    "endsClean src \<Longrightarrow> e = None \<or> e = Some EOF \<and> src_all src' = []"
  using assms by (induction k src rule: src_read.induct) (auto split: if_splits option.splits)

lemma readFullRest_all:
  assumes "readFullRest n src = (bs, None, src')"
  shows "src_all src = bs @ src_all src' \<and> (endsClean src \<longrightarrow> endsClean src')"
  using assms
proof (induction n src arbitrary: bs src' rule: readFullRest.induct)
  case (2 n b e cs)
  show ?case
  proof (cases "n = 0 \<or> n \<le> length b \<or> e \<noteq> None")
    case True
    then show ?thesis using 2(2) by (auto split: if_splits option.splits)
  next
    case False
    obtain r y s where r: "readFullRest (n - length b) cs = (r, y, s)" by (metis prod_cases3)
    show ?thesis using "2.IH" [of r s] 2(2) False r by (auto split: if_splits)
  qed
qed (auto split: if_splits)

lemma readFullRest_ok:
  assumes "endsClean src" "n \<le> length (src_all src)"
  shows "\<exists>src'. readFullRest n src = (take n (src_all src), None, src') \<and> src_all src' = drop n (src_all src) \<and> endsClean src'"
proof -
  have "\<exists>bs src'. readFullRest n src = (bs, None, src')"
    using assms
  proof (induction n src rule: readFullRest.induct)
    case (2 n b e cs)
    show ?case
    proof (cases "n = 0 \<or> n \<le> length b")
      case True
      then show ?thesis by auto
    next
      case False
      then have e: "e = None" using 2(2,3) by (auto split: option.splits)
      then have "\<exists>bs src'. readFullRest (n - length b) cs = (bs, None, src')" using "2.IH" False 2(2,3) by auto
      then show ?thesis using False e by auto
    qed
  qed simp
  then obtain bs src' where r: "readFullRest n src = (bs, None, src')" by blast
  from readFullRest_len [OF r] readFullRest_all [OF r] show ?thesis using r assms(1) by auto
qed

lemma discardN_all:
  assumes "discardN n src = (None, src')"
  shows "\<exists>bs. length bs = n \<and> src_all src = bs @ src_all src' \<and> (endsClean src \<longrightarrow> endsClean src')"
  using assms
proof (induction n src arbitrary: src' rule: discardN.induct)
  case (1 n src)
  obtain bs e s where r: "src_read (min discardBlock n) src = (bs, e, s)" by (metis prod_cases3)
  have n: "length bs \<le> n" using src_read_len [OF r] by simp
  show ?case
  proof (cases "n = 0 \<or> e \<noteq> None")
    case True
    then show ?thesis using 1(2) r src_read_all [OF r] by (subst (asm) discardN.simps) (auto split: if_splits)
  next
    case False
    then have "discardN (n - length bs) s = (None, src')" using 1(2) r by (subst (asm) discardN.simps) simp
    from "1.IH" [OF _ r [symmetric] _ _ this] False obtain bs' where
      "length bs' = n - length bs" "src_all s = bs' @ src_all src'" "endsClean s \<longrightarrow> endsClean src'" by auto
    then show ?thesis using src_read_all [OF r] n by (intro exI [of _ "bs @ bs'"]) simp
  qed
qed

lemma discardN_ok:
  assumes "endsClean src" "n \<le> length (src_all src)"
  shows "\<exists>src'. discardN n src = (None, src') \<and> src_all src' = drop n (src_all src) \<and> endsClean src'"
proof -
  have "\<exists>src'. discardN n src = (None, src')"
    using assms
  proof (induction n src rule: discardN.induct)
    case (1 n src)
    obtain bs e s where r: "src_read (min discardBlock n) src = (bs, e, s)" by (metis prod_cases3)
    have n: "length bs \<le> n" using src_read_len [OF r] by simp
    show ?case
    proof (cases "n = 0 \<or> e \<noteq> None")
      case True
      then show ?thesis using r n 1(2,3) src_read_all [OF r] by (subst discardN.simps) auto
    next
      case False
      then show ?thesis
        using "1.IH" [OF _ r [symmetric]] 1(2,3) src_read_all [OF r] r by (subst discardN.simps) auto
    qed
  qed
  then obtain src' where r: "discardN n src = (None, src')" by blast
  from discardN_all [OF r] show ?thesis using r assms(1) by auto
qed

section \<open>The layout of a WAV file\<close>

text \<open>
  A chunk is its identifier, its body and the pad byte that follows a body of odd length. A file is
  the RIFF header, chunks of which at least one is a format chunk, and the header of the data chunk.
\<close>

fun chunkBytes :: "u8 list \<times> u8 list \<times> u8 \<Rightarrow> u8 list" where
  "chunkBytes (ident, body, pad) =
     ident @ le_bytes 4 (of_nat (length body) :: u32) @ body @ (if length body mod 2 = 1 then [pad] else [])"

fun chunkOk :: "u8 list \<times> u8 list \<times> u8 \<Rightarrow> bool" where
  "chunkOk (ident, body, pad) \<longleftrightarrow> length ident = 4 \<and> ident \<noteq> idData \<and> length body < 2 ^ 32
     \<and> (ident = idFmt \<longrightarrow> 16 \<le> length body \<and> supportedFormat body)"

fun applyChunk :: "u8 list \<times> u8 list \<times> u8 \<Rightarrow> wavFormat \<Rightarrow> wavFormat" where
  "applyChunk (ident, body, pad) f = (if ident = idFmt then formatOf body f else f)"

definition wavTail :: "(u8 list \<times> u8 list \<times> u8) list \<Rightarrow> u32 \<Rightarrow> u8 list \<Rightarrow> u8 list" where
  "wavTail cks sz rest = concat (map chunkBytes cks) @ idData @ le_bytes 4 sz @ rest"

definition wavBytes :: "u8 list \<Rightarrow> (u8 list \<times> u8 list \<times> u8) list \<Rightarrow> u32 \<Rightarrow> u8 list \<Rightarrow> u8 list" where
  "wavBytes riffSize cks sz rest = idRIFF @ riffSize @ idWAVE @ wavTail cks sz rest"

definition wavOk :: "bool \<Rightarrow> (u8 list \<times> u8 list \<times> u8) list \<Rightarrow> bool" where
  "wavOk haveFmt cks \<longleftrightarrow> list_all chunkOk cks \<and> (haveFmt \<or> list_ex (\<lambda>c. fst c = idFmt) cks)"

definition wavResult :: "wavFormat \<Rightarrow> (u8 list \<times> u8 list \<times> u8) list \<Rightarrow> u32 \<Rightarrow> wavFormat" where
  "wavResult f cks sz = (fold applyChunk cks f)\<lparr>wf_dataLen := dataLenOf sz\<rparr>"

text \<open>
  The formats the converter is documented for: signed integer samples of 16, 24 or 32 bits. The
  format chunk says so by the tag of PCM, or by that of an extensible format whose sub-format,
  in the bytes 24 to 39, is the GUID of PCM. (One-byte samples of a WAV file are unsigned.)
\<close>

definition subtypePCM :: "u8 list" where
  "subtypePCM = [1, 0, 0, 0, 0, 0, 0x10, 0, 0x80, 0, 0, 0xAA, 0, 0x38, 0x9B, 0x71]"

definition integerFormat :: "u8 list \<Rightarrow> bool" where
  "integerFormat b \<longleftrightarrow>
     (leField 0 2 b = wavFormatPCM \<or> leField 0 2 b = wavFormatExtensible \<and> take 16 (drop 24 b) = subtypePCM)
   \<and> (leField 14 16 b :: u16) \<in> {16, 24, 32}"

definition integerChunks :: "(u8 list \<times> u8 list \<times> u8) list \<Rightarrow> bool" where
  "integerChunks cks \<longleftrightarrow> list_all (\<lambda>(ident, body, pad). ident = idFmt \<longrightarrow> integerFormat body) cks"

lemma id_lengths [simp]: "length idRIFF = 4" "length idWAVE = 4" "length idFmt = 4" "length idData = 4" "idFmt \<noteq> idData" "idData \<noteq> idFmt"
  by (simp_all add: idRIFF_def idWAVE_def idFmt_def idData_def)

text \<open>The eight bytes in front of a chunk.\<close>

lemma chunkHead:
  "length i = 4 \<Longrightarrow> leField 4 8 (i @ le_bytes 4 n) = (n :: u32)"
  "length h = 8 \<Longrightarrow> h = take 4 h @ le_bytes 4 (leField 4 8 h :: u32)"
proof -
  show "length i = 4 \<Longrightarrow> leField 4 8 (i @ le_bytes 4 n) = (n :: u32)" by (simp add: leField_def)
  show "h = take 4 h @ le_bytes 4 (leField 4 8 h :: u32)" if "length h = 8"
    using le_bytes_le_word [of "drop 4 h", where 'a = 32] that by (simp add: leField_def)
qed

text \<open>A chunk that is read, and one that is there.\<close>

lemma pad_all:
  assumes "(if n mod 2 = 1 then discardN 1 src else (None, src)) = (None, src')"
  shows "\<exists>pad. src_all src = (if n mod 2 = 1 then [pad] else []) @ src_all src' \<and> (endsClean src \<longrightarrow> endsClean src')"
proof (cases "n mod 2 = 1")
  case True
  with assms discardN_all [of 1 src src'] show ?thesis by (auto simp: length_Suc_conv)
next
  case False
  then show ?thesis using assms by simp
qed

lemma pad_ok:
  assumes "endsClean src" "src_all src = (if n mod 2 = 1 then [pad] else []) @ rest"
  shows "\<exists>src'. (if n mod 2 = 1 then discardN 1 src else (None, src)) = (None, src') \<and> src_all src' = rest \<and> endsClean src'"
  using discardN_ok [OF assms(1), of 1] assms by (cases "n mod 2 = 1") auto

lemma fmtChunk_pad:
  "fmtChunk n f src =
     (if n < 16 then (Some ErrUsage, f, src)
      else case readFullRest n src of
        (_, Some e, src) \<Rightarrow> (Some e, f, src)
      | (b, None, src) \<Rightarrow>
          if \<not> supportedFormat b then (Some ErrUsage, f, src)
          else case (if n mod 2 = 1 then discardN 1 src else (None, src)) of (e, src) \<Rightarrow> (e, formatOf b f, src))"
  by (simp add: fmtChunk_def split: prod.split option.split)

lemma fmtChunk_all:
  assumes "fmtChunk n f src = (None, f', src')"
  shows "\<exists>b pad. length b = n \<and> 16 \<le> n \<and> supportedFormat b \<and> f' = formatOf b f
    \<and> src_all src = b @ (if n mod 2 = 1 then [pad] else []) @ src_all src' \<and> (endsClean src \<longrightarrow> endsClean src')"
proof -
  obtain b x s where r: "readFullRest n src = (b, x, s)" by (metis prod_cases3)
  have g: "16 \<le> n" "x = None" "supportedFormat b" "f' = formatOf b f" "(if n mod 2 = 1 then discardN 1 s else (None, s)) = (None, src')"
    using assms r by (auto simp: fmtChunk_pad split: if_splits option.splits prod.splits)
  note R = r [unfolded g(2)]
  from readFullRest_len [OF R] readFullRest_all [OF R] pad_all [OF g(5)] g(1,3,4) show ?thesis by fastforce
qed

lemma fmtChunk_ok:
  assumes "endsClean src" "src_all src = b @ (if length b mod 2 = 1 then [pad] else []) @ rest" "16 \<le> length b" "supportedFormat b"
  shows "\<exists>src'. fmtChunk (length b) f src = (None, formatOf b f, src') \<and> src_all src' = rest \<and> endsClean src'"
proof -
  from readFullRest_ok [OF assms(1), of "length b"] assms(2) obtain s where
    s: "readFullRest (length b) src = (b, None, s)" "src_all s = (if length b mod 2 = 1 then [pad] else []) @ rest" "endsClean s" by auto
  from pad_ok [OF s(3,2)] show ?thesis using assms(3,4) s(1) by (auto simp: fmtChunk_pad)
qed

lemma skipChunk_all:
  assumes "skipChunk n src = (None, src')"
  shows "\<exists>b pad. length b = n \<and> src_all src = b @ (if n mod 2 = 1 then [pad] else []) @ src_all src' \<and> (endsClean src \<longrightarrow> endsClean src')"
proof -
  obtain s where r: "discardN n src = (None, s)" "(if n mod 2 = 1 then discardN 1 s else (None, s)) = (None, src')"
    using assms by (auto simp: skipChunk_def split: option.splits prod.splits)
  from discardN_all [OF r(1)] pad_all [OF r(2)] show ?thesis by fastforce
qed

lemma skipChunk_ok:
  assumes "endsClean src" "src_all src = b @ (if length b mod 2 = 1 then [pad] else []) @ rest"
  shows "\<exists>src'. skipChunk (length b) src = (None, src') \<and> src_all src' = rest \<and> endsClean src'"
proof -
  from discardN_ok [OF assms(1), of "length b"] assms(2) obtain s where
    s: "discardN (length b) src = (None, s)" "src_all s = (if length b mod 2 = 1 then [pad] else []) @ rest" "endsClean s" by auto
  from pad_ok [OF s(3,2)] show ?thesis using s(1) by (auto simp: skipChunk_def)
qed

section \<open>The header is read exactly\<close>

lemma wavChunks_all:
  assumes "wavChunks f haveFmt src = (None, f', src')"
  shows "\<exists>cks sz. wavOk haveFmt cks \<and> src_all src = wavTail cks sz (src_all src') \<and> f' = wavResult f cks sz \<and> (endsClean src \<longrightarrow> endsClean src')"
  using assms
proof (induction f haveFmt src arbitrary: f' src' rule: wavChunks.induct)
  case (1 f haveFmt src)
  obtain h x s where r: "readFullRest 8 src = (h, x, s)" by (metis prod_cases3)
  have x: "x = None" using 1(3) r by (subst (asm) wavChunks.simps) (auto split: option.splits)
  note R = r [unfolded x]
  define i where "i = take 4 h"
  define n where "n = (leField 4 8 h :: u32)"
  have h: "h = i @ le_bytes 4 n" "length i = 4" using chunkHead(2) [of h] readFullRest_len [OF R] by (simp_all add: i_def n_def)
  have S: "src_all src = i @ le_bytes 4 n @ src_all s" "endsClean src \<longrightarrow> endsClean s" using readFullRest_all [OF R] h(1) by auto
  have unf: "wavChunks f haveFmt src =
     (if i = idFmt then (case fmtChunk (unat n) f s of (Some e, f, s) \<Rightarrow> (Some e, f, s) | (None, f, s) \<Rightarrow> wavChunks f True s)
      else if i = idData then (if \<not> haveFmt then (Some ErrUsage, f, s) else (None, f\<lparr>wf_dataLen := dataLenOf n\<rparr>, s))
      else (case skipChunk (unat n) s of (Some e, s) \<Rightarrow> (Some e, f, s) | (None, s) \<Rightarrow> wavChunks f haveFmt s))"
    unfolding i_def n_def by (subst wavChunks.simps) (simp add: R Let_def)
  note run = 1(3) [unfolded unf]
  have cons: "\<exists>cks sz. wavOk haveFmt cks \<and> src_all src = wavTail cks sz (src_all src') \<and> f' = wavResult f cks sz \<and> (endsClean src \<longrightarrow> endsClean src')"
    if b: "length b = unat n" "src_all s = b @ (if unat n mod 2 = 1 then [pad] else []) @ src_all s'" "endsClean s \<longrightarrow> endsClean s'"
      and ok: "chunkOk (i, b, pad)"
      and rec: "wavOk H cks" "src_all s' = wavTail cks sz (src_all src')" "f' = wavResult (applyChunk (i, b, pad) f) cks sz" "endsClean s' \<longrightarrow> endsClean src'"
      and H: "H \<longrightarrow> haveFmt \<or> i = idFmt" for b pad s' H cks sz
  proof (intro exI conjI)
    have "of_nat (length b) = n" using b(1) by simp
    then show "src_all src = wavTail ((i, b, pad) # cks) sz (src_all src')"
      using S(1) b(1,2) rec(2) by (simp add: wavTail_def)
    show "wavOk haveFmt ((i, b, pad) # cks)" using rec(1) ok H by (auto simp: wavOk_def)
    show "f' = wavResult f ((i, b, pad) # cks) sz" using rec(3) by (simp add: wavResult_def)
    show "endsClean src \<longrightarrow> endsClean src'" using S(2) b(3) rec(4) by blast
  qed
  have lt: "unat n < 2 ^ 32" using unsigned_less [of n, where 'a = nat] by simp
  consider (fmt) "i = idFmt" | (data) "i = idData" | (other) "i \<noteq> idFmt" "i \<noteq> idData" by blast
  then show ?case
  proof cases
    case fmt
    then obtain f1 s1 where F: "fmtChunk (unat n) f s = (None, f1, s1)" "wavChunks f1 True s1 = (None, f', src')"
      using run by (auto split: prod.splits option.splits)
    from fmtChunk_all [OF F(1)] obtain b pad where b: "length b = unat n" "16 \<le> unat n" "supportedFormat b" "f1 = formatOf b f"
      "src_all s = b @ (if unat n mod 2 = 1 then [pad] else []) @ src_all s1" "endsClean s \<longrightarrow> endsClean s1" by blast
    from "1.IH"(1) [OF R [symmetric] refl refl i_def n_def fmt F(1) [symmetric] refl refl F(2)] obtain cks sz where
      k: "wavOk True cks" "src_all s1 = wavTail cks sz (src_all src')" "f' = wavResult f1 cks sz" "endsClean s1 \<longrightarrow> endsClean src'" by blast
    show ?thesis by (rule cons [OF b(1,5,6) _ k(1,2) _ k(4)]) (use b lt h fmt k(3) in simp_all)
  next
    case data
    then have "haveFmt" "f' = f\<lparr>wf_dataLen := dataLenOf n\<rparr>" "src' = s" using run by (auto split: if_splits)
    then show ?thesis using S data by (intro exI [of _ "[]"] exI [of _ n]) (simp add: wavOk_def wavTail_def wavResult_def)
  next
    case other
    then obtain s1 where F: "skipChunk (unat n) s = (None, s1)" "wavChunks f haveFmt s1 = (None, f', src')"
      using run by (auto split: prod.splits option.splits)
    from skipChunk_all [OF F(1)] obtain b pad where b: "length b = unat n"
      "src_all s = b @ (if unat n mod 2 = 1 then [pad] else []) @ src_all s1" "endsClean s \<longrightarrow> endsClean s1" by blast
    from "1.IH"(2) [OF R [symmetric] refl refl i_def n_def other F(1) [symmetric] refl F(2)] obtain cks sz where
      k: "wavOk haveFmt cks" "src_all s1 = wavTail cks sz (src_all src')" "f' = wavResult f cks sz" "endsClean s1 \<longrightarrow> endsClean src'" by blast
    show ?thesis by (rule cons [OF b _ k(1,2) _ k(4)]) (use b lt h other k(3) in simp_all)
  qed
qed

text \<open>One round over a chunk that is there.\<close>

lemma wavChunks_step:
  assumes "chunkOk c" "endsClean src" "src_all src = chunkBytes c @ tail"
  shows "\<exists>s2. wavChunks f haveFmt src = wavChunks (applyChunk c f) (haveFmt \<or> fst c = idFmt) s2 \<and> src_all s2 = tail \<and> endsClean s2"
proof -
  obtain i b pad where c: "c = (i, b, pad)" by (metis prod_cases3)
  have k: "length i = 4" "i \<noteq> idData" "length b < 2 ^ 32" "i = idFmt \<Longrightarrow> 16 \<le> length b \<and> supportedFormat b"
    using assms(1) by (auto simp: c)
  let ?n = "of_nat (length b) :: u32"
  have n: "unat ?n = length b" using k(3) by (simp add: unat_of_nat)
  have s: "src_all src = (i @ le_bytes 4 ?n) @ b @ (if length b mod 2 = 1 then [pad] else []) @ tail"
    using assms(3) by (simp add: c)
  from readFullRest_ok [OF assms(2), of 8] s k(1) obtain s1 where
    r: "readFullRest 8 src = (i @ le_bytes 4 ?n, None, s1)" "endsClean s1"
      "src_all s1 = b @ (if length b mod 2 = 1 then [pad] else []) @ tail" by auto
  note hd = r(1) chunkHead(1) [OF k(1), of ?n]
  show ?thesis
  proof (cases "i = idFmt")
    case True
    from fmtChunk_ok [OF r(2,3), of f] k(4) True obtain s2 where
      2: "fmtChunk (length b) f s1 = (None, formatOf b f, s2)" "src_all s2 = tail" "endsClean s2" by blast
    have "wavChunks f haveFmt src = wavChunks (formatOf b f) True s2"
      using hd True 2(1) n by (subst wavChunks.simps) (simp add: Let_def)
    then show ?thesis using True 2 by (auto simp: c)
  next
    case False
    from skipChunk_ok [OF r(2,3)] obtain s2 where
      2: "skipChunk (length b) s1 = (None, s2)" "src_all s2 = tail" "endsClean s2" by blast
    have "wavChunks f haveFmt src = wavChunks f haveFmt s2"
      using hd False k(1,2) 2(1) n by (subst wavChunks.simps) (simp add: Let_def)
    then show ?thesis using False 2 by (auto simp: c)
  qed
qed

lemma wavChunks_ok:
  assumes "wavOk haveFmt cks" "endsClean src" "src_all src = wavTail cks sz rest"
  shows "\<exists>src'. wavChunks f haveFmt src = (None, wavResult f cks sz, src') \<and> src_all src' = rest \<and> endsClean src'"
  using assms
proof (induction cks arbitrary: f haveFmt src)
  case Nil
  from Nil have s: "src_all src = (idData @ le_bytes 4 sz) @ rest" by (simp add: wavTail_def)
  from readFullRest_ok [OF Nil(2), of 8] s obtain s1 where
    r: "readFullRest 8 src = (idData @ le_bytes 4 sz, None, s1)" "src_all s1 = rest" "endsClean s1" by auto
  have "haveFmt" using Nil(1) by (simp add: wavOk_def)
  then show ?case using r chunkHead(1) [of idData sz]
    by (intro exI [of _ s1]) (subst wavChunks.simps, simp add: wavResult_def Let_def)
next
  case (Cons c cks)
  from wavChunks_step [of c src "wavTail cks sz rest" f haveFmt] Cons.prems obtain s2 where
    2: "wavChunks f haveFmt src = wavChunks (applyChunk c f) (haveFmt \<or> fst c = idFmt) s2" "src_all s2 = wavTail cks sz rest" "endsClean s2"
    by (auto simp: wavOk_def wavTail_def)
  have "wavOk (haveFmt \<or> fst c = idFmt) cks" using Cons.prems(1) by (auto simp: wavOk_def)
  from Cons.IH [OF this 2(3,2), of "applyChunk c f"] show ?case using 2(1) by (simp add: wavResult_def)
qed

text \<open>A format chunk of another format, or too short for one, ends the reading.\<close>

lemma wavChunks_reject:
  fixes n :: u32
  assumes "list_all chunkOk cks" "endsClean src" "src_all src = concat (map chunkBytes cks) @ idFmt @ le_bytes 4 n @ b @ rest"
    and "length b = unat n" "length b < 16 \<or> \<not> supportedFormat b"
  shows "fst (wavChunks f haveFmt src) = Some ErrUsage"
  using assms(1-3)
proof (induction cks arbitrary: f haveFmt src)
  case Nil
  from Nil have s: "src_all src = (idFmt @ le_bytes 4 n) @ b @ rest" by simp
  from readFullRest_ok [OF Nil(2), of 8] s obtain s1 where
    r: "readFullRest 8 src = (idFmt @ le_bytes 4 n, None, s1)" "src_all s1 = b @ rest" "endsClean s1" by auto
  from readFullRest_ok [OF r(3), of "length b"] r(2) obtain s2 where "readFullRest (length b) s1 = (b, None, s2)" by auto
  then have "fst (fmtChunk (length b) f s1) = Some ErrUsage" using assms(5) by (auto simp: fmtChunk_def)
  then obtain y where "fmtChunk (length b) f s1 = (Some ErrUsage, y)" by (cases "fmtChunk (length b) f s1") auto
  then show ?case using r chunkHead(1) [of idFmt n] assms(4)
    by (subst wavChunks.simps) (simp add: Let_def split: prod.split)
next
  case (Cons c cks)
  from wavChunks_step [of c src "concat (map chunkBytes cks) @ idFmt @ le_bytes 4 n @ b @ rest" f haveFmt] Cons.prems obtain s2 where
    2: "wavChunks f haveFmt src = wavChunks (applyChunk c f) (haveFmt \<or> fst c = idFmt) s2"
      "src_all s2 = concat (map chunkBytes cks) @ idFmt @ le_bytes 4 n @ b @ rest" "endsClean s2"
    by auto
  from Cons.IH [OF _ 2(3,2)] Cons.prems(1) show ?case by (simp add: 2(1))
qed

lemma readWAVHeader_all:
  assumes "readWAVHeader src = (None, f, src')"
  shows "\<exists>riffSize cks sz. length riffSize = 4 \<and> wavOk False cks \<and> f = wavResult noFormat cks sz
    \<and> src_all src = wavBytes riffSize cks sz (src_all src') \<and> (endsClean src \<longrightarrow> endsClean src')"
proof -
  obtain h x s where r: "readFullRest 12 src = (h, x, s)" by (metis prod_cases3)
  have g: "x = None" "take 4 h = idRIFF" "drop 8 h = idWAVE" "wavChunks noFormat False s = (None, f, src')"
    using assms r by (auto simp: readWAVHeader_def split: option.splits if_splits)
  note R = r [unfolded g(1)]
  have "h = take 4 h @ take 4 (drop 4 h) @ drop 8 h" 
  proof -
    have "drop 8 h = drop 4 (drop 4 h)" by simp
    then show ?thesis by (metis append_take_drop_id)
  qed
  then have "h = idRIFF @ take 4 (drop 4 h) @ idWAVE" unfolding g(2,3) .
  moreover have "length (take 4 (drop 4 h)) = 4" using readFullRest_len [OF R] by simp
  moreover from wavChunks_all [OF g(4)] obtain cks sz where
    "wavOk False cks" "src_all s = wavTail cks sz (src_all src')" "f = wavResult noFormat cks sz" "endsClean s \<longrightarrow> endsClean src'" by blast
  ultimately show ?thesis using readFullRest_all [OF R] unfolding wavBytes_def by (metis append.assoc)
qed

lemma readWAVHeader_ok:
  assumes "length riffSize = 4" "wavOk False cks" "endsClean src" "src_all src = wavBytes riffSize cks sz rest"
  shows "\<exists>src'. readWAVHeader src = (None, wavResult noFormat cks sz, src') \<and> src_all src' = rest \<and> endsClean src'"
proof -
  have s: "src_all src = (idRIFF @ riffSize @ idWAVE) @ wavTail cks sz rest" using assms(4) by (simp add: wavBytes_def)
  from readFullRest_ok [OF assms(3), of 12] s assms(1) obtain s1 where
    r: "readFullRest 12 src = (idRIFF @ riffSize @ idWAVE, None, s1)" "src_all s1 = wavTail cks sz rest" "endsClean s1" by auto
  from wavChunks_ok [OF assms(2) r(3,2), of noFormat] show ?thesis using r(1) assms(1) by (auto simp: readWAVHeader_def)
qed

lemma readWAVHeader_reject:
  fixes n :: u32
  assumes "length riffSize = 4" "list_all chunkOk cks" "endsClean src"
    and "src_all src = idRIFF @ riffSize @ idWAVE @ concat (map chunkBytes cks) @ idFmt @ le_bytes 4 n @ b @ rest"
    and "length b = unat n" "length b < 16 \<or> \<not> supportedFormat b"
  shows "fst (readWAVHeader src) = Some ErrUsage"
proof -
  let ?tail = "concat (map chunkBytes cks) @ idFmt @ le_bytes 4 n @ b @ rest"
  have s: "src_all src = (idRIFF @ riffSize @ idWAVE) @ ?tail" using assms(4) by simp
  from readFullRest_ok [OF assms(3), of 12] s assms(1) obtain s1 where
    r: "readFullRest 12 src = (idRIFF @ riffSize @ idWAVE, None, s1)" "src_all s1 = ?tail" "endsClean s1" by auto
  then show ?thesis using wavChunks_reject [OF assms(2) r(3,2) assms(5,6)] assms(1) by (simp add: readWAVHeader_def)
qed

section \<open>The data chunk is encoded\<close>

text \<open>The bytes that are copied, and the pieces the copy writes them in.\<close>

definition upTo :: "nat option \<Rightarrow> 'a list \<Rightarrow> 'a list" where
  "upTo lim xs = (case lim of None \<Rightarrow> xs | Some n \<Rightarrow> take n xs)"

lemma limitRead_all:
  assumes "limitRead lim k src = (bs, e, src')" "endsClean src"
  shows "upTo lim (src_all src) = bs @ (if e = None then upTo (map_option (\<lambda>n. n - length bs) lim) (src_all src') else [])"
    "endsClean src'" "e = None \<or> e = Some EOF"
proof -
  show "endsClean src'" "e = None \<or> e = Some EOF"
    using assms by (auto simp: limitRead_def split: option.splits if_splits dest: src_read_all(2,3))
  show "upTo lim (src_all src) = bs @ (if e = None then upTo (map_option (\<lambda>n. n - length bs) lim) (src_all src') else [])"
  proof (cases lim)
    case None
    then show ?thesis using assms src_read_all [of k src bs e src'] by (auto simp: limitRead_def upTo_def)
  next
    case (Some n)
    show ?thesis
    proof (cases "n = 0")
      case True
      then show ?thesis using Some assms(1) by (auto simp: limitRead_def upTo_def)
    next
      case False
      then have r: "src_read (min k n) src = (bs, e, src')" using Some assms(1) by (simp add: limitRead_def)
      then show ?thesis using src_read_all [OF r] src_read_len [OF r] assms(2) Some by (auto simp: upTo_def)
    qed
  qed
qed

lemma copyToEncoder_pieces:
  assumes "endsClean src"
  shows "\<exists>ps. concat ps = upTo lim (src_all src) \<and> copyToEncoder F cs w lim src st = enWriteAll F cs w ps st"
  using assms
proof (induction F cs w lim src st rule: copyToEncoder.induct)
  case (1 F cs w lim src st)
  obtain bs e s where r: "limitRead lim copyBlock src = (bs, e, s)" by (metis prod_cases3)
  note L = limitRead_all [OF r 1(2)]
  let ?lim = "map_option (\<lambda>n. n - length bs) lim"
  obtain x st1 where W: "(if bs = [] then (None, st) else snd (enWrite F cs w bs st)) = (x, st1)" by (metis surj_pair)
  let ?tail = "if e = None then upTo ?lim (src_all s) else []"
  have unf: "copyToEncoder F cs w lim src st =
    (case x of Some err \<Rightarrow> (Some err, st1) | None \<Rightarrow> if e = None then copyToEncoder F cs w ?lim s st1 else (None, st1))"
    using L(3) by (subst copyToEncoder.simps) (auto simp: r W split: option.split)
  have "\<exists>ps. concat ps = ?tail \<and> (x = None \<longrightarrow> (if e = None then copyToEncoder F cs w ?lim s st1 else (None, st1)) = enWriteAll F cs w ps st1)"
  proof (cases "x = None \<and> e = None")
    case True
    then show ?thesis using "1.IH" [OF r [symmetric] refl W [symmetric]] L(2) by simp
  next
    case False
    then show ?thesis by (intro exI [of _ "if e = None then [?tail] else []"]) auto
  qed
  then obtain ps where p: "concat ps = ?tail"
    "x = None \<longrightarrow> (if e = None then copyToEncoder F cs w ?lim s st1 else (None, st1)) = enWriteAll F cs w ps st1" by blast
  have "copyToEncoder F cs w lim src st = enWriteAll F cs w ((if bs = [] then [] else [bs]) @ ps) st"
  proof (cases "bs = []")
    case True
    then show ?thesis using W p(2) unf by simp
  next
    case False
    obtain k where "enWrite F cs w bs st = (k, x, st1)" using W False by (cases "enWrite F cs w bs st") auto
    then show ?thesis using False p(2) unf by (cases x) simp_all
  qed
  moreover have "concat ((if bs = [] then [] else [bs]) @ ps) = upTo lim (src_all src)" using L(1) p(1) by simp
  ultimately show ?case by blast
qed

section \<open>A file from end to end\<close>

text \<open>What the data chunk of the file gives, the whole rest where its size is not known.\<close>

definition wavData :: "u32 \<Rightarrow> u8 list \<Rightarrow> u8 list" where
  "wavData sz rest = (if dataLenOf sz \<ge> 0 then take (unat sz) rest else rest)"

lemma encodeWAV_run:
  assumes "encodeStream F cs md5 w (wavConfig level f) ps (None, s) = (None, Some enc, s')"
    and "readWAVHeader src = (None, f, src')" "lim = (if wf_dataLen f \<ge> 0 then Some (nat (wf_dataLen f)) else None)"
    and "initEncoder F (Some w) (wavConfig level f) None (None, s) = (x, e0, s0)"
    and "copyToEncoder F cs w lim src' (the e0, s0) = enWriteAll F cs w ps (the e0, s0)"
  shows "encodeWAV F cs md5 level w src s = (None, f, s')"
  using assms(1,4,5) unfolding encodeWAV_def assms(2) assms(3) [symmetric] prod.case option.case
  by (auto simp: encodeStream_def resetEncoder_def NewEncoder_def split: prod.splits option.splits)

lemma wav_stream:
  assumes "length riffSize = 4" "wavOk False cks" "endsClean src" "src_all src = wavBytes riffSize cks sz rest"
    and "f = wavResult noFormat cks sz" "encoderInput F (wavConfig level f) fileSink None (wavData sz rest)" "\<forall>bs. length (md5 bs) = 16"
  shows "\<exists>out sm. encodeWAV F cs md5 level fileSink src emptyFile = (None, f, out)
    \<and> streamOf cs (wavConfig level f) (encodedInfo md5 (wavConfig level f) None (wavData sz rest)) (wavData sz rest) sm (fl_data out)"
proof -
  from readWAVHeader_ok [OF assms(1-4)] obtain src' where
    r: "readWAVHeader src = (None, f, src')" "src_all src' = rest" "endsClean src'" unfolding assms(5) by blast
  define lim where "lim = (if wf_dataLen f \<ge> 0 then Some (nat (wf_dataLen f)) else None)"
  have "dataLenOf sz \<ge> 0 \<Longrightarrow> nat (dataLenOf sz) = unat sz" by (auto simp: dataLenOf_def split: if_splits)
  then have d: "upTo lim rest = wavData sz rest" by (simp add: upTo_def wavData_def lim_def assms(5) wavResult_def)
  obtain x e0 s0 where i: "initEncoder F (Some fileSink) (wavConfig level f) None (None, emptyFile) = (x, e0, s0)" by (metis prod_cases3)
  from copyToEncoder_pieces [OF r(3), of lim F cs fileSink "(the e0, s0)"] obtain ps where
    p: "concat ps = wavData sz rest" "copyToEncoder F cs fileSink lim src' (the e0, s0) = enWriteAll F cs fileSink ps (the e0, s0)"
    unfolding r(2) d by blast
  have "reusableEncoder (None :: 'a Encoder option)" by (simp add: reusableEncoder_def)
  from disk_stream [OF assms(6) [folded p(1)] this assms(7), of cs] obtain e out sm where
    o: "encodeStream F cs md5 fileSink (wavConfig level f) ps (None, emptyFile) = (None, Some e, out)"
      "streamOf cs (wavConfig level f) (encodedInfo md5 (wavConfig level f) None (wavData sz rest)) (wavData sz rest) sm (fl_data out)"
    unfolding p(1) by blast
  show ?thesis using encodeWAV_run [OF o(1) r(1) lim_def i p(2)] o(2) by blast
qed

end
