(* ===== verification/Spec2Isabelle.thy ===== *)
theory Spec2Isabelle
  imports Frame_Encode Meta_Prefix Pcm_Cut Wav
begin

text \<open>
  go-flac is a FLAC encoder and decoder in Go. This development models its codec from the bit level
  to the public package \<open>pcm\<close> and the command \<open>wav2flac\<close>, and proves that what is encoded is
  decoded, that what is accepted is sound, and that every call returns.

  \<^bold>\<open>The program and the theories.\<close> The names of functions, types and fields are those of the source.
  Paths are relative to \<^verbatim>\<open>src/\<close>.

  \<^item> \<open>Prelude\<close>: Go's integers as words of their width, the errors as one datatype \<open>err\<close>, and bit
    lists, most significant bit first, which give every writer and reader its meaning.
  \<^item> \<^verbatim>\<open>internal/bitio\<close>: \<open>Bitio_Writer\<close> is the writer with its 64-bit accumulator; \<open>Bitio_Reader\<close> is the
    reader with its block buffer, refill, compaction and taps over an \<open>io.Reader\<close>, which is the list of
    what its \<open>Read\<close> calls deliver; \<open>Bitio_Setup\<close> has fresh and reset readers. The bits a reader still
    delivers (\<open>rbits\<close>) abstract from blocks and buffers, and every operation is specified by them.
  \<^item> \<^verbatim>\<open>internal/crc\<close>: \<open>Crc\<close> is the table-driven CRC-8 and CRC-16, as polynomial division.
  \<^item> \<^verbatim>\<open>internal/i32\<close>: \<open>I32\<close> has the pure-Go kernels and their dispatch, with the order-specialised and
    32-bit LPC loops; \<^verbatim>\<open>internal/lpc\<close>: \<open>Predictor\<close> (what a predictor is, and why a decoder undoes it),
    \<open>Lpc\<close> (fixed and quantized prediction at both widths) and \<open>Analyze\<close> (window, autocorrelation,
    Levinson-Durbin, quantization).
  \<^item> \<^verbatim>\<open>internal/rice\<close>: \<open>Rice\<close> decodes, plans and writes partitioned residuals; \<open>Rice_Plan\<close> shows what the
    planner's tables hold, that its plan is the cheapest among those with parameters near the mean of a partition (the code looks at no others) and
    that its bit count is the length written.
  \<^item> \<^verbatim>\<open>internal/frame\<close>: \<open>Frame_Header\<close>, \<open>Subframe\<close> and \<open>Subframe_Encode\<close>, \<open>Frame_Decode\<close> and
    \<open>Frame_Encode\<close> (with the search for the next frame); \<open>Frame_Prefix\<close> says what a decoder makes of a
    frame whose end is missing.
  \<^item> \<^verbatim>\<open>internal/meta\<close>: \<open>Byte_Order\<close> and \<open>Meta\<close>, the metadata section in both directions; \<open>Meta_Prefix\<close>,
    what the reader makes of a section that is cut off.
  \<^item> \<^verbatim>\<open>pcm\<close>: \<open>Pcm_Pack\<close> (interleaved bytes and rows of samples), \<open>Pcm_Config\<close> (configuration,
    tags), \<open>Pcm_Blocks\<close> (cutting writes into blocks), \<open>Pcm_Frames\<close> (\<open>FrameEncoder\<close> and
    \<open>FrameDecoder\<close>), \<open>Pcm_Encoder\<close> (the stream encoder and its one-shot form), \<open>Pcm_Decoder\<close> (the
    stream decoder and its one-shot form), \<open>Pcm_Seek\<close> (\<open>SeekToSample\<close>). On top of them are the theories
    about whole runs: \<open>Pcm_Stream\<close> (encode, then decode), \<open>Pcm_Cut\<close> (a stream that ends early),
    \<open>Pcm_Session\<close> (any sequence of calls on a decoder), \<open>Pcm_Outcome\<close> (what a seek comes to in any file)
    and \<open>Pcm_Landing\<close> (where a seek lands in a file the encoder wrote).
  \<^item> \<^verbatim>\<open>cmd/wav2flac\<close>: \<open>Wav\<close>, the reader of WAV headers and the encoding of the data chunk.

  \<^bold>\<open>State.\<close> A struct is a record and an operation a function from the old state to the new one, with
  the result first. Calls that return an error give a sum with the error on the left; a run-time panic
  of the decoder is \<open>None\<close>, as a loop without end is, so that no property takes it for a return; one of
  the encoder is \<open>None\<close> below \<open>Pcm_Frames\<close> and \<open>ErrPanic\<close> above. A decoder of the bit level is a
  function \<open>rm\<close> from a reader to an error or value and the reader (\<open>Parsing\<close>), and \<open>parses p bs x\<close>
  says that it reads \<open>x\<close> from exactly the bits \<open>bs\<close> wherever they stand; every round trip is put
  together from such statements.

  \<^bold>\<open>Interfaces\<close> are locales, each interpreted on the code's own routines: \<open>symbol_codec\<close> (a loop over
  symbols is read back when one is), \<open>predictor\<close>, \<open>residual_width\<close>, \<open>subframe_width\<close> and
  \<open>frame_width\<close> (what the generic Go code asks of the 32-bit and of the 64-bit routines),
  \<open>block_stream\<close> (a step that takes whole blocks does not see how the input was cut; used by both
  encoders), \<open>appender\<close> and \<open>patcher\<close> (a sink that appends, and one that can also be patched: a buffer
  and a file), and \<open>taker\<close> (a writer that takes bytes up to a ceiling).

  \<^bold>\<open>What is shown.\<close> The properties below start from the bit level and end with whole files; each is
  preceded by its statement in words. The lemma groups behind them: \<open>rbits\<close> and its advance for
  the reader; the exactness of 32-bit accumulation where the code allows it; plans and their price
  (\<open>carries\<close>, \<open>suits\<close>); the parsing of what was written, frame by frame (\<open>framed\<close>, \<open>framesFrom\<close>); the
  invariants of encoders (\<open>took\<close>, \<open>enOpen\<close>, \<open>enTook\<close>) and decoders (\<open>standsBefore\<close>, \<open>serves\<close>, and
  \<open>reusable\<close> readers); the grammar of metadata sections and of WAV files.

  \<^bold>\<open>Parameters.\<close> Code outside the repository is an argument: \<open>cs\<close> is the CRC-16 of
  \<open>crc.Checksum16\<close>, a call into a SIMD package, of which nothing is assumed; \<open>F\<close> is the arithmetic of
  \<open>float64\<close> with \<open>math\<close> and the autocorrelation kernel, of which \<open>float64_laws\<close> asks a few facts of
  IEEE arithmetic on finite values (comparison, rounding, conversion); \<open>md5\<close> is the digest, at most assumed
  to have 16 bytes. Sources, sinks and the callback of \<open>FrameEncoder\<close> are values of the caller. The
  witnesses use integer arithmetic for \<open>F\<close> and simple functions for \<open>cs\<close> and \<open>md5\<close>.

  \<^bold>\<open>Bounds and fuel.\<close> Depths are 4 to 32 bits, 33 for the side channel; blocks have at most 65536
  samples in a header, 65535 in a frame the encoder is given, 4096 in streams; frame and sample numbers
  stay below \<open>2 ^ 36\<close>. A frame of \<open>c\<close> channels of \<open>n\<close> samples has at most \<open>19 + c * (5 * n + 68)\<close> bytes, far below the 16 MiB to
  which \<open>probe\<close> widens its window. Fuel appears in one place: \<open>readBlocks\<close>, the loop over metadata blocks, gets a round per bit left
  to read. The loop as the code has it is \<open>readBlocksLoop\<close>, without a bound; every block reads its header,
  so it ends, with the same result. The probe loop
  terminates because its window doubles up to that limit or its base moves on; it carries a guard that
  the window is at least two bytes, which its callers meet. Loops that depend on an outside answer (the
  scan and the binary search of a seek, draining a decoder) are partial functions whose result is shown
  to exist. All other recursions are total.

  \<^bold>\<open>Not modelled.\<close>

  \<^item> The SIMD kernels (\<^verbatim>\<open>internal/i32/i32_amd64.go\<close>, \<^verbatim>\<open>i32_arm64.go\<close>): they choose, by CPU feature, between
    assembly and the Go kernels that are modelled; assembly is not Go. The dispatch of the pure-Go build
    is the one of \<^verbatim>\<open>i32_other.go\<close>.
  \<^item> The reuse of memory: rows of \<open>Frame\<close> (\<open>ensureChannels\<close>), capacities, pools and the growth of
    buffers. A slice is the list of its elements; nothing the code returns depends on the rest. The
    workspace of the encoder and the buffer of the reader, whose old contents do matter, are modelled.
  \<^item> Error texts: an error wrapped with \<open>%w\<close> is the sentinel inside, and one without a sentinel is
    \<open>ErrUsage\<close>.
  \<^item> \<open>run\<close> and \<open>main\<close> of \<^verbatim>\<open>cmd/wav2flac\<close> (files, flags, messages) and \<^verbatim>\<open>rules\<close>, rules of the linter.
\<close>

section \<open>The bit reader and the bit writer\<close>

text \<open>
  C20. A read of at most 57 bits, while that many bits are left, returns their
  value most significant bit first, and the reader stands exactly that many bits further on,
  whatever the block boundaries of the source are.
\<close>

theorem ReadBits_value:
  fixes rd :: "'t reader"
  assumes "wf_reader rd" "n \<le> 57" "n \<le> length (rbits rd)"
  shows "fst (ReadBits n rd) = Inr (bits_val (take n (rbits rd)))
    \<and> rbits (snd (ReadBits n rd)) = drop n (rbits rd) \<and> rpos (snd (ReadBits n rd)) = rpos rd + n
    \<and> wf_reader (snd (ReadBits n rd))"
proof -
  obtain rd' where "ReadBits n rd = (Inr (bits_val (take n (rbits rd))), rd')" "advance n rd rd'"
    by (rule ReadBits_ok [OF assms])
  then show ?thesis by (simp add: advanceD)
qed

theorem ReadBits_value_witness:
  "fst (ReadBits 12 (NewReader [Chunk [0xAB] None, Chunk [0xCD] (Some EOF)] ())) = Inr 0xABC"
  using ReadBits_value [of "NewReader [Chunk [0xAB] None, Chunk [0xCD] (Some EOF)] ()" 12]
  by (simp add: NewReader_ok rbits_aligned bits_msb_def upt_rec bits_val_Cons)

text \<open>
  C39. A read of at most 64 bits, when fewer are left, fails: with the source's own
  error when nothing was left, and with \<open>io.ErrUnexpectedEOF\<close> in place of \<open>io.EOF\<close> when some
  bits were. This covers the split path of the reads of 58 to 64 bits, which takes what the
  accumulator holds and reads the rest with a second call. The reader stays usable.
\<close>

theorem ReadBits_short:
  fixes rd :: "'t reader"
  assumes "wf_reader rd" "n \<le> 64" "length (rbits rd) < n"
  shows "fst (ReadBits n rd) = Inl (if rbits rd = [] then rend rd else noEOF (rend rd))
    \<and> wf_reader (snd (ReadBits n rd)) \<and> rend (snd (ReadBits n rd)) = rend rd"
  using ReadBits_short_reads [OF assms] assms(3) by (auto simp: reads_bits_def dest: advanceD(1,3))

theorem ReadBits_short_witness:
  "fst (ReadBits 64 (NewReader [Chunk [0xAB] None, Chunk [1, 2, 3, 4, 5, 6] (Some EOF)] ())) = Inl ErrUnexpectedEOF
    \<and> fst (ReadBits 64 (snd (ReadBits 1 (NewReader [Chunk [1, 2, 3, 4, 5, 6, 7, 8] None, Chunk [] (Some EOF)] ())))) = Inl ErrUnexpectedEOF
    \<and> fst (ReadBits 64 (NewReader [Chunk [] None, Chunk [] (Some EOF)] ())) = Inl EOF"
proof -
  let ?rd = "NewReader [Chunk [1, 2, 3, 4, 5, 6, 7, 8] None, Chunk [] (Some EOF)] ()"
  obtain rd' where rd': "ReadBits 1 ?rd = (Inr (bits_val (take 1 (rbits ?rd))), rd')" "advance 1 ?rd rd'"
    by (rule ReadBits_ok [OF NewReader_ok(1), of 1 "[Chunk [1, 2, 3, 4, 5, 6, 7, 8] None, Chunk [] (Some EOF)]"])
      (simp_all only: rbits_aligned NewReader_ok, simp_all)
  have "length (rbits rd') = 63" "rend rd' = EOF" "wf_reader rd'"
    using advanceD(1,3,8) [OF rd'(2)] by (simp_all add: rbits_aligned NewReader_ok)
  then have "fst (ReadBits 64 rd') = Inl ErrUnexpectedEOF"
    using ReadBits_short [of rd' 64] by (auto simp: noEOF_def)
  then have "fst (ReadBits 64 (snd (ReadBits 1 ?rd))) = Inl ErrUnexpectedEOF" by (simp only: rd'(1) snd_conv)
  then show ?thesis
    using ReadBits_short [of "NewReader [Chunk [0xAB] None, Chunk [1, 2, 3, 4, 5, 6] (Some EOF)] ()" 64]
      ReadBits_short [of "NewReader [Chunk [] None, Chunk [] (Some EOF)] ()" 64]
    by (simp add: NewReader_ok rbits_aligned noEOF_def maxEmptyReads_def)
qed

text \<open>
  How the source splits its bytes over its reads cannot be observed:
  two sources that deliver the same bytes and end with the same error give the same result
  for every read of at most 57 bits, through readers of any two buffer sizes.
\<close>

theorem ReadBits_chunking:
  assumes "src_bytes 0 src = src_bytes 0 src'" "n \<le> 57"
  shows "fst (ReadBits n (NewReaderSize src k ())) = fst (ReadBits n (NewReaderSize src' k' ()))"
proof -
  have "reads_bits n (NewReaderSize s j ()) (ReadBits n (NewReaderSize s j ()))" for s j
    by (rule ReadBits_reads(1) [OF NewReaderSize_ok(1) servable_small [OF assms(2)]])
  then have "fst (ReadBits n (NewReaderSize s j ())) =
      (let bs = byte_bits (fst (src_bytes 0 s)); e = snd (src_bytes 0 s)
       in if n \<le> length bs then Inr (bits_val (take n bs)) else Inl (if bs = [] then e else noEOF e))" for s j
    by (simp add: reads_bits_def rbits_aligned NewReaderSize_ok Let_def split: if_splits)
  then show ?thesis by (simp only: assms(1))
qed

theorem ReadBits_chunking_witness:
  "fst (ReadBits 16 (NewReaderSize [Chunk [1] None, Chunk [] None, Chunk [2] (Some EOF)] 16 ()))
     = fst (ReadBits 16 (NewReaderSize [Chunk [1, 2] (Some EOF)] 4096 ()))"
  by (rule ReadBits_chunking) (simp_all add: maxEmptyReads_def)

text \<open>
  A read of 64 bits that starts off a byte boundary fails with
  \<open>io.ErrUnexpectedEOF\<close> although 71 bits are left, when the source reports \<open>io.EOF\<close> together
  with its last bytes: the slow path sees the error before it has emptied the buffer.
\<close>

theorem ReadBits64_late_error:
  "let rd = snd (ReadBits 1 (NewReaderSize [Chunk [1, 2, 3, 4, 5, 6, 7, 8, 9] (Some EOF)] 16 ()))
   in length (rbits rd) = 71 \<and> fst (ReadBits 64 rd) = Inl ErrUnexpectedEOF
    \<and> fst (ReadBits 57 rd) = Inr 0x4080C1014181C"
  by code_simp

lemma ReadUnary_value:
  fixes rd :: "'t reader"
  assumes "wf_reader rd"
  shows "if True \<in> set (rbits rd)
    then fst (ReadUnary rd) = Inr (of_nat (length (takeWhile Not (rbits rd))))
       \<and> rbits (snd (ReadUnary rd)) = tl (dropWhile Not (rbits rd))
    else fst (ReadUnary rd) = Inl (rend rd) \<and> rbits (snd (ReadUnary rd)) = []"
proof -
  have r: "reads_unary 0 rd (ReadUnary rd)" unfolding ReadUnary_def by (rule unaryLoop_ok [OF assms])
  have "drop (length (takeWhile Not bs) + 1) bs = tl (dropWhile Not bs)" for bs
    by (metis Suc_eq_plus1 drop_Suc dropWhile_eq_drop tl_drop)
  then show ?thesis using r by (auto simp: reads_unary_def Let_def advance_rbits)
qed

lemma SkipToByteBoundary_aligned:
  fixes rd :: "'t reader"
  assumes "wf_reader rd"
  shows "ByteAligned (SkipToByteBoundary rd) \<and> wf_reader (SkipToByteBoundary rd)
    \<and> (\<exists>k < 8. rbits (SkipToByteBoundary rd) = drop k (rbits rd) \<and> rpos (SkipToByteBoundary rd) = rpos rd + k)
    \<and> rbits (SkipToByteBoundary rd) = byte_bits (rbytes (SkipToByteBoundary rd))"
proof -
  let ?rd = "SkipToByteBoundary rd" and ?k = "(8 - roff rd) mod 8"
  have a: "advance ?k rd ?rd" by (rule SkipToByteBoundary_ok [OF assms])
  have "(roff rd + (8 - roff rd) mod 8) mod 8 = 0"
    by (cases "roff rd = 0") (simp_all add: less_imp_le)
  then have off: "roff ?rd = 0" using a by (simp add: advance_def)
  have "rd_nbits ?rd mod 8 = 0"
    using off wf_readerD(5) [OF advanceD(1) [OF a]]
    unfolding roff_def by presburger
  then show ?thesis using advanceD [OF a] rbits_aligned [OF off]
    by (auto simp: ByteAligned_def intro!: exI [of _ ?k])
qed

text \<open>
  What the writer is given comes back: a value written in \<open>n\<close> bits after any
  earlier output, the writer aligned and its bytes handed to a reader over any source that
  delivers them, is read back by skipping the earlier bits and reading \<open>n\<close> bits.
\<close>

theorem write_read:
  fixes v :: u64
  assumes "wf_writer bw" "length (wbits bw) = p" "p \<le> 57" "n \<le> 57"
    and "fst (src_bytes 0 src) = fst (Bytes (AlignByte (WriteBits v n bw)))"
  shows "fst (ReadBits n (snd (ReadBits p (NewReader src ())))) = Inr (take_bit n v)"
proof -
  let ?w = "WriteBits v n bw"
  have w: "wf_writer ?w" "wbits ?w = wbits bw @ bits_msb n v"
    using emitsD [OF emits_WriteBits [of n v] assms(1)] assms(4) by simp_all
  note al = AlignByte_ok [OF w(1)]
  have "length (wbits (AlignByte ?w)) mod 8 = 0"
    using al by (simp add: wbits_def)
  then have "byte_bits (fst (Bytes (AlignByte ?w))) = wbits (AlignByte ?w)"
    using al by (intro Bytes_ok) simp_all
  then have bits: "rbits (NewReader src ()) = wbits bw @ bits_msb n v @ replicate (pad_len (length (wbits ?w))) False"
    using al w(2) assms(5) by (simp add: rbits_aligned NewReader_ok)
  have "p \<le> length (rbits (NewReader src ()))" using bits assms(2) by simp
  then obtain r rd' where rd': "ReadBits p (NewReader src ()) = (r, rd')" "advance p (NewReader src ()) rd'"
    by (blast elim: ReadBits_ok [OF NewReader_ok(1) assms(3)])
  have bits': "rbits rd' = bits_msb n v @ replicate (pad_len (length (wbits ?w))) False"
    using advanceD(8) [OF rd'(2)] bits assms(2) by simp
  show ?thesis
    by (rule ReadBits_ok [OF advanceD(1) [OF rd'(2)] assms(4)])
      (simp_all add: rd'(1) bits' bits_val_bits_msb)
qed

theorem write_read_witness:
  "fst (ReadBits 11 (snd (ReadBits 5
     (NewReader [Chunk (fst (Bytes (AlignByte (WriteBits 0x5A5 11 (WriteBits 3 5 NewWriter))))) None] ())))) = Inr 0x5A5"
proof -
  have w: "wf_writer (WriteBits 3 5 NewWriter)" "length (wbits (WriteBits 3 5 NewWriter)) = 5"
    using emitsD [OF emits_WriteBits [of 5 3] wf_NewWriter] by simp_all
  show ?thesis
    using write_read [OF w, of 11 "[Chunk (fst (Bytes (AlignByte (WriteBits 0x5A5 11 (WriteBits 3 5 NewWriter))))) None]" "0x5A5"]
    by (simp add: take_bit_eq_mask mask_numeral) 
qed

lemma AlignByte_pads:
  assumes "wf_writer w"
  shows "byte_bits (fst (Bytes (AlignByte w))) = wbits w @ replicate (pad_len (length (wbits w))) False
    \<and> pad_len (length (wbits w)) < 8 \<and> (length (wbits w) + pad_len (length (wbits w))) mod 8 = 0"
proof -
  note al = AlignByte_ok [OF assms]
  have len: "length (wbits (AlignByte w)) mod 8 = 0" using al by (simp add: wbits_def)
  then have "byte_bits (fst (Bytes (AlignByte w))) = wbits (AlignByte w)"
    using al by (intro Bytes_ok) simp_all
  then show ?thesis using al len by (simp add: pad_len_def)
qed

text \<open>
  A source that keeps returning neither bytes nor an error is not
  polled for ever: after \<open>maxConsecutiveEmptyReads\<close> such reads the reader gives up with
  \<open>io.ErrNoProgress\<close>, and it has polled the source exactly that often.
\<close>

theorem readLoop_no_progress:
  assumes "rd_w rd < length (rd_buf rd)" "rd_src rd = replicate maxEmptyReads (Chunk [] None) @ rest"
  shows "rd_err (readLoop 0 rd) = Some ErrNoProgress \<and> rd_src (readLoop 0 rd) = rest
    \<and> rd_w (readLoop 0 rd) = rd_w rd"
proof -
  have "rd_err (readLoop k rd) = Some ErrNoProgress \<and> rd_src (readLoop k rd) = rest \<and> rd_w (readLoop k rd) = rd_w rd"
    if "j = maxEmptyReads - k" "k < maxEmptyReads" "rd_w rd < length (rd_buf rd)"
      "rd_src rd = replicate j (Chunk [] None) @ rest" for j k and rd :: "'a reader"
    using that
  proof (induction j arbitrary: k rd)
    case (Suc j)
    let ?rd = "rd\<lparr>rd_src := replicate j (Chunk [] None) @ rest\<rparr>"
    have src: "rd_src rd = Chunk [] None # replicate j (Chunk [] None) @ rest"
      using Suc.prems(4) by (simp flip: Suc.prems(1))
    have j: "j = maxEmptyReads - (k + 1)" using Suc.prems(1) by simp
    show ?case
    proof (cases "k + 1 \<ge> maxEmptyReads")
      case True
      then show ?thesis using Suc.prems(3) src j by (simp add: readLoop.simps [of k rd])
    next
      case False
      then show ?thesis using Suc.prems(3) src Suc.IH [of "k + 1" ?rd, OF j] by (simp add: readLoop.simps [of k rd])
    qed
  qed simp
  from this [of maxEmptyReads 0 rd] assms show ?thesis by (simp add: maxEmptyReads_def)
qed

theorem readLoop_no_progress_witness:
  "rd_err (readLoop 0 (NewReader (replicate maxEmptyReads (Chunk [] None) @ [Chunk [7] None]) ())) = Some ErrNoProgress"
  using readLoop_no_progress
    [of "NewReader (replicate maxEmptyReads (Chunk [] None) @ [Chunk [7] None]) ()" "[Chunk [7] None]"]
  by (simp add: NewReader_def NewReaderSize_def fresh_reader_def readBlock_def minReadBlock_def)

section \<open>Checksums\<close>

text \<open>
  C40. The table-driven checksums are the polynomial division they stand
  for: folding the tables over a message gives the state of the bitwise shift register with
  the polynomials 0x07 and 0x8005.
\<close>

theorem Checksum8_polynomial:
  "Checksum8 p = foldl (\<lambda>c b. (lfsr 0x07 ^^ 8) (c XOR b)) 0 p
   \<and> crc16_bytes p = foldl (\<lambda>c b. (lfsr 0x8005 ^^ 8) (c XOR push_bit 8 (ucast b))) 0 p"
  by (simp add: Checksum8_def crc16_bytes_def Update8_lfsr Update16_lfsr [abs_def] foldl_cong [OF refl refl Update8_lfsr])

text \<open>
  A frame header with one damaged byte never has the checksum of the
  intact one, wherever the byte stands and whatever it becomes.
\<close>

theorem Checksum8_detects:
  "Checksum8 (p @ [b] @ q) = Checksum8 (p @ [b'] @ q) \<longleftrightarrow> b = b'"
  by (rule Checksum8_one_byte)

text \<open>
  A damage confined to two neighbouring bytes always changes the CRC-16, and
  a message followed by its own CRC-16 in big-endian order has checksum zero.
\<close>

theorem crc16_detects:
  "(crc16_bytes (p @ [a, b] @ q) = crc16_bytes (p @ [a', b'] @ q) \<longleftrightarrow> a = a' \<and> b = b')
   \<and> crc16_bytes (p @ [ucast (drop_bit 8 (crc16_bytes p)), ucast (crc16_bytes p)]) = 0"
  by (simp only: crc16_two_bytes crc16_residue)

section \<open>Decorrelation and prediction\<close>

text \<open>
  Mid/side coding loses nothing: for samples of up to 31 bits the decoder
  recovers both channels exactly, although the mid channel keeps only half of the sum.
\<close>

theorem midside_lossless:
  assumes "length left = n" "length right = n" "length mid = n" "length side = n" "length l0 = n" "length r0 = n"
    and "\<forall>x \<in> set left \<union> set right. fits 31 (sint x)"
  shows "(case MidSideEncode mid side left right of (m, s) \<Rightarrow> MidSideDecode l0 r0 m s) = (left, right)"
  by (rule MidSide_roundtrip [OF assms])

theorem midside_lossless_witness:
  "(case MidSideEncode [0, 0] [0, 0] [5, -7] [-2, 2 ^ 30 - 1] of (m, s) \<Rightarrow> MidSideDecode [0, 0] [0, 0] m s) = ([5, -7], [-2, 2 ^ 30 - 1])"
  by (rule midside_lossless [of _ 2]) (simp_all add: fits_def)

lemma side_lossless:
  assumes "length a = n" "length b = n" "length d = n" "length e = n"
  shows "Sub d a (Sub e a b) = b \<and> Add d b (Sub e a b) = a"
  using assms by (simp add: Sub_Sub Add_Sub)

text \<open>
  C25. Every fixed predictor is undone by the decoder: restoring the warm-up
  samples followed by the residuals the encoder computes gives back the samples, for all
  32-bit and all 64-bit inputs, wrap-around included.
\<close>

theorem fixed_lossless:
  assumes "order \<le> 4"
  shows "RestoreFixed (take order src @ ComputeFixedResiduals (length src - order) src order) order = src
    \<and> RestoreFixed (take order wsrc @ ComputeFixedResiduals64 (length wsrc - order) wsrc order) order = wsrc"
  using assms by (simp add: ComputeFixedResiduals_eq ComputeFixedResiduals64_eq RestoreFixed_residuals)

theorem fixed_lossless_witness:
  "let src = [1, 5, -3, 2 ^ 31 - 1]
   in RestoreFixed (take 2 src @ ComputeFixedResiduals (length src - 2) src 2) 2 = src"
  unfolding Let_def by (rule fixed_lossless [THEN conjunct1]) simp

text \<open>
  The difference and restoration kernels that replace the scalar loops for
  the orders 1 to 4 compute the same as those loops on every input.
\<close>

theorem fixed_kernels:
  assumes "1 \<le> order" "order \<le> 4" "order \<le> length src" "length dst = length src"
  shows "RestoreFixed32 src order = Some (RestoreFixed src order)
    \<and> FixedResidualsDiff dst src order
        = Some (take order src @ ComputeFixedResiduals (length src - order) src order)"
  using assms by (simp add: RestoreFixed32_eq FixedResidualsDiff_eq ComputeFixedResiduals_eq)

theorem fixed_kernels_witness:
  "RestoreFixed32 [3, 1, 4, 1, 5] 3 = Some (RestoreFixed [3, 1, 4, 1, 5] 3)"
  using fixed_kernels [of 3 "[3, 1, 4, 1, 5]" "[0, 0, 0, 0, 0]"] by simp

text \<open>
  C26. Quantized linear prediction is undone by the decoder for every coefficient
  list and every shift, at both sample widths.
\<close>

theorem lpc_lossless:
  "RestoreLPC (take (length coeffs) src @ ComputeLPCResiduals (length src - length coeffs) src coeffs shift (length coeffs)) coeffs shift = src
   \<and> RestoreLPC (take (length coeffs) wsrc @ ComputeLPCResiduals64 (length wsrc - length coeffs) wsrc coeffs shift (length coeffs)) coeffs shift = wsrc"
  by (simp add: RestoreLPC_loop RestoreLPC64_loop ComputeLPCResiduals_eq ComputeLPCResiduals64_eq
      lpc_predictor.restore_residuals lpc64_predictor.restore_residuals)

text \<open>
  C24. The order-specialised and the narrow kernels are the reference recurrence:
  where the narrow-safety test lets the 32-bit accumulation through and the samples (or the
  restored samples) stay within the declared bit depth, the dispatching routine computes what
  the scalar 64-bit loop computes.
\<close>

theorem lpc_kernels:
  assumes "coeffs \<noteq> []" "shift \<le> 63" "\<forall>x \<in> set (take (length coeffs) dst). fits bps (sint x)"
    and "(\<forall>x \<in> set (RestoreLPC32 dst coeffs shift bps). fits bps (sint x))
       \<or> (\<forall>x \<in> set (RestoreLPC dst coeffs shift). fits bps (sint x))"
  shows "RestoreLPC32 dst coeffs shift bps = RestoreLPC dst coeffs shift"
  by (rule RestoreLPC32_loop [OF assms])

theorem lpc_kernels_witness:
  "RestoreLPC32 [100, -50, 3, -4] [3, -1] 1 16 = RestoreLPC [100, -50, 3, -4] [3, -1] 1"
proof (rule lpc_kernels)
  have "RestoreLPC [100, -50, 3, -4] [3, -1] 1 = ([100, -50, -122, -162] :: i32 list)" by code_simp
  then show "(\<forall>x \<in> set (RestoreLPC32 [100, -50, 3, -4] [3, -1] 1 16). fits 16 (sint x))
      \<or> (\<forall>x \<in> set (RestoreLPC [100, -50, 3, -4] [3, -1] 1 :: i32 list). fits 16 (sint x))"
    by (simp add: fits_def)
qed (simp_all add: fits_def)

section \<open>Rice coding\<close>

text \<open>
  C16. The residual coder is lossless and honest about its size: whatever the
  scratch space holds, the bits \<open>EncodeResidual\<close> appends for 32-bit residuals are as many as
  it and \<open>CostResidual\<close> report, and \<open>DecodeResidual\<close> reads the residuals back from them,
  consuming exactly these bits.
\<close>

theorem rice_roundtrip:
  fixes res :: "i32 list"
  assumes "predOrder \<le> bsize" "0 < bsize" "bsize \<le> 65535" "length res = bsize - predOrder" "wf_writer bw"
  shows "\<exists>written sc' bw' bs. EncodeResidual res bsize predOrder maxPartOrder sc bw = (written, sc', bw')
    \<and> wf_writer bw' \<and> wbits bw' = wbits bw @ bs \<and> written = int (length bs)
    \<and> written = fst (CostResidual res bsize predOrder maxPartOrder sc)
    \<and> parses (DecodeResidual bsize predOrder :: (i32 list, 't) rm) bs res"
  by (rule EncodeResidual_bits [OF assms])

theorem rice_roundtrip_witness:
  "\<exists>written sc' bw' bs. EncodeResidual [3, -1, 70000] 4 1 8 (\<lparr>sc_sums = [], sc_maxU = [], sc_cur = [], sc_plans = []\<rparr>) NewWriter = (written, sc', bw')
    \<and> wf_writer bw' \<and> wbits bw' = wbits NewWriter @ bs \<and> written = int (length bs)
    \<and> written = fst (CostResidual [3, -1, 70000] 4 1 8 (\<lparr>sc_sums = [], sc_maxU = [], sc_cur = [], sc_plans = []\<rparr>))
    \<and> parses (DecodeResidual 4 1 :: (i32 list, unit) rm) bs [3, -1, 70000]"
  by (rule rice_roundtrip) simp_all

text \<open>
  C23. The same for the 64-bit residuals of wide streams whose folded values
  fit 32 bits, the bound the decoder enforces.
\<close>

theorem rice_roundtrip64:
  fixes res :: "i64 list"
  assumes "predOrder \<le> bsize" "0 < bsize" "bsize \<le> 65535" "length res = bsize - predOrder" "wf_writer bw"
    and "\<forall>r \<in> set res. unat (zigzag64 r) < 2 ^ 32"
  shows "\<exists>written sc' bw' bs. EncodeResidual64 res bsize predOrder maxPartOrder sc bw = (written, sc', bw')
    \<and> wf_writer bw' \<and> wbits bw' = wbits bw @ bs \<and> written = int (length bs)
    \<and> written = fst (CostResidual64 res bsize predOrder maxPartOrder sc)
    \<and> parses (DecodeResidual bsize predOrder :: (i64 list, 't) rm) bs res"
  by (rule EncodeResidual64_bits [OF assms])

theorem rice_roundtrip64_witness:
  "\<exists>written sc' bw' bs. EncodeResidual64 [3, -1, - (2 ^ 31)] 4 1 8 (\<lparr>sc_sums = [], sc_maxU = [], sc_cur = [], sc_plans = []\<rparr>) NewWriter = (written, sc', bw')
    \<and> wf_writer bw' \<and> wbits bw' = wbits NewWriter @ bs \<and> written = int (length bs)
    \<and> written = fst (CostResidual64 [3, -1, - (2 ^ 31)] 4 1 8 (\<lparr>sc_sums = [], sc_maxU = [], sc_cur = [], sc_plans = []\<rparr>))
    \<and> parses (DecodeResidual 4 1 :: (i64 list, unit) rm) bs [3, -1, - (2 ^ 31)]"
proof (rule rice_roundtrip64)
  show "\<forall>r \<in> set [3, -1, - (2 ^ 31)]. unat (zigzag64 r) < 2 ^ 32"
    by (simp add: unat_eq_nat_uint uint_zigzag64 zz_int_def)
qed simp_all

text \<open>
  C18. The partition planner's choice is a legal plan, the count it announces is the
  length of the code written for it, and no plan it could have chosen is shorter: the rivals
  are all the legal plans of every partition order up to the limit, each partition either
  escaped at any raw width that holds its values or Rice coded with any parameter near the mean
  of its zigzag values (a factor of two above, of eight below: the parameters the planner
  tries). The one exception is a rival that keeps to 4-bit parameters while some value needs
  more than 12 bits: the planner fixes the parameters before their width, and may then be
  longer by one bit a partition of that rival.
\<close>

theorem planner_optimal:
  fixes res :: "i32 list"
  assumes "predOrder \<le> bsize" "0 < bsize" "bsize \<le> 65535" "length res = bsize - predOrder"
    and plan: "fst (PlanResidualInt32 res bsize predOrder maxPartOrder sc) = (po, plans, paramBits, tot)"
    and rival: "plan_ok zigzag scast res predOrder bsize qs w j" "near_plan zigzag res predOrder bsize qs j" "j \<le> maxPartOrder"
  shows "plan_ok zigzag scast res predOrder bsize plans paramBits po \<and> near_plan zigzag res predOrder bsize plans po
    \<and> po \<le> feasiblePmax bsize predOrder maxPartOrder
    \<and> tot = int (length (plan_bits zigzag scast res predOrder bsize plans paramBits po))
    \<and> tot \<le> int (length (plan_bits zigzag scast res predOrder bsize qs w j))
        + (if w = 5 \<or> (\<forall>r \<in> set res. unat (zigzag r) < 2 ^ 12) then 0 else 2 ^ j)"
proof -
  define pmax kHi where "pmax = feasiblePmax bsize predOrder maxPartOrder"
    and "kHi = min (len64 (zmax zigzag res) + 2) 30"
  obtain sc1 where sc1: "PlanResidualInt32 res bsize predOrder maxPartOrder sc = planFromTables sc1 bsize predOrder pmax kHi (kHi + 1)"
      "tables_ok zigzag res predOrder (bsize div 2 ^ pmax) (2 ^ pmax) (kHi + 1) (sc_sums sc1) (sc_maxU sc1)"
    using PlanResidualInt32_tables [OF assms(1,2,4), of maxPartOrder sc] unfolding pmax_def kHi_def by blast
  have r: "\<forall>r \<in> set res. unat (zigzag r) < 2 ^ 32" using zigzag_32 by blast
  note P = planFromTables_planned [OF sc1(2) pmax_def assms(1) r assms(3,4) kHi_def refl, folded sc1(1), unfolded plan]
  have "j \<le> pmax" unfolding pmax_def
    using rival by (intro feasiblePmax_max assms(2)) (simp_all add: plan_ok_def)
  then have "tot \<le> cost_of (plans_at zigzag res bsize predOrder kHi (kHi + 1) j)"
    using best_order_least [OF P(2)] by simp
  moreover have "po \<le> pmax" using P(2) by (simp add: best_order_def)
  moreover have "near_plan zigzag res predOrder bsize plans po"
    using P(2) plans_at_near [OF r _ kHi_def refl] assms(3,4) by (simp add: best_order_def)
  ultimately show ?thesis
    using P(1) [where wide = scast] plans_at_least [OF r assms(3) kHi_def refl rival(1,2)] by (simp add: planned_def pmax_def)
qed

theorem planner_optimal_witness:
  "\<exists>po plans pb tot. fst (PlanResidualInt32 [3, -1, 7] 4 1 8 \<lparr>sc_sums = [], sc_maxU = [], sc_cur = [], sc_plans = []\<rparr>) = (po, plans, pb, tot)
    \<and> tot = int (length (plan_bits zigzag scast [3, -1, 7] 1 4 plans pb po)) \<and> tot \<le> 31"
proof -
  obtain po plans pb tot where p: "fst (PlanResidualInt32 [3, -1, 7] 4 1 8
      \<lparr>sc_sums = [], sc_maxU = [], sc_cur = [], sc_plans = []\<rparr>) = (po, plans, pb, tot)" by (metis prod.collapse)
  let ?qs = "[\<lparr>pp_escape = False, pp_param = 2, pp_rawBits = 0, pp_payload = 0\<rparr>,
    \<lparr>pp_escape = True, pp_param = 0, pp_rawBits = 4, pp_payload = 0\<rparr>]"
  have zz: "zigzag 3 = 6" "zigzag (-1) = 1" "zigzag 7 = 14"
    by (simp_all add: word_uint_eq_iff uint_zigzag zz_int_def)
  have "plan_ok zigzag scast [3, -1, 7] 1 4 ?qs 4 1" "near_plan zigzag [3, -1, 7] 1 4 ?qs 1"
    by (auto simp: plan_ok_def part_lens_def partN_def part_ok_def near_plan_def near_mean_def seg_def zz
        less_2_cases_iff upt_rec)
  moreover have "length (plan_bits zigzag scast [3, -1, 7] 1 4 ?qs 4 1) = 31"
    by (simp add: length_plan_bits part_bits_def seg_def zz rice_bits_def upt_rec)
  ultimately have "tot = int (length (plan_bits zigzag scast [3, -1, 7] 1 4 plans pb po)) \<and> tot \<le> 31"
    using planner_optimal [OF _ _ _ _ p, of ?qs 4 1] by (simp add: zz)
  then show ?thesis using p by blast
qed

lemma foldl_zsum: "foldl (\<lambda>s u. s + drop_bit k u) a (map zz part) = a + zsum zz k part"
  by (induction part arbitrary: a) (simp_all add: add.assoc)

lemma foldl_zmax: "foldl (\<lambda>m u. if u > m then u else m) a (map zz part) = max a (zmax zz part)"
proof (induction part arbitrary: a)
  case (Cons r part)
  then show ?case by (auto simp: max_def)
qed simp

lemma scanParams_cong:
  assumes "\<And>k. lo \<le> k \<Longrightarrow> k \<le> hi \<Longrightarrow> c k = d k"
  shows "scanParams c lo hi = scanParams d lo hi"
  unfolding scanParams_def by (rule foldl_cong) (use assms in auto)

lemma bestParam_window:
  "bestParam (map zz part) = scanParams (\<lambda>k. zsum zz k part + of_nat (length part) * (1 + of_nat k))
     (win_lo (zsum zz 0 part) (length part)) (win_hi (zsum zz 0 part) (length part))"
proof -
  have sum: "foldl (+) 0 (map zz part) = zsum zz 0 part" using foldl_zsum [of 0 0 zz part] by simp
  have cost: "riceBits (map zz part) = (\<lambda>k. zsum zz k part + of_nat (length part) * (1 + of_nat k))"
    by (rule ext) (simp add: riceBits_def foldl_zsum)
  have win: "(if min (e + 2) 30 < e - 1 then min (e + 2) 30 else e - 1) = min (e - 1) (30::nat)"
    "(if e + 2 > 30 then 30 else e + 2) = min (e + 2) (30::nat)" for e :: nat
    by auto
  show ?thesis
    unfolding bestParam_def win_lo_def win_hi_def maxParam5_def Let_def sum cost length_map win by (rule refl)
qed

text \<open>
  The sums the planner keeps replace a scan of the residuals: the plan it
  picks for a partition from them is the plan \<open>planPartition\<close> picks from the partition's
  folded residuals themselves, under the cap the planner puts on the parameter.
\<close>

theorem planner_tables:
  fixes part :: "i32 list"
  assumes "length part \<le> 65535" "set part \<subseteq> set res"
    and "kHi = min (len64 (zmax zigzag res) + 2) 30"
  shows "choosePartition (map (\<lambda>k. zsum zigzag k part) [0..<kHi + 1]) (zmax zigzag part) (length part) kHi
       = planPartition (map zigzag part)"
proof -
  let ?hi = "win_hi (zsum zigzag 0 part) (length part)"
  have "zmax zigzag part \<le> zmax zigzag res" using assms(2) by (intro zmax_le) (auto intro: zmax_ge)
  then have "len64 (zmax zigzag part) \<le> len64 (zmax zigzag res)" by (rule len64_mono)
  moreover have "part \<noteq> [] \<Longrightarrow> len64 (zsum zigzag 0 part div of_nat (length part)) \<le> len64 (zmax zigzag part)"
    using mean_len [of part zigzag] zigzag_32 assms(1) by blast
  ultimately have hi: "?hi \<le> kHi" using assms(3) by (cases "part = []") (auto simp: win_hi_def)
  then have "scanParams (\<lambda>k. map (\<lambda>k. zsum zigzag k part) [0..<kHi + 1] ! k + of_nat (length part) * (1 + of_nat k)) lo ?hi
      = scanParams (\<lambda>k. zsum zigzag k part + of_nat (length part) * (1 + of_nat k)) lo ?hi" for lo
    by (intro scanParams_cong) (simp del: upt_Suc)
  moreover have "map (\<lambda>k. zsum zigzag k part) [0..<kHi + 1] ! 0 = zsum zigzag 0 part"
    by (simp del: upt_Suc)
  ultimately show ?thesis using hi
    unfolding choosePartition_window planPartition_def bestParam_window foldl_zmax
    by (simp add: min_absorb1 del: upt_Suc)
qed

theorem planner_tables_witness:
  "choosePartition (map (\<lambda>k. zsum zigzag k [3, -1]) [0..<min (len64 (zmax zigzag [3, -1, 70000]) + 2) 30 + 1])
     (zmax zigzag [3, -1]) (length [3 :: i32, -1]) (min (len64 (zmax zigzag [3, -1, 70000]) + 2) 30)
   = planPartition (map zigzag [3, -1])"
  by (rule planner_tables [of _ "[3, -1, 70000]"]) simp_all

section \<open>Frame headers\<close>

lemma coded_number_roundtrip:
  assumes "unat v < 2 ^ 36"
  shows "\<exists>bs. emits (writeUTF8 v) bs \<and> length bs mod 8 = 0 \<and> parses (readCodedNumber :: (u64, 't) rm) bs v"
  by (intro exI conjI) (rule emits_writeUTF8 length_utf8_bits parses_readCodedNumber [OF assms])+

lemma readHeader_stored:
  fixes rd :: "u8 reader"
  assumes valid: "1 \<le> n" "n \<le> 65536" "ch \<le> 10" "0 < si_SampleRate si" "unat num < 2 ^ 36"
    and rd: "header_bytes n ch si num bytes" "wf_reader rd" "roff rd = 0" "rbytes rd = bytes @ c # rest"
  shows "fst (readHeader si rd) =
      (if c = Checksum8 bytes
       then Inr \<lparr>variableBlockSize = False, blockSize = n, sampleRate = si_SampleRate si, channelAssignment = ch,
            bitsPerSample = si_BitDepth si, number = num\<rparr>
       else Inl ErrCRCMismatch)
    \<and> rbits (snd (readHeader si rd)) = byte_bits rest"
proof -
  let ?rd = "SetTapper (Some (Update8, None, 0)) rd"
  have s: "wf_reader ?rd" "same_place rd ?rd" "vtap ?rd = 0" "rd_tap ?rd = Some Update8"
    using SetTapper_Some [OF rd(2), of None Update8 0] by simp_all
  then have t: "rd_tapSt ?rd = 0" by (simp add: vtap_def)
  have bits: "rbits ?rd = byte_bits (bytes @ [c]) @ byte_bits rest"
    using same_place_bits [OF s(2)] rd(3,4) by (simp add: rbits_aligned)
  have at: "at_bits (byte_bits (bytes @ [c])) ?rd" by (rule at_bits_split [OF bits s(1)])
  have off: "roff ?rd = 0" using s(2) rd(3) by (simp add: same_place_def)
  obtain r rd' where h: "readHeaderBody (\<lambda>c8. c8) si ?rd = (r, rd')" "advance (8 * length (bytes @ [c])) ?rd rd'"
      "r = (if c = Checksum8 bytes
       then Inr \<lparr>variableBlockSize = False, blockSize = n, sampleRate = si_SampleRate si, channelAssignment = ch,
            bitsPerSample = si_BitDepth si, number = num\<rparr>
       else Inl ErrCRCMismatch)"
    using readHeaderBody_stored [where ?c8.0 = "\<lambda>c8. c8", OF valid rd(1) at off s(4)] t by auto
  have "rbits (SetTapper None rd') = byte_bits rest"
    using same_place_bits [OF SetTapper_None(2) [OF advanceD(1) [OF h(2)]]] advance_rbits [OF h(2)] bits by simp
  then show ?thesis using h by (simp add: readHeader_def SetTap_def)
qed

text \<open>
  C17. A frame header comes back field by field: the bytes the encoder writes
  for a block of up to 65536 samples are read by the header parser as exactly the values
  written, the CRC-8 gathered by the tap accepted, and nothing after the header consumed.
\<close>

theorem header_roundtrip:
  fixes rd :: "u8 reader"
  assumes "1 \<le> n" "n \<le> 65536" "ch \<le> 10" "0 < si_SampleRate si" "unat num < 2 ^ 36"
    and "wf_reader rd" "roff rd = 0"
    and "rbytes rd = fst (Bytes (the (writeFrameHeader n ch (si_SampleRate si) (si_BitDepth si) num NewWriter))) @ rest"
  shows "fst (readHeader si rd) =
      Inr \<lparr>variableBlockSize = False, blockSize = n, sampleRate = si_SampleRate si, channelAssignment = ch,
            bitsPerSample = si_BitDepth si, number = num\<rparr>
    \<and> rbits (snd (readHeader si rd)) = byte_bits rest"
proof -
  obtain bytes bw' where w: "writeFrameHeader n ch (si_SampleRate si) (si_BitDepth si) num NewWriter = Some bw'"
      "wf_writer bw'" "header_bytes n ch si num bytes" "wbits bw' = byte_bits (bytes @ [Checksum8 bytes])"
    using writeFrameHeader_ok [OF assms(1,2,4) wf_NewWriter, of ch num] by auto
  have "byte_bits (fst (Bytes bw')) = byte_bits (bytes @ [Checksum8 bytes])"
    using Bytes_ok(1) [OF w(2)] w(4) by simp
  then have "rbytes rd = bytes @ Checksum8 bytes # rest" using assms(8) w(1) by (simp add: byte_bits_inj del: byte_bits_simps)
  from readHeader_stored [OF assms(1-5) w(3) assms(6,7) this] show ?thesis by simp
qed

definition cd_info :: StreamInfo where
  "cd_info = \<lparr>si_SampleRate = 44100, si_Channels = 2, si_BitDepth = 16, si_TotalSamples = 0, si_MD5 = replicate 16 0\<rparr>"

theorem header_roundtrip_witness:
  "fst (readHeader cd_info (NewReader [Chunk (fst (Bytes (the (writeFrameHeader 4096 10 44100 16 7 NewWriter)))) None] 0)) =
      Inr \<lparr>variableBlockSize = False, blockSize = 4096, sampleRate = 44100, channelAssignment = 10,
            bitsPerSample = 16, number = 7\<rparr>"
  using header_roundtrip [of 4096 10 cd_info 7
      "NewReader [Chunk (fst (Bytes (the (writeFrameHeader 4096 10 44100 16 7 NewWriter)))) None] 0" "[]"]
  by (simp add: cd_info_def NewReader_ok)

text \<open>
  Whatever a header says, a damaged byte in it cannot go unnoticed once its
  fields parse: the parser refuses a header whose stored CRC-8 is not that of its bytes, and
  the checksums of two headers that differ in one byte differ.
\<close>

theorem header_crc:
  fixes rd :: "u8 reader"
  assumes "1 \<le> n" "n \<le> 65536" "ch \<le> 10" "0 < si_SampleRate si" "unat num < 2 ^ 36"
    and "header_bytes n ch si num bytes" "wf_reader rd" "roff rd = 0" "rbytes rd = bytes @ c # rest"
  shows "fst (readHeader si rd) = Inl ErrCRCMismatch \<longleftrightarrow> c \<noteq> Checksum8 bytes"
  using readHeader_stored [OF assms] by simp

theorem header_crc_witness:
  "fst (readHeader cd_info (NewReader [Chunk [0xFF, 0xF8, 0xC9, 0x88, 0x07, 0x12] None] 0)) = Inl ErrCRCMismatch
     \<longleftrightarrow> 0x12 \<noteq> Checksum8 [0xFF, 0xF8, 0xC9, 0x88, 0x07]"
proof (rule header_crc)
  show "header_bytes 4096 8 cd_info 7 [0xFF, 0xF8, 0xC9, 0x88, 0x07]"
    by (simp add: header_bytes_def fields_bits_def blockSizeCode_def sampleRateCode_def cd_info_def bitDepthCode_def
        utf8_bits_def ext_bits_def syncCode_def bits_msb_def upt_rec)
qed (simp_all add: NewReader_ok cd_info_def)

section \<open>Subframes\<close>

text \<open>
  An instance of the floating-point interface over the integers, for the witnesses: it
  satisfies the laws, and every operation computes.
\<close>

definition int_float :: "int float64" where
  "int_float =
     \<lparr>fl_int = (\<lambda>n. n), fl_half = 0, fl_pi = 3, fl_inf = 2 ^ 62, fl_add = (+), fl_sub = (-), fl_mul = (*), fl_div = (div),
      fl_neg = uminus, fl_less = (<), fl_le = (\<le>), fl_eq = (=), fl_isNaN = (\<lambda>_. False), fl_isInf = (\<lambda>_. False),
      fl_abs = abs, fl_round = (\<lambda>x. x), fl_cos = (\<lambda>_. 1), fl_log2 = (\<lambda>_. 1), fl_frexp = (\<lambda>_. 1),
      fl_pow2 = (\<lambda>n. 2 ^ nat n), fl_toInt32 = of_int,
      fl_autocorr = (\<lambda>x m. map (\<lambda>lag. sum_list (map2 (*) (drop lag x) x)) [0..<m + 1])\<rparr>"

lemma int_float_laws: "float64_laws int_float"
proof -
  have t: "lo \<le> sint (of_int x :: i32) \<and> sint (of_int x :: i32) \<le> hi"
    if "fits 32 lo" "fits 32 hi" "lo \<le> x" "x \<le> hi" for lo hi x
  proof -
    have "fits LENGTH(32) x" using that by (auto simp: fits_def)
    then show ?thesis using that by (simp add: sint_of_int_fits)
  qed
  have s: "sint (of_int n :: i32) = n" if "fits 32 n" for n using t [OF that that] by simp
  show ?thesis unfolding float64_laws_def fl_finite_def by (simp add: int_float_def s t not_less del: of_int_sint)
qed

text \<open>
  C15. A subframe is lossless and its price is exact: whatever predictor
  \<open>planSubframe\<close> picks for the samples, \<open>writeSubframe\<close> appends as many bits as the plan says,
  and \<open>decodeSubframe\<close> reads exactly these bits as the samples.
\<close>

theorem subframe_roundtrip:
  assumes "float64_laws F" "planSubframe F ws idx s bps p win = (plan, ws')"
    and "1 \<le> length s" "length s \<le> 65535" "1 \<le> bps" "bps \<le> 32" "\<forall>x \<in> set s. fits bps (sint x)" "idx < length (ws_cand ws)"
  shows "\<exists>bits. emits (writeSubframe ws' s bps plan p) bits \<and> int (length bits) = sp_bits plan
    \<and> parses (decodeSubframe (length s) bps :: (i32 list, 't) rm) bits s"
proof -
  have s: "s \<noteq> []" using assms(3) by auto
  show ?thesis
    using sub32.write_carried [OF planSubframe_ok(1) [OF assms(1,2) s assms(4,5,8)] assms(5) _ _ assms(7) s] assms(6)
    by (auto simp: writeSubframe_def decodeSubframe_def)
qed

definition best_params :: Params where
  "best_params = \<lparr>p_Stereo = StereoFull, p_MaxPartitionOrder = 6, p_ExhaustiveFixed = True, p_MaxLPCOrder = 8,
     p_LPCPrecision = 14, p_Apodization = ApodTukey05\<rparr>"

theorem subframe_roundtrip_witness:
  "\<exists>plan ws' bits. planSubframe int_float (NewWorkspace int_float 16 2 8) 0 [12, 16, 20, 24, 30] 16 best_params None = (plan, ws')
    \<and> emits (writeSubframe ws' [12, 16, 20, 24, 30] 16 plan best_params) bits \<and> int (length bits) = sp_bits plan
    \<and> parses (decodeSubframe (length [12, 16, 20, 24, 30 :: i32]) 16 :: (i32 list, unit) rm) bits [12, 16, 20, 24, 30]"
proof -
  obtain plan ws' where P: "planSubframe int_float (NewWorkspace int_float 16 2 8) 0 [12, 16, 20, 24, 30] 16 best_params None = (plan, ws')"
    by fastforce
  from subframe_roundtrip [OF int_float_laws P, where 't = unit] show ?thesis
    using P by (auto simp: fits_def NewWorkspace_def)
qed

text \<open>
  C22. The same at the wide width, for depths up to 33 bits, the side
  channel of 32-bit stereo included: no residual leaves the 32-bit range on the way.
\<close>

theorem subframe_roundtrip64:
  assumes "float64_laws F" "planSubframe64 F ws idx s bps p win = (plan, ws')"
    and "1 \<le> length s" "length s \<le> 65535" "1 \<le> bps" "bps \<le> 33" "\<forall>x \<in> set s. fits bps (sint x)" "idx < length (ws_cand ws)"
  shows "\<exists>bits. emits (writeSubframe64 ws' s bps plan p) bits \<and> int (length bits) = sp_bits plan
    \<and> parses (decodeSubframe64 (length s) bps :: (i64 list, 't) rm) bits s"
proof -
  have s: "s \<noteq> []" using assms(3) by auto
  show ?thesis
    using sub64.write_carried [OF planSubframe64_ok(1) [OF assms(1,2) s assms(4,5,8)] assms(5) _ _ assms(7) s] assms(6)
    by (auto simp: writeSubframe64_def decodeSubframe64_def)
qed

theorem subframe_roundtrip64_witness:
  "\<exists>plan ws' bits. planSubframe64 int_float (NewWorkspace int_float 16 2 8) 3 [2 ^ 32 - 1, - (2 ^ 32), 5] 33 best_params None = (plan, ws')
    \<and> emits (writeSubframe64 ws' [2 ^ 32 - 1, - (2 ^ 32), 5] 33 plan best_params) bits \<and> int (length bits) = sp_bits plan
    \<and> parses (decodeSubframe64 (length [2 ^ 32 - 1, - (2 ^ 32), 5 :: i64]) 33 :: (i64 list, unit) rm) bits [2 ^ 32 - 1, - (2 ^ 32), 5]"
proof -
  obtain plan ws' where P: "planSubframe64 int_float (NewWorkspace int_float 16 2 8) 3 [2 ^ 32 - 1, - (2 ^ 32), 5] 33 best_params None = (plan, ws')"
    by fastforce
  from subframe_roundtrip64 [OF int_float_laws P, where 't = unit] show ?thesis
    using P by (auto simp: fits_def NewWorkspace_def)
qed

text \<open>
  C27. Whatever the input, a subframe that is accepted has the length asked
  for and samples inside its depth, the wasted bits shifted back in.
\<close>

theorem subframe_in_range:
  assumes "wf_reader rd" "bps \<le> 32" "fst (decodeSubframe n bps rd) = Inr s"
  shows "length s = n \<and> (\<forall>x \<in> set s. fits bps (sint x)) \<and> wf_reader (snd (decodeSubframe n bps rd))"
proof -
  obtain rd' where D: "decodeSubframe n bps rd = (Inr s, rd')" using assms(3) by (metis prod.collapse)
  from runsD [OF runs_decodeSubframe [OF assms(2)] assms(1) D] show ?thesis
    using D by (auto simp: samples_ok_def dest: advanceD(1))
qed

theorem subframe_in_range_witness:
  "length [10, 10, 10 :: i32] = 3 \<and> list_all (\<lambda>x. fits 8 (sint x)) [10, 10, 10 :: i32]
    \<and> wf_reader (snd (decodeSubframe 3 8 (NewReaderSize [Chunk [0x01, 0x85] None] 16 ())))"
  unfolding list_all_iff by (rule subframe_in_range [OF NewReaderSize_ok(1)]) (simp, code_simp)

text \<open>
  C38. What the floating-point analysis returns fits the fields of an LPC
  subframe, whatever the arithmetic computes within its laws: the order is between 1 and 32 and
  below the block length, the shift is not negative and at most 15, and every coefficient fits
  the precision.
\<close>

theorem analysis_in_range:
  assumes "float64_laws F" "AnalyzeLPC F samples win maxOrder precision eff scp qOut = (Some (order, shift, qn), scp', q)"
  shows "1 \<le> order \<and> order \<le> 32 \<and> order \<le> maxOrder \<and> order < length samples \<and> shift \<le> 15 \<and> qn = order
    \<and> 1 \<le> precision \<and> precision \<le> 15 \<and> (\<forall>c \<in> set (take order q). fits precision (sint c))"
  using AnalyzeLPC_ok [OF assms] by simp

definition analysis_example :: "(nat \<times> nat \<times> nat) option \<times> int lpcScratch option \<times> i32 list" where
  "analysis_example = AnalyzeLPC int_float [2, 2, 2 :: i32] [1, 1, 1] 1 5 16 (Some (NewScratch int_float 3 1)) [0]"

theorem analysis_in_range_witness:
  "fst analysis_example = Some (1, 3, 1) \<and> list_all (\<lambda>c. fits 5 (sint c)) (take 1 (snd (snd analysis_example)))"
proof -
  have f: "fst analysis_example = Some (1, 3, 1)" by code_simp
  then have "AnalyzeLPC int_float [2, 2, 2 :: i32] [1, 1, 1] 1 5 16 (Some (NewScratch int_float 3 1)) [0]
      = (Some (1, 3, 1), fst (snd analysis_example), snd (snd analysis_example))"
    by (simp add: prod_eq_iff analysis_example_def)
  from analysis_in_range [OF int_float_laws this] f show ?thesis by (simp add: list_all_iff)
qed

section \<open>Frames\<close>

text \<open>
  C2. A frame is lossless: for every block of up to eight channels of one length,
  at most 65535 samples within the stream's depth, \<open>EncodeFrame\<close> returns bytes that \<open>Decode\<close>
  reads back as the same channels, wherever the reader finds them, and leaves the reader at the
  byte behind them. Neither the stereo mode nor the predictors, the floating-point analysis or
  the state of the workspace matter; and the same bytes with another CRC-16 are rejected.
\<close>

theorem frame_roundtrip:
  assumes "float64_laws F" "1 \<le> length chs" "length chs \<le> 8" "n = length (chs ! 0)" "1 \<le> n" "n \<le> 65535"
    and "1 \<le> si_BitDepth si" "si_BitDepth si \<le> 32" "0 < si_SampleRate si" "unat k < 2 ^ 36"
    and "\<forall>c \<in> set chs. length c = n \<and> (\<forall>x \<in> set c. fits (si_BitDepth si) (sint x))" "length (ws_cand ws) = 4"
  shows "\<exists>bytes bw' ws'. EncodeFrame F cs bw ws p si chs k = Some (bytes, bw', ws') \<and> length (ws_cand ws') = 4
    \<and> decodes cs si bytes
        \<lparr>fr_BlockSize = n, fr_SampleRate = si_SampleRate si, fr_BitsPerSample = si_BitDepth si, fr_Channels = chs,
         fr_Number = k, fr_VariableBlockSize = False\<rparr>"
proof -
  have "block_ok si k chs" "four_slots ws"
    using assms by (auto simp: block_ok_def frame_args_def samples_ok_def four_slots_def)
  from EncodeFrame_ok [OF assms(1) this, of cs bw p] show ?thesis
    unfolding blockFrame_def assms(4) by (auto simp: four_slots_def)
qed

definition stereo_block :: "i32 list list" where
  "stereo_block = [[1, 2, 3, - 4], [100, - 32768, 32767, 0]]"

theorem frame_roundtrip_witness:
  "\<exists>bytes bw' ws'. EncodeFrame int_float (\<lambda>bs. of_nat (length bs)) NewWriter (NewWorkspace int_float 16 2 8) best_params cd_info stereo_block 9
      = Some (bytes, bw', ws')
    \<and> decodes (\<lambda>bs. of_nat (length bs)) cd_info bytes
        \<lparr>fr_BlockSize = 4, fr_SampleRate = 44100, fr_BitsPerSample = 16, fr_Channels = stereo_block,
         fr_Number = 9, fr_VariableBlockSize = False\<rparr>"
proof -
  have b: "\<forall>c \<in> set stereo_block. length c = 4 \<and> (\<forall>x \<in> set c. fits (si_BitDepth cd_info) (sint x))"
    by (simp add: stereo_block_def cd_info_def fits_def)
  have "length stereo_block = 2" "4 = length (stereo_block ! 0)" "length (ws_cand (NewWorkspace int_float 16 2 8)) = 4"
    by (simp_all add: stereo_block_def NewWorkspace_def)
  from frame_roundtrip [OF int_float_laws _ _ this(2) _ _ _ _ _ _ b this(3), of 9 "\<lambda>bs. of_nat (length bs)" NewWriter best_params] this(1)
  show ?thesis by (auto simp: cd_info_def)
qed

text \<open>
  C13. Whatever the input, an accepted frame is sound: one to eight channels, each of
  the frame's block size and inside the frame's depth, and the two bytes that end it are the
  CRC-16 of all the bytes before them. The reader stands right behind these bytes.
\<close>

theorem frame_accepts:
  assumes "wf_reader rd" "roff rd = 0" "1 \<le> si_BitDepth si" "si_BitDepth si \<le> 32" "Decode cs si rd = (Inr f, rd')"
  shows "1 \<le> length (fr_Channels f) \<and> length (fr_Channels f) \<le> 8 \<and> 1 \<le> fr_BlockSize f \<and> fr_BlockSize f \<le> 65536
    \<and> fr_BitsPerSample f \<le> 32
    \<and> (\<forall>c \<in> set (fr_Channels f). length c = fr_BlockSize f \<and> (\<forall>x \<in> set c. fits (fr_BitsPerSample f) (sint x)))
    \<and> (\<exists>bytes. rbytes rd = bytes @ be16 (cs bytes) @ rbytes rd' \<and> wf_reader rd' \<and> roff rd' = 0)"
proof -
  have "valid_info si" using assms(3,4) by (simp add: valid_info_def)
  from Decode_accepts [OF assms(5,1,2) this] show ?thesis
    by (auto simp: frame_ok_def samples_ok_def resumed_def)
qed

lemma stereo_frame_ok: "block_ok cd_info 9 stereo_block" "four_slots (NewWorkspace int_float 16 2 8)"
  by (simp_all add: block_ok_def frame_args_def samples_ok_def cd_info_def stereo_block_def fits_def NewWorkspace_slots)

lemma length_stereo_block: "length (stereo_block ! 0) = 4"
  by (simp add: stereo_block_def)

lemma decodes_reader:
  assumes "decodes cs si bytes f"
  shows "\<exists>rd'. Decode cs si (NewReader [Chunk bytes None] fcReset) = (Inr f, rd')"
  using decodesD [OF assms NewReader_ok(1), of "[Chunk bytes None]" fcReset "[]"] NewReader_ok(2,3) [of "[Chunk bytes None]" fcReset]
  by (cases "bytes = []") (auto simp: maxEmptyReads_def)

theorem frame_accepts_witness:
  "\<exists>bytes f rd'. Decode (\<lambda>_. 7) cd_info (NewReader [Chunk bytes None] fcReset) = (Inr f, rd')
    \<and> (\<exists>body. rbytes (NewReader [Chunk bytes None] fcReset) = body @ be16 7 @ rbytes rd')"
proof -
  obtain bytes bw' ws' where "decodes (\<lambda>_. 7) cd_info bytes (blockFrame (length (stereo_block ! 0)) cd_info 9 stereo_block)"
    using EncodeFrame_ok [OF int_float_laws stereo_frame_ok, of "\<lambda>_. 7" NewWriter best_params] by blast
  then obtain f rd' where D: "Decode (\<lambda>_. 7) cd_info (NewReader [Chunk bytes None] fcReset) = (Inr f, rd')"
    using decodes_reader by blast
  have "1 \<le> si_BitDepth cd_info" "si_BitDepth cd_info \<le> 32" by (simp_all add: cd_info_def)
  from frame_accepts [OF NewReader_ok(1,3) this D] D show ?thesis by blast
qed

text \<open>
  C37. The end of the input is clean at a frame boundary only: \<open>Decode\<close> reports
  \<open>io.EOF\<close> exactly when nothing is left, and when the input ends inside a frame, that is when its
  bytes are the start of some input a frame is decoded from but do not reach that frame's end,
  it reports \<open>io.ErrUnexpectedEOF\<close>.
\<close>

theorem frame_clean_eof:
  assumes "wf_reader rd" "rend rd = EOF" "1 \<le> si_BitDepth si" "si_BitDepth si \<le> 32"
  shows "(fst (Decode cs si rd) = Inl EOF \<longleftrightarrow> rbits rd = [])
    \<and> (\<forall>whole f after X. wf_reader whole \<and> roff whole = 0 \<and> Decode cs si whole = (Inr f, after)
         \<and> roff rd = 0 \<and> rbytes rd \<noteq> [] \<and> rbytes whole = rbytes rd @ X @ rbytes after \<and> X \<noteq> []
         \<longrightarrow> fst (Decode cs si rd) = Inl ErrUnexpectedEOF)"
proof -
  have eof: "fst (Decode cs si rd) = Inl EOF \<longleftrightarrow> rbits rd = []"
    using Decode_EOF [OF assms(1)] assms(2) by simp
  have si: "valid_info si" using assms(3,4) by (simp add: valid_info_def)
  obtain r rd' where D: "Decode cs si rd = (r, rd')" by fastforce
  have "r = Inl ErrUnexpectedEOF"
    if w: "wf_reader whole" "roff whole = 0" "Decode cs si whole = (Inr f, after)" and rd: "roff rd = 0" "rbytes rd \<noteq> []"
      "rbytes whole = rbytes rd @ X @ rbytes after" "X \<noteq> []" for whole f after X
  proof -
    have "\<exists>e. r = Inl e \<and> cutErr e"
      using Decode_prefix [OF assms(1) rd(1) assms(2) EOF_external w(1,2) rd(3) si D] w(3) rd(4) by (auto simp: cutAt_def)
    moreover have "rbits rd \<noteq> []" using aligned_length [OF rd(1)] rd(2) by auto
    ultimately show ?thesis using eof D by (auto simp: cutErr_def)
  qed
  then show ?thesis using eof D by auto
qed

theorem frame_clean_eof_witness:
  "\<exists>bytes. fst (Decode (\<lambda>_. 7) cd_info (NewReader (bytesReader bytes) fcReset)) = Inr (blockFrame 4 cd_info 9 stereo_block)
    \<and> fst (Decode (\<lambda>_. 7) cd_info (NewReader (bytesReader (butlast bytes)) fcReset)) = Inl ErrUnexpectedEOF
    \<and> fst (Decode (\<lambda>_. 7) cd_info (NewReader [] fcReset)) = Inl EOF"
proof -
  obtain bytes bw' ws' where E: "decodes (\<lambda>_. 7) cd_info bytes (blockFrame 4 cd_info 9 stereo_block)" "take 2 bytes = [0xFF, 0xF8]"
    using EncodeFrame_ok [OF int_float_laws stereo_frame_ok, of "\<lambda>_. 7" NewWriter best_params] unfolding length_stereo_block by auto
  let ?whole = "NewReader (bytesReader bytes) fcReset" and ?cut = "NewReader (bytesReader (butlast bytes)) fcReset"
  obtain after where after: "Decode (\<lambda>_. 7) cd_info ?whole = (Inr (blockFrame 4 cd_info 9 stereo_block), after)" "rbytes after = []"
    using decodesD [OF E(1), of ?whole "[]"] by (auto simp: NewReader_ok resumed_def)
  have ne: "bytes \<noteq> []" "butlast bytes \<noteq> []" using E(2) by (cases bytes; auto)+
  have d: "1 \<le> si_BitDepth cd_info" "si_BitDepth cd_info \<le> 32" by (simp_all add: cd_info_def)
  have e: "rend ?cut = EOF" "rend (NewReader [] fcReset) = EOF" by (simp_all add: NewReader_ok)
  have "fst (Decode (\<lambda>_. 7) cd_info ?cut) = Inl ErrUnexpectedEOF"
    by (rule conjunct2 [OF frame_clean_eof [OF NewReader_ok(1) e(1) d], THEN spec [where x = ?whole],
          THEN spec [where x = "blockFrame 4 cd_info 9 stereo_block"], THEN spec [where x = after],
          THEN spec [where x = "[last bytes]"], THEN mp])
      (use after ne in \<open>simp add: NewReader_ok\<close>)
  moreover have "fst (Decode (\<lambda>_. 7) cd_info (NewReader [] fcReset)) = Inl EOF"
    using frame_clean_eof [OF NewReader_ok(1) e(2) d] by (simp add: NewReader_ok rbits_aligned)
  ultimately show ?thesis using after(1) by (intro exI [of _ bytes]) simp
qed

text \<open>
  C21. The search finds a frame: in a buffer where an encoded frame follows bytes
  without a sync pattern, \<open>FindNextFrame\<close> returns the frame, its offset and its length.
\<close>

theorem search_finds:
  assumes "float64_laws F" "block_ok si k chs" "length (ws_cand ws) = 4" "EncodeFrame F cs bw ws p si chs k = Some (bytes, bw', ws')"
    and "wf_reader rd" "\<forall>j < length junk. \<not> syncAt ((junk @ bytes) ! j) ((junk @ bytes) ! Suc j)"
  shows "fst (FindNextFrame cs rd (junk @ bytes @ rest) si) =
    (length junk, length bytes, FrameFound, Some (blockFrame (length (chs ! 0)) si k chs))"
proof -
  have "four_slots ws" using assms(3) by (simp add: four_slots_def)
  from EncodeFrame_ok [OF assms(1,2) this, of cs bw p] assms(4)
  have e: "decodes cs si bytes (blockFrame (length (chs ! 0)) si k chs)" "take 2 bytes = [0xFF, 0xF8]" by auto
  show ?thesis
    unfolding FindNextFrame_def using findFrom_frame [OF e reusable_wf [OF assms(5)] assms(6), of 0 rest] by auto
qed

theorem search_finds_witness:
  "\<exists>bytes bw' ws'. EncodeFrame int_float (\<lambda>_. 7) NewWriter (NewWorkspace int_float 16 2 8) best_params cd_info stereo_block 9 = Some (bytes, bw', ws')
    \<and> fst (FindNextFrame (\<lambda>_. 7) (NewReader [] fcReset) ([0xFF] @ bytes @ [0xFF, 0xF8]) cd_info)
      = (1, length bytes, FrameFound, Some (blockFrame 4 cd_info 9 stereo_block))"
proof -
  obtain bytes bw' ws' where E: "EncodeFrame int_float (\<lambda>_. 7) NewWriter (NewWorkspace int_float 16 2 8) best_params cd_info stereo_block 9 = Some (bytes, bw', ws')"
    and t: "take 2 bytes = [0xFF, 0xF8]"
    using EncodeFrame_ok [OF int_float_laws stereo_frame_ok, of "\<lambda>_. 7" NewWriter best_params] by blast
  have w: "length (ws_cand (NewWorkspace int_float 16 2 8)) = 4" by (simp add: NewWorkspace_def)
  have j: "\<forall>j < length [0xFF]. \<not> syncAt (([0xFF] @ bytes) ! j) (([0xFF] @ bytes) ! Suc j)"
    using t by (cases bytes) (simp_all add: syncAt_def)
  from search_finds [OF int_float_laws stereo_frame_ok(1) w E NewReader_ok(1) j, where rest = "[0xFF, 0xF8]"] E
  show ?thesis unfolding length_stereo_block by auto
qed

text \<open>
  C36. Whatever the buffer, what the search reports as found is the frame that lies in
  it at the offset and of the length it says: it is sound, its CRC-16 matches, and a reader set
  at that offset, of this buffer or of any longer input it is a window of, decodes exactly that
  frame and stands that many bytes further on.
\<close>

theorem search_sound:
  assumes "FindNextFrame cs rd data si = ((start, n, FrameFound, fo), rd')" "wf_reader rd" "1 \<le> si_BitDepth si" "si_BitDepth si \<le> 32"
  shows "\<exists>f bytes. fo = Some f \<and> frame_ok f \<and> start + n \<le> length data
    \<and> take n (drop start data) = bytes @ be16 (cs bytes)
    \<and> (\<forall>at X. wf_reader at \<and> roff at = 0 \<and> rbytes at = drop start data @ X \<longrightarrow>
         (\<exists>at'. Decode cs si at = (Inr f, at') \<and> rbytes at' = drop n (rbytes at)))"
proof -
  have si: "valid_info si" using assms(3,4) by (simp add: valid_info_def)
  note F = assms(1) [unfolded FindNextFrame_def]
  from findFrom_found [OF F reusable_wf [OF assms(2)] si]
  obtain f bytes rest where f: "fo = Some f" "frame_ok f" "drop start data = bytes @ be16 (cs bytes) @ rest" "n = length bytes + 2"
    "start \<le> length data" by auto
  have "length data - start = n + length rest" using arg_cong [OF f(3), of length] f(4) by (simp add: be16_def)
  moreover have "\<exists>at'. Decode cs si at = (Inr f, at') \<and> rbytes at' = drop n (rbytes at)"
    if w: "wf_reader at" "roff at = 0" "rbytes at = drop start data @ X" for at X
  proof -
    obtain at' where D: "Decode cs si at = (Inr f, at')" "length (rbytes at) = n + length (rbytes at')"
      using findFrom_decodes [OF F reusable_wf [OF assms(2)] si w(1,2), of X] w(3) f(1) by auto
    then obtain pre where "rbytes at = pre @ rbytes at'" using Decode_accepts(2) [OF D(1) w(1,2) si] by (metis append.assoc)
    moreover from this have "length pre = n" using D(2) by simp
    ultimately show ?thesis using D(1) by (metis append_eq_conv_conj)
  qed
  ultimately show ?thesis using f by (auto simp: be16_def)
qed

theorem search_sound_witness:
  "\<exists>data start n f. fst (FindNextFrame (\<lambda>_. 7) (NewReader [] fcReset) data cd_info) = (start, n, FrameFound, Some f) \<and> frame_ok f"
proof -
  obtain bytes bw' ws' where E: "decodes (\<lambda>_. 7) cd_info bytes (blockFrame 4 cd_info 9 stereo_block)" "take 2 bytes = [0xFF, 0xF8]"
    using EncodeFrame_ok [OF int_float_laws stereo_frame_ok, of "\<lambda>_. 7" NewWriter best_params] unfolding length_stereo_block by auto
  obtain rd' where F: "FindNextFrame (\<lambda>_. 7) (NewReader [] fcReset) bytes cd_info =
      ((0, length bytes, FrameFound, Some (blockFrame 4 cd_info 9 stereo_block)), rd')"
    using findFrom_frame [OF E reusable_wf [OF NewReader_ok(1)], of "[]" 0 "[]"] by (auto simp: FindNextFrame_def)
  have "1 \<le> si_BitDepth cd_info" "si_BitDepth cd_info \<le> 32" by (simp_all add: cd_info_def)
  from search_sound [OF F NewReader_ok(1) this] have "frame_ok (blockFrame 4 cd_info 9 stereo_block)" by simp
  then show ?thesis
    by (intro exI [of _ bytes] exI [of _ 0] exI [of _ "length bytes"] exI [of _ "blockFrame 4 cd_info 9 stereo_block"]) (simp add: F)
qed


section \<open>Metadata\<close>

definition cd_meta :: "block list" where
  "cd_meta = [(TypeVorbisComment, EncodeVorbisComment [0x67, 0x6F] [[0x41, 0x3D, 0x62]]),
     (TypeSeekTable, EncodeSeekPoints [\<lparr>sk_SampleNumber = 4096, sk_ByteOffset = 9000, sk_FrameSamples = 4096\<rparr>,
        \<lparr>sk_SampleNumber = PlaceholderSampleNumber, sk_ByteOffset = 0, sk_FrameSamples = 0\<rparr>]),
     (TypePadding, [0, 0])]"

definition small_tag :: "u8 list" where
  "small_tag = markID3 @ [4] @ [0, 0, 0, 0, 0, 2] @ [7, 7]"

text \<open>
  C28. The metadata section is read as the typed blocks it was written from: behind an
  optional ID3v2 tag (skipped by its syncsafe size) and the marker, STREAMINFO comes back field
  by field, every further block is applied in order, and the reader is left at the first byte
  behind the section.
\<close>

theorem metadata_roundtrip:
  fixes rd :: "'t reader"
  assumes "info_ok si" "minBlock < 2 ^ 16" "maxBlock < 2 ^ 16" "maxFrame < 2 ^ 24" "tag = [] \<or> id3_tag tag"
    and "\<forall>b \<in> set bs. plain_block b" "applyBlocks bs (infoMeta si minBlock maxBlock maxFrame) = Some sm"
    and "wf_reader rd" "roff rd = 0" "rbytes rd = tag @ streamHeader si minBlock maxBlock minFrame maxFrame bs @ rest"
  shows "\<exists>rd'. ReadMetadata rd = (Inr sm, rd') \<and> rbytes rd' = rest \<and> roff rd' = 0
    \<and> rpos rd' = rpos rd + 8 * length (tag @ streamHeader si minBlock maxBlock minFrame maxFrame bs)"
proof -
  let ?h = "tag @ streamHeader si minBlock maxBlock minFrame maxFrame bs"
  have "at_bits (byte_bits ?h) rd"
    using assms(8-10) by (intro at_bits_split [of _ _ "byte_bits rest"]) (simp_all add: rbits_aligned)
  from parsesE [OF parses_ReadMetadata [OF assms(1-7)] this] obtain rd' where
    "ReadMetadata rd = (Inr sm, rd')" "advance (length (byte_bits ?h)) rd rd'" .
  then show ?thesis using assms(9,10) by (auto simp: advance_def)
qed

theorem metadata_roundtrip_witness:
  "\<exists>rd'. ReadMetadata (NewReader [Chunk (small_tag @ streamHeader cd_info 4096 4096 14 9000 cd_meta @ [0xFF, 0xF8]) None] ()) =
     (Inr ((infoMeta cd_info 4096 4096 9000)\<lparr>sm_Vendor := [0x67, 0x6F], sm_Comments := [[0x41, 0x3D, 0x62]],
        sm_SeekPoints := [\<lparr>sk_SampleNumber = 4096, sk_ByteOffset = 9000, sk_FrameSamples = 4096\<rparr>]\<rparr>), rd')
   \<and> rbytes rd' = [0xFF, 0xF8]"
proof -
  have t: "id3_tag small_tag"
    unfolding id3_tag_def small_tag_def
    by (intro exI [of _ 4] exI [of _ 0] exI [of _ 0] exI [of _ 2] exI [of _ "[7, 7]"]) (simp add: syncsafe_def)
  have i: "info_ok cd_info" by (simp add: info_ok_def cd_info_def)
  have b: "\<forall>b \<in> set cd_meta. plain_block b" 
    by (auto simp: cd_meta_def plain_block_def block_types MaxMetadataBodyLen_def EncodeVorbisComment_def lenBytes_def)
  have a: "applyBlocks cd_meta (infoMeta cd_info 4096 4096 9000) = Some ((infoMeta cd_info 4096 4096 9000)
      \<lparr>sm_Vendor := [0x67, 0x6F], sm_Comments := [[0x41, 0x3D, 0x62]],
        sm_SeekPoints := [\<lparr>sk_SampleNumber = 4096, sk_ByteOffset = 9000, sk_FrameSamples = 4096\<rparr>]\<rparr>)"
    by (simp add: cd_meta_def block_types parseSeekTable_EncodeSeekPoints parseVorbisComment_Encode [where pad = "[]", simplified]
        PlaceholderSampleNumber_def)
  show ?thesis
    using metadata_roundtrip [where rd = "NewReader [Chunk (small_tag @ streamHeader cd_info 4096 4096 14 9000 cd_meta @ [0xFF, 0xF8]) None] ()",
      OF i _ _ _ disjI2 [OF t] b a, where rest = "[0xFF, 0xF8]" and minFrame = 14]
    by (auto simp: NewReader_ok maxEmptyReads_def)
qed

text \<open>
  C34. Whatever the input, metadata that is accepted is in range: a sample rate of
  20 bits that is not zero, 1 to 8 channels, a depth of 4 to 32 bits, a total of 36 bits, sixteen
  digest bytes, and no placeholder among the seek points. The section it was read from is a
  whole number of bytes, the reader stands right behind it, and the same section cut off
  anywhere before its last byte is \<open>io.ErrUnexpectedEOF\<close>, however the source splits it; on no
  input is the result \<open>io.EOF\<close>, which would mean a stream that ended cleanly.
\<close>

theorem metadata_accepts:
  fixes t :: 't
  assumes "ReadMetadata (NewReader src t) = (Inr sm, rd')"
  shows "meta_ok sm \<and> roff rd' = 0
    \<and> (\<exists>sec. fst (src_bytes 0 src) = sec @ rbytes rd'
         \<and> (\<forall>n src2. n < length sec \<and> src_bytes 0 src2 = (take n sec, EOF) \<longrightarrow>
              fst (ReadMetadata (NewReader src2 t)) = Inl ErrUnexpectedEOF))
    \<and> (\<forall>rd :: 't reader. fst (ReadMetadata rd) \<noteq> Inl EOF)"
proof -
  note N = NewReader_ok [of src t]
  obtain sec where sec: "fst (src_bytes 0 src) = sec @ rbytes rd'"
    using ReadMetadata_section(2) [OF assms N(1,3)] N(2) by auto
  have "fst (ReadMetadata (NewReader src2 t)) = Inl ErrUnexpectedEOF"
    if "n < length sec" "src_bytes 0 src2 = (take n sec, EOF)" for n src2
    by (rule ReadMetadata_cut [OF assms _ _ that(2), of "drop n sec"]) (use sec that(1) in simp_all)
  then show ?thesis
    using sec runsD(2) [OF runs_ReadMetadata N(1) assms] ReadMetadata_section(1) [OF assms N(1,3)] ReadMetadata_not_EOF by blast
qed

theorem metadata_accepts_witness:
  "\<exists>rd'. ReadMetadata (NewReader (bytesReader (streamHeader cd_info 4096 4096 14 9000 [(TypePadding, [0, 0])] @ [0xFF, 0xF8])) ())
       = (Inr (infoMeta cd_info 4096 4096 9000), rd')
    \<and> meta_ok (infoMeta cd_info 4096 4096 9000) \<and> rbytes rd' = [0xFF, 0xF8]
    \<and> fst (ReadMetadata (NewReader [Chunk (take 20 (streamHeader cd_info 4096 4096 14 9000 [(TypePadding, [0, 0])])) None] ()))
       = Inl ErrUnexpectedEOF"
proof -
  let ?h = "streamHeader cd_info 4096 4096 14 9000 [(TypePadding, [0, 0])]"
  let ?rd = "NewReader (bytesReader (?h @ [0xFF, 0xF8])) ()"
  have si: "info_ok cd_info" by (simp add: info_ok_def cd_info_def)
  have b: "\<forall>b \<in> set [(TypePadding, [0 :: u8, 0])]. plain_block b"
    by (simp add: plain_block_def block_types MaxMetadataBodyLen_def)
  have a: "applyBlocks [(TypePadding, [0, 0])] (infoMeta cd_info 4096 4096 9000) = Some (infoMeta cd_info 4096 4096 9000)"
    by (simp add: block_types)
  have "at_bits (byte_bits ?h) ?rd"
    by (intro at_bits_split [of _ _ "byte_bits [0xFF, 0xF8]"]) (simp_all add: rbits_aligned NewReader_ok)
  moreover have "parses (ReadMetadata :: (StreamMeta, unit) rm) (byte_bits ([] @ ?h)) (infoMeta cd_info 4096 4096 9000)"
    by (rule parses_ReadMetadata [OF si _ _ _ _ b a]) simp_all
  ultimately obtain rd' where
    rd': "ReadMetadata ?rd = (Inr (infoMeta cd_info 4096 4096 9000), rd')" "advance (length (byte_bits ?h)) ?rd rd'"
    unfolding append_Nil by (elim parsesE)
  have rest: "rbytes rd' = [0xFF, 0xF8]" using rd'(2) by (simp add: advance_def NewReader_ok)
  have l: "20 < length ?h" by (simp add: streamHeader_def metaBlock_def markFLaC_def length_EncodeStreamInfo cd_info_def)
  from metadata_accepts [OF rd'(1)] obtain sec where sec: "?h @ [0xFF, 0xF8] = sec @ rbytes rd'"
      "\<And>n src2. n < length sec \<Longrightarrow> src_bytes 0 src2 = (take n sec, EOF) \<Longrightarrow> fst (ReadMetadata (NewReader src2 ())) = Inl ErrUnexpectedEOF"
      and ok: "meta_ok (infoMeta cd_info 4096 4096 9000)" by auto
  have "sec = ?h" using sec(1) rest by simp
  moreover have "take 20 ?h \<noteq> []" using l by auto
  ultimately show ?thesis using sec(2) [of 20 "[Chunk (take 20 ?h) None]"] l rd'(1) rest ok by (auto simp: maxEmptyReads_def)
qed

text \<open>
  The bodies of STREAMINFO, VORBIS_COMMENT and SEEKTABLE are read back as they
  were written: the stream properties a container carries, the vendor and the comments in order
  (whatever padding follows them), the seek points without the placeholders.
\<close>

theorem metadata_bodies:
  assumes "info_ok si" "minBlock < 2 ^ 16" "maxBlock < 2 ^ 16" "maxFrame < 2 ^ 24"
    and "length vendor < 2 ^ 32" "length cs < 2 ^ 32" "\<forall>c \<in> set cs. length c < 2 ^ 32"
  shows "DecodeStreamInfo (EncodeStreamInfo si minBlock maxBlock minFrame maxFrame) = Inr si
    \<and> length (EncodeStreamInfo si minBlock maxBlock minFrame maxFrame) = StreamInfoBodyLen
    \<and> parseVorbisComment (EncodeVorbisComment vendor cs @ pad) = Inr (vendor, cs)
    \<and> parseSeekTable (EncodeSeekPoints pts @ SeekTablePlaceholder n)
        = Inr (filter (\<lambda>p. sk_SampleNumber p \<noteq> PlaceholderSampleNumber) pts)"
proof -
  have p: "EncodeSeekPoints pts @ SeekTablePlaceholder n =
      EncodeSeekPoints (pts @ replicate n \<lparr>sk_SampleNumber = PlaceholderSampleNumber, sk_ByteOffset = 0, sk_FrameSamples = 0\<rparr>)"
    by (simp add: SeekTablePlaceholder_def EncodeSeekPoints_def)
  have l: "length (EncodeStreamInfo si minBlock maxBlock minFrame maxFrame) = 34"
    using assms(1) by (simp add: info_ok_def length_EncodeStreamInfo)
  have s: "parseSeekTable (EncodeSeekPoints pts @ SeekTablePlaceholder n)
      = Inr (filter (\<lambda>p. sk_SampleNumber p \<noteq> PlaceholderSampleNumber) pts)"
    unfolding p by (simp add: parseSeekTable_EncodeSeekPoints)
  show ?thesis
    using DecodeStreamInfo_EncodeStreamInfo [OF assms(1-4)] l s parseVorbisComment_Encode [OF assms(5-7)]
    by (simp add: StreamInfoBodyLen_def)
qed

theorem metadata_bodies_witness:
  "DecodeStreamInfo (EncodeStreamInfo cd_info 16 4096 0 0) = Inr cd_info
    \<and> length (EncodeStreamInfo cd_info 16 4096 0 0) = StreamInfoBodyLen
    \<and> parseVorbisComment (EncodeVorbisComment [0x67] [[0x41, 0x3D], []] @ [9]) = Inr ([0x67], [[0x41, 0x3D], []])
    \<and> parseSeekTable (EncodeSeekPoints [\<lparr>sk_SampleNumber = 0, sk_ByteOffset = 0, sk_FrameSamples = 16\<rparr>] @ SeekTablePlaceholder 1)
        = Inr (filter (\<lambda>p. sk_SampleNumber p \<noteq> PlaceholderSampleNumber) [\<lparr>sk_SampleNumber = 0, sk_ByteOffset = 0, sk_FrameSamples = 16\<rparr>])"
proof -
  have i: "info_ok cd_info" by (simp add: info_ok_def cd_info_def)
  have l: "length [0x67 :: u8] < 2 ^ 32" "length [[0x41, 0x3D], [] :: u8 list] < 2 ^ 32" "\<forall>c \<in> set [[0x41, 0x3D], [] :: u8 list]. length c < 2 ^ 32"
    "(16 :: nat) < 2 ^ 16" "(4096 :: nat) < 2 ^ 16" "(0 :: nat) < 2 ^ 24"
    by simp_all
  show ?thesis by (rule metadata_bodies [OF i l(4-6,1-3)])
qed

text \<open>
  C35. The loop over the metadata blocks, which counts no rounds and bounds
  nothing, ends on every input: from any well-formed reader, the blocks read so far and the
  \<open>first\<close> flag being anything, it returns, and so does \<open>readMetadata\<close> around it; what they return
  is what the model with one round per remaining bit computes, so the definitions the other
  properties are about are the unbounded loop.
\<close>

theorem metadata_terminates:
  assumes "wf_reader rd"
  shows "readBlocksLoop first st rd = Some (readBlocks (Suc (length (rbits rd))) first st rd)
    \<and> readMetadataLoop rd = Some (readMetadata rd)"
  by (intro conjI readBlocksLoop_fuel [OF assms] readMetadataLoop_fuel [OF assms]) simp

theorem metadata_terminates_witness:
  "\<exists>r. readMetadataLoop (NewReaderSize [Chunk (markFLaC @ [0x81, 0, 0]) None, Chunk [2, 9, 9, 9] (Some EOF)] 16 ()) = Some r"
  using metadata_terminates
    [of "NewReaderSize [Chunk (markFLaC @ [0x81, 0, 0]) None, Chunk [2, 9, 9, 9] (Some EOF)] 16 ()" True "(False, emptyMeta)"]
  by (simp add: NewReaderSize_ok)

section \<open>PCM and the frames of a container\<close>

text \<open>
  C30. Interleaved PCM loses nothing: unpacking a block and packing the frame
  that carries its rows gives the block's bytes back, behind whatever the buffer held, and a frame
  of rows that fit the byte width is unpacked from its packed bytes unchanged. This holds at
  one to four bytes per sample and any number of channels, so on every fast path.
\<close>

theorem pcm_packing:
  assumes "1 \<le> k" "k \<le> 4" "length src = k * nch * n" "length chs = nch"
    and "list_all (\<lambda>c. length c = n \<and> list_all (\<lambda>x. fits (8 * k) (sint x)) c) chs"
  shows "appendPacked dst (blockFrame n si num (deinterleaveSamples src n nch k)) k = dst @ src
    \<and> deinterleaveSamples (appendPacked [] (blockFrame n si num chs) k) n nch k = chs"
proof -
  have r: "rows_ok (8 * k) n nch (deinterleaveSamples src n nch k)" by (rule rows_ok_deinterleaveSamples [OF assms(1-3)])
  have c: "rows_ok (8 * k) n nch chs" using assms(4,5) by (auto simp: rows_ok_def list_all_iff)
  have f: "frame_rows (blockFrame n si num x)" if "rows_ok (8 * k) n nch x" for x
    using that by (simp add: frame_rows_def rows_ok_def blockFrame_def)
  show ?thesis
    using packRows_deinterleaveSamples [OF assms(1-3)] deinterleaveSamples_packRows [OF assms(1,2) c]
    unfolding appendPacked_rows [OF f [OF r]] appendPacked_rows [OF f [OF c]] by (simp add: blockFrame_def)
qed

theorem pcm_packing_witness:
  "appendPacked [9] (blockFrame 2 cd_info 0 (deinterleaveSamples [1, 0x80, 2, 0xFF, 3, 0, 4, 1] 2 2 2)) 2 = [9, 1, 0x80, 2, 0xFF, 3, 0, 4, 1]
    \<and> deinterleaveSamples (appendPacked [] (blockFrame 2 cd_info 0 [[- 5, 7], [32767, - 32768]]) 2) 2 2 2 = [[- 5, 7], [32767, - 32768]]"
  using pcm_packing [of 2 "[1, 0x80, 2, 0xFF, 3, 0, 4, 1]" 2 2 "[[- 5, 7], [32767, - 32768]]" "[9]" cd_info 0] by (simp add: fits_def)

text \<open>
  C31. The widened 16-bit paths are the plain ones: for mono and stereo the
  64-bit loads unpack what the byte-at-a-time loop unpacks, and the 64-bit stores pack what the
  scalar store packs.
\<close>

theorem pcm_fast_paths:
  assumes "length src = 2 * n" "length src2 = 4 * n" "length m = n" "length l = n" "length r = n"
  shows "[deinterleave16Mono src n] = deinterleaveSamplesGeneric src n 1 2
    \<and> (case deinterleave16Stereo src2 n of (left, right) \<Rightarrow> [left, right] = deinterleaveSamplesGeneric src2 n 2 2)
    \<and> packLE16Mono m n = packScalar (blockFrame n si num [m]) 2
    \<and> packLE16Stereo l r n = packScalar (blockFrame n si num [l, r]) 2"
proof (intro conjI)
  show "[deinterleave16Mono src n] = deinterleaveSamplesGeneric src n 1 2"
    using deinterleaveSamples_generic [of 2 src 1 n] assms(1) by (simp add: deinterleaveSamples_def)
  show "case deinterleave16Stereo src2 n of (left, right) \<Rightarrow> [left, right] = deinterleaveSamplesGeneric src2 n 2 2"
    using deinterleaveSamples_generic [of 2 src2 2 n] assms(2) by (simp add: deinterleaveSamples_def split: prod.splits)
  show "packLE16Mono m n = packScalar (blockFrame n si num [m]) 2"
    using assms(3) by (simp add: packScalar_rows packRows_def pack_mono16 blockFrame_def)
  show "packLE16Stereo l r n = packScalar (blockFrame n si num [l, r]) 2"
    using assms(4,5) by (simp add: packScalar_rows packRows_def pack_stereo16 blockFrame_def upt_rec)
qed

theorem pcm_fast_paths_witness:
  "[deinterleave16Mono [1, 2, 3, 4, 5, 6, 7, 8, 9, 0xFF] 5] = deinterleaveSamplesGeneric [1, 2, 3, 4, 5, 6, 7, 8, 9, 0xFF] 5 1 2
    \<and> packLE16Stereo [1, 2, 3, 4, - 5] [6, 7, 8, 9, - 10] 5 = packScalar (blockFrame 5 cd_info 0 [[1, 2, 3, 4, - 5], [6, 7, 8, 9, - 10]]) 2"
  using pcm_fast_paths [of "[1, 2, 3, 4, 5, 6, 7, 8, 9, 0xFF]" 5 "replicate 20 0" "[1, 2, 3, 4, - 5]" "[1, 2, 3, 4, - 5]" "[6, 7, 8, 9, - 10]" cd_info 0]
  by simp

text \<open>
  C5. A container loses nothing: the frames \<open>FrameEncoder\<close> hands over for any
  buffer of whole samples that fit the depth, decoded one by one by the \<open>FrameDecoder\<close> that was
  built from the encoder's own STREAMINFO bytes, give the buffer back, at every
  compression level; and that STREAMINFO names the format, the number of samples and the MD5 of
  the buffer.
\<close>

theorem frames_roundtrip:
  assumes "float64_laws F" "\<forall>bs. length (md5 bs) = 16" "NewFrameEncoder F cfg = Inr e0"
    and "encodable cfg pcm" "length pcm mod sampleBytes cfg = 0"
    and "cf_TotalSamples cfg = 0 \<or> cf_TotalSamples cfg = of_nat (length pcm div sampleBytes cfg)"
  shows "\<exists>e c d. feEncodeInterleaved F cs pcm collect (e0, []) = (None, e, c)
    \<and> feStreamInfo md5 e = measuredInfo md5 cfg (cf_SkipMD5 cfg) pcm
    \<and> NewFrameDecoder (StreamInfoBytes md5 e) = Inr d \<and> fd_si d = feStreamInfo md5 e
    \<and> fst (decodeFrames cs d (map fst c)) = Inr pcm"
  using frames_decode [OF assms(3,1)] assms(2,4-6) by (simp add: mod_eq_0_iff_dvd)

definition small_cfg :: Config where
  "small_cfg = \<lparr>cf_SampleRate = 8000, cf_BitDepth = 16, cf_Channels = 2, cf_CompressionLevel = 5, cf_SeekTableInterval = 0,
     cf_SeekTableMaxPoints = 0, cf_TotalSamples = 3, cf_SkipMD5 = False, cf_Tags = [], cf_Vendor = []\<rparr>"

definition small_pcm :: "u8 list" where
  "small_pcm = [1, 0, 2, 0, 3, 0xFF, 4, 0x80, 5, 0, 6, 0x7F]"

lemma small_encodable:
  "validateConfig small_cfg = None" "sampleBytes small_cfg = 4" "encodable small_cfg small_pcm"
  "\<exists>e0. NewFrameEncoder int_float small_cfg = Inr e0" "length small_pcm = 12" "cf_TotalSamples small_cfg = 3"
proof -
  show "length small_pcm = 12" "cf_TotalSamples small_cfg = 3" by (simp_all add: small_pcm_def small_cfg_def)
  show v: "validateConfig small_cfg = None" by (simp add: small_cfg_def validateConfig_def MaxSampleRate_def maxTotalSamples_def)
  have k: "cfgBytesPS small_cfg = 2" "si_BitDepth (cfgInfo small_cfg) = 16" by (simp_all add: small_cfg_def cfgBytesPS_def cfgInfo_def)
  then show "sampleBytes small_cfg = 4" by (simp add: sampleBytes_def small_cfg_def)
  then show "encodable small_cfg small_pcm" using samplesFit_bytes [of 2 small_pcm] by (simp add: encodable_def k small_pcm_def)
  show "\<exists>e0. NewFrameEncoder int_float small_cfg = Inr e0" by (simp add: NewFrameEncoder_def v Let_def)
qed

theorem frames_roundtrip_witness:
  "\<exists>e0 e c d. NewFrameEncoder int_float small_cfg = Inr e0
    \<and> feEncodeInterleaved int_float (\<lambda>bs. of_nat (length bs)) small_pcm collect (e0, []) = (None, e, c)
    \<and> NewFrameDecoder (StreamInfoBytes (\<lambda>_. replicate 16 7) e) = Inr d
    \<and> fst (decodeFrames (\<lambda>bs. of_nat (length bs)) d (map fst c)) = Inr small_pcm"
proof -
  obtain e0 where e0: "NewFrameEncoder int_float small_cfg = Inr e0" using small_encodable(4) by blast
  from frames_roundtrip [OF int_float_laws _ e0 small_encodable(3), of "\<lambda>_. replicate 16 7" "\<lambda>bs. of_nat (length bs)"] show ?thesis
    using e0 by (auto simp: small_encodable)
qed

text \<open>
  C10. How a stream is cut into writes leaves no trace: for whatever callback one
  call of \<open>EncodeInterleaved\<close> succeeds, the same bytes written in any pieces, cut anywhere, and
  then finalized drive the callback through the same frames to the same final state, and the
  STREAMINFO bytes are the same.
\<close>

theorem writes_split:
  assumes "NewFrameEncoder F cfg = Inr e0" "ps \<noteq> []"
    and "feEncodeInterleaved F cs (concat ps) emit (e0, c0) = (None, e, c)"
  shows "\<exists>e1 c1 e2. feWriteAll F cs emit ps (e0, c0) = (None, e1, c1)
    \<and> feFinalize F cs (Some emit) (e1, c1) = (None, e2, c) \<and> StreamInfoBytes md5 e2 = StreamInfoBytes md5 e"
  by (rule writes_as_one [OF assms])

theorem writes_split_witness:
  "\<exists>e0 e1 c1 e2 c. NewFrameEncoder int_float small_cfg = Inr e0
    \<and> feWriteAll int_float (\<lambda>bs. of_nat (length bs)) collect [[1], [0, 2, 0, 3, 0xFF, 4, 0x80], [], [5, 0, 6, 0x7F]] (e0, []) = (None, e1, c1)
    \<and> feFinalize int_float (\<lambda>bs. of_nat (length bs)) (Some collect) (e1, c1) = (None, e2, c)"
proof -
  obtain e0 where e0: "NewFrameEncoder int_float small_cfg = Inr e0" using small_encodable(4) by blast
  have "concat [[1], [0, 2, 0, 3, 0xFF, 4, 0x80], [], [5, 0, 6, 0x7F]] = small_pcm" by (simp add: small_pcm_def)
  moreover obtain e c where "feEncodeInterleaved int_float (\<lambda>bs. of_nat (length bs)) small_pcm collect (e0, []) = (None, e, c)"
    using frames_decode [OF e0 int_float_laws _ small_encodable(3), of "\<lambda>_. replicate 16 7" "\<lambda>bs. of_nat (length bs)"]
    by (auto simp: small_encodable)
  ultimately show ?thesis
    using writes_split [OF e0, of "[[1], [0, 2, 0, 3, 0xFF, 4, 0x80], [], [5, 0, 6, 0x7F]]" "\<lambda>bs. of_nat (length bs)" collect "[]" e c "\<lambda>_. []"] e0
    by auto
qed

text \<open>
  C32. Tags come back: the VORBIS_COMMENT body built for a configuration fits a
  metadata block, and a decoder finds in it the vendor string and, cut at the first equals
  sign, the tags in order, duplicates included. Names are checked so that no name holds an equals
  sign.
\<close>

theorem tags_roundtrip:
  assumes "buildVorbisComment cfg = Inr body"
  shows "length body \<le> MaxMetadataBodyLen
    \<and> (\<exists>cs. parseVorbisComment body = Inr (commentVendor cfg, cs) \<and> map cutTag cs = cf_Tags cfg)"
  using buildVorbisComment_ok [OF assms] by simp

theorem tags_roundtrip_witness:
  "\<exists>body cs. buildVorbisComment (small_cfg\<lparr>cf_Tags := [\<lparr>tg_Name = [0x41], tg_Value = [0x3D, 0xC3, 0xA9]\<rparr>]\<rparr>) = Inr body
    \<and> parseVorbisComment body = Inr (defaultVendor, cs) \<and> map cutTag cs = [\<lparr>tg_Name = [0x41], tg_Value = [0x3D, 0xC3, 0xA9]\<rparr>]"
proof -
  let ?cfg = "small_cfg\<lparr>cf_Tags := [\<lparr>tg_Name = [0x41], tg_Value = [0x3D, 0xC3, 0xA9]\<rparr>]\<rparr>"
  have n: "validateTagName [0x41] = None" by (simp add: validateTagName_def runes.simps)
  have "validString [0x3D, 0xC3, 0xA9]" "validString defaultVendor"
    by (simp_all add: defaultVendor_def validString_def runes.simps continuation_def runeError_def)
  then obtain body where b: "buildVorbisComment ?cfg = Inr body"
    by (simp add: buildVorbisComment_def commentVendor_def small_cfg_def n commentSize_def MaxMetadataBodyLen_def defaultVendor_def)
  have "commentVendor ?cfg = defaultVendor" by (simp add: commentVendor_def small_cfg_def)
  with tags_roundtrip [OF b] b show ?thesis by auto
qed

text \<open>
  C33. A frame the caller does not accept is not counted: when the callback fails, the
  hash, the frame number, the number of samples and the size bounds are what they were, so the
  same block can be encoded again under the same number.
\<close>

theorem emit_failure:
  assumes "emitFrame F cs emit chunk n final (e, c) = (Some err, e', c')"
  shows "es_md5 e' = es_md5 e \<and> es_frameNum e' = es_frameNum e \<and> es_total e' = es_total e \<and> es_sizes e' = es_sizes e
    \<and> fe_leftover e' = fe_leftover e \<and> es_si e' = es_si e"
  using assms by (auto simp: emitFrame_def dest!: encodeChunk_keeps split: option.splits prod.splits)

theorem emit_failure_witness:
  "\<exists>e0 e' c'. NewFrameEncoder int_float small_cfg = Inr e0
    \<and> emitFrame int_float (\<lambda>bs. of_nat (length bs)) (\<lambda>buf n c. (Some (ErrIO 1), buf @ c)) small_pcm 3 True (e0, []) = (Some (ErrIO 1), e', c')
    \<and> es_frameNum e' = es_frameNum e0 \<and> c' \<noteq> []"
proof -
  obtain e0 where e0: "NewFrameEncoder int_float small_cfg = Inr e0" using small_encodable(4) by blast
  have T: "took int_float (\<lambda>bs. of_nat (length bs)) small_cfg [] (e0, [])"
    using NewFrameEncoder_took [OF e0 int_float_laws] by (simp add: tookWhole_def)
  have "nominal (es_sizes e0)" "encodable small_cfg ([] @ small_pcm)" using NewFrameEncoder_fields(4) [OF e0] small_encodable(3) by simp_all
  from took_next [OF T, of small_pcm 3 True] this small_encodable(2,5) obtain buf e1 where
    b: "encodeChunk int_float (\<lambda>bs. of_nat (length bs)) small_pcm 3 e0 = Some (buf, e1)"
      "took int_float (\<lambda>bs. of_nat (length bs)) small_cfg small_pcm (countFrame (length buf) 3 True (hashChunk small_pcm e1), [(buf, 3)])"
    by (auto simp: Let_def encoderBlockSize_def)
  have "buf \<noteq> []" using b(2) by (auto simp: took_def decodes_def be16_def elim: framed.cases)
  then show ?thesis
    using e0 emit_failure [of int_float "\<lambda>bs. of_nat (length bs)" "\<lambda>buf n c. (Some (ErrIO 1), buf @ c)" small_pcm 3 True e0 "[]" "ErrIO 1" e1 buf] b(1)
    by (intro exI [of _ e0] exI [of _ e1] exI [of _ buf]) (simp add: emitFrame_def)
qed

section \<open>Streams\<close>

text \<open>
  C1. The streaming encoder loses nothing: whole samples that fit the depth,
  written to a seekable file in pieces cut anywhere and closed, are what the one-shot decoder makes
  of the finished file, however its reads are cut; the decoded STREAMINFO names the format, the
  measured number of samples and the MD5 of the input. The encoder may be fresh or used before,
  and can be used again.
\<close>

theorem stream_roundtrip:
  assumes "encoderInput F cfg fileSink None (concat ps)" "reusableEncoder prev" "\<forall>bs. length (md5 bs) = 16"
    and "m \<le> 0 \<or> int (length (concat ps)) \<le> m"
  shows "\<exists>e f. encodeStream F cs md5 fileSink cfg ps (prev, emptyFile) = (None, Some e, f) \<and> reusableEncoder (Some e)
    \<and> (\<forall>src. src_bytes 0 (so_reads src) = (fl_data f, EOF) \<longrightarrow> measurable src \<longrightarrow>
         DecodeInterleavedLimit cs md5 (Some src) m [] = Some (Inr (concat ps), encodedInfo md5 cfg None (concat ps)))"
proof -
  from disk_stream [OF assms(1-3), of cs] obtain e f sm where
    e: "encodeStream F cs md5 fileSink cfg ps (prev, emptyFile) = (None, Some e, f)" "reusableEncoder (Some e)"
      "streamOf cs cfg (encodedInfo md5 cfg None (concat ps)) (concat ps) sm (fl_data f)" by blast
  note n = native_depth [of "[]" "si_BitDepth (cfgInfo cfg)"]
  have v: "validateConfig cfg = None" using assms(1) by (simp add: encoderInput_def)
  have "DecodeInterleavedLimit cs md5 (Some src) m [] = Some (Inr (concat ps), encodedInfo md5 cfg None (concat ps))"
    if "src_bytes 0 (so_reads src) = (fl_data f, EOF)" "measurable src" for src
    using streamOf_decoded(1) [OF e(3) v infoFor_encoded(1) [OF assms(1)] that n(1), of m] n(2) assms(4)
    by (simp add: lastConvert_def)
  then show ?thesis using e(1,2) by blast
qed

lemma small_input: "encoderInput int_float small_cfg w None small_pcm"
proof -
  have "metadataOk small_cfg w" by (simp add: metadataOk_def wantVorbisComment_def small_cfg_def)
  then show ?thesis by (simp add: encoderInput_def int_float_laws small_encodable)
qed

definition plainSource :: "u8 list \<Rightarrow> source" where
  "plainSource data = \<lparr>so_reads = bytesReader data, so_seeker = None\<rparr>"

lemma plainSource_ok: "src_bytes 0 (so_reads (plainSource data)) = (data, EOF)" "measurable (plainSource data)"
  by (simp_all add: plainSource_def measurable_def prod_eq_iff)

definition seven_md5 :: "u8 list \<Rightarrow> u8 list" where "seven_md5 _ = replicate 16 7"
definition length_crc :: "u8 list \<Rightarrow> u16" where "length_crc bs = of_nat (length bs)"

theorem stream_roundtrip_witness:
  "\<exists>e f info. encodeStream int_float length_crc seven_md5 fileSink small_cfg [[1], [0, 2, 0, 3, 0xFF, 4, 0x80], [], [5, 0, 6, 0x7F]] (None, emptyFile)
      = (None, Some e, f)
    \<and> DecodeInterleavedLimit length_crc seven_md5 (Some (plainSource (fl_data f))) 100 [] = Some (Inr small_pcm, info) \<and> si_TotalSamples info = 3"
proof -
  let ?ps = "[[1], [0, 2, 0, 3, 0xFF, 4, 0x80], [], [5, 0, 6, 0x7F]] :: u8 list list"
  have ps: "concat ?ps = small_pcm" by (simp add: small_pcm_def)
  have i: "encoderInput int_float small_cfg fileSink None (concat ?ps)" unfolding ps by (rule small_input)
  have "reusableEncoder (None :: int Encoder option)" "\<forall>bs. length (seven_md5 bs) = 16" by (simp_all add: reusableEncoder_def seven_md5_def)
  from stream_roundtrip [OF i this, of 100 length_crc] obtain e f where
    "encodeStream int_float length_crc seven_md5 fileSink small_cfg ?ps (None, emptyFile) = (None, Some e, f)"
    "DecodeInterleavedLimit length_crc seven_md5 (Some (plainSource (fl_data f))) 100 [] = Some (Inr small_pcm, encodedInfo seven_md5 small_cfg None small_pcm)"
    using plainSource_ok unfolding ps by (auto simp: small_encodable)
  then show ?thesis by (force simp: encodedInfo_def small_encodable)
qed

text \<open>
  C6. \<open>EncodeInterleaved\<close> followed by \<open>DecodeInterleavedLimit\<close>, over a memory
  buffer that cannot seek: the PCM comes back, rescaled sample by sample when the decoder is asked
  for another depth, and STREAMINFO, final from the first byte, carries the number of samples and the
  MD5 of the input. A ceiling that the decoded size keeps to does not get in the way.
\<close>

theorem oneshot_roundtrip:
  assumes "oneShotInput F cfg bufferSink pcm" "reusableEncoder prev" "\<forall>bs. length (md5 bs) = 16"
    and "outDepth opts (si_BitDepth (cfgInfo cfg)) = Some out"
    and "m \<le> 0 \<or> int (length (convertPcm (cfgBytesPS cfg) (si_BitDepth (cfgInfo cfg)) out pcm)) \<le> m"
  shows "\<exists>e data. EncodeInterleaved F cs md5 (Some bufferSink) cfg pcm (prev, []) = (None, Some e, data)
    \<and> (\<forall>src. src_bytes 0 (so_reads src) = (data, EOF) \<longrightarrow> measurable src \<longrightarrow>
         DecodeInterleavedLimit cs md5 (Some src) m opts =
           Some (Inr (convertPcm (cfgBytesPS cfg) (si_BitDepth (cfgInfo cfg)) out pcm), measuredInfo md5 cfg (cf_SkipMD5 cfg) pcm))"
proof -
  have "\<not> seekable bufferSink" by (simp add: seekable_def bufferSink_def)
  from buffer.oneshot_upfront [OF assms(1,2) _ _ assms(3) this, of "[]" cs] obtain e data sm where
    e: "EncodeInterleaved F cs md5 (Some bufferSink) cfg pcm (prev, []) = (None, Some e, data)"
      "streamOf cs cfg (measuredInfo md5 cfg (cf_SkipMD5 cfg) pcm) pcm sm data" by blast
  have v: "validateConfig (cfg\<lparr>cf_TotalSamples := 0\<rparr>) = None" using assms(1) by (simp add: oneShotInput_def)
  have "streamOf cs (cfg\<lparr>cf_TotalSamples := 0\<rparr>) (measuredInfo md5 cfg (cf_SkipMD5 cfg) pcm) pcm sm data" using e(2) by simp
  moreover have "infoFor md5 (cfg\<lparr>cf_TotalSamples := 0\<rparr>) pcm (measuredInfo md5 cfg (cf_SkipMD5 cfg) pcm)"
    using infoFor_measured [of md5 cfg pcm] by (simp add: infoFor_def sameFormat_def cfgInfo_def)
  moreover have "si_BitDepth (cfgInfo (cfg\<lparr>cf_TotalSamples := 0\<rparr>)) = si_BitDepth (cfgInfo cfg)" by (simp add: cfgInfo_def)
  ultimately show ?thesis
    using streamOf_decoded(1) [OF _ v, of cs _ pcm sm data md5 _ opts out m] e(1) assms(4,5) by (auto intro!: exI [of _ e] exI [of _ data])
qed

theorem oneshot_roundtrip_witness:
  "\<exists>e data info. EncodeInterleaved int_float length_crc seven_md5 (Some bufferSink) small_cfg small_pcm (None, []) = (None, Some e, data)
    \<and> DecodeInterleavedLimit length_crc seven_md5 (Some (plainSource data)) 6 [WithConvertTo 8] = Some (Inr [0, 0, 0xFF, 0x80, 0, 0x7F], info)
    \<and> si_MD5 info = replicate 16 7"
proof -
  have k: "cfgBytesPS small_cfg = 2" "si_BitDepth (cfgInfo small_cfg) = 16" by (simp_all add: small_cfg_def cfgBytesPS_def cfgInfo_def)
  have "validateConfig (small_cfg\<lparr>cf_TotalSamples := 0\<rparr>) = None"
    by (simp add: small_cfg_def validateConfig_def MaxSampleRate_def maxTotalSamples_def)
  moreover have "metadataOk small_cfg bufferSink" by (simp add: metadataOk_def wantVorbisComment_def small_cfg_def)
  ultimately have i: "oneShotInput int_float small_cfg bufferSink small_pcm"
    by (simp add: oneShotInput_def int_float_laws small_encodable)
  have o: "outDepth [WithConvertTo 8] (si_BitDepth (cfgInfo small_cfg)) = Some 8" by (simp add: outDepth_def lastConvert_def)
  have c: "convertPcm (cfgBytesPS small_cfg) (si_BitDepth (cfgInfo small_cfg)) 8 small_pcm = [0, 0, 0xFF, 0x80, 0, 0x7F]"
    
  proof -
    have d: "signed_drop_bit n x = word_of_int (sint x div 2 ^ n)" for n and x :: i32
    proof -
      have "signed_drop_bit n x = word_of_int (sint (signed_drop_bit n x))" by simp
      then show ?thesis by (simp add: sint_signed_drop_bit drop_bit_eq_div)
    qed
    have m: "ucast (- 1 :: i32) = (255 :: u8)" by code_simp
    show ?thesis
      unfolding k by (simp add: small_pcm_def convertPcm_def pcmSamples_def upt_rec sample_val_def rescale_def le_bytes_def d m)
  qed
  have "reusableEncoder (None :: int Encoder option)" "\<forall>bs. length (seven_md5 bs) = 16" by (simp_all add: reusableEncoder_def seven_md5_def)
  from oneshot_roundtrip [OF i this o, of 6 length_crc, unfolded c] obtain e data where
    e: "EncodeInterleaved int_float length_crc seven_md5 (Some bufferSink) small_cfg small_pcm (None, []) = (None, Some e, data)"
      "DecodeInterleavedLimit length_crc seven_md5 (Some (plainSource data)) 6 [WithConvertTo 8] =
        Some (Inr [0, 0, 0xFF, 0x80, 0, 0x7F], measuredInfo seven_md5 small_cfg (cf_SkipMD5 small_cfg) small_pcm)"
    using plainSource_ok by auto
  have "si_MD5 (measuredInfo seven_md5 small_cfg (cf_SkipMD5 small_cfg) small_pcm) = replicate 16 7"
    by (simp add: measuredInfo_def small_cfg_def seven_md5_def)
  then show ?thesis using e by blast
qed

section \<open>Decoders\<close>


definition diskSource :: "u8 list \<Rightarrow> source" where
  "diskSource data = \<lparr>so_reads = bytesReader data, so_seeker =
     Some \<lparr>sk_base = Inr 0, sk_resume = Inr 0, sk_end = Inr (length data), sk_restore = None,
       sk_at = (\<lambda>b. Inr (bytesReader (drop b data)))\<rparr>\<rparr>"

lemma diskSource_ok: "fileSource (diskSource data) data" "seekIn (diskSource data) b = Inr (bytesReader (drop b data))"
  by (simp_all add: diskSource_def fileSource_def servesFile_def seekIn_def prod_eq_iff)

lemma small_depth: "outDepth [] (si_BitDepth (cfgInfo small_cfg)) = Some 16" "convertPcm (cfgBytesPS small_cfg) (si_BitDepth (cfgInfo small_cfg)) 16 small_pcm = small_pcm"
  using native_depth [of "[]" "si_BitDepth (cfgInfo small_cfg)"] small_encodable by (simp_all add: lastConvert_def small_cfg_def cfgInfo_def)


text \<open>
  C9. Reading a stream piece by piece: a decoder opened on what the streaming encoder
  wrote to a plain buffer names the tags of the configuration, and any sequence of reads long enough
  delivers exactly the PCM, rescaled when asked for, then EOF; the pieces the source delivers and
  the sizes of the buffers do not matter.
\<close>

theorem stream_reads:
  assumes "encoderInput F cfg bufferSink None (concat ps)" "reusableEncoder prev" "\<forall>bs. length (md5 bs) = 16"
    and "outDepth opts (si_BitDepth (cfgInfo cfg)) = Some out"
  shows "\<exists>e data. encodeStream F cs md5 bufferSink cfg ps (prev, []) = (None, Some e, data)
    \<and> (\<forall>src. src_bytes 0 (so_reads src) = (data, EOF) \<longrightarrow> measurable src \<longrightarrow>
         (\<exists>d. NewDecoder (Some src) opts = Inr d \<and> decTags d = cf_Tags cfg
            \<and> readsAs cs md5 d (convertPcm (cfgBytesPS cfg) (si_BitDepth (cfgInfo cfg)) out (concat ps))))"
proof -
  from buffer_stream [OF assms(1-3), of cs] obtain e data sm where
    e: "encodeStream F cs md5 bufferSink cfg ps (prev, []) = (None, Some e, data)" "streamOf cs cfg (cfgInfo cfg) (concat ps) sm data" by blast
  have v: "validateConfig cfg = None" using assms(1) by (simp add: encoderInput_def)
  have I: "infoFor md5 cfg (concat ps) (cfgInfo cfg)" using infoFor_encoded(2) [OF assms(1), of md5] by (simp add: startInfo_def)
  show ?thesis
    using streamOf_decoded(2) [OF e(2) v I _ _ assms(4), where m = 0] serves_reads e(1) by blast
qed

theorem stream_reads_witness:
  "\<exists>e data d d'. encodeStream int_float length_crc seven_md5 bufferSink small_cfg [small_pcm] (None, []) = (None, Some e, data)
    \<and> NewDecoder (Some (plainSource data)) [] = Inr d
    \<and> readMany length_crc seven_md5 (replicate 20 7) d = Some (small_pcm, Some EOF, d')"
proof -
  have i: "encoderInput int_float small_cfg bufferSink None (concat [small_pcm])" by (simp add: small_input)
  have "reusableEncoder (None :: int Encoder option)" "\<forall>bs. length (seven_md5 bs) = 16" by (simp_all add: reusableEncoder_def seven_md5_def)
  from stream_reads [OF i this small_depth(1), of length_crc] obtain e data where
    "encodeStream int_float length_crc seven_md5 bufferSink small_cfg [small_pcm] (None, []) = (None, Some e, data)"
    "\<exists>d. NewDecoder (Some (plainSource data)) [] = Inr d \<and> readsAs length_crc seven_md5 d small_pcm"
    using plainSource_ok small_depth(2) by simp blast
  moreover have "list_all (\<lambda>k. 0 < k) (replicate 20 (7 :: nat))" "length small_pcm < length (replicate 20 (7 :: nat))"
    by (simp_all add: small_encodable list_all_length)
  ultimately show ?thesis unfolding readsAs_def by blast
qed

text \<open>
  C4. A successful one-shot decode at the native depth vouches for its output:
  unless STREAMINFO has no digest or verification is turned off, the MD5 of the bytes returned is
  the one in STREAMINFO, whatever the input was.
\<close>

theorem decode_checked:
  assumes "DecodeInterleavedLimit cs md5 r m opts = Some (Inr out, info)" "SkipMD5Verification \<notin> set opts"
    and "outDepth opts (si_BitDepth info) = Some (si_BitDepth info)" "si_MD5 info \<noteq> replicate 16 0"
  shows "md5 out = si_MD5 info"
  using DecodeInterleavedLimit_checked [OF assms(1-3)] assms(4) by (simp add: zeroMD5_def)

theorem decode_checked_witness:
  "\<exists>data out info. DecodeInterleavedLimit length_crc seven_md5 (Some (plainSource data)) 0 [] = Some (Inr out, info)
    \<and> out = small_pcm \<and> seven_md5 out = si_MD5 info"
proof -
  have i: "encoderInput int_float small_cfg fileSink None (concat [small_pcm])" by (simp add: small_input)
  have "reusableEncoder (None :: int Encoder option)" "\<forall>bs. length (seven_md5 bs) = 16" by (simp_all add: reusableEncoder_def seven_md5_def)
  from disk_stream [OF i this, of length_crc] obtain f :: fileState and sm where
    s: "streamOf length_crc small_cfg (encodedInfo seven_md5 small_cfg None small_pcm) small_pcm sm (fl_data f)"
    by (simp only: concat.simps append_Nil2) blast
  have k: "infoFor seven_md5 small_cfg small_pcm (encodedInfo seven_md5 small_cfg None small_pcm)"
    using infoFor_encoded(1) [OF i, of seven_md5] by simp
  have D: "DecodeInterleavedLimit length_crc seven_md5 (Some (plainSource (fl_data f))) 0 [] =
      Some (Inr small_pcm, encodedInfo seven_md5 small_cfg None small_pcm)"
    using streamOf_decoded(1) [OF s small_encodable(1) k plainSource_ok small_depth(1), of 0] small_depth(2) by simp
  have "si_MD5 (encodedInfo seven_md5 small_cfg None small_pcm) = replicate 16 7" "si_BitDepth (encodedInfo seven_md5 small_cfg None small_pcm) = 16"
    by (simp_all add: encodedInfo_def seven_md5_def) (simp_all add: small_cfg_def cfgInfo_def)
  moreover from this have "outDepth [] (si_BitDepth (encodedInfo seven_md5 small_cfg None small_pcm)) = Some (si_BitDepth (encodedInfo seven_md5 small_cfg None small_pcm))"
    by (simp add: native_depth lastConvert_def)
  ultimately show ?thesis using decode_checked [OF D] D by fastforce
qed

text \<open>
  C12. The one-shot decoder returns on every input: whatever a source delivers, in
  whatever pieces, with whatever ceiling and options, there is a result, data or an error.
\<close>

theorem decode_returns: "\<exists>r. DecodeInterleavedLimit cs md5 src m opts = Some r"
  by (rule DecodeInterleavedLimit_returns)

text \<open>
  C8. A decoder is safe to use: after construction and any sequence of reads,
  drains, seeks and resets, whatever they returned and whatever the sources did, it is in a state
  from which every further call returns. Neither a panic nor a loop that never ends is a return: both
  are \<open>None\<close> in the model. A drain asks of the writer what \<open>io.Writer\<close> promises, that it takes no more
  bytes than it is given; a seek asks that for its length the source is one file, whose reads and
  seeks may fail at any point and end anywhere.
\<close>

theorem decoder_sessions:
  assumes "NewDecoder (Some src) opts = Inr d0" "session cs md5 w d0 d" "\<forall>p s. fst (w p s) \<le> length p" "deliversFile seek data"
  shows "usable d \<and> (\<exists>r. decRead cs md5 k d = Some r) \<and> (\<exists>r. decWriteTo cs md5 w d s = Some r) \<and> (\<exists>r. SeekToSample cs seek i d = Some r)"
proof -
  have u: "usable d" by (rule session_usable [OF assms(2) NewDecoder_usable [OF assms(1)]])
  have "\<exists>r. decWriteTo cs md5 w d s = Some r" using decWriteTo_usable(2) [OF u] assms(3) by (simp add: takesAtMost_def)
  then show ?thesis using u decRead_usable [OF u, of cs md5 k] SeekToSample_returns [OF u assms(4), of cs i] by blast
qed

lemma small_file:
  obtains e f d where "encodeStream int_float length_crc seven_md5 fileSink small_cfg [small_pcm] (None, emptyFile) = (None, Some e, f)"
    "NewDecoder (Some (diskSource (fl_data f))) [] = Inr d" "de_seekable d" "de_streamEnd d = length (fl_data f)" "si_TotalSamples (de_info d) = 3"
proof -
  have i: "encoderInput int_float small_cfg fileSink None (concat [small_pcm])" by (simp add: small_input)
  have "reusableEncoder (None :: int Encoder option)" "\<forall>bs. length (seven_md5 bs) = 16" by (simp_all add: reusableEncoder_def seven_md5_def)
  from disk_stream [OF i this, of length_crc] obtain e f sm where
    e: "encodeStream int_float length_crc seven_md5 fileSink small_cfg [small_pcm] (None, emptyFile) = (None, Some e, f)"
      "streamOf length_crc small_cfg (encodedInfo seven_md5 small_cfg None small_pcm) small_pcm sm (fl_data f)"
    by (simp only: concat.simps append_Nil2) blast
  have s: "sameFormat (encodedInfo seven_md5 small_cfg None small_pcm) (cfgInfo small_cfg)"
    using infoFor_encoded(1) [OF i, of seven_md5] by (simp add: infoFor_def)
  from open_file [OF e(2) small_encodable(1) s small_encodable(3)] obtain hdr c where
    c: "fl_data f = fileOf hdr c" and op: "\<exists>d. NewDecoder (Some (diskSource (fl_data f))) [] = Inr d \<and> boundTo small_cfg c hdr d \<and> usable d
      \<and> de_info d = encodedInfo seven_md5 small_cfg None small_pcm \<and> de_outBits d = 16"
    using diskSource_ok(1) small_depth(1) by metis
  have "si_TotalSamples (encodedInfo seven_md5 small_cfg None small_pcm) = 3" by (simp add: encodedInfo_def small_encodable)
  then show thesis using that [OF e(1)] op c by (auto simp: boundTo_def)
qed

theorem decoder_sessions_witness:
  "\<exists>f d d1 d2 d3. NewDecoder (Some (diskSource (fl_data (f :: fileState)))) [] = Inr d
    \<and> decRead length_crc seven_md5 5 d = Some d1 \<and> SeekToSample length_crc (\<lambda>_. Inl ErrUsage) 2 (snd (snd d1)) = Some d2
    \<and> SeekToSample length_crc (\<lambda>b. Inr [Chunk (take 3 (drop b (fl_data f))) (Some ErrUsage)]) 1 (snd d2) = Some d3
    \<and> (\<exists>r. decRead length_crc seven_md5 9 (snd d3) = Some r)
    \<and> (\<exists>r. decWriteTo length_crc seven_md5 cappedWrite (snd d3) \<lparr>cw_buf = [], cw_n = 0, cw_max = 1\<rparr> = Some r)"
proof -
  obtain e f d where f: "encodeStream int_float length_crc seven_md5 fileSink small_cfg [small_pcm] (None, emptyFile) = (None, Some e, f)"
      "NewDecoder (Some (diskSource (fl_data f))) [] = Inr d" by (rule small_file)
  let ?broken = "\<lambda>b. Inr [Chunk (take 3 (drop b (fl_data f))) (Some ErrUsage)]"
  have w: "\<forall>p s. fst (cappedWrite p s) \<le> length p" by (simp add: cappedWrite_def)
  have none: "deliversFile (\<lambda>_. Inl ErrUsage) []" by (simp add: deliversFile_def)
  have some: "deliversFile ?broken (fl_data f)"
    by (simp add: deliversFile_def internalErr_def) (metis append_take_drop_id)
  note ok = decoder_sessions [OF f(2) _ w, where cs = length_crc and ?md5.0 = seven_md5]
  have 0: "session length_crc seven_md5 cappedWrite d d" by (rule session_start)
  from ok [OF 0 none, where k = 5] obtain out er d1 where r: "decRead length_crc seven_md5 5 d = Some (out, er, d1)" by (metis prod_cases3)
  have 1: "session length_crc seven_md5 cappedWrite d d1" by (rule session_read [OF 0 r])
  from ok [OF 1 none, where i = 2] obtain x d2 where
    s: "SeekToSample length_crc (\<lambda>_. Inl ErrUsage) 2 d1 = Some (x, d2)" by (metis surj_pair)
  have 2: "session length_crc seven_md5 cappedWrite d d2" by (rule session_seek [OF 1 s])
  from ok [OF 2 some, where i = 1] obtain y d3 where t: "SeekToSample length_crc ?broken 1 d2 = Some (y, d3)" by (metis surj_pair)
  have "session length_crc seven_md5 cappedWrite d d3" by (rule session_seek [OF 2 t])
  from ok [OF this none, where k = 9] f(2) r s t show ?thesis by fastforce
qed

text \<open>
  C14. What a seek comes to, in any file served to the decoder and after any calls before.
  A decoder that cannot seek and a negative target are refused, and nothing changes. A target at or
  behind the end that STREAMINFO states answers that end and leaves the decoder there. Every other seek
  answers a sample number and leaves a decoder without an error, or it reports a frame that is
  cut off: then the error sticks, nothing is pending, and somewhere behind the metadata the file does hold
  a sync code from which a decoder runs into the end of the file.
\<close>

theorem seek_outcome:
  assumes "NewDecoder (Some src) opts = Inr d0" "session cs md5 w d0 d" "servesFile seek data" "de_streamEnd d = length data"
  shows "\<exists>r d'. SeekToSample cs seek i d = Some (r, d')
    \<and> (if \<not> de_seekable d then r = Inl ErrSeekUnsupported \<and> d' = d
       else if i < 0 then r = Inl ErrInvalidSeek \<and> d' = d
       else if 0 < sint (si_TotalSamples (de_info d)) \<and> sint (si_TotalSamples (de_info d)) \<le> i then
         r = Inr (sint (si_TotalSamples (de_info d))) \<and> de_err d' = None \<and> de_pending d' = [] \<and> de_done d'
       else (\<exists>n. r = Inr n \<and> de_err d' = None)
         \<or> r = Inl errSeekFrameCut \<and> de_err d' = Some errSeekFrameCut \<and> de_pending d' = []
           \<and> (\<exists>q \<ge> de_audioStart d. q + 1 < length data \<and> syncAt (data ! q) (data ! (q + 1))
                \<and> fst (Decode cs (de_info d) (NewReader (bytesReader (drop q data)) fcReset)) = Inl ErrUnexpectedEOF))"
proof -
  have "usable d" by (rule session_usable [OF assms(2) NewDecoder_usable [OF assms(1)]])
  from SeekToSample_outcome [OF this _ assms(3,4), of i cs] show ?thesis
    by (auto simp: SeekToSample_def Let_def seekToEnd_def seekAnswer_def cutFrameAt_def not_less)
qed

theorem seek_outcome_witness:
  "\<exists>f d n d'. NewDecoder (Some (diskSource (fl_data (f :: fileState)))) [] = Inr d
    \<and> SeekToSample length_crc (\<lambda>b. Inr (bytesReader (drop b (fl_data f)))) (-1) d = Some (Inl ErrInvalidSeek, d)
    \<and> SeekToSample length_crc (\<lambda>b. Inr (bytesReader (drop b (fl_data f)))) 3 d = Some (Inr n, d') \<and> n = 3 \<and> de_done d'"
proof -
  obtain e f d where f: "encodeStream int_float length_crc seven_md5 fileSink small_cfg [small_pcm] (None, emptyFile) = (None, Some e, f)"
      "NewDecoder (Some (diskSource (fl_data f))) [] = Inr d" "de_seekable d" "de_streamEnd d = length (fl_data f)" "si_TotalSamples (de_info d) = 3"
    by (rule small_file)
  let ?seek = "\<lambda>b. Inr (bytesReader (drop b (fl_data f)))"
  have 0: "session length_crc seven_md5 cappedWrite d d" by (rule session_start)
  have srv: "servesFile ?seek (fl_data f)" by (simp add: servesFile_def prod_eq_iff)
  have "sint (3 :: u64) = 3" by simp
  then show ?thesis using f seek_outcome [OF f(2) 0 srv f(4), of "-1"] seek_outcome [OF f(2) 0 srv f(4), of 3] by auto
qed





section \<open>The WAV converter\<close>

text \<open>
  C29. The reader of WAV headers against the layout of the format. What it accepts is a RIFF
  header, chunks with their pad bytes among which is a format chunk, all format chunks carrying a
  tag it knows, and the header of a data chunk; it returns the fields of the last format chunk and
  the declared length, and leaves the source at the first byte of the data. Every file of the
  documented kind, integer samples of 16, 24 or 32 bits, is accepted. A format chunk that is too
  short or has another tag, such as that of IEEE float, is an error, whatever follows it.
\<close>

theorem wav_header:
  fixes n :: u32
  assumes "endsClean src"
  shows "(readWAVHeader src = (None, f, src') \<longrightarrow>
      (\<exists>riffSize cks sz. length riffSize = 4 \<and> wavOk False cks \<and> src_all src = wavBytes riffSize cks sz (src_all src')
        \<and> f = wavResult noFormat cks sz))
    \<and> (length riffSize = 4 \<and> wavOk False cks \<and> integerChunks cks \<and> src_all src = wavBytes riffSize cks sz rest \<longrightarrow>
      (\<exists>src'. readWAVHeader src = (None, wavResult noFormat cks sz, src') \<and> src_all src' = rest))
    \<and> (length riffSize = 4 \<and> list_all chunkOk cks \<and> length b = unat n \<and> (length b < 16 \<or> leField 0 2 b \<notin> {wavFormatPCM, wavFormatExtensible})
        \<and> src_all src = idRIFF @ riffSize @ idWAVE @ concat (map chunkBytes cks) @ idFmt @ le_bytes 4 n @ b @ rest \<longrightarrow>
      fst (readWAVHeader src) = Some ErrUsage)"
proof (intro conjI impI)
  assume "readWAVHeader src = (None, f, src')"
  from readWAVHeader_all [OF this] show "\<exists>riffSize cks sz. length riffSize = 4 \<and> wavOk False cks
    \<and> src_all src = wavBytes riffSize cks sz (src_all src') \<and> f = wavResult noFormat cks sz" by blast
next
  assume "length riffSize = 4 \<and> wavOk False cks \<and> integerChunks cks \<and> src_all src = wavBytes riffSize cks sz rest"
  then show "\<exists>src'. readWAVHeader src = (None, wavResult noFormat cks sz, src') \<and> src_all src' = rest"
    using readWAVHeader_ok [OF _ _ assms] by blast
qed (use readWAVHeader_reject [OF _ _ assms] in \<open>auto simp: supportedFormat_def\<close>)

definition small_chunks :: "(u8 list \<times> u8 list \<times> u8) list" where
  "small_chunks = [([0x4C, 0x49, 0x53, 0x54], [1, 2, 3], 0), (idFmt, [1, 0, 2, 0, 0x40, 0x1F, 0, 0, 0, 0x7D, 0, 0, 4, 0, 16, 0], 0)]"

definition small_format :: wavFormat where
  "small_format = \<lparr>wf_channels = 2, wf_sampleRate = 8000, wf_bitsPerSample = 16, wf_dataLen = 12\<rparr>"

definition small_wav :: "u8 list" where
  "small_wav = wavBytes [58, 0, 0, 0] small_chunks 12 (small_pcm @ [9, 9])"

definition float_wav :: "u8 list" where
  "float_wav = idRIFF @ [58, 0, 0, 0] @ idWAVE @ idFmt @ le_bytes 4 (16 :: u32)
     @ [3, 0, 2, 0, 0x40, 0x1F, 0, 0, 0, 0x7D, 0, 0, 8, 0, 32, 0] @ idData @ [0, 0, 0, 0]"

lemma small_integer: "integerChunks small_chunks"
  by (simp add: integerChunks_def small_chunks_def idFmt_def integerFormat_def leField_def wavFormatPCM_def)

lemma small_wav_parts:
  "wavOk False small_chunks" "wavResult noFormat small_chunks 12 = small_format" "wavData 12 (small_pcm @ [9, 9]) = small_pcm"
  "endsClean (bytesReader small_wav)" "src_all (bytesReader small_wav) = small_wav"
proof -
  show "wavOk False small_chunks"
    by (simp add: wavOk_def small_chunks_def idFmt_def idData_def supportedFormat_def leField_def wavFormatPCM_def)
  show "wavResult noFormat small_chunks 12 = small_format"
    by (simp add: wavResult_def small_chunks_def small_format_def noFormat_def formatOf_def leField_def dataLenOf_def idFmt_def)
  show "wavData 12 (small_pcm @ [9, 9]) = small_pcm" by (simp add: wavData_def dataLenOf_def small_pcm_def)
  show "endsClean (bytesReader small_wav)" "src_all (bytesReader small_wav) = small_wav" by (simp_all add: bytesReader_def)
qed

theorem wav_header_witness:
  "(\<exists>src'. readWAVHeader (bytesReader small_wav) = (None, small_format, src') \<and> src_all src' = small_pcm @ [9, 9])
    \<and> fst (readWAVHeader (bytesReader float_wav)) = Some ErrUsage"
proof -
  have "endsClean (bytesReader float_wav)" by (simp add: bytesReader_def)
  note H = wav_header [OF this, of _ _ "[58, 0, 0, 0]" "[]" _ _
      "[3, 0, 2, 0, 0x40, 0x1F, 0, 0, 0, 0x7D, 0, 0, 8, 0, 32, 0]" 16]
  have "fst (readWAVHeader (bytesReader float_wav)) = Some ErrUsage"
    by (rule conjunct2 [OF conjunct2 [OF H], THEN mp])
      (simp add: leField_def wavFormatPCM_def wavFormatExtensible_def bytesReader_def float_wav_def)
  moreover have "\<exists>src'. readWAVHeader (bytesReader small_wav) = (None, wavResult noFormat small_chunks 12, src') \<and> src_all src' = small_pcm @ [9, 9]"
    by (rule conjunct1 [OF conjunct2 [OF wav_header [OF small_wav_parts(4), of _ _ "[58, 0, 0, 0]" small_chunks 12 "small_pcm @ [9, 9]"]], THEN mp])
      (simp add: small_wav_parts small_integer, simp add: small_wav_def)
  ultimately show ?thesis by (simp add: small_wav_parts)
qed

text \<open>
  The reader looks at the tag alone: an extensible format of IEEE float samples (sub-format 3), which
  the command is documented to reject, passes for an integer format.
\<close>

lemma extensible_float_accepted:
  assumes "b = [0xFE, 0xFF, 1, 0, 0x40, 0x1F, 0, 0, 0, 0x7D, 0, 0, 4, 0, 32, 0, 22, 0, 32, 0, 4, 0, 0, 0] @ 3 # tl subtypePCM"
  shows "\<exists>src'. readWAVHeader (bytesReader (wavBytes [0, 0, 0, 0] [(idFmt, b, 0)] 8 rest))
      = (None, \<lparr>wf_channels = 1, wf_sampleRate = 8000, wf_bitsPerSample = 32, wf_dataLen = 8\<rparr>, src') \<and> src_all src' = rest"
    and "\<not> integerFormat b"
proof -
  have ok: "wavOk False [(idFmt, b, 0)]"
    by (simp add: wavOk_def assms subtypePCM_def supportedFormat_def leField_def wavFormatExtensible_def)
  have res: "wavResult noFormat [(idFmt, b, 0)] 8 = \<lparr>wf_channels = 1, wf_sampleRate = 8000, wf_bitsPerSample = 32, wf_dataLen = 8\<rparr>"
    by (simp add: wavResult_def assms formatOf_def leField_def noFormat_def dataLenOf_def)
  show "\<exists>src'. readWAVHeader (bytesReader (wavBytes [0, 0, 0, 0] [(idFmt, b, 0)] 8 rest))
      = (None, \<lparr>wf_channels = 1, wf_sampleRate = 8000, wf_bitsPerSample = 32, wf_dataLen = 8\<rparr>, src') \<and> src_all src' = rest"
    using readWAVHeader_ok [OF _ ok, of "[0, 0, 0, 0]" "bytesReader (wavBytes [0, 0, 0, 0] [(idFmt, b, 0)] 8 rest)" 8 rest]
    unfolding res by (auto simp: bytesReader_def)
  show "\<not> integerFormat b"
    by (simp add: integerFormat_def assms subtypePCM_def leField_def wavFormatPCM_def wavFormatExtensible_def)
qed



end
